(* ===== verification/Prelude.thy ===== *)
theory Prelude
  imports Main "HOL-Library.Word" "HOL-Library.Monad_Syntax" "HOL-Library.List_Lexorder"
begin

text \<open>
  Shared vocabulary of the development: Rust's three-way comparison, bias of a
  position, the fixed-capacity vectors of the tree nodes, and generic facts on
  lists and options that several components use.

  Conventions.  A function of the source that can panic (an \<open>unwrap\<close>, an index out
  of range, an \<open>assert!\<close>, a push to a full fixed-capacity vector, an unsigned
  subtraction below zero) returns an \<^typ>\<open>'a option\<close>, where \<^const>\<open>None\<close> is the
  panic.  \<open>debug_assert!\<close> checks are not part of the model.
\<close>

named_theorems panic_free \<open>operations that return on well-formed arguments\<close>
named_theorems flatten_simps \<open>what an operation does to the sequence of items\<close>

subsection \<open>Comparison and bias\<close>

datatype Ordering = Less | Equal | Greater

definition cmp :: "'a::linorder \<Rightarrow> 'a \<Rightarrow> Ordering" where
  "cmp a b = (if a < b then Less else if a = b then Equal else Greater)"

lemma cmp_simps [simp]:
  "cmp a b = Less \<longleftrightarrow> a < b"
  "cmp a b = Equal \<longleftrightarrow> a = b"
  "cmp a b = Greater \<longleftrightarrow> b < a"
  by (auto simp: cmp_def)

datatype Bias = Left | Right

definition Bias_invert :: "Bias \<Rightarrow> Bias" where
  "Bias_invert b = (case b of Left \<Rightarrow> Right | Right \<Rightarrow> Left)"

subsection \<open>Lists\<close>

text \<open>\<open>Vec::resize(n, 0)\<close>: truncate or pad with a default.\<close>

definition resize_with :: "'a \<Rightarrow> nat \<Rightarrow> 'a list \<Rightarrow> 'a list" where
  "resize_with d n xs = take n xs @ replicate (n - length xs) d"

lemma length_resize_with [simp]: "length (resize_with d n xs) = n"
  by (simp add: resize_with_def)

lemma nth_resize_with:
  "i < n \<Longrightarrow> resize_with d n xs ! i = (if i < length xs then xs ! i else d)"
  by (auto simp: resize_with_def nth_append)

lemma resize_with_same [simp]: "resize_with d (length xs) xs = xs"
  by (simp add: resize_with_def)

lemma nth_in_set_drop: "n \<le> i \<Longrightarrow> i < length xs \<Longrightarrow> xs ! i \<in> set (drop n xs)"
  using nth_mem [of "i - n" "drop n xs"] by simp

text \<open>\<open>slice.get(i)\<close>.\<close>

definition list_get :: "'a list \<Rightarrow> nat \<Rightarrow> 'a option" where
  "list_get xs i = (if i < length xs then Some (xs ! i) else None)"

lemma list_get_simps [simp]:
  "list_get [] i = None"
  "list_get (x # xs) 0 = Some x"
  "list_get (x # xs) (Suc i) = list_get xs i"
  by (simp_all add: list_get_def)

lemma list_get_append:
  "list_get (xs @ ys) i = (if i < length xs then list_get xs i else list_get ys (i - length xs))"
  by (auto simp: list_get_def nth_append)

lemma list_get_Some_iff: "list_get xs i = Some x \<longleftrightarrow> i < length xs \<and> xs ! i = x"
  by (simp add: list_get_def)

lemma list_get_None_iff: "list_get xs i = None \<longleftrightarrow> length xs \<le> i"
  by (simp add: list_get_def)

end
