(* ===== verification/Clock.thy ===== *)
theory Clock
  imports Prelude
begin

text \<open>
  Logical clocks of the collaborative buffer (\<open>crates/clock/src/clock.rs\<close>): Lamport
  timestamps and version vectors.  A replica id is a \<open>u16\<close> and a sequence number a
  \<open>u32\<close>, kept at their widths; arithmetic on them wraps as in a release build.
\<close>

unbundle bit_operations_syntax

section \<open>Replica ids and Lamport timestamps\<close>

type_synonym ReplicaId = "16 word"
type_synonym Seq = "32 word"

definition LOCAL :: ReplicaId where "LOCAL = 0"
definition REMOTE_SERVER :: ReplicaId where "REMOTE_SERVER = 1"
definition AGENT :: ReplicaId where "AGENT = 2"
definition LOCAL_BRANCH :: ReplicaId where "LOCAL_BRANCH = 3"
definition FIRST_COLLAB_ID :: ReplicaId where "FIRST_COLLAB_ID = 8"

definition is_remote :: "ReplicaId \<Rightarrow> bool" where
  "is_remote r \<longleftrightarrow> r = REMOTE_SERVER \<or> FIRST_COLLAB_ID \<le> r"

datatype Lamport = Lamport (lamport_value: Seq) (replica_id: ReplicaId)

text \<open>\<open>impl Ord for Lamport\<close>: by value, the replica id breaks ties.\<close>

definition Lamport_cmp :: "Lamport \<Rightarrow> Lamport \<Rightarrow> Ordering" where
  "Lamport_cmp a b =
     (case cmp (lamport_value a) (lamport_value b) of
        Equal \<Rightarrow> cmp (replica_id a) (replica_id b)
      | ord \<Rightarrow> ord)"

instantiation Lamport :: linorder
begin

definition less_Lamport :: "Lamport \<Rightarrow> Lamport \<Rightarrow> bool" where
  "less_Lamport a b \<longleftrightarrow> Lamport_cmp a b = Less"

definition less_eq_Lamport :: "Lamport \<Rightarrow> Lamport \<Rightarrow> bool" where
  "less_eq_Lamport a b \<longleftrightarrow> Lamport_cmp a b \<noteq> Greater"

instance
  by standard
    (auto simp: less_Lamport_def less_eq_Lamport_def Lamport_cmp_def cmp_def
      Lamport.expand split: if_splits)

end

definition Lamport_MIN :: Lamport where "Lamport_MIN = Lamport 0 0"
definition Lamport_MAX :: Lamport where "Lamport_MAX = Lamport (- 1) (- 1)"

definition Lamport_new :: "ReplicaId \<Rightarrow> Lamport" where
  "Lamport_new r = Lamport 1 r"

definition as_u64 :: "Lamport \<Rightarrow> 64 word" where
  "as_u64 t = push_bit 32 (ucast (lamport_value t)) OR ucast (replica_id t)"

text \<open>\<open>tick\<close> returns the old timestamp and advances the clock.\<close>

definition tick :: "Lamport \<Rightarrow> Lamport \<times> Lamport" where
  "tick c = (c, Lamport (lamport_value c + 1) (replica_id c))"

definition Lamport_observe :: "Lamport \<Rightarrow> Lamport \<Rightarrow> Lamport" where
  "Lamport_observe c t = Lamport (max (lamport_value c) (lamport_value t) + 1) (replica_id c)"

section \<open>Version vectors\<close>

record Global =
  vals :: "Seq list"

definition Global_new :: Global where
  "Global_new = \<lparr>vals = []\<rparr>"

definition Global_get :: "Global \<Rightarrow> ReplicaId \<Rightarrow> Seq" where
  "Global_get g r = (case list_get (vals g) (unat r) of Some v \<Rightarrow> v | None \<Rightarrow> 0)"

definition Global_observe :: "Global \<Rightarrow> Lamport \<Rightarrow> Global" where
  "Global_observe g t =
     (if 0 < lamport_value t then
        let new_len = unat (replica_id t) + 1;
            vs = (if length (vals g) < new_len then resize_with 0 new_len (vals g) else vals g);
            i = unat (replica_id t)
        in g\<lparr>vals := vs[i := max (vs ! i) (lamport_value t)]\<rparr>
      else g)"

text \<open>\<open>for (left, right) in self.values.iter_mut().zip(other)\<close>: the tail of the longer
  vector is left alone.\<close>

fun zip_update :: "('a \<Rightarrow> 'b \<Rightarrow> 'a) \<Rightarrow> 'a list \<Rightarrow> 'b list \<Rightarrow> 'a list" where
  "zip_update f (x # xs) (y # ys) = f x y # zip_update f xs ys"
| "zip_update f xs ys = xs"

text \<open>The common first step of \<open>join\<close> and \<open>meet\<close>: pad the left vector with zeros up to
  the length of the right one.\<close>

definition widen :: "Seq list \<Rightarrow> Seq list \<Rightarrow> Seq list" where
  "widen xs ys = (if length xs < length ys then resize_with 0 (length ys) xs else xs)"

definition Global_join :: "Global \<Rightarrow> Global \<Rightarrow> Global" where
  "Global_join g h =
     (let vs = widen (vals g) (vals h)
      in g\<lparr>vals := zip_update max vs (vals h)\<rparr>)"

definition meet_entry :: "Seq \<Rightarrow> Seq \<Rightarrow> Seq" where
  "meet_entry left right =
     (if left = 0 then right else if right = 0 then left else min left right)"

text \<open>The loop of \<open>meet\<close> also records one past the last non-zero entry it wrote
  (\<open>new_len\<close>), starting at index \<open>ix\<close>.\<close>

fun meet_loop :: "nat \<Rightarrow> nat \<Rightarrow> Seq list \<Rightarrow> Seq list \<Rightarrow> Seq list \<times> nat" where
  "meet_loop ix new_len (l # ls) (r # rs) =
     (let l' = meet_entry l r;
          (ls', n) = meet_loop (Suc ix) (if l' \<noteq> 0 then ix + 1 else new_len) ls rs
      in (l' # ls', n))"
| "meet_loop ix new_len ls rs = (ls, new_len)"

definition Global_meet :: "Global \<Rightarrow> Global \<Rightarrow> Global" where
  "Global_meet g h =
     (let vs = widen (vals g) (vals h);
          (vs', new_len) = meet_loop 0 0 vs (vals h)
      in g\<lparr>vals := (if length (vals h) = length vs' then take new_len vs' else vs')\<rparr>)"

definition Global_observed :: "Global \<Rightarrow> Lamport \<Rightarrow> bool" where
  "Global_observed g t \<longleftrightarrow> lamport_value t \<le> Global_get g (replica_id t)"

definition Global_iter :: "Global \<Rightarrow> Lamport list" where
  "Global_iter g = map (\<lambda>(i, seq). Lamport seq (word_of_nat i)) (enumerate 0 (vals g))"

definition observed_any :: "Global \<Rightarrow> Global \<Rightarrow> bool" where
  "observed_any g h \<longleftrightarrow>
     list_ex (\<lambda>(left, right). 0 < lamport_value right \<and> lamport_value right \<le> lamport_value left)
       (zip (Global_iter g) (Global_iter h))"

definition observed_all :: "Global \<Rightarrow> Global \<Rightarrow> bool" where
  "observed_all g h \<longleftrightarrow>
     \<not> length (vals g) < length (vals h) \<and>
     list_all (\<lambda>(left, right). lamport_value right \<le> lamport_value left)
       (zip (Global_iter g) (Global_iter h))"

definition changed_since :: "Global \<Rightarrow> Global \<Rightarrow> bool" where
  "changed_since g h \<longleftrightarrow>
     length (vals h) < length (vals g) \<or>
     list_ex (\<lambda>(left, right). right < left) (zip (vals g) (vals h))"

text \<open>\<open>Iterator::max_by_key\<close> keeps the last of several maximal elements.\<close>

fun max_by_key :: "('a \<Rightarrow> 'k::linorder) \<Rightarrow> 'a list \<Rightarrow> 'a option" where
  "max_by_key f [] = None"
| "max_by_key f (x # xs) =
     Some (foldl (\<lambda>best y. if f best \<le> f y then y else best) x xs)"

definition most_recent :: "Global \<Rightarrow> Lamport option" where
  "most_recent g = max_by_key lamport_value (Global_iter g)"

definition Global_from_iter :: "Lamport list \<Rightarrow> Global" where
  "Global_from_iter locals = foldl Global_observe Global_new locals"

section \<open>Properties of timestamps\<close>

lemma less_Lamport_iff:
  "a < b \<longleftrightarrow> lamport_value a < lamport_value b \<or>
     lamport_value a = lamport_value b \<and> replica_id a < replica_id b"
  by (auto simp: less_Lamport_def Lamport_cmp_def cmp_def split: if_splits)

lemma unat_less_length: "unat (x :: 'a::len word) < 2 ^ LENGTH('a)"
  by (rule unsigned_less)

lemma unat_as_u64: "unat (as_u64 t) = unat (lamport_value t) * 2 ^ 32 + unat (replica_id t)"
proof -
  have v: "unat (lamport_value t) < 2 ^ 32" and r: "unat (replica_id t) < 2 ^ 16"
    using unat_less_length [of "lamport_value t"] unat_less_length [of "replica_id t"] by simp_all
  have "as_u64 t = push_bit 32 (ucast (lamport_value t)) + ucast (replica_id t)"
    unfolding as_u64_def
    by (rule disjunctive_add [symmetric]) (auto simp: bit_simps dest: bit_imp_le_length)
  moreover have "unat (push_bit 32 (ucast (lamport_value t) :: 64 word)) = unat (lamport_value t) * 2 ^ 32"
    using v by (simp add: push_bit_eq_mult unat_word_ariths unsigned_ucast_eq take_bit_nat_eq_self)
  ultimately show ?thesis
    using v r by (simp add: unat_word_ariths unsigned_ucast_eq take_bit_nat_eq_self)
qed

text \<open>The packed 64-bit form of a timestamp orders timestamps exactly as
  \<open>Ord for Lamport\<close> does (and so is injective): comparing packed ids is comparing
  timestamps.\<close>

lemma as_u64_order: "as_u64 a < as_u64 b \<longleftrightarrow> a < b"
proof -
  have r: "unat (replica_id a) < 2 ^ 32" "unat (replica_id b) < 2 ^ 32"
    using unat_less_length [of "replica_id a"] unat_less_length [of "replica_id b"] by simp_all
  have "as_u64 a < as_u64 b \<longleftrightarrow>
      unat (lamport_value a) * 2 ^ 32 + unat (replica_id a)
      < unat (lamport_value b) * 2 ^ 32 + unat (replica_id b)"
    by (simp add: word_less_nat_alt unat_as_u64)
  also have "\<dots> \<longleftrightarrow> unat (lamport_value a) < unat (lamport_value b) \<or>
      unat (lamport_value a) = unat (lamport_value b) \<and> unat (replica_id a) < unat (replica_id b)"
    using r by (auto; linarith)
  finally show ?thesis
    by (simp add: less_Lamport_iff word_less_nat_alt word_unat_eq_iff)
qed

lemma Lamport_MIN_least: "Lamport_MIN \<le> t"
  by (cases t) (auto simp: Lamport_MIN_def not_less [symmetric] less_Lamport_iff)

lemma unat_Suc_less: "x \<noteq> - 1 \<Longrightarrow> unat (x + 1) = Suc (unat x)" for x :: "'a::len word"
  by (metis add.commute add_diff_cancel_right' diff_0 unatSuc)

text \<open>(C27) Lamport clock condition: while the sequence number has not reached the top of
  its range, \<open>tick\<close> hands out a timestamp older than every later one of the clock, and
  observing a remote timestamp moves the clock past both; the replica never changes.\<close>

theorem lamport_clock_condition:
  assumes "lamport_value c \<noteq> - 1" and "lamport_value t \<noteq> - 1"
  shows "fst (tick c) < snd (tick c) \<and> c < Lamport_observe c t \<and> t < Lamport_observe c t \<and>
    replica_id (snd (tick c)) = replica_id c \<and> replica_id (Lamport_observe c t) = replica_id c"
proof -
  let ?m = "max (lamport_value c) (lamport_value t)"
  have m: "?m \<noteq> - 1" using assms by (auto simp: max_def)
  have "unat (lamport_value c) \<le> unat ?m" "unat (lamport_value t) \<le> unat ?m"
    by (simp_all flip: word_le_nat_alt)
  then show ?thesis
    using unat_Suc_less [OF m] unat_Suc_less [OF assms(1)]
    by (simp add: tick_def Lamport_observe_def less_Lamport_iff word_less_nat_alt)
qed

theorem lamport_clock_condition_witness:
  "fst (tick (Lamport 3 0)) < snd (tick (Lamport 3 0)) \<and>
   Lamport 7 9 < Lamport_observe (Lamport 3 0) (Lamport 7 9)"
  using lamport_clock_condition [of "Lamport 3 0" "Lamport 7 9"] by simp

section \<open>Properties of version vectors\<close>

text \<open>Operations never leave a trailing zero: the vector is the canonical form of the
  function from replicas to sequence numbers.\<close>

definition normal :: "Global \<Rightarrow> bool" where
  "normal g \<longleftrightarrow> vals g = [] \<or> last (vals g) \<noteq> 0"

text \<open>Replica ids are 16 bits wide, so no vector is longer than \<open>2^16\<close>.\<close>

definition fits :: "Global \<Rightarrow> bool" where
  "fits g \<longleftrightarrow> length (vals g) \<le> 2 ^ 16"


lemma Global_get_eq:
  "Global_get g r = (if unat r < length (vals g) then vals g ! unat r else 0)"
  by (simp add: Global_get_def list_get_def)

lemma Global_get_index:
  "fits g \<Longrightarrow> i < length (vals g) \<Longrightarrow> Global_get g (word_of_nat i) = vals g ! i"
  by (simp add: Global_get_eq fits_def unat_of_nat)

lemma length_zip_update [simp]: "length (zip_update f xs ys) = length xs"
  by (induction f xs ys rule: zip_update.induct) auto

lemma nth_zip_update:
  "i < length xs \<Longrightarrow> zip_update f xs ys ! i = (if i < length ys then f (xs ! i) (ys ! i) else xs ! i)"
  by (induction f xs ys arbitrary: i rule: zip_update.induct) (auto simp: nth_Cons split: nat.splits)

lemma meet_loop_list: "fst (meet_loop ix n ls rs) = zip_update meet_entry ls rs"
  by (induction ix n ls rs rule: meet_loop.induct) (auto simp: Let_def split: prod.splits)

lemma meet_loop_len:
  assumes "meet_loop ix n ls rs = (ls', m)" and "length ls = length rs"
  shows "m = n \<and> (\<forall>x \<in> set ls'. x = 0) \<or>
    ix < m \<and> m \<le> ix + length ls' \<and> ls' ! (m - ix - 1) \<noteq> 0 \<and> (\<forall>x \<in> set (drop (m - ix) ls'). x = 0)"
  using assms
proof (induction ix n ls rs arbitrary: ls' m rule: meet_loop.induct)
  case (1 ix n l ls r rs)
  let ?l = "meet_entry l r"
  obtain ls1 where rec: "meet_loop (Suc ix) (if ?l \<noteq> 0 then ix + 1 else n) ls rs = (ls1, m)"
    and ls': "ls' = ?l # ls1"
    using "1.prems"(1) by (auto simp: Let_def split: prod.splits)
  have IH: "m = (if ?l \<noteq> 0 then ix + 1 else n) \<and> (\<forall>x \<in> set ls1. x = 0) \<or>
    Suc ix < m \<and> m \<le> Suc ix + length ls1 \<and> ls1 ! (m - Suc ix - 1) \<noteq> 0 \<and>
    (\<forall>x \<in> set (drop (m - Suc ix) ls1). x = 0)"
    using "1.IH" [OF refl rec] "1.prems"(2) by simp
  then show ?case
    by (auto simp: ls' nth_Cons' drop_Cons' Suc_diff_Suc split: if_splits)
qed auto

text \<open>The three updates act pointwise on the vector as a function of the replica.\<close>

lemma Global_get_observe:
  "Global_get (Global_observe g t) r =
     (if r = replica_id t then max (Global_get g r) (lamport_value t) else Global_get g r)"
proof (cases "0 < lamport_value t")
  case True
  have "r \<noteq> replica_id t \<Longrightarrow> unat r \<noteq> unat (replica_id t)"
    by (simp add: word_unat_eq_iff)
  with True show ?thesis
    by (auto simp: Global_observe_def Global_get_eq Let_def nth_resize_with nth_list_update)
qed (simp add: Global_observe_def word_gt_0)

lemma length_widen [simp]: "length (widen xs ys) = max (length xs) (length ys)"
  by (simp add: widen_def)

lemma nth_widen:
  "i < max (length xs) (length ys) \<Longrightarrow> widen xs ys ! i = (if i < length xs then xs ! i else 0)"
  by (auto simp: widen_def nth_resize_with)

lemma Global_get_join: "Global_get (Global_join g h) r = max (Global_get g r) (Global_get h r)"
  by (auto simp: Global_join_def Global_get_eq nth_zip_update nth_widen max_def)

text \<open>What \<open>meet\<close> stores: the pointwise merge, cut after its last non-zero entry when both
  vectors were processed to the end.\<close>

lemma Global_meet_vals:
  obtains vs n where "vs = zip_update meet_entry (widen (vals g) (vals h)) (vals h)"
    and "vals (Global_meet g h) = (if length (vals h) = length vs then take n vs else vs)"
    and "length (vals h) = length vs \<longrightarrow>
      n = 0 \<and> (\<forall>x \<in> set vs. x = 0) \<or>
      0 < n \<and> n \<le> length vs \<and> vs ! (n - 1) \<noteq> 0 \<and> (\<forall>x \<in> set (drop n vs). x = 0)"
proof -
  obtain vs n where loop: "meet_loop 0 0 (widen (vals g) (vals h)) (vals h) = (vs, n)"
    by fastforce
  have vs: "vs = zip_update meet_entry (widen (vals g) (vals h)) (vals h)"
    using meet_loop_list [of 0 0 "widen (vals g) (vals h)" "vals h"] loop by simp
  show ?thesis
  proof (rule that [OF vs])
    show "vals (Global_meet g h) = (if length (vals h) = length vs then take n vs else vs)"
      by (simp add: Global_meet_def loop)
    show "length (vals h) = length vs \<longrightarrow> n = 0 \<and> (\<forall>x \<in> set vs. x = 0) \<or>
      0 < n \<and> n \<le> length vs \<and> vs ! (n - 1) \<noteq> 0 \<and> (\<forall>x \<in> set (drop n vs). x = 0)"
    proof
      assume "length (vals h) = length vs"
      then have "length (widen (vals g) (vals h)) = length (vals h)"
        unfolding vs length_zip_update by (rule sym)
      from meet_loop_len [OF loop this]
      show "n = 0 \<and> (\<forall>x \<in> set vs. x = 0) \<or>
        0 < n \<and> n \<le> length vs \<and> vs ! (n - 1) \<noteq> 0 \<and> (\<forall>x \<in> set (drop n vs). x = 0)"
        by simp
    qed
  qed
qed

lemma Global_get_meet:
  "Global_get (Global_meet g h) r = meet_entry (Global_get g r) (Global_get h r)"
proof -
  obtain vs n where vs: "vs = zip_update meet_entry (widen (vals g) (vals h)) (vals h)"
    and eq: "vals (Global_meet g h) = (if length (vals h) = length vs then take n vs else vs)"
    and cut: "length (vals h) = length vs \<longrightarrow>
      n = 0 \<and> (\<forall>x \<in> set vs. x = 0) \<or>
      0 < n \<and> n \<le> length vs \<and> vs ! (n - 1) \<noteq> 0 \<and> (\<forall>x \<in> set (drop n vs). x = 0)"
    using Global_meet_vals [of g h] .
  have "vs ! i = 0" if "length (vals h) = length vs" "n \<le> i" "i < length vs" for i
    using cut that nth_in_set_drop [of n i vs] by auto
  then have "Global_get (Global_meet g h) r = (if unat r < length vs then vs ! unat r else 0)"
    by (auto simp: eq Global_get_eq not_less)
  then show ?thesis
    by (auto simp: vs nth_zip_update Global_get_eq nth_widen meet_entry_def)
qed

text \<open>The invariant: observing, joining and meeting keep the canonical form.\<close>

lemma normal_iff: "normal g \<longleftrightarrow> vals g = [] \<or> vals g ! (length (vals g) - 1) \<noteq> 0"
  by (auto simp: normal_def last_conv_nth)

lemma normal_Global_observe: "normal g \<Longrightarrow> normal (Global_observe g t)"
proof (cases "0 < lamport_value t \<and> length (vals g) \<le> Suc (unat (replica_id t))")
  case True
  then show ?thesis
    by (auto simp: normal_iff Global_observe_def Let_def nth_resize_with
        nth_list_update max_def not_less word_gt_0 split: if_splits)
next
  case False
  moreover assume "normal g"
  ultimately show ?thesis
    by (auto simp: normal_iff Global_observe_def Let_def nth_list_update)
qed

lemma normal_Global_join: "normal g \<Longrightarrow> normal h \<Longrightarrow> normal (Global_join g h)"
  by (auto simp: normal_iff Global_join_def nth_zip_update nth_widen max_def
      simp flip: length_greater_0_conv split: if_splits)

lemma normal_Global_meet:
  assumes "normal g" "normal h"
  shows "normal (Global_meet g h)"
proof -
  obtain vs n where vs: "vs = zip_update meet_entry (widen (vals g) (vals h)) (vals h)"
    and eq: "vals (Global_meet g h) = (if length (vals h) = length vs then take n vs else vs)"
    and cut: "length (vals h) = length vs \<longrightarrow>
      n = 0 \<and> (\<forall>x \<in> set vs. x = 0) \<or>
      0 < n \<and> n \<le> length vs \<and> vs ! (n - 1) \<noteq> 0 \<and> (\<forall>x \<in> set (drop n vs). x = 0)"
    using Global_meet_vals [of g h] .
  show ?thesis
  proof (cases "length (vals h) = length vs")
    case True
    with cut show ?thesis by (auto simp: normal_iff eq)
  next
    case False
    then have "length (vals h) < length (vals g)" using vs by simp
    with False assms show ?thesis by (auto simp: normal_iff eq vs nth_zip_update nth_widen max_def)
  qed
qed

lemma fits_Global_updates:
  "fits g \<Longrightarrow> fits (Global_observe g t)"
  "fits g \<Longrightarrow> fits h \<Longrightarrow> fits (Global_join g h)"
  using unat_less_length [of "replica_id t"]
  by (auto simp: fits_def Global_observe_def Global_join_def Let_def)

lemma fits_Global_meet: "fits g \<Longrightarrow> fits h \<Longrightarrow> fits (Global_meet g h)"
  by (rule Global_meet_vals [of g h]) (auto simp: fits_def)


text \<open>Every index of a vector is a replica id, so entries can be addressed either way.\<close>

lemma replica_of_index:
  assumes "fits g" "i < length (vals g)"
  obtains r :: ReplicaId where "unat r = i"
proof
  show "unat (word_of_nat i :: ReplicaId) = i"
    using assms by (simp add: unat_of_nat fits_def)
qed

text \<open>A canonical vector that is the longer one is witnessed by its last entry.\<close>

lemma normal_longer:
  assumes "normal g" "fits g" "length (vals h) < length (vals g)"
  obtains r where "Global_get h r = 0" and "0 < Global_get g r"
proof -
  obtain r :: ReplicaId where r: "unat r = length (vals g) - 1"
    by (rule replica_of_index [of g "length (vals g) - 1"]) (use assms in auto)
  show ?thesis
    by (rule that [of r]) (use assms r in \<open>auto simp: Global_get_eq normal_iff word_gt_0\<close>)
qed

text \<open>Two canonical vectors that agree on every replica are the same vector.\<close>

lemma Global_ext:
  assumes eq: "\<And>r. Global_get g r = Global_get h r"
    and "normal g" "normal h" "fits g" "fits h"
  shows "g = h"
proof -
  have len: "length (vals g) = length (vals h)"
  proof (rule ccontr)
    assume "\<not> ?thesis"
    then consider "length (vals h) < length (vals g)" | "length (vals g) < length (vals h)"
      by linarith
    then show False
      by cases (metis normal_longer assms less_irrefl)+
  qed
  then have "vals g = vals h"
    by (rule nth_equalityI) (metis assms(4,5) eq Global_get_eq len replica_of_index)
  then show ?thesis by simp
qed

lemma nth_Global_iter:
  "i < length (vals g) \<Longrightarrow> lamport_value (Global_iter g ! i) = vals g ! i"
  "length (Global_iter g) = length (vals g)"
  by (simp_all add: Global_iter_def nth_enumerate_eq)

lemma observed_all_iff:
  assumes "normal h" "fits h"
  shows "observed_all g h \<longleftrightarrow> (\<forall>r. Global_get h r \<le> Global_get g r)"
proof (cases "length (vals g) < length (vals h)")
  case True
  with assms obtain r where "Global_get g r = 0" "0 < Global_get h r" by (metis normal_longer)
  then have "\<not> Global_get h r \<le> Global_get g r" by (simp add: not_le)
  then show ?thesis using True by (auto simp: observed_all_def)
next
  case False
  then have "observed_all g h \<longleftrightarrow> (\<forall>i < length (vals h). vals h ! i \<le> vals g ! i)"
    by (auto simp: observed_all_def list_all_length nth_Global_iter)
  also have "\<dots> \<longleftrightarrow> (\<forall>r. Global_get h r \<le> Global_get g r)"
    using False assms by (auto simp: Global_get_eq split: if_splits) (metis replica_of_index)
  finally show ?thesis .
qed

lemma observed_any_iff:
  assumes "fits h"
  shows "observed_any g h \<longleftrightarrow> (\<exists>r. 0 < Global_get h r \<and> Global_get h r \<le> Global_get g r)"
proof -
  have "observed_any g h \<longleftrightarrow>
      (\<exists>i < length (vals h). i < length (vals g) \<and> 0 < vals h ! i \<and> vals h ! i \<le> vals g ! i)"
    by (auto simp: observed_any_def list_ex_length nth_Global_iter cong: conj_cong)
  also have "\<dots> \<longleftrightarrow> (\<exists>r. 0 < Global_get h r \<and> Global_get h r \<le> Global_get g r)"
    using assms by (auto simp: Global_get_eq split: if_splits) (metis replica_of_index)
  finally show ?thesis .
qed

lemma changed_since_iff:
  assumes "normal g" "fits g"
  shows "changed_since g h \<longleftrightarrow> \<not> observed_all h g"
  by (auto simp: changed_since_def observed_all_def list_ex_length list_all_length
      nth_Global_iter not_le)

text \<open>(C19) \<open>join\<close> is the least upper bound of version vectors and makes them converge: it
  is pointwise maximum on every replica, and on canonical vectors it is commutative,
  associative and idempotent as an operation on the stored vectors themselves.\<close>

theorem Global_join_semilattice:
  assumes "normal g" "normal h" "normal k" "fits g" "fits h" "fits k"
  shows "(\<forall>r. Global_get (Global_join g h) r = max (Global_get g r) (Global_get h r)) \<and>
    Global_join g h = Global_join h g \<and>
    Global_join (Global_join g h) k = Global_join g (Global_join h k) \<and>
    Global_join g g = g"
  using assms
  by (auto intro!: Global_ext simp: Global_get_join normal_Global_join fits_Global_updates
      max.commute max.left_commute)

theorem Global_join_semilattice_witness:
  "Global_join \<lparr>vals = [1, 0, 4]\<rparr> \<lparr>vals = [2]\<rparr> = Global_join \<lparr>vals = [2]\<rparr> \<lparr>vals = [1, 0, 4]\<rparr>"
  using Global_join_semilattice [of "\<lparr>vals = [1, 0, 4]\<rparr>" "\<lparr>vals = [2]\<rparr>" "\<lparr>vals = []\<rparr>"]
  by (simp add: normal_def fits_def)

text \<open>(C26) The comparisons decide the version order: on canonical vectors \<open>observed_all\<close> is
  the pointwise order, \<open>changed_since\<close> is its failure in the other direction, and
  \<open>observed_any\<close> holds exactly when some observed entry of the other vector is covered.\<close>

theorem Global_comparisons:
  assumes "normal g" "normal h" "fits g" "fits h"
  shows "(observed_all g h \<longleftrightarrow> (\<forall>r. Global_get h r \<le> Global_get g r)) \<and>
    (changed_since g h \<longleftrightarrow> (\<exists>r. Global_get h r < Global_get g r)) \<and>
    (observed_any g h \<longleftrightarrow> (\<exists>r. 0 < Global_get h r \<and> Global_get h r \<le> Global_get g r))"
  using assms
  by (auto simp: observed_all_iff changed_since_iff observed_any_iff not_le)

theorem Global_comparisons_witness:
  "changed_since \<lparr>vals = [1, 0, 4]\<rparr> \<lparr>vals = [2]\<rparr> \<and>
   (\<exists>r. Global_get \<lparr>vals = [2]\<rparr> r < Global_get \<lparr>vals = [1, 0, 4]\<rparr> r)"
proof -
  have "changed_since \<lparr>vals = [1, 0, 4]\<rparr> \<lparr>vals = [2]\<rparr>"
    by (simp add: changed_since_def)
  with Global_comparisons [of "\<lparr>vals = [1, 0, 4]\<rparr>" "\<lparr>vals = [2]\<rparr>"] show ?thesis
    by (simp add: normal_def fits_def)
qed

text \<open>Every update of a version vector keeps it canonical and within the replica range
  (the vector has no trailing zero, so equal contents are equal vectors), and acts
  pointwise: \<open>observe\<close> raises one entry, \<open>meet\<close> takes the minimum of the entries both
  sides have observed and the observed one otherwise.\<close>

lemma Global_updates_canonical:
  assumes "normal g" "normal h" "fits g" "fits h"
  shows "normal (Global_observe g t) \<and> fits (Global_observe g t) \<and>
    normal (Global_join g h) \<and> fits (Global_join g h) \<and>
    normal (Global_meet g h) \<and> fits (Global_meet g h) \<and>
    Global_get (Global_observe g t) r =
      (if r = replica_id t then max (Global_get g r) (lamport_value t) else Global_get g r) \<and>
    Global_get (Global_meet g h) r =
      (if Global_get g r = 0 then Global_get h r
       else if Global_get h r = 0 then Global_get g r
       else min (Global_get g r) (Global_get h r))"
  using assms
  by (simp add: normal_Global_observe normal_Global_join normal_Global_meet fits_Global_updates
      fits_Global_meet Global_get_observe Global_get_meet meet_entry_def)

lemma normal_Global_new: "normal Global_new" "fits Global_new"
  by (simp_all add: Global_new_def normal_def fits_def)

text \<open>Collecting timestamps observes each of them and nothing else.\<close>

lemma foldl_Global_observe:
  assumes "normal g" "fits g"
  shows "normal (foldl Global_observe g ts) \<and> fits (foldl Global_observe g ts) \<and>
    (Global_observed (foldl Global_observe g ts) t \<longleftrightarrow>
      Global_observed g t \<or> (\<exists>u \<in> set ts. replica_id u = replica_id t \<and> lamport_value t \<le> lamport_value u))"
  using assms
proof (induction ts arbitrary: g)
  case (Cons u ts)
  from Cons.IH [of "Global_observe g u"] Cons.prems show ?case
    by (auto simp: normal_Global_observe fits_Global_updates Global_observed_def Global_get_observe
        le_max_iff_disj)
qed simp

text \<open>A version vector collected from timestamps has observed a timestamp exactly when
  one of the collected timestamps of that replica is at least as recent.\<close>

lemma Global_from_iter_observed:
  "Global_observed (Global_from_iter ts) t \<longleftrightarrow>
     lamport_value t = 0 \<or>
     (\<exists>u \<in> set ts. replica_id u = replica_id t \<and> lamport_value t \<le> lamport_value u)"
  using foldl_Global_observe [OF normal_Global_new, of ts t]
  by (simp add: Global_from_iter_def Global_observed_def Global_get_eq Global_new_def)

end
