(* ===== verification/SumTree.thy ===== *)
theory SumTree
  imports Prelude
begin

text \<open>
  The summarised B+ tree that every sequence of the editor is stored in
  (\<open>crates/sum_tree/src/sum_tree.rs\<close>): its nodes, and the operations that build and
  join trees.

  A tree is a value: \<open>SumTree<T>\<close> is an \<open>Arc<Node<T>>\<close> and \<open>Arc::make_mut\<close> copies on
  write, so an operation on \<open>&mut self\<close> is a function from the old tree to the new one.
  The item type and its summary come with the operations of the traits \<open>Item\<close> and
  \<open>Summary\<close>, passed as one record; the summary context \<open>cx\<close>, which an operation only
  passes on, is part of these operations.  Heights (\<open>u8\<close> in the source) are natural
  numbers.
\<close>

section \<open>Traits, nodes and accessors\<close>

definition TREE_BASE :: nat where
  "TREE_BASE = 6"

record ('a, 's) summary_ops =
  item_summary :: "'a \<Rightarrow> 's"
  summary_zero :: 's
  add_summary :: "'s \<Rightarrow> 's \<Rightarrow> 's"

datatype ('a, 's) Node =
    Internal (node_height: nat) (node_summary: 's)
      (node_child_summaries: "'s list") (node_trees: "('a, 's) Node list")
  | Leaf (node_summary: 's) (leaf_items: "'a list") (node_child_summaries: "'s list")

type_synonym ('a, 's) Tree = "('a, 's) Node"

fun is_leaf :: "('a, 's) Node \<Rightarrow> bool" where
  "is_leaf (Leaf s xs ss) = True"
| "is_leaf (Internal h s ss ts) = False"

fun height :: "('a, 's) Node \<Rightarrow> nat" where
  "height (Internal h s ss ts) = h"
| "height (Leaf s xs ss) = 0"

abbreviation summary :: "('a, 's) Node \<Rightarrow> 's" where
  "summary \<equiv> node_summary"

abbreviation child_summaries :: "('a, 's) Node \<Rightarrow> 's list" where
  "child_summaries \<equiv> node_child_summaries"

fun child_trees :: "('a, 's) Node \<Rightarrow> ('a, 's) Node list option" where
  "child_trees (Internal h s ss ts) = Some ts"
| "child_trees (Leaf s xs ss) = None"

fun node_items :: "('a, 's) Node \<Rightarrow> 'a list option" where
  "node_items (Leaf s xs ss) = Some xs"
| "node_items (Internal h s ss ts) = None"

fun is_underflowing :: "('a, 's) Node \<Rightarrow> bool" where
  "is_underflowing (Internal h s ss ts) = (length ts < TREE_BASE)"
| "is_underflowing (Leaf s xs ss) = (length xs < TREE_BASE)"

fun is_empty :: "('a, 's) Tree \<Rightarrow> bool" where
  "is_empty (Internal h s ss ts) = False"
| "is_empty (Leaf s xs ss) = (xs = [])"

definition sum_summaries :: "('a, 's) summary_ops \<Rightarrow> 's list \<Rightarrow> 's" where
  "sum_summaries ops ss = foldl (add_summary ops) (summary_zero ops) ss"

text \<open>\<open>ArrayVec<_, {2 * TREE_BASE}>\<close>: collecting, extending or pushing past the capacity
  panics.\<close>

definition array_vec :: "'x list \<Rightarrow> 'x list option" where
  "array_vec xs = (if length xs \<le> 2 * TREE_BASE then Some xs else None)"

text \<open>\<open>*v.last_mut().unwrap() = x\<close> and \<open>*v.first_mut().unwrap() = x\<close>.\<close>

definition set_last :: "'x list \<Rightarrow> 'x \<Rightarrow> 'x list option" where
  "set_last xs x = (if xs = [] then None else Some (butlast xs @ [x]))"

definition set_first :: "'x list \<Rightarrow> 'x \<Rightarrow> 'x list option" where
  "set_first xs x = (case xs of [] \<Rightarrow> None | _ # ys \<Rightarrow> Some (x # ys))"

section \<open>Building trees\<close>

definition new_tree :: "('a, 's) summary_ops \<Rightarrow> ('a, 's) Tree" where
  "new_tree ops = Leaf (summary_zero ops) [] []"

definition from_summary :: "'s \<Rightarrow> ('a, 's) Tree" where
  "from_summary s = Leaf s [] []"

definition from_child_trees ::
  "('a, 's) summary_ops \<Rightarrow> ('a, 's) Tree \<Rightarrow> ('a, 's) Tree \<Rightarrow> ('a, 's) Tree" where
  "from_child_trees ops left right =
     (let ss = [summary left, summary right]
      in Internal (height left + 1) (sum_summaries ops ss) ss [left, right])"

lemma size_last_child [termination_simp]:
  "ts \<noteq> [] \<Longrightarrow> size (last ts) < Suc (n + size_list size ts)"
  by (induction ts) (auto simp: less_Suc_eq_le)

text \<open>The end of the internal case of \<open>push_tree_recursive\<close>: keep all children in one node
  if they fit, otherwise split them at the midpoint.\<close>

definition push_children ::
  "('a, 's) summary_ops \<Rightarrow> nat \<Rightarrow> 's \<Rightarrow> 's list \<Rightarrow> ('a, 's) Tree list \<Rightarrow>
   (('a, 's) Tree \<times> ('a, 's) Tree option) option" where
  "push_children ops h s all_summaries all_trees =
     (let child_count = length all_trees in
      if 2 * TREE_BASE < child_count then do {
        let midpoint = (child_count + child_count mod 2) div 2;
        left_summaries \<leftarrow> array_vec (take midpoint all_summaries);
        right_summaries \<leftarrow> array_vec (drop midpoint all_summaries);
        left_trees \<leftarrow> array_vec (take midpoint all_trees);
        right_trees \<leftarrow> array_vec (drop midpoint all_trees);
        Some (Internal h (sum_summaries ops left_summaries) left_summaries left_trees,
          Some (Internal h (sum_summaries ops right_summaries) right_summaries right_trees))
      } else do {
        css \<leftarrow> array_vec all_summaries;
        cts \<leftarrow> array_vec all_trees;
        Some (Internal h s css cts, None)
      })"

text \<open>\<open>push_tree_recursive\<close> appends \<open>other\<close> below the right edge of a tree that is at least
  as high; it returns the updated tree and, if the root had to be split, the new right
  sibling.\<close>

fun push_tree_recursive ::
  "('a, 's) summary_ops \<Rightarrow> ('a, 's) Tree \<Rightarrow> ('a, 's) Tree \<Rightarrow>
   (('a, 's) Tree \<times> ('a, 's) Tree option) option" where
  "push_tree_recursive ops (Internal h s css cts) other =
     do {
       let s' = add_summary ops s (summary other);
       (css', cts', summaries_to_append, trees_to_append) \<leftarrow>
         (if h < height other then None
          else if h - height other = 0 then
            do { ts \<leftarrow> child_trees other; Some (css, cts, child_summaries other, ts) }
          else if h - height other = 1 \<and> \<not> is_underflowing other then
            Some (css, cts, [summary other], [other])
          else if cts = [] then None
          else do {
            (last_child, split) \<leftarrow> push_tree_recursive ops (last cts) other;
            css1 \<leftarrow> set_last css (summary last_child);
            Some (css1, butlast cts @ [last_child],
              (case split of None \<Rightarrow> [] | Some t \<Rightarrow> [summary t]),
              (case split of None \<Rightarrow> [] | Some t \<Rightarrow> [t]))
          });
       push_children ops h s' (css' @ summaries_to_append) (cts' @ trees_to_append)
     }"
| "push_tree_recursive ops (Leaf s xs ss) other =
     do {
       ys \<leftarrow> node_items other;
       let child_count = length xs + length ys;
       if 2 * TREE_BASE < child_count then do {
         let midpoint = (child_count + child_count mod 2) div 2;
         left_items \<leftarrow> array_vec (take midpoint (xs @ ys));
         right_items \<leftarrow> array_vec (drop midpoint (xs @ ys));
         left_summaries \<leftarrow> array_vec (take midpoint (ss @ child_summaries other));
         right_summaries \<leftarrow> array_vec (drop midpoint (ss @ child_summaries other));
         Some (Leaf (sum_summaries ops left_summaries) left_items left_summaries,
           Some (Leaf (sum_summaries ops right_summaries) right_items right_summaries))
       } else do {
         items \<leftarrow> array_vec (xs @ ys);
         summaries \<leftarrow> array_vec (ss @ child_summaries other);
         Some (Leaf (add_summary ops s (summary other)) items summaries, None)
       }
     }"

text \<open>\<open>merge_into_right\<close> puts the contents of \<open>small\<close> in front of \<open>large\<close>; on overflow the
  first half becomes a new left sibling.\<close>

fun merge_into_right ::
  "('a, 's) summary_ops \<Rightarrow> ('a, 's) Tree \<Rightarrow> ('a, 's) Tree \<Rightarrow>
   (('a, 's) Tree \<times> ('a, 's) Tree option) option" where
  "merge_into_right ops (Internal h1 s1 css1 cts1) (Internal h s css cts) =
     (let total = length cts + length cts1 in
      if total \<le> 2 * TREE_BASE then do {
        all_trees \<leftarrow> array_vec (cts1 @ cts);
        all_summaries \<leftarrow> array_vec (css1 @ css);
        Some (Internal h (add_summary ops s1 s) all_summaries all_trees, None)
      } else do {
        let midpoint = (total + 1) div 2;
        left_trees \<leftarrow> array_vec (take midpoint (cts1 @ cts));
        trees \<leftarrow> array_vec (drop midpoint (cts1 @ cts));
        left_summaries \<leftarrow> array_vec (take midpoint (css1 @ css));
        summaries \<leftarrow> array_vec (drop midpoint (css1 @ css));
        Some (Internal h (sum_summaries ops summaries) summaries trees,
          Some (Internal h (sum_summaries ops left_summaries) left_summaries left_trees))
      })"
| "merge_into_right ops (Leaf s1 xs1 ss1) (Leaf s xs ss) =
     (let total = length xs1 + length xs in
      if total \<le> 2 * TREE_BASE then do {
        all_items \<leftarrow> array_vec (xs1 @ xs);
        all_summaries \<leftarrow> array_vec (ss1 @ ss);
        Some (Leaf (add_summary ops s1 s) all_items all_summaries, None)
      } else do {
        let midpoint = (total + 1) div 2;
        left_items \<leftarrow> array_vec (take midpoint (xs1 @ xs));
        items \<leftarrow> array_vec (drop midpoint (xs1 @ xs));
        left_summaries \<leftarrow> array_vec (take midpoint (ss1 @ ss));
        summaries \<leftarrow> array_vec (drop midpoint (ss1 @ ss));
        Some (Leaf (sum_summaries ops summaries) items summaries,
          Some (Leaf (sum_summaries ops left_summaries) left_items left_summaries))
      })"
| "merge_into_right ops _ _ = None"

text \<open>The end of \<open>append_large\<close>: the new left sibling of the first child, if there is one,
  becomes a child of the node, which splits when it is full.\<close>

definition prepend_child ::
  "('a, 's) summary_ops \<Rightarrow> nat \<Rightarrow> 's \<Rightarrow> 's list \<Rightarrow> ('a, 's) Tree list \<Rightarrow> ('a, 's) Tree option \<Rightarrow>
   (('a, 's) Tree \<times> ('a, 's) Tree option) option" where
  "prepend_child ops h full_summary css cts res =
     (case res of
       None \<Rightarrow> Some (Internal h full_summary css cts, None)
     | Some tree \<Rightarrow>
         if length cts < 2 * TREE_BASE then
           Some (Internal h full_summary (summary tree # css) (tree # cts), None)
         else do {
           new_summaries \<leftarrow> array_vec (summary tree # take TREE_BASE css);
           new_trees \<leftarrow> array_vec (tree # take TREE_BASE cts);
           let css' = drop TREE_BASE css;
           Some (Internal h (sum_summaries ops css') css' (drop TREE_BASE cts),
             Some (Internal h (sum_summaries ops new_summaries) new_summaries new_trees))
         })"

text \<open>\<open>append_large\<close> puts a lower tree in front of a higher one; the result is the updated
  higher tree and possibly a new left sibling.\<close>

function append_large ::
  "('a, 's) summary_ops \<Rightarrow> ('a, 's) Tree \<Rightarrow> ('a, 's) Tree \<Rightarrow>
   (('a, 's) Tree \<times> ('a, 's) Tree option) option" where
  "append_large ops small large =
     (if height small = height large then
        (if \<not> is_underflowing small then Some (large, Some small)
         else merge_into_right ops small large)
      else (case large of
        Leaf _ _ _ \<Rightarrow> None
      | Internal h s css cts \<Rightarrow>
          (case cts of
            [] \<Rightarrow> None
          | first # rest \<Rightarrow> do {
              let full_summary = add_summary ops (summary small) s;
              (first', res) \<leftarrow> append_large ops small first;
              css' \<leftarrow> set_first css (summary first');
              prepend_child ops h full_summary css' (first' # rest) res
            })))"
  by pat_completeness auto
termination
  by (relation "measure (\<lambda>(ops, small, large). size large)") auto

declare append_large.simps [simp del]

definition append_tree ::
  "('a, 's) summary_ops \<Rightarrow> ('a, 's) Tree \<Rightarrow> ('a, 's) Tree \<Rightarrow> ('a, 's) Tree option" where
  "append_tree ops self other =
     (if is_empty self then Some other
      else if \<not> is_empty other then
        (if height self < height other then do {
           (other', res) \<leftarrow> append_large ops self other;
           (case res of
             Some tree \<Rightarrow> Some (from_child_trees ops tree other')
           | None \<Rightarrow> Some other')
         } else do {
           (self', split) \<leftarrow> push_tree_recursive ops self other;
           (case split of
             Some split_tree \<Rightarrow> Some (from_child_trees ops self' split_tree)
           | None \<Rightarrow> Some self')
         })
      else Some self)"


section \<open>Well-formed trees\<close>

text \<open>The sequence of items a tree stores.\<close>

fun flatten :: "('a, 's) Tree \<Rightarrow> 'a list" where
  "flatten (Leaf s xs ss) = xs"
| "flatten (Internal h s ss ts) = concat (map flatten ts)"

definition items_summary :: "('a, 's) summary_ops \<Rightarrow> 'a list \<Rightarrow> 's" where
  "items_summary ops xs = sum_summaries ops (map (item_summary ops) xs)"

text \<open>The invariant of the tree: nodes within capacity, cached summaries equal to what they
  cache, children of equal height, no empty child.\<close>

fun wf_tree :: "('a, 's) summary_ops \<Rightarrow> ('a, 's) Tree \<Rightarrow> bool" where
  "wf_tree ops (Leaf s xs ss) \<longleftrightarrow>
     length xs \<le> 2 * TREE_BASE \<and> ss = map (item_summary ops) xs \<and> s = sum_summaries ops ss"
| "wf_tree ops (Internal h s ss ts) \<longleftrightarrow>
     ts \<noteq> [] \<and> length ts \<le> 2 * TREE_BASE \<and> ss = map summary ts \<and> s = sum_summaries ops ss \<and>
     list_all (\<lambda>t. wf_tree ops t \<and> Suc (height t) = h \<and> \<not> is_empty t) ts"

definition child_ok :: "('a, 's) summary_ops \<Rightarrow> nat \<Rightarrow> ('a, 's) Tree \<Rightarrow> bool" where
  "child_ok ops h t \<longleftrightarrow> wf_tree ops t \<and> height t = h \<and> \<not> is_empty t"

text \<open>What \<open>push_tree_recursive\<close> and \<open>append_large\<close> promise of the node they leave and of the
  sibling they may return.\<close>

definition joined_right ::
  "('a, 's) summary_ops \<Rightarrow> nat \<Rightarrow> 'a list \<Rightarrow> ('a, 's) Tree \<times> ('a, 's) Tree option \<Rightarrow> bool" where
  "joined_right ops h xs p \<longleftrightarrow> child_ok ops h (fst p) \<and>
     (case snd p of None \<Rightarrow> flatten (fst p) = xs
      | Some t \<Rightarrow> child_ok ops h t \<and> flatten (fst p) @ flatten t = xs)"

definition joined_left ::
  "('a, 's) summary_ops \<Rightarrow> nat \<Rightarrow> 'a list \<Rightarrow> ('a, 's) Tree \<times> ('a, 's) Tree option \<Rightarrow> bool" where
  "joined_left ops h xs p \<longleftrightarrow> child_ok ops h (fst p) \<and>
     (case snd p of None \<Rightarrow> flatten (fst p) = xs
      | Some t \<Rightarrow> child_ok ops h t \<and> flatten t @ flatten (fst p) = xs)"

section \<open>The contract of a summary\<close>

text \<open>What \<open>Summary\<close> implementations promise: adding is associative and zero is neutral on
  the left.  Zero need not be neutral on the right: adding the summary of a map key or of
  a locator replaces the accumulated value.\<close>

locale summary_algebra =
  fixes ops :: "('a, 's) summary_ops"
  assumes add_assoc:
    "add_summary ops (add_summary ops a b) c = add_summary ops a (add_summary ops b c)"
  and zero_left: "add_summary ops (summary_zero ops) a = a"
begin

lemma foldl_add:
  "ss \<noteq> [] \<Longrightarrow> foldl (add_summary ops) a ss = add_summary ops a (sum_summaries ops ss)"
proof (induction ss arbitrary: a rule: rev_induct)
  case (snoc s ss)
  show ?case
  proof (cases "ss = []")
    case False
    with snoc.IH [of a] show ?thesis by (simp add: sum_summaries_def add_assoc)
  qed (simp add: sum_summaries_def zero_left)
qed simp

lemma sum_append:
  "ts \<noteq> [] \<Longrightarrow> sum_summaries ops (ss @ ts) = add_summary ops (sum_summaries ops ss) (sum_summaries ops ts)"
  using foldl_add [of ts "sum_summaries ops ss"] by (simp add: sum_summaries_def)

lemma sum_Nil: "sum_summaries ops [] = summary_zero ops"
  by (simp add: sum_summaries_def)

lemma sum_single: "sum_summaries ops [s] = s"
  by (simp add: sum_summaries_def zero_left)

lemma sum_Cons: "ss \<noteq> [] \<Longrightarrow> sum_summaries ops (s # ss) = add_summary ops s (sum_summaries ops ss)"
  using sum_append [of ss "[s]"] by (simp add: sum_single)

lemma items_summary_append:
  "ys \<noteq> [] \<Longrightarrow> items_summary ops (xs @ ys) = add_summary ops (items_summary ops xs) (items_summary ops ys)"
  by (simp add: items_summary_def sum_append)

lemma is_empty_flatten: "wf_tree ops t \<Longrightarrow> is_empty t \<longleftrightarrow> flatten t = []"
proof (induction t)
  case (Internal h s ss ts)
  then show ?case by (cases ts) (auto simp: list_all_iff)
qed auto

lemma sum_children:
  assumes "\<And>t. t \<in> set ts \<Longrightarrow> summary t = items_summary ops (flatten t) \<and> flatten t \<noteq> []"
  shows "sum_summaries ops (map summary ts) = items_summary ops (concat (map flatten ts))"
  using assms
proof (induction ts rule: rev_induct)
  case (snoc t ts)
  then have "sum_summaries ops (map summary (ts @ [t])) =
      add_summary ops (items_summary ops (concat (map flatten ts))) (items_summary ops (flatten t))"
    by (simp add: sum_append sum_single)
  with snoc.prems show ?case by (simp add: items_summary_append)
qed (simp add: items_summary_def)

lemma wf_summary: "wf_tree ops t \<Longrightarrow> summary t = items_summary ops (flatten t)"
proof (induction t)
  case (Internal h s ss ts)
  then show ?case
    using sum_children [of ts] is_empty_flatten by (auto simp: list_all_iff)
qed (simp add: items_summary_def)

lemma child_ok_flatten: "child_ok ops h t \<Longrightarrow> flatten t \<noteq> []"
  using is_empty_flatten by (auto simp: child_ok_def)

lemma child_ok_summary: "child_ok ops h t \<Longrightarrow> summary t = items_summary ops (flatten t)"
  by (simp add: child_ok_def wf_summary)

text \<open>An internal node is well formed as soon as its children are and its own summary is
  that of its items.\<close>

lemma child_ok_Internal:
  "child_ok ops (Suc h) (Internal h' s ss ts) \<longleftrightarrow>
     h' = Suc h \<and> ts \<noteq> [] \<and> length ts \<le> 2 * TREE_BASE \<and> ss = map summary ts \<and>
     s = items_summary ops (concat (map flatten ts)) \<and> list_all (child_ok ops h) ts"
proof -
  have "sum_summaries ops (map summary ts) = items_summary ops (concat (map flatten ts))"
    if "list_all (child_ok ops h) ts"
    using that by (intro sum_children) (auto simp: list_all_iff child_ok_summary child_ok_flatten)
  then show ?thesis by (auto simp: child_ok_def list_all_iff)
qed

lemma child_ok_Leaf:
  "child_ok ops h (Leaf s xs ss) \<longleftrightarrow>
     h = 0 \<and> xs \<noteq> [] \<and> length xs \<le> 2 * TREE_BASE \<and> ss = map (item_summary ops) xs \<and>
     s = items_summary ops xs"
  by (auto simp: child_ok_def items_summary_def)

text \<open>Cutting an over-full node at its midpoint leaves two nodes within capacity.\<close>

lemma midpoint_bounds:
  assumes "2 * TREE_BASE < n" "n \<le> 4 * TREE_BASE"
  shows "0 < (n + n mod 2) div 2" "(n + n mod 2) div 2 < n"
    "(n + n mod 2) div 2 \<le> 2 * TREE_BASE" "n - (n + n mod 2) div 2 \<le> 2 * TREE_BASE"
    "(n + 1) div 2 = (n + n mod 2) div 2"
  using assms by (auto simp: TREE_BASE_def; presburger)+

lemma concat_map_take_drop:
  "concat (map f (take n xs)) @ concat (map f (drop n xs)) = concat (map f xs)"
  by (metis append_take_drop_id concat_append map_append)

lemma list_all_take_drop:
  "list_all P xs \<Longrightarrow> list_all P (take n xs) \<and> list_all P (drop n xs)"
  by (auto simp: list_all_iff dest: in_set_takeD in_set_dropD)

lemma children_node:
  assumes "list_all (child_ok ops h) ts" "ts \<noteq> []" "length ts \<le> 2 * TREE_BASE"
  shows "child_ok ops (Suc h) (Internal (Suc h) (sum_summaries ops (map summary ts)) (map summary ts) ts)"
proof -
  have "sum_summaries ops (map summary ts) = items_summary ops (concat (map flatten ts))"
    using assms by (intro sum_children) (auto simp: list_all_iff child_ok_summary child_ok_flatten)
  with assms show ?thesis by (simp add: child_ok_Internal)
qed

lemma push_children_ok:
  assumes ok: "list_all (child_ok ops h) ts" "ts \<noteq> []" "length ts \<le> 4 * TREE_BASE"
    and s: "s = items_summary ops (concat (map flatten ts))"
  shows "\<exists>p. push_children ops (Suc h) s (map summary ts) ts = Some p \<and>
    joined_right ops (Suc h) (concat (map flatten ts)) p"
proof (cases "2 * TREE_BASE < length ts")
  case True
  let ?m = "(length ts + length ts mod 2) div 2"
  have m: "0 < ?m" "?m < length ts" "?m \<le> 2 * TREE_BASE" "length ts - ?m \<le> 2 * TREE_BASE"
    using midpoint_bounds [OF True ok(3)] by blast+
  have "child_ok ops (Suc h) (Internal (Suc h) (sum_summaries ops (map summary us)) (map summary us) us)"
    if "us = take ?m ts \<or> us = drop ?m ts" for us
    using that m list_all_take_drop [OF ok(1), of ?m] by (intro children_node) auto
  then show ?thesis
    using True m by (simp add: push_children_def array_vec_def joined_right_def take_map drop_map
        concat_map_take_drop Let_def)
next
  case False
  with ok s show ?thesis
    by (simp add: push_children_def array_vec_def joined_right_def child_ok_Internal)
qed

lemma push_leaf_ok:
  assumes "child_ok ops 0 (Leaf s xs ss)" "child_ok ops 0 other"
  shows "\<exists>p. push_tree_recursive ops (Leaf s xs ss) other = Some p \<and>
    joined_right ops 0 (xs @ flatten other) p"
proof -
  obtain s' ys where other: "other = Leaf s' ys (map (item_summary ops) ys)"
    using assms(2) by (cases other) (auto simp: child_ok_def list_all_iff neq_Nil_conv)
  let ?zs = "xs @ ys" and ?m = "(length xs + length ys + (length xs + length ys) mod 2) div 2"
  have ys: "ys \<noteq> []" "length ys \<le> 2 * TREE_BASE" "s' = items_summary ops ys"
    and xs: "xs \<noteq> []" "length xs \<le> 2 * TREE_BASE" "ss = map (item_summary ops) xs" "s = items_summary ops xs"
    using assms by (auto simp: other child_ok_Leaf)
  show ?thesis
  proof (cases "2 * TREE_BASE < length ?zs")
    case True
    have m: "0 < ?m" "?m < length ?zs" "?m \<le> 2 * TREE_BASE" "length ?zs - ?m \<le> 2 * TREE_BASE"
      using midpoint_bounds [OF True] xs(2) ys(2) by simp_all
    have "map (item_summary ops) xs @ map (item_summary ops) ys = map (item_summary ops) ?zs" by simp
    with True m show ?thesis
      unfolding other
      by (simp add: array_vec_def joined_right_def child_ok_Leaf xs(1,3) items_summary_def
          take_map drop_map Let_def del: map_append take_append drop_append)
  next
    case False
    with xs ys show ?thesis
      by (simp add: other array_vec_def joined_right_def child_ok_Leaf items_summary_append)
  qed
qed

lemma flatten_last:
  "ts \<noteq> [] \<Longrightarrow> concat (map flatten (butlast ts)) @ flatten (last ts) = concat (map flatten ts)"
  by (induction ts) auto

lemma child_ok_height_cases:
  assumes "child_ok ops h t"
  obtains s xs ss where "t = Leaf s xs ss" "h = 0"
  | k s ss ts where "t = Internal (Suc k) s ss ts" "h = Suc k"
  using assms by (cases t) (auto simp: child_ok_def list_all_iff neq_Nil_conv)

lemma push_tree_recursive_ok:
  assumes "child_ok ops h t" "child_ok ops k other" "k \<le> h"
  shows "\<exists>p. push_tree_recursive ops t other = Some p \<and> joined_right ops h (flatten t @ flatten other) p"
  using assms
proof (induction t arbitrary: h)
  case (Internal h' s css cts)
  obtain hc where h: "h = Suc hc" "h' = Suc hc"
    using Internal.prems(1) by (auto elim: child_ok_height_cases)
  have cts: "cts \<noteq> []" "length cts \<le> 2 * TREE_BASE" "css = map summary cts"
    "s = items_summary ops (concat (map flatten cts))" "list_all (child_ok ops hc) cts"
    using Internal.prems(1) by (auto simp: h child_ok_Internal)
  have other: "height other = k" "flatten other \<noteq> []" "summary other = items_summary ops (flatten other)"
    using Internal.prems(2) child_ok_flatten child_ok_summary by (auto simp: child_ok_def)
  have finish: "\<exists>p. push_children ops (Suc hc) (add_summary ops s (summary other)) (map summary ts) ts
      = Some p \<and> joined_right ops h (flatten (Internal h' s css cts) @ flatten other) p"
    if "list_all (child_ok ops hc) ts" "ts \<noteq> []" "length ts \<le> 4 * TREE_BASE"
      "concat (map flatten ts) = concat (map flatten cts) @ flatten other" for ts
    using push_children_ok [OF that(1-3) refl] that(4) other cts(4)
    by (simp add: h items_summary_append)
  have len: "length cts + 2 \<le> 4 * TREE_BASE" using cts(2) by (simp add: TREE_BASE_def)
  consider "k = Suc hc" | "k = hc" "\<not> is_underflowing other" | "k \<le> hc" "k < hc \<or> is_underflowing other"
    using Internal.prems(3) h by linarith
  then show ?case
  proof cases
    case 1
    then obtain so sso tso where o: "other = Internal (Suc hc) so sso tso"
      using Internal.prems(2) by (auto elim: child_ok_height_cases)
    with Internal.prems(2) 1 have "tso \<noteq> []" "length tso \<le> 2 * TREE_BASE" "sso = map summary tso"
      "list_all (child_ok ops hc) tso" by (auto simp: child_ok_Internal)
    with finish [of "cts @ tso"] cts show ?thesis by (simp add: h o)
  next
    case 2
    with finish [of "cts @ [other]"] cts len Internal.prems(2) other show ?thesis by (simp add: h)
  next
    case 3
    have last: "last cts \<in> set cts" "child_ok ops hc (last cts)"
      using cts by (auto simp: list_all_iff)
    obtain l r where rec: "push_tree_recursive ops (last cts) other = Some (l, r)"
      and join: "joined_right ops hc (flatten (last cts) @ flatten other) (l, r)"
      using Internal.IH [OF last Internal.prems(2) 3(1)] by auto
    let ?ts = "butlast cts @ l # (case r of None \<Rightarrow> [] | Some t \<Rightarrow> [t])"
    have "list_all (child_ok ops hc) ?ts"
      using join cts(5) by (auto simp: joined_right_def list_all_iff dest: in_set_butlastD split: option.splits)
    moreover have "concat (map flatten ?ts) = concat (map flatten cts) @ flatten other"
      using join flatten_last [OF cts(1), symmetric] by (auto simp: joined_right_def split: option.splits)
    ultimately show ?thesis
      using finish [of ?ts] len 3 cts other
      by (auto simp: h rec set_last_def map_butlast split: option.splits)
  qed
next
  case (Leaf s xs ss)
  then have "h = 0" "k = 0" by (auto simp: child_ok_Leaf)
  with Leaf.prems push_leaf_ok show ?case by simp
qed

lemma merge_into_right_ok:
  assumes "child_ok ops h small" "child_ok ops h large" "is_underflowing small"
  shows "\<exists>p. merge_into_right ops small large = Some p \<and>
    joined_left ops h (flatten small @ flatten large) p"
  using assms(1)
proof (cases rule: child_ok_height_cases)
  case (1 s1 xs1 ss1)
  obtain s xs where large: "large = Leaf s xs (map (item_summary ops) xs)"
    using assms(2) 1(2) by (cases large) (auto simp: child_ok_Leaf elim: child_ok_height_cases)
  let ?zs = "xs1 @ xs" and ?m = "(length xs1 + length xs + 1) div 2"
  have xs: "xs \<noteq> []" "length xs \<le> 2 * TREE_BASE" "s = items_summary ops xs"
    "xs1 \<noteq> []" "length xs1 \<le> 2 * TREE_BASE" "s1 = items_summary ops xs1" "ss1 = map (item_summary ops) xs1"
    using assms by (auto simp: 1 large child_ok_Leaf)
  show ?thesis
  proof (cases "length ?zs \<le> 2 * TREE_BASE")
    case False
    then have m: "0 < ?m" "?m < length ?zs" "?m \<le> 2 * TREE_BASE" "length ?zs - ?m \<le> 2 * TREE_BASE"
      using midpoint_bounds [of "length ?zs"] xs(2,5) by simp_all
    have "map (item_summary ops) xs1 @ map (item_summary ops) xs = map (item_summary ops) ?zs" by simp
    with False m show ?thesis
      unfolding 1 large
      by (simp add: array_vec_def joined_left_def child_ok_Leaf xs(1,4,7) items_summary_def
          take_map drop_map Let_def del: map_append take_append drop_append)
  qed (use xs in \<open>simp add: 1 large array_vec_def joined_left_def child_ok_Leaf items_summary_append\<close>)
next
  case (2 k s1 ss1 ts1)
  obtain s ss ts where large: "large = Internal (Suc k) s ss ts"
    using assms(2) 2(2) by (auto elim!: child_ok_height_cases)
  let ?zs = "ts1 @ ts" and ?m = "(length ts + length ts1 + 1) div 2"
  have ts: "ts \<noteq> []" "length ts \<le> 2 * TREE_BASE" "ss = map summary ts"
    "s = items_summary ops (concat (map flatten ts))" "list_all (child_ok ops k) ts"
    and ts1: "ts1 \<noteq> []" "length ts1 \<le> 2 * TREE_BASE" "ss1 = map summary ts1"
    "s1 = items_summary ops (concat (map flatten ts1))" "list_all (child_ok ops k) ts1"
    using assms by (auto simp: 2 large child_ok_Internal)
  have ne: "concat (map flatten ts) \<noteq> []"
    using ts(1,5) child_ok_flatten by (cases ts) auto
  show ?thesis
  proof (cases "length ?zs \<le> 2 * TREE_BASE")
    case True
    with ts ts1 ne show ?thesis
      by (simp add: 2 large array_vec_def joined_left_def child_ok_Internal items_summary_append)
  next
    case False
    then have m: "0 < ?m" "?m < length ?zs" "?m \<le> 2 * TREE_BASE" "length ?zs - ?m \<le> 2 * TREE_BASE"
      using midpoint_bounds [of "length ?zs"] ts(2) ts1(2) by (simp_all add: add.commute)
    have all: "list_all (child_ok ops k) ?zs" using ts ts1 by simp
    have "child_ok ops (Suc k) (Internal (Suc k) (sum_summaries ops (map summary us)) (map summary us) us)"
      if "us = take ?m ?zs \<or> us = drop ?m ?zs" for us
      using that m list_all_take_drop [OF all, of ?m]
      by (intro children_node) (auto simp del: take_append drop_append)
    moreover have "map summary ts1 @ map summary ts = map summary ?zs"
      "concat (map flatten ?zs) = concat (map flatten ts1) @ concat (map flatten ts)" by simp_all
    ultimately show ?thesis
      using False m unfolding 2 large
      by (simp add: array_vec_def joined_left_def ts(3) ts1(3) take_map drop_map Let_def
          concat_map_take_drop del: map_append take_append drop_append)
  qed
qed

lemma prepend_child_ok:
  assumes join: "joined_left ops h xs (f, r)" and rest: "list_all (child_ok ops h) rest"
    and len: "Suc (length rest) \<le> 2 * TREE_BASE"
  shows "\<exists>p. prepend_child ops (Suc h) (items_summary ops (xs @ concat (map flatten rest)))
      (map summary (f # rest)) (f # rest) r = Some p \<and>
    joined_left ops (Suc h) (xs @ concat (map flatten rest)) p"
proof (cases r)
  case None
  with assms show ?thesis by (simp add: prepend_child_def joined_left_def child_ok_Internal)
next
  case (Some tree)
  have all: "list_all (child_ok ops h) (tree # f # rest)" and flat: "xs = flatten tree @ flatten f"
    using join rest by (simp_all add: joined_left_def Some)
  show ?thesis
  proof (cases "length (f # rest) < 2 * TREE_BASE")
    case True
    with all show ?thesis
      by (simp add: prepend_child_def Some joined_left_def child_ok_Internal flat)
  next
    case False
    let ?l = "tree # take TREE_BASE (f # rest)" and ?r = "drop TREE_BASE (f # rest)"
    have node: "child_ok ops (Suc h) (Internal (Suc h) (sum_summaries ops (map summary us)) (map summary us) us)"
      if "us = ?l \<or> us = ?r" for us
      using that all len False list_all_take_drop [of "child_ok ops h" "f # rest" TREE_BASE]
      by (intro children_node) (auto simp: TREE_BASE_def)
    have "concat (map flatten ?l) @ concat (map flatten ?r) = xs @ concat (map flatten rest)"
      using concat_map_take_drop [of flatten TREE_BASE "f # rest"] by (simp add: flat)
    then show ?thesis
      using False len node [of ?l] node [of ?r]
      by (simp add: prepend_child_def Some joined_left_def array_vec_def TREE_BASE_def Let_def
          take_map drop_map)
  qed
qed

lemma append_large_ok:
  assumes "child_ok ops k small" "child_ok ops h large" "k \<le> h"
  shows "\<exists>p. append_large ops small large = Some p \<and>
    joined_left ops h (flatten small @ flatten large) p"
  using assms(2,3)
proof (induction large arbitrary: h)
  case (Internal h' s css cts)
  obtain hc where h: "h = Suc hc" "h' = Suc hc"
    using Internal.prems(1) by (auto elim: child_ok_height_cases)
  have small: "height small = k" "flatten small \<noteq> []" "summary small = items_summary ops (flatten small)"
    using assms(1) child_ok_flatten child_ok_summary by (auto simp: child_ok_def)
  show ?case
  proof (cases "k = h")
    case True
    with Internal.prems small assms(1) merge_into_right_ok [of h small "Internal h' s css cts"]
    show ?thesis by (auto simp: append_large.simps h joined_left_def)
  next
    case False
    obtain first rest where cts: "cts = first # rest"
      using Internal.prems(1) by (cases cts) (auto simp: h child_ok_Internal)
    have ok: "length cts \<le> 2 * TREE_BASE" "css = map summary cts" "child_ok ops hc first"
      "s = items_summary ops (concat (map flatten cts))" "list_all (child_ok ops hc) rest"
      using Internal.prems(1) by (auto simp: h child_ok_Internal cts)
    obtain f r where rec: "append_large ops small first = Some (f, r)"
      and join: "joined_left ops hc (flatten small @ flatten first) (f, r)"
      using Internal.IH [of first hc] ok False Internal.prems(2) h cts by auto
    have "append_large ops small (Internal h' s css cts) =
        prepend_child ops h' (add_summary ops (summary small) s) (map summary (f # rest)) (f # rest) r"
      using False small(1) h
      by (subst append_large.simps) (simp add: cts rec set_first_def ok(2))
    moreover have "add_summary ops (summary small) s =
        items_summary ops ((flatten small @ flatten first) @ concat (map flatten rest))"
      using child_ok_flatten [OF ok(3)] by (simp add: small ok(4) cts flip: items_summary_append)
    ultimately show ?thesis
      using prepend_child_ok [OF join ok(5)] ok(1) by (simp add: cts h)
  qed
next
  case (Leaf s xs ss)
  then have "h = 0" "k = 0" by (auto simp: child_ok_Leaf)
  with Leaf.prems assms(1) merge_into_right_ok [of 0 small "Leaf s xs ss"] show ?case
    by (auto simp: append_large.simps joined_left_def child_ok_def)
qed

lemma from_child_trees_ok:
  assumes "child_ok ops h l" "child_ok ops h r"
  shows "child_ok ops (Suc h) (from_child_trees ops l r)" "flatten (from_child_trees ops l r) = flatten l @ flatten r"
  using children_node [of h "[l, r]"] assms
  by (simp_all add: from_child_trees_def TREE_BASE_def child_ok_def Let_def)

lemma append_tree_ok:
  assumes "wf_tree ops t" "wf_tree ops u"
  shows "\<exists>t'. append_tree ops t u = Some t' \<and> wf_tree ops t' \<and> flatten t' = flatten t @ flatten u \<and>
    height t' \<le> Suc (max (height t) (height u))"
proof -
  have empty: "is_empty t \<longleftrightarrow> flatten t = []" "is_empty u \<longleftrightarrow> flatten u = []"
    using assms is_empty_flatten by auto
  show ?thesis
  proof (cases "is_empty t \<or> is_empty u")
    case True
    with assms empty show ?thesis
      by (cases "is_empty t"; cases t; cases u) (auto simp: append_tree_def)
  next
    case False
    then have ok: "child_ok ops (height t) t" "child_ok ops (height u) u"
      using assms by (simp_all add: child_ok_def)
    show ?thesis
    proof (cases "height t < height u")
      case True
      then obtain u' r where "append_large ops t u = Some (u', r)"
        and "joined_left ops (height u) (flatten t @ flatten u) (u', r)"
        using append_large_ok [OF ok] by auto
      with True False from_child_trees_ok [of "height u" _ u'] show ?thesis
        by (cases r) (auto simp: append_tree_def joined_left_def child_ok_def)
    next
      case shorter: False
      then obtain t' r where "push_tree_recursive ops t u = Some (t', r)"
        and "joined_right ops (height t) (flatten t @ flatten u) (t', r)"
        using push_tree_recursive_ok [OF ok] by auto
      with shorter False from_child_trees_ok [of "height t" t'] show ?thesis
        by (cases r) (auto simp: append_tree_def joined_right_def child_ok_def)
    qed
  qed
qed

end

end
