(* ===== verification/SumTree_Build.thy ===== *)
theory SumTree_Build
  imports SumTree
begin

text \<open>
  The rest of the tree's own operations (\<open>crates/sum_tree/src/sum_tree.rs\<close>): bulk
  construction from an iterator (sequential and parallel), pushing and extending, access to
  and update of the first and last item.
\<close>

section \<open>Bulk construction\<close>

text \<open>\<open>iter.by_ref().take(n)\<close> until the iterator is empty; \<open>par_iter.chunks(n)\<close>.\<close>

function chunks :: "nat \<Rightarrow> 'x list \<Rightarrow> 'x list list" where
  "chunks n xs = (if xs = [] \<or> n = 0 then [] else take n xs # chunks n (drop n xs))"
  by pat_completeness auto
termination
  by (relation "measure (\<lambda>(n, xs). length xs)") auto

declare chunks.simps [simp del]

text \<open>\<open>let mut summary = v[0].clone(); for s in &v[1..] { add_summary }\<close>; \<open>v[0]\<close> panics on an
  empty vector.\<close>

definition sum_from_first :: "('a, 's) summary_ops \<Rightarrow> 's list \<Rightarrow> 's option" where
  "sum_from_first ops ss = (case ss of [] \<Rightarrow> None | s # rest \<Rightarrow> Some (foldl (add_summary ops) s rest))"

definition leaf_of_items :: "('a, 's) summary_ops \<Rightarrow> 'a list \<Rightarrow> ('a, 's) Tree option" where
  "leaf_of_items ops chunk = do {
     items \<leftarrow> array_vec chunk;
     item_summaries \<leftarrow> array_vec (map (item_summary ops) items);
     s \<leftarrow> sum_from_first ops item_summaries;
     Some (Leaf s items item_summaries)
   }"

fun map_panic :: "('x \<Rightarrow> 'y option) \<Rightarrow> 'x list \<Rightarrow> 'y list option" where
  "map_panic f [] = Some []"
| "map_panic f (x # xs) = do { y \<leftarrow> f x; ys \<leftarrow> map_panic f xs; Some (y # ys) }"

text \<open>One round of \<open>from_iter\<close>: children are pushed to the current parent, which is moved to
  the finished parents when it is full.\<close>

fun push_child :: "('a, 's) summary_ops \<Rightarrow> ('a, 's) Tree \<Rightarrow> ('a, 's) Tree \<Rightarrow> ('a, 's) Tree option" where
  "push_child ops (Internal h s css cts) child = do {
     css' \<leftarrow> array_vec (css @ [summary child]);
     cts' \<leftarrow> array_vec (cts @ [child]);
     Some (Internal h (add_summary ops s (summary child)) css' cts')
   }"
| "push_child ops (Leaf s xs ss) child = None"

fun parent_level ::
  "('a, 's) summary_ops \<Rightarrow> nat \<Rightarrow> ('a, 's) Tree list \<Rightarrow> ('a, 's) Tree option \<Rightarrow> ('a, 's) Tree list \<Rightarrow>
   ('a, 's) Tree list option" where
  "parent_level ops h parent_nodes current [] =
     Some (parent_nodes @ (case current of None \<Rightarrow> [] | Some p \<Rightarrow> [p]))"
| "parent_level ops h parent_nodes current (child # nodes) = do {
     parent \<leftarrow> push_child ops
       (case current of Some p \<Rightarrow> p | None \<Rightarrow> Internal h (summary_zero ops) [] []) child;
     if length (node_trees parent) = 2 * TREE_BASE
     then parent_level ops h (parent_nodes @ [parent]) None nodes
     else parent_level ops h parent_nodes (Some parent) nodes
   }"

lemma chunks_Nil [simp]: "chunks n [] = []"
  by (simp add: chunks.simps)

lemma length_chunks_half: "2 \<le> n \<Longrightarrow> 2 * length (chunks n xs) \<le> Suc (length xs)"
proof (induction n xs rule: chunks.induct)
  case (1 n xs)
  show ?case
  proof (cases "xs = []")
    case False
    with 1 have IH: "2 * length (chunks n (drop n xs)) \<le> Suc (length xs - n)" by simp
    show ?thesis
    proof (cases "length xs \<le> n")
      case True
      with False "1.prems" show ?thesis by (simp add: chunks.simps [of n xs] Suc_le_eq)
    next
      case longer: False
      with IH False "1.prems" show ?thesis by (simp add: chunks.simps [of n xs])
    qed
  qed simp
qed

lemma length_chunks_less: "2 \<le> n \<Longrightarrow> 1 < length xs \<Longrightarrow> length (chunks n xs) < length xs"
  using length_chunks_half [of n xs] by simp

definition parent_of :: "('a, 's) summary_ops \<Rightarrow> nat \<Rightarrow> ('a, 's) Tree list \<Rightarrow> ('a, 's) Tree" where
  "parent_of ops h ts = Internal h (sum_summaries ops (map summary ts)) (map summary ts) ts"

text \<open>A round of \<open>from_iter\<close> groups the nodes of a level into chunks of full capacity.\<close>

lemma parent_level_chunks:
  assumes "length cur < 2 * TREE_BASE"
  shows "parent_level ops h ps (if cur = [] then None else Some (parent_of ops h cur)) nodes =
    Some (ps @ map (parent_of ops h) (chunks (2 * TREE_BASE) (cur @ nodes)))"
  using assms
proof (induction nodes arbitrary: ps cur)
  case Nil
  then show ?case by (auto simp: chunks.simps)
next
  case (Cons t nodes)
  have push: "push_child ops (case if cur = [] then None else Some (parent_of ops h cur) of
        Some p \<Rightarrow> p | None \<Rightarrow> Internal h (summary_zero ops) [] []) t = Some (parent_of ops h (cur @ [t]))"
    using Cons.prems by (auto simp: parent_of_def array_vec_def sum_summaries_def)
  show ?case
  proof (cases "Suc (length cur) = 2 * TREE_BASE")
    case True
    with Cons.IH [of "[]" "ps @ [parent_of ops h (cur @ [t])]"] push show ?thesis
      by (subst chunks.simps) (auto simp: parent_of_def TREE_BASE_def)
  next
    case False
    with Cons.IH [of "cur @ [t]" ps] Cons.prems push show ?thesis
      by (simp add: parent_of_def)
  qed
qed

lemma parent_level_start:
  "parent_level ops h [] None nodes = Some (map (parent_of ops h) (chunks (2 * TREE_BASE) nodes))"
  using parent_level_chunks [of "[]" ops h "[]" nodes] by (simp add: TREE_BASE_def)

function from_nodes ::
  "('a, 's) summary_ops \<Rightarrow> nat \<Rightarrow> ('a, 's) Tree list \<Rightarrow> ('a, 's) Tree option" where
  "from_nodes ops h nodes =
     (if 1 < length nodes then do {
        parents \<leftarrow> parent_level ops (h + 1) [] None nodes;
        from_nodes ops (h + 1) parents
      } else (case nodes of [] \<Rightarrow> Some (new_tree ops) | node # _ \<Rightarrow> Some node))"
  by pat_completeness auto
termination
  by (relation "measure (\<lambda>(ops, h, nodes). length nodes)")
    (auto simp: parent_level_start length_chunks_less TREE_BASE_def)

declare from_nodes.simps [simp del]

definition from_iter :: "('a, 's) summary_ops \<Rightarrow> 'a list \<Rightarrow> ('a, 's) Tree option" where
  "from_iter ops xs = do {
     nodes \<leftarrow> map_panic (leaf_of_items ops) (chunks (2 * TREE_BASE) xs);
     from_nodes ops 0 nodes
   }"

text \<open>\<open>from_par_iter\<close> groups each level with \<open>chunks\<close> and maps the groups; the parallel
  iterators keep the order of the elements.\<close>

definition node_of_trees :: "('a, 's) summary_ops \<Rightarrow> nat \<Rightarrow> ('a, 's) Tree list \<Rightarrow> ('a, 's) Tree option" where
  "node_of_trees ops h child_nodes = do {
     trees \<leftarrow> array_vec child_nodes;
     summaries \<leftarrow> array_vec (map summary trees);
     s \<leftarrow> sum_from_first ops summaries;
     Some (Internal h s summaries trees)
   }"

lemma length_map_panic: "map_panic f xs = Some ys \<Longrightarrow> length ys = length xs"
  by (induction xs arbitrary: ys) (auto simp: bind_eq_Some_conv)

function from_par_nodes ::
  "('a, 's) summary_ops \<Rightarrow> nat \<Rightarrow> ('a, 's) Tree list \<Rightarrow> ('a, 's) Tree option" where
  "from_par_nodes ops h nodes =
     (if 1 < length nodes then do {
        parents \<leftarrow> map_panic (node_of_trees ops (h + 1)) (chunks (2 * TREE_BASE) nodes);
        from_par_nodes ops (h + 1) parents
      } else (case nodes of [] \<Rightarrow> Some (new_tree ops) | node # _ \<Rightarrow> Some node))"
  by pat_completeness auto
termination
  by (relation "measure (\<lambda>(ops, h, nodes). length nodes)")
    (auto simp: length_map_panic length_chunks_less TREE_BASE_def)

declare from_par_nodes.simps [simp del]

definition from_par_iter :: "('a, 's) summary_ops \<Rightarrow> 'a list \<Rightarrow> ('a, 's) Tree option" where
  "from_par_iter ops xs = do {
     nodes \<leftarrow> map_panic (leaf_of_items ops) (chunks (2 * TREE_BASE) xs);
     from_par_nodes ops 0 nodes
   }"

section \<open>Pushing and extending\<close>

definition push :: "('a, 's) summary_ops \<Rightarrow> ('a, 's) Tree \<Rightarrow> 'a \<Rightarrow> ('a, 's) Tree option" where
  "push ops t item =
     (let s = item_summary ops item in append_tree ops t (Leaf s [item] [s]))"

definition from_item :: "('a, 's) summary_ops \<Rightarrow> 'a \<Rightarrow> ('a, 's) Tree option" where
  "from_item ops item = push ops (new_tree ops) item"

definition tree_extend :: "('a, 's) summary_ops \<Rightarrow> ('a, 's) Tree \<Rightarrow> 'a list \<Rightarrow> ('a, 's) Tree option" where
  "tree_extend ops t xs = do { u \<leftarrow> from_iter ops xs; append_tree ops t u }"

definition par_extend :: "('a, 's) summary_ops \<Rightarrow> ('a, 's) Tree \<Rightarrow> 'a list \<Rightarrow> ('a, 's) Tree option" where
  "par_extend ops t xs = do { u \<leftarrow> from_par_iter ops xs; append_tree ops t u }"

section \<open>First and last item\<close>

fun leftmost_leaf :: "('a, 's) Tree \<Rightarrow> ('a, 's) Tree option" where
  "leftmost_leaf (Leaf s xs ss) = Some (Leaf s xs ss)"
| "leftmost_leaf (Internal h s ss ts) = (case ts of [] \<Rightarrow> None | t # _ \<Rightarrow> leftmost_leaf t)"

fun rightmost_leaf :: "('a, 's) Tree \<Rightarrow> ('a, 's) Tree option" where
  "rightmost_leaf (Leaf s xs ss) = Some (Leaf s xs ss)"
| "rightmost_leaf (Internal h s ss ts) = (if ts = [] then None else rightmost_leaf (last ts))"

text \<open>\<open>slice.first()\<close> and \<open>slice.last()\<close>.\<close>

definition list_first :: "'x list \<Rightarrow> 'x option" where
  "list_first xs = (case xs of [] \<Rightarrow> None | x # _ \<Rightarrow> Some x)"

definition list_last :: "'x list \<Rightarrow> 'x option" where
  "list_last xs = (if xs = [] then None else Some (last xs))"

text \<open>The outer option is the panic, the inner one the result of the source.\<close>

definition tree_first :: "('a, 's) Tree \<Rightarrow> 'a option option" where
  "tree_first t = do { leaf \<leftarrow> leftmost_leaf t; xs \<leftarrow> node_items leaf; Some (list_first xs) }"

definition tree_last :: "('a, 's) Tree \<Rightarrow> 'a option option" where
  "tree_last t = do { leaf \<leftarrow> rightmost_leaf t; xs \<leftarrow> node_items leaf; Some (list_last xs) }"

definition last_summary :: "('a, 's) Tree \<Rightarrow> 's option option" where
  "last_summary t = do { leaf \<leftarrow> rightmost_leaf t; Some (list_last (child_summaries leaf)) }"

fun update_last_recursive ::
  "('a, 's) summary_ops \<Rightarrow> ('a \<Rightarrow> 'a) \<Rightarrow> ('a, 's) Tree \<Rightarrow> (('a, 's) Tree \<times> 's option) option" where
  "update_last_recursive ops f (Internal h s css cts) =
     (if css = [] \<or> cts = [] then None
      else do {
        (child, res) \<leftarrow> update_last_recursive ops f (last cts);
        last_summary' \<leftarrow> res;
        let css' = butlast css @ [last_summary'];
        let s' = sum_summaries ops css';
        Some (Internal h s' css' (butlast cts @ [child]), Some s')
      })"
| "update_last_recursive ops f (Leaf s xs ss) =
     (if xs = [] \<or> ss = [] then Some (Leaf s xs ss, None)
      else let item = f (last xs);
               ss' = butlast ss @ [item_summary ops item];
               s' = sum_summaries ops ss'
           in Some (Leaf s' (butlast xs @ [item]) ss', Some s'))"

definition update_last :: "('a, 's) summary_ops \<Rightarrow> ('a \<Rightarrow> 'a) \<Rightarrow> ('a, 's) Tree \<Rightarrow> ('a, 's) Tree option" where
  "update_last ops f t = map_option fst (update_last_recursive ops f t)"

fun update_first_recursive ::
  "('a, 's) summary_ops \<Rightarrow> ('a \<Rightarrow> 'a) \<Rightarrow> ('a, 's) Tree \<Rightarrow> (('a, 's) Tree \<times> 's option) option" where
  "update_first_recursive ops f (Internal h s css cts) =
     (case css of [] \<Rightarrow> None | _ # css_rest \<Rightarrow>
       (case cts of [] \<Rightarrow> None | first # cts_rest \<Rightarrow> do {
          (child, res) \<leftarrow> update_first_recursive ops f first;
          first_summary \<leftarrow> res;
          let css' = first_summary # css_rest;
          let s' = sum_summaries ops css';
          Some (Internal h s' css' (child # cts_rest), Some s')
        }))"
| "update_first_recursive ops f (Leaf s xs ss) =
     (case (xs, ss) of
        (x # xs_rest, _ # ss_rest) \<Rightarrow>
          let item = f x;
              ss' = item_summary ops item # ss_rest;
              s' = sum_summaries ops ss'
          in Some (Leaf s' (item # xs_rest) ss', Some s')
      | _ \<Rightarrow> Some (Leaf s xs ss, None))"

definition update_first :: "('a, 's) summary_ops \<Rightarrow> ('a \<Rightarrow> 'a) \<Rightarrow> ('a, 's) Tree \<Rightarrow> ('a, 's) Tree option" where
  "update_first ops f t = map_option fst (update_first_recursive ops f t)"

section \<open>Correctness\<close>

lemma concat_chunks: "0 < n \<Longrightarrow> concat (chunks n xs) = xs"
proof (induction n xs rule: chunks.induct)
  case (1 n xs)
  then show ?case by (cases "xs = []") (simp_all add: chunks.simps [of n xs])
qed

lemma chunks_sizes: "c \<in> set (chunks n xs) \<Longrightarrow> c \<noteq> [] \<and> length c \<le> n \<and> set c \<subseteq> set xs"
proof (induction n xs rule: chunks.induct)
  case (1 n xs)
  then show ?case
    by (cases "xs = [] \<or> n = 0")
      (auto simp: chunks.simps [of n xs] dest: in_set_takeD in_set_dropD)
qed

lemma map_panic_Some: "list_all (\<lambda>x. f x = Some (g x)) xs \<Longrightarrow> map_panic f xs = Some (map g xs)"
  by (induction xs) auto

context summary_algebra
begin

lemma sum_from_first: "ss \<noteq> [] \<Longrightarrow> sum_from_first ops ss = Some (sum_summaries ops ss)"
  by (cases ss) (simp_all add: sum_from_first_def sum_summaries_def zero_left)

lemma leaf_of_items_ok:
  assumes "xs \<noteq> []" "length xs \<le> 2 * TREE_BASE"
  defines "leaf \<equiv> Leaf (items_summary ops xs) xs (map (item_summary ops) xs)"
  shows "leaf_of_items ops xs = Some leaf" "child_ok ops 0 leaf"
  using assms
  by (simp_all add: leaf_of_items_def array_vec_def sum_from_first items_summary_def leaf_def child_ok_Leaf)

lemma leaves_ok:
  obtains nodes where "map_panic (leaf_of_items ops) (chunks (2 * TREE_BASE) xs) = Some nodes"
    and "list_all (child_ok ops 0) nodes" and "concat (map flatten nodes) = xs"
proof -
  let ?leaf = "\<lambda>xs. Leaf (items_summary ops xs) xs (map (item_summary ops) xs)"
  have "list_all (\<lambda>c. leaf_of_items ops c = Some (?leaf c) \<and> child_ok ops 0 (?leaf c)) (chunks (2 * TREE_BASE) xs)"
    using chunks_sizes [of _ "2 * TREE_BASE" xs] by (auto simp: list_all_iff leaf_of_items_ok)
  then show ?thesis
    using concat_chunks [of "2 * TREE_BASE" xs]
    by (intro that [of "map ?leaf (chunks (2 * TREE_BASE) xs)"])
      (auto simp: list_all_iff map_panic_Some comp_def TREE_BASE_def)
qed

lemma parents_ok:
  assumes "list_all (child_ok ops h) nodes"
  shows "list_all (child_ok ops (Suc h)) (map (parent_of ops (Suc h)) (chunks (2 * TREE_BASE) nodes))"
    and "concat (map flatten (map (parent_of ops (Suc h)) (chunks (2 * TREE_BASE) nodes))) =
      concat (map flatten nodes)"
    and "map_panic (node_of_trees ops (Suc h)) (chunks (2 * TREE_BASE) nodes) =
      Some (map (parent_of ops (Suc h)) (chunks (2 * TREE_BASE) nodes))"
proof -
  have ok: "list_all (child_ok ops h) c \<and> c \<noteq> [] \<and> length c \<le> 2 * TREE_BASE"
    if "c \<in> set (chunks (2 * TREE_BASE) nodes)" for c
    using chunks_sizes [OF that] assms by (auto simp: list_all_iff)
  then show "list_all (child_ok ops (Suc h)) (map (parent_of ops (Suc h)) (chunks (2 * TREE_BASE) nodes))"
    by (simp add: list_all_iff parent_of_def children_node [unfolded list_all_iff])
  have "concat (map flatten (map (parent_of ops (Suc h)) css)) = concat (map flatten (concat css))" for css
    by (induction css) (simp_all add: parent_of_def)
  then show "concat (map flatten (map (parent_of ops (Suc h)) (chunks (2 * TREE_BASE) nodes))) =
      concat (map flatten nodes)"
    using concat_chunks [of "2 * TREE_BASE" nodes] by (simp add: TREE_BASE_def)
  show "map_panic (node_of_trees ops (Suc h)) (chunks (2 * TREE_BASE) nodes) =
      Some (map (parent_of ops (Suc h)) (chunks (2 * TREE_BASE) nodes))"
    using ok by (intro map_panic_Some)
      (auto simp: list_all_iff node_of_trees_def parent_of_def array_vec_def sum_from_first)
qed

lemma from_nodes_ok:
  assumes "list_all (child_ok ops h) nodes"
  shows "\<exists>t. from_nodes ops h nodes = Some t \<and> from_par_nodes ops h nodes = Some t \<and>
    wf_tree ops t \<and> flatten t = concat (map flatten nodes)"
  using assms
proof (induction "length nodes" arbitrary: h nodes rule: less_induct)
  case less
  show ?case
  proof (cases "1 < length nodes")
    case True
    let ?ps = "map (parent_of ops (Suc h)) (chunks (2 * TREE_BASE) nodes)"
    have "length ?ps < length nodes"
      using length_chunks_less [of "2 * TREE_BASE" nodes] True by (simp add: TREE_BASE_def)
    from less.hyps [OF this parents_ok(1) [OF less.prems]] parents_ok(2,3) [OF less.prems] True
    show ?thesis
      by (simp add: from_nodes.simps [of ops h nodes] from_par_nodes.simps [of ops h nodes] parent_level_start)
  next
    case False
    with less.prems show ?thesis
      by (cases nodes) (auto simp: from_nodes.simps from_par_nodes.simps new_tree_def child_ok_def sum_Nil)
  qed
qed

lemma from_iter_ok:
  "\<exists>t. from_iter ops xs = Some t \<and> from_par_iter ops xs = Some t \<and> wf_tree ops t \<and> flatten t = xs"
proof -
  obtain nodes where "map_panic (leaf_of_items ops) (chunks (2 * TREE_BASE) xs) = Some nodes"
    and "list_all (child_ok ops 0) nodes" and "concat (map flatten nodes) = xs"
    by (rule leaves_ok)
  with from_nodes_ok [of 0 nodes] show ?thesis
    by (simp add: from_iter_def from_par_iter_def)
qed

lemma wf_new_tree: "wf_tree ops (new_tree ops)"
  by (simp add: new_tree_def sum_Nil)

lemma push_ok:
  assumes "wf_tree ops t"
  shows "\<exists>t'. push ops t x = Some t' \<and> wf_tree ops t' \<and> flatten t' = flatten t @ [x]"
  using append_tree_ok [OF assms, of "Leaf (item_summary ops x) [x] [item_summary ops x]"]
  by (auto simp: push_def TREE_BASE_def sum_single)

lemma extend_ok:
  assumes "wf_tree ops t"
  shows "\<exists>t'. tree_extend ops t xs = Some t' \<and> par_extend ops t xs = Some t' \<and> wf_tree ops t' \<and>
    flatten t' = flatten t @ xs"
proof -
  obtain u where u: "from_iter ops xs = Some u" "from_par_iter ops xs = Some u" "wf_tree ops u" "flatten u = xs"
    using from_iter_ok [of xs] by blast
  with append_tree_ok [OF assms u(3)] show ?thesis by (auto simp: tree_extend_def par_extend_def)
qed

lemma leftmost_leaf_ok:
  "wf_tree ops t \<Longrightarrow> \<exists>s xs. leftmost_leaf t = Some (Leaf s xs (map (item_summary ops) xs)) \<and>
    list_first xs = list_first (flatten t)"
proof (induction t)
  case (Internal h s ss ts)
  then obtain t rest where ts: "ts = t # rest" "wf_tree ops t" "\<not> is_empty t" by (cases ts) auto
  then have "list_first (flatten (Internal h s ss ts)) = list_first (flatten t)"
    using is_empty_flatten [of t] by (cases "flatten t") (simp_all add: list_first_def)
  with Internal.IH [of t] ts show ?case by simp
qed auto

lemma rightmost_leaf_ok:
  "wf_tree ops t \<Longrightarrow> \<exists>s xs. rightmost_leaf t = Some (Leaf s xs (map (item_summary ops) xs)) \<and>
    list_last xs = list_last (flatten t)"
proof (induction t)
  case (Internal h s ss ts)
  then have t: "last ts \<in> set ts" "wf_tree ops (last ts)" "\<not> is_empty (last ts)" "ts \<noteq> []"
    by (auto simp: list_all_iff)
  then have "list_last (flatten (Internal h s ss ts)) = list_last (flatten (last ts))"
    using is_empty_flatten [of "last ts"] flatten_last [OF t(4), symmetric] by (auto simp: list_last_def)
  with Internal.IH [of "last ts"] t show ?case by simp
qed auto

lemma first_last_ok:
  assumes "wf_tree ops t"
  shows "tree_first t = Some (list_first (flatten t))" "tree_last t = Some (list_last (flatten t))"
    "last_summary t = Some (map_option (item_summary ops) (list_last (flatten t)))"
  using leftmost_leaf_ok [OF assms] rightmost_leaf_ok [OF assms]
  by (auto simp: tree_first_def tree_last_def last_summary_def list_last_def last_map split: if_splits)

lemma update_last_recursive_ok:
  "child_ok ops h t \<Longrightarrow> \<exists>t'. update_last_recursive ops f t = Some (t', Some (summary t')) \<and>
    child_ok ops h t' \<and> flatten t' = butlast (flatten t) @ [f (last (flatten t))]"
proof (induction t arbitrary: h)
  case (Internal h' s css cts)
  obtain hc where h: "h = Suc hc" "h' = Suc hc"
    using Internal.prems(1) by (auto elim: child_ok_height_cases)
  have cts: "cts \<noteq> []" "length cts \<le> 2 * TREE_BASE" "css = map summary cts" "list_all (child_ok ops hc) cts"
    using Internal.prems(1) by (auto simp: h child_ok_Internal)
  then have last: "last cts \<in> set cts" "child_ok ops hc (last cts)" by (auto simp: list_all_iff)
  obtain t' where t': "update_last_recursive ops f (last cts) = Some (t', Some (summary t'))"
    "child_ok ops hc t'" "flatten t' = butlast (flatten (last cts)) @ [f (last (flatten (last cts)))]"
    using Internal.IH [OF last] by blast
  let ?cts = "butlast cts @ [t']"
  have "child_ok ops (Suc hc) (Internal (Suc hc) (sum_summaries ops (map summary ?cts)) (map summary ?cts) ?cts)"
    using cts t'(2) by (intro children_node) (auto simp: list_all_iff dest: in_set_butlastD)
  then show ?case
    using t' cts child_ok_flatten [OF last(2)] flatten_last [OF cts(1), symmetric]
    by (simp add: h map_butlast butlast_append Let_def)
next
  case (Leaf s xs ss)
  then show ?case
    by (simp add: child_ok_Leaf items_summary_def map_butlast Let_def Suc_le_eq)
qed

lemma update_first_recursive_ok:
  "child_ok ops h t \<Longrightarrow> \<exists>t'. update_first_recursive ops f t = Some (t', Some (summary t')) \<and>
    child_ok ops h t' \<and> flatten t' = f (hd (flatten t)) # tl (flatten t)"
proof (induction t arbitrary: h)
  case (Internal h' s css cts)
  obtain hc where h: "h = Suc hc" "h' = Suc hc"
    using Internal.prems(1) by (auto elim: child_ok_height_cases)
  obtain t ts where cts: "cts = t # ts" "length cts \<le> 2 * TREE_BASE" "css = map summary cts"
    "list_all (child_ok ops hc) ts" "child_ok ops hc t"
    using Internal.prems(1) by (cases cts) (auto simp: h child_ok_Internal)
  obtain t' where t': "update_first_recursive ops f t = Some (t', Some (summary t'))"
    "child_ok ops hc t'" "flatten t' = f (hd (flatten t)) # tl (flatten t)"
    using Internal.IH [of t, OF _ cts(5)] cts(1) by auto
  have "child_ok ops (Suc hc) (Internal (Suc hc) (sum_summaries ops (map summary (t' # ts))) (map summary (t' # ts)) (t' # ts))"
    using cts t'(2) by (intro children_node) auto
  then show ?case
    using t' cts child_ok_flatten [OF cts(5)] by (simp add: h Let_def)
next
  case (Leaf s xs ss)
  then show ?case
    by (cases xs) (simp_all add: child_ok_Leaf items_summary_def Let_def)
qed

lemma update_ends_ok:
  assumes "wf_tree ops t"
  shows "\<exists>t'. update_last ops f t = Some t' \<and> wf_tree ops t' \<and>
      flatten t' = (if flatten t = [] then [] else butlast (flatten t) @ [f (last (flatten t))])"
    "\<exists>t'. update_first ops f t = Some t' \<and> wf_tree ops t' \<and>
      flatten t' = (if flatten t = [] then [] else f (hd (flatten t)) # tl (flatten t))"
proof -
  have empty: "is_empty t \<longleftrightarrow> flatten t = []" using assms by (rule is_empty_flatten)
  show "\<exists>t'. update_last ops f t = Some t' \<and> wf_tree ops t' \<and>
      flatten t' = (if flatten t = [] then [] else butlast (flatten t) @ [f (last (flatten t))])"
  proof (cases "is_empty t")
    case True
    with assms empty show ?thesis by (cases t) (auto simp: update_last_def)
  next
    case False
    with update_last_recursive_ok [of "height t" t f] assms empty show ?thesis
      by (auto simp: update_last_def child_ok_def)
  qed
  show "\<exists>t'. update_first ops f t = Some t' \<and> wf_tree ops t' \<and>
      flatten t' = (if flatten t = [] then [] else f (hd (flatten t)) # tl (flatten t))"
  proof (cases "is_empty t")
    case True
    with assms empty show ?thesis by (cases t) (auto simp: update_first_def)
  next
    case False
    with update_first_recursive_ok [of "height t" t f] assms empty show ?thesis
      by (auto simp: update_first_def child_ok_def)
  qed
qed

end

section \<open>What the operations promise\<close>

text \<open>A concrete instance, for the witnesses: items are numbers, summarised by their sum.\<close>

definition sum_ops :: "(nat, nat) summary_ops" where
  "sum_ops = \<lparr>item_summary = id, summary_zero = 0, add_summary = (+)\<rparr>"

interpretation nat_sum: summary_algebra sum_ops
  by unfold_locales (simp_all add: sum_ops_def)

text \<open>(C18) Joining two trees never panics, whatever their heights: on well-formed trees
  \<open>append\<close> returns a well-formed tree (capacities respected, every cached summary exact,
  all leaves at one depth) that stores the items of the first followed by those of the
  second, at most one level higher than the higher one.\<close>

theorem append_tree_correct:
  assumes "summary_algebra ops" and "wf_tree ops t" and "wf_tree ops u"
  shows "\<exists>t'. append_tree ops t u = Some t' \<and> wf_tree ops t' \<and> flatten t' = flatten t @ flatten u \<and>
    height t' \<le> Suc (max (height t) (height u))"
  using assms by (rule summary_algebra.append_tree_ok)

theorem append_tree_correct_witness:
  "wf_tree sum_ops (Leaf 3 [1, 2] [1, 2]) \<and>
   (\<exists>t'. append_tree sum_ops (Leaf 3 [1, 2] [1, 2]) (Leaf 3 [1, 2] [1, 2]) = Some t' \<and>
     wf_tree sum_ops t' \<and> flatten t' = [1, 2, 1, 2])"
proof -
  have wf: "wf_tree sum_ops (Leaf 3 [1, 2] [1, 2])"
    by (simp add: sum_ops_def sum_summaries_def TREE_BASE_def)
  from append_tree_correct [OF nat_sum.summary_algebra_axioms wf wf] wf show ?thesis by auto
qed

text \<open>(C28) Bulk construction stores exactly the given items in order in a well-formed tree,
  and the parallel construction builds the very same tree as the sequential one.\<close>

theorem from_iter_correct:
  assumes "summary_algebra ops"
  shows "\<exists>t. from_iter ops xs = Some t \<and> from_par_iter ops xs = Some t \<and> wf_tree ops t \<and> flatten t = xs"
  using assms by (rule summary_algebra.from_iter_ok)

theorem from_iter_correct_witness:
  "\<exists>t. from_iter sum_ops [1, 2, 3] = Some t \<and> from_par_iter sum_ops [1, 2, 3] = Some t \<and>
    wf_tree sum_ops t \<and> flatten t = [1, 2, 3]"
  using from_iter_correct [of sum_ops "[1, 2, 3]"] nat_sum.summary_algebra_axioms by blast

text \<open>Pushing an item and extending by an iterator append at the end of the sequence;
  \<open>first\<close>, \<open>last\<close> and \<open>last_summary\<close> read its ends; \<open>update_first\<close> and \<open>update_last\<close>
  change one end item and re-establish every summary above it.\<close>

lemma tree_ends_correct:
  assumes "summary_algebra ops" and "wf_tree ops t"
  shows "(\<exists>t'. push ops t x = Some t' \<and> wf_tree ops t' \<and> flatten t' = flatten t @ [x]) \<and>
    (\<exists>t'. tree_extend ops t xs = Some t' \<and> wf_tree ops t' \<and> flatten t' = flatten t @ xs) \<and>
    tree_first t = Some (list_first (flatten t)) \<and> tree_last t = Some (list_last (flatten t)) \<and>
    last_summary t = Some (map_option (item_summary ops) (list_last (flatten t))) \<and>
    (\<exists>t'. update_last ops f t = Some t' \<and> wf_tree ops t' \<and>
      flatten t' = (if flatten t = [] then [] else butlast (flatten t) @ [f (last (flatten t))])) \<and>
    (\<exists>t'. update_first ops f t = Some t' \<and> wf_tree ops t' \<and>
      flatten t' = (if flatten t = [] then [] else f (hd (flatten t)) # tl (flatten t)))"
proof -
  from summary_algebra.extend_ok [OF assms, of xs]
  have "\<exists>t'. tree_extend ops t xs = Some t' \<and> wf_tree ops t' \<and> flatten t' = flatten t @ xs" by blast
  then show ?thesis
    using summary_algebra.push_ok [OF assms] summary_algebra.first_last_ok [OF assms]
      summary_algebra.update_ends_ok [OF assms] by simp
qed

end
