(* ===== verification/SumTree_Find.thy ===== *)
theory SumTree_Find
  imports SumTree_Build
begin

text \<open>
  Dimensions, seek targets and direct lookup in a tree (\<open>Dimension\<close>, \<open>SeekTarget\<close>,
  \<open>find\<close>, \<open>find_exact\<close>, \<open>find_with_prev\<close> of \<open>crates/sum_tree/src/sum_tree.rs\<close>), and
  the linear scan over the items that they are equivalent to.
\<close>

section \<open>Dimensions and targets\<close>

record ('s, 'd) dimension_ops =
  dim_zero :: 'd
  dim_add :: "'d \<Rightarrow> 's \<Rightarrow> 'd"

definition from_summary_dim :: "('s, 'd) dimension_ops \<Rightarrow> 's \<Rightarrow> 'd" where
  "from_summary_dim dim s = dim_add dim (dim_zero dim) s"

definition extent :: "('s, 'd) dimension_ops \<Rightarrow> ('a, 's) Tree \<Rightarrow> 'd" where
  "extent dim t = dim_add dim (dim_zero dim) (summary t)"

text \<open>A seek target is the comparison of the target with a cursor location.\<close>

type_synonym 'd target = "'d \<Rightarrow> Ordering"

text \<open>\<open>comparison == Greater || (comparison == Equal && bias == Right)\<close>: the seek goes past
  this location.\<close>

definition passes :: "'d target \<Rightarrow> Bias \<Rightarrow> 'd \<Rightarrow> bool" where
  "passes target bias p \<longleftrightarrow> target p = Greater \<or> target p = Equal \<and> bias = Right"

text \<open>\<open>comparison == Less || (comparison == Equal && bias == Left)\<close>.\<close>

definition reaches :: "'d target \<Rightarrow> Bias \<Rightarrow> 'd \<Rightarrow> bool" where
  "reaches target bias p \<longleftrightarrow> target p = Less \<or> target p = Equal \<and> bias = Left"

lemma reaches_iff: "reaches target bias p \<longleftrightarrow> \<not> passes target bias p"
  by (cases "target p"; cases bias) (auto simp: reaches_def passes_def)

section \<open>Lookup\<close>

definition entry_found :: "bool \<Rightarrow> 'd target \<Rightarrow> Bias \<Rightarrow> 'd \<Rightarrow> bool" where
  "entry_found exact target bias p \<longleftrightarrow>
     (if exact then target p = Equal else reaches target bias p)"

text \<open>The loop over the items of a leaf; the result is the final position and the item
  found with the position of its end.\<close>

fun find_items ::
  "('s, 'd) dimension_ops \<Rightarrow> bool \<Rightarrow> 'd target \<Rightarrow> Bias \<Rightarrow> 'd \<Rightarrow> 'a list \<Rightarrow> 's list \<Rightarrow> 'd \<times> ('a \<times> 'd) option" where
  "find_items dim exact target bias position (x # xs) (s # ss) =
     (let child_end = dim_add dim position s in
      if entry_found exact target bias child_end then (position, Some (x, child_end))
      else find_items dim exact target bias child_end xs ss)"
| "find_items dim exact target bias position _ _ = (position, None)"

text \<open>The outer loop: pick the child the target lies in and continue there.\<close>

fun find_iterate ::
  "('s, 'd) dimension_ops \<Rightarrow> bool \<Rightarrow> 'd target \<Rightarrow> Bias \<Rightarrow> 'd \<Rightarrow> ('a, 's) Tree \<Rightarrow> 'd \<times> ('a \<times> 'd) option"
and find_children ::
  "('s, 'd) dimension_ops \<Rightarrow> bool \<Rightarrow> 'd target \<Rightarrow> Bias \<Rightarrow> 'd \<Rightarrow> ('a, 's) Tree list \<Rightarrow> 's list \<Rightarrow>
   'd \<times> ('a \<times> 'd) option" where
  "find_iterate dim exact target bias position (Internal h s css cts) =
     find_children dim exact target bias position cts css"
| "find_iterate dim exact target bias position (Leaf s xs ss) =
     find_items dim exact target bias position xs ss"
| "find_children dim exact target bias position (t # ts) (s # ss) =
     (let child_end = dim_add dim position s in
      if reaches target bias child_end then find_iterate dim exact target bias position t
      else find_children dim exact target bias child_end ts ss)"
| "find_children dim exact target bias position _ _ = (position, None)"

definition find_tree ::
  "('s, 'd) dimension_ops \<Rightarrow> bool \<Rightarrow> ('a, 's) Tree \<Rightarrow> 'd target \<Rightarrow> Bias \<Rightarrow> 'd \<times> 'd \<times> 'a option" where
  "find_tree dim exact t target bias =
     (let tree_end = dim_add dim (dim_zero dim) (summary t) in
      if passes target bias tree_end then (tree_end, tree_end, None)
      else (case find_iterate dim exact target bias (dim_zero dim) t of
          (pos, Some (item, item_end)) \<Rightarrow> (pos, item_end, Some item)
        | (pos, None) \<Rightarrow> (pos, pos, None)))"

definition tree_find :: "('s, 'd) dimension_ops \<Rightarrow> ('a, 's) Tree \<Rightarrow> 'd target \<Rightarrow> Bias \<Rightarrow> 'd \<times> 'd \<times> 'a option" where
  "tree_find dim t target bias = find_tree dim False t target bias"

definition tree_find_exact :: "('s, 'd) dimension_ops \<Rightarrow> ('a, 's) Tree \<Rightarrow> 'd target \<Rightarrow> Bias \<Rightarrow> 'd \<times> 'd \<times> 'a option" where
  "tree_find_exact dim t target bias = find_tree dim True t target bias"

text \<open>\<open>find_with_prev\<close> also remembers the item before the one it returns: the last item of
  the skipped sibling or the previous item of the leaf.  The panic of \<open>last()\<close> on a node
  without children is the outer option.\<close>

fun find_prev_items ::
  "('s, 'd) dimension_ops \<Rightarrow> 'd target \<Rightarrow> Bias \<Rightarrow> 'a option \<Rightarrow> 'd \<Rightarrow> 'a list \<Rightarrow> 's list \<Rightarrow>
   'd \<times> ('a option \<times> 'a \<times> 'd) option" where
  "find_prev_items dim target bias prev position (x # xs) (s # ss) =
     (let child_end = dim_add dim position s in
      if reaches target bias child_end then (position, Some (prev, x, child_end))
      else find_prev_items dim target bias (Some x) child_end xs ss)"
| "find_prev_items dim target bias prev position _ _ = (position, None)"

fun find_with_prev_iterate ::
  "('s, 'd) dimension_ops \<Rightarrow> 'd target \<Rightarrow> Bias \<Rightarrow> 'a option \<Rightarrow> 'd \<Rightarrow> ('a, 's) Tree \<Rightarrow>
   ('d \<times> ('a option \<times> 'a \<times> 'd) option) option"
and find_with_prev_children ::
  "('s, 'd) dimension_ops \<Rightarrow> 'd target \<Rightarrow> Bias \<Rightarrow> 'a option \<Rightarrow> 'd \<Rightarrow> ('a, 's) Tree list \<Rightarrow> 's list \<Rightarrow>
   ('d \<times> ('a option \<times> 'a \<times> 'd) option) option" where
  "find_with_prev_iterate dim target bias prev position (Internal h s css cts) =
     find_with_prev_children dim target bias prev position cts css"
| "find_with_prev_iterate dim target bias prev position (Leaf s xs ss) =
     Some (find_prev_items dim target bias prev position xs ss)"
| "find_with_prev_children dim target bias prev position (t # ts) (s # ss) =
     (let child_end = dim_add dim position s in
      if reaches target bias child_end then find_with_prev_iterate dim target bias prev position t
      else do {
        prev' \<leftarrow> tree_last t;
        find_with_prev_children dim target bias prev' child_end ts ss
      })"
| "find_with_prev_children dim target bias prev position _ _ = Some (position, None)"

definition tree_find_with_prev ::
  "('s, 'd) dimension_ops \<Rightarrow> ('a, 's) Tree \<Rightarrow> 'd target \<Rightarrow> Bias \<Rightarrow>
   ('d \<times> 'd \<times> ('a option \<times> 'a) option) option" where
  "tree_find_with_prev dim t target bias =
     (let tree_end = dim_add dim (dim_zero dim) (summary t) in
      if passes target bias tree_end then Some (tree_end, tree_end, None)
      else (case find_with_prev_iterate dim target bias None (dim_zero dim) t of
          None \<Rightarrow> None
        | Some (pos, Some (prev, item, item_end)) \<Rightarrow> Some (pos, item_end, Some (prev, item))
        | Some (pos, None) \<Rightarrow> Some (pos, pos, None)))"

section \<open>The reference: a linear scan\<close>

text \<open>Walk the items, adding one summary after the other, while the seek goes past the
  position reached: the items skipped, the final position, the items left.\<close>

fun seek_linear ::
  "('s, 'd) dimension_ops \<Rightarrow> ('a \<Rightarrow> 's) \<Rightarrow> ('d \<Rightarrow> bool) \<Rightarrow> 'd \<Rightarrow> 'a list \<Rightarrow> 'a list \<times> 'd \<times> 'a list" where
  "seek_linear dim f pass position [] = ([], position, [])"
| "seek_linear dim f pass position (x # xs) =
     (let item_end = dim_add dim position (f x) in
      if pass item_end then
        (case seek_linear dim f pass item_end xs of (skipped, p, rest) \<Rightarrow> (x # skipped, p, rest))
      else ([], position, x # xs))"

fun advance :: "('s, 'd) dimension_ops \<Rightarrow> ('a \<Rightarrow> 's) \<Rightarrow> 'd \<Rightarrow> 'a list \<Rightarrow> 'd" where
  "advance dim f position [] = position"
| "advance dim f position (x # xs) = advance dim f (dim_add dim position (f x)) xs"

fun positions :: "('s, 'd) dimension_ops \<Rightarrow> ('a \<Rightarrow> 's) \<Rightarrow> 'd \<Rightarrow> 'a list \<Rightarrow> 'd list" where
  "positions dim f position [] = []"
| "positions dim f position (x # xs) =
     (let item_end = dim_add dim position (f x) in item_end # positions dim f item_end xs)"

text \<open>The target is monotone along the items: once the seek stops at a position it does not
  go past a later one.\<close>

definition seek_mono :: "('s, 'd) dimension_ops \<Rightarrow> ('a \<Rightarrow> 's) \<Rightarrow> ('d \<Rightarrow> bool) \<Rightarrow> 'd \<Rightarrow> 'a list \<Rightarrow> bool" where
  "seek_mono dim f pass position xs \<longleftrightarrow>
     sorted_wrt (\<lambda>p q. pass q \<longrightarrow> pass p) (positions dim f position xs)"

lemma advance_append [simp]: "advance dim f p (xs @ ys) = advance dim f (advance dim f p xs) ys"
  by (induction xs arbitrary: p) auto

lemma positions_append:
  "positions dim f p (xs @ ys) = positions dim f p xs @ positions dim f (advance dim f p xs) ys"
  by (induction xs arbitrary: p) (auto simp: Let_def)

lemma advance_in_positions: "xs \<noteq> [] \<Longrightarrow> advance dim f p xs \<in> set (positions dim f p xs)"
proof (induction xs arbitrary: p)
  case (Cons x xs)
  then show ?case by (cases "xs = []") (auto simp: Let_def)
qed simp

lemma seek_linear_split:
  "seek_linear dim f pass p xs = (skipped, p', rest) \<Longrightarrow>
     xs = skipped @ rest \<and> p' = advance dim f p skipped \<and>
     (\<forall>q \<in> set (positions dim f p skipped). pass q) \<and>
     (rest \<noteq> [] \<longrightarrow> \<not> pass (dim_add dim p' (f (hd rest))))"
  by (induction xs arbitrary: p skipped p' rest)
    (fastforce simp: Let_def split: if_splits prod.splits)+

lemma seek_linear_skip:
  "\<forall>q \<in> set (positions dim f p xs). pass q \<Longrightarrow>
   seek_linear dim f pass p (xs @ ys) =
     (case seek_linear dim f pass (advance dim f p xs) ys of (s, p', r) \<Rightarrow> (xs @ s, p', r))"
  by (induction xs arbitrary: p) (auto simp: Let_def split: prod.splits)

lemma seek_mono_append:
  "seek_mono dim f pass p (xs @ ys) \<longleftrightarrow>
     seek_mono dim f pass p xs \<and> seek_mono dim f pass (advance dim f p xs) ys \<and>
     (\<forall>q \<in> set (positions dim f p xs). \<forall>r \<in> set (positions dim f (advance dim f p xs) ys). pass r \<longrightarrow> pass q)"
  by (auto simp: seek_mono_def positions_append sorted_wrt_append)

text \<open>Going past the end of a block of items is going past all of them.\<close>

lemma seek_mono_pass_all:
  assumes "seek_mono dim f pass p xs" "pass (advance dim f p xs)"
  shows "\<forall>q \<in> set (positions dim f p xs). pass q"
proof (cases xs rule: rev_cases)
  case (snoc ys y)
  with assms show ?thesis
    by (auto simp: seek_mono_def positions_append sorted_wrt_append Let_def)
qed simp

text \<open>Stopping inside a block decides the scan of everything that follows it.\<close>

lemma seek_linear_stop:
  assumes "seek_mono dim f pass p (xs @ ys)" "xs \<noteq> []" "\<not> pass (advance dim f p xs)"
  shows "seek_linear dim f pass p (xs @ ys) =
    (case seek_linear dim f pass p xs of (s, p', r) \<Rightarrow> (s, p', r @ ys)) \<and>
    snd (snd (seek_linear dim f pass p xs)) \<noteq> []"
  using assms
proof (induction xs arbitrary: p)
  case (Cons x xs)
  let ?e = "dim_add dim p (f x)"
  show ?case
  proof (cases "pass ?e")
    case True
    with Cons.prems have ne: "xs \<noteq> []" by auto
    have "seek_mono dim f pass ?e (xs @ ys)"
      using Cons.prems(1) by (simp add: seek_mono_def Let_def)
    with Cons.IH [OF this ne] Cons.prems(3) True show ?thesis
      by (auto simp: Let_def split: prod.splits)
  qed (simp add: Let_def)
qed simp

section \<open>Lookup is the linear scan\<close>

text \<open>The contract of a dimension: it adds up summaries in the same way as the summary
  itself.\<close>

locale dimension_algebra = summary_algebra ops
  for ops :: "('a, 's) summary_ops" +
  fixes dim :: "('s, 'd) dimension_ops"
  assumes dim_add_sum: "dim_add dim p (add_summary ops a b) = dim_add dim (dim_add dim p a) b"
begin

abbreviation "adv \<equiv> advance dim (item_summary ops)"
abbreviation "scan \<equiv> seek_linear dim (item_summary ops)"
abbreviation "monot \<equiv> seek_mono dim (item_summary ops)"

lemma dim_add_items: "xs \<noteq> [] \<Longrightarrow> dim_add dim p (items_summary ops xs) = adv p xs"
proof (induction xs arbitrary: p)
  case (Cons x xs)
  then show ?case
    by (cases "xs = []") (simp_all add: items_summary_def sum_single sum_Cons dim_add_sum)
qed simp

lemma dim_add_child: "child_ok ops h t \<Longrightarrow> dim_add dim p (summary t) = adv p (flatten t)"
  by (simp add: child_ok_summary child_ok_flatten dim_add_items)

definition found :: "'d \<times> 'a list \<Rightarrow> 'd \<times> ('a \<times> 'd) option" where
  "found r = (fst r, case snd r of [] \<Rightarrow> None | x # _ \<Rightarrow> Some (x, dim_add dim (fst r) (item_summary ops x)))"

lemma find_items_scan:
  "find_items dim False target bias p xs (map (item_summary ops) xs) =
     found (snd (scan (passes target bias) p xs))"
  by (induction xs arbitrary: p)
    (auto simp: found_def entry_found_def reaches_iff Let_def split: prod.split list.split)

lemma found_append: "r \<noteq> [] \<Longrightarrow> found (p, r @ ys) = found (p, r)"
  by (cases r) (simp_all add: found_def)

text \<open>One round of the descent, in terms of the scan over the concatenated children.\<close>

lemma scan_child:
  assumes "child_ok ops h t" "monot pass p (flatten t @ ys)"
  shows "pass (dim_add dim p (summary t)) \<Longrightarrow>
      snd (scan pass p (flatten t @ ys)) = snd (scan pass (dim_add dim p (summary t)) ys)"
    and "\<not> pass (dim_add dim p (summary t)) \<Longrightarrow>
      found (snd (scan pass p (flatten t @ ys))) = found (snd (scan pass p (flatten t)))"
    and "monot pass p (flatten t)" and "monot pass (dim_add dim p (summary t)) ys"
proof -
  note end_pos = dim_add_child [OF assms(1), of p]
  show mono: "monot pass p (flatten t)" and "monot pass (dim_add dim p (summary t)) ys"
    using assms(2) by (simp_all add: seek_mono_append end_pos)
  show "snd (scan pass p (flatten t @ ys)) = snd (scan pass (dim_add dim p (summary t)) ys)"
    if "pass (dim_add dim p (summary t))"
    using seek_linear_skip [OF seek_mono_pass_all [OF mono]] that by (simp add: end_pos split: prod.splits)
  show "found (snd (scan pass p (flatten t @ ys))) = found (snd (scan pass p (flatten t)))"
    if "\<not> pass (dim_add dim p (summary t))"
    using seek_linear_stop [OF assms(2) child_ok_flatten [OF assms(1)]] that
    by (auto simp: end_pos found_append split: prod.splits)
qed

lemma find_children_scan:
  assumes "list_all (child_ok ops h) ts" "monot (passes target bias) p (concat (map flatten ts))"
    and "\<And>t p. t \<in> set ts \<Longrightarrow> monot (passes target bias) p (flatten t) \<Longrightarrow>
      find_iterate dim False target bias p t = found (snd (scan (passes target bias) p (flatten t)))"
  shows "find_children dim False target bias p ts (map summary ts) =
    found (snd (scan (passes target bias) p (concat (map flatten ts))))"
  using assms
proof (induction ts arbitrary: p)
  case (Cons t ts)
  note c = scan_child [of h t "passes target bias" p "concat (map flatten ts)"]
  from Cons.prems c show ?case
    by (auto simp: Let_def reaches_iff intro!: Cons.IH)
qed (simp add: found_def)

lemma find_iterate_scan:
  "child_ok ops h t \<Longrightarrow> monot (passes target bias) p (flatten t) \<Longrightarrow>
     find_iterate dim False target bias p t = found (snd (scan (passes target bias) p (flatten t)))"
proof (induction t arbitrary: h p)
  case (Internal h' s css cts)
  then obtain hc where h: "h = Suc hc" by (auto elim: child_ok_height_cases)
  with Internal.prems have "list_all (child_ok ops hc) cts" "css = map summary cts"
    by (auto simp: child_ok_Internal)
  with find_children_scan [of hc cts target bias p] Internal.IH Internal.prems(2) show ?case
    by (auto simp: list_all_iff)
next
  case (Leaf s xs ss)
  then show ?case by (simp add: child_ok_Leaf find_items_scan)
qed

text \<open>An exact lookup to the left finds the item the scan stops at, if the target lies
  exactly at its end.\<close>

definition exact_found :: "'d target \<Rightarrow> 'd \<times> 'a list \<Rightarrow> ('a \<times> 'd) option" where
  "exact_found target r = (case snd (found r) of
     Some (x, e) \<Rightarrow> if target e = Equal then Some (x, e) else None | None \<Rightarrow> None)"

lemma exact_found_found: "found r = found r' \<Longrightarrow> exact_found target r = exact_found target r'"
  by (simp add: exact_found_def)

lemma find_items_none:
  "\<forall>q \<in> set (positions dim (item_summary ops) p xs). target q \<noteq> Equal \<Longrightarrow>
   snd (find_items dim True target bias p xs (map (item_summary ops) xs)) = None"
  by (induction xs arbitrary: p) (auto simp: Let_def entry_found_def)

lemma find_items_exact:
  "monot (passes target Right) p xs \<Longrightarrow>
   snd (find_items dim True target Left p xs (map (item_summary ops) xs)) =
     exact_found target (snd (scan (passes target Left) p xs))"
proof (induction xs arbitrary: p)
  case (Cons x xs)
  let ?e = "dim_add dim p (item_summary ops x)"
  have mono: "monot (passes target Right) ?e xs"
    and later: "\<forall>q \<in> set (positions dim (item_summary ops) ?e xs). passes target Right q \<longrightarrow> passes target Right ?e"
    using Cons.prems by (simp_all add: seek_mono_def Let_def)
  show ?case
  proof (cases "target ?e")
    case Less
    then have "snd (find_items dim True target Left ?e xs (map (item_summary ops) xs)) = None"
      using later by (intro find_items_none) (auto simp: passes_def)
    with Less show ?thesis
      by (simp add: Let_def entry_found_def passes_def exact_found_def found_def)
  next
    case Equal
    then show ?thesis
      by (simp add: Let_def entry_found_def passes_def exact_found_def found_def)
  next
    case Greater
    with Cons.IH [OF mono] show ?thesis
      by (simp add: Let_def entry_found_def passes_def split: prod.splits)
  qed
qed (simp add: exact_found_def found_def)

lemma find_children_exact:
  assumes "list_all (child_ok ops h) ts" "monot (passes target Left) p (concat (map flatten ts))"
    "monot (passes target Right) p (concat (map flatten ts))"
    and "\<And>t p. t \<in> set ts \<Longrightarrow> monot (passes target Left) p (flatten t) \<Longrightarrow>
      monot (passes target Right) p (flatten t) \<Longrightarrow>
      snd (find_iterate dim True target Left p t) = exact_found target (snd (scan (passes target Left) p (flatten t)))"
  shows "snd (find_children dim True target Left p ts (map summary ts)) =
    exact_found target (snd (scan (passes target Left) p (concat (map flatten ts))))"
  using assms
proof (induction ts arbitrary: p)
  case (Cons t ts)
  note l = scan_child [of h t "passes target Left" p "concat (map flatten ts)"]
  note r = scan_child(3,4) [of h t "passes target Right" p "concat (map flatten ts)"]
  show ?case
  proof (cases "passes target Left (dim_add dim p (summary t))")
    case True
    with Cons.prems l(1,4) r(2) show ?thesis by (auto simp: Let_def reaches_iff intro!: Cons.IH)
  next
    case False
    with Cons.prems l(3) r(1) exact_found_found [OF l(2)] show ?thesis by (auto simp: Let_def reaches_iff)
  qed
qed (simp add: exact_found_def found_def)

lemma find_iterate_exact:
  "child_ok ops h t \<Longrightarrow> monot (passes target Left) p (flatten t) \<Longrightarrow> monot (passes target Right) p (flatten t) \<Longrightarrow>
     snd (find_iterate dim True target Left p t) = exact_found target (snd (scan (passes target Left) p (flatten t)))"
proof (induction t arbitrary: h p)
  case (Internal h' s css cts)
  then obtain hc where h: "h = Suc hc" by (auto elim: child_ok_height_cases)
  with Internal.prems have "list_all (child_ok ops hc) cts" "css = map summary cts"
    by (auto simp: child_ok_Internal)
  with find_children_exact [of hc cts target p] Internal.IH Internal.prems(2,3) show ?case
    by (auto simp: list_all_iff)
next
  case (Leaf s xs ss)
  then show ?case by (simp add: child_ok_Leaf find_items_exact)
qed

text \<open>The item before the one found is the last item skipped.\<close>

definition found_prev :: "'a option \<Rightarrow> 'a list \<times> 'd \<times> 'a list \<Rightarrow> 'd \<times> ('a option \<times> 'a \<times> 'd) option" where
  "found_prev prev r = (case r of (skipped, p, rest) \<Rightarrow>
     (p, case rest of [] \<Rightarrow> None
         | x # _ \<Rightarrow> Some (if skipped = [] then prev else Some (last skipped), x, dim_add dim p (item_summary ops x))))"

lemma find_prev_items_scan:
  "find_prev_items dim target bias prev p xs (map (item_summary ops) xs) =
     found_prev prev (scan (passes target bias) p xs)"
  by (induction xs arbitrary: p prev)
    (auto simp: found_prev_def reaches_iff Let_def split: prod.split list.split)

lemma found_prev_skip:
  "ys \<noteq> [] \<Longrightarrow> found_prev prev (ys @ s, p, rest) = found_prev (Some (last ys)) (s, p, rest)"
  by (auto simp: found_prev_def split: list.split)

lemma found_prev_stop:
  "rest \<noteq> [] \<Longrightarrow> found_prev prev (s, p, rest @ ys) = found_prev prev (s, p, rest)"
  by (cases rest) (auto simp: found_prev_def)

lemma find_with_prev_children_scan:
  assumes "list_all (child_ok ops h) ts" "monot (passes target bias) p (concat (map flatten ts))"
    and "\<And>t p prev. t \<in> set ts \<Longrightarrow> monot (passes target bias) p (flatten t) \<Longrightarrow>
      find_with_prev_iterate dim target bias prev p t = Some (found_prev prev (scan (passes target bias) p (flatten t)))"
  shows "find_with_prev_children dim target bias prev p ts (map summary ts) =
    Some (found_prev prev (scan (passes target bias) p (concat (map flatten ts))))"
  using assms
proof (induction ts arbitrary: p prev)
  case (Cons t ts)
  let ?ys = "concat (map flatten ts)" and ?e = "dim_add dim p (summary t)"
  have t: "child_ok ops h t" and mono: "monot (passes target bias) p (flatten t @ ?ys)"
    using Cons.prems by simp_all
  note end_pos = dim_add_child [OF t, of p] and ne = child_ok_flatten [OF t]
  have last: "tree_last t = Some (Some (last (flatten t)))"
    using t first_last_ok(2) [of t] ne by (auto simp: child_ok_def list_last_def)
  show ?case
  proof (cases "passes target bias ?e")
    case True
    with Cons.prems scan_child(4) [OF t mono]
    have "find_with_prev_children dim target bias (Some (last (flatten t))) ?e ts (map summary ts) =
        Some (found_prev (Some (last (flatten t))) (scan (passes target bias) ?e ?ys))"
      by (intro Cons.IH) auto
    moreover have "scan (passes target bias) p (flatten t @ ?ys) =
        (case scan (passes target bias) ?e ?ys of (s, p', r) \<Rightarrow> (flatten t @ s, p', r))"
      using seek_linear_skip [OF seek_mono_pass_all [OF scan_child(3) [OF t mono]]] True
      by (simp add: end_pos)
    ultimately show ?thesis
      using True last
      by (cases "scan (passes target bias) ?e ?ys") (simp add: Let_def reaches_iff found_prev_skip [OF ne])
  next
    case False
    with Cons.prems scan_child(3) [OF t mono] seek_linear_stop [OF mono ne] show ?thesis
      by (cases "scan (passes target bias) p (flatten t)")
        (simp add: Let_def reaches_iff end_pos found_prev_stop)
  qed
qed (simp add: found_prev_def)

lemma find_with_prev_iterate_scan:
  "child_ok ops h t \<Longrightarrow> monot (passes target bias) p (flatten t) \<Longrightarrow>
     find_with_prev_iterate dim target bias prev p t = Some (found_prev prev (scan (passes target bias) p (flatten t)))"
proof (induction t arbitrary: h p prev)
  case (Internal h' s css cts)
  then obtain hc where h: "h = Suc hc" by (auto elim: child_ok_height_cases)
  with Internal.prems have "list_all (child_ok ops hc) cts" "css = map summary cts"
    by (auto simp: child_ok_Internal)
  moreover from this have "find_with_prev_children dim target bias prev p cts (map summary cts) =
      Some (found_prev prev (scan (passes target bias) p (concat (map flatten cts))))"
    using Internal.prems(2)
    by (intro find_with_prev_children_scan [of hc]) (auto simp: list_all_iff intro: Internal.IH)
  ultimately show ?case by simp
next
  case (Leaf s xs ss)
  then show ?case by (simp add: child_ok_Leaf find_prev_items_scan)
qed

text \<open>Whether the seek goes past the whole tree, in terms of the scan.\<close>

lemma scan_all:
  assumes "monot pass p xs" "xs \<noteq> []"
  shows "pass (adv p xs) \<Longrightarrow> scan pass p xs = (xs, adv p xs, [])"
    and "\<not> pass (adv p xs) \<Longrightarrow> snd (snd (scan pass p xs)) \<noteq> []"
  using seek_linear_skip [OF seek_mono_pass_all [OF assms(1)], of "[]"]
    seek_linear_stop [of dim "item_summary ops" pass p xs "[]"] assms by simp_all

lemma tree_find_ok:
  assumes wf: "wf_tree ops t" and ne: "flatten t \<noteq> []"
    and mono: "monot (passes target bias) (dim_zero dim) (flatten t)"
    and scan: "scan (passes target bias) (dim_zero dim) (flatten t) = (skipped, p, rest)"
  shows "tree_find dim t target bias =
      (p, (case rest of [] \<Rightarrow> p | x # _ \<Rightarrow> dim_add dim p (item_summary ops x)), list_first rest)"
    and "tree_find_with_prev dim t target bias =
      Some (p, (case rest of [] \<Rightarrow> p | x # _ \<Rightarrow> dim_add dim p (item_summary ops x)),
        map_option (Pair (list_last skipped)) (list_first rest))"
proof -
  have t: "child_ok ops (height t) t"
    using wf ne is_empty_flatten [OF wf] by (simp add: child_ok_def)
  note end_pos = dim_add_child [OF t, of "dim_zero dim"]
  show "tree_find dim t target bias =
      (p, (case rest of [] \<Rightarrow> p | x # _ \<Rightarrow> dim_add dim p (item_summary ops x)), list_first rest)"
  proof (cases "passes target bias (dim_add dim (dim_zero dim) (summary t))")
    case True
    with scan_all [OF mono ne] scan show ?thesis
      by (simp add: tree_find_def find_tree_def Let_def end_pos list_first_def)
  next
    case False
    with scan_all [OF mono ne] scan find_iterate_scan [OF t mono] show ?thesis
      by (cases rest) (simp_all add: tree_find_def find_tree_def Let_def end_pos list_first_def found_def)
  qed
  show "tree_find_with_prev dim t target bias =
      Some (p, (case rest of [] \<Rightarrow> p | x # _ \<Rightarrow> dim_add dim p (item_summary ops x)),
        map_option (Pair (list_last skipped)) (list_first rest))"
  proof (cases "passes target bias (dim_add dim (dim_zero dim) (summary t))")
    case True
    with scan_all [OF mono ne] scan show ?thesis
      by (simp add: tree_find_with_prev_def Let_def end_pos list_first_def)
  next
    case False
    with scan_all [OF mono ne] scan find_with_prev_iterate_scan [OF t mono, of None] show ?thesis
      by (cases rest)
        (simp_all add: tree_find_with_prev_def Let_def end_pos list_first_def list_last_def found_prev_def)
  qed
qed

lemma tree_find_exact_ok:
  assumes wf: "wf_tree ops t" and ne: "flatten t \<noteq> []"
    and mono: "monot (passes target Left) (dim_zero dim) (flatten t)"
      "monot (passes target Right) (dim_zero dim) (flatten t)"
    and scan: "scan (passes target Left) (dim_zero dim) (flatten t) = (skipped, p, rest)"
  shows "snd (snd (tree_find_exact dim t target Left)) =
    (case rest of [] \<Rightarrow> None
     | x # _ \<Rightarrow> if target (dim_add dim p (item_summary ops x)) = Equal then Some x else None)"
proof -
  have t: "child_ok ops (height t) t"
    using wf ne is_empty_flatten [OF wf] by (simp add: child_ok_def)
  note end_pos = dim_add_child [OF t, of "dim_zero dim"]
  show ?thesis
  proof (cases "passes target Left (dim_add dim (dim_zero dim) (summary t))")
    case True
    with scan_all [OF mono(1) ne] scan show ?thesis
      by (simp add: tree_find_exact_def find_tree_def Let_def end_pos)
  next
    case False
    with scan find_iterate_exact [OF t mono] show ?thesis
      by (cases "find_iterate dim True target Left (dim_zero dim) t"; cases rest)
        (auto simp: tree_find_exact_def find_tree_def Let_def end_pos exact_found_def found_def)
  qed
qed

lemma find_empty:
  assumes "wf_tree ops t" "flatten t = []"
  shows "snd (snd (find_tree dim exact t target bias)) = None"
proof -
  obtain s ss where "t = Leaf s [] ss"
    using assms is_empty_flatten [OF assms(1)] by (cases t) auto
  then show ?thesis by (simp add: find_tree_def Let_def)
qed

end

text \<open>A concrete dimension for the witnesses: the running total of the numbers.\<close>

definition sum_dim :: "(nat, nat) dimension_ops" where
  "sum_dim = \<lparr>dim_zero = 0, dim_add = (+)\<rparr>"

interpretation nat_sum_dim: dimension_algebra sum_ops sum_dim
  by unfold_locales (simp add: sum_ops_def sum_dim_def add.assoc)

text \<open>(C29) Looking a position up in the tree is equivalent to walking its items one by one.
  For a target that is monotone along the items, \<open>find\<close> skips exactly the items the linear
  scan skips, returns the item the scan stops at with the positions of its start and end,
  and \<open>find_with_prev\<close> also returns the last item skipped; neither panics.\<close>

theorem tree_find_linear:
  assumes "dimension_algebra ops dim" and "wf_tree ops t" and "flatten t \<noteq> []"
    and "seek_mono dim (item_summary ops) (passes target bias) (dim_zero dim) (flatten t)"
    and "seek_linear dim (item_summary ops) (passes target bias) (dim_zero dim) (flatten t) = (skipped, p, rest)"
  shows "tree_find dim t target bias =
      (p, (case rest of [] \<Rightarrow> p | x # _ \<Rightarrow> dim_add dim p (item_summary ops x)), list_first rest) \<and>
    tree_find_with_prev dim t target bias =
      Some (p, (case rest of [] \<Rightarrow> p | x # _ \<Rightarrow> dim_add dim p (item_summary ops x)),
        map_option (Pair (list_last skipped)) (list_first rest))"
  using dimension_algebra.tree_find_ok [OF assms] by blast

theorem tree_find_linear_witness:
  "tree_find sum_dim (Leaf 12 [2, 4, 6 :: nat] [2, 4, 6]) (cmp 6) Bias.Left = (2, 6, Some 4)"
proof -
  have "wf_tree sum_ops (Leaf 12 [2, 4, 6 :: nat] [2, 4, 6])"
    by (simp add: sum_ops_def sum_summaries_def TREE_BASE_def)
  then show ?thesis
    using tree_find_linear [OF nat_sum_dim.dimension_algebra_axioms,
        of "Leaf 12 [2, 4, 6] [2, 4, 6]" "cmp 6" Bias.Left "[2]" 2 "[4, 6]"]
    by (simp add: sum_ops_def sum_dim_def seek_mono_def passes_def Let_def list_first_def)
qed

text \<open>\<open>find_exact\<close> with left bias returns an item exactly when the target lies at the end
  position of the item the linear scan stops at, and returns that item.\<close>

lemma tree_find_exact_linear:
  assumes "dimension_algebra ops dim" and "wf_tree ops t" and "flatten t \<noteq> []"
    and "seek_mono dim (item_summary ops) (passes target Bias.Left) (dim_zero dim) (flatten t)"
    and "seek_mono dim (item_summary ops) (passes target Bias.Right) (dim_zero dim) (flatten t)"
    and "seek_linear dim (item_summary ops) (passes target Bias.Left) (dim_zero dim) (flatten t) = (skipped, p, rest)"
  shows "snd (snd (tree_find_exact dim t target Bias.Left)) =
    (case rest of [] \<Rightarrow> None
     | x # _ \<Rightarrow> if target (dim_add dim p (item_summary ops x)) = Equal then Some x else None)"
  using assms by (rule dimension_algebra.tree_find_exact_ok)

end
