(* ===== verification/Cursor.thy ===== *)
theory Cursor
  imports SumTree_Find
begin

text \<open>
  The cursor of a tree (\<open>crates/sum_tree/src/cursor.rs\<close>): a stack machine that seeks
  forward, aggregating what it passes, and steps forward and backward.

  A cursor keeps the path from the root to the leaf it is in as a stack of entries; the
  model keeps the top of the stack at the head of the list.  The stack holds at most 16
  entries; pushing more panics.  The aggregates of \<open>seek_internal\<close> (a trait object in the
  source) are a record of operations on an aggregate state.
\<close>

section \<open>Cursors\<close>

record ('a, 's, 'd) StackEntry =
  se_tree :: "('a, 's) Tree"
  se_index :: nat
  se_position :: 'd

record ('a, 's, 'd) Cursor =
  c_tree :: "('a, 's) Tree"
  c_stack :: "('a, 's, 'd) StackEntry list"
  c_position :: 'd
  c_did_seek :: bool
  c_at_end :: bool

definition cursor_new :: "('s, 'd) dimension_ops \<Rightarrow> ('a, 's) Tree \<Rightarrow> ('a, 's, 'd) Cursor" where
  "cursor_new dim t = \<lparr>c_tree = t, c_stack = [], c_position = dim_zero dim, c_did_seek = False,
     c_at_end = is_empty t\<rparr>"

definition cursor_reset :: "('s, 'd) dimension_ops \<Rightarrow> ('a, 's, 'd) Cursor \<Rightarrow> ('a, 's, 'd) Cursor" where
  "cursor_reset dim c = c\<lparr>c_did_seek := False, c_at_end := is_empty (c_tree c), c_stack := [],
     c_position := dim_zero dim\<rparr>"

definition push_stack ::
  "('a, 's, 'd) StackEntry list \<Rightarrow> ('a, 's, 'd) StackEntry \<Rightarrow> ('a, 's, 'd) StackEntry list option" where
  "push_stack st e = (if length st < 16 then Some (e # st) else None)"

text \<open>Reading the item under the cursor panics before the first seek, and when the cursor is
  not in a leaf; the outer option is the panic.\<close>

definition cursor_item :: "('a, 's, 'd) Cursor \<Rightarrow> 'a option option" where
  "cursor_item c =
     (if \<not> c_did_seek c then None
      else (case c_stack c of
        [] \<Rightarrow> Some None
      | entry # _ \<Rightarrow>
          (case se_tree entry of
            Leaf _ xs _ \<Rightarrow>
              (if se_index entry = length xs then Some None
               else map_option Some (list_get xs (se_index entry)))
          | Internal _ _ _ _ \<Rightarrow> None)))"

definition cursor_item_summary :: "('a, 's, 'd) Cursor \<Rightarrow> 's option option" where
  "cursor_item_summary c =
     (if \<not> c_did_seek c then None
      else (case c_stack c of
        [] \<Rightarrow> Some None
      | entry # _ \<Rightarrow>
          (case se_tree entry of
            Leaf _ _ ss \<Rightarrow>
              (if se_index entry = length ss then Some None
               else map_option Some (list_get ss (se_index entry)))
          | Internal _ _ _ _ \<Rightarrow> None)))"

definition cursor_end :: "('s, 'd) dimension_ops \<Rightarrow> ('a, 's, 'd) Cursor \<Rightarrow> 'd option" where
  "cursor_end dim c = do {
     res \<leftarrow> cursor_item_summary c;
     Some (case res of Some s \<Rightarrow> dim_add dim (c_position c) s | None \<Rightarrow> c_position c)
   }"

section \<open>Seeking forward\<close>

record ('a, 's, 'g) SeekAggregate =
  agg_begin_leaf :: "'g \<Rightarrow> 'g"
  agg_end_leaf :: "'g \<Rightarrow> 'g option"
  agg_push_item :: "'a \<Rightarrow> 's \<Rightarrow> 'g \<Rightarrow> 'g option"
  agg_push_tree :: "('a, 's) Tree \<Rightarrow> 's \<Rightarrow> 'g \<Rightarrow> 'g option"

text \<open>The loop over the children of an internal node, from the entry's index: index, cursor
  position, entry position and aggregate after it, and the child to descend into.\<close>

fun seek_children ::
  "('s, 'd) dimension_ops \<Rightarrow> ('a, 's, 'g) SeekAggregate \<Rightarrow> ('d \<Rightarrow> bool) \<Rightarrow> nat \<Rightarrow> 'd \<Rightarrow> 'd \<Rightarrow> 'g \<Rightarrow>
   ('a, 's) Tree list \<Rightarrow> 's list \<Rightarrow> (nat \<times> 'd \<times> 'd \<times> 'g \<times> ('a, 's) Tree option) option" where
  "seek_children dim agg pass index position entry_position g (t # ts) (s # ss) =
     (let child_end = dim_add dim position s in
      if pass child_end then do {
        g' \<leftarrow> agg_push_tree agg t s g;
        seek_children dim agg pass (Suc index) child_end child_end g' ts ss
      } else Some (index, position, entry_position, g, Some t))"
| "seek_children dim agg pass index position entry_position g _ _ =
     Some (index, position, entry_position, g, None)"

text \<open>The loop over the items of a leaf; the flag says that the seek stops in this leaf.\<close>

fun seek_items ::
  "('s, 'd) dimension_ops \<Rightarrow> ('a, 's, 'g) SeekAggregate \<Rightarrow> ('d \<Rightarrow> bool) \<Rightarrow> nat \<Rightarrow> 'd \<Rightarrow> 'g \<Rightarrow>
   'a list \<Rightarrow> 's list \<Rightarrow> (nat \<times> 'd \<times> 'g \<times> bool) option" where
  "seek_items dim agg pass index position g (x # xs) (s # ss) =
     (let child_end = dim_add dim position s in
      if pass child_end then do {
        g' \<leftarrow> agg_push_item agg x s g;
        seek_items dim agg pass (Suc index) child_end g' xs ss
      } else Some (index, position, g, True))"
| "seek_items dim agg pass index position g _ _ = Some (index, position, g, False)"

lemma seek_children_child:
  "seek_children dim agg pass i p ep g ts ss = Some (i', p', ep', g', Some t) \<Longrightarrow>
     \<exists>n < length ts. i' = i + n \<and> t = ts ! n"
proof (induction dim agg pass i p ep g ts ss rule: seek_children.induct)
  case (1 dim agg pass i p ep g t1 ts s ss)
  show ?case
  proof (cases "pass (dim_add dim p s)")
    case True
    with "1.prems" obtain g1 where "agg_push_tree agg t1 s g = Some g1"
      "seek_children dim agg pass (Suc i) (dim_add dim p s) (dim_add dim p s) g1 ts ss = Some (i', p', ep', g', Some t)"
      by (auto simp: Let_def bind_eq_Some_conv)
    with "1.IH" [OF refl True] obtain n where "n < length ts" "i' = Suc i + n" "t = ts ! n" by blast
    then show ?thesis by (intro exI [of _ "Suc n"]) simp
  next
    case False
    with "1.prems" show ?thesis by (intro exI [of _ 0]) (simp add: Let_def)
  qed
qed auto

text \<open>The work left to the main loop: the nodes not yet visited under the entries of the
  stack.\<close>

fun tree_weight :: "('a, 's) Tree \<Rightarrow> nat" where
  "tree_weight (Internal h s ss ts) = Suc (Suc (sum_list (map tree_weight ts)))"
| "tree_weight (Leaf s xs ss) = 2"

fun subtrees :: "('a, 's) Tree \<Rightarrow> ('a, 's) Tree list" where
  "subtrees (Internal h s ss ts) = ts"
| "subtrees (Leaf s xs ss) = []"

definition entry_weight :: "bool \<Rightarrow> ('a, 's, 'd) StackEntry \<Rightarrow> nat" where
  "entry_weight past e =
     Suc (sum_list (map tree_weight (drop (se_index e + (if past then 1 else 0)) (subtrees (se_tree e)))))"

fun stack_weight :: "bool \<Rightarrow> ('a, 's, 'd) StackEntry list \<Rightarrow> nat" where
  "stack_weight past [] = 0"
| "stack_weight past (e # st) = entry_weight past e + sum_list (map (entry_weight True) st)"

lemma stack_weight_True: "stack_weight True st = sum_list (map (entry_weight True) st)"
  by (cases st) auto

lemma tree_weight_subtrees: "tree_weight t = Suc (Suc (sum_list (map tree_weight (subtrees t))))"
  by (cases t) auto

lemma stack_weight_pop: "stack_weight True st < stack_weight past (e # st)"
  by (simp add: stack_weight_True entry_weight_def)

lemma stack_weight_descend:
  assumes "se_index e' < length (subtrees (se_tree e))" "se_index e + (if past then 1 else 0) \<le> se_index e'"
    "se_tree e' = se_tree e" "se_tree c = subtrees (se_tree e) ! se_index e'" "se_index c = 0"
  shows "stack_weight False (c # e' # st) < stack_weight past (e # st)"
proof -
  let ?ts = "subtrees (se_tree e)" and ?i = "se_index e + (if past then 1 else 0)" and ?n = "se_index e'"
  have "drop ?n ?ts = drop (?n - ?i) (drop ?i ?ts)"
    using assms(2) by simp
  then have "sum_list (map tree_weight (drop ?n ?ts)) \<le> sum_list (map tree_weight (drop ?i ?ts))"
    by (metis append_take_drop_id map_append sum_list_append le_add2)
  moreover have "drop ?n ?ts = ?ts ! ?n # drop (Suc ?n) ?ts"
    using assms(1) by (rule Cons_nth_drop_Suc [symmetric])
  ultimately show ?thesis
    using assms(3-5) tree_weight_subtrees [of "?ts ! ?n"] by (simp add: entry_weight_def)
qed

function seek_loop ::
  "('s, 'd) dimension_ops \<Rightarrow> ('a, 's, 'g) SeekAggregate \<Rightarrow> ('d \<Rightarrow> bool) \<Rightarrow> bool \<Rightarrow>
   ('a, 's, 'd) StackEntry list \<Rightarrow> 'd \<Rightarrow> 'g \<Rightarrow> (('a, 's, 'd) StackEntry list \<times> 'd \<times> 'g) option" where
  "seek_loop dim agg pass ascending [] position g = Some ([], position, g)"
| "seek_loop dim agg pass ascending (entry # st) position g =
     (case se_tree entry of
        Internal h s css cts \<Rightarrow>
          (let entry1 = (if ascending
             then entry\<lparr>se_index := se_index entry + 1, se_position := position\<rparr> else entry) in
           if length cts < se_index entry1 \<or> length css < se_index entry1 then None
           else do {
             (index, position', entry_position, g', child) \<leftarrow>
               seek_children dim agg pass (se_index entry1) position (se_position entry1) g
                 (drop (se_index entry1) cts) (drop (se_index entry1) css);
             (case child of
                Some t \<Rightarrow> do {
                  st' \<leftarrow> push_stack (entry1\<lparr>se_index := index, se_position := entry_position\<rparr> # st)
                    \<lparr>se_tree = t, se_index = 0, se_position = position'\<rparr>;
                  seek_loop dim agg pass False st' position' g'
                }
              | None \<Rightarrow> seek_loop dim agg pass True st position' g')
           })
      | Leaf s xs ss \<Rightarrow>
          if length xs < se_index entry \<or> length ss < se_index entry then None
          else do {
            (index, position', g', stop) \<leftarrow>
              seek_items dim agg pass (se_index entry) position (agg_begin_leaf agg g)
                (drop (se_index entry) xs) (drop (se_index entry) ss);
            g'' \<leftarrow> agg_end_leaf agg g';
            (if stop then Some (entry\<lparr>se_index := index\<rparr> # st, position', g'')
             else seek_loop dim agg pass True st position' g'')
          })"
  by pat_completeness auto
termination
proof (relation "measure (\<lambda>(dim, agg, pass, ascending, st, position, g). stack_weight ascending st)", goal_cases)
  case 3
  then show ?case
    by (auto simp: push_stack_def simp del: stack_weight.simps split: if_splits
        dest!: seek_children_child intro!: stack_weight_descend)
qed (simp_all add: stack_weight_pop del: stack_weight.simps)

declare seek_loop.simps(2) [simp del]

definition cursor_seek_internal ::
  "('s, 'd) dimension_ops \<Rightarrow> ('a, 's, 'g) SeekAggregate \<Rightarrow> ('a, 's, 'd) Cursor \<Rightarrow> 'd target \<Rightarrow> Bias \<Rightarrow> 'g \<Rightarrow>
   (('a, 's, 'd) Cursor \<times> 'g \<times> bool) option" where
  "cursor_seek_internal dim agg c target bias g =
     (if target (c_position c) = Less then None
      else do {
        st \<leftarrow> (if c_did_seek c then Some (c_stack c)
          else push_stack (c_stack c) \<lparr>se_tree = c_tree c, se_index = 0, se_position = dim_zero dim\<rparr>);
        (st', position, g') \<leftarrow> seek_loop dim agg (passes target bias) False st (c_position c) g;
        let c' = c\<lparr>c_did_seek := True, c_stack := st', c_position := position, c_at_end := (st' = [])\<rparr>;
        end_pos \<leftarrow> (if bias = Bias.Left then do {
            res \<leftarrow> cursor_item_summary c';
            Some (case res of Some s \<Rightarrow> dim_add dim position s | None \<Rightarrow> position)
          } else Some position);
        Some (c', g', target end_pos = Equal)
      })"

text \<open>The three aggregates: nothing, a slice, a summary.\<close>

definition unit_aggregate :: "('a, 's, unit) SeekAggregate" where
  "unit_aggregate = \<lparr>agg_begin_leaf = (\<lambda>g. g), agg_end_leaf = Some, agg_push_item = (\<lambda>_ _. Some),
     agg_push_tree = (\<lambda>_ _. Some)\<rparr>"

record ('a, 's) SliceSeekAggregate =
  slice_tree :: "('a, 's) Tree"
  slice_leaf_items :: "'a list"
  slice_leaf_item_summaries :: "'s list"
  slice_leaf_summary :: 's

definition slice_aggregate :: "('a, 's) summary_ops \<Rightarrow> ('a, 's, ('a, 's) SliceSeekAggregate) SeekAggregate" where
  "slice_aggregate ops = \<lparr>
     agg_begin_leaf = (\<lambda>g. g),
     agg_end_leaf = (\<lambda>g. do {
       t \<leftarrow> append_tree ops (slice_tree g)
         (Leaf (slice_leaf_summary g) (slice_leaf_items g) (slice_leaf_item_summaries g));
       Some (g\<lparr>slice_tree := t, slice_leaf_items := [], slice_leaf_item_summaries := [],
         slice_leaf_summary := summary_zero ops\<rparr>) }),
     agg_push_item = (\<lambda>x s g. do {
       xs \<leftarrow> array_vec (slice_leaf_items g @ [x]);
       ss \<leftarrow> array_vec (slice_leaf_item_summaries g @ [s]);
       Some (g\<lparr>slice_leaf_items := xs, slice_leaf_item_summaries := ss,
         slice_leaf_summary := add_summary ops (slice_leaf_summary g) s\<rparr>) }),
     agg_push_tree = (\<lambda>t _ g. do {
       t' \<leftarrow> append_tree ops (slice_tree g) t;
       Some (g\<lparr>slice_tree := t'\<rparr>) })\<rparr>"

definition summary_aggregate :: "('s, 'o) dimension_ops \<Rightarrow> ('a, 's, 'o) SeekAggregate" where
  "summary_aggregate out = \<lparr>agg_begin_leaf = (\<lambda>g. g), agg_end_leaf = Some,
     agg_push_item = (\<lambda>_ s g. Some (dim_add out g s)), agg_push_tree = (\<lambda>_ s g. Some (dim_add out g s))\<rparr>"

definition cursor_seek ::
  "('s, 'd) dimension_ops \<Rightarrow> ('a, 's, 'd) Cursor \<Rightarrow> 'd target \<Rightarrow> Bias \<Rightarrow> (('a, 's, 'd) Cursor \<times> bool) option" where
  "cursor_seek dim c target bias = do {
     (c', _, hit) \<leftarrow> cursor_seek_internal dim unit_aggregate (cursor_reset dim c) target bias ();
     Some (c', hit)
   }"

definition cursor_seek_forward ::
  "('s, 'd) dimension_ops \<Rightarrow> ('a, 's, 'd) Cursor \<Rightarrow> 'd target \<Rightarrow> Bias \<Rightarrow> (('a, 's, 'd) Cursor \<times> bool) option" where
  "cursor_seek_forward dim c target bias = do {
     (c', _, hit) \<leftarrow> cursor_seek_internal dim unit_aggregate c target bias ();
     Some (c', hit)
   }"

definition cursor_slice ::
  "('a, 's) summary_ops \<Rightarrow> ('s, 'd) dimension_ops \<Rightarrow> ('a, 's, 'd) Cursor \<Rightarrow> 'd target \<Rightarrow> Bias \<Rightarrow>
   (('a, 's, 'd) Cursor \<times> ('a, 's) Tree) option" where
  "cursor_slice ops dim c target bias = do {
     (c', g, _) \<leftarrow> cursor_seek_internal dim (slice_aggregate ops) c target bias
       \<lparr>slice_tree = new_tree ops, slice_leaf_items = [], slice_leaf_item_summaries = [],
        slice_leaf_summary = summary_zero ops\<rparr>;
     Some (c', slice_tree g)
   }"

text \<open>\<open>End\<close> is the target after everything.\<close>

definition end_target :: "'d target" where
  "end_target = (\<lambda>_. Greater)"

definition cursor_suffix ::
  "('a, 's) summary_ops \<Rightarrow> ('s, 'd) dimension_ops \<Rightarrow> ('a, 's, 'd) Cursor \<Rightarrow>
   (('a, 's, 'd) Cursor \<times> ('a, 's) Tree) option" where
  "cursor_suffix ops dim c = cursor_slice ops dim c end_target Bias.Right"

definition cursor_summary ::
  "('s, 'd) dimension_ops \<Rightarrow> ('s, 'o) dimension_ops \<Rightarrow> ('a, 's, 'd) Cursor \<Rightarrow> 'd target \<Rightarrow> Bias \<Rightarrow>
   (('a, 's, 'd) Cursor \<times> 'o) option" where
  "cursor_summary dim out c target bias = do {
     (c', g, _) \<leftarrow> cursor_seek_internal dim (summary_aggregate out) c target bias (dim_zero out);
     Some (c', g)
   }"

end
