(* ===== verification/Cursor_Seek.thy ===== *)
theory Cursor_Seek
  imports Cursor
begin

text \<open>
  Correctness of seeking with a cursor: what a stack denotes (the items before and after
  the cursor), the invariant of the stack, and the proof that the stack machine performs the
  linear scan and hands every skipped item to its aggregate exactly once and in order.
\<close>

section \<open>What a stack denotes\<close>

fun entry_before :: "('a, 's, 'd) StackEntry \<Rightarrow> 'a list" where
  "entry_before e = (case se_tree e of
     Leaf _ xs _ \<Rightarrow> take (se_index e) xs
   | Internal _ _ _ ts \<Rightarrow> concat (map flatten (take (se_index e) ts)))"

fun entry_after :: "nat \<Rightarrow> ('a, 's, 'd) StackEntry \<Rightarrow> 'a list" where
  "entry_after skip e = (case se_tree e of
     Leaf _ xs _ \<Rightarrow> drop (se_index e + skip) xs
   | Internal _ _ _ ts \<Rightarrow> concat (map flatten (drop (se_index e + skip) ts)))"

declare entry_before.simps [simp del] entry_after.simps [simp del]

fun stack_before :: "('a, 's, 'd) StackEntry list \<Rightarrow> 'a list" where
  "stack_before [] = []"
| "stack_before (e # st) = stack_before st @ entry_before e"

definition stack_above :: "('a, 's, 'd) StackEntry list \<Rightarrow> 'a list" where
  "stack_above st = concat (map (entry_after 1) st)"

lemma stack_above_simps [simp]:
  "stack_above [] = []" "stack_above (e # st) = entry_after 1 e @ stack_above st"
  by (simp_all add: stack_above_def)

lemma entry_split: "entry_before e @ entry_after 0 e = flatten (se_tree e)"
  by (cases "se_tree e")
    (simp_all add: entry_before.simps entry_after.simps SumTree.summary_algebra.concat_map_take_drop
      flip: concat_append map_append)


text \<open>The entries under the top of the stack are the path from the root to the tree \<open>t\<close>;
  each remembers the position of the child it leads to.\<close>

fun path_ok ::
  "('s, 'd) dimension_ops \<Rightarrow> ('a \<Rightarrow> 's) \<Rightarrow> ('a, 's) Tree \<Rightarrow> ('a, 's, 'd) StackEntry list \<Rightarrow> ('a, 's) Tree \<Rightarrow> bool" where
  "path_ok dim f root [] t \<longleftrightarrow> t = root"
| "path_ok dim f root (e # st) t \<longleftrightarrow>
     se_index e < length (subtrees (se_tree e)) \<and> subtrees (se_tree e) ! se_index e = t \<and>
     se_position e = advance dim f (dim_zero dim) (stack_before (e # st)) \<and>
     path_ok dim f root st (se_tree e)"

fun node_length :: "('a, 's) Tree \<Rightarrow> nat" where
  "node_length (Leaf s xs ss) = length xs"
| "node_length (Internal h s ss ts) = length ts"

text \<open>A stack the main loop of the seek can continue from, and the items it has still to
  look at.\<close>

fun seek_ready ::
  "('s, 'd) dimension_ops \<Rightarrow> ('a \<Rightarrow> 's) \<Rightarrow> ('a, 's) Tree \<Rightarrow> ('a, 's, 'd) StackEntry list \<Rightarrow> 'd \<Rightarrow> bool" where
  "seek_ready dim f root [] pos \<longleftrightarrow> True"
| "seek_ready dim f root (e # st) pos \<longleftrightarrow>
     path_ok dim f root st (se_tree e) \<and> se_index e \<le> node_length (se_tree e) \<and>
     pos = advance dim f (dim_zero dim) (stack_before (e # st)) \<and>
     (is_leaf (se_tree e) \<or> se_position e = pos)"

fun stack_remaining :: "('a, 's, 'd) StackEntry list \<Rightarrow> 'a list" where
  "stack_remaining [] = []"
| "stack_remaining (e # st) = entry_after 0 e @ stack_above st"

text \<open>A stack whose top is at an item of a leaf.\<close>

fun at_item ::
  "('s, 'd) dimension_ops \<Rightarrow> ('a \<Rightarrow> 's) \<Rightarrow> ('a, 's) Tree \<Rightarrow> ('a, 's, 'd) StackEntry list \<Rightarrow> bool" where
  "at_item dim f root [] \<longleftrightarrow> False"
| "at_item dim f root (e # st) \<longleftrightarrow>
     is_leaf (se_tree e) \<and> se_index e < node_length (se_tree e) \<and> path_ok dim f root st (se_tree e)"

lemma at_item_seek_ready:
  "at_item dim f root st \<Longrightarrow> seek_ready dim f root st (advance dim f (dim_zero dim) (stack_before st))"
  by (cases st) auto

text \<open>Leaving a subtree: the entry above moves on to the next child.\<close>

fun ascend :: "'d \<Rightarrow> ('a, 's, 'd) StackEntry list \<Rightarrow> ('a, 's, 'd) StackEntry list" where
  "ascend pos [] = []"
| "ascend pos (e # st) = e\<lparr>se_index := se_index e + 1, se_position := pos\<rparr> # st"

lemma stack_weight_ascend: "stack_weight False (ascend pos st) = stack_weight True st"
  by (cases st) (simp_all add: entry_weight_def)

lemma seek_loop_ascend:
  "path_ok dim f root st t \<Longrightarrow>
     seek_loop dim agg pass True st pos g = seek_loop dim agg pass False (ascend pos st) pos g"
  by (cases st; cases "se_tree (hd st)") (auto simp: seek_loop.simps(2))

lemma entry_before_Suc:
  "se_index e < length (subtrees (se_tree e)) \<Longrightarrow>
     entry_before (e\<lparr>se_index := Suc (se_index e), se_position := pos\<rparr>) =
     entry_before e @ flatten (subtrees (se_tree e) ! se_index e)"
  by (cases "se_tree e") (simp_all add: entry_before.simps take_Suc_conv_app_nth)

lemma entry_after_Suc:
  "entry_after 0 (e\<lparr>se_index := Suc (se_index e), se_position := pos\<rparr>) = entry_after 1 e"
  by (cases "se_tree e") (simp_all add: entry_after.simps)

lemma ascend_ready:
  assumes "path_ok dim f root st t" "pos = advance dim f (dim_zero dim) (stack_before st @ flatten t)"
  shows "seek_ready dim f root (ascend pos st) pos"
    and "stack_remaining (ascend pos st) = stack_above st"
    and "st \<noteq> [] \<Longrightarrow> stack_before (ascend pos st) = stack_before st @ flatten t"
  using assms by (cases st; cases "se_tree (hd st)"; auto simp: entry_before_Suc entry_after_Suc)+

lemma seek_linear_append:
  "seek_linear dim f pass p (xs @ ys) =
     (case seek_linear dim f pass p xs of (s, p', r) \<Rightarrow>
        if r = [] then (case seek_linear dim f pass p' ys of (s2, p2, r2) \<Rightarrow> (s @ s2, p2, r2))
        else (s, p', r @ ys))"
  by (induction xs arbitrary: p) (auto simp: Let_def split: prod.splits)

section \<open>The seek performs the linear scan\<close>

context dimension_algebra
begin

abbreviation "path \<equiv> path_ok dim (item_summary ops)"
abbreviation "ready \<equiv> seek_ready dim (item_summary ops)"

text \<open>A path leads to a well-formed subtree, one level down per entry, and splits the items of
  the root around it.\<close>

lemma path_ok_subtree:
  assumes "wf_tree ops root" "path root st t"
  shows "wf_tree ops t \<and> height t + length st = height root \<and>
    (st \<noteq> [] \<longrightarrow> child_ok ops (height t) t) \<and> stack_before st @ flatten t @ stack_above st = flatten root"
  using assms(2)
proof (induction st arbitrary: t)
  case Nil
  with assms(1) show ?case by simp
next
  case (Cons e st)
  then have IH: "wf_tree ops (se_tree e)" "height (se_tree e) + length st = height root"
    "stack_before st @ flatten (se_tree e) @ stack_above st = flatten root"
    and t: "se_index e < length (subtrees (se_tree e))" "t = subtrees (se_tree e) ! se_index e" by auto
  obtain h s ss ts where e: "se_tree e = Internal h s ss ts"
    using t by (cases "se_tree e") auto
  have "flatten (se_tree e) = entry_before e @ flatten t @ entry_after 1 e"
    using t id_take_nth_drop [of "se_index e" ts]
    by (simp add: e entry_before.simps entry_after.simps flip: concat_append map_append)
      (metis concat.simps(2) concat_append list.map(2) map_append)
  moreover have "t \<in> set ts" "Suc (height t) = height (se_tree e)" "child_ok ops (height t) t"
    using t IH(1) by (auto simp: e list_all_iff child_ok_def)
  ultimately show ?case
    using IH(2,3) by (auto simp: child_ok_def)
qed

lemma path_ok_Internal:
  assumes "wf_tree ops root" "path root st (Internal h s css cts)"
  shows "css = map summary cts" "list_all (child_ok ops (h - 1)) cts" "0 < h" "h + length st = height root"
proof -
  have wf: "wf_tree ops (Internal h s css cts)" and "h + length st = height root"
    using path_ok_subtree [OF assms] by simp_all
  then show "css = map summary cts" "h + length st = height root" by simp_all
  show "list_all (child_ok ops (h - 1)) cts"
    using wf by (auto simp: list_all_iff child_ok_def)
  show "0 < h" using wf by (cases cts) auto
qed

lemma ready_split:
  assumes "wf_tree ops root" "ready root st pos" "st \<noteq> []"
  shows "stack_before st @ stack_remaining st = flatten root"
proof (cases st)
  case (Cons e st')
  with assms path_ok_subtree [of root st' "se_tree e"] entry_split [of e] show ?thesis
    by (metis append_assoc seek_ready.simps(2) stack_before.simps(2) stack_remaining.simps(2))
qed (use assms in simp)

text \<open>The state after descending from an internal node over the first \<open>n\<close> of the children
  left.\<close>

lemma descend_ready:
  fixes pos :: 'd
  assumes e: "se_tree e = Internal h s css cts" and ready: "ready root (e # st) pos"
    and n: "n < length (drop (se_index e) cts)"
    and p': "p' = adv pos (concat (map flatten (take n (drop (se_index e) cts))))"
  defines "down \<equiv> \<lparr>se_tree = drop (se_index e) cts ! n, se_index = 0, se_position = p'\<rparr> #
    e\<lparr>se_index := se_index e + n, se_position := p'\<rparr> # st"
  shows "ready root down p'"
    and "stack_before down = stack_before (e # st) @ concat (map flatten (take n (drop (se_index e) cts)))"
    and "stack_remaining (e # st) =
      concat (map flatten (take n (drop (se_index e) cts))) @ stack_remaining down"
    and "stack_weight False down < stack_weight False (e # st)"
proof -
  let ?i = "se_index e" and ?sk = "concat (map flatten (take n (drop (se_index e) cts)))"
  have idx: "?i + n < length cts" "drop ?i cts ! n = cts ! (?i + n)" using n by auto
  have pos: "pos = adv (dim_zero dim) (stack_before (e # st))" using ready by simp
  show before: "stack_before down = stack_before (e # st) @ ?sk"
    by (cases "cts ! (?i + n)")
      (simp_all add: down_def idx(2) e entry_before.simps take_add)
  have "p' = adv (dim_zero dim) (stack_before down)"
    by (simp only: before p' pos advance_append)
  then show "ready root down p'"
    using ready idx before by (cases "cts ! (?i + n)") (auto simp: down_def e entry_before.simps)
  have "drop (?i + n) cts = cts ! (?i + n) # drop (Suc (?i + n)) cts"
    using Cons_nth_drop_Suc [OF idx(1)] by simp
  moreover have "concat (map flatten (drop ?i cts)) = ?sk @ concat (map flatten (drop n (drop ?i cts)))"
    by (metis append_take_drop_id concat_append map_append)
  ultimately have "concat (map flatten (drop ?i cts)) =
      ?sk @ flatten (cts ! (?i + n)) @ concat (map flatten (drop (Suc (?i + n)) cts))"
    by (simp add: add.commute)
  then show "stack_remaining (e # st) = ?sk @ stack_remaining down"
    by (cases "cts ! (?i + n)") (simp_all add: down_def idx(2) e entry_after.simps)
  show "stack_weight False down < stack_weight False (e # st)"
    unfolding down_def by (rule stack_weight_descend) (use idx in \<open>simp_all add: e\<close>)
qed

text \<open>Where the loop ends: past the last item with an empty stack, or at an item.\<close>

definition seek_done ::
  "('a, 's) Tree \<Rightarrow> 'a list \<Rightarrow> 'a list \<Rightarrow> ('a, 's, 'd) StackEntry list \<Rightarrow> bool" where
  "seek_done root before rest st \<longleftrightarrow>
     (rest = [] \<longrightarrow> st = []) \<and>
     (rest \<noteq> [] \<longrightarrow> at_item dim (item_summary ops) root st \<and> stack_before st = before)"

end

text \<open>What the seek relies on of an aggregate: outside a leaf it stands for the items handed
  to it so far, and it can take a subtree or open a leaf; inside a leaf it can take items up
  to the capacity of a leaf.\<close>

locale aggregate_contract = dimension_algebra ops dim
  for ops :: "('a, 's) summary_ops" and dim :: "('s, 'd) dimension_ops" +
  fixes agg :: "('a, 's, 'g) SeekAggregate"
    and collected :: "'g \<Rightarrow> 'a list \<Rightarrow> bool"
    and in_leaf :: "'g \<Rightarrow> 'a list \<Rightarrow> nat \<Rightarrow> bool"
  assumes begin_leaf: "collected g xs \<Longrightarrow> in_leaf (agg_begin_leaf agg g) xs 0"
    and push_item: "in_leaf g xs n \<Longrightarrow> n < 2 * TREE_BASE \<Longrightarrow>
      \<exists>g'. agg_push_item agg x (item_summary ops x) g = Some g' \<and> in_leaf g' (xs @ [x]) (Suc n)"
    and end_leaf: "in_leaf g xs n \<Longrightarrow> \<exists>g'. agg_end_leaf agg g = Some g' \<and> collected g' xs"
    and push_tree: "collected g xs \<Longrightarrow> child_ok ops h t \<Longrightarrow>
      \<exists>g'. agg_push_tree agg t (summary t) g = Some g' \<and> collected g' (xs @ flatten t)"
begin

lemma seek_items_ok:
  assumes "in_leaf g xs k" "k + length ys \<le> 2 * TREE_BASE" "scan pass p ys = (skipped, p', rest)"
  shows "\<exists>g'. seek_items dim agg pass i p g ys (map (item_summary ops) ys) =
      Some (i + length skipped, p', g', rest \<noteq> []) \<and> in_leaf g' (xs @ skipped) (k + length skipped)"
  using assms
proof (induction ys arbitrary: g xs k p i skipped)
  case (Cons y ys)
  let ?e = "dim_add dim p (item_summary ops y)"
  show ?case
  proof (cases "pass ?e")
    case True
    then obtain s where s: "scan pass ?e ys = (s, p', rest)" "skipped = y # s"
      using Cons.prems(3) by (auto simp: Let_def split: prod.splits)
    obtain g1 where g1: "agg_push_item agg y (item_summary ops y) g = Some g1" "in_leaf g1 (xs @ [y]) (Suc k)"
      using push_item [OF Cons.prems(1)] Cons.prems(2) by auto
    with Cons.IH [OF g1(2) _ s(1), of "Suc i"] Cons.prems(2) True s(2) show ?thesis
      by (auto simp: Let_def)
  qed (use Cons.prems in \<open>auto simp: Let_def\<close>)
qed auto

lemma seek_children_ok:
  assumes "collected g xs" "list_all (child_ok ops h) ts" "monot pass p (concat (map flatten ts) @ ys)"
  obtains n p' g' where "n \<le> length ts"
    "seek_children dim agg pass i p ep g ts (map summary ts) =
      Some (i + n, p', (if n = 0 then ep else p'), g', list_get ts n)"
    "collected g' (xs @ concat (map flatten (take n ts)))"
    "p' = adv p (concat (map flatten (take n ts)))"
    "\<forall>q \<in> set (positions dim (item_summary ops) p (concat (map flatten (take n ts)))). pass q"
  using assms
proof (induction ts arbitrary: g xs p ep i thesis)
  case Nil
  then show ?case by (auto simp: list_get_def)
next
  case (Cons t ts)
  let ?e = "dim_add dim p (summary t)"
  have t: "child_ok ops h t" and ts: "list_all (child_ok ops h) ts"
    and mono: "monot pass p (flatten t @ concat (map flatten ts) @ ys)"
    using Cons.prems by simp_all
  note end_pos = dim_add_child [OF t, of p]
  show ?case
  proof (cases "pass ?e")
    case True
    obtain g1 where g1: "agg_push_tree agg t (summary t) g = Some g1" "collected g1 (xs @ flatten t)"
      using push_tree [OF Cons.prems(2) t] by blast
    obtain n p' g' where n: "n \<le> length ts"
      "seek_children dim agg pass (Suc i) ?e ?e g1 ts (map summary ts) =
        Some (Suc i + n, p', (if n = 0 then ?e else p'), g', list_get ts n)"
      "collected g' ((xs @ flatten t) @ concat (map flatten (take n ts)))"
      "p' = adv ?e (concat (map flatten (take n ts)))"
      "\<forall>q \<in> set (positions dim (item_summary ops) ?e (concat (map flatten (take n ts)))). pass q"
      using Cons.IH [OF _ g1(2) ts scan_child(4) [OF t mono]] by blast
    show ?thesis
    proof (rule Cons.prems(1) [of "Suc n" p' g'])
      show "\<forall>q \<in> set (positions dim (item_summary ops) p (concat (map flatten (take (Suc n) (t # ts))))). pass q"
        using n(5) seek_mono_pass_all [OF scan_child(3) [OF t mono]] True
        by (auto simp: positions_append end_pos)
    qed (use n g1(1) True in \<open>auto simp: Let_def end_pos\<close>)
  next
    case False
    then show ?thesis
      by (intro Cons.prems(1) [of 0 p g]) (use Cons.prems(2) in \<open>auto simp: Let_def\<close>)
  qed
qed

definition seek_correct ::
  "('a, 's) Tree \<Rightarrow> ('d \<Rightarrow> bool) \<Rightarrow> bool \<Rightarrow> ('a, 's, 'd) StackEntry list \<Rightarrow> 'd \<Rightarrow> 'g \<Rightarrow> 'a list \<Rightarrow> 'a list \<Rightarrow> 'a list \<Rightarrow> bool" where
  "seek_correct root pass ascending st pos g xs before remaining \<longleftrightarrow>
     (\<forall>skipped p' rest. scan pass pos remaining = (skipped, p', rest) \<longrightarrow>
        (\<exists>st' g'. seek_loop dim agg pass ascending st pos g = Some (st', p', g') \<and>
           collected g' (xs @ skipped) \<and> seek_done root (before @ skipped) rest st'))"

text \<open>Skipping a block of items and going on after it.\<close>

lemma seek_correct_skip:
  assumes "seek_correct root pass ascending st p1 g (xs @ ys) (before @ ys) zs"
    and "\<forall>q \<in> set (positions dim (item_summary ops) pos ys). pass q"
    and "p1 = adv pos ys"
    and "seek_loop dim agg pass a' st' pos g' = seek_loop dim agg pass ascending st p1 g"
  shows "seek_correct root pass a' st' pos g' xs before (ys @ zs)"
  using assms seek_linear_skip [OF assms(2), of zs]
  by (auto simp: seek_correct_def split: prod.splits)

lemma seek_correct_ascend:
  assumes path: "path root st t" and all: "\<forall>q \<in> set (positions dim (item_summary ops) pos ys). pass q"
    and pos: "adv pos ys = adv (dim_zero dim) (stack_before st @ flatten t)"
    and before: "before @ ys = stack_before st @ flatten t"
    and IH: "seek_correct root pass False (ascend (adv pos ys) st) (adv pos ys) g (xs @ ys)
      (stack_before (ascend (adv pos ys) st)) (stack_above st)"
    and eq: "seek_loop dim agg pass False st1 pos g1 = seek_loop dim agg pass True st (adv pos ys) g"
  shows "seek_correct root pass False st1 pos g1 xs before (ys @ stack_above st)"
proof (rule seek_correct_skip [OF _ all refl])
  show "seek_loop dim agg pass False st1 pos g1 =
      seek_loop dim agg pass False (ascend (adv pos ys) st) (adv pos ys) g"
    using eq seek_loop_ascend [OF path] by simp
  show "seek_correct root pass False (ascend (adv pos ys) st) (adv pos ys) g (xs @ ys) (before @ ys) (stack_above st)"
  proof (cases "st = []")
    case True
    with IH show ?thesis by (auto simp: seek_correct_def seek_done_def)
  next
    case False
    with IH before ascend_ready(3) [OF path pos] show ?thesis by simp
  qed
qed

lemma seek_correct_leaf:
  assumes e: "se_tree e = Leaf s ys ss" and root: "wf_tree ops root"
    and ready: "ready root (e # st) pos" and g: "collected g xs"
    and IH: "\<And>g'. collected g' (xs @ entry_after 0 e) \<Longrightarrow>
      seek_correct root pass False (ascend (adv pos (entry_after 0 e)) st) (adv pos (entry_after 0 e)) g'
        (xs @ entry_after 0 e) (stack_before (ascend (adv pos (entry_after 0 e)) st)) (stack_above st)"
  shows "seek_correct root pass False (e # st) pos g xs (stack_before (e # st)) (stack_remaining (e # st))"
proof -
  have path: "path root st (se_tree e)" and pos: "pos = adv (dim_zero dim) (stack_before (e # st))"
    using ready by auto
  have leaf: "ss = map (item_summary ops) ys" "length ys \<le> 2 * TREE_BASE" "se_index e \<le> length ys"
    using path_ok_subtree [OF root path] ready by (auto simp: e)
  have after: "entry_after 0 e = drop (se_index e) ys" by (simp add: e entry_after.simps)
  obtain sk p1 r where sc: "scan pass pos (drop (se_index e) ys) = (sk, p1, r)" by (metis prod_cases3)
  note lin = seek_linear_split [OF sc]
  obtain g1 where g1: "seek_items dim agg pass (se_index e) pos (agg_begin_leaf agg g) (drop (se_index e) ys)
      (drop (se_index e) ss) = Some (se_index e + length sk, p1, g1, r \<noteq> [])" "in_leaf g1 (xs @ sk) (length sk)"
    using seek_items_ok [OF begin_leaf [OF g] _ sc, of "se_index e"] leaf le_diff_conv [of "length ys"]
    by (auto simp: drop_map)
  obtain g2 where g2: "agg_end_leaf agg g1 = Some g2" "collected g2 (xs @ sk)"
    using end_leaf [OF g1(2)] by blast
  show ?thesis
  proof (cases "r = []")
    case True
    have "seek_correct root pass False (e # st) pos g xs (stack_before (e # st)) (entry_after 0 e @ stack_above st)"
      by (rule seek_correct_ascend [OF path _ _ _ IH])
        (use True lin g1(1) g2 leaf pos entry_split [of e] in
          \<open>auto simp: after seek_loop.simps(2) e simp flip: advance_append\<close>)
    then show ?thesis by simp
  next
    case False
    have "length sk < length (drop (se_index e) ys)" "take (length sk) (drop (se_index e) ys) = sk"
      using lin False by auto
    then have "se_index e + length sk < length ys" "take (se_index e + length sk) ys = take (se_index e) ys @ sk"
      by (auto simp: take_add)
    with False g1(1) g2 leaf path sc show ?thesis
      by (auto simp: seek_correct_def seek_loop.simps(2) e seek_done_def entry_before.simps after seek_linear_append)
  qed
qed

lemma seek_correct_internal:
  assumes e: "se_tree e = Internal h s css cts" and root: "wf_tree ops root" "height root < 16"
    and ready: "ready root (e # st) pos" and g: "collected g xs"
    and mono: "monot pass pos (stack_remaining (e # st))"
    and IH: "\<And>g'. collected g' (xs @ entry_after 0 e) \<Longrightarrow>
      seek_correct root pass False (ascend (adv pos (entry_after 0 e)) st) (adv pos (entry_after 0 e)) g'
        (xs @ entry_after 0 e) (stack_before (ascend (adv pos (entry_after 0 e)) st)) (stack_above st)"
    and IH2: "\<And>st' p' g' xs'. stack_weight False st' < stack_weight False (e # st) \<Longrightarrow> ready root st' p' \<Longrightarrow>
      collected g' xs' \<Longrightarrow> monot pass p' (stack_remaining st') \<Longrightarrow>
      seek_correct root pass False st' p' g' xs' (stack_before st') (stack_remaining st')"
  shows "seek_correct root pass False (e # st) pos g xs (stack_before (e # st)) (stack_remaining (e # st))"
proof -
  let ?i = "se_index e"
  have path: "path root st (se_tree e)" and pos: "pos = adv (dim_zero dim) (stack_before (e # st))"
    and i: "?i \<le> length cts" and epos: "se_position e = pos"
    using ready by (auto simp: e)
  note inner = path_ok_Internal [OF root(1) path [unfolded e]]
  have cap: "Suc (length st) < 16" using inner(3,4) root(2) by linarith
  have sub: "css = map summary cts" "list_all (child_ok ops (h - 1)) (drop ?i cts)"
    using inner(1,2) by (auto simp: list_all_iff dest: in_set_dropD)
  have after: "entry_after 0 e = concat (map flatten (drop ?i cts))" by (simp add: e entry_after.simps)
  have mono': "monot pass pos (concat (map flatten (drop ?i cts)) @ stack_above st)"
    using mono by (simp add: after)
  obtain n p' g' where n: "n \<le> length (drop ?i cts)"
    "seek_children dim agg pass ?i pos pos g (drop ?i cts) (map summary (drop ?i cts)) =
      Some (?i + n, p', (if n = 0 then pos else p'), g', list_get (drop ?i cts) n)"
    "collected g' (xs @ concat (map flatten (take n (drop ?i cts))))"
    "p' = adv pos (concat (map flatten (take n (drop ?i cts))))"
    "\<forall>q \<in> set (positions dim (item_summary ops) pos (concat (map flatten (take n (drop ?i cts))))). pass q"
    by (rule seek_children_ok [OF g sub(2) mono', where i = ?i and ep = pos])
  have p': "(if n = 0 then pos else p') = p'" using n(4) by simp
  note run = n(2) [unfolded p'] i sub(1)
  show ?thesis
  proof (cases "n = length (drop ?i cts)")
    case True
    then have tk: "take n (drop ?i cts) = drop ?i cts" "list_get (drop ?i cts) n = None"
      by (simp_all add: list_get_def)
    note all = n(3-5) [unfolded tk(1), folded after]
    have "seek_loop dim agg pass False (e # st) pos g = seek_loop dim agg pass True st p' g'"
      using run i epos by (simp add: seek_loop.simps(2) e drop_map tk(2))
    moreover have "stack_before (e # st) @ entry_after 0 e = stack_before st @ flatten (se_tree e)"
      using entry_split [of e] by simp
    moreover from this have "adv pos (entry_after 0 e) = adv (dim_zero dim) (stack_before st @ flatten (se_tree e))"
      by (simp only: pos flip: advance_append)
    ultimately show ?thesis
      using seek_correct_ascend [OF path all(3) _ _ IH [OF all(1)]] all(2) by simp
  next
    case False
    with n(1) have lt: "n < length (drop ?i cts)" by simp
    note down = descend_ready [OF e ready lt n(4)]
    have "monot pass p' (stack_remaining (\<lparr>se_tree = drop ?i cts ! n, se_index = 0, se_position = p'\<rparr> #
        e\<lparr>se_index := ?i + n, se_position := p'\<rparr> # st))"
      using mono unfolding down(3) seek_mono_append n(4) by blast
    note IH2 = IH2 [OF down(4,1) n(3) this]
    show ?thesis unfolding down(3)
    proof (rule seek_correct_skip [OF IH2 [unfolded down(2)] n(5,4)])
      show "seek_loop dim agg pass False (e # st) pos g = seek_loop dim agg pass False
          (\<lparr>se_tree = drop ?i cts ! n, se_index = 0, se_position = p'\<rparr> #
           e\<lparr>se_index := ?i + n, se_position := p'\<rparr> # st) p' g'"
        using lt run epos cap by (simp add: seek_loop.simps(2) e drop_map list_get_def push_stack_def)
    qed
  qed
qed

lemma seek_loop_ok:
  assumes "wf_tree ops root" "height root < 16" "ready root st pos" "collected g xs"
    and "monot pass pos (stack_remaining st)"
  shows "seek_correct root pass False st pos g xs (stack_before st) (stack_remaining st)"
  using assms(3-)
proof (induction "stack_weight False st" arbitrary: st pos g xs rule: less_induct)
  case less
  show ?case
  proof (cases st)
    case Nil
    with less.prems show ?thesis by (auto simp: seek_correct_def seek_done_def)
  next
    case (Cons e st0)
    then have path: "path root st0 (se_tree e)" and pos: "pos = adv (dim_zero dim) (stack_before (e # st0))"
      using less.prems by auto
    let ?p1 = "adv pos (entry_after 0 e)"
    have up: "?p1 = adv (dim_zero dim) (stack_before st0 @ flatten (se_tree e))"
      using pos by (simp flip: entry_split)
    have IH: "seek_correct root pass False (ascend ?p1 st0) ?p1 g' xs' (stack_before (ascend ?p1 st0)) (stack_above st0)"
      if "collected g' xs'" for g' xs'
      using less.hyps [OF _ ascend_ready(1) [OF path up] that] less.prems(3) ascend_ready(2) [OF path up]
        stack_weight_pop [of st0 False e] by (simp add: stack_weight_ascend Cons seek_mono_append)
    show ?thesis
    proof (cases "se_tree e")
      case (Leaf s ys ss)
      show ?thesis
        using seek_correct_leaf [OF Leaf assms(1) less.prems(1) [unfolded Cons] less.prems(2) IH]
        by (simp only: Cons)
    next
      case (Internal h s css cts)
      have "seek_correct root pass False (e # st0) pos g xs (stack_before (e # st0)) (stack_remaining (e # st0))"
      proof (rule seek_correct_internal [OF Internal assms(1,2)])
        show "seek_correct root pass False st' p' g' xs' (stack_before st') (stack_remaining st')"
          if "stack_weight False st' < stack_weight False (e # st0)" "ready root st' p'" "collected g' xs'"
            "monot pass p' (stack_remaining st')" for st' p' g' xs'
          using less.hyps that by (simp add: Cons)
      qed (use less.prems IH in \<open>simp_all only: Cons\<close>)
      then show ?thesis by (simp only: Cons)
    qed
  qed
qed

end

section \<open>Cursors\<close>

text \<open>A cursor that has not moved, a cursor between the items \<open>before\<close> and \<open>after\<close>, and what
  a seek is handed in both cases.\<close>

definition cursor_fresh :: "('s, 'd) dimension_ops \<Rightarrow> ('a, 's, 'd) Cursor \<Rightarrow> bool" where
  "cursor_fresh dim c \<longleftrightarrow> \<not> c_did_seek c \<and> c_stack c = [] \<and> c_position c = dim_zero dim \<and>
     c_at_end c = is_empty (c_tree c)"

definition cursor_at ::
  "('a, 's) summary_ops \<Rightarrow> ('s, 'd) dimension_ops \<Rightarrow> ('a, 's, 'd) Cursor \<Rightarrow> 'a list \<Rightarrow> 'a list \<Rightarrow> bool" where
  "cursor_at ops dim c before after \<longleftrightarrow>
     c_did_seek c \<and> flatten (c_tree c) = before @ after \<and>
     c_position c = advance dim (item_summary ops) (dim_zero dim) before \<and>
     (if after = [] then c_stack c = [] \<and> c_at_end c
      else \<not> c_at_end c \<and> at_item dim (item_summary ops) (c_tree c) (c_stack c) \<and>
        stack_before (c_stack c) = before)"

definition cursor_ready ::
  "('a, 's) summary_ops \<Rightarrow> ('s, 'd) dimension_ops \<Rightarrow> ('a, 's, 'd) Cursor \<Rightarrow> 'a list \<Rightarrow> 'a list \<Rightarrow> bool" where
  "cursor_ready ops dim c before after \<longleftrightarrow>
     cursor_at ops dim c before after \<or> cursor_fresh dim c \<and> before = [] \<and> after = flatten (c_tree c)"

lemma cursor_fresh_new: "cursor_fresh dim (cursor_new dim t)" "c_tree (cursor_new dim t) = t"
  by (simp_all add: cursor_fresh_def cursor_new_def)

lemma cursor_fresh_reset: "cursor_fresh dim (cursor_reset dim c)" "c_tree (cursor_reset dim c) = c_tree c"
  by (simp_all add: cursor_fresh_def cursor_reset_def)

lemma cursor_ready_fresh: "cursor_fresh dim c \<Longrightarrow> cursor_ready ops dim c [] (flatten (c_tree c))"
  by (simp add: cursor_ready_def)

lemma cursor_ready_at: "cursor_at ops dim c before after \<Longrightarrow> cursor_ready ops dim c before after"
  by (simp add: cursor_ready_def)

lemma cursor_ready_position:
  "cursor_ready ops dim c before after \<Longrightarrow>
     c_position c = advance dim (item_summary ops) (dim_zero dim) before \<and> flatten (c_tree c) = before @ after"
  by (auto simp: cursor_ready_def cursor_at_def cursor_fresh_def)

context dimension_algebra
begin

lemma cursor_item_ok:
  assumes "wf_tree ops (c_tree c)" "cursor_at ops dim c before after"
  shows "cursor_item c = Some (list_first after)"
    and "cursor_item_summary c = Some (map_option (item_summary ops) (list_first after))"
    and "cursor_end dim c = Some (case after of [] \<Rightarrow> c_position c
      | x # _ \<Rightarrow> dim_add dim (c_position c) (item_summary ops x))"
proof -
  show item: "cursor_item c = Some (list_first after)"
    and sum: "cursor_item_summary c = Some (map_option (item_summary ops) (list_first after))"
  proof (atomize (full), cases "after = []")
    case True
    with assms(2) show "cursor_item c = Some (list_first after) \<and>
        cursor_item_summary c = Some (map_option (item_summary ops) (list_first after))"
      by (simp add: cursor_at_def cursor_item_def cursor_item_summary_def list_first_def)
  next
    case False
    with assms(2) obtain e st s xs ss where e: "c_stack c = e # st" "se_tree e = Leaf s xs ss" "se_index e < length xs"
      "path (c_tree c) st (se_tree e)" "c_did_seek c"
      by (cases "c_stack c"; cases "se_tree (hd (c_stack c))") (auto simp: cursor_at_def)
    have "stack_before (e # st) = before" using assms(2) False by (simp add: cursor_at_def e(1))
    moreover have "stack_before (e # st) @ stack_remaining (e # st) = flatten (c_tree c)"
      using ready_split [OF assms(1), of "e # st"] e(2-4) at_item_seek_ready [of dim "item_summary ops" "c_tree c" "e # st"]
      by simp
    ultimately have "after = stack_remaining (e # st)"
      using assms(2) by (simp add: cursor_at_def)
    then have "after = xs ! se_index e # drop (Suc (se_index e)) xs @ stack_above st"
      using e(2,3) by (simp add: entry_after.simps Cons_nth_drop_Suc)
    moreover have "ss = map (item_summary ops) xs"
      using path_ok_subtree [OF assms(1) e(4)] e(2) by simp
    ultimately show "cursor_item c = Some (list_first after) \<and>
        cursor_item_summary c = Some (map_option (item_summary ops) (list_first after))"
      using e by (simp add: cursor_item_def cursor_item_summary_def list_get_def list_first_def)
  qed
  show "cursor_end dim c = Some (case after of [] \<Rightarrow> c_position c
      | x # _ \<Rightarrow> dim_add dim (c_position c) (item_summary ops x))"
    by (cases after) (simp_all add: cursor_end_def sum list_first_def)
qed

end

context aggregate_contract
begin

lemma cursor_seek_internal_ok:
  assumes root: "wf_tree ops (c_tree c)" "height (c_tree c) < 16"
    and c: "cursor_ready ops dim c before after" and target: "target (c_position c) \<noteq> Less"
    and mono: "monot (passes target bias) (c_position c) after"
    and sc: "scan (passes target bias) (c_position c) after = (skipped, p', rest)" and g: "collected g xs"
  shows "\<exists>c' g'. cursor_seek_internal dim agg c target bias g = Some (c', g',
      target (case rest of x # _ \<Rightarrow> if bias = Bias.Left then dim_add dim p' (item_summary ops x) else p' | [] \<Rightarrow> p') = Equal) \<and>
    cursor_at ops dim c' (before @ skipped) rest \<and> c_tree c' = c_tree c \<and> c_position c' = p' \<and>
    collected g' (xs @ skipped)"
proof -
  let ?root = "\<lparr>se_tree = c_tree c, se_index = 0, se_position = dim_zero dim\<rparr>"
  define st where "st = (if c_did_seek c then c_stack c else [?root])"
  have st0: "(if c_did_seek c then Some (c_stack c) else push_stack (c_stack c) ?root) = Some st"
    using c by (auto simp: st_def push_stack_def cursor_ready_def cursor_at_def cursor_fresh_def)
  have pos: "c_position c = adv (dim_zero dim) before" and split: "flatten (c_tree c) = before @ after"
    using cursor_ready_position [OF c] by auto
  have ready: "ready (c_tree c) st (c_position c)" and stb: "st = [] \<longrightarrow> after = []"
    "st \<noteq> [] \<longrightarrow> stack_before st = before"
    using c entry_split [of ?root] at_item_seek_ready [of dim "item_summary ops" "c_tree c" "c_stack c"]
    by (cases "c_tree c"; auto simp: st_def cursor_ready_def cursor_at_def cursor_fresh_def entry_before.simps
        split: if_splits)+
  have rem: "stack_remaining st = after"
    using ready_split [OF root(1) ready] stb split by (cases "st = []") auto
  have "seek_correct (c_tree c) (passes target bias) False st (c_position c) g xs (stack_before st) (stack_remaining st)"
    by (rule seek_loop_ok [OF root ready g]) (simp add: rem mono)
  then obtain st' g' where run: "seek_loop dim agg (passes target bias) False st (c_position c) g = Some (st', p', g')"
    "collected g' (xs @ skipped)" "seek_done (c_tree c) (stack_before st @ skipped) rest st'"
    using sc unfolding seek_correct_def rem by blast
  define c' where "c' = c\<lparr>c_did_seek := True, c_stack := st', c_position := p', c_at_end := (st' = [])\<rparr>"
  have at: "cursor_at ops dim c' (before @ skipped) rest"
    using run(3) split pos seek_linear_split [OF sc] stb
    by (cases "st = []"; cases st') (auto simp: cursor_at_def c'_def seek_done_def)
  have wf': "wf_tree ops (c_tree c')" using root by (simp add: c'_def)
  have "cursor_item_summary c' = Some (map_option (item_summary ops) (list_first rest))"
    by (rule cursor_item_ok(2) [OF wf' at])
  then have "cursor_seek_internal dim agg c target bias g = Some (c', g',
      target (case rest of x # _ \<Rightarrow> if bias = Bias.Left then dim_add dim p' (item_summary ops x) else p' | [] \<Rightarrow> p') = Equal)"
    using target run(1)
    by (cases rest) (simp_all add: cursor_seek_internal_def st0 Let_def c'_def list_first_def)
  with at run(2) show ?thesis
    by (intro exI [of _ c'] exI [of _ g']) (simp add: c'_def)
qed

end

section \<open>The three aggregates\<close>

definition slice_collected :: "('a, 's) summary_ops \<Rightarrow> ('a, 's) SliceSeekAggregate \<Rightarrow> 'a list \<Rightarrow> nat \<Rightarrow> bool" where
  "slice_collected ops g xs n \<longleftrightarrow>
     wf_tree ops (slice_tree g) \<and> flatten (slice_tree g) @ slice_leaf_items g = xs \<and>
     length (slice_leaf_items g) = n \<and> n \<le> 2 * TREE_BASE \<and>
     slice_leaf_item_summaries g = map (item_summary ops) (slice_leaf_items g) \<and>
     slice_leaf_summary g = sum_summaries ops (slice_leaf_item_summaries g)"

sublocale dimension_algebra \<subseteq> plain: aggregate_contract ops dim unit_aggregate "\<lambda>_ _. True" "\<lambda>_ _ _. True"
  by unfold_locales (simp_all add: unit_aggregate_def)

sublocale dimension_algebra \<subseteq> sliced: aggregate_contract ops dim "slice_aggregate ops"
  "\<lambda>g xs. slice_collected ops g xs 0" "slice_collected ops"
proof unfold_locales
  fix g xs n
  assume g: "slice_collected ops g xs n"
  then have "wf_tree ops (Leaf (slice_leaf_summary g) (slice_leaf_items g) (slice_leaf_item_summaries g))"
    by (simp add: slice_collected_def)
  from append_tree_ok [OF _ this] g
  show "\<exists>g'. agg_end_leaf (slice_aggregate ops) g = Some g' \<and> slice_collected ops g' xs 0"
    by (fastforce simp: slice_aggregate_def slice_collected_def sum_Nil)
next
  fix g xs h and t :: "('a, 's) Tree"
  assume "slice_collected ops g xs 0" "child_ok ops h t"
  with append_tree_ok [of "slice_tree g" t]
  show "\<exists>g'. agg_push_tree (slice_aggregate ops) t (summary t) g = Some g' \<and> slice_collected ops g' (xs @ flatten t) 0"
    by (fastforce simp: slice_aggregate_def slice_collected_def child_ok_def)
qed (auto simp: slice_aggregate_def slice_collected_def array_vec_def sum_summaries_def)

locale output_dimension = dimension_algebra ops dim + out: dimension_algebra ops out
  for ops :: "('a, 's) summary_ops" and dim :: "('s, 'd) dimension_ops" and out :: "('s, 'o) dimension_ops"

sublocale output_dimension \<subseteq> total: aggregate_contract ops dim "summary_aggregate out"
  "\<lambda>g xs. g = advance out (item_summary ops) (dim_zero out) xs"
  "\<lambda>g xs n. g = advance out (item_summary ops) (dim_zero out) xs"
  by unfold_locales (simp_all add: summary_aggregate_def out.dim_add_child)

section \<open>Seek, slice, suffix and summary\<close>

context dimension_algebra
begin

lemma cursor_seek_forward_ok:
  assumes "wf_tree ops (c_tree c)" "height (c_tree c) < 16" "cursor_ready ops dim c before after"
    "target (c_position c) \<noteq> Less" "monot (passes target bias) (c_position c) after"
    "scan (passes target bias) (c_position c) after = (skipped, p', rest)"
  shows "\<exists>c'. cursor_seek_forward dim c target bias = Some (c',
      target (case rest of x # _ \<Rightarrow> if bias = Bias.Left then dim_add dim p' (item_summary ops x) else p' | [] \<Rightarrow> p') = Equal) \<and>
    cursor_at ops dim c' (before @ skipped) rest \<and> c_tree c' = c_tree c \<and> c_position c' = p'"
  using plain.cursor_seek_internal_ok [OF assms] by (auto simp: cursor_seek_forward_def)

lemma cursor_seek_ok:
  assumes "wf_tree ops (c_tree c)" "height (c_tree c) < 16"
    "target (dim_zero dim) \<noteq> Less" "monot (passes target bias) (dim_zero dim) (flatten (c_tree c))"
    "scan (passes target bias) (dim_zero dim) (flatten (c_tree c)) = (skipped, p', rest)"
  shows "\<exists>c'. cursor_seek dim c target bias = Some (c',
      target (case rest of x # _ \<Rightarrow> if bias = Bias.Left then dim_add dim p' (item_summary ops x) else p' | [] \<Rightarrow> p') = Equal) \<and>
    cursor_at ops dim c' skipped rest \<and> c_tree c' = c_tree c \<and> c_position c' = p'"
proof -
  have "c_position (cursor_reset dim c) = dim_zero dim" by (simp add: cursor_reset_def)
  with cursor_seek_forward_ok [OF _ _ cursor_ready_fresh [OF cursor_fresh_reset(1) [of dim c]], of target bias skipped p' rest]
    assms show ?thesis
    by (simp add: cursor_seek_def cursor_seek_forward_def cursor_fresh_reset)
qed

lemma cursor_slice_ok:
  assumes "wf_tree ops (c_tree c)" "height (c_tree c) < 16" "cursor_ready ops dim c before after"
    "target (c_position c) \<noteq> Less" "monot (passes target bias) (c_position c) after"
    "scan (passes target bias) (c_position c) after = (skipped, p', rest)"
  shows "\<exists>c' t. cursor_slice ops dim c target bias = Some (c', t) \<and> wf_tree ops t \<and> flatten t = skipped \<and>
    cursor_at ops dim c' (before @ skipped) rest \<and> c_tree c' = c_tree c \<and> c_position c' = p'"
proof -
  have "slice_collected ops \<lparr>slice_tree = new_tree ops, slice_leaf_items = [], slice_leaf_item_summaries = [],
      slice_leaf_summary = summary_zero ops\<rparr> [] 0"
    by (simp add: slice_collected_def wf_new_tree sum_Nil) (simp add: new_tree_def)
  from sliced.cursor_seek_internal_ok [OF assms this] show ?thesis
    by (auto simp: cursor_slice_def slice_collected_def)
qed

lemma end_target_scan:
  "monot (passes end_target Bias.Right) p xs" "scan (passes end_target Bias.Right) p xs = (xs, adv p xs, [])"
proof -
  have pass: "passes end_target Bias.Right = (\<lambda>_. True)" by (auto simp: passes_def end_target_def)
  show "monot (passes end_target Bias.Right) p xs"
    by (simp add: seek_mono_def pass sorted_wrt_iff_nth_less)
  show "scan (passes end_target Bias.Right) p xs = (xs, adv p xs, [])"
    by (induction xs arbitrary: p) (simp_all add: pass Let_def)
qed

lemma cursor_suffix_ok:
  assumes "wf_tree ops (c_tree c)" "height (c_tree c) < 16" "cursor_ready ops dim c before after"
  shows "\<exists>c' t. cursor_suffix ops dim c = Some (c', t) \<and> wf_tree ops t \<and> flatten t = after \<and>
    cursor_at ops dim c' (before @ after) [] \<and> c_tree c' = c_tree c"
proof -
  have "end_target (c_position c) \<noteq> Less" by (simp add: end_target_def)
  from cursor_slice_ok [OF assms this end_target_scan] show ?thesis
    by (auto simp: cursor_suffix_def)
qed

end

context output_dimension
begin

lemma cursor_summary_ok:
  assumes "wf_tree ops (c_tree c)" "height (c_tree c) < 16" "cursor_ready ops dim c before after"
    "target (c_position c) \<noteq> Less" "monot (passes target bias) (c_position c) after"
    "scan (passes target bias) (c_position c) after = (skipped, p', rest)"
  shows "\<exists>c'. cursor_summary dim out c target bias = Some (c', advance out (item_summary ops) (dim_zero out) skipped) \<and>
    cursor_at ops dim c' (before @ skipped) rest \<and> c_tree c' = c_tree c \<and> c_position c' = p'"
  using total.cursor_seek_internal_ok [OF assms, of "dim_zero out" "[]"]
  by (auto simp: cursor_summary_def)

end

text \<open>(C15) Seeking with a cursor is the linear scan from the start of the tree: for a monotone
  target the cursor stops, without a panic, before the item the scan stops at, its position is
  the scan's, the item under it is the first item not skipped, and the result says whether the
  target lies at the end of that item (left bias) or at the position reached (right bias).\<close>

theorem cursor_seek_linear:
  assumes "dimension_algebra ops dim" and "wf_tree ops (c_tree c)" and "height (c_tree c) < 16"
    and "target (dim_zero dim) \<noteq> Less"
    and "seek_mono dim (item_summary ops) (passes target bias) (dim_zero dim) (flatten (c_tree c))"
    and "seek_linear dim (item_summary ops) (passes target bias) (dim_zero dim) (flatten (c_tree c)) = (skipped, p, rest)"
  shows "\<exists>c'. cursor_seek dim c target bias = Some (c',
      target (case rest of x # _ \<Rightarrow> if bias = Bias.Left then dim_add dim p (item_summary ops x) else p | [] \<Rightarrow> p) = Equal) \<and>
    c_position c' = p \<and> cursor_item c' = Some (list_first rest) \<and> cursor_at ops dim c' skipped rest"
proof -
  from dimension_algebra.cursor_seek_ok [OF assms] obtain c' where c': "cursor_seek dim c target bias = Some (c',
      target (case rest of x # _ \<Rightarrow> if bias = Bias.Left then dim_add dim p (item_summary ops x) else p | [] \<Rightarrow> p) = Equal)"
    "cursor_at ops dim c' skipped rest" "c_tree c' = c_tree c" "c_position c' = p" by blast
  with dimension_algebra.cursor_item_ok(1) [OF assms(1), of c'] assms(2) show ?thesis by auto
qed

text \<open>A tree of two levels for the witnesses.\<close>

definition two_leaves :: "(nat, nat) Tree" where
  "two_leaves = Internal 1 21 [6, 15] [Leaf 6 [1, 2, 3] [1, 2, 3], Leaf 15 [4, 5, 6] [4, 5, 6]]"

lemma two_leaves_ok:
  "wf_tree sum_ops two_leaves" "height two_leaves < 16" "flatten two_leaves = [1, 2, 3, 4, 5, 6]"
  by (simp_all add: two_leaves_def sum_ops_def sum_summaries_def TREE_BASE_def)

theorem cursor_seek_linear_witness:
  "\<exists>c'. cursor_seek sum_dim (cursor_new sum_dim two_leaves) (cmp 10) Bias.Left = Some (c', True) \<and>
     c_position c' = 6 \<and> cursor_item c' = Some (Some 4)"
proof -
  have "seek_linear sum_dim (item_summary sum_ops) (passes (cmp 10) Bias.Left) (dim_zero sum_dim)
      (flatten two_leaves) = ([1, 2, 3], 6, [4, 5, 6])"
    by (simp add: two_leaves_ok sum_dim_def sum_ops_def passes_def Let_def)
  moreover have "seek_mono sum_dim (item_summary sum_ops) (passes (cmp 10) Bias.Left) (dim_zero sum_dim) (flatten two_leaves)"
    by (simp add: two_leaves_ok sum_dim_def sum_ops_def passes_def Let_def seek_mono_def)
  ultimately show ?thesis
    using cursor_seek_linear [OF nat_sum_dim.dimension_algebra_axioms,
        of "cursor_new sum_dim two_leaves" "cmp 10" Bias.Left "[1, 2, 3]" 6 "[4, 5, 6]"]
      two_leaves_ok(1,2)
    by (auto simp: cursor_fresh_new sum_dim_def sum_ops_def list_first_def)
qed

text \<open>(C22) Slicing with a cursor partitions the tree: \<open>slice\<close> returns a well-formed tree of
  exactly the items the seek skips and leaves the cursor before the first item not skipped;
  \<open>suffix\<close> then returns a well-formed tree of all the others.  Neither panics.\<close>

theorem cursor_slice_suffix_partition:
  assumes "dimension_algebra ops dim" and "wf_tree ops (c_tree c)" and "height (c_tree c) < 16"
    and "cursor_ready ops dim c before after" and "target (c_position c) \<noteq> Less"
    and "seek_mono dim (item_summary ops) (passes target bias) (c_position c) after"
    and "seek_linear dim (item_summary ops) (passes target bias) (c_position c) after = (skipped, p, rest)"
  shows "\<exists>c' l c'' r. cursor_slice ops dim c target bias = Some (c', l) \<and> wf_tree ops l \<and> flatten l = skipped \<and>
    c_position c' = p \<and> cursor_item c' = Some (list_first rest) \<and>
    cursor_suffix ops dim c' = Some (c'', r) \<and> wf_tree ops r \<and> flatten r = rest \<and>
    cursor_item c'' = Some None \<and> before @ flatten l @ flatten r = flatten (c_tree c)"
proof -
  from dimension_algebra.cursor_slice_ok [OF assms] obtain c' l where l: "cursor_slice ops dim c target bias = Some (c', l)"
    "wf_tree ops l" "flatten l = skipped" "cursor_at ops dim c' (before @ skipped) rest" "c_tree c' = c_tree c" "c_position c' = p"
    by blast
  moreover from this dimension_algebra.cursor_suffix_ok [OF assms(1) _ _ cursor_ready_at [OF l(4)]] assms(2,3)
  obtain c'' r where r: "cursor_suffix ops dim c' = Some (c'', r)" "wf_tree ops r" "flatten r = rest"
    "cursor_at ops dim c'' ((before @ skipped) @ rest) []" "c_tree c'' = c_tree c" by auto
  moreover have "cursor_item c' = Some (list_first rest)"
    using dimension_algebra.cursor_item_ok(1) [OF assms(1) _ l(4)] assms(2) l(5) by simp
  moreover have "cursor_item c'' = Some None"
    using dimension_algebra.cursor_item_ok(1) [OF assms(1) _ r(4)] assms(2) r(5) by (simp add: list_first_def)
  ultimately show ?thesis
    by (auto simp: cursor_at_def)
qed

theorem cursor_slice_suffix_partition_witness:
  "\<exists>c' l c'' r. cursor_slice sum_ops sum_dim (cursor_new sum_dim two_leaves) (cmp 4) Bias.Right = Some (c', l) \<and>
     flatten l = [1, 2] \<and> cursor_suffix sum_ops sum_dim c' = Some (c'', r) \<and> flatten r = [3, 4, 5, 6]"
proof -
  have "seek_linear sum_dim (item_summary sum_ops) (passes (cmp 4) Bias.Right) 0
      [1, 2, 3, 4, 5, 6] = ([1, 2], 3, [3, 4, 5, 6])"
    by (simp add: sum_dim_def sum_ops_def passes_def Let_def)
  moreover have "seek_mono sum_dim (item_summary sum_ops) (passes (cmp 4) Bias.Right) 0 [1, 2, 3, 4, 5, 6]"
    by (simp add: sum_dim_def sum_ops_def passes_def Let_def seek_mono_def)
  moreover have "c_position (cursor_new sum_dim two_leaves) = 0" by (simp add: cursor_new_def sum_dim_def)
  ultimately show ?thesis
    using cursor_slice_suffix_partition [OF nat_sum_dim.dimension_algebra_axioms,
        of "cursor_new sum_dim two_leaves" "[]" "[1, 2, 3, 4, 5, 6]" "cmp 4" Bias.Right "[1, 2]" 3 "[3, 4, 5, 6]"]
      two_leaves_ok cursor_ready_fresh [OF cursor_fresh_new(1) [of sum_dim two_leaves], of sum_ops]
    by (auto simp: cursor_fresh_new)
qed

text \<open>\<open>Cursor::summary\<close> adds up, in any other dimension of the tree, exactly the items
  between the cursor and the target, and leaves the cursor where a seek would.\<close>

lemma cursor_summary_total:
  assumes "dimension_algebra ops dim" and "dimension_algebra ops out"
    and "wf_tree ops (c_tree c)" and "height (c_tree c) < 16"
    and "cursor_ready ops dim c before after" and "target (c_position c) \<noteq> Less"
    and "seek_mono dim (item_summary ops) (passes target bias) (c_position c) after"
    and "seek_linear dim (item_summary ops) (passes target bias) (c_position c) after = (skipped, p, rest)"
  shows "\<exists>c'. cursor_summary dim out c target bias =
      Some (c', foldl (dim_add out) (dim_zero out) (map (item_summary ops) skipped)) \<and>
    c_position c' = p \<and> cursor_at ops dim c' (before @ skipped) rest"
proof -
  have "advance out (item_summary ops) q xs = foldl (dim_add out) q (map (item_summary ops) xs)" for q xs
    by (induction xs arbitrary: q) auto
  with output_dimension.cursor_summary_ok [OF output_dimension.intro [OF assms(1,2)] assms(3-)] show ?thesis
    by auto
qed

end
