(* ===== verification/Cursor_Step.thy ===== *)
theory Cursor_Step
  imports Cursor_Seek
begin

text \<open>
  Stepping with a cursor (\<open>search_forward\<close>, \<open>next\<close>, \<open>next_item\<close>, \<open>prev_item\<close>, the
  iterators and \<open>FilterCursor\<close> of \<open>crates/sum_tree/src/cursor.rs\<close>): going to the next item
  whose summary a filter accepts, skipping whole subtrees the filter rejects.
\<close>

section \<open>Searching forward\<close>

text \<open>The inner loops over the summaries of a node: index, cursor position and entry position
  at the first summary the filter accepts, or past the last one.\<close>

fun skip_rejected ::
  "('s, 'd) dimension_ops \<Rightarrow> ('s \<Rightarrow> bool) \<Rightarrow> nat \<Rightarrow> 'd \<Rightarrow> 'd \<Rightarrow> 's list \<Rightarrow> nat \<times> 'd \<times> 'd" where
  "skip_rejected dim filter_node index position entry_position [] = (index, position, entry_position)"
| "skip_rejected dim filter_node index position entry_position (s # ss) =
     (if filter_node s then (index, position, entry_position)
      else skip_rejected dim filter_node (Suc index) (dim_add dim position s) (dim_add dim entry_position s) ss)"

lemma skip_rejected_bounds:
  "skip_rejected dim filt i p ep ss = (i', p', ep') \<Longrightarrow> i \<le> i' \<and> i' \<le> i + length ss"
  by (induction ss arbitrary: i p ep) (fastforce split: if_splits)+

lemma list_get_subtrees:
  "se_tree e = Internal h s css cts \<Longrightarrow> list_get cts i = Some t \<Longrightarrow>
     i < length (subtrees (se_tree e)) \<and> subtrees (se_tree e) ! i = t"
  by (simp add: list_get_Some_iff)

text \<open>The main loop.  Finding an item returns from the whole function, so the loop ends with a
  non-empty stack exactly then.\<close>

function search_forward_loop ::
  "('s, 'd) dimension_ops \<Rightarrow> ('s \<Rightarrow> bool) \<Rightarrow> bool \<Rightarrow> ('a, 's, 'd) StackEntry list \<Rightarrow> 'd \<Rightarrow>
   (('a, 's, 'd) StackEntry list \<times> 'd) option" where
  "search_forward_loop dim filter_node descend [] position = Some ([], position)"
| "search_forward_loop dim filter_node descend (entry # st) position =
     (case se_tree entry of
        Internal h s css cts \<Rightarrow>
          (let entry1 = (if descend then entry
             else entry\<lparr>se_index := se_index entry + 1, se_position := position\<rparr>);
             (index, position', entry_position) = skip_rejected dim filter_node (se_index entry1) position
               (se_position entry1) (drop (se_index entry1) css) in
           (case list_get cts index of
              Some subtree \<Rightarrow> do {
                st' \<leftarrow> push_stack (entry1\<lparr>se_index := index, se_position := entry_position\<rparr> # st)
                  \<lparr>se_tree = subtree, se_index = 0, se_position = position'\<rparr>;
                search_forward_loop dim filter_node True st' position'
              }
            | None \<Rightarrow> search_forward_loop dim filter_node False st position'))
      | Leaf s xs ss \<Rightarrow> do {
          (index0, position0, entry_position0) \<leftarrow>
            (if descend then Some (se_index entry, position, se_position entry)
             else map_option (\<lambda>item_summary. (se_index entry + 1, dim_add dim position item_summary,
                 dim_add dim (se_position entry) item_summary)) (list_get ss (se_index entry)));
          (let (index, position', entry_position) =
             skip_rejected dim filter_node index0 position0 entry_position0 (drop index0 ss) in
           if index < length ss
           then Some (entry\<lparr>se_index := index, se_position := entry_position\<rparr> # st, position')
           else search_forward_loop dim filter_node False st position')
        })"
  by pat_completeness auto
termination
proof (relation "measure (\<lambda>(dim, filt, descend, st, position). stack_weight (\<not> descend) st)", goal_cases)
  case 3
  then show ?case
    by (auto simp: push_stack_def simp del: stack_weight.simps split: if_splits
        dest: list_get_subtrees skip_rejected_bounds [OF sym] intro!: stack_weight_descend)
qed (simp_all add: stack_weight_pop del: stack_weight.simps)

declare search_forward_loop.simps(2) [simp del]

definition search_forward ::
  "('s, 'd) dimension_ops \<Rightarrow> ('s \<Rightarrow> bool) \<Rightarrow> ('a, 's, 'd) Cursor \<Rightarrow> ('a, 's, 'd) Cursor option" where
  "search_forward dim filter_node c = do {
     (st, descend) \<leftarrow>
       (if c_stack c = [] \<and> \<not> c_at_end c
        then map_option (\<lambda>st. (st, True))
          (push_stack [] \<lparr>se_tree = c_tree c, se_index = 0, se_position = dim_zero dim\<rparr>)
        else Some (c_stack c, False));
     (st', position) \<leftarrow> search_forward_loop dim filter_node descend st (c_position c);
     Some (c\<lparr>c_did_seek := (c_did_seek c \<or> c_stack c = []), c_stack := st', c_position := position,
       c_at_end := (if st' = [] then True else c_at_end c)\<rparr>)
   }"

definition cursor_next :: "('s, 'd) dimension_ops \<Rightarrow> ('a, 's, 'd) Cursor \<Rightarrow> ('a, 's, 'd) Cursor option" where
  "cursor_next dim c = search_forward dim (\<lambda>_. True) c"

section \<open>Looking at the neighbours\<close>

text \<open>The entries under the top, from the leaf upwards: the first one that is not at its last
  (first) child gives the next (previous) leaf.\<close>

fun next_leaf :: "('a, 's, 'd) StackEntry list \<Rightarrow> ('a, 's) Tree option option" where
  "next_leaf [] = Some None"
| "next_leaf (entry # st) = do {
     cts \<leftarrow> child_trees (se_tree entry);
     (if cts = [] then None
      else if se_index entry < length cts - 1
      then do { t \<leftarrow> list_get cts (se_index entry + 1); leaf \<leftarrow> leftmost_leaf t; Some (Some leaf) }
      else next_leaf st)
   }"

fun prev_leaf :: "('a, 's, 'd) StackEntry list \<Rightarrow> ('a, 's) Tree option option" where
  "prev_leaf [] = Some None"
| "prev_leaf (entry # st) =
     (if se_index entry \<noteq> 0
      then do {
        cts \<leftarrow> child_trees (se_tree entry);
        t \<leftarrow> list_get cts (se_index entry - 1); leaf \<leftarrow> rightmost_leaf t; Some (Some leaf) }
      else prev_leaf st)"

definition next_item :: "('a, 's, 'd) Cursor \<Rightarrow> 'a option option" where
  "next_item c =
     (if \<not> c_did_seek c then None
      else (case c_stack c of
        entry # st \<Rightarrow> do {
          xs \<leftarrow> node_items (se_tree entry);
          (if xs = [] then None
           else if se_index entry = length xs - 1 then do {
             leaf \<leftarrow> next_leaf st;
             (case leaf of
                Some t \<Rightarrow> do { ys \<leftarrow> node_items t; y \<leftarrow> list_first ys; Some (Some y) }
              | None \<Rightarrow> Some None)
           } else map_option Some (list_get xs (se_index entry + 1)))
        }
      | [] \<Rightarrow> if c_at_end c then Some None else tree_first (c_tree c)))"

definition prev_item :: "('a, 's, 'd) Cursor \<Rightarrow> 'a option option" where
  "prev_item c =
     (if \<not> c_did_seek c then None
      else (case c_stack c of
        entry # st \<Rightarrow>
          (if se_index entry = 0 then do {
             leaf \<leftarrow> prev_leaf st;
             (case leaf of
                Some t \<Rightarrow> do { ys \<leftarrow> node_items t; y \<leftarrow> list_last ys; Some (Some y) }
              | None \<Rightarrow> Some None)
           } else do { xs \<leftarrow> node_items (se_tree entry); map_option Some (list_get xs (se_index entry - 1)) })
      | [] \<Rightarrow> if c_at_end c then tree_last (c_tree c) else Some None))"

section \<open>Iterators\<close>

text \<open>\<open>Iter\<close> is a cursor without position.\<close>

record ('a, 's) Iter =
  i_tree :: "('a, 's) Tree"
  i_stack :: "('a, 's, unit) StackEntry list"

definition iter_new :: "('a, 's) Tree \<Rightarrow> ('a, 's) Iter" where
  "iter_new t = \<lparr>i_tree = t, i_stack = []\<rparr>"

function iter_loop ::
  "bool \<Rightarrow> ('a, 's, unit) StackEntry list \<Rightarrow> (('a, 's, unit) StackEntry list \<times> 'a option) option" where
  "iter_loop descend [] = Some ([], None)"
| "iter_loop descend (entry # st) =
     (let entry1 = (if descend then entry else entry\<lparr>se_index := se_index entry + 1\<rparr>) in
      case se_tree entry of
        Internal h s css cts \<Rightarrow>
          (case list_get cts (se_index entry1) of
             Some subtree \<Rightarrow> do {
               st' \<leftarrow> push_stack (entry1 # st) \<lparr>se_tree = subtree, se_index = 0, se_position = ()\<rparr>;
               iter_loop True st'
             }
           | None \<Rightarrow> iter_loop False st)
      | Leaf s xs ss \<Rightarrow>
          (case list_get xs (se_index entry1) of
             Some item \<Rightarrow> Some (entry1 # st, Some item)
           | None \<Rightarrow> iter_loop False st))"
  by pat_completeness auto
termination
  by (relation "measure (\<lambda>(descend, st). stack_weight (\<not> descend) st)")
    (auto simp: stack_weight_pop push_stack_def simp del: stack_weight.simps split: if_splits
      dest: list_get_subtrees intro!: stack_weight_descend)

declare iter_loop.simps(2) [simp del]

definition iter_next :: "('a, 's) Iter \<Rightarrow> (('a, 's) Iter \<times> 'a option) option" where
  "iter_next it = do {
     (st, descend) \<leftarrow>
       (if i_stack it = []
        then map_option (\<lambda>st. (st, True)) (push_stack [] \<lparr>se_tree = i_tree it, se_index = 0, se_position = ()\<rparr>)
        else Some (i_stack it, False));
     (st', item) \<leftarrow> iter_loop descend st;
     Some (it\<lparr>i_stack := st'\<rparr>, item)
   }"

definition iter_last :: "('a, 's) Iter \<Rightarrow> 'a option option" where
  "iter_last it = do { leaf \<leftarrow> rightmost_leaf (i_tree it); tree_last leaf }"

definition iter_size_hint :: "('a, 's) Iter \<Rightarrow> nat option" where
  "iter_size_hint it = (case i_stack it of
     entry # _ \<Rightarrow> if length (child_summaries (se_tree entry)) < se_index entry then None
       else Some (length (child_summaries (se_tree entry)) - se_index entry)
   | [] \<Rightarrow> Some (length (child_summaries (i_tree it))))"

text \<open>The cursor itself as an iterator.\<close>

definition cursor_iterator_next ::
  "('s, 'd) dimension_ops \<Rightarrow> ('s \<Rightarrow> bool) \<Rightarrow> ('a, 's, 'd) Cursor \<Rightarrow> (('a, 's, 'd) Cursor \<times> 'a option) option" where
  "cursor_iterator_next dim filter_node c = do {
     c1 \<leftarrow> (if c_did_seek c then Some c else search_forward dim filter_node c);
     res \<leftarrow> cursor_item c1;
     (case res of
        Some item \<Rightarrow> do { c2 \<leftarrow> search_forward dim filter_node c1; Some (c2, Some item) }
      | None \<Rightarrow> Some (c1, None))
   }"

section \<open>Searching forward finds the next accepted item\<close>

text \<open>A filter that rejects the summary of a run of items rejects each of them.\<close>

definition filter_mono :: "('a, 's) summary_ops \<Rightarrow> ('s \<Rightarrow> bool) \<Rightarrow> bool" where
  "filter_mono ops filt \<longleftrightarrow>
     (\<forall>xs. xs \<noteq> [] \<and> \<not> filt (items_summary ops xs) \<longrightarrow> (\<forall>x \<in> set xs. \<not> filt (item_summary ops x)))"

definition rejected :: "('a, 's) summary_ops \<Rightarrow> ('s \<Rightarrow> bool) \<Rightarrow> 'a \<Rightarrow> bool" where
  "rejected ops filt x \<longleftrightarrow> \<not> filt (item_summary ops x)"

lemma filter_mono_True: "filter_mono ops (\<lambda>_. True)"
  by (simp add: filter_mono_def)

lemma takeWhile_False: "takeWhile (\<lambda>_. False) xs = []"
  by (cases xs) simp_all

lemma rejected_True: "rejected ops (\<lambda>_. True) = (\<lambda>_. False)"
  by (simp add: rejected_def fun_eq_iff)

lemma search_forward_loop_ascend:
  "path_ok dim f root st t \<Longrightarrow>
     search_forward_loop dim filt False st pos = search_forward_loop dim filt True (ascend pos st) pos"
  by (cases st; cases "se_tree (hd st)") (auto simp: search_forward_loop.simps(2))

context dimension_algebra
begin

lemma skip_rejected_items:
  "skip_rejected dim filt i p ep (map (item_summary ops) xs) =
     (i + length (takeWhile (rejected ops filt) xs), adv p (takeWhile (rejected ops filt) xs),
      adv ep (takeWhile (rejected ops filt) xs))"
  by (induction xs arbitrary: i p ep) (auto simp: rejected_def)

lemma skip_rejected_children:
  assumes "filter_mono ops filt" "list_all (child_ok ops h) ts"
  shows "\<exists>n \<le> length ts. skip_rejected dim filt i p p (map summary ts) =
      (i + n, adv p (concat (map flatten (take n ts))), adv p (concat (map flatten (take n ts)))) \<and>
    (\<forall>x \<in> set (concat (map flatten (take n ts))). rejected ops filt x)"
  using assms(2)
proof (induction ts arbitrary: i p)
  case (Cons t ts)
  have t: "child_ok ops h t" using Cons.prems by simp
  note end_pos = dim_add_child [OF t, of p]
  show ?case
  proof (cases "filt (summary t)")
    case False
    obtain n where n: "n \<le> length ts" "skip_rejected dim filt (Suc i) (adv p (flatten t)) (adv p (flatten t)) (map summary ts) =
        (Suc i + n, adv (adv p (flatten t)) (concat (map flatten (take n ts))),
         adv (adv p (flatten t)) (concat (map flatten (take n ts))))"
      "\<forall>x \<in> set (concat (map flatten (take n ts))). rejected ops filt x"
      using Cons.IH [of "Suc i" "adv p (flatten t)"] Cons.prems by auto
    have "\<forall>x \<in> set (flatten t). rejected ops filt x"
      using assms(1) False child_ok_summary [OF t] child_ok_flatten [OF t]
      by (auto simp: filter_mono_def rejected_def)
    with n False end_pos show ?thesis
      by (intro exI [of _ "Suc n"]) auto
  qed (auto intro!: exI [of _ 0])
qed simp

definition forward_correct ::
  "('a, 's) Tree \<Rightarrow> ('s \<Rightarrow> bool) \<Rightarrow> bool \<Rightarrow> ('a, 's, 'd) StackEntry list \<Rightarrow> 'd \<Rightarrow> 'a list \<Rightarrow> 'a list \<Rightarrow> bool" where
  "forward_correct root filt descend st pos before remaining \<longleftrightarrow>
     (\<exists>st'. search_forward_loop dim filt descend st pos =
        Some (st', adv pos (takeWhile (rejected ops filt) remaining)) \<and>
      seek_done root (before @ takeWhile (rejected ops filt) remaining) (dropWhile (rejected ops filt) remaining) st')"

lemma forward_correct_skip:
  assumes "forward_correct root filt d st p1 (before @ ys) zs" "\<forall>x \<in> set ys. rejected ops filt x"
    "p1 = adv pos ys" "search_forward_loop dim filt d' st' pos = search_forward_loop dim filt d st p1"
  shows "forward_correct root filt d' st' pos before (ys @ zs)"
  using assms by (simp add: forward_correct_def)

lemma forward_correct_ascend:
  assumes path: "path root st t" and all: "\<forall>x \<in> set ys. rejected ops filt x"
    and pos: "adv pos ys = adv (dim_zero dim) (stack_before st @ flatten t)"
    and before: "before @ ys = stack_before st @ flatten t"
    and IH: "forward_correct root filt True (ascend (adv pos ys) st) (adv pos ys)
      (stack_before (ascend (adv pos ys) st)) (stack_above st)"
    and eq: "search_forward_loop dim filt d st1 pos = search_forward_loop dim filt False st (adv pos ys)"
  shows "forward_correct root filt d st1 pos before (ys @ stack_above st)"
proof (rule forward_correct_skip [OF _ all refl])
  show "search_forward_loop dim filt d st1 pos =
      search_forward_loop dim filt True (ascend (adv pos ys) st) (adv pos ys)"
    using eq search_forward_loop_ascend [OF path] by simp
  show "forward_correct root filt True (ascend (adv pos ys) st) (adv pos ys) (before @ ys) (stack_above st)"
  proof (cases "st = []")
    case True
    with IH show ?thesis by (auto simp: forward_correct_def seek_done_def)
  next
    case False
    with IH before ascend_ready(3) [OF path pos] show ?thesis by simp
  qed
qed

lemma forward_correct_leaf:
  assumes e: "se_tree e = Leaf s ys ss" and root: "wf_tree ops root" and ready: "ready root (e # st) pos"
    and IH: "forward_correct root filt True (ascend (adv pos (entry_after 0 e)) st) (adv pos (entry_after 0 e))
        (stack_before (ascend (adv pos (entry_after 0 e)) st)) (stack_above st)"
  shows "forward_correct root filt True (e # st) pos (stack_before (e # st)) (stack_remaining (e # st))"
proof -
  have path: "path root st (se_tree e)" and pos: "pos = adv (dim_zero dim) (stack_before (e # st))"
    using ready by auto
  have leaf: "ss = map (item_summary ops) ys" "se_index e \<le> length ys"
    using path_ok_subtree [OF root path] ready by (auto simp: e)
  have after: "entry_after 0 e = drop (se_index e) ys" by (simp add: e entry_after.simps)
  let ?sk = "takeWhile (rejected ops filt) (drop (se_index e) ys)"
  have le: "length ?sk \<le> length ys - se_index e" by (metis length_drop length_takeWhile_le)
  show ?thesis
  proof (cases "dropWhile (rejected ops filt) (drop (se_index e) ys) = []")
    case True
    then have sk: "?sk = drop (se_index e) ys" "\<forall>x \<in> set (entry_after 0 e). rejected ops filt x"
      by (auto simp: after dropWhile_eq_Nil_conv takeWhile_eq_all_conv)
    have "search_forward_loop dim filt True (e # st) pos = search_forward_loop dim filt False st (adv pos (entry_after 0 e))"
      using leaf by (simp add: search_forward_loop.simps(2) e drop_map skip_rejected_items after sk(1) del: takeWhile_eq_all_conv)
    moreover have before: "stack_before (e # st) @ entry_after 0 e = stack_before st @ flatten (se_tree e)"
      using entry_split [of e] by simp
    moreover have "adv pos (entry_after 0 e) = adv (dim_zero dim) (stack_before st @ flatten (se_tree e))"
      by (simp only: pos before flip: advance_append)
    ultimately show ?thesis
      using forward_correct_ascend [OF path sk(2) _ _ IH] by simp
  next
    case False
    have split: "?sk @ dropWhile (rejected ops filt) (drop (se_index e) ys) = drop (se_index e) ys" by simp
    have "length ?sk < length (drop (se_index e) ys)"
      using False arg_cong [OF split, of length] by (metis length_append length_greater_0_conv less_add_same_cancel1)
    moreover have "take (length ?sk) (drop (se_index e) ys) = ?sk"
      by (rule takeWhile_eq_take [symmetric])
    ultimately have idx: "se_index e + length ?sk < length ys" "take (se_index e + length ?sk) ys = take (se_index e) ys @ ?sk"
      by (auto simp: take_add)
    from False obtain x where "x \<in> set (drop (se_index e) ys)" "\<not> rejected ops filt x"
      by (auto simp: dropWhile_eq_Nil_conv)
    then have "takeWhile (rejected ops filt) (stack_remaining (e # st)) = ?sk"
      "dropWhile (rejected ops filt) (stack_remaining (e # st)) = dropWhile (rejected ops filt) (drop (se_index e) ys) @ stack_above st"
      by (simp_all add: after takeWhile_append1 dropWhile_append1)
    with False idx leaf path show ?thesis
      by (auto simp: forward_correct_def search_forward_loop.simps(2) e drop_map skip_rejected_items seek_done_def
          entry_before.simps)
  qed
qed

lemma forward_correct_internal:
  assumes e: "se_tree e = Internal h s css cts" and root: "wf_tree ops root" "height root < 16"
    and filt: "filter_mono ops filt" and ready: "ready root (e # st) pos"
    and IH: "forward_correct root filt True (ascend (adv pos (entry_after 0 e)) st) (adv pos (entry_after 0 e))
        (stack_before (ascend (adv pos (entry_after 0 e)) st)) (stack_above st)"
    and IH2: "\<And>st' p'. stack_weight False st' < stack_weight False (e # st) \<Longrightarrow> ready root st' p' \<Longrightarrow>
      forward_correct root filt True st' p' (stack_before st') (stack_remaining st')"
  shows "forward_correct root filt True (e # st) pos (stack_before (e # st)) (stack_remaining (e # st))"
proof -
  let ?i = "se_index e"
  have path: "path root st (se_tree e)" and pos: "pos = adv (dim_zero dim) (stack_before (e # st))"
    and i: "?i \<le> length cts" and epos: "se_position e = pos"
    using ready by (auto simp: e)
  note inner = path_ok_Internal [OF root(1) path [unfolded e]]
  have cap: "Suc (length st) < 16" using inner(3,4) root(2) by linarith
  have sub: "css = map summary cts" "list_all (child_ok ops (h - 1)) (drop ?i cts)"
    using inner(1,2) by (auto simp: list_all_iff dest: in_set_dropD)
  have after: "entry_after 0 e = concat (map flatten (drop ?i cts))" by (simp add: e entry_after.simps)
  obtain n where n: "n \<le> length (drop ?i cts)"
    and sk: "skip_rejected dim filt ?i pos pos (map summary (drop ?i cts)) =
      (?i + n, adv pos (concat (map flatten (take n (drop ?i cts)))), adv pos (concat (map flatten (take n (drop ?i cts)))))"
    and rej: "\<forall>x \<in> set (concat (map flatten (take n (drop ?i cts)))). rejected ops filt x"
    using skip_rejected_children [OF filt sub(2), of ?i pos] by blast
  show ?thesis
  proof (cases "n = length (drop ?i cts)")
    case True
    then have tk: "take n (drop ?i cts) = drop ?i cts" "list_get cts (?i + n) = None"
      using i by (simp_all add: list_get_def)
    have "search_forward_loop dim filt True (e # st) pos = search_forward_loop dim filt False st (adv pos (entry_after 0 e))"
      using sk epos by (simp add: search_forward_loop.simps(2) e sub(1) drop_map tk after)
    moreover have before: "stack_before (e # st) @ entry_after 0 e = stack_before st @ flatten (se_tree e)"
      using entry_split [of e] by simp
    moreover have "adv pos (entry_after 0 e) = adv (dim_zero dim) (stack_before st @ flatten (se_tree e))"
      by (simp only: pos before flip: advance_append)
    ultimately show ?thesis
      using forward_correct_ascend [OF path rej [unfolded tk(1), folded after] _ _ IH] by simp
  next
    case False
    with n have lt: "n < length (drop ?i cts)" "?i + n < length cts" by simp_all
    note down = descend_ready [OF e ready lt(1) refl]
    show ?thesis unfolding down(3)
      by (rule forward_correct_skip [OF IH2 [OF down(4,1), unfolded down(2)] rej refl])
        (use lt(2) sk epos cap in \<open>simp add: search_forward_loop.simps(2) [of _ _ _ e] e sub(1) drop_map list_get_def push_stack_def\<close>)
  qed
qed

lemma search_forward_loop_ok:
  assumes "wf_tree ops root" "height root < 16" "filter_mono ops filt" "ready root st pos"
  shows "forward_correct root filt True st pos (stack_before st) (stack_remaining st)"
  using assms(4)
proof (induction "stack_weight False st" arbitrary: st pos rule: less_induct)
  case less
  show ?case
  proof (cases st)
    case Nil
    then show ?thesis by (simp add: forward_correct_def seek_done_def)
  next
    case (Cons e st0)
    then have path: "path root st0 (se_tree e)" and pos: "pos = adv (dim_zero dim) (stack_before (e # st0))"
      using less.prems by auto
    have up: "adv pos (entry_after 0 e) = adv (dim_zero dim) (stack_before st0 @ flatten (se_tree e))"
      using pos by (simp flip: entry_split)
    have IH: "forward_correct root filt True (ascend (adv pos (entry_after 0 e)) st0) (adv pos (entry_after 0 e))
        (stack_before (ascend (adv pos (entry_after 0 e)) st0)) (stack_above st0)"
      using less.hyps [OF _ ascend_ready(1) [OF path up]] ascend_ready(2) [OF path up]
        stack_weight_pop [of st0 False e] by (simp add: stack_weight_ascend Cons)
    show ?thesis unfolding Cons
    proof (cases "se_tree e")
      case (Leaf s ys ss)
      then show "forward_correct root filt True (e # st0) pos (stack_before (e # st0)) (stack_remaining (e # st0))"
        using forward_correct_leaf [OF _ assms(1) less.prems [unfolded Cons] IH] by simp
    next
      case (Internal h s css cts)
      then show "forward_correct root filt True (e # st0) pos (stack_before (e # st0)) (stack_remaining (e # st0))"
        using forward_correct_internal [OF _ assms(1-3) less.prems [unfolded Cons] IH] less.hyps
        by (simp only: Cons)
    qed
  qed
qed

text \<open>Where the cursor can be: not moved yet, before the first item after stepping back past
  it, or at a place between items.  The item under the cursor is left behind.\<close>

definition cursor_rewound :: "('a, 's, 'd) Cursor \<Rightarrow> bool" where
  "cursor_rewound c \<longleftrightarrow> c_did_seek c \<and> c_stack c = [] \<and> \<not> c_at_end c \<and> c_position c = dim_zero dim \<and>
     flatten (c_tree c) \<noteq> []"

lemma search_forward_cursor:
  assumes ok: "forward_correct (c_tree c) filt True st p before after"
    and run: "search_forward dim filt c = do {
      (st', position) \<leftarrow> search_forward_loop dim filt True st p;
      Some (c\<lparr>c_did_seek := True, c_stack := st', c_position := position,
        c_at_end := (if st' = [] then True else c_at_end c)\<rparr>) }"
    and c: "flatten (c_tree c) = before @ after" "p = adv (dim_zero dim) before" "after \<noteq> [] \<longrightarrow> \<not> c_at_end c"
  shows "\<exists>c'. search_forward dim filt c = Some c' \<and> c_tree c' = c_tree c \<and>
    cursor_at ops dim c' (before @ takeWhile (rejected ops filt) after) (dropWhile (rejected ops filt) after)"
proof -
  define ws rest where "ws = takeWhile (rejected ops filt) after" and "rest = dropWhile (rejected ops filt) after"
  note ws = this
  have after: "after = ws @ rest" by (simp add: ws)
  obtain st' where st': "search_forward_loop dim filt True st p = Some (st', adv p ws)"
    "seek_done (c_tree c) (before @ ws) rest st'"
    using ok unfolding forward_correct_def ws(1,2) by blast
  have "cursor_at ops dim (c\<lparr>c_did_seek := True, c_stack := st', c_position := adv p ws,
        c_at_end := (if st' = [] then True else c_at_end c)\<rparr>) (before @ ws) rest"
    using c after st'(2) by (cases "rest = []"; cases st') (auto simp: cursor_at_def seek_done_def)
  then show ?thesis
    unfolding ws(1,2) [symmetric] run st'(1) by simp
qed

lemma search_forward_from_start:
  assumes root: "wf_tree ops (c_tree c)" "height (c_tree c) < 16" and filt: "filter_mono ops filt"
    and c: "cursor_fresh dim c \<or> cursor_rewound c"
  shows "\<exists>c'. search_forward dim filt c = Some c' \<and> c_tree c' = c_tree c \<and>
    cursor_at ops dim c' (takeWhile (rejected ops filt) (flatten (c_tree c))) (dropWhile (rejected ops filt) (flatten (c_tree c)))"
proof -
  let ?root = "\<lparr>se_tree = c_tree c, se_index = 0, se_position = dim_zero dim\<rparr>"
  have c': "c_stack c = []" "c_position c = dim_zero dim" "c_at_end c \<longleftrightarrow> flatten (c_tree c) = []"
    using c is_empty_flatten [OF root(1)] by (auto simp: cursor_fresh_def cursor_rewound_def)
  have "ready (c_tree c) [?root] (dim_zero dim)" "stack_before [?root] = []"
    by (cases "c_tree c"; simp add: entry_before.simps)+
  moreover from this have "stack_remaining [?root] = flatten (c_tree c)"
    using entry_split [of ?root] by simp
  ultimately have "forward_correct (c_tree c) filt True [?root] (dim_zero dim) [] (flatten (c_tree c))"
    using search_forward_loop_ok [OF root filt, of "[?root]" "dim_zero dim"] by (simp only:)
  note ok = this
  show ?thesis
  proof (cases "flatten (c_tree c) = []")
    case True
    with c' show ?thesis by (simp add: search_forward_def cursor_at_def)
  next
    case False
    with c' show ?thesis
      using search_forward_cursor [OF ok] by (simp add: search_forward_def push_stack_def)
  qed
qed

lemma step_over:
  assumes root: "wf_tree ops root" and at: "at_item dim (item_summary ops) root (e # st)"
    and split: "flatten root = stack_before (e # st) @ x # after"
    and pos: "pos = adv (dim_zero dim) (stack_before (e # st))"
  shows "\<exists>e'. search_forward_loop dim filt False (e # st) pos =
      search_forward_loop dim filt True (e' # st) (dim_add dim pos (item_summary ops x)) \<and>
    ready root (e' # st) (dim_add dim pos (item_summary ops x)) \<and>
    stack_before (e' # st) = stack_before (e # st) @ [x] \<and> stack_remaining (e' # st) = after"
proof -
  obtain s xs ss where e: "se_tree e = Leaf s xs ss" "se_index e < length xs" "path root st (se_tree e)"
    using at by (cases "se_tree e") auto
  have "stack_before (e # st) @ stack_remaining (e # st) = flatten root"
    using ready_split [OF root, of "e # st"] at_item_seek_ready [OF at] by simp
  then have rem: "x = xs ! se_index e" "after = drop (Suc (se_index e)) xs @ stack_above st"
    using e(1,2) split by (auto simp: entry_after.simps simp flip: Cons_nth_drop_Suc)
  have ss: "ss = map (item_summary ops) xs"
    using path_ok_subtree [OF root e(3)] e(1) by simp
  let ?e = "e\<lparr>se_index := Suc (se_index e), se_position := dim_add dim (se_position e) (item_summary ops x)\<rparr>"
  have b: "stack_before (?e # st) = stack_before (e # st) @ [x]"
    using e(1,2) rem(1) by (simp add: entry_before.simps take_Suc_conv_app_nth)
  have "search_forward_loop dim filt False (e # st) pos =
      search_forward_loop dim filt True (?e # st) (dim_add dim pos (item_summary ops x))"
    using e(1,2) ss rem(1) by (simp add: search_forward_loop.simps(2) list_get_def split: prod.split)
  moreover have "ready root (?e # st) (dim_add dim pos (item_summary ops x))"
    using b e pos by (simp del: stack_before.simps)
  moreover have "stack_remaining (?e # st) = after"
    using rem(2) e(1) by (simp add: entry_after.simps)
  ultimately show ?thesis using b by blast
qed

lemma search_forward_ok:
  assumes root: "wf_tree ops (c_tree c)" "height (c_tree c) < 16" and filt: "filter_mono ops filt"
    and c: "cursor_at ops dim c before (x # after)"
  shows "\<exists>c'. search_forward dim filt c = Some c' \<and> c_tree c' = c_tree c \<and>
    cursor_at ops dim c' (before @ x # takeWhile (rejected ops filt) after) (dropWhile (rejected ops filt) after)"
proof -
  obtain e st where e: "c_stack c = e # st" "at_item dim (item_summary ops) (c_tree c) (e # st)" "c_did_seek c"
    "stack_before (e # st) = before" "\<not> c_at_end c" "flatten (c_tree c) = before @ x # after"
    "c_position c = adv (dim_zero dim) before"
    using c by (cases "c_stack c") (auto simp: cursor_at_def)
  obtain e' where e': "search_forward_loop dim filt False (e # st) (c_position c) =
      search_forward_loop dim filt True (e' # st) (dim_add dim (c_position c) (item_summary ops x))"
    "ready (c_tree c) (e' # st) (dim_add dim (c_position c) (item_summary ops x))"
    "stack_before (e' # st) = before @ [x]" "stack_remaining (e' # st) = after"
    using step_over [OF root(1) e(2), unfolded e(4), OF e(6,7)] by blast
  have "forward_correct (c_tree c) filt True (e' # st) (dim_add dim (c_position c) (item_summary ops x)) (before @ [x]) after"
    using search_forward_loop_ok [OF root filt e'(2)] unfolding e'(3,4) .
  from search_forward_cursor [OF this] e(1,3,5-7) e'(1) show ?thesis
    by (simp add: search_forward_def)
qed

lemma path_entries_wf:
  assumes "wf_tree ops root"
  shows "path root st t \<Longrightarrow> \<forall>e \<in> set st. wf_tree ops (se_tree e)"
proof (induction st arbitrary: t)
  case (Cons e st)
  then show ?case using path_ok_subtree [OF assms, of st "se_tree e"] by auto
qed simp

lemma search_forward_end:
  "cursor_at ops dim c before [] \<Longrightarrow> search_forward dim filt c = Some c"
  by (simp add: cursor_at_def search_forward_def)

lemma list_first_append: "list_first (xs @ ys) = (if xs = [] then list_first ys else list_first xs)"
  by (cases xs) (simp_all add: list_first_def)

lemma list_last_append: "list_last (xs @ ys) = (if ys = [] then list_last xs else list_last ys)"
  by (simp add: list_last_def)

lemma next_leaf_ok:
  assumes "wf_tree ops root" "path root st t"
  shows "\<exists>r. next_leaf st = Some r \<and> (case r of None \<Rightarrow> stack_above st = []
    | Some leaf \<Rightarrow> stack_above st \<noteq> [] \<and> (\<exists>s xs ss. leaf = Leaf s xs ss \<and> list_first xs = list_first (stack_above st)))"
  using assms(2)
proof (induction st arbitrary: t)
  case (Cons e st)
  then have path: "path root st (se_tree e)" and i: "se_index e < length (subtrees (se_tree e))" by auto
  then obtain h s css cts where e: "se_tree e = Internal h s css cts" by (cases "se_tree e") auto
  note ok = path_ok_Internal(2) [OF assms(1) path [unfolded e]]
  show ?case
  proof (cases "se_index e < length cts - 1")
    case True
    let ?u = "cts ! Suc (se_index e)"
    have u: "child_ok ops (h - 1) ?u" using ok True by (simp add: list_all_length)
    obtain s' xs where "leftmost_leaf ?u = Some (Leaf s' xs (map (item_summary ops) xs))" "list_first xs = list_first (flatten ?u)"
      using leftmost_leaf_ok [of ?u] u by (auto simp: child_ok_def)
    moreover have "drop (Suc (se_index e)) cts = ?u # drop (Suc (Suc (se_index e))) cts"
      using True Cons_nth_drop_Suc [of "Suc (se_index e)" cts] by simp
    moreover have "flatten ?u \<noteq> []" by (rule child_ok_flatten [OF u])
    ultimately show ?thesis
      using True i by (auto simp: e entry_after.simps list_get_def list_first_append)
  next
    case False
    then have "stack_above (e # st) = stack_above st" using i by (simp add: e entry_after.simps)
    moreover have "next_leaf (e # st) = next_leaf st" using False i by (auto simp: e)
    ultimately show ?thesis using Cons.IH [OF path] by (simp only:)
  qed
qed simp

lemma prev_leaf_ok:
  assumes "wf_tree ops root" "path root st t"
  shows "\<exists>r. prev_leaf st = Some r \<and> (case r of None \<Rightarrow> stack_before st = []
    | Some leaf \<Rightarrow> stack_before st \<noteq> [] \<and> (\<exists>s xs ss. leaf = Leaf s xs ss \<and> list_last xs = list_last (stack_before st)))"
  using assms(2)
proof (induction st arbitrary: t)
  case (Cons e st)
  then have path: "path root st (se_tree e)" and i: "se_index e < length (subtrees (se_tree e))" by auto
  then obtain h s css cts where e: "se_tree e = Internal h s css cts" by (cases "se_tree e") auto
  note ok = path_ok_Internal(2) [OF assms(1) path [unfolded e]]
  show ?case
  proof (cases "se_index e")
    case (Suc k)
    let ?u = "cts ! k"
    have u: "child_ok ops (h - 1) ?u" using ok i Suc by (simp add: list_all_length e)
    obtain s' xs where "rightmost_leaf ?u = Some (Leaf s' xs (map (item_summary ops) xs))" "list_last xs = list_last (flatten ?u)"
      using rightmost_leaf_ok [of ?u] u by (auto simp: child_ok_def)
    moreover have "take (Suc k) cts = take k cts @ [?u]"
      using i Suc by (simp add: e take_Suc_conv_app_nth)
    moreover have "flatten ?u \<noteq> []" by (rule child_ok_flatten [OF u])
    ultimately show ?thesis
      using i Suc by (auto simp: e entry_before.simps list_get_def list_last_append)
  next
    case 0
    then have "stack_before (e # st) = stack_before st" "prev_leaf (e # st) = prev_leaf st"
      by (simp_all add: e entry_before.simps)
    then show ?thesis using Cons.IH [OF path] by (simp only:)
  qed
qed simp

lemma next_prev_item_ok:
  assumes root: "wf_tree ops (c_tree c)" and c: "cursor_at ops dim c before after"
  shows "next_item c = Some (list_first (tl after))" and "prev_item c = Some (list_last before)"
proof (atomize (full), cases after)
  case Nil
  with c first_last_ok(2) [OF root] show "next_item c = Some (list_first (tl after)) \<and> prev_item c = Some (list_last before)"
    by (simp add: cursor_at_def next_item_def prev_item_def list_first_def)
next
  case (Cons x after')
  obtain e st s xs ss where e: "c_stack c = e # st" "se_tree e = Leaf s xs ss" "se_index e < length xs"
    "path (c_tree c) st (se_tree e)" "c_did_seek c" "stack_before (e # st) = before"
    "flatten (c_tree c) = before @ x # after'"
    using c by (cases "c_stack c"; cases "se_tree (hd (c_stack c))") (auto simp: cursor_at_def Cons)
  have "stack_before (e # st) @ stack_remaining (e # st) = flatten (c_tree c)"
    using ready_split [OF root, of "e # st"] e(2-4) at_item_seek_ready [of dim "item_summary ops" "c_tree c" "e # st"]
    by simp
  then have after': "after' = drop (Suc (se_index e)) xs @ stack_above st"
    using e(2,3,6,7) by (auto simp: entry_after.simps simp flip: Cons_nth_drop_Suc)
  have before: "before = stack_before st @ take (se_index e) xs"
    using e(2,6) by (simp add: entry_before.simps)
  have "next_item c = Some (list_first after')"
  proof (cases "Suc (se_index e) = length xs")
    case True
    obtain r where "next_leaf st = Some r" "case r of None \<Rightarrow> stack_above st = []
      | Some leaf \<Rightarrow> stack_above st \<noteq> [] \<and> (\<exists>s xs ss. leaf = Leaf s xs ss \<and> list_first xs = list_first (stack_above st))"
      using next_leaf_ok [OF root e(4)] by blast
    with True e(1,2,5) show ?thesis
      by (cases r; cases "stack_above st") (auto simp: next_item_def after' list_first_def)
  next
    case False
    then have "drop (Suc (se_index e)) xs = xs ! Suc (se_index e) # drop (Suc (Suc (se_index e))) xs"
      using e(3) Cons_nth_drop_Suc [of "Suc (se_index e)" xs] by simp
    with False e(1-3,5) show ?thesis
      by (auto simp: next_item_def after' list_get_def list_first_def)
  qed
  moreover have "prev_item c = Some (list_last before)"
  proof (cases "se_index e")
    case 0
    obtain r where "prev_leaf st = Some r" "case r of None \<Rightarrow> stack_before st = []
      | Some leaf \<Rightarrow> stack_before st \<noteq> [] \<and> (\<exists>s xs ss. leaf = Leaf s xs ss \<and> list_last xs = list_last (stack_before st))"
      using prev_leaf_ok [OF root e(4)] by blast
    with 0 e(1,2,5) show ?thesis
      by (cases r; cases "stack_before st") (auto simp: prev_item_def before list_last_def)
  next
    case (Suc k)
    with e(1-3,5) show ?thesis
      by (auto simp: prev_item_def before list_get_def list_last_def take_Suc_conv_app_nth)
  qed
  ultimately show "next_item c = Some (list_first (tl after)) \<and> prev_item c = Some (list_last before)"
    by (simp add: Cons)
qed

lemma next_prev_item_rewound:
  "wf_tree ops (c_tree c) \<Longrightarrow> cursor_rewound c \<Longrightarrow>
     next_item c = Some (list_first (flatten (c_tree c))) \<and> prev_item c = Some None"
  using first_last_ok(1) by (simp add: cursor_rewound_def next_item_def prev_item_def)

end

section \<open>Iteration yields the items in order\<close>

definition unit_dim :: "('s, unit) dimension_ops" where
  "unit_dim = \<lparr>dim_zero = (), dim_add = (\<lambda>_ _. ())\<rparr>"

lemma skip_rejected_True: "skip_rejected dim (\<lambda>_. True) i p ep ss = (i, p, ep)"
  by (cases ss) auto

definition stack_item :: "('a, 's, 'd) StackEntry list \<Rightarrow> 'a option" where
  "stack_item st = (case st of [] \<Rightarrow> None | e # _ \<Rightarrow> (case se_tree e of
     Leaf _ xs _ \<Rightarrow> list_get xs (se_index e) | Internal _ _ _ _ \<Rightarrow> None))"

lemma unit_stack_entry [simp]: "e\<lparr>se_index := i, se_position := u\<rparr> = e\<lparr>se_index := i\<rparr>"
  "e\<lparr>se_position := u\<rparr> = e"
  for e :: "('a, 's, unit) StackEntry"
  by (cases e; simp)+

text \<open>The iterator runs as the search for any item does.\<close>

lemma iter_loop_search:
  "\<forall>e \<in> set st. wf_tree ops (se_tree e) \<Longrightarrow>
   search_forward_loop unit_dim (\<lambda>_. True) descend st () = Some (st', ()) \<Longrightarrow>
   iter_loop descend st = Some (st', stack_item st')"
proof (induction descend st rule: iter_loop.induct)
  case (1 descend)
  then show ?case by (simp add: stack_item_def)
next
  case (2 descend entry st)
  show ?case
  proof (cases "se_tree entry")
    case (Leaf s xs ss)
    then have "length ss = length xs" using "2.prems"(1) by simp
    with 2 Leaf show ?thesis
      by (auto simp: iter_loop.simps(2) search_forward_loop.simps(2) skip_rejected_True stack_item_def list_get_def
          Let_def split: if_splits)
  next
    case (Internal h s css cts)
    have child: "list_get cts i = Some t \<Longrightarrow> wf_tree ops t" for i t
      using "2.prems"(1) Internal by (auto simp: list_get_Some_iff list_all_length)
    from 2 Internal show ?thesis
      by (auto simp: iter_loop.simps(2) [of descend entry] search_forward_loop.simps(2) [of _ _ descend entry]
          skip_rejected_True Let_def bind_eq_Some_conv push_stack_def split: if_splits option.splits dest: child)
  qed
qed

text \<open>Calling an iterator up to \<open>n\<close> times, until it returns nothing.\<close>

fun iter_take :: "nat \<Rightarrow> ('a, 's) Iter \<Rightarrow> 'a list option" where
  "iter_take 0 it = Some []"
| "iter_take (Suc n) it = do {
     (it', item) \<leftarrow> iter_next it;
     (case item of None \<Rightarrow> Some [] | Some x \<Rightarrow> do { xs \<leftarrow> iter_take n it'; Some (x # xs) })
   }"

fun cursor_take ::
  "('s, 'd) dimension_ops \<Rightarrow> ('s \<Rightarrow> bool) \<Rightarrow> nat \<Rightarrow> ('a, 's, 'd) Cursor \<Rightarrow> 'a list option" where
  "cursor_take dim filt 0 c = Some []"
| "cursor_take dim filt (Suc n) c = do {
     (c', item) \<leftarrow> cursor_iterator_next dim filt c;
     (case item of None \<Rightarrow> Some [] | Some x \<Rightarrow> do { xs \<leftarrow> cursor_take dim filt n c'; Some (x # xs) })
   }"

definition iter_at :: "('a, 's) summary_ops \<Rightarrow> ('a, 's) Iter \<Rightarrow> 'a list \<Rightarrow> 'a list \<Rightarrow> bool" where
  "iter_at ops it before after \<longleftrightarrow> flatten (i_tree it) = before @ after \<and>
     (if after = [] then i_stack it = []
      else at_item unit_dim (item_summary ops) (i_tree it) (i_stack it) \<and> stack_before (i_stack it) = before)"

context summary_algebra
begin

lemma unit_dim_algebra: "dimension_algebra ops unit_dim"
  by unfold_locales (simp_all add: unit_dim_def)

lemma filter_dropWhile: "filter (\<lambda>x. \<not> P x) (dropWhile P xs) = filter (\<lambda>x. \<not> P x) xs"
  by (induction xs) auto

end

context dimension_algebra
begin

lemma cursor_take_ok:
  assumes "wf_tree ops (c_tree c)" "height (c_tree c) < 16" "filter_mono ops filt"
    and "cursor_at ops dim c before after" "dropWhile (rejected ops filt) after = after" "length after < n"
  shows "cursor_take dim filt n c = Some (filter (\<lambda>x. \<not> rejected ops filt x) after)"
  using assms
proof (induction n arbitrary: c before after)
  case (Suc n)
  have seek: "c_did_seek c" using Suc.prems(4) by (simp add: cursor_at_def)
  note item = cursor_item_ok(1) [OF Suc.prems(1,4)]
  show ?case
  proof (cases after)
    case Nil
    with item seek show ?thesis by (simp add: cursor_iterator_next_def list_first_def)
  next
    case (Cons x after')
    then have x: "\<not> rejected ops filt x"
      using Suc.prems(5) by (metis dropWhile_eq_Cons_conv)
    obtain c' where c': "search_forward dim filt c = Some c'" "c_tree c' = c_tree c"
      "cursor_at ops dim c' (before @ x # takeWhile (rejected ops filt) after') (dropWhile (rejected ops filt) after')"
      using search_forward_ok [OF Suc.prems(1-3)] Suc.prems(4) Cons by blast
    have "length (dropWhile (rejected ops filt) after') < n"
      using Suc.prems(6) length_dropWhile_le [of "rejected ops filt" after'] by (simp add: Cons)
    then have "cursor_take dim filt n c' = Some (filter (\<lambda>x. \<not> rejected ops filt x) (dropWhile (rejected ops filt) after'))"
      by (intro Suc.IH [OF _ _ Suc.prems(3) c'(3)]) (use Suc.prems c'(2) in \<open>simp_all add: dropWhile_idem\<close>)
    with item seek x c'(1) show ?thesis
      by (simp add: Cons cursor_iterator_next_def list_first_def filter_dropWhile)
  qed
qed simp

lemma cursor_take_new:
  assumes "wf_tree ops t" "height t < 16" "filter_mono ops filt" "length (flatten t) < n"
  shows "cursor_take dim filt n (cursor_new dim t) = Some (filter (\<lambda>x. filt (item_summary ops x)) (flatten t))"
proof -
  let ?c = "cursor_new dim t"
  obtain c' where c': "search_forward dim filt ?c = Some c'" "c_tree c' = t"
    "cursor_at ops dim c' (takeWhile (rejected ops filt) (flatten t)) (dropWhile (rejected ops filt) (flatten t))"
    using search_forward_from_start [of ?c, OF _ _ assms(3)] assms(1,2) by (auto simp: cursor_fresh_new)
  have n: "length (dropWhile (rejected ops filt) (flatten t)) < n" "0 < n"
    using assms(4) length_dropWhile_le [of "rejected ops filt" "flatten t"] by linarith+
  have "c_did_seek c'" "\<not> c_did_seek ?c"
    using c'(3) by (simp_all add: cursor_at_def cursor_new_def)
  then have "cursor_iterator_next dim filt ?c = cursor_iterator_next dim filt c'"
    using c'(1) by (simp add: cursor_iterator_next_def)
  then have "cursor_take dim filt n ?c = cursor_take dim filt n c'" using n(2) by (cases n) simp_all
  then show ?thesis
    using cursor_take_ok [OF _ _ assms(3) c'(3)] c'(2) assms(1,2) n(1)
    by (simp add: dropWhile_idem filter_dropWhile) (simp add: rejected_def)
qed

end

context summary_algebra
begin

lemma iter_next_run:
  assumes root: "wf_tree ops t" "height t < 16" and st: "\<forall>e \<in> set st. wf_tree ops (se_tree e)"
    and split: "flatten t = before @ after"
    and ok: "dimension_algebra.forward_correct ops unit_dim t (\<lambda>_. True) descend st () before after"
  shows "\<exists>st'. iter_loop descend st = Some (st', list_first after) \<and> iter_at ops \<lparr>i_tree = t, i_stack = st'\<rparr> before after"
proof -
  note dim = unit_dim_algebra
  obtain st' where st': "search_forward_loop unit_dim (\<lambda>_. True) descend st () = Some (st', ())"
    "dimension_algebra.seek_done ops unit_dim t before after st'"
    using ok unfolding dimension_algebra.forward_correct_def [OF dim] by (auto simp: rejected_True takeWhile_False)
  then have at: "iter_at ops \<lparr>i_tree = t, i_stack = st'\<rparr> before after"
    using split by (cases "after = []") (auto simp: iter_at_def dimension_algebra.seek_done_def [OF dim])
  define c where "c = \<lparr>c_tree = t, c_stack = st', c_position = (), c_did_seek = True, c_at_end = (after = [])\<rparr>"
  have "cursor_at ops unit_dim c before after" "wf_tree ops (c_tree c)"
    using at root(1) by (auto simp: cursor_at_def iter_at_def c_def)
  from dimension_algebra.cursor_item_ok(1) [OF dim this(2,1)]
  have item: "cursor_item c = Some (list_first after)" .
  have "stack_item st' = list_first after"
  proof (cases "after = []")
    case True
    with at show ?thesis by (simp add: iter_at_def stack_item_def list_first_def)
  next
    case False
    then have "at_item unit_dim (item_summary ops) t st'" using at by (simp add: iter_at_def)
    with item show ?thesis
      by (cases st'; cases "se_tree (hd st')") (auto simp: cursor_item_def c_def stack_item_def list_get_def)
  qed
  with iter_loop_search [OF st st'(1)] at show ?thesis by auto
qed

lemma iter_next_start:
  assumes root: "wf_tree ops (i_tree it)" "height (i_tree it) < 16" and it: "i_stack it = []"
  shows "\<exists>it'. iter_next it = Some (it', list_first (flatten (i_tree it))) \<and> i_tree it' = i_tree it \<and>
    iter_at ops it' [] (flatten (i_tree it))"
proof -
  note dim = unit_dim_algebra
  let ?root = "\<lparr>se_tree = i_tree it, se_index = 0, se_position = ()\<rparr>"
  have "seek_ready unit_dim (item_summary ops) (i_tree it) [?root] ()" "stack_before [?root] = []"
    by (cases "i_tree it"; simp add: entry_before.simps unit_dim_def)+
  moreover from this have "stack_remaining [?root] = flatten (i_tree it)"
    using entry_split [of ?root] by simp
  ultimately have "dimension_algebra.forward_correct ops unit_dim (i_tree it) (\<lambda>_. True) True [?root] () [] (flatten (i_tree it))"
    using dimension_algebra.search_forward_loop_ok [OF dim root filter_mono_True, of "[?root]" "()"] by (simp only:)
  from iter_next_run [OF root _ _ this] root(1) it show ?thesis
    by (auto simp: iter_next_def push_stack_def iter_at_def)
qed

lemma iter_next_ok:
  assumes root: "wf_tree ops (i_tree it)" "height (i_tree it) < 16" and it: "iter_at ops it before (x # after)"
  shows "\<exists>it'. iter_next it = Some (it', list_first after) \<and> i_tree it' = i_tree it \<and> iter_at ops it' (before @ [x]) after"
proof -
  note dim = unit_dim_algebra
  obtain e st where e: "i_stack it = e # st" "at_item unit_dim (item_summary ops) (i_tree it) (e # st)"
    "stack_before (e # st) = before" "flatten (i_tree it) = before @ x # after"
    using it by (cases "i_stack it") (auto simp: iter_at_def)
  obtain e' where e': "search_forward_loop unit_dim (\<lambda>_. True) False (e # st) () =
      search_forward_loop unit_dim (\<lambda>_. True) True (e' # st) ()"
    "seek_ready unit_dim (item_summary ops) (i_tree it) (e' # st) ()"
    "stack_before (e' # st) = before @ [x]" "stack_remaining (e' # st) = after"
    using dimension_algebra.step_over [OF dim root(1) e(2), unfolded e(3), OF e(4), of "()" "\<lambda>_. True"] by auto
  have "dimension_algebra.forward_correct ops unit_dim (i_tree it) (\<lambda>_. True) False (e # st) () (before @ [x]) after"
    using dimension_algebra.search_forward_loop_ok [OF dim root filter_mono_True e'(2)]
    unfolding e'(3,4) dimension_algebra.forward_correct_def [OF dim] e'(1) .
  moreover have "\<forall>e \<in> set (e # st). wf_tree ops (se_tree e)"
    using dimension_algebra.path_entries_wf [OF dim root(1)] e(2)
      dimension_algebra.path_ok_subtree [OF dim root(1), of st "se_tree e"] by auto
  ultimately obtain st' where "iter_loop False (e # st) = Some (st', list_first after)"
    "iter_at ops \<lparr>i_tree = i_tree it, i_stack = st'\<rparr> (before @ [x]) after"
    using iter_next_run [OF root, of "e # st" "before @ [x]" after] e(4) by auto
  then show ?thesis
    by (intro exI [of _ "it\<lparr>i_stack := st'\<rparr>"]) (simp add: iter_next_def iter_at_def e(1) split: if_splits)
qed

lemma iter_take_ok:
  assumes "wf_tree ops (i_tree it)" "height (i_tree it) < 16" "iter_at ops it before (x # after)" "length after < n"
  shows "iter_take n it = Some after"
  using assms
proof (induction after arbitrary: n it before x)
  case Nil
  then show ?case using iter_next_ok [OF Nil.prems(1-3)] by (cases n) (auto simp: list_first_def)
next
  case (Cons y after)
  obtain it' where it': "iter_next it = Some (it', Some y)" "i_tree it' = i_tree it" "iter_at ops it' (before @ [x]) (y # after)"
    using iter_next_ok [OF Cons.prems(1-3)] by (auto simp: list_first_def)
  from Cons.prems(4) obtain m where m: "n = Suc m" "length after < m" by (cases n) auto
  have "iter_take m it' = Some after"
    by (rule Cons.IH [OF _ _ it'(3) m(2)]) (use Cons.prems(1,2) it'(2) in simp_all)
  with it'(1) m(1) show ?case by simp
qed

lemma iter_take_new:
  assumes "wf_tree ops t" "height t < 16" "length (flatten t) < n"
  shows "iter_take n (iter_new t) = Some (flatten t)"
proof -
  obtain it where it: "iter_next (iter_new t) = Some (it, list_first (flatten t))" "i_tree it = t"
    "iter_at ops it [] (flatten t)"
    using iter_next_start [of "iter_new t"] assms(1,2) by (auto simp: iter_new_def)
  obtain m where m: "n = Suc m" using assms(3) by (cases n) auto
  show ?thesis
  proof (cases "flatten t")
    case Nil
    with it(1) m show ?thesis by (simp add: list_first_def)
  next
    case (Cons x xs)
    with iter_take_ok [of it "[]" x xs m] it assms m show ?thesis by (simp add: list_first_def)
  qed
qed

end

section \<open>Properties\<close>

text \<open>(C30) A filtered cursor, used as an iterator, yields exactly the items whose summary the
  filter accepts, in order, without a panic and then ends, although it skips whole subtrees
  by their summaries; the unfiltered iterators yield every item of the tree.\<close>

theorem iteration_complete:
  assumes "dimension_algebra ops dim" and "wf_tree ops t" and "height t < 16"
    and "filter_mono ops filt" and "length (flatten t) < n"
  shows "cursor_take dim filt n (cursor_new dim t) = Some (filter (\<lambda>x. filt (item_summary ops x)) (flatten t)) \<and>
    cursor_take dim (\<lambda>_. True) n (cursor_new dim t) = Some (flatten t) \<and>
    iter_take n (iter_new t) = Some (flatten t)"
  using dimension_algebra.cursor_take_new [OF assms]
    dimension_algebra.cursor_take_new [OF assms(1-3) filter_mono_True assms(5)]
    summary_algebra.iter_take_new [OF dimension_algebra.axioms(1) [OF assms(1)] assms(2,3,5)]
  by simp

theorem iteration_complete_witness:
  "cursor_take sum_dim (\<lambda>s. 4 < s) 7 (cursor_new sum_dim two_leaves) = Some [5, 6] \<and>
   iter_take 7 (iter_new two_leaves) = Some [1, 2, 3, 4, 5, 6]"
proof -
  have "x \<le> sum_list xs" if "x \<in> set xs" for x :: nat and xs
    using that by (induction xs) auto
  moreover have "items_summary sum_ops xs = sum_list xs" for xs :: "nat list"
  proof -
    have "foldl (+) n xs = n + sum_list xs" for n :: nat
      by (induction xs arbitrary: n) auto
    then show ?thesis by (simp add: items_summary_def sum_summaries_def sum_ops_def)
  qed
  ultimately have "filter_mono sum_ops (\<lambda>s. 4 < s)"
    by (fastforce simp: filter_mono_def sum_ops_def)
  then show ?thesis
    using iteration_complete [OF nat_sum_dim.dimension_algebra_axioms two_leaves_ok(1,2), of "\<lambda>s. 4 < s" 7]
    by (simp add: two_leaves_ok(3)) (simp add: sum_ops_def)
qed

text \<open>\<open>next\<close> and \<open>search_forward\<close> leave the item under the cursor behind and stop at the
  next item the filter accepts, at the position reached by adding up everything skipped;
  \<open>next_item\<close> and \<open>prev_item\<close> return the neighbours of the item under the cursor, across
  leaf boundaries.\<close>

lemma cursor_steps_forward:
  assumes "dimension_algebra ops dim" and "wf_tree ops (c_tree c)" and "height (c_tree c) < 16"
    and "filter_mono ops filt" and "cursor_at ops dim c before (x # after)"
  shows "(\<exists>c'. search_forward dim filt c = Some c' \<and>
      cursor_at ops dim c' (before @ x # takeWhile (\<lambda>y. \<not> filt (item_summary ops y)) after)
        (dropWhile (\<lambda>y. \<not> filt (item_summary ops y)) after)) \<and>
    (\<exists>c'. cursor_next dim c = Some c' \<and> cursor_at ops dim c' (before @ [x]) after \<and>
      cursor_item c' = next_item c \<and> prev_item c' = Some (Some x)) \<and>
    cursor_item c = Some (Some x) \<and> next_item c = Some (list_first after) \<and> prev_item c = Some (list_last before)"
proof -
  note dim = assms(1) and wf = assms(2)
  have rej: "rejected ops filt = (\<lambda>y. \<not> filt (item_summary ops y))" by (auto simp: rejected_def)
  note here = dimension_algebra.next_prev_item_ok [OF dim wf assms(5)] dimension_algebra.cursor_item_ok(1) [OF dim wf assms(5)]
  obtain c' where c': "cursor_next dim c = Some c'" "c_tree c' = c_tree c" "cursor_at ops dim c' (before @ [x]) after"
    using dimension_algebra.search_forward_ok [OF dim wf assms(3) filter_mono_True assms(5)]
    by (auto simp: cursor_next_def rejected_True takeWhile_False)
  have wf': "wf_tree ops (c_tree c')" using wf c'(2) by simp
  note there = dimension_algebra.next_prev_item_ok(2) [OF dim wf' c'(3)] dimension_algebra.cursor_item_ok(1) [OF dim wf' c'(3)]
  show ?thesis
    using dimension_algebra.search_forward_ok [OF dim wf assms(3-5)] c'(1,3) here there
    by (auto simp: rej list_first_def list_last_def)
qed

text \<open>A cursor of the example tree at its fourth item, the first of the second leaf.\<close>

definition fourth_item :: "(nat, nat, nat) Cursor" where
  "fourth_item = \<lparr>c_tree = two_leaves, c_stack =
     [\<lparr>se_tree = Leaf 15 [4, 5, 6] [4, 5, 6], se_index = 0, se_position = 6\<rparr>,
      \<lparr>se_tree = two_leaves, se_index = 1, se_position = 6\<rparr>],
     c_position = 6, c_did_seek = True, c_at_end = False\<rparr>"

lemma fourth_item_ok: "cursor_at sum_ops sum_dim fourth_item [1, 2, 3] [4, 5, 6]"
  by (simp add: cursor_at_def fourth_item_def two_leaves_def entry_before.simps sum_ops_def sum_dim_def)

end
