(* ===== verification/Cursor_Back.thy ===== *)
theory Cursor_Back
  imports Cursor_Step
begin

text \<open>
  Stepping backward with a cursor (\<open>search_backward\<close> and \<open>prev\<close> of
  \<open>crates/sum_tree/src/cursor.rs\<close>).  A position cannot be subtracted from: the loop
  recomputes it from the position kept one level up and the summaries before the index.
\<close>

section \<open>The loop\<close>

text \<open>The work left to the loop: the children not yet visited to the left.\<close>

fun back_weight :: "('a, 's) Tree \<Rightarrow> nat" where
  "back_weight (Internal h s ss ts) = Suc (length ss + sum_list (map back_weight ts))"
| "back_weight (Leaf s xs ss) = Suc (length ss)"

definition back_entry_weight :: "bool \<Rightarrow> ('a, 's, 'd) StackEntry \<Rightarrow> nat" where
  "back_entry_weight descending e =
     (let n = se_index e + (if descending then 1 else 0) in
      Suc (n + sum_list (map back_weight (take n (subtrees (se_tree e))))))"

fun back_stack_weight :: "bool \<Rightarrow> ('a, 's, 'd) StackEntry list \<Rightarrow> nat" where
  "back_stack_weight descending [] = 0"
| "back_stack_weight descending (e # st) =
     back_entry_weight descending e + sum_list (map (back_entry_weight False) st)"

lemma back_stack_weight_False: "back_stack_weight False st = sum_list (map (back_entry_weight False) st)"
  by (cases st) simp_all

lemma back_weight_subtrees:
  "back_weight t = Suc (length (child_summaries t) + sum_list (map back_weight (subtrees t)))"
  by (cases t) simp_all

lemma back_weight_pop: "back_stack_weight False st < back_stack_weight d (e # st)"
  by (simp add: back_stack_weight_False back_entry_weight_def Let_def)

lemma sum_list_take_le: "n \<le> m \<Longrightarrow> sum_list (map f (take n xs)) \<le> sum_list (map f (take m xs))" for f :: "'x \<Rightarrow> nat"
  by (metis le_add1 le_add_diff_inverse map_append sum_list_append take_add)

lemma back_weight_left:
  assumes "d \<or> 0 < se_index e" "se_index e' = (if d then se_index e else se_index e - 1)" "se_tree e' = se_tree e"
  shows "back_stack_weight False (e' # st) < back_stack_weight d (e # st)"
proof -
  have "se_index e' < se_index e + (if d then 1 else 0)" using assms(1,2) by auto
  with sum_list_take_le [of "se_index e'" "se_index e + (if d then 1 else 0)" back_weight "subtrees (se_tree e)"]
  show ?thesis by (simp add: back_entry_weight_def Let_def assms(3))
qed

lemma back_weight_descend:
  assumes "d \<or> 0 < se_index e" "se_index e' = (if d then se_index e else se_index e - 1)" "se_tree e' = se_tree e"
    "se_index e' < length (subtrees (se_tree e))" "se_tree c = subtrees (se_tree e) ! se_index e'"
    "se_index c = length (child_summaries (se_tree c)) - 1" "child_summaries (se_tree c) \<noteq> []"
  shows "back_stack_weight True (c # e' # st) < back_stack_weight d (e # st)"
proof -
  let ?n = "se_index e + (if d then 1 else 0)" and ?ts = "subtrees (se_tree e)"
  have n: "?n = Suc (se_index e')" using assms(1,2) by auto
  have "sum_list (map back_weight (take ?n ?ts)) = sum_list (map back_weight (take (se_index e') ?ts)) + back_weight (se_tree c)"
    using assms(4,5) by (simp add: n take_Suc_conv_app_nth)
  moreover have "sum_list (map back_weight (take (length (child_summaries (se_tree c))) (subtrees (se_tree c))))
      \<le> sum_list (map back_weight (subtrees (se_tree c)))"
    using sum_list_take_le [of _ "max (length (child_summaries (se_tree c))) (length (subtrees (se_tree c)))"]
    by (metis max.cobounded1 max.cobounded2 take_all)
  moreover have "se_index c + 1 = length (child_summaries (se_tree c))"
    using assms(6,7) by (cases "child_summaries (se_tree c)") auto
  ultimately show ?thesis
    by (simp add: back_entry_weight_def Let_def n assms(3) back_weight_subtrees [of "se_tree c"])
qed

text \<open>One round of the loop: the position of the node, the entry moved one child to the left
  unless the loop has just descended into it, and the position of that child.  The panics are
  the slice, the index and the unsigned subtraction out of range.\<close>

definition stack_base :: "('s, 'd) dimension_ops \<Rightarrow> ('a, 's, 'd) StackEntry list \<Rightarrow> 'd" where
  "stack_base dim st = (case st of [] \<Rightarrow> dim_zero dim | e # _ \<Rightarrow> se_position e)"

function search_backward_loop ::
  "('s, 'd) dimension_ops \<Rightarrow> ('s \<Rightarrow> bool) \<Rightarrow> bool \<Rightarrow> ('a, 's, 'd) StackEntry list \<Rightarrow> 'd \<Rightarrow>
   (('a, 's, 'd) StackEntry list \<times> 'd) option" where
  "search_backward_loop dim filter_node descending [] position = Some ([], position)"
| "search_backward_loop dim filter_node descending (entry # st) position =
     (if \<not> descending \<and> se_index entry = 0
      then search_backward_loop dim filter_node descending st (stack_base dim st)
      else
        let index = (if descending then se_index entry else se_index entry - 1);
            position' = foldl (dim_add dim) (stack_base dim st) (take index (child_summaries (se_tree entry)));
            entry' = entry\<lparr>se_index := index, se_position := position'\<rparr>
        in (case list_get (child_summaries (se_tree entry)) index of
              None \<Rightarrow> None
            | Some s \<Rightarrow>
                (case se_tree entry of
                   Internal _ _ _ cts \<Rightarrow>
                     (if filter_node s then do {
                        tree \<leftarrow> list_get cts index;
                        (if child_summaries tree = [] then None
                         else do {
                           st' \<leftarrow> push_stack (entry' # st) \<lparr>se_tree = tree,
                             se_index = length (child_summaries tree) - 1, se_position = dim_zero dim\<rparr>;
                           search_backward_loop dim filter_node True st' position'
                         })
                      } else search_backward_loop dim filter_node False (entry' # st) position')
                 | Leaf _ _ _ \<Rightarrow>
                     (if filter_node s then Some (entry' # st, position')
                      else search_backward_loop dim filter_node False (entry' # st) position'))))"
  by pat_completeness auto
termination
proof (relation "measure (\<lambda>(dim, filt, descending, st, position). back_stack_weight descending st)", goal_cases)
  case 3
  then show ?case
    by (auto simp: push_stack_def simp del: back_stack_weight.simps split: if_splits
        dest: list_get_subtrees intro!: back_weight_descend)
qed (auto intro: back_weight_pop back_weight_left simp del: back_stack_weight.simps)

declare search_backward_loop.simps(2) [simp del]

definition search_backward ::
  "('s, 'd) dimension_ops \<Rightarrow> ('s \<Rightarrow> bool) \<Rightarrow> ('a, 's, 'd) Cursor \<Rightarrow> ('a, 's, 'd) Cursor option" where
  "search_backward dim filter_node c = do {
     (st, position, at_end) \<leftarrow>
       (if \<not> c_did_seek c \<or> c_at_end c
        then (if is_empty (c_tree c) then Some (c_stack c, dim_zero dim, True)
              else map_option (\<lambda>st. (st, dim_zero dim, False))
                (push_stack (c_stack c) \<lparr>se_tree = c_tree c,
                   se_index = length (child_summaries (c_tree c)),
                   se_position = from_summary_dim dim (summary (c_tree c))\<rparr>))
        else Some (c_stack c, c_position c, c_at_end c));
     (st', position') \<leftarrow> search_backward_loop dim filter_node False st position;
     Some (c\<lparr>c_did_seek := True, c_stack := st', c_position := position', c_at_end := at_end\<rparr>)
   }"

definition cursor_prev :: "('s, 'd) dimension_ops \<Rightarrow> ('a, 's, 'd) Cursor \<Rightarrow> ('a, 's, 'd) Cursor option" where
  "cursor_prev dim c = search_backward dim (\<lambda>_. True) c"

section \<open>The loop finds the last accepted item to the left\<close>

fun back_ready ::
  "('s, 'd) dimension_ops \<Rightarrow> ('a \<Rightarrow> 's) \<Rightarrow> ('a, 's) Tree \<Rightarrow> bool \<Rightarrow> ('a, 's, 'd) StackEntry list \<Rightarrow> bool" where
  "back_ready dim f root d [] \<longleftrightarrow> True"
| "back_ready dim f root d (e # st) \<longleftrightarrow>
     path_ok dim f root st (se_tree e) \<and> se_index e + (if d then 1 else 0) \<le> node_length (se_tree e)"

text \<open>The items the loop has still to look at, and the two ways it ends.\<close>

fun back_list :: "bool \<Rightarrow> ('a, 's, 'd) StackEntry list \<Rightarrow> 'a list" where
  "back_list d [] = []"
| "back_list d (e # st) = stack_before st @ entry_before (e\<lparr>se_index := se_index e + (if d then 1 else 0)\<rparr>)"

lemma back_list_False: "back_list False st = stack_before st"
  by (cases st) simp_all

lemma path_back_ready: "path_ok dim f root st t \<Longrightarrow> back_ready dim f root False st"
  by (cases st; cases "se_tree (hd st)") auto

context dimension_algebra
begin

definition back_done :: "('a, 's) Tree \<Rightarrow> ('s \<Rightarrow> bool) \<Rightarrow> 'a list \<Rightarrow> ('a, 's, 'd) StackEntry list \<times> 'd \<Rightarrow> bool" where
  "back_done root filt bs r \<longleftrightarrow>
     (\<exists>pre y ws. bs = pre @ y # ws \<and> \<not> rejected ops filt y \<and> (\<forall>w \<in> set ws. rejected ops filt w) \<and>
        at_item dim (item_summary ops) root (fst r) \<and> stack_before (fst r) = pre \<and> snd r = adv (dim_zero dim) pre) \<or>
     (\<forall>x \<in> set bs. rejected ops filt x) \<and> r = ([], dim_zero dim)"

lemma back_done_rejected:
  assumes "back_done root filt bs r" "\<forall>w \<in> set zs. rejected ops filt w"
  shows "back_done root filt (bs @ zs) r"
proof (cases "\<forall>x \<in> set bs. rejected ops filt x")
  case True
  with assms show ?thesis unfolding back_done_def by auto
next
  case False
  then obtain pre y ws where "bs = pre @ y # ws" "\<not> rejected ops filt y" "\<forall>w \<in> set ws. rejected ops filt w"
    "at_item dim (item_summary ops) root (fst r)" "stack_before (fst r) = pre" "snd r = adv (dim_zero dim) pre"
    using assms(1) unfolding back_done_def by blast
  with assms(2) show ?thesis
    unfolding back_done_def by (intro disjI1 exI [of _ pre] exI [of _ y] exI [of _ "ws @ zs"]) auto
qed

lemma foldl_dim_items: "foldl (dim_add dim) p (map (item_summary ops) xs) = adv p xs"
  by (induction xs arbitrary: p) auto

lemma foldl_dim_children:
  "list_all (child_ok ops h) ts \<Longrightarrow> foldl (dim_add dim) p (map summary ts) = adv p (concat (map flatten ts))"
  by (induction ts arbitrary: p) (auto simp: dim_add_child)

lemma stack_base_ok: "path root st t \<Longrightarrow> stack_base dim st = adv (dim_zero dim) (stack_before st)"
  by (cases st) (simp_all add: stack_base_def)

text \<open>The position recomputed in a round is that of the child at the new index.\<close>

lemma back_position:
  assumes "wf_tree ops root" "path root st (se_tree e)"
  shows "foldl (dim_add dim) (stack_base dim st) (take i (child_summaries (se_tree e))) =
    adv (dim_zero dim) (stack_before (e\<lparr>se_index := i, se_position := p\<rparr> # st))"
proof (cases "se_tree e")
  case (Leaf s xs ss)
  with path_ok_subtree [OF assms] show ?thesis
    by (simp add: entry_before.simps take_map foldl_dim_items stack_base_ok [OF assms(2)])
next
  case (Internal h s css cts)
  note inner = path_ok_Internal [OF assms(1) assms(2) [unfolded Internal]]
  have "list_all (child_ok ops (h - 1)) (take i cts)"
    using inner(2) by (auto simp: list_all_iff dest: in_set_takeD)
  from foldl_dim_children [OF this] show ?thesis
    by (simp add: Internal entry_before.simps inner(1) take_map stack_base_ok [OF assms(2)])
qed

lemma back_correct_leaf:
  assumes e: "se_tree e = Leaf s xs ss" and root: "wf_tree ops root" and path: "path root st (se_tree e)"
    and n: "d \<or> 0 < se_index e" "se_index e + (if d then 1 else 0) \<le> length xs"
    and IH: "\<And>st' pos'. back_stack_weight False st' < back_stack_weight d (e # st) \<Longrightarrow>
      back_ready dim (item_summary ops) root False st' \<Longrightarrow> st' \<noteq> [] \<Longrightarrow>
      \<exists>r. search_backward_loop dim filt False st' pos' = Some r \<and> back_done root filt (back_list False st') r"
  shows "\<exists>r. search_backward_loop dim filt d (e # st) pos = Some r \<and> back_done root filt (back_list d (e # st)) r"
proof -
  define i where "i = (if d then se_index e else se_index e - 1)"
  have i: "se_index e + (if d then 1 else 0) = Suc i" "i < length xs" using n by (auto simp: i_def)
  have ss: "ss = map (item_summary ops) xs" using path_ok_subtree [OF root path] e by simp
  let ?p = "adv (dim_zero dim) (stack_before st @ take i xs)"
  let ?e = "e\<lparr>se_index := i, se_position := ?p\<rparr>"
  have p: "foldl (dim_add dim) (stack_base dim st) (take i ss) = ?p"
    using back_position [OF root path, of i] by (simp add: e entry_before.simps)
  have before: "stack_before (?e # st) = stack_before st @ take i xs" by (simp add: e entry_before.simps)
  have bl: "back_list d (e # st) = (stack_before st @ take i xs) @ [xs ! i]"
    using i(2) by (simp add: i(1) e entry_before.simps take_Suc_conv_app_nth)
  show ?thesis
  proof (cases "filt (item_summary ops (xs ! i))")
    case True
    then have "search_backward_loop dim filt d (e # st) pos = Some (?e # st, ?p)"
      using n i p by (auto simp: search_backward_loop.simps(2) e ss list_get_def Let_def simp flip: i_def)
    moreover have "back_done root filt (back_list d (e # st)) (?e # st, ?p)"
      unfolding bl back_done_def using True path i(2)
      by (intro disjI1 exI [of _ "stack_before st @ take i xs"] exI [of _ "xs ! i"] exI [of _ "[]"])
        (simp add: rejected_def e entry_before.simps)
    ultimately show ?thesis by blast
  next
    case False
    then have "search_backward_loop dim filt d (e # st) pos = search_backward_loop dim filt False (?e # st) ?p"
      using n i p by (auto simp: search_backward_loop.simps(2) [of _ _ d e] e ss list_get_def Let_def simp flip: i_def)
    moreover have w: "back_stack_weight False (?e # st) < back_stack_weight d (e # st)"
      by (rule back_weight_left) (use n(1) in \<open>simp_all add: i_def\<close>)
    have rd: "back_ready dim (item_summary ops) root False (?e # st)" using path i(2) by (simp add: e)
    obtain r where "search_backward_loop dim filt False (?e # st) ?p = Some r"
      "back_done root filt (stack_before (?e # st)) r"
      using IH [OF w rd, of ?p] unfolding back_list_False by blast
    ultimately show ?thesis
      using back_done_rejected [of root filt "stack_before (?e # st)" r "[xs ! i]"] False
      unfolding bl before by (auto simp: rejected_def)
  qed
qed

lemma back_correct_internal:
  assumes e: "se_tree e = Internal h s css cts" and root: "wf_tree ops root" "height root < 16"
    and filt: "filter_mono ops filt" and path: "path root st (se_tree e)"
    and n: "d \<or> 0 < se_index e" "se_index e + (if d then 1 else 0) \<le> length cts"
    and IH: "\<And>d' st' pos'. back_stack_weight d' st' < back_stack_weight d (e # st) \<Longrightarrow>
      back_ready dim (item_summary ops) root d' st' \<Longrightarrow> st' \<noteq> [] \<Longrightarrow>
      \<exists>r. search_backward_loop dim filt d' st' pos' = Some r \<and> back_done root filt (back_list d' st') r"
  shows "\<exists>r. search_backward_loop dim filt d (e # st) pos = Some r \<and> back_done root filt (back_list d (e # st)) r"
proof -
  define i where "i = (if d then se_index e else se_index e - 1)"
  have i: "se_index e + (if d then 1 else 0) = Suc i" "i < length cts" using n by (auto simp: i_def)
  note inner = path_ok_Internal [OF root(1) path [unfolded e]]
  have cap: "length (e # st) < 16" using inner(3,4) root(2) by simp
  let ?t = "cts ! i"
  have t: "child_ok ops (h - 1) ?t" using inner(2) i(2) by (simp add: list_all_length)
  define p where "p = adv (dim_zero dim) (stack_before st @ concat (map flatten (take i cts)))"
  define e' where "e' = e\<lparr>se_index := i, se_position := p\<rparr>"
  have p: "foldl (dim_add dim) (stack_base dim st) (take i css) = p"
    using back_position [OF root(1) path, of i] by (simp add: e entry_before.simps p_def)
  have before: "stack_before (e' # st) = stack_before st @ concat (map flatten (take i cts))"
    by (simp add: e e'_def entry_before.simps)
  have bl: "back_list d (e # st) = stack_before (e' # st) @ flatten ?t"
    using i(2) unfolding before by (simp add: i(1) e entry_before.simps take_Suc_conv_app_nth)
  show ?thesis
  proof (cases "filt (summary ?t)")
    case True
    define c where "c = \<lparr>se_tree = ?t, se_index = length (child_summaries ?t) - 1, se_position = dim_zero dim\<rparr>"
    have ne: "child_summaries ?t \<noteq> []" and len: "length (child_summaries ?t) = node_length ?t"
      using t by (cases ?t; auto simp: child_ok_def)+
    have run: "search_backward_loop dim filt d (e # st) pos = search_backward_loop dim filt True (c # e' # st) p"
      using n i p True ne cap
      by (auto simp: search_backward_loop.simps(2) [of _ _ d e] e inner(1) list_get_def Let_def push_stack_def c_def e'_def
          simp flip: i_def)
    have "path root (e' # st) ?t"
      using path i(2) p by (simp add: e'_def e p_def entry_before.simps)
    then have "back_ready dim (item_summary ops) root True (c # e' # st)"
      using ne len by (simp add: c_def Suc_le_eq flip: length_greater_0_conv)
    moreover have "back_stack_weight True (c # e' # st) < back_stack_weight d (e # st)"
      by (rule back_weight_descend) (use n i ne in \<open>simp_all add: c_def e'_def e i_def\<close>)
    moreover have "back_list True (c # e' # st) = back_list d (e # st)"
      using ne len unfolding bl by (cases ?t) (auto simp: c_def entry_before.simps)
    ultimately show ?thesis
      using IH [of True "c # e' # st" p] run by simp
  next
    case False
    then have "search_backward_loop dim filt d (e # st) pos = search_backward_loop dim filt False (e' # st) p"
      using n i p by (auto simp: search_backward_loop.simps(2) [of _ _ d e] e inner(1) list_get_def Let_def e'_def
          simp flip: i_def)
    moreover have w: "back_stack_weight False (e' # st) < back_stack_weight d (e # st)"
      by (rule back_weight_left) (use n(1) in \<open>simp_all add: i_def e'_def\<close>)
    have rd: "back_ready dim (item_summary ops) root False (e' # st)" using path i(2) by (simp add: e e'_def)
    obtain r where "search_backward_loop dim filt False (e' # st) p = Some r"
      "back_done root filt (stack_before (e' # st)) r"
      using IH [OF w rd, of p] unfolding back_list_False by blast
    moreover have "\<forall>x \<in> set (flatten ?t). rejected ops filt x"
      using filt False child_ok_summary [OF t] child_ok_flatten [OF t] by (auto simp: filter_mono_def rejected_def)
    ultimately show ?thesis
      using back_done_rejected unfolding bl by metis
  qed
qed

lemma search_backward_loop_ok:
  assumes "wf_tree ops root" "height root < 16" "filter_mono ops filt"
    and "back_ready dim (item_summary ops) root d st" "st = [] \<longrightarrow> pos = dim_zero dim"
  shows "\<exists>r. search_backward_loop dim filt d st pos = Some r \<and> back_done root filt (back_list d st) r"
  using assms(4,5)
proof (induction "back_stack_weight d st" arbitrary: d st pos rule: less_induct)
  case less
  show ?case
  proof (cases st)
    case Nil
    with less.prems show ?thesis by (simp add: back_done_def)
  next
    case (Cons e st0)
    have path: "path root st0 (se_tree e)" and n: "se_index e + (if d then 1 else 0) \<le> node_length (se_tree e)"
      using less.prems(1) by (simp_all add: Cons)
    have IH: "\<And>d' st' pos'. back_stack_weight d' st' < back_stack_weight d (e # st0) \<Longrightarrow>
      back_ready dim (item_summary ops) root d' st' \<Longrightarrow> st' \<noteq> [] \<Longrightarrow>
      \<exists>r. search_backward_loop dim filt d' st' pos' = Some r \<and> back_done root filt (back_list d' st') r"
      using less.hyps unfolding Cons by blast
    show ?thesis
    proof (cases "d \<or> 0 < se_index e")
      case True
      show ?thesis
      proof (cases "se_tree e")
        case (Leaf s xs ss)
        show ?thesis unfolding Cons
          by (rule back_correct_leaf [OF Leaf assms(1) path True _ IH]) (use n Leaf in simp_all)
      next
        case (Internal h s css cts)
        show ?thesis unfolding Cons
          by (rule back_correct_internal [OF Internal assms(1-3) path True _ IH]) (use n Internal in simp_all)
      qed
    next
      case False
      have "back_list d (e # st0) = back_list d st0"
        using False by (cases "se_tree e") (simp_all add: back_list_False entry_before.simps)
      moreover have "search_backward_loop dim filt d (e # st0) pos = search_backward_loop dim filt d st0 (stack_base dim st0)"
        using False by (simp add: search_backward_loop.simps(2))
      moreover have "st0 = [] \<longrightarrow> stack_base dim st0 = dim_zero dim" by (simp add: stack_base_def)
      ultimately show ?thesis
        using less.hyps [of d st0 "stack_base dim st0"] path_back_ready [OF path] back_weight_pop [of st0 d e] False
        by (simp add: Cons del: back_stack_weight.simps)
    qed
  qed
qed

text \<open>The cursor either stops at the last accepted item before it or is rewound to the start.\<close>

definition stepped_back :: "('s \<Rightarrow> bool) \<Rightarrow> ('a, 's, 'd) Cursor \<Rightarrow> 'a list \<Rightarrow> 'a list \<Rightarrow> bool" where
  "stepped_back filt c before after \<longleftrightarrow>
     (\<exists>pre y ws. before = pre @ y # ws \<and> \<not> rejected ops filt y \<and> (\<forall>w \<in> set ws. rejected ops filt w) \<and>
        cursor_at ops dim c pre (y # ws @ after)) \<or>
     (\<forall>x \<in> set before. rejected ops filt x) \<and> cursor_rewound c"

lemma search_backward_cursor:
  assumes root: "wf_tree ops (c_tree c)" "height (c_tree c) < 16" and filt: "filter_mono ops filt"
    and ready: "back_ready dim (item_summary ops) (c_tree c) False st" "st \<noteq> []" "stack_before st = before"
    and split: "flatten (c_tree c) = before @ after" "flatten (c_tree c) \<noteq> []"
    and run: "search_backward dim filt c = do {
      (st', position) \<leftarrow> search_backward_loop dim filt False st p;
      Some (c\<lparr>c_did_seek := True, c_stack := st', c_position := position, c_at_end := False\<rparr>) }"
  shows "\<exists>c'. search_backward dim filt c = Some c' \<and> c_tree c' = c_tree c \<and> stepped_back filt c' before after"
proof -
  obtain st' p' where r: "search_backward_loop dim filt False st p = Some (st', p')"
    "back_done (c_tree c) filt before (st', p')"
    using search_backward_loop_ok [OF root filt ready(1), of p] ready(2,3) by (auto simp: back_list_False)
  define c' where "c' = c\<lparr>c_did_seek := True, c_stack := st', c_position := p', c_at_end := False\<rparr>"
  have "stepped_back filt c' before after"
    using r(2) unfolding back_done_def fst_conv snd_conv
  proof (elim disjE exE conjE)
    fix pre y ws
    assume *: "before = pre @ y # ws" "\<not> rejected ops filt y" "\<forall>w \<in> set ws. rejected ops filt w"
      "at_item dim (item_summary ops) (c_tree c) st'" "stack_before st' = pre" "p' = adv (dim_zero dim) pre"
    then have "cursor_at ops dim c' pre (y # ws @ after)"
      using split(1) by (simp add: cursor_at_def c'_def)
    with * show ?thesis unfolding stepped_back_def by blast
  next
    assume "\<forall>x \<in> set before. rejected ops filt x" "(st', p') = ([], dim_zero dim)"
    with split(2) show ?thesis by (simp add: stepped_back_def cursor_rewound_def c'_def)
  qed
  with r(1) run show ?thesis by (intro exI [of _ c']) (simp add: c'_def)
qed

lemma search_backward_ok:
  assumes root: "wf_tree ops (c_tree c)" "height (c_tree c) < 16" and filt: "filter_mono ops filt"
    and c: "cursor_at ops dim c before after \<or> cursor_fresh dim c \<and> before = flatten (c_tree c) \<and> after = []"
    and ne: "flatten (c_tree c) \<noteq> []"
  shows "\<exists>c'. search_backward dim filt c = Some c' \<and> c_tree c' = c_tree c \<and> stepped_back filt c' before after"
proof (cases "after = []")
  case True
  let ?root = "\<lparr>se_tree = c_tree c, se_index = length (child_summaries (c_tree c)),
    se_position = from_summary_dim dim (summary (c_tree c))\<rparr>"
  have "c_stack c = []" "flatten (c_tree c) = before @ after" "\<not> c_did_seek c \<or> c_at_end c"
    using c True by (auto simp: cursor_at_def cursor_fresh_def)
  moreover have "\<not> is_empty (c_tree c)" using is_empty_flatten [OF root(1)] ne by simp
  moreover have "length (child_summaries (c_tree c)) = node_length (c_tree c)"
    using root(1) by (cases "c_tree c") auto
  moreover from this have "stack_before [?root] = flatten (c_tree c)"
    by (cases "c_tree c") (simp_all add: entry_before.simps)
  ultimately show ?thesis
    using True ne by (intro search_backward_cursor [OF root filt, of "[?root]"])
      (simp_all add: search_backward_def push_stack_def)
next
  case False
  with c have at: "c_did_seek c" "\<not> c_at_end c" "at_item dim (item_summary ops) (c_tree c) (c_stack c)"
    "stack_before (c_stack c) = before" "flatten (c_tree c) = before @ after"
    by (auto simp: cursor_at_def)
  have "back_ready dim (item_summary ops) (c_tree c) False (c_stack c)" "c_stack c \<noteq> []"
    using at(3) by (cases "c_stack c"; simp)+
  with at ne show ?thesis
    by (intro search_backward_cursor [OF root filt, of "c_stack c"]) (simp_all add: search_backward_def)
qed

lemma search_backward_rewound: "cursor_rewound c \<Longrightarrow> search_backward dim filt c = Some c"
  by (simp add: cursor_rewound_def search_backward_def)

end

section \<open>Properties\<close>

text \<open>\<open>prev\<close> and \<open>search_backward\<close> move the cursor to the nearest item before it that the
  filter accepts, with the position of that item, and rewind it to the start when there is
  none; \<open>next\<close> after \<open>prev\<close> returns to the item the cursor was at.\<close>

lemma cursor_steps_backward:
  assumes "dimension_algebra ops dim" and "wf_tree ops (c_tree c)" and "height (c_tree c) < 16"
    and "cursor_at ops dim c (before @ y # rejects) after" and "filter_mono ops filt"
    and "filt (item_summary ops y)" and "list_all (\<lambda>x. \<not> filt (item_summary ops x)) rejects"
  shows "(\<exists>c'. search_backward dim filt c = Some c' \<and> cursor_at ops dim c' before (y # rejects @ after) \<and>
      cursor_item c' = Some (Some y)) \<and>
    (rejects = [] \<longrightarrow> (\<exists>c' c''. cursor_prev dim c = Some c' \<and> cursor_next dim c' = Some c'' \<and>
      cursor_at ops dim c'' (before @ [y]) after \<and> c_position c'' = c_position c))"
proof -
  note dim = assms(1) and wf = assms(2) and h = assms(3) and at = assms(4)
  have ne: "flatten (c_tree c) \<noteq> []" using at by (simp add: cursor_at_def)
  have unique: "pre = before \<and> y' = y \<and> ws = rejects"
    if "before @ y # rejects = pre @ y' # ws" "\<not> rejected ops filt y'" "\<forall>w \<in> set ws. rejected ops filt w" for pre y' ws
  proof -
    have "takeWhile (rejected ops filt) (rev (pre @ y' # ws)) = rev ws"
      "takeWhile (rejected ops filt) (rev (before @ y # rejects)) = rev rejects"
      using that(2,3) assms(6,7) by (auto simp: takeWhile_append rejected_def list_all_iff)
    with that(1) show ?thesis by simp
  qed
  obtain c1 where c1: "search_backward dim filt c = Some c1" "c_tree c1 = c_tree c"
    "dimension_algebra.stepped_back ops dim filt c1 (before @ y # rejects) after"
    using dimension_algebra.search_backward_ok [OF dim wf h assms(5) _ ne] at by blast
  have at1: "cursor_at ops dim c1 before (y # rejects @ after)"
    using c1(3) unique assms(6) unfolding dimension_algebra.stepped_back_def [OF dim]
    by (auto simp: rejected_def)
  moreover have "cursor_item c1 = Some (Some y)"
    using dimension_algebra.cursor_item_ok(1) [OF dim _ at1] wf c1(2) by (simp add: list_first_def)
  moreover have "\<exists>c' c''. cursor_prev dim c = Some c' \<and> cursor_next dim c' = Some c'' \<and>
      cursor_at ops dim c'' (before @ [y]) after \<and> c_position c'' = c_position c" if none: "rejects = []"
  proof -
    obtain c2 where c2: "cursor_prev dim c = Some c2" "c_tree c2 = c_tree c"
      "dimension_algebra.stepped_back ops dim (\<lambda>_. True) c2 (before @ [y]) after"
      using dimension_algebra.search_backward_ok [OF dim wf h filter_mono_True _ ne, of "before @ [y]" after] at none
      unfolding cursor_prev_def by auto
    have at2: "cursor_at ops dim c2 before (y # after)"
      using c2(3) unfolding dimension_algebra.stepped_back_def [OF dim]
      by (auto simp: rejected_True append_eq_append_conv2 Cons_eq_append_conv)
    obtain c3 where "cursor_next dim c2 = Some c3" "cursor_at ops dim c3 (before @ [y]) after"
      using dimension_algebra.search_forward_ok [OF dim _ _ filter_mono_True at2] wf h c2(2)
      by (auto simp: cursor_next_def rejected_True takeWhile_False)
    with c2(1) at none show ?thesis by (auto simp: cursor_at_def)
  qed
  ultimately show ?thesis using c1(1) at1 by blast
qed

end
