(* ===== verification/SumTree_Keyed.thy ===== *)
theory SumTree_Keyed
  imports Cursor_Back "HOL-Library.Multiset"
begin

text \<open>
  Trees of keyed items (\<open>impl<T: KeyedItem> SumTree<T>\<close> of
  \<open>crates/sum_tree/src/sum_tree.rs\<close>): insertion, removal, batched edits and lookup by key,
  all of them written with a cursor over the key dimension, and the ordered finite map they
  implement.
\<close>

section \<open>Operations\<close>

text \<open>\<open>Edit::key\<close>; the key of an item is a parameter, as \<open>KeyedItem\<close> is a trait.\<close>

datatype ('a, 'k) Edit = Insert 'a | Remove 'k

fun edit_key :: "('a \<Rightarrow> 'k) \<Rightarrow> ('a, 'k) Edit \<Rightarrow> 'k" where
  "edit_key key (Insert item) = key item"
| "edit_key key (Remove k) = k"

text \<open>If the item under the cursor has this key, step over it and return it.\<close>

definition take_equal ::
  "('s, 'k) dimension_ops \<Rightarrow> ('a \<Rightarrow> 'k) \<Rightarrow> 'k \<Rightarrow> ('a, 's, 'k) Cursor \<Rightarrow> (('a, 's, 'k) Cursor \<times> 'a option) option" where
  "take_equal kdim key k c = do {
     res \<leftarrow> cursor_item c;
     (case res of
        Some x \<Rightarrow> if key x = k then do { c' \<leftarrow> cursor_next kdim c; Some (c', Some x) } else Some (c, None)
      | None \<Rightarrow> Some (c, None))
   }"

definition insert_or_replace ::
  "('a, 's) summary_ops \<Rightarrow> ('s, 'k::linorder) dimension_ops \<Rightarrow> ('a \<Rightarrow> 'k) \<Rightarrow> ('a, 's) Tree \<Rightarrow> 'a \<Rightarrow>
   (('a, 's) Tree \<times> 'a option) option" where
  "insert_or_replace ops kdim key t item = do {
     (c1, acc) \<leftarrow> cursor_slice ops kdim (cursor_new kdim t) (cmp (key item)) Bias.Left;
     (c2, replaced) \<leftarrow> take_equal kdim key (key item) c1;
     acc \<leftarrow> push ops acc item;
     (_, suffix) \<leftarrow> cursor_suffix ops kdim c2;
     acc \<leftarrow> append_tree ops acc suffix;
     Some (acc, replaced)
   }"

definition tree_remove ::
  "('a, 's) summary_ops \<Rightarrow> ('s, 'k::linorder) dimension_ops \<Rightarrow> ('a \<Rightarrow> 'k) \<Rightarrow> ('a, 's) Tree \<Rightarrow> 'k \<Rightarrow>
   (('a, 's) Tree \<times> 'a option) option" where
  "tree_remove ops kdim key t k = do {
     (c1, acc) \<leftarrow> cursor_slice ops kdim (cursor_new kdim t) (cmp k) Bias.Left;
     (c2, removed) \<leftarrow> take_equal kdim key k c1;
     (_, suffix) \<leftarrow> cursor_suffix ops kdim c2;
     acc \<leftarrow> append_tree ops acc suffix;
     Some (acc, removed)
   }"

text \<open>When the item under the cursor is before the key of the edit: flush the buffer and move
  everything before that key to the new tree.\<close>

definition edit_advance ::
  "('a, 's) summary_ops \<Rightarrow> ('s, 'k::linorder) dimension_ops \<Rightarrow> ('a \<Rightarrow> 'k) \<Rightarrow> 'k \<Rightarrow> 'a option \<Rightarrow>
   ('a, 's, 'k) Cursor \<Rightarrow> ('a, 's) Tree \<Rightarrow> 'a list \<Rightarrow> (('a, 's, 'k) Cursor \<times> ('a, 's) Tree \<times> 'a list) option" where
  "edit_advance ops kdim key new_key old_item c acc buffered =
     (if (case old_item of Some x \<Rightarrow> key x < new_key | None \<Rightarrow> False) then do {
        acc2 \<leftarrow> tree_extend ops acc buffered;
        (c', slice) \<leftarrow> cursor_slice ops kdim c (cmp new_key) Bias.Left;
        acc3 \<leftarrow> append_tree ops acc2 slice;
        Some (c', acc3, [])
      } else Some (c, acc, buffered))"

text \<open>The loop of \<open>edit\<close> over the sorted edits: cursor, new tree, buffered items and removed
  items.\<close>

fun edit_loop ::
  "('a, 's) summary_ops \<Rightarrow> ('s, 'k::linorder) dimension_ops \<Rightarrow> ('a \<Rightarrow> 'k) \<Rightarrow> ('a, 'k) Edit list \<Rightarrow>
   ('a, 's, 'k) Cursor \<Rightarrow> ('a, 's) Tree \<Rightarrow> 'a list \<Rightarrow> 'a list \<Rightarrow>
   (('a, 's, 'k) Cursor \<times> ('a, 's) Tree \<times> 'a list \<times> 'a list) option" where
  "edit_loop ops kdim key [] c acc buffered removed = Some (c, acc, buffered, removed)"
| "edit_loop ops kdim key (e # edits) c acc buffered removed = do {
     old_item \<leftarrow> cursor_item c;
     (c1, acc1, buffered1) \<leftarrow> edit_advance ops kdim key (edit_key key e) old_item c acc buffered;
     (c2, old) \<leftarrow> take_equal kdim key (edit_key key e) c1;
     edit_loop ops kdim key edits c2 acc1
       (case e of Insert item \<Rightarrow> buffered1 @ [item] | Remove _ \<Rightarrow> buffered1)
       (case old of Some x \<Rightarrow> removed @ [x] | None \<Rightarrow> removed)
   }"

text \<open>\<open>edit\<close> after its sort.  The sort is unstable in the source: edits of equal keys may come in any
  order.  \<open>edit_sorted\<close> takes the sorted edits, whatever that order is; \<open>tree_edit\<close>, which the other
  components call, keeps them in the order given.\<close>

definition edit_sorted ::
  "('a, 's) summary_ops \<Rightarrow> ('s, 'k::linorder) dimension_ops \<Rightarrow> ('a \<Rightarrow> 'k) \<Rightarrow> ('a, 's) Tree \<Rightarrow>
   ('a, 'k) Edit list \<Rightarrow> (('a, 's) Tree \<times> 'a list) option" where
  "edit_sorted ops kdim key t sorted_edits = do {
     (c, _) \<leftarrow> cursor_seek kdim (cursor_new kdim t) (cmp (dim_zero kdim)) Bias.Left;
     (c', acc, buffered, removed) \<leftarrow> edit_loop ops kdim key sorted_edits c (new_tree ops) [] [];
     acc \<leftarrow> tree_extend ops acc buffered;
     (_, suffix) \<leftarrow> cursor_suffix ops kdim c';
     acc \<leftarrow> append_tree ops acc suffix;
     Some (acc, removed)
   }"

definition tree_edit ::
  "('a, 's) summary_ops \<Rightarrow> ('s, 'k::linorder) dimension_ops \<Rightarrow> ('a \<Rightarrow> 'k) \<Rightarrow> ('a, 's) Tree \<Rightarrow>
   ('a, 'k) Edit list \<Rightarrow> (('a, 's) Tree \<times> 'a list) option" where
  "tree_edit ops kdim key t edits =
     (if edits = [] then Some (t, []) else edit_sorted ops kdim key t (sort_key (edit_key key) edits))"

definition tree_get :: "('s, 'k::linorder) dimension_ops \<Rightarrow> ('a, 's) Tree \<Rightarrow> 'k \<Rightarrow> 'a option" where
  "tree_get kdim t k = snd (snd (tree_find_exact kdim t (cmp k) Bias.Left))"

section \<open>Reference: sorted lists and maps\<close>

definition keys_sorted :: "('a \<Rightarrow> 'k::linorder) \<Rightarrow> 'a list \<Rightarrow> bool" where
  "keys_sorted key xs \<longleftrightarrow> sorted_wrt (<) (map key xs)"

definition key_map :: "('a \<Rightarrow> 'k) \<Rightarrow> 'a list \<Rightarrow> 'k \<Rightarrow> 'a option" where
  "key_map key xs = map_of (map (\<lambda>x. (key x, x)) xs)"

abbreviation below :: "('a \<Rightarrow> 'k::linorder) \<Rightarrow> 'k \<Rightarrow> 'a list \<Rightarrow> 'a list" where
  "below key k xs \<equiv> takeWhile (\<lambda>x. key x < k) xs"

abbreviation from_key :: "('a \<Rightarrow> 'k::linorder) \<Rightarrow> 'k \<Rightarrow> 'a list \<Rightarrow> 'a list" where
  "from_key key k xs \<equiv> dropWhile (\<lambda>x. key x < k) xs"

definition drop_equal :: "('a \<Rightarrow> 'k) \<Rightarrow> 'k \<Rightarrow> 'a list \<Rightarrow> 'a list" where
  "drop_equal key k xs = (case xs of x # ys \<Rightarrow> if key x = k then ys else xs | [] \<Rightarrow> [])"

definition first_equal :: "('a \<Rightarrow> 'k) \<Rightarrow> 'k \<Rightarrow> 'a list \<Rightarrow> 'a option" where
  "first_equal key k xs = (case xs of x # ys \<Rightarrow> if key x = k then Some x else None | [] \<Rightarrow> None)"

lemma keys_sorted_simps [simp]:
  "keys_sorted key []"
  "keys_sorted key (x # xs) \<longleftrightarrow> (\<forall>y \<in> set xs. key x < key y) \<and> keys_sorted key xs"
  "keys_sorted key (xs @ ys) \<longleftrightarrow>
     keys_sorted key xs \<and> keys_sorted key ys \<and> (\<forall>x \<in> set xs. \<forall>y \<in> set ys. key x < key y)"
  by (auto simp: keys_sorted_def sorted_wrt_append)

lemma key_map_simps [simp]:
  "key_map key [] = Map.empty"
  "key_map key (x # xs) = (key_map key xs)(key x \<mapsto> x)"
  "key_map key (xs @ ys) = key_map key ys ++ key_map key xs"
  by (simp_all add: key_map_def)

lemma key_map_None: "key_map key xs k = None \<longleftrightarrow> k \<notin> key ` set xs"
  by (simp add: key_map_def map_of_eq_None_iff image_image)

lemma keys_sorted_dropWhile: "keys_sorted key xs \<Longrightarrow> keys_sorted key (dropWhile P xs)"
  by (induction xs) auto

lemma keys_sorted_takeWhile: "keys_sorted key xs \<Longrightarrow> keys_sorted key (takeWhile P xs)"
  by (induction xs) (auto dest: set_takeWhileD)

lemma from_key_ge: "keys_sorted key xs \<Longrightarrow> y \<in> set (from_key key k xs) \<Longrightarrow> k \<le> key y"
  by (induction xs) (auto split: if_splits)

lemma below_less: "y \<in> set (below key k xs) \<Longrightarrow> key y < k"
  by (auto dest: set_takeWhileD)

lemma drop_equal_props:
  assumes "keys_sorted key xs"
  shows "keys_sorted key (drop_equal key k xs)" "set (drop_equal key k xs) \<subseteq> set xs"
    and "\<forall>y \<in> set xs. k \<le> key y \<Longrightarrow> \<forall>y \<in> set (drop_equal key k xs). k < key y"
proof -
  show "keys_sorted key (drop_equal key k xs)" "set (drop_equal key k xs) \<subseteq> set xs"
    using assms by (cases xs; auto simp: drop_equal_def)+
  show "\<forall>y \<in> set (drop_equal key k xs). k < key y" if "\<forall>y \<in> set xs. k \<le> key y"
    using assms that by (cases xs) (auto simp: drop_equal_def dest: order.strict_trans1)
qed

text \<open>The split of a sorted list around a key, in terms of its map.\<close>

lemma first_equal_map:
  assumes "keys_sorted key xs"
  shows "first_equal key k (from_key key k xs) = key_map key xs k"
  using assms
proof (induction xs)
  case (Cons x xs)
  then have "key x = k \<or> k < key x \<Longrightarrow> key_map key xs k = None"
    by (auto simp: key_map_None)
  with Cons show ?case by (auto simp: first_equal_def)
qed (simp add: first_equal_def)

lemma key_map_split:
  assumes "keys_sorted key xs"
  shows "key_map key (below key k xs @ drop_equal key k (from_key key k xs)) = (key_map key xs)(k := None)"
proof
  fix j
  let ?b = "below key k xs" and ?f = "from_key key k xs"
  have b: "key_map key ?b k = None" using below_less by (fastforce simp: key_map_None)
  have g: "key_map key (drop_equal key k ?f) k = None"
    using drop_equal_props(3) [OF keys_sorted_dropWhile [OF assms, of "\<lambda>x. key x < k"], of k] from_key_ge [OF assms, of _ k]
    by (force simp: key_map_None)
  have "key_map key ys = (key_map key (drop_equal key k ys))(k := first_equal key k ys)"
    if "key_map key (drop_equal key k ys) k = None" for ys
    using that by (cases ys) (auto simp: drop_equal_def first_equal_def split: if_splits)
  note f = this [OF g]
  have "key_map key xs = key_map key ?f ++ key_map key ?b"
    by (metis key_map_simps(3) takeWhile_dropWhile_id)
  then show "key_map key (?b @ drop_equal key k ?f) j = ((key_map key xs)(k := None)) j"
    using b g by (cases "j = k") (simp_all add: f map_add_def split: option.split)
qed

section \<open>The contract of a keyed item\<close>

text \<open>The key is the position reached after the item from any position up to it, and no key is before
  the zero position.\<close>

locale keyed_tree = dimension_algebra ops kdim
  for ops :: "('a, 's) summary_ops" and kdim :: "('s, 'k::linorder) dimension_ops" +
  fixes key :: "'a \<Rightarrow> 'k"
  assumes key_position: "p \<le> key x \<Longrightarrow> dim_add kdim p (item_summary ops x) = key x"
    and zero_least: "dim_zero kdim \<le> key x"
begin

text \<open>Items with increasing keys from a position on.\<close>

abbreviation sorted_from :: "'k \<Rightarrow> 'a list \<Rightarrow> bool" where
  "sorted_from p xs \<equiv> keys_sorted key xs \<and> (\<forall>x \<in> set xs. p \<le> key x)"

lemma sorted_from_Cons: "sorted_from p (x # xs) \<Longrightarrow> sorted_from (key x) xs"
  by (auto simp: less_imp_le)

lemma sorted_from_zero: "keys_sorted key xs \<Longrightarrow> sorted_from (dim_zero kdim) xs"
  by (simp add: zero_least)

lemma positions_keys: "sorted_from p xs \<Longrightarrow> positions kdim (item_summary ops) p xs = map key xs"
proof (induction xs arbitrary: p)
  case (Cons x xs)
  then show ?case using Cons.IH [OF sorted_from_Cons [OF Cons.prems]] by (simp add: key_position Let_def)
qed simp

lemma adv_key: "sorted_from p xs \<Longrightarrow> adv p xs = (if xs = [] then p else key (last xs))"
proof (induction xs arbitrary: p)
  case (Cons x xs)
  then show ?case using Cons.IH [OF sorted_from_Cons [OF Cons.prems]] by (simp add: key_position)
qed simp

lemma passes_key: "passes (cmp k) Bias.Left p \<longleftrightarrow> p < k" "passes (cmp k) Bias.Right p \<longleftrightarrow> p \<le> k"
  by (auto simp: passes_def)

lemma monot_key: "sorted_from p xs \<Longrightarrow> monot (passes (cmp k) bias) p xs"
proof -
  assume "sorted_from p xs"
  then have "positions kdim (item_summary ops) p xs = map key xs" "keys_sorted key xs" using positions_keys by auto
  then show ?thesis unfolding seek_mono_def keys_sorted_def
    by (simp, elim sorted_wrt_mono_rel [rotated]) (cases bias; auto simp: passes_key)
qed

lemma scan_key:
  "sorted_from p xs \<Longrightarrow> scan (passes (cmp k) Bias.Left) p xs = (below key k xs, adv p (below key k xs), from_key key k xs)"
proof (induction xs arbitrary: p)
  case (Cons x xs)
  then show ?case using Cons.IH [OF sorted_from_Cons [OF Cons.prems]] by (simp add: Let_def key_position passes_key)
qed simp

lemma sorted_from_after:
  assumes "keys_sorted key (before @ after)"
  shows "sorted_from (adv (dim_zero kdim) before) after"
proof -
  have b: "sorted_from (dim_zero kdim) before" using assms by (intro sorted_from_zero) (simp add: keys_sorted_def sorted_wrt_append)
  show ?thesis using assms last_in_set [of before]
    by (auto simp: adv_key [OF b] keys_sorted_def sorted_wrt_append zero_least less_imp_le)
qed

lemma ready_sorted:
  assumes "keys_sorted key (flatten (c_tree c))" "cursor_ready ops kdim c before after"
  shows "sorted_from (c_position c) after"
  using sorted_from_after [of before after] assms(1) cursor_ready_position [OF assms(2)] by simp

lemma take_equal_ok:
  assumes root: "wf_tree ops (c_tree c)" "height (c_tree c) < 16" and c: "cursor_at ops kdim c before after"
  shows "\<exists>c' before'. take_equal kdim key k c = Some (c', first_equal key k after) \<and> c_tree c' = c_tree c \<and>
    cursor_at ops kdim c' before' (drop_equal key k after) \<and>
    (before' = before \<or> (\<exists>x. before' = before @ [x] \<and> key x = k))"
proof (cases after)
  case Nil
  with cursor_item_ok(1) [OF root(1) c] c show ?thesis
    by (auto simp: take_equal_def list_first_def first_equal_def drop_equal_def)
next
  case (Cons x ys)
  obtain c' where "cursor_next kdim c = Some c'" "c_tree c' = c_tree c" "cursor_at ops kdim c' (before @ [x]) ys"
    using search_forward_ok [OF root filter_mono_True c [unfolded Cons]]
    by (auto simp: cursor_next_def rejected_True takeWhile_False)
  with cursor_item_ok(1) [OF root(1) c] c Cons show ?thesis
    by (auto simp: take_equal_def list_first_def first_equal_def drop_equal_def)
qed

lemma slice_key_ok:
  assumes "wf_tree ops (c_tree c)" "height (c_tree c) < 16" "cursor_ready ops kdim c before after"
    "keys_sorted key (flatten (c_tree c))" "c_position c \<le> k"
  shows "\<exists>c' t. cursor_slice ops kdim c (cmp k) Bias.Left = Some (c', t) \<and> wf_tree ops t \<and> flatten t = below key k after \<and>
    cursor_at ops kdim c' (before @ below key k after) (from_key key k after) \<and> c_tree c' = c_tree c"
proof -
  have "cmp k (c_position c) \<noteq> Less" using assms(5) by simp
  from cursor_slice_ok [OF assms(1-3) this monot_key scan_key] ready_sorted [OF assms(4,3)] show ?thesis by blast
qed

lemma seek_key_ok:
  assumes "wf_tree ops (c_tree c)" "height (c_tree c) < 16" "keys_sorted key (flatten (c_tree c))" "dim_zero kdim \<le> k"
  shows "\<exists>c' hit. cursor_seek kdim c (cmp k) Bias.Left = Some (c', hit) \<and> c_tree c' = c_tree c \<and>
    cursor_at ops kdim c' (below key k (flatten (c_tree c))) (from_key key k (flatten (c_tree c)))"
proof -
  have "cmp k (dim_zero kdim) \<noteq> Less" using assms(4) by simp
  from cursor_seek_ok [OF assms(1,2) this monot_key scan_key] sorted_from_zero [OF assms(3)] show ?thesis by blast
qed

text \<open>One step of the iteration over the items after the cursor.\<close>

lemma iterator_step_ok:
  assumes "wf_tree ops (c_tree c)" "height (c_tree c) < 16" "cursor_at ops kdim c before after"
  shows "case after of [] \<Rightarrow> \<exists>c'. cursor_iterator_next kdim (\<lambda>_. True) c = Some (c', None)
    | x # xs \<Rightarrow> \<exists>c'. cursor_iterator_next kdim (\<lambda>_. True) c = Some (c', Some x) \<and> c_tree c' = c_tree c \<and> cursor_at ops kdim c' (before @ [x]) xs"
proof -
  have seek: "c_did_seek c" using assms(3) by (simp add: cursor_at_def)
  note item = cursor_item_ok(1) [OF assms(1,3)]
  show ?thesis
  proof (cases after)
    case Nil
    with item seek show ?thesis by (simp add: cursor_iterator_next_def list_first_def)
  next
    case (Cons x xs)
    from search_forward_ok [OF assms(1,2) filter_mono_True assms(3) [unfolded Cons]] item seek
    show ?thesis by (auto simp: Cons cursor_iterator_next_def list_first_def rejected_True takeWhile_False)
  qed
qed

lemma slice_new_ok:
  assumes "wf_tree ops t" "height t < 16" "keys_sorted key (flatten t)" "dim_zero kdim \<le> k"
  shows "\<exists>c' u. cursor_slice ops kdim (cursor_new kdim t) (cmp k) Bias.Left = Some (c', u) \<and> wf_tree ops u \<and>
    flatten u = below key k (flatten t) \<and>
    cursor_at ops kdim c' (below key k (flatten t)) (from_key key k (flatten t)) \<and> c_tree c' = t"
  using slice_key_ok [of "cursor_new kdim t" "[]" "flatten t" k]
    cursor_ready_fresh [OF cursor_fresh_new(1) [of kdim t], of ops] assms
  by (simp add: cursor_fresh_new cursor_new_def)

lemma insert_or_replace_ok:
  assumes t: "wf_tree ops t" "height t < 16" "keys_sorted key (flatten t)"
  shows "\<exists>t'. insert_or_replace ops kdim key t item = Some (t', first_equal key (key item) (from_key key (key item) (flatten t))) \<and>
    wf_tree ops t' \<and> flatten t' = below key (key item) (flatten t) @ item #
      drop_equal key (key item) (from_key key (key item) (flatten t))"
proof -
  let ?k = "key item" and ?xs = "flatten t"
  obtain c1 u where u: "cursor_slice ops kdim (cursor_new kdim t) (cmp ?k) Bias.Left = Some (c1, u)" "wf_tree ops u"
    "flatten u = below key ?k ?xs" "cursor_at ops kdim c1 (below key ?k ?xs) (from_key key ?k ?xs)" "c_tree c1 = t"
    using slice_new_ok [OF t zero_least] by blast
  obtain c2 b where c2: "take_equal kdim key ?k c1 = Some (c2, first_equal key ?k (from_key key ?k ?xs))" "c_tree c2 = t"
    "cursor_at ops kdim c2 b (drop_equal key ?k (from_key key ?k ?xs))"
    using take_equal_ok [OF _ _ u(4)] t(1,2) u(5) by metis
  obtain c3 s where s: "cursor_suffix ops kdim c2 = Some (c3, s)" "wf_tree ops s"
    "flatten s = drop_equal key ?k (from_key key ?k ?xs)"
    using cursor_suffix_ok [OF _ _ cursor_ready_at [OF c2(3)]] c2(2) t(1,2) by blast
  obtain u' where u': "push ops u item = Some u'" "wf_tree ops u'" "flatten u' = flatten u @ [item]"
    using push_ok [OF u(2)] by blast
  obtain t' where "append_tree ops u' s = Some t'" "wf_tree ops t'" "flatten t' = flatten u' @ flatten s"
    using append_tree_ok [OF u'(2) s(2)] by blast
  with u(1,3) c2(1) s(1,3) u'(1,3) show ?thesis by (simp add: insert_or_replace_def)
qed

lemma tree_remove_ok:
  assumes t: "wf_tree ops t" "height t < 16" "keys_sorted key (flatten t)" and k: "dim_zero kdim \<le> k"
  shows "\<exists>t'. tree_remove ops kdim key t k = Some (t', first_equal key k (from_key key k (flatten t))) \<and>
    wf_tree ops t' \<and> flatten t' = below key k (flatten t) @ drop_equal key k (from_key key k (flatten t))"
proof -
  let ?xs = "flatten t"
  obtain c1 u where u: "cursor_slice ops kdim (cursor_new kdim t) (cmp k) Bias.Left = Some (c1, u)" "wf_tree ops u"
    "flatten u = below key k ?xs" "cursor_at ops kdim c1 (below key k ?xs) (from_key key k ?xs)" "c_tree c1 = t"
    using slice_new_ok [OF t k] by blast
  obtain c2 b where c2: "take_equal kdim key k c1 = Some (c2, first_equal key k (from_key key k ?xs))" "c_tree c2 = t"
    "cursor_at ops kdim c2 b (drop_equal key k (from_key key k ?xs))"
    using take_equal_ok [OF _ _ u(4)] t(1,2) u(5) by metis
  obtain c3 s where s: "cursor_suffix ops kdim c2 = Some (c3, s)" "wf_tree ops s"
    "flatten s = drop_equal key k (from_key key k ?xs)"
    using cursor_suffix_ok [OF _ _ cursor_ready_at [OF c2(3)]] c2(2) t(1,2) by blast
  obtain t' where "append_tree ops u s = Some t'" "wf_tree ops t'" "flatten t' = flatten u @ flatten s"
    using append_tree_ok [OF u(2) s(2)] by blast
  with u(1,3) c2(1) s(1,3) show ?thesis by (simp add: tree_remove_def)
qed

lemma tree_get_ok:
  assumes t: "wf_tree ops t" "keys_sorted key (flatten t)"
  shows "tree_get kdim t k = key_map key (flatten t) k"
proof (cases "flatten t = []")
  case True
  then show ?thesis by (simp add: tree_get_def tree_find_exact_def find_empty [OF t(1)])
next
  case False
  note srt = sorted_from_zero [OF t(2)]
  have reached: "dim_add kdim (adv (dim_zero kdim) (below key k (flatten t))) (item_summary ops x) = key x"
    if "from_key key k (flatten t) = x # xs" for x xs
  proof -
    have "keys_sorted key (below key k (flatten t) @ x # xs)" using t(2) by (metis that takeWhile_dropWhile_id)
    from sorted_from_after [OF this] show ?thesis by (simp add: key_position)
  qed
  have "snd (snd (tree_find_exact kdim t (cmp k) Bias.Left)) = (case from_key key k (flatten t) of [] \<Rightarrow> None
      | x # _ \<Rightarrow> if key x = k then Some x else None)"
  proof (cases "from_key key k (flatten t)")
    case Nil
    with tree_find_exact_ok [OF t(1) False monot_key [OF srt] monot_key [OF srt] scan_key [OF srt], of k]
    show ?thesis by (simp only: list.case)
  next
    case (Cons x xs)
    with tree_find_exact_ok [OF t(1) False monot_key [OF srt] monot_key [OF srt] scan_key [OF srt], of k]
    show ?thesis by (simp add: reached [OF Cons] eq_commute [of k])
  qed
  then show ?thesis
    using first_equal_map [OF t(2), of k] by (simp add: tree_get_def first_equal_def split: list.splits)
qed

end

section \<open>Batched edits\<close>

text \<open>The items left and the items removed by a sorted list of edits, by one pass over the
  list.\<close>

fun edit_items :: "('a \<Rightarrow> 'k::linorder) \<Rightarrow> ('a, 'k) Edit list \<Rightarrow> 'a list \<Rightarrow> 'a list" where
  "edit_items key [] xs = xs"
| "edit_items key (e # es) xs =
     below key (edit_key key e) xs @ (case e of Insert item \<Rightarrow> [item] | Remove _ \<Rightarrow> []) @
     edit_items key es (drop_equal key (edit_key key e) (from_key key (edit_key key e) xs))"

fun removed_items :: "('a \<Rightarrow> 'k::linorder) \<Rightarrow> ('a, 'k) Edit list \<Rightarrow> 'a list \<Rightarrow> 'a list" where
  "removed_items key [] xs = []"
| "removed_items key (e # es) xs =
     (let after = from_key key (edit_key key e) xs in
      (case first_equal key (edit_key key e) after of Some x \<Rightarrow> [x] | None \<Rightarrow> []) @
      removed_items key es (drop_equal key (edit_key key e) after))"

text \<open>What one edit does to the map.\<close>

fun apply_edit :: "('a \<Rightarrow> 'k) \<Rightarrow> ('a, 'k) Edit \<Rightarrow> ('k \<Rightarrow> 'a option) \<Rightarrow> ('k \<Rightarrow> 'a option)" where
  "apply_edit key (Insert item) m = m(key item \<mapsto> item)"
| "apply_edit key (Remove k) m = m(k := None)"

lemma below_first_less: "\<not> (case list_first after of Some x \<Rightarrow> key x < k | None \<Rightarrow> False) \<Longrightarrow> below key k after = [] \<and> from_key key k after = after"
  by (cases after) (auto simp: list_first_def)

text \<open>A batch of insertions replaces the items of the tree with one of its keys by the items inserted; of those
  it keeps all, also if a key is repeated.\<close>

lemma mset_edit_items:
  assumes "keys_sorted key xs" "sorted (map key items)"
  shows "mset (edit_items key (map Insert items) xs) = mset items + mset (filter (\<lambda>x. key x \<notin> key ` set items) xs)"
  using assms
proof (induction items arbitrary: xs)
  case (Cons y ys)
  let ?k = "key y" and ?P = "\<lambda>x. key x \<notin> key ` set (y # ys)" and ?Q = "\<lambda>x. key x \<notin> key ` set ys"
  let ?b = "below key ?k xs" and ?f = "from_key key ?k xs"
  let ?g = "drop_equal key ?k ?f"
  have f: "keys_sorted key ?f" "\<forall>z \<in> set ?f. ?k \<le> key z"
    using keys_sorted_dropWhile [OF Cons.prems(1)] from_key_ge [OF Cons.prems(1)] by simp_all
  note g = drop_equal_props [OF f(1), of ?k]
  have IH: "mset (edit_items key (map Insert ys) ?g) = mset ys + mset (filter ?Q ?g)"
    using Cons.IH [OF g(1)] Cons.prems(2) by simp
  have le: "?k \<le> key z" if "z \<in> set (y # ys)" for z using Cons.prems(2) that by auto
  have "key x \<notin> key ` set (y # ys)" if "x \<in> set ?b" for x
    using below_less [OF that] le by (metis imageE leD)
  then have b: "filter ?P ?b = ?b" by (simp only: filter_id_conv) blast
  have "key z \<noteq> ?k" if "z \<in> set ?g" for z using g(3) f(2) that by fastforce
  then have pq: "filter ?P ?g = filter ?Q ?g" by (intro filter_cong) auto
  have "filter ?P zs = filter ?P (drop_equal key ?k zs)" for zs by (cases zs) (simp_all add: drop_equal_def)
  then have "filter ?P xs = ?b @ filter ?Q ?g"
    using b pq filter_append [of ?P ?b ?f] takeWhile_dropWhile_id [of "\<lambda>x. key x < ?k" xs] by (simp only:)
  then show ?case using IH by (simp only: edit_items.simps list.map Edit.case edit_key.simps mset_append mset.simps append.simps union_mset_add_mset_left union_mset_add_mset_right ac_simps)
qed simp


context keyed_tree
begin

text \<open>The items the loop has finished with are those of the new tree and of the buffer.\<close>

lemma edit_advance_ok:
  assumes root: "wf_tree ops (c_tree c)" "height (c_tree c) < 16" and at: "cursor_at ops kdim c before after"
    and sorted: "keys_sorted key (flatten (c_tree c))" and k: "c_position c \<le> k" and acc: "wf_tree ops acc"
  shows "\<exists>c1 acc1 buf1. edit_advance ops kdim key k (list_first after) c acc buffered = Some (c1, acc1, buf1) \<and>
    wf_tree ops acc1 \<and> flatten acc1 @ buf1 = flatten acc @ buffered @ below key k after \<and>
    c_tree c1 = c_tree c \<and> cursor_at ops kdim c1 (before @ below key k after) (from_key key k after)"
proof (cases "case list_first after of Some x \<Rightarrow> key x < k | None \<Rightarrow> False")
  case True
  obtain acc2 where acc2: "tree_extend ops acc buffered = Some acc2" "wf_tree ops acc2" "flatten acc2 = flatten acc @ buffered"
    using extend_ok [OF acc, of buffered] by blast
  obtain c' s where s: "cursor_slice ops kdim c (cmp k) Bias.Left = Some (c', s)" "wf_tree ops s"
    "flatten s = below key k after" "cursor_at ops kdim c' (before @ below key k after) (from_key key k after)" "c_tree c' = c_tree c"
    using slice_key_ok [OF root cursor_ready_at [OF at] sorted k] by auto
  obtain acc3 where "append_tree ops acc2 s = Some acc3" "wf_tree ops acc3" "flatten acc3 = flatten acc2 @ flatten s"
    using append_tree_ok [OF acc2(2) s(2)] by blast
  with True acc2 s show ?thesis by (simp add: edit_advance_def)
next
  case False
  with below_first_less [OF False] at acc show ?thesis by (simp add: edit_advance_def)
qed

text \<open>The position after dealing with one edit is at most its key.\<close>

lemma edit_position:
  assumes "cursor_at ops kdim c before after" "keys_sorted key (flatten (c_tree c))" "c_position c \<le> k"
    and "c_tree c2 = c_tree c"
    and "cursor_at ops kdim c2 b2 after2" "b2 = before @ below key k after \<or> (\<exists>x. b2 = (before @ below key k after) @ [x] \<and> key x = k)"
  shows "c_position c2 \<le> k"
proof -
  have pos: "c_position c = adv (dim_zero kdim) before" "c_position c2 = adv (dim_zero kdim) b2"
    and split: "flatten (c_tree c) = before @ after" "flatten (c_tree c) = b2 @ after2"
    using assms(1,4,5) by (simp_all add: cursor_at_def)
  have "keys_sorted key (before @ after)" "keys_sorted key (b2 @ after2)" using assms(2) split by simp_all
  then have "keys_sorted key before" "keys_sorted key b2" by (simp_all add: keys_sorted_def sorted_wrt_append)
  then have "sorted_from (dim_zero kdim) before" "sorted_from (dim_zero kdim) b2" using sorted_from_zero by blast+
  note adv = this [THEN adv_key]
  have "key (last (below key k after)) < k" if "below key k after \<noteq> []"
    by (rule below_less [OF last_in_set [OF that]])
  with assms(3,6) pos show ?thesis
    unfolding adv by (cases "below key k after = []") (auto split: if_splits)
qed

lemma edit_loop_ok:
  assumes "wf_tree ops (c_tree c)" "height (c_tree c) < 16" "cursor_at ops kdim c before after"
    and "keys_sorted key (flatten (c_tree c))" "sorted (map (edit_key key) es)" "\<forall>e \<in> set es. c_position c \<le> edit_key key e"
    and "wf_tree ops acc"
  shows "\<exists>c' acc' buffered'. edit_loop ops kdim key es c acc buffered removed =
      Some (c', acc', buffered', removed @ removed_items key es after) \<and> wf_tree ops acc' \<and> c_tree c' = c_tree c \<and>
    (\<exists>before' after'. cursor_at ops kdim c' before' after' \<and>
      flatten acc' @ buffered' @ after' = flatten acc @ buffered @ edit_items key es after)"
  using assms
proof (induction es arbitrary: c acc buffered removed before after)
  case Nil
  then show ?case by auto
next
  case (Cons e es)
  let ?k = "edit_key key e"
  let ?after' = "drop_equal key ?k (from_key key ?k after)"
  let ?old = "first_equal key ?k (from_key key ?k after)"
  note root = Cons.prems(1,2) and at = Cons.prems(3)
  have k: "c_position c \<le> ?k" using Cons.prems(6) by simp
  obtain c1 acc1 buf1 where step1: "edit_advance ops kdim key ?k (list_first after) c acc buffered = Some (c1, acc1, buf1)"
    "wf_tree ops acc1" "flatten acc1 @ buf1 = flatten acc @ buffered @ below key ?k after"
    "c_tree c1 = c_tree c" "cursor_at ops kdim c1 (before @ below key ?k after) (from_key key ?k after)"
    using edit_advance_ok [OF root at Cons.prems(4) k Cons.prems(7)] by blast
  obtain c2 b2 where c2: "take_equal kdim key ?k c1 = Some (c2, ?old)" "c_tree c2 = c_tree c"
    "cursor_at ops kdim c2 b2 ?after'"
    "b2 = before @ below key ?k after \<or> (\<exists>x. b2 = (before @ below key ?k after) @ [x] \<and> key x = ?k)"
    using take_equal_ok [OF _ _ step1(5), of ?k] root step1(4) by metis
  have pos: "\<forall>e' \<in> set es. c_position c2 \<le> edit_key key e'"
    using edit_position [OF at Cons.prems(4) k c2(2,3,4)] Cons.prems(5) by (auto intro: order_trans)
  define buf where "buf = (case e of Insert item \<Rightarrow> buf1 @ [item] | Remove _ \<Rightarrow> buf1)"
  define removed' where "removed' = (case ?old of Some x \<Rightarrow> removed @ [x] | None \<Rightarrow> removed)"
  have sorted': "keys_sorted key (flatten (c_tree c2))" "sorted (map (edit_key key) es)"
    using Cons.prems(4,5) c2(2) by auto
  have root2: "wf_tree ops (c_tree c2)" "height (c_tree c2) < 16" using root c2(2) by simp_all
  obtain c' acc' buf' b' a' where IH:
    "edit_loop ops kdim key es c2 acc1 buf removed' = Some (c', acc', buf', removed' @ removed_items key es ?after')"
    "wf_tree ops acc'" "c_tree c' = c_tree c2" "cursor_at ops kdim c' b' a'"
    "flatten acc' @ buf' @ a' = flatten acc1 @ buf @ edit_items key es ?after'"
    using Cons.IH [OF root2 c2(3) sorted' pos step1(2), of buf removed'] by blast
  have run: "edit_loop ops kdim key (e # es) c acc buffered removed = edit_loop ops kdim key es c2 acc1 buf removed'"
    using cursor_item_ok(1) [OF root(1) at] step1(1) c2(1) by (simp add: buf_def removed'_def)
  have "buf = buf1 @ (case e of Insert item \<Rightarrow> [item] | Remove _ \<Rightarrow> [])" by (cases e) (simp_all add: buf_def)
  then have "flatten acc' @ buf' @ a' = flatten acc @ buffered @ edit_items key (e # es) after"
    using IH(5) step1(3) by (metis append.assoc edit_items.simps(2))
  moreover have "removed' @ removed_items key es ?after' = removed @ removed_items key (e # es) after"
    by (simp add: removed'_def Let_def split: option.split)
  ultimately show ?case using IH(1-4) run c2(2) by metis
qed

lemma edit_sorted_ok:
  assumes t: "wf_tree ops t" "height t < 16" "keys_sorted key (flatten t)"
    and es: "\<forall>e \<in> set es. dim_zero kdim \<le> edit_key key e" "sorted (map (edit_key key) es)"
  shows "\<exists>t'. edit_sorted ops kdim key t es = Some (t', removed_items key es (flatten t)) \<and>
    wf_tree ops t' \<and> flatten t' = edit_items key es (flatten t)"
proof -
  let ?c = "cursor_new kdim t" and ?z = "dim_zero kdim"
  have "below key ?z (flatten t) = []" "from_key key ?z (flatten t) = flatten t"
    using zero_least by (cases "flatten t"; simp add: not_less)+
  then have sc: "scan (passes (cmp ?z) Bias.Left) ?z (flatten (c_tree ?c)) = ([], ?z, flatten t)"
    using scan_key [OF sorted_from_zero [OF t(3)], of ?z] by (simp add: cursor_fresh_new)
  obtain c hit where c: "cursor_seek kdim ?c (cmp ?z) Bias.Left = Some (c, hit)" "cursor_at ops kdim c [] (flatten t)"
    "c_tree c = t" "c_position c = ?z"
    using cursor_seek_ok [OF _ _ _ _ sc] t monot_key [OF sorted_from_zero [OF t(3)]] by (auto simp: cursor_fresh_new)
  have root: "wf_tree ops (c_tree c)" "height (c_tree c) < 16" using t c(3) by simp_all
  have "sorted (map (edit_key key) es)" "\<forall>e \<in> set es. c_position c \<le> edit_key key e"
    using es c(4) by simp_all
  from edit_loop_ok [OF root c(2) t(3) [folded c(3)] this wf_new_tree, of "[]" "[]"]
  obtain c' acc buf b a where loop:
    "edit_loop ops kdim key es c (new_tree ops) [] [] = Some (c', acc, buf, removed_items key es (flatten t))"
    "wf_tree ops acc" "c_tree c' = c_tree c" "cursor_at ops kdim c' b a"
    "flatten acc @ buf @ a = edit_items key es (flatten t)"
    by (auto simp: new_tree_def)
  obtain acc2 where acc2: "tree_extend ops acc buf = Some acc2" "wf_tree ops acc2" "flatten acc2 = flatten acc @ buf"
    using extend_ok [OF loop(2), of buf] by blast
  obtain c3 s where s: "cursor_suffix ops kdim c' = Some (c3, s)" "wf_tree ops s" "flatten s = a"
    using cursor_suffix_ok [OF _ _ cursor_ready_at [OF loop(4)]] loop(3) root by auto
  obtain t' where "append_tree ops acc2 s = Some t'" "wf_tree ops t'" "flatten t' = flatten acc2 @ flatten s"
    using append_tree_ok [OF acc2(2) s(2)] by blast
  with c(1) loop(1,5) acc2 s show ?thesis by (simp add: edit_sorted_def)
qed

lemma tree_edit_ok:
  assumes t: "wf_tree ops t" "height t < 16" "keys_sorted key (flatten t)"
    and es: "\<forall>e \<in> set edits. dim_zero kdim \<le> edit_key key e" "sorted_edits = sort_key (edit_key key) edits"
  shows "\<exists>t'. tree_edit ops kdim key t edits = Some (t', removed_items key sorted_edits (flatten t)) \<and>
    wf_tree ops t' \<and> flatten t' = edit_items key sorted_edits (flatten t)"
  using edit_sorted_ok [OF t, of sorted_edits] es t(1) by (cases "edits = []") (simp_all add: tree_edit_def)

end

section \<open>Edits and maps\<close>

lemma insert_list_map:
  assumes "keys_sorted key xs"
  shows "keys_sorted key (below key (key x) xs @ x # drop_equal key (key x) (from_key key (key x) xs))"
    and "key_map key (below key (key x) xs @ x # drop_equal key (key x) (from_key key (key x) xs)) = (key_map key xs)(key x \<mapsto> x)"
proof -
  let ?b = "below key (key x) xs" and ?d = "drop_equal key (key x) (from_key key (key x) xs)"
  note s = drop_equal_props [OF keys_sorted_dropWhile [OF assms, of "\<lambda>y. key y < key x"], of "key x"]
  have d: "\<forall>y \<in> set ?d. key x < key y" using s(3) from_key_ge [OF assms] by blast
  have b: "\<forall>y \<in> set ?b. key y < key x" using below_less by fast
  show "keys_sorted key (?b @ x # ?d)"
    using s(1) d b keys_sorted_takeWhile [OF assms] by (auto intro: order.strict_trans)
  have "key_map key ?b (key x) = None" using b by (auto simp: key_map_None)
  then have "key_map key (?b @ x # ?d) = (key_map key (?b @ ?d))(key x \<mapsto> x)"
    by (auto simp: map_add_def fun_eq_iff split: option.split)
  then show "key_map key (?b @ x # ?d) = (key_map key xs)(key x \<mapsto> x)"
    by (simp only: key_map_split [OF assms] fun_upd_upd)
qed

lemma remove_list_sorted:
  assumes "keys_sorted key xs"
  shows "keys_sorted key (below key k xs @ drop_equal key k (from_key key k xs))"
proof -
  note s = drop_equal_props [OF keys_sorted_dropWhile [OF assms, of "\<lambda>y. key y < k"], of k]
  have "\<forall>y \<in> set (drop_equal key k (from_key key k xs)). k < key y" using s(3) from_key_ge [OF assms] by blast
  with s(1) keys_sorted_takeWhile [OF assms] below_less [of _ key k xs] show ?thesis
    by (fastforce intro: order.strict_trans)
qed

lemma apply_edits_map_add:
  assumes "\<forall>e \<in> set es. edit_key key e \<notin> dom n"
  shows "foldl (\<lambda>m e. apply_edit key e m) (m ++ n) es = foldl (\<lambda>m e. apply_edit key e m) m es ++ n"
  using assms
proof (induction es arbitrary: m)
  case (Cons e es)
  have "apply_edit key e (m ++ n) = apply_edit key e m ++ n"
    using Cons.prems by (cases e) (auto simp: map_add_def fun_eq_iff split: option.split)
  with Cons show ?case by simp
qed simp

text \<open>A sorted list is determined by its map.\<close>

lemma key_map_self: "keys_sorted key xs \<Longrightarrow> x \<in> set xs \<Longrightarrow> key_map key xs (key x) = Some x"
proof (induction xs)
  case (Cons y xs)
  then show ?case by (auto simp: keys_sorted_def)
qed simp

lemma keys_sorted_unique:
  assumes "keys_sorted key xs" "keys_sorted key ys" "key_map key xs = key_map key ys"
  shows "xs = ys"
proof -
  have self: "zs = map (\<lambda>k. the (key_map key zs k)) (map key zs)" if "keys_sorted key zs" for zs
    using key_map_self [OF that] by (intro nth_equalityI) auto
  have "dom (key_map key zs) = key ` set zs" for zs by (simp add: key_map_def dom_map_of_conv_image_fst image_image)
  then have "set (map key xs) = set (map key ys)" using assms(3) by (metis set_map)
  then have "map key xs = map key ys" using assms(1,2) unfolding keys_sorted_def by (intro strict_sorted_equal)
  then show ?thesis using self [OF assms(1)] self [OF assms(2)] assms(3) by metis
qed

text \<open>The list of edits with distinct keys acts on the map as the edits one by one.\<close>

lemma edit_items_map:
  assumes "keys_sorted key xs" "sorted_wrt (<) (map (edit_key key) es)"
  shows "keys_sorted key (edit_items key es xs) \<and> set (edit_items key es xs) \<subseteq> set xs \<union> {x. Insert x \<in> set es} \<and>
    key_map key (edit_items key es xs) = foldl (\<lambda>m e. apply_edit key e m) (key_map key xs) es"
  using assms
proof (induction es arbitrary: xs)
  case (Cons e es)
  let ?k = "edit_key key e"
  let ?b = "below key ?k xs" and ?d = "drop_equal key ?k (from_key key ?k xs)"
  let ?item = "case e of Insert x \<Rightarrow> [x] | Remove _ \<Rightarrow> []"
  note s = drop_equal_props [OF keys_sorted_dropWhile [OF Cons.prems(1), of "\<lambda>y. key y < ?k"], of ?k]
  have d: "\<forall>y \<in> set ?d. ?k < key y" using s(3) from_key_ge [OF Cons.prems(1)] by blast
  have b: "\<forall>y \<in> set ?b. key y < ?k" using below_less by fast
  have sub: "set ?b \<subseteq> set xs" "set ?d \<subseteq> set xs" using s(2) by (auto dest: set_takeWhileD set_dropWhileD)
  have IH: "keys_sorted key (edit_items key es ?d)" "set (edit_items key es ?d) \<subseteq> set ?d \<union> {x. Insert x \<in> set es}"
    "key_map key (edit_items key es ?d) = foldl (\<lambda>m e. apply_edit key e m) (key_map key ?d) es"
    using Cons.IH [OF s(1)] Cons.prems(2) by auto
  have later: "\<forall>e' \<in> set es. ?k < edit_key key e'" using Cons.prems(2) by auto
  then have gt: "\<forall>y \<in> set (edit_items key es ?d). ?k < key y" using IH(2) d by fastforce
  have items: "\<forall>y \<in> set ?item. key y = ?k" by (cases e) simp_all
  have "keys_sorted key (edit_items key (e # es) xs)"
  proof -
    have "\<forall>x \<in> set ?b. \<forall>y \<in> set (edit_items key es ?d). key x < key y" using b gt by (meson order.strict_trans)
    moreover have "\<forall>x \<in> set ?b. \<forall>y \<in> set ?item. key x < key y" using b items by metis
    moreover have "\<forall>x \<in> set ?item. \<forall>y \<in> set (edit_items key es ?d). key x < key y" using gt items by metis
    moreover have "keys_sorted key ?item" by (cases e) simp_all
    moreover have "keys_sorted key ?b" by (rule keys_sorted_takeWhile [OF Cons.prems(1)])
    ultimately show ?thesis
      using IH(1) unfolding edit_items.simps keys_sorted_simps set_append ball_Un by blast
  qed
  moreover have "set (edit_items key (e # es) xs) \<subseteq> set xs \<union> {x. Insert x \<in> set (e # es)}"
    using IH(2) sub by (cases e) auto
  moreover have "key_map key (edit_items key (e # es) xs) = foldl (\<lambda>m e. apply_edit key e m) (key_map key xs) (e # es)"
  proof -
    let ?n = "key_map key (?b @ ?item)"
    have "edit_key key e' \<notin> dom ?n" if "e' \<in> set es" for e'
    proof -
      have "\<forall>y \<in> set (?b @ ?item). key y < edit_key key e'"
        using b items later that unfolding set_append ball_Un by (metis order.strict_trans)
      then show ?thesis unfolding domIff not_not key_map_None by force
    qed
    then have "key_map key (edit_items key (e # es) xs) = foldl (\<lambda>m e. apply_edit key e m) (key_map key ?d ++ ?n) es"
      using IH(3) apply_edits_map_add [of es key ?n "key_map key ?d"] by simp
    moreover have "key_map key ?d ++ ?n = apply_edit key e (key_map key xs)"
    proof (cases e)
      case (Insert x)
      with insert_list_map(2) [OF Cons.prems(1), of x] show ?thesis by simp
    next
      case (Remove k)
      with key_map_split [OF Cons.prems(1), of k] show ?thesis by simp
    qed
    ultimately show ?thesis by simp
  qed
  ultimately show ?case by blast
qed simp

text \<open>Edits of different keys can be applied in any order.\<close>

lemma apply_edits_lookup:
  assumes "distinct (map (edit_key key) es)"
  shows "foldl (\<lambda>m e. apply_edit key e m) m es j =
    (if \<exists>e \<in> set es. edit_key key e = j then (THE r. \<exists>e \<in> set es. edit_key key e = j \<and> r = apply_edit key e m j) else m j)"
  using assms
proof (induction es arbitrary: m)
  case (Cons e es)
  have other: "apply_edit key e m j = m j" if "edit_key key e \<noteq> j" for m using that by (cases e) auto
  have indep: "apply_edit key e' (apply_edit key e m) j = apply_edit key e' m j" if "edit_key key e' = j" for e'
    using that by (cases e') auto
  show ?case
  proof (cases "edit_key key e = j")
    case True
    then have "\<not> (\<exists>e' \<in> set es. edit_key key e' = j)" using Cons.prems by (auto simp: image_iff)
    moreover from this have "(THE r. \<exists>e' \<in> set (e # es). edit_key key e' = j \<and> r = apply_edit key e' m j) = apply_edit key e m j"
      using True by (intro the_equality) auto
    ultimately show ?thesis using Cons True by auto
  next
    case False
    have "(\<exists>e' \<in> set (e # es). edit_key key e' = j \<and> r = apply_edit key e' m j) \<longleftrightarrow>
        (\<exists>e' \<in> set es. edit_key key e' = j \<and> r = apply_edit key e' (apply_edit key e m) j)" for r
      using False indep by auto
    with Cons False other show ?thesis by auto
  qed
qed simp

lemma apply_edits_sort:
  assumes "distinct (map (edit_key key) es)"
  shows "foldl (\<lambda>m e. apply_edit key e m) m (sort_key (edit_key key) es) = foldl (\<lambda>m e. apply_edit key e m) m es"
proof
  fix j
  have "mset (map (edit_key key) (sort_key (edit_key key) es)) = mset (map (edit_key key) es)" by simp
  then have "distinct (map (edit_key key) (sort_key (edit_key key) es))"
    using assms mset_eq_imp_distinct_iff by blast
  from apply_edits_lookup [OF this] apply_edits_lookup [OF assms]
  show "foldl (\<lambda>m e. apply_edit key e m) m (sort_key (edit_key key) es) j = foldl (\<lambda>m e. apply_edit key e m) m es j"
    by (simp only: set_sort)
qed

lemma sort_edits_strict:
  assumes "distinct (map (edit_key key) es)"
  shows "sorted_wrt (<) (map (edit_key key) (sort_key (edit_key key) es))"
proof -
  have "mset (map (edit_key key) (sort_key (edit_key key) es)) = mset (map (edit_key key) es)" by simp
  then have "distinct (map (edit_key key) (sort_key (edit_key key) es))"
    using assms mset_eq_imp_distinct_iff by blast
  then show ?thesis using sorted_sort_key [of "edit_key key" es] by (simp add: strict_sorted_iff)
qed

end
