(* ===== verification/TreeMaps.thy ===== *)
theory TreeMaps
  imports SumTree_Keyed "HOL-Library.Option_ord"
begin

text \<open>
  The ordered map and set on top of keyed trees (\<open>crates/sum_tree/src/tree_map.rs\<close>).  The
  summary of a run of entries is its last key, or nothing for no entry; \<open>MapKey\<close> and
  \<open>MapKeyRef\<close> are both the optional key, ordered with the absent key first.
\<close>

section \<open>Entries, keys and the map operations\<close>

record ('k, 'v) MapEntry =
  me_key :: 'k
  me_value :: 'v

type_synonym 'k MapKey = "'k option"
type_synonym ('k, 'v) TreeMap = "(('k, 'v) MapEntry, 'k MapKey) Tree"

definition entry_key :: "('k, 'v) MapEntry \<Rightarrow> 'k MapKey" where
  "entry_key e = Some (me_key e)"

definition map_ops :: "(('k, 'v) MapEntry, 'k MapKey) summary_ops" where
  "map_ops = \<lparr>item_summary = entry_key, summary_zero = None, add_summary = (\<lambda>_ s. s)\<rparr>"

definition map_dim :: "('k MapKey, 'k MapKey) dimension_ops" where
  "map_dim = \<lparr>dim_zero = None, dim_add = (\<lambda>_ s. s)\<rparr>"

definition tm_new :: "('k, 'v) TreeMap" where
  "tm_new = new_tree map_ops"

definition tm_from_ordered_entries :: "('k \<times> 'v) list \<Rightarrow> ('k, 'v) TreeMap option" where
  "tm_from_ordered_entries entries = from_iter map_ops (map (\<lambda>(k, v). \<lparr>me_key = k, me_value = v\<rparr>) entries)"

definition tm_is_empty :: "('k, 'v) TreeMap \<Rightarrow> bool" where
  "tm_is_empty m = is_empty m"

definition tm_get :: "('k::linorder, 'v) TreeMap \<Rightarrow> 'k \<Rightarrow> 'v option" where
  "tm_get m k = (case tree_find map_dim m (cmp (Some k)) Bias.Left of
     (_, _, Some item) \<Rightarrow> if Some k = entry_key item then Some (me_value item) else None
   | (_, _, None) \<Rightarrow> None)"

definition tm_contains_key :: "('k::linorder, 'v) TreeMap \<Rightarrow> 'k \<Rightarrow> bool" where
  "tm_contains_key m k \<longleftrightarrow> tm_get m k \<noteq> None"

definition tm_insert :: "('k::linorder, 'v) TreeMap \<Rightarrow> 'k \<Rightarrow> 'v \<Rightarrow> ('k, 'v) TreeMap option" where
  "tm_insert m k v = map_option fst (insert_or_replace map_ops map_dim entry_key m \<lparr>me_key = k, me_value = v\<rparr>)"

definition tm_insert_or_replace :: "('k::linorder, 'v) TreeMap \<Rightarrow> 'k \<Rightarrow> 'v \<Rightarrow> (('k, 'v) TreeMap \<times> 'v option) option" where
  "tm_insert_or_replace m k v =
     map_option (\<lambda>(m', old). (m', map_option me_value old))
       (insert_or_replace map_ops map_dim entry_key m \<lparr>me_key = k, me_value = v\<rparr>)"

definition tm_extend :: "('k::linorder, 'v) TreeMap \<Rightarrow> ('k \<times> 'v) list \<Rightarrow> ('k, 'v) TreeMap option" where
  "tm_extend m kvs = map_option fst
     (tree_edit map_ops map_dim entry_key m (map (\<lambda>(k, v). Insert \<lparr>me_key = k, me_value = v\<rparr>) kvs))"

definition tm_clear :: "('k, 'v) TreeMap \<Rightarrow> ('k, 'v) TreeMap" where
  "tm_clear m = new_tree map_ops"

text \<open>\<open>remove\<close> and \<open>update\<close> compare the key with the end of the item under the cursor, and
  unwrap that item when they are equal.\<close>

definition tm_remove :: "('k::linorder, 'v) TreeMap \<Rightarrow> 'k \<Rightarrow> (('k, 'v) TreeMap \<times> 'v option) option" where
  "tm_remove m k = do {
     (c1, acc) \<leftarrow> cursor_slice map_ops map_dim (cursor_new map_dim m) (cmp (Some k)) Bias.Left;
     end_pos \<leftarrow> cursor_end map_dim c1;
     (c2, removed) \<leftarrow>
       (if cmp (Some k) end_pos = Equal then do {
          res \<leftarrow> cursor_item c1;
          item \<leftarrow> res;
          c2 \<leftarrow> cursor_next map_dim c1;
          Some (c2, Some (me_value item))
        } else Some (c1, None));
     (_, suffix) \<leftarrow> cursor_suffix map_ops map_dim c2;
     m' \<leftarrow> append_tree map_ops acc suffix;
     Some (m', removed)
   }"

definition tm_update ::
  "('k::linorder, 'v) TreeMap \<Rightarrow> 'k \<Rightarrow> ('v \<Rightarrow> 'v \<times> 'r) \<Rightarrow> (('k, 'v) TreeMap \<times> 'r option) option" where
  "tm_update m k f = do {
     (c1, acc) \<leftarrow> cursor_slice map_ops map_dim (cursor_new map_dim m) (cmp (Some k)) Bias.Left;
     end_pos \<leftarrow> cursor_end map_dim c1;
     (c2, acc2, result) \<leftarrow>
       (if cmp (Some k) end_pos = Equal then do {
          res \<leftarrow> cursor_item c1;
          item \<leftarrow> res;
          acc2 \<leftarrow> push map_ops acc (item\<lparr>me_value := fst (f (me_value item))\<rparr>);
          c2 \<leftarrow> cursor_next map_dim c1;
          Some (c2, acc2, Some (snd (f (me_value item))))
        } else Some (c1, acc, None));
     (_, suffix) \<leftarrow> cursor_suffix map_ops map_dim c2;
     m' \<leftarrow> append_tree map_ops acc2 suffix;
     Some (m', result)
   }"

text \<open>\<open>MapSeekTargetAdaptor\<close>: a comparison with a key, after everything at the start.\<close>

definition map_target :: "('k \<Rightarrow> Ordering) \<Rightarrow> 'k MapKey target" where
  "map_target cmp_cursor = (\<lambda>p. case p of Some k \<Rightarrow> cmp_cursor k | None \<Rightarrow> Greater)"

definition tm_remove_range ::
  "('k::linorder, 'v) TreeMap \<Rightarrow> ('k \<Rightarrow> Ordering) \<Rightarrow> ('k \<Rightarrow> Ordering) \<Rightarrow> ('k, 'v) TreeMap option" where
  "tm_remove_range m start_at end_at = do {
     (c1, acc) \<leftarrow> cursor_slice map_ops map_dim (cursor_new map_dim m) (map_target start_at) Bias.Left;
     (c2, _) \<leftarrow> cursor_seek map_dim c1 (map_target end_at) Bias.Left;
     (_, suffix) \<leftarrow> cursor_suffix map_ops map_dim c2;
     append_tree map_ops acc suffix
   }"

definition tm_closest :: "('k::linorder, 'v) TreeMap \<Rightarrow> 'k \<Rightarrow> ('k \<times> 'v) option option" where
  "tm_closest m k = do {
     (c1, _) \<leftarrow> cursor_seek map_dim (cursor_new map_dim m) (cmp (Some k)) Bias.Right;
     c2 \<leftarrow> cursor_prev map_dim c1;
     res \<leftarrow> cursor_item c2;
     Some (map_option (\<lambda>item. (me_key item, me_value item)) res)
   }"

definition tm_iter_from :: "('k::linorder, 'v) TreeMap \<Rightarrow> 'k \<Rightarrow> (('k, 'v) MapEntry, 'k MapKey, 'k MapKey) Cursor option" where
  "tm_iter_from m from = map_option fst (cursor_seek map_dim (cursor_new map_dim m) (cmp (Some from)) Bias.Left)"

text \<open>The loop of \<open>retain\<close>, bounded by the number of entries plus one.\<close>

fun retain_loop ::
  "('k \<Rightarrow> 'v \<Rightarrow> bool) \<Rightarrow> nat \<Rightarrow> (('k, 'v) MapEntry, 'k MapKey, 'k MapKey) Cursor \<Rightarrow> ('k, 'v) TreeMap \<Rightarrow>
   ('k, 'v) TreeMap option" where
  "retain_loop predicate 0 c new_map = None"
| "retain_loop predicate (Suc n) c new_map = do {
     res \<leftarrow> cursor_item c;
     (case res of
        None \<Rightarrow> Some new_map
      | Some item \<Rightarrow> do {
          new_map' \<leftarrow> (if predicate (me_key item) (me_value item) then push map_ops new_map item else Some new_map);
          c' \<leftarrow> cursor_next map_dim c;
          retain_loop predicate n c' new_map'
        })
   }"

definition tm_retain :: "('k, 'v) TreeMap \<Rightarrow> ('k \<Rightarrow> 'v \<Rightarrow> bool) \<Rightarrow> ('k, 'v) TreeMap option" where
  "tm_retain m predicate = do {
     c \<leftarrow> cursor_next map_dim (cursor_new map_dim m);
     retain_loop predicate (Suc (length (flatten m))) c (new_tree map_ops)
   }"

text \<open>What the iterators yield; one call more than there are entries exhausts them.\<close>

definition tm_iter :: "('k, 'v) TreeMap \<Rightarrow> ('k \<times> 'v) list option" where
  "tm_iter m = map_option (map (\<lambda>e. (me_key e, me_value e))) (iter_take (Suc (length (flatten m))) (iter_new m))"

definition tm_values :: "('k, 'v) TreeMap \<Rightarrow> 'v list option" where
  "tm_values m = map_option (map me_value) (iter_take (Suc (length (flatten m))) (iter_new m))"

definition tm_first :: "('k, 'v) TreeMap \<Rightarrow> ('k \<times> 'v) option option" where
  "tm_first m = map_option (map_option (\<lambda>e. (me_key e, me_value e))) (tree_first m)"

definition tm_last :: "('k, 'v) TreeMap \<Rightarrow> ('k \<times> 'v) option option" where
  "tm_last m = map_option (map_option (\<lambda>e. (me_key e, me_value e))) (tree_last m)"

definition tm_insert_tree :: "('k::linorder, 'v) TreeMap \<Rightarrow> ('k, 'v) TreeMap \<Rightarrow> ('k, 'v) TreeMap option" where
  "tm_insert_tree m other = do {
     entries \<leftarrow> tm_iter other;
     map_option fst (tree_edit map_ops map_dim entry_key m (map (\<lambda>(k, v). Insert \<lparr>me_key = k, me_value = v\<rparr>) entries))
   }"

section \<open>The set\<close>

type_synonym 'k TreeSet = "('k, unit) TreeMap"

definition ts_from_ordered_entries :: "'k list \<Rightarrow> 'k TreeSet option" where
  "ts_from_ordered_entries ks = tm_from_ordered_entries (map (\<lambda>k. (k, ())) ks)"

definition ts_is_empty :: "'k TreeSet \<Rightarrow> bool" where
  "ts_is_empty s = tm_is_empty s"

definition ts_insert :: "'k::linorder TreeSet \<Rightarrow> 'k \<Rightarrow> 'k TreeSet option" where
  "ts_insert s k = tm_insert s k ()"

definition ts_remove :: "'k::linorder TreeSet \<Rightarrow> 'k \<Rightarrow> ('k TreeSet \<times> bool) option" where
  "ts_remove s k = map_option (\<lambda>(s', removed). (s', removed \<noteq> None)) (tm_remove s k)"

definition ts_extend :: "'k::linorder TreeSet \<Rightarrow> 'k list \<Rightarrow> 'k TreeSet option" where
  "ts_extend s ks = tm_extend s (map (\<lambda>k. (k, ())) ks)"

definition ts_contains :: "'k::linorder TreeSet \<Rightarrow> 'k \<Rightarrow> bool" where
  "ts_contains s k \<longleftrightarrow> tm_get s k \<noteq> None"

definition ts_iter :: "'k TreeSet \<Rightarrow> 'k list option" where
  "ts_iter s = map_option (map fst) (tm_iter s)"

section \<open>Maps are keyed trees\<close>

interpretation map_tree: keyed_tree map_ops map_dim entry_key
  by unfold_locales (simp_all add: map_ops_def map_dim_def entry_key_def)

text \<open>The key dimension of maps forgets the position before an item.\<close>

lemma map_key_position: "dim_add map_dim p (item_summary map_ops x) = entry_key x"
  by (simp add: map_ops_def map_dim_def entry_key_def)

lemma map_positions_keys: "positions map_dim (item_summary map_ops) p xs = map entry_key xs"
  by (induction xs arbitrary: p) (simp_all add: map_key_position Let_def)

lemma map_adv_key: "map_tree.adv p xs = (if xs = [] then p else entry_key (last xs))"
  by (induction xs arbitrary: p) (auto simp: map_key_position)

lemma map_monot_key: "keys_sorted entry_key xs \<Longrightarrow> map_tree.monot (passes (cmp k) bias) p xs"
  unfolding seek_mono_def map_positions_keys keys_sorted_def
  by (erule sorted_wrt_mono_rel [rotated]) (cases bias; auto simp: map_tree.passes_key)

lemma map_scan_key:
  "map_tree.scan (passes (cmp k) Bias.Left) p xs = (below entry_key k xs, map_tree.adv p (below entry_key k xs), from_key entry_key k xs)"
  by (induction xs arbitrary: p) (simp_all add: Let_def map_key_position map_tree.passes_key)

text \<open>The invariant of a map, the bound of the cursor's stack, and the finite map it stands
  for.\<close>

definition tm_invar :: "('k::linorder, 'v) TreeMap \<Rightarrow> bool" where
  "tm_invar m \<longleftrightarrow> wf_tree map_ops m \<and> keys_sorted entry_key (flatten m)"

definition tm_usable :: "('k, 'v) TreeMap \<Rightarrow> bool" where
  "tm_usable m \<longleftrightarrow> height m < 16"

definition tm_map :: "('k, 'v) TreeMap \<Rightarrow> 'k \<Rightarrow> 'v option" where
  "tm_map m k = map_option me_value (key_map entry_key (flatten m) (Some k))"

declare dropWhile_eq_Nil_conv [simp del]

lemma tm_map_None: "tm_map m k = None \<longleftrightarrow> Some k \<notin> entry_key ` set (flatten m)"
  by (simp add: tm_map_def key_map_None)

lemma tm_new_ok: "tm_invar tm_new" "tm_usable tm_new" "tm_map tm_new = Map.empty"
  by (simp_all add: tm_invar_def tm_usable_def tm_new_def map_tree.wf_new_tree)
    (auto simp: new_tree_def tm_map_def)

lemma key_map_outside:
  fixes key :: "'a \<Rightarrow> 'k::linorder"
  shows "\<forall>x \<in> set xs. key x < j \<Longrightarrow> j \<le> k \<Longrightarrow> key_map key xs k = None"
    and "\<forall>x \<in> set xs. j \<le> key x \<Longrightarrow> k < j \<Longrightarrow> key_map key xs k = None"
  by (auto simp: key_map_None image_iff)

text \<open>The two ways a map changes at a key.\<close>

lemma tm_map_upd:
  assumes "key_map entry_key (flatten m') = (key_map entry_key (flatten m))(Some k := r)"
  shows "tm_map m' = (tm_map m)(k := map_option me_value r)"
  using assms by (auto simp: tm_map_def fun_eq_iff)

lemma tm_get_ok:
  assumes "tm_invar m"
  shows "tm_get m k = tm_map m k"
proof (cases "flatten m = []")
  case True
  moreover have "snd (snd (tree_find map_dim m (cmp (Some k)) Bias.Left)) = None"
    using map_tree.find_empty [of m] True assms by (simp add: tree_find_def tm_invar_def)
  ultimately show ?thesis
    by (cases "tree_find map_dim m (cmp (Some k)) Bias.Left") (simp add: tm_get_def tm_map_def)
next
  case False
  have m: "wf_tree map_ops m" "keys_sorted entry_key (flatten m)" using assms by (simp_all add: tm_invar_def)
  have "tm_get m k = map_option me_value (first_equal entry_key (Some k) (from_key entry_key (Some k) (flatten m)))"
    using map_tree.tree_find_ok(1) [OF m(1) False map_monot_key [OF m(2)] map_scan_key, of "Some k"]
    by (cases "from_key entry_key (Some k) (flatten m)") (auto simp: tm_get_def first_equal_def list_first_def)
  then show ?thesis by (simp add: first_equal_map [OF m(2)] tm_map_def)
qed

lemma tm_insert_ok:
  assumes "tm_invar m" "tm_usable m"
  shows "\<exists>m'. tm_insert m k v = Some m' \<and> tm_insert_or_replace m k v = Some (m', tm_map m k) \<and>
    tm_invar m' \<and> tm_map m' = (tm_map m)(k \<mapsto> v)"
proof -
  let ?e = "\<lparr>me_key = k, me_value = v\<rparr>"
  have m: "wf_tree map_ops m" "height m < 16" "keys_sorted entry_key (flatten m)"
    using assms by (simp_all add: tm_invar_def tm_usable_def)
  have k: "entry_key ?e = Some k" by (simp add: entry_key_def)
  obtain m' where m': "insert_or_replace map_ops map_dim entry_key m ?e = Some (m', key_map entry_key (flatten m) (Some k))"
    "wf_tree map_ops m'" "flatten m' = below entry_key (Some k) (flatten m) @ ?e # drop_equal entry_key (Some k) (from_key entry_key (Some k) (flatten m))"
    using map_tree.insert_or_replace_ok [OF m, of ?e] unfolding k first_equal_map [OF m(3)] by blast
  have "tm_invar m'" "key_map entry_key (flatten m') = (key_map entry_key (flatten m))(Some k := Some ?e)"
    using insert_list_map [OF m(3), of ?e] m'(2) by (simp_all only: k m'(3) tm_invar_def simp_thms)
  with tm_map_upd [OF this(2)] m'(1) show ?thesis
    by (simp add: tm_insert_def tm_insert_or_replace_def tm_map_def)
qed

text \<open>The common start of \<open>remove\<close> and \<open>update\<close>.\<close>

lemma tm_slice_ok:
  assumes "tm_invar m" "tm_usable m"
  obtains c acc p where
    "cursor_slice map_ops map_dim (cursor_new map_dim m) (cmp (Some k)) Bias.Left = Some (c, acc)"
    "wf_tree map_ops acc" "flatten acc = below entry_key (Some k) (flatten m)" "c_tree c = m"
    "cursor_at map_ops map_dim c (below entry_key (Some k) (flatten m)) (from_key entry_key (Some k) (flatten m))"
    "cursor_end map_dim c = Some p"
    "cmp (Some k) p = Equal \<longleftrightarrow> first_equal entry_key (Some k) (from_key entry_key (Some k) (flatten m)) \<noteq> None"
    "cursor_item c = Some (list_first (from_key entry_key (Some k) (flatten m)))"
proof -
  let ?xs = "flatten m"
  have m: "wf_tree map_ops m" "height m < 16" "keys_sorted entry_key ?xs"
    using assms by (simp_all add: tm_invar_def tm_usable_def)
  obtain c acc where c: "cursor_slice map_ops map_dim (cursor_new map_dim m) (cmp (Some k)) Bias.Left = Some (c, acc)"
    "wf_tree map_ops acc" "flatten acc = below entry_key (Some k) ?xs" "c_tree c = m"
    and at: "cursor_at map_ops map_dim c (below entry_key (Some k) ?xs) (from_key entry_key (Some k) ?xs)"
    using map_tree.slice_new_ok [OF m, of "Some k"] by (auto simp: map_dim_def)
  have wf: "wf_tree map_ops (c_tree c)" using m c(4) by simp
  have pos: "c_position c \<noteq> Some k"
  proof (cases "below entry_key (Some k) ?xs = []")
    case True
    with at show ?thesis by (simp add: cursor_at_def map_adv_key map_dim_def)
  next
    case False
    with below_less [OF last_in_set [OF False]] at show ?thesis by (auto simp: cursor_at_def map_adv_key)
  qed
  show ?thesis
  proof (rule that [OF c at map_tree.cursor_item_ok(3) [OF wf at] _ map_tree.cursor_item_ok(1) [OF wf at]])
    show "(cmp (Some k) (case from_key entry_key (Some k) ?xs of [] \<Rightarrow> c_position c
        | x # _ \<Rightarrow> dim_add map_dim (c_position c) (item_summary map_ops x)) = Equal) =
      (first_equal entry_key (Some k) (from_key entry_key (Some k) ?xs) \<noteq> None)"
      using pos by (cases "from_key entry_key (Some k) ?xs")
        (auto simp: first_equal_def map_key_position)
  qed
qed

lemma tm_next_ok:
  assumes "tm_invar (c_tree c)" "tm_usable (c_tree c)" "cursor_at map_ops map_dim c before (x # after)"
  shows "\<exists>c'. cursor_next map_dim c = Some c' \<and> c_tree c' = c_tree c \<and> cursor_at map_ops map_dim c' (before @ [x]) after"
  using map_tree.search_forward_ok [OF _ _ filter_mono_True assms(3)] assms(1,2)
  by (auto simp: cursor_next_def rejected_True takeWhile_False tm_invar_def tm_usable_def)

lemma tm_suffix_ok:
  assumes "tm_invar (c_tree c)" "tm_usable (c_tree c)" "cursor_at map_ops map_dim c before after" "wf_tree map_ops acc"
  shows "\<exists>c' suffix m'. cursor_suffix map_ops map_dim c = Some (c', suffix) \<and> append_tree map_ops acc suffix = Some m' \<and>
    wf_tree map_ops m' \<and> flatten m' = flatten acc @ after"
proof -
  obtain c' s where "cursor_suffix map_ops map_dim c = Some (c', s)" "wf_tree map_ops s" "flatten s = after"
    using map_tree.cursor_suffix_ok [OF _ _ cursor_ready_at [OF assms(3)]] assms(1,2)
    by (auto simp: tm_invar_def tm_usable_def)
  with map_tree.append_tree_ok [OF assms(4), of s] show ?thesis by auto
qed

lemma tm_remove_ok:
  assumes m: "tm_invar m" "tm_usable m"
  shows "\<exists>m'. tm_remove m k = Some (m', tm_map m k) \<and> tm_invar m' \<and> tm_map m' = (tm_map m)(k := None)"
proof -
  let ?after = "from_key entry_key (Some k) (flatten m)" and ?b = "below entry_key (Some k) (flatten m)"
  have sorted: "keys_sorted entry_key (flatten m)" using m by (simp add: tm_invar_def)
  obtain c acc p where c: "cursor_slice map_ops map_dim (cursor_new map_dim m) (cmp (Some k)) Bias.Left = Some (c, acc)"
    "wf_tree map_ops acc" "flatten acc = ?b" "c_tree c = m" and at: "cursor_at map_ops map_dim c ?b ?after"
    and p: "cursor_end map_dim c = Some p" "cmp (Some k) p = Equal \<longleftrightarrow> first_equal entry_key (Some k) ?after \<noteq> None"
      "cursor_item c = Some (list_first ?after)"
    by (rule tm_slice_ok [OF m])
  obtain c2 b2 where step: "(if cmp (Some k) p = Equal then do {
        res \<leftarrow> cursor_item c; item \<leftarrow> res; c2 \<leftarrow> cursor_next map_dim c; Some (c2, Some (me_value item)) }
      else Some (c, None)) = Some (c2, map_option me_value (first_equal entry_key (Some k) ?after))"
    "c_tree c2 = m" "cursor_at map_ops map_dim c2 b2 (drop_equal entry_key (Some k) ?after)"
  proof (cases "first_equal entry_key (Some k) ?after")
    case None
    then have "drop_equal entry_key (Some k) ?after = ?after"
      by (auto simp: first_equal_def drop_equal_def split: list.splits if_splits)
    with None at c(4) p show ?thesis by (intro that [of c ?b]) simp_all
  next
    case (Some x)
    then obtain ys where x: "?after = x # ys" "entry_key x = Some k"
      by (auto simp: first_equal_def split: list.splits if_splits)
    obtain c2 where "cursor_next map_dim c = Some c2" "c_tree c2 = c_tree c" "cursor_at map_ops map_dim c2 (?b @ [x]) ys"
      using tm_next_ok [of c ?b x ys] at m c(4) unfolding x(1) by auto
    with Some p c(4) x show ?thesis
      by (intro that [of c2 "?b @ [x]"]) (simp_all add: list_first_def drop_equal_def)
  qed
  obtain c3 s m' where m': "cursor_suffix map_ops map_dim c2 = Some (c3, s)" "append_tree map_ops acc s = Some m'"
    "wf_tree map_ops m'" "flatten m' = ?b @ drop_equal entry_key (Some k) ?after"
    using tm_suffix_ok [OF _ _ step(3) c(2)] m step(2) c(3) by auto
  have "tm_invar m'" using remove_list_sorted [OF sorted] m'(3,4) by (simp add: tm_invar_def)
  moreover have "tm_map m' = (tm_map m)(k := None)"
    using tm_map_upd [of m' m k None] key_map_split [OF sorted, of "Some k"] m'(4) by simp
  moreover have "tm_remove m k = Some (m', tm_map m k)"
    using c(1) p(1) step(1) m'(1,2) first_equal_map [OF sorted, of "Some k"] by (simp add: tm_remove_def tm_map_def)
  ultimately show ?thesis by blast
qed

lemma tm_update_ok:
  assumes m: "tm_invar m" "tm_usable m"
  shows "\<exists>m'. tm_update m k f = Some (m', map_option (\<lambda>v. snd (f v)) (tm_map m k)) \<and> tm_invar m' \<and>
    tm_map m' = (tm_map m)(k := map_option (\<lambda>v. fst (f v)) (tm_map m k))"
proof -
  let ?after = "from_key entry_key (Some k) (flatten m)" and ?b = "below entry_key (Some k) (flatten m)"
  have sorted: "keys_sorted entry_key (flatten m)" and wf: "wf_tree map_ops m" using m by (simp_all add: tm_invar_def)
  obtain c acc p where c: "cursor_slice map_ops map_dim (cursor_new map_dim m) (cmp (Some k)) Bias.Left = Some (c, acc)"
    "wf_tree map_ops acc" "flatten acc = ?b" "c_tree c = m" and at: "cursor_at map_ops map_dim c ?b ?after"
    and p: "cursor_end map_dim c = Some p" "cmp (Some k) p = Equal \<longleftrightarrow> first_equal entry_key (Some k) ?after \<noteq> None"
      "cursor_item c = Some (list_first ?after)"
    by (rule tm_slice_ok [OF m])
  note first = first_equal_map [OF sorted, of "Some k"]
  show ?thesis
  proof (cases "first_equal entry_key (Some k) ?after")
    case None
    obtain c3 s m' where m': "cursor_suffix map_ops map_dim c = Some (c3, s)" "append_tree map_ops acc s = Some m'"
      "wf_tree map_ops m'" "flatten m' = flatten m"
      using tm_suffix_ok [OF _ _ at c(2)] m c(3,4) by auto
    have "tm_map m k = None" using first None by (simp add: tm_map_def)
    moreover from this have "tm_map m' = (tm_map m)(k := None)"
      using m'(4) by (auto simp: tm_map_def fun_eq_iff)
    moreover have "tm_invar m'" using m'(3,4) sorted by (simp add: tm_invar_def)
    ultimately show ?thesis using None c(1) p(1,2) m'(1,2) by (simp add: tm_update_def)
  next
    case (Some x)
    then obtain ys where x: "?after = x # ys" "entry_key x = Some k"
      by (auto simp: first_equal_def split: list.splits if_splits)
    let ?x = "x\<lparr>me_value := fst (f (me_value x))\<rparr>"
    have kx: "entry_key ?x = Some k" using x(2) by (simp add: entry_key_def)
    obtain c2 where c2: "cursor_next map_dim c = Some c2" "c_tree c2 = m" "cursor_at map_ops map_dim c2 (?b @ [x]) ys"
      using tm_next_ok [of c ?b x ys] at m c(4) unfolding x(1) by auto
    obtain acc2 where acc2: "push map_ops acc ?x = Some acc2" "wf_tree map_ops acc2" "flatten acc2 = ?b @ [?x]"
      using map_tree.push_ok [OF c(2)] c(3) by metis
    obtain c3 s m' where m': "cursor_suffix map_ops map_dim c2 = Some (c3, s)" "append_tree map_ops acc2 s = Some m'"
      "wf_tree map_ops m'" "flatten m' = ?b @ ?x # drop_equal entry_key (Some k) ?after"
      using tm_suffix_ok [OF _ _ c2(3) acc2(2)] m c2(2) acc2(3) x by (auto simp: drop_equal_def)
    have mk: "tm_map m k = Some (me_value x)" using first Some by (simp add: tm_map_def flip: first)
    have "tm_invar m'" using insert_list_map(1) [OF sorted, of ?x] m'(3) by (simp only: kx m'(4) tm_invar_def simp_thms)
    moreover have "tm_map m' = (tm_map m)(k \<mapsto> fst (f (me_value x)))"
      using tm_map_upd [of m' m k "Some ?x"] insert_list_map(2) [OF sorted, of ?x] unfolding kx m'(4) by simp
    ultimately show ?thesis
      using Some c(1) p x(1) acc2(1) c2(1) m'(1,2) mk by (simp add: tm_update_def list_first_def)
  qed
qed

lemma map_target_cmp: "map_target (cmp a) = cmp (Some a)"
  by (auto simp: map_target_def cmp_def fun_eq_iff split: option.split)

lemma tm_seek_ok:
  assumes m: "tm_invar m" "tm_usable m" "c_tree c = m"
  shows "\<exists>c' hit. cursor_seek map_dim c (cmp (Some k)) Bias.Left = Some (c', hit) \<and> c_tree c' = m \<and>
    cursor_at map_ops map_dim c' (below entry_key (Some k) (flatten m)) (from_key entry_key (Some k) (flatten m))"
proof -
  have sorted: "keys_sorted entry_key (flatten m)" using m by (simp add: tm_invar_def)
  have "cmp (Some k) (dim_zero map_dim) \<noteq> Less" by (simp add: map_dim_def)
  from map_tree.cursor_seek_ok [OF _ _ this map_monot_key map_scan_key, of c] m sorted
  show ?thesis by (auto simp: tm_invar_def tm_usable_def)
qed

lemma key_map_range:
  fixes key :: "'a \<Rightarrow> 'k::linorder"
  assumes sorted: "keys_sorted key xs" and le: "a \<le> b"
  shows "key_map key (below key a xs @ from_key key b xs) k = (if a \<le> k \<and> k < b then None else key_map key xs k)"
proof -
  have split: "key_map key xs k = (key_map key (from_key key j xs) ++ key_map key (below key j xs)) k" for j
    by (metis key_map_simps(3) takeWhile_dropWhile_id)
  have low: "key_map key (below key j xs) k = None" if "j \<le> k" for j
    using that below_less by (intro key_map_outside(1) [of _ _ j]) fastforce+
  have high: "key_map key (from_key key j xs) k = None" if "k < j" for j
    using that from_key_ge [OF sorted] by (intro key_map_outside(2) [of _ j]) fastforce+
  consider "k < a" | "a \<le> k" "k < b" | "b \<le> k" by (meson not_le)
  then show ?thesis
  proof cases
    case 1
    with le have "k < b" "\<not> a \<le> k" by simp_all
    with 1 high [of a] high [of b] split [of a] show ?thesis by (simp add: map_add_def split: option.split)
  next
    case 2
    with low [of a] high [of b] show ?thesis by (simp add: map_add_def)
  next
    case 3
    with le have "a \<le> k" "\<not> k < b" by simp_all
    with low [OF 3] low [OF this(1)] split [of b] show ?thesis by (simp add: map_add_def)
  qed
qed

lemma tm_remove_range_ok:
  assumes m: "tm_invar m" "tm_usable m" and le: "a \<le> b"
  shows "\<exists>m'. tm_remove_range m (cmp a) (cmp b) = Some m' \<and> tm_invar m' \<and>
    tm_map m' = (\<lambda>k. if a \<le> k \<and> k < b then None else tm_map m k)"
proof -
  let ?xs = "flatten m" and ?b = "below entry_key (Some a) (flatten m)" and ?f = "from_key entry_key (Some b) (flatten m)"
  have sorted: "keys_sorted entry_key ?xs" using m by (simp add: tm_invar_def)
  obtain c acc p where c: "cursor_slice map_ops map_dim (cursor_new map_dim m) (cmp (Some a)) Bias.Left = Some (c, acc)"
    "wf_tree map_ops acc" "flatten acc = ?b" "c_tree c = m"
    by (rule tm_slice_ok [OF m])
  obtain c2 hit where c2: "cursor_seek map_dim c (cmp (Some b)) Bias.Left = Some (c2, hit)" "c_tree c2 = m"
    "cursor_at map_ops map_dim c2 (below entry_key (Some b) ?xs) ?f"
    using tm_seek_ok [OF m c(4)] by blast
  obtain c3 s m' where m': "cursor_suffix map_ops map_dim c2 = Some (c3, s)" "append_tree map_ops acc s = Some m'"
    "wf_tree map_ops m'" "flatten m' = ?b @ ?f"
    using tm_suffix_ok [OF _ _ c2(3) c(2)] m c2(2) c(3) by auto
  have bs: "\<forall>x \<in> set ?b. entry_key x < Some a" "\<forall>x \<in> set ?f. Some b \<le> entry_key x"
    using below_less from_key_ge [OF sorted] by fast+
  have "keys_sorted entry_key (?b @ ?f)"
  proof -
    have "Some a \<le> Some b" using le by simp
    then have "\<forall>x \<in> set ?b. \<forall>y \<in> set ?f. entry_key x < entry_key y"
      using bs by (meson order.strict_trans2)
    with keys_sorted_takeWhile [OF sorted] keys_sorted_dropWhile [OF sorted] show ?thesis
      by (simp only: keys_sorted_simps)
  qed
  moreover have "tm_map m' k = (if a \<le> k \<and> k < b then None else tm_map m k)" for k
    using key_map_range [OF sorted, of "Some a" "Some b" "Some k"] le by (simp add: tm_map_def m'(4))
  ultimately show ?thesis
    using c(1) c2(1) m' by (auto simp: tm_remove_range_def map_target_cmp tm_invar_def)
qed

text \<open>The entry with the greatest key up to a given one.\<close>

lemma last_up_to:
  assumes "keys_sorted entry_key xs" "e \<in> set xs" "entry_key e \<le> k"
  shows "takeWhile (\<lambda>x. entry_key x \<le> k) xs \<noteq> [] \<and> entry_key e \<le> entry_key (last (takeWhile (\<lambda>x. entry_key x \<le> k) xs))"
  using assms
proof (induction xs)
  case (Cons x xs)
  have x: "entry_key x \<le> k" using Cons.prems by (auto intro: less_imp_le order_trans)
  show ?case
  proof (cases "e \<in> set xs")
    case True
    with Cons x show ?thesis by simp
  next
    case False
    then have "e = x" using Cons.prems by simp
    moreover have "takeWhile (\<lambda>x. entry_key x \<le> k) xs = [] \<or>
        entry_key x < entry_key (last (takeWhile (\<lambda>x. entry_key x \<le> k) xs))"
      using Cons.prems(1) by (metis keys_sorted_simps(2) last_in_set set_takeWhileD)
    ultimately show ?thesis using x by auto
  qed
qed simp

lemma scan_up_to:
  "map_tree.scan (passes (cmp k) Bias.Right) p xs =
     (takeWhile (\<lambda>x. entry_key x \<le> k) xs, map_tree.adv p (takeWhile (\<lambda>x. entry_key x \<le> k) xs),
      dropWhile (\<lambda>x. entry_key x \<le> k) xs)"
  by (induction xs arbitrary: p) (simp_all add: Let_def map_key_position map_tree.passes_key)

lemma tm_closest_run:
  assumes m: "tm_invar m" "tm_usable m"
  shows "tm_closest m k = Some (map_option (\<lambda>e. (me_key e, me_value e))
    (list_last (takeWhile (\<lambda>x. entry_key x \<le> Some k) (flatten m))))"
proof -
  let ?xs = "flatten m" and ?b = "takeWhile (\<lambda>x. entry_key x \<le> Some k) (flatten m)"
  have m': "wf_tree map_ops m" "height m < 16" "keys_sorted entry_key ?xs"
    using m by (simp_all add: tm_invar_def tm_usable_def)
  have "cmp (Some k) (dim_zero map_dim) \<noteq> Less" by (simp add: map_dim_def)
  from map_tree.cursor_seek_ok [OF _ _ this map_monot_key scan_up_to, of "cursor_new map_dim m"] m'
  obtain c hit where c: "cursor_seek map_dim (cursor_new map_dim m) (cmp (Some k)) Bias.Right = Some (c, hit)"
    "cursor_at map_ops map_dim c ?b (dropWhile (\<lambda>x. entry_key x \<le> Some k) ?xs)" "c_tree c = m"
    by (auto simp: cursor_fresh_new)
  have root: "wf_tree map_ops (c_tree c)" "height (c_tree c) < 16" using m' c(3) by simp_all
  have "\<exists>c2. cursor_prev map_dim c = Some c2 \<and> cursor_item c2 = Some (list_last ?b)"
  proof (cases "?xs = []")
    case True
    with c is_empty.simps map_tree.is_empty_flatten [OF root(1)] show ?thesis
      by (auto simp: cursor_prev_def search_backward_def cursor_at_def cursor_item_def list_last_def)
  next
    case False
    obtain c2 where c2: "cursor_prev map_dim c = Some c2" "c_tree c2 = m"
      "map_tree.stepped_back (\<lambda>_. True) c2 ?b (dropWhile (\<lambda>x. entry_key x \<le> Some k) ?xs)"
      using map_tree.search_backward_ok [OF root filter_mono_True disjI1 [OF c(2)]] False c(3)
      by (auto simp: cursor_prev_def)
    show ?thesis
    proof (cases "?b = []")
      case True
      with c2 show ?thesis
        by (auto simp: map_tree.stepped_back_def map_tree.cursor_rewound_def cursor_item_def list_last_def)
    next
      case nonempty: False
      then obtain pre y ws where b: "?b = pre @ y # ws" "\<forall>w \<in> set ws. False"
        "cursor_at map_ops map_dim c2 pre (y # ws @ dropWhile (\<lambda>x. entry_key x \<le> Some k) ?xs)"
        using c2(3) unfolding map_tree.stepped_back_def rejected_True by (metis (no_types, lifting) last_in_set)
      with map_tree.cursor_item_ok(1) [OF _ b(3)] m'(1) c2(1,2) show ?thesis
        by (auto simp: list_first_def list_last_def)
    qed
  qed
  with c(1) show ?thesis by (auto simp: tm_closest_def)
qed

lemma tm_map_Some:
  assumes "tm_invar m"
  shows "tm_map m k = Some v \<longleftrightarrow> (\<exists>e \<in> set (flatten m). me_key e = k \<and> me_value e = v)"
proof -
  have "distinct (map fst (map (\<lambda>x. (entry_key x, x)) (flatten m)))"
    using assms by (auto simp: tm_invar_def keys_sorted_def comp_def strict_sorted_iff)
  from map_of_eq_Some_iff [OF this] show ?thesis
    by (auto simp: tm_map_def key_map_def entry_key_def)
qed

lemma tm_closest_ok:
  assumes m: "tm_invar m" "tm_usable m"
  obtains r where "tm_closest m k = Some r"
    "case r of Some (j, v) \<Rightarrow> tm_map m j = Some v \<and> j \<le> k \<and> (\<forall>i. tm_map m i \<noteq> None \<and> i \<le> k \<longrightarrow> i \<le> j)
     | None \<Rightarrow> (\<forall>i. tm_map m i \<noteq> None \<longrightarrow> k < i)"
proof -
  let ?b = "takeWhile (\<lambda>x. entry_key x \<le> Some k) (flatten m)"
  have sorted: "keys_sorted entry_key (flatten m)" using m by (simp add: tm_invar_def)
  have later: "?b \<noteq> [] \<and> i \<le> me_key (last ?b)" if "tm_map m i \<noteq> None" "i \<le> k" for i
  proof -
    have "Some i \<in> entry_key ` set (flatten m)" using that(1) unfolding tm_map_None by simp
    then obtain e where "e \<in> set (flatten m)" "entry_key e = Some i" by auto
    with last_up_to [OF sorted, of e "Some k"] that(2) show ?thesis by (simp add: entry_key_def)
  qed
  show ?thesis
  proof (rule that [OF tm_closest_run [OF m]], cases "?b = []")
    case True
    with later show "case map_option (\<lambda>e. (me_key e, me_value e)) (list_last ?b) of
        Some (j, v) \<Rightarrow> tm_map m j = Some v \<and> j \<le> k \<and> (\<forall>i. tm_map m i \<noteq> None \<and> i \<le> k \<longrightarrow> i \<le> j)
      | None \<Rightarrow> (\<forall>i. tm_map m i \<noteq> None \<longrightarrow> k < i)"
      by (simp add: list_last_def) (meson not_le)
  next
    case False
    then have "last ?b \<in> set (flatten m)" "me_key (last ?b) \<le> k"
      using set_takeWhileD [OF last_in_set [OF False]] by (simp_all add: entry_key_def)
    with False later show "case map_option (\<lambda>e. (me_key e, me_value e)) (list_last ?b) of
        Some (j, v) \<Rightarrow> tm_map m j = Some v \<and> j \<le> k \<and> (\<forall>i. tm_map m i \<noteq> None \<and> i \<le> k \<longrightarrow> i \<le> j)
      | None \<Rightarrow> (\<forall>i. tm_map m i \<noteq> None \<longrightarrow> k < i)"
      by (auto simp: list_last_def tm_map_Some [OF m(1)])
  qed
qed

lemma tm_iter_from_ok:
  assumes m: "tm_invar m" "tm_usable m" and n: "length (flatten m) < n"
  shows "\<exists>c. tm_iter_from m k = Some c \<and>
    cursor_take map_dim (\<lambda>_. True) n c = Some (filter (\<lambda>e. k \<le> me_key e) (flatten m))"
proof -
  have sorted: "keys_sorted entry_key (flatten m)" using m by (simp add: tm_invar_def)
  obtain c hit where c: "cursor_seek map_dim (cursor_new map_dim m) (cmp (Some k)) Bias.Left = Some (c, hit)" "c_tree c = m"
    "cursor_at map_ops map_dim c (below entry_key (Some k) (flatten m)) (from_key entry_key (Some k) (flatten m))"
    using tm_seek_ok [OF m cursor_fresh_new(2)] by blast
  have "from_key entry_key (Some k) xs = filter (\<lambda>e. k \<le> me_key e) xs" if "keys_sorted entry_key xs" for xs :: "('a, 'b) MapEntry list"
    using that
  proof (induction xs)
    case (Cons x xs)
    have "filter (\<lambda>e. k \<le> me_key e) xs = xs" if "k \<le> me_key x"
      using Cons.prems that by (auto simp: entry_key_def filter_id_conv intro: order.strict_trans1 less_imp_le)
    with Cons show ?case by (auto simp: entry_key_def)
  qed simp
  moreover have "length (from_key entry_key (Some k) (flatten m)) < n"
    using n by (meson le_less_trans length_dropWhile_le)
  ultimately show ?thesis
    using map_tree.cursor_take_ok [OF _ _ filter_mono_True c(3), of n] c(1,2) m sorted
    by (simp add: tm_iter_from_def rejected_True tm_invar_def tm_usable_def dropWhile_eq_self_iff)
qed

lemma retain_loop_ok:
  assumes "tm_invar (c_tree c)" "tm_usable (c_tree c)" "cursor_at map_ops map_dim c before after"
    "wf_tree map_ops new_map" "length after < n"
  shows "\<exists>m'. retain_loop predicate n c new_map = Some m' \<and> wf_tree map_ops m' \<and>
    flatten m' = flatten new_map @ filter (\<lambda>e. predicate (me_key e) (me_value e)) after"
  using assms
proof (induction after arbitrary: c before new_map n)
  case Nil
  then obtain k where "n = Suc k" by (cases n) auto
  with Nil map_tree.cursor_item_ok(1) [OF _ Nil.prems(3)] show ?case
    by (simp add: list_first_def tm_invar_def)
next
  case (Cons x after)
  then obtain k where n: "n = Suc k" "length after < k" by (cases n) auto
  obtain c' where c': "cursor_next map_dim c = Some c'" "c_tree c' = c_tree c" "cursor_at map_ops map_dim c' (before @ [x]) after"
    using tm_next_ok [OF Cons.prems(1-3)] by blast
  have item: "cursor_item c = Some (Some x)"
    using map_tree.cursor_item_ok(1) [OF _ Cons.prems(3)] Cons.prems(1) by (simp add: list_first_def tm_invar_def)
  obtain new' where new': "(if predicate (me_key x) (me_value x) then push map_ops new_map x else Some new_map) = Some new'"
    "wf_tree map_ops new'" "flatten new' = flatten new_map @ filter (\<lambda>e. predicate (me_key e) (me_value e)) [x]"
    using map_tree.push_ok [OF Cons.prems(4), of x] Cons.prems(4) by (cases "predicate (me_key x) (me_value x)") auto
  from Cons.IH [OF _ _ c'(3) new'(2) n(2)] Cons.prems(1,2) c'(2)
  obtain m' where "retain_loop predicate k c' new' = Some m'" "wf_tree map_ops m'"
    "flatten m' = flatten new' @ filter (\<lambda>e. predicate (me_key e) (me_value e)) after" by auto
  with item new'(1,3) c'(1) n(1) show ?case by auto
qed

lemma keys_sorted_filter: "keys_sorted key xs \<Longrightarrow> keys_sorted key (filter P xs)"
  by (induction xs) auto

lemma option_eqI: "(\<And>v. a = Some v \<longleftrightarrow> b = Some v) \<Longrightarrow> a = b"
  by (cases a; cases b) auto

lemma tm_retain_ok:
  assumes m: "tm_invar m" "tm_usable m"
  shows "\<exists>m'. tm_retain m predicate = Some m' \<and> tm_invar m' \<and>
    tm_map m' = (\<lambda>k. case tm_map m k of Some v \<Rightarrow> if predicate k v then Some v else None | None \<Rightarrow> None)"
proof -
  have m': "wf_tree map_ops m" "height m < 16" "keys_sorted entry_key (flatten m)"
    using m by (simp_all add: tm_invar_def tm_usable_def)
  obtain c where c: "cursor_next map_dim (cursor_new map_dim m) = Some c" "c_tree c = m"
    "cursor_at map_ops map_dim c [] (flatten m)"
    using map_tree.search_forward_from_start [OF _ _ filter_mono_True, of "cursor_new map_dim m"] m'
    by (auto simp: cursor_fresh_new cursor_next_def rejected_True takeWhile_False)
  from retain_loop_ok [OF _ _ c(3) map_tree.wf_new_tree, of "Suc (length (flatten m))" predicate] c(2) m
  obtain r where r: "retain_loop predicate (Suc (length (flatten m))) c (new_tree map_ops) = Some r" "wf_tree map_ops r"
    "flatten r = filter (\<lambda>e. predicate (me_key e) (me_value e)) (flatten m)"
    by (auto simp: new_tree_def)
  have inv: "tm_invar r" using r m' by (simp add: tm_invar_def keys_sorted_filter)
  have "tm_map r k = (case tm_map m k of Some v \<Rightarrow> if predicate k v then Some v else None | None \<Rightarrow> None)" for k
  proof -
    have "tm_map r k = Some v \<longleftrightarrow> tm_map m k = Some v \<and> predicate k v" for v
      by (auto simp: tm_map_Some [OF inv] tm_map_Some [OF m(1)] r(3))
    then have "tm_map r k = Some v \<longleftrightarrow> (case tm_map m k of Some v \<Rightarrow> if predicate k v then Some v else None | None \<Rightarrow> None) = Some v" for v
      by (auto split: option.split)
    then show ?thesis by (rule option_eqI)
  qed
  with inv r(1) c(1) show ?thesis by (auto simp: tm_retain_def)
qed

lemma tm_iter_ok:
  assumes m: "tm_invar m" "tm_usable m"
  shows "\<exists>kvs. tm_iter m = Some kvs \<and> tm_values m = Some (map snd kvs) \<and> sorted_wrt (<) (map fst kvs) \<and> map_of kvs = tm_map m \<and>
    tm_first m = Some (list_first kvs) \<and> tm_last m = Some (list_last kvs)"
proof -
  have m': "wf_tree map_ops m" "height m < 16" "keys_sorted entry_key (flatten m)"
    using m by (simp_all add: tm_invar_def tm_usable_def)
  let ?kvs = "map (\<lambda>e. (me_key e, me_value e)) (flatten m)"
  have "iter_take (Suc (length (flatten m))) (iter_new m) = Some (flatten m)"
    by (rule map_tree.iter_take_new [OF m'(1,2)]) simp
  then have "tm_iter m = Some ?kvs" "tm_values m = Some (map snd ?kvs)"
    by (simp_all add: tm_iter_def tm_values_def)
  moreover have "map_option (\<lambda>e. (me_key e, me_value e)) (list_first (flatten m)) = list_first ?kvs"
    "map_option (\<lambda>e. (me_key e, me_value e)) (list_last (flatten m)) = list_last ?kvs"
    by (cases "flatten m"; simp add: list_first_def list_last_def last_map)+
  moreover have "sorted_wrt (<) (map fst ?kvs)"
    using m'(3) by (simp add: keys_sorted_def sorted_wrt_map entry_key_def)
  moreover have "map_of (map (\<lambda>e. (me_key e, me_value e)) xs) k = map_option me_value (key_map entry_key xs (Some k))" for xs :: "('a, 'b) MapEntry list" and k
    by (induction xs) (auto simp: entry_key_def)
  then have "map_of ?kvs = tm_map m" by (simp add: tm_map_def fun_eq_iff)
  ultimately show ?thesis
    using map_tree.first_last_ok(1,2) [OF m'(1)] by (simp add: tm_first_def tm_last_def)
qed

lemma insert_edits_map:
  assumes "distinct (map fst kvs)"
  shows "map_option me_value (foldl (\<lambda>m e. apply_edit entry_key e m) n
      (map (\<lambda>(k, v). Insert \<lparr>me_key = k, me_value = v\<rparr>) kvs) (Some j)) =
    ((\<lambda>j. map_option me_value (n (Some j))) ++ map_of kvs) j"
  using assms
proof (induction kvs arbitrary: n)
  case (Cons kv kvs)
  obtain k v where kv: "kv = (k, v)" by (cases kv)
  have k: "k \<notin> dom (map_of kvs)" using Cons.prems by (simp add: kv dom_map_of_conv_image_fst)
  have "(\<lambda>i. map_option me_value ((n(Some k \<mapsto> \<lparr>me_key = k, me_value = v\<rparr>)) (Some i))) =
      (\<lambda>i. map_option me_value (n (Some i)))(k \<mapsto> v)" by auto
  note step = Cons.IH [of "n(Some k \<mapsto> \<lparr>me_key = k, me_value = v\<rparr>)", unfolded this map_add_upd_left [OF k]]
  have "apply_edit entry_key (Insert \<lparr>me_key = k, me_value = v\<rparr>) n = n(Some k \<mapsto> \<lparr>me_key = k, me_value = v\<rparr>)"
    by (simp add: entry_key_def)
  with step Cons.prems show ?case
    by (simp only: kv list.map foldl_Cons prod.case map_of.simps fst_conv snd_conv map_add_upd distinct.simps simp_thms)
qed simp

lemma tm_extend_ok:
  assumes m: "tm_invar m" "tm_usable m" and kvs: "distinct (map fst kvs)"
  shows "\<exists>m'. tm_extend m kvs = Some m' \<and> tm_invar m' \<and> tm_map m' = tm_map m ++ map_of kvs"
proof -
  let ?edits = "map (\<lambda>(k, v). Insert \<lparr>me_key = k, me_value = v\<rparr>) kvs :: (('a, 'b) MapEntry, 'a option) Edit list"
  have keys: "map (edit_key entry_key) ?edits = map (Some \<circ> fst) kvs"
    by (auto simp: entry_key_def)
  then have dist: "distinct (map (edit_key entry_key) ?edits)"
    using kvs by (simp add: distinct_map inj_on_def)
  have m': "wf_tree map_ops m" "height m < 16" "keys_sorted entry_key (flatten m)"
    using m by (simp_all add: tm_invar_def tm_usable_def)
  have zero: "\<forall>e \<in> set ?edits. dim_zero map_dim \<le> edit_key entry_key e" by (simp add: map_dim_def)
  obtain r where r: "tree_edit map_ops map_dim entry_key m ?edits = Some (r, removed_items entry_key (sort_key (edit_key entry_key) ?edits) (flatten m))"
    "wf_tree map_ops r" "flatten r = edit_items entry_key (sort_key (edit_key entry_key) ?edits) (flatten m)"
    using map_tree.tree_edit_ok [OF m' zero refl] by blast
  note em = edit_items_map [OF m'(3) sort_edits_strict [OF dist]] apply_edits_sort [OF dist, of "key_map entry_key (flatten m)"]
  have "tm_invar r" using r(2,3) em by (simp add: tm_invar_def)
  moreover have "tm_map r k = (tm_map m ++ map_of kvs) k" for k
  proof -
    have "tm_map r k = map_option me_value (foldl (\<lambda>m e. apply_edit entry_key e m) (key_map entry_key (flatten m)) ?edits (Some k))"
      using em r(3) by (simp add: tm_map_def)
    also have "\<dots> = (tm_map m ++ map_of kvs) k" unfolding insert_edits_map [OF kvs] tm_map_def [abs_def] ..
    finally show ?thesis .
  qed
  ultimately show ?thesis using r(1) by (auto simp: tm_extend_def)
qed

section \<open>The contract of a map\<close>

text \<open>What the clients of a map rely on, whatever implements it.  \<open>usable\<close> is the bound under
  which the updates of this implementation return.\<close>

locale map_contract =
  fixes empty_map :: 'm
    and get :: "'m \<Rightarrow> 'k \<Rightarrow> 'v option"
    and put :: "'m \<Rightarrow> 'k \<Rightarrow> 'v \<Rightarrow> 'm option"
    and delete :: "'m \<Rightarrow> 'k \<Rightarrow> ('m \<times> 'v option) option"
    and invar :: "'m \<Rightarrow> bool" and usable :: "'m \<Rightarrow> bool"
    and contents :: "'m \<Rightarrow> 'k \<Rightarrow> 'v option"
  assumes empty_law: "invar empty_map \<and> usable empty_map \<and> contents empty_map = Map.empty"
    and get_law: "invar m \<Longrightarrow> get m k = contents m k"
    and put_law: "invar m \<Longrightarrow> usable m \<Longrightarrow>
      \<exists>m'. put m k v = Some m' \<and> invar m' \<and> contents m' = (contents m)(k \<mapsto> v)"
    and delete_law: "invar m \<Longrightarrow> usable m \<Longrightarrow>
      \<exists>m'. delete m k = Some (m', contents m k) \<and> invar m' \<and> contents m' = (contents m)(k := None)"
begin

lemma get_empty: "get empty_map k = None"
  using empty_law get_law by simp

lemma get_put:
  assumes "invar m" "usable m"
  shows "\<exists>m'. put m k v = Some m' \<and> invar m' \<and> (\<forall>j. get m' j = (if j = k then Some v else get m j))"
  using put_law [OF assms, of k v] get_law assms(1) by fastforce

lemma get_delete:
  assumes "invar m" "usable m"
  shows "\<exists>m'. delete m k = Some (m', get m k) \<and> invar m' \<and> (\<forall>j. get m' j = (if j = k then None else get m j))"
  using delete_law [OF assms, of k] get_law assms(1) by fastforce

text \<open>Deleting what was just put where nothing was gives back the contents.\<close>

lemma delete_put:
  assumes "invar m" "usable m" "get m k = None" "put m k v = Some m'" "usable m'"
  shows "\<exists>m''. delete m' k = Some (m'', Some v) \<and> invar m'' \<and> get m'' = get m"
proof -
  have m': "invar m'" "contents m' = (contents m)(k \<mapsto> v)" using put_law [OF assms(1,2), of k v] assms(4) by auto
  obtain m'' where m'': "delete m' k = Some (m'', contents m' k)" "invar m''" "contents m'' = (contents m')(k := None)"
    using delete_law [OF m'(1) assms(5)] by blast
  have "get m'' j = get m j" for j
    using m' m''(2,3) assms(1,3) by (simp add: get_law)
  with m''(1,2) m'(2) show ?thesis by auto
qed

end

interpretation tree_map: map_contract tm_new tm_get tm_insert tm_remove tm_invar tm_usable tm_map
proof (unfold_locales, goal_cases)
  case 1
  show ?case by (simp add: tm_new_ok)
next
  case (2 m k)
  then show ?case by (rule tm_get_ok)
next
  case (3 m k v)
  with tm_insert_ok [OF 3, of k v] show ?case by auto
next
  case (4 m k)
  then show ?case by (rule tm_remove_ok)
qed

section \<open>Properties\<close>

text \<open>A map of two entries for the witnesses.\<close>

definition two_entries :: "(nat, nat) TreeMap" where
  "two_entries = Leaf (Some 3) [\<lparr>me_key = 1, me_value = 10\<rparr>, \<lparr>me_key = 3, me_value = 30\<rparr>] [Some 1, Some 3]"

lemma two_entries_ok: "tm_invar two_entries" "tm_usable two_entries" "tm_map two_entries = [1 \<mapsto> 10, 3 \<mapsto> 30]"
  by (auto simp: tm_invar_def tm_usable_def tm_map_def two_entries_def map_ops_def entry_key_def sum_summaries_def TREE_BASE_def)

lemma two_entries_keyed:
  "wf_tree map_ops two_entries" "height two_entries < 16" "keys_sorted entry_key (flatten two_entries)"
  using two_entries_ok by (simp_all add: tm_invar_def tm_usable_def)

text \<open>(C31) Insertion, removal and lookup in a tree of keyed items implement a finite map: on a
  well-formed tree sorted by key they do not panic, return what the map had at the key, and
  leave a well-formed, strictly sorted tree of the updated map.\<close>

theorem keyed_tree_map:
  assumes "keyed_tree ops kdim key" and "wf_tree ops t" and "height t < 16" and "keys_sorted key (flatten t)"
    and "dim_zero kdim \<le> k"
  shows "(\<exists>t'. insert_or_replace ops kdim key t item = Some (t', key_map key (flatten t) (key item)) \<and>
      wf_tree ops t' \<and> keys_sorted key (flatten t') \<and>
      key_map key (flatten t') = (key_map key (flatten t))(key item \<mapsto> item)) \<and>
    (\<exists>t'. tree_remove ops kdim key t k = Some (t', key_map key (flatten t) k) \<and>
      wf_tree ops t' \<and> keys_sorted key (flatten t') \<and>
      key_map key (flatten t') = (key_map key (flatten t))(k := None)) \<and>
    tree_get kdim t k = key_map key (flatten t) k"
proof -
  note ins = keyed_tree.insert_or_replace_ok [OF assms(1-4), of item]
  note rem = keyed_tree.tree_remove_ok [OF assms]
  show ?thesis
    using ins rem insert_list_map [OF assms(4)] remove_list_sorted [OF assms(4)] key_map_split [OF assms(4)]
      first_equal_map [OF assms(4)] keyed_tree.tree_get_ok [OF assms(1,2,4)]
    by (intro conjI) metis+
qed

theorem keyed_tree_map_witness:
  "\<exists>t'. insert_or_replace map_ops map_dim entry_key two_entries \<lparr>me_key = 3, me_value = 33\<rparr> =
     Some (t', Some \<lparr>me_key = 3, me_value = 30\<rparr>) \<and> keys_sorted entry_key (flatten t')"
  using keyed_tree_map [OF map_tree.keyed_tree_axioms two_entries_keyed, of "Some 1" "\<lparr>me_key = 3, me_value = 33\<rparr>"]
  by (auto simp: map_dim_def two_entries_def entry_key_def)

text \<open>A batch of edits with pairwise different keys has the effect of the edits one after
  the other, whatever their order, in one pass over the tree; the tree stays well formed and
  strictly sorted.\<close>

lemma tree_edit_map:
  assumes "keyed_tree ops kdim key" and "wf_tree ops t" and "height t < 16" and "keys_sorted key (flatten t)"
    and "list_all (\<lambda>e. dim_zero kdim \<le> edit_key key e) edits" and "distinct (map (edit_key key) edits)"
  shows "\<exists>t' removed. tree_edit ops kdim key t edits = Some (t', removed) \<and> wf_tree ops t' \<and> keys_sorted key (flatten t') \<and>
    key_map key (flatten t') = foldl (\<lambda>m e. apply_edit key e m) (key_map key (flatten t)) edits"
proof -
  have "\<forall>e \<in> set edits. dim_zero kdim \<le> edit_key key e" using assms(5) by (simp add: list_all_iff)
  from keyed_tree.tree_edit_ok [OF assms(1-4) this refl] edit_items_map [OF assms(4) sort_edits_strict [OF assms(6)]]
    apply_edits_sort [OF assms(6)]
  show ?thesis by metis
qed

text \<open>(C16) \<open>TreeMap\<close> refines a finite map: the updates return without a panic, keep the
  invariant and act on the finite map as documented (\<open>insert\<close>, \<open>insert_or_replace\<close>, \<open>remove\<close>,
  \<open>update\<close>, \<open>retain\<close>, \<open>remove_range\<close> of a proper range), and \<open>get\<close> reads it.\<close>

theorem tree_map_refines:
  assumes "tm_invar m" and "tm_usable m" and "a \<le> b"
  shows "tm_get m k = tm_map m k \<and>
    (\<exists>m'. tm_insert_or_replace m k v = Some (m', tm_map m k) \<and> tm_invar m' \<and> tm_map m' = (tm_map m)(k \<mapsto> v)) \<and>
    (\<exists>m'. tm_remove m k = Some (m', tm_map m k) \<and> tm_invar m' \<and> tm_map m' = (tm_map m)(k := None)) \<and>
    (\<exists>m'. tm_update m k f = Some (m', map_option (\<lambda>v. snd (f v)) (tm_map m k)) \<and> tm_invar m' \<and>
      tm_map m' = (tm_map m)(k := map_option (\<lambda>v. fst (f v)) (tm_map m k))) \<and>
    (\<exists>m'. tm_retain m pred = Some m' \<and> tm_invar m' \<and>
      tm_map m' = (\<lambda>k. case tm_map m k of Some v \<Rightarrow> if pred k v then Some v else None | None \<Rightarrow> None)) \<and>
    (\<exists>m'. tm_remove_range m (cmp a) (cmp b) = Some m' \<and> tm_invar m' \<and>
      tm_map m' = (\<lambda>k. if a \<le> k \<and> k < b then None else tm_map m k))"
  using tm_get_ok [OF assms(1), of k] tm_insert_ok [OF assms(1,2), of k v] tm_remove_ok [OF assms(1,2), of k]
    tm_update_ok [OF assms(1,2), of k f] tm_retain_ok [OF assms(1,2), of pred] tm_remove_range_ok [OF assms]
  by blast

theorem tree_map_refines_witness:
  "\<exists>m'. tm_remove two_entries 3 = Some (m', Some 30) \<and> tm_map m' = [1 \<mapsto> 10]"
  using tree_map_refines [OF two_entries_ok(1,2) order_refl, of 3 0 "\<lambda>v. (v, ())" "\<lambda>_ _. True" 0]
  by (auto simp: two_entries_ok(3))

text \<open>Ordered queries of \<open>TreeMap\<close>: \<open>closest\<close> returns the entry with the greatest key that
  is not above the given one, \<open>iter\<close> lists the map in strictly increasing key order,
  \<open>iter_from\<close> lists the entries from a key on, and \<open>first\<close> and \<open>last\<close> return the ends.\<close>

lemma tree_map_ordered_queries:
  assumes "tm_invar m" and "tm_usable m" and "length (flatten m) < n"
  shows "(\<exists>r. tm_closest m k = Some r \<and>
      (case r of Some (j, v) \<Rightarrow> tm_map m j = Some v \<and> j \<le> k \<and> (\<forall>i. tm_map m i \<noteq> None \<and> i \<le> k \<longrightarrow> i \<le> j)
       | None \<Rightarrow> (\<forall>i. tm_map m i \<noteq> None \<longrightarrow> k < i))) \<and>
    (\<exists>kvs. tm_iter m = Some kvs \<and> sorted_wrt (<) (map fst kvs) \<and> map_of kvs = tm_map m \<and>
      tm_first m = Some (list_first kvs) \<and> tm_last m = Some (list_last kvs)) \<and>
    (\<exists>c. tm_iter_from m k = Some c \<and>
      cursor_take map_dim (\<lambda>_. True) n c = Some (filter (\<lambda>e. k \<le> me_key e) (flatten m)))"
proof (intro conjI)
  show "\<exists>r. tm_closest m k = Some r \<and>
      (case r of Some (j, v) \<Rightarrow> tm_map m j = Some v \<and> j \<le> k \<and> (\<forall>i. tm_map m i \<noteq> None \<and> i \<le> k \<longrightarrow> i \<le> j)
       | None \<Rightarrow> (\<forall>i. tm_map m i \<noteq> None \<longrightarrow> k < i))"
    by (rule tm_closest_ok [OF assms(1,2), of k]) blast
qed (use tm_iter_ok [OF assms(1,2)] tm_iter_from_ok [OF assms] in blast)+

lemma tm_insert_tree_ok:
  assumes m: "tm_invar m" "tm_usable m" and other: "tm_invar other" "tm_usable other"
  shows "\<exists>m'. tm_insert_tree m other = Some m' \<and> tm_invar m' \<and> tm_map m' = tm_map m ++ tm_map other"
proof -
  obtain kvs where kvs: "tm_iter other = Some kvs" "sorted_wrt (<) (map fst kvs)" "map_of kvs = tm_map other"
    using tm_iter_ok [OF other] by blast
  have "distinct (map fst kvs)" using kvs(2) by (simp add: strict_sorted_iff)
  from tm_extend_ok [OF m this] kvs(1,3) show ?thesis
    by (auto simp: tm_insert_tree_def tm_extend_def)
qed

text \<open>\<open>extend\<close> with pairwise different keys and \<open>insert_tree\<close> override the map by the new
  entries.\<close>

lemma tree_map_extend:
  assumes "tm_invar m" and "tm_usable m" and "distinct (map fst kvs)" and "tm_invar other" and "tm_usable other"
  shows "(\<exists>m'. tm_extend m kvs = Some m' \<and> tm_invar m' \<and> tm_map m' = tm_map m ++ map_of kvs) \<and>
    (\<exists>m'. tm_insert_tree m other = Some m' \<and> tm_invar m' \<and> tm_map m' = tm_map m ++ tm_map other)"
  using tm_extend_ok [OF assms(1-3)] tm_insert_tree_ok [OF assms(1,2,4,5)] by blast

text \<open>What a batch of insertions does to a map, in whatever order edits of equal keys are sorted.\<close>

definition kv_entries :: "('k \<times> 'v) list \<Rightarrow> ('k, 'v) MapEntry list" where
  "kv_entries kvs = map (\<lambda>(k, v). \<lparr>me_key = k, me_value = v\<rparr>) kvs"

definition extended :: "('k::linorder, 'v) TreeMap \<Rightarrow> ('k \<times> 'v) list \<Rightarrow> ('k, 'v) TreeMap \<Rightarrow> bool" where
  "extended m kvs m' \<longleftrightarrow> wf_tree map_ops m' \<and>
     mset (flatten m') = mset (kv_entries kvs) + mset (filter (\<lambda>e. me_key e \<notin> fst ` set kvs) (flatten m)) \<and>
     (tm_invar m' \<longleftrightarrow> distinct (map fst kvs)) \<and>
     (distinct (map fst kvs) \<longrightarrow> tm_map m' = tm_map m ++ map_of kvs)"

lemma key_map_member:
  assumes "distinct (map key xs)" shows "key_map key xs k = Some e \<longleftrightarrow> e \<in> set xs \<and> key e = k"
proof -
  have "distinct (map fst (map (\<lambda>x. (key x, x)) xs))" using assms by (simp add: comp_def)
  note map_of_eq_Some_iff [OF this, of k e]
  then show ?thesis unfolding key_map_def by auto
qed

lemma tm_map_member:
  assumes "tm_invar m" shows "tm_map m k = Some v \<longleftrightarrow> \<lparr>me_key = k, me_value = v\<rparr> \<in> set (flatten m)"
proof -
  have "distinct (map entry_key (flatten m))"
    using assms unfolding tm_invar_def keys_sorted_def strict_sorted_iff by blast
  note key_map_member [OF this, of "Some k"]
  then have "tm_map m k = Some v \<longleftrightarrow> (\<exists>e. e \<in> set (flatten m) \<and> me_key e = k \<and> me_value e = v)"
    unfolding tm_map_def entry_key_def map_option_eq_Some by auto
  also have "\<dots> \<longleftrightarrow> \<lparr>me_key = k, me_value = v\<rparr> \<in> set (flatten m)"
  proof
    assume "\<exists>e. e \<in> set (flatten m) \<and> me_key e = k \<and> me_value e = v"
    then obtain e where e: "e \<in> set (flatten m)" "me_key e = k" "me_value e = v" by blast
    have "e = \<lparr>me_key = k, me_value = v\<rparr>" using e(2,3) by (intro MapEntry.equality) simp_all
    with e(1) show "\<lparr>me_key = k, me_value = v\<rparr> \<in> set (flatten m)" by simp
  qed force
  finally show ?thesis .
qed

lemma kv_entries_member: "\<lparr>me_key = k, me_value = v\<rparr> \<in> set (kv_entries kvs) \<longleftrightarrow> (k, v) \<in> set kvs"
  by (auto simp: kv_entries_def)

lemma kv_entries_keys: "map me_key (kv_entries kvs) = map fst kvs"
  by (auto simp: kv_entries_def)

lemma extendedI:
  assumes m: "tm_invar m" and es: "mset es = mset (kv_entries kvs)" "sorted (map me_key es)"
    and m': "wf_tree map_ops m'" "flatten m' = edit_items entry_key (map Insert es) (flatten m)"
  shows "extended m kvs m'"
proof -
  have sorted: "sorted (map entry_key es)" using es(2) by (simp add: entry_key_def sorted_map sorted_wrt_map)
  have m0: "keys_sorted entry_key (flatten m)" using m by (simp add: tm_invar_def)
  have "set es = set (kv_entries kvs)" using es(1) by (rule mset_eq_setD)
  then have keys: "me_key ` set es = fst ` set kvs" using arg_cong [OF kv_entries_keys [of kvs], of set] by simp
  have own: "entry_key x \<notin> entry_key ` set es \<longleftrightarrow> me_key x \<notin> fst ` set kvs" for x :: "('a, 'b) MapEntry"
    unfolding keys [symmetric] by (auto simp: entry_key_def)
  have all: "mset (flatten m') = mset (kv_entries kvs) + mset (filter (\<lambda>e. me_key e \<notin> fst ` set kvs) (flatten m))"
    unfolding m'(2) mset_edit_items [OF m0 sorted] own es(1) ..
  have "mset (map me_key es) = mset (map fst kvs)" using es(1) kv_entries_keys [of kvs] by (metis mset_map)
  then have dist: "distinct (map me_key es) = distinct (map fst kvs)" by (rule mset_eq_imp_distinct_iff)
  have invar: "tm_invar m' \<longleftrightarrow> distinct (map fst kvs)"
  proof
    assume "distinct (map fst kvs)"
    then have "distinct (map entry_key es)" using dist by (auto simp: distinct_map inj_on_def entry_key_def)
    moreover have "map (edit_key entry_key) (map Insert es) = map entry_key es" by simp
    ultimately have "sorted_wrt (<) (map (edit_key entry_key) (map Insert es))"
      using sorted unfolding strict_sorted_iff by (simp only: simp_thms)
    then show "tm_invar m'" using edit_items_map [OF m0] m' by (simp add: tm_invar_def)
  next
    assume "tm_invar m'"
    then have "distinct (map entry_key (flatten m'))" by (simp add: tm_invar_def keys_sorted_def strict_sorted_iff)
    then have "distinct (map me_key (flatten m'))" by (simp add: distinct_map inj_on_def entry_key_def)
    moreover have "mset (map me_key (flatten m')) = mset (map fst kvs @ map me_key (filter (\<lambda>e. me_key e \<notin> fst ` set kvs) (flatten m)))"
      using arg_cong [OF all, of "image_mset me_key"] by (simp flip: kv_entries_keys)
    ultimately have "distinct (map fst kvs @ map me_key (filter (\<lambda>e. me_key e \<notin> fst ` set kvs) (flatten m)))"
      using mset_eq_imp_distinct_iff by blast
    then show "distinct (map fst kvs)" by simp
  qed
  have "tm_map m' k = (tm_map m ++ map_of kvs) k" if d: "distinct (map fst kvs)" for k
  proof -
    have mem: "e \<in> set (flatten m') \<longleftrightarrow> e \<in> set (kv_entries kvs) \<or> e \<in> set (flatten m) \<and> me_key e \<notin> fst ` set kvs" for e
      using arg_cong [OF all, of "\<lambda>M. e \<in># M"] by simp
    have "tm_map m' k = Some v \<longleftrightarrow> (tm_map m ++ map_of kvs) k = Some v" for v
      using d invar by (auto simp: tm_map_member m mem kv_entries_member map_add_Some_iff map_of_eq_None_iff)
    then show ?thesis by (metis not_Some_eq)
  qed
  with m'(1) all invar show ?thesis unfolding extended_def by blast
qed

lemma insort_Insert: "insort_key (edit_key key) (Insert x) (map Insert ys) = map Insert (insort_key key x ys)"
  by (induction ys) simp_all

lemma sort_Insert: "sort_key (edit_key key) (map Insert xs) = map Insert (sort_key key xs)"
  by (induction xs) (simp_all add: insort_Insert)

lemma insert_entries: "map (\<lambda>(k, v). Insert \<lparr>me_key = k, me_value = v\<rparr>) kvs = map Insert (kv_entries kvs)"
  by (auto simp: kv_entries_def)

text \<open>(C32) \<open>extend\<close> of a map by any pairs of keys and values.  It does not panic and yields a
  well-formed tree of the given entries and the old entries of other keys.  It is again a map, the old
  one overridden by the new entries, exactly if no key is given twice; otherwise all entries of a repeated
  key stay in the tree and the order of the keys is no longer strict.  This holds for the edits
  sorted by key in any order among equal keys, as the unstable sort of \<open>edit\<close> allows.\<close>

theorem tm_extend_exact:
  assumes "tm_invar m" and "tm_usable m" and "mset es = mset (kv_entries kvs)" and "sorted (map me_key es)"
  shows "(\<exists>m'. tm_extend m kvs = Some m' \<and> extended m kvs m') \<and>
    (\<exists>m' removed. edit_sorted map_ops map_dim entry_key m (map Insert es) = Some (m', removed) \<and> extended m kvs m')"
proof
  have m: "wf_tree map_ops m" "height m < 16" "keys_sorted entry_key (flatten m)"
    using assms(1,2) by (simp_all add: tm_invar_def tm_usable_def)
  have run: "\<exists>m' removed. edit_sorted map_ops map_dim entry_key m (map Insert fs) = Some (m', removed) \<and> extended m kvs m'"
    if fs: "mset fs = mset (kv_entries kvs)" "sorted (map me_key fs)" for fs
  proof -
    have "sorted (map (edit_key entry_key) (map Insert fs))"
      using fs(2) by (simp add: entry_key_def sorted_map sorted_wrt_map comp_def)
    moreover have "\<forall>e \<in> set (map Insert fs). dim_zero map_dim \<le> edit_key entry_key e" by (simp add: map_dim_def)
    ultimately obtain m' where "edit_sorted map_ops map_dim entry_key m (map Insert fs) =
        Some (m', removed_items entry_key (map Insert fs) (flatten m))"
      "wf_tree map_ops m'" "flatten m' = edit_items entry_key (map Insert fs) (flatten m)"
      using map_tree.edit_sorted_ok [OF m] by blast
    then show ?thesis using extendedI [OF assms(1) fs] by blast
  qed
  show "\<exists>m' removed. edit_sorted map_ops map_dim entry_key m (map Insert es) = Some (m', removed) \<and> extended m kvs m'"
    by (rule run [OF assms(3,4)])
  let ?es = "sort_key entry_key (kv_entries kvs)"
  have sort: "sort_key (edit_key entry_key) (map (\<lambda>(k, v). Insert \<lparr>me_key = k, me_value = v\<rparr>) kvs) = map Insert ?es"
    by (simp only: insert_entries sort_Insert)
  have "sorted (map entry_key ?es)" by simp
  then have es: "mset ?es = mset (kv_entries kvs)" "sorted (map me_key ?es)"
    by (simp_all add: sorted_map sorted_wrt_map entry_key_def)
  show "\<exists>m'. tm_extend m kvs = Some m' \<and> extended m kvs m'"
  proof (cases "kvs = []")
    case True
    then show ?thesis using extendedI [OF assms(1), of "[]" "[]" m] m(1) by (simp add: tm_extend_def tree_edit_def kv_entries_def)
  next
    case False
    then have "tm_extend m kvs = map_option fst (edit_sorted map_ops map_dim entry_key m (map Insert ?es))"
      by (simp add: tm_extend_def tree_edit_def sort del: sort_key_simps)
    then show ?thesis using run [OF es] by auto
  qed
qed

theorem tm_extend_exact_witness:
  "\<exists>m'. tm_extend two_entries [(1, 11), (1, 12)] = Some m' \<and> \<not> tm_invar m' \<and> length (flatten m') = 3"
proof -
  have "\<exists>m'. tm_extend two_entries [(1, 11), (1, 12)] = Some m' \<and> extended two_entries [(1, 11), (1, 12)] m'"
    using tm_extend_exact [OF two_entries_ok(1,2), of "kv_entries [(1, 11), (1, 12)]" "[(1, 11), (1, 12)]"]
    by (simp add: kv_entries_def)
  then obtain m' where m': "tm_extend two_entries [(1, 11), (1, 12)] = Some m'" "extended two_entries [(1, 11), (1, 12)] m'" by blast
  then have "size (mset (flatten m')) = 3" by (simp add: extended_def kv_entries_def two_entries_def)
  then show ?thesis using m' by (simp add: extended_def)
qed

text \<open>\<open>TreeSet\<close> implements a set: \<open>insert\<close> adds its key, \<open>remove\<close> drops it and says whether
  it was there, \<open>contains\<close> decides membership, and no other key is touched.\<close>

lemma tree_set_laws:
  assumes "tm_invar s" and "tm_usable s"
  shows "(\<exists>s'. ts_insert s k = Some s' \<and> tm_invar s' \<and> (\<forall>j. ts_contains s' j \<longleftrightarrow> j = k \<or> ts_contains s j)) \<and>
    (\<exists>s'. ts_remove s k = Some (s', ts_contains s k) \<and> tm_invar s' \<and>
      (\<forall>j. ts_contains s' j \<longleftrightarrow> j \<noteq> k \<and> ts_contains s j))"
  using tree_map.get_put [OF assms, of k "()"] tree_map.get_delete [OF assms, of k]
  by (auto simp: ts_insert_def ts_remove_def ts_contains_def)

end
