(* ===== verification/Rope_Text.thy ===== *)
theory Rope_Text
  imports SumTree_Find
begin

unbundle bit_operations_syntax

text \<open>
  Points and text summaries of the rope (\<open>crates/rope/src/point.rs\<close>, \<open>point_utf16.rs\<close>,
  \<open>offset_utf16.rs\<close> and \<open>TextSummary\<close> of \<open>rope.rs\<close>).

  A character is its code point and a text is the list of its characters; the UTF-8 bytes
  are the encoding of the list.  Rows, columns and counts are natural numbers here although
  they are \<open>u32\<close> in the source: each of them is at most the length of the text in bytes, and
  the theory \<open>Rope_Text_Words\<close> proves that the code on \<open>u32\<close> and \<open>usize\<close> words computes the same
  numbers on texts below four gigabytes.
\<close>

section \<open>Characters\<close>

type_synonym code_point = nat
type_synonym ustr = "code_point list"

abbreviation newline :: code_point where
  "newline \<equiv> 10"

definition len_utf8 :: "code_point \<Rightarrow> nat" where
  "len_utf8 c = (if c < 0x80 then 1 else if c < 0x800 then 2 else if c < 0x10000 then 3 else 4)"

definition len_utf16 :: "code_point \<Rightarrow> nat" where
  "len_utf16 c = (if c < 0x10000 then 1 else 2)"

definition text_len :: "ustr \<Rightarrow> nat" where
  "text_len t = sum_list (map len_utf8 t)"

definition text_len_utf16 :: "ustr \<Rightarrow> nat" where
  "text_len_utf16 t = sum_list (map len_utf16 t)"

section \<open>Points\<close>

text \<open>\<open>PointUtf16\<close> has the fields and the code of \<open>Point\<close>, with columns counted in UTF-16 code
  units; \<open>OffsetUtf16\<close> wraps a count of code units.\<close>

record Point =
  row :: nat
  column :: nat

type_synonym PointUtf16 = Point
type_synonym OffsetUtf16 = nat

definition Point_new :: "nat \<Rightarrow> nat \<Rightarrow> Point" where
  "Point_new r c = \<lparr>row = r, column = c\<rparr>"

definition Point_zero :: Point where
  "Point_zero = Point_new 0 0"

definition Point_is_zero :: "Point \<Rightarrow> bool" where
  "Point_is_zero p \<longleftrightarrow> row p = 0 \<and> column p = 0"

definition Point_add :: "Point \<Rightarrow> Point \<Rightarrow> Point" where
  "Point_add p q = (if row q = 0 then Point_new (row p) (column p + column q)
     else Point_new (row p + row q) (column q))"

text \<open>Subtracting the point of a prefix; unsigned subtraction below zero panics.\<close>

definition Point_sub :: "Point \<Rightarrow> Point \<Rightarrow> Point option" where
  "Point_sub p q =
     (if row p = row q then (if column q \<le> column p then Some (Point_new 0 (column p - column q)) else None)
      else if row q \<le> row p then Some (Point_new (row p - row q) (column p)) else None)"

text \<open>The comparison packs row and column into one 64-bit word.\<close>

definition pack_point :: "Point \<Rightarrow> 64 word" where
  "pack_point p = push_bit 32 (of_nat (row p)) OR of_nat (column p)"

definition Point_cmp :: "Point \<Rightarrow> Point \<Rightarrow> Ordering" where
  "Point_cmp p q = cmp (pack_point p) (pack_point q)"

definition Point_saturating_sub :: "Point \<Rightarrow> Point \<Rightarrow> Point option" where
  "Point_saturating_sub p q = (if Point_cmp p q = Less then Some Point_zero else Point_sub p q)"

text \<open>\<open>s.split('\n')\<close>, and the point after the last line.\<close>

fun split_lines :: "ustr \<Rightarrow> ustr list" where
  "split_lines [] = [[]]"
| "split_lines (c # cs) =
     (if c = newline then [] # split_lines cs
      else (case split_lines cs of l # ls \<Rightarrow> (c # l) # ls | [] \<Rightarrow> [[c]]))"

fun parse_lines :: "nat \<Rightarrow> Point \<Rightarrow> ustr list \<Rightarrow> Point" where
  "parse_lines r p [] = p"
| "parse_lines r p (l # ls) = parse_lines (Suc r) \<lparr>row = r, column = text_len l\<rparr> ls"

definition Point_parse_str :: "ustr \<Rightarrow> Point" where
  "Point_parse_str s = parse_lines 0 Point_zero (split_lines s)"

section \<open>Text summaries\<close>

record TextSummary =
  txt_len :: nat
  txt_chars :: nat
  txt_len_utf16 :: OffsetUtf16
  txt_lines :: Point
  txt_first_line_chars :: nat
  txt_last_line_chars :: nat
  txt_last_line_len_utf16 :: nat
  txt_longest_row :: nat
  txt_longest_row_chars :: nat

definition TextSummary_zero :: TextSummary where
  "TextSummary_zero = \<lparr>txt_len = 0, txt_chars = 0, txt_len_utf16 = 0, txt_lines = Point_zero,
     txt_first_line_chars = 0, txt_last_line_chars = 0, txt_last_line_len_utf16 = 0,
     txt_longest_row = 0, txt_longest_row_chars = 0\<rparr>"

definition lines_utf16 :: "TextSummary \<Rightarrow> PointUtf16" where
  "lines_utf16 s = \<lparr>row = row (txt_lines s), column = txt_last_line_len_utf16 s\<rparr>"

definition TextSummary_newline :: TextSummary where
  "TextSummary_newline = \<lparr>txt_len = 1, txt_chars = 1, txt_len_utf16 = 1, txt_lines = Point_new 1 0,
     txt_first_line_chars = 0, txt_last_line_chars = 0, txt_last_line_len_utf16 = 0,
     txt_longest_row = 0, txt_longest_row_chars = 0\<rparr>"

definition add_newline :: "TextSummary \<Rightarrow> TextSummary" where
  "add_newline s = s\<lparr>txt_len := txt_len s + 1,
     txt_len_utf16 := txt_len_utf16 s + (txt_len_utf16 s + 1),
     txt_last_line_chars := 0, txt_last_line_len_utf16 := 0,
     txt_lines := Point_add (txt_lines s) (Point_new 1 0)\<rparr>"

text \<open>One round of the loop of \<open>TextSummary::from\<close>; the byte length is added up along the
  way.\<close>

definition summary_step :: "TextSummary \<Rightarrow> code_point \<Rightarrow> TextSummary" where
  "summary_step s c =
     (let s1 = s\<lparr>txt_len := txt_len s + len_utf8 c, txt_chars := txt_chars s + 1,
          txt_len_utf16 := txt_len_utf16 s + len_utf16 c\<rparr>;
        s2 = (if c = newline
          then s1\<lparr>txt_lines := Point_add (txt_lines s1) (Point_new 1 0),
            txt_last_line_len_utf16 := 0, txt_last_line_chars := 0\<rparr>
          else s1\<lparr>txt_lines := (txt_lines s1)\<lparr>column := column (txt_lines s1) + len_utf8 c\<rparr>,
            txt_last_line_len_utf16 := txt_last_line_len_utf16 s1 + len_utf16 c,
            txt_last_line_chars := txt_last_line_chars s1 + 1\<rparr>);
        s3 = (if row (txt_lines s2) = 0 then s2\<lparr>txt_first_line_chars := txt_last_line_chars s2\<rparr> else s2)
      in if txt_longest_row_chars s3 < txt_last_line_chars s3
         then s3\<lparr>txt_longest_row := row (txt_lines s3), txt_longest_row_chars := txt_last_line_chars s3\<rparr>
         else s3)"

definition TextSummary_from :: "ustr \<Rightarrow> TextSummary" where
  "TextSummary_from t = foldl summary_step TextSummary_zero t"

definition TextSummary_add :: "TextSummary \<Rightarrow> TextSummary \<Rightarrow> TextSummary" where
  "TextSummary_add s other =
     (let joined_chars = txt_last_line_chars s + txt_first_line_chars other;
        s1 = (if txt_longest_row_chars s < joined_chars
          then s\<lparr>txt_longest_row := row (txt_lines s), txt_longest_row_chars := joined_chars\<rparr> else s);
        s2 = (if txt_longest_row_chars s1 < txt_longest_row_chars other
          then s1\<lparr>txt_longest_row := row (txt_lines s1) + txt_longest_row other,
            txt_longest_row_chars := txt_longest_row_chars other\<rparr> else s1);
        s3 = (if row (txt_lines s2) = 0
          then s2\<lparr>txt_first_line_chars := txt_first_line_chars s2 + txt_first_line_chars other\<rparr> else s2);
        s4 = (if row (txt_lines other) = 0
          then s3\<lparr>txt_last_line_chars := txt_last_line_chars s3 + txt_first_line_chars other,
            txt_last_line_len_utf16 := txt_last_line_len_utf16 s3 + txt_last_line_len_utf16 other\<rparr>
          else s3\<lparr>txt_last_line_chars := txt_last_line_chars other,
            txt_last_line_len_utf16 := txt_last_line_len_utf16 other\<rparr>)
      in s4\<lparr>txt_chars := txt_chars s4 + txt_chars other, txt_len := txt_len s4 + txt_len other,
        txt_len_utf16 := txt_len_utf16 s4 + txt_len_utf16 other,
        txt_lines := Point_add (txt_lines s4) (txt_lines other)\<rparr>)"

section \<open>Points form a monoid ordered by rows\<close>

lemma Point_add_assoc: "Point_add (Point_add p q) r = Point_add p (Point_add q r)"
  by (simp add: Point_add_def Point_new_def)

lemma Point_add_zero: "Point_add Point_zero p = p" "Point_add p Point_zero = p"
  by (cases p; simp add: Point_add_def Point_new_def Point_zero_def)+

lemma Point_sub_add: "Point_sub (Point_add p q) p = Some q"
  by (cases q) (simp add: Point_sub_def Point_add_def Point_new_def)

lemma Point_add_sub:
  "Point_sub p q = Some d \<Longrightarrow> Point_add q d = p"
  by (cases p; cases q) (auto simp: Point_sub_def Point_add_def Point_new_def split: if_splits)

definition small_point :: "Point \<Rightarrow> bool" where
  "small_point p \<longleftrightarrow> row p < 2 ^ 32 \<and> column p < 2 ^ 32"

lemma unat_pack_point:
  assumes "small_point p"
  shows "unat (pack_point p) = row p * 2 ^ 32 + column p"
proof -
  let ?r = "of_nat (row p) :: 64 word" and ?c = "of_nat (column p) :: 64 word"
  have r: "unat ?r = row p" and c: "unat ?c = column p"
    using assms by (simp_all add: small_point_def unat_of_nat)
  have shift: "unat (push_bit 32 ?r) = row p * 2 ^ 32"
    using assms r by (simp add: small_point_def push_bit_eq_mult unat_word_ariths)
  have disj: "push_bit 32 ?r AND ?c = 0"
  proof (rule bit_word_eqI)
    fix n assume "n < LENGTH(64)"
    have "\<not> bit ?c n" if "32 \<le> n"
    proof -
      have "(2 :: nat) ^ 32 \<le> 2 ^ n" using that by (rule power_increasing) simp
      then have "column p div 2 ^ n = 0" using assms by (simp add: small_point_def)
      then have "\<not> bit (column p) n" by (simp add: bit_iff_odd)
      then show ?thesis by (simp add: bit_of_nat_iff)
    qed
    then show "bit (push_bit 32 ?r AND ?c) n = bit (0 :: 64 word) n"
      by (auto simp: bit_and_iff bit_push_bit_iff)
  qed
  have "pack_point p = push_bit 32 ?r + ?c"
    unfolding pack_point_def by (rule disjunctive_add_eq_or [OF disj, symmetric])
  then show ?thesis
    using shift c assms by (simp add: unat_word_ariths small_point_def)
qed

lemma Point_cmp_lexicographic:
  assumes "small_point p" "small_point q"
  shows "Point_cmp p q = (if row p = row q then cmp (column p) (column q) else cmp (row p) (row q))"
proof -
  have c: "column p < 2 ^ 32" "column q < 2 ^ 32" using assms by (simp_all add: small_point_def)
  have less: "r * 2 ^ 32 + a < r' * 2 ^ 32 + (b :: nat)" if "r < r'" "a < 2 ^ 32" for r r' a b
  proof -
    have "Suc r * 2 ^ 32 \<le> r' * 2 ^ 32" using that(1) by (intro mult_right_mono) auto
    with that(2) show ?thesis by simp
  qed
  consider "row p < row q" | "row p = row q" | "row q < row p" by linarith
  then show ?thesis
  proof cases
    case 1
    with less [OF 1 c(1), of "column q"] assms show ?thesis
      by (simp add: Point_cmp_def cmp_def word_less_nat_alt unat_pack_point)
  next
    case 2
    with assms show ?thesis
      by (simp add: Point_cmp_def cmp_def word_less_nat_alt unat_pack_point word_unat_eq_iff)
  next
    case 3
    with less [OF 3 c(2), of "column p"] assms show ?thesis
      by (simp add: Point_cmp_def cmp_def word_less_nat_alt unat_pack_point word_unat_eq_iff)
  qed
qed

section \<open>Summaries of texts\<close>

lemma split_lines_ne [simp]: "split_lines t \<noteq> []"
  by (induction t) (auto split: list.split)

lemma split_lines_snoc:
  "split_lines (t @ [c]) =
     (if c = newline then split_lines t @ [[]] else butlast (split_lines t) @ [last (split_lines t) @ [c]])"
proof (induction t)
  case (Cons a t)
  obtain l ls where l: "split_lines t = l # ls" by (cases "split_lines t") auto
  with Cons show ?case by (cases ls rule: rev_cases) (auto split: list.splits)
qed simp

lemma TextSummary_from_snoc: "TextSummary_from (t @ [c]) = summary_step (TextSummary_from t) c"
  by (simp add: TextSummary_from_def)

text \<open>The longest row is the first of the rows of greatest length.\<close>

definition longest_ok :: "'x list list \<Rightarrow> nat \<Rightarrow> nat \<Rightarrow> bool" where
  "longest_ok ls r n \<longleftrightarrow> r < length ls \<and> length (ls ! r) = n \<and>
     (\<forall>i < length ls. length (ls ! i) \<le> n) \<and> (\<forall>i < r. length (ls ! i) < n)"

lemma longest_ok_snoc_row:
  assumes "longest_ok ls r n" shows "longest_ok (ls @ [[]]) r n"
  using assms by (auto simp: longest_ok_def nth_append less_Suc_eq)

lemma longest_ok_snoc_char:
  assumes "longest_ok ls r n" "ls \<noteq> []"
  shows "longest_ok (butlast ls @ [last ls @ [c]])
    (if n < Suc (length (last ls)) then length ls - 1 else r) (if n < Suc (length (last ls)) then Suc (length (last ls)) else n)"
proof -
  have nth: "(butlast ls @ [last ls @ [c]]) ! i = (if i = length ls - 1 then last ls @ [c] else ls ! i)" if "i < length ls" for i
    using that by (auto simp: nth_append nth_butlast)
  have last: "last ls = ls ! (length ls - 1)" using assms(2) by (simp add: last_conv_nth)
  have len: "length (butlast ls @ [last ls @ [c]]) = length ls" using assms(2) by simp
  have all: "length (ls ! i) \<le> length (last ls)" if "n < Suc (length (last ls))" "i < length ls" for i
  proof -
    have "length (ls ! i) \<le> n" using assms(1) that(2) by (simp add: longest_ok_def)
    with that(1) show ?thesis by simp
  qed
  show ?thesis
  proof (cases "n < Suc (length (last ls))")
    case True
    with all [OF True] assms(2) nth show ?thesis unfolding longest_ok_def len
      by (simp add: less_Suc_eq_le le_SucI del: length_butlast)
  next
    case False
    with assms nth last show ?thesis unfolding longest_ok_def len by auto
  qed
qed

definition summary_ok :: "ustr \<Rightarrow> TextSummary \<Rightarrow> bool" where
  "summary_ok t s \<longleftrightarrow> (let ls = split_lines t in
     txt_len s = text_len t \<and> txt_chars s = length t \<and> txt_len_utf16 s = text_len_utf16 t \<and>
     txt_lines s = \<lparr>row = length ls - 1, column = text_len (last ls)\<rparr> \<and>
     txt_first_line_chars s = length (hd ls) \<and> txt_last_line_chars s = length (last ls) \<and>
     txt_last_line_len_utf16 s = text_len_utf16 (last ls) \<and>
     longest_ok ls (txt_longest_row s) (txt_longest_row_chars s))"

lemma summary_ok_step:
  assumes "summary_ok t s" shows "summary_ok (t @ [c]) (summary_step s c)"
proof (cases "c = newline")
  case True
  with assms longest_ok_snoc_row [of "split_lines t"] show ?thesis
    by (auto simp: summary_ok_def summary_step_def Let_def split_lines_snoc text_len_def text_len_utf16_def
        Point_add_def Point_new_def len_utf8_def len_utf16_def)
next
  case False
  let ?ls = "split_lines t"
  have hd: "hd (butlast ?ls @ [last ?ls @ [c]]) = (if length ?ls = 1 then last ?ls @ [c] else hd ?ls)"
    by (cases ?ls; cases "tl ?ls") auto
  have one: "length ?ls \<le> Suc 0 \<longleftrightarrow> length ?ls = Suc 0" using split_lines_ne [of t] by (cases ?ls) auto
  have "longest_ok ?ls (txt_longest_row s) (txt_longest_row_chars s)" using assms by (simp add: summary_ok_def Let_def)
  from False assms longest_ok_snoc_char [OF this split_lines_ne, of c] show ?thesis
    unfolding summary_ok_def Let_def split_lines_snoc
    by (auto simp: summary_step_def Let_def text_len_def text_len_utf16_def hd one split: if_splits)
qed

lemma summary_ok_from: "summary_ok t (TextSummary_from t)"
proof (induction t rule: rev_induct)
  case Nil
  show ?case
    by (simp add: summary_ok_def TextSummary_from_def TextSummary_zero_def text_len_def text_len_utf16_def
        Point_zero_def Point_new_def longest_ok_def)
next
  case (snoc c t)
  then show ?case by (simp add: TextSummary_from_snoc summary_ok_step)
qed

text \<open>Adding summaries follows appending texts, one character at a time.\<close>

definition summary_inv :: "TextSummary \<Rightarrow> bool" where
  "summary_inv s \<longleftrightarrow>
     (row (txt_lines s) = 0 \<longrightarrow> txt_first_line_chars s = txt_last_line_chars s \<and>
        txt_longest_row_chars s = txt_last_line_chars s) \<and>
     (txt_longest_row_chars s = txt_first_line_chars s \<longrightarrow> txt_longest_row s = 0) \<and>
     txt_first_line_chars s \<le> txt_longest_row_chars s \<and> txt_last_line_chars s \<le> txt_longest_row_chars s"

lemma summary_inv_from: "summary_inv (TextSummary_from t)"
proof -
  let ?ls = "split_lines t" and ?s = "TextSummary_from t"
  have ok: "txt_lines ?s = \<lparr>row = length ?ls - 1, column = text_len (last ?ls)\<rparr>" "txt_first_line_chars ?s = length (hd ?ls)"
    "txt_last_line_chars ?s = length (last ?ls)" "longest_ok ?ls (txt_longest_row ?s) (txt_longest_row_chars ?s)"
    using summary_ok_from [of t] by (simp_all add: summary_ok_def Let_def)
  have "hd ?ls = ?ls ! 0" "last ?ls = ?ls ! (length ?ls - 1)" "0 < length ?ls"
    by (simp_all add: hd_conv_nth last_conv_nth)
  then show ?thesis
    using ok by (auto simp: summary_inv_def longest_ok_def le_Suc_eq)
qed

lemma TextSummary_add_sel:
  "txt_len (TextSummary_add a b) = txt_len a + txt_len b"
  "txt_chars (TextSummary_add a b) = txt_chars a + txt_chars b"
  "txt_len_utf16 (TextSummary_add a b) = txt_len_utf16 a + txt_len_utf16 b"
  "txt_lines (TextSummary_add a b) = Point_add (txt_lines a) (txt_lines b)"
  "txt_first_line_chars (TextSummary_add a b) =
     txt_first_line_chars a + (if row (txt_lines a) = 0 then txt_first_line_chars b else 0)"
  "txt_last_line_chars (TextSummary_add a b) =
     (if row (txt_lines b) = 0 then txt_last_line_chars a + txt_first_line_chars b else txt_last_line_chars b)"
  "txt_last_line_len_utf16 (TextSummary_add a b) =
     (if row (txt_lines b) = 0 then txt_last_line_len_utf16 a else 0) + txt_last_line_len_utf16 b"
  "txt_longest_row_chars (TextSummary_add a b) =
     max (max (txt_longest_row_chars a) (txt_last_line_chars a + txt_first_line_chars b)) (txt_longest_row_chars b)"
  "txt_longest_row (TextSummary_add a b) =
     (if max (txt_longest_row_chars a) (txt_last_line_chars a + txt_first_line_chars b) < txt_longest_row_chars b
      then row (txt_lines a) + txt_longest_row b
      else if txt_longest_row_chars a < txt_last_line_chars a + txt_first_line_chars b then row (txt_lines a)
      else txt_longest_row a)"
  by (simp_all add: TextSummary_add_def Let_def max_def)

lemma summary_step_sel:
  "txt_len (summary_step s c) = txt_len s + len_utf8 c"
  "txt_chars (summary_step s c) = txt_chars s + 1"
  "txt_len_utf16 (summary_step s c) = txt_len_utf16 s + len_utf16 c"
  "txt_lines (summary_step s c) =
     Point_add (txt_lines s) (if c = newline then Point_new 1 0 else Point_new 0 (len_utf8 c))"
  "txt_last_line_chars (summary_step s c) = (if c = newline then 0 else txt_last_line_chars s + 1)"
  "txt_first_line_chars (summary_step s c) =
     (if c \<noteq> newline \<and> row (txt_lines s) = 0 then txt_last_line_chars s + 1 else txt_first_line_chars s)"
  "txt_last_line_len_utf16 (summary_step s c) =
     (if c = newline then 0 else txt_last_line_len_utf16 s + len_utf16 c)"
  "txt_longest_row_chars (summary_step s c) =
     (if c = newline then txt_longest_row_chars s else max (txt_longest_row_chars s) (txt_last_line_chars s + 1))"
  "txt_longest_row (summary_step s c) =
     (if c \<noteq> newline \<and> txt_longest_row_chars s < txt_last_line_chars s + 1 then row (txt_lines s)
      else txt_longest_row s)"
  by (simp_all add: summary_step_def Let_def Point_add_def Point_new_def)

lemma TextSummary_add_step:
  assumes "summary_inv a" "summary_inv b"
  shows "TextSummary_add a (summary_step b c) = summary_step (TextSummary_add a b) c"
proof (rule TextSummary.equality, goal_cases)
  case 5 with assms show ?case
    by (auto simp: TextSummary_add_sel summary_step_sel summary_inv_def Point_add_def Point_new_def)
next
  case 6 with assms show ?case
    by (auto simp: TextSummary_add_sel summary_step_sel summary_inv_def Point_add_def Point_new_def)
next
  case 8 with assms show ?case
    by (cases "c = newline"; cases "row (txt_lines b) = 0")
      (auto simp: TextSummary_add_sel summary_step_sel summary_inv_def Point_add_def Point_new_def max_def)
next
  case 9 with assms show ?case
    by (cases "c = newline"; cases "row (txt_lines b) = 0")
      (auto simp: TextSummary_add_sel summary_step_sel summary_inv_def Point_add_def Point_new_def max_def)
qed (simp_all add: TextSummary_add_sel summary_step_sel Point_add_def Point_new_def)

lemma TextSummary_add_zero:
  assumes "summary_inv a"
  shows "TextSummary_add a TextSummary_zero = a" "TextSummary_add TextSummary_zero a = a"
  by (rule TextSummary.equality; use assms in \<open>simp add: TextSummary_add_sel TextSummary_zero_def summary_inv_def
      Point_add_def Point_new_def Point_zero_def\<close>)+

lemma TextSummary_from_Nil: "TextSummary_from [] = TextSummary_zero"
  by (simp add: TextSummary_from_def)

lemma TextSummary_from_append: "TextSummary_from (s @ t) = TextSummary_add (TextSummary_from s) (TextSummary_from t)"
proof (induction t rule: rev_induct)
  case Nil
  show ?case by (simp add: TextSummary_from_Nil TextSummary_add_zero summary_inv_from)
next
  case (snoc c t)
  then show ?case
    by (simp only: append_assoc [symmetric] TextSummary_from_snoc TextSummary_add_step [OF summary_inv_from summary_inv_from])
qed

section \<open>Chunk summaries\<close>

text \<open>The invariant is kept by addition, and under it addition is associative.\<close>

lemma summary_inv_add:
  assumes "summary_inv a" "summary_inv b" shows "summary_inv (TextSummary_add a b)"
  using assms by (auto simp: summary_inv_def TextSummary_add_sel Point_add_def Point_new_def)

lemma summary_inv_zero: "summary_inv TextSummary_zero"
  by (simp add: summary_inv_def TextSummary_zero_def)

lemma TextSummary_add_assoc:
  assumes "summary_inv a" "summary_inv b" "summary_inv c"
  shows "TextSummary_add (TextSummary_add a b) c = TextSummary_add a (TextSummary_add b c)"
proof (rule TextSummary.equality, goal_cases)
  case 8
  with assms show ?case
    by (cases "row (txt_lines b) = 0")
      (simp_all add: TextSummary_add_sel summary_inv_def Point_add_def Point_new_def max_def)
next
  case 9
  with assms show ?case
    by (cases "row (txt_lines b) = 0")
      (simp_all add: TextSummary_add_sel summary_inv_def Point_add_def Point_new_def max_def)
qed (simp_all add: TextSummary_add_sel Point_add_assoc, simp_all add: Point_add_def Point_new_def)

typedef ChunkSummary = "{s. summary_inv s}"
  morphisms summary_text Abs_ChunkSummary
  using summary_inv_zero by blast

setup_lifting type_definition_ChunkSummary

lift_definition ChunkSummary_zero :: ChunkSummary is TextSummary_zero
  by (rule summary_inv_zero)

lift_definition ChunkSummary_add :: "ChunkSummary \<Rightarrow> ChunkSummary \<Rightarrow> ChunkSummary" is TextSummary_add
  by (rule summary_inv_add)

text \<open>The summary as one of these; the summaries of texts satisfy the invariant.\<close>

lift_definition ChunkSummary_of :: "TextSummary \<Rightarrow> ChunkSummary" is "\<lambda>s. if summary_inv s then s else TextSummary_zero"
  by (simp add: summary_inv_zero)

lemma summary_text_of: "summary_inv s \<Longrightarrow> summary_text (ChunkSummary_of s) = s"
  by (simp add: ChunkSummary_of.rep_eq)

lemma ChunkSummary_of_text: "summary_text c = s \<Longrightarrow> ChunkSummary_of s = c"
  by transfer auto

lemma ChunkSummary_add_assoc:
  "ChunkSummary_add (ChunkSummary_add a b) c = ChunkSummary_add a (ChunkSummary_add b c)"
  by transfer (rule TextSummary_add_assoc)

lemma ChunkSummary_add_zero: "ChunkSummary_add ChunkSummary_zero a = a" "ChunkSummary_add a ChunkSummary_zero = a"
  by (transfer, simp add: TextSummary_add_zero)+

section \<open>Dimensions of a text\<close>

definition usize_dim :: "(ChunkSummary, nat) dimension_ops" where
  "usize_dim = \<lparr>dim_zero = 0, dim_add = (\<lambda>d s. d + txt_len (summary_text s))\<rparr>"

definition OffsetUtf16_dim :: "(ChunkSummary, OffsetUtf16) dimension_ops" where
  "OffsetUtf16_dim = \<lparr>dim_zero = 0, dim_add = (\<lambda>d s. d + txt_len_utf16 (summary_text s))\<rparr>"

definition Point_dim :: "(ChunkSummary, Point) dimension_ops" where
  "Point_dim = \<lparr>dim_zero = Point_zero, dim_add = (\<lambda>d s. Point_add d (txt_lines (summary_text s)))\<rparr>"

definition PointUtf16_dim :: "(ChunkSummary, PointUtf16) dimension_ops" where
  "PointUtf16_dim = \<lparr>dim_zero = Point_zero, dim_add = (\<lambda>d s. Point_add d (lines_utf16 (summary_text s)))\<rparr>"

definition Dimensions :: "('s, 'd) dimension_ops \<Rightarrow> ('s, 'e) dimension_ops \<Rightarrow> ('s, 'd \<times> 'e) dimension_ops" where
  "Dimensions d1 d2 = \<lparr>dim_zero = (dim_zero d1, dim_zero d2),
     dim_add = (\<lambda>p s. (dim_add d1 (fst p) s, dim_add d2 (snd p) s))\<rparr>"

text \<open>A target of the first dimension compares with a pair by its first component.\<close>

definition fst_target :: "'d target \<Rightarrow> ('d \<times> 'e) target" where
  "fst_target target = (\<lambda>p. target (fst p))"

lemma lines_utf16_add:
  "lines_utf16 (TextSummary_add a b) = Point_add (lines_utf16 a) (lines_utf16 b)"
  by (simp add: lines_utf16_def TextSummary_add_sel Point_add_def Point_new_def)

lemmas text_dim_defs = usize_dim_def OffsetUtf16_dim_def Point_dim_def PointUtf16_dim_def

lemma text_dims_add:
  "dim_add usize_dim n (ChunkSummary_add a b) = dim_add usize_dim (dim_add usize_dim n a) b"
  "dim_add OffsetUtf16_dim n (ChunkSummary_add a b) = dim_add OffsetUtf16_dim (dim_add OffsetUtf16_dim n a) b"
  "dim_add Point_dim p (ChunkSummary_add a b) = dim_add Point_dim (dim_add Point_dim p a) b"
  "dim_add PointUtf16_dim p (ChunkSummary_add a b) = dim_add PointUtf16_dim (dim_add PointUtf16_dim p a) b"
  by (simp_all add: text_dim_defs ChunkSummary_add.rep_eq TextSummary_add_sel lines_utf16_add Point_add_assoc)

section \<open>Bounds\<close>

lemma text_len_Nil [simp]: "text_len [] = 0" and text_len_Cons: "text_len (c # t) = len_utf8 c + text_len t"
  and text_len_append [simp]: "text_len (s @ t) = text_len s + text_len t"
  by (simp_all add: text_len_def)

lemma text_len_utf16_Nil [simp]: "text_len_utf16 [] = 0"
  and text_len_utf16_Cons: "text_len_utf16 (c # t) = len_utf16 c + text_len_utf16 t"
  and text_len_utf16_append [simp]: "text_len_utf16 (s @ t) = text_len_utf16 s + text_len_utf16 t"
  by (simp_all add: text_len_utf16_def)

lemma len_utf8_bounds: "0 < len_utf8 c" "len_utf8 c \<le> 4" "len_utf16 c \<le> len_utf8 c" "0 < len_utf16 c"
  by (simp_all add: len_utf8_def len_utf16_def)

lemma length_le_text_len: "length t \<le> text_len t"
proof (induction t)
  case (Cons c t)
  with len_utf8_bounds(1) [of c] show ?case by (simp add: text_len_Cons)
qed simp

lemma utf16_le_text_len: "text_len_utf16 t \<le> text_len t"
  by (induction t) (simp_all add: text_len_Cons text_len_utf16_Cons add_le_mono len_utf8_bounds)

lemma text_len_lines: "text_len t = sum_list (map text_len (split_lines t)) + (length (split_lines t) - 1)"
proof (induction t)
  case (Cons c t)
  obtain l ls where "split_lines t = l # ls" by (cases "split_lines t") auto
  with Cons show ?case by (simp add: text_len_Cons len_utf8_def)
qed simp

lemma line_le_text_len: "l \<in> set (split_lines t) \<Longrightarrow> text_len l \<le> text_len t"
  using member_le_sum_list [of "text_len l" "map text_len (split_lines t)"] text_len_lines [of t]
  by (auto simp: le_add1 intro: order_trans)

lemma summary_bounded:
  fixes t defines "s \<equiv> TextSummary_from t"
  shows "txt_chars s \<le> txt_len s" "txt_len_utf16 s \<le> txt_len s" "row (txt_lines s) \<le> txt_len s"
    "column (txt_lines s) \<le> txt_len s" "txt_last_line_len_utf16 s \<le> txt_len s"
    "txt_longest_row s \<le> txt_len s" "txt_longest_row_chars s \<le> txt_len s"
    "txt_first_line_chars s \<le> txt_len s" "txt_last_line_chars s \<le> txt_len s" "txt_len s = text_len t"
proof -
  let ?ls = "split_lines t"
  have ok: "summary_ok t s" unfolding s_def by (rule summary_ok_from)
  have last: "last ?ls \<in> set ?ls" by simp
  have r: "txt_longest_row s < length ?ls" "length (?ls ! txt_longest_row s) = txt_longest_row_chars s"
    using ok by (simp_all add: summary_ok_def Let_def longest_ok_def)
  have n: "length ?ls - 1 \<le> text_len t" using text_len_lines [of t] by simp
  show "txt_chars s \<le> txt_len s" "txt_len_utf16 s \<le> txt_len s" "row (txt_lines s) \<le> txt_len s" "txt_len s = text_len t"
    using ok n length_le_text_len [of t] utf16_le_text_len [of t] by (simp_all add: summary_ok_def Let_def)
  show "column (txt_lines s) \<le> txt_len s" using ok line_le_text_len [OF last] by (simp add: summary_ok_def Let_def)
  show "txt_last_line_len_utf16 s \<le> txt_len s"
    using ok line_le_text_len [OF last] utf16_le_text_len [of "last ?ls"] by (simp add: summary_ok_def Let_def)
  show "txt_longest_row s \<le> txt_len s" using r(1) n ok by (simp add: summary_ok_def Let_def)
  have long: "txt_longest_row_chars s \<le> txt_len s"
    using length_le_text_len [of "?ls ! txt_longest_row s"] line_le_text_len [OF nth_mem [OF r(1)]] r(2) ok
    by (simp add: summary_ok_def Let_def)
  then show "txt_longest_row_chars s \<le> txt_len s" .
  have "summary_inv s" unfolding s_def by (rule summary_inv_from)
  then show "txt_first_line_chars s \<le> txt_len s" "txt_last_line_chars s \<le> txt_len s"
    using long by (simp_all add: summary_inv_def)
qed

text \<open>The fields of a summary determine it.\<close>

lemma longest_ok_unique: "longest_ok ls r n \<Longrightarrow> longest_ok ls r' n' \<Longrightarrow> r = r' \<and> n = n'"
  unfolding longest_ok_def by (metis le_antisym nat_neq_iff)

lemma summary_ok_unique:
  assumes "summary_ok t s" "summary_ok t s'" shows "s = (s' :: TextSummary)"
proof -
  have "txt_longest_row s = txt_longest_row s' \<and> txt_longest_row_chars s = txt_longest_row_chars s'"
    by (rule longest_ok_unique [of "split_lines t"]) (use assms in \<open>simp_all add: summary_ok_def Let_def\<close>)
  with assms show ?thesis by (auto intro!: TextSummary.equality simp: summary_ok_def Let_def)
qed

lemma parse_lines_last: "ls \<noteq> [] \<Longrightarrow> parse_lines r p ls = \<lparr>row = r + length ls - 1, column = text_len (last ls)\<rparr>"
  by (induction r p ls rule: parse_lines.induct) (auto simp: neq_Nil_conv)

section \<open>Properties\<close>

text \<open>The one-pass scan \<open>TextSummary::from\<close> computes what its fields promise: the lengths
  in bytes, characters and UTF-16 code units, the position after the last character, the
  lengths of the first and the last line, and the first of the longest rows.\<close>

lemma point_parse_end: "Point_parse_str t = txt_lines (TextSummary_from t)"
  using summary_ok_from [of t]
  by (simp add: Point_parse_str_def parse_lines_last summary_ok_def Let_def)

text \<open>Summaries add up as texts append: adding the summaries of two texts gives the
  summary of their concatenation, with the summary of the empty text as zero.\<close>

lemma text_summary_append:
  "TextSummary_add (TextSummary_from s) (TextSummary_from t) = TextSummary_from (s @ t) \<and>
   lines_utf16 (TextSummary_from (s @ t)) = Point_add (lines_utf16 (TextSummary_from s)) (lines_utf16 (TextSummary_from t)) \<and>
   TextSummary_from [] = TextSummary_zero \<and> TextSummary_from [newline] = TextSummary_newline"
  by (simp add: TextSummary_from_append lines_utf16_add TextSummary_from_Nil)
    (simp add: TextSummary_from_def summary_step_def TextSummary_zero_def TextSummary_newline_def
      Point_add_def Point_new_def Point_zero_def len_utf8_def len_utf16_def)

text \<open>No field overflows its 32 bits on a text below four gigabytes, neither in the summary
  nor in the sums and the joined line length that \<open>add_assign\<close> computes for its two halves.\<close>

lemma text_summary_bounds:
  assumes "text_len (s @ t) < 2 ^ 32"
  shows "small_point (txt_lines (TextSummary_from (s @ t))) \<and> small_point (lines_utf16 (TextSummary_from (s @ t))) \<and>
    txt_first_line_chars (TextSummary_from (s @ t)) < 2 ^ 32 \<and> txt_last_line_chars (TextSummary_from (s @ t)) < 2 ^ 32 \<and>
    txt_longest_row (TextSummary_from (s @ t)) < 2 ^ 32 \<and> txt_longest_row_chars (TextSummary_from (s @ t)) < 2 ^ 32 \<and>
    txt_last_line_chars (TextSummary_from s) + txt_first_line_chars (TextSummary_from t) < 2 ^ 32 \<and>
    row (txt_lines (TextSummary_from s)) + txt_longest_row (TextSummary_from t) < 2 ^ 32"
  using assms summary_bounded [of s] summary_bounded [of t] summary_bounded [of "s @ t"]
  by (simp add: small_point_def lines_utf16_def)

text \<open>The packed comparison of points is the lexicographic order of row and column, and
  subtraction undoes addition: \<open>saturating_sub\<close> gives the rest after a prefix, or zero.\<close>

lemma point_order_and_difference:
  assumes "small_point p" and "small_point q"
  shows "Point_cmp p q = (if row p = row q then cmp (column p) (column q) else cmp (row p) (row q)) \<and>
    Point_sub (Point_add p q) p = Some q \<and>
    (Point_cmp p q = Less \<longrightarrow> Point_saturating_sub p q = Some Point_zero) \<and>
    (Point_cmp p q \<noteq> Less \<longrightarrow> (\<exists>d. Point_saturating_sub p q = Some d \<and> Point_add q d = p))"
proof -
  have "\<exists>d. Point_sub p q = Some d" if "Point_cmp p q \<noteq> Less"
    using that assms by (auto simp: Point_cmp_lexicographic Point_sub_def split: if_splits)
  then show ?thesis
    using assms Point_add_sub [of p q] by (auto simp: Point_cmp_lexicographic Point_sub_add Point_saturating_sub_def)
qed

end
