(* ===== verification/Rope_Text_Words.thy ===== *)
theory Rope_Text_Words
  imports Rope_Text
begin

text \<open>
  Points and text summaries at the width of the source (\<open>crates/rope/src/point.rs\<close> and
  \<open>TextSummary\<close> of \<open>rope.rs\<close>): rows, columns and character counts of lines are \<open>u32\<close>, byte and
  character counts \<open>usize\<close>, and every addition wraps as in a release build.  The theorem at
  the end shows that on texts below four gigabytes nothing wraps, which is why the other theories
  of the rope may count with natural numbers.
\<close>

section \<open>The source\<close>

type_synonym u32 = "32 word"
type_synonym usize = "64 word"

record PointW =
  w_row :: u32
  w_column :: u32

record TextSummaryW =
  w_len :: usize
  w_chars :: usize
  w_len_utf16 :: usize
  w_lines :: PointW
  w_first_line_chars :: u32
  w_last_line_chars :: u32
  w_last_line_len_utf16 :: u32
  w_longest_row :: u32
  w_longest_row_chars :: u32

definition w_Point_new :: "u32 \<Rightarrow> u32 \<Rightarrow> PointW" where
  "w_Point_new r c = \<lparr>w_row = r, w_column = c\<rparr>"

text \<open>\<open>AddAssign for Point\<close>, and \<open>Point::parse_str\<close> with its casts \<open>row as u32\<close> and
  \<open>line.len() as u32\<close>.\<close>

definition w_Point_add :: "PointW \<Rightarrow> PointW \<Rightarrow> PointW" where
  "w_Point_add p q = (if w_row q = 0 then p\<lparr>w_column := w_column p + w_column q\<rparr>
     else p\<lparr>w_row := w_row p + w_row q, w_column := w_column q\<rparr>)"

fun w_parse_lines :: "nat \<Rightarrow> PointW \<Rightarrow> ustr list \<Rightarrow> PointW" where
  "w_parse_lines r p [] = p"
| "w_parse_lines r p (l # ls) = w_parse_lines (Suc r) (w_Point_new (of_nat r) (of_nat (text_len l))) ls"

definition w_Point_parse_str :: "ustr \<Rightarrow> PointW" where
  "w_Point_parse_str s = w_parse_lines 0 (w_Point_new 0 0) (split_lines s)"

definition w_TextSummary_zero :: TextSummaryW where
  "w_TextSummary_zero = \<lparr>w_len = 0, w_chars = 0, w_len_utf16 = 0, w_lines = w_Point_new 0 0,
     w_first_line_chars = 0, w_last_line_chars = 0, w_last_line_len_utf16 = 0,
     w_longest_row = 0, w_longest_row_chars = 0\<rparr>"

text \<open>One round of the loop of \<open>TextSummary::from\<close>.\<close>

definition w_summary_step :: "TextSummaryW \<Rightarrow> code_point \<Rightarrow> TextSummaryW" where
  "w_summary_step s c =
     (let s1 = s\<lparr>w_chars := w_chars s + 1, w_len_utf16 := w_len_utf16 s + of_nat (len_utf16 c)\<rparr>;
        s2 = (if c = newline
          then s1\<lparr>w_lines := w_Point_add (w_lines s1) (w_Point_new 1 0),
            w_last_line_len_utf16 := 0, w_last_line_chars := 0\<rparr>
          else s1\<lparr>w_lines := (w_lines s1)\<lparr>w_column := w_column (w_lines s1) + of_nat (len_utf8 c)\<rparr>,
            w_last_line_len_utf16 := w_last_line_len_utf16 s1 + of_nat (len_utf16 c),
            w_last_line_chars := w_last_line_chars s1 + 1\<rparr>);
        s3 = (if w_row (w_lines s2) = 0 then s2\<lparr>w_first_line_chars := w_last_line_chars s2\<rparr> else s2)
      in if w_longest_row_chars s3 < w_last_line_chars s3
         then s3\<lparr>w_longest_row := w_row (w_lines s3), w_longest_row_chars := w_last_line_chars s3\<rparr>
         else s3)"

definition w_TextSummary_from :: "ustr \<Rightarrow> TextSummaryW" where
  "w_TextSummary_from t = (foldl w_summary_step w_TextSummary_zero t)\<lparr>w_len := of_nat (text_len t)\<rparr>"

definition w_TextSummary_add :: "TextSummaryW \<Rightarrow> TextSummaryW \<Rightarrow> TextSummaryW" where
  "w_TextSummary_add s other =
     (let joined_chars = w_last_line_chars s + w_first_line_chars other;
        s1 = (if w_longest_row_chars s < joined_chars
          then s\<lparr>w_longest_row := w_row (w_lines s), w_longest_row_chars := joined_chars\<rparr> else s);
        s2 = (if w_longest_row_chars s1 < w_longest_row_chars other
          then s1\<lparr>w_longest_row := w_row (w_lines s1) + w_longest_row other,
            w_longest_row_chars := w_longest_row_chars other\<rparr> else s1);
        s3 = (if w_row (w_lines s2) = 0
          then s2\<lparr>w_first_line_chars := w_first_line_chars s2 + w_first_line_chars other\<rparr> else s2);
        s4 = (if w_row (w_lines other) = 0
          then s3\<lparr>w_last_line_chars := w_last_line_chars s3 + w_first_line_chars other,
            w_last_line_len_utf16 := w_last_line_len_utf16 s3 + w_last_line_len_utf16 other\<rparr>
          else s3\<lparr>w_last_line_chars := w_last_line_chars other,
            w_last_line_len_utf16 := w_last_line_len_utf16 other\<rparr>)
      in s4\<lparr>w_chars := w_chars s4 + w_chars other, w_len := w_len s4 + w_len other,
        w_len_utf16 := w_len_utf16 s4 + w_len_utf16 other,
        w_lines := w_Point_add (w_lines s4) (w_lines other)\<rparr>)"

section \<open>Reading words as numbers\<close>

definition point_value :: "PointW \<Rightarrow> Point" where
  "point_value p = \<lparr>row = unat (w_row p), column = unat (w_column p)\<rparr>"

definition summary_value :: "TextSummaryW \<Rightarrow> TextSummary" where
  "summary_value s = \<lparr>txt_len = unat (w_len s), txt_chars = unat (w_chars s), txt_len_utf16 = unat (w_len_utf16 s),
     txt_lines = point_value (w_lines s), txt_first_line_chars = unat (w_first_line_chars s),
     txt_last_line_chars = unat (w_last_line_chars s), txt_last_line_len_utf16 = unat (w_last_line_len_utf16 s),
     txt_longest_row = unat (w_longest_row s), txt_longest_row_chars = unat (w_longest_row_chars s)\<rparr>"

definition words_of_point :: "Point \<Rightarrow> PointW" where
  "words_of_point p = \<lparr>w_row = of_nat (row p), w_column = of_nat (column p)\<rparr>"

definition words_of_summary :: "TextSummary \<Rightarrow> TextSummaryW" where
  "words_of_summary s = \<lparr>w_len = of_nat (txt_len s), w_chars = of_nat (txt_chars s), w_len_utf16 = of_nat (txt_len_utf16 s),
     w_lines = words_of_point (txt_lines s), w_first_line_chars = of_nat (txt_first_line_chars s),
     w_last_line_chars = of_nat (txt_last_line_chars s), w_last_line_len_utf16 = of_nat (txt_last_line_len_utf16 s),
     w_longest_row = of_nat (txt_longest_row s), w_longest_row_chars = of_nat (txt_longest_row_chars s)\<rparr>"

text \<open>A summary fits if its \<open>u32\<close> fields are below \<open>2 ^ 32\<close>; its \<open>usize\<close> fields are bounded by the same
  length of the text.\<close>

definition summary_fits :: "TextSummary \<Rightarrow> bool" where
  "summary_fits s \<longleftrightarrow> small_point (txt_lines s) \<and> txt_first_line_chars s < 2 ^ 32 \<and> txt_last_line_chars s < 2 ^ 32 \<and>
     txt_last_line_len_utf16 s < 2 ^ 32 \<and> txt_longest_row s < 2 ^ 32 \<and> txt_longest_row_chars s < 2 ^ 32 \<and>
     txt_len s < 2 ^ 32 \<and> txt_chars s < 2 ^ 32 \<and> txt_len_utf16 s < 2 ^ 32"

lemma word32_of_nat:
  "m < 4294967296 \<Longrightarrow> unat (of_nat m :: u32) = m" "m < 4294967296 \<Longrightarrow> unat (of_nat m :: usize) = m"
  by (simp_all add: unat_of_nat)

lemma word32_eq_0: "m < 4294967296 \<Longrightarrow> (of_nat m :: u32) = 0 \<longleftrightarrow> m = 0"
  by (simp add: word_unat_eq_iff word32_of_nat(1))

lemma word32_less: "m < 4294967296 \<Longrightarrow> n < 4294967296 \<Longrightarrow> (of_nat m :: u32) < of_nat n \<longleftrightarrow> m < n"
  by (simp add: word_less_nat_alt word32_of_nat)

lemma point_value_words: "small_point p \<Longrightarrow> point_value (words_of_point p) = p"
  by (cases p) (simp add: point_value_def words_of_point_def small_point_def word32_of_nat)

lemma summary_value_words: "summary_fits s \<Longrightarrow> summary_value (words_of_summary s) = s"
  by (rule TextSummary.equality)
    (simp_all add: summary_value_def words_of_summary_def summary_fits_def word32_of_nat point_value_words)

lemma summary_fits_from: "text_len t < 2 ^ 32 \<Longrightarrow> summary_fits (TextSummary_from t)"
  using summary_bounded [of t] by (simp add: summary_fits_def small_point_def)

section \<open>The operations on words follow those on numbers\<close>

lemma words_Point_add:
  "small_point q \<Longrightarrow> w_Point_add (words_of_point p) (words_of_point q) = words_of_point (Point_add p q)"
  by (simp add: w_Point_add_def words_of_point_def Point_add_def Point_new_def small_point_def word32_eq_0)

lemma w_summary_step_sel:
  "w_len (w_summary_step s c) = w_len s"
  "w_chars (w_summary_step s c) = w_chars s + 1"
  "w_len_utf16 (w_summary_step s c) = w_len_utf16 s + of_nat (len_utf16 c)"
  "w_lines (w_summary_step s c) =
     w_Point_add (w_lines s) (if c = newline then w_Point_new 1 0 else w_Point_new 0 (of_nat (len_utf8 c)))"
  "w_last_line_chars (w_summary_step s c) = (if c = newline then 0 else w_last_line_chars s + 1)"
  "w_first_line_chars (w_summary_step s c) =
     (if w_row (w_lines (w_summary_step s c)) = 0 then w_last_line_chars (w_summary_step s c) else w_first_line_chars s)"
  "w_last_line_len_utf16 (w_summary_step s c) =
     (if c = newline then 0 else w_last_line_len_utf16 s + of_nat (len_utf16 c))"
  "w_longest_row_chars (w_summary_step s c) =
     (if w_longest_row_chars s < w_last_line_chars (w_summary_step s c) then w_last_line_chars (w_summary_step s c)
      else w_longest_row_chars s)"
  "w_longest_row (w_summary_step s c) =
     (if w_longest_row_chars s < w_last_line_chars (w_summary_step s c) then w_row (w_lines (w_summary_step s c))
      else w_longest_row s)"
  by (simp_all add: w_summary_step_def Let_def w_Point_add_def w_Point_new_def)

lemma words_of_summary_sel:
  "w_len (words_of_summary s) = of_nat (txt_len s)" "w_chars (words_of_summary s) = of_nat (txt_chars s)"
  "w_len_utf16 (words_of_summary s) = of_nat (txt_len_utf16 s)" "w_lines (words_of_summary s) = words_of_point (txt_lines s)"
  "w_first_line_chars (words_of_summary s) = of_nat (txt_first_line_chars s)"
  "w_last_line_chars (words_of_summary s) = of_nat (txt_last_line_chars s)"
  "w_last_line_len_utf16 (words_of_summary s) = of_nat (txt_last_line_len_utf16 s)"
  "w_longest_row (words_of_summary s) = of_nat (txt_longest_row s)"
  "w_longest_row_chars (words_of_summary s) = of_nat (txt_longest_row_chars s)"
  "w_row (words_of_point p) = of_nat (row p)" "w_column (words_of_point p) = of_nat (column p)"
  by (simp_all add: words_of_summary_def words_of_point_def)

lemma words_of_Point_new: "words_of_point (Point_new m n) = w_Point_new (of_nat m) (of_nat n)"
  by (simp_all add: words_of_point_def Point_new_def w_Point_new_def)

lemma words_summary_step:
  assumes fit: "summary_fits s" "summary_fits (summary_step s c)"
  shows "w_summary_step ((words_of_summary s)\<lparr>w_len := n\<rparr>) c = (words_of_summary (summary_step s c))\<lparr>w_len := n\<rparr>"
    (is "?w = ?v")
proof -
  have b: "row (txt_lines (summary_step s c)) < 4294967296" "txt_longest_row_chars s < 4294967296"
    "txt_last_line_chars (summary_step s c) < 4294967296"
    using fit by (simp_all add: summary_fits_def small_point_def)
  let ?q = "if c = newline then Point_new 1 0 else Point_new 0 (len_utf8 c)"
  have "w_lines ?w = w_Point_add (words_of_point (txt_lines s)) (words_of_point ?q)"
    by (simp add: w_summary_step_sel(4) words_of_summary_sel words_of_Point_new)
  moreover have "small_point ?q" by (simp add: small_point_def Point_new_def len_utf8_def)
  ultimately have lines: "w_lines ?w = words_of_point (txt_lines (summary_step s c))"
    by (simp only: words_Point_add summary_step_sel(4))
  have last: "w_last_line_chars ?w = of_nat (txt_last_line_chars (summary_step s c))"
    by (simp add: w_summary_step_sel(5) words_of_summary_sel summary_step_sel(5) add.commute)
  show ?thesis
  proof (rule TextSummaryW.equality, goal_cases)
    case 4
    show ?case by (simp add: lines words_of_summary_sel)
  next
    case 5
    have "txt_first_line_chars (summary_step s c) = (if row (txt_lines (summary_step s c)) = 0
        then txt_last_line_chars (summary_step s c) else txt_first_line_chars s)"
      by (simp add: summary_step_sel Point_add_def Point_new_def)
    then show ?case using b by (simp add: w_summary_step_sel(6) lines last words_of_summary_sel word32_eq_0)
  next
    case 8
    have "txt_longest_row (summary_step s c) = (if txt_longest_row_chars s < txt_last_line_chars (summary_step s c)
        then row (txt_lines (summary_step s c)) else txt_longest_row s)"
      by (simp add: summary_step_sel Point_add_def Point_new_def)
    then show ?case using b by (simp add: w_summary_step_sel(9) lines last words_of_summary_sel word32_less)
  next
    case 9
    have "txt_longest_row_chars (summary_step s c) = max (txt_longest_row_chars s) (txt_last_line_chars (summary_step s c))"
      by (simp add: summary_step_sel)
    then show ?case using b by (auto simp: w_summary_step_sel(8) last words_of_summary_sel word32_less)
  qed (simp_all add: w_summary_step_sel last words_of_summary_sel summary_step_sel add.commute)
qed

lemma words_TextSummary_loop:
  assumes "text_len t < 2 ^ 32"
  shows "foldl w_summary_step w_TextSummary_zero t = (words_of_summary (TextSummary_from t))\<lparr>w_len := 0\<rparr>"
  using assms
proof (induction t rule: rev_induct)
  case Nil
  show ?case by (simp add: TextSummary_from_def TextSummary_zero_def w_TextSummary_zero_def words_of_summary_def
      words_of_point_def Point_zero_def Point_new_def w_Point_new_def)
next
  case (snoc c t)
  then have "summary_fits (TextSummary_from t)" "summary_fits (TextSummary_from (t @ [c]))"
    by (auto intro!: summary_fits_from)
  with snoc show ?case by (simp add: words_summary_step TextSummary_from_snoc)
qed

lemma words_TextSummary_from:
  assumes "text_len t < 2 ^ 32" shows "w_TextSummary_from t = words_of_summary (TextSummary_from t)"
  using words_TextSummary_loop [OF assms] summary_ok_from [of t]
  by (simp add: w_TextSummary_from_def words_of_summary_def summary_ok_def Let_def)

text \<open>The sum of two summaries, whose joined line may be the longest.\<close>

lemma w_TextSummary_add_sel:
  "w_len (w_TextSummary_add a b) = w_len a + w_len b"
  "w_chars (w_TextSummary_add a b) = w_chars a + w_chars b"
  "w_len_utf16 (w_TextSummary_add a b) = w_len_utf16 a + w_len_utf16 b"
  "w_lines (w_TextSummary_add a b) = w_Point_add (w_lines a) (w_lines b)"
  "w_first_line_chars (w_TextSummary_add a b) =
     w_first_line_chars a + (if w_row (w_lines a) = 0 then w_first_line_chars b else 0)"
  "w_last_line_chars (w_TextSummary_add a b) =
     (if w_row (w_lines b) = 0 then w_last_line_chars a + w_first_line_chars b else w_last_line_chars b)"
  "w_last_line_len_utf16 (w_TextSummary_add a b) =
     (if w_row (w_lines b) = 0 then w_last_line_len_utf16 a else 0) + w_last_line_len_utf16 b"
  "w_longest_row_chars (w_TextSummary_add a b) =
     max (max (w_longest_row_chars a) (w_last_line_chars a + w_first_line_chars b)) (w_longest_row_chars b)"
  "w_longest_row (w_TextSummary_add a b) =
     (if max (w_longest_row_chars a) (w_last_line_chars a + w_first_line_chars b) < w_longest_row_chars b
      then w_row (w_lines a) + w_longest_row b
      else if w_longest_row_chars a < w_last_line_chars a + w_first_line_chars b then w_row (w_lines a)
      else w_longest_row a)"
  by (auto simp: w_TextSummary_add_def Let_def max_def)

lemma word32_max: "m < 4294967296 \<Longrightarrow> n < 4294967296 \<Longrightarrow> max (of_nat m :: u32) (of_nat n) = of_nat (max m n)"
  by (simp add: max_def word_le_nat_alt word32_of_nat)

lemma words_TextSummary_add:
  assumes "summary_fits a" "summary_fits b" "summary_fits (TextSummary_add a b)"
  shows "w_TextSummary_add (words_of_summary a) (words_of_summary b) = words_of_summary (TextSummary_add a b)"
proof -
  let ?j = "txt_last_line_chars a + txt_first_line_chars b"
  have "max (txt_longest_row_chars a) ?j < 4294967296" using assms(3) by (simp add: summary_fits_def TextSummary_add_sel)
  moreover from this have "?j < 4294967296" by simp
  moreover have "(of_nat (txt_last_line_chars a) + of_nat (txt_first_line_chars b) :: u32) = of_nat ?j" by simp
  moreover have "row (txt_lines a) < 4294967296" "row (txt_lines b) < 4294967296" "txt_longest_row_chars a < 4294967296"
    "txt_longest_row_chars b < 4294967296" "small_point (txt_lines b)"
    using assms(1,2) by (simp_all add: summary_fits_def small_point_def)
  ultimately show ?thesis
    by (intro TextSummaryW.equality) (simp_all add: w_TextSummary_add_sel words_of_summary_sel TextSummary_add_sel
        word32_eq_0 word32_less word32_max words_Point_add flip: of_nat_add)
qed

lemma words_parse_lines:
  "w_parse_lines r (words_of_point p) ls = words_of_point (parse_lines r p ls)"
  by (induction r p ls rule: parse_lines.induct) (simp_all add: words_of_point_def w_Point_new_def)

lemma words_Point_parse_str: "w_Point_parse_str t = words_of_point (Point_parse_str t)"
  using words_parse_lines [of 0 Point_zero "split_lines t"]
  by (simp add: w_Point_parse_str_def Point_parse_str_def Point_zero_def words_of_Point_new)

section \<open>Properties\<close>

text \<open>(C23) On a text below four gigabytes the one-pass scan \<open>TextSummary::from\<close>, with its 32-bit
  rows, columns and line lengths and 64-bit byte counts, computes what its fields promise: the
  lengths in bytes, characters and UTF-16 code units, the position after the last character (which
  is also \<open>Point::parse_str\<close> of the text), the lengths of the first and the last line, and the first
  of the longest rows.  Adding the summaries of its two parts with \<open>add_assign\<close> gives the same words,
  and none of the additions wraps: read as numbers, the words are the result of the scan on
  unbounded numbers.\<close>

theorem text_summary_exact:
  assumes "text_len (s @ t) < 2 ^ 32"
  shows "summary_ok (s @ t) (summary_value (w_TextSummary_from (s @ t))) \<and>
    w_Point_parse_str (s @ t) = w_lines (w_TextSummary_from (s @ t)) \<and>
    w_TextSummary_add (w_TextSummary_from s) (w_TextSummary_from t) = w_TextSummary_from (s @ t) \<and>
    summary_value (w_TextSummary_from (s @ t)) = TextSummary_from (s @ t)"
proof -
  have len: "text_len s < 2 ^ 32" "text_len t < 2 ^ 32" using assms by simp_all
  note fits = summary_fits_from [OF len(1)] summary_fits_from [OF len(2)] summary_fits_from [OF assms]
  have "summary_value (w_TextSummary_from (s @ t)) = TextSummary_from (s @ t)"
    using fits(3) by (simp add: words_TextSummary_from [OF assms] summary_value_words)
  moreover have "w_TextSummary_add (w_TextSummary_from s) (w_TextSummary_from t) = w_TextSummary_from (s @ t)"
    using words_TextSummary_add [OF fits(1,2)] fits(3)
    by (simp add: words_TextSummary_from [OF assms] words_TextSummary_from [OF len(1)] words_TextSummary_from [OF len(2)] TextSummary_from_append)
  ultimately show ?thesis using summary_ok_from [of "s @ t"] point_parse_end [of "s @ t"]
    by (simp add: words_Point_parse_str words_TextSummary_from [OF assms] words_of_summary_sel)
qed

theorem text_summary_exact_witness:
  "\<exists>s. w_TextSummary_from [97, 10, 233, 128512] = s \<and> w_lines s = \<lparr>w_row = 1, w_column = 6\<rparr> \<and> w_last_line_len_utf16 s = 3 \<and>
    summary_ok ([97, 10] @ [233, 128512]) (summary_value s)"
  using text_summary_exact [of "[97, 10]" "[233, 128512]"]
  by (auto simp: text_len_def len_utf8_def len_utf16_def w_TextSummary_from_def w_summary_step_def w_TextSummary_zero_def
      w_Point_add_def w_Point_new_def)

end
