(* ===== verification/Rope_Bits.thy ===== *)
theory Rope_Bits
  imports Prelude
begin

unbundle bit_operations_syntax

text \<open>
  Counting the bits of machine words (\<open>count_ones\<close>, \<open>trailing_zeros\<close>, \<open>leading_zeros\<close> of
  Rust's unsigned integers) and words read as lists of flags, lowest bit first: the lemmas by
  which the bitmaps of the rope's chunks are reasoned about.
\<close>

section \<open>Bit counts\<close>

definition count_ones :: "'a::len word \<Rightarrow> nat" where
  "count_ones w = length (filter (bit w) [0..<LENGTH('a)])"

definition trailing_zeros :: "'a::len word \<Rightarrow> nat" where
  "trailing_zeros w = length (takeWhile (\<lambda>i. \<not> bit w i) [0..<LENGTH('a)])"

definition leading_zeros :: "'a::len word \<Rightarrow> nat" where
  "leading_zeros w = length (takeWhile (\<lambda>i. \<not> bit w i) (rev [0..<LENGTH('a)]))"

lemma drop_newline_less:
  fixes w :: "'a::len word"
  assumes "w \<noteq> 0" shows "unat (drop_bit 1 (drop_bit n w)) < unat w"
proof -
  have "unat (drop_bit 1 (drop_bit n w)) = unat w div 2 ^ (1 + n)"
    by (simp only: drop_bit_drop_bit unat_drop_bit_eq) (simp only: drop_bit_eq_div)
  moreover have "0 < unat w" using assms by (simp add: unat_gt_0)
  moreover have "(1 :: nat) < 2 ^ (1 + n)" by (rule one_less_power) simp_all
  ultimately show ?thesis by (simp only: div_less_dividend)
qed

section \<open>Words as lists of flags\<close>

definition bits_of :: "'a::len word \<Rightarrow> bool list \<Rightarrow> bool" where
  "bits_of w fl \<longleftrightarrow> (\<forall>i. bit w i \<longleftrightarrow> i < length fl \<and> fl ! i)"

lemma bits_ofI: "(\<And>i. bit w i \<longleftrightarrow> i < length fl \<and> fl ! i) \<Longrightarrow> bits_of w fl"
  by (simp add: bits_of_def)

lemma bits_ofD: "bits_of w fl \<Longrightarrow> bit w i \<longleftrightarrow> i < length fl \<and> fl ! i"
  by (simp add: bits_of_def)

lemma bits_of_unique: "bits_of v fl \<Longrightarrow> bits_of w fl \<Longrightarrow> v = w"
  by (rule bit_eqI) (simp add: bits_of_def)

lemma bits_of_Nil [simp]: "bits_of w [] \<longleftrightarrow> w = 0"
  by (auto simp: bits_of_def intro: bit_eqI)

lemma bits_of_or_shift:
  fixes v w :: "'a::len word"
  assumes "bits_of v xs" "bits_of w ys" "length xs + length ys \<le> LENGTH('a)"
  shows "bits_of (v OR push_bit (length xs) w) (xs @ ys)"
  unfolding bits_of_def
proof (intro allI)
  fix i
  show "bit (v OR push_bit (length xs) w) i \<longleftrightarrow> i < length (xs @ ys) \<and> (xs @ ys) ! i"
    using assms(3) bits_ofD [OF assms(1), of i] bits_ofD [OF assms(2), of "i - length xs"]
    by (cases "i < length xs") (simp_all add: bit_or_iff bit_push_bit_iff nth_append, linarith)
qed

lemma bits_of_take:
  fixes w :: "'a::len word"
  assumes "bits_of w fl" shows "bits_of (w AND mask n) (take n fl)"
  unfolding bits_of_def
proof (intro allI)
  fix i
  have "bit w i \<Longrightarrow> i < LENGTH('a)" by (rule bit_imp_le_length)
  then show "bit (w AND mask n) i \<longleftrightarrow> i < length (take n fl) \<and> take n fl ! i"
    using bits_ofD [OF assms, of i] by (auto simp: bit_and_iff bit_mask_iff)
qed

lemma bits_of_drop:
  fixes w :: "'a::len word"
  assumes "bits_of w fl" shows "bits_of (drop_bit n w) (drop n fl)"
  unfolding bits_of_def
proof (intro allI)
  fix i
  show "bit (drop_bit n w) i \<longleftrightarrow> i < length (drop n fl) \<and> drop n fl ! i"
    using bits_ofD [OF assms, of "n + i"] by (auto simp: bit_drop_bit_eq)
qed

lemma shl_mask [simp]: "push_bit n 1 - 1 = (mask n :: 'a::len word)" "2 ^ n - 1 = (mask n :: 'a word)"
  by (simp_all add: mask_eq_exp_minus_1 push_bit_of_1)

lemma bits_list:
  fixes w :: "'a::len word"
  assumes "bits_of w fl" "length fl \<le> LENGTH('a)"
  shows "map (bit w) [0..<LENGTH('a)] = fl @ replicate (LENGTH('a) - length fl) False"
proof (rule nth_equalityI)
  show "length (map (bit w) [0..<LENGTH('a)]) = length (fl @ replicate (LENGTH('a) - length fl) False)"
    using assms(2) by simp
  fix i assume "i < length (map (bit w) [0..<LENGTH('a)])"
  then show "map (bit w) [0..<LENGTH('a)] ! i = (fl @ replicate (LENGTH('a) - length fl) False) ! i"
    using bits_ofD [OF assms(1), of i] by (simp add: nth_append)
qed

lemma count_ones_bits: "count_ones (w :: 'a::len word) = length (filter (\<lambda>b. b) (map (bit w) [0..<LENGTH('a)]))"
  by (simp add: count_ones_def filter_map comp_def)

lemma trailing_zeros_bits: "trailing_zeros (w :: 'a::len word) = length (takeWhile Not (map (bit w) [0..<LENGTH('a)]))"
  by (simp add: trailing_zeros_def takeWhile_map comp_def)

lemma leading_zeros_bits: "leading_zeros (w :: 'a::len word) = length (takeWhile Not (rev (map (bit w) [0..<LENGTH('a)])))"
  by (simp add: leading_zeros_def rev_map takeWhile_map comp_def)

lemma filter_replicate_False [simp]: "filter (\<lambda>b. b) (replicate n False) = []"
  by (induction n) auto

lemma takeWhile_replicate_True: "takeWhile Not (replicate n False @ True # xs) = replicate n False"
  by (induction n) auto

lemma count_ones_flags:
  fixes w :: "'a::len word"
  assumes "bits_of w fl" "length fl \<le> LENGTH('a)" shows "count_ones w = length (filter (\<lambda>b. b) fl)"
  by (simp add: count_ones_bits bits_list [OF assms])

lemma trailing_zeros_flags:
  fixes w :: "'a::len word"
  assumes "bits_of w (replicate n False @ True # fl)" "n + Suc (length fl) \<le> LENGTH('a)" shows "trailing_zeros w = n"
  using assms(2) bits_list [OF assms(1)] by (simp add: trailing_zeros_bits takeWhile_replicate_True)

lemma leading_zeros_flags:
  fixes w :: "'a::len word"
  assumes "bits_of w (fl @ True # replicate n False)" "Suc (length fl + n) \<le> LENGTH('a)"
  shows "leading_zeros w = LENGTH('a) - Suc (length fl)"
  using assms(2) bits_list [OF assms(1)] by (simp add: leading_zeros_bits takeWhile_replicate_True flip: replicate_add)

lemma zeros_zero: "trailing_zeros (0 :: 'a::len word) = LENGTH('a)" "leading_zeros (0 :: 'a::len word) = LENGTH('a)"
  by (simp_all add: trailing_zeros_def leading_zeros_def takeWhile_eq_all_conv [THEN iffD2])

lemma bits_of_zero: "bits_of (0 :: 'a::len word) fl \<longleftrightarrow> True \<notin> set fl"
  by (auto simp: bits_of_def in_set_conv_nth)

end
