(* ===== verification/Rope_Chunk.thy ===== *)
theory Rope_Chunk
  imports Rope_Text Rope_Bits
begin

unbundle bit_operations_syntax

text \<open>
  Chunks of the rope (\<open>crates/rope/src/chunk.rs\<close>): up to 128 bytes of text with four 128-bit
  maps over its bytes (starts of characters, UTF-16 code units, newlines, tabs), and the
  operations that read positions, lengths and summaries off the maps.

  A string is the list of its characters with the byte positions of its UTF-8 encoding.
  A shift of a bitmap by 128 bits or more overflows in the source: a panic with overflow checks, a
  shift by the remainder without; \<open>slice\<close> is modelled with both.  Where it goes on to a text that does not
  fit (\<open>append\<close>, \<open>prepend\<close>, \<open>split_at\<close>), both builds panic, which is \<^const>\<open>None\<close>.
  \<open>unbounded_shl\<close> and \<open>unbounded_shr\<close> are the shifts of words.
\<close>

section \<open>Strings\<close>

definition utf8_encode :: "code_point \<Rightarrow> nat list" where
  "utf8_encode c =
     (if c < 0x80 then [c]
      else if c < 0x800 then [0xC0 + c div 64, 0x80 + c mod 64]
      else if c < 0x10000 then [0xE0 + c div 4096, 0x80 + c div 64 mod 64, 0x80 + c mod 64]
      else [0xF0 + c div 262144, 0x80 + c div 4096 mod 64, 0x80 + c div 64 mod 64, 0x80 + c mod 64])"

definition utf8_bytes :: "ustr \<Rightarrow> nat list" where
  "utf8_bytes t = concat (map utf8_encode t)"

text \<open>\<open>str::is_char_boundary\<close>, \<open>str::split_at\<close>, slicing and the two roundings of a byte index.\<close>

fun is_boundary :: "ustr \<Rightarrow> nat \<Rightarrow> bool" where
  "is_boundary [] i = (i = 0)"
| "is_boundary (c # cs) i = (i = 0 \<or> len_utf8 c \<le> i \<and> is_boundary cs (i - len_utf8 c))"

fun str_split_at :: "ustr \<Rightarrow> nat \<Rightarrow> (ustr \<times> ustr) option" where
  "str_split_at [] i = (if i = 0 then Some ([], []) else None)"
| "str_split_at (c # cs) i =
     (if i = 0 then Some ([], c # cs)
      else if len_utf8 c \<le> i then map_option (\<lambda>(a, b). (c # a, b)) (str_split_at cs (i - len_utf8 c))
      else None)"

definition str_slice :: "ustr \<Rightarrow> nat \<Rightarrow> nat \<Rightarrow> ustr option" where
  "str_slice t i j = do {
     (a, _) \<leftarrow> str_split_at t j;
     (_, b) \<leftarrow> str_split_at a i;
     Some b }"

fun floor_boundary :: "ustr \<Rightarrow> nat \<Rightarrow> nat" where
  "floor_boundary [] i = 0"
| "floor_boundary (c # cs) i = (if i < len_utf8 c then 0 else len_utf8 c + floor_boundary cs (i - len_utf8 c))"

fun ceil_boundary :: "ustr \<Rightarrow> nat \<Rightarrow> nat" where
  "ceil_boundary [] i = 0"
| "ceil_boundary (c # cs) i = (if i = 0 then 0 else len_utf8 c + ceil_boundary cs (i - len_utf8 c))"

text \<open>The loops that move an index to a character boundary.\<close>

function next_boundary :: "ustr \<Rightarrow> nat \<Rightarrow> nat" where
  "next_boundary t i = (if is_boundary t i \<or> text_len t \<le> i then i else next_boundary t (Suc i))"
  by pat_completeness auto
termination by (relation "measure (\<lambda>(t, i). text_len t - i)") auto

declare next_boundary.simps [simp del]

fun prev_boundary :: "ustr \<Rightarrow> nat \<Rightarrow> nat" where
  "prev_boundary t 0 = 0"
| "prev_boundary t (Suc i) = (if is_boundary t (Suc i) then Suc i else prev_boundary t i)"

section \<open>Bitmaps\<close>

type_synonym Bitmap = "128 word"

definition MAX_BASE :: nat where
  "MAX_BASE = 128"

definition MIN_BASE :: nat where
  "MIN_BASE = MAX_BASE div 2"

definition saturating_shl_mask :: "nat \<Rightarrow> Bitmap" where
  "saturating_shl_mask offset = push_bit offset 1 - 1"

definition saturating_shr_mask :: "nat \<Rightarrow> Bitmap" where
  "saturating_shr_mask offset = NOT (drop_bit offset (- 1))"

text \<open>The byte as an \<open>i8\<close>.\<close>

definition is_utf8_char_boundary :: "nat \<Rightarrow> bool" where
  "is_utf8_char_boundary b \<longleftrightarrow> - 64 \<le> (if b < 128 then int b else int b - 256)"

section \<open>Chunks\<close>

record Chunk =
  chunk_chars :: Bitmap
  chunk_chars_utf16 :: Bitmap
  chunk_newlines :: Bitmap
  chunk_tabs :: Bitmap
  chunk_text :: ustr

type_synonym ChunkSlice = Chunk

text \<open>One of the four accumulators of the loop of \<open>Chunk::new\<close>, over a group of eight bytes, and
  over all groups.\<close>

fun group_flags :: "(nat \<Rightarrow> bool) \<Rightarrow> nat \<Rightarrow> 8 word \<Rightarrow> nat list \<Rightarrow> 8 word" where
  "group_flags p ix acc [] = acc"
| "group_flags p ix acc (b # bs) = group_flags p (Suc ix) (acc OR push_bit ix (of_bool (p b))) bs"

function flag_bytes :: "(nat \<Rightarrow> bool) \<Rightarrow> nat list \<Rightarrow> 8 word list" where
  "flag_bytes p bs = (if bs = [] then [] else group_flags p 0 0 (take 8 bs) # flag_bytes p (drop 8 bs))"
  by pat_completeness auto
termination by (relation "measure (\<lambda>(p, bs). length bs)") auto

declare flag_bytes.simps [simp del]

definition from_le_bytes :: "8 word list \<Rightarrow> Bitmap" where
  "from_le_bytes ws = foldr (\<lambda>w acc. ucast w OR push_bit 8 acc) ws 0"

definition byte_bitmap :: "(nat \<Rightarrow> bool) \<Rightarrow> ustr \<Rightarrow> Bitmap" where
  "byte_bitmap p t = from_le_bytes (resize_with 0 (MAX_BASE div 8) (flag_bytes p (utf8_bytes t)))"

definition Chunk_new :: "ustr \<Rightarrow> Chunk option" where
  "Chunk_new t =
     (if MAX_BASE < text_len t then None
      else let chars = byte_bitmap is_utf8_char_boundary t in
        Some \<lparr>chunk_chars = chars,
          chunk_chars_utf16 = push_bit 1 (byte_bitmap (\<lambda>b. 240 \<le> b) t) OR chars,
          chunk_newlines = byte_bitmap (\<lambda>b. b = 10) t,
          chunk_tabs = byte_bitmap (\<lambda>b. b = 9) t,
          chunk_text = t\<rparr>)"

definition empty_slice :: ChunkSlice where
  "empty_slice = \<lparr>chunk_chars = 0, chunk_chars_utf16 = 0, chunk_newlines = 0, chunk_tabs = 0, chunk_text = []\<rparr>"

definition chunk_is_empty :: "ChunkSlice \<Rightarrow> bool" where
  "chunk_is_empty c \<longleftrightarrow> chunk_text c = []"

definition chunk_len :: "ChunkSlice \<Rightarrow> nat" where
  "chunk_len c = text_len (chunk_text c)"

definition chunk_append :: "Chunk \<Rightarrow> ChunkSlice \<Rightarrow> Chunk option" where
  "chunk_append c s =
     (if chunk_is_empty s then Some c
      else let base_ix = chunk_len c in
        if MAX_BASE \<le> base_ix \<or> MAX_BASE < base_ix + chunk_len s then None
        else Some \<lparr>chunk_chars = chunk_chars c OR push_bit base_ix (chunk_chars s),
          chunk_chars_utf16 = chunk_chars_utf16 c OR push_bit base_ix (chunk_chars_utf16 s),
          chunk_newlines = chunk_newlines c OR push_bit base_ix (chunk_newlines s),
          chunk_tabs = chunk_tabs c OR push_bit base_ix (chunk_tabs s),
          chunk_text = chunk_text c @ chunk_text s\<rparr>)"

definition chunk_push_str :: "Chunk \<Rightarrow> ustr \<Rightarrow> Chunk option" where
  "chunk_push_str c t = do { s \<leftarrow> Chunk_new t; chunk_append c s }"

definition chunk_prepend :: "Chunk \<Rightarrow> ChunkSlice \<Rightarrow> Chunk option" where
  "chunk_prepend c s =
     (if chunk_is_empty s then Some c
      else if chunk_is_empty c then Chunk_new (chunk_text s)
      else let shift = chunk_len s in
        if MAX_BASE \<le> shift \<or> MAX_BASE < shift + chunk_len c then None
        else Some \<lparr>chunk_chars = chunk_chars s OR push_bit shift (chunk_chars c),
          chunk_chars_utf16 = chunk_chars_utf16 s OR push_bit shift (chunk_chars_utf16 c),
          chunk_newlines = chunk_newlines s OR push_bit shift (chunk_newlines c),
          chunk_tabs = chunk_tabs s OR push_bit shift (chunk_tabs c),
          chunk_text = chunk_text s @ chunk_text c\<rparr>)"

definition chunk_prepend_str :: "Chunk \<Rightarrow> ustr \<Rightarrow> Chunk option" where
  "chunk_prepend_str c t = do { s \<leftarrow> Chunk_new t; chunk_prepend c s }"

definition chunk_is_char_boundary :: "ChunkSlice \<Rightarrow> nat \<Rightarrow> bool" where
  "chunk_is_char_boundary c offset \<longleftrightarrow> push_bit offset 1 AND chunk_chars c \<noteq> 0 \<or> offset = chunk_len c"

text \<open>The loop of \<open>Chunk::floor_char_boundary\<close> walks the bytes down.\<close>

fun floor_walk :: "nat list \<Rightarrow> nat \<Rightarrow> nat" where
  "floor_walk bs 0 = 0"
| "floor_walk bs (Suc i) = (if is_utf8_char_boundary (bs ! Suc i) then Suc i else floor_walk bs i)"

definition chunk_floor_char_boundary :: "Chunk \<Rightarrow> nat \<Rightarrow> nat" where
  "chunk_floor_char_boundary c index =
     (if chunk_len c \<le> index then chunk_len c else floor_walk (utf8_bytes (chunk_text c)) index)"

definition slice_into :: "ChunkSlice \<Rightarrow> Chunk option" where
  "slice_into s = (if MAX_BASE < chunk_len s then None else Some s)"

definition chunk_split_at :: "ChunkSlice \<Rightarrow> nat \<Rightarrow> (ChunkSlice \<times> ChunkSlice) option" where
  "chunk_split_at c mid =
     (if mid = MAX_BASE then Some (c, empty_slice)
      else if MAX_BASE < mid then None
      else let m = push_bit mid 1 - 1 in do {
        (left_text, right_text) \<leftarrow> str_split_at (chunk_text c) mid;
        Some (\<lparr>chunk_chars = chunk_chars c AND m, chunk_chars_utf16 = chunk_chars_utf16 c AND m,
            chunk_newlines = chunk_newlines c AND m, chunk_tabs = chunk_tabs c AND m, chunk_text = left_text\<rparr>,
          \<lparr>chunk_chars = drop_bit mid (chunk_chars c), chunk_chars_utf16 = drop_bit mid (chunk_chars_utf16 c),
            chunk_newlines = drop_bit mid (chunk_newlines c), chunk_tabs = drop_bit mid (chunk_tabs c),
            chunk_text = right_text\<rparr>) })"

text \<open>The shift operator of Rust on a 128-bit word: with overflow checks a shift by the width or more
  panics, in a release build the distance is taken modulo the width.\<close>

definition shr_checked :: "Bitmap \<Rightarrow> nat \<Rightarrow> Bitmap option" where
  "shr_checked w n = (if n < 128 then Some (drop_bit n w) else None)"

definition shr_wrapping :: "Bitmap \<Rightarrow> nat \<Rightarrow> Bitmap option" where
  "shr_wrapping w n = Some (drop_bit (n mod 128) w)"

text \<open>The ends of the range that are no character boundary are logged and moved.\<close>

definition chunk_slice_with :: "(Bitmap \<Rightarrow> nat \<Rightarrow> Bitmap option) \<Rightarrow> ChunkSlice \<Rightarrow> nat \<Rightarrow> nat \<Rightarrow> ChunkSlice option" where
  "chunk_slice_with shr c range_start range_end =
     (if range_start = MAX_BASE then Some empty_slice
      else let
        i = (if chunk_is_char_boundary c range_start then range_start else ceil_boundary (chunk_text c) range_start);
        j = (if chunk_is_char_boundary c range_end then range_end
          else if range_end < i then i else floor_boundary (chunk_text c) range_end);
        m = push_bit j 1 - 1
      in do {
        chars \<leftarrow> shr (chunk_chars c AND m) i;
        chars_utf16 \<leftarrow> shr (chunk_chars_utf16 c AND m) i;
        newlines \<leftarrow> shr (chunk_newlines c AND m) i;
        tabs \<leftarrow> shr (chunk_tabs c AND m) i;
        t \<leftarrow> str_slice (chunk_text c) i j;
        Some \<lparr>chunk_chars = chars, chunk_chars_utf16 = chars_utf16, chunk_newlines = newlines, chunk_tabs = tabs,
          chunk_text = t\<rparr> })"

definition chunk_slice :: "ChunkSlice \<Rightarrow> nat \<Rightarrow> nat \<Rightarrow> ChunkSlice option" where
  "chunk_slice = chunk_slice_with shr_wrapping"

section \<open>Reading the bitmaps\<close>

definition chunk_len_utf16 :: "ChunkSlice \<Rightarrow> OffsetUtf16" where
  "chunk_len_utf16 c = count_ones (chunk_chars_utf16 c)"

text \<open>The column is a difference of \<open>u32\<close> numbers.\<close>

definition chunk_lines :: "ChunkSlice \<Rightarrow> Point" where
  "chunk_lines c = Point_new (count_ones (chunk_newlines c))
     (unat (of_nat (leading_zeros (chunk_newlines c)) - (128 - of_nat (chunk_len c)) :: 32 word))"

definition first_line_chars :: "ChunkSlice \<Rightarrow> nat" where
  "first_line_chars c = count_ones (chunk_chars c AND saturating_shl_mask (trailing_zeros (chunk_newlines c)))"

definition last_line_chars :: "ChunkSlice \<Rightarrow> nat" where
  "last_line_chars c = count_ones (chunk_chars c AND saturating_shr_mask (leading_zeros (chunk_newlines c)))"

definition last_line_len_utf16 :: "ChunkSlice \<Rightarrow> nat" where
  "last_line_len_utf16 c = count_ones (chunk_chars_utf16 c AND saturating_shr_mask (leading_zeros (chunk_newlines c)))"

text \<open>The loop of \<open>longest_row\<close>; the row lengths are cast to \<open>u8\<close>.\<close>

function longest_row_loop ::
  "Bitmap \<Rightarrow> Bitmap \<Rightarrow> nat \<Rightarrow> nat \<Rightarrow> nat \<Rightarrow> nat \<Rightarrow> nat \<times> nat \<times> nat" where
  "longest_row_loop chars newlines total_chars row_ix longest_row longest_row_chars =
     (if newlines = 0 then
        let row_chars = count_ones chars mod 256
        in (total_chars + row_chars, if longest_row_chars < row_chars then (row_ix, row_chars) else (longest_row, longest_row_chars))
      else let newline_ix = trailing_zeros newlines;
          row_chars = count_ones (chars AND (push_bit newline_ix 1 - 1)) mod 256;
          (longest_row', longest_row_chars') =
            (if longest_row_chars < row_chars then (row_ix, row_chars) else (longest_row, longest_row_chars))
        in longest_row_loop (drop_bit 1 (drop_bit newline_ix chars)) (drop_bit 1 (drop_bit newline_ix newlines))
          (total_chars + row_chars + 1) (row_ix + 1) longest_row' longest_row_chars')"
  by pat_completeness auto
termination
  by (relation "measure (\<lambda>(chars, newlines, rest). unat newlines)")
    (simp_all only: in_measure prod.case drop_newline_less wf_measure not_False_eq_True)

declare longest_row_loop.simps [simp del]

definition chunk_longest_row :: "ChunkSlice \<Rightarrow> nat \<times> nat \<times> nat" where
  "chunk_longest_row c = longest_row_loop (chunk_chars c) (chunk_newlines c) 0 0 0 0"

definition text_summary :: "ChunkSlice \<Rightarrow> TextSummary" where
  "text_summary c = (let (chars, longest_row, longest_row_chars) = chunk_longest_row c in
     \<lparr>txt_len = chunk_len c, txt_chars = chars, txt_len_utf16 = chunk_len_utf16 c, txt_lines = chunk_lines c,
       txt_first_line_chars = first_line_chars c, txt_last_line_chars = last_line_chars c,
       txt_last_line_len_utf16 = last_line_len_utf16 c, txt_longest_row = longest_row,
       txt_longest_row_chars = longest_row_chars\<rparr>)"

definition chunk_offset_to_point :: "ChunkSlice \<Rightarrow> nat \<Rightarrow> Point option" where
  "chunk_offset_to_point c offset =
     (let m = push_bit offset 1 - 1;
        newline_ix = 128 - leading_zeros (chunk_newlines c AND m)
      in if newline_ix \<le> offset then Some (Point_new (count_ones (chunk_newlines c AND m)) (offset - newline_ix)) else None)"

definition chunk_offset_to_offset_utf16 :: "ChunkSlice \<Rightarrow> nat \<Rightarrow> OffsetUtf16" where
  "chunk_offset_to_offset_utf16 c offset = count_ones (chunk_chars_utf16 c AND (push_bit offset 1 - 1))"

definition chunk_offset_to_point_utf16 :: "ChunkSlice \<Rightarrow> nat \<Rightarrow> PointUtf16" where
  "chunk_offset_to_point_utf16 c offset =
     (let m = saturating_shl_mask offset;
        newline_ix = 128 - leading_zeros (chunk_newlines c AND m)
      in Point_new (count_ones (chunk_newlines c AND saturating_shl_mask offset))
        (if newline_ix = MAX_BASE then 0 else count_ones (drop_bit newline_ix (chunk_chars_utf16 c AND m))))"

text \<open>The iterator over the tabs of a chunk yields their byte and character offsets.\<close>

record Tabs =
  tabs_tabs :: Bitmap
  tabs_chars :: Bitmap

record TabPosition =
  byte_offset :: nat
  char_offset :: nat

definition chunk_tabs_iter :: "ChunkSlice \<Rightarrow> Tabs" where
  "chunk_tabs_iter c = \<lparr>tabs_tabs = chunk_tabs c, tabs_chars = chunk_chars c\<rparr>"

definition tabs_next :: "Tabs \<Rightarrow> (TabPosition \<times> Tabs) option" where
  "tabs_next s =
     (if tabs_tabs s = 0 then None
      else let tab_offset = trailing_zeros (tabs_tabs s);
          chars_mask = push_bit tab_offset 1 - 1
        in Some (\<lparr>byte_offset = tab_offset, char_offset = count_ones (tabs_chars s AND chars_mask)\<rparr>,
          s\<lparr>tabs_tabs := tabs_tabs s XOR push_bit tab_offset 1\<rparr>))"

end
