(* ===== verification/Rope_Chunk_Ops.thy ===== *)
theory Rope_Chunk_Ops
  imports Rope_Chunk
begin

unbundle bit_operations_syntax

text \<open>
  Correctness of the chunk operations: the bitmaps of a chunk always are the flags of its text,
  building, appending, prepending, splitting and slicing chunks is doing so with their texts,
  and what is read off the bitmaps is what a scan of the text computes.
\<close>

section \<open>Strings and byte positions\<close>

lemma str_split_at_append [simp]: "str_split_at (a @ b) (text_len a) = Some (a, b)"
proof (induction a)
  case (Cons c a)
  then show ?case using len_utf8_bounds(1) [of c] by (simp add: text_len_Cons)
qed (cases b; simp)

lemma str_split_at_eq: "str_split_at t i = Some (a, b) \<longleftrightarrow> t = a @ b \<and> text_len a = i"
proof
  show "str_split_at t i = Some (a, b) \<Longrightarrow> t = a @ b \<and> text_len a = i"
    by (induction t i arbitrary: a rule: str_split_at.induct) (auto simp: text_len_Cons split: if_splits)
qed auto

lemma str_split_at_zero [simp]: "str_split_at t 0 = Some ([], t)"
  by (simp add: str_split_at_eq)

lemma is_boundary_iff: "is_boundary t i \<longleftrightarrow> (\<exists>a b. t = a @ b \<and> text_len a = i)"
proof
  show "is_boundary t i \<Longrightarrow> \<exists>a b. t = a @ b \<and> text_len a = i"
  proof (induction t i rule: is_boundary.induct)
    case (2 c cs i)
    show ?case
    proof (cases "i = 0")
      case False
      with 2 obtain a b where "cs = a @ b" "text_len a = i - len_utf8 c" "len_utf8 c \<le> i" by auto
      then have "c # cs = (c # a) @ b \<and> text_len (c # a) = i" by (simp add: text_len_Cons)
      then show ?thesis by blast
    qed (auto intro: exI [of _ "[]"])
  qed simp
  show "is_boundary t i" if "\<exists>a b. t = a @ b \<and> text_len a = i"
  proof -
    have "is_boundary (a @ b) (text_len a)" for a b
    proof (induction a)
      case Nil
      show ?case by (cases b) simp_all
    qed (simp add: text_len_Cons)
    with that show ?thesis by auto
  qed
qed

lemma is_boundary_split: "is_boundary t i \<longleftrightarrow> str_split_at t i \<noteq> None"
  by (auto simp: is_boundary_iff str_split_at_eq)

lemma str_slice_append [simp]: "str_slice (a @ b @ c) (text_len a) (text_len a + text_len b) = Some b"
  using str_split_at_append [of "a @ b" c] by (simp add: str_slice_def)

lemma str_slice_eq: "str_slice t i j = Some s \<longleftrightarrow> (\<exists>a c. t = a @ s @ c \<and> text_len a = i \<and> i + text_len s = j)"
proof
  show "str_slice t i j = Some s \<Longrightarrow> \<exists>a c. t = a @ s @ c \<and> text_len a = i \<and> i + text_len s = j"
    by (auto simp: str_slice_def bind_eq_Some_conv str_split_at_eq) blast
qed auto

lemma text_len_0 [simp]: "text_len t = 0 \<longleftrightarrow> t = []"
  using len_utf8_bounds(1) by (cases t) (auto simp: text_len_Cons)

lemma text_len_pos [simp]: "0 < text_len t \<longleftrightarrow> t \<noteq> []"
  by (simp flip: neq0_conv)

lemma length_utf8_encode: "length (utf8_encode c) = len_utf8 c"
  by (simp add: utf8_encode_def len_utf8_def)

lemma length_utf8_bytes [simp]: "length (utf8_bytes t) = text_len t"
  by (induction t) (simp_all add: utf8_bytes_def text_len_Cons length_utf8_encode)

section \<open>The flags of a text\<close>

definition lead_flags :: "(code_point \<Rightarrow> bool) \<Rightarrow> code_point \<Rightarrow> bool list" where
  "lead_flags P c = P c # replicate (len_utf8 c - 1) False"

definition text_flags :: "(code_point \<Rightarrow> bool) \<Rightarrow> ustr \<Rightarrow> bool list" where
  "text_flags P t = concat (map (lead_flags P) t)"

definition utf16_flags :: "ustr \<Rightarrow> bool list" where
  "utf16_flags t = concat (map (\<lambda>c. if len_utf16 c = 2 then [True, True, False, False] else lead_flags (\<lambda>_. True) c) t)"

lemma length_lead_flags [simp]: "length (lead_flags P c) = len_utf8 c"
  using len_utf8_bounds(1) [of c] by (simp add: lead_flags_def)

lemma text_flags_simps [simp]:
  "text_flags P [] = []" "text_flags P (c # t) = lead_flags P c @ text_flags P t" "text_flags P (s @ t) = text_flags P s @ text_flags P t"
  by (simp_all add: text_flags_def)

lemma utf16_flags_simps [simp]:
  "utf16_flags [] = []" "utf16_flags (s @ t) = utf16_flags s @ utf16_flags t"
  "utf16_flags (c # t) = (if len_utf16 c = 2 then [True, True, False, False] else lead_flags (\<lambda>_. True) c) @ utf16_flags t"
  by (simp_all add: utf16_flags_def)

lemma length_text_flags [simp]: "length (text_flags P t) = text_len t"
  by (induction t) (simp_all add: text_len_Cons)

lemma len_utf16_2: "len_utf16 c = 2 \<longleftrightarrow> 0x10000 \<le> c" "len_utf16 c = 2 \<Longrightarrow> len_utf8 c = 4"
  by (auto simp: len_utf16_def len_utf8_def split: if_splits)

lemma length_utf16_flags [simp]: "length (utf16_flags t) = text_len t"
  by (induction t) (auto simp: text_len_Cons len_utf16_2)

lemma encode_flags:
  "map is_utf8_char_boundary (utf8_encode c) = lead_flags (\<lambda>_. True) c"
  "map (\<lambda>b. 240 \<le> b) (utf8_encode c) = lead_flags (\<lambda>c. len_utf16 c = 2) c"
  "n < 128 \<Longrightarrow> map (\<lambda>b. b = n) (utf8_encode c) = lead_flags (\<lambda>c. c = n) c"
proof -
  have m: "128 + k mod 64 < 192" for k :: nat using mod_less_divisor [of 64 k] by linarith
  have d: "c < 2048 \<Longrightarrow> c div 64 < 32" "c < 65536 \<Longrightarrow> c div 4096 < 16" for c :: nat by linarith+
  note defs = utf8_encode_def lead_flags_def len_utf8_def is_utf8_char_boundary_def numeral_2_eq_2 numeral_3_eq_3
  have cont: "\<not> is_utf8_char_boundary (128 + k mod 64)" "\<not> 240 \<le> 128 + k mod 64" for k :: nat
    using m [of k] by (auto simp: is_utf8_char_boundary_def)
  show "map is_utf8_char_boundary (utf8_encode c) = lead_flags (\<lambda>_. True) c"
    using cont(1) by (auto simp: defs)
  show "map (\<lambda>b. 240 \<le> b) (utf8_encode c) = lead_flags (\<lambda>c. len_utf16 c = 2) c"
    using cont(2) d [of c] by (auto simp: len_utf16_2(1)) (auto simp: defs)
  show "n < 128 \<Longrightarrow> map (\<lambda>b. b = n) (utf8_encode c) = lead_flags (\<lambda>c. c = n) c"
    by (auto simp: defs)
qed

lemma bytes_flags:
  "map is_utf8_char_boundary (utf8_bytes t) = text_flags (\<lambda>_. True) t"
  "map (\<lambda>b. 240 \<le> b) (utf8_bytes t) = text_flags (\<lambda>c. len_utf16 c = 2) t"
  "n < 128 \<Longrightarrow> map (\<lambda>b. b = n) (utf8_bytes t) = text_flags (\<lambda>c. c = n) t"
  by (induction t) (simp_all add: utf8_bytes_def encode_flags)

text \<open>The flags of the code units are those of the characters and, one byte later, of the
  characters of four bytes.\<close>

lemma map2_append: "length xs = length us \<Longrightarrow> map2 f (xs @ ys) (us @ vs) = map2 f xs us @ map2 f ys vs"
  by simp

lemma lead_flags_last: "False # lead_flags (\<lambda>c. len_utf16 c = 2) c @ F = (False # butlast (lead_flags (\<lambda>c. len_utf16 c = 2) c)) @ False # F"
  unfolding len_utf16_2(1) by (auto simp: lead_flags_def len_utf8_def numeral_2_eq_2 numeral_3_eq_3)

lemma utf16_lead: "map2 (\<or>) (False # butlast (lead_flags (\<lambda>c. len_utf16 c = 2) c)) (lead_flags (\<lambda>_. True) c) =
    (if len_utf16 c = 2 then [True, True, False, False] else lead_flags (\<lambda>_. True) c)"
  unfolding len_utf16_2(1) by (auto simp: lead_flags_def len_utf8_def numeral_2_eq_2 numeral_3_eq_3)

lemma utf16_flags_shift:
  "map2 (\<or>) (False # text_flags (\<lambda>c. len_utf16 c = 2) t) (text_flags (\<lambda>_. True) t @ [False]) = utf16_flags t @ [False]"
proof (induction t)
  case (Cons c t)
  have len: "length (False # butlast (lead_flags (\<lambda>c. len_utf16 c = 2) c)) = length (lead_flags (\<lambda>_. True) c)"
    using len_utf8_bounds(1) [of c] by simp
  show ?case
    unfolding text_flags_simps append_assoc lead_flags_last map2_append [OF len] utf16_lead Cons.IH by simp
qed simp

section \<open>Building the bitmaps\<close>

lemma bits_of_single: "bits_of (of_bool b :: 'a::len word) [b]"
  by (cases b) (auto simp: bits_of_def bit_1_iff)

lemma bits_of_snoc_False [simp]: "bits_of w (fl @ [False]) \<longleftrightarrow> bits_of w fl"
proof -
  have "(i < length (fl @ [False]) \<and> (fl @ [False]) ! i) = (i < length fl \<and> fl ! i)" for i
    by (cases "i = length fl") (auto simp: nth_append)
  then show ?thesis by (simp only: bits_of_def)
qed

lemma bits_of_or:
  assumes "bits_of v xs" "bits_of w ys" "length xs = length ys"
  shows "bits_of (v OR w) (map2 (\<or>) xs ys)"
proof (rule bits_ofI)
  fix i show "bit (v OR w) i \<longleftrightarrow> i < length (map2 (\<or>) xs ys) \<and> map2 (\<or>) xs ys ! i"
    using bits_ofD [OF assms(1), of i] bits_ofD [OF assms(2), of i] assms(3) by (auto simp: bit_or_iff)
qed

lemma bits_of_ucast:
  assumes "bits_of (w :: 8 word) fl" "length fl \<le> 8" shows "bits_of (ucast w :: 128 word) fl"
proof (rule bits_ofI)
  fix i show "bit (ucast w :: 128 word) i \<longleftrightarrow> i < length fl \<and> fl ! i"
    using bits_ofD [OF assms(1), of i] assms(2) by (auto simp: bit_ucast_iff)
qed

lemma group_flags_bits:
  "bits_of acc xs \<Longrightarrow> length xs = ix \<Longrightarrow> ix + length bs \<le> 8 \<Longrightarrow> bits_of (group_flags p ix acc bs) (xs @ map p bs)"
proof (induction p ix acc bs arbitrary: xs rule: group_flags.induct)
  case (2 p ix acc b bs)
  have "bits_of (acc OR push_bit (length xs) (of_bool (p b))) (xs @ [p b])"
    by (rule bits_of_or_shift [OF 2(2) bits_of_single]) (use 2 in simp)
  with 2(1) [of "xs @ [p b]"] 2(3,4) show ?case by simp
qed simp

lemma flag_bytes_bits: "length bs \<le> 128 \<Longrightarrow> bits_of (from_le_bytes (flag_bytes p bs)) (map p bs)"
proof (induction p bs rule: flag_bytes.induct)
  case (1 p bs)
  show ?case
  proof (cases "bs = []")
    case False
    let ?g = "group_flags p 0 0 (take 8 bs)" and ?r = "from_le_bytes (flag_bytes p (drop 8 bs))"
    have step: "from_le_bytes (flag_bytes p bs) = ucast ?g OR push_bit 8 ?r"
      using False by (simp add: flag_bytes.simps [of p bs] from_le_bytes_def)
    have g: "bits_of (ucast ?g :: Bitmap) (map p (take 8 bs))"
      using group_flags_bits [of 0 "[]" 0 "take 8 bs" p] by (intro bits_of_ucast) simp_all
    have r: "bits_of ?r (map p (drop 8 bs))" using 1 False by simp
    show ?thesis
    proof (cases "length bs \<le> 8")
      case True
      then have "?r = 0" using r by simp
      with g True step show ?thesis by simp
    next
      case False
      then have "bits_of (from_le_bytes (flag_bytes p bs)) (map p (take 8 bs) @ map p (drop 8 bs))"
        using bits_of_or_shift [OF g r] 1(2) step by simp
      then show ?thesis by (simp flip: map_append)
    qed
  qed (simp add: flag_bytes.simps from_le_bytes_def)
qed

lemma length_flag_bytes: "8 * length (flag_bytes p bs) < length bs + 8"
proof (induction p bs rule: flag_bytes.induct)
  case (1 p bs)
  show ?case by (subst flag_bytes.simps) (use 1 in \<open>cases "length bs \<le> 8"; auto simp: flag_bytes.simps [of p "[]"]\<close>)
qed

lemma from_le_bytes_pad: "from_le_bytes (ws @ replicate n 0) = from_le_bytes ws"
proof -
  have "foldr (\<lambda>w acc. ucast w OR push_bit 8 acc) (replicate n (0 :: 8 word)) 0 = (0 :: Bitmap)" by (induction n) simp_all
  then show ?thesis by (simp add: from_le_bytes_def)
qed

lemma byte_bitmap_bits:
  assumes "text_len t \<le> MAX_BASE" shows "bits_of (byte_bitmap p t) (map p (utf8_bytes t))"
proof -
  have "length (flag_bytes p (utf8_bytes t)) \<le> 16"
    using length_flag_bytes [of p "utf8_bytes t"] assms by (simp add: MAX_BASE_def)
  then have "byte_bitmap p t = from_le_bytes (flag_bytes p (utf8_bytes t))"
    by (simp add: byte_bitmap_def MAX_BASE_def resize_with_def from_le_bytes_pad)
  then show ?thesis using flag_bytes_bits [of "utf8_bytes t" p] assms by (simp add: MAX_BASE_def)
qed

lemma utf16_bitmap_bits:
  assumes "bits_of v (text_flags (\<lambda>c. len_utf16 c = 2) t)" "bits_of w (text_flags (\<lambda>_. True) t)" "text_len t \<le> 128"
  shows "bits_of (push_bit 1 v OR w :: Bitmap) (utf16_flags t)"
proof (cases "t = []")
  case False
  let ?F = "text_flags (\<lambda>c. len_utf16 c = 2) t" and ?G = "text_flags (\<lambda>_. True) t"
  obtain u c where t: "t = u @ [c]" using False by (cases t rule: rev_cases) auto
  have F: "?F = butlast ?F @ [False]"
    using lead_flags_last [of c "[]"] len_utf8_bounds(1) [of c] length_lead_flags [of "\<lambda>c. len_utf16 c = 2" c]
    unfolding t by (auto simp: butlast_append simp del: length_lead_flags)
  let ?B = "butlast ?F"
  have len: "Suc (length ?B) = length ?G" using F by (metis length_append_singleton length_text_flags)
  have "bits_of v ?B" using assms(1) F by (metis bits_of_snoc_False)
  then have "bits_of (push_bit 1 v) (False # ?B)"
    using bits_of_or_shift [of 0 "[False]" v ?B] len assms(3) by (simp add: bits_of_zero)
  from bits_of_or [OF this assms(2)] len
  have "bits_of (push_bit 1 v OR w) (map2 (\<or>) (False # ?B) ?G)" by simp
  moreover have "map2 (\<or>) (False # ?B) ?G @ [False] = utf16_flags t @ [False]"
    using utf16_flags_shift [of t] map2_append [of "False # ?B" ?G "(\<or>)" "[False]" "[False]"] F len by simp
  ultimately show ?thesis by simp
qed (use assms in simp)

section \<open>The chunk invariant\<close>

abbreviation "char_starts \<equiv> text_flags (\<lambda>_. True)"
abbreviation "newline_flags \<equiv> text_flags (\<lambda>c. c = 10)"
abbreviation "tab_flags \<equiv> text_flags (\<lambda>c. c = 9)"

definition chunk_ok :: "Chunk \<Rightarrow> bool" where
  "chunk_ok c \<longleftrightarrow> text_len (chunk_text c) \<le> MAX_BASE \<and>
     bits_of (chunk_chars c) (char_starts (chunk_text c)) \<and> bits_of (chunk_chars_utf16 c) (utf16_flags (chunk_text c)) \<and>
     bits_of (chunk_newlines c) (newline_flags (chunk_text c)) \<and> bits_of (chunk_tabs c) (tab_flags (chunk_text c))"

lemma chunk_okD:
  assumes "chunk_ok c"
  shows "text_len (chunk_text c) \<le> 128" "bits_of (chunk_chars c) (char_starts (chunk_text c))"
    "bits_of (chunk_chars_utf16 c) (utf16_flags (chunk_text c))" "bits_of (chunk_newlines c) (newline_flags (chunk_text c))"
    "bits_of (chunk_tabs c) (tab_flags (chunk_text c))"
  using assms by (simp_all add: chunk_ok_def MAX_BASE_def)

lemma chunk_ok_unique:
  assumes "chunk_ok c" "chunk_ok d" "chunk_text c = chunk_text d" shows "c = (d :: Chunk)"
  using assms by (intro Chunk.equality) (auto simp: chunk_ok_def intro: bits_of_unique)

lemma Chunk_new_ok:
  assumes "text_len t \<le> MAX_BASE"
  obtains c where "Chunk_new t = Some c" "chunk_ok c" "chunk_text c = t"
proof -
  note bits = byte_bitmap_bits [OF assms]
  have chars: "bits_of (byte_bitmap is_utf8_char_boundary t) (char_starts t)"
    using bits [of is_utf8_char_boundary] by (simp add: bytes_flags)
  moreover have "bits_of (push_bit 1 (byte_bitmap (\<lambda>b. 240 \<le> b) t) OR byte_bitmap is_utf8_char_boundary t) (utf16_flags t)"
    using bits [of "\<lambda>b. 240 \<le> b"] chars assms by (intro utf16_bitmap_bits) (simp_all add: bytes_flags MAX_BASE_def)
  moreover have "bits_of (byte_bitmap (\<lambda>b. b = 10) t) (newline_flags t)" "bits_of (byte_bitmap (\<lambda>b. b = 9) t) (tab_flags t)"
    using bits [of "\<lambda>b. b = 10"] bits [of "\<lambda>b. b = 9"] by (simp_all add: bytes_flags)
  ultimately show ?thesis
    using assms that by (simp add: Chunk_new_def Let_def chunk_ok_def)
qed

lemma Chunk_new_iff: "Chunk_new t = Some c \<longleftrightarrow> chunk_ok c \<and> chunk_text c = t"
proof
  assume new: "Chunk_new t = Some c"
  then have "text_len t \<le> MAX_BASE" by (simp add: Chunk_new_def split: if_splits)
  from Chunk_new_ok [OF this] new show "chunk_ok c \<and> chunk_text c = t" by auto
next
  assume ok: "chunk_ok c \<and> chunk_text c = t"
  then have "text_len t \<le> MAX_BASE" by (auto simp: chunk_ok_def)
  from Chunk_new_ok [OF this] ok show "Chunk_new t = Some c" by (metis chunk_ok_unique)
qed

lemma Chunk_new_None: "Chunk_new t = None \<longleftrightarrow> MAX_BASE < text_len t"
  by (simp add: Chunk_new_def Let_def)

lemma chunk_ok_new: "chunk_ok c \<Longrightarrow> Chunk_new (chunk_text c) = Some c"
  by (simp add: Chunk_new_iff)

lemma empty_slice_ok [simp]: "chunk_ok empty_slice" "chunk_text empty_slice = []"
  by (simp_all add: empty_slice_def chunk_ok_def)

lemma bits_of_join:
  assumes "bits_of (v :: Bitmap) xs" "bits_of w ys" "length xs = n" "n + length ys \<le> MAX_BASE"
  shows "bits_of (v OR push_bit n w) (xs @ ys)"
  using bits_of_or_shift [OF assms(1,2)] assms(3,4) by (simp add: MAX_BASE_def)

lemma chunk_append_eq:
  assumes "chunk_ok c" "chunk_ok s"
  shows "chunk_append c s = Chunk_new (chunk_text c @ chunk_text s)"
proof (cases "chunk_text s = [] \<or> MAX_BASE < text_len (chunk_text c @ chunk_text s)")
  case True
  then show ?thesis
    using assms chunk_ok_new [OF assms(1)]
    by (auto simp: chunk_append_def chunk_is_empty_def chunk_len_def Chunk_new_None [THEN iffD2] Let_def)
next
  case False
  then have "0 < text_len (chunk_text s)" "text_len (chunk_text c) + text_len (chunk_text s) \<le> MAX_BASE" by simp_all
  then have "\<not> MAX_BASE \<le> text_len (chunk_text c)" by linarith
  let ?n = "text_len (chunk_text c)"
  let ?r = "\<lparr>chunk_chars = chunk_chars c OR push_bit ?n (chunk_chars s),
      chunk_chars_utf16 = chunk_chars_utf16 c OR push_bit ?n (chunk_chars_utf16 s),
      chunk_newlines = chunk_newlines c OR push_bit ?n (chunk_newlines s),
      chunk_tabs = chunk_tabs c OR push_bit ?n (chunk_tabs s),
      chunk_text = chunk_text c @ chunk_text s\<rparr>"
  have "chunk_append c s = Some ?r"
    using False \<open>\<not> MAX_BASE \<le> ?n\<close> by (simp add: chunk_append_def chunk_is_empty_def chunk_len_def Let_def)
  moreover have "chunk_ok ?r"
    using assms False by (simp add: chunk_ok_def bits_of_join)
  ultimately show ?thesis using chunk_ok_new [of ?r] by simp
qed

lemma chunk_prepend_eq:
  assumes "chunk_ok c" "chunk_ok s"
  shows "chunk_prepend c s = Chunk_new (chunk_text s @ chunk_text c)"
proof (cases "chunk_text s = [] \<or> chunk_text c = []")
  case True
  then show ?thesis
    using chunk_ok_new [OF assms(1)] by (auto simp: chunk_prepend_def chunk_is_empty_def)
next
  case False
  then have "chunk_prepend c s = chunk_append s c"
    by (simp add: chunk_prepend_def chunk_append_def chunk_is_empty_def Let_def)
  then show ?thesis by (simp add: chunk_append_eq [OF assms(2,1)])
qed

lemma chunk_push_str_eq:
  assumes "chunk_ok c"
  shows "chunk_push_str c t = Chunk_new (chunk_text c @ t)" "chunk_prepend_str c t = Chunk_new (t @ chunk_text c)"
proof -
  have "chunk_push_str c t = Chunk_new (chunk_text c @ t) \<and> chunk_prepend_str c t = Chunk_new (t @ chunk_text c)"
  proof (cases "Chunk_new t")
    case None
    then have "Chunk_new (chunk_text c @ t) = None" "Chunk_new (t @ chunk_text c) = None"
      by (simp_all add: Chunk_new_None)
    with None show ?thesis by (simp add: chunk_push_str_def chunk_prepend_str_def)
  next
    case (Some s)
    then have "chunk_ok s" "chunk_text s = t" by (simp_all add: Chunk_new_iff)
    with Some chunk_append_eq [OF assms, of s] chunk_prepend_eq [OF assms, of s] show ?thesis
      by (simp add: chunk_push_str_def chunk_prepend_str_def)
  qed
  then show "chunk_push_str c t = Chunk_new (chunk_text c @ t)" "chunk_prepend_str c t = Chunk_new (t @ chunk_text c)" by simp_all
qed

lemma bits_of_split:
  assumes "bits_of (w :: Bitmap) (xs @ ys)" "length xs = n"
  shows "bits_of (w AND mask n) xs" "bits_of (drop_bit n w) ys"
  using bits_of_take [OF assms(1), of n] bits_of_drop [OF assms(1), of n] assms(2) by simp_all

lemma bits_of_skip:
  assumes "bits_of (w :: Bitmap) (xs @ b # ys)" "length xs = n"
  shows "bits_of (drop_bit 1 (drop_bit n w)) ys"
  using bits_of_drop [OF bits_of_split(2) [OF assms], of 1] by simp

lemma bits_of_slice:
  assumes "bits_of (w :: Bitmap) (xs @ ys @ zs)" "length xs = i" "j = i + length ys"
  shows "bits_of (drop_bit i (w AND mask j)) ys"
  using bits_of_split(2) [OF bits_of_split(1) [of w "xs @ ys" zs j]] assms by simp

lemma chunk_split_at_ok:
  assumes "chunk_ok c" "chunk_text c = a @ b"
  obtains l r where "chunk_split_at c (text_len a) = Some (l, r)" "chunk_ok l" "chunk_ok r" "chunk_text l = a" "chunk_text r = b"
proof (cases "text_len a = MAX_BASE")
  case True
  with assms have "text_len b = 0" by (simp add: chunk_ok_def)
  with assms True that [of c empty_slice] show ?thesis by (simp add: chunk_split_at_def)
next
  case False
  let ?n = "text_len a"
  let ?l = "\<lparr>chunk_chars = chunk_chars c AND mask ?n, chunk_chars_utf16 = chunk_chars_utf16 c AND mask ?n,
      chunk_newlines = chunk_newlines c AND mask ?n, chunk_tabs = chunk_tabs c AND mask ?n, chunk_text = a\<rparr>"
  let ?r = "\<lparr>chunk_chars = drop_bit ?n (chunk_chars c), chunk_chars_utf16 = drop_bit ?n (chunk_chars_utf16 c),
      chunk_newlines = drop_bit ?n (chunk_newlines c), chunk_tabs = drop_bit ?n (chunk_tabs c), chunk_text = b\<rparr>"
  have len: "text_len a + text_len b \<le> MAX_BASE" using assms by (simp add: chunk_ok_def)
  have "chunk_split_at c ?n = Some (?l, ?r)"
    using False len assms(2) by (simp add: chunk_split_at_def Let_def )
  moreover have "chunk_ok ?l" "chunk_ok ?r"
    using assms(1) len unfolding chunk_ok_def assms(2) text_flags_simps utf16_flags_simps
    by (auto intro: bits_of_split)
  ultimately show ?thesis using that by simp
qed

lemma chunk_split_at_None:
  assumes "chunk_ok c" "\<not> is_boundary (chunk_text c) mid" "mid \<noteq> MAX_BASE"
  shows "chunk_split_at c mid = None"
proof -
  have "str_split_at (chunk_text c) mid = None" using assms(2) by (simp only: is_boundary_split not_not)
  then show ?thesis using assms(3) by (simp add: chunk_split_at_def Let_def)
qed

lemma lead_flags_nth: "i < len_utf8 c \<Longrightarrow> lead_flags (\<lambda>_. True) c ! i \<longleftrightarrow> i = 0"
  by (cases i) (simp_all add: lead_flags_def)

lemma char_starts_nth: "i < text_len t \<Longrightarrow> char_starts t ! i \<longleftrightarrow> is_boundary t i"
proof (induction t arbitrary: i)
  case (Cons c t)
  show ?case
  proof (cases "i < len_utf8 c")
    case True
    then show ?thesis by (simp add: nth_append lead_flags_nth) 
  next
    case False
    with Cons.prems Cons.IH [of "i - len_utf8 c"] len_utf8_bounds(1) [of c] show ?thesis by (simp add: nth_append text_len_Cons) 
  qed
qed simp

lemma is_boundary_bounds: "is_boundary t i \<Longrightarrow> i \<le> text_len t" "is_boundary t (text_len t)" "is_boundary t 0"
  by (auto simp: is_boundary_iff)

lemma chunk_is_char_boundary_eq:
  assumes "chunk_ok c" shows "chunk_is_char_boundary c i \<longleftrightarrow> is_boundary (chunk_text c) i"
proof -
  have "push_bit i 1 AND chunk_chars c \<noteq> 0 \<longleftrightarrow> bit (chunk_chars c) i"
  proof
    assume "push_bit i 1 AND chunk_chars c \<noteq> 0"
    then obtain n where "bit (push_bit i 1 AND chunk_chars c) n" by (metis bit_eq_iff bit_0_eq bot_apply bot_bool_def)
    then have "bit (push_bit i (1 :: Bitmap)) n" "bit (chunk_chars c) n" by (simp_all only: bit_and_iff)
    moreover from this(1) have "n = i" by (simp only: bit_push_bit_iff bit_1_iff) simp
    ultimately show "bit (chunk_chars c) i" by simp
  next
    assume b: "bit (chunk_chars c) i"
    then have "bit (push_bit i 1 AND chunk_chars c) i"
      using bit_imp_le_length [OF b] by (simp only: bit_and_iff bit_push_bit_iff bit_1_iff) simp
    then show "push_bit i 1 AND chunk_chars c \<noteq> 0" by (metis bit_0_eq bot_apply bot_bool_def)
  qed
  also have "\<dots> \<longleftrightarrow> i < text_len (chunk_text c) \<and> is_boundary (chunk_text c) i"
    using bits_ofD [OF chunk_okD(2) [OF assms], of i] by (auto simp: char_starts_nth)
  finally show ?thesis
    using is_boundary_bounds [of "chunk_text c"] by (auto simp: chunk_is_char_boundary_def chunk_len_def le_less)
qed

text \<open>Both shift operators agree as long as nothing overflows.\<close>

definition shifts_right :: "(Bitmap \<Rightarrow> nat \<Rightarrow> Bitmap option) \<Rightarrow> bool" where
  "shifts_right shr \<longleftrightarrow> (\<forall>w n. n < 128 \<longrightarrow> shr w n = Some (drop_bit n w))"

lemma shifts_right_shr: "shifts_right shr_checked" "shifts_right shr_wrapping"
  by (simp_all add: shifts_right_def shr_checked_def shr_wrapping_def)

lemma chunk_slice_with_ok:
  assumes "shifts_right shr" "chunk_ok c" "chunk_text c = a @ t @ b"
  obtains s where "chunk_slice_with shr c (text_len a) (text_len a + text_len t) = Some s" "chunk_ok s" "chunk_text s = t"
proof (cases "text_len a = MAX_BASE")
  case True
  with assms have "text_len t = 0" by (simp add: chunk_ok_def)
  with True that [of empty_slice] show ?thesis by (simp add: chunk_slice_with_def)
next
  case False
  let ?i = "text_len a" and ?j = "text_len a + text_len t"
  let ?s = "\<lparr>chunk_chars = drop_bit ?i (chunk_chars c AND mask ?j),
      chunk_chars_utf16 = drop_bit ?i (chunk_chars_utf16 c AND mask ?j),
      chunk_newlines = drop_bit ?i (chunk_newlines c AND mask ?j),
      chunk_tabs = drop_bit ?i (chunk_tabs c AND mask ?j), chunk_text = t\<rparr>"
  have len: "text_len a + (text_len t + text_len b) \<le> MAX_BASE" using assms by (simp add: chunk_ok_def)
  then have shr: "shr w ?i = Some (drop_bit ?i w)" for w using assms(1) False by (simp add: shifts_right_def MAX_BASE_def)
  have "is_boundary (chunk_text c) ?i" "is_boundary (chunk_text c) ?j"
    using assms(3) by (auto simp: is_boundary_iff intro: exI [of _ "a @ t"])
  then have "chunk_slice_with shr c ?i ?j = Some ?s"
    using False assms(3) by (simp add: chunk_slice_with_def Let_def shr chunk_is_char_boundary_eq [OF assms(2)])
  moreover have "chunk_ok ?s"
    using assms(2) len unfolding chunk_ok_def assms(3) text_flags_simps utf16_flags_simps append_assoc
    by (auto intro: bits_of_slice simp del: drop_bit_and)
  ultimately show ?thesis using that by simp
qed

lemma chunk_slice_ok:
  assumes "chunk_ok c" "chunk_text c = a @ t @ b"
  obtains s where "chunk_slice c (text_len a) (text_len a + text_len t) = Some s" "chunk_ok s" "chunk_text s = t"
  using chunk_slice_with_ok [OF shifts_right_shr(2) assms] unfolding chunk_slice_def by blast

lemma floor_boundary_spec:
  "is_boundary t (floor_boundary t i)" "floor_boundary t i \<le> i" "is_boundary t j \<Longrightarrow> j \<le> i \<Longrightarrow> j \<le> floor_boundary t i"
proof -
  show "is_boundary t (floor_boundary t i)" "floor_boundary t i \<le> i"
    by (induction t i rule: floor_boundary.induct) (auto simp: le_diff_conv2)
  show "is_boundary t j \<Longrightarrow> j \<le> i \<Longrightarrow> j \<le> floor_boundary t i"
  proof (induction t i arbitrary: j rule: floor_boundary.induct)
    case (2 c cs i)
    show ?case
    proof (cases "i < len_utf8 c \<or> j = 0")
      case False
      with 2(1) [of "j - len_utf8 c"] 2(2,3) have "j - len_utf8 c \<le> floor_boundary cs (i - len_utf8 c)" by simp
      with False show ?thesis by simp
    qed (use 2 in auto)
  qed simp
qed

lemma ceil_boundary_spec:
  "is_boundary t (ceil_boundary t i)" "i \<le> text_len t \<Longrightarrow> i \<le> ceil_boundary t i"
  "is_boundary t j \<Longrightarrow> i \<le> j \<Longrightarrow> ceil_boundary t i \<le> j"
proof -
  show "is_boundary t (ceil_boundary t i)"
    by (induction t i rule: ceil_boundary.induct) auto
  show "i \<le> text_len t \<Longrightarrow> i \<le> ceil_boundary t i"
  proof (induction t i rule: ceil_boundary.induct)
    case (2 c cs i)
    then have "i \<noteq> 0 \<Longrightarrow> i - len_utf8 c \<le> ceil_boundary cs (i - len_utf8 c)" by (simp add: text_len_Cons)
    moreover have "i \<le> len_utf8 c + k" if "i - len_utf8 c \<le> k" for k using that by linarith
    ultimately show ?case by simp
  qed simp
  show "is_boundary t j \<Longrightarrow> i \<le> j \<Longrightarrow> ceil_boundary t i \<le> j"
  proof (induction t i arbitrary: j rule: ceil_boundary.induct)
    case (2 c cs i)
    show ?case
    proof (cases "i = 0")
      case False
      then have "len_utf8 c \<le> j" "is_boundary cs (j - len_utf8 c)" using 2(2,3) by auto
      with 2(1) [OF False, of "j - len_utf8 c"] 2(3) have "ceil_boundary cs (i - len_utf8 c) \<le> j - len_utf8 c"
        by (simp add: diff_le_mono)
      with False \<open>len_utf8 c \<le> j\<close> show ?thesis by simp
    qed simp
  qed simp
qed

lemma prev_boundary_eq: "i \<le> text_len t \<Longrightarrow> prev_boundary t i = floor_boundary t i"
proof (induction i)
  case 0
  show ?case using floor_boundary_spec(2) [of t 0] by simp
next
  case (Suc i)
  show ?case
  proof (cases "is_boundary t (Suc i)")
    case True
    with floor_boundary_spec(3) [OF True, of "Suc i"] floor_boundary_spec(2) [of t "Suc i"] show ?thesis by simp
  next
    case False
    then have "floor_boundary t (Suc i) \<noteq> Suc i" using floor_boundary_spec(1) [of t "Suc i"] by metis
    then have "floor_boundary t (Suc i) \<le> i" using floor_boundary_spec(2) [of t "Suc i"] by simp
    then have "floor_boundary t (Suc i) \<le> floor_boundary t i"
      by (rule floor_boundary_spec(3) [OF floor_boundary_spec(1)])
    moreover have "floor_boundary t i \<le> floor_boundary t (Suc i)"
      using floor_boundary_spec(2) [of t i] by (intro floor_boundary_spec(3) [OF floor_boundary_spec(1)]) simp
    ultimately show ?thesis using Suc False by simp
  qed
qed

lemma next_boundary_eq: "i \<le> text_len t \<Longrightarrow> next_boundary t i = ceil_boundary t i"
proof (induction t i rule: next_boundary.induct)
  case (1 t i)
  show ?case
  proof (cases "is_boundary t i")
    case True
    with ceil_boundary_spec(3) [OF True order_refl] ceil_boundary_spec(2) [OF 1(2)] show ?thesis
      by (simp add: next_boundary.simps)
  next
    case False
    then have less: "\<not> text_len t \<le> i" using 1(2) is_boundary_bounds(2) [of t] by (metis le_antisym)
    have "ceil_boundary t i \<noteq> i" using False ceil_boundary_spec(1) [of t i] by metis
    then have "Suc i \<le> ceil_boundary t i" using ceil_boundary_spec(2) [OF 1(2)] by simp
    then have "ceil_boundary t (Suc i) \<le> ceil_boundary t i" by (rule ceil_boundary_spec(3) [OF ceil_boundary_spec(1)])
    moreover have "ceil_boundary t i \<le> ceil_boundary t (Suc i)"
      using ceil_boundary_spec(2) [of "Suc i" t] less by (intro ceil_boundary_spec(3) [OF ceil_boundary_spec(1)]) simp
    ultimately have "ceil_boundary t (Suc i) = ceil_boundary t i" by simp
    with False less 1(1) show ?thesis by (subst next_boundary.simps) simp
  qed
qed

lemma floor_walk_spec:
  assumes "i < text_len t" shows "floor_walk (utf8_bytes t) i = floor_boundary t i"
proof -
  have nth: "is_utf8_char_boundary (utf8_bytes t ! k) \<longleftrightarrow> is_boundary t k" if "k < text_len t" for k
    using that char_starts_nth [OF that] arg_cong [OF bytes_flags(1) [of t], of "\<lambda>xs. xs ! k"] by simp
  have walk: "is_boundary t (floor_walk (utf8_bytes t) k) \<and> floor_walk (utf8_bytes t) k \<le> k \<and>
      (\<forall>j. is_boundary t j \<longrightarrow> j \<le> k \<longrightarrow> j \<le> floor_walk (utf8_bytes t) k)" if "k < text_len t" for k
    using that by (induction k) (auto simp: nth is_boundary_bounds(3) le_Suc_eq)
  show ?thesis
    using walk [OF assms] floor_boundary_spec [of t] by (meson le_antisym)
qed

section \<open>Reading lengths and lines\<close>

lemma count_lead_flags: "length (filter (\<lambda>b. b) (lead_flags P c)) = (if P c then 1 else 0)"
  by (simp add: lead_flags_def)

lemma count_flags:
  "length (filter (\<lambda>b. b) (text_flags P t)) = length (filter P t)"
  "length (filter (\<lambda>b. b) (utf16_flags t)) = text_len_utf16 t"
proof -
  show "length (filter (\<lambda>b. b) (text_flags P t)) = length (filter P t)"
    by (induction t) (simp_all add: count_lead_flags)
  have "len_utf16 c \<noteq> 2 \<Longrightarrow> len_utf16 c = 1" for c by (simp add: len_utf16_def split: if_splits)
  then show "length (filter (\<lambda>b. b) (utf16_flags t)) = text_len_utf16 t"
    by (induction t) (auto simp: count_lead_flags text_len_utf16_Cons)
qed

lemma no_flags: "(\<And>c. c \<in> set t \<Longrightarrow> \<not> P c) \<Longrightarrow> text_flags P t = replicate (text_len t) False"
proof (induction t)
  case (Cons c t)
  have "lead_flags P c = replicate (len_utf8 c) False"
    using Cons.prems len_utf8_bounds(1) [of c] by (simp add: lead_flags_def flip: replicate_Suc)
  with Cons show ?case by (simp add: text_len_Cons replicate_add)
qed simp

lemma newline_flags_none: "10 \<notin> set t \<Longrightarrow> newline_flags t = replicate (text_len t) False"
  by (rule no_flags) auto

lemma lead_flags_self [simp]: "n < 128 \<Longrightarrow> lead_flags (\<lambda>c. c = n) n = [True]"
  by (simp add: lead_flags_def len_utf8_def)

lemma split_lines_none: "10 \<notin> set t \<Longrightarrow> split_lines t = [t]"
  by (induction t) auto

lemma split_lines_append: "split_lines (a @ 10 # b) = split_lines a @ split_lines b"
proof (induction a)
  case (Cons c a)
  obtain l ls where "split_lines a = l # ls" by (cases "split_lines a") auto
  with Cons show ?case by simp
qed simp

lemma length_split_lines: "length (split_lines t) = Suc (length (filter (\<lambda>c. c = 10) t))"
proof (induction t)
  case (Cons c t)
  obtain l ls where "split_lines t = l # ls" by (cases "split_lines t") auto
  with Cons show ?case by simp
qed simp

text \<open>Where the first and the last line of a text are in its bytes.\<close>

lemma first_line_cases:
  obtains "10 \<notin> set t" "split_lines t = [t]"
  | l r where "t = l @ 10 # r" "10 \<notin> set l" "split_lines t = l # split_lines r"
proof (cases "10 \<in> set t")
  case True
  then obtain l r where "t = l @ 10 # r" "10 \<notin> set l" by (metis split_list_first)
  with that(2) show ?thesis by (simp add: split_lines_append split_lines_none)
qed (use that split_lines_none in blast)

lemma last_line_cases:
  obtains "10 \<notin> set t" "split_lines t = [t]"
  | r l where "t = r @ 10 # l" "10 \<notin> set l" "split_lines t = split_lines r @ [l]"
proof (cases "10 \<in> set t")
  case True
  then obtain r l where "t = r @ 10 # l" "10 \<notin> set l" by (metis split_list_last)
  with that(2) show ?thesis by (simp add: split_lines_append split_lines_none)
qed (use that split_lines_none in blast)

lemma trailing_newline:
  assumes "bits_of (w :: Bitmap) (newline_flags t)" "text_len t \<le> 128"
  shows "10 \<notin> set t \<Longrightarrow> w = 0" "t = l @ 10 # r \<Longrightarrow> 10 \<notin> set l \<Longrightarrow> trailing_zeros w = text_len l \<and> w \<noteq> 0"
proof -
  show "w = 0" if "10 \<notin> set t"
    using assms(1) newline_flags_none [OF that] bits_of_zero [where 'a = 128, of "newline_flags t"]
    by (auto intro: bits_of_unique)
  show "trailing_zeros w = text_len l \<and> w \<noteq> 0" if t: "t = l @ 10 # r" "10 \<notin> set l"
  proof
    have fl: "newline_flags t = replicate (text_len l) False @ True # newline_flags r"
      using t newline_flags_none [OF t(2)] by simp
    show "trailing_zeros w = text_len l"
      using assms t(1) by (intro trailing_zeros_flags [of _ _ "newline_flags r"]) (simp_all add: fl [symmetric] text_len_Cons len_utf8_def)
    show "w \<noteq> 0" using assms(1) bits_of_zero [where 'a = 128, of "newline_flags t"] by (auto simp: fl)
  qed
qed

lemma leading_newline:
  assumes "bits_of (w :: Bitmap) (newline_flags t)" "text_len t \<le> 128" "t = r @ 10 # l" "10 \<notin> set l"
  shows "leading_zeros w = 127 - text_len r"
proof -
  have "newline_flags t = newline_flags r @ True # replicate (text_len l) False"
    using assms(3) newline_flags_none [OF assms(4)] by simp
  then show ?thesis
    using leading_zeros_flags [of w "newline_flags r" "text_len l"] assms by (simp add: text_len_Cons len_utf8_def)
qed

lemma of_nat_column:
  assumes "128 \<le> n + k" "k \<le> 128" "n \<le> 128"
  shows "unat (of_nat n - (128 - of_nat k) :: 32 word) = n + k - 128"
proof -
  have eq: "(of_nat n - (128 - of_nat k) :: 32 word) = of_nat (n + k - 128)" using assms by (simp add: of_nat_diff)
  have small: "unat (of_nat m :: 32 word) = m" if "m < 2 ^ 32" for m using that by (simp add: unat_of_nat)
  show ?thesis unfolding eq by (rule small) (use assms in simp)
qed

lemma shr_mask: "n \<le> 128 \<Longrightarrow> saturating_shr_mask n = NOT (mask (128 - n))"
  by (rule bit_eqI) (auto simp: saturating_shr_mask_def bit_not_iff bit_drop_bit_eq bit_mask_iff bit_minus_1_iff)

lemma bits_of_clear:
  assumes "bits_of (w :: Bitmap) (xs @ ys)" "length xs = n"
  shows "bits_of (w AND NOT (mask n)) (replicate n False @ ys)"
proof (rule bits_ofI)
  fix i
  have "bit w i \<Longrightarrow> i < 128" using bit_imp_le_length [of w i] by simp
  then show "bit (w AND NOT (mask n)) i \<longleftrightarrow> i < length (replicate n False @ ys) \<and> (replicate n False @ ys) ! i"
    using bits_ofD [OF assms(1), of i] assms(2) by (auto simp: bit_and_iff bit_not_iff bit_mask_iff nth_append)
qed

lemma chunk_lines_eq:
  assumes "chunk_ok c"
  shows "chunk_lines c = \<lparr>row = length (split_lines (chunk_text c)) - 1, column = text_len (last (split_lines (chunk_text c)))\<rparr>"
proof -
  note ok = chunk_okD [OF assms]
  have rows: "count_ones (chunk_newlines c) = length (split_lines (chunk_text c)) - 1"
    using count_ones_flags [OF ok(4)] ok(1) by (simp add: count_flags length_split_lines)
  have "128 \<le> leading_zeros (chunk_newlines c) + chunk_len c \<and> chunk_len c \<le> 128 \<and> leading_zeros (chunk_newlines c) \<le> 128 \<and>
    leading_zeros (chunk_newlines c) + chunk_len c - 128 = text_len (last (split_lines (chunk_text c)))"
  proof (cases rule: last_line_cases [of "chunk_text c"])
    case 1
    with ok(1) trailing_newline(1) [OF ok(4,1)] show ?thesis by (simp add: zeros_zero chunk_len_def)
  next
    case (2 r l)
    with ok(1) leading_newline [OF ok(4,1) 2(1,2)] show ?thesis by (simp add: chunk_len_def text_len_Cons len_utf8_def)
  qed
  with rows show ?thesis
    using of_nat_column [of "leading_zeros (chunk_newlines c)" "chunk_len c"] by (simp only: chunk_lines_def Point_new_def)
qed

lemma chunk_len_utf16_eq: "chunk_ok c \<Longrightarrow> chunk_len_utf16 c = text_len_utf16 (chunk_text c)"
  using count_ones_flags [OF chunk_okD(3)] chunk_okD(1) [of c] by (simp add: chunk_len_utf16_def count_flags)

lemma first_line_chars_eq:
  assumes "chunk_ok c" shows "first_line_chars c = length (hd (split_lines (chunk_text c)))"
proof (cases rule: first_line_cases [of "chunk_text c"])
  note ok = chunk_okD [OF assms]
  case 1
  then have "first_line_chars c = count_ones (chunk_chars c AND mask LENGTH(128))"
    using trailing_newline(1) [OF ok(4,1) 1(1)] by (simp only: first_line_chars_def saturating_shl_mask_def shl_mask zeros_zero)
  moreover have "take LENGTH(128) (char_starts (chunk_text c)) = char_starts (chunk_text c)" using ok(1) by simp
  moreover have "length (char_starts (chunk_text c)) \<le> LENGTH(128)" using ok(1) by simp
  ultimately have "first_line_chars c = length (filter (\<lambda>b. b) (char_starts (chunk_text c)))"
    using count_ones_flags [OF bits_of_take [OF ok(2), of "LENGTH(128)"]] by (simp only:)
  then show ?thesis using 1 by (simp add: count_flags)
next
  note ok = chunk_okD [OF assms]
  case (2 l r)
  have "bits_of (chunk_chars c AND mask (text_len l)) (char_starts l)"
    by (rule bits_of_split(1) [of _ _ "char_starts (10 # r)"]) (use ok(2) 2(1) in simp_all)
  with 2 ok trailing_newline(2) [OF ok(4,1) 2(1,2)] show ?thesis
    by (simp add: first_line_chars_def saturating_shl_mask_def count_ones_flags count_flags)
qed

lemma last_line_count:
  assumes "chunk_ok c" "bits_of w (F (chunk_text c))"
    and F: "\<And>a b. F (a @ b) = F a @ F b" "\<And>a. length (F a) = text_len a"
  shows "count_ones (w AND saturating_shr_mask (leading_zeros (chunk_newlines c))) = length (filter (\<lambda>b. b) (F (last (split_lines (chunk_text c)))))"
proof (cases rule: last_line_cases [of "chunk_text c"])
  note ok = chunk_okD [OF assms(1)]
  case 1
  with ok trailing_newline(1) [OF ok(4,1)] assms(2) F(2) show ?thesis
    by (simp add: shr_mask zeros_zero count_ones_flags)
next
  note ok = chunk_okD [OF assms(1)]
  case (2 r l)
  let ?k = "Suc (text_len r)"
  have k: "text_len (r @ [10]) = ?k" by (simp add: text_len_Cons len_utf8_def)
  have "bits_of (w AND NOT (mask ?k)) (replicate ?k False @ F l)"
    by (rule bits_of_clear [of _ "F (r @ [10])"]) (use assms(2) 2(1) F(1) [of "r @ [10]" l] F(2) k in simp_all)
  moreover have "128 - (127 - text_len r) = ?k" "?k + text_len l \<le> 128"
    using ok(1) 2(1) k by (simp_all add: text_len_Cons len_utf8_def)
  ultimately show ?thesis
    using 2 F(2) leading_newline [OF ok(4,1) 2(1,2)] count_ones_flags [of "w AND NOT (mask ?k)" "replicate ?k False @ F l"]
    by (simp add: shr_mask)
qed

lemma last_line_eq:
  assumes "chunk_ok c"
  shows "last_line_chars c = length (last (split_lines (chunk_text c)))"
    "last_line_len_utf16 c = text_len_utf16 (last (split_lines (chunk_text c)))"
  using last_line_count [where F = char_starts, OF assms chunk_okD(2) [OF assms]]
    last_line_count [where F = utf16_flags, OF assms chunk_okD(3) [OF assms]]
  by (simp_all add: last_line_chars_def last_line_len_utf16_def count_flags)

section \<open>The longest row\<close>

fun scan_rows :: "ustr list \<Rightarrow> nat \<Rightarrow> nat \<Rightarrow> nat \<Rightarrow> nat \<times> nat" where
  "scan_rows [] r lr n = (lr, n)"
| "scan_rows (l # ls) r lr n = (if n < length l then scan_rows ls (Suc r) r (length l) else scan_rows ls (Suc r) lr n)"

lemma scan_rows_longest:
  "longest_ok pre lr n \<Longrightarrow> case scan_rows ls (length pre) lr n of (lr', n') \<Rightarrow> longest_ok (pre @ ls) lr' n'"
proof (induction ls arbitrary: pre lr n)
  case (Cons l ls)
  have "longest_ok (pre @ [l]) (length pre) (length l)" if "n < length l"
    using Cons.prems that by (auto simp: longest_ok_def nth_append less_Suc_eq intro: order_trans less_imp_le le_less_trans)
  moreover have "longest_ok (pre @ [l]) lr n" if "\<not> n < length l"
    using Cons.prems that by (auto simp: longest_ok_def nth_append less_Suc_eq)
  ultimately show ?case using Cons.IH [of "pre @ [l]"] by (auto split: if_splits)
qed simp

lemma longest_row_loop_eq:
  assumes "bits_of chars (char_starts t)" "bits_of newlines (newline_flags t)" "text_len t \<le> 128"
  shows "longest_row_loop chars newlines m r lr n = (m + length t, scan_rows (split_lines t) r lr n)"
  using assms
proof (induction "length t" arbitrary: t chars newlines m r lr n rule: less_induct)
  case less
  note len = length_le_text_len [of t]
  show ?case
  proof (cases rule: first_line_cases [of t])
    case 1
    have "count_ones chars = length t" using less.prems by (simp add: count_ones_flags count_flags)
    then show ?thesis
      using trailing_newline(1) [OF less.prems(2,3) 1(1)] 1 len less.prems(3) by (simp add: longest_row_loop.simps Let_def)
  next
    case (2 l s)
    let ?n = "text_len l"
    have tz: "trailing_zeros newlines = ?n" "newlines \<noteq> 0"
      using trailing_newline(2) [OF less.prems(2,3) 2(1,2)] by simp_all
    have ch: "bits_of chars (char_starts l @ True # char_starts s)"
      using less.prems(1) 2(1) by (simp add: lead_flags_def len_utf8_def)
    have nl: "bits_of newlines (newline_flags l @ True # newline_flags s)" using less.prems(2) 2(1) by simp
    have "bits_of (chars AND mask ?n) (char_starts l)" by (rule bits_of_split(1) [OF ch]) simp
    then have row: "count_ones (chars AND mask ?n) = length l" "length l < 256"
      using less.prems(3) 2(1) len by (simp_all add: count_ones_flags count_flags)
    have "bits_of (drop_bit 1 (drop_bit ?n chars)) (char_starts s)" "bits_of (drop_bit 1 (drop_bit ?n newlines)) (newline_flags s)"
      by (rule bits_of_skip [OF ch length_text_flags], rule bits_of_skip [OF nl length_text_flags])
    from less.hyps [OF _ this] 2 less.prems(3) row tz show ?thesis
      by (subst longest_row_loop.simps) (simp add: Let_def text_len_Cons len_utf8_def del: drop_bit_drop_bit)
  qed
qed

lemma text_summary_eq:
  assumes "chunk_ok c" shows "text_summary c = TextSummary_from (chunk_text c)"
proof -
  let ?t = "chunk_text c" and ?ls = "split_lines (chunk_text c)"
  obtain lr n where scan: "scan_rows ?ls 0 0 0 = (lr, n)" by fastforce
  obtain l ls where ls: "?ls = l # ls" by (cases ?ls) auto
  have "longest_ok [l] 0 (length l)" by (simp add: longest_ok_def)
  from scan_rows_longest [OF this, of ls] scan have long: "longest_ok ?ls lr n" by (simp add: ls split: if_splits)
  have "chunk_longest_row c = (length ?t, lr, n)"
    using longest_row_loop_eq [OF chunk_okD(2,4,1) [OF assms]] scan by (simp add: chunk_longest_row_def)
  then have "summary_ok ?t (text_summary c)"
    using long assms
    by (simp add: summary_ok_def text_summary_def Let_def chunk_len_def chunk_len_utf16_eq chunk_lines_eq first_line_chars_eq last_line_eq)
  then show ?thesis by (rule summary_ok_unique [OF _ summary_ok_from])
qed

section \<open>Positions of byte offsets\<close>

text \<open>Masking the bitmaps below an offset is cutting the text there.\<close>

lemma chunk_prefix:
  assumes "chunk_ok c" "chunk_text c = a @ b"
  shows "bits_of (chunk_newlines c AND mask (text_len a)) (newline_flags a)"
    "bits_of (chunk_chars_utf16 c AND mask (text_len a)) (utf16_flags a)"
    "bits_of (chunk_chars c AND mask (text_len a)) (char_starts a)" "text_len a \<le> 128"
  using chunk_okD [OF assms(1)] unfolding assms(2) text_flags_simps utf16_flags_simps by (auto intro: bits_of_split)

lemma prefix_lines:
  assumes "bits_of (w :: Bitmap) (newline_flags a)" "text_len a \<le> 128"
  obtains "10 \<notin> set a" "split_lines a = [a]" "count_ones w = 0" "128 - leading_zeros w = 0"
  | r l where "a = r @ 10 # l" "10 \<notin> set l" "split_lines a = split_lines r @ [l]"
    "count_ones w = length (split_lines r)" "128 - leading_zeros w = text_len (r @ [10])"
proof (cases rule: last_line_cases [of a])
  case 1
  with trailing_newline(1) [OF assms 1(1)] that(1) show ?thesis by (simp add: zeros_zero count_ones_def)
next
  case (2 r l)
  have "filter (\<lambda>c. c = 10) l = []" using 2(2) by (auto simp: filter_empty_conv)
  then have "count_ones w = length (split_lines r)"
    using count_ones_flags [OF assms(1)] assms(2) 2(1) by (simp add: count_flags length_split_lines text_len_Cons len_utf8_def)
  with 2 leading_newline [OF assms 2(1,2)] assms(2) that(2) show ?thesis by (simp add: text_len_Cons len_utf8_def)
qed

lemma chunk_offset_to_point_eq:
  assumes "chunk_ok c" "chunk_text c = a @ b"
  shows "chunk_offset_to_point c (text_len a) = Some (txt_lines (TextSummary_from a))"
proof -
  have lines: "txt_lines (TextSummary_from a) = \<lparr>row = length (split_lines a) - 1, column = text_len (last (split_lines a))\<rparr>"
    using summary_ok_from [of a] by (simp add: summary_ok_def Let_def)
  note pre = chunk_prefix [OF assms]
  show ?thesis
  proof (cases rule: prefix_lines [OF pre(1,4)])
    case 1
    then show ?thesis by (simp add: chunk_offset_to_point_def Let_def lines Point_new_def)
  next
    case (2 r l)
    have "text_len a = text_len (r @ [10]) + text_len l" using 2(1) by (simp add: text_len_Cons)
    with 2(3-5) show ?thesis by (simp add: chunk_offset_to_point_def Let_def lines Point_new_def)
  qed
qed

lemma chunk_offset_to_offset_utf16_eq:
  assumes "chunk_ok c" "chunk_text c = a @ b"
  shows "chunk_offset_to_offset_utf16 c (text_len a) = txt_len_utf16 (TextSummary_from a)"
  using count_ones_flags [OF chunk_prefix(2) [OF assms]] chunk_prefix(4) [OF assms] summary_ok_from [of a]
  by (simp add: chunk_offset_to_offset_utf16_def count_flags summary_ok_def Let_def)

lemma chunk_offset_to_point_utf16_eq:
  assumes "chunk_ok c" "chunk_text c = a @ b"
  shows "chunk_offset_to_point_utf16 c (text_len a) = lines_utf16 (TextSummary_from a)"
proof -
  have lines: "lines_utf16 (TextSummary_from a) = \<lparr>row = length (split_lines a) - 1, column = text_len_utf16 (last (split_lines a))\<rparr>"
    using summary_ok_from [of a] by (simp add: summary_ok_def Let_def lines_utf16_def)
  let ?u = "chunk_chars_utf16 c AND mask (text_len a)"
  note pre = chunk_prefix [OF assms]
  show ?thesis
  proof (cases rule: prefix_lines [OF pre(1,4)])
    case 1
    have "count_ones ?u = text_len_utf16 a" using count_ones_flags [OF pre(2)] pre(4) by (simp add: count_flags)
    with 1 show ?thesis
      by (simp add: chunk_offset_to_point_utf16_def saturating_shl_mask_def Let_def lines Point_new_def MAX_BASE_def)
  next
    case (2 r l)
    have "count_ones (drop_bit (text_len (r @ [10])) ?u) = text_len_utf16 l"
    proof -
      have "bits_of ?u (utf16_flags (r @ [10]) @ utf16_flags l)" using pre(2) 2(1) by simp
      from bits_of_split(2) [OF this length_utf16_flags] have "bits_of (drop_bit (text_len (r @ [10])) ?u) (utf16_flags l)" .
      from count_ones_flags [OF this] show ?thesis using pre(4) 2(1) by (simp add: count_flags text_len_Cons)
    qed
    moreover have "l = []" if "text_len (r @ [10]) = 128"
    proof -
      have "text_len l = 0" using that pre(4) 2(1) by (simp add: text_len_Cons len_utf8_def del: text_len_0)
      then show ?thesis by simp
    qed
    ultimately show ?thesis using 2(3-5)
      by (simp add: chunk_offset_to_point_utf16_def saturating_shl_mask_def Let_def lines Point_new_def MAX_BASE_def)
  qed
qed

section \<open>Tabs\<close>

fun tab_positions :: "ustr \<Rightarrow> ustr \<Rightarrow> TabPosition list" where
  "tab_positions pre [] = []"
| "tab_positions pre (c # t) =
     (if c = 9 then [\<lparr>byte_offset = text_len pre, char_offset = length pre\<rparr>] else []) @ tab_positions (pre @ [c]) t"

text \<open>Driving the iterator until it returns \<^const>\<open>None\<close>.\<close>

fun tabs_collect :: "nat \<Rightarrow> Tabs \<Rightarrow> TabPosition list option" where
  "tabs_collect 0 s = None"
| "tabs_collect (Suc n) s = (case tabs_next s of None \<Rightarrow> Some [] | Some (p, s') \<Rightarrow> map_option (Cons p) (tabs_collect n s'))"

lemma tab_positions_skip: "9 \<notin> set l \<Longrightarrow> tab_positions pre (l @ t) = tab_positions (pre @ l) t"
  by (induction l arbitrary: pre) auto

lemma bits_of_clear_bit:
  assumes "bits_of (w :: Bitmap) (replicate n False @ True # fl)" "n < 128"
  shows "bits_of (w XOR push_bit n 1) (replicate (Suc n) False @ fl)"
proof (rule bits_ofI)
  fix i
  have "bit (push_bit n (1 :: Bitmap)) i \<longleftrightarrow> i = n"
    using assms(2) by (simp only: bit_push_bit_iff bit_1_iff) auto
  moreover have "(replicate n False @ True # fl) ! i = (i = n \<or> (replicate (Suc n) False @ fl) ! i)" if "i < Suc n + length fl"
  proof -
    consider "i < n" | "i = n" | "n < i" by linarith
    then show ?thesis by cases (simp_all add: nth_append del: replicate_Suc)
  qed
  moreover have "\<not> (replicate (Suc n) False @ fl) ! n" by (simp add: nth_append del: replicate_Suc)
  ultimately show "bit (w XOR push_bit n 1) i \<longleftrightarrow> i < length (replicate (Suc n) False @ fl) \<and> (replicate (Suc n) False @ fl) ! i"
    using bits_ofD [OF assms(1), of i] by (cases "i = n") (simp_all add: bit_xor_iff del: replicate_Suc push_bit_of_1)
qed

lemma tabs_collect_ok:
  assumes "bits_of tabs (replicate (text_len pre) False @ tab_flags t)" "bits_of chars (char_starts (pre @ t))"
    "text_len (pre @ t) \<le> 128" "length (filter (\<lambda>c. c = 9) t) < n"
  shows "tabs_collect n \<lparr>tabs_tabs = tabs, tabs_chars = chars\<rparr> = Some (tab_positions pre t)"
  using assms
proof (induction n arbitrary: tabs pre t)
  case (Suc n)
  show ?case
  proof (cases "9 \<in> set t")
    case False
    then have "tab_flags t = replicate (text_len t) False" by (intro no_flags) auto
    then have "tabs = 0"
      using Suc.prems(1) bits_of_zero [where 'a = 128, of "replicate (text_len pre) False @ tab_flags t"]
      by (auto intro: bits_of_unique)
    then show ?thesis using tab_positions_skip [OF False, of pre "[]"] by (simp add: tabs_next_def)
  next
    case True
    then obtain l r where t: "t = l @ 9 # r" "9 \<notin> set l" by (metis split_list_first)
    let ?k = "text_len (pre @ l)"
    have "tab_flags l = replicate (text_len l) False" using t(2) by (intro no_flags) auto
    then have tabs: "bits_of tabs (replicate ?k False @ True # tab_flags r)"
      using Suc.prems(1) t by (simp add: replicate_add)
    have k: "Suc (?k + text_len r) \<le> 128" using Suc.prems(3) t by (simp add: text_len_Cons len_utf8_def)
    have tz: "trailing_zeros tabs = ?k" using k by (intro trailing_zeros_flags [OF tabs]) simp
    have ne: "tabs \<noteq> 0" using tabs bits_of_zero [where 'a = 128, of "replicate ?k False @ True # tab_flags r"] by auto
    have "bits_of (chars AND mask ?k) (char_starts (pre @ l))"
      by (rule bits_of_split(1) [of _ _ "char_starts (9 # r)"]) (use Suc.prems(2) t in simp_all)
    then have count: "count_ones (chars AND mask ?k) = length (pre @ l)" using k by (simp add: count_ones_flags count_flags)
    have next_tabs: "bits_of (tabs XOR push_bit ?k 1) (replicate (text_len (pre @ l @ [9])) False @ tab_flags r)"
      using bits_of_clear_bit [OF tabs] k by (simp add: text_len_Cons len_utf8_def)
    have "tabs_collect n \<lparr>tabs_tabs = tabs XOR push_bit ?k 1, tabs_chars = chars\<rparr> = Some (tab_positions (pre @ l @ [9]) r)"
      by (rule Suc.IH [OF next_tabs]) (use Suc.prems t in simp_all)
    with tz ne count tab_positions_skip [OF t(2), of pre "9 # r"] show ?thesis
      by (simp add: tabs_next_def Let_def t(1) del: push_bit_of_1)
  qed
qed simp

section \<open>Properties\<close>

text \<open>(C33) Building a chunk fails only on more than 128 bytes, and appending or prepending to a
  chunk, by shifting the bitmaps, gives exactly the chunk built from the joined text, or
  panics when that is too long.\<close>

theorem chunk_edits_exact:
  assumes "Chunk_new t = Some c" and "Chunk_new u = Some s"
  shows "(Chunk_new v = None \<longleftrightarrow> MAX_BASE < text_len v) \<and>
    chunk_append c s = Chunk_new (t @ u) \<and> chunk_prepend c s = Chunk_new (u @ t) \<and>
    chunk_push_str c v = Chunk_new (t @ v) \<and> chunk_prepend_str c v = Chunk_new (v @ t)"
  using assms by (auto simp: Chunk_new_iff Chunk_new_None chunk_append_eq chunk_prepend_eq chunk_push_str_eq)

lemma small_chunk: "text_len t \<le> 128 \<Longrightarrow> \<exists>c. Chunk_new t = Some c"
  by (simp add: Chunk_new_def Let_def MAX_BASE_def)

theorem chunk_edits_exact_witness:
  "\<exists>c s. Chunk_new [104, 233] = Some c \<and> Chunk_new [128512] = Some s \<and> chunk_append c s = Chunk_new [104, 233, 128512]"
proof -
  obtain c s where "Chunk_new [104, 233] = Some c" "Chunk_new [128512] = Some s"
    using small_chunk [of "[104, 233]"] small_chunk [of "[128512]"] by (auto simp: text_len_def len_utf8_def)
  then show ?thesis using chunk_edits_exact [of "[104, 233]" c "[128512]" s] by simp
qed

text \<open>Splitting and slicing a chunk at character boundaries, by masking and shifting the
  bitmaps, gives exactly the chunks of the parts, and appending the parts of a split gives
  the chunk back.\<close>

lemma chunk_split_roundtrip:
  assumes "Chunk_new (a @ b @ d) = Some c"
  shows "\<exists>l r. chunk_split_at c (text_len a) = Some (l, r) \<and> Chunk_new a = Some l \<and> Chunk_new (b @ d) = Some r \<and>
    chunk_append l r = Some c \<and> chunk_slice c (text_len a) (text_len (a @ b)) = Chunk_new b"
proof -
  have c: "chunk_ok c" "chunk_text c = a @ b @ d" using assms by (simp_all add: Chunk_new_iff)
  obtain l r where lr: "chunk_split_at c (text_len a) = Some (l, r)" "chunk_ok l" "chunk_ok r" "chunk_text l = a" "chunk_text r = b @ d"
    by (rule chunk_split_at_ok [OF c])
  obtain s where "chunk_slice c (text_len a) (text_len a + text_len b) = Some s" "chunk_ok s" "chunk_text s = b"
    by (rule chunk_slice_ok [OF c])
  with lr assms show ?thesis by (auto simp: Chunk_new_iff [THEN iffD2] chunk_append_eq)
qed

text \<open>The summary read off the bitmaps with bit counts and the loop over the newlines is
  the summary that the scan of the text computes.\<close>

lemma chunk_text_summary:
  assumes "Chunk_new t = Some c" shows "text_summary c = TextSummary_from t"
  using assms by (simp add: Chunk_new_iff text_summary_eq)

text \<open>At every character boundary the positions read off the bitmaps are those of the text
  before it: line and column, UTF-16 offset, line and column in UTF-16 units; boundaries are
  recognised, and an offset inside a character is rounded down to its start.\<close>

lemma chunk_positions:
  assumes "Chunk_new (a @ b) = Some c"
  shows "chunk_offset_to_point c (text_len a) = Some (txt_lines (TextSummary_from a)) \<and>
    chunk_offset_to_offset_utf16 c (text_len a) = txt_len_utf16 (TextSummary_from a) \<and>
    chunk_offset_to_point_utf16 c (text_len a) = lines_utf16 (TextSummary_from a) \<and>
    (chunk_is_char_boundary c i \<longleftrightarrow> is_boundary (a @ b) i) \<and>
    chunk_floor_char_boundary c i = (if text_len (a @ b) \<le> i then text_len (a @ b) else floor_boundary (a @ b) i)"
proof -
  have c: "chunk_ok c" "chunk_text c = a @ b" using assms by (simp_all add: Chunk_new_iff)
  have "chunk_floor_char_boundary c i = (if text_len (a @ b) \<le> i then text_len (a @ b) else floor_boundary (a @ b) i)"
    using c floor_walk_spec [of i "a @ b"] by (simp add: chunk_floor_char_boundary_def chunk_len_def)
  moreover note chunk_offset_to_point_eq [OF c] chunk_offset_to_offset_utf16_eq [OF c] chunk_offset_to_point_utf16_eq [OF c]
    chunk_is_char_boundary_eq [OF c(1), of i]
  ultimately show ?thesis by (simp only: c(2) simp_thms)
qed

text \<open>(C34) The tab iterator yields every tab of a chunk once, in order, with its byte and its
  character offset, and ends.\<close>

theorem chunk_tabs_complete:
  assumes "Chunk_new t = Some c"
  shows "tabs_collect 129 (chunk_tabs_iter c) = Some (tab_positions [] t)"
proof -
  have c: "chunk_ok c" "chunk_text c = t" using assms by (simp_all add: Chunk_new_iff)
  have "length (filter (\<lambda>c. c = 9) t) \<le> length t" by (rule length_filter_le)
  also have "\<dots> \<le> 128" using length_le_text_len [of t] chunk_okD(1) [OF c(1)] c(2) by simp
  finally have "length (filter (\<lambda>c. c = 9) t) < 129" by simp
  with chunk_okD [OF c(1)] c(2) show ?thesis
    unfolding chunk_tabs_iter_def by (intro tabs_collect_ok) simp_all
qed

theorem chunk_tabs_complete_witness:
  "\<exists>c. Chunk_new [233, 9, 97, 9] = Some c \<and>
    tabs_collect 129 (chunk_tabs_iter c) = Some [\<lparr>byte_offset = 2, char_offset = 1\<rparr>, \<lparr>byte_offset = 4, char_offset = 3\<rparr>]"
proof -
  obtain c where c: "Chunk_new [233, 9, 97, 9] = Some c"
    using small_chunk [of "[233, 9, 97, 9]"] by (auto simp: text_len_def len_utf8_def)
  with chunk_tabs_complete [OF c] show ?thesis by (simp add: text_len_def len_utf8_def)
qed

text \<open>The ends of a range are rounded to boundaries.\<close>

lemma boundary_rounds:
  "is_boundary t i \<Longrightarrow> ceil_boundary t i = i" "is_boundary t i \<Longrightarrow> floor_boundary t i = i" "ceil_boundary t i \<le> text_len t"
proof -
  show "is_boundary t i \<Longrightarrow> ceil_boundary t i = i"
    using ceil_boundary_spec(2) [of i t] ceil_boundary_spec(3) [of t i i] is_boundary_bounds(1) [of t i] by simp
  show "is_boundary t i \<Longrightarrow> floor_boundary t i = i"
    using floor_boundary_spec(2) [of t i] floor_boundary_spec(3) [of t i i] by simp
  show "ceil_boundary t i \<le> text_len t" by (induction t i rule: ceil_boundary.induct) (auto simp: text_len_Cons)
qed

lemma boundaries_cut:
  assumes "is_boundary t i" "is_boundary t j" "i \<le> j"
  obtains a u w where "t = a @ u @ w" "text_len a = i" "text_len a + text_len u = j"
proof -
  obtain a b v w where t: "t = a @ b" "text_len a = i" "t = v @ w" "text_len v = j"
    using assms(1,2) unfolding is_boundary_iff by blast
  then consider u where "v = a @ u" | u where "a = v @ u" by (auto simp: append_eq_append_conv2)
  then show ?thesis
  proof cases
    case 1
    then show ?thesis using that [of a u w] t by simp
  next
    case 2
    then have "text_len v + text_len u = i" "text_len v = j" using t by simp_all
    then have "text_len u = 0" using assms(3) by linarith
    then have "u = []" by simp
    then show ?thesis using that [of a "[]" b] t 2 by simp
  qed
qed

lemma ceil_boundary_past: "text_len t \<le> i \<Longrightarrow> ceil_boundary t i = text_len t"
  by (induction t i rule: ceil_boundary.induct) (auto simp: text_len_Cons)

lemma chunk_slice_rounds:
  assumes "chunk_ok c" "i \<le> j" "i \<noteq> MAX_BASE"
  defines "i' \<equiv> ceil_boundary (chunk_text c) i"
  defines "j' \<equiv> max i' (floor_boundary (chunk_text c) j)"
  shows "chunk_slice_with shr c i j = do {
      chars \<leftarrow> shr (chunk_chars c AND (push_bit j' 1 - 1)) i';
      chars_utf16 \<leftarrow> shr (chunk_chars_utf16 c AND (push_bit j' 1 - 1)) i';
      newlines \<leftarrow> shr (chunk_newlines c AND (push_bit j' 1 - 1)) i';
      tabs \<leftarrow> shr (chunk_tabs c AND (push_bit j' 1 - 1)) i';
      t \<leftarrow> str_slice (chunk_text c) i' j';
      Some \<lparr>chunk_chars = chars, chunk_chars_utf16 = chars_utf16, chunk_newlines = newlines, chunk_tabs = tabs, chunk_text = t\<rparr> }"
proof -
  let ?t = "chunk_text c"
  have i: "(if chunk_is_char_boundary c i then i else ceil_boundary ?t i) = i'"
    using boundary_rounds(1) [of ?t i] by (simp add: i'_def chunk_is_char_boundary_eq [OF assms(1)])
  have "j' = j" if "is_boundary ?t j"
    using ceil_boundary_spec(3) [OF that assms(2)] boundary_rounds(2) [OF that] by (simp add: j'_def i'_def)
  moreover have "i' \<le> floor_boundary ?t j" if "\<not> j < i'"
    using floor_boundary_spec(3) [of ?t i' j] ceil_boundary_spec(1) [of ?t i] that by (simp add: i'_def)
  moreover have "floor_boundary ?t j \<le> j" by (rule floor_boundary_spec)
  ultimately have j: "(if chunk_is_char_boundary c j then j else if j < i' then i' else floor_boundary ?t j) = j'"
    by (auto simp: j'_def chunk_is_char_boundary_eq [OF assms(1)])
  show ?thesis using assms(3) unfolding chunk_slice_with_def by (simp add: Let_def i j cong: if_cong)
qed



end
