(* ===== verification/Cursor_Height.thy ===== *)
theory Cursor_Height
  imports Cursor_Seek
begin

text \<open>
  How high a slice of a tree can be.  \<open>slice\<close> and \<open>suffix\<close> append the subtrees they pass one by
  one, and nothing keeps the nodes of the result at a minimum of children; but the subtrees come in
  runs of equal height, first growing and then shrinking along the path of the cursor, and a run of at
  most eleven appends adds at most one level.  So a slice is at most twice as high as the tree, and
  cursors, which handle less than 16 levels, can walk over slices of trees of up to seven levels.
\<close>

section \<open>Runs of appends\<close>

definition run_height :: "nat \<Rightarrow> nat \<Rightarrow> ('a, 's) Tree \<Rightarrow> bool" where
  "run_height m k t \<longleftrightarrow> height t \<le> m \<or> height t = Suc m \<and> length (subtrees t) \<le> k"

lemma run_height_le: "run_height m k t \<Longrightarrow> height t \<le> Suc m"
  by (auto simp: run_height_def)

context summary_algebra
begin

text \<open>Appending to a node that has room adds at most one child and does not split it.\<close>

lemma push_room:
  assumes "push_tree_recursive ops t u = Some (t', r)" "height u < height t" "length (subtrees t) < 2 * TREE_BASE"
  shows "height t' = height t \<and> length (subtrees t') \<le> Suc (length (subtrees t)) \<and> r = None"
proof (cases t)
  case (Internal h s css cts)
  have grow: "height t' = h \<and> length (subtrees t') = length ts \<and> r = None"
    if "push_children ops h s' ss ts = Some (t', r)" "length ts \<le> 2 * TREE_BASE" for s' ss ts
    using that by (auto simp: push_children_def array_vec_def Let_def bind_eq_Some_conv split: if_splits)
  show ?thesis
    using assms unfolding Internal
    by (auto simp: Let_def bind_eq_Some_conv TREE_BASE_def split: if_splits option.splits dest!: grow)
qed (use assms in simp)

lemma run_height_append:
  assumes "run_height m k t" "k = 0 \<Longrightarrow> is_empty t" "k < 2 * TREE_BASE" "wf_tree ops t" "wf_tree ops u" "height u \<le> m"
    "append_tree ops t u = Some t'"
  shows "run_height m (Suc k) t'"
proof (cases "is_empty t \<or> is_empty u")
  case True
  then have "t' = u \<or> t' = t" using assms(7) by (cases "is_empty t") (auto simp: append_tree_def)
  then show ?thesis using assms(1,6) by (auto simp: run_height_def)
next
  case False
  then have ok: "child_ok ops (height t) t" "child_ok ops (height u) u" and k: "0 < k"
    using assms(2,4,5) by (auto simp: child_ok_def)
  show ?thesis
  proof (cases "height t < height u")
    case True
    obtain u' r where a: "append_large ops t u = Some (u', r)" "joined_left ops (height u) (flatten t @ flatten u) (u', r)"
      using append_large_ok [OF ok] True by auto
    then show ?thesis using True False assms(6,7) k
      by (cases r) (auto simp: append_tree_def joined_left_def child_ok_def run_height_def from_child_trees_def Let_def)
  next
    case shorter: False
    obtain t1 r where a: "push_tree_recursive ops t u = Some (t1, r)" "joined_right ops (height t) (flatten t @ flatten u) (t1, r)"
      using push_tree_recursive_ok [OF ok] shorter by auto
    show ?thesis
    proof (cases "height t \<le> m")
      case True
      then show ?thesis using a shorter False assms(7) k
        by (cases r) (auto simp: append_tree_def joined_right_def child_ok_def run_height_def from_child_trees_def Let_def)
    next
      case high: False
      then have "height t = Suc m" "length (subtrees t) \<le> k" using assms(1) by (auto simp: run_height_def)
      then show ?thesis using push_room [OF a(1)] a(1) shorter False assms(3,6,7)
        by (auto simp: append_tree_def run_height_def)
    qed
  qed
qed

end

section \<open>The height of a slice\<close>

context dimension_algebra
begin

text \<open>The children passed in one node.\<close>

lemma seek_children_end:
  assumes "seek_children dim agg pass i p ep g ts (map summary ts) = Some (i', p', ep', g', child)" "list_all (child_ok ops h) ts"
  shows "case child of None \<Rightarrow> (ts \<noteq> [] \<longrightarrow> pass p') \<and> p' = adv p (concat (map flatten ts))
     | Some t \<Rightarrow> t \<in> set ts \<and> \<not> pass (dim_add dim p' (summary t))"
  using assms
proof (induction ts arbitrary: i p ep g)
  case (Cons t ts)
  then show ?case using dim_add_child [of h t p]
    by (cases "pass (dim_add dim p (summary t))"; cases ts) (fastforce simp: Let_def bind_eq_Some_conv split: option.splits)+
qed simp

lemma seek_children_height:
  assumes "seek_children dim (slice_aggregate ops) pass i p ep g ts (map summary ts) = Some (i', p', ep', g', child)"
    and "list_all (child_ok ops h) ts" "h \<le> m" "slice_collected ops g xs 0" "run_height m k (slice_tree g)"
    "k = 0 \<Longrightarrow> is_empty (slice_tree g)" "k + length ts \<le> 2 * TREE_BASE \<or> child \<noteq> None \<and> k + length ts \<le> Suc (2 * TREE_BASE)"
  shows "height (slice_tree g') \<le> Suc m \<and> (\<exists>xs'. slice_collected ops g' xs' 0)"
  using assms
proof (induction ts arbitrary: i p ep g k xs)
  case (Cons t ts)
  let ?e = "dim_add dim p (summary t)"
  show ?case
  proof (cases "pass ?e")
    case True
    then obtain g1 where g1: "agg_push_tree (slice_aggregate ops) t (summary t) g = Some g1"
      "seek_children dim (slice_aggregate ops) pass (Suc i) ?e ?e g1 ts (map summary ts) = Some (i', p', ep', g', child)"
      using Cons.prems(1) by (auto simp: Let_def bind_eq_Some_conv)
    then obtain t1 where t1: "append_tree ops (slice_tree g) t = Some t1" "g1 = g\<lparr>slice_tree := t1\<rparr>"
      by (auto simp: slice_aggregate_def bind_eq_Some_conv)
    have ok: "wf_tree ops t" "height t = h" "wf_tree ops (slice_tree g)"
      using Cons.prems(2,4) by (auto simp: child_ok_def slice_collected_def)
    have k: "k < 2 * TREE_BASE" using Cons.prems(7) g1(2) by (cases ts) auto
    show ?thesis
    proof (rule Cons.IH [OF g1(2) _ Cons.prems(3)])
      show "slice_collected ops g1 (flatten (slice_tree g) @ flatten t) 0"
        using append_tree_ok [OF ok(3,1)] t1 Cons.prems(4) by (auto simp: slice_collected_def)
      show "run_height m (Suc k) (slice_tree g1)"
        using run_height_append [OF Cons.prems(5,6) k ok(3,1) _ t1(1)] ok(2) Cons.prems(3) t1(2) by simp
    qed (use Cons.prems(2,7) in auto)
  next
    case False
    then show ?thesis using Cons.prems run_height_le by (auto simp: Let_def)
  qed
qed (auto dest: run_height_le)

lemma begin_slice_leaf [simp]: "agg_begin_leaf (slice_aggregate ops) g = g"
  by (simp add: slice_aggregate_def)

lemma scan_passes: "scan pass p ys = (sk, p', r) \<Longrightarrow> if sk = [] then p' = p else pass p'"
proof (induction ys arbitrary: p sk)
  case (Cons y ys)
  show ?case
  proof (cases "pass (dim_add dim p (item_summary ops y))")
    case True
    then obtain sk1 where "scan pass (dim_add dim p (item_summary ops y)) ys = (sk1, p', r)" "sk = y # sk1"
      using Cons.prems by (auto simp: Let_def split: prod.splits)
    then show ?thesis using Cons.IH [of _ sk1] True by (cases "sk1 = []") auto
  qed (use Cons.prems in \<open>auto simp: Let_def\<close>)
qed simp

text \<open>The items passed in one leaf.\<close>

lemma seek_items_tree:
  "seek_items dim (slice_aggregate ops) pass i p g xs ss = Some (i', p', g', stop) \<Longrightarrow> slice_tree g' = slice_tree g"
  by (induction dim "slice_aggregate ops" pass i p g xs ss rule: seek_items.induct)
    (auto simp: Let_def bind_eq_Some_conv slice_aggregate_def split: if_splits)

lemma seek_leaf_height:
  assumes "seek_items dim (slice_aggregate ops) pass i p g ys (map (item_summary ops) ys) = Some (i', p', g1, stop)"
    "agg_end_leaf (slice_aggregate ops) g1 = Some g'" "length ys \<le> 2 * TREE_BASE" "slice_collected ops g xs 0"
  shows "height (slice_tree g') \<le> Suc (height (slice_tree g))" "is_empty (slice_tree g) \<Longrightarrow> height (slice_tree g') = 0"
    "\<exists>xs'. slice_collected ops g' xs' 0" "\<not> stop \<Longrightarrow> p' = adv p ys \<and> (ys \<noteq> [] \<longrightarrow> pass p')"
proof -
  obtain sk p1 r where sc: "scan pass p ys = (sk, p1, r)" by (metis prod_cases3)
  have "seek_items dim (slice_aggregate ops) pass i p g ys (map (item_summary ops) ys) = Some (i + length sk, p1, g1, r \<noteq> []) \<and>
      slice_collected ops g1 (xs @ sk) (length sk) \<and> p' = p1 \<and> stop = (r \<noteq> [])"
    using sliced.seek_items_ok [OF assms(4) _ sc, of i] assms(1,3) by auto
  then have g1: "slice_collected ops g1 (xs @ sk) (length sk)" "p' = p1" "stop = (r \<noteq> [])" by auto
  let ?u = "Leaf (slice_leaf_summary g1) (slice_leaf_items g1) (slice_leaf_item_summaries g1)"
  obtain t where t: "append_tree ops (slice_tree g1) ?u = Some t" "slice_tree g' = t"
    using assms(2) by (auto simp: slice_aggregate_def bind_eq_Some_conv)
  have tree: "slice_tree g1 = slice_tree g" by (rule seek_items_tree [OF assms(1)])
  have wf: "wf_tree ops (slice_tree g1)" "wf_tree ops ?u" using g1(1) by (simp_all add: slice_collected_def)
  show "height (slice_tree g') \<le> Suc (height (slice_tree g))" using append_tree_ok [OF wf] t tree by auto
  show "height (slice_tree g') = 0" if "is_empty (slice_tree g)" using t tree that by (auto simp: append_tree_def)
  show "\<exists>xs'. slice_collected ops g' xs' 0" using sliced.end_leaf [OF g1(1)] assms(2) by auto
  show "p' = adv p ys \<and> (ys \<noteq> [] \<longrightarrow> pass p')" if "\<not> stop"
    using that g1(2,3) seek_linear_split [OF sc] scan_passes [OF sc] by (auto split: if_splits)
qed

text \<open>Going down into a subtree whose end is not passed.\<close>

lemma descend_height:
  assumes "child_ok ops h t" "\<not> pass (dim_add dim p (summary t))" "height (slice_tree g) \<le> m" "h \<le> Suc m" "slice_collected ops g xs 0"
    "seek_loop dim (slice_aggregate ops) pass False (\<lparr>se_tree = t, se_index = 0, se_position = p\<rparr> # st) p g = Some (st', p', g')"
  shows "height (slice_tree g') \<le> m + Suc h"
  using assms
proof (induction h arbitrary: t p g m xs st)
  case 0
  then obtain s ys ss where t: "t = Leaf s ys ss" by (auto elim: child_ok_height_cases)
  then have leaf: "ys \<noteq> []" "ss = map (item_summary ops) ys" "length ys \<le> 2 * TREE_BASE" "s = items_summary ops ys"
    using 0(1) by (auto simp: child_ok_Leaf)
  obtain i p1 g1 stop g2 where r: "seek_items dim (slice_aggregate ops) pass 0 p g ys ss = Some (i, p1, g1, stop)"
    "agg_end_leaf (slice_aggregate ops) g1 = Some g2"
    "(if stop then Some (\<lparr>se_tree = t, se_index = 0, se_position = p\<rparr>\<lparr>se_index := i\<rparr> # st, p1, g2)
      else seek_loop dim (slice_aggregate ops) pass True st p1 g2) = Some (st', p', g')"
    using 0(6) unfolding t by (auto simp: seek_loop.simps(2) bind_eq_Some_conv)
  note items = seek_leaf_height [OF r(1) [unfolded leaf(2)] r(2) leaf(3) 0(5)]
  have stop using items(4) 0(2) leaf dim_add_items [of ys p] by (auto simp: t)
  then show ?case using r(3) items(1) 0(3) by auto
next
  case (Suc h)
  obtain k s css cts where t: "t = Internal k s css cts" using Suc.prems(1) by (auto elim: child_ok_height_cases)
  have node: "k = Suc h" "cts \<noteq> []" "length cts \<le> 2 * TREE_BASE" "css = map summary cts" "list_all (child_ok ops h) cts"
    "s = items_summary ops (concat (map flatten cts))"
    using Suc.prems(1) by (auto simp: t child_ok_Internal)
  obtain i p1 ep g1 child where r: "seek_children dim (slice_aggregate ops) pass 0 p p g cts css = Some (i, p1, ep, g1, child)"
    "(case child of Some u \<Rightarrow> do {
        st1 \<leftarrow> push_stack (\<lparr>se_tree = t, se_index = i, se_position = ep\<rparr> # st) \<lparr>se_tree = u, se_index = 0, se_position = p1\<rparr>;
        seek_loop dim (slice_aggregate ops) pass False st1 p1 g1 }
      | None \<Rightarrow> seek_loop dim (slice_aggregate ops) pass True st p1 g1) = Some (st', p', g')"
    using Suc.prems(6) unfolding t by (auto simp: seek_loop.simps(2) bind_eq_Some_conv)
  have "concat (map flatten cts) \<noteq> []" using node(2,5) child_ok_flatten by (cases cts) auto
  then have end_pos: "dim_add dim p (summary t) = adv p (concat (map flatten cts))" using dim_add_items by (simp add: t node(6))
  note stop = seek_children_end [OF r(1) [unfolded node(4)] node(5)]
  then obtain u where u: "child = Some u" "u \<in> set cts" "\<not> pass (dim_add dim p1 (summary u))"
    using end_pos Suc.prems(2) node(2) by (cases child) auto
  have kids: "height (slice_tree g1) \<le> Suc m \<and> (\<exists>xs'. slice_collected ops g1 xs' 0)"
    by (rule seek_children_height [OF r(1) [unfolded node(4)] node(5) _ Suc.prems(5), where k = 1])
      (use Suc.prems(3,4) node(3) u in \<open>auto simp: run_height_def\<close>)
  then obtain xs1 where g1: "height (slice_tree g1) \<le> Suc m" "slice_collected ops g1 xs1 0" by blast
  have "child_ok ops h u" using u(2) node(5) by (simp add: list_all_iff)
  then have "height (slice_tree g') \<le> Suc m + Suc h"
    using r(2) u Suc.prems(4) g1 by (intro Suc.IH) (auto simp: push_stack_def split: if_splits)
  then show ?case by simp
qed

text \<open>Going on after a subtree: the nodes on the path grow with the tree that has been collected.\<close>

lemma ascend_height:
  assumes "wf_tree ops root" "path root st t" "height (slice_tree g) \<le> height t" "slice_collected ops g xs 0"
    "seek_loop dim (slice_aggregate ops) pass True st p g = Some (st', p', g')"
  shows "height (slice_tree g') \<le> (if \<forall>q. pass q then 1 else 2) * height root"
  using assms(2-)
proof (induction st arbitrary: t p g xs)
  case Nil
  then show ?case by auto
next
  case (Cons e st)
  obtain h s css cts where e: "se_tree e = Internal h s css cts" using Cons.prems(1) by (cases "se_tree e") auto
  have path: "path root st (Internal h s css cts)" and i: "se_index e < length cts" "cts ! se_index e = t"
    using Cons.prems(1) by (auto simp: e)
  note node = path_ok_Internal [OF assms(1) path] path_ok_subtree [OF assms(1) path]
  have t: "Suc (height t) = h" using node(2,3) i by (auto simp: list_all_length child_ok_def)
  have len: "length cts \<le> 2 * TREE_BASE" using node(5) by simp
  let ?j = "Suc (se_index e)"
  obtain i1 p1 ep g1 child where r: "seek_children dim (slice_aggregate ops) pass ?j p p g (drop ?j cts) (drop ?j css) = Some (i1, p1, ep, g1, child)"
    "(case child of Some u \<Rightarrow> do {
        st1 \<leftarrow> push_stack (e\<lparr>se_index := i1, se_position := ep\<rparr> # st) \<lparr>se_tree = u, se_index = 0, se_position = p1\<rparr>;
        seek_loop dim (slice_aggregate ops) pass False st1 p1 g1 }
      | None \<Rightarrow> seek_loop dim (slice_aggregate ops) pass True st p1 g1) = Some (st', p', g')"
    using Cons.prems(4) by (auto simp: seek_loop.simps(2) e bind_eq_Some_conv Let_def split: if_splits)
  have run: "seek_children dim (slice_aggregate ops) pass ?j p p g (drop ?j cts) (map summary (drop ?j cts)) = Some (i1, p1, ep, g1, child)"
    using r(1) node(1) by (simp add: drop_map)
  have ok: "list_all (child_ok ops (height t)) (drop ?j cts)"
    using node(2) t by (auto simp: list_all_iff dest: in_set_dropD)
  have "height (slice_tree g1) \<le> Suc (height t) \<and> (\<exists>xs'. slice_collected ops g1 xs' 0)"
    by (rule seek_children_height [OF run ok _ Cons.prems(3), where k = 1])
      (use Cons.prems(2) len i in \<open>auto simp: run_height_def\<close>)
  then obtain xs1 where g1: "height (slice_tree g1) \<le> h" "slice_collected ops g1 xs1 0" using t by auto
  show ?case
  proof (cases child)
    case None
    then show ?thesis using Cons.IH [OF path _ g1(2)] g1(1) r(2) by simp
  next
    case (Some u)
    have u: "child_ok ops (height t) u" "\<not> pass (dim_add dim p1 (summary u))"
      using seek_children_end [OF run ok] ok Some by (auto simp: list_all_iff)
    have "height (slice_tree g') \<le> h + Suc (height t)"
      by (rule descend_height [where pass = pass and p = p1, OF u g1(1) _ g1(2)]) (use r(2) Some t in \<open>auto simp: push_stack_def split: if_splits\<close>)
    moreover have "\<not> (\<forall>q. pass q)" using u(2) by blast
    ultimately show ?thesis using node(4) t by auto
  qed
qed

lemma slice_loop_height:
  assumes "wf_tree ops root" "ready root st p" "is_empty (slice_tree g)" "height (slice_tree g) = 0" "slice_collected ops g xs 0"
    "\<And>e. st = [e] \<Longrightarrow> is_leaf (se_tree e) \<or> se_index e = 0" "length st \<noteq> 1 \<Longrightarrow> st \<noteq> [] \<Longrightarrow> is_leaf (se_tree (hd st))"
    "seek_loop dim (slice_aggregate ops) pass False st p g = Some (st', p', g')"
  shows "height (slice_tree g') \<le> (if \<forall>q. pass q then 1 else 2) * height root"
proof (cases st)
  case Nil
  then show ?thesis using assms(4,8) by simp
next
  case (Cons e st0)
  have path: "path root st0 (se_tree e)" and i: "se_index e \<le> node_length (se_tree e)" and pos: "is_leaf (se_tree e) \<or> se_position e = p"
    using assms(2) by (auto simp: Cons)
  note sub = path_ok_subtree [OF assms(1) path]
  show ?thesis
  proof (cases "se_tree e")
    case (Leaf s ys ss)
    have leaf: "ss = map (item_summary ops) ys" "length ys \<le> 2 * TREE_BASE" using sub by (simp_all add: Leaf)
    let ?k = "se_index e"
    obtain j p1 g1 stop g2 where r: "seek_items dim (slice_aggregate ops) pass ?k p g (drop ?k ys) (drop ?k ss) = Some (j, p1, g1, stop)"
      "agg_end_leaf (slice_aggregate ops) g1 = Some g2"
      "(if stop then Some (e\<lparr>se_index := j\<rparr> # st0, p1, g2)
        else seek_loop dim (slice_aggregate ops) pass True st0 p1 g2) = Some (st', p', g')"
      using assms(8) unfolding Cons by (auto simp: seek_loop.simps(2) Leaf bind_eq_Some_conv split: if_splits)
    have "seek_items dim (slice_aggregate ops) pass ?k p g (drop ?k ys) (map (item_summary ops) (drop ?k ys)) = Some (j, p1, g1, stop)"
      using r(1) leaf(1) by (simp add: drop_map)
    note items = seek_leaf_height [OF this r(2) _ assms(5)]
    have g2: "height (slice_tree g2) = 0" "\<exists>xs. slice_collected ops g2 xs 0" using items(2,3) assms(3) leaf(2) by auto
    show ?thesis
    proof (cases stop)
      case True
      then show ?thesis using r(3) g2 by auto
    next
      case False
      obtain xs2 where "slice_collected ops g2 xs2 0" using g2(2) by blast
      from ascend_height [OF assms(1) path _ this] show ?thesis using r(3) False g2(1) by simp
    qed
  next
    case (Internal h s css cts)
    then have st: "st0 = []" using assms(7) by (cases "st0 = []") (auto simp: Cons)
    then have root: "root = Internal h s css cts" and idx: "se_index e = 0" using path assms(6) by (auto simp: Cons Internal)
    note node = path_ok_Internal [OF assms(1) path [unfolded Internal]]
    obtain i1 p1 ep g1 child where r: "seek_children dim (slice_aggregate ops) pass 0 p p g cts css = Some (i1, p1, ep, g1, child)"
      "(case child of Some u \<Rightarrow> do {
          st1 \<leftarrow> push_stack (e\<lparr>se_index := i1, se_position := ep\<rparr> # []) \<lparr>se_tree = u, se_index = 0, se_position = p1\<rparr>;
          seek_loop dim (slice_aggregate ops) pass False st1 p1 g1 }
        | None \<Rightarrow> Some ([], p1, g1)) = Some (st', p', g')"
      using assms(8) pos unfolding Cons st by (auto simp: seek_loop.simps(2) Internal idx bind_eq_Some_conv Let_def split: if_splits)
    have run: "seek_children dim (slice_aggregate ops) pass 0 p p g cts (map summary cts) = Some (i1, p1, ep, g1, child)"
      using r(1) node(1) by simp
    have "height (slice_tree g1) \<le> Suc (h - 1) \<and> (\<exists>xs'. slice_collected ops g1 xs' 0)"
      by (rule seek_children_height [OF run node(2) order_refl assms(5), where k = 0])
        (use assms(1,3,4) root in \<open>auto simp: run_height_def\<close>)
    then obtain xs1 where g1: "height (slice_tree g1) \<le> h" "slice_collected ops g1 xs1 0" using node(3) by auto
    show ?thesis
    proof (cases child)
      case None
      then show ?thesis using g1(1) r(2) root by simp
    next
      case (Some u)
      have u: "child_ok ops (h - 1) u" "\<not> pass (dim_add dim p1 (summary u))"
        using seek_children_end [OF run node(2)] node(2) Some by (auto simp: list_all_iff)
      have "height (slice_tree g') \<le> h + Suc (h - 1)"
        by (rule descend_height [where pass = pass and p = p1, OF u g1(1) _ g1(2)]) (use r(2) Some in \<open>auto simp: push_stack_def split: if_splits\<close>)
      moreover have "\<not> (\<forall>q. pass q)" using u(2) by blast
      ultimately show ?thesis using root node(3) by auto
    qed
  qed
qed

lemma cursor_slice_height:
  assumes "wf_tree ops (c_tree c)" "cursor_ready ops dim c before after" "cursor_slice ops dim c target bias = Some (c', t)"
  shows "height t \<le> (if \<forall>q. passes target bias q then 1 else 2) * height (c_tree c)"
proof -
  let ?root = "\<lparr>se_tree = c_tree c, se_index = 0, se_position = dim_zero dim\<rparr>"
  let ?g = "\<lparr>slice_tree = new_tree ops, slice_leaf_items = [], slice_leaf_item_summaries = [], slice_leaf_summary = summary_zero ops\<rparr>"
  define st where "st = (if c_did_seek c then c_stack c else [?root])"
  have ready: "ready (c_tree c) st (c_position c)"
    using assms(2) at_item_seek_ready [of dim "item_summary ops" "c_tree c" "c_stack c"]
    by (cases "c_tree c"; auto simp: st_def cursor_ready_def cursor_at_def cursor_fresh_def entry_before.simps
        split: if_splits)+
  have top: "is_leaf (se_tree e) \<or> se_index e = 0" if "st = [e]" for e
    using that assms(2) by (cases "after = []") (auto simp: st_def cursor_ready_def cursor_at_def cursor_fresh_def split: if_splits)
  have leaf: "is_leaf (se_tree (hd st))" if "length st \<noteq> 1" "st \<noteq> []"
    using that assms(2) by (cases "c_stack c") (auto simp: st_def cursor_ready_def cursor_at_def cursor_fresh_def split: if_splits)
  have g: "slice_collected ops ?g [] 0" by (simp add: slice_collected_def wf_new_tree sum_Nil) (simp add: new_tree_def)
  have push: "(if c_did_seek c then Some (c_stack c) else push_stack (c_stack c) ?root) = Some st"
    using assms(2) by (auto simp: st_def push_stack_def cursor_ready_def cursor_at_def cursor_fresh_def)
  obtain st' p' g' where "seek_loop dim (slice_aggregate ops) (passes target bias) False st (c_position c) ?g = Some (st', p', g')" "t = slice_tree g'"
    using assms(3) by (auto simp: cursor_slice_def cursor_seek_internal_def push bind_eq_Some_conv Let_def split: if_splits)
  from slice_loop_height [OF assms(1) ready _ _ g top leaf this(1)] this(2) show ?thesis by (simp add: new_tree_def)
qed

lemma cursor_suffix_height:
  assumes "wf_tree ops (c_tree c)" "cursor_ready ops dim c before after" "cursor_suffix ops dim c = Some (c', t)"
  shows "height t \<le> height (c_tree c)"
  using cursor_slice_height [OF assms(1,2) assms(3) [unfolded cursor_suffix_def]] by (simp add: passes_def end_target_def)

end

text \<open>A slice of a tree, which the cursor builds by appending what it passes, is at most twice as
  high as the tree, and a suffix is not higher than the tree; so the slices of trees of up to seven
  levels can be walked over with cursors again.\<close>

lemma slice_height_bound:
  assumes "dimension_algebra ops dim" and "wf_tree ops (c_tree c)" and "height (c_tree c) < 16" and "cursor_ready ops dim c before after"
    and "target (c_position c) \<noteq> Less" and "seek_mono dim (item_summary ops) (passes target bias) (c_position c) after"
  shows "(\<exists>c' t. cursor_slice ops dim c target bias = Some (c', t) \<and> height t \<le> 2 * height (c_tree c)) \<and>
    (\<exists>c' t. cursor_suffix ops dim c = Some (c', t) \<and> height t \<le> height (c_tree c))"
proof -
  note dim = assms(1)
  obtain skipped p' rest where sc: "seek_linear dim (item_summary ops) (passes target bias) (c_position c) after = (skipped, p', rest)"
    by (metis prod_cases3)
  obtain c1 t1 where c1: "cursor_slice ops dim c target bias = Some (c1, t1)"
    using dimension_algebra.cursor_slice_ok [OF assms sc] by blast
  obtain c2 t2 where c2: "cursor_suffix ops dim c = Some (c2, t2)"
    using dimension_algebra.cursor_suffix_ok [OF assms(1-4)] by blast
  have "height t1 \<le> 2 * height (c_tree c)"
    using dimension_algebra.cursor_slice_height [OF dim assms(2,4) c1] by (auto split: if_splits)
  with c1 c2 dimension_algebra.cursor_suffix_height [OF dim assms(2,4) c2] show ?thesis by blast
qed

end
