(* ===== verification/Rope_Tree.thy ===== *)
theory Rope_Tree
  imports Rope_Chunk_Ops Cursor_Back Cursor_Height
begin

text \<open>
  The rope (\<open>Rope\<close> of \<open>crates/rope/src/rope.rs\<close>): a \<open>SumTree\<close> of chunks, edited at its ends.
  The theory holds building, pushing text at either end and appending ropes, with the
  invariant that the source asserts in its tests, and the refinement of strings.
\<close>

section \<open>Chunks as items of a tree\<close>

definition chunk_summary :: "Chunk \<Rightarrow> ChunkSummary" where
  "chunk_summary c = ChunkSummary_of (text_summary c)"

definition chunk_ops :: "(Chunk, ChunkSummary) summary_ops" where
  "chunk_ops = \<lparr>item_summary = chunk_summary, summary_zero = ChunkSummary_zero, add_summary = ChunkSummary_add\<rparr>"

record Rope =
  rope_chunks :: "(Chunk, ChunkSummary) Tree"

definition Rope_new :: Rope where
  "Rope_new = \<lparr>rope_chunks = new_tree chunk_ops\<rparr>"

definition rope_summary :: "Rope \<Rightarrow> TextSummary" where
  "rope_summary r = summary_text (summary (rope_chunks r))"

definition rope_len :: "Rope \<Rightarrow> nat" where
  "rope_len r = extent usize_dim (rope_chunks r)"

definition rope_is_empty :: "Rope \<Rightarrow> bool" where
  "rope_is_empty r \<longleftrightarrow> rope_len r = 0"

definition max_point :: "Rope \<Rightarrow> Point" where
  "max_point r = extent Point_dim (rope_chunks r)"

definition max_point_utf16 :: "Rope \<Rightarrow> PointUtf16" where
  "max_point_utf16 r = extent PointUtf16_dim (rope_chunks r)"

section \<open>Pushing text\<close>

text \<open>\<open>update_last\<close> with a closure that may panic and assigns a captured variable.\<close>

definition update_last_with ::
  "('a, 's) summary_ops \<Rightarrow> ('a \<Rightarrow> ('a \<times> 'b) option) \<Rightarrow> 'b \<Rightarrow> ('a, 's) Tree \<Rightarrow> (('a, 's) Tree \<times> 'b) option" where
  "update_last_with ops f captured t = do {
     res \<leftarrow> tree_last t;
     (case res of
        None \<Rightarrow> do { t' \<leftarrow> update_last ops (\<lambda>x. x) t; Some (t', captured) }
      | Some x \<Rightarrow> do {
          (x', captured') \<leftarrow> f x;
          t' \<leftarrow> update_last ops (\<lambda>_. x') t;
          Some (t', captured') }) }"

definition fill_index :: "nat \<Rightarrow> ustr \<Rightarrow> nat" where
  "fill_index last_len t =
     (if last_len + text_len t \<le> MAX_BASE then text_len t
      else next_boundary t (min (MIN_BASE - last_len) (text_len t)))"

definition fill_last :: "ustr \<Rightarrow> Chunk \<Rightarrow> (Chunk \<times> ustr) option" where
  "fill_last t last_chunk = do {
     (suffix, remainder) \<leftarrow> str_split_at t (fill_index (chunk_len last_chunk) t);
     last_chunk' \<leftarrow> chunk_push_str last_chunk suffix;
     Some (last_chunk', remainder) }"

text \<open>Cutting a text into pieces of at most 128 bytes.\<close>

definition split_piece :: "ustr \<Rightarrow> (ustr \<times> ustr) option" where
  "split_piece t = str_split_at t (prev_boundary t (min MAX_BASE (text_len t)))"

lemma split_piece_shorter:
  assumes "t \<noteq> []" "split_piece t = Some (a, b)" shows "a \<noteq> []" "length b < length t"
proof -
  obtain c cs where t: "t = c # cs" using assms(1) by (cases t) auto
  define i where "i = min MAX_BASE (text_len t)"
  have i: "len_utf8 c \<le> i" "i \<le> text_len t"
    using len_utf8_bounds(2) [of c] by (simp_all add: i_def t text_len_Cons MAX_BASE_def)
  have "is_boundary t (len_utf8 c)" using is_boundary_bounds(3) [of cs] by (simp add: t)
  then have "len_utf8 c \<le> floor_boundary t i" using i(1) by (rule floor_boundary_spec(3))
  then have pos: "0 < prev_boundary t i" using len_utf8_bounds(1) [of c] i(2) by (simp only: prev_boundary_eq)
  have ab: "t = a @ b" "text_len a = prev_boundary t i"
    using assms(2) by (simp_all only: split_piece_def str_split_at_eq i_def)
  with pos show "a \<noteq> []" by (metis less_irrefl text_len_Nil)
  then show "length b < length t" by (simp add: ab(1))
qed

function split_pieces :: "ustr \<Rightarrow> ustr list option" where
  "split_pieces t =
     (if t = [] then Some []
      else (case split_piece t of
        None \<Rightarrow> None
      | Some (piece, remainder) \<Rightarrow> map_option (Cons piece) (split_pieces remainder)))"
  by pat_completeness auto
termination by (relation "measure length") (auto dest: split_piece_shorter(2))

declare split_pieces.simps [simp del]

definition NUM_CHUNKS :: nat where
  "NUM_CHUNKS = 4"

definition PARALLEL_THRESHOLD :: nat where
  "PARALLEL_THRESHOLD = 84 * (2 * TREE_BASE)"

definition rope_push_large :: "Rope \<Rightarrow> ustr \<Rightarrow> Rope option" where
  "rope_push_large r t = do {
     pieces \<leftarrow> split_pieces t;
     chunks \<leftarrow> those (map Chunk_new pieces);
     tree \<leftarrow> (if PARALLEL_THRESHOLD \<le> length pieces then par_extend chunk_ops (rope_chunks r) chunks
       else tree_extend chunk_ops (rope_chunks r) chunks);
     Some \<lparr>rope_chunks = tree\<rparr> }"

definition rope_push :: "Rope \<Rightarrow> ustr \<Rightarrow> Rope option" where
  "rope_push r t = do {
     (tree, t') \<leftarrow> update_last_with chunk_ops (fill_last t) t (rope_chunks r);
     (if t' = [] then Some \<lparr>rope_chunks = tree\<rparr>
      else if NUM_CHUNKS * MAX_BASE - NUM_CHUNKS * 4 < text_len t' then rope_push_large \<lparr>rope_chunks = tree\<rparr> t'
      else do {
        pieces \<leftarrow> split_pieces t';
        (if NUM_CHUNKS < length pieces then None else do {
          chunks \<leftarrow> those (map Chunk_new pieces);
          tree' \<leftarrow> tree_extend chunk_ops tree chunks;
          Some \<lparr>rope_chunks = tree'\<rparr> }) }) }"

text \<open>\<open>push_chunk\<close> moves what fits from a chunk into the last chunk and pushes the rest; its
  loop asks the chunk's bitmap for the boundary.\<close>

function chunk_next_boundary :: "ChunkSlice \<Rightarrow> nat \<Rightarrow> nat" where
  "chunk_next_boundary c i =
     (if chunk_is_char_boundary c i \<or> chunk_len c \<le> i then i else chunk_next_boundary c (Suc i))"
  by pat_completeness auto
termination by (relation "measure (\<lambda>(c, i). chunk_len c - i)") auto

declare chunk_next_boundary.simps [simp del]

definition fill_last_chunk :: "ChunkSlice \<Rightarrow> Chunk \<Rightarrow> (Chunk \<times> ChunkSlice) option" where
  "fill_last_chunk c last_chunk = do {
     (suffix, remainder) \<leftarrow> chunk_split_at c
       (if chunk_len last_chunk + chunk_len c \<le> MAX_BASE then chunk_len c
        else chunk_next_boundary c (min (MIN_BASE - chunk_len last_chunk) (chunk_len c)));
     last_chunk' \<leftarrow> chunk_append last_chunk suffix;
     Some (last_chunk', remainder) }"

definition rope_push_chunk :: "Rope \<Rightarrow> ChunkSlice \<Rightarrow> Rope option" where
  "rope_push_chunk r c = do {
     (tree, c') \<leftarrow> update_last_with chunk_ops (fill_last_chunk c) c (rope_chunks r);
     (if chunk_is_empty c' then Some \<lparr>rope_chunks = tree\<rparr>
      else do {
        chunk \<leftarrow> slice_into c';
        tree' \<leftarrow> push chunk_ops tree chunk;
        Some \<lparr>rope_chunks = tree'\<rparr> }) }"

section \<open>Appending ropes\<close>

definition rope_append :: "Rope \<Rightarrow> Rope \<Rightarrow> Rope option" where
  "rope_append r other = do {
     first \<leftarrow> tree_first (rope_chunks other);
     last_chunk \<leftarrow> tree_last (rope_chunks r);
     (case first of
        Some chunk \<Rightarrow>
          if (case last_chunk of Some c \<Rightarrow> chunk_len c < MIN_BASE | None \<Rightarrow> False) \<or> chunk_len chunk < MIN_BASE
          then do {
            r' \<leftarrow> rope_push_chunk r chunk;
            c1 \<leftarrow> cursor_next unit_dim (cursor_new unit_dim (rope_chunks other));
            c2 \<leftarrow> cursor_next unit_dim c1;
            (_, rest) \<leftarrow> cursor_suffix chunk_ops unit_dim c2;
            tree \<leftarrow> append_tree chunk_ops (rope_chunks r') rest;
            Some \<lparr>rope_chunks = tree\<rparr> }
          else do { tree \<leftarrow> append_tree chunk_ops (rope_chunks r) (rope_chunks other); Some \<lparr>rope_chunks = tree\<rparr> }
      | None \<Rightarrow> do { tree \<leftarrow> append_tree chunk_ops (rope_chunks r) (rope_chunks other); Some \<lparr>rope_chunks = tree\<rparr> }) }"

definition rope_from :: "ustr \<Rightarrow> Rope option" where
  "rope_from t = rope_push Rope_new t"

fun rope_from_iter_loop :: "Rope \<Rightarrow> ustr list \<Rightarrow> Rope option" where
  "rope_from_iter_loop r [] = Some r"
| "rope_from_iter_loop r (t # ts) = do { r' \<leftarrow> rope_push r t; rope_from_iter_loop r' ts }"

definition rope_from_iter :: "ustr list \<Rightarrow> Rope option" where
  "rope_from_iter ts = rope_from_iter_loop Rope_new ts"

definition update_first_prepend :: "ustr \<Rightarrow> Rope \<Rightarrow> Chunk \<Rightarrow> Rope option" where
  "update_first_prepend t r first_chunk = do {
     first_chunk' \<leftarrow> chunk_prepend_str first_chunk t;
     tree \<leftarrow> update_first chunk_ops (\<lambda>_. first_chunk') (rope_chunks r);
     Some \<lparr>rope_chunks = tree\<rparr> }"

definition rope_push_front :: "Rope \<Rightarrow> ustr \<Rightarrow> Rope option" where
  "rope_push_front r t =
     (if t = [] then Some r
      else if rope_is_empty r then rope_push r t
      else do {
        first \<leftarrow> tree_first (rope_chunks r);
        (case first of
           Some c \<Rightarrow>
             if chunk_len c + text_len t \<le> MAX_BASE then update_first_prepend t r c
             else do { r' \<leftarrow> rope_from t; rope_append r' r }
         | None \<Rightarrow> do { r' \<leftarrow> rope_from t; rope_append r' r }) })"

section \<open>The laws of the chunk summaries\<close>

interpretation rope_sum: summary_algebra chunk_ops
  by unfold_locales (simp_all add: chunk_ops_def ChunkSummary_add_assoc ChunkSummary_add_zero)

interpretation rope_usize: dimension_algebra chunk_ops usize_dim
  by unfold_locales (simp add: chunk_ops_def text_dims_add)

interpretation rope_offset_utf16: dimension_algebra chunk_ops OffsetUtf16_dim
  by unfold_locales (simp add: chunk_ops_def text_dims_add)

interpretation rope_point: dimension_algebra chunk_ops Point_dim
  by unfold_locales (simp add: chunk_ops_def text_dims_add)

interpretation rope_point_utf16: dimension_algebra chunk_ops PointUtf16_dim
  by unfold_locales (simp add: chunk_ops_def text_dims_add)

lemma Dimensions_algebra:
  assumes "dimension_algebra ops d1" "dimension_algebra ops d2" shows "dimension_algebra ops (Dimensions d1 d2)"
  using assms by (simp add: dimension_algebra_def dimension_algebra_axioms_def Dimensions_def)

section \<open>The text of a rope and its invariant\<close>

definition chunks_text :: "Chunk list \<Rightarrow> ustr" where
  "chunks_text cs = concat (map chunk_text cs)"

definition rope_text :: "Rope \<Rightarrow> ustr" where
  "rope_text r = chunks_text (flatten (rope_chunks r))"

text \<open>Every chunk is consistent and not empty, and every chunk but the last holds at least
  \<open>MIN_BASE - 3\<close> bytes, which is what \<open>check_invariants\<close> asserts.\<close>

definition chunks_ok :: "Chunk list \<Rightarrow> bool" where
  "chunks_ok cs \<longleftrightarrow> (\<forall>c \<in> set cs. chunk_ok c \<and> chunk_text c \<noteq> []) \<and>
     (\<forall>c \<in> set (butlast cs). MIN_BASE \<le> chunk_len c + 3)"

definition rope_ok :: "Rope \<Rightarrow> bool" where
  "rope_ok r \<longleftrightarrow> wf_tree chunk_ops (rope_chunks r) \<and> chunks_ok (flatten (rope_chunks r))"

lemma chunks_text_simps [simp]:
  "chunks_text [] = []" "chunks_text (c # cs) = chunk_text c @ chunks_text cs" "chunks_text (cs @ ds) = chunks_text cs @ chunks_text ds"
  by (simp_all add: chunks_text_def)

lemma summary_text_chunk: "chunk_ok c \<Longrightarrow> summary_text (chunk_summary c) = TextSummary_from (chunk_text c)"
  by (simp add: chunk_summary_def text_summary_eq summary_text_of summary_inv_from)

lemma items_summary_text:
  "\<forall>c \<in> set cs. chunk_ok c \<Longrightarrow> summary_text (items_summary chunk_ops cs) = TextSummary_from (chunks_text cs)"
proof (induction cs rule: rev_induct)
  case Nil
  show ?case by (simp add: items_summary_def sum_summaries_def chunk_ops_def ChunkSummary_zero.rep_eq TextSummary_from_Nil)
next
  case (snoc c cs)
  then show ?case
    by (simp add: items_summary_def sum_summaries_def chunk_ops_def ChunkSummary_add.rep_eq summary_text_chunk TextSummary_from_append)
qed

lemma rope_summary_eq: "rope_ok r \<Longrightarrow> rope_summary r = TextSummary_from (rope_text r)"
  by (simp add: rope_summary_def rope_text_def rope_ok_def chunks_ok_def rope_sum.wf_summary items_summary_text)

lemma summary_fields:
  "txt_len (TextSummary_from t) = text_len t" "txt_chars (TextSummary_from t) = length t"
  "txt_len_utf16 (TextSummary_from t) = text_len_utf16 t"
  using summary_ok_from [of t] by (simp_all add: summary_ok_def Let_def)

lemma rope_len_eq: "rope_ok r \<Longrightarrow> rope_len r = text_len (rope_text r)"
  using rope_summary_eq [of r]
  by (simp add: rope_len_def extent_def usize_dim_def rope_summary_def summary_fields)

lemma max_point_eq:
  "rope_ok r \<Longrightarrow> max_point r = txt_lines (TextSummary_from (rope_text r))"
  "rope_ok r \<Longrightarrow> max_point_utf16 r = lines_utf16 (TextSummary_from (rope_text r))"
  using rope_summary_eq [of r]
  by (simp_all add: max_point_def max_point_utf16_def extent_def Point_dim_def PointUtf16_dim_def rope_summary_def Point_add_zero)

lemma Rope_new_ok: "rope_ok Rope_new" "rope_text Rope_new = []"
  using rope_sum.wf_new_tree by (simp_all add: Rope_new_def rope_ok_def rope_text_def chunks_ok_def new_tree_def)

section \<open>Boundaries near an index\<close>

lemma ceil_boundary_near: "ceil_boundary t i \<le> i + 3"
proof (induction t i rule: ceil_boundary.induct)
  case (2 c cs i)
  show ?case
  proof (cases "i \<le> len_utf8 c")
    case True
    moreover have "ceil_boundary cs 0 = 0" by (cases cs) simp_all
    ultimately show ?thesis using len_utf8_bounds(2) [of c] by simp
  next
    case False
    with 2 show ?thesis by simp
  qed
qed simp

lemma floor_boundary_near: "i \<le> text_len t \<Longrightarrow> i \<le> floor_boundary t i + 3"
proof (induction t i rule: floor_boundary.induct)
  case (2 c cs i)
  show ?case
  proof (cases "i < len_utf8 c")
    case True
    with len_utf8_bounds(2) [of c] show ?thesis by simp
  next
    case False
    with 2 have "i - len_utf8 c \<le> floor_boundary cs (i - len_utf8 c) + 3" by (simp add: text_len_Cons)
    with False show ?thesis by simp
  qed
qed simp

lemma boundary_splits: "is_boundary t i \<Longrightarrow> \<exists>a b. t = a @ b \<and> text_len a = i \<and> str_split_at t i = Some (a, b)"
  by (auto simp: is_boundary_iff)

section \<open>Pushing and appending\<close>

lemma update_last_with_ok:
  assumes "wf_tree chunk_ops t"
  shows "flatten t = [] \<Longrightarrow> \<exists>t'. update_last_with chunk_ops f b t = Some (t', b) \<and> wf_tree chunk_ops t' \<and> flatten t' = []"
    "flatten t = xs @ [x] \<Longrightarrow> f x = Some (x', b') \<Longrightarrow>
      \<exists>t'. update_last_with chunk_ops f b t = Some (t', b') \<and> wf_tree chunk_ops t' \<and> flatten t' = xs @ [x']"
  using rope_sum.first_last_ok(2) [OF assms] rope_sum.update_ends_ok(1) [OF assms, of "\<lambda>x. x"]
    rope_sum.update_ends_ok(1) [OF assms, of "\<lambda>_. x'"]
  by (auto simp: update_last_with_def list_last_def)

text \<open>Where a text is cut when the last chunk cannot take all of it.\<close>

lemma fill_cut:
  assumes "MAX_BASE < n + text_len t" "n \<le> MAX_BASE"
  defines "k \<equiv> ceil_boundary t (min (MIN_BASE - n) (text_len t))"
  shows "is_boundary t k" "MIN_BASE \<le> n + k" "n + k \<le> MAX_BASE" "min (MIN_BASE - n) (text_len t) \<le> text_len t"
proof -
  have m: "min (MIN_BASE - n) (text_len t) = MIN_BASE - n" using assms(1,2) by (simp add: MIN_BASE_def MAX_BASE_def)
  show "is_boundary t k" unfolding k_def by (rule ceil_boundary_spec(1))
  have "MIN_BASE - n \<le> k" unfolding k_def m by (rule ceil_boundary_spec(2)) (use m in simp)
  then show "MIN_BASE \<le> n + k" by simp
  show "n + k \<le> MAX_BASE"
  proof (cases "MIN_BASE \<le> n")
    case True
    then have "k = 0" using ceil_boundary_spec(3) [OF is_boundary_bounds(3), of 0 t] by (simp add: k_def)
    with assms(2) show ?thesis by simp
  next
    case False
    have "k \<le> MIN_BASE - n + 3" unfolding k_def m by (rule ceil_boundary_near)
    with False show ?thesis by (simp add: MIN_BASE_def MAX_BASE_def)
  qed
qed simp

lemma fill_last_ok:
  assumes "chunk_ok c" "chunk_text c \<noteq> []"
  obtains c' a b where "fill_last t c = Some (c', b)" "t = a @ b" "chunk_ok c'" "chunk_text c' = chunk_text c @ a"
    "b \<noteq> [] \<Longrightarrow> MIN_BASE \<le> chunk_len c'"
proof (cases "chunk_len c + text_len t \<le> MAX_BASE")
  case True
  then obtain c' where "Chunk_new (chunk_text c @ t) = Some c'" "chunk_ok c'" "chunk_text c' = chunk_text c @ t"
    using Chunk_new_ok [of "chunk_text c @ t"] by (auto simp: chunk_len_def)
  moreover have "str_split_at t (text_len t) = Some (t, [])" by (simp add: str_split_at_eq)
  ultimately show ?thesis
    using True that [of c' "[]" t] by (simp add: fill_last_def fill_index_def chunk_push_str_eq(1) [OF assms(1)])
next
  case False
  then have big: "MAX_BASE < chunk_len c + text_len t" "chunk_len c \<le> MAX_BASE"
    using assms(1) by (simp_all add: chunk_ok_def chunk_len_def)
  note cut = fill_cut [OF big]
  obtain a b where ab: "t = a @ b" "text_len a = ceil_boundary t (min (MIN_BASE - chunk_len c) (text_len t))"
    "str_split_at t (text_len a) = Some (a, b)"
    using boundary_splits [OF cut(1)] by auto
  have idx: "fill_index (chunk_len c) t = text_len a" using False cut(4) by (simp add: fill_index_def next_boundary_eq ab(2))
  have len: "text_len (chunk_text c @ a) \<le> MAX_BASE" using cut(3) ab(2) by (simp add: chunk_len_def)
  obtain c' where c': "Chunk_new (chunk_text c @ a) = Some c'" "chunk_ok c'" "chunk_text c' = chunk_text c @ a"
    by (rule Chunk_new_ok [OF len])
  have "fill_last t c = Some (c', b)"
    using c'(1) by (simp add: fill_last_def idx ab(3) chunk_push_str_eq(1) [OF assms(1)])
  moreover have "MIN_BASE \<le> chunk_len c'" using cut(2) ab(2) c'(3) by (simp add: chunk_len_def)
  ultimately show ?thesis by (rule that [OF _ ab(1) c'(2,3)])
qed

lemma split_piece_ok:
  assumes "t \<noteq> []"
  obtains a b where "split_piece t = Some (a, b)" "t = a @ b" "a \<noteq> []" "text_len a \<le> MAX_BASE" "b \<noteq> [] \<Longrightarrow> MAX_BASE - 3 \<le> text_len a"
proof -
  define i where "i = min MAX_BASE (text_len t)"
  have i: "i \<le> text_len t" "i \<le> MAX_BASE" by (simp_all add: i_def)
  obtain a b where ab: "t = a @ b" "text_len a = floor_boundary t i" "str_split_at t (floor_boundary t i) = Some (a, b)"
    using boundary_splits [OF floor_boundary_spec(1)] by blast
  have split: "split_piece t = Some (a, b)" using ab(3) prev_boundary_eq [OF i(1)] by (simp add: split_piece_def flip: i_def)
  have "MAX_BASE - 3 \<le> text_len a" if "b \<noteq> []"
  proof -
    have "i = MAX_BASE"
    proof (rule ccontr)
      assume "i \<noteq> MAX_BASE"
      then have "i = text_len t" by (simp add: i_def min_def split: if_splits)
      then have "text_len a = text_len t" using ab(2) floor_boundary_spec(2) [of t i] floor_boundary_spec(3) [OF is_boundary_bounds(2), of t i] by simp
      with ab(1) that show False by simp
    qed
    with floor_boundary_near [OF i(1)] ab(2) show ?thesis by simp
  qed
  moreover have "text_len a \<le> MAX_BASE" using ab(2) floor_boundary_spec(2) [of t i] i(2) by simp
  ultimately show ?thesis using that split ab(1) split_piece_shorter(1) [OF assms split] by blast
qed

lemma split_pieces_ok:
  "\<exists>ps. split_pieces t = Some ps \<and> concat ps = t \<and> (\<forall>p \<in> set ps. p \<noteq> [] \<and> text_len p \<le> MAX_BASE) \<and>
    (\<forall>p \<in> set (butlast ps). MAX_BASE - 3 \<le> text_len p) \<and> (ps = [] \<longleftrightarrow> t = [])"
proof (induction t rule: split_pieces.induct)
  case (1 t)
  show ?case
  proof (cases "t = []")
    case False
    obtain a b where ab: "split_piece t = Some (a, b)" "t = a @ b" "a \<noteq> []" "text_len a \<le> MAX_BASE"
      "b \<noteq> [] \<Longrightarrow> MAX_BASE - 3 \<le> text_len a"
      by (rule split_piece_ok [OF False]) blast
    from 1 [OF False ab(1) refl] obtain ps where ps: "split_pieces b = Some ps" "concat ps = b"
      "\<forall>p \<in> set ps. p \<noteq> [] \<and> text_len p \<le> MAX_BASE" "\<forall>p \<in> set (butlast ps). MAX_BASE - 3 \<le> text_len p" "ps = [] \<longleftrightarrow> b = []" by blast
    have "split_pieces t = Some (a # ps)" using False ab(1) ps(1) by (subst split_pieces.simps) simp
    with ab ps show ?thesis by auto
  qed (simp add: split_pieces.simps)
qed

lemma pieces_text_len:
  "\<forall>p \<in> set (butlast ps). n \<le> text_len p \<Longrightarrow> n * (length ps - 1) \<le> text_len (concat ps)"
proof (induction ps)
  case (Cons p ps)
  then show ?case by (cases "ps = []") (auto simp: algebra_simps neq_Nil_conv)
qed simp

lemma those_chunks:
  "\<forall>p \<in> set ps. text_len p \<le> MAX_BASE \<Longrightarrow>
    \<exists>cs. those (map Chunk_new ps) = Some cs \<and> map chunk_text cs = ps \<and> (\<forall>c \<in> set cs. chunk_ok c)"
proof (induction ps)
  case (Cons p ps)
  then obtain cs where "those (map Chunk_new ps) = Some cs" "map chunk_text cs = ps" "\<forall>c \<in> set cs. chunk_ok c" by auto
  moreover obtain c where "Chunk_new p = Some c" "chunk_ok c" "chunk_text c = p" using Chunk_new_ok [of p] Cons.prems by auto
  ultimately show ?case by auto
qed simp

lemma pieces_chunks:
  obtains cs where "split_pieces t = Some (map chunk_text cs)" "those (map Chunk_new (map chunk_text cs)) = Some cs"
    "chunks_text cs = t" "chunks_ok cs" "\<forall>c \<in> set (butlast cs). MAX_BASE - 3 \<le> chunk_len c"
proof -
  obtain ps where ps: "split_pieces t = Some ps" "concat ps = t" "\<forall>p \<in> set ps. p \<noteq> [] \<and> text_len p \<le> MAX_BASE"
    "\<forall>p \<in> set (butlast ps). MAX_BASE - 3 \<le> text_len p"
    using split_pieces_ok [of t] by blast
  obtain cs where cs: "those (map Chunk_new ps) = Some cs" "map chunk_text cs = ps" "\<forall>c \<in> set cs. chunk_ok c"
    using those_chunks [of ps] ps(3) by auto
  have big: "\<forall>c \<in> set (butlast cs). MAX_BASE - 3 \<le> chunk_len c"
    using ps(4) by (auto simp: cs(2) [symmetric] map_butlast [symmetric] chunk_len_def)
  then have "chunks_ok cs"
    using cs(2,3) ps(3) by (fastforce simp: chunks_ok_def MIN_BASE_def MAX_BASE_def)
  with big that [of cs] ps cs show ?thesis by (simp add: chunks_text_def)
qed

lemma chunks_ok_append:
  assumes "chunks_ok cs" "chunks_ok ds" "ds \<noteq> [] \<Longrightarrow> cs \<noteq> [] \<Longrightarrow> MIN_BASE \<le> chunk_len (last cs) + 3"
  shows "chunks_ok (cs @ ds)"
proof -
  have "set (butlast (cs @ ds)) \<subseteq> set (butlast cs) \<union> (if ds = [] \<or> cs = [] then {} else {last cs}) \<union> set (butlast ds)"
    by (cases cs rule: rev_cases) (auto simp: butlast_append)
  with assms show ?thesis by (auto simp: chunks_ok_def split: if_splits)
qed

lemma chunks_ok_snoc:
  "chunks_ok (cs @ [c]) \<longleftrightarrow> (\<forall>d \<in> set cs. chunk_ok d \<and> chunk_text d \<noteq> [] \<and> MIN_BASE \<le> chunk_len d + 3) \<and> chunk_ok c \<and> chunk_text c \<noteq> []"
  by (auto simp: chunks_ok_def)

lemma rope_okD:
  assumes "rope_ok r" shows "wf_tree chunk_ops (rope_chunks r)" "chunks_ok (flatten (rope_chunks r))"
  using assms by (simp_all add: rope_ok_def)

text \<open>What the edits of the last chunk leave: its text extended, and enough of it when anything
  follows.\<close>

lemma fill_last_tree:
  assumes "rope_ok r"
  obtains t' b where "update_last_with chunk_ops (fill_last t) t (rope_chunks r) = Some (t', b)" "rope_ok \<lparr>rope_chunks = t'\<rparr>"
    "chunks_text (flatten t') @ b = rope_text r @ t" "b \<noteq> [] \<Longrightarrow> flatten t' \<noteq> [] \<Longrightarrow> MIN_BASE \<le> chunk_len (last (flatten t'))"
proof (cases "flatten (rope_chunks r)" rule: rev_cases)
  case Nil
  with update_last_with_ok(1) [OF rope_okD(1) [OF assms] Nil, of "fill_last t" t] that show ?thesis
    by (auto simp: rope_ok_def chunks_ok_def rope_text_def)
next
  case (snoc cs c)
  note ok = rope_okD [OF assms]
  have c: "chunk_ok c" "chunk_text c \<noteq> []" using ok(2) by (simp_all add: snoc chunks_ok_snoc)
  obtain c' a b where f: "fill_last t c = Some (c', b)" "t = a @ b" "chunk_ok c'" "chunk_text c' = chunk_text c @ a"
    "b \<noteq> [] \<Longrightarrow> MIN_BASE \<le> chunk_len c'"
    by (rule fill_last_ok [OF c, of t]) blast
  obtain t' where t': "update_last_with chunk_ops (fill_last t) t (rope_chunks r) = Some (t', b)" "wf_tree chunk_ops t'"
    "flatten t' = cs @ [c']"
    using update_last_with_ok(2) [where f = "fill_last t", OF ok(1) snoc f(1)] by blast
  show ?thesis
  proof (rule that [OF t'(1)])
    show "rope_ok \<lparr>rope_chunks = t'\<rparr>"
      using ok(2) t'(2,3) f(3,4) c(2) by (simp add: rope_ok_def snoc chunks_ok_snoc)
    show "chunks_text (flatten t') @ b = rope_text r @ t" using t'(3) f(2,4) by (simp add: rope_text_def snoc)
    show "MIN_BASE \<le> chunk_len (last (flatten t'))" if "b \<noteq> []" using f(5) that t'(3) by simp
  qed
qed

lemma extend_chunks_ok:
  assumes "rope_ok r" "flatten (rope_chunks r) \<noteq> [] \<Longrightarrow> MIN_BASE \<le> chunk_len (last (flatten (rope_chunks r)))" "chunks_ok cs"
  obtains t' where "tree_extend chunk_ops (rope_chunks r) cs = Some t'" "par_extend chunk_ops (rope_chunks r) cs = Some t'"
    "rope_ok \<lparr>rope_chunks = t'\<rparr>" "rope_text \<lparr>rope_chunks = t'\<rparr> = rope_text r @ chunks_text cs"
proof -
  note ok = rope_okD [OF assms(1)]
  obtain t' where t': "tree_extend chunk_ops (rope_chunks r) cs = Some t'" "par_extend chunk_ops (rope_chunks r) cs = Some t'"
    "wf_tree chunk_ops t'" "flatten t' = flatten (rope_chunks r) @ cs"
    using rope_sum.extend_ok [OF ok(1), of cs] by blast
  have "chunks_ok (flatten t')" unfolding t'(4) using assms(2) by (intro chunks_ok_append [OF ok(2) assms(3)]) (simp add: trans_le_add1)
  with t' that show ?thesis by (simp add: rope_ok_def rope_text_def)
qed

lemma rope_push_large_ok:
  assumes "rope_ok r" "flatten (rope_chunks r) \<noteq> [] \<Longrightarrow> MIN_BASE \<le> chunk_len (last (flatten (rope_chunks r)))"
  shows "\<exists>r'. rope_push_large r t = Some r' \<and> rope_ok r' \<and> rope_text r' = rope_text r @ t"
proof -
  obtain cs where cs: "split_pieces t = Some (map chunk_text cs)" "those (map Chunk_new (map chunk_text cs)) = Some cs"
    "chunks_text cs = t" "chunks_ok cs"
    by (rule pieces_chunks)
  obtain t' where "tree_extend chunk_ops (rope_chunks r) cs = Some t'" "par_extend chunk_ops (rope_chunks r) cs = Some t'"
    "rope_ok \<lparr>rope_chunks = t'\<rparr>" "rope_text \<lparr>rope_chunks = t'\<rparr> = rope_text r @ chunks_text cs"
    by (rule extend_chunks_ok [OF assms cs(4)])
  with cs show ?thesis by (simp add: rope_push_large_def del: map_map)
qed

lemma rope_push_ok:
  assumes "rope_ok r"
  shows "\<exists>r'. rope_push r t = Some r' \<and> rope_ok r' \<and> rope_text r' = rope_text r @ t"
proof -
  obtain t' b where t': "update_last_with chunk_ops (fill_last t) t (rope_chunks r) = Some (t', b)" "rope_ok \<lparr>rope_chunks = t'\<rparr>"
    "chunks_text (flatten t') @ b = rope_text r @ t" "b \<noteq> [] \<Longrightarrow> flatten t' \<noteq> [] \<Longrightarrow> MIN_BASE \<le> chunk_len (last (flatten t'))"
    by (rule fill_last_tree [OF assms]) blast
  let ?r = "\<lparr>rope_chunks = t'\<rparr>"
  show ?thesis
  proof (cases "b = []")
    case True
    with t' show ?thesis by (simp add: rope_push_def rope_text_def)
  next
    case False
    have last: "flatten (rope_chunks ?r) \<noteq> [] \<Longrightarrow> MIN_BASE \<le> chunk_len (last (flatten (rope_chunks ?r)))" using t'(4) False by simp
    show ?thesis
    proof (cases "NUM_CHUNKS * MAX_BASE - NUM_CHUNKS * 4 < text_len b")
      case True
      with rope_push_large_ok [OF t'(2) last, of b] t'(1,3) False show ?thesis by (simp add: rope_push_def rope_text_def)
    next
      case small: False
      obtain cs where cs: "split_pieces b = Some (map chunk_text cs)" "those (map Chunk_new (map chunk_text cs)) = Some cs"
        "chunks_text cs = b" "chunks_ok cs" "\<forall>c \<in> set (butlast cs). MAX_BASE - 3 \<le> chunk_len c"
        by (rule pieces_chunks)
      have "(MAX_BASE - 3) * (length (map chunk_text cs) - 1) \<le> text_len (concat (map chunk_text cs))"
        using cs(5) by (intro pieces_text_len) (auto simp: map_butlast [symmetric] chunk_len_def)
      then have "length cs \<le> NUM_CHUNKS" using small cs(3) by (simp add: chunks_text_def NUM_CHUNKS_def MAX_BASE_def)
      moreover obtain t2 where "tree_extend chunk_ops (rope_chunks ?r) cs = Some t2" "rope_ok \<lparr>rope_chunks = t2\<rparr>"
        "rope_text \<lparr>rope_chunks = t2\<rparr> = rope_text ?r @ chunks_text cs"
        by (rule extend_chunks_ok [OF t'(2) last cs(4)])
      ultimately show ?thesis
        using t'(1,3) False small cs by (simp add: rope_push_def rope_text_def del: map_map)
    qed
  qed
qed

lemma chunk_next_boundary_eq: "chunk_ok c \<Longrightarrow> chunk_next_boundary c i = next_boundary (chunk_text c) i"
proof (induction c i rule: chunk_next_boundary.induct)
  case (1 c i)
  then show ?case
    by (subst chunk_next_boundary.simps, subst next_boundary.simps) (simp add: chunk_is_char_boundary_eq chunk_len_def)
qed

lemma fill_last_chunk_ok:
  assumes "chunk_ok c" "chunk_ok d"
  obtains c' a e where "fill_last_chunk d c = Some (c', e)" "chunk_text d = a @ chunk_text e" "chunk_ok c'" "chunk_ok e"
    "chunk_text c' = chunk_text c @ a" "chunk_text e \<noteq> [] \<Longrightarrow> MIN_BASE \<le> chunk_len c'"
    "chunk_text e \<noteq> [] \<Longrightarrow> MIN_BASE \<le> chunk_len d + 3 \<Longrightarrow> MIN_BASE \<le> chunk_len e + 3"
proof (cases "chunk_len c + chunk_len d \<le> MAX_BASE")
  case True
  obtain l e where le: "chunk_split_at d (text_len (chunk_text d)) = Some (l, e)" "chunk_ok l" "chunk_ok e"
    "chunk_text l = chunk_text d" "chunk_text e = []"
    by (rule chunk_split_at_ok [OF assms(2), of "chunk_text d" "[]"]) auto
  have "text_len (chunk_text c @ chunk_text d) \<le> MAX_BASE" using True by (simp add: chunk_len_def)
  then obtain c' where c': "Chunk_new (chunk_text c @ chunk_text d) = Some c'" "chunk_ok c'" "chunk_text c' = chunk_text c @ chunk_text d"
    by (rule Chunk_new_ok)
  have "fill_last_chunk d c = Some (c', e)"
    using True le c'(1) chunk_append_eq [OF assms(1) le(2)] by (simp add: fill_last_chunk_def chunk_len_def)
  then show ?thesis using that [of c' e "chunk_text d"] le c' by simp
next
  case False
  then have big: "MAX_BASE < chunk_len c + text_len (chunk_text d)" "chunk_len c \<le> MAX_BASE"
    using assms(1) by (simp_all add: chunk_ok_def chunk_len_def)
  note cut = fill_cut [OF big]
  define k where "k = ceil_boundary (chunk_text d) (min (MIN_BASE - chunk_len c) (text_len (chunk_text d)))"
  obtain a b where ab: "chunk_text d = a @ b" "text_len a = k" using boundary_splits [OF cut(1)] by (auto simp: k_def)
  obtain l e where le: "chunk_split_at d k = Some (l, e)" "chunk_ok l" "chunk_ok e" "chunk_text l = a" "chunk_text e = b"
    using chunk_split_at_ok [OF assms(2) ab(1)] ab(2) by metis
  have len: "text_len (chunk_text c @ a) \<le> MAX_BASE" using cut(3) ab(2) by (simp add: chunk_len_def k_def)
  obtain c' where c': "Chunk_new (chunk_text c @ a) = Some c'" "chunk_ok c'" "chunk_text c' = chunk_text c @ a"
    by (rule Chunk_new_ok [OF len])
  have "fill_last_chunk d c = Some (c', e)"
    using False le(1,4) c'(1) cut(4) chunk_append_eq [OF assms(1) le(2)] chunk_next_boundary_eq [OF assms(2)]
    by (simp add: fill_last_chunk_def chunk_len_def next_boundary_eq k_def)
  moreover have "MIN_BASE \<le> chunk_len c'" using cut(2) ab(2) c'(3) by (simp add: chunk_len_def k_def)
  moreover have "MIN_BASE \<le> chunk_len e + 3" if "MIN_BASE \<le> chunk_len d + 3"
  proof -
    have sum: "chunk_len d = k + chunk_len e" using ab le(5) by (simp add: chunk_len_def)
    have "k \<le> MIN_BASE - chunk_len c + 3 \<and> (MIN_BASE \<le> chunk_len c \<longrightarrow> k = 0)"
      using ceil_boundary_near [of "chunk_text d" "min (MIN_BASE - chunk_len c) (text_len (chunk_text d))"]
        ceil_boundary_spec(3) [OF is_boundary_bounds(3), of 0 "chunk_text d"] by (auto simp: k_def min_def)
    then show ?thesis using that sum False unfolding MIN_BASE_def MAX_BASE_def by (cases "64 \<le> chunk_len c") auto
  qed
  ultimately show ?thesis using that [of c' e a] le ab(1) c'(2,3) by simp
qed

text \<open>Pushing a chunk at the end of a rope whose other chunks may be followed by more.\<close>

lemma rope_push_chunk_ok:
  assumes "rope_ok r" "chunk_ok d"
  obtains r' where "rope_push_chunk r d = Some r'" "rope_ok r'" "rope_text r' = rope_text r @ chunk_text d"
    "MIN_BASE \<le> chunk_len d + 3 \<Longrightarrow> MIN_BASE \<le> chunk_len (last (flatten (rope_chunks r'))) + 3"
    "chunk_text d \<noteq> [] \<Longrightarrow> flatten (rope_chunks r') \<noteq> []"
proof -
  note ok = rope_okD [OF assms(1)] and result = that
  have push: thesis
    if t': "update_last_with chunk_ops (fill_last_chunk d) d (rope_chunks r) = Some (t', e)" "wf_tree chunk_ops t'" "chunks_ok (flatten t')"
      and e: "chunk_ok e" "chunks_text (flatten t') @ chunk_text e = rope_text r @ chunk_text d"
        "chunk_text e \<noteq> [] \<Longrightarrow> flatten t' \<noteq> [] \<Longrightarrow> MIN_BASE \<le> chunk_len (last (flatten t'))"
        "chunk_text e \<noteq> [] \<Longrightarrow> MIN_BASE \<le> chunk_len d + 3 \<Longrightarrow> MIN_BASE \<le> chunk_len e + 3"
        "chunk_text e = [] \<Longrightarrow> MIN_BASE \<le> chunk_len d + 3 \<Longrightarrow> MIN_BASE \<le> chunk_len (last (flatten t')) + 3" for t' e
  proof (cases "chunk_text e = []")
    case True
    show ?thesis
      by (rule result [of "\<lparr>rope_chunks = t'\<rparr>"])
        (use t' e True in \<open>auto simp: rope_push_chunk_def chunk_is_empty_def rope_ok_def rope_text_def\<close>)
  next
    case False
    obtain t2 where t2: "push chunk_ops t' e = Some t2" "wf_tree chunk_ops t2" "flatten t2 = flatten t' @ [e]"
      using rope_sum.push_ok [OF t'(2), of e] by blast
    have "chunks_ok [e]" using e(1) False by (simp add: chunks_ok_def)
    then have "chunks_ok (flatten t2)"
      unfolding t2(3) using e(3) False by (intro chunks_ok_append [OF t'(3)]) (simp_all add: trans_le_add1)
    moreover have "slice_into e = Some e" using e(1) by (simp add: slice_into_def chunk_ok_def chunk_len_def)
    ultimately show ?thesis
      by (intro result [of "\<lparr>rope_chunks = t2\<rparr>"])
        (use t' e(2,4) t2 False in \<open>auto simp: rope_push_chunk_def chunk_is_empty_def rope_ok_def rope_text_def\<close>)
  qed
  show ?thesis
  proof (cases "flatten (rope_chunks r)" rule: rev_cases)
    case Nil
    obtain t' where "update_last_with chunk_ops (fill_last_chunk d) d (rope_chunks r) = Some (t', d)" "wf_tree chunk_ops t'" "flatten t' = []"
      using update_last_with_ok(1) [OF ok(1) Nil, of "fill_last_chunk d" d] by blast
    then show ?thesis using Nil assms(2) by (intro push) (auto simp: chunks_ok_def rope_text_def chunk_len_def MIN_BASE_def MAX_BASE_def)
  next
    case (snoc cs c)
    have c: "chunk_ok c" "chunk_text c \<noteq> []" using ok(2) by (simp_all add: snoc chunks_ok_snoc)
    obtain c' a e where f: "fill_last_chunk d c = Some (c', e)" "chunk_text d = a @ chunk_text e" "chunk_ok c'" "chunk_ok e"
      "chunk_text c' = chunk_text c @ a" "chunk_text e \<noteq> [] \<Longrightarrow> MIN_BASE \<le> chunk_len c'"
      "chunk_text e \<noteq> [] \<Longrightarrow> MIN_BASE \<le> chunk_len d + 3 \<Longrightarrow> MIN_BASE \<le> chunk_len e + 3"
      by (rule fill_last_chunk_ok [OF c(1) assms(2)]) blast
    obtain t' where t': "update_last_with chunk_ops (fill_last_chunk d) d (rope_chunks r) = Some (t', e)" "wf_tree chunk_ops t'"
      "flatten t' = cs @ [c']"
      using update_last_with_ok(2) [where f = "fill_last_chunk d", OF ok(1) snoc f(1)] by blast
    show ?thesis
      by (rule push [OF t'(1,2)]) (use f t'(3) ok(2) c(2) in \<open>auto simp: snoc chunks_ok_snoc rope_text_def chunk_len_def\<close>)
  qed
qed

text \<open>A fresh cursor moved twice and its suffix: the items after the first.\<close>

lemma skip_first_ok:
  assumes "wf_tree chunk_ops t" "height t < 16" "flatten t = d # ds"
  obtains c1 c2 c3 rest where "cursor_next unit_dim (cursor_new unit_dim t) = Some c1" "cursor_next unit_dim c1 = Some c2"
    "cursor_suffix chunk_ops unit_dim c2 = Some (c3, rest)" "wf_tree chunk_ops rest" "flatten rest = ds"
    "height rest \<le> height t"
proof -
  note dim = rope_sum.unit_dim_algebra
  note fresh = cursor_fresh_new [where dim = unit_dim and t = t]
  obtain c1 where c1: "cursor_next unit_dim (cursor_new unit_dim t) = Some c1" "c_tree c1 = t" "cursor_at chunk_ops unit_dim c1 [] (d # ds)"
    using dimension_algebra.search_forward_from_start [OF dim, of "cursor_new unit_dim t" "\<lambda>_. True"] filter_mono_True fresh assms
    by (auto simp: cursor_next_def rejected_True takeWhile_False)
  obtain c2 where c2: "cursor_next unit_dim c1 = Some c2" "c_tree c2 = t" "cursor_at chunk_ops unit_dim c2 [d] ds"
    using dimension_algebra.search_forward_ok [OF dim, of c1 "\<lambda>_. True" "[]" d ds] filter_mono_True c1 assms
    by (auto simp: cursor_next_def rejected_True takeWhile_False)
  obtain c3 rest where "cursor_suffix chunk_ops unit_dim c2 = Some (c3, rest)" "wf_tree chunk_ops rest" "flatten rest = ds"
    using dimension_algebra.cursor_suffix_ok [OF dim, of c2 "[d]" ds] c2 assms by (auto simp: cursor_ready_def)
  moreover from this have "height rest \<le> height t"
    using dimension_algebra.cursor_suffix_height [OF dim, of c2 "[d]" ds] c2 assms by (simp add: cursor_ready_at)
  ultimately show ?thesis using that c1 c2 by blast
qed

lemma chunks_ok_Cons: "chunks_ok (d # ds) \<Longrightarrow> chunks_ok ds \<and> (ds \<noteq> [] \<longrightarrow> MIN_BASE \<le> chunk_len d + 3) \<and> chunk_ok d \<and> chunk_text d \<noteq> []"
  by (cases "ds = []") (auto simp: chunks_ok_def)

lemma append_chunks_ok:
  assumes "rope_ok r" "wf_tree chunk_ops u" "chunks_ok (flatten u)"
    "flatten u \<noteq> [] \<Longrightarrow> flatten (rope_chunks r) \<noteq> [] \<Longrightarrow> MIN_BASE \<le> chunk_len (last (flatten (rope_chunks r))) + 3"
  shows "\<exists>t'. append_tree chunk_ops (rope_chunks r) u = Some t' \<and> rope_ok \<lparr>rope_chunks = t'\<rparr> \<and>
    rope_text \<lparr>rope_chunks = t'\<rparr> = rope_text r @ chunks_text (flatten u)"
proof -
  note ok = rope_okD [OF assms(1)]
  obtain t' where "append_tree chunk_ops (rope_chunks r) u = Some t'" "wf_tree chunk_ops t'"
    "flatten t' = flatten (rope_chunks r) @ flatten u"
    using rope_sum.append_tree_ok [OF ok(1) assms(2)] by blast
  with chunks_ok_append [OF ok(2) assms(3,4)] show ?thesis by (simp add: rope_ok_def rope_text_def)
qed

lemma rope_append_ok:
  assumes "rope_ok r" "rope_ok other" "height (rope_chunks other) < 16"
  shows "\<exists>r'. rope_append r other = Some r' \<and> rope_ok r' \<and> rope_text r' = rope_text r @ rope_text other"
proof -
  note ok = rope_okD [OF assms(1)] and ok' = rope_okD [OF assms(2)]
  note ends = rope_sum.first_last_ok(1) [OF ok'(1)] rope_sum.first_last_ok(2) [OF ok(1)]
  show ?thesis
  proof (cases "flatten (rope_chunks other)")
    case Nil
    with append_chunks_ok [OF assms(1) ok'] ends show ?thesis
      by (auto simp: rope_append_def list_first_def rope_text_def)
  next
    case (Cons d ds)
    note d = chunks_ok_Cons [OF ok'(2) [unfolded Cons]]
    let ?join = "flatten (rope_chunks r) \<noteq> [] \<and> chunk_len (last (flatten (rope_chunks r))) < MIN_BASE \<or> chunk_len d < MIN_BASE"
    show ?thesis
    proof (cases ?join)
      case True
      obtain r' where r': "rope_push_chunk r d = Some r'" "rope_ok r'" "rope_text r' = rope_text r @ chunk_text d"
        "MIN_BASE \<le> chunk_len d + 3 \<Longrightarrow> MIN_BASE \<le> chunk_len (last (flatten (rope_chunks r'))) + 3"
        by (rule rope_push_chunk_ok [OF assms(1), of d]) (use d in blast)+
      obtain c1 c2 c3 rest where c: "cursor_next unit_dim (cursor_new unit_dim (rope_chunks other)) = Some c1" "cursor_next unit_dim c1 = Some c2"
        "cursor_suffix chunk_ops unit_dim c2 = Some (c3, rest)" "wf_tree chunk_ops rest" "flatten rest = ds" "height rest \<le> height (rope_chunks other)"
        by (rule skip_first_ok [OF ok'(1) assms(3) Cons])
      have "\<exists>t'. append_tree chunk_ops (rope_chunks r') rest = Some t' \<and> rope_ok \<lparr>rope_chunks = t'\<rparr> \<and>
          rope_text \<lparr>rope_chunks = t'\<rparr> = rope_text r' @ chunks_text (flatten rest)"
        using d c(5) r'(4) by (intro append_chunks_ok [OF r'(2) c(4)]) auto
      with c r' ends Cons True show ?thesis
        by (auto simp: rope_append_def list_first_def list_last_def rope_text_def)
    next
      case False
      with append_chunks_ok [OF assms(1) ok'] ends Cons show ?thesis
        by (auto simp: rope_append_def list_first_def list_last_def rope_text_def)
    qed
  qed
qed

text \<open>How much higher pushing a chunk and appending make a rope.\<close>

lemma update_last_height: "update_last ops f t = Some t' \<Longrightarrow> height t' = height t"
  by (cases t) (auto simp: update_last_def Let_def bind_eq_Some_conv split: if_splits)

lemma update_last_with_tree:
  assumes "wf_tree chunk_ops t" "update_last_with chunk_ops f b t = Some (t', b')"
  shows "wf_tree chunk_ops t' \<and> height t' = height t"
proof -
  obtain g where g: "update_last chunk_ops g t = Some t'"
    using assms(2) by (auto simp: update_last_with_def bind_eq_Some_conv split: option.splits)
  from rope_sum.update_ends_ok(1) [OF assms(1), of g] show ?thesis using g update_last_height [OF g] by simp
qed

lemma push_chunk_height:
  assumes "rope_ok r" "rope_push_chunk r d = Some r'"
  shows "height (rope_chunks r') \<le> Suc (height (rope_chunks r))"
proof -
  obtain t e where t: "update_last_with chunk_ops (fill_last_chunk d) d (rope_chunks r) = Some (t, e)"
    "(if chunk_is_empty e then Some \<lparr>rope_chunks = t\<rparr>
      else do { chunk \<leftarrow> slice_into e; tree' \<leftarrow> push chunk_ops t chunk; Some \<lparr>rope_chunks = tree'\<rparr> }) = Some r'"
    using assms(2) by (auto simp: rope_push_chunk_def bind_eq_Some_conv)
  have wf: "wf_tree chunk_ops t" "height t = height (rope_chunks r)"
    using update_last_with_tree [OF rope_okD(1) [OF assms(1)] t(1)] by simp_all
  show ?thesis
  proof (cases "chunk_is_empty e")
    case False
    then obtain x t2 where x: "append_tree chunk_ops t (Leaf (item_summary chunk_ops x) [x] [item_summary chunk_ops x]) = Some t2"
      "r' = \<lparr>rope_chunks = t2\<rparr>"
      using t(2) by (auto simp: push_def Let_def bind_eq_Some_conv)
    have "wf_tree chunk_ops (Leaf (item_summary chunk_ops x) [x] [item_summary chunk_ops x])"
      by (simp add: TREE_BASE_def rope_sum.sum_single)
    from rope_sum.append_tree_ok [OF wf(1) this] show ?thesis using x wf(2) by auto
  qed (use t(2) wf(2) in auto)
qed

lemma rope_append_height:
  assumes "rope_ok r" "rope_ok other" "height (rope_chunks other) < 16" "rope_append r other = Some r'"
  shows "height (rope_chunks r') \<le> Suc (max (Suc (height (rope_chunks r))) (height (rope_chunks other)))"
proof -
  note ok = rope_okD(1) [OF assms(1)] and ok' = rope_okD [OF assms(2)]
  note append = rope_sum.append_tree_ok
  show ?thesis
  proof (cases "append_tree chunk_ops (rope_chunks r) (rope_chunks other) = Some (rope_chunks r')")
    case True
    then show ?thesis using append [OF ok ok'(1)] by auto
  next
    case False
    then obtain d where d: "tree_first (rope_chunks other) = Some (Some d)"
      using assms(4) by (auto simp: rope_append_def bind_eq_Some_conv split: option.splits)
    then obtain ds where ds: "flatten (rope_chunks other) = d # ds"
      using rope_sum.first_last_ok(1) [OF ok'(1)] by (cases "flatten (rope_chunks other)") (auto simp: list_first_def)
    obtain c1 c2 c3 rest r1 t where r: "rope_push_chunk r d = Some r1" "cursor_next unit_dim (cursor_new unit_dim (rope_chunks other)) = Some c1"
      "cursor_next unit_dim c1 = Some c2" "cursor_suffix chunk_ops unit_dim c2 = Some (c3, rest)"
      "append_tree chunk_ops (rope_chunks r1) rest = Some t" "r' = \<lparr>rope_chunks = t\<rparr>"
      using assms(4) False d by (auto simp: rope_append_def bind_eq_Some_conv split: if_splits option.splits)
    have chunk: "chunk_ok d" using ok'(2) ds by (simp add: chunks_ok_def)
    obtain c1' c2' c3' rest' where c: "cursor_next unit_dim (cursor_new unit_dim (rope_chunks other)) = Some c1'" "cursor_next unit_dim c1' = Some c2'"
      "cursor_suffix chunk_ops unit_dim c2' = Some (c3', rest')" "wf_tree chunk_ops rest'" "height rest' \<le> height (rope_chunks other)"
      by (rule skip_first_ok [OF ok'(1) assms(3) ds])
    have "rope_ok r1" using rope_push_chunk_ok [OF assms(1) chunk] r(1) by auto
    then show ?thesis using push_chunk_height [OF assms(1) r(1)] append [OF rope_okD(1) c(4)] r c by fastforce
  qed
qed

lemma rope_from_ok: "\<exists>r. rope_from t = Some r \<and> rope_ok r \<and> rope_text r = t"
  using rope_push_ok [OF Rope_new_ok(1), of t] Rope_new_ok(2) by (simp add: rope_from_def)

lemma rope_from_iter_loop_ok:
  "rope_ok r \<Longrightarrow> \<exists>r'. rope_from_iter_loop r ts = Some r' \<and> rope_ok r' \<and> rope_text r' = rope_text r @ concat ts"
proof (induction ts arbitrary: r)
  case (Cons t ts)
  obtain r1 where r1: "rope_push r t = Some r1" "rope_ok r1" "rope_text r1 = rope_text r @ t" using rope_push_ok [OF Cons.prems] by blast
  with Cons.IH [OF r1(2)] show ?case by auto
qed simp

lemma rope_push_front_ok:
  assumes "rope_ok r" "height (rope_chunks r) < 16"
  shows "\<exists>r'. rope_push_front r t = Some r' \<and> rope_ok r' \<and> rope_text r' = t @ rope_text r"
proof -
  note ok = rope_okD [OF assms(1)]
  note first = rope_sum.first_last_ok(1) [OF ok(1)]
  consider "t = []" | "t \<noteq> []" "rope_text r = []" | "t \<noteq> []" "rope_text r \<noteq> []" by blast
  then show ?thesis
  proof cases
    case 1
    with assms(1) show ?thesis by (simp add: rope_push_front_def)
  next
    case 2
    with rope_push_ok [OF assms(1), of t] rope_len_eq [OF assms(1)] show ?thesis by (simp add: rope_push_front_def rope_is_empty_def)
  next
    case 3
    then have ne: "\<not> rope_is_empty r" using rope_len_eq [OF assms(1)] by (simp add: rope_is_empty_def)
    obtain d ds where ds: "flatten (rope_chunks r) = d # ds" using 3 by (cases "flatten (rope_chunks r)") (auto simp: rope_text_def)
    note d = chunks_ok_Cons [OF ok(2) [unfolded ds]]
    show ?thesis
    proof (cases "chunk_len d + text_len t \<le> MAX_BASE")
      case True
      then have "text_len (t @ chunk_text d) \<le> MAX_BASE" by (simp add: chunk_len_def)
      then obtain d' where d': "Chunk_new (t @ chunk_text d) = Some d'" "chunk_ok d'" "chunk_text d' = t @ chunk_text d" by (rule Chunk_new_ok)
      obtain t' where t': "update_first chunk_ops (\<lambda>_. d') (rope_chunks r) = Some t'" "wf_tree chunk_ops t'" "flatten t' = d' # ds"
        using rope_sum.update_ends_ok(2) [OF ok(1), of "\<lambda>_. d'"] ds by auto
      have "chunks_ok (d' # ds)" using ok(2) d d' unfolding ds by (auto simp: chunks_ok_def chunk_len_def)
      with t' d' d True ne first ds 3 show ?thesis
        by (simp add: rope_push_front_def update_first_prepend_def chunk_push_str_eq(2) list_first_def rope_ok_def rope_text_def)
    next
      case False
      obtain r1 where r1: "rope_from t = Some r1" "rope_ok r1" "rope_text r1 = t" using rope_from_ok by blast
      with rope_append_ok [OF r1(2) assms] False ne first ds 3 show ?thesis by (auto simp: rope_push_front_def list_first_def)
    qed
  qed
qed

section \<open>Properties\<close>

text \<open>(C2) A rope refines a string.  Pushing text at the end, through the last chunk, the small
  and the large path, never panics, keeps the invariant that \<open>check_invariants\<close> asserts and
  appends exactly the pushed text; pushing text at the front puts it before the text, for a tree below the
  sixteen levels that cursors handle; a rope made from a string has that text, and one collected from strings their
  concatenation.\<close>

theorem rope_push_refines:
  assumes "rope_ok r"
  shows "(\<exists>r'. rope_push r t = Some r' \<and> rope_ok r' \<and> rope_text r' = rope_text r @ t) \<and>
    (height (rope_chunks r) < 16 \<longrightarrow> (\<exists>r'. rope_push_front r t = Some r' \<and> rope_ok r' \<and> rope_text r' = t @ rope_text r)) \<and>
    (\<exists>r'. rope_from t = Some r' \<and> rope_ok r' \<and> rope_text r' = t) \<and>
    (\<exists>r'. rope_from_iter ts = Some r' \<and> rope_ok r' \<and> rope_text r' = concat ts)"
  using rope_push_ok [OF assms, of t] rope_push_front_ok [OF assms, of t] rope_from_ok [of t]
    rope_from_iter_loop_ok [OF Rope_new_ok(1), of ts] Rope_new_ok(2)
  by (simp add: rope_from_iter_def)

lemma new_height: "height (rope_chunks Rope_new) < 16"
  by (simp add: Rope_new_def new_tree_def)

theorem rope_push_refines_witness:
  "rope_ok Rope_new \<and> (\<exists>r'. rope_push Rope_new [104, 105] = Some r' \<and> rope_ok r' \<and> rope_text r' = [104, 105]) \<and>
    (\<exists>r'. rope_push_front Rope_new [104, 105] = Some r' \<and> rope_ok r' \<and> rope_text r' = [104, 105])"
  using rope_push_refines [OF Rope_new_ok(1), of "[104, 105]"] Rope_new_ok new_height by auto

text \<open>(C20) Appending ropes and pushing text at the front also act on the texts as on strings and
  keep the invariant, for ropes whose trees are below the sixteen levels that cursors handle.\<close>

theorem rope_append_refines:
  assumes "rope_ok r" and "rope_ok other" and "height (rope_chunks other) < 16"
  shows "(\<exists>r'. rope_append r other = Some r' \<and> rope_ok r' \<and> rope_text r' = rope_text r @ rope_text other) \<and>
    (\<exists>r'. rope_push_front other t = Some r' \<and> rope_ok r' \<and> rope_text r' = t @ rope_text other)"
  using rope_append_ok [OF assms] rope_push_front_ok [OF assms(2,3)] by blast

theorem rope_append_refines_witness:
  "\<exists>r r'. rope_from [104, 10] = Some r \<and> rope_append r Rope_new = Some r' \<and> rope_text r' = [104, 10]"
proof -
  obtain r where r: "rope_from [104, 10] = Some r" "rope_ok r" "rope_text r = [104, 10]" using rope_from_ok by blast
  with rope_append_refines [OF r(2) Rope_new_ok(1) new_height, of "[]"] Rope_new_ok(2) show ?thesis by auto
qed

text \<open>The cached summary at the root of the tree is the summary of the whole text, and the
  length and the end positions of a rope are read off it.\<close>

lemma rope_summary_correct:
  assumes "rope_ok r"
  shows "rope_summary r = TextSummary_from (rope_text r) \<and> rope_len r = text_len (rope_text r) \<and>
    (rope_is_empty r \<longleftrightarrow> rope_text r = []) \<and> max_point r = txt_lines (TextSummary_from (rope_text r)) \<and>
    max_point_utf16 r = lines_utf16 (TextSummary_from (rope_text r))"
  using assms by (simp add: rope_summary_eq rope_len_eq max_point_eq rope_is_empty_def)

end
