(* ===== verification/Rope_Select.thy ===== *)
theory Rope_Select
  imports Rope_Bits
begin

unbundle bit_operations_syntax

text \<open>
  Selecting the n-th set bit of a word (\<open>nth_set_bit\<close> and \<open>nth_set_bit_u64\<close> of
  \<open>crates/rope/src/chunk.rs\<close>): the branchless selection on parallel bit counts is shown to
  return the position of the n-th set bit.
\<close>

section \<open>The source\<close>

definition reverse_bits :: "64 word \<Rightarrow> 64 word" where
  "reverse_bits v = horner_sum of_bool 2 (rev (map (bit v) [0..<64]))"

definition u64_MAX :: "64 word" where
  "u64_MAX = 0xFFFFFFFFFFFFFFFF"

text \<open>One step of the selection: \<open>t\<close> is the count of the upper half of the window.\<close>

definition select_step :: "nat \<Rightarrow> 64 word \<Rightarrow> 64 word \<times> 64 word \<Rightarrow> 64 word \<times> 64 word" where
  "select_step k t p = (case p of (s, n) \<Rightarrow>
     (s - drop_bit k ((t - n) AND 256), n - (t AND drop_bit 8 (t - n))))"

definition nth_set_bit_u64 :: "64 word \<Rightarrow> 64 word \<Rightarrow> 64 word" where
  "nth_set_bit_u64 v0 n0 =
     (let v = reverse_bits v0;
        a = v - (drop_bit 1 v AND (u64_MAX div 3));
        b = (a AND (u64_MAX div 5)) + (drop_bit 2 a AND (u64_MAX div 5));
        c = (b + drop_bit 4 b) AND (u64_MAX div 0x11);
        d = (c + drop_bit 8 c) AND (u64_MAX div 0x101);
        p1 = select_step 3 (drop_bit 32 d + drop_bit 48 d) (64, n0);
        p2 = select_step 4 (drop_bit (unat (fst p1 - 16)) d AND 0xff) p1;
        p3 = select_step 5 (drop_bit (unat (fst p2 - 8)) c AND 0xf) p2;
        p4 = select_step 6 (drop_bit (unat (fst p3 - 4)) b AND 0x7) p3;
        p5 = select_step 7 (drop_bit (unat (fst p4 - 2)) a AND 0x3) p4;
        t = drop_bit (unat (fst p5 - 1)) v AND 0x1;
        s = fst p5 - drop_bit 8 ((t - snd p5) AND 256)
      in 65 - s - 1)"

definition nth_set_bit :: "128 word \<Rightarrow> nat \<Rightarrow> nat" where
  "nth_set_bit v n =
     (let low = ucast v :: 64 word;
        high = ucast (drop_bit 64 v) :: 64 word;
        low_count = count_ones low
      in if low_count < n then 64 + unat (nth_set_bit_u64 high (of_nat (n - low_count)))
        else unat (nth_set_bit_u64 low (of_nat n)))"

section \<open>Fields of a word\<close>

definition cnt :: "'a::len word \<Rightarrow> nat \<Rightarrow> nat \<Rightarrow> nat" where
  "cnt v i j = length (filter (bit v) [i..<j])"

definition field :: "nat \<Rightarrow> nat \<Rightarrow> 64 word \<Rightarrow> nat" where
  "field h k x = unat x div 2 ^ (h * k) mod 2 ^ h"

lemma cnt_split: "i \<le> j \<Longrightarrow> j \<le> k \<Longrightarrow> cnt v i k = cnt v i j + cnt v j k"
  using upt_add_eq_append [of i j "k - j"] by (simp add: cnt_def)

lemma cnt_le: "cnt v i j \<le> j - i"
  using length_filter_le [of "bit v" "[i..<j]"] by (simp add: cnt_def)

lemma cnt_Suc: "cnt v i (Suc i) = of_bool (bit v i)"
  by (simp add: cnt_def)

lemma digit_add:
  fixes x y B :: nat
  assumes "\<forall>j \<le> k. x div B ^ j mod B + y div B ^ j mod B < B"
  shows "(x + y) div B ^ k mod B = x div B ^ k mod B + y div B ^ k mod B"
  using assms
proof (induction k arbitrary: x y)
  case 0
  then show ?case using mod_add_eq [of x B y] by (simp add: mod_less)
next
  case (Suc k)
  have "x mod B + y mod B < B" using Suc.prems by (metis div_by_1 le0 power_0)
  then have "(x + y) div B = x div B + y div B"
    using div_add1_eq [of x y B] by simp
  moreover have "\<forall>j \<le> k. x div B div B ^ j mod B + y div B div B ^ j mod B < B"
  proof (intro allI impI)
    fix j assume "j \<le> k"
    then have "Suc j \<le> Suc k" by simp
    from Suc.prems [rule_format, OF this] show "x div B div B ^ j mod B + y div B div B ^ j mod B < B" by (simp add: div_mult2_eq)
  qed
  ultimately show ?case using Suc.IH [of "x div B" "y div B"] by (simp add: div_mult2_eq)
qed

lemma field_add:
  assumes "\<forall>j \<le> k. field h j x + field h j y < 2 ^ h" "h * Suc k \<le> 64"
  shows "field h k (x + y) = field h k x + field h k y"
proof -
  have "(unat x + unat y) mod 2 ^ 64 div 2 ^ (h * k) mod 2 ^ h = (unat x + unat y) div 2 ^ (h * k) mod 2 ^ h"
  proof -
    have e: "(64 :: nat) = h * k + (64 - h * k)" "h \<le> 64 - h * k" using assms(2) by (simp_all add: algebra_simps)
    have "(2 :: nat) ^ 64 = 2 ^ (h * k) * 2 ^ (64 - h * k)" using e(1) by (metis power_add)
    moreover have "m mod (2 ^ (h * k) * 2 ^ (64 - h * k)) div 2 ^ (h * k) = m div 2 ^ (h * k) mod 2 ^ (64 - h * k)" for m :: nat
      by (simp add: mod_mult2_eq)
    ultimately show ?thesis
      using e(2) by (simp add: mod_mod_cancel le_imp_power_dvd)
  qed
  also have "\<dots> = field h k x + field h k y"
    using digit_add [of k "unat x" "2 ^ h" "unat y"] assms(1) by (simp add: field_def power_mult)
  finally show ?thesis by (simp add: field_def unat_word_ariths(1))
qed

lemma field_word: "field h k x = unat (take_bit h (drop_bit (h * k) x))"
  by (simp only: field_def unsigned_take_bit_eq unat_drop_bit_eq) (simp only: take_bit_eq_mod drop_bit_eq_div)

lemma field_drop: "field h k (drop_bit h x) = field h (Suc k) x"
proof -
  have "unat (drop_bit h x) = unat x div 2 ^ h" by (simp only: unat_drop_bit_eq) (simp only: drop_bit_eq_div)
  then show ?thesis by (simp add: field_def power_add div_mult2_eq)
qed

lemma field_beyond: "64 \<le> h * k \<Longrightarrow> field h k x = 0"
proof -
  assume "64 \<le> h * k"
  then have "(2 :: nat) ^ 64 \<le> 2 ^ (h * k)" by (rule power_increasing) simp
  moreover have "unat x < 2 ^ 64" using unsigned_less [of x, where ?'a = nat] by simp
  ultimately show ?thesis by (simp add: field_def)
qed

lemma field_mask:
  assumes "\<forall>i < 64. bit m i \<longleftrightarrow> i mod (2 * h) < h" "2 * h * Suc k \<le> 64"
  shows "field (2 * h) k (x AND m) = field h (2 * k) x"
proof -
  have "take_bit (2 * h) (drop_bit (2 * h * k) (x AND m)) = take_bit h (drop_bit (h * (2 * k)) x)"
  proof (rule bit_eqI)
    fix n
    have "bit m (2 * h * k + n) \<longleftrightarrow> n < h" if "n < 2 * h"
    proof -
      have "2 * h * k + n < 2 * h * Suc k" using that by simp
      then have "2 * h * k + n < 64" using assms(2) by linarith
      then show ?thesis using assms(1) that by simp
    qed
    moreover have "h * (2 * k) = 2 * h * k" by simp
    ultimately show "bit (take_bit (2 * h) (drop_bit (2 * h * k) (x AND m))) n \<longleftrightarrow> bit (take_bit h (drop_bit (h * (2 * k)) x)) n"
      by (simp only: bit_take_bit_iff bit_drop_bit_eq bit_and_iff o_apply) auto
  qed
  then show ?thesis by (simp only: field_word)
qed

lemma field_1: "field 1 k x = of_bool (bit x k)"
proof -
  have "bit x k \<longleftrightarrow> bit (unat x) k" using bit_imp_le_length [of x k] by (auto simp: bit_unsigned_iff)
  then show ?thesis by (simp add: field_def bit_iff_odd odd_iff_mod_2_eq_one)
qed

lemma masks:
  "\<forall>i < 64. bit (u64_MAX div 3) i \<longleftrightarrow> i mod (2 * 1) < 1"
  "\<forall>i < 64. bit (u64_MAX div 5) i \<longleftrightarrow> i mod (2 * 2) < 2"
  "\<forall>i < 64. bit (u64_MAX div 0x11) i \<longleftrightarrow> i mod (2 * 4) < 4"
  "\<forall>i < 64. bit (u64_MAX div 0x101) i \<longleftrightarrow> i mod (2 * 8) < 8"
proof -
  have all: "(\<forall>i < 64. P i) \<longleftrightarrow> list_all P [0..<64]" for P :: "nat \<Rightarrow> bool" by (auto simp: list_all_iff)
  show "\<forall>i < 64. bit (u64_MAX div 3) i \<longleftrightarrow> i mod (2 * 1) < 1" unfolding all u64_MAX_def by code_simp
  show "\<forall>i < 64. bit (u64_MAX div 5) i \<longleftrightarrow> i mod (2 * 2) < 2" unfolding all u64_MAX_def by code_simp
  show "\<forall>i < 64. bit (u64_MAX div 0x11) i \<longleftrightarrow> i mod (2 * 4) < 4" unfolding all u64_MAX_def by code_simp
  show "\<forall>i < 64. bit (u64_MAX div 0x101) i \<longleftrightarrow> i mod (2 * 8) < 8" unfolding all u64_MAX_def by code_simp
qed

section \<open>The parallel counts\<close>

lemma halves_sum: "v = (v AND (u64_MAX div 3)) + 2 * (drop_bit 1 v AND (u64_MAX div 3))"
proof -
  let ?m = "u64_MAX div 3"
  let ?y = "push_bit 1 (drop_bit 1 v AND ?m)"
  have odd: "bit ?m i \<longleftrightarrow> even i" if "i < 64" for i using masks(1) that by (simp add: even_iff_mod_2_eq_zero)
  have y: "bit ?y i \<longleftrightarrow> odd i \<and> bit v i" for i
  proof -
    have "bit ?y i \<longleftrightarrow> 1 \<le> i \<and> i < 64 \<and> bit v (1 + (i - 1)) \<and> bit ?m (i - 1)"
      by (simp only: bit_push_bit_iff bit_and_iff bit_drop_bit_eq o_apply) (simp add: bit_simps)
    with bit_imp_le_length [of v i] odd [of "i - 1"] show ?thesis by (cases i) auto
  qed
  have vm: "bit (v AND ?m) i \<longleftrightarrow> even i \<and> bit v i" for i
    using bit_imp_le_length [of v i] odd [of i] by (auto simp: bit_and_iff)
  have "(v AND ?m) AND ?y = 0"
    by (rule bit_eqI) (simp only: bit_and_iff y vm [unfolded bit_and_iff] bit_0_eq bot_apply bot_bool_def, auto)
  then have "(v AND ?m) + ?y = (v AND ?m) OR ?y" by (rule disjunctive_add_eq_or)
  also have "\<dots> = v" by (rule bit_eqI) (simp only: bit_or_iff y vm, auto)
  finally show ?thesis by (simp add: push_bit_eq_mult mult.commute)
qed

lemma counts_2:
  assumes "k < 32" shows "field 2 k (v - (drop_bit 1 v AND (u64_MAX div 3))) = cnt v (2 * k) (2 * k + 2)"
proof -
  let ?m = "u64_MAX div 3"
  have eq: "v - (drop_bit 1 v AND ?m) = (v AND ?m) + (drop_bit 1 v AND ?m)"
    using halves_sum [of v] by (metis (no_types) add_diff_cancel_right' add.assoc mult_2)
  have f: "field 2 j (v AND ?m) = of_bool (bit v (2 * j))" "field 2 j (drop_bit 1 v AND ?m) = of_bool (bit v (2 * j + 1))"
    if "j < 32" for j
    using field_mask [OF masks(1), of j v] field_mask [OF masks(1), of j "drop_bit 1 v"] field_1 [of "2 * j" v] field_1 [of "2 * j" "drop_bit 1 v"] that
    by (simp_all add: bit_drop_bit_eq)
  have "field 2 k ((v AND ?m) + (drop_bit 1 v AND ?m)) = field 2 k (v AND ?m) + field 2 k (drop_bit 1 v AND ?m)"
    using assms f by (intro field_add) auto
  moreover have "cnt v (2 * k) (2 * k + 2) = of_bool (bit v (2 * k)) + of_bool (bit v (2 * k + 1))"
    using cnt_split [of "2 * k" "2 * k + 1" "2 * k + 2" v] cnt_Suc [of v "2 * k"] cnt_Suc [of v "2 * k + 1"] by simp
  ultimately show ?thesis unfolding eq using f [OF assms] by (simp only:)
qed

definition counts :: "nat \<Rightarrow> 64 word \<Rightarrow> 64 word \<Rightarrow> bool" where
  "counts h x v \<longleftrightarrow> (\<forall>k. h * Suc k \<le> 64 \<longrightarrow> field h k x = cnt v (h * k) (h * Suc k))"

text \<open>From counts of fields of \<open>h\<close> bits to counts of fields of \<open>2h\<close> bits, masking before or
  after the addition.\<close>

lemma counts_double:
  assumes x: "counts h x v" and n: "2 * h * n = 64" and m: "\<forall>i < 64. bit m i \<longleftrightarrow> i mod (2 * h) < h"
  shows "counts (2 * h) ((x AND m) + (drop_bit h x AND m)) v"
    "2 * h < 2 ^ h \<Longrightarrow> counts (2 * h) ((x + drop_bit h x) AND m) v"
proof -
  have xk: "field h k x = cnt v (h * k) (h * Suc k)" if "h * Suc k \<le> 64" for k using x that by (simp add: counts_def)
  have bound: "field h j x \<le> h" for j
  proof (cases "h * Suc j \<le> 64")
    case True
    with xk [OF True] cnt_le [of v "h * j" "h * Suc j"] show ?thesis by simp
  next
    case False
    have "h dvd 64" by (rule dvdI [of _ _ "2 * n"]) (use n in \<open>simp add: algebra_simps\<close>)
    then obtain q where q: "64 = h * q" ..
    with False have "h * q < h * Suc j" by linarith
    then have "q < Suc j" by (rule mult_less_cancel1 [THEN iffD1, THEN conjunct2])
    then have "q \<le> j" by simp
    then have "64 \<le> h * j" using q mult_le_mono2 [of q j h] by linarith
    then show ?thesis by (simp add: field_beyond)
  qed
  have f: "field (2 * h) j (x AND m) = field h (2 * j) x" "field (2 * h) j (drop_bit h x AND m) = field h (2 * j + 1) x"
    if "2 * h * Suc j \<le> 64" for j
    using field_mask [OF m that] by (simp_all add: field_drop)
  have pair: "cnt v (2 * h * j) (2 * h * Suc j) = field h (2 * j) x + field h (2 * j + 1) x" if "2 * h * Suc j \<le> 64" for j
    using that xk [of "2 * j"] xk [of "2 * j + 1"] cnt_split [of "2 * h * j" "h * Suc (2 * j)" "2 * h * Suc j" v] by (simp add: algebra_simps)
  have step: "2 * h * Suc j \<le> 64" if "j \<le> k" "2 * h * Suc k \<le> 64" for j k
    using that mult_le_mono2 [of "Suc j" "Suc k" "2 * h"] by linarith
  show "counts (2 * h) ((x AND m) + (drop_bit h x AND m)) v"
    unfolding counts_def
  proof (intro allI impI)
    fix k assume k: "2 * h * Suc k \<le> 64"
    have "field (2 * h) k ((x AND m) + (drop_bit h x AND m)) = field (2 * h) k (x AND m) + field (2 * h) k (drop_bit h x AND m)"
    proof (rule field_add [OF _ k], intro allI impI)
      fix j assume "j \<le> k"
      show "field (2 * h) j (x AND m) + field (2 * h) j (drop_bit h x AND m) < 2 ^ (2 * h)"
        unfolding f [OF step [OF \<open>j \<le> k\<close> k]] using bound [of "2 * j"] bound [of "2 * j + 1"] less_exp [of "2 * h"] by linarith
    qed
    then show "field (2 * h) k ((x AND m) + (drop_bit h x AND m)) = cnt v (2 * h * k) (2 * h * Suc k)"
      unfolding f [OF k] pair [OF k] .
  qed
  assume h: "2 * h < 2 ^ h"
  show "counts (2 * h) ((x + drop_bit h x) AND m) v"
    unfolding counts_def
  proof (intro allI impI)
    fix k assume k: "2 * h * Suc k \<le> 64"
    have "field h (2 * k) (x + drop_bit h x) = field h (2 * k) x + field h (2 * k) (drop_bit h x)"
    proof (rule field_add, intro allI impI)
      fix j
      show "field h j x + field h j (drop_bit h x) < 2 ^ h"
        using bound [of j] bound [of "Suc j"] h unfolding field_drop by linarith
      show "h * Suc (2 * k) \<le> 64" using k by (simp add: algebra_simps)
    qed
    with field_mask [OF m k, of "x + drop_bit h x"] pair [OF k]
    show "field (2 * h) k ((x + drop_bit h x) AND m) = cnt v (2 * h * k) (2 * h * Suc k)" by (simp add: field_drop)
  qed
qed

section \<open>The selection steps\<close>

text \<open>The borrow of the subtraction shows in bit 8 and above, whatever lies above bit 16 in the
  first count.\<close>

lemma bit_small: "x < 2 ^ m \<Longrightarrow> m \<le> i \<Longrightarrow> \<not> bit (x :: nat) i"
proof -
  assume "x < 2 ^ m" "m \<le> i"
  then have "x < 2 ^ i" using power_increasing [of m i "2 :: nat"] by linarith
  then show ?thesis by (simp add: bit_iff_odd)
qed

lemma bit_byte: "x < 256 \<Longrightarrow> bit (x :: nat) j \<Longrightarrow> j < 8"
  using bit_small [of x 8 j] by (cases "8 \<le> j") auto

lemma bit_bytes:
  fixes a b c :: nat
  assumes "a < 256" "b < 256"
  shows "bit (a + 256 * b + 65536 * c) i \<longleftrightarrow> i < 8 \<and> bit a i \<or> 8 \<le> i \<and> i < 16 \<and> bit b (i - 8) \<or> 16 \<le> i \<and> bit c (i - 16)"
proof -
  have a: "\<not> bit a j" if "8 \<le> j" for j using bit_small [of a 8 j] assms(1) that by simp
  have b: "\<not> bit b j" if "8 \<le> j" for j using bit_small [of b 8 j] assms(2) that by simp
  have "a AND push_bit 8 b = 0" by (rule bit_eqI) (use a in \<open>auto simp: bit_and_iff bit_push_bit_iff\<close>)
  from disjunctive_add_eq_or [OF this] have ab: "a + 256 * b = a OR push_bit 8 b" by (simp add: push_bit_eq_mult mult.commute)
  have "(a OR push_bit 8 b) AND push_bit 16 c = 0"
    by (rule bit_eqI) (use a b in \<open>auto simp: bit_and_iff bit_or_iff bit_push_bit_iff\<close>)
  from disjunctive_add_eq_or [OF this] have "a + 256 * b + 65536 * c = (a OR push_bit 8 b) OR push_bit 16 c"
    unfolding ab [symmetric] by (simp add: push_bit_eq_mult mult.commute)
  then have "bit (a + 256 * b + 65536 * c) i \<longleftrightarrow> bit a i \<or> 8 \<le> i \<and> bit b (i - 8) \<or> 16 \<le> i \<and> bit c (i - 16)"
    by (simp add: bit_or_iff bit_push_bit_iff)
  moreover have "bit a i \<Longrightarrow> i < 8" "bit b (i - 8) \<Longrightarrow> i - 8 < 8" using a b by (meson not_less)+
  ultimately show ?thesis by auto
qed

lemma bit_unat: "bit (w :: 64 word) i \<longleftrightarrow> bit (unat w) i"
  using bit_imp_le_length [of w i] by (auto simp: bit_unsigned_iff)

lemma unat_sub_borrow:
  fixes t n :: "64 word"
  assumes t: "unat t = lo + 65536 * hi" and b: "lo < 256" "hi < 256" "unat n \<le> 256"
  shows "unat (t - n) = (if unat n \<le> lo then (lo - unat n) + 256 * 0 + 65536 * hi
    else (256 - (unat n - lo)) + 256 * 255 + 65536 * (if hi = 0 then 2 ^ 48 - 1 else hi - 1))"
proof (cases "unat n \<le> lo")
  case True
  then have "n \<le> t" using t by (simp add: word_le_nat_alt)
  then show ?thesis using True t by (simp add: unat_sub)
next
  case False
  show ?thesis
  proof (cases "hi = 0")
    case True
    with False t have "t < n" by (simp add: word_less_nat_alt)
    then have "unat (t - n) = 2 ^ 64 + unat t - unat n" by (simp add: unat_sub_if_size word_size word_le_nat_alt word_less_nat_alt)
    with True False t b(3) show ?thesis by simp
  next
    case hi: False
    then have "n \<le> t" using t b(3) by (simp add: word_le_nat_alt)
    then have "unat (t - n) = lo + 65536 * hi - unat n" using t by (simp add: unat_sub)
    with hi False b(3) show ?thesis by simp
  qed
qed

lemma borrow_bits:
  fixes t n :: "64 word"
  assumes t: "unat t = lo + 65536 * hi" and b: "lo < 256" "hi < 256" "unat n \<le> 256"
  shows "bit (t - n) 8 \<longleftrightarrow> lo < unat n" "t AND drop_bit 8 (t - n) = (if lo < unat n then of_nat lo else 0)"
proof -
  have bt: "bit t i \<longleftrightarrow> i < 8 \<and> bit lo i \<or> 16 \<le> i \<and> bit hi (i - 16)" for i
    using bit_bytes [of lo 0 hi i] b(1) t by (simp add: bit_unat)
  have hi: "bit hi j \<Longrightarrow> j < 8" "bit (hi - 1) j \<Longrightarrow> j < 8" for j
    by (rule bit_byte [of hi], rule b(2), assumption) (rule bit_byte [of "hi - 1"], use b(2) in simp, assumption)
  have "bit (t - n) 8 = (lo < unat n) \<and> (bit (t AND drop_bit 8 (t - n)) i \<longleftrightarrow> lo < unat n \<and> bit lo i)" for i
  proof (cases "unat n \<le> lo")
    case True
    then have u: "bit (t - n) j \<longleftrightarrow> j < 8 \<and> bit (lo - unat n) j \<or> 16 \<le> j \<and> bit hi (j - 16)" for j
      using bit_bytes [of "lo - unat n" 0 hi j] b(1) unat_sub_borrow [OF assms] by (simp add: bit_unat)
    show ?thesis using True hi [of "i - 8"] by (auto simp: bit_and_iff bit_drop_bit_eq u bt)
  next
    case False
    let ?c = "if hi = 0 then 2 ^ 48 - 1 else hi - 1"
    have "bit (255 :: nat) j" if "j < 8" for j
    proof -
      have "(255 :: nat) = mask 8" by (simp add: mask_eq_exp_minus_1)
      then show ?thesis using that by (simp only: bit_mask_iff) simp
    qed
    then have u: "bit (t - n) j \<longleftrightarrow> j < 8 \<and> bit (256 - (unat n - lo)) j \<or> 8 \<le> j \<and> j < 16 \<or> 16 \<le> j \<and> bit ?c (j - 16)" for j
      using bit_bytes [of "256 - (unat n - lo)" 255 ?c j] False unat_sub_borrow [OF assms] by (auto simp: bit_unat)
    have lo: "bit lo j \<Longrightarrow> j < 8" for j by (rule bit_byte [OF b(1)])
    have "bit (t AND drop_bit 8 (t - n)) i \<longleftrightarrow> bit t i \<and> bit (t - n) (8 + i)" by (simp add: bit_and_iff bit_drop_bit_eq)
    moreover have "bit (t - n) (8 + i)" if "i < 8" using that u [of "8 + i"] by simp
    moreover have "\<not> bit (t - n) (8 + i)" if "16 \<le> i" "bit hi (i - 16)"
    proof -
      have "hi \<noteq> 0" using that(2) by (metis bit_0_eq bot_apply bot_bool_def)
      then show ?thesis using that(1) u [of "8 + i"] hi(2) [of "8 + i - 16"] by auto
    qed
    ultimately have "bit (t AND drop_bit 8 (t - n)) i \<longleftrightarrow> bit lo i" using lo [of i] unfolding bt by blast
    with False u [of 8] show ?thesis by auto
  qed
  then have main: "bit (t - n) 8 = (lo < unat n)" "\<And>i. bit (t AND drop_bit 8 (t - n)) i \<longleftrightarrow> lo < unat n \<and> bit lo i" by blast+
  then show "bit (t - n) 8 \<longleftrightarrow> lo < unat n" by simp
  show "t AND drop_bit 8 (t - n) = (if lo < unat n then of_nat lo else 0)"
  proof (rule bit_eqI)
    fix i
    have "bit lo i \<Longrightarrow> i < 64" using bit_small [of lo 8 i] b(1) by (cases "8 \<le> i") auto
    then show "bit (t AND drop_bit 8 (t - n)) i \<longleftrightarrow> bit (if lo < unat n then of_nat lo else 0 :: 64 word) i"
      unfolding main(2) by (auto simp: bit_of_nat_iff)
  qed
qed

text \<open>A step keeps the sought bit in the window and halves it: the window of width \<open>2h\<close> below \<open>s\<close>
  holds at least \<open>n\<close> set bits, \<open>t\<close> counts those of its upper half.\<close>

definition window :: "64 word \<Rightarrow> nat \<Rightarrow> nat \<Rightarrow> nat \<Rightarrow> nat \<Rightarrow> bool" where
  "window v w N s n \<longleftrightarrow> w dvd s \<and> w \<le> s \<and> s \<le> 64 \<and> 0 < n \<and> n \<le> cnt v (s - w) s \<and> cnt v s 64 + n = N"

lemma drop_256: "k \<le> 8 \<Longrightarrow> drop_bit k (x AND 256) = (if bit (x :: 64 word) 8 then of_nat (2 ^ (8 - k)) else 0)"
proof -
  assume k: "k \<le> 8"
  have "x AND 256 = (if bit x 8 then push_bit 8 1 else 0)"
  proof (rule bit_eqI)
    fix i
    have "(256 :: 64 word) = push_bit 8 1" by (simp add: push_bit_eq_mult)
    then have "bit (256 :: 64 word) i \<longleftrightarrow> i = 8" by (simp only: bit_push_bit_iff bit_1_iff) auto
    moreover have "bit (push_bit 8 1 :: 64 word) i \<longleftrightarrow> i = 8" by (simp only: bit_push_bit_iff bit_1_iff) auto
    ultimately show "bit (x AND 256) i \<longleftrightarrow> bit (if bit x 8 then push_bit 8 1 else 0 :: 64 word) i"
      by (cases "bit x 8"; cases "i = 8") (simp_all only: bit_and_iff if_True if_False bit_0_eq bot_apply bot_bool_def simp_thms)
  qed
  moreover have "drop_bit k (push_bit 8 1 :: 64 word) = of_nat (2 ^ (8 - k))"
  proof -
    have "k = 0 \<or> k = 1 \<or> k = 2 \<or> k = 3 \<or> k = 4 \<or> k = 5 \<or> k = 6 \<or> k = 7 \<or> k = 8" using k by linarith
    then show ?thesis by (elim disjE) (simp_all add: drop_bit_eq_div push_bit_eq_mult)
  qed
  ultimately show ?thesis by (simp only: split: if_split) simp
qed

lemma window_half:
  assumes "window v (2 * h) N s n" "t = cnt v (s - h) s"
  shows "window v h N (if t < n then s - h else s) (if t < n then n - t else n)"
proof -
  have w: "2 * h dvd s" "2 * h \<le> s" "s \<le> 64" "0 < n" "n \<le> cnt v (s - 2 * h) s" "cnt v s 64 + n = N"
    using assms(1) by (simp_all add: window_def)
  have "cnt v (s - 2 * h) s = cnt v (s - 2 * h) (s - h) + t" using assms(2) cnt_split [of "s - 2 * h" "s - h" s v] by simp
  moreover have "cnt v (s - h) 64 = t + cnt v s 64" using assms(2) cnt_split [of "s - h" s 64 v] w(3) by simp
  moreover have "h dvd s" using w(1) by (rule dvd_mult_right)
  moreover have "s - h - h = s - 2 * h" by simp
  moreover have "h \<le> s - h" "s - h \<le> 64" using w(2,3) by linarith+
  moreover have "n - t \<le> cnt v (s - 2 * h) (s - h)" using w(5) calculation(1) by linarith
  ultimately show ?thesis using w assms(2) by (auto simp: window_def)
qed

lemma select_step_ok:
  assumes win: "window v (2 * h) N (unat s) (unat n)" and h: "h = 2 ^ (8 - k)" "k \<le> 8"
    and t: "unat t = cnt v (unat s - h) (unat s) + 65536 * hi" "hi < 256" and p: "select_step k t (s, n) = (s', n')"
  shows "window v h N (unat s') (unat n')"
proof -
  let ?lo = "cnt v (unat s - h) (unat s)"
  have w: "2 * h \<le> unat s" "unat s \<le> 64" "unat n \<le> cnt v (unat s - 2 * h) (unat s)" using win by (simp_all add: window_def)
  have lo: "?lo < 256" "unat n \<le> 256" using cnt_le [of v "unat s - h" "unat s"] cnt_le [of v "unat s - 2 * h" "unat s"] w by linarith+
  note b = borrow_bits [OF t(1) lo(1) t(2) lo(2)]
  have s': "s' = (if ?lo < unat n then s - of_nat h else s)" "n' = (if ?lo < unat n then n - of_nat ?lo else n)"
    using p drop_256 [OF h(2), of "t - n"] b h(1) by (auto simp: select_step_def split: if_splits)
  have un: "unat (of_nat m :: 64 word) = m" if "m \<le> 256" for m using that by (simp add: unat_of_nat)
  have uh: "unat (of_nat h :: 64 word) = h" "unat (of_nat ?lo :: 64 word) = ?lo" using un [of h] un [of ?lo] lo w by auto
  have "unat (s - of_nat h) = unat s - h" using w(1) by (subst unat_sub) (simp_all add: word_le_nat_alt uh)
  moreover have "unat (n - of_nat ?lo) = unat n - ?lo" if "?lo < unat n"
    using that by (subst unat_sub) (simp_all add: word_le_nat_alt uh(2))
  ultimately have "unat s' = (if ?lo < unat n then unat s - h else unat s)" "unat n' = (if ?lo < unat n then unat n - ?lo else unat n)"
    using s' by simp_all
  with window_half [OF win refl] show ?thesis by simp
qed

section \<open>Correctness\<close>

lemma bit_reverse: "i < 64 \<Longrightarrow> bit (reverse_bits v) i \<longleftrightarrow> bit v (63 - i)"
  by (simp add: reverse_bits_def bit_horner_sum_bit_word_iff rev_nth)

lemma cnt_reverse: "d \<le> 64 \<Longrightarrow> cnt (reverse_bits v) (64 - d) 64 = cnt v 0 d"
proof (induction d)
  case (Suc d)
  have "cnt (reverse_bits v) (64 - Suc d) 64 = of_bool (bit (reverse_bits v) (63 - d)) + cnt (reverse_bits v) (64 - d) 64"
    using cnt_split [of "63 - d" "Suc (63 - d)" 64 "reverse_bits v"] cnt_Suc [of "reverse_bits v" "63 - d"] Suc.prems
    by (simp flip: Suc_diff_le)
  moreover have "bit (reverse_bits v) (63 - d) \<longleftrightarrow> bit v d" using bit_reverse [of "63 - d" v] Suc.prems by simp
  moreover have "cnt v 0 (Suc d) = cnt v 0 d + of_bool (bit v d)" using cnt_split [of 0 d "Suc d" v] cnt_Suc [of v d] by simp
  ultimately show ?case using Suc by simp
qed (simp add: cnt_def)

text \<open>Reading the count of the upper half of a window off its field.\<close>

lemma field_read:
  assumes "field h k x = cnt v (h * k) (h * Suc k)" "h < 2 ^ m" "m \<le> h"
  shows "unat (drop_bit (h * k) x AND mask m) = cnt v (h * k) (h * Suc k)"
proof -
  have "unat (drop_bit (h * k) x AND mask m) = unat x div 2 ^ (h * k) mod 2 ^ m"
    by (simp only: take_bit_eq_mask [symmetric] unsigned_take_bit_eq unat_drop_bit_eq) (simp only: take_bit_eq_mod drop_bit_eq_div)
  also have "\<dots> = field h k x mod 2 ^ m"
    using assms(3) by (simp add: field_def mod_mod_cancel le_imp_power_dvd)
  also have "\<dots> = field h k x" using assms(1,2) cnt_le [of v "h * k" "h * Suc k"] by (intro mod_less) simp
  finally show ?thesis using assms(1) by simp
qed

lemma select_read:
  fixes s :: "64 word"
  assumes f: "counts h x v" and h: "h < 2 ^ m" "m \<le> h" and w: "window v (2 * h) N (unat s) n" "0 < h" "h \<le> 256"
  shows "unat (drop_bit (unat (s - of_nat h)) x AND mask m) = cnt v (unat s - h) (unat s)"
proof -
  have s: "2 * h dvd unat s" "2 * h \<le> unat s" "unat s \<le> 64" using w(1) by (simp_all add: window_def)
  have "h dvd unat s" using s(1) by (rule dvd_mult_right)
  then obtain q where q: "unat s = h * q" ..
  with s(2) w(2) obtain k where k: "unat s = h * Suc k" by (cases q) auto
  have "unat (of_nat h :: 64 word) = h" using w(3) by (simp add: unat_of_nat)
  then have "unat (s - of_nat h) = h * k" using s(2) k by (subst unat_sub) (simp_all add: word_le_nat_alt)
  moreover have "field h k x = cnt v (h * k) (h * Suc k)" using f s(3) k by (simp add: counts_def)
  ultimately show ?thesis using field_read [OF _ h] k by simp
qed

text \<open>The four count words.\<close>

lemma count_words:
  fixes v :: "64 word"
  defines "a \<equiv> v - (drop_bit 1 v AND (u64_MAX div 3))"
  defines "b \<equiv> (a AND (u64_MAX div 5)) + (drop_bit 2 a AND (u64_MAX div 5))"
  defines "c \<equiv> (b + drop_bit 4 b) AND (u64_MAX div 0x11)"
  defines "d \<equiv> (c + drop_bit 8 c) AND (u64_MAX div 0x101)"
  shows "counts 1 v v" "counts 2 a v" "counts 4 b v" "counts 8 c v" "counts 16 d v"
proof -
  show "counts 1 v v" unfolding counts_def by (intro allI impI) (simp add: field_1 [unfolded One_nat_def] cnt_Suc)
  show a: "counts 2 a v" unfolding counts_def a_def by (intro allI impI) (use counts_2 in simp)
  show b: "counts 4 b v" using counts_double(1) [OF a, of 16] masks(2) by (simp add: b_def)
  show c: "counts 8 c v" using counts_double(2) [OF b, of 8] masks(3) by (simp add: c_def)
  show "counts 16 d v" using counts_double(2) [OF c, of 4] masks(4) by (simp add: d_def)
qed

lemma masks_small:
  "(0xff :: 64 word) = mask 8" "(0xf :: 64 word) = mask 4" "(0x7 :: 64 word) = mask 3" "(0x3 :: 64 word) = mask 2"
  by (simp_all add: mask_eq_exp_minus_1)

text \<open>The first count is read off two fields at once; the upper field shows again above it.\<close>

lemma first_count:
  assumes "counts 16 d v"
  shows "unat (drop_bit 32 d + drop_bit 48 d) = cnt v 32 64 + 65536 * field 16 3 d" "field 16 3 d \<le> 16"
proof -
  have f: "field 16 2 d = cnt v 32 48" "field 16 3 d = cnt v 48 64"
    using assms [unfolded counts_def, rule_format, of 2] assms [unfolded counts_def, rule_format, of 3] by simp_all
  show le: "field 16 3 d \<le> 16" using f(2) cnt_le [of v 48 64] by simp
  have u: "unat d < 2 ^ 64" using unsigned_less [of d, where ?'a = nat] by simp
  have "unat (drop_bit 48 d) = field 16 3 d"
    using u by (simp only: unat_drop_bit_eq field_def) (simp add: drop_bit_eq_div less_mult_imp_div_less)
  moreover have "unat (drop_bit 32 d) = field 16 2 d + 65536 * field 16 3 d"
  proof -
    have "unat d div 2 ^ 32 = unat d div 2 ^ 32 mod 2 ^ 16 + 2 ^ 16 * (unat d div 2 ^ 32 div 2 ^ 16)"
      using div_mult_mod_eq [of "unat d div 2 ^ 32" "2 ^ 16"] by (simp add: algebra_simps)
    moreover have "unat d div 2 ^ 32 div 2 ^ 16 = unat d div 2 ^ 48 mod 2 ^ 16"
      using u by (simp add: less_mult_imp_div_less flip: div_mult2_eq)
    ultimately have "unat d div 2 ^ 32 = unat d div 2 ^ 32 mod 2 ^ 16 + 2 ^ 16 * (unat d div 2 ^ 48 mod 2 ^ 16)" by (simp only:)
    moreover have "(16 :: nat) * 2 = 32" "(16 :: nat) * 3 = 48" "(65536 :: nat) = 2 ^ 16" by simp_all
    ultimately show ?thesis by (simp only: unat_drop_bit_eq field_def) (simp only: drop_bit_eq_div)
  qed
  moreover have "cnt v 32 64 = cnt v 32 48 + cnt v 48 64" using cnt_split [of 32 48 64 v] by simp
  moreover have "field 16 2 d \<le> 16" using f(1) cnt_le [of v 32 48] by simp
  ultimately show "unat (drop_bit 32 d + drop_bit 48 d) = cnt v 32 64 + 65536 * field 16 3 d"
    using f le by (simp add: unat_word_ariths)
qed

lemma nth_set_bit_u64_window:
  assumes "0 < N" "N \<le> cnt (reverse_bits v) 0 64"
  obtains s where "window (reverse_bits v) 1 N s 1" "nth_set_bit_u64 v (of_nat N) = of_nat (64 - s)"
proof -
  define r where "r = reverse_bits v"
  define a where "a = r - (drop_bit 1 r AND (u64_MAX div 3))"
  define b where "b = (a AND (u64_MAX div 5)) + (drop_bit 2 a AND (u64_MAX div 5))"
  define c where "c = (b + drop_bit 4 b) AND (u64_MAX div 0x11)"
  define d where "d = (c + drop_bit 8 c) AND (u64_MAX div 0x101)"
  note w = count_words [of r, folded a_def, folded b_def, folded c_def, folded d_def]
  have N: "N \<le> 64" using assms(2) cnt_le [of "reverse_bits v" 0 64] by simp
  then have uN: "unat (of_nat N :: 64 word) = N" by (simp add: unat_of_nat)
  obtain s1 n1 where p1: "select_step 3 (drop_bit 32 d + drop_bit 48 d) (64, of_nat N) = (s1, n1)" by fastforce
  obtain s2 n2 where p2: "select_step 4 (drop_bit (unat (s1 - 16)) d AND 0xff) (s1, n1) = (s2, n2)" by fastforce
  obtain s3 n3 where p3: "select_step 5 (drop_bit (unat (s2 - 8)) c AND 0xf) (s2, n2) = (s3, n3)" by fastforce
  obtain s4 n4 where p4: "select_step 6 (drop_bit (unat (s3 - 4)) b AND 0x7) (s3, n3) = (s4, n4)" by fastforce
  obtain s5 n5 where p5: "select_step 7 (drop_bit (unat (s4 - 2)) a AND 0x3) (s4, n4) = (s5, n5)" by fastforce
  define t where "t = drop_bit (unat (s5 - 1)) r AND 0x1"
  obtain s6 n6 where p6: "select_step 8 t (s5, n5) = (s6, n6)" by fastforce
  have w0: "window r (2 * 32) N (unat (64 :: 64 word)) (unat (of_nat N :: 64 word))"
    using assms by (simp add: window_def uN cnt_def flip: r_def)
  have w1: "window r 32 N (unat s1) (unat n1)"
    by (rule select_step_ok [OF w0 _ _ _ _ p1, where hi = "field 16 3 d"]) (use first_count [OF w(5)] in auto)
  have read: "unat (drop_bit (unat (s - of_nat h)) x AND mask m) = cnt r (unat s - h) (unat s) + 65536 * 0"
    if "counts h x r" "h < 2 ^ m" "m \<le> h" "window r (2 * h) N (unat s) n" "0 < h" "h \<le> 256" for s :: "64 word" and h x m n
    using select_read [OF that] by simp
  have w2: "window r 16 N (unat s2) (unat n2)"
    using read [OF w(5), of 8 s1 "unat n1"] w1 by (intro select_step_ok [OF _ _ _ _ _ p2, where hi = 0]) (simp_all add: masks_small(1))
  have w3: "window r 8 N (unat s3) (unat n3)"
    using read [OF w(4), of 4 s2 "unat n2"] w2 by (intro select_step_ok [OF _ _ _ _ _ p3, where hi = 0]) (simp_all add: masks_small(2))
  have w4: "window r 4 N (unat s4) (unat n4)"
    using read [OF w(3), of 3 s3 "unat n3"] w3 by (intro select_step_ok [OF _ _ _ _ _ p4, where hi = 0]) (simp_all add: masks_small(3))
  have w5: "window r 2 N (unat s5) (unat n5)"
    using read [OF w(2), of 2 s4 "unat n4"] w4 by (intro select_step_ok [OF _ _ _ _ _ p5, where hi = 0]) (simp_all add: masks_small(4))
  have w6: "window r 1 N (unat s6) (unat n6)"
  proof (rule select_step_ok [OF _ _ _ _ _ p6, where hi = 0])
    have "t = drop_bit (unat (s5 - of_nat 1)) r AND mask 1" by (simp add: t_def)
    then show "unat t = cnt r (unat s5 - 1) (unat s5) + 65536 * 0"
      using read [OF w(1), of 1 s5 "unat n5"] w5 by (simp only: mult_1_right) simp
  qed (use w5 in simp_all)
  have "cnt r (unat s6 - 1) (unat s6) \<le> 1" using cnt_le [of r "unat s6 - 1" "unat s6"] w6 by (simp add: window_def)
  then have n6: "unat n6 = 1" using w6 by (simp add: window_def)
  have "s6 = s5 - drop_bit 8 ((t - n5) AND 256)" using p6 by (simp add: select_step_def)
  then have "nth_set_bit_u64 v (of_nat N) = 65 - s6 - 1"
    unfolding nth_set_bit_u64_def Let_def r_def [symmetric] a_def [symmetric] b_def [symmetric] c_def [symmetric] d_def [symmetric]
      p1 fst_conv p2 p3 p4 p5 snd_conv t_def [symmetric] by (simp only:)
  also have "\<dots> = 64 - of_nat (unat s6)" by simp
  also have "\<dots> = of_nat (64 - unat s6)" using w6 by (simp add: window_def of_nat_diff)
  finally show ?thesis using that [of "unat s6"] w6 n6 by (simp only: r_def)
qed

lemma cnt_count_ones: "cnt (w :: 64 word) 0 64 = count_ones w"
  by (simp add: cnt_def count_ones_def)

text \<open>The selected position holds a set bit with exactly \<open>n - 1\<close> set bits below it.\<close>

lemma nth_set_bit_u64_ok:
  assumes "0 < n" "n \<le> count_ones v"
  shows "bit v (unat (nth_set_bit_u64 v (of_nat n)))" "cnt v 0 (unat (nth_set_bit_u64 v (of_nat n))) = n - 1"
    "unat (nth_set_bit_u64 v (of_nat n)) < 64"
proof -
  have "n \<le> cnt (reverse_bits v) 0 64" using assms(2) cnt_reverse [of 64 v] by (simp add: cnt_count_ones)
  then obtain s where s: "window (reverse_bits v) 1 n s 1" "nth_set_bit_u64 v (of_nat n) = of_nat (64 - s)"
    by (rule nth_set_bit_u64_window [OF assms(1)])
  have w: "1 \<le> s" "s \<le> 64" "1 \<le> cnt (reverse_bits v) (s - 1) s" "cnt (reverse_bits v) s 64 + 1 = n"
    using s(1) by (simp_all add: window_def)
  have p: "unat (nth_set_bit_u64 v (of_nat n)) = 64 - s" using w(1) s(2) by (simp add: unat_of_nat)
  have "bit (reverse_bits v) (s - 1)"
    using w(1,3) cnt_Suc [of "reverse_bits v" "s - 1"] by (cases "bit (reverse_bits v) (s - 1)") auto
  then have "bit v (64 - s)" using bit_reverse [of "s - 1" v] w(1,2) by simp
  moreover have "cnt v 0 (64 - s) = n - 1" using cnt_reverse [of "64 - s" v] w(2,4) by simp
  ultimately show "bit v (unat (nth_set_bit_u64 v (of_nat n)))" "cnt v 0 (unat (nth_set_bit_u64 v (of_nat n))) = n - 1"
    "unat (nth_set_bit_u64 v (of_nat n)) < 64" using w(1) by (simp_all add: p)
qed

lemma nth_set_bit_ok:
  assumes "0 < n" "n \<le> count_ones v"
  shows "bit v (nth_set_bit v n) \<and> cnt v 0 (nth_set_bit v n) = n - 1"
proof -
  define low where "low = (ucast v :: 64 word)"
  define high where "high = (ucast (drop_bit 64 v) :: 64 word)"
  have bl: "bit low i \<longleftrightarrow> bit v i" if "i < 64" for i using that by (simp add: low_def bit_ucast_iff)
  have bh: "bit high i \<longleftrightarrow> bit v (64 + i)" if "i < 64" for i using that by (simp add: high_def bit_ucast_iff bit_drop_bit_eq)
  have cl: "cnt v 0 i = cnt low 0 i" if "i \<le> 64" for i
    unfolding cnt_def using that bl by (intro arg_cong [of _ _ length] filter_cong) auto
  have ch: "cnt v 64 (64 + i) = cnt high 0 i" if "i \<le> 64" for i
    using that
  proof (induction i)
    case (Suc i)
    then show ?case
      using bh [of i] cnt_split [of 64 "64 + i" "64 + Suc i" v] cnt_split [of 0 i "Suc i" high] cnt_Suc [of v "64 + i"] cnt_Suc [of high i] by simp
  qed (simp add: cnt_def)
  have "count_ones v = cnt v 0 128" by (simp add: cnt_def count_ones_def)
  then have sum: "count_ones v = count_ones low + count_ones high"
    using cnt_split [of 0 64 128 v] cl [of 64] ch [of 64] by (simp add: cnt_count_ones)
  show ?thesis
  proof (cases "count_ones low < n")
    case True
    let ?p = "unat (nth_set_bit_u64 high (of_nat (n - count_ones low)))"
    have p: "bit high ?p" "cnt high 0 ?p = n - count_ones low - 1" "?p < 64"
      using nth_set_bit_u64_ok [of "n - count_ones low" high] True assms(2) sum by simp_all
    have "cnt v 0 (64 + ?p) = count_ones low + (n - count_ones low - 1)"
      using cnt_split [of 0 64 "64 + ?p" v] cl [of 64] ch [of ?p] p(2,3) by (simp add: cnt_count_ones)
    then show ?thesis using True p bh [of ?p] by (simp add: nth_set_bit_def Let_def flip: low_def high_def)
  next
    case False
    let ?p = "unat (nth_set_bit_u64 low (of_nat n))"
    have p: "bit low ?p" "cnt low 0 ?p = n - 1" "?p < 64" using nth_set_bit_u64_ok [of n low] False assms(1) by simp_all
    then show ?thesis using False bl [of ?p] cl [of ?p] by (simp add: nth_set_bit_def Let_def flip: low_def)
  qed
qed

text \<open>(C36) The branchless selection on parallel bit counts returns the position of the n-th set
  bit: the bit there is set and exactly \<open>n - 1\<close> set bits are below it, for every 128-bit word
  and every \<open>n\<close> from one to the number of set bits.\<close>

theorem nth_set_bit_correct:
  assumes "0 < n" and "n \<le> count_ones v"
  shows "nth_set_bit v n < 128 \<and> bit v (nth_set_bit v n) \<and> length (filter (bit v) [0..<nth_set_bit v n]) = n - 1"
  using nth_set_bit_ok [OF assms] bit_imp_le_length [of v "nth_set_bit v n"] by (simp add: cnt_def)

theorem nth_set_bit_correct_witness:
  "bit (0x14 :: 128 word) (nth_set_bit 0x14 2) \<and> length (filter (bit (0x14 :: 128 word)) [0..<nth_set_bit 0x14 2]) = 1"
proof -
  have "count_ones (0x14 :: 128 word) = 2" by code_simp
  then show ?thesis using nth_set_bit_correct [of 2 "0x14"] by simp
qed

end
