(* ===== verification/Rope_Chunk_Points.thy ===== *)
theory Rope_Chunk_Points
  imports Rope_Chunk_Ops Rope_Select
begin

unbundle bit_operations_syntax

text \<open>
  From positions back to byte offsets in a chunk (\<open>crates/rope/src/chunk.rs\<close>): rows are found by
  selecting newline bits, UTF-16 offsets by selecting code-unit bits.  A \<open>debug_panic!\<close> logs in
  a release build and execution goes on, which is what is modelled.
\<close>

section \<open>The source\<close>

text \<open>The range of bytes of a row of the chunk.\<close>

definition offset_range_for_row :: "ChunkSlice \<Rightarrow> nat \<Rightarrow> nat \<times> nat" where
  "offset_range_for_row c r =
     (let row_start = (if 0 < r then nth_set_bit (chunk_newlines c) r + 1 else 0);
        row_len = (if row_start = MAX_BASE then 0
          else min (trailing_zeros (drop_bit row_start (chunk_newlines c))) (chunk_len c - row_start))
      in (row_start, row_start + row_len))"

definition chunk_point_to_offset :: "ChunkSlice \<Rightarrow> Point \<Rightarrow> nat" where
  "chunk_point_to_offset c p =
     (if row (chunk_lines c) < row p then chunk_len c
      else let (i, j) = offset_range_for_row c (row p)
        in if j - i < column p then j else i + column p)"

definition chunk_point_to_offset_utf16 :: "ChunkSlice \<Rightarrow> Point \<Rightarrow> OffsetUtf16" where
  "chunk_point_to_offset_utf16 c p =
     (if row (chunk_lines c) < row p then chunk_len_utf16 c
      else chunk_offset_to_offset_utf16 c (chunk_point_to_offset c p))"

definition chunk_offset_utf16_to_offset :: "ChunkSlice \<Rightarrow> OffsetUtf16 \<Rightarrow> nat" where
  "chunk_offset_utf16_to_offset c target =
     (if target = 0 then 0
      else let ix = nth_set_bit (chunk_chars_utf16 c) target + 1
        in if ix = MAX_BASE then MAX_BASE
          else ix + min (trailing_zeros (drop_bit ix (chunk_chars_utf16 c))) (chunk_len c - ix))"

definition chunk_point_to_point_utf16 :: "ChunkSlice \<Rightarrow> Point \<Rightarrow> PointUtf16" where
  "chunk_point_to_point_utf16 c p = chunk_offset_to_point_utf16 c (chunk_point_to_offset c p)"

text \<open>\<open>clip\<close> only decides whether a position outside the chunk is reported.\<close>

definition chunk_point_utf16_to_offset :: "ChunkSlice \<Rightarrow> PointUtf16 \<Rightarrow> nat option" where
  "chunk_point_utf16_to_offset c p =
     (if row (chunk_lines c) < row p then Some (chunk_len c)
      else let (i, j) = offset_range_for_row c (row p) in do {
        line \<leftarrow> chunk_slice c i j;
        Some (if last_line_len_utf16 line < column p then j
          else if 0 < column p then
            let offset = i + chunk_offset_utf16_to_offset line (column p)
            in if is_boundary (chunk_text c) offset then offset else prev_boundary (chunk_text c) (offset - 1)
          else i) })"

definition chunk_unclipped_point_utf16_to_point :: "ChunkSlice \<Rightarrow> PointUtf16 \<Rightarrow> Point option" where
  "chunk_unclipped_point_utf16_to_point c p =
     (if row (chunk_lines c) < row p then Some (chunk_lines c)
      else let (i, j) = offset_range_for_row c (row p) in do {
        line \<leftarrow> chunk_slice c i j;
        Some (if column p = 0 then Point_new (row p) 0
          else if chunk_len_utf16 line \<le> column p then Point_new (row p) (chunk_len line)
          else Point_new (row p) (prev_boundary (chunk_text line) (chunk_offset_utf16_to_offset line (column p)))) })"

definition chunk_clip_offset_utf16 :: "ChunkSlice \<Rightarrow> OffsetUtf16 \<Rightarrow> Bias \<Rightarrow> OffsetUtf16" where
  "chunk_clip_offset_utf16 c target bias =
     (if target = 0 then 0
      else if chunk_len_utf16 c \<le> target then chunk_len_utf16 c
      else let offset = chunk_offset_utf16_to_offset c target
        in chunk_offset_to_offset_utf16 c
          (if bias = Bias.Left then prev_boundary (chunk_text c) offset else next_boundary (chunk_text c) offset))"

definition chunk_clip_point_utf16 :: "ChunkSlice \<Rightarrow> PointUtf16 \<Rightarrow> Bias \<Rightarrow> PointUtf16 option" where
  "chunk_clip_point_utf16 c p bias =
     (if row (chunk_lines c) < row p then Some (Point_new (row (chunk_lines c)) (last_line_len_utf16 c))
      else let (i, j) = offset_range_for_row c (row p) in do {
        line \<leftarrow> chunk_slice c i j;
        Some (Point_new (row p) (chunk_clip_offset_utf16 line (column p) bias)) })"

text \<open>Grapheme clusters are the third-party crate \<open>unicode-segmentation\<close>: \<open>grapheme l i\<close> stands for
  \<open>GraphemeCursor::is_boundary(l, 0).unwrap_or(false)\<close> with the cursor at byte \<open>i\<close>.  The loop that
  looks for a boundary would leave the line on either side only if the ends of the line were no
  boundaries; that is \<open>None\<close>.\<close>

function clip_column :: "(nat \<Rightarrow> bool) \<Rightarrow> nat \<Rightarrow> Bias \<Rightarrow> nat \<Rightarrow> nat option" where
  "clip_column ok len bias col =
     (if ok col then Some col
      else if bias = Bias.Left then (if col = 0 then None else clip_column ok len bias (col - 1))
      else if len \<le> col then None else clip_column ok len bias (Suc col))"
  by pat_completeness auto
termination by (relation "measure (\<lambda>(ok, len, bias, col). if bias = Bias.Left then col else len - col)") auto

declare clip_column.simps [simp del]

definition chunk_clip_point :: "(ustr \<Rightarrow> nat \<Rightarrow> bool) \<Rightarrow> ChunkSlice \<Rightarrow> Point \<Rightarrow> Bias \<Rightarrow> Point option" where
  "chunk_clip_point grapheme c p bias =
     (if row (chunk_lines c) < row p then Some (chunk_lines c)
      else let (i, j) = offset_range_for_row c (row p) in do {
        line \<leftarrow> chunk_slice c i j;
        if column p = 0 then Some p
        else if chunk_len line \<le> column p then Some (Point_new (row p) (chunk_len line))
        else let bytes = utf8_bytes (chunk_text line)
          in if bytes ! (column p - 1) < 128 \<and> bytes ! column p < 128 then Some (Point_new (row p) (column p))
            else map_option (Point_new (row p))
              (clip_column (\<lambda>k. chunk_is_char_boundary line k \<and> grapheme (chunk_text line) k) (length bytes) bias (column p)) })"

section \<open>Selecting bits of a text\<close>

text \<open>The set bit with \<open>n - 1\<close> set bits below it is unique.\<close>

lemma nth_set_bit_eq:
  assumes "bits_of (w :: 128 word) (xs @ True # ys)" "length xs + Suc (length ys) \<le> 128" "length (filter (\<lambda>b. b) xs) = n"
  shows "nth_set_bit w (Suc n) = length xs"
proof -
  have "count_ones w = n + Suc (length (filter (\<lambda>b. b) ys))"
    using count_ones_flags [OF assms(1)] assms(2,3) by simp
  then have p: "bit w (nth_set_bit w (Suc n))" "cnt w 0 (nth_set_bit w (Suc n)) = n"
    using nth_set_bit_ok [of "Suc n" w] by simp_all
  have q: "bit w (length xs)" using bits_ofD [OF assms(1), of "length xs"] by simp
  have "map (bit w) [0..<length xs] = xs"
    using bits_ofD [OF assms(1)] by (intro nth_equalityI) (auto simp: nth_append)
  then have c: "cnt w 0 (length xs) = n"
    using assms(3) by (simp add: cnt_def flip: filter_map [unfolded comp_def, of "\<lambda>b. b" "bit w"] length_map [of "bit w"])
  show ?thesis
  proof (rule ccontr)
    have less: "cnt w 0 i < cnt w 0 j" if "bit w i" "i < j" for i j
      using that cnt_split [of 0 i j w] cnt_split [of i "Suc i" j w] cnt_Suc [of w i] by simp
    assume "nth_set_bit w (Suc n) \<noteq> length xs"
    then show False using less [OF p(1), of "length xs"] less [OF q, of "nth_set_bit w (Suc n)"] p(2) c by linarith
  qed
qed

section \<open>Rows\<close>

definition newline_count :: "ustr \<Rightarrow> nat" where
  "newline_count t = length (filter (\<lambda>c. c = 10) t)"

text \<open>A line in its text: what precedes it is empty or ends in a newline, what follows is empty
  or starts with one.\<close>

definition line_at :: "ustr \<Rightarrow> ustr \<Rightarrow> ustr \<Rightarrow> ustr \<Rightarrow> bool" where
  "line_at t pre l post \<longleftrightarrow> t = pre @ l @ post \<and> (pre = [] \<or> last pre = 10) \<and> 10 \<notin> set l \<and> (post = [] \<or> hd post = 10)"

lemma newline_count_simps [simp]:
  "newline_count [] = 0" "newline_count (a @ b) = newline_count a + newline_count b"
  "newline_count (c # t) = (if c = 10 then 1 else 0) + newline_count t"
  by (simp_all add: newline_count_def)

lemma newline_count_0: "newline_count t = 0 \<longleftrightarrow> 10 \<notin> set t"
  by (auto simp: newline_count_def filter_empty_conv)

lemma summary_lines: "txt_lines (TextSummary_from a) = \<lparr>row = newline_count a, column = text_len (last (split_lines a))\<rparr>"
  "lines_utf16 (TextSummary_from a) = \<lparr>row = newline_count a, column = text_len_utf16 (last (split_lines a))\<rparr>"
  using summary_ok_from [of a] by (simp_all add: summary_ok_def Let_def lines_utf16_def length_split_lines newline_count_def)

text \<open>Every prefix of a text ends in one of its lines.\<close>

lemma prefix_line:
  obtains pre l1 l2 post where "line_at (a @ b) pre (l1 @ l2) post" "a = pre @ l1" "b = l2 @ post" "last (split_lines a) = l1"
    "newline_count pre = newline_count a"
proof -
  obtain pre l1 where pre: "a = pre @ l1" "pre = [] \<or> last pre = 10" "10 \<notin> set l1" "last (split_lines a) = l1"
  proof (cases rule: last_line_cases [of a])
    case 1
    then show ?thesis using that [of "[]" a] by simp
  next
    case (2 r l)
    then show ?thesis using that [of "r @ [10]" l] by simp
  qed
  obtain l2 post where "b = l2 @ post" "10 \<notin> set l2" "post = [] \<or> hd post = 10"
  proof (cases rule: first_line_cases [of b])
    case 1
    then show ?thesis using that [of b "[]"] by simp
  next
    case (2 l r)
    then show ?thesis using that [of l "10 # r"] by simp
  qed
  moreover have "newline_count pre = newline_count a" using pre(1,3) newline_count_0 [of l1] by simp
  ultimately show ?thesis using that [of pre l1 l2 post] pre by (simp add: line_at_def)
qed

lemma row_start_eq:
  assumes "chunk_ok c" "line_at (chunk_text c) pre l post"
  shows "(if 0 < newline_count pre then nth_set_bit (chunk_newlines c) (newline_count pre) + 1 else 0) = text_len pre"
proof (cases pre rule: rev_cases)
  case (snoc q x)
  then have x: "x = 10" and t: "chunk_text c = q @ 10 # l @ post" using assms(2) by (auto simp: line_at_def)
  have "bits_of (chunk_newlines c) (newline_flags q @ True # newline_flags (l @ post))" using chunk_okD(4) [OF assms(1)] t by simp
  then have "nth_set_bit (chunk_newlines c) (Suc (newline_count q)) = length (newline_flags q)"
    using chunk_okD(1) [OF assms(1)] t
    by (intro nth_set_bit_eq [where ys = "newline_flags (l @ post)"]) (simp_all add: count_flags newline_count_def text_len_Cons len_utf8_def)
  then show ?thesis using snoc x by (simp add: text_len_Cons len_utf8_def)
qed simp

lemma offset_range_for_row_eq:
  assumes "chunk_ok c" "line_at (chunk_text c) pre l post"
  shows "offset_range_for_row c (newline_count pre) = (text_len pre, text_len pre + text_len l)"
proof -
  have t: "chunk_text c = pre @ l @ post" "10 \<notin> set l" "post = [] \<or> hd post = 10" using assms(2) by (simp_all add: line_at_def)
  have len: "text_len pre + (text_len l + text_len post) \<le> 128" using chunk_okD(1) [OF assms(1)] t(1) by simp
  have "(if text_len pre = MAX_BASE then 0
      else min (trailing_zeros (drop_bit (text_len pre) (chunk_newlines c))) (chunk_len c - text_len pre)) = text_len l"
  proof (cases "text_len pre = MAX_BASE")
    case True
    then have "text_len l = 0" using len by (simp add: MAX_BASE_def)
    with True show ?thesis by simp
  next
    case False
    let ?w = "drop_bit (text_len pre) (chunk_newlines c)"
    have w: "bits_of ?w (newline_flags (l @ post))"
      by (rule bits_of_split(2) [of _ "newline_flags pre"]) (use chunk_okD(4) [OF assms(1)] t(1) in simp_all)
    have l: "text_len (l @ post) \<le> 128" using len by simp
    show ?thesis
    proof (cases post)
      case Nil
      then have "?w = 0" using trailing_newline(1) [OF w l] t(2) by simp
      then show ?thesis using False Nil t(1) len by (simp add: zeros_zero chunk_len_def)
    next
      case (Cons x xs)
      then have "trailing_zeros ?w = text_len l" using trailing_newline(2) [OF w l, of l xs] t(2,3) by simp
      then show ?thesis using False t(1) by (simp add: chunk_len_def)
    qed
  qed
  then show ?thesis using row_start_eq [OF assms] unfolding offset_range_for_row_def Let_def by (simp only:)
qed

lemma line_slice:
  assumes "chunk_ok c" "line_at (chunk_text c) pre l post"
  obtains s where "chunk_slice c (text_len pre) (text_len pre + text_len l) = Some s" "chunk_ok s" "chunk_text s = l"
  using assms(2) by (auto intro: chunk_slice_ok [OF assms(1)] simp: line_at_def)

lemma chunk_rows: "chunk_ok c \<Longrightarrow> row (chunk_lines c) = newline_count (chunk_text c)"
  by (simp add: chunk_lines_eq length_split_lines newline_count_def)

section \<open>Positions of a prefix\<close>

lemma chunk_point_to_offset_eq:
  assumes "chunk_ok c" "chunk_text c = a @ b"
  shows "chunk_point_to_offset c (txt_lines (TextSummary_from a)) = text_len a"
proof -
  obtain pre l1 l2 post where l: "line_at (a @ b) pre (l1 @ l2) post" "a = pre @ l1" "b = l2 @ post" "last (split_lines a) = l1"
    "newline_count pre = newline_count a"
    by (rule prefix_line)
  have "offset_range_for_row c (newline_count a) = (text_len pre, text_len pre + text_len (l1 @ l2))"
    using offset_range_for_row_eq [OF assms(1), of pre "l1 @ l2" post] l(1,5) assms(2) by simp
  moreover have "newline_count a \<le> row (chunk_lines c)" using chunk_rows [OF assms(1)] assms(2) by simp
  moreover have "text_len a = text_len pre + text_len l1" using l(2) by simp
  ultimately show ?thesis by (simp add: chunk_point_to_offset_def summary_lines(1) l(4))
qed

lemma text_len_utf16_0 [simp]: "text_len_utf16 t = 0 \<longleftrightarrow> t = []"
proof (cases t)
  case (Cons c cs)
  with len_utf8_bounds(4) [of c] show ?thesis by (simp add: text_len_utf16_Cons)
qed simp

lemma boundary_same: "is_boundary t i \<Longrightarrow> prev_boundary t i = i" "is_boundary t i \<Longrightarrow> next_boundary t i = i"
  by (cases i) (simp_all add: next_boundary.simps)

text \<open>The code units of one character, and the zeros after its last one.\<close>

lemma utf16_flags_char:
  "utf16_flags [c] = replicate (len_utf16 c - 1) True @ True # replicate (len_utf8 c - len_utf16 c) False"
  by (auto simp: lead_flags_def len_utf16_def len_utf8_def numeral_2_eq_2 numeral_3_eq_3)

lemma utf16_flags_first: "t \<noteq> [] \<Longrightarrow> \<exists>fl. utf16_flags t = True # fl"
  by (cases t) (auto simp: lead_flags_def)

lemma chunk_offset_utf16_to_offset_eq:
  assumes "chunk_ok c" "chunk_text c = a @ b"
  shows "chunk_offset_utf16_to_offset c (text_len_utf16 a) = text_len a"
proof (cases a rule: rev_cases)
  case (snoc a' x)
  let ?w = "chunk_chars_utf16 c"
  let ?ix = "text_len a' + len_utf16 x" and ?z = "len_utf8 x - len_utf16 x"
  have x: "0 < len_utf16 x" "len_utf16 x \<le> len_utf8 x" by (rule len_utf8_bounds)+
  have fl: "bits_of ?w ((utf16_flags a' @ replicate (len_utf16 x - 1) True) @ True # replicate ?z False @ utf16_flags b)"
    using chunk_okD(3) [OF assms(1)] utf16_flags_char [of x] utf16_flags_simps(2) [of "[x]" b]
    by (simp add: assms(2) snoc del: utf16_flags_simps(3))
  have len: "text_len a' + (len_utf8 x + text_len b) \<le> 128" using chunk_okD(1) [OF assms(1)] by (simp add: assms(2) snoc text_len_Cons)
  have "nth_set_bit ?w (Suc (text_len_utf16 a' + (len_utf16 x - 1))) = text_len a' + (len_utf16 x - 1)"
    using nth_set_bit_eq [OF fl] len x by (simp add: count_flags)
  then have sel: "nth_set_bit ?w (text_len_utf16 a) + 1 = ?ix" using x(1) by (simp add: snoc text_len_utf16_Cons)
  have pos: "text_len_utf16 a \<noteq> 0" using x(1) by (simp add: snoc text_len_utf16_Cons)
  have "(if ?ix = MAX_BASE then MAX_BASE else ?ix + min (trailing_zeros (drop_bit ?ix ?w)) (chunk_len c - ?ix)) = text_len a"
  proof (cases "?ix = MAX_BASE")
    case True
    then show ?thesis using len x(2) by (simp add: snoc text_len_Cons MAX_BASE_def)
  next
    case False
    have "length (utf16_flags a' @ replicate (len_utf16 x - 1) True) + 1 = ?ix" using x(1) by simp
    then have w: "bits_of (drop_bit ?ix ?w) (replicate ?z False @ utf16_flags b)"
      using bits_of_split(2) [of ?w "(utf16_flags a' @ replicate (len_utf16 x - 1) True) @ [True]" "replicate ?z False @ utf16_flags b" ?ix] fl by simp
    have "chunk_len c - ?ix = ?z + text_len b" using x(2) by (simp add: chunk_len_def assms(2) snoc text_len_Cons)
    moreover have "min (trailing_zeros (drop_bit ?ix ?w)) (?z + text_len b) = ?z"
    proof (cases "b = []")
      case True
      then have "drop_bit ?ix ?w = 0" using w bits_of_zero [where 'a = 128, of "replicate ?z False"] by (auto intro: bits_of_unique)
      then show ?thesis using True len by (simp add: zeros_zero)
    next
      case b: False
      then obtain fl' where fl': "utf16_flags b = True # fl'" using utf16_flags_first by blast
      then have "Suc (length fl') = text_len b" by (metis length_Cons length_utf16_flags)
      then have "trailing_zeros (drop_bit ?ix ?w) = ?z" using w fl' len by (intro trailing_zeros_flags [of _ _ fl']) simp_all
      then show ?thesis by simp
    qed
    ultimately show ?thesis using False x(2) by (simp add: snoc text_len_Cons)
  qed
  then show ?thesis using pos sel by (simp add: chunk_offset_utf16_to_offset_def Let_def)
qed (simp add: chunk_offset_utf16_to_offset_def)

lemma surrogate_offset:
  assumes "chunk_ok c" "chunk_text c = a @ x # b" "len_utf16 x = 2"
  shows "chunk_offset_utf16_to_offset c (text_len_utf16 a + 1) = text_len a + 1"
proof -
  let ?w = "chunk_chars_utf16 c" and ?ix = "text_len a + 1"
  have fl: "bits_of ?w (utf16_flags a @ True # True # False # False # utf16_flags b)"
    using chunk_okD(3) [OF assms(1)] assms(2,3) by simp
  have len: "text_len a + (4 + text_len b) \<le> 128" using chunk_okD(1) [OF assms(1)] assms(2) len_utf16_2(2) [OF assms(3)] by (simp add: text_len_Cons)
  have "nth_set_bit ?w (Suc (text_len_utf16 a)) = text_len a"
    using nth_set_bit_eq [OF fl] len by (simp add: count_flags)
  moreover have "trailing_zeros (drop_bit ?ix ?w) = 0"
  proof (rule trailing_zeros_flags [of _ _ "False # False # utf16_flags b"])
    show "bits_of (drop_bit ?ix ?w) (replicate 0 False @ True # False # False # utf16_flags b)"
      using bits_of_split(2) [of ?w "utf16_flags a @ [True]" "True # False # False # utf16_flags b" ?ix] fl by simp
  qed (use len in simp)
  moreover have "?ix \<noteq> MAX_BASE" using len by (simp add: MAX_BASE_def)
  ultimately show ?thesis by (simp add: chunk_offset_utf16_to_offset_def Let_def)
qed

lemma utf16_target_cases:
  assumes "n \<le> text_len_utf16 t"
  obtains a b where "t = a @ b" "text_len_utf16 a = n"
  | a x b where "t = a @ x # b" "len_utf16 x = 2" "n = text_len_utf16 a + 1"
  using assms
proof (induction t arbitrary: n thesis)
  case Nil
  then show ?case by simp
next
  case (Cons x t)
  consider "n = 0" | "n = 1" "len_utf16 x = 2" | "len_utf16 x \<le> n" "n \<noteq> 0"
  proof -
    have "n = 0 \<or> n = 1 \<or> 2 \<le> n" by arith
    moreover have "len_utf16 x = 1 \<or> len_utf16 x = 2" by (simp add: len_utf16_def)
    ultimately show thesis using that by auto
  qed
  then show ?case
  proof cases
    case 1
    then show ?thesis using Cons.prems(1) [of "[]" "x # t"] by simp
  next
    case 2
    then show ?thesis using Cons.prems(2) [of "[]" x t] by simp
  next
    case 3
    have le: "n - len_utf16 x \<le> text_len_utf16 t" using Cons.prems(3) by (simp add: text_len_utf16_Cons)
    show ?thesis
    proof (rule Cons.IH [OF _ _ le])
      fix a b assume "t = a @ b" "text_len_utf16 a = n - len_utf16 x"
      then show ?thesis using Cons.prems(1) [of "x # a" b] 3(1) by (simp add: text_len_utf16_Cons)
    next
      fix a y b assume "t = a @ y # b" "len_utf16 y = 2" "n - len_utf16 x = text_len_utf16 a + 1"
      then show ?thesis using Cons.prems(2) [of "x # a" y b] 3(1) by (simp add: text_len_utf16_Cons)
    qed
  qed
qed

lemma chunk_clip_offset_utf16_eq:
  assumes "chunk_ok c" "chunk_text c = a @ b"
  shows "chunk_clip_offset_utf16 c (text_len_utf16 a) bias = text_len_utf16 a"
proof -
  have "is_boundary (chunk_text c) (text_len a)" using assms(2) by (auto simp: is_boundary_iff)
  moreover have "b = []" if "text_len_utf16 (a @ b) \<le> text_len_utf16 a" using that by simp
  moreover have "chunk_offset_to_offset_utf16 c (text_len a) = text_len_utf16 a"
    using chunk_offset_to_offset_utf16_eq [OF assms] summary_ok_from [of a] by (simp add: summary_ok_def Let_def)
  ultimately show ?thesis
    using chunk_offset_utf16_to_offset_eq [OF assms] chunk_len_utf16_eq [OF assms(1)] assms(2)
    by (auto simp: chunk_clip_offset_utf16_def Let_def boundary_same)
qed

lemma chunk_clip_offset_utf16_surrogate:
  assumes "chunk_ok c" "chunk_text c = a @ x # b" "len_utf16 x = 2"
  shows "chunk_clip_offset_utf16 c (text_len_utf16 a + 1) bias = text_len_utf16 (if bias = Bias.Left then a else a @ [x])"
proof -
  let ?t = "chunk_text c" and ?i = "text_len a + 1"
  have x4: "len_utf8 x = 4" by (rule len_utf16_2(2) [OF assms(3)])
  have ba: "is_boundary ?t (text_len a)" and bx: "is_boundary ?t (text_len (a @ [x]))"
    using assms(2) by (auto simp: is_boundary_iff intro: exI [of _ "a @ [x]"])
  have inside: "\<not> is_boundary ?t (text_len a + k)" if "0 < k" "k < 4" for k
  proof -
    have "is_boundary (a @ x # b) (text_len a + k) \<longleftrightarrow> is_boundary (x # b) k" for a
      by (induction a) (simp_all add: text_len_Cons, use that in auto)
    then show ?thesis using that x4 by (simp add: assms(2))
  qed
  have left: "prev_boundary ?t ?i = text_len a" using inside [of 1] boundary_same(1) [OF ba] by simp
  have "next_boundary ?t ?i = text_len a + 4"
  proof -
    have len: "text_len a + 4 \<le> text_len ?t" using x4 by (simp add: assms(2) text_len_Cons)
    have step: "next_boundary ?t (text_len a + k) = next_boundary ?t (text_len a + Suc k)" if "0 < k" "k < 4" for k
      using inside [OF that] len that by (subst next_boundary.simps) simp
    have "next_boundary ?t (text_len a + 4) = text_len a + 4" using boundary_same(2) [OF bx] x4 by (simp add: text_len_Cons)
    then show ?thesis using step [of 1] step [of 2] step [of 3] by (simp add: numeral_eq_Suc)
  qed
  then have right: "next_boundary ?t ?i = text_len (a @ [x])" using x4 by (simp add: text_len_Cons)
  have units: "chunk_offset_to_offset_utf16 c (text_len a) = text_len_utf16 a"
    "chunk_offset_to_offset_utf16 c (text_len (a @ [x])) = text_len_utf16 (a @ [x])"
    using chunk_offset_to_offset_utf16_eq [OF assms(1), of a "x # b"] chunk_offset_to_offset_utf16_eq [OF assms(1), of "a @ [x]" b]
      assms(2) summary_ok_from by (simp_all add: summary_ok_def Let_def)
  have "text_len_utf16 a + 1 < chunk_len_utf16 c"
    using assms(3) by (simp add: chunk_len_utf16_eq [OF assms(1)] assms(2) text_len_utf16_Cons)
  then show ?thesis
    using surrogate_offset [OF assms] left right units by (cases bias) (simp_all add: chunk_clip_offset_utf16_def Let_def)
qed

lemma chunk_point_utf16_to_offset_eq:
  assumes "chunk_ok c" "chunk_text c = a @ b"
  shows "chunk_point_utf16_to_offset c (lines_utf16 (TextSummary_from a)) = Some (text_len a)"
    "chunk_unclipped_point_utf16_to_point c (lines_utf16 (TextSummary_from a)) = Some (txt_lines (TextSummary_from a))"
    "chunk_clip_point_utf16 c (lines_utf16 (TextSummary_from a)) bias = Some (lines_utf16 (TextSummary_from a))"
proof -
  obtain pre l1 l2 post where l: "line_at (a @ b) pre (l1 @ l2) post" "a = pre @ l1" "b = l2 @ post" "last (split_lines a) = l1"
    "newline_count pre = newline_count a"
    by (rule prefix_line)
  have line: "line_at (chunk_text c) pre (l1 @ l2) post" using l(1) assms(2) by simp
  have range: "offset_range_for_row c (newline_count a) = (text_len pre, text_len pre + text_len (l1 @ l2))"
    using offset_range_for_row_eq [OF assms(1) line] l(5) by simp
  obtain s where s: "chunk_slice c (text_len pre) (text_len pre + text_len (l1 @ l2)) = Some s" "chunk_ok s" "chunk_text s = l1 @ l2"
    by (rule line_slice [OF assms(1) line])
  have rows: "newline_count a \<le> row (chunk_lines c)" using chunk_rows [OF assms(1)] assms(2) by simp
  have off: "chunk_offset_utf16_to_offset s (text_len_utf16 l1) = text_len l1" by (rule chunk_offset_utf16_to_offset_eq [OF s(2,3)])
  have "10 \<notin> set (l1 @ l2)" using l(1) by (simp add: line_at_def)
  then have "last_line_len_utf16 s = text_len_utf16 (l1 @ l2)" using last_line_eq(2) [OF s(2)] s(3) by (simp add: split_lines_none)
  moreover have "is_boundary (chunk_text c) (text_len a)" using assms(2) by (auto simp: is_boundary_iff)
  moreover have "text_len a = text_len pre + text_len l1" using l(2) by simp
  ultimately show "chunk_point_utf16_to_offset c (lines_utf16 (TextSummary_from a)) = Some (text_len a)"
    using rows range s(1) off by (auto simp: chunk_point_utf16_to_offset_def summary_lines(2) l(4))
  have "is_boundary (l1 @ l2) (text_len l1)" by (auto simp: is_boundary_iff)
  then show "chunk_unclipped_point_utf16_to_point c (lines_utf16 (TextSummary_from a)) = Some (txt_lines (TextSummary_from a))"
    using rows range s off chunk_len_utf16_eq [OF s(2)]
    by (auto simp: chunk_unclipped_point_utf16_to_point_def summary_lines l(4) Point_new_def chunk_len_def boundary_same)
  show "chunk_clip_point_utf16 c (lines_utf16 (TextSummary_from a)) bias = Some (lines_utf16 (TextSummary_from a))"
    using rows range s chunk_clip_offset_utf16_eq [OF s(2,3)]
    by (simp add: chunk_clip_point_utf16_def summary_lines l(4) Point_new_def)
qed

section \<open>Clipping to a grapheme cluster\<close>

text \<open>The nearest position that satisfies a predicate, going left or right.\<close>

definition nearest_stop :: "(nat \<Rightarrow> bool) \<Rightarrow> Bias \<Rightarrow> nat \<Rightarrow> nat \<Rightarrow> bool" where
  "nearest_stop ok bias n k \<longleftrightarrow> ok k \<and>
     (if bias = Bias.Left then k \<le> n \<and> (\<forall>m. k < m \<and> m \<le> n \<longrightarrow> \<not> ok m) else n \<le> k \<and> (\<forall>m. n \<le> m \<and> m < k \<longrightarrow> \<not> ok m))"

lemma nearest_stop_here: "ok n \<Longrightarrow> nearest_stop ok bias n k \<longleftrightarrow> k = n"
  by (cases "bias = Bias.Left"; rule linorder_cases [of k n]) (auto simp: nearest_stop_def dest: spec [of _ n])

lemma nearest_stop_step:
  assumes "\<not> ok n" "nearest_stop ok bias (if bias = Bias.Left then n - 1 else Suc n) k" "n \<noteq> 0"
  shows "nearest_stop ok bias n k"
proof (cases "bias = Bias.Left")
  case True
  have "m \<le> n - 1" if "m \<le> n" "m \<noteq> n" for m using that by simp
  then show ?thesis using assms True by (auto simp: nearest_stop_def)
next
  case False
  have "Suc n \<le> m \<or> m = n" if "n \<le> m" for m using that by auto
  then show ?thesis using assms False unfolding nearest_stop_def by (metis Suc_leD)
qed

lemma clip_column_nearest:
  assumes "ok 0" "ok len" "col \<le> len"
  shows "\<exists>k. clip_column ok len bias col = Some k \<and> nearest_stop ok bias col k"
  using assms
proof (induction ok len bias col rule: clip_column.induct)
  case (1 ok len bias col)
  show ?case
  proof (cases "ok col")
    case True
    then show ?thesis by (subst clip_column.simps) (simp add: nearest_stop_here)
  next
    case False
    then have "col \<noteq> 0" "col \<noteq> len" using 1(3,4) by metis+
    then have c: "col \<noteq> 0" "col < len" using 1(5) by simp_all
    then obtain k where k: "clip_column ok len bias (if bias = Bias.Left then col - 1 else Suc col) = Some k"
        "nearest_stop ok bias (if bias = Bias.Left then col - 1 else Suc col) k"
      using False 1 by (cases "bias = Bias.Left") fastforce+
    moreover have "clip_column ok len bias col = clip_column ok len bias (if bias = Bias.Left then col - 1 else Suc col)"
      using False c by (subst clip_column.simps) simp
    ultimately show ?thesis using nearest_stop_step [OF False k(2) c(1)] by simp
  qed
qed

text \<open>What the code relies on of the grapheme rules (Unicode Standard Annex 29): the ends of a line are
  boundaries (GB1, GB2), and so is the middle of two ASCII characters other than a line break (GB4, GB5 and
  GB999; no other rule joins ASCII characters).\<close>

definition segments_lines :: "(ustr \<Rightarrow> nat \<Rightarrow> bool) \<Rightarrow> bool" where
  "segments_lines grapheme \<longleftrightarrow> (\<forall>l. grapheme l 0 \<and> grapheme l (text_len l)) \<and>
     (\<forall>l k. 10 \<notin> set l \<and> 0 < k \<and> k < text_len l \<and> utf8_bytes l ! (k - 1) < 128 \<and> utf8_bytes l ! k < 128 \<longrightarrow> grapheme l k)"

text \<open>The positions of a line where a point may stay.\<close>

definition line_stop :: "(ustr \<Rightarrow> nat \<Rightarrow> bool) \<Rightarrow> ustr \<Rightarrow> nat \<Rightarrow> bool" where
  "line_stop grapheme l k \<longleftrightarrow> is_boundary l k \<and> grapheme l k"

lemma line_stop_ends: "segments_lines grapheme \<Longrightarrow> line_stop grapheme l 0 \<and> line_stop grapheme l (text_len l)"
  using is_boundary_bounds(2,3) by (simp add: line_stop_def segments_lines_def)

lemma ascii_boundary: "i < text_len t \<Longrightarrow> utf8_bytes t ! i < 128 \<Longrightarrow> is_boundary t i"
  using char_starts_nth [of i t] arg_cong [OF bytes_flags(1) [of t], of "\<lambda>xs. xs ! i"] by (simp add: is_utf8_char_boundary_def)

lemma row_line:
  assumes "r \<le> newline_count t"
  obtains pre l post where "line_at t pre l post" "newline_count pre = r"
proof -
  have "\<exists>pre rest. t = pre @ rest \<and> (pre = [] \<or> last pre = 10) \<and> newline_count pre = r" using assms
  proof (induction t arbitrary: r)
    case (Cons x t)
    show ?case
    proof (cases r)
      case (Suc m)
      with Cons.prems Cons.IH [of "if x = 10 then m else r"] obtain pre rest where
        "t = pre @ rest" "pre = [] \<or> last pre = 10" "newline_count pre = (if x = 10 then m else r)" by (auto split: if_splits)
      with Suc show ?thesis by (intro exI [of _ "x # pre"] exI [of _ rest]) (auto split: if_splits)
    qed (auto intro: exI [of _ "[]"])
  qed simp
  then obtain pre rest where pre: "t = pre @ rest" "pre = [] \<or> last pre = 10" "newline_count pre = r" by blast
  show ?thesis
  proof (cases rule: first_line_cases [of rest])
    case 1
    then show ?thesis using that [of pre rest "[]"] pre by (simp add: line_at_def)
  next
    case (2 l post)
    then show ?thesis using that [of pre l "10 # post"] pre by (simp add: line_at_def)
  qed
qed

lemma line_at_nth: assumes "line_at t pre l post" shows "split_lines t ! newline_count pre = l"
proof -
  have l: "t = pre @ l @ post" "10 \<notin> set l" using assms by (simp_all add: line_at_def)
  have "\<exists>ls. split_lines (l @ post) = l # ls"
  proof (cases post)
    case (Cons x xs)
    then have "x = 10" using assms by (simp add: line_at_def)
    then show ?thesis using Cons l(2) by (simp add: split_lines_append split_lines_none)
  qed (use l(2) split_lines_none in auto)
  then obtain ls where ls: "split_lines (l @ post) = l # ls" by blast
  show ?thesis
  proof (cases pre rule: rev_cases)
    case (snoc q x)
    then have "x = 10" using assms by (simp add: line_at_def)
    then show ?thesis using snoc l(1) ls by (simp add: split_lines_append nth_append length_split_lines newline_count_def)
  qed (use l(1) ls in simp)
qed

lemma line_at_last:
  assumes "line_at t pre (l1 @ l2) post" shows "last (split_lines (pre @ l1)) = l1"
proof -
  have l1: "10 \<notin> set l1" using assms by (simp add: line_at_def)
  show ?thesis
  proof (cases pre rule: rev_cases)
    case (snoc q x)
    then have "x = 10" using assms by (simp add: line_at_def)
    then show ?thesis using snoc l1 by (simp add: split_lines_append split_lines_none)
  qed (use l1 split_lines_none in simp)
qed

lemma line_at_prefix:
  assumes "line_at t pre (l1 @ l2) post"
  shows "txt_lines (TextSummary_from (pre @ l1)) = \<lparr>row = newline_count pre, column = text_len l1\<rparr>"
  using line_at_last [OF assms] assms by (simp add: summary_lines newline_count_0 line_at_def)

lemma chunk_clip_point_line:
  assumes "chunk_ok c" "line_at (chunk_text c) pre l post" "newline_count pre = row p" "segments_lines grapheme"
  obtains k where "chunk_clip_point grapheme c p bias = Some \<lparr>row = row p, column = k\<rparr>" "is_boundary l k"
    "if text_len l \<le> column p then k = text_len l else nearest_stop (line_stop grapheme l) bias (column p) k"
proof -
  have rows: "\<not> row (chunk_lines c) < row p" using chunk_rows [OF assms(1)] assms(2,3) by (auto simp: line_at_def)
  obtain s where s: "chunk_slice c (text_len pre) (text_len pre + text_len l) = Some s" "chunk_ok s" "chunk_text s = l"
    by (rule line_slice [OF assms(1,2)])
  have range: "offset_range_for_row c (row p) = (text_len pre, text_len pre + text_len l)"
    using offset_range_for_row_eq [OF assms(1,2)] assms(3) by simp
  note ends = line_stop_ends [OF assms(4), of l]
  let ?k = "clip_column (line_stop grapheme l) (text_len l) bias (column p)"
  consider "column p = 0" | "column p \<noteq> 0" "text_len l \<le> column p"
    | "column p \<noteq> 0" "column p < text_len l" "utf8_bytes l ! (column p - 1) < 128 \<and> utf8_bytes l ! column p < 128"
    | "column p \<noteq> 0" "column p < text_len l" "\<not> (utf8_bytes l ! (column p - 1) < 128 \<and> utf8_bytes l ! column p < 128)"
    by linarith
  then show ?thesis
  proof cases
    case 1
    then show ?thesis using that [of 0] rows range s ends
      by (cases p) (simp add: chunk_clip_point_def is_boundary_bounds nearest_stop_here)
  next
    case 2
    then show ?thesis
      using that [of "text_len l"] rows range s is_boundary_bounds(1) [of l "column p"] is_boundary_bounds(2)
      by (simp add: chunk_clip_point_def chunk_len_def Point_new_def)
  next
    case 3
    then have "line_stop grapheme l (column p)"
      using assms(2,4) ascii_boundary [of "column p" l] by (simp add: line_stop_def segments_lines_def line_at_def)
    with 3 show ?thesis
      using that [of "column p"] rows range s ascii_boundary [of "column p" l]
      by (simp add: chunk_clip_point_def chunk_len_def Point_new_def nearest_stop_here)
  next
    case 4
    obtain k where k: "?k = Some k" "nearest_stop (line_stop grapheme l) bias (column p) k"
      using clip_column_nearest [of "line_stop grapheme l" "text_len l" "column p" bias] 4(2) ends by auto
    then have "is_boundary l k" by (simp add: nearest_stop_def line_stop_def)
    moreover have "chunk_clip_point grapheme c p bias = map_option (Point_new (row p)) ?k"
      using 4 rows range s chunk_is_char_boundary_eq [OF s(2)]
      by (auto simp: chunk_clip_point_def chunk_len_def Let_def line_stop_def [abs_def] cong: if_cong)
    ultimately show ?thesis using that [of k] k 4(2) by (simp add: Point_new_def)
  qed
qed

lemma chunk_clip_point_past:
  assumes "chunk_ok c" "newline_count (chunk_text c) < row p"
  shows "chunk_clip_point grapheme c p bias = Some (txt_lines (TextSummary_from (chunk_text c)))"
  using assms chunk_rows [OF assms(1)] chunk_lines_eq [OF assms(1)] summary_ok_from [of "chunk_text c"]
  by (simp add: chunk_clip_point_def summary_ok_def Let_def)

section \<open>Clipping to a UTF-16 code unit\<close>

text \<open>An offset at a character is left alone, one between the two halves of a surrogate pair moves
  to the start or to the end of its character as the bias says, and one past the end becomes the
  length.\<close>

definition utf16_clip_of :: "ustr \<Rightarrow> nat \<Rightarrow> Bias \<Rightarrow> nat \<Rightarrow> bool" where
  "utf16_clip_of t n bias m \<longleftrightarrow> (\<exists>a b. t = a @ b \<and> m = text_len_utf16 a \<and>
     (m = n \<or> text_len_utf16 t < n \<and> b = [] \<or>
      bias = Bias.Left \<and> m + 1 = n \<and> b \<noteq> [] \<and> len_utf16 (hd b) = 2 \<or>
      bias = Bias.Right \<and> m = n + 1 \<and> a \<noteq> [] \<and> len_utf16 (last a) = 2))"

lemma chunk_clip_utf16:
  assumes "chunk_ok c" shows "utf16_clip_of (chunk_text c) n bias (chunk_clip_offset_utf16 c n bias)"
proof (cases "n \<le> text_len_utf16 (chunk_text c)")
  case True
  then show ?thesis
  proof (cases rule: utf16_target_cases)
    case (1 a b)
    then show ?thesis using chunk_clip_offset_utf16_eq [OF assms, of a b bias] by (auto simp: utf16_clip_of_def)
  next
    case (2 a x b)
    have "chunk_clip_offset_utf16 c n bias = text_len_utf16 (if bias = Bias.Left then a else a @ [x])"
      using chunk_clip_offset_utf16_surrogate [OF assms, of a x b bias] 2 by simp
    then show ?thesis using 2 unfolding utf16_clip_of_def
      by (intro exI [of _ "if bias = Bias.Left then a else a @ [x]"] exI [of _ "if bias = Bias.Left then x # b else b"])
        (cases bias, simp_all add: text_len_utf16_Cons)
  qed
next
  case False
  then have "chunk_clip_offset_utf16 c n bias = text_len_utf16 (chunk_text c)"
    using chunk_len_utf16_eq [OF assms] by (auto simp: chunk_clip_offset_utf16_def)
  with False show ?thesis unfolding utf16_clip_of_def by (intro exI [of _ "chunk_text c"] exI [of _ "[]"]) simp
qed

lemma line_at_prefix_utf16:
  assumes "line_at t pre (l1 @ l2) post"
  shows "lines_utf16 (TextSummary_from (pre @ l1)) = \<lparr>row = newline_count pre, column = text_len_utf16 l1\<rparr>"
  using line_at_last [OF assms] assms by (simp add: summary_lines newline_count_0 line_at_def)

lemma chunk_clip_point_utf16_line:
  assumes "chunk_ok c" "line_at (chunk_text c) pre l post" "newline_count pre = row p"
  obtains k where "chunk_clip_point_utf16 c p bias = Some \<lparr>row = row p, column = k\<rparr>" "utf16_clip_of l (column p) bias k"
proof -
  obtain s where s: "chunk_slice c (text_len pre) (text_len pre + text_len l) = Some s" "chunk_ok s" "chunk_text s = l"
    by (rule line_slice [OF assms(1,2)])
  have "\<not> row (chunk_lines c) < row p" using chunk_rows [OF assms(1)] assms(2,3) by (auto simp: line_at_def)
  then have "chunk_clip_point_utf16 c p bias = Some \<lparr>row = row p, column = chunk_clip_offset_utf16 s (column p) bias\<rparr>"
    using offset_range_for_row_eq [OF assms(1,2)] assms(3) s(1) by (simp add: chunk_clip_point_utf16_def Point_new_def)
  then show ?thesis using that chunk_clip_utf16 [OF s(2), of "column p" bias] s(3) by simp
qed

section \<open>All conversions of a prefix\<close>

lemma chunk_prefix_positions:
  assumes "chunk_ok c" "chunk_text c = x @ y"
  shows "chunk_offset_to_offset_utf16 c (text_len x) = text_len_utf16 x"
    "chunk_offset_to_point c (text_len x) = Some (txt_lines (TextSummary_from x))"
    "chunk_offset_to_point_utf16 c (text_len x) = lines_utf16 (TextSummary_from x)"
    "chunk_offset_utf16_to_offset c (text_len_utf16 x) = text_len x"
    "chunk_point_to_offset c (txt_lines (TextSummary_from x)) = text_len x"
    "chunk_point_to_point_utf16 c (txt_lines (TextSummary_from x)) = lines_utf16 (TextSummary_from x)"
    "chunk_point_to_offset_utf16 c (txt_lines (TextSummary_from x)) = text_len_utf16 x"
    "chunk_point_utf16_to_offset c (lines_utf16 (TextSummary_from x)) = Some (text_len x)"
    "chunk_unclipped_point_utf16_to_point c (lines_utf16 (TextSummary_from x)) = Some (txt_lines (TextSummary_from x))"
    "chunk_clip_point_utf16 c (lines_utf16 (TextSummary_from x)) bias = Some (lines_utf16 (TextSummary_from x))"
proof -
  have "\<not> row (chunk_lines c) < row (txt_lines (TextSummary_from x))"
    using chunk_rows [OF assms(1)] assms(2) by (simp add: summary_lines)
  moreover have "txt_len_utf16 (TextSummary_from x) = text_len_utf16 x" using summary_ok_from [of x] by (simp add: summary_ok_def Let_def)
  moreover note chunk_point_to_offset_eq [OF assms] chunk_offset_to_point_eq [OF assms] chunk_offset_to_offset_utf16_eq [OF assms]
    chunk_offset_to_point_utf16_eq [OF assms] chunk_offset_utf16_to_offset_eq [OF assms] chunk_point_utf16_to_offset_eq [OF assms]
  ultimately show "chunk_offset_to_offset_utf16 c (text_len x) = text_len_utf16 x"
    "chunk_offset_to_point c (text_len x) = Some (txt_lines (TextSummary_from x))"
    "chunk_offset_to_point_utf16 c (text_len x) = lines_utf16 (TextSummary_from x)"
    "chunk_offset_utf16_to_offset c (text_len_utf16 x) = text_len x"
    "chunk_point_to_offset c (txt_lines (TextSummary_from x)) = text_len x"
    "chunk_point_to_point_utf16 c (txt_lines (TextSummary_from x)) = lines_utf16 (TextSummary_from x)"
    "chunk_point_to_offset_utf16 c (txt_lines (TextSummary_from x)) = text_len_utf16 x"
    "chunk_point_utf16_to_offset c (lines_utf16 (TextSummary_from x)) = Some (text_len x)"
    "chunk_unclipped_point_utf16_to_point c (lines_utf16 (TextSummary_from x)) = Some (txt_lines (TextSummary_from x))"
    "chunk_clip_point_utf16 c (lines_utf16 (TextSummary_from x)) bias = Some (lines_utf16 (TextSummary_from x))"
    by (simp_all add: chunk_point_to_offset_utf16_def chunk_point_to_point_utf16_def)
qed

end
