(* ===== verification/Rope_Positions.thy ===== *)
theory Rope_Positions
  imports Rope_Tree Rope_Chunk_Points
begin

text \<open>
  Positions in a rope (\<open>crates/rope/src/rope.rs\<close>): character boundaries, the conversions between
  byte offsets, UTF-16 offsets and points, clipping, and the lengths of lines.  Each looks a chunk
  up in the tree and asks the chunk for the rest.  Unsigned subtraction below zero is a panic.
\<close>

section \<open>The source\<close>

definition usize_sub :: "nat \<Rightarrow> nat \<Rightarrow> nat option" where
  "usize_sub a b = (if b \<le> a then Some (a - b) else None)"

definition rope_is_char_boundary :: "Rope \<Rightarrow> nat \<Rightarrow> bool option" where
  "rope_is_char_boundary r offset =
     (if is_empty (rope_chunks r) then Some (offset = 0)
      else let (start, _, item) = tree_find usize_dim (rope_chunks r) (cmp offset) Bias.Left in do {
        chunk_offset \<leftarrow> usize_sub offset start;
        Some (case item of Some chunk \<Rightarrow> chunk_is_char_boundary chunk chunk_offset | None \<Rightarrow> False) })"

definition chunk_assert_char_boundary :: "bool \<Rightarrow> Chunk \<Rightarrow> nat \<Rightarrow> bool option" where
  "chunk_assert_char_boundary panics c offset =
     (if chunk_is_char_boundary c offset then Some True else if panics then None else Some False)"

definition rope_assert_char_boundary :: "bool \<Rightarrow> Rope \<Rightarrow> nat \<Rightarrow> bool option" where
  "rope_assert_char_boundary panics r offset =
     (if is_empty (rope_chunks r) \<and> offset = 0 then Some True
      else let (start, _, item) = tree_find usize_dim (rope_chunks r) (cmp offset) Bias.Left in
        (case item of
           Some chunk \<Rightarrow> do { chunk_offset \<leftarrow> usize_sub offset start; chunk_assert_char_boundary panics chunk chunk_offset }
         | None \<Rightarrow> if panics then None else Some False))"

definition rope_floor_char_boundary :: "Rope \<Rightarrow> nat \<Rightarrow> nat option" where
  "rope_floor_char_boundary r index =
     (if rope_len r \<le> index then Some (rope_len r)
      else let (start, _, item) = tree_find usize_dim (rope_chunks r) (cmp index) Bias.Left in do {
        chunk_offset \<leftarrow> usize_sub index start;
        Some (case item of Some chunk \<Rightarrow> start + floor_boundary (chunk_text chunk) chunk_offset | None \<Rightarrow> rope_len r) })"

definition rope_ceil_char_boundary :: "Rope \<Rightarrow> nat \<Rightarrow> nat option" where
  "rope_ceil_char_boundary r index =
     (if rope_len r < index then Some (rope_len r)
      else let (start, _, item) = tree_find usize_dim (rope_chunks r) (cmp index) Bias.Left in do {
        chunk_offset \<leftarrow> usize_sub index start;
        Some (case item of Some chunk \<Rightarrow> start + ceil_boundary (chunk_text chunk) chunk_offset | None \<Rightarrow> rope_len r) })"

definition rope_clip_offset :: "Rope \<Rightarrow> nat \<Rightarrow> Bias \<Rightarrow> nat option" where
  "rope_clip_offset r offset bias =
     (case bias of Bias.Left \<Rightarrow> rope_floor_char_boundary r offset | Bias.Right \<Rightarrow> rope_ceil_char_boundary r offset)"

subsection \<open>Conversions\<close>

definition rope_offset_to_offset_utf16 :: "Rope \<Rightarrow> nat \<Rightarrow> OffsetUtf16 option" where
  "rope_offset_to_offset_utf16 r offset =
     (if txt_len (rope_summary r) \<le> offset then Some (txt_len_utf16 (rope_summary r))
      else let (start, _, item) = tree_find (Dimensions usize_dim OffsetUtf16_dim) (rope_chunks r) (fst_target (cmp offset)) Bias.Left in do {
        overshoot \<leftarrow> usize_sub offset (fst start);
        Some (snd start + (case item of Some chunk \<Rightarrow> chunk_offset_to_offset_utf16 chunk overshoot | None \<Rightarrow> 0)) })"

definition rope_offset_utf16_to_offset :: "Rope \<Rightarrow> OffsetUtf16 \<Rightarrow> nat option" where
  "rope_offset_utf16_to_offset r offset =
     (if txt_len_utf16 (rope_summary r) \<le> offset then Some (txt_len (rope_summary r))
      else let (start, _, item) = tree_find (Dimensions OffsetUtf16_dim usize_dim) (rope_chunks r) (fst_target (cmp offset)) Bias.Left in do {
        overshoot \<leftarrow> usize_sub offset (fst start);
        Some (snd start + (case item of Some chunk \<Rightarrow> chunk_offset_utf16_to_offset chunk overshoot | None \<Rightarrow> 0)) })"

definition rope_offset_to_point :: "Rope \<Rightarrow> nat \<Rightarrow> Point option" where
  "rope_offset_to_point r offset =
     (if txt_len (rope_summary r) \<le> offset then Some (txt_lines (rope_summary r))
      else let (start, _, item) = tree_find (Dimensions usize_dim Point_dim) (rope_chunks r) (fst_target (cmp offset)) Bias.Left in do {
        overshoot \<leftarrow> usize_sub offset (fst start);
        p \<leftarrow> (case item of Some chunk \<Rightarrow> chunk_offset_to_point chunk overshoot | None \<Rightarrow> Some Point_zero);
        Some (Point_add (snd start) p) })"

definition rope_offset_to_point_utf16 :: "Rope \<Rightarrow> nat \<Rightarrow> PointUtf16 option" where
  "rope_offset_to_point_utf16 r offset =
     (if txt_len (rope_summary r) \<le> offset then Some (lines_utf16 (rope_summary r))
      else let (start, _, item) = tree_find (Dimensions usize_dim PointUtf16_dim) (rope_chunks r) (fst_target (cmp offset)) Bias.Left in do {
        overshoot \<leftarrow> usize_sub offset (fst start);
        Some (Point_add (snd start) (case item of Some chunk \<Rightarrow> chunk_offset_to_point_utf16 chunk overshoot | None \<Rightarrow> Point_zero)) })"

definition rope_point_to_point_utf16 :: "Rope \<Rightarrow> Point \<Rightarrow> PointUtf16 option" where
  "rope_point_to_point_utf16 r point =
     (if Point_cmp point (txt_lines (rope_summary r)) \<noteq> Less then Some (lines_utf16 (rope_summary r))
      else let (start, _, item) = tree_find (Dimensions Point_dim PointUtf16_dim) (rope_chunks r) (fst_target (Point_cmp point)) Bias.Left in do {
        overshoot \<leftarrow> Point_sub point (fst start);
        Some (Point_add (snd start) (case item of Some chunk \<Rightarrow> chunk_point_to_point_utf16 chunk overshoot | None \<Rightarrow> Point_zero)) })"

definition rope_point_utf16_to_point :: "Rope \<Rightarrow> PointUtf16 \<Rightarrow> Point option" where
  "rope_point_utf16_to_point r point =
     (if Point_cmp point (lines_utf16 (rope_summary r)) \<noteq> Less then Some (txt_lines (rope_summary r))
      else do {
        (cursor, _) \<leftarrow> cursor_seek (Dimensions PointUtf16_dim Point_dim) (cursor_new (Dimensions PointUtf16_dim Point_dim) (rope_chunks r))
          (fst_target (Point_cmp point)) Bias.Left;
        overshoot \<leftarrow> Point_sub point (fst (c_position cursor));
        item \<leftarrow> cursor_item cursor;
        p \<leftarrow> (case item of
            Some chunk \<Rightarrow> do { offset \<leftarrow> chunk_point_utf16_to_offset chunk overshoot; chunk_offset_to_point chunk offset }
          | None \<Rightarrow> Some Point_zero);
        Some (Point_add (snd (c_position cursor)) p) })"

definition rope_point_to_offset :: "Rope \<Rightarrow> Point \<Rightarrow> nat option" where
  "rope_point_to_offset r point =
     (if Point_cmp point (txt_lines (rope_summary r)) \<noteq> Less then Some (txt_len (rope_summary r))
      else let (start, _, item) = tree_find (Dimensions Point_dim usize_dim) (rope_chunks r) (fst_target (Point_cmp point)) Bias.Left in do {
        overshoot \<leftarrow> Point_sub point (fst start);
        Some (snd start + (case item of Some chunk \<Rightarrow> chunk_point_to_offset chunk overshoot | None \<Rightarrow> 0)) })"

definition rope_point_to_offset_utf16 :: "Rope \<Rightarrow> Point \<Rightarrow> OffsetUtf16 option" where
  "rope_point_to_offset_utf16 r point =
     (if Point_cmp point (txt_lines (rope_summary r)) \<noteq> Less then Some (txt_len_utf16 (rope_summary r))
      else do {
        (cursor, _) \<leftarrow> cursor_seek (Dimensions Point_dim OffsetUtf16_dim) (cursor_new (Dimensions Point_dim OffsetUtf16_dim) (rope_chunks r))
          (fst_target (Point_cmp point)) Bias.Left;
        overshoot \<leftarrow> Point_sub point (fst (c_position cursor));
        item \<leftarrow> cursor_item cursor;
        Some (snd (c_position cursor) + (case item of Some chunk \<Rightarrow> chunk_point_to_offset_utf16 chunk overshoot | None \<Rightarrow> 0)) })"

text \<open>\<open>point_utf16_to_offset\<close> and \<open>unclipped_point_utf16_to_offset\<close> differ in a log message only,
  and so do the two callers of the implementation for UTF-16 offsets.\<close>

definition rope_point_utf16_to_offset :: "Rope \<Rightarrow> PointUtf16 \<Rightarrow> nat option" where
  "rope_point_utf16_to_offset r point =
     (if Point_cmp point (lines_utf16 (rope_summary r)) \<noteq> Less then Some (txt_len (rope_summary r))
      else let (start, _, item) = tree_find (Dimensions PointUtf16_dim usize_dim) (rope_chunks r) (fst_target (Point_cmp point)) Bias.Left in do {
        overshoot \<leftarrow> Point_sub point (fst start);
        offset \<leftarrow> (case item of Some chunk \<Rightarrow> chunk_point_utf16_to_offset chunk overshoot | None \<Rightarrow> Some 0);
        Some (snd start + offset) })"

definition rope_point_utf16_to_offset_utf16 :: "Rope \<Rightarrow> PointUtf16 \<Rightarrow> OffsetUtf16 option" where
  "rope_point_utf16_to_offset_utf16 r point =
     (if Point_cmp point (lines_utf16 (rope_summary r)) \<noteq> Less then Some (txt_len_utf16 (rope_summary r))
      else do {
        (cursor, _) \<leftarrow> cursor_seek (Dimensions PointUtf16_dim OffsetUtf16_dim) (cursor_new (Dimensions PointUtf16_dim OffsetUtf16_dim) (rope_chunks r))
          (fst_target (Point_cmp point)) Bias.Left;
        overshoot \<leftarrow> Point_sub point (fst (c_position cursor));
        item \<leftarrow> cursor_item cursor;
        offset \<leftarrow> (case item of
            Some chunk \<Rightarrow> do { offset \<leftarrow> chunk_point_utf16_to_offset chunk overshoot; Some (chunk_offset_to_offset_utf16 chunk offset) }
          | None \<Rightarrow> Some 0);
        Some (snd (c_position cursor) + offset) })"

definition rope_unclipped_point_utf16_to_point :: "Rope \<Rightarrow> PointUtf16 \<Rightarrow> Point option" where
  "rope_unclipped_point_utf16_to_point r point =
     (if Point_cmp point (lines_utf16 (rope_summary r)) \<noteq> Less then Some (txt_lines (rope_summary r))
      else let (start, _, item) = tree_find (Dimensions PointUtf16_dim Point_dim) (rope_chunks r) (fst_target (Point_cmp point)) Bias.Left in do {
        overshoot \<leftarrow> Point_sub point (fst start);
        p \<leftarrow> (case item of Some chunk \<Rightarrow> chunk_unclipped_point_utf16_to_point chunk overshoot | None \<Rightarrow> Some Point_zero);
        Some (Point_add (snd start) p) })"

subsection \<open>Clipping\<close>

definition rope_clip_offset_utf16 :: "Rope \<Rightarrow> OffsetUtf16 \<Rightarrow> Bias \<Rightarrow> OffsetUtf16 option" where
  "rope_clip_offset_utf16 r offset bias =
     (let (start, _, item) = tree_find OffsetUtf16_dim (rope_chunks r) (cmp offset) Bias.Right in
      case item of
        Some chunk \<Rightarrow> do { overshoot \<leftarrow> usize_sub offset start; Some (start + chunk_clip_offset_utf16 chunk overshoot bias) }
      | None \<Rightarrow> Some (txt_len_utf16 (rope_summary r)))"

definition rope_clip_point :: "(ustr \<Rightarrow> nat \<Rightarrow> bool) \<Rightarrow> Rope \<Rightarrow> Point \<Rightarrow> Bias \<Rightarrow> Point option" where
  "rope_clip_point grapheme r point bias =
     (let (start, _, item) = tree_find Point_dim (rope_chunks r) (Point_cmp point) Bias.Right in
      case item of
        Some chunk \<Rightarrow> do {
          overshoot \<leftarrow> Point_sub point start;
          p \<leftarrow> chunk_clip_point grapheme chunk overshoot bias;
          Some (Point_add start p) }
      | None \<Rightarrow> Some (txt_lines (rope_summary r)))"

definition rope_clip_point_utf16 :: "Rope \<Rightarrow> PointUtf16 \<Rightarrow> Bias \<Rightarrow> PointUtf16 option" where
  "rope_clip_point_utf16 r point bias =
     (let (start, _, item) = tree_find PointUtf16_dim (rope_chunks r) (Point_cmp point) Bias.Right in
      case item of
        Some chunk \<Rightarrow> do {
          overshoot \<leftarrow> Point_sub point start;
          p \<leftarrow> chunk_clip_point_utf16 chunk overshoot bias;
          Some (Point_add start p) }
      | None \<Rightarrow> Some (lines_utf16 (rope_summary r)))"

definition rope_line_len :: "(ustr \<Rightarrow> nat \<Rightarrow> bool) \<Rightarrow> Rope \<Rightarrow> nat \<Rightarrow> nat option" where
  "rope_line_len grapheme r n = map_option column (rope_clip_point grapheme r (Point_new n (2 ^ 32 - 1)) Bias.Left)"

section \<open>Dimensions as positions of a text\<close>

definition key_target :: "('d \<Rightarrow> 'k::linorder) \<Rightarrow> 'k \<Rightarrow> 'd target" where
  "key_target key k = (\<lambda>p. cmp k (key p))"

text \<open>What the lookups need of a dimension: it maps a prefix of the text to its end position, and
  positions grow with the prefix, in the order that the seek compares with.\<close>

locale text_dim =
  fixes dim :: "(ChunkSummary, 'd) dimension_ops" and pos :: "ustr \<Rightarrow> 'd" and key :: "'d \<Rightarrow> 'k::linorder"
  assumes zero_pos: "dim_zero dim = pos []"
    and add_zero: "dim_add dim p ChunkSummary_zero = p"
    and add_pos: "summary_text s = TextSummary_from t \<Longrightarrow> dim_add dim (pos a) s = pos (a @ t)"
    and add_add: "dim_add dim p (ChunkSummary_add s s') = dim_add dim (dim_add dim p s) s'"
    and pos_mono: "text_len (a @ b) < 2 ^ 32 \<Longrightarrow> b \<noteq> [] \<Longrightarrow> key (pos a) < key (pos (a @ b))"

sublocale text_dim \<subseteq> dimension_algebra chunk_ops dim
  by unfold_locales (simp add: chunk_ops_def add_add)

context text_dim
begin

lemma passes_key: "passes (key_target key k) bias p \<longleftrightarrow> key p < k \<or> key p = k \<and> bias = Bias.Right"
  by (auto simp: passes_def key_target_def cmp_def)

lemma pos_le: "text_len (a @ b) < 2 ^ 32 \<Longrightarrow> key (pos a) \<le> key (pos (a @ b))"
  using pos_mono [of a b] by (cases "b = []") auto

lemma pos_less_iff:
  assumes "a @ b = a' @ b'" "text_len (a @ b) < 2 ^ 32"
  shows "key (pos a) < key (pos a') \<longleftrightarrow> length a < length a'"
proof -
  have less: "key (pos u) < key (pos v)" if "length u < length v" "u @ w = v @ w'" "text_len (u @ w) < 2 ^ 32" for u v w w'
  proof -
    note uv = that
    obtain z where z: "v = u @ z" using uv(1,2) by (auto simp: append_eq_append_conv2)
    then have "text_len (u @ z) < 2 ^ 32" "z \<noteq> []" using uv by auto
    then show ?thesis unfolding z by (rule pos_mono)
  qed
  consider "length a < length a'" | "a = a'" | "length a' < length a"
    using assms(1) by (metis append_eq_append_conv linorder_neqE_nat)
  then show ?thesis
  proof cases
    case 1
    then show ?thesis using less [of a a' b b'] assms by simp
  next
    case 3
    then show ?thesis using less [of a' a b' b] assms by auto
  qed auto
qed

lemma positions_pos:
  assumes "\<forall>c \<in> set cs. chunk_ok c" "q \<in> set (positions dim (item_summary chunk_ops) (pos a) cs)"
  obtains cs1 cs2 where "cs = cs1 @ cs2" "q = pos (a @ chunks_text cs1)"
  using assms
proof (induction cs arbitrary: a thesis)
  case (Cons c cs)
  have e: "dim_add dim (pos a) (item_summary chunk_ops c) = pos (a @ chunk_text c)"
    using Cons.prems(2) summary_text_chunk [of c] by (simp add: chunk_ops_def add_pos)
  from Cons.prems(3) consider "q = pos (a @ chunk_text c)" | "q \<in> set (positions dim (item_summary chunk_ops) (pos (a @ chunk_text c)) cs)"
    by (auto simp: Let_def e)
  then show ?case
  proof cases
    case 1
    then show ?thesis using Cons.prems(1) [of "[c]" cs] by simp
  next
    case 2
    then obtain cs1 cs2 where "cs = cs1 @ cs2" "q = pos ((a @ chunk_text c) @ chunks_text cs1)"
      using Cons.IH [of "a @ chunk_text c"] Cons.prems(2) by auto
    then show ?thesis using Cons.prems(1) [of "c # cs1" cs2] by simp
  qed
qed simp

lemma advance_pos: "\<forall>c \<in> set cs. chunk_ok c \<Longrightarrow> adv (pos a) cs = pos (a @ chunks_text cs)"
  by (induction cs arbitrary: a) (simp_all add: chunk_ops_def add_pos summary_text_chunk)

lemma key_mono:
  assumes "\<forall>c \<in> set cs. chunk_ok c" "text_len (a @ chunks_text cs) < 2 ^ 32"
  shows "monot (passes (key_target key k) bias) (pos a) cs"
  using assms
proof (induction cs arbitrary: a)
  case (Cons c cs)
  have e: "dim_add dim (pos a) (item_summary chunk_ops c) = pos (a @ chunk_text c)"
    using Cons.prems(1) summary_text_chunk [of c] by (simp add: chunk_ops_def add_pos)
  have later: "key (pos (a @ chunk_text c)) \<le> key q"
    if "q \<in> set (positions dim (item_summary chunk_ops) (pos (a @ chunk_text c)) cs)" for q
  proof -
    note q_in = that
    have "\<forall>c \<in> set cs. chunk_ok c" using Cons.prems(1) by simp
    then obtain cs1 cs2 where q: "cs = cs1 @ cs2" "q = pos ((a @ chunk_text c) @ chunks_text cs1)"
      using q_in by (rule positions_pos)
    then have "text_len ((a @ chunk_text c) @ chunks_text cs1) < 2 ^ 32" using Cons.prems(2) by simp
    then show ?thesis unfolding q(2) by (rule pos_le)
  qed
  have "monot (passes (key_target key k) bias) (pos (a @ chunk_text c)) cs" using Cons by simp
  then show ?case using later by (auto simp: seek_mono_def Let_def e passes_key dest!: later)
qed (simp add: seek_mono_def)

text \<open>The linear scan over the chunks of a rope stops in the chunk that holds the target.\<close>

lemma scan_chunks:
  assumes "rope_ok r" "text_len (rope_text r) < 2 ^ 32"
    "scan (passes (key_target key k) bias) (dim_zero dim) (flatten (rope_chunks r)) = (cs, p, rest)"
  shows "flatten (rope_chunks r) = cs @ rest" "p = pos (chunks_text cs)"
    "cs \<noteq> [] \<Longrightarrow> passes (key_target key k) bias p"
    "rest \<noteq> [] \<Longrightarrow> \<not> passes (key_target key k) bias (pos (chunks_text cs @ chunk_text (hd rest)))"
    "rest \<noteq> [] \<Longrightarrow> dim_add dim p (item_summary chunk_ops (hd rest)) = pos (chunks_text cs @ chunk_text (hd rest))"
proof -
  have ok: "\<forall>c \<in> set (flatten (rope_chunks r)). chunk_ok c" using assms(1) by (simp add: rope_ok_def chunks_ok_def)
  note s = seek_linear_split [OF assms(3)]
  show fl: "flatten (rope_chunks r) = cs @ rest" using s by blast
  have ok': "\<forall>c \<in> set cs. chunk_ok c" using ok fl by auto
  show p: "p = pos (chunks_text cs)" using s advance_pos [OF ok', of "[]"] by (simp add: zero_pos)
  show "passes (key_target key k) bias p" if "cs \<noteq> []" using s advance_in_positions [OF that, of dim "item_summary chunk_ops" "dim_zero dim"] by auto
  have e: "dim_add dim p (item_summary chunk_ops (hd rest)) = pos (chunks_text cs @ chunk_text (hd rest))" if "rest \<noteq> []"
    using that ok fl summary_text_chunk [of "hd rest"] by (simp add: p chunk_ops_def add_pos)
  then show "rest \<noteq> [] \<Longrightarrow> dim_add dim p (item_summary chunk_ops (hd rest)) = pos (chunks_text cs @ chunk_text (hd rest))" .
  show "\<not> passes (key_target key k) bias (pos (chunks_text cs @ chunk_text (hd rest)))" if "rest \<noteq> []" using s that e by simp
qed

lemma rope_mono:
  assumes "rope_ok r" "text_len (rope_text r) < 2 ^ 32"
  shows "monot (passes (key_target key k) bias) (dim_zero dim) (flatten (rope_chunks r))"
  using assms key_mono [of "flatten (rope_chunks r)" "[]"] by (simp add: rope_ok_def chunks_ok_def rope_text_def zero_pos)

text \<open>Looking a chunk up.\<close>

lemma find_chunk:
  assumes "rope_ok r" "text_len (rope_text r) < 2 ^ 32"
  obtains (past) q where "tree_find dim (rope_chunks r) (key_target key k) bias = (pos (rope_text r), q, None)"
      "rope_text r \<noteq> [] \<Longrightarrow> passes (key_target key k) bias (pos (rope_text r))"
  | (inside) cs c ds q where "flatten (rope_chunks r) = cs @ c # ds" "chunk_ok c"
      "tree_find dim (rope_chunks r) (key_target key k) bias = (pos (chunks_text cs), q, Some c)"
      "cs \<noteq> [] \<Longrightarrow> passes (key_target key k) bias (pos (chunks_text cs))"
      "\<not> passes (key_target key k) bias (pos (chunks_text cs @ chunk_text c))"
proof (cases "flatten (rope_chunks r) = []")
  case True
  have wf: "wf_tree chunk_ops (rope_chunks r)" using assms(1) by (simp add: rope_ok_def)
  have t: "rope_text r = []" by (simp add: rope_text_def True)
  have "summary (rope_chunks r) = ChunkSummary_zero"
    using rope_sum.wf_summary [OF wf] True by (simp add: items_summary_def sum_summaries_def chunk_ops_def)
  moreover obtain s ss where "rope_chunks r = Leaf s [] ss"
    using True rope_sum.is_empty_flatten [OF wf] by (cases "rope_chunks r") auto
  ultimately have "tree_find dim (rope_chunks r) (key_target key k) bias = (pos [], pos [], None)"
    by (simp add: tree_find_def find_tree_def Let_def zero_pos add_zero)
  with t show ?thesis by (intro past) simp_all
next
  case False
  have wf: "wf_tree chunk_ops (rope_chunks r)" and ok: "\<forall>c \<in> set (flatten (rope_chunks r)). chunk_ok c"
    using assms(1) by (simp_all add: rope_ok_def chunks_ok_def)
  obtain cs p rest where sc: "scan (passes (key_target key k) bias) (dim_zero dim) (flatten (rope_chunks r)) = (cs, p, rest)"
    by (cases "scan (passes (key_target key k) bias) (dim_zero dim) (flatten (rope_chunks r))") auto
  note s = scan_chunks [OF assms sc] and f = tree_find_ok(1) [OF wf False rope_mono [OF assms] sc]
  show ?thesis
  proof (cases rest)
    case Nil
    then have "p = pos (rope_text r)" using s(1,2) by (simp add: rope_text_def)
    then show ?thesis using f Nil s False by (intro past) (simp_all add: list_first_def)
  next
    case (Cons c ds)
    then show ?thesis using f s ok by (intro inside [of cs c ds]) (simp_all add: list_first_def)
  qed
qed

text \<open>The chunk that the target of a prefix leads to, for the left bias: the one it ends in.\<close>

lemma prefix_in_chunk:
  assumes "text_len (rope_text r) < 2 ^ 32" "rope_text r = a @ b" "flatten (rope_chunks r) = cs @ c # ds"
    "cs \<noteq> [] \<Longrightarrow> passes (key_target key (key (pos a))) bias (pos (chunks_text cs))"
    "\<not> passes (key_target key (key (pos a))) bias (pos (chunks_text cs @ chunk_text c))"
  obtains x y where "chunk_text c = x @ y" "a = chunks_text cs @ x" "bias = Bias.Right \<Longrightarrow> y \<noteq> []"
proof -
  have t: "chunks_text cs @ (chunk_text c @ chunks_text ds) = a @ b" using assms(2,3) by (simp add: rope_text_def)
  have len: "text_len (a @ b) < 2 ^ 32" using assms(1,2) by simp
  have "length (chunks_text cs) \<le> length a"
  proof (cases "cs = []")
    case False
    then have "\<not> key (pos a) < key (pos (chunks_text cs))" using assms(4) by (auto simp: passes_key)
    then show ?thesis using pos_less_iff [of a b "chunks_text cs" "chunk_text c @ chunks_text ds"] t len by simp
  qed simp
  then obtain x where x: "a = chunks_text cs @ x" using t by (auto simp: append_eq_append_conv2)
  have key: "key (pos a) \<le> key (pos (chunks_text cs @ chunk_text c))" "bias = Bias.Right \<Longrightarrow> key (pos a) \<noteq> key (pos (chunks_text cs @ chunk_text c))"
    using assms(5) by (auto simp: passes_key)
  then have "length a \<le> length (chunks_text cs @ chunk_text c)"
    using pos_less_iff [of "chunks_text cs @ chunk_text c" "chunks_text ds" a b] t len by auto
  then obtain y where y: "chunk_text c = x @ y" using t x by (auto simp: append_eq_append_conv2)
  moreover have "y \<noteq> []" if "bias = Bias.Right" using key(2) [OF that] x y by auto
  ultimately show ?thesis using that x by blast
qed

lemma find_prefix:
  assumes "rope_ok r" "text_len (rope_text r) < 2 ^ 32" "rope_text r = a @ b" "b \<noteq> []"
  obtains c x y p q where "tree_find dim (rope_chunks r) (key_target key (key (pos a))) bias = (pos p, q, Some c)"
    "chunk_ok c" "chunk_text c = x @ y" "a = p @ x"
proof (cases rule: find_chunk [OF assms(1,2), of "key (pos a)" bias])
  case (1 q)
  have "key (pos a) < key (pos (rope_text r))" using pos_mono [of a b] assms(2-4) by simp
  then show ?thesis using 1(2) assms(3,4) by (auto simp: passes_key)
next
  case (2 cs c ds q)
  obtain x y where "chunk_text c = x @ y" "a = chunks_text cs @ x" by (rule prefix_in_chunk [OF assms(2,3) 2(1,4,5)])
  then show ?thesis using that 2 by blast
qed

text \<open>The same for a cursor.\<close>

lemma seek_prefix:
  assumes "rope_ok r" "text_len (rope_text r) < 2 ^ 32" "height (rope_chunks r) < 16" "rope_text r = a @ b" "b \<noteq> []"
  obtains c x y p cursor found where "cursor_seek dim (cursor_new dim (rope_chunks r)) (key_target key (key (pos a))) bias = Some (cursor, found)"
    "c_position cursor = pos p" "cursor_item cursor = Some (Some c)"
    "chunk_ok c" "chunk_text c = x @ y" "a = p @ x"
proof -
  let ?c = "cursor_new dim (rope_chunks r)"
  have wf: "wf_tree chunk_ops (rope_chunks r)" and ok: "\<forall>c \<in> set (flatten (rope_chunks r)). chunk_ok c"
    using assms(1) by (simp_all add: rope_ok_def chunks_ok_def)
  obtain cs p rest where sc: "scan (passes (key_target key (key (pos a))) bias) (dim_zero dim) (flatten (rope_chunks r)) = (cs, p, rest)"
    by (cases "scan (passes (key_target key (key (pos a))) bias) (dim_zero dim) (flatten (rope_chunks r))") auto
  note s = scan_chunks [OF assms(1,2) sc]
  have less: "key (pos a) < key (pos (rope_text r))" using pos_mono [of a b] assms(2,4,5) by simp
  have "key (pos []) \<le> key (pos a)" using pos_le [of "[]" a] assms(2,4) by simp
  then have "key_target key (key (pos a)) (dim_zero dim) \<noteq> Less" by (auto simp: key_target_def zero_pos cmp_def)
  then obtain cursor found where c: "cursor_seek dim ?c (key_target key (key (pos a))) bias = Some (cursor, found)"
    "cursor_at chunk_ops dim cursor cs rest" "c_tree cursor = rope_chunks r" "c_position cursor = p"
    using cursor_seek_ok [of ?c "key_target key (key (pos a))" bias cs p rest] wf assms(3) rope_mono [OF assms(1,2)] sc
    by (auto simp: cursor_fresh_new)
  have "rest \<noteq> []"
  proof
    assume rest: "rest = []"
    then have "p = pos (rope_text r)" "cs \<noteq> []" using s(1,2) assms(4,5) by (auto simp: rope_text_def)
    then show False using s(3) less by (auto simp: passes_key)
  qed
  then obtain x ds where rest: "rest = x # ds" by (cases rest) auto
  have fl: "flatten (rope_chunks r) = cs @ x # ds" using s(1) rest by simp
  have "cs \<noteq> [] \<Longrightarrow> passes (key_target key (key (pos a))) bias (pos (chunks_text cs))"
    "\<not> passes (key_target key (key (pos a))) bias (pos (chunks_text cs @ chunk_text x))"
    using s(2-4) rest by auto
  then obtain u v where "chunk_text x = u @ v" "a = chunks_text cs @ u" by (rule prefix_in_chunk [OF assms(2,4) fl])
  moreover have "cursor_item cursor = Some (Some x)" using cursor_item_ok(1) [OF _ c(2)] wf c(3) rest by (simp add: list_first_def)
  ultimately show ?thesis using that c(1,4) s(2) ok fl by auto
qed

end

abbreviation point_of :: "ustr \<Rightarrow> Point" where
  "point_of a \<equiv> txt_lines (TextSummary_from a)"

abbreviation point_utf16_of :: "ustr \<Rightarrow> PointUtf16" where
  "point_utf16_of a \<equiv> lines_utf16 (TextSummary_from a)"

lemma point_of_append:
  "point_of (a @ b) = Point_add (point_of a) (point_of b)" "point_utf16_of (a @ b) = Point_add (point_utf16_of a) (point_utf16_of b)"
  by (simp_all add: TextSummary_from_append TextSummary_add_sel lines_utf16_add)

lemma small_points: "text_len a < 2 ^ 32 \<Longrightarrow> small_point (point_of a)" "text_len a < 2 ^ 32 \<Longrightarrow> small_point (point_utf16_of a)"
  using summary_bounded [of a] by (simp_all add: small_point_def lines_utf16_def)

lemma Point_less_iff: "Point_cmp p q = Less \<longleftrightarrow> pack_point p < pack_point q"
  by (auto simp: Point_cmp_def cmp_def)

lemma point_grows:
  assumes "text_len (a @ b) < 2 ^ 32" "b \<noteq> []"
  shows "pack_point (point_of a) < pack_point (point_of (a @ b))" "pack_point (point_utf16_of a) < pack_point (point_utf16_of (a @ b))"
proof -
  have small: "text_len a < 2 ^ 32" using assms(1) by simp
  have line: "0 < text_len (last (split_lines b)) \<and> 0 < text_len_utf16 (last (split_lines b))" if "newline_count b = 0"
    using that assms(2) by (simp add: newline_count_0 split_lines_none zero_less_iff_neq_zero)
  have less: "Point_cmp p (Point_add p q) = Less"
    if "small_point p" "small_point (Point_add p q)" "row q = 0 \<Longrightarrow> 0 < column q" for p q
    using that by (subst Point_cmp_lexicographic) (auto simp: Point_add_def Point_new_def cmp_def)
  have "Point_cmp (point_of a) (point_of (a @ b)) = Less" "Point_cmp (point_utf16_of a) (point_utf16_of (a @ b)) = Less"
    using small_points [OF small] small_points [OF assms(1)] line unfolding point_of_append
    by (auto intro!: less simp: summary_lines)
  then show "pack_point (point_of a) < pack_point (point_of (a @ b))" "pack_point (point_utf16_of a) < pack_point (point_utf16_of (a @ b))"
    by (simp_all add: Point_less_iff)
qed

lemma lines_utf16_zero: "lines_utf16 TextSummary_zero = Point_zero"
  by (simp add: lines_utf16_def TextSummary_zero_def Point_zero_def Point_new_def)

interpretation usize_pos: text_dim usize_dim text_len "\<lambda>n. n"
  by unfold_locales (simp_all add: usize_dim_def ChunkSummary_zero.rep_eq ChunkSummary_add.rep_eq TextSummary_add_sel TextSummary_zero_def summary_fields zero_less_iff_neq_zero)

interpretation utf16_pos: text_dim OffsetUtf16_dim text_len_utf16 "\<lambda>n. n"
  by unfold_locales (simp_all add: OffsetUtf16_dim_def ChunkSummary_zero.rep_eq ChunkSummary_add.rep_eq TextSummary_add_sel TextSummary_zero_def summary_fields zero_less_iff_neq_zero)

interpretation point_pos: text_dim Point_dim point_of pack_point
  by unfold_locales
    (simp_all add: Point_dim_def ChunkSummary_zero.rep_eq ChunkSummary_add.rep_eq TextSummary_add_sel TextSummary_zero_def
      Point_add_zero Point_add_assoc point_of_append TextSummary_from_Nil point_grows [unfolded point_of_append])

interpretation point_utf16_pos: text_dim PointUtf16_dim point_utf16_of pack_point
  by unfold_locales
    (simp_all add: PointUtf16_dim_def ChunkSummary_zero.rep_eq ChunkSummary_add.rep_eq lines_utf16_add lines_utf16_zero
      Point_add_zero Point_add_assoc point_of_append TextSummary_from_Nil point_grows [unfolded point_of_append])

lemma pair_dim:
  assumes "text_dim d1 pos1 key1" "text_dim d2 pos2 key2"
  shows "text_dim (Dimensions d1 d2) (\<lambda>a. (pos1 a, pos2 a)) (\<lambda>p. key1 (fst p))"
  using assms by (simp add: text_dim_def Dimensions_def)

lemma key_targets:
  "key_target (\<lambda>n. n) k = cmp k" "key_target pack_point (pack_point p) = Point_cmp p"
  "key_target (\<lambda>q. fst q) k = fst_target (cmp k)" "key_target (\<lambda>q. pack_point (fst q)) (pack_point p) = fst_target (Point_cmp p)"
  by (simp_all add: key_target_def fst_target_def Point_cmp_def fun_eq_iff)

section \<open>Conversions of positions\<close>

text \<open>A prefix that is not the whole text lies before the end in every dimension.\<close>

lemma prefix_before_end:
  assumes "rope_ok r" "text_len (rope_text r) < 2 ^ 32" "rope_text r = a @ b" "b \<noteq> []"
  shows "\<not> txt_len (rope_summary r) \<le> text_len a" "\<not> txt_len_utf16 (rope_summary r) \<le> text_len_utf16 a"
    "Point_cmp (point_of a) (txt_lines (rope_summary r)) = Less" "Point_cmp (point_utf16_of a) (lines_utf16 (rope_summary r)) = Less"
  using assms point_grows [of a b]
  by (simp_all add: rope_summary_eq summary_fields Point_less_iff zero_less_iff_neq_zero not_le)

lemma prefix_at_end:
  assumes "rope_ok r" "rope_text r = a @ []"
  shows "rope_summary r = TextSummary_from a" "Point_cmp p p = Equal"
  using assms by (simp_all add: rope_summary_eq Point_cmp_def)

lemmas prefix_pieces = point_of_append Point_sub_add usize_sub_def

text \<open>The chunk that holds the end of a proper prefix, in two dimensions at once.\<close>

lemma find_pair:
  assumes "text_dim d1 pos1 key1" "text_dim d2 pos2 key2" "rope_ok r" "text_len (rope_text r) < 2 ^ 32" "rope_text r = a @ b" "b \<noteq> []"
  obtains c x y p q where
    "tree_find (Dimensions d1 d2) (rope_chunks r) (key_target (\<lambda>p. key1 (fst p)) (key1 (pos1 a))) Bias.Left = ((pos1 p, pos2 p), q, Some c)"
    "chunk_ok c" "chunk_text c = x @ y" "a = p @ x"
  by (rule text_dim.find_prefix [OF pair_dim [OF assms(1,2)] assms(3-6), of Bias.Left]) auto

lemma seek_pair:
  assumes "text_dim d1 pos1 key1" "text_dim d2 pos2 key2" "rope_ok r" "text_len (rope_text r) < 2 ^ 32"
    "height (rope_chunks r) < 16" "rope_text r = a @ b" "b \<noteq> []"
  obtains c x y p cursor found where
    "cursor_seek (Dimensions d1 d2) (cursor_new (Dimensions d1 d2) (rope_chunks r))
      (key_target (\<lambda>p. key1 (fst p)) (key1 (pos1 a))) Bias.Left = Some (cursor, found)"
    "c_position cursor = (pos1 p, pos2 p)" "cursor_item cursor = Some (Some c)" "chunk_ok c" "chunk_text c = x @ y" "a = p @ x"
  by (rule text_dim.seek_prefix [OF pair_dim [OF assms(1,2)] assms(3-7), of Bias.Left]) auto

lemmas usize_dim_ok = usize_pos.text_dim_axioms and utf16_dim_ok = utf16_pos.text_dim_axioms
  and point_dim_ok = point_pos.text_dim_axioms and point_utf16_dim_ok = point_utf16_pos.text_dim_axioms

lemma rope_offset_to_offset_utf16_eq:
  assumes "rope_ok r" "text_len (rope_text r) < 2 ^ 32" "rope_text r = a @ b"
  shows "rope_offset_to_offset_utf16 r (text_len a) = Some (text_len_utf16 a)"
proof (cases "b = []")
  case False
  show ?thesis
    by (rule find_pair [OF usize_dim_ok utf16_dim_ok assms False])
      (use prefix_before_end [OF assms False] in \<open>simp add: rope_offset_to_offset_utf16_def key_targets chunk_prefix_positions prefix_pieces\<close>)
qed (use assms(3) in \<open>simp add: rope_offset_to_offset_utf16_def prefix_at_end [OF assms(1)] summary_fields\<close>)

lemma rope_offset_to_point_eq:
  assumes "rope_ok r" "text_len (rope_text r) < 2 ^ 32" "rope_text r = a @ b"
  shows "rope_offset_to_point r (text_len a) = Some (point_of a)"
proof (cases "b = []")
  case False
  show ?thesis
    by (rule find_pair [OF usize_dim_ok point_dim_ok assms False])
      (use prefix_before_end [OF assms False] in \<open>simp add: rope_offset_to_point_def key_targets chunk_prefix_positions prefix_pieces\<close>)
qed (use assms(3) in \<open>simp add: rope_offset_to_point_def prefix_at_end [OF assms(1)] summary_fields\<close>)

lemma rope_offset_to_point_utf16_eq:
  assumes "rope_ok r" "text_len (rope_text r) < 2 ^ 32" "rope_text r = a @ b"
  shows "rope_offset_to_point_utf16 r (text_len a) = Some (point_utf16_of a)"
proof (cases "b = []")
  case False
  show ?thesis
    by (rule find_pair [OF usize_dim_ok point_utf16_dim_ok assms False])
      (use prefix_before_end [OF assms False] in \<open>simp add: rope_offset_to_point_utf16_def key_targets chunk_prefix_positions prefix_pieces\<close>)
qed (use assms(3) in \<open>simp add: rope_offset_to_point_utf16_def prefix_at_end [OF assms(1)] summary_fields\<close>)

lemma rope_offset_utf16_to_offset_eq:
  assumes "rope_ok r" "text_len (rope_text r) < 2 ^ 32" "rope_text r = a @ b"
  shows "rope_offset_utf16_to_offset r (text_len_utf16 a) = Some (text_len a)"
proof (cases "b = []")
  case False
  show ?thesis
    by (rule find_pair [OF utf16_dim_ok usize_dim_ok assms False])
      (use prefix_before_end [OF assms False] in \<open>simp add: rope_offset_utf16_to_offset_def key_targets chunk_prefix_positions prefix_pieces\<close>)
qed (use assms(3) in \<open>simp add: rope_offset_utf16_to_offset_def prefix_at_end [OF assms(1)] summary_fields\<close>)

lemma rope_point_to_point_utf16_eq:
  assumes "rope_ok r" "text_len (rope_text r) < 2 ^ 32" "rope_text r = a @ b"
  shows "rope_point_to_point_utf16 r (point_of a) = Some (point_utf16_of a)"
proof (cases "b = []")
  case False
  show ?thesis
    by (rule find_pair [OF point_dim_ok point_utf16_dim_ok assms False])
      (use prefix_before_end [OF assms False] in \<open>simp add: rope_point_to_point_utf16_def key_targets chunk_prefix_positions prefix_pieces\<close>)
qed (use assms(3) in \<open>simp add: rope_point_to_point_utf16_def prefix_at_end [OF assms(1)] summary_fields\<close>)

lemma rope_point_to_offset_eq:
  assumes "rope_ok r" "text_len (rope_text r) < 2 ^ 32" "rope_text r = a @ b"
  shows "rope_point_to_offset r (point_of a) = Some (text_len a)"
proof (cases "b = []")
  case False
  show ?thesis
    by (rule find_pair [OF point_dim_ok usize_dim_ok assms False])
      (use prefix_before_end [OF assms False] in \<open>simp add: rope_point_to_offset_def key_targets chunk_prefix_positions prefix_pieces\<close>)
qed (use assms(3) in \<open>simp add: rope_point_to_offset_def prefix_at_end [OF assms(1)] summary_fields\<close>)

lemma rope_point_utf16_to_offset_eq:
  assumes "rope_ok r" "text_len (rope_text r) < 2 ^ 32" "rope_text r = a @ b"
  shows "rope_point_utf16_to_offset r (point_utf16_of a) = Some (text_len a)"
proof (cases "b = []")
  case False
  show ?thesis
    by (rule find_pair [OF point_utf16_dim_ok usize_dim_ok assms False])
      (use prefix_before_end [OF assms False] in \<open>simp add: rope_point_utf16_to_offset_def key_targets chunk_prefix_positions prefix_pieces\<close>)
qed (use assms(3) in \<open>simp add: rope_point_utf16_to_offset_def prefix_at_end [OF assms(1)] summary_fields\<close>)

lemma rope_unclipped_point_utf16_to_point_eq:
  assumes "rope_ok r" "text_len (rope_text r) < 2 ^ 32" "rope_text r = a @ b"
  shows "rope_unclipped_point_utf16_to_point r (point_utf16_of a) = Some (point_of a)"
proof (cases "b = []")
  case False
  show ?thesis
    by (rule find_pair [OF point_utf16_dim_ok point_dim_ok assms False])
      (use prefix_before_end [OF assms False] in \<open>simp add: rope_unclipped_point_utf16_to_point_def key_targets chunk_prefix_positions prefix_pieces\<close>)
qed (use assms(3) in \<open>simp add: rope_unclipped_point_utf16_to_point_def prefix_at_end [OF assms(1)] summary_fields\<close>)

lemma rope_point_utf16_to_point_eq:
  assumes "rope_ok r" "text_len (rope_text r) < 2 ^ 32" "height (rope_chunks r) < 16" "rope_text r = a @ b"
  shows "rope_point_utf16_to_point r (point_utf16_of a) = Some (point_of a)"
proof (cases "b = []")
  case False
  show ?thesis
    by (rule seek_pair [OF point_utf16_dim_ok point_dim_ok assms False])
      (use prefix_before_end [OF assms(1,2,4) False] in \<open>simp add: rope_point_utf16_to_point_def key_targets chunk_prefix_positions prefix_pieces\<close>)
qed (use assms(4) in \<open>simp add: rope_point_utf16_to_point_def prefix_at_end [OF assms(1)] summary_fields\<close>)

lemma rope_point_to_offset_utf16_eq:
  assumes "rope_ok r" "text_len (rope_text r) < 2 ^ 32" "height (rope_chunks r) < 16" "rope_text r = a @ b"
  shows "rope_point_to_offset_utf16 r (point_of a) = Some (text_len_utf16 a)"
proof (cases "b = []")
  case False
  show ?thesis
    by (rule seek_pair [OF point_dim_ok utf16_dim_ok assms False])
      (use prefix_before_end [OF assms(1,2,4) False] in \<open>simp add: rope_point_to_offset_utf16_def key_targets chunk_prefix_positions prefix_pieces\<close>)
qed (use assms(4) in \<open>simp add: rope_point_to_offset_utf16_def prefix_at_end [OF assms(1)] summary_fields\<close>)

lemma rope_point_utf16_to_offset_utf16_eq:
  assumes "rope_ok r" "text_len (rope_text r) < 2 ^ 32" "height (rope_chunks r) < 16" "rope_text r = a @ b"
  shows "rope_point_utf16_to_offset_utf16 r (point_utf16_of a) = Some (text_len_utf16 a)"
proof (cases "b = []")
  case False
  show ?thesis
    by (rule seek_pair [OF point_utf16_dim_ok utf16_dim_ok assms False])
      (use prefix_before_end [OF assms(1,2,4) False] in \<open>simp add: rope_point_utf16_to_offset_utf16_def key_targets chunk_prefix_positions prefix_pieces\<close>)
qed (use assms(4) in \<open>simp add: rope_point_utf16_to_offset_utf16_def prefix_at_end [OF assms(1)] summary_fields\<close>)

section \<open>Character boundaries\<close>

lemma boundary_append: "text_len a \<le> i \<Longrightarrow> is_boundary (a @ b) i \<longleftrightarrow> is_boundary b (i - text_len a)"
proof (induction a arbitrary: i)
  case (Cons x a)
  then show ?case using len_utf8_bounds(1) [of x] by (auto simp: text_len_Cons)
qed simp

lemma boundary_append_left: "i \<le> text_len a \<Longrightarrow> is_boundary (a @ b) i \<longleftrightarrow> is_boundary a i"
proof (induction a arbitrary: i)
  case Nil
  then show ?case by (cases b) auto
next
  case (Cons x a)
  then show ?case by (cases "len_utf8 x \<le> i") (auto simp: text_len_Cons)
qed

lemma floor_unique: "is_boundary t j \<Longrightarrow> j \<le> i \<Longrightarrow> (\<And>k. is_boundary t k \<Longrightarrow> k \<le> i \<Longrightarrow> k \<le> j) \<Longrightarrow> floor_boundary t i = j"
  using floor_boundary_spec [of t i] floor_boundary_spec(3) [of t j i] by (auto intro: antisym)

lemma ceil_unique: "is_boundary t j \<Longrightarrow> i \<le> j \<Longrightarrow> (\<And>k. is_boundary t k \<Longrightarrow> i \<le> k \<Longrightarrow> j \<le> k) \<Longrightarrow> ceil_boundary t i = j"
  using ceil_boundary_spec(1) [of t i] ceil_boundary_spec(2) [of i t] ceil_boundary_spec(3) [of t j i] is_boundary_bounds(1) [of t j]
  by (auto intro: antisym)

lemma ceil_past: "text_len t \<le> i \<Longrightarrow> ceil_boundary t i = text_len t"
  by (induction t i rule: ceil_boundary.induct) (auto simp: text_len_Cons)

text \<open>Boundaries of a text inside one of its parts.\<close>

lemma boundaries_in_part:
  assumes "text_len s \<le> i" "i \<le> text_len s + text_len t"
  shows "is_boundary (s @ t @ e) i \<longleftrightarrow> is_boundary t (i - text_len s)"
    "floor_boundary (s @ t @ e) i = text_len s + floor_boundary t (i - text_len s)"
    "ceil_boundary (s @ t @ e) i = text_len s + ceil_boundary t (i - text_len s)"
proof -
  have b: "is_boundary (s @ t @ e) k \<longleftrightarrow> is_boundary t (k - text_len s)" if "text_len s \<le> k" "k \<le> text_len s + text_len t" for k
    using that boundary_append [OF that(1), of "t @ e"] boundary_append_left [of "k - text_len s" t e] by simp
  then show "is_boundary (s @ t @ e) i \<longleftrightarrow> is_boundary t (i - text_len s)" using assms by simp
  let ?f = "floor_boundary t (i - text_len s)" and ?c = "ceil_boundary t (i - text_len s)"
  have f: "is_boundary t ?f" "?f \<le> i - text_len s" "is_boundary t j \<Longrightarrow> j \<le> i - text_len s \<Longrightarrow> j \<le> ?f" for j
    using floor_boundary_spec(1,2) [of t "i - text_len s"] floor_boundary_spec(3) [of t j "i - text_len s"] by blast+
  show "floor_boundary (s @ t @ e) i = text_len s + ?f"
  proof (rule floor_unique)
    show "is_boundary (s @ t @ e) (text_len s + ?f)" using f(1) b [of "text_len s + ?f"] is_boundary_bounds(1) [OF f(1)] by simp
    show "text_len s + ?f \<le> i" using f(2) assms(1) by simp
    fix k assume k: "is_boundary (s @ t @ e) k" "k \<le> i"
    show "k \<le> text_len s + ?f"
    proof (cases "text_len s \<le> k")
      case True
      then have "k - text_len s \<le> ?f" using f(3) [of "k - text_len s"] b [of k] k assms(2) by simp
      then show ?thesis by simp
    qed simp
  qed
  have i: "i - text_len s \<le> text_len t" using assms by simp
  have c: "is_boundary t ?c" "i - text_len s \<le> ?c" "is_boundary t j \<Longrightarrow> i - text_len s \<le> j \<Longrightarrow> ?c \<le> j" for j
    using ceil_boundary_spec(1) [of t "i - text_len s"] ceil_boundary_spec(2) [OF i] ceil_boundary_spec(3) [of t j "i - text_len s"] by blast+
  show "ceil_boundary (s @ t @ e) i = text_len s + ?c"
  proof (rule ceil_unique)
    show "is_boundary (s @ t @ e) (text_len s + ?c)" using c(1) b [of "text_len s + ?c"] is_boundary_bounds(1) [OF c(1)] by simp
    show "i \<le> text_len s + ?c" using c(2) by simp
    fix k assume k: "is_boundary (s @ t @ e) k" "i \<le> k"
    show "text_len s + ?c \<le> k"
    proof (cases "k \<le> text_len s + text_len t")
      case True
      then have "?c \<le> k - text_len s" using c(3) [of "k - text_len s"] b [of k] k assms(1) by simp
      then show ?thesis using k(2) assms(1) by simp
    qed (use is_boundary_bounds(1) [OF c(1)] in simp)
  qed
qed

lemma floor_past: "text_len t \<le> i \<Longrightarrow> floor_boundary t i = text_len t"
  by (rule floor_unique) (auto simp: is_boundary_bounds)

text \<open>The lookup of a byte offset, with what all its clients need.\<close>

lemma find_offset:
  assumes "rope_ok r" "text_len (rope_text r) < 2 ^ 32"
  obtains (past) q where "tree_find usize_dim (rope_chunks r) (cmp n) Bias.Left = (text_len (rope_text r), q, None)"
      "rope_text r = [] \<or> text_len (rope_text r) < n"
  | (inside) c s e q where "tree_find usize_dim (rope_chunks r) (cmp n) Bias.Left = (text_len s, q, Some c)" "chunk_ok c"
      "rope_text r = s @ chunk_text c @ e" "text_len s \<le> n" "n \<le> text_len s + text_len (chunk_text c)" "rope_text r \<noteq> []"
proof (cases rule: usize_pos.find_chunk [OF assms, of n Bias.Left])
  case (1 q)
  then show ?thesis using past [of q] by (auto simp: key_targets usize_pos.passes_key [unfolded key_targets])
next
  case (2 cs c ds q)
  have ne: "chunk_text c \<noteq> []" using assms(1) 2(1) by (simp add: rope_ok_def chunks_ok_def)
  have "text_len (chunks_text cs) \<le> n" using 2(4) by (cases "cs = []") (auto simp: usize_pos.passes_key)
  moreover have "n \<le> text_len (chunks_text cs) + text_len (chunk_text c)" using 2(5) by (auto simp: usize_pos.passes_key)
  ultimately show ?thesis
    using inside [of "chunks_text cs" q c "chunks_text ds"] 2(1-3) ne by (simp add: key_targets rope_text_def)
qed

lemma rope_empty_iff: "rope_ok r \<Longrightarrow> is_empty (rope_chunks r) \<longleftrightarrow> rope_text r = []"
  using rope_sum.is_empty_flatten [of "rope_chunks r"]
  by (cases "flatten (rope_chunks r)") (auto simp: rope_ok_def chunks_ok_def rope_text_def)

lemma rope_boundaries_eq:
  assumes "rope_ok r" "text_len (rope_text r) < 2 ^ 32"
  shows "rope_is_char_boundary r n = Some (is_boundary (rope_text r) n)"
    "rope_floor_char_boundary r n = Some (floor_boundary (rope_text r) n)"
    "rope_ceil_char_boundary r n = Some (ceil_boundary (rope_text r) n)"
proof -
  have out: "is_boundary (rope_text r) n \<Longrightarrow> n \<le> text_len (rope_text r)" by (rule is_boundary_bounds(1))
  note defs = rope_is_char_boundary_def rope_floor_char_boundary_def rope_ceil_char_boundary_def usize_sub_def
    rope_empty_iff [OF assms(1)] rope_len_eq [OF assms(1)]
  show "rope_is_char_boundary r n = Some (is_boundary (rope_text r) n)"
  proof (cases rule: find_offset [OF assms, of n])
    case (1 q)
    then show ?thesis using out by (auto simp: defs)
  next
    case (2 c s e q)
    then show ?thesis using boundaries_in_part(1) [of s n "chunk_text c" e] by (simp add: defs chunk_is_char_boundary_eq)
  qed
  show "rope_floor_char_boundary r n = Some (floor_boundary (rope_text r) n)"
  proof (cases rule: find_offset [OF assms, of n])
    case (1 q)
    then show ?thesis using floor_past [of "rope_text r" n] by (auto simp: defs)
  next
    case (2 c s e q)
    then show ?thesis using boundaries_in_part(2) [of s n "chunk_text c" e] floor_past [of "rope_text r" n] by (simp add: defs)
  qed
  show "rope_ceil_char_boundary r n = Some (ceil_boundary (rope_text r) n)"
  proof (cases rule: find_offset [OF assms, of n])
    case (1 q)
    then show ?thesis using ceil_past [of "rope_text r" n] by (auto simp: defs)
  next
    case (2 c s e q)
    then show ?thesis using boundaries_in_part(3) [of s n "chunk_text c" e] by (simp add: defs)
  qed
qed

lemma rope_assert_eq:
  assumes "rope_ok r" "text_len (rope_text r) < 2 ^ 32"
  shows "rope_assert_char_boundary panics r n = (if is_boundary (rope_text r) n then Some True else if panics then None else Some False)"
proof (cases rule: find_offset [OF assms, of n])
  case (1 q)
  then show ?thesis using is_boundary_bounds(1) [of "rope_text r" n]
    by (auto simp: rope_assert_char_boundary_def rope_empty_iff [OF assms(1)])
next
  case (2 c s e q)
  then show ?thesis using boundaries_in_part(1) [of s n "chunk_text c" e]
    by (simp add: rope_assert_char_boundary_def rope_empty_iff [OF assms(1)] usize_sub_def chunk_assert_char_boundary_def chunk_is_char_boundary_eq)
qed

section \<open>Clipping in a rope\<close>

lemma rope_clip_utf16_ok:
  assumes "rope_ok r" "text_len (rope_text r) < 2 ^ 32"
  shows "\<exists>m. rope_clip_offset_utf16 r n bias = Some m \<and> utf16_clip_of (rope_text r) n bias m"
proof (cases rule: utf16_pos.find_chunk [OF assms, of n Bias.Right])
  case (1 q)
  have "utf16_clip_of (rope_text r) n bias (text_len_utf16 (rope_text r))"
  proof (cases "text_len_utf16 (rope_text r) < n")
    case False
    then have "text_len_utf16 (rope_text r) = n \<or> rope_text r = []" using 1(2) by (auto simp: utf16_pos.passes_key)
    then show ?thesis using False
      by (cases "n = 0") (auto simp: utf16_clip_of_def)
  qed (auto simp: utf16_clip_of_def)
  then show ?thesis using 1 by (simp add: rope_clip_offset_utf16_def key_targets rope_summary_eq [OF assms(1)] summary_fields)
next
  case (2 cs c ds q)
  let ?s = "chunks_text cs" and ?t = "chunk_text c"
  have t: "rope_text r = ?s @ ?t @ chunks_text ds" by (simp add: rope_text_def 2(1))
  have n: "text_len_utf16 ?s \<le> n" "n < text_len_utf16 ?s + text_len_utf16 ?t"
    using 2(4,5) by (cases "cs = []"; auto simp: utf16_pos.passes_key)+
  define m where "m = chunk_clip_offset_utf16 c (n - text_len_utf16 ?s) bias"
  have r: "rope_clip_offset_utf16 r n bias = Some (text_len_utf16 ?s + m)"
    using 2(3) n(1) by (simp add: rope_clip_offset_utf16_def key_targets usize_sub_def m_def)
  obtain a b where ab: "?t = a @ b" "m = text_len_utf16 a" "m = n - text_len_utf16 ?s \<or> text_len_utf16 ?t < n - text_len_utf16 ?s \<and> b = [] \<or>
      bias = Bias.Left \<and> m + 1 = n - text_len_utf16 ?s \<and> b \<noteq> [] \<and> len_utf16 (hd b) = 2 \<or>
      bias = Bias.Right \<and> m = n - text_len_utf16 ?s + 1 \<and> a \<noteq> [] \<and> len_utf16 (last a) = 2"
    using chunk_clip_utf16 [OF 2(2), of "n - text_len_utf16 ?s" bias] unfolding utf16_clip_of_def m_def by blast
  have "utf16_clip_of (rope_text r) n bias (text_len_utf16 ?s + m)"
    unfolding utf16_clip_of_def using ab n t by (intro exI [of _ "?s @ a"] exI [of _ "b @ chunks_text ds"]) auto
  with r show ?thesis by blast
qed

text \<open>A line of a part, within the line of the whole text it belongs to.\<close>

lemma line_in_part:
  assumes "line_at t pre l post"
  obtains u v w post' where "line_at (s @ t @ e) u (v @ l @ w) post'" "newline_count u = newline_count s + newline_count pre"
    "pre = [] \<longrightarrow> s = u @ v" "pre \<noteq> [] \<longrightarrow> u = s @ pre \<and> v = []" "post \<noteq> [] \<longrightarrow> w = []"
proof -
  have t: "t = pre @ l @ post" "pre = [] \<or> last pre = 10" "10 \<notin> set l" "post = [] \<or> hd post = 10" using assms by (simp_all add: line_at_def)
  obtain u v where uv: "s @ pre = u @ v" "u = [] \<or> last u = 10" "10 \<notin> set v" "pre \<noteq> [] \<Longrightarrow> v = []"
  proof (cases "pre = []")
    case True
    show ?thesis
    proof (cases rule: last_line_cases [of s])
      case 1
      then show ?thesis using that [of "[]" s] True by simp
    next
      case (2 q l')
      then show ?thesis using that [of "q @ [10]" l'] True by simp
    qed
  qed (use that [of "s @ pre" "[]"] t(2) in simp)
  obtain w post' where w: "post @ e = w @ post'" "10 \<notin> set w" "post' = [] \<or> hd post' = 10" "post \<noteq> [] \<Longrightarrow> w = []"
  proof (cases "post = []")
    case True
    show ?thesis
    proof (cases rule: first_line_cases [of e])
      case 1
      then show ?thesis using that [of e "[]"] True by simp
    next
      case (2 l' q)
      then show ?thesis using that [of l' "10 # q"] True by simp
    qed
  qed (use that [of "[]" "post @ e"] t(4) in simp)
  have "s @ t @ e = (s @ pre) @ l @ (post @ e)" by (simp add: t(1))
  also have "\<dots> = u @ (v @ l @ w) @ post'" unfolding uv(1) w(1) by simp
  finally have "line_at (s @ t @ e) u (v @ l @ w) post'" using t(3) uv(2,3) w(2,3) by (simp add: line_at_def)
  moreover have "newline_count u = newline_count s + newline_count pre"
    using arg_cong [OF uv(1), of newline_count] uv(3) newline_count_0 [of v] by simp
  moreover have "pre = [] \<longrightarrow> s = u @ v" "pre \<noteq> [] \<longrightarrow> u = s @ pre \<and> v = []" using uv(1,4) by auto
  ultimately show ?thesis using that w(4) by blast
qed

lemma pack_point_le:
  assumes "small_point p" "small_point q"
  shows "pack_point p \<le> pack_point q \<longleftrightarrow> row p < row q \<or> row p = row q \<and> column p \<le> column q"
    "pack_point p < pack_point q \<longleftrightarrow> row p < row q \<or> row p = row q \<and> column p < column q"
  using Point_cmp_lexicographic [OF assms] Point_cmp_lexicographic [OF assms(2,1)] Point_less_iff [of p q] Point_less_iff [of q p]
  by (auto simp: cmp_def not_less [symmetric] split: if_splits)

lemma Point_add_fields: "row (Point_add p q) = row p + row q" "column (Point_add p q) = (if row q = 0 then column p + column q else column q)"
  by (simp_all add: Point_add_def Point_new_def)

text \<open>A position within a part: what its row and column are in the whole.\<close>

lemma point_in_part:
  assumes "line_at t pre l post" "line_at (s @ t @ e) u (v @ l @ w) post'" "newline_count u = newline_count s + newline_count pre"
    "pre = [] \<longrightarrow> s = u @ v" "pre \<noteq> [] \<longrightarrow> u = s @ pre \<and> v = []" "row q = newline_count pre"
  shows "Point_add (point_of s) q = \<lparr>row = newline_count u, column = text_len v + column q\<rparr>"
    "Point_add (point_utf16_of s) q = \<lparr>row = newline_count u, column = text_len_utf16 v + column q\<rparr>"
proof -
  have whole: "line_at (s @ t @ e) u (v @ (l @ w)) post'" using assms(2) by simp
  show "Point_add (point_of s) q = \<lparr>row = newline_count u, column = text_len v + column q\<rparr>"
    "Point_add (point_utf16_of s) q = \<lparr>row = newline_count u, column = text_len_utf16 v + column q\<rparr>"
  proof (atomize(full), cases "pre = []")
    case True
    then have "s = u @ v" using assms(4) by blast
    then have "point_of s = \<lparr>row = newline_count u, column = text_len v\<rparr>"
      "point_utf16_of s = \<lparr>row = newline_count u, column = text_len_utf16 v\<rparr>"
      using line_at_prefix [OF whole] line_at_prefix_utf16 [OF whole] by simp_all
    then show "Point_add (point_of s) q = \<lparr>row = newline_count u, column = text_len v + column q\<rparr> \<and>
        Point_add (point_utf16_of s) q = \<lparr>row = newline_count u, column = text_len_utf16 v + column q\<rparr>"
      using True assms(6) by (simp add: Point_add_def Point_new_def)
  next
    case False
    then have "newline_count pre \<noteq> 0" using assms(1) newline_count_0 [of pre] by (auto simp: line_at_def dest: last_in_set)
    then show "Point_add (point_of s) q = \<lparr>row = newline_count u, column = text_len v + column q\<rparr> \<and>
        Point_add (point_utf16_of s) q = \<lparr>row = newline_count u, column = text_len_utf16 v + column q\<rparr>"
      using False assms(3,5,6) by (simp add: Point_add_def Point_new_def summary_lines)
  qed
qed

text \<open>\<open>row_part ts i x l\<close>: in the text whose chunks are \<open>ts\<close>, the part of row \<open>i\<close> that lies in one of the
  chunks is \<open>l\<close>, and \<open>x\<close> is what comes before it in that row.\<close>

definition row_part :: "ustr list \<Rightarrow> nat \<Rightarrow> ustr \<Rightarrow> ustr \<Rightarrow> bool" where
  "row_part ts i x l \<longleftrightarrow> (\<exists>ss t es pre post. ts = ss @ t # es \<and> line_at t pre l post \<and>
     newline_count (concat ss @ pre) = i \<and> x = last (split_lines (concat ss @ pre)))"

text \<open>Where a point is clipped to: the end of the text if there is no such row, the end of the row if it lies
  past it, and otherwise the nearest stop, on the side of the bias, of the part of the row in its
  chunk.\<close>

definition clipped_point :: "(ustr \<Rightarrow> nat \<Rightarrow> bool) \<Rightarrow> ustr list \<Rightarrow> Point \<Rightarrow> Bias \<Rightarrow> Point \<Rightarrow> bool" where
  "clipped_point grapheme ts p bias q \<longleftrightarrow> (let ls = split_lines (concat ts) in
     if length ls \<le> row p then q = point_of (concat ts)
     else if text_len (ls ! row p) \<le> column p then q = \<lparr>row = row p, column = text_len (ls ! row p)\<rparr>
     else \<exists>x l n k. row_part ts (row p) x l \<and> column p = text_len x + n \<and> n < text_len l \<and>
       nearest_stop (line_stop grapheme l) bias n k \<and> q = \<lparr>row = row p, column = text_len x + k\<rparr>)"

text \<open>UTF-16 columns do not depend on the chunks: only the two halves of a surrogate pair are kept
  together.\<close>

definition clipped_point_utf16 :: "ustr \<Rightarrow> PointUtf16 \<Rightarrow> Bias \<Rightarrow> PointUtf16 \<Rightarrow> bool" where
  "clipped_point_utf16 t p bias q \<longleftrightarrow> (let ls = split_lines t in
     if length ls \<le> row p then q = point_utf16_of t
     else row q = row p \<and> utf16_clip_of (ls ! row p) (column p) bias (column q))"

lemma rows_of_text: "length (split_lines t) = Suc (newline_count t)" "last (split_lines t) = split_lines t ! newline_count t"
  by (simp_all add: length_split_lines newline_count_def last_conv_nth)

lemma clipped_point_end:
  assumes "t = [] \<or> row (point_of t) < row p \<or> row (point_of t) = row p \<and> column (point_of t) \<le> column p" "t = concat ts"
  shows "clipped_point grapheme ts p bias (point_of t)"
proof -
  consider "length (split_lines t) \<le> row p" | "row p = newline_count t" "text_len (last (split_lines t)) \<le> column p"
    using assms(1) rows_of_text(1) [of t] by (cases "row p = 0") (auto simp: summary_lines)
  then show ?thesis unfolding clipped_point_def Let_def assms(2) [symmetric]
    by cases (simp_all add: rows_of_text summary_lines)
qed

lemma utf16_clip_end: "text_len_utf16 l \<le> n \<Longrightarrow> utf16_clip_of l n bias (text_len_utf16 l)"
  unfolding utf16_clip_of_def by (intro exI [of _ l] exI [of _ "[]"]) auto

lemma clipped_point_utf16_end:
  assumes "t = [] \<or> row (point_utf16_of t) < row p \<or> row (point_utf16_of t) = row p \<and> column (point_utf16_of t) \<le> column p"
  shows "clipped_point_utf16 t p bias (point_utf16_of t)"
proof -
  consider "length (split_lines t) \<le> row p" | "row p = newline_count t" "text_len_utf16 (last (split_lines t)) \<le> column p"
    using assms rows_of_text(1) [of t] by (cases "row p = 0") (auto simp: summary_lines)
  then show ?thesis unfolding clipped_point_utf16_def Let_def
    by cases (simp_all add: rows_of_text summary_lines utf16_clip_end)
qed


definition after_part :: "ustr \<Rightarrow> ustr \<Rightarrow> ustr \<Rightarrow> bool" where
  "after_part s pre x \<longleftrightarrow> (\<forall>q. row q = newline_count pre \<longrightarrow>
      Point_add (point_of s) q = \<lparr>row = newline_count (s @ pre), column = text_len x + column q\<rparr> \<and>
      Point_add (point_utf16_of s) q = \<lparr>row = newline_count (s @ pre), column = text_len_utf16 x + column q\<rparr>)"

lemma after_partD:
  assumes "after_part s pre x" "row q = newline_count pre"
  shows "Point_add (point_of s) q = \<lparr>row = newline_count (s @ pre), column = text_len x + column q\<rparr>"
    "Point_add (point_utf16_of s) q = \<lparr>row = newline_count (s @ pre), column = text_len_utf16 x + column q\<rparr>"
  using assms by (simp_all add: after_part_def)

text \<open>A point inside a part of the text lies in a line of that part, and what is found there is found in the
  whole row.\<close>

lemma part_row:
  assumes "line_at t pre l post" "ts = ss @ t # es" "s = concat ss"
  obtains x w where "split_lines (concat ts) ! newline_count (s @ pre) = x @ l @ w" "post \<noteq> [] \<longrightarrow> w = []"
    "newline_count (s @ pre) < length (split_lines (concat ts))" "row_part ts (newline_count (s @ pre)) x l"
    "after_part s pre x"
proof -
  let ?e = "concat es"
  have whole: "concat ts = s @ t @ ?e" using assms(2,3) by simp
  obtain u v w post' where u: "line_at (s @ t @ ?e) u (v @ l @ w) post'" "newline_count u = newline_count s + newline_count pre"
    "pre = [] \<longrightarrow> s = u @ v" "pre \<noteq> [] \<longrightarrow> u = s @ pre \<and> v = []" "post \<noteq> [] \<longrightarrow> w = []"
    by (rule line_in_part [OF assms(1), of s ?e])
  have "s @ pre = u @ v" using u(3,4) by (cases "pre = []") auto
  then have "last (split_lines (s @ pre)) = v" using line_at_last [of "s @ t @ ?e" u v "l @ w" post'] u(1) by simp
  then have "row_part ts (newline_count (s @ pre)) v l"
    unfolding row_part_def using assms by blast
  moreover have "newline_count (s @ pre) < length (split_lines (concat ts))"
    unfolding whole rows_of_text using u(1,2) by (auto simp: line_at_def)
  moreover have "split_lines (concat ts) ! newline_count (s @ pre) = v @ l @ w"
    using line_at_nth [OF u(1)] u(2) whole by simp
  ultimately show thesis using that [of v w] u(2,5) point_in_part [OF assms(1) u(1-4)] by (simp add: after_part_def)
qed

lemma clip_in_part:
  assumes c: "chunk_ok c" "chunk_text c = t" and g: "segments_lines grapheme" and ts: "ts = ss @ t # es" "s = concat ss"
    and p: "p = Point_add (point_of s) d" "row p < row (point_of (s @ t)) \<or> row p = row (point_of (s @ t)) \<and> column p < column (point_of (s @ t))"
  obtains q where "chunk_clip_point grapheme c d bias = Some q" "clipped_point grapheme ts p bias (Point_add (point_of s) q)"
    "\<exists>a b. t = a @ b \<and> q = point_of a"
proof -
  have "row d \<le> newline_count t" using p by (auto simp: point_of_append Point_add_fields summary_lines)
  then obtain pre l post where l: "line_at t pre l post" "newline_count pre = row d" using row_line [of "row d" t] by auto
  obtain x w where x: "split_lines (concat ts) ! newline_count (s @ pre) = x @ l @ w" "post \<noteq> [] \<longrightarrow> w = []"
    "newline_count (s @ pre) < length (split_lines (concat ts))" "row_part ts (newline_count (s @ pre)) x l"
    "after_part s pre x"
    by (rule part_row [OF l(1) ts])
  obtain k where k: "chunk_clip_point grapheme c d bias = Some \<lparr>row = row d, column = k\<rparr>" "is_boundary l k"
      "if text_len l \<le> column d then k = text_len l else nearest_stop (line_stop grapheme l) bias (column d) k"
    by (rule chunk_clip_point_line [OF c(1) _ l(2) g, of l post bias]) (use c(2) l(1) that in simp_all)
  have pc: "row p = newline_count (s @ pre)" "column p = text_len x + column d" using after_partD [OF x(5), of d] l(2) p(1) by simp_all
  have q: "Point_add (point_of s) \<lparr>row = row d, column = k\<rparr> = \<lparr>row = row p, column = text_len x + k\<rparr>"
    using after_partD [OF x(5), of "\<lparr>row = row d, column = k\<rparr>"] l(2) pc(1) by simp
  obtain l1 l2 where l12: "l = l1 @ l2" "text_len l1 = k" using k(2) by (auto simp: is_boundary_iff)
  have "point_of (pre @ l1) = \<lparr>row = row d, column = k\<rparr>" using line_at_prefix [of t pre l1 l2 post] l l12 by simp
  moreover have "t = (pre @ l1) @ l2 @ post" using l(1) l12(1) by (simp add: line_at_def)
  ultimately have valid: "\<exists>a b. t = a @ b \<and> \<lparr>row = row d, column = k\<rparr> = point_of a" by metis
  have inside: "column d < text_len l" if "post = []"
  proof -
    have "point_of t = \<lparr>row = newline_count pre, column = text_len l\<rparr>"
      using line_at_prefix [of t pre l "[]" post] l(1) that by (simp add: line_at_def)
    then have "point_of (s @ t) = \<lparr>row = newline_count (s @ pre), column = text_len x + text_len l\<rparr>"
      using after_partD [OF x(5), of "point_of t"] by (simp add: point_of_append(1) [of s t])
    then show ?thesis using p(2) pc by simp
  qed
  have "clipped_point grapheme ts p bias \<lparr>row = row p, column = text_len x + k\<rparr>"
  proof (cases "text_len l \<le> column d")
    case True
    then have "w = []" using inside x(2) by fastforce
    then show ?thesis using True k(3) x(1,3) pc by (simp add: clipped_point_def Let_def)
  next
    case False
    then have "\<not> text_len (x @ l @ w) \<le> column p" using pc(2) by simp
    moreover have "\<exists>x' l' n k'. row_part ts (row p) x' l' \<and> column p = text_len x' + n \<and> n < text_len l' \<and>
        nearest_stop (line_stop grapheme l') bias n k' \<and> text_len x + k = text_len x' + k'"
      using False k(3) x(4) pc by (intro exI [of _ x] exI [of _ l] exI [of _ "column d"] exI [of _ k]) simp
    ultimately show ?thesis using x(1,3) pc(1) unfolding clipped_point_def Let_def by simp
  qed
  with that k(1) q valid show ?thesis by simp
qed

lemma utf16_clip_inside:
  assumes "utf16_clip_of l n bias m" "w = [] \<or> n < text_len_utf16 l"
  shows "utf16_clip_of (x @ l @ w) (text_len_utf16 x + n) bias (text_len_utf16 x + m)"
proof -
  obtain a b where ab: "l = a @ b" "m = text_len_utf16 a" "m = n \<or> text_len_utf16 l < n \<and> b = [] \<or>
      bias = Bias.Left \<and> m + 1 = n \<and> b \<noteq> [] \<and> len_utf16 (hd b) = 2 \<or>
      bias = Bias.Right \<and> m = n + 1 \<and> a \<noteq> [] \<and> len_utf16 (last a) = 2"
    using assms(1) unfolding utf16_clip_of_def by blast
  then show ?thesis unfolding utf16_clip_of_def
    using assms(2) by (intro exI [of _ "x @ a"] exI [of _ "b @ w"]) auto
qed

lemma clip_in_part_utf16:
  assumes c: "chunk_ok c" "chunk_text c = t" and ts: "ts = ss @ t # es" "s = concat ss"
    and p: "p = Point_add (point_utf16_of s) d" "row p < row (point_utf16_of (s @ t)) \<or>
      row p = row (point_utf16_of (s @ t)) \<and> column p < column (point_utf16_of (s @ t))"
  obtains q where "chunk_clip_point_utf16 c d bias = Some q" "clipped_point_utf16 (concat ts) p bias (Point_add (point_utf16_of s) q)"
    "\<exists>a b. t = a @ b \<and> q = point_utf16_of a"
proof -
  have "row d \<le> newline_count t" using p by (auto simp: point_of_append Point_add_fields summary_lines)
  then obtain pre l post where l: "line_at t pre l post" "newline_count pre = row d" using row_line [of "row d" t] by auto
  obtain x w where x: "split_lines (concat ts) ! newline_count (s @ pre) = x @ l @ w" "post \<noteq> [] \<longrightarrow> w = []"
    "newline_count (s @ pre) < length (split_lines (concat ts))" "row_part ts (newline_count (s @ pre)) x l"
    "after_part s pre x"
    by (rule part_row [OF l(1) ts])
  obtain k where k: "chunk_clip_point_utf16 c d bias = Some \<lparr>row = row d, column = k\<rparr>" "utf16_clip_of l (column d) bias k"
    by (rule chunk_clip_point_utf16_line [OF c(1) _ l(2), of l post bias]) (use c(2) l(1) that in simp_all)
  have pc: "row p = newline_count (s @ pre)" "column p = text_len_utf16 x + column d" using after_partD [OF x(5), of d] l(2) p(1) by simp_all
  have q: "Point_add (point_utf16_of s) \<lparr>row = row d, column = k\<rparr> = \<lparr>row = row p, column = text_len_utf16 x + k\<rparr>"
    using after_partD [OF x(5), of "\<lparr>row = row d, column = k\<rparr>"] l(2) pc(1) by simp
  obtain l1 l2 where l12: "l = l1 @ l2" "text_len_utf16 l1 = k" using k(2) by (auto simp: utf16_clip_of_def)
  have "point_utf16_of (pre @ l1) = \<lparr>row = row d, column = k\<rparr>" using line_at_prefix_utf16 [of t pre l1 l2 post] l l12 by simp
  moreover have "t = (pre @ l1) @ l2 @ post" using l(1) l12(1) by (simp add: line_at_def)
  ultimately have valid: "\<exists>a b. t = a @ b \<and> \<lparr>row = row d, column = k\<rparr> = point_utf16_of a" by metis
  have "w = [] \<or> column d < text_len_utf16 l"
  proof (cases "post = []")
    case True
    have "point_utf16_of t = \<lparr>row = newline_count pre, column = text_len_utf16 l\<rparr>"
      using line_at_prefix_utf16 [of t pre l "[]" post] l(1) True by (simp add: line_at_def)
    then have "point_utf16_of (s @ t) = \<lparr>row = newline_count (s @ pre), column = text_len_utf16 x + text_len_utf16 l\<rparr>"
      using after_partD [OF x(5), of "point_utf16_of t"] by (simp add: point_of_append(2) [of s t])
    then show ?thesis using p(2) pc by simp
  qed (use x(2) in simp)
  then have "clipped_point_utf16 (concat ts) p bias \<lparr>row = row p, column = text_len_utf16 x + k\<rparr>"
    using utf16_clip_inside [OF k(2), of w x] x(1,3) pc by (simp add: clipped_point_utf16_def Let_def)
  with that k(1) q valid show ?thesis by simp
qed

text \<open>The start of a character is no place between the halves of a pair.\<close>

lemma utf16_clip_valid:
  assumes "utf16_clip_of (x @ y) (text_len_utf16 x) bias m" shows "m = text_len_utf16 x"
proof -
  obtain a b where ab: "x @ y = a @ b" "m = text_len_utf16 a" "m = text_len_utf16 x \<or> text_len_utf16 (x @ y) < text_len_utf16 x \<and> b = [] \<or>
      bias = Bias.Left \<and> m + 1 = text_len_utf16 x \<and> b \<noteq> [] \<and> len_utf16 (hd b) = 2 \<or>
      bias = Bias.Right \<and> m = text_len_utf16 x + 1 \<and> a \<noteq> [] \<and> len_utf16 (last a) = 2"
    using assms unfolding utf16_clip_of_def by blast
  have long: "2 \<le> text_len_utf16 (a :: ustr)" if "c \<in> set a" "len_utf16 c = 2" for a c
    using that by (induction a) (auto simp: text_len_utf16_Cons)
  from ab(1) consider z where "x = a @ z" "z @ y = b" | z where "a = x @ z" "y = z @ b" by (auto simp: append_eq_append_conv2)
  then show ?thesis
  proof cases
    case 1
    then show ?thesis using ab(2,3) long [of "hd b" z] by (cases z) auto
  next
    case 2
    then show ?thesis using ab(2,3) long [of "last a" z] by (cases z rule: rev_cases) auto
  qed
qed

lemma clipped_utf16_valid:
  assumes "clipped_point_utf16 (a @ b) (point_utf16_of a) bias q" shows "q = point_utf16_of a"
proof -
  obtain pre l1 l2 post where l: "line_at (a @ b) pre (l1 @ l2) post" "a = pre @ l1" by (rule prefix_line [of a b])
  note pos = line_at_prefix_utf16 [OF l(1), folded l(2)]
  have "newline_count pre < length (split_lines (a @ b))" using l(2) by (simp add: rows_of_text)
  then have "row q = newline_count pre" "utf16_clip_of (l1 @ l2) (text_len_utf16 l1) bias (column q)"
    using assms line_at_nth [OF l(1)] by (simp_all add: clipped_point_utf16_def Let_def pos)
  with utf16_clip_valid show ?thesis by (simp add: pos Point.equality)
qed

lemma segments_is_boundary: "segments_lines is_boundary"
  using ascii_boundary is_boundary_bounds(2,3) by (simp add: segments_lines_def)

definition chunk_texts :: "Rope \<Rightarrow> ustr list" where
  "chunk_texts r = map chunk_text (flatten (rope_chunks r))"

lemma concat_chunk_texts: "concat (chunk_texts r) = rope_text r"
  by (simp add: chunk_texts_def rope_text_def chunks_text_def)

lemma chunk_texts_split: "flatten (rope_chunks r) = cs @ c # ds \<Longrightarrow>
    chunk_texts r = map chunk_text cs @ chunk_text c # map chunk_text ds \<and> chunks_text cs = concat (map chunk_text cs)"
  by (simp add: chunk_texts_def chunks_text_def)

lemma rope_clip_point_ok:
  assumes "rope_ok r" "text_len (rope_text r) < 2 ^ 32" "small_point p" "segments_lines grapheme"
  shows "\<exists>a b. rope_text r = a @ b \<and> rope_clip_point grapheme r p bias = Some (point_of a) \<and>
    clipped_point grapheme (chunk_texts r) p bias (point_of a)"
proof (cases rule: point_pos.find_chunk [OF assms(1,2), of "pack_point p" Bias.Right])
  case (1 q)
  have "clipped_point grapheme (chunk_texts r) p bias (point_of (rope_text r))"
    using 1(2) pack_point_le [OF small_points(1) [OF assms(2)] assms(3)]
    by (intro clipped_point_end) (auto simp: point_pos.passes_key le_less concat_chunk_texts)
  then show ?thesis using 1(1)
    by (intro exI [of _ "rope_text r"] exI [of _ "[]"]) (simp add: rope_clip_point_def key_targets rope_summary_eq [OF assms(1)])
next
  case (2 cs c ds q)
  let ?s = "chunks_text cs"
  have t: "rope_text r = ?s @ chunk_text c @ chunks_text ds" by (simp add: rope_text_def 2(1))
  note parts = conjunct1 [OF chunk_texts_split [OF 2(1)]] conjunct2 [OF chunk_texts_split [OF 2(1)]]
  have small: "small_point (point_of ?s)" "small_point (point_of (?s @ chunk_text c))"
    by (rule small_points(1), use assms(2) t in simp)+
  have le: "row (point_of ?s) < row p \<or> row (point_of ?s) = row p \<and> column (point_of ?s) \<le> column p"
    using 2(4) pack_point_le(1) [OF small(1) assms(3)]
    by (cases "cs = []") (auto simp: point_pos.passes_key TextSummary_from_Nil TextSummary_zero_def Point_zero_def Point_new_def)
  then obtain d where d: "Point_sub p (point_of ?s) = Some d" by (auto simp: Point_sub_def split: if_splits)
  then have p: "p = Point_add (point_of ?s) d" by (rule Point_add_sub [symmetric])
  have less: "row p < row (point_of (?s @ chunk_text c)) \<or> row p = row (point_of (?s @ chunk_text c)) \<and> column p < column (point_of (?s @ chunk_text c))"
    using 2(5) pack_point_le(2) [OF assms(3) small(2)] by (auto simp: point_pos.passes_key)
  obtain q' where q': "chunk_clip_point grapheme c d bias = Some q'"
      "clipped_point grapheme (chunk_texts r) p bias (Point_add (point_of ?s) q')" "\<exists>a b. chunk_text c = a @ b \<and> q' = point_of a"
    by (rule clip_in_part [OF 2(2) refl assms(4) parts p less])
  then obtain a b where ab: "chunk_text c = a @ b" "q' = point_of a" by blast
  then have "rope_text r = (?s @ a) @ b @ chunks_text ds" "Point_add (point_of ?s) q' = point_of (?s @ a)"
    using t by (simp_all add: point_of_append(1) [of ?s a])
  moreover have "rope_clip_point grapheme r p bias = Some (Point_add (point_of ?s) q')"
    using 2(3) d q'(1) by (simp add: rope_clip_point_def key_targets)
  ultimately show ?thesis using q'(2) by metis
qed

lemma rope_line_len_ok:
  assumes "rope_ok r" "text_len (rope_text r) < 2 ^ 32" "n < 2 ^ 32" "segments_lines grapheme"
  shows "rope_line_len grapheme r n =
    Some (text_len (if n < length (split_lines (rope_text r)) then split_lines (rope_text r) ! n else last (split_lines (rope_text r))))"
proof -
  let ?ls = "split_lines (rope_text r)"
  have "small_point (Point_new n (2 ^ 32 - 1))" using assms(3) by (simp add: small_point_def Point_new_def)
  then obtain q where q: "rope_clip_point grapheme r (Point_new n (2 ^ 32 - 1)) Bias.Left = Some q"
      "clipped_point grapheme (chunk_texts r) (Point_new n (2 ^ 32 - 1)) Bias.Left q"
    using rope_clip_point_ok [where grapheme = grapheme, OF assms(1,2) _ assms(4)] by blast
  have "column q = text_len (if n < length ?ls then ?ls ! n else last ?ls)"
  proof (cases "n < length ?ls")
    case True
    then have "text_len (?ls ! n) < 2 ^ 32" using line_le_text_len [OF nth_mem [OF True]] assms(2) by simp
    then show ?thesis using q(2) True by (simp add: clipped_point_def Point_new_def Let_def concat_chunk_texts)
  qed (use q(2) in \<open>simp add: clipped_point_def Point_new_def summary_lines concat_chunk_texts\<close>)
  with q(1) show ?thesis by (simp add: rope_line_len_def)
qed

lemma rope_clip_point_utf16_ok:
  assumes "rope_ok r" "text_len (rope_text r) < 2 ^ 32" "small_point p"
  shows "\<exists>a b. rope_text r = a @ b \<and> rope_clip_point_utf16 r p bias = Some (point_utf16_of a) \<and>
    clipped_point_utf16 (rope_text r) p bias (point_utf16_of a)"
proof (cases rule: point_utf16_pos.find_chunk [OF assms(1,2), of "pack_point p" Bias.Right])
  case (1 q)
  have "clipped_point_utf16 (rope_text r) p bias (point_utf16_of (rope_text r))"
    using 1(2) pack_point_le [OF small_points(2) [OF assms(2)] assms(3)]
    by (intro clipped_point_utf16_end) (auto simp: point_utf16_pos.passes_key le_less)
  then show ?thesis using 1(1) by (intro exI [of _ "rope_text r"] exI [of _ "[]"])
      (simp add: rope_clip_point_utf16_def key_targets rope_summary_eq [OF assms(1)])
next
  case (2 cs c ds q)
  let ?s = "chunks_text cs"
  have t: "rope_text r = ?s @ chunk_text c @ chunks_text ds" by (simp add: rope_text_def 2(1))
  note parts = conjunct1 [OF chunk_texts_split [OF 2(1)]] conjunct2 [OF chunk_texts_split [OF 2(1)]]
  have small: "small_point (point_utf16_of ?s)" "small_point (point_utf16_of (?s @ chunk_text c))"
    by (rule small_points(2), use assms(2) t in simp)+
  have "row (point_utf16_of ?s) < row p \<or> row (point_utf16_of ?s) = row p \<and> column (point_utf16_of ?s) \<le> column p"
    using 2(4) pack_point_le(1) [OF small(1) assms(3)]
    by (cases "cs = []") (auto simp: point_utf16_pos.passes_key TextSummary_from_Nil lines_utf16_zero Point_zero_def Point_new_def)
  then obtain d where d: "Point_sub p (point_utf16_of ?s) = Some d" by (auto simp: Point_sub_def split: if_splits)
  then have p: "p = Point_add (point_utf16_of ?s) d" by (rule Point_add_sub [symmetric])
  have less: "row p < row (point_utf16_of (?s @ chunk_text c)) \<or>
      row p = row (point_utf16_of (?s @ chunk_text c)) \<and> column p < column (point_utf16_of (?s @ chunk_text c))"
    using 2(5) pack_point_le(2) [OF assms(3) small(2)] by (auto simp: point_utf16_pos.passes_key)
  obtain q' where q': "chunk_clip_point_utf16 c d bias = Some q'"
      "clipped_point_utf16 (concat (chunk_texts r)) p bias (Point_add (point_utf16_of ?s) q')" "\<exists>a b. chunk_text c = a @ b \<and> q' = point_utf16_of a"
    by (rule clip_in_part_utf16 [OF 2(2) refl parts p less])
  then obtain a b where ab: "chunk_text c = a @ b" "q' = point_utf16_of a" by blast
  then have "rope_text r = (?s @ a) @ b @ chunks_text ds" "Point_add (point_utf16_of ?s) q' = point_utf16_of (?s @ a)"
    using t by (simp_all add: point_of_append(2) [of ?s a])
  moreover have "rope_clip_point_utf16 r p bias = Some (Point_add (point_utf16_of ?s) q')"
    using 2(3) d q'(1) by (simp add: rope_clip_point_utf16_def key_targets)
  ultimately show ?thesis using q'(2) unfolding concat_chunk_texts by metis
qed

section \<open>Properties\<close>

text \<open>(C17) Positions in a rope convert without loss.  For the end of any prefix of the text, given
  as byte offset, UTF-16 offset, point or UTF-16 point, every conversion of the rope returns the
  corresponding position of the same prefix, whatever chunk it lies in, and none panics.\<close>

theorem rope_position_roundtrip:
  assumes "rope_ok r" and "text_len (rope_text r) < 2 ^ 32" and "height (rope_chunks r) < 16" and "rope_text r = a @ b"
  shows "rope_offset_to_offset_utf16 r (text_len a) = Some (text_len_utf16 a) \<and>
    rope_offset_to_point r (text_len a) = Some (point_of a) \<and>
    rope_offset_to_point_utf16 r (text_len a) = Some (point_utf16_of a) \<and>
    rope_offset_utf16_to_offset r (text_len_utf16 a) = Some (text_len a) \<and>
    rope_point_to_offset r (point_of a) = Some (text_len a) \<and>
    rope_point_to_offset_utf16 r (point_of a) = Some (text_len_utf16 a) \<and>
    rope_point_to_point_utf16 r (point_of a) = Some (point_utf16_of a) \<and>
    rope_point_utf16_to_offset r (point_utf16_of a) = Some (text_len a) \<and>
    rope_point_utf16_to_offset_utf16 r (point_utf16_of a) = Some (text_len_utf16 a) \<and>
    rope_point_utf16_to_point r (point_utf16_of a) = Some (point_of a) \<and>
    rope_unclipped_point_utf16_to_point r (point_utf16_of a) = Some (point_of a)"
  using assms
  by (simp add: rope_offset_to_offset_utf16_eq rope_offset_to_point_eq rope_offset_to_point_utf16_eq rope_offset_utf16_to_offset_eq
      rope_point_to_offset_eq rope_point_to_offset_utf16_eq rope_point_to_point_utf16_eq rope_point_utf16_to_offset_eq
      rope_point_utf16_to_offset_utf16_eq rope_point_utf16_to_point_eq rope_unclipped_point_utf16_to_point_eq)

theorem rope_position_roundtrip_witness:
  "\<exists>r. rope_text r = [97, 10, 128512] \<and> rope_point_to_offset r \<lparr>row = 1, column = 0\<rparr> = Some 2"
proof -
  obtain c where c: "Chunk_new [97, 10, 128512] = Some c"
    using small_chunk [of "[97, 10, 128512]"] by (auto simp: text_len_def len_utf8_def)
  then have ok: "chunk_ok c" "chunk_text c = [97, 10, 128512]" by (simp_all add: Chunk_new_iff)
  define r where "r = \<lparr>rope_chunks = Leaf (chunk_summary c) [c] [chunk_summary c]\<rparr>"
  have tx: "rope_text r = [97, 10] @ [128512]" by (simp add: r_def rope_text_def ok)
  have "rope_ok r" using ok
    by (simp add: rope_ok_def r_def chunks_ok_def chunk_ops_def sum_summaries_def ChunkSummary_add_zero TREE_BASE_def)
  moreover have "text_len (rope_text r) < 2 ^ 32" by (simp add: tx text_len_def len_utf8_def)
  moreover have "height (rope_chunks r) < 16" by (simp add: r_def)
  ultimately have "rope_point_to_offset r (point_of [97, 10]) = Some (text_len [97, 10])"
    using rope_position_roundtrip [of r "[97, 10]" "[128512]"] tx by blast
  moreover have "point_of [97, 10] = \<lparr>row = 1, column = 0\<rparr>"
    by (simp add: TextSummary_from_def summary_step_def TextSummary_zero_def Let_def Point_add_def Point_new_def Point_zero_def)
  ultimately show ?thesis using tx by (intro exI [of _ r]) (simp add: text_len_def len_utf8_def)
qed

text \<open>Character boundaries of a rope are those of its text: \<open>is_char_boundary\<close> decides them for
  any offset, \<open>clip_offset\<close> rounds any offset down or up to the nearest one (to the end past the
  end), and \<open>assert_char_boundary\<close> panics or returns false exactly elsewhere.\<close>

lemma rope_char_boundaries:
  assumes "rope_ok r" and "text_len (rope_text r) < 2 ^ 32"
  shows "rope_is_char_boundary r n = Some (is_boundary (rope_text r) n) \<and>
    rope_clip_offset r n Bias.Left = Some (floor_boundary (rope_text r) n) \<and>
    rope_clip_offset r n Bias.Right = Some (ceil_boundary (rope_text r) n) \<and>
    rope_assert_char_boundary panics r n = (if is_boundary (rope_text r) n then Some True else if panics then None else Some False)"
  using rope_boundaries_eq [OF assms] rope_assert_eq [OF assms] by (simp add: rope_clip_offset_def)

text \<open>(C25) Clipping in a rope, with any segmentation of lines into graphemes that obeys the rules above.  A
  UTF-16 offset between the halves of a surrogate pair moves to the side of the bias, one past the
  end to the end, and any other stays.  A point goes to the end of the text if there is no such row and to the
  end of its row if it lies past it; otherwise it stays if it is at a grapheme boundary of
  the part of its row that lies in its chunk, and else goes to the nearest such boundary on the side of
  the bias.  A UTF-16 point does the same with the surrogate pairs of its row in place of graphemes, and
  never moves from the start of a character.\<close>

theorem rope_clipping:
  assumes "rope_ok r" and "text_len (rope_text r) < 2 ^ 32" and "small_point p" and "segments_lines grapheme"
  shows "(\<exists>m. rope_clip_offset_utf16 r n bias = Some m \<and> utf16_clip_of (rope_text r) n bias m) \<and>
    (\<exists>a b. rope_text r = a @ b \<and> rope_clip_point grapheme r p bias = Some (point_of a) \<and>
      clipped_point grapheme (chunk_texts r) p bias (point_of a)) \<and>
    (\<exists>a b. rope_text r = a @ b \<and> rope_clip_point_utf16 r p bias = Some (point_utf16_of a) \<and>
      clipped_point_utf16 (rope_text r) p bias (point_utf16_of a)) \<and>
    (\<forall>a b. rope_text r = a @ b \<and> p = point_utf16_of a \<longrightarrow> rope_clip_point_utf16 r p bias = Some p)"
  using rope_clip_utf16_ok [OF assms(1,2), of n bias] rope_clip_point_ok [where grapheme = grapheme, OF assms, of bias]
    rope_clip_point_utf16_ok [OF assms(1-3), of bias] clipped_utf16_valid by metis

theorem rope_clipping_witness:
  "\<exists>r. rope_from [97, 128512] = Some r \<and> rope_clip_offset_utf16 r 2 Bias.Right = Some 3 \<and>
    rope_clip_point_utf16 r (Point_new 0 1) Bias.Left = Some (Point_new 0 1) \<and>
    (\<exists>q. rope_clip_point is_boundary r (Point_new 0 3) Bias.Left = Some q \<and>
      clipped_point is_boundary (chunk_texts r) (Point_new 0 3) Bias.Left q)"
proof -
  obtain r where r: "rope_from [97, 128512] = Some r" "rope_ok r" "rope_text r = [97, 128512]" using rope_from_ok by blast
  have len: "text_len (rope_text r) < 2 ^ 32" by (simp add: r(3) text_len_def len_utf8_def)
  have g: "segments_lines is_boundary" by (rule segments_is_boundary)
  have small: "small_point (Point_new 0 k)" if "k < 4" for k using that by (simp add: small_point_def Point_new_def)
  have k: "(0 :: nat) < 4" "(1 :: nat) < 4" "(3 :: nat) < 4" by simp_all
  have pair: "m = 3" if "utf16_clip_of [97, 128512] 2 Bias.Right m" for m
    using that by (auto simp: utf16_clip_of_def text_len_utf16_def len_utf16_def Cons_eq_append_conv)
  have valid: "[97, 128512] = [97] @ [128512] \<and> Point_new 0 1 = point_utf16_of [97]"
    by (simp add: TextSummary_from_def summary_step_def TextSummary_zero_def Let_def Point_new_def Point_zero_def lines_utf16_def len_utf16_def)
  note clip = rope_clipping [OF r(2) len small g, unfolded r(3)]
  have "rope_clip_offset_utf16 r 2 Bias.Right = Some 3" using conjunct1 [OF clip [OF k(1), of 2 Bias.Right]] pair by blast
  moreover have "rope_clip_point_utf16 r (Point_new 0 1) Bias.Left = Some (Point_new 0 1)" 
    using conjunct2 [OF conjunct2 [OF conjunct2 [OF clip [OF k(2), of 0 Bias.Left]]]] valid by blast
  moreover have "\<exists>q. rope_clip_point is_boundary r (Point_new 0 3) Bias.Left = Some q \<and>
      clipped_point is_boundary (chunk_texts r) (Point_new 0 3) Bias.Left q" 
    using conjunct1 [OF conjunct2 [OF clip [OF k(3), of 0 Bias.Left]]] by blast
  ultimately show ?thesis using r(1) by blast
qed

text \<open>\<open>line_len\<close> of a row is the length of that line of the text, and of a row past the end the
  length of the last line.\<close>

lemma rope_line_len_correct:
  assumes "rope_ok r" and "text_len (rope_text r) < 2 ^ 32" and "n < 2 ^ 32" and "segments_lines grapheme"
  shows "rope_line_len grapheme r n =
    Some (text_len (if n < length (split_lines (rope_text r)) then split_lines (rope_text r) ! n else last (split_lines (rope_text r))))"
  using assms by (rule rope_line_len_ok)

end
