(* ===== verification/Rope_Cursor.thy ===== *)
theory Rope_Cursor
  imports Rope_Positions
begin

text \<open>
  The cursor over a rope and what is built on it (\<open>crates/rope/src/rope.rs\<close>): slicing, replacing and
  summing up a range in any text dimension.  A failed assertion is \<open>None\<close>.
\<close>

section \<open>The source\<close>

record RopeCursor =
  rc_rope :: Rope
  rc_chunks :: "(Chunk, ChunkSummary, nat) Cursor"
  rc_offset :: nat

definition rope_cursor :: "Rope \<Rightarrow> nat \<Rightarrow> RopeCursor option" where
  "rope_cursor r offset = do {
     (cks, _) \<leftarrow> cursor_seek usize_dim (cursor_new usize_dim (rope_chunks r)) (cmp offset) Bias.Right;
     Some \<lparr>rc_rope = r, rc_chunks = cks, rc_offset = offset\<rparr> }"

definition rope_seek_forward :: "RopeCursor \<Rightarrow> nat \<Rightarrow> RopeCursor option" where
  "rope_seek_forward rc end_offset =
     (if end_offset < rc_offset rc \<or> rope_len (rc_rope rc) < end_offset then None
      else do {
        (cks, _) \<leftarrow> cursor_seek_forward usize_dim (rc_chunks rc) (cmp end_offset) Bias.Right;
        Some (rc\<lparr>rc_chunks := cks, rc_offset := end_offset\<rparr>) })"

text \<open>The first part of \<open>slice\<close> and \<open>summary\<close>: the rest of the current chunk, up to the end offset.\<close>

definition start_slice :: "RopeCursor \<Rightarrow> nat \<Rightarrow> ChunkSlice option option" where
  "start_slice rc end_offset = do {
     item \<leftarrow> cursor_item (rc_chunks rc);
     (case item of
        None \<Rightarrow> Some None
      | Some start_chunk \<Rightarrow> do {
          start_ix \<leftarrow> usize_sub (rc_offset rc) (c_position (rc_chunks rc));
          chunk_end \<leftarrow> cursor_end usize_dim (rc_chunks rc);
          end_ix \<leftarrow> usize_sub (min end_offset chunk_end) (c_position (rc_chunks rc));
          piece \<leftarrow> chunk_slice start_chunk start_ix end_ix;
          Some (Some piece) }) }"

text \<open>The last part: the beginning of the chunk that holds the end offset.\<close>

definition end_slice :: "(Chunk, ChunkSummary, nat) Cursor \<Rightarrow> nat \<Rightarrow> ChunkSlice option option" where
  "end_slice cks end_offset = do {
     item \<leftarrow> cursor_item cks;
     (case item of
        None \<Rightarrow> Some None
      | Some end_chunk \<Rightarrow> do {
          end_ix \<leftarrow> usize_sub end_offset (c_position cks);
          piece \<leftarrow> chunk_slice end_chunk 0 end_ix;
          Some (Some piece) }) }"

definition push_piece :: "Rope \<Rightarrow> ChunkSlice option \<Rightarrow> Rope option" where
  "push_piece r piece = (case piece of None \<Rightarrow> Some r | Some c \<Rightarrow> rope_push_chunk r c)"

text \<open>The chunks between the two.\<close>

definition middle_slice :: "(Chunk, ChunkSummary, nat) Cursor \<Rightarrow> nat \<Rightarrow> ((Chunk, ChunkSummary, nat) Cursor \<times> (Chunk, ChunkSummary) Tree) option" where
  "middle_slice cks end_offset = do {
     cks' \<leftarrow> cursor_next usize_dim cks;
     cursor_slice chunk_ops usize_dim cks' (cmp end_offset) Bias.Right }"

definition rope_cursor_slice :: "RopeCursor \<Rightarrow> nat \<Rightarrow> (RopeCursor \<times> Rope) option" where
  "rope_cursor_slice rc end_offset =
     (if end_offset < rc_offset rc \<or> rope_len (rc_rope rc) < end_offset then None
      else do {
        first \<leftarrow> start_slice rc end_offset;
        slice \<leftarrow> push_piece Rope_new first;
        chunk_end \<leftarrow> cursor_end usize_dim (rc_chunks rc);
        (if chunk_end < end_offset then do {
           (cks, tree) \<leftarrow> middle_slice (rc_chunks rc) end_offset;
           slice \<leftarrow> rope_append slice \<lparr>rope_chunks = tree\<rparr>;
           final \<leftarrow> end_slice cks end_offset;
           slice \<leftarrow> push_piece slice final;
           Some (rc\<lparr>rc_chunks := cks, rc_offset := end_offset\<rparr>, slice) }
         else Some (rc\<lparr>rc_offset := end_offset\<rparr>, slice)) })"

definition rope_cursor_suffix :: "RopeCursor \<Rightarrow> Rope option" where
  "rope_cursor_suffix rc = map_option snd (rope_cursor_slice rc (extent usize_dim (rope_chunks (rc_rope rc))))"

definition rope_slice :: "Rope \<Rightarrow> nat \<Rightarrow> nat \<Rightarrow> Rope option" where
  "rope_slice r range_start range_end = do {
     cursor \<leftarrow> rope_cursor r 0;
     cursor \<leftarrow> rope_seek_forward cursor range_start;
     map_option snd (rope_cursor_slice cursor range_end) }"

definition rope_slice_rows :: "Rope \<Rightarrow> nat \<Rightarrow> nat \<Rightarrow> Rope option" where
  "rope_slice_rows r range_start range_end = do {
     s \<leftarrow> rope_point_to_offset r (Point_new range_start 0);
     e \<leftarrow> rope_point_to_offset r (Point_new range_end 0);
     rope_slice r s e }"

definition rope_replace :: "Rope \<Rightarrow> nat \<Rightarrow> nat \<Rightarrow> ustr \<Rightarrow> Rope option" where
  "rope_replace r range_start range_end t = do {
     cursor \<leftarrow> rope_cursor r 0;
     (cursor, prefix) \<leftarrow> rope_cursor_slice cursor range_start;
     new_rope \<leftarrow> rope_append Rope_new prefix;
     cursor \<leftarrow> rope_seek_forward cursor range_end;
     new_rope \<leftarrow> rope_push new_rope t;
     suffix \<leftarrow> rope_cursor_suffix cursor;
     rope_append new_rope suffix }"

subsection \<open>Text dimensions\<close>

text \<open>The trait \<open>TextDimension\<close>.\<close>

record 'd TextDimension =
  td_dim :: "(ChunkSummary, 'd) dimension_ops"
  td_from_text_summary :: "TextSummary \<Rightarrow> 'd"
  td_from_chunk :: "ChunkSlice \<Rightarrow> 'd"
  td_add_assign :: "'d \<Rightarrow> 'd \<Rightarrow> 'd"

definition usize_text :: "nat TextDimension" where
  "usize_text = \<lparr>td_dim = usize_dim, td_from_text_summary = txt_len, td_from_chunk = chunk_len, td_add_assign = (+)\<rparr>"

definition OffsetUtf16_text :: "OffsetUtf16 TextDimension" where
  "OffsetUtf16_text = \<lparr>td_dim = OffsetUtf16_dim, td_from_text_summary = txt_len_utf16, td_from_chunk = chunk_len_utf16, td_add_assign = (+)\<rparr>"

definition Point_text :: "Point TextDimension" where
  "Point_text = \<lparr>td_dim = Point_dim, td_from_text_summary = txt_lines, td_from_chunk = chunk_lines, td_add_assign = Point_add\<rparr>"

definition PointUtf16_text :: "PointUtf16 TextDimension" where
  "PointUtf16_text = \<lparr>td_dim = PointUtf16_dim, td_from_text_summary = lines_utf16,
     td_from_chunk = (\<lambda>c. Point_new (row (chunk_lines c)) (last_line_len_utf16 c)), td_add_assign = Point_add\<rparr>"

text \<open>Summaries as a dimension: the sums of chunk summaries, as in the summary of a chunk.\<close>

definition TextSummary_text :: "ChunkSummary TextDimension" where
  "TextSummary_text = \<lparr>td_dim = \<lparr>dim_zero = ChunkSummary_zero, dim_add = ChunkSummary_add\<rparr>,
     td_from_text_summary = ChunkSummary_of, td_from_chunk = (\<lambda>c. ChunkSummary_of (text_summary c)), td_add_assign = ChunkSummary_add\<rparr>"

definition Dimensions_text :: "'d TextDimension \<Rightarrow> 'e TextDimension \<Rightarrow> ('d \<times> 'e) TextDimension" where
  "Dimensions_text D E = \<lparr>td_dim = Dimensions (td_dim D) (td_dim E),
     td_from_text_summary = (\<lambda>s. (td_from_text_summary D s, td_from_text_summary E s)),
     td_from_chunk = (\<lambda>c. (td_from_chunk D c, td_from_chunk E c)),
     td_add_assign = (\<lambda>a b. (td_add_assign D (fst a) (fst b), td_add_assign E (snd a) (snd b)))\<rparr>"

text \<open>\<open>DimensionPair\<close> compares by its key; its value may be missing.\<close>

record ('k, 'v) DimensionPair =
  dp_key :: 'k
  dp_value :: "'v option"

definition DimensionPair_add :: "('k \<Rightarrow> 'k \<Rightarrow> 'k) \<Rightarrow> ('v \<Rightarrow> 'v \<Rightarrow> 'v) \<Rightarrow> ('k, 'v) DimensionPair \<Rightarrow> ('k, 'v) DimensionPair \<Rightarrow> ('k, 'v) DimensionPair" where
  "DimensionPair_add add_key add_value p q = \<lparr>dp_key = add_key (dp_key p) (dp_key q),
     dp_value = (case dp_value p of None \<Rightarrow> None | Some v \<Rightarrow> map_option (add_value v) (dp_value q))\<rparr>"

definition DimensionPair_dim :: "('s, 'k) dimension_ops \<Rightarrow> ('s, 'v) dimension_ops \<Rightarrow> ('s, ('k, 'v) DimensionPair) dimension_ops" where
  "DimensionPair_dim K V = \<lparr>dim_zero = \<lparr>dp_key = dim_zero K, dp_value = Some (dim_zero V)\<rparr>,
     dim_add = (\<lambda>p s. \<lparr>dp_key = dim_add K (dp_key p) s, dp_value = map_option (\<lambda>v. dim_add V v s) (dp_value p)\<rparr>)\<rparr>"

definition DimensionPair_text :: "'k TextDimension \<Rightarrow> 'v TextDimension \<Rightarrow> ('k, 'v) DimensionPair TextDimension" where
  "DimensionPair_text K V = \<lparr>td_dim = DimensionPair_dim (td_dim K) (td_dim V),
     td_from_text_summary = (\<lambda>s. \<lparr>dp_key = td_from_text_summary K s, dp_value = Some (td_from_text_summary V s)\<rparr>),
     td_from_chunk = (\<lambda>c. \<lparr>dp_key = td_from_chunk K c, dp_value = Some (td_from_chunk V c)\<rparr>),
     td_add_assign = DimensionPair_add (td_add_assign K) (td_add_assign V)\<rparr>"

definition add_piece :: "'d TextDimension \<Rightarrow> 'd \<Rightarrow> ChunkSlice option \<Rightarrow> 'd" where
  "add_piece D d piece = (case piece of None \<Rightarrow> d | Some c \<Rightarrow> td_add_assign D d (td_from_chunk D c))"

definition rope_cursor_summary :: "'d TextDimension \<Rightarrow> RopeCursor \<Rightarrow> nat \<Rightarrow> (RopeCursor \<times> 'd) option" where
  "rope_cursor_summary D rc end_offset =
     (if end_offset < rc_offset rc \<or> rope_len (rc_rope rc) < end_offset then None
      else do {
        first \<leftarrow> start_slice rc end_offset;
        let summary = add_piece D (dim_zero (td_dim D)) first;
        chunk_end \<leftarrow> cursor_end usize_dim (rc_chunks rc);
        (if chunk_end < end_offset then do {
           cks \<leftarrow> cursor_next usize_dim (rc_chunks rc);
           (cks, d) \<leftarrow> cursor_summary usize_dim (td_dim D) cks (cmp end_offset) Bias.Right;
           let summary = td_add_assign D summary d;
           final \<leftarrow> end_slice cks end_offset;
           Some (rc\<lparr>rc_chunks := cks, rc_offset := end_offset\<rparr>, add_piece D summary final) }
         else Some (rc\<lparr>rc_offset := end_offset\<rparr>, summary)) })"

section \<open>The scan over the chunks\<close>

lemma usize_advance: "\<forall>c \<in> set cs. chunk_ok c \<Longrightarrow> rope_usize.adv p cs = p + text_len (chunks_text cs)"
  by (induction cs arbitrary: p) (simp_all add: chunk_ops_def usize_dim_def summary_text_chunk summary_fields)

lemma usize_add: "chunk_ok c \<Longrightarrow> dim_add usize_dim p (item_summary chunk_ops c) = p + text_len (chunk_text c)"
  by (simp add: chunk_ops_def usize_dim_def summary_text_chunk summary_fields)

lemma usize_positions: "\<forall>c \<in> set cs. chunk_ok c \<Longrightarrow> q \<in> set (positions usize_dim (item_summary chunk_ops) p cs) \<Longrightarrow> p \<le> q"
proof (induction cs arbitrary: p)
  case (Cons c cs)
  then have "q = p + text_len (chunk_text c) \<or> p + text_len (chunk_text c) \<le> q"
    using Cons.IH [of "p + text_len (chunk_text c)"] by (auto simp: Let_def usize_add)
  then show ?case by auto
qed simp

lemma usize_monot: "\<forall>c \<in> set cs. chunk_ok c \<Longrightarrow> rope_usize.monot (passes (cmp (k :: nat)) bias) p cs"
proof (induction cs arbitrary: p)
  case (Cons c cs)
  have "rope_usize.monot (passes (cmp k) bias) (p + text_len (chunk_text c)) cs" using Cons by simp
  moreover have "p + text_len (chunk_text c) \<le> q"
    if "q \<in> set (positions usize_dim (item_summary chunk_ops) (p + text_len (chunk_text c)) cs)" for q
    using usize_positions [OF _ that] Cons.prems by simp
  ultimately show ?case using Cons.prems
    by (cases bias) (fastforce simp: seek_mono_def Let_def usize_add passes_def)+
qed (simp add: seek_mono_def)

lemma usize_scan:
  assumes "\<forall>c \<in> set cs. chunk_ok c" "p \<le> k"
  obtains skipped rest where
    "rope_usize.scan (passes (cmp k) Bias.Right) p cs = (skipped, p + text_len (chunks_text skipped), rest)"
    "cs = skipped @ rest" "p + text_len (chunks_text skipped) \<le> k"
    "rest \<noteq> [] \<Longrightarrow> k < p + text_len (chunks_text skipped) + text_len (chunk_text (hd rest))"
  using assms
proof (induction cs arbitrary: p thesis)
  case (Cons c cs)
  show ?case
  proof (cases "p + text_len (chunk_text c) \<le> k")
    case True
    obtain skipped rest where s: "rope_usize.scan (passes (cmp k) Bias.Right) (p + text_len (chunk_text c)) cs =
        (skipped, p + text_len (chunk_text c) + text_len (chunks_text skipped), rest)" "cs = skipped @ rest"
      "p + text_len (chunk_text c) + text_len (chunks_text skipped) \<le> k"
      "rest \<noteq> [] \<Longrightarrow> k < p + text_len (chunk_text c) + text_len (chunks_text skipped) + text_len (chunk_text (hd rest))"
      using Cons.IH [OF _ _ True] Cons.prems(2) by auto
    have "rope_usize.scan (passes (cmp k) Bias.Right) p (c # cs) = (c # skipped, p + text_len (chunk_text c) + text_len (chunks_text skipped), rest)"
      using True s(1) Cons.prems(2) by (simp add: Let_def usize_add passes_def)
    then show ?thesis using s(2-4) by (intro Cons.prems(1) [of "c # skipped" rest]) (simp_all add: add.assoc)
  next
    case False
    then show ?thesis using Cons.prems(2,3) by (intro Cons.prems(1) [of "[]" "c # cs"]) (simp_all add: Let_def usize_add passes_def)
  qed
qed simp

section \<open>Where a cursor stands\<close>

text \<open>The cursor stands at \<open>offset\<close> in or at the end of its chunk.\<close>

definition near_chunk :: "ustr \<Rightarrow> Chunk list \<Rightarrow> Chunk list \<Rightarrow> bool" where
  "near_chunk a before after \<longleftrightarrow> text_len (chunks_text before) \<le> text_len a \<and>
     (after \<noteq> [] \<longrightarrow> text_len a \<le> text_len (chunks_text before) + text_len (chunk_text (hd after)))"

definition rc_at :: "RopeCursor \<Rightarrow> ustr \<Rightarrow> ustr \<Rightarrow> bool" where
  "rc_at rc a b \<longleftrightarrow> rope_ok (rc_rope rc) \<and> height (rope_chunks (rc_rope rc)) < 16 \<and> rope_text (rc_rope rc) = a @ b \<and>
     rc_offset rc = text_len a \<and> c_tree (rc_chunks rc) = rope_chunks (rc_rope rc) \<and>
     (\<exists>before after. cursor_at chunk_ops usize_dim (rc_chunks rc) before after \<and> near_chunk a before after)"

lemma usize_zero: "dim_zero usize_dim = 0"
  by (simp add: usize_dim_def)

lemma usize_position:
  assumes "rope_ok r" "c_tree c = rope_chunks r" "cursor_ready chunk_ops usize_dim c before after"
  shows "c_position c = text_len (chunks_text before)" "flatten (rope_chunks r) = before @ after"
    "rope_text r = chunks_text before @ chunks_text after" "\<forall>c \<in> set after. chunk_ok c"
  using cursor_ready_position [OF assms(3)] assms(1,2) usize_advance [of before 0]
  by (auto simp: usize_zero rope_text_def rope_ok_def chunks_ok_def)

lemma text_cut:
  assumes "p @ q = a @ b" "text_len p \<le> text_len a"
  obtains x where "a = p @ x" "q = x @ b"
  using assms by (auto simp: append_eq_append_conv2)

text \<open>Seeking to an offset at or after the cursor: what is skipped and where the scan stops.\<close>

lemma chunk_pass:
  assumes "rope_ok r" "c_tree c = rope_chunks r"
    "cursor_ready chunk_ops usize_dim c before after" "text_len (chunks_text before) \<le> k"
  obtains skipped rest where "after = skipped @ rest" "wf_tree chunk_ops (c_tree c)"
    "rope_usize.scan (passes (cmp k) Bias.Right) (c_position c) after = (skipped, text_len (chunks_text (before @ skipped)), rest)"
    "cmp k (c_position c) \<noteq> Less" "rope_usize.monot (passes (cmp k) Bias.Right) (c_position c) after"
    "text_len (chunks_text (before @ skipped)) \<le> k"
    "rest \<noteq> [] \<Longrightarrow> k < text_len (chunks_text (before @ skipped)) + text_len (chunk_text (hd rest))"
proof -
  note pos = usize_position [OF assms(1-3)]
  obtain skipped rest where s: "rope_usize.scan (passes (cmp k) Bias.Right) (c_position c) after =
      (skipped, c_position c + text_len (chunks_text skipped), rest)" "after = skipped @ rest"
    "c_position c + text_len (chunks_text skipped) \<le> k"
    "rest \<noteq> [] \<Longrightarrow> k < c_position c + text_len (chunks_text skipped) + text_len (chunk_text (hd rest))"
    by (rule usize_scan [OF pos(4), of "c_position c" k]) (use assms(4) pos(1) in auto)
  then show thesis using that pos(1) usize_monot [OF pos(4)] assms by (simp add: rope_ok_def)
qed

lemma chunk_seek_forward:
  assumes "rope_ok r" "height (rope_chunks r) < 16" "c_tree c = rope_chunks r"
    "cursor_ready chunk_ops usize_dim c before after" "text_len (chunks_text before) \<le> k"
  obtains skipped rest c' hit where "cursor_seek_forward usize_dim c (cmp k) Bias.Right = Some (c', hit)" "after = skipped @ rest"
    "cursor_at chunk_ops usize_dim c' (before @ skipped) rest" "c_tree c' = rope_chunks r"
    "text_len (chunks_text (before @ skipped)) \<le> k"
    "rest \<noteq> [] \<Longrightarrow> k < text_len (chunks_text (before @ skipped)) + text_len (chunk_text (hd rest))"
proof (rule chunk_pass [OF assms(1,3-5)])
  fix skipped rest
  assume s: "after = skipped @ rest" "wf_tree chunk_ops (c_tree c)"
    "rope_usize.scan (passes (cmp k) Bias.Right) (c_position c) after = (skipped, text_len (chunks_text (before @ skipped)), rest)"
    "cmp k (c_position c) \<noteq> Less" "rope_usize.monot (passes (cmp k) Bias.Right) (c_position c) after"
    "text_len (chunks_text (before @ skipped)) \<le> k"
    "rest \<noteq> [] \<Longrightarrow> k < text_len (chunks_text (before @ skipped)) + text_len (chunk_text (hd rest))"
  from rope_usize.cursor_seek_forward_ok [OF s(2) _ assms(4) s(4,5,3)] show thesis using that s(1,6,7) assms(2,3) by force
qed

text \<open>Stepping over the chunk under the cursor and passing the chunks up to an offset.\<close>

lemma chunk_next:
  assumes "rope_ok r" "height (rope_chunks r) < 16" "c_tree c = rope_chunks r" "cursor_at chunk_ops usize_dim c before (d # ds)"
  obtains c' where "cursor_next usize_dim c = Some c'" "c_tree c' = rope_chunks r" "cursor_at chunk_ops usize_dim c' (before @ [d]) ds"
  using rope_usize.search_forward_ok [OF _ _ filter_mono_True assms(4)] assms(1-3)
  by (auto simp: cursor_next_def rejected_True takeWhile_False rope_ok_def)

lemma middle_slice_ok:
  assumes "rope_ok r" "height (rope_chunks r) < 16" "c_tree c = rope_chunks r"
    "cursor_at chunk_ops usize_dim c before (d # ds)" "text_len (chunks_text (before @ [d])) \<le> k"
  obtains skipped rest c' t where "middle_slice c k = Some (c', t)" "ds = skipped @ rest" "wf_tree chunk_ops t" "flatten t = skipped"
    "height t \<le> 2 * height (rope_chunks r)"
    "cursor_at chunk_ops usize_dim c' (before @ d # skipped) rest" "c_tree c' = rope_chunks r"
    "text_len (chunks_text (before @ d # skipped)) \<le> k"
    "rest \<noteq> [] \<Longrightarrow> k < text_len (chunks_text (before @ d # skipped)) + text_len (chunk_text (hd rest))"
proof (rule chunk_next [OF assms(1-4)])
  fix c1 assume c1: "cursor_next usize_dim c = Some c1" "c_tree c1 = rope_chunks r" "cursor_at chunk_ops usize_dim c1 (before @ [d]) ds"
  show thesis
  proof (rule chunk_pass [OF assms(1) c1(2) cursor_ready_at [OF c1(3)] assms(5)])
    fix skipped rest
    assume s: "ds = skipped @ rest" "wf_tree chunk_ops (c_tree c1)"
      "rope_usize.scan (passes (cmp k) Bias.Right) (c_position c1) ds = (skipped, text_len (chunks_text ((before @ [d]) @ skipped)), rest)"
      "cmp k (c_position c1) \<noteq> Less" "rope_usize.monot (passes (cmp k) Bias.Right) (c_position c1) ds"
      "text_len (chunks_text ((before @ [d]) @ skipped)) \<le> k"
      "rest \<noteq> [] \<Longrightarrow> k < text_len (chunks_text ((before @ [d]) @ skipped)) + text_len (chunk_text (hd rest))"
    have "height (c_tree c1) < 16" using assms(2) c1(2) by simp
    then obtain c' t where t: "cursor_slice chunk_ops usize_dim c1 (cmp k) Bias.Right = Some (c', t)" "wf_tree chunk_ops t" "flatten t = skipped"
      "cursor_at chunk_ops usize_dim c' ((before @ [d]) @ skipped) rest" "c_tree c' = c_tree c1"
      using rope_usize.cursor_slice_ok [OF s(2) _ cursor_ready_at [OF c1(3)] s(4,5,3)] by auto
    have "height t \<le> 2 * height (rope_chunks r)"
      using rope_usize.cursor_slice_height [OF s(2) cursor_ready_at [OF c1(3)] t(1)] c1(2) by (auto split: if_splits)
    then show thesis using that t s(1,6,7) c1 by (auto simp: middle_slice_def)
  qed
qed

lemma end_slice_ok:
  assumes "rope_ok r" "c_tree c = rope_chunks r" "cursor_at chunk_ops usize_dim c before rest"
    "rope_text r = (chunks_text before @ v) @ w"
    "rest \<noteq> [] \<Longrightarrow> text_len (chunks_text before @ v) < text_len (chunks_text before) + text_len (chunk_text (hd rest))"
  obtains piece where "end_slice c (text_len (chunks_text before @ v)) = Some piece"
    "case piece of None \<Rightarrow> v = [] | Some s \<Rightarrow> chunk_ok s \<and> chunk_text s = v"
proof -
  note pos = usize_position [OF assms(1,2) cursor_ready_at [OF assms(3)]]
  have wf: "wf_tree chunk_ops (c_tree c)" using assms(1,2) by (simp add: rope_ok_def)
  note item = rope_usize.cursor_item_ok(1) [OF wf assms(3)]
  have t: "chunks_text rest = v @ w" using pos(3) assms(4) by simp
  show thesis
  proof (cases rest)
    case Nil
    with t item that [of None] show thesis by (simp add: end_slice_def list_first_def)
  next
    case (Cons d ds)
    have d: "chunk_ok d" using pos(4) Cons by simp
    have "text_len v \<le> text_len (chunk_text d)" using assms(5) Cons by simp
    then obtain y where y: "chunk_text d = v @ y" using t Cons text_cut [of v w "chunk_text d" "chunks_text ds"] by auto
    obtain s where s: "chunk_slice d (text_len []) (text_len [] + text_len v) = Some s" "chunk_ok s" "chunk_text s = v"
      by (rule chunk_slice_ok [OF d, of "[]" v y]) (use y in auto)
    then show thesis using that [of "Some s"] item Cons pos(1) by (simp add: end_slice_def list_first_def usize_sub_def)
  qed
qed

lemma rope_cursor_ok:
  assumes "rope_ok r" "height (rope_chunks r) < 16" "rope_text r = a @ b"
  obtains rc where "rope_cursor r (text_len a) = Some rc" "rc_at rc a b" "rc_rope rc = r"
proof -
  let ?c = "cursor_reset usize_dim (cursor_new usize_dim (rope_chunks r))"
  have c: "c_tree ?c = rope_chunks r" by (simp add: cursor_fresh_reset cursor_fresh_new)
  have fresh: "cursor_ready chunk_ops usize_dim ?c [] (flatten (rope_chunks r))"
    using cursor_ready_fresh [OF cursor_fresh_reset(1)] c by metis
  obtain skipped rest c' hit where s: "cursor_seek_forward usize_dim ?c (cmp (text_len a)) Bias.Right = Some (c', hit)"
    "cursor_at chunk_ops usize_dim c' skipped rest" "c_tree c' = rope_chunks r" "text_len (chunks_text skipped) \<le> text_len a"
    "rest \<noteq> [] \<Longrightarrow> text_len a < text_len (chunks_text skipped) + text_len (chunk_text (hd rest))"
    by (rule chunk_seek_forward [OF assms(1,2) c fresh, of "text_len a"]) auto
  have "near_chunk a skipped rest" using s(4,5) by (auto simp: near_chunk_def)
  then show ?thesis using that s(1-3) assms by (fastforce simp: rope_cursor_def rc_at_def cursor_seek_def cursor_seek_forward_def)
qed

lemma rc_atE:
  assumes "rc_at rc a b"
  obtains before after where "rope_ok (rc_rope rc)" "height (rope_chunks (rc_rope rc)) < 16" "rope_text (rc_rope rc) = a @ b"
    "rc_offset rc = text_len a" "rope_len (rc_rope rc) = text_len a + text_len b" "c_tree (rc_chunks rc) = rope_chunks (rc_rope rc)"
    "cursor_at chunk_ops usize_dim (rc_chunks rc) before after" "near_chunk a before after"
  using assms by (auto simp: rc_at_def rope_len_eq)

lemma rope_seek_forward_ok:
  assumes "rc_at rc a (b @ c)"
  obtains rc' where "rope_seek_forward rc (text_len (a @ b)) = Some rc'" "rc_at rc' (a @ b) c" "rc_rope rc' = rc_rope rc"
proof (rule rc_atE [OF assms])
  fix before after
  assume r: "rope_ok (rc_rope rc)" "height (rope_chunks (rc_rope rc)) < 16" "rope_text (rc_rope rc) = a @ b @ c"
    "rc_offset rc = text_len a" "rope_len (rc_rope rc) = text_len a + text_len (b @ c)" "c_tree (rc_chunks rc) = rope_chunks (rc_rope rc)"
    "cursor_at chunk_ops usize_dim (rc_chunks rc) before after" "near_chunk a before after"
  have "text_len (chunks_text before) \<le> text_len (a @ b)" using r(8) by (simp add: near_chunk_def)
  from chunk_seek_forward [OF r(1,2,6) cursor_ready_at [OF r(7)] this]
  obtain skipped rest c' hit where s: "cursor_seek_forward usize_dim (rc_chunks rc) (cmp (text_len (a @ b))) Bias.Right = Some (c', hit)"
    "cursor_at chunk_ops usize_dim c' (before @ skipped) rest" "c_tree c' = rope_chunks (rc_rope rc)"
    "text_len (chunks_text (before @ skipped)) \<le> text_len (a @ b)"
    "rest \<noteq> [] \<Longrightarrow> text_len (a @ b) < text_len (chunks_text (before @ skipped)) + text_len (chunk_text (hd rest))" by metis
  have "near_chunk (a @ b) (before @ skipped) rest" using s(4,5) by (auto simp: near_chunk_def)
  then show thesis using that s(1-3) r(1-5) by (fastforce simp: rope_seek_forward_def rc_at_def)
qed

text \<open>What the first part takes: the text up to the end offset or to the end of the chunk.\<close>

lemma start_slice_ok:
  assumes "rope_ok (rc_rope rc)" "rope_text (rc_rope rc) = a @ b @ c" "rc_offset rc = text_len a"
    "c_tree (rc_chunks rc) = rope_chunks (rc_rope rc)"
    "cursor_at chunk_ops usize_dim (rc_chunks rc) before after" "near_chunk a before after"
  obtains piece u v where "start_slice rc (text_len (a @ b)) = Some piece"
    "case piece of None \<Rightarrow> u = [] | Some s \<Rightarrow> chunk_ok s \<and> chunk_text s = u" "b = u @ v"
    "cursor_end usize_dim (rc_chunks rc) = Some (text_len (chunks_text (before @ take 1 after)))"
    "v \<noteq> [] \<Longrightarrow> after \<noteq> [] \<and> chunks_text (before @ [hd after]) = a @ u"
    "v = [] \<Longrightarrow> text_len (a @ b) \<le> text_len (chunks_text (before @ take 1 after))"
proof -
  note pos = usize_position [OF assms(1,4) cursor_ready_at [OF assms(5)]]
  have wf: "wf_tree chunk_ops (c_tree (rc_chunks rc))" using assms(1,4) by (simp add: rope_ok_def)
  note here = rope_usize.cursor_item_ok [OF wf assms(5)]
  have near: "text_len (chunks_text before) \<le> text_len a" using assms(6) by (simp add: near_chunk_def)
  obtain x where x: "a = chunks_text before @ x" "chunks_text after = x @ b @ c"
    by (rule text_cut [of "chunks_text before" "chunks_text after" a "b @ c"]) (use pos(3) assms(2) near in auto)
  show thesis
  proof (cases after)
    case Nil
    with x that [of None "[]" "[]"] here pos(1) show thesis by (simp add: start_slice_def list_first_def)
  next
    case (Cons d ds)
    have d: "chunk_ok d" using pos(4) Cons by simp
    have "text_len x \<le> text_len (chunk_text d)" using assms(6) Cons x(1) by (simp add: near_chunk_def)
    then obtain y where y: "chunk_text d = x @ y" "b @ c = y @ chunks_text ds"
      using x(2) Cons text_cut [of x "b @ c" "chunk_text d" "chunks_text ds"] by auto
    have cend: "cursor_end usize_dim (rc_chunks rc) = Some (text_len (chunks_text before) + text_len (chunk_text d))"
      using here(3) Cons d pos(1) by (simp add: usize_add)
    note item = here(1) [unfolded Cons list_first_def, simplified]
    show thesis
    proof (cases "text_len b \<le> text_len y")
      case True
      then obtain z where z: "y = b @ z" using y(2) text_cut [of b c y "chunks_text ds"] by metis
      obtain s where s: "chunk_slice d (text_len x) (text_len x + text_len b) = Some s" "chunk_ok s" "chunk_text s = b"
        by (rule chunk_slice_ok [OF d, of x b z]) (use y(1) z in auto)
      have "start_slice rc (text_len (a @ b)) = Some (Some s)"
        using item cend s(1) y(1) z x(1) pos(1) assms(3) by (simp add: start_slice_def usize_sub_def add.assoc)
      then show thesis using that [of "Some s" b "[]"] s cend Cons x(1) y(1) z by simp
    next
      case False
      then obtain z where z: "b = y @ z" using y(2) text_cut [of y "chunks_text ds" b c] by (metis nat_le_linear)
      obtain s where s: "chunk_slice d (text_len x) (text_len x + text_len y) = Some s" "chunk_ok s" "chunk_text s = y"
        by (rule chunk_slice_ok [OF d, of x y "[]"]) (use y(1) in auto)
      have "start_slice rc (text_len (a @ b)) = Some (Some s)"
        using item cend s(1) y(1) z x(1) pos(1) assms(3) by (simp add: start_slice_def usize_sub_def add.assoc)
      then show thesis using that [of "Some s" y z] s cend Cons x(1) y(1) z by simp
    qed
  qed
qed

lemma push_piece_ok:
  assumes "rope_ok r" "case piece of None \<Rightarrow> u = [] | Some s \<Rightarrow> chunk_ok s \<and> chunk_text s = u"
  obtains r' where "push_piece r piece = Some r'" "rope_ok r'" "rope_text r' = rope_text r @ u"
proof (cases piece)
  case None
  then show thesis using assms that by (simp add: push_piece_def)
next
  case (Some d)
  then show thesis using rope_push_chunk_ok [OF assms(1), of d] assms(2) that by (auto simp: push_piece_def)
qed

text \<open>The last part of a slice, after the chunks in the middle.\<close>

lemma slice_rest:
  assumes "rope_ok (rc_rope rc)" "height (rope_chunks (rc_rope rc)) < 16" "rope_text (rc_rope rc) = a @ (u @ v) @ c"
    "chunks_text (before @ [d]) = a @ u" "cursor_at chunk_ops usize_dim c' (before @ d # skipped) rest"
    "c_tree c' = rope_chunks (rc_rope rc)" "text_len (chunks_text (before @ d # skipped)) \<le> text_len (a @ u @ v)"
    "rest \<noteq> [] \<Longrightarrow> text_len (a @ u @ v) < text_len (chunks_text (before @ d # skipped)) + text_len (chunk_text (hd rest))"
  obtains w final where "v = chunks_text skipped @ w" "end_slice c' (text_len (a @ u @ v)) = Some final"
    "case final of None \<Rightarrow> w = [] | Some s \<Rightarrow> chunk_ok s \<and> chunk_text s = w"
    "rc_at (rc\<lparr>rc_chunks := c', rc_offset := text_len (a @ u @ v)\<rparr>) (a @ u @ v) c"
proof -
  have whole: "chunks_text (before @ d # skipped) @ chunks_text rest = (a @ u @ v) @ c"
    using usize_position(3) [OF assms(1,6) cursor_ready_at [OF assms(5)]] assms(3) by simp
  obtain w where w: "a @ u @ v = chunks_text (before @ d # skipped) @ w" using text_cut [OF whole assms(7)] by metis
  then have "(a @ u) @ v = chunks_text (before @ [d]) @ chunks_text skipped @ w" by simp
  then have v: "v = chunks_text skipped @ w" by (simp only: assms(4) same_append_eq)
  obtain final where f: "end_slice c' (text_len (a @ u @ v)) = Some final" "case final of None \<Rightarrow> w = [] | Some s \<Rightarrow> chunk_ok s \<and> chunk_text s = w"
    using end_slice_ok [OF assms(1,6,5), of w c] assms(3,8) w by auto
  have "near_chunk (a @ u @ v) (before @ d # skipped) rest" using assms(7,8) by (auto simp: near_chunk_def)
  then have "rc_at (rc\<lparr>rc_chunks := c', rc_offset := text_len (a @ u @ v)\<rparr>) (a @ u @ v) c"
    using assms(1-3,5,6) by (auto simp: rc_at_def)
  with v f show thesis by (rule that)
qed

lemma push_piece_height:
  assumes "rope_ok r" "push_piece r piece = Some r'"
  shows "height (rope_chunks r') \<le> Suc (height (rope_chunks r))"
  using assms push_chunk_height by (auto simp: push_piece_def split: option.splits)

lemma chunks_ok_middle: "chunks_ok (before @ d # skipped @ rest) \<Longrightarrow> chunks_ok skipped"
  by (cases "rest = []") (auto simp: chunks_ok_def butlast_append dest: in_set_butlastD split: if_splits)

lemma rope_cursor_slice_ok:
  assumes "rc_at rc a (b @ c)" "height (rope_chunks (rc_rope rc)) \<le> 6"
  obtains rc' s where "rope_cursor_slice rc (text_len (a @ b)) = Some (rc', s)" "rope_ok s" "rope_text s = b"
    "rc_at rc' (a @ b) c" "rc_rope rc' = rc_rope rc" "height (rope_chunks s) < 16"
proof (rule rc_atE [OF assms(1)])
  fix before after
  assume r: "rope_ok (rc_rope rc)" "height (rope_chunks (rc_rope rc)) < 16" "rope_text (rc_rope rc) = a @ b @ c"
    "rc_offset rc = text_len a" "rope_len (rc_rope rc) = text_len a + text_len (b @ c)" "c_tree (rc_chunks rc) = rope_chunks (rc_rope rc)"
    "cursor_at chunk_ops usize_dim (rc_chunks rc) before after" "near_chunk a before after"
  let ?k = "text_len (a @ b)"
  show thesis
  proof (rule start_slice_ok [OF r(1,3,4,6,7,8)])
    fix piece u v
    assume st: "start_slice rc ?k = Some piece" "case piece of None \<Rightarrow> u = [] | Some s \<Rightarrow> chunk_ok s \<and> chunk_text s = u" "b = u @ v"
      "cursor_end usize_dim (rc_chunks rc) = Some (text_len (chunks_text (before @ take 1 after)))"
      "v \<noteq> [] \<Longrightarrow> after \<noteq> [] \<and> chunks_text (before @ [hd after]) = a @ u"
      "v = [] \<Longrightarrow> ?k \<le> text_len (chunks_text (before @ take 1 after))"
    obtain s1 where s1: "push_piece Rope_new piece = Some s1" "rope_ok s1" "rope_text s1 = u"
      using push_piece_ok [OF Rope_new_ok(1) st(2)] Rope_new_ok(2) by auto
    have h1: "height (rope_chunks s1) \<le> 1"
      using push_piece_height [OF Rope_new_ok(1) s1(1)] by (simp add: Rope_new_def new_tree_def)
    have bounds: "\<not> (?k < rc_offset rc \<or> rope_len (rc_rope rc) < ?k)" using r(4,5) by simp
    show thesis
    proof (cases "v = []")
      case True
      have "near_chunk (a @ b) before after" using r(8) st(6) [OF True] by (cases after) (auto simp: near_chunk_def)
      then have "rc_at (rc\<lparr>rc_offset := ?k\<rparr>) (a @ b) c" using r by (auto simp: rc_at_def)
      then show thesis using that st(1,3,4) st(6) [OF True] s1 h1 bounds True by (simp add: rope_cursor_slice_def)
    next
      case False
      obtain d ds where after: "after = d # ds" using st(5) [OF False] by (cases after) auto
      have cut: "chunks_text (before @ [d]) = a @ u" using st(5) [OF False] after by simp
      have short: "text_len (chunks_text (before @ take 1 after)) < ?k" using cut st(3) False after by simp
      have "text_len (chunks_text (before @ [d])) \<le> ?k" unfolding cut st(3) by simp
      from middle_slice_ok [OF r(1,2,6) r(7) [unfolded after] this]
      obtain skipped rest c' t where m: "middle_slice (rc_chunks rc) ?k = Some (c', t)" "ds = skipped @ rest" "wf_tree chunk_ops t"
        "flatten t = skipped" "cursor_at chunk_ops usize_dim c' (before @ d # skipped) rest" "c_tree c' = rope_chunks (rc_rope rc)"
        "text_len (chunks_text (before @ d # skipped)) \<le> ?k"
        "rest \<noteq> [] \<Longrightarrow> ?k < text_len (chunks_text (before @ d # skipped)) + text_len (chunk_text (hd rest))"
        "height t \<le> 2 * height (rope_chunks (rc_rope rc))" by metis
      obtain w final where f: "v = chunks_text skipped @ w" "end_slice c' ?k = Some final"
        "case final of None \<Rightarrow> w = [] | Some s \<Rightarrow> chunk_ok s \<and> chunk_text s = w" "rc_at (rc\<lparr>rc_chunks := c', rc_offset := ?k\<rparr>) (a @ b) c"
        using slice_rest [OF r(1,2) r(3) [unfolded st(3)] cut m(5,6) m(7,8) [unfolded st(3)]] unfolding st(3) by metis
      let ?t = "\<lparr>rope_chunks = t\<rparr>"
      have middle: "rope_ok ?t" "rope_text ?t = chunks_text skipped" "height (rope_chunks ?t) \<le> 12"
        using m(2-4,9) r(1,7) after assms(2) chunks_ok_middle [of before d skipped rest]
        by (auto simp: rope_ok_def rope_text_def cursor_at_def r(6))
      then obtain s2 where s2: "rope_append s1 ?t = Some s2" "rope_ok s2" "rope_text s2 = u @ chunks_text skipped"
        using rope_append_ok [OF s1(2) middle(1)] s1(3) by fastforce
      obtain s3 where s3: "push_piece s2 final = Some s3" "rope_ok s3" "rope_text s3 = b"
        using push_piece_ok [OF s2(2) f(3)] s2(3) f(1) st(3) by auto
      have "height (rope_chunks s2) \<le> 13" using rope_append_height [OF s1(2) middle(1) _ s2(1)] middle(3) h1 by simp
      then have "height (rope_chunks s3) < 16" using push_piece_height [OF s2(2) s3(1)] by simp
      then show thesis using that [OF _ s3(2,3) f(4)] st(1,4) s1(1) m(1) s2(1) f(2) s3(1) bounds short by (simp add: rope_cursor_slice_def)
    qed
  qed
qed

text \<open>
  Slices are built by appending subtrees, and walking over a slice needs a tree of less than 16 levels
  again; a slice of a rope of at most six levels has at most fourteen.
\<close>

lemma shallow_cursor:
  assumes "rope_ok r" "height (rope_chunks r) \<le> 6" "rope_text r = a @ b"
  obtains rc where "rope_cursor r (text_len a) = Some rc" "rc_at rc a b" "rc_rope rc = r"
  by (rule rope_cursor_ok [OF assms(1) _ assms(3)]) (use assms(2) in auto)

lemma rope_extent: "rope_ok r \<Longrightarrow> extent usize_dim (rope_chunks r) = text_len (rope_text r)"
  by (simp add: extent_def usize_dim_def rope_summary_eq [unfolded rope_summary_def] summary_fields)

lemma rope_cursor_suffix_ok:
  assumes "height (rope_chunks (rc_rope rc)) \<le> 6" "rc_at rc a b"
  obtains s where "rope_cursor_suffix rc = Some s" "rope_ok s" "rope_text s = b" "height (rope_chunks s) < 16"
proof -
  have "rc_at rc a (b @ [])" using assms(2) by simp
  from rope_cursor_slice_ok [OF this assms(1)] obtain rc' s where s: "rope_cursor_slice rc (text_len (a @ b)) = Some (rc', s)" "rope_ok s"
    "rope_text s = b" "height (rope_chunks s) < 16" by metis
  have "extent usize_dim (rope_chunks (rc_rope rc)) = text_len (a @ b)" using assms(2) by (simp add: rc_at_def rope_extent)
  then show thesis using that s by (simp add: rope_cursor_suffix_def)
qed

lemma rope_slice_ok:
  assumes "rope_ok r" "height (rope_chunks r) \<le> 6" "rope_text r = a @ b @ c"
  obtains s where "rope_slice r (text_len a) (text_len (a @ b)) = Some s" "rope_ok s" "rope_text s = b" "height (rope_chunks s) < 16"
proof -
  obtain c0 where c0: "rope_cursor r 0 = Some c0" "rc_at c0 [] (a @ b @ c)" "rc_rope c0 = r"
    using shallow_cursor [OF assms(1,2), of "[]"] assms(3) by auto
  obtain c1 where c1: "rope_seek_forward c0 (text_len a) = Some c1" "rc_at c1 a (b @ c)" "rc_rope c1 = r"
    using rope_seek_forward_ok [OF c0(2)] c0(3) by auto
  show thesis
    by (rule rope_cursor_slice_ok [of c1 a b c]) (use c0(1) c1 assms(2) that in \<open>auto simp: rope_slice_def\<close>)
qed

lemma rope_replace_ok:
  assumes "rope_ok r" "height (rope_chunks r) \<le> 6" "rope_text r = a @ b @ c"
  obtains r' where "rope_replace r (text_len a) (text_len (a @ b)) t = Some r'" "rope_ok r'" "rope_text r' = a @ t @ c"
proof -
  obtain c0 where c0: "rope_cursor r 0 = Some c0" "rc_at c0 [] (a @ b @ c)" "rc_rope c0 = r"
    using shallow_cursor [OF assms(1,2), of "[]"] assms(3) by auto
  obtain c1 p where c1: "rope_cursor_slice c0 (text_len a) = Some (c1, p)" "rope_ok p" "rope_text p = a" "rc_at c1 a (b @ c)"
    "rc_rope c1 = r" "height (rope_chunks p) < 16" using rope_cursor_slice_ok [of c0 "[]" a "b @ c"] c0 assms(2) by auto
  obtain r1 where r1: "rope_append Rope_new p = Some r1" "rope_ok r1" "rope_text r1 = a"
    using rope_append_ok [OF Rope_new_ok(1) c1(2,6)] c1(3) Rope_new_ok(2) by auto
  obtain c2 where c2: "rope_seek_forward c1 (text_len (a @ b)) = Some c2" "rc_at c2 (a @ b) c" "rc_rope c2 = r"
    using rope_seek_forward_ok [OF c1(4)] c1(5) by auto
  obtain r2 where r2: "rope_push r1 t = Some r2" "rope_ok r2" "rope_text r2 = a @ t" using rope_push_ok [OF r1(2), of t] r1(3) by auto
  obtain s where s: "rope_cursor_suffix c2 = Some s" "rope_ok s" "rope_text s = c" "height (rope_chunks s) < 16"
    using rope_cursor_suffix_ok [of c2 "a @ b" c] c2 assms(2) by metis
  show thesis using rope_append_ok [OF r2(2) s(2,4)] r2 r1 c0 c1 c2 s that by (auto simp: rope_replace_def)
qed

subsection \<open>Ropes of one chunk\<close>

definition rope_single :: "Chunk \<Rightarrow> Rope" where
  "rope_single d = \<lparr>rope_chunks = Leaf (chunk_summary d) [d] [chunk_summary d]\<rparr>"

lemma rope_single_ok:
  assumes "chunk_ok d" "chunk_text d \<noteq> []"
  shows "rope_ok (rope_single d)" "rope_text (rope_single d) = chunk_text d" "height (rope_chunks (rope_single d)) = 0"
  using assms rope_sum.zero_left
  by (simp_all add: rope_single_def rope_ok_def rope_text_def chunks_ok_def TREE_BASE_def sum_summaries_def chunk_ops_def)

section \<open>Summing up in any text dimension\<close>

text \<open>What \<open>summary\<close> needs of a text dimension: sums of chunks, pieces of chunks and summaries are
  the value of the text they stand for.\<close>

locale text_dimension =
  fixes D :: "'d TextDimension" and val :: "ustr \<Rightarrow> 'd"
  assumes from_summary: "td_from_text_summary D (TextSummary_from t) = val t"
    and zero_val: "dim_zero (td_dim D) = val []"
    and add_val: "summary_text s = TextSummary_from t \<Longrightarrow> dim_add (td_dim D) (val a) s = val (a @ t)"
    and add_add: "dim_add (td_dim D) d (ChunkSummary_add s s') = dim_add (td_dim D) (dim_add (td_dim D) d s) s'"
    and from_chunk: "chunk_ok c \<Longrightarrow> td_from_chunk D c = val (chunk_text c)"
    and add_assign: "td_add_assign D (val a) (val b) = val (a @ b)"

sublocale text_dimension \<subseteq> dimension_algebra chunk_ops "td_dim D"
  by unfold_locales (simp add: chunk_ops_def add_add)

sublocale text_dimension \<subseteq> summed: output_dimension chunk_ops usize_dim "td_dim D"
  by (intro output_dimension.intro rope_usize.dimension_algebra_axioms dimension_algebra_axioms)

context text_dimension
begin

lemma advance_val: "\<forall>c \<in> set cs. chunk_ok c \<Longrightarrow> adv (val a) cs = val (a @ chunks_text cs)"
  by (induction cs arbitrary: a) (simp_all add: chunk_ops_def add_val summary_text_chunk)

lemma add_piece_val:
  assumes "case piece of None \<Rightarrow> u = [] | Some s \<Rightarrow> chunk_ok s \<and> chunk_text s = u"
  shows "add_piece D (val a) piece = val (a @ u)"
  using assms by (auto simp: add_piece_def from_chunk add_assign split: option.splits)

lemma middle_summary_ok:
  assumes "rope_ok r" "height (rope_chunks r) < 16" "c_tree c = rope_chunks r"
    "cursor_at chunk_ops usize_dim c before (d # ds)" "text_len (chunks_text (before @ [d])) \<le> k"
  obtains skipped rest c1 c' where "cursor_next usize_dim c = Some c1"
    "cursor_summary usize_dim (td_dim D) c1 (cmp k) Bias.Right = Some (c', val (chunks_text skipped))" "ds = skipped @ rest"
    "cursor_at chunk_ops usize_dim c' (before @ d # skipped) rest" "c_tree c' = rope_chunks r"
    "text_len (chunks_text (before @ d # skipped)) \<le> k"
    "rest \<noteq> [] \<Longrightarrow> k < text_len (chunks_text (before @ d # skipped)) + text_len (chunk_text (hd rest))"
proof (rule chunk_next [OF assms(1-4)])
  fix c1 assume c1: "cursor_next usize_dim c = Some c1" "c_tree c1 = rope_chunks r" "cursor_at chunk_ops usize_dim c1 (before @ [d]) ds"
  note chunks = usize_position(4) [OF assms(1) c1(2) cursor_ready_at [OF c1(3)]]
  show thesis
  proof (rule chunk_pass [OF assms(1) c1(2) cursor_ready_at [OF c1(3)] assms(5)])
    fix skipped rest
    assume s: "ds = skipped @ rest" "wf_tree chunk_ops (c_tree c1)"
      "rope_usize.scan (passes (cmp k) Bias.Right) (c_position c1) ds = (skipped, text_len (chunks_text ((before @ [d]) @ skipped)), rest)"
      "cmp k (c_position c1) \<noteq> Less" "rope_usize.monot (passes (cmp k) Bias.Right) (c_position c1) ds"
      "text_len (chunks_text ((before @ [d]) @ skipped)) \<le> k"
      "rest \<noteq> [] \<Longrightarrow> k < text_len (chunks_text ((before @ [d]) @ skipped)) + text_len (chunk_text (hd rest))"
    have "adv (dim_zero (td_dim D)) skipped = val (chunks_text skipped)"
      using chunks s(1) advance_val [of skipped "[]"] by (simp add: zero_val)
    with summed.cursor_summary_ok [OF s(2) _ cursor_ready_at [OF c1(3)] s(4,5,3)]
    show thesis using that s(1,6,7) assms(2) c1 by force
  qed
qed

lemma rope_cursor_summary_ok:
  assumes "rc_at rc a (b @ c)"
  obtains rc' where "rope_cursor_summary D rc (text_len (a @ b)) = Some (rc', val b)" "rc_at rc' (a @ b) c" "rc_rope rc' = rc_rope rc"
proof (rule rc_atE [OF assms(1)])
  fix before after
  assume r: "rope_ok (rc_rope rc)" "height (rope_chunks (rc_rope rc)) < 16" "rope_text (rc_rope rc) = a @ b @ c"
    "rc_offset rc = text_len a" "rope_len (rc_rope rc) = text_len a + text_len (b @ c)" "c_tree (rc_chunks rc) = rope_chunks (rc_rope rc)"
    "cursor_at chunk_ops usize_dim (rc_chunks rc) before after" "near_chunk a before after"
  let ?k = "text_len (a @ b)"
  show thesis
  proof (rule start_slice_ok [OF r(1,3,4,6,7,8)])
    fix piece u v
    assume st: "start_slice rc ?k = Some piece" "case piece of None \<Rightarrow> u = [] | Some s \<Rightarrow> chunk_ok s \<and> chunk_text s = u" "b = u @ v"
      "cursor_end usize_dim (rc_chunks rc) = Some (text_len (chunks_text (before @ take 1 after)))"
      "v \<noteq> [] \<Longrightarrow> after \<noteq> [] \<and> chunks_text (before @ [hd after]) = a @ u"
      "v = [] \<Longrightarrow> ?k \<le> text_len (chunks_text (before @ take 1 after))"
    have first: "add_piece D (dim_zero (td_dim D)) piece = val u" using add_piece_val [OF st(2), of "[]"] by (simp add: zero_val)
    have bounds: "\<not> (?k < rc_offset rc \<or> rope_len (rc_rope rc) < ?k)" using r(4,5) by simp
    show thesis
    proof (cases "v = []")
      case True
      have "near_chunk (a @ b) before after" using r(8) st(6) [OF True] by (cases after) (auto simp: near_chunk_def)
      then have "rc_at (rc\<lparr>rc_offset := ?k\<rparr>) (a @ b) c" using r by (auto simp: rc_at_def)
      then show thesis using that st(1,3,4) st(6) [OF True] first bounds True by (simp add: rope_cursor_summary_def Let_def)
    next
      case False
      obtain d ds where after: "after = d # ds" using st(5) [OF False] by (cases after) auto
      have cut: "chunks_text (before @ [d]) = a @ u" using st(5) [OF False] after by simp
      have short: "text_len (chunks_text (before @ take 1 after)) < ?k" using cut st(3) False after by simp
      have "text_len (chunks_text (before @ [d])) \<le> ?k" unfolding cut st(3) by simp
      from middle_summary_ok [OF r(1,2,6) r(7) [unfolded after] this]
      obtain skipped rest c1 c' where m: "cursor_next usize_dim (rc_chunks rc) = Some c1"
        "cursor_summary usize_dim (td_dim D) c1 (cmp ?k) Bias.Right = Some (c', val (chunks_text skipped))" "ds = skipped @ rest"
        "cursor_at chunk_ops usize_dim c' (before @ d # skipped) rest" "c_tree c' = rope_chunks (rc_rope rc)"
        "text_len (chunks_text (before @ d # skipped)) \<le> ?k"
        "rest \<noteq> [] \<Longrightarrow> ?k < text_len (chunks_text (before @ d # skipped)) + text_len (chunk_text (hd rest))" by metis
      obtain w final where f: "v = chunks_text skipped @ w" "end_slice c' ?k = Some final"
        "case final of None \<Rightarrow> w = [] | Some s \<Rightarrow> chunk_ok s \<and> chunk_text s = w" "rc_at (rc\<lparr>rc_chunks := c', rc_offset := ?k\<rparr>) (a @ b) c"
        using slice_rest [OF r(1,2) r(3) [unfolded st(3)] cut m(4,5) m(6,7) [unfolded st(3)]] unfolding st(3) by metis
      have "add_piece D (val (u @ chunks_text skipped)) final = val b" using add_piece_val [OF f(3)] f(1) st(3) by simp
      then show thesis using that [OF _ f(4)] st(1,4) first m(1,2) f(2) bounds short
        by (simp add: rope_cursor_summary_def Let_def add_assign)
    qed
  qed
qed

end

interpretation usize_summary: text_dimension usize_text text_len
  by unfold_locales (simp_all add: usize_text_def usize_dim_def chunk_len_def summary_fields ChunkSummary_add.rep_eq TextSummary_add_sel)

interpretation utf16_summary: text_dimension OffsetUtf16_text text_len_utf16
  by unfold_locales (simp_all add: OffsetUtf16_text_def OffsetUtf16_dim_def chunk_len_utf16_eq summary_fields ChunkSummary_add.rep_eq
    TextSummary_add_sel)

lemma chunk_point: "chunk_ok c \<Longrightarrow> chunk_lines c = point_of (chunk_text c)"
  by (auto simp: text_summary_def simp flip: text_summary_eq split: prod.splits)

interpretation point_summary: text_dimension Point_text point_of
  by unfold_locales (simp_all add: Point_text_def Point_dim_def chunk_point point_of_append ChunkSummary_add.rep_eq
    TextSummary_add_sel Point_add_assoc TextSummary_from_Nil TextSummary_zero_def)

lemma chunk_point_utf16: "chunk_ok c \<Longrightarrow> \<lparr>row = row (chunk_lines c), column = last_line_len_utf16 c\<rparr> = point_utf16_of (chunk_text c)"
  by (simp add: chunk_point last_line_eq summary_lines)

interpretation point_utf16_summary: text_dimension PointUtf16_text point_utf16_of
  by unfold_locales (simp_all add: PointUtf16_text_def PointUtf16_dim_def point_of_append ChunkSummary_add.rep_eq lines_utf16_add
    Point_add_assoc TextSummary_from_Nil lines_utf16_zero chunk_point_utf16 Point_new_def)

lemma summary_append:
  "summary_text s = TextSummary_from t \<Longrightarrow> ChunkSummary_add (ChunkSummary_of (TextSummary_from a)) s = ChunkSummary_of (TextSummary_from (a @ t))"
  "ChunkSummary_add (ChunkSummary_of (TextSummary_from a)) (ChunkSummary_of (TextSummary_from b)) = ChunkSummary_of (TextSummary_from (a @ b))"
  by (rule ChunkSummary_of_text [symmetric], simp add: ChunkSummary_add.rep_eq summary_text_of summary_inv_from TextSummary_from_append)+

interpretation text_summary: text_dimension TextSummary_text "\<lambda>t. ChunkSummary_of (TextSummary_from t)"
  by unfold_locales (simp_all add: TextSummary_text_def text_summary_eq TextSummary_from_Nil ChunkSummary_add_assoc
    ChunkSummary_of_text [OF ChunkSummary_zero.rep_eq] summary_append)

lemma pair_summary:
  assumes "text_dimension D val" "text_dimension E val'"
  shows "text_dimension (Dimensions_text D E) (\<lambda>t. (val t, val' t))"
    "text_dimension (DimensionPair_text D E) (\<lambda>t. \<lparr>dp_key = val t, dp_value = Some (val' t)\<rparr>)"
  using assms by (simp_all add: text_dimension_def Dimensions_text_def Dimensions_def DimensionPair_text_def DimensionPair_dim_def
    DimensionPair_add_def option.map_comp comp_def)

lemma rope_slice_rows_ok:
  assumes "rope_ok r" "height (rope_chunks r) \<le> 6" "text_len (rope_text r) < 2 ^ 32" "rope_text r = a @ b @ c"
    "point_of a = Point_new i 0" "point_of (a @ b) = Point_new j 0"
  obtains s where "rope_slice_rows r i j = Some s" "rope_ok s" "rope_text s = b"
  by (rule rope_slice_ok [OF assms(1,2,4)])
    (use rope_point_to_offset_eq [OF assms(1,3), of a "b @ c"] rope_point_to_offset_eq [OF assms(1,3), of "a @ b" c] assms(4-6) that
      in \<open>simp add: rope_slice_rows_def\<close>)

lemma rope_slice_outside: "j < i \<or> rope_len r < j \<Longrightarrow> rope_slice r i j = None"
  by (cases "rope_cursor r 0 \<bind> (\<lambda>c. rope_seek_forward c i)")
    (auto simp: rope_slice_def rope_cursor_slice_def rope_seek_forward_def rope_cursor_def bind_eq_Some_conv Option.bind_eq_None_conv split: if_splits)

section \<open>What slicing promises\<close>

text \<open>(C5) Slicing and replacing act on the text as on a string: the slice between two character
  boundaries is the text between them, and replacing it puts another text in its place; both keep the
  rope invariant.  A slice that ends before it starts or beyond the end panics.\<close>

theorem rope_slice_refines:
  assumes "rope_ok r" and "height (rope_chunks r) \<le> 6" and "rope_text r = a @ b @ c"
  shows "(\<exists>s. rope_slice r (text_len a) (text_len (a @ b)) = Some s \<and> rope_ok s \<and> rope_text s = b) \<and>
    (\<exists>r'. rope_replace r (text_len a) (text_len (a @ b)) t = Some r' \<and> rope_ok r' \<and> rope_text r' = a @ t @ c) \<and>
    (j < i \<or> rope_len r < j \<longrightarrow> rope_slice r i j = None)"
  using rope_slice_ok [OF assms(1-3)] rope_replace_ok [OF assms(1-3), of t] rope_slice_outside [of j i r] by metis

theorem rope_slice_refines_witness:
  "\<exists>r s r'. rope_text r = [104, 105, 10] \<and> rope_slice r 1 2 = Some s \<and> rope_text s = [105] \<and>
     rope_replace r 1 2 [233, 33] = Some r' \<and> rope_text r' = [104, 233, 33, 10] \<and> rope_slice r 2 1 = None"
proof -
  obtain d where d: "Chunk_new [104, 105, 10] = Some d" using small_chunk [of "[104, 105, 10]"] by (auto simp: text_len_def len_utf8_def)
  then have ok: "chunk_ok d" "chunk_text d = [104, 105, 10]" by (simp_all add: Chunk_new_iff)
  then have r: "rope_text (rope_single d) = [104] @ [105] @ [10]" using rope_single_ok [of d] by simp
  have len: "text_len [104] = 1" "text_len ([104] @ [105]) = 2" by (simp_all add: text_len_def len_utf8_def)
  obtain s r' where s: "rope_slice (rope_single d) 1 2 = Some s" "rope_text s = [105]" "rope_replace (rope_single d) 1 2 [233, 33] = Some r'"
    "rope_text r' = [104] @ [233, 33] @ [10]" "rope_slice (rope_single d) 2 1 = None"
    using rope_slice_refines [OF rope_single_ok(1) _ r, of "[233, 33]" 1 2] ok rope_single_ok(3) [of d] unfolding len by auto
  show ?thesis by (intro exI [of _ "rope_single d"] exI [of _ s] exI [of _ r']) (use r s in simp)
qed

lemma rope_summaries:
  assumes "rope_ok r" and "height (rope_chunks r) < 16" and "rope_text r = a @ b @ c" and "rope_cursor r (text_len a) = Some rc"
  shows "map_option snd (rope_cursor_summary usize_text rc (text_len (a @ b))) = Some (text_len b)"
    and "map_option snd (rope_cursor_summary (Dimensions_text Point_text OffsetUtf16_text) rc (text_len (a @ b))) =
      Some (point_of b, text_len_utf16 b)"
    and "map_option snd (rope_cursor_summary PointUtf16_text rc (text_len (a @ b))) = Some (point_utf16_of b)"
    and "map_option (summary_text \<circ> snd) (rope_cursor_summary TextSummary_text rc (text_len (a @ b))) = Some (TextSummary_from b)"
    and "map_option snd (rope_cursor_summary (DimensionPair_text Point_text usize_text) rc (text_len (a @ b))) =
      Some \<lparr>dp_key = point_of b, dp_value = Some (text_len b)\<rparr>"
proof -
  have rc: "rc_at rc a (b @ c)" using rope_cursor_ok [OF assms(1-3)] assms(4) by auto
  note pairs = pair_summary [OF point_summary.text_dimension_axioms utf16_summary.text_dimension_axioms]
    pair_summary [OF point_summary.text_dimension_axioms usize_summary.text_dimension_axioms]
  show "map_option snd (rope_cursor_summary usize_text rc (text_len (a @ b))) = Some (text_len b)"
    by (rule usize_summary.rope_cursor_summary_ok [OF rc]) simp
  show "map_option snd (rope_cursor_summary (Dimensions_text Point_text OffsetUtf16_text) rc (text_len (a @ b))) =
      Some (point_of b, text_len_utf16 b)"
    by (rule text_dimension.rope_cursor_summary_ok [OF pairs(1) rc]) simp
  show "map_option snd (rope_cursor_summary PointUtf16_text rc (text_len (a @ b))) = Some (point_utf16_of b)"
    by (rule point_utf16_summary.rope_cursor_summary_ok [OF rc]) simp
  show "map_option (summary_text \<circ> snd) (rope_cursor_summary TextSummary_text rc (text_len (a @ b))) = Some (TextSummary_from b)"
    by (rule text_summary.rope_cursor_summary_ok [OF rc]) (simp add: summary_text_of summary_inv_from)
  show "map_option snd (rope_cursor_summary (DimensionPair_text Point_text usize_text) rc (text_len (a @ b))) =
      Some \<lparr>dp_key = point_of b, dp_value = Some (text_len b)\<rparr>"
    by (rule text_dimension.rope_cursor_summary_ok [OF pairs(4) rc]) simp
qed

text \<open>Summing up with a rope cursor gives the value of the text passed, in every dimension:
  bytes, UTF-16 units, lines and columns, lines and UTF-16 columns, the whole summary, and pairs.\<close>

lemma rope_summary_in_dimensions:
  assumes "rope_ok r" and "height (rope_chunks r) < 16" and "rope_text r = a @ b @ c" and "rope_cursor r (text_len a) = Some rc"
  shows "map_option snd (rope_cursor_summary usize_text rc (text_len (a @ b))) = Some (text_len b) \<and>
    map_option snd (rope_cursor_summary (Dimensions_text Point_text OffsetUtf16_text) rc (text_len (a @ b))) =
      Some (point_of b, text_len_utf16 b) \<and>
    map_option snd (rope_cursor_summary PointUtf16_text rc (text_len (a @ b))) = Some (point_utf16_of b) \<and>
    map_option (summary_text \<circ> snd) (rope_cursor_summary TextSummary_text rc (text_len (a @ b))) = Some (TextSummary_from b) \<and>
    map_option snd (rope_cursor_summary (DimensionPair_text Point_text usize_text) rc (text_len (a @ b))) =
      Some \<lparr>dp_key = point_of b, dp_value = Some (text_len b)\<rparr>"
  using rope_summaries [OF assms] by blast

end
