(* ===== verification/Text_Patch.thy ===== *)
theory Text_Patch
  imports Prelude
begin

text \<open>
  Patches (\<open>crates/text/src/patch.rs\<close>, \<open>Edit\<close> of \<open>crates/text/src/text.rs\<close>) and the topics that
  publish them (\<open>crates/text/src/subscription.rs\<close>).  The source is generic in the type of
  positions; the model is its instance for byte offsets, where a subtraction below zero panics.
\<close>

section \<open>The source\<close>

record Range =
  r_start :: nat
  r_end :: nat

record TextEdit =
  ed_old :: Range
  ed_new :: Range

abbreviation range :: "nat \<Rightarrow> nat \<Rightarrow> Range" where
  "range a b \<equiv> \<lparr>r_start = a, r_end = b\<rparr>"

abbreviation text_edit :: "nat \<Rightarrow> nat \<Rightarrow> nat \<Rightarrow> nat \<Rightarrow> TextEdit" where
  "text_edit a b c d \<equiv> \<lparr>ed_old = range a b, ed_new = range c d\<rparr>"

definition sub_usize :: "nat \<Rightarrow> nat \<Rightarrow> nat option" where
  "sub_usize a b = (if b \<le> a then Some (a - b) else None)"

definition edit_is_empty :: "TextEdit \<Rightarrow> bool" where
  "edit_is_empty e \<longleftrightarrow> r_start (ed_old e) = r_end (ed_old e) \<and> r_start (ed_new e) = r_end (ed_new e)"

definition old_len :: "TextEdit \<Rightarrow> nat option" where
  "old_len e = sub_usize (r_end (ed_old e)) (r_start (ed_old e))"

definition new_len :: "TextEdit \<Rightarrow> nat option" where
  "new_len e = sub_usize (r_end (ed_new e)) (r_start (ed_new e))"

type_synonym Patch = "TextEdit list"

definition Patch_empty :: Patch where
  "Patch_empty = []"

definition patch_invert :: "Patch \<Rightarrow> Patch" where
  "patch_invert p = map (\<lambda>e. \<lparr>ed_old = ed_new e, ed_new = ed_old e\<rparr>) p"

definition push_maybe_empty :: "Patch \<Rightarrow> TextEdit \<Rightarrow> Patch" where
  "push_maybe_empty p e =
     (if p = [] then [e]
      else let l = last p in
        if r_start (ed_old e) \<le> r_end (ed_old l)
        then butlast p @ [text_edit (r_start (ed_old l)) (r_end (ed_old e)) (r_start (ed_new l)) (r_end (ed_new e))]
        else p @ [e])"

definition patch_push :: "Patch \<Rightarrow> TextEdit \<Rightarrow> Patch" where
  "patch_push p e = (if edit_is_empty e then p else push_maybe_empty p e)"

subsection \<open>Composition\<close>

text \<open>The state of the loop: the composed patch so far, \<open>old_start\<close> and \<open>new_start\<close>.\<close>

type_synonym compose_state = "Patch \<times> nat \<times> nat"

definition push_edit :: "nat \<Rightarrow> TextEdit \<Rightarrow> compose_state \<Rightarrow> compose_state option" where
  "push_edit catchup e = (\<lambda>(composed, old_start, new_start). do {
     olen \<leftarrow> old_len e;
     nlen \<leftarrow> new_len e;
     let old_end = old_start + catchup + olen;
     let new_end = new_start + catchup + nlen;
     Some (patch_push composed (text_edit (old_start + catchup) old_end (new_start + catchup) new_end), old_end, new_end) })"

text \<open>Push the old edit if its new end is before the new edit's old start.\<close>

definition push_old :: "TextEdit \<Rightarrow> compose_state \<Rightarrow> compose_state option" where
  "push_old e = (\<lambda>(composed, old_start, new_start). do {
     catchup \<leftarrow> sub_usize (r_start (ed_old e)) old_start;
     push_edit catchup e (composed, old_start, new_start) })"

text \<open>Push the new edit if its old end is before the old edit's new start.\<close>

definition push_new :: "TextEdit \<Rightarrow> compose_state \<Rightarrow> compose_state option" where
  "push_new e = (\<lambda>(composed, old_start, new_start). do {
     catchup \<leftarrow> sub_usize (r_start (ed_new e)) new_start;
     push_edit catchup e (composed, old_start, new_start) })"

text \<open>Two edits that intersect: first bring both to the same position of the text between.\<close>

definition align :: "TextEdit \<Rightarrow> TextEdit \<Rightarrow> compose_state \<Rightarrow> (TextEdit \<times> TextEdit \<times> compose_state) option" where
  "align old_edit new_edit = (\<lambda>(composed, old_start, new_start).
     if r_start (ed_new old_edit) < r_start (ed_old new_edit) then do {
       catchup \<leftarrow> sub_usize (r_start (ed_old old_edit)) old_start;
       overshoot \<leftarrow> sub_usize (r_start (ed_old new_edit)) (r_start (ed_new old_edit));
       let old_end = min (old_start + catchup + overshoot) (r_end (ed_old old_edit));
       let new_end = new_start + catchup + overshoot;
       Some (text_edit old_end (r_end (ed_old old_edit)) (r_start (ed_new old_edit) + overshoot) (r_end (ed_new old_edit)), new_edit,
         patch_push composed (text_edit (old_start + catchup) old_end (new_start + catchup) new_end), old_end, new_end) }
     else do {
       catchup \<leftarrow> sub_usize (r_start (ed_new new_edit)) new_start;
       overshoot \<leftarrow> sub_usize (r_start (ed_new old_edit)) (r_start (ed_old new_edit));
       let old_end = old_start + catchup + overshoot;
       let new_end = min (new_start + catchup + overshoot) (r_end (ed_new new_edit));
       Some (old_edit, text_edit (r_start (ed_old new_edit) + overshoot) (r_end (ed_old new_edit)) new_end (r_end (ed_new new_edit)),
         patch_push composed (text_edit (old_start + catchup) old_end (new_start + catchup) new_end), old_end, new_end) })"

text \<open>Then consume the one that ends first; the other one is cut.\<close>

definition consume_new :: "TextEdit \<Rightarrow> TextEdit \<Rightarrow> compose_state \<Rightarrow> (TextEdit \<times> compose_state) option" where
  "consume_new old_edit new_edit = (\<lambda>(composed, old_start, new_start). do {
     olen \<leftarrow> old_len old_edit;
     nolen \<leftarrow> old_len new_edit;
     nlen \<leftarrow> new_len new_edit;
     let old_end = old_start + min olen nolen;
     let new_end = new_start + nlen;
     Some (text_edit old_end (r_end (ed_old old_edit)) (r_end (ed_old new_edit)) (r_end (ed_new old_edit)),
       patch_push composed (text_edit old_start old_end new_start new_end), old_end, new_end) })"

definition consume_old :: "TextEdit \<Rightarrow> TextEdit \<Rightarrow> compose_state \<Rightarrow> (TextEdit \<times> compose_state) option" where
  "consume_old old_edit new_edit = (\<lambda>(composed, old_start, new_start). do {
     olen \<leftarrow> old_len old_edit;
     onlen \<leftarrow> new_len old_edit;
     nlen \<leftarrow> new_len new_edit;
     let old_end = old_start + olen;
     let new_end = new_start + min onlen nlen;
     Some (text_edit (r_end (ed_new old_edit)) (r_end (ed_old new_edit)) new_end (r_end (ed_new new_edit)),
       patch_push composed (text_edit old_start old_end new_start new_end), old_end, new_end) })"

function compose_loop :: "Patch \<Rightarrow> Patch \<Rightarrow> compose_state \<Rightarrow> Patch option" where
  "compose_loop [] [] s = Some (fst s)"
| "compose_loop (old_edit # olds) [] s = do { s' \<leftarrow> push_old old_edit s; compose_loop olds [] s' }"
| "compose_loop [] (new_edit # news) s = do { s' \<leftarrow> push_new new_edit s; compose_loop [] news s' }"
| "compose_loop (old_edit # olds) (new_edit # news) s =
     (if r_end (ed_new old_edit) < r_start (ed_old new_edit) then do { s' \<leftarrow> push_old old_edit s; compose_loop olds (new_edit # news) s' }
      else if r_end (ed_old new_edit) < r_start (ed_new old_edit) then do { s' \<leftarrow> push_new new_edit s; compose_loop (old_edit # olds) news s' }
      else do {
        (old', new', s') \<leftarrow> align old_edit new_edit s;
        (if r_end (ed_old new') < r_end (ed_new old') then do { (old'', s'') \<leftarrow> consume_new old' new' s'; compose_loop (old'' # olds) news s'' }
         else do { (new'', s'') \<leftarrow> consume_old old' new' s'; compose_loop olds (new'' # news) s'' }) })"
  by pat_completeness auto
termination by (relation "measure (\<lambda>(olds, news, s). length olds + length news)") auto

definition patch_compose :: "Patch \<Rightarrow> Patch \<Rightarrow> Patch option" where
  "patch_compose p new_edits = compose_loop p new_edits ([], 0, 0)"

subsection \<open>Positions\<close>

text \<open>\<open>binary_search_by(|probe| probe.old.start.cmp(&old))\<close> on edits with increasing starts: the
  index of the edit that starts there (\<open>Ok\<close>, on the right) or where it would be inserted (\<open>Err\<close>).\<close>

definition search_old_start :: "Patch \<Rightarrow> nat \<Rightarrow> nat + nat" where
  "search_old_start p x =
     (let ix = length (takeWhile (\<lambda>e. r_start (ed_old e) < x) p)
      in if ix < length p \<and> r_start (ed_old (p ! ix)) = x then Inr ix else Inl ix)"

definition old_to_new :: "Patch \<Rightarrow> nat \<Rightarrow> nat" where
  "old_to_new p x =
     (let at = (\<lambda>ix. case list_get p ix of
          Some edit \<Rightarrow> if r_end (ed_old edit) \<le> x then r_end (ed_new edit) + (x - r_end (ed_old edit)) else r_start (ed_new edit)
        | None \<Rightarrow> x)
      in case search_old_start p x of
          Inr ix \<Rightarrow> at ix
        | Inl ix \<Rightarrow> if ix = 0 then x else at (ix - 1))"

definition edit_for_old_position :: "Patch \<Rightarrow> nat \<Rightarrow> TextEdit" where
  "edit_for_old_position p x =
     (let at = (\<lambda>ix. case list_get p ix of
          Some edit \<Rightarrow>
            if r_end (ed_old edit) < x then
              let translated = r_end (ed_new edit) + (x - r_end (ed_old edit))
              in text_edit x x translated translated
            else edit
        | None \<Rightarrow> text_edit x x x x)
      in case search_old_start p x of
          Inr ix \<Rightarrow> at ix
        | Inl ix \<Rightarrow> if ix = 0 then text_edit x x x x else at (ix - 1))"

subsection \<open>Topics and subscriptions\<close>

text \<open>The patches behind the shared pointers, by an id for each subscription (\<open>None\<close> once the
  subscription is dropped), and the weak pointers that the topic holds.\<close>

record Topic =
  topic_patches :: "nat \<Rightarrow> Patch option"
  topic_subs :: "nat list"

definition subscribe :: "nat \<Rightarrow> Topic \<Rightarrow> Topic" where
  "subscribe subscription t = t\<lparr>topic_patches := (topic_patches t)(subscription \<mapsto> []), topic_subs := topic_subs t @ [subscription]\<rparr>"

definition drop_subscription :: "nat \<Rightarrow> Topic \<Rightarrow> Topic" where
  "drop_subscription subscription t = t\<lparr>topic_patches := (topic_patches t)(subscription := None)\<rparr>"

fun publish_loop :: "Patch \<Rightarrow> (nat \<Rightarrow> Patch option) \<Rightarrow> nat list \<Rightarrow> ((nat \<Rightarrow> Patch option) \<times> nat list) option" where
  "publish_loop edits patches [] = Some (patches, [])"
| "publish_loop edits patches (subscription # subs) =
     (case patches subscription of
        Some patch \<Rightarrow> do {
          patch' \<leftarrow> patch_compose patch edits;
          (patches', subs') \<leftarrow> publish_loop edits (patches(subscription \<mapsto> patch')) subs;
          Some (patches', subscription # subs') }
      | None \<Rightarrow> publish_loop edits patches subs)"

definition publish :: "Topic \<Rightarrow> Patch \<Rightarrow> Topic option" where
  "publish t edits = do {
     (patches, subs) \<leftarrow> publish_loop edits (topic_patches t) (topic_subs t);
     Some (t\<lparr>topic_patches := patches, topic_subs := subs\<rparr>) }"

definition consume :: "nat \<Rightarrow> Topic \<Rightarrow> (Patch \<times> Topic) option" where
  "consume subscription t = map_option (\<lambda>p. (p, t\<lparr>topic_patches := (topic_patches t)(subscription \<mapsto> [])\<rparr>)) (topic_patches t subscription)"

section \<open>What a patch means\<close>

text \<open>A run of \<open>n\<close> positions in which two texts agree.\<close>

definition same_run :: "nat \<Rightarrow> nat \<Rightarrow> nat \<Rightarrow> 'c list \<Rightarrow> 'c list \<Rightarrow> bool" where
  "same_run n i j A B \<longleftrightarrow> i + n \<le> length A \<and> j + n \<le> length B \<and> (\<forall>t < n. A ! (i + t) = B ! (j + t))"

text \<open>The edits lead from position \<open>a\<close> of the text \<open>A\<close> and \<open>b\<close> of \<open>B\<close> to \<open>i\<close> and \<open>j\<close>: outside of them
  the texts agree.\<close>

fun patch_to :: "nat \<Rightarrow> nat \<Rightarrow> Patch \<Rightarrow> 'c list \<Rightarrow> 'c list \<Rightarrow> nat \<Rightarrow> nat \<Rightarrow> bool" where
  "patch_to a b [] A B i j \<longleftrightarrow> a \<le> i \<and> j = b + (i - a) \<and> same_run (i - a) a b A B"
| "patch_to a b (e # es) A B i j \<longleftrightarrow>
     a \<le> r_start (ed_old e) \<and> r_start (ed_new e) = b + (r_start (ed_old e) - a) \<and> same_run (r_start (ed_old e) - a) a b A B \<and>
     r_start (ed_old e) \<le> r_end (ed_old e) \<and> r_start (ed_new e) \<le> r_end (ed_new e) \<and>
     patch_to (r_end (ed_old e)) (r_end (ed_new e)) es A B i j"

definition is_patch :: "Patch \<Rightarrow> 'c list \<Rightarrow> 'c list \<Rightarrow> bool" where
  "is_patch p A B \<longleftrightarrow> patch_to 0 0 p A B (length A) (length B)"

text \<open>The strict separation that \<open>Patch::new\<close> asserts in debug builds, and no empty edits.\<close>

definition edit_before :: "TextEdit \<Rightarrow> TextEdit \<Rightarrow> bool" where
  "edit_before e f \<longleftrightarrow> r_end (ed_old e) < r_start (ed_old f) \<and> r_end (ed_new e) < r_start (ed_new f)"

definition separated :: "Patch \<Rightarrow> bool" where
  "separated p \<longleftrightarrow> successively edit_before p \<and> (\<forall>e \<in> set p. \<not> edit_is_empty e)"

lemma same_run_0 [simp]: "same_run 0 i j A B \<longleftrightarrow> i \<le> length A \<and> j \<le> length B"
  by (simp add: same_run_def)

lemma same_run_add: "same_run (m + n) i j A B \<longleftrightarrow> same_run m i j A B \<and> same_run n (i + m) (j + m) A B"
proof -
  have split: "(\<forall>t < m + n. P t) \<longleftrightarrow> (\<forall>t < m. P t) \<and> (\<forall>t < n. P (m + t))" for P :: "nat \<Rightarrow> bool"
    by (metis add_diff_inverse_nat nat_add_left_cancel_less trans_less_add1)
  show ?thesis unfolding same_run_def split by (auto simp: add.assoc)
qed

lemma same_run_trans: "same_run n i m A B \<Longrightarrow> same_run n m j B C \<Longrightarrow> same_run n i j A C"
  by (simp add: same_run_def)

lemma same_run_take: "same_run n i j A B \<Longrightarrow> k \<le> n \<Longrightarrow> same_run k i j A B \<and> same_run (n - k) (i + k) (j + k) A B"
  using same_run_add [of k "n - k" i j A B] by simp

lemma patch_to_bounds: "patch_to a b es A B i j \<Longrightarrow> a \<le> i \<and> b \<le> j \<and> i \<le> length A \<and> j \<le> length B"
  by (induction es arbitrary: a b) (auto simp: same_run_def dest!: meta_spec)

lemma patch_to_append:
  "patch_to a b (es @ fs) A B i j \<longleftrightarrow> (\<exists>i' j'. patch_to a b es A B i' j' \<and>
     (fs = [] \<longrightarrow> i' = i \<and> j' = j) \<and> (fs \<noteq> [] \<longrightarrow> i' = r_start (ed_old (hd fs)) \<and> j' = r_start (ed_new (hd fs)) \<and> patch_to i' j' fs A B i j))"
proof (induction es arbitrary: a b)
  case Nil
  then show ?case by (cases fs) (auto dest: patch_to_bounds simp: same_run_def)
qed auto

text \<open>Moving the end through a run of equal text.\<close>

lemma patch_to_run: "patch_to a b es A B i j \<Longrightarrow> same_run n i j A B \<Longrightarrow> patch_to a b es A B (i + n) (j + n)"
proof (induction es arbitrary: a b)
  case Nil
  then have "same_run (i - a + n) a b A B" by (subst same_run_add) simp
  with Nil show ?case by simp
qed auto

text \<open>Pushing an edit at the position reached keeps the patch correct and separated.\<close>

lemma patch_push_ok:
  assumes "patch_to a b es A B i j" "separated es" "i \<le> i'" "i' \<le> length A" "j \<le> j'" "j' \<le> length B"
  shows "patch_to a b (patch_push es (text_edit i i' j j')) A B i' j' \<and> separated (patch_push es (text_edit i i' j j'))"
proof (cases "edit_is_empty (text_edit i i' j j')")
  case True
  then show ?thesis using assms by (simp add: patch_push_def edit_is_empty_def)
next
  case False
  have e: "patch_to i j [text_edit i i' j j'] A B i' j'" using assms patch_to_bounds [OF assms(1)] by simp
  show ?thesis
  proof (cases es rule: rev_cases)
    case Nil
    then show ?thesis using assms False by (auto simp: patch_push_def push_maybe_empty_def separated_def)
  next
    case (snoc fs l)
    let ?s = "r_start (ed_old l)" and ?e = "r_end (ed_old l)" and ?t = "r_start (ed_new l)" and ?f = "r_end (ed_new l)"
    have l: "patch_to a b fs A B ?s ?t" "?s \<le> ?e" "?t \<le> ?f" "?e \<le> i" "j = ?f + (i - ?e)" "?s \<le> length A" "?t \<le> length B"
      using assms(1) patch_to_bounds [of a b fs A B ?s ?t] by (auto simp: snoc patch_to_append)
    show ?thesis
    proof (cases "i \<le> ?e")
      case True
      then have p: "patch_push es (text_edit i i' j j') = fs @ [text_edit ?s i' ?t j']"
        using False snoc by (simp add: patch_push_def push_maybe_empty_def)
      have "patch_to ?s ?t [text_edit ?s i' ?t j'] A B i' j'" using l assms by simp
      then have "patch_to a b (fs @ [text_edit ?s i' ?t j']) A B i' j'" using l(1) by (auto simp: patch_to_append)
      moreover have "\<not> edit_is_empty (text_edit ?s i' ?t j')"
        using False l True assms(3,5) by (auto simp: edit_is_empty_def)
      moreover have "successively edit_before (fs @ [text_edit ?s i' ?t j'])"
        using assms(2) by (simp add: snoc separated_def successively_append_iff edit_before_def)
      ultimately show ?thesis using p assms(2) by (simp add: separated_def snoc)
    next
      case gap: False
      then have p: "patch_push es (text_edit i i' j j') = es @ [text_edit i i' j j']"
        using False snoc by (simp add: patch_push_def push_maybe_empty_def)
      have "patch_to a b (es @ [text_edit i i' j j']) A B i' j'" using e assms(1) by (auto simp: patch_to_append)
      moreover have "edit_before l (text_edit i i' j j')" using gap l(5) by (simp add: edit_before_def)
      ultimately show ?thesis using p assms(2) False by (simp add: separated_def snoc successively_append_iff)
    qed
  qed
qed

section \<open>Composition is composition\<close>

text \<open>Between two patches: the position reached in the text in the middle.\<close>

definition composing :: "Patch \<Rightarrow> Patch \<Rightarrow> 'c list \<Rightarrow> 'c list \<Rightarrow> 'c list \<Rightarrow> nat \<Rightarrow> compose_state \<Rightarrow> bool" where
  "composing olds news A B C m = (\<lambda>(composed, i, k).
     patch_to i m olds A B (length A) (length B) \<and> patch_to m k news B C (length B) (length C) \<and>
     patch_to 0 0 composed A C i k \<and> separated composed)"

text \<open>Both remaining patches start with a run: so do the outer texts.\<close>

lemma through_run:
  assumes "patch_to 0 0 composed A C i k" "same_run n i m A B" "same_run n m k B C"
  shows "patch_to 0 0 composed A C (i + n) (k + n)"
  using patch_to_run [OF assms(1) same_run_trans [OF assms(2,3)]] .

text \<open>A run at the start of a patch.\<close>

lemma patch_to_start_run:
  assumes "patch_to a b es A B (length A) (length B)" "n \<le> (case es of [] \<Rightarrow> length A | e # _ \<Rightarrow> r_start (ed_old e)) - a"
  shows "same_run n a b A B" "patch_to (a + n) (b + n) es A B (length A) (length B)"
proof -
  show "same_run n a b A B" using assms same_run_take by (cases es) (force dest: same_run_take)+
  show "patch_to (a + n) (b + n) es A B (length A) (length B)"
    using assms by (cases es) (auto dest: same_run_take)
qed

lemma sub_usize_le [simp]: "b \<le> a \<Longrightarrow> sub_usize a b = Some (a - b)"
  by (simp add: sub_usize_def)

lemma push_old_ok:
  assumes "composing (e # olds) news A B C m s" "news = [] \<or> r_end (ed_new e) < r_start (ed_old (hd news))"
  shows "\<exists>s'. push_old e s = Some s' \<and> composing olds news A B C (r_end (ed_new e)) s'"
proof -
  obtain R i k where s: "s = (R, i, k)" by (cases s) auto
  let ?c = "r_start (ed_old e) - i" and ?d = "r_end (ed_new e) - m"
  have P: "i \<le> r_start (ed_old e)" "r_start (ed_new e) = m + ?c" "same_run ?c i m A B" "r_start (ed_old e) \<le> r_end (ed_old e)"
    "r_start (ed_new e) \<le> r_end (ed_new e)" "patch_to (r_end (ed_old e)) (r_end (ed_new e)) olds A B (length A) (length B)"
    and Q: "patch_to m k news B C (length B) (length C)" and R: "patch_to 0 0 R A C i k" "separated R"
    using assms(1) unfolding composing_def s prod.case patch_to.simps by blast+
  have "?d \<le> (case news of [] \<Rightarrow> length B | e # _ \<Rightarrow> r_start (ed_old e)) - m"
    using assms(2) patch_to_bounds [OF P(6)] by (cases news) auto
  then have d: "same_run ?d m k B C" "patch_to (m + ?d) (k + ?d) news B C (length B) (length C)"
    using patch_to_start_run [OF Q] by blast+
  have c: "same_run ?c m k B C" using same_run_take [OF d(1), of ?c] P(2,5) by simp
  have "k + ?d \<le> length C" using d(1) by (simp add: same_run_def)
  then have "patch_to 0 0 (patch_push R (text_edit (i + ?c) (r_end (ed_old e)) (k + ?c) (k + ?d))) A C (r_end (ed_old e)) (k + ?d) \<and>
      separated (patch_push R (text_edit (i + ?c) (r_end (ed_old e)) (k + ?c) (k + ?d)))"
    using P(1,2,4,5) patch_to_bounds [OF P(6)] R(2) by (intro patch_push_ok through_run [OF R(1) P(3) c]) auto
  then show ?thesis
    using P d(2) by (simp add: s push_old_def push_edit_def old_len_def new_len_def composing_def Let_def)
qed

lemma push_new_ok:
  assumes "composing olds (e # news) A B C m s" "olds = [] \<or> r_end (ed_old e) < r_start (ed_new (hd olds))"
  shows "\<exists>s'. push_new e s = Some s' \<and> composing olds news A B C (r_end (ed_old e)) s'"
proof -
  obtain R i k where s: "s = (R, i, k)" by (cases s) auto
  let ?c = "r_start (ed_old e) - m" and ?d = "r_end (ed_old e) - m"
  have Q: "m \<le> r_start (ed_old e)" "r_start (ed_new e) = k + ?c" "same_run ?c m k B C" "r_start (ed_old e) \<le> r_end (ed_old e)"
    "r_start (ed_new e) \<le> r_end (ed_new e)" "patch_to (r_end (ed_old e)) (r_end (ed_new e)) news B C (length B) (length C)"
    and P: "patch_to i m olds A B (length A) (length B)" and R: "patch_to 0 0 R A C i k" "separated R"
    using assms(1) unfolding composing_def s prod.case patch_to.simps by blast+
  have "?d \<le> (case olds of [] \<Rightarrow> length A | e # _ \<Rightarrow> r_start (ed_old e)) - i"
    using assms(2) P patch_to_bounds [OF Q(6)] by (cases olds) auto
  then have d: "same_run ?d i m A B" "patch_to (i + ?d) (m + ?d) olds A B (length A) (length B)"
    using patch_to_start_run [OF P] by blast+
  have c: "same_run ?c i m A B" using same_run_take [OF d(1), of ?c] Q(4) by simp
  have "i + ?d \<le> length A" using d(1) by (simp add: same_run_def)
  then have "patch_to 0 0 (patch_push R (text_edit (i + ?c) (i + ?d) (k + ?c) (r_end (ed_new e)))) A C (i + ?d) (r_end (ed_new e)) \<and>
      separated (patch_push R (text_edit (i + ?c) (i + ?d) (k + ?c) (r_end (ed_new e))))"
    using Q(1,2,4,5) patch_to_bounds [OF Q(6)] R(2) by (intro patch_push_ok through_run [OF R(1) c Q(3)]) auto
  then show ?thesis
    using Q d(2) by (simp add: s push_new_def push_edit_def old_len_def new_len_def composing_def Let_def)
qed

text \<open>Both edits begin at the position reached.\<close>

definition aligned :: "TextEdit \<Rightarrow> TextEdit \<Rightarrow> nat \<Rightarrow> compose_state \<Rightarrow> bool" where
  "aligned x y m = (\<lambda>(composed, i, k). r_start (ed_old x) = i \<and> r_start (ed_new x) = m \<and> r_start (ed_old y) = m \<and> r_start (ed_new y) = k)"

lemma align_ok:
  assumes "composing (x # olds) (y # news) A B C m s" "r_start (ed_old y) \<le> r_end (ed_new x)" "r_start (ed_new x) \<le> r_end (ed_old y)"
  shows "\<exists>x' y' s' m'. align x y s = Some (x', y', s') \<and> composing (x' # olds) (y' # news) A B C m' s' \<and> aligned x' y' m' s'"
proof -
  obtain R i k where s: "s = (R, i, k)" by (cases s) auto
  let ?a = "r_start (ed_old x) - i" and ?b = "r_start (ed_old y) - m"
  have P: "i \<le> r_start (ed_old x)" "r_start (ed_new x) = m + ?a" "same_run ?a i m A B" "r_start (ed_old x) \<le> r_end (ed_old x)"
    "r_start (ed_new x) \<le> r_end (ed_new x)" "patch_to (r_end (ed_old x)) (r_end (ed_new x)) olds A B (length A) (length B)"
    and Q: "m \<le> r_start (ed_old y)" "r_start (ed_new y) = k + ?b" "same_run ?b m k B C" "r_start (ed_old y) \<le> r_end (ed_old y)"
    "r_start (ed_new y) \<le> r_end (ed_new y)" "patch_to (r_end (ed_old y)) (r_end (ed_new y)) news B C (length B) (length C)"
    and R: "patch_to 0 0 R A C i k" "separated R"
    using assms(1) unfolding composing_def s prod.case patch_to.simps by blast+
  note bounds = patch_to_bounds [OF P(6)] patch_to_bounds [OF Q(6)]
  show ?thesis
  proof (cases "r_start (ed_new x) < r_start (ed_old y)")
    case True
    let ?v = "r_start (ed_old y) - r_start (ed_new x)"
    let ?i = "min (r_start (ed_old x) + ?v) (r_end (ed_old x))"
    have run: "same_run ?a m k B C" using same_run_take [OF Q(3), of ?a] True P(2) by simp
    have k: "k + ?a + ?v = r_start (ed_new y)" using True P(2) Q(2) by simp
    have "patch_to 0 0 (patch_push R (text_edit (i + ?a) ?i (k + ?a) (r_start (ed_new y)))) A C ?i (r_start (ed_new y)) \<and>
        separated (patch_push R (text_edit (i + ?a) ?i (k + ?a) (r_start (ed_new y))))"
      using P(1,4) Q(5) k bounds R(2) by (intro patch_push_ok through_run [OF R(1) P(3) run]) auto
    moreover have "align x y s = Some (text_edit ?i (r_end (ed_old x)) (r_start (ed_old y)) (r_end (ed_new x)), y,
        patch_push R (text_edit (i + ?a) ?i (k + ?a) (r_start (ed_new y))), ?i, r_start (ed_new y))"
      using True P(1) k by (simp add: s align_def Let_def)
    ultimately show ?thesis
      using P Q bounds assms(2) by (auto simp: composing_def aligned_def)
  next
    case False
    let ?v = "r_start (ed_new x) - r_start (ed_old y)"
    let ?k = "min (r_start (ed_new y) + ?v) (r_end (ed_new y))"
    have run: "same_run ?b i m A B" using same_run_take [OF P(3), of ?b] False P(2) by simp
    have i: "i + ?b + ?v = r_start (ed_old x)" using False P(1,2) Q(1) by simp
    have "patch_to 0 0 (patch_push R (text_edit (i + ?b) (r_start (ed_old x)) (k + ?b) ?k)) A C (r_start (ed_old x)) ?k \<and>
        separated (patch_push R (text_edit (i + ?b) (r_start (ed_old x)) (k + ?b) ?k))"
      using P(4) Q(2,5) i bounds R(2) by (intro patch_push_ok through_run [OF R(1) run Q(3)]) auto
    moreover have "align x y s = Some (x, text_edit (r_start (ed_new x)) (r_end (ed_old y)) ?k (r_end (ed_new y)),
        patch_push R (text_edit (i + ?b) (r_start (ed_old x)) (k + ?b) ?k), r_start (ed_old x), ?k)"
      using False Q(1,2) i by (simp add: s align_def Let_def)
    ultimately show ?thesis
      using P Q bounds assms(3) by (auto simp: composing_def aligned_def)
  qed
qed

lemma consume_new_ok:
  assumes "composing (x # olds) (y # news) A B C m s" "aligned x y m s" "r_end (ed_old y) < r_end (ed_new x)"
  shows "\<exists>x' s'. consume_new x y s = Some (x', s') \<and> composing (x' # olds) news A B C (r_end (ed_old y)) s'"
proof -
  obtain R i k where s: "s = (R, i, k)" by (cases s) auto
  have P: "r_start (ed_old x) = i" "r_start (ed_new x) = m" "i \<le> r_end (ed_old x)" "m \<le> r_end (ed_new x)"
      "patch_to (r_end (ed_old x)) (r_end (ed_new x)) olds A B (length A) (length B)"
    and Q: "r_start (ed_old y) = m" "r_start (ed_new y) = k" "m \<le> r_end (ed_old y)" "k \<le> r_end (ed_new y)"
      "patch_to (r_end (ed_old y)) (r_end (ed_new y)) news B C (length B) (length C)"
    and R: "patch_to 0 0 R A C i k" "separated R"
    using assms(1,2) by (auto simp: composing_def aligned_def s)
  let ?i = "i + min (r_end (ed_old x) - i) (r_end (ed_old y) - m)"
  have "patch_to 0 0 (patch_push R (text_edit i ?i k (r_end (ed_new y)))) A C ?i (r_end (ed_new y)) \<and>
      separated (patch_push R (text_edit i ?i k (r_end (ed_new y))))"
    using P(3) Q(4) patch_to_bounds [OF P(5)] patch_to_bounds [OF Q(5)] R by (intro patch_push_ok) auto
  moreover have "consume_new x y s = Some (text_edit ?i (r_end (ed_old x)) (r_end (ed_old y)) (r_end (ed_new x)),
      patch_push R (text_edit i ?i k (r_end (ed_new y))), ?i, r_end (ed_new y))"
    using P Q by (simp add: s consume_new_def old_len_def new_len_def Let_def)
  ultimately show ?thesis
    using P Q assms(3) patch_to_bounds [OF P(5)] patch_to_bounds [OF Q(5)] by (auto simp: composing_def)
qed

lemma consume_old_ok:
  assumes "composing (x # olds) (y # news) A B C m s" "aligned x y m s" "r_end (ed_new x) \<le> r_end (ed_old y)"
  shows "\<exists>y' s'. consume_old x y s = Some (y', s') \<and> composing olds (y' # news) A B C (r_end (ed_new x)) s'"
proof -
  obtain R i k where s: "s = (R, i, k)" by (cases s) auto
  have P: "r_start (ed_old x) = i" "r_start (ed_new x) = m" "i \<le> r_end (ed_old x)" "m \<le> r_end (ed_new x)"
      "patch_to (r_end (ed_old x)) (r_end (ed_new x)) olds A B (length A) (length B)"
    and Q: "r_start (ed_old y) = m" "r_start (ed_new y) = k" "m \<le> r_end (ed_old y)" "k \<le> r_end (ed_new y)"
      "patch_to (r_end (ed_old y)) (r_end (ed_new y)) news B C (length B) (length C)"
    and R: "patch_to 0 0 R A C i k" "separated R"
    using assms(1,2) by (auto simp: composing_def aligned_def s)
  let ?k = "k + min (r_end (ed_new x) - m) (r_end (ed_new y) - k)"
  have "patch_to 0 0 (patch_push R (text_edit i (r_end (ed_old x)) k ?k)) A C (r_end (ed_old x)) ?k \<and>
      separated (patch_push R (text_edit i (r_end (ed_old x)) k ?k))"
    using P(3) Q(4) patch_to_bounds [OF P(5)] patch_to_bounds [OF Q(5)] R by (intro patch_push_ok) auto
  moreover have "consume_old x y s = Some (text_edit (r_end (ed_new x)) (r_end (ed_old y)) ?k (r_end (ed_new y)),
      patch_push R (text_edit i (r_end (ed_old x)) k ?k), r_end (ed_old x), ?k)"
    using P Q by (simp add: s consume_old_def old_len_def new_len_def Let_def)
  ultimately show ?thesis
    using P Q assms(3) patch_to_bounds [OF P(5)] patch_to_bounds [OF Q(5)] by (auto simp: composing_def)
qed

lemma compose_loop_ok:
  assumes "composing olds news A B C m s"
  shows "\<exists>r. compose_loop olds news s = Some r \<and> is_patch r A C \<and> separated r"
  using assms
proof (induction olds news s arbitrary: m rule: compose_loop.induct)
  case (1 s)
  obtain R i k where s: "s = (R, i, k)" by (cases s) auto
  have run: "i \<le> length A" "length B = m + (length A - i)" "same_run (length A - i) i m A B"
    "length C = k + (length B - m)" "same_run (length B - m) m k B C" and R: "patch_to 0 0 R A C i k" "separated R"
    using 1 unfolding composing_def s prod.case patch_to.simps by blast+
  have "length B - m = length A - i" using run(2) by simp
  then have "patch_to 0 0 R A C (i + (length A - i)) (k + (length A - i))"
    using run(3,5) by (intro through_run [OF R(1)]) simp_all
  then show ?case using run R(2) by (simp add: s is_patch_def)
next
  case (2 x olds s)
  obtain s' where "push_old x s = Some s'" "composing olds [] A B C (r_end (ed_new x)) s'" using push_old_ok [OF 2(2)] by auto
  with 2(1) show ?case by simp
next
  case (3 y news s)
  obtain s' where "push_new y s = Some s'" "composing [] news A B C (r_end (ed_old y)) s'" using push_new_ok [OF 3(2)] by auto
  with 3(1) show ?case by simp
next
  case (4 x olds y news s)
  consider "r_end (ed_new x) < r_start (ed_old y)" | "\<not> r_end (ed_new x) < r_start (ed_old y)" "r_end (ed_old y) < r_start (ed_new x)"
    | "r_start (ed_old y) \<le> r_end (ed_new x)" "r_start (ed_new x) \<le> r_end (ed_old y)" by linarith
  then show ?case
  proof cases
    case a: 1
    obtain s' where "push_old x s = Some s'" "composing olds (y # news) A B C (r_end (ed_new x)) s'"
      using push_old_ok [OF 4(5)] a by auto
    with 4(1) a show ?thesis by simp
  next
    case b: 2
    obtain s' where "push_new y s = Some s'" "composing (x # olds) news A B C (r_end (ed_old y)) s'"
      using push_new_ok [OF 4(5)] b by auto
    with 4(2) b show ?thesis by simp
  next
    case c: 3
    obtain x' y' s' m' where al: "align x y s = Some (x', y', s')" "composing (x' # olds) (y' # news) A B C m' s'" "aligned x' y' m' s'"
      using align_ok [OF 4(5) c] by blast
    show ?thesis
    proof (cases "r_end (ed_old y') < r_end (ed_new x')")
      case True
      obtain x'' s'' where "consume_new x' y' s' = Some (x'', s'')" "composing (x'' # olds) news A B C (r_end (ed_old y')) s''"
        using consume_new_ok [OF al(2,3) True] by blast
      with 4(3) c al(1) True show ?thesis by simp
    next
      case False
      then obtain y'' s'' where "consume_old x' y' s' = Some (y'', s'')" "composing olds (y'' # news) A B C (r_end (ed_new x')) s''"
        using consume_old_ok [OF al(2,3)] by auto
      with 4(4) c al(1) False show ?thesis by simp
    qed
  qed
qed

lemma patch_compose_ok:
  assumes "is_patch p A B" "is_patch q B C"
  shows "\<exists>r. patch_compose p q = Some r \<and> is_patch r A C \<and> separated r"
  unfolding patch_compose_def
  by (rule compose_loop_ok [of _ _ A B C 0]) (use assms in \<open>simp add: composing_def is_patch_def separated_def\<close>)

section \<open>Inverting and applying\<close>

lemma patch_invert_ok: "is_patch p A B \<Longrightarrow> is_patch (patch_invert p) B A"
proof -
  have sym: "same_run n i j A B \<Longrightarrow> same_run n j i B A" for n i j by (simp add: same_run_def)
  have "patch_to a b p A B i j \<Longrightarrow> patch_to b a (patch_invert p) B A j i" for a b i j
    by (induction p arbitrary: a b) (auto simp: patch_invert_def intro: sym)
  then show "is_patch p A B \<Longrightarrow> is_patch (patch_invert p) B A" by (simp add: is_patch_def)
qed

text \<open>The effect of a patch on a text, taking the new text of its edits from another one, as the
  tests of the source apply it.\<close>

fun apply_from :: "nat \<Rightarrow> Patch \<Rightarrow> 'c list \<Rightarrow> 'c list \<Rightarrow> 'c list" where
  "apply_from a [] A new_text = drop a A"
| "apply_from a (e # es) A new_text =
     take (r_start (ed_old e) - a) (drop a A) @
     take (r_end (ed_new e) - r_start (ed_new e)) (drop (r_start (ed_new e)) new_text) @ apply_from (r_end (ed_old e)) es A new_text"

definition apply_patch :: "Patch \<Rightarrow> 'c list \<Rightarrow> 'c list \<Rightarrow> 'c list" where
  "apply_patch p A new_text = apply_from 0 p A new_text"

lemma same_run_list: "same_run n i j A B \<Longrightarrow> take n (drop i A) = take n (drop j B)"
  by (rule nth_equalityI) (auto simp: same_run_def)

lemma drop_split: "a \<le> b \<Longrightarrow> drop a xs = take (b - a) (drop a xs) @ drop b xs"
  by (metis append_take_drop_id drop_drop le_add_diff_inverse2)

lemma apply_from_ok: "patch_to a b p A B (length A) (length B) \<Longrightarrow> apply_from a p A B = drop b B"
proof (induction p arbitrary: a b)
  case Nil
  then show ?case using same_run_list [of "length A - a" a b A B] by simp
next
  case (Cons e p)
  let ?s = "r_start (ed_new e)" and ?e = "r_end (ed_new e)"
  have "?s = b + (r_start (ed_old e) - a)" "?s \<le> ?e" using Cons.prems unfolding patch_to.simps by blast+
  then have "drop b B = take (r_start (ed_old e) - a) (drop b B) @ take (?e - ?s) (drop ?s B) @ drop ?e B"
    using drop_split [of b ?s B] drop_split [of ?s ?e B] by simp
  moreover have "take (r_start (ed_old e) - a) (drop a A) = take (r_start (ed_old e) - a) (drop b B)"
    using Cons.prems by (intro same_run_list) simp
  moreover have "apply_from (r_end (ed_old e)) p A B = drop ?e B" using Cons by simp
  ultimately show ?case unfolding apply_from.simps by metis
qed

section \<open>Positions through a patch\<close>

text \<open>The edit that decides where a position goes: the last one that starts at or before it.\<close>

lemma search_cases:
  assumes "is_patch p A B" "separated p"
  obtains (none) "p = [] \<or> x < r_start (ed_old (hd p))" "search_old_start p x = Inl 0"
  | (found) q e r ix where "p = q @ e # r" "r_start (ed_old e) \<le> x" "r = [] \<or> x < r_start (ed_old (hd r))" "ix = length q"
      "search_old_start p x = Inr ix \<or> search_old_start p x = Inl (Suc ix)"
proof -
  define pre where "pre = takeWhile (\<lambda>e. r_start (ed_old e) < x) p"
  define post where "post = dropWhile (\<lambda>e. r_start (ed_old e) < x) p"
  have p: "p = pre @ post" by (simp add: pre_def post_def)
  have ge: "post = [] \<or> x \<le> r_start (ed_old (hd post))" using hd_dropWhile [of "\<lambda>e. r_start (ed_old e) < x" p] by (fastforce simp: post_def not_less)
  show ?thesis
  proof (cases "post \<noteq> [] \<and> r_start (ed_old (hd post)) = x")
    case True
    then obtain f r where post: "post = f # r" "r_start (ed_old f) = x" by (cases post) auto
    have "r = [] \<or> edit_before f (hd r)" using assms(2) by (auto simp: separated_def p post successively_append_iff successively_Cons)
    moreover have "x \<le> r_end (ed_old f)" using assms(1) post by (auto simp: is_patch_def p patch_to_append)
    ultimately have "r = [] \<or> x < r_start (ed_old (hd r))" by (auto simp: edit_before_def)
    moreover have "search_old_start p x = Inr (length pre)"
      using post by (simp add: search_old_start_def Let_def pre_def [symmetric]) (simp add: p)
    ultimately show ?thesis using found [of pre f r] p post by simp
  next
    case False
    then have less: "post = [] \<or> x < r_start (ed_old (hd post))" using ge by auto
    have "\<not> (length pre < length p \<and> r_start (ed_old (p ! length pre)) = x)" using less by (cases post) (auto simp: p)
    then have s: "search_old_start p x = Inl (length pre)" by (simp add: search_old_start_def Let_def pre_def [symmetric])
    show ?thesis
    proof (cases pre rule: rev_cases)
      case Nil
      then show ?thesis using none less s p by simp
    next
      case (snoc q e)
      have "e \<in> set (takeWhile (\<lambda>e. r_start (ed_old e) < x) p)" using snoc by (simp add: pre_def)
      then have "r_start (ed_old e) < x" using set_takeWhileD by fastforce
      then show ?thesis using found [of q e post] less s p snoc by simp
    qed
  qed
qed

lemma old_to_new_found:
  assumes "p = q @ e # r" "ix = length q" "search_old_start p x = Inr ix \<or> search_old_start p x = Inl (Suc ix)"
  shows "old_to_new p x = (if r_end (ed_old e) \<le> x then r_end (ed_new e) + (x - r_end (ed_old e)) else r_start (ed_new e))"
    "edit_for_old_position p x = (if r_end (ed_old e) < x then
      text_edit x x (r_end (ed_new e) + (x - r_end (ed_old e))) (r_end (ed_new e) + (x - r_end (ed_old e))) else e)"
  using assms by (auto simp: old_to_new_def edit_for_old_position_def Let_def list_get_append)

text \<open>The run of unchanged text that follows a position.\<close>

lemma run_after:
  assumes "patch_to a b r A B (length A) (length B)" "a \<le> x" "x \<le> length A" "r = [] \<or> x < r_start (ed_old (hd r))"
  shows "b + (x - a) \<le> length B \<and> (x < length A \<longrightarrow> b + (x - a) < length B \<and> A ! x = B ! (b + (x - a)))"
proof (cases r)
  case Nil
  then have run: "same_run (length A - a) a b A B" "length B = b + (length A - a)" using assms(1) by simp_all
  then have "x < length A \<Longrightarrow> A ! x = B ! (b + (x - a))" using assms(2) unfolding same_run_def by (metis diff_less_mono le_add_diff_inverse)
  then show ?thesis using run assms(2,3) by auto
next
  case (Cons f fs)
  let ?n = "r_start (ed_old f) - a"
  have run: "same_run ?n a b A B" "x < r_start (ed_old f)" using assms(1,4) Cons by simp_all
  then have "A ! x = B ! (b + (x - a))" using assms(2) unfolding same_run_def by (metis diff_less_mono le_add_diff_inverse)
  then show ?thesis using run assms(2) by (auto simp: same_run_def)
qed

lemma patch_sorted:
  assumes "is_patch p A B" "separated p"
  shows "sorted_wrt (\<lambda>e f. r_end (ed_old e) < r_start (ed_old f)) p" "\<forall>e \<in> set p. r_start (ed_old e) \<le> r_end (ed_old e)"
proof -
  let ?R = "\<lambda>e f. r_start (ed_old e) \<le> r_end (ed_old e) \<and> r_end (ed_old e) < r_start (ed_old f) \<and> r_start (ed_old f) \<le> r_end (ed_old f)"
  have le: "r_start (ed_old e) \<le> r_end (ed_old e)" if "e \<in> set p" for e
  proof -
    note e_in = that
    obtain q r where "p = q @ e # r" using split_list [OF e_in] by blast
    then show ?thesis using assms(1) by (auto simp: is_patch_def patch_to_append)
  qed
  then show "\<forall>e \<in> set p. r_start (ed_old e) \<le> r_end (ed_old e)" by blast
  have "successively ?R p"
    using assms(2) le unfolding separated_def by (auto simp: edit_before_def intro: successively_mono)
  moreover have "transp ?R" by (auto intro: transpI)
  ultimately have "sorted_wrt ?R p" using successively_conv_sorted_wrt [of ?R p] by blast
  then show "sorted_wrt (\<lambda>e f. r_end (ed_old e) < r_start (ed_old f)) p" by (rule sorted_wrt_mono_rel [rotated]) simp
qed

text \<open>No other edit covers the position.\<close>

lemma uncovered:
  assumes "is_patch p A B" "separated p"
  shows "p = [] \<or> x < r_start (ed_old (hd p)) \<Longrightarrow> f \<in> set p \<Longrightarrow> \<not> r_start (ed_old f) \<le> x"
    "p = q @ e # r \<Longrightarrow> r_start (ed_old e) \<le> x \<Longrightarrow> r = [] \<or> x < r_start (ed_old (hd r)) \<Longrightarrow> f \<in> set p \<Longrightarrow> f \<noteq> e \<Longrightarrow>
      \<not> (r_start (ed_old f) \<le> x \<and> x < r_end (ed_old f))"
proof -
  note sorted = patch_sorted [OF assms]
  have hd: "r_start (ed_old (hd es)) \<le> r_start (ed_old f)"
    if "sorted_wrt (\<lambda>e f. r_end (ed_old e) < r_start (ed_old f)) es" "\<forall>e \<in> set es. r_start (ed_old e) \<le> r_end (ed_old e)" "f \<in> set es" for es f
    using that by (cases es) force+
  show "\<not> r_start (ed_old f) \<le> x" if "p = [] \<or> x < r_start (ed_old (hd p))" "f \<in> set p"
    using that hd [OF sorted that(2)] by auto
  show "\<not> (r_start (ed_old f) \<le> x \<and> x < r_end (ed_old f))"
    if p: "p = q @ e # r" "r_start (ed_old e) \<le> x" "r = [] \<or> x < r_start (ed_old (hd r))" "f \<in> set p" "f \<noteq> e"
  proof (cases "f \<in> set q")
    case True
    then show ?thesis using sorted(1) p(1,2) by (fastforce simp: sorted_wrt_append)
  next
    case False
    then have "f \<in> set r" using p by simp
    then show ?thesis using hd [of r f] sorted p(1,3) by (auto simp: sorted_wrt_append)
  qed
qed

lemma old_to_new_ok:
  assumes p: "is_patch p A B" "separated p" and x: "x \<le> length A"
  shows "(\<forall>e \<in> set p. r_start (ed_old e) \<le> x \<and> x < r_end (ed_old e) \<longrightarrow> old_to_new p x = r_start (ed_new e)) \<and>
    ((\<forall>e \<in> set p. \<not> (r_start (ed_old e) \<le> x \<and> x < r_end (ed_old e))) \<longrightarrow>
      old_to_new p x \<le> length B \<and> (x < length A \<longrightarrow> old_to_new p x < length B \<and> A ! x = B ! old_to_new p x))"
proof (cases rule: search_cases [OF p, of x])
  case 1
  then have "old_to_new p x = x" by (simp add: old_to_new_def Let_def)
  moreover have "x \<le> length B \<and> (x < length A \<longrightarrow> x < length B \<and> A ! x = B ! x)"
    using run_after [of 0 0 p A B x] p(1) x 1(1) by (simp add: is_patch_def)
  ultimately show ?thesis using uncovered(1) [OF p 1(1)] by simp
next
  case (2 q e r ix)
  have pt: "patch_to (r_end (ed_old e)) (r_end (ed_new e)) r A B (length A) (length B)"
    using p(1) by (auto simp: is_patch_def 2(1) patch_to_append)
  have only: "f = e" if "f \<in> set p" "r_start (ed_old f) \<le> x" "x < r_end (ed_old f)" for f
    using uncovered(2) [OF p 2(1-3)] that by blast
  have e_in: "e \<in> set p" using 2(1) by simp
  show ?thesis
  proof (cases "x < r_end (ed_old e)")
    case True
    then have "old_to_new p x = r_start (ed_new e)" using old_to_new_found(1) [OF 2(1,4,5)] by simp
    then show ?thesis using True 2(2) e_in only by blast
  next
    case False
    then have "old_to_new p x = r_end (ed_new e) + (x - r_end (ed_old e))" using old_to_new_found(1) [OF 2(1,4,5)] by simp
    moreover have "\<not> (r_start (ed_old f) \<le> x \<and> x < r_end (ed_old f))" if "f \<in> set p" for f
      using only [OF that] False by blast
    ultimately show ?thesis using run_after [OF pt _ x 2(3)] False by auto
  qed
qed

lemma edit_for_old_position_ok:
  assumes p: "is_patch p A B" "separated p"
  shows "let f = edit_for_old_position p x in
    f \<in> set p \<and> r_start (ed_old f) \<le> x \<and> x \<le> r_end (ed_old f) \<or>
    f = text_edit x x (old_to_new p x) (old_to_new p x) \<and> (\<forall>e \<in> set p. \<not> (r_start (ed_old e) \<le> x \<and> x < r_end (ed_old e)))"
proof (cases rule: search_cases [OF p, of x])
  case 1
  then show ?thesis using uncovered(1) [OF p 1(1)] by (auto simp: edit_for_old_position_def old_to_new_def Let_def)
next
  case (2 q e r ix)
  have only: "f = e" if "f \<in> set p" "r_start (ed_old f) \<le> x" "x < r_end (ed_old f)" for f
    using uncovered(2) [OF p 2(1-3)] that by blast
  have e_in: "e \<in> set p" using 2(1) by simp
  show ?thesis
  proof (cases "r_end (ed_old e) < x")
    case True
    then have "\<forall>f \<in> set p. \<not> (r_start (ed_old f) \<le> x \<and> x < r_end (ed_old f))" using only by fastforce
    then show ?thesis using old_to_new_found [OF 2(1,4,5)] True by (simp add: Let_def)
  next
    case False
    then show ?thesis using old_to_new_found(2) [OF 2(1,4,5)] e_in 2(2) by (simp add: Let_def)
  qed
qed

section \<open>Topics\<close>

text \<open>What a topic keeps: distinct pointers, a subscription behind each that is alive, and for every
  live subscription a patch from the text it has last seen to the current one.\<close>

definition topic_inv :: "(nat \<Rightarrow> 'c list) \<Rightarrow> 'c list \<Rightarrow> Topic \<Rightarrow> bool" where
  "topic_inv seen current t \<longleftrightarrow> distinct (topic_subs t) \<and> dom (topic_patches t) \<subseteq> set (topic_subs t) \<and>
     (\<forall>i p. topic_patches t i = Some p \<longrightarrow> is_patch p (seen i) current \<and> separated p)"

lemma publish_loop_ok:
  assumes "distinct subs" "\<And>i p. i \<in> set subs \<Longrightarrow> patches i = Some p \<Longrightarrow> is_patch p (seen i) B" "is_patch edits B C"
  shows "\<exists>patches'. publish_loop edits patches subs = Some (patches', filter (\<lambda>i. patches i \<noteq> None) subs) \<and>
    (\<forall>i. i \<notin> set subs \<longrightarrow> patches' i = patches i) \<and>
    (\<forall>i \<in> set subs. case patches i of None \<Rightarrow> patches' i = None
       | Some p \<Rightarrow> \<exists>p'. patches' i = Some p' \<and> patch_compose p edits = Some p' \<and> is_patch p' (seen i) C \<and> separated p')"
  using assms(1,2)
proof (induction subs arbitrary: patches)
  case (Cons s subs)
  show ?case
  proof (cases "patches s")
    case None
    obtain patches' where "publish_loop edits patches subs = Some (patches', filter (\<lambda>i. patches i \<noteq> None) subs)"
      and "\<forall>i. i \<notin> set subs \<longrightarrow> patches' i = patches i"
      and "\<forall>i \<in> set subs. case patches i of None \<Rightarrow> patches' i = None
         | Some p \<Rightarrow> \<exists>p'. patches' i = Some p' \<and> patch_compose p edits = Some p' \<and> is_patch p' (seen i) C \<and> separated p'"
      using Cons.IH [of patches] Cons.prems by auto
    then show ?thesis using None Cons.prems(1) by auto
  next
    case (Some p)
    obtain p' where p': "patch_compose p edits = Some p'" "is_patch p' (seen s) C" "separated p'"
      using patch_compose_ok [OF Cons.prems(2) [OF _ Some] assms(3)] by auto
    define ps where "ps = patches(s \<mapsto> p')"
    have other: "i \<in> set subs \<Longrightarrow> ps i = patches i" for i using Cons.prems(1) by (auto simp: ps_def)
    then have keep: "filter (\<lambda>i. ps i \<noteq> None) subs = filter (\<lambda>i. patches i \<noteq> None) subs"
      by (intro filter_cong) auto
    obtain patches' where l: "publish_loop edits ps subs = Some (patches', filter (\<lambda>i. patches i \<noteq> None) subs)"
      and out: "\<forall>i. i \<notin> set subs \<longrightarrow> patches' i = ps i"
      and ins: "\<forall>i \<in> set subs. case ps i of None \<Rightarrow> patches' i = None
         | Some p \<Rightarrow> \<exists>p'. patches' i = Some p' \<and> patch_compose p edits = Some p' \<and> is_patch p' (seen i) C \<and> separated p'"
      using Cons.IH [of ps] Cons.prems other unfolding keep by auto
    have "patches' s = Some p'" using out Cons.prems(1) by (simp add: ps_def)
    moreover have "\<forall>i \<in> set subs. case patches i of None \<Rightarrow> patches' i = None
         | Some p \<Rightarrow> \<exists>p'. patches' i = Some p' \<and> patch_compose p edits = Some p' \<and> is_patch p' (seen i) C \<and> separated p'"
      using ins other by simp
    ultimately show ?thesis using l out p' Some by (auto simp: ps_def)
  qed
qed simp

lemma topic_inv_subscribe:
  assumes "topic_inv seen current t" "i \<notin> set (topic_subs t)"
  shows "topic_inv (seen(i := current)) current (subscribe i t)"
proof -
  have "same_run (length current) 0 0 current current" by (simp add: same_run_def)
  then show ?thesis using assms by (auto simp: topic_inv_def subscribe_def is_patch_def separated_def)
qed

lemma topic_inv_publish:
  assumes "topic_inv seen B t" "is_patch edits B C"
  shows "\<exists>t'. publish t edits = Some t' \<and> topic_inv seen C t' \<and> set (topic_subs t') = dom (topic_patches t) \<and>
    (\<forall>i p'. topic_patches t' i = Some p' \<longleftrightarrow> (\<exists>p. topic_patches t i = Some p \<and> patch_compose p edits = Some p' \<and> separated p'))"
proof -
  let ?ps = "topic_patches t"
  have live: "distinct (topic_subs t)" "?ps i \<noteq> None \<Longrightarrow> i \<in> set (topic_subs t)" for i
    using assms(1) by (auto simp: topic_inv_def)
  obtain ps' where l: "publish_loop edits ?ps (topic_subs t) = Some (ps', filter (\<lambda>i. ?ps i \<noteq> None) (topic_subs t))"
    and out: "\<forall>i. i \<notin> set (topic_subs t) \<longrightarrow> ps' i = ?ps i"
    and ins: "\<forall>i \<in> set (topic_subs t). case ?ps i of None \<Rightarrow> ps' i = None
       | Some p \<Rightarrow> \<exists>p'. ps' i = Some p' \<and> patch_compose p edits = Some p' \<and> is_patch p' (seen i) C \<and> separated p'"
    using publish_loop_ok [of "topic_subs t" ?ps seen B edits C] assms by (auto simp: topic_inv_def)
  have each: "case ?ps i of None \<Rightarrow> ps' i = None
       | Some p \<Rightarrow> \<exists>p'. ps' i = Some p' \<and> patch_compose p edits = Some p' \<and> is_patch p' (seen i) C \<and> separated p'" for i
    using ins out live(2) [of i] by (cases "i \<in> set (topic_subs t)") (auto split: option.split)
  have iff: "ps' i = Some p' \<longleftrightarrow> (\<exists>p. ?ps i = Some p \<and> patch_compose p edits = Some p' \<and> separated p')"
    and ok: "ps' i = Some p' \<Longrightarrow> is_patch p' (seen i) C" and dom: "ps' i = None \<longleftrightarrow> ?ps i = None" for i p'
    using each [of i] by (auto split: option.splits)
  have "i \<in> dom ps' \<Longrightarrow> i \<in> {i \<in> set (topic_subs t). ?ps i \<noteq> None}" for i using dom [of i] live(2) [of i] by auto
  then have "dom ps' \<subseteq> {i \<in> set (topic_subs t). ?ps i \<noteq> None}" by blast
  moreover have "{i \<in> set (topic_subs t). ?ps i \<noteq> None} = dom ?ps" using live(2) by auto
  ultimately show ?thesis using l live(1) iff ok by (auto simp: publish_def topic_inv_def)
qed

lemma topic_inv_consume:
  assumes "topic_inv seen B t" "topic_patches t i = Some p"
  shows "\<exists>t'. consume i t = Some (p, t') \<and> is_patch p (seen i) B \<and> separated p \<and> topic_inv (seen(i := B)) B t'"
proof -
  have "same_run (length B) 0 0 B B" by (simp add: same_run_def)
  then show ?thesis using assms by (auto simp: topic_inv_def consume_def is_patch_def separated_def)
qed

lemma topic_inv_drop: "topic_inv seen B t \<Longrightarrow> topic_inv seen B (drop_subscription i t)"
  by (auto simp: topic_inv_def drop_subscription_def)

text \<open>The states of a topic of a text that is edited while subscriptions come and go, with the text
  that each subscription has last seen.  A subscription is a new allocation: its pointer is none of
  those the topic still holds.\<close>

inductive topic_reach :: "(nat \<Rightarrow> 'c list) \<Rightarrow> 'c list \<Rightarrow> Topic \<Rightarrow> bool" where
  start: "topic_reach seen current \<lparr>topic_patches = Map.empty, topic_subs = []\<rparr>"
| subscribing: "topic_reach seen current t \<Longrightarrow> i \<notin> set (topic_subs t) \<Longrightarrow> topic_reach (seen(i := current)) current (subscribe i t)"
| dropping: "topic_reach seen current t \<Longrightarrow> topic_reach seen current (drop_subscription i t)"
| publishing: "topic_reach seen current t \<Longrightarrow> is_patch edits current new_text \<Longrightarrow> publish t edits = Some t' \<Longrightarrow>
    topic_reach seen new_text t'"
| consuming: "topic_reach seen current t \<Longrightarrow> consume i t = Some (p, t') \<Longrightarrow> topic_reach (seen(i := current)) current t'"

lemma consume_SomeD: "consume i t = Some (p, t') \<Longrightarrow> topic_patches t i = Some p"
  by (auto simp: consume_def)

lemma topic_reach_inv: "topic_reach seen current t \<Longrightarrow> topic_inv seen current t"
proof (induction rule: topic_reach.induct)
  case (start seen current)
  then show ?case by (simp add: topic_inv_def)
next
  case (publishing seen current t edits new_text t')
  then show ?case using topic_inv_publish by fastforce
next
  case (consuming seen current t i p t')
  then show ?case using topic_inv_consume [OF consuming.IH consume_SomeD [OF consuming.hyps(2)]]
    by (simp del: fun_upd_apply)
qed (simp_all add: topic_inv_subscribe topic_inv_drop del: fun_upd_apply)

section \<open>Properties\<close>

text \<open>(C6) Composing a patch from \<open>A\<close> to \<open>B\<close> with a patch from \<open>B\<close> to \<open>C\<close> never underflows, and yields a
  patch from \<open>A\<close> to \<open>C\<close>: outside of its edits the texts agree, its edits are non-empty, sorted and
  strictly separated on both sides (what \<open>Patch::new\<close> asserts), and applying it to \<open>A\<close> gives \<open>C\<close>.\<close>

theorem patch_composition:
  assumes "is_patch p A B" "is_patch q B C"
  shows "\<exists>r. patch_compose p q = Some r \<and> is_patch r A C \<and> separated r \<and> apply_patch r A C = C"
proof -
  obtain r where "patch_compose p q = Some r" "is_patch r A C" "separated r" using patch_compose_ok [OF assms] by auto
  moreover from this have "apply_patch r A C = C" unfolding is_patch_def apply_patch_def using apply_from_ok by fastforce
  ultimately show ?thesis by blast
qed

theorem patch_composition_witness:
  "\<exists>r. patch_compose [text_edit 1 3 1 4] [text_edit 0 2 0 1, text_edit 5 5 4 5] = Some r \<and> is_patch r ''abcde'' ''ZyzdWe'' \<and> separated r \<and>
    apply_patch r ''abcde'' ''ZyzdWe'' = ''ZyzdWe''"
proof (rule patch_composition)
  show "is_patch [text_edit 1 3 1 4] ''abcde'' ''axyzde''"
    by (simp add: is_patch_def same_run_def less_Suc_eq numeral_eq_Suc)
  show "is_patch [text_edit 0 2 0 1, text_edit 5 5 4 5] ''axyzde'' ''ZyzdWe''"
    by (simp add: is_patch_def same_run_def less_Suc_eq numeral_eq_Suc)
qed

text \<open>(C37) A position of the old text that a patch leaves alone is mapped by \<open>old_to_new\<close> to the position of
  the same character of the new text, one inside of an edit to the start of its new text;
  \<open>edit_for_old_position\<close> returns an edit that touches the position or, when none covers it, the
  empty edit between the position and its image; and an inverted patch leads back: composed with
  it the patch is one from the text to itself.\<close>

theorem patch_positions:
  assumes "is_patch p A B" "separated p" "x \<le> length A"
  shows "(\<forall>e \<in> set p. r_start (ed_old e) \<le> x \<and> x < r_end (ed_old e) \<longrightarrow> old_to_new p x = r_start (ed_new e)) \<and>
    ((\<forall>e \<in> set p. \<not> (r_start (ed_old e) \<le> x \<and> x < r_end (ed_old e))) \<longrightarrow>
      old_to_new p x \<le> length B \<and> (x < length A \<longrightarrow> old_to_new p x < length B \<and> A ! x = B ! old_to_new p x)) \<and>
    (let f = edit_for_old_position p x in
      f \<in> set p \<and> r_start (ed_old f) \<le> x \<and> x \<le> r_end (ed_old f) \<or>
      f = text_edit x x (old_to_new p x) (old_to_new p x) \<and> (\<forall>e \<in> set p. \<not> (r_start (ed_old e) \<le> x \<and> x < r_end (ed_old e)))) \<and>
    (\<exists>r. patch_compose p (patch_invert p) = Some r \<and> is_patch r A A \<and> separated r)"
  using old_to_new_ok [OF assms] edit_for_old_position_ok [OF assms(1,2)] patch_compose_ok [OF assms(1) patch_invert_ok [OF assms(1)]]
  by blast

theorem patch_positions_witness:
  "old_to_new [text_edit 1 3 1 4] 2 = 1 \<and>
    (\<exists>r. patch_compose [text_edit 1 3 1 4] (patch_invert [text_edit 1 3 1 4]) = Some r \<and> is_patch r ''abcde'' ''abcde'' \<and> separated r)"
proof -
  have "is_patch [text_edit 1 3 1 4] ''abcde'' ''axyzde''"
    by (simp add: is_patch_def same_run_def less_Suc_eq numeral_eq_Suc)
  moreover have "separated [text_edit 1 3 1 4]" by (simp add: separated_def edit_is_empty_def)
  ultimately show ?thesis using patch_positions [of "[text_edit 1 3 1 4]" "''abcde''" "''axyzde''" 2] by simp
qed

text \<open>(C21) Whatever subscribing, dropping, publishing and consuming came before, publishing a patch of the
  current text succeeds and keeps exactly the pointers to live subscriptions; and what a live
  subscription consumes is one separated patch that turns the text it has last seen into the current
  one, after which it has seen the current text.\<close>

theorem topic_subscriptions:
  assumes "topic_reach seen current t"
  shows "(is_patch edits current new_text \<longrightarrow>
      (\<exists>t'. publish t edits = Some t' \<and> topic_reach seen new_text t' \<and> set (topic_subs t') = dom (topic_patches t) \<and> dom (topic_patches t') = dom (topic_patches t))) \<and>
    (topic_patches t i = Some p \<longrightarrow>
      (\<exists>t'. consume i t = Some (p, t') \<and> is_patch p (seen i) current \<and> separated p \<and> apply_patch p (seen i) current = current \<and>
        topic_patches t' i = Some Patch_empty \<and> topic_reach (seen(i := current)) current t'))"
proof (intro conjI impI)
  note inv = topic_reach_inv [OF assms]
  show "\<exists>t'. publish t edits = Some t' \<and> topic_reach seen new_text t' \<and> set (topic_subs t') = dom (topic_patches t) \<and> dom (topic_patches t') = dom (topic_patches t)"
    if edits: "is_patch edits current new_text"
  proof -
    obtain t' where t': "publish t edits = Some t'" "set (topic_subs t') = dom (topic_patches t)"
      and iff: "\<And>i p'. topic_patches t' i = Some p' \<longleftrightarrow> (\<exists>p. topic_patches t i = Some p \<and> patch_compose p edits = Some p' \<and> separated p')"
      using topic_inv_publish [OF inv edits] by auto
    have "\<exists>r. patch_compose p edits = Some r \<and> separated r" if "topic_patches t i = Some p" for i p
      using that inv patch_compose_ok [OF _ edits, of p "seen i"] by (auto simp: topic_inv_def)
    then have "dom (topic_patches t') = dom (topic_patches t)" using iff by (auto simp: dom_def)
    then show ?thesis using t' topic_reach.publishing [OF assms edits t'(1)] by blast
  qed
  show "\<exists>t'. consume i t = Some (p, t') \<and> is_patch p (seen i) current \<and> separated p \<and> apply_patch p (seen i) current = current \<and>
        topic_patches t' i = Some Patch_empty \<and> topic_reach (seen(i := current)) current t'"
    if live: "topic_patches t i = Some p"
  proof -
    obtain t' where t': "consume i t = Some (p, t')" "is_patch p (seen i) current" "separated p"
      using topic_inv_consume [OF inv live] by auto
    have "apply_patch p (seen i) current = current" using t'(2) apply_from_ok unfolding is_patch_def apply_patch_def by fastforce
    moreover have "topic_patches t' i = Some Patch_empty" using t'(1) by (auto simp: consume_def Patch_empty_def)
    ultimately show ?thesis using t' topic_reach.consuming [OF assms t'(1)] by blast
  qed
qed

theorem topic_subscriptions_witness:
  "\<exists>t'. publish (subscribe 7 \<lparr>topic_patches = Map.empty, topic_subs = []\<rparr>) [text_edit 1 2 1 3] = Some t' \<and>
    topic_reach ((\<lambda>_. [])(7 := ''abc'')) ''axyc'' t'"
proof -
  have "topic_reach ((\<lambda>_. [])(7 := ''abc'')) ''abc'' (subscribe 7 \<lparr>topic_patches = Map.empty, topic_subs = []\<rparr>)"
    by (rule subscribing [OF start]) simp
  moreover have "is_patch [text_edit 1 2 1 3] ''abc'' ''axyc''"
    by (simp add: is_patch_def same_run_def less_Suc_eq numeral_eq_Suc)
  ultimately show ?thesis using topic_subscriptions by blast
qed

end
