(* ===== verification/Text_Locator.thy ===== *)
theory Text_Locator
  imports Prelude "HOL-Library.List_Lexorder"
begin

text \<open>
  Locators (\<open>crates/text/src/locator.rs\<close>): dense identifiers of positions in an ordered
  collection, compared lexicographically.  \<open>between\<close> makes one strictly between two others, unless
  the upper one is the lower one followed by zeros.
\<close>

section \<open>The source\<close>

unbundle bit_operations_syntax

type_synonym Locator = "64 word list"

definition Locator_min :: Locator where
  "Locator_min = [0]"

definition Locator_max :: Locator where
  "Locator_max = [- 1]"

definition Locator_default :: Locator where
  "Locator_default = Locator_min"

text \<open>\<open>assign\<close> resizes the vector and copies the digits, which panics unless the lengths agree.\<close>

definition Locator_assign :: "Locator \<Rightarrow> Locator \<Rightarrow> Locator option" where
  "Locator_assign self other =
     (let resized = take (length other) self @ replicate (length other - length self) 0
      in if length resized = length other then Some other else None)"

definition saturating_sub :: "64 word \<Rightarrow> 64 word \<Rightarrow> 64 word" where
  "saturating_sub a b = (if b \<le> a then a - b else 0)"

definition locator_mid :: "64 word \<Rightarrow> 64 word \<Rightarrow> 64 word" where
  "locator_mid lhs rhs = lhs + drop_bit 48 (saturating_sub rhs lhs)"

text \<open>The digits of the two iterators: a locator that has ended goes on with zeros on the left and
  with the largest digit on the right.\<close>

definition lhs_digit :: "Locator \<Rightarrow> 64 word" where
  "lhs_digit ls = (case ls of [] \<Rightarrow> 0 | l # _ \<Rightarrow> l)"

definition rhs_digit :: "Locator \<Rightarrow> 64 word" where
  "rhs_digit rs = (case rs of [] \<Rightarrow> - 1 | r # _ \<Rightarrow> r)"

lemma mid_ended: "locator_mid 0 (- 1) = 65535"
  by (simp add: locator_mid_def saturating_sub_def) (code_simp)

function between :: "Locator \<Rightarrow> Locator \<Rightarrow> Locator" where
  "between lhs rhs =
     (let mid = locator_mid (lhs_digit lhs) (rhs_digit rhs)
      in if lhs_digit lhs < mid then [mid] else mid # between (tl lhs) (tl rhs))"
  by auto
termination
proof (relation "measure (\<lambda>(lhs, rhs). length lhs + length rhs)"; clarsimp)
  fix lhs rhs
  assume "\<not> lhs_digit lhs < locator_mid (lhs_digit lhs) (rhs_digit rhs)"
  then have "lhs \<noteq> [] \<or> rhs \<noteq> []" by (auto simp: lhs_digit_def rhs_digit_def mid_ended)
  then show "length lhs - Suc 0 + (length rhs - Suc 0) < length lhs + length rhs" by (cases lhs; cases rhs) auto
qed

declare between.simps [simp del]

definition Locator_len :: "Locator \<Rightarrow> nat" where
  "Locator_len l = length l"

definition Locator_is_empty :: "Locator \<Rightarrow> bool" where
  "Locator_is_empty l \<longleftrightarrow> Locator_len l = 0"

section \<open>The digits\<close>

lemma unat_mid: "unat (locator_mid l r) = unat l + unat (saturating_sub r l) div 2 ^ 48"
proof -
  have d: "unat (drop_bit 48 w) = unat w div 2 ^ 48" for w :: "64 word"
    by (simp add: drop_bit_eq_div unat_div)
  have "unat (saturating_sub r l) \<le> unat r - unat l" by (simp add: saturating_sub_def unat_sub word_le_nat_alt)
  moreover have "unat (saturating_sub r l) div 2 ^ 48 \<le> unat (saturating_sub r l)" by (rule div_le_dividend)
  moreover have "unat r < 2 ^ 64" "unat l < 2 ^ 64" using unsigned_less [of r] unsigned_less [of l] by simp_all
  ultimately have "unat l + unat (saturating_sub r l) div 2 ^ 48 < 2 ^ 64" by linarith
  then show ?thesis by (simp add: locator_mid_def unat_word_ariths d)
qed

lemma mid_ge: "l \<le> locator_mid l r"
  by (simp add: word_le_nat_alt unat_mid)

lemma mid_less: "l < r \<Longrightarrow> locator_mid l r < r"
proof -
  assume lr: "l < r"
  then have "unat (saturating_sub r l) = unat r - unat l" "unat l < unat r"
    by (simp_all add: saturating_sub_def unat_sub word_le_nat_alt word_less_nat_alt)
  moreover have "(unat r - unat l) div 2 ^ 48 < unat r - unat l" using calculation(2) by (intro div_less_dividend) auto
  ultimately show "locator_mid l r < r" by (simp add: word_less_nat_alt unat_mid)
qed

lemma mid_same: "r \<le> l \<Longrightarrow> locator_mid l r = l"
  by (auto simp: locator_mid_def saturating_sub_def)

lemma between_cases:
  obtains (stop) "lhs_digit lhs < locator_mid (lhs_digit lhs) (rhs_digit rhs)" "between lhs rhs = [locator_mid (lhs_digit lhs) (rhs_digit rhs)]"
  | (go_on) "locator_mid (lhs_digit lhs) (rhs_digit rhs) = lhs_digit lhs" "between lhs rhs = lhs_digit lhs # between (tl lhs) (tl rhs)"
      "lhs \<noteq> [] \<or> rhs \<noteq> []"
proof (cases "lhs_digit lhs < locator_mid (lhs_digit lhs) (rhs_digit rhs)")
  case True
  then show thesis using stop between.simps [of lhs rhs] by (simp add: Let_def)
next
  case False
  then have "locator_mid (lhs_digit lhs) (rhs_digit rhs) = lhs_digit lhs" using mid_ge [of "lhs_digit lhs" "rhs_digit rhs"] by simp
  moreover have "lhs \<noteq> [] \<or> rhs \<noteq> []" using False by (auto simp: lhs_digit_def rhs_digit_def mid_ended)
  ultimately show thesis using go_on False between.simps [of lhs rhs] by (simp add: Let_def)
qed

section \<open>The order\<close>

lemma between_greater: "lhs < between lhs rhs"
proof (induction lhs rhs rule: between.induct)
  case (1 lhs rhs)
  show ?case
  proof (cases lhs rhs rule: between_cases)
    case stop
    then show ?thesis by (cases lhs) (auto simp: lhs_digit_def)
  next
    case go_on
    moreover have "tl lhs < between (tl lhs) (tl rhs)" using 1 go_on(1) by simp
    ultimately show ?thesis by (cases lhs) (auto simp: lhs_digit_def)
  qed
qed

text \<open>There is room below \<open>rhs\<close> unless it is \<open>lhs\<close> followed by zeros.\<close>

fun zeros_after :: "Locator \<Rightarrow> Locator \<Rightarrow> bool" where
  "zeros_after [] rhs \<longleftrightarrow> (\<forall>r \<in> set rhs. r = 0)"
| "zeros_after (l # ls) [] \<longleftrightarrow> False"
| "zeros_after (l # ls) (r # rs) \<longleftrightarrow> l = r \<and> zeros_after ls rs"

lemma zeros_after_iff: "zeros_after lhs rhs \<longleftrightarrow> (\<exists>k. rhs = lhs @ replicate k 0)"
proof (induction lhs rhs rule: zeros_after.induct)
  case (1 rhs)
  show ?case
    by (simp add: replicate_eqI flip: replicate_length_same) (metis in_set_replicate replicate_length_same)
qed auto

lemma between_below: "lhs < rhs \<Longrightarrow> \<not> zeros_after lhs rhs \<Longrightarrow> between lhs rhs < rhs"
proof (induction lhs rhs rule: between.induct)
  case (1 lhs rhs)
  obtain r rs where rhs: "rhs = r # rs" using 1(2) by (cases rhs) auto
  have first: "lhs_digit lhs < r \<or> lhs_digit lhs = r \<and> tl lhs < rs \<and> \<not> zeros_after (tl lhs) rs"
    using 1(2,3) by (cases lhs; cases rs) (auto simp: rhs lhs_digit_def word_gt_0 split: if_splits)
  show ?case
  proof (cases "lhs_digit lhs < r")
    case True
    then have "locator_mid (lhs_digit lhs) r < r" by (rule mid_less)
    then show ?thesis by (cases lhs rhs rule: between_cases) (auto simp: rhs rhs_digit_def)
  next
    case False
    then have eq: "lhs_digit lhs = r" "tl lhs < rs" "\<not> zeros_after (tl lhs) rs" using first by auto
    then have "\<not> lhs_digit lhs < locator_mid (lhs_digit lhs) (rhs_digit rhs)" by (simp add: rhs rhs_digit_def mid_same)
    with 1 eq rhs have "between (tl lhs) rs < rs" by simp
    then show ?thesis using eq by (cases lhs rhs rule: between_cases) (auto simp: rhs rhs_digit_def mid_same)
  qed
qed

lemma between_less: "lhs < rhs \<Longrightarrow> last rhs \<noteq> 0 \<Longrightarrow> between lhs rhs < rhs"
proof (rule between_below)
  assume lt: "lhs < rhs" and "last rhs \<noteq> 0"
  then show "\<not> zeros_after lhs rhs" by (auto simp: zeros_after_iff split: if_splits) (metis append_Nil2 last_appendR last_replicate order_less_irrefl replicate_empty)
qed

lemma between_above: "zeros_after lhs rhs \<Longrightarrow> rhs < between lhs rhs"
proof (induction lhs rhs rule: between.induct)
  case (1 lhs rhs)
  show ?case
  proof (cases rhs)
    case Nil
    then show ?thesis by (cases lhs rhs rule: between_cases) simp_all
  next
    case (Cons r rs)
    then have eq: "lhs_digit lhs = r" "zeros_after (tl lhs) rs" using 1(2) by (cases lhs; simp add: lhs_digit_def)+
    then have "\<not> lhs_digit lhs < locator_mid (lhs_digit lhs) (rhs_digit rhs)" by (simp add: Cons rhs_digit_def mid_same)
    with 1 eq Cons have "rs < between (tl lhs) rs" by simp
    then show ?thesis using eq by (cases lhs rhs rule: between_cases) (auto simp: Cons rhs_digit_def mid_same)
  qed
qed

lemma between_below_iff: "between lhs rhs < rhs \<longleftrightarrow> lhs < rhs \<and> \<not> zeros_after lhs rhs"
  using between_below [of lhs rhs] between_above [of lhs rhs] between_greater [of lhs rhs] by (meson order.strict_trans order_less_asym)

lemma between_shape: "between lhs rhs \<noteq> [] \<and> last (between lhs rhs) \<noteq> 0 \<and> length (between lhs rhs) \<le> Suc (max (length lhs) (length rhs))"
proof (induction lhs rhs rule: between.induct)
  case (1 lhs rhs)
  show ?case
  proof (cases lhs rhs rule: between_cases)
    case stop
    then show ?thesis by auto
  next
    case go_on
    then have "between (tl lhs) (tl rhs) \<noteq> [] \<and> last (between (tl lhs) (tl rhs)) \<noteq> 0 \<and>
        length (between (tl lhs) (tl rhs)) \<le> Suc (max (length (tl lhs)) (length (tl rhs)))" using 1 by simp
    then show ?thesis using go_on(2,3) by (cases lhs; cases rhs) auto
  qed
qed

text \<open>Every digit but the last is copied from the left.\<close>

lemma between_prefix: "i < length (between lhs rhs) - 1 \<Longrightarrow> between lhs rhs ! i = (if i < length lhs then lhs ! i else 0)"
proof (induction lhs rhs arbitrary: i rule: between.induct)
  case (1 lhs rhs)
  show ?case
  proof (cases lhs rhs rule: between_cases)
    case stop
    then show ?thesis using 1(2) by simp
  next
    case go_on
    show ?thesis
    proof (cases i)
      case 0
      then show ?thesis using go_on by (cases lhs) (auto simp: lhs_digit_def)
    next
      case (Suc j)
      then have "between (tl lhs) (tl rhs) ! j = (if j < length (tl lhs) then tl lhs ! j else 0)"
        using 1 go_on by simp
      then show ?thesis using go_on Suc by (cases lhs) auto
    qed
  qed
qed

section \<open>Sequential appends\<close>

lemma between_last_digit:
  assumes "unat x \<le> n * 65535" "n < 2 ^ 48"
  shows "\<exists>y. between [x] [] = [y] \<and> between [x] Locator_max = [y] \<and> unat y \<le> Suc n * 65535"
proof -
  have "n * 65535 \<le> (2 ^ 48 - 1) * 65535" using assms(2) by (intro mult_right_mono) auto
  then have room: "unat x + 2 ^ 48 \<le> 2 ^ 64 - 1" using assms(1) by simp
  have "unat (- 1 :: 64 word) = 2 ^ 64 - 1" by (simp add: unsigned_minus_1_eq_mask mask_eq_exp_minus_1)
  then have "unat (saturating_sub (- 1) x) = 2 ^ 64 - 1 - unat x"
    by (simp only: saturating_sub_def unat_sub word_n1_ge simp_thms if_True)
  then have mid: "unat (locator_mid x (- 1)) = unat x + (2 ^ 64 - 1 - unat x) div 2 ^ 48" by (simp only: unat_mid)
  have "1 \<le> (2 ^ 64 - 1 - unat x) div 2 ^ 48" using room by (simp add: Suc_le_eq div_greater_zero_iff)
  moreover have "(2 ^ 64 - 1 - unat x) div 2 ^ 48 \<le> (2 ^ 64 - 1) div 2 ^ 48" by (intro div_le_mono) simp
  ultimately have "x < locator_mid x (- 1)" "unat (locator_mid x (- 1)) \<le> Suc n * 65535"
    using assms(1) by (simp_all add: word_less_nat_alt mid)
  then show ?thesis by (simp add: between.simps [of "[x]"] Locator_max_def lhs_digit_def rhs_digit_def Let_def)
qed

lemma appends_depth_1:
  "n \<le> 2 ^ 48 \<Longrightarrow> \<exists>x. ((\<lambda>prev. between prev Locator_max) ^^ n) Locator_min = [x] \<and> unat x \<le> n * 65535"
proof (induction n)
  case 0
  then show ?case by (simp add: Locator_min_def)
next
  case (Suc n)
  then obtain x where x: "((\<lambda>prev. between prev Locator_max) ^^ n) Locator_min = [x]" "unat x \<le> n * 65535" by auto
  show ?case using between_last_digit [OF x(2)] Suc.prems x(1) by auto
qed

lemma between_depth_2: "between [0, x] [65535] = 0 # between [x] []"
proof -
  have "locator_mid 0 65535 = 0" by (simp add: locator_mid_def saturating_sub_def)
  then show ?thesis by (simp add: between.simps [of "[0, x]"] lhs_digit_def rhs_digit_def Let_def)
qed

lemma appends_depth_2:
  "n < 2 ^ 48 \<Longrightarrow> \<exists>x. ((\<lambda>prev. between prev [65535]) ^^ n) [0, 65535] = [0, x] \<and> unat x \<le> Suc n * 65535"
proof (induction n)
  case (Suc n)
  then obtain x where x: "((\<lambda>prev. between prev [65535]) ^^ n) [0, 65535] = [0, x]" "unat x \<le> Suc n * 65535" by auto
  show ?case using between_last_digit [OF x(2)] Suc.prems x(1) by (auto simp: between_depth_2)
qed simp

section \<open>The locators that a program makes\<close>

text \<open>Starting from the two constants, \<open>between\<close> is the only way to make a locator.\<close>

inductive made :: "Locator \<Rightarrow> bool" where
  "made Locator_min"
| "made Locator_max"
| "made lhs \<Longrightarrow> made rhs \<Longrightarrow> made (between lhs rhs)"

lemma made_end: "made l \<Longrightarrow> l = Locator_min \<or> l \<noteq> [] \<and> last l \<noteq> 0"
  by (induction rule: made.induct) (simp_all add: Locator_max_def between_shape)

lemma made_room: "made lhs \<Longrightarrow> made rhs \<Longrightarrow> lhs < rhs \<Longrightarrow> \<not> zeros_after lhs rhs"
proof
  assume l: "made lhs" "made rhs" "lhs < rhs" and z: "zeros_after lhs rhs"
  from z obtain k where k: "rhs = lhs @ replicate k 0" by (auto simp: zeros_after_iff)
  with l(3) obtain j where "k = Suc j" by (cases k) auto
  with k have tail: "rhs = lhs @ replicate j 0 @ [0]" by (simp add: replicate_append_same)
  then have "rhs = Locator_min" using made_end [OF l(2)] by auto
  then have "lhs = []" using tail by (cases lhs) (auto simp: Locator_min_def)
  then show False using made_end [OF l(1)] by (simp add: Locator_min_def)
qed

section \<open>Properties\<close>

text \<open>(C24) \<open>between\<close> terminates on all locators, never overflows a digit and returns a locator strictly
  above the left one.  It is strictly below the right one exactly if the right one is above the left
  one and is not the left one followed by zeros only; so it is strictly between any two locators in
  order that were made by \<open>between\<close> from \<open>min\<close> and \<open>max\<close>.  It is at most one digit longer than the
  longer of the two, and copies all digits but its last from the left one (with zeros after its
  end).\<close>

theorem locator_between:
  shows "lhs < between lhs rhs \<and>
    (between lhs rhs < rhs \<longleftrightarrow> lhs < rhs \<and> \<not> (\<exists>k. rhs = lhs @ replicate k 0)) \<and>
    (made lhs \<and> made rhs \<and> lhs < rhs \<longrightarrow> between lhs rhs < rhs \<and> made (between lhs rhs)) \<and>
    \<not> Locator_is_empty (between lhs rhs) \<and> last (between lhs rhs) \<noteq> 0 \<and>
    Locator_len (between lhs rhs) \<le> Suc (max (Locator_len lhs) (Locator_len rhs)) \<and>
    (i < Locator_len (between lhs rhs) - 1 \<longrightarrow> between lhs rhs ! i = (if i < Locator_len lhs then lhs ! i else 0)) \<and>
    unat (locator_mid l r) = unat l + unat (saturating_sub r l) div 2 ^ 48 \<and>
    Locator_assign lhs rhs = Some rhs"
  using between_greater [of lhs rhs] between_below_iff [of lhs rhs] made_room [of lhs rhs] made.intros(3) [of lhs rhs]
    between_shape [of lhs rhs] between_prefix [of i lhs rhs] unat_mid [of l r]
  by (simp add: Locator_is_empty_def Locator_len_def Locator_assign_def flip: zeros_after_iff)

theorem locator_between_witness:
  "between [3, 7] [4] < [4 :: 64 word] \<and> [3, 7] < between [3, 7] [4 :: 64 word] \<and>
    between Locator_min Locator_max < Locator_max"
proof -
  have "made Locator_min" "made Locator_max" "Locator_min < Locator_max"
    by (simp_all add: made.intros) (simp add: Locator_min_def Locator_max_def word_gt_0)
  then have "between Locator_min Locator_max < Locator_max" using locator_between [of Locator_min Locator_max] by blast
  moreover have "between [3, 7] [4] < [4 :: 64 word]" using locator_between [of "[3, 7]" "[4]"] by simp
  ultimately show ?thesis using locator_between [of "[3, 7]" "[4]"] by blast
qed

text \<open>(C38) Typing does not make locators grow: up to \<open>2 ^ 48\<close> locators appended one after the other
  before the maximum all have one digit, and as many appended before the first locator of a
  buffer, after a split there, have two.\<close>

theorem locator_appends:
  assumes "n < 2 ^ 48"
  shows "Locator_len (((\<lambda>prev. between prev Locator_max) ^^ Suc n) Locator_min) = 1 \<and>
    between Locator_min Locator_max = [65535] \<and> between Locator_min [65535] = [0, 65535] \<and>
    Locator_len (((\<lambda>prev. between prev [65535]) ^^ n) [0, 65535]) = 2"
proof -
  obtain x where "((\<lambda>prev. between prev Locator_max) ^^ Suc n) Locator_min = [x]" using appends_depth_1 [of "Suc n"] assms by auto
  moreover obtain y where "((\<lambda>prev. between prev [65535]) ^^ n) [0, 65535] = [0, y]" using appends_depth_2 [of n] assms by auto
  moreover have "between Locator_min Locator_max = [65535]" by code_simp
  moreover have "between Locator_min [65535] = [0, 65535]" by code_simp
  ultimately show ?thesis unfolding Locator_len_def by simp
qed

theorem locator_appends_witness:
  "Locator_len (((\<lambda>prev. between prev Locator_max) ^^ Suc 100000) Locator_min) = 1"
proof -
  have "(100000 :: nat) < 2 ^ 48" by simp
  from locator_appends [OF this] show ?thesis by (rule conjunct1)
qed

text \<open>Below a locator that ends in zero there may be no room: between \<open>[5]\<close> and \<open>[5, 0]\<close>, which is
  above it, the result is above both.\<close>

lemma locator_between_zero_end:
  "[5] < [5, 0 :: 64 word] \<and> between [5] [5, 0] = [5, 0, 65535] \<and> [5, 0] < between [5] [5, 0]"
  by code_simp

end
