(* ===== verification/Text_History.thy ===== *)
theory Text_History
  imports Clock TreeMaps Rope_Tree "HOL-Library.Multiset"
begin

text \<open>
  The undo history of a buffer (\<open>History\<close>, \<open>HistoryEntry\<close>, \<open>Transaction\<close> and \<open>Operation\<close> of
  \<open>crates/text/src/text.rs\<close>): nested transactions, their grouping by time, the undo and the redo
  stack.  Instants and durations are natural numbers of one unit; subtracting a later instant from
  an earlier one gives zero, as in the source.  \<open>None\<close> is a failed assertion.
\<close>

section \<open>The source\<close>

type_synonym TransactionId = Lamport

record EditOperation =
  eo_timestamp :: Lamport
  eo_version :: Global
  eo_ranges :: "(nat \<times> nat) list"
  eo_new_text :: "ustr list"

text \<open>The counts of an undo operation are a hash map; the list is its contents in the order of
  iteration.\<close>

record UndoOperation =
  uo_timestamp :: Lamport
  uo_version :: Global
  uo_counts :: "(Lamport \<times> 32 word) list"

datatype Operation = Op_Edit EditOperation | Op_Undo UndoOperation

definition operation_timestamp :: "Operation \<Rightarrow> Lamport" where
  "operation_timestamp op = (case op of Op_Edit edit \<Rightarrow> eo_timestamp edit | Op_Undo undo \<Rightarrow> uo_timestamp undo)"

record Transaction =
  tr_id :: TransactionId
  tr_edit_ids :: "Lamport list"
  tr_start :: Global

definition merge_in :: "Transaction \<Rightarrow> Transaction \<Rightarrow> Transaction" where
  "merge_in t other = t\<lparr>tr_edit_ids := tr_edit_ids t @ tr_edit_ids other\<rparr>"

record HistoryEntry =
  he_transaction :: Transaction
  he_first_edit_at :: nat
  he_last_edit_at :: nat
  he_suppress_grouping :: bool

definition transaction_id :: "HistoryEntry \<Rightarrow> TransactionId" where
  "transaction_id entry = tr_id (he_transaction entry)"

record History =
  hi_base_text :: Rope
  hi_operations :: "(Lamport, Operation) TreeMap"
  hi_undo_stack :: "HistoryEntry list"
  hi_redo_stack :: "HistoryEntry list"
  hi_transaction_depth :: nat
  hi_group_interval :: nat

abbreviation edit_ids :: "HistoryEntry \<Rightarrow> Lamport list" where
  "edit_ids entry \<equiv> tr_edit_ids (he_transaction entry)"

text \<open>The default interval is 300 milliseconds.\<close>

definition History_new :: "Rope \<Rightarrow> History" where
  "History_new base_text = \<lparr>hi_base_text = base_text, hi_operations = tm_new, hi_undo_stack = [], hi_redo_stack = [],
     hi_transaction_depth = 0, hi_group_interval = 300\<rparr>"

definition hist_push :: "History \<Rightarrow> Operation \<Rightarrow> History option" where
  "hist_push h op = do {
     operations \<leftarrow> tm_insert (hi_operations h) (operation_timestamp op) op;
     Some (h\<lparr>hi_operations := operations\<rparr>) }"

definition new_entry :: "Transaction \<Rightarrow> nat \<Rightarrow> HistoryEntry" where
  "new_entry transaction now =
     \<lparr>he_transaction = transaction, he_first_edit_at = now, he_last_edit_at = now, he_suppress_grouping = False\<rparr>"

definition start_transaction :: "History \<Rightarrow> Global \<Rightarrow> nat \<Rightarrow> Lamport \<Rightarrow> History \<times> Lamport \<times> TransactionId option" where
  "start_transaction h start now clock =
     (let h1 = h\<lparr>hi_transaction_depth := hi_transaction_depth h + 1\<rparr> in
      if hi_transaction_depth h1 = 1 then
        let (tid, clock') = tick clock;
            transaction = \<lparr>tr_id = tid, tr_edit_ids = [], tr_start = start\<rparr>
        in (h1\<lparr>hi_undo_stack := hi_undo_stack h1 @ [new_entry transaction now]\<rparr>, clock', Some tid)
      else (h1, clock, None))"

definition end_transaction :: "History \<Rightarrow> nat \<Rightarrow> (History \<times> HistoryEntry option) option" where
  "end_transaction h now =
     (if hi_transaction_depth h = 0 then None
      else let h1 = h\<lparr>hi_transaction_depth := hi_transaction_depth h - 1\<rparr> in
        if hi_transaction_depth h1 = 0 then
          if hi_undo_stack h1 = [] then None
          else if edit_ids (last (hi_undo_stack h1)) = [] then Some (h1\<lparr>hi_undo_stack := butlast (hi_undo_stack h1)\<rparr>, None)
          else let entry = (last (hi_undo_stack h1))\<lparr>he_last_edit_at := now\<rparr>
            in Some (h1\<lparr>hi_redo_stack := [], hi_undo_stack := butlast (hi_undo_stack h1) @ [entry]\<rparr>, Some entry)
        else Some (h1, None))"

definition merge_entries :: "HistoryEntry \<Rightarrow> HistoryEntry list \<Rightarrow> HistoryEntry" where
  "merge_entries last_entry entries =
     (let t = he_transaction last_entry;
          e = last_entry\<lparr>he_transaction := t\<lparr>tr_edit_ids := tr_edit_ids t @ concat (map edit_ids entries)\<rparr>\<rparr>
      in if entries = [] then e else e\<lparr>he_last_edit_at := he_last_edit_at (last entries)\<rparr>)"

definition group_trailing :: "History \<Rightarrow> nat \<Rightarrow> (History \<times> TransactionId option) option" where
  "group_trailing h n =
     (if length (hi_undo_stack h) < n then None
      else let new_len = length (hi_undo_stack h) - n;
          entries_to_keep = take new_len (hi_undo_stack h);
          entries_to_merge = drop new_len (hi_undo_stack h);
          kept = (if entries_to_keep = [] then [] else butlast entries_to_keep @ [merge_entries (last entries_to_keep) entries_to_merge])
        in Some (h\<lparr>hi_undo_stack := kept\<rparr>, if kept = [] then None else Some (transaction_id (last kept))))"

text \<open>How many entries before \<open>entry\<close> (the nearest first) belong to its group.\<close>

fun group_count :: "nat \<Rightarrow> HistoryEntry \<Rightarrow> HistoryEntry list \<Rightarrow> nat" where
  "group_count interval entry [] = 0"
| "group_count interval entry (prev_entry # entries) =
     (if \<not> he_suppress_grouping prev_entry \<and> he_first_edit_at entry - he_last_edit_at prev_entry < interval
      then Suc (group_count interval prev_entry entries) else 0)"

definition hist_group :: "History \<Rightarrow> (History \<times> TransactionId option) option" where
  "hist_group h = group_trailing h
     (case rev (hi_undo_stack h) of [] \<Rightarrow> 0 | entry # entries \<Rightarrow> group_count (hi_group_interval h) entry entries)"

fun group_until_loop :: "History \<Rightarrow> TransactionId \<Rightarrow> nat \<Rightarrow> HistoryEntry list \<Rightarrow> History option" where
  "group_until_loop h tid n [] = Some h"
| "group_until_loop h tid n (entry # entries) =
     (if transaction_id entry = tid then map_option fst (group_trailing h n)
      else if he_suppress_grouping entry then Some h
      else group_until_loop h tid (n + 1) entries)"

definition group_until :: "History \<Rightarrow> TransactionId \<Rightarrow> History option" where
  "group_until h tid = group_until_loop h tid 0 (rev (hi_undo_stack h))"

definition finalize_last_transaction :: "History \<Rightarrow> History \<times> Transaction option" where
  "finalize_last_transaction h =
     (if hi_undo_stack h = [] then (h, None)
      else let entry = (last (hi_undo_stack h))\<lparr>he_suppress_grouping := True\<rparr>
        in (h\<lparr>hi_undo_stack := butlast (hi_undo_stack h) @ [entry]\<rparr>, Some (he_transaction entry)))"

definition push_transaction :: "History \<Rightarrow> Transaction \<Rightarrow> nat \<Rightarrow> History option" where
  "push_transaction h transaction now =
     (if hi_transaction_depth h \<noteq> 0 then None
      else Some (h\<lparr>hi_undo_stack := hi_undo_stack h @ [new_entry transaction now]\<rparr>))"

definition push_empty_transaction :: "History \<Rightarrow> Global \<Rightarrow> nat \<Rightarrow> Lamport \<Rightarrow> (History \<times> Lamport \<times> TransactionId) option" where
  "push_empty_transaction h start now clock =
     (if hi_transaction_depth h \<noteq> 0 then None
      else let (tid, clock') = tick clock;
          transaction = \<lparr>tr_id = tid, tr_edit_ids = [], tr_start = start\<rparr>
        in Some (h\<lparr>hi_undo_stack := hi_undo_stack h @ [new_entry transaction now]\<rparr>, clock', tid))"

definition add_edit_id :: "Lamport \<Rightarrow> HistoryEntry \<Rightarrow> HistoryEntry" where
  "add_edit_id op_id entry = entry\<lparr>he_transaction := (he_transaction entry)\<lparr>tr_edit_ids := edit_ids entry @ [op_id]\<rparr>\<rparr>"

definition push_undo :: "History \<Rightarrow> Lamport \<Rightarrow> History option" where
  "push_undo h op_id =
     (if hi_transaction_depth h = 0 then None
      else case tm_get (hi_operations h) op_id of
          Some (Op_Edit _) \<Rightarrow>
            if hi_undo_stack h = [] then None
            else Some (h\<lparr>hi_undo_stack := butlast (hi_undo_stack h) @ [add_edit_id op_id (last (hi_undo_stack h))]\<rparr>)
        | _ \<Rightarrow> Some h)"

definition pop_undo :: "History \<Rightarrow> (History \<times> HistoryEntry option) option" where
  "pop_undo h =
     (if hi_transaction_depth h \<noteq> 0 then None
      else if hi_undo_stack h = [] then Some (h, None)
      else let entry = last (hi_undo_stack h)
        in Some (h\<lparr>hi_undo_stack := butlast (hi_undo_stack h), hi_redo_stack := hi_redo_stack h @ [entry]\<rparr>, Some entry))"

text \<open>\<open>Iterator::rposition\<close>: the index of the last entry of a transaction.\<close>

definition rposition :: "TransactionId \<Rightarrow> HistoryEntry list \<Rightarrow> nat option" where
  "rposition tid entries =
     (let n = length (takeWhile (\<lambda>entry. transaction_id entry \<noteq> tid) (rev entries))
      in if n < length entries then Some (length entries - 1 - n) else None)"

definition list_remove :: "nat \<Rightarrow> 'a list \<Rightarrow> 'a list" where
  "list_remove i xs = take i xs @ drop (Suc i) xs"

definition remove_from_undo :: "History \<Rightarrow> TransactionId \<Rightarrow> (History \<times> HistoryEntry option) option" where
  "remove_from_undo h tid =
     (if hi_transaction_depth h \<noteq> 0 then None
      else case rposition tid (hi_undo_stack h) of
          None \<Rightarrow> Some (h, None)
        | Some entry_ix \<Rightarrow> let entry = hi_undo_stack h ! entry_ix
            in Some (h\<lparr>hi_undo_stack := list_remove entry_ix (hi_undo_stack h), hi_redo_stack := hi_redo_stack h @ [entry]\<rparr>, Some entry))"

definition remove_from_undo_until :: "History \<Rightarrow> TransactionId \<Rightarrow> (History \<times> HistoryEntry list) option" where
  "remove_from_undo_until h tid =
     (if hi_transaction_depth h \<noteq> 0 then None
      else let redo_stack_start_len = length (hi_redo_stack h);
          h' = (case rposition tid (hi_undo_stack h) of
              None \<Rightarrow> h
            | Some entry_ix \<Rightarrow> h\<lparr>hi_redo_stack := hi_redo_stack h @ rev (drop entry_ix (hi_undo_stack h)),
                hi_undo_stack := take entry_ix (hi_undo_stack h)\<rparr>)
        in Some (h', drop redo_stack_start_len (hi_redo_stack h')))"

definition forget :: "History \<Rightarrow> TransactionId \<Rightarrow> (History \<times> Transaction option) option" where
  "forget h tid =
     (if hi_transaction_depth h \<noteq> 0 then None
      else case rposition tid (hi_undo_stack h) of
          Some entry_ix \<Rightarrow> Some (h\<lparr>hi_undo_stack := list_remove entry_ix (hi_undo_stack h)\<rparr>, Some (he_transaction (hi_undo_stack h ! entry_ix)))
        | None \<Rightarrow> (case rposition tid (hi_redo_stack h) of
            Some entry_ix \<Rightarrow> Some (h\<lparr>hi_redo_stack := list_remove entry_ix (hi_redo_stack h)\<rparr>, Some (he_transaction (hi_redo_stack h ! entry_ix)))
          | None \<Rightarrow> Some (h, None)))"

definition hist_transaction :: "History \<Rightarrow> TransactionId \<Rightarrow> Transaction option" where
  "hist_transaction h tid =
     (case rposition tid (hi_undo_stack h) of
        Some entry_ix \<Rightarrow> Some (he_transaction (hi_undo_stack h ! entry_ix))
      | None \<Rightarrow> map_option (\<lambda>entry_ix. he_transaction (hi_redo_stack h ! entry_ix)) (rposition tid (hi_redo_stack h)))"

text \<open>A write through the reference that \<open>transaction_mut\<close> returns.\<close>

definition update_transaction :: "(Transaction \<Rightarrow> Transaction) \<Rightarrow> nat \<Rightarrow> HistoryEntry list \<Rightarrow> HistoryEntry list" where
  "update_transaction f i entries = entries[i := (entries ! i)\<lparr>he_transaction := f (he_transaction (entries ! i))\<rparr>]"

definition transaction_mut :: "History \<Rightarrow> TransactionId \<Rightarrow> (Transaction \<Rightarrow> Transaction) \<Rightarrow> History" where
  "transaction_mut h tid f =
     (case rposition tid (hi_undo_stack h) of
        Some entry_ix \<Rightarrow> h\<lparr>hi_undo_stack := update_transaction f entry_ix (hi_undo_stack h)\<rparr>
      | None \<Rightarrow> (case rposition tid (hi_redo_stack h) of
          Some entry_ix \<Rightarrow> h\<lparr>hi_redo_stack := update_transaction f entry_ix (hi_redo_stack h)\<rparr>
        | None \<Rightarrow> h))"

definition merge_transactions :: "History \<Rightarrow> TransactionId \<Rightarrow> TransactionId \<Rightarrow> History option" where
  "merge_transactions h transaction destination = do {
     (h', forgotten) \<leftarrow> forget h transaction;
     Some (case forgotten of
         None \<Rightarrow> h'
       | Some t \<Rightarrow> transaction_mut h' destination (\<lambda>d. d\<lparr>tr_edit_ids := tr_edit_ids d @ tr_edit_ids t\<rparr>)) }"

definition pop_redo :: "History \<Rightarrow> (History \<times> HistoryEntry option) option" where
  "pop_redo h =
     (if hi_transaction_depth h \<noteq> 0 then None
      else if hi_redo_stack h = [] then Some (h, None)
      else let entry = last (hi_redo_stack h)
        in Some (h\<lparr>hi_redo_stack := butlast (hi_redo_stack h), hi_undo_stack := hi_undo_stack h @ [entry]\<rparr>, Some entry))"

definition remove_from_redo :: "History \<Rightarrow> TransactionId \<Rightarrow> (History \<times> HistoryEntry list) option" where
  "remove_from_redo h tid =
     (if hi_transaction_depth h \<noteq> 0 then None
      else let undo_stack_start_len = length (hi_undo_stack h);
          h' = (case rposition tid (hi_redo_stack h) of
              None \<Rightarrow> h
            | Some entry_ix \<Rightarrow> h\<lparr>hi_undo_stack := hi_undo_stack h @ rev (drop entry_ix (hi_redo_stack h)),
                hi_redo_stack := take entry_ix (hi_redo_stack h)\<rparr>)
        in Some (h', drop undo_stack_start_len (hi_undo_stack h')))"

section \<open>Looking transactions up\<close>

abbreviation ids :: "HistoryEntry list \<Rightarrow> TransactionId set" where
  "ids entries \<equiv> transaction_id ` set entries"

lemma in_ids: "t \<in> ids entries \<longleftrightarrow> (\<exists>e \<in> set entries. transaction_id e = t)"
  by auto

lemma rposition_found:
  assumes "transaction_id e = t" "t \<notin> ids ys"
  shows "rposition t (xs @ e # ys) = Some (length xs)"
proof -
  have "takeWhile (\<lambda>entry. transaction_id entry \<noteq> t) (rev ys @ e # rev xs) = rev ys"
    using assms(1) assms(2) [unfolded in_ids] by (subst takeWhile_append2) auto
  then show ?thesis by (simp add: rposition_def)
qed

lemma rposition_none: "t \<notin> ids entries \<Longrightarrow> rposition t entries = None"
proof -
  assume "t \<notin> ids entries"
  then have "takeWhile (\<lambda>entry. transaction_id entry \<noteq> t) (rev entries) = rev entries" unfolding in_ids by (auto simp: takeWhile_eq_all_conv)
  then show "rposition t entries = None" unfolding rposition_def by (simp only: length_rev less_irrefl if_False Let_def)
qed

lemma rposition_cases:
  obtains (absent) "rposition t entries = None" "t \<notin> ids entries"
  | (present) xs e ys where "entries = xs @ e # ys" "transaction_id e = t" "t \<notin> ids ys" "rposition t entries = Some (length xs)"
proof (cases "t \<in> ids entries")
  case True
  then have "\<exists>e \<in> set entries. transaction_id e = t" by auto
  then obtain xs e ys where *: "entries = xs @ e # ys" "transaction_id e = t" "\<forall>x \<in> set ys. transaction_id x \<noteq> t"
    using split_list_last_prop [of entries "\<lambda>e. transaction_id e = t"] by auto
  then have "t \<notin> ids ys" unfolding in_ids by blast
  then show thesis using present * rposition_found by blast
next
  case False
  then show thesis using absent rposition_none [OF False] by simp
qed

lemma list_remove_append [simp]: "list_remove (length xs) (xs @ e # ys) = xs @ ys"
  by (simp add: list_remove_def)

lemma update_transaction_append [simp]:
  "update_transaction f (length xs) (xs @ e # ys) = xs @ e\<lparr>he_transaction := f (he_transaction e)\<rparr> # ys"
  by (simp add: update_transaction_def)

lemma transaction_id_updates [simp]:
  "transaction_id (e\<lparr>he_last_edit_at := n\<rparr>) = transaction_id e"
  "transaction_id (e\<lparr>he_suppress_grouping := b\<rparr>) = transaction_id e"
  "transaction_id (merge_entries e es) = transaction_id e"
  "transaction_id (add_edit_id i e) = transaction_id e"
  "transaction_id (new_entry t n) = tr_id t"
  by (simp_all add: transaction_id_def merge_entries_def add_edit_id_def new_entry_def Let_def)

text \<open>All the entries of the two stacks, and the edits in them.\<close>

definition hist_entries :: "History \<Rightarrow> HistoryEntry list" where
  "hist_entries h = hi_undo_stack h @ hi_redo_stack h"

definition distinct_ids :: "History \<Rightarrow> bool" where
  "distinct_ids h \<longleftrightarrow> distinct (map transaction_id (hist_entries h))"

definition hist_edits :: "History \<Rightarrow> Lamport multiset" where
  "hist_edits h = mset (concat (map edit_ids (hist_entries h)))"

lemma hist_transaction_cases:
  "hist_transaction h t = None \<and> t \<notin> ids (hist_entries h) \<or>
    (\<exists>e \<in> set (hist_entries h). transaction_id e = t \<and> hist_transaction h t = Some (he_transaction e))"
proof (cases t "hi_undo_stack h" rule: rposition_cases)
  case absent
  then show ?thesis by (cases t "hi_redo_stack h" rule: rposition_cases) (simp_all add: hist_transaction_def hist_entries_def image_Un)
qed (simp add: hist_transaction_def hist_entries_def)

lemma hist_transaction_entry:
  assumes "distinct_ids h"
  shows "hist_transaction h t = Some tr \<longleftrightarrow> (\<exists>e \<in> set (hist_entries h). transaction_id e = t \<and> he_transaction e = tr)"
proof -
  have inj: "e = e'" if "e \<in> set (hist_entries h)" "e' \<in> set (hist_entries h)" "transaction_id e = transaction_id e'" for e e'
    using assms that by (auto simp: distinct_ids_def distinct_map dest: inj_onD)
  show ?thesis
  proof (cases "t \<in> ids (hist_entries h)")
    case True
    then obtain e where "e \<in> set (hist_entries h)" "transaction_id e = t" "hist_transaction h t = Some (he_transaction e)"
      using hist_transaction_cases [of h t] by auto
    then show ?thesis using inj by (metis option.inject)
  next
    case False
    then show ?thesis using hist_transaction_cases [of h t] unfolding in_ids by auto
  qed
qed

section \<open>Grouping\<close>

definition grouped :: "nat \<Rightarrow> HistoryEntry \<Rightarrow> HistoryEntry \<Rightarrow> bool" where
  "grouped interval prev entry \<longleftrightarrow> \<not> he_suppress_grouping prev \<and> he_first_edit_at entry - he_last_edit_at prev < interval"

lemma group_count_split:
  "\<exists>xs e' ys. rev rs @ [e] = xs @ e' # ys \<and> length ys = group_count interval e rs \<and>
     successively (grouped interval) (e' # ys) \<and> (xs \<noteq> [] \<longrightarrow> \<not> grouped interval (last xs) e')"
proof (induction rs arbitrary: e)
  case (Cons prev rs)
  show ?case
  proof (cases "grouped interval prev e")
    case True
    obtain xs e' ys where IH: "rev rs @ [prev] = xs @ e' # ys" "length ys = group_count interval prev rs"
      "successively (grouped interval) (e' # ys)" "xs \<noteq> [] \<longrightarrow> \<not> grouped interval (last xs) e'" using Cons.IH by blast
    have "last (e' # ys) = prev" using arg_cong [OF IH(1), of last] by simp
    then have "successively (grouped interval) ((e' # ys) @ [e])"
      using IH(3) True by (subst successively_append_iff) simp
    moreover have "rev (prev # rs) @ [e] = xs @ e' # (ys @ [e])" using IH(1) by simp
    ultimately show ?thesis using IH(2,4) True
      by (intro exI [of _ xs] exI [of _ e'] exI [of _ "ys @ [e]"]) (simp add: grouped_def)
  next
    case False
    then show ?thesis by (intro exI [of _ "rev (prev # rs)"] exI [of _ e] exI [of _ "[]"]) (auto simp: grouped_def)
  qed
qed simp

lemma group_trailing_append:
  "hi_undo_stack h = xs @ e # ys \<Longrightarrow>
    group_trailing h (length ys) = Some (h\<lparr>hi_undo_stack := xs @ [merge_entries e ys]\<rparr>, Some (transaction_id e))"
  by (simp add: group_trailing_def Let_def)

lemma hist_group_split:
  assumes "hi_undo_stack h \<noteq> []"
  shows "\<exists>xs e ys. hi_undo_stack h = xs @ e # ys \<and> successively (grouped (hi_group_interval h)) (e # ys) \<and>
    (xs \<noteq> [] \<longrightarrow> \<not> grouped (hi_group_interval h) (last xs) e) \<and>
    hist_group h = Some (h\<lparr>hi_undo_stack := xs @ [merge_entries e ys]\<rparr>, Some (transaction_id e))"
proof -
  obtain e rs where rev: "rev (hi_undo_stack h) = e # rs" using assms by (cases "rev (hi_undo_stack h)") auto
  then have undo: "hi_undo_stack h = rev rs @ [e]" by (metis rev_rev_ident rev.simps(2))
  obtain xs e' ys where s: "rev rs @ [e] = xs @ e' # ys" "length ys = group_count (hi_group_interval h) e rs"
      "successively (grouped (hi_group_interval h)) (e' # ys)" "xs \<noteq> [] \<longrightarrow> \<not> grouped (hi_group_interval h) (last xs) e'"
    using group_count_split [of rs e "hi_group_interval h"] by blast
  have "hist_group h = group_trailing h (length ys)" by (simp add: hist_group_def rev s(2))
  then show ?thesis using group_trailing_append [of h xs e' ys] s undo by auto
qed

lemma group_until_split:
  assumes "rev rs @ zs = hi_undo_stack h"
  shows "group_until_loop h t (length zs) rs = Some h \<or>
    (\<exists>xs e ys. hi_undo_stack h = xs @ e # ys \<and> transaction_id e = t \<and>
      group_until_loop h t (length zs) rs = Some (h\<lparr>hi_undo_stack := xs @ [merge_entries e ys]\<rparr>))"
  using assms
proof (induction rs arbitrary: zs)
  case (Cons e rs)
  then have undo: "hi_undo_stack h = rev rs @ e # zs" by simp
  show ?case
  proof (cases "transaction_id e = t")
    case True
    then show ?thesis using group_trailing_append [OF undo] undo by auto
  next
    case False
    then show ?thesis using Cons.IH [of "e # zs"] undo by auto
  qed
qed simp

lemma group_until_cases:
  "group_until h t = Some h \<or>
    (\<exists>xs e ys. hi_undo_stack h = xs @ e # ys \<and> transaction_id e = t \<and> group_until h t = Some (h\<lparr>hi_undo_stack := xs @ [merge_entries e ys]\<rparr>))"
  using group_until_split [of "rev (hi_undo_stack h)" "[]" h t] by (simp add: group_until_def)

lemma edits_merge_entries: "edit_ids (merge_entries e ys) = edit_ids e @ concat (map edit_ids ys)"
  by (simp add: merge_entries_def Let_def)

section \<open>The history never fails\<close>

text \<open>The operations as events on the history and the clock of the buffer.\<close>

datatype history_event =
    Push Operation
  | Start Global nat | End nat
  | Group | Group_until TransactionId | Finalize
  | Push_transaction Transaction nat | Push_empty Global nat | Push_undo Lamport
  | Pop_undo | Pop_redo
  | Remove_from_undo TransactionId | Remove_from_undo_until TransactionId | Remove_from_redo TransactionId
  | Forget TransactionId | Merge TransactionId TransactionId

fun hist_apply :: "history_event \<Rightarrow> History \<Rightarrow> Lamport \<Rightarrow> (History \<times> Lamport) option" where
  "hist_apply (Push op) h c = map_option (\<lambda>h'. (h', c)) (hist_push h op)"
| "hist_apply (Start g now) h c = (let (h', c', _) = start_transaction h g now c in Some (h', c'))"
| "hist_apply (End now) h c = map_option (\<lambda>(h', _). (h', c)) (end_transaction h now)"
| "hist_apply Group h c = map_option (\<lambda>(h', _). (h', c)) (hist_group h)"
| "hist_apply (Group_until t) h c = map_option (\<lambda>h'. (h', c)) (group_until h t)"
| "hist_apply Finalize h c = Some (fst (finalize_last_transaction h), c)"
| "hist_apply (Push_transaction t now) h c = map_option (\<lambda>h'. (h', c)) (push_transaction h t now)"
| "hist_apply (Push_empty g now) h c = map_option (\<lambda>(h', c', _). (h', c')) (push_empty_transaction h g now c)"
| "hist_apply (Push_undo i) h c = map_option (\<lambda>h'. (h', c)) (push_undo h i)"
| "hist_apply Pop_undo h c = map_option (\<lambda>(h', _). (h', c)) (pop_undo h)"
| "hist_apply Pop_redo h c = map_option (\<lambda>(h', _). (h', c)) (pop_redo h)"
| "hist_apply (Remove_from_undo t) h c = map_option (\<lambda>(h', _). (h', c)) (remove_from_undo h t)"
| "hist_apply (Remove_from_undo_until t) h c = map_option (\<lambda>(h', _). (h', c)) (remove_from_undo_until h t)"
| "hist_apply (Remove_from_redo t) h c = map_option (\<lambda>(h', _). (h', c)) (remove_from_redo h t)"
| "hist_apply (Forget t) h c = map_option (\<lambda>(h', _). (h', c)) (forget h t)"
| "hist_apply (Merge t t') h c = map_option (\<lambda>h'. (h', c)) (merge_transactions h t t')"

text \<open>When a caller may issue them: transactions are ended and written to only when one is open, the
  stacks are touched only when none is, the clock has room, and a transaction pushed from outside
  has an id that the clock has passed and the history does not know.\<close>

fun hist_allowed :: "history_event \<Rightarrow> History \<Rightarrow> Lamport \<Rightarrow> bool" where
  "hist_allowed (Push op) h c \<longleftrightarrow> tm_usable (hi_operations h)"
| "hist_allowed (Start g now) h c \<longleftrightarrow> 0 < hi_transaction_depth h \<or> lamport_value c \<noteq> - 1"
| "hist_allowed (End now) h c \<longleftrightarrow> 0 < hi_transaction_depth h"
| "hist_allowed Group h c \<longleftrightarrow> True"
| "hist_allowed (Group_until t) h c \<longleftrightarrow> True"
| "hist_allowed Finalize h c \<longleftrightarrow> True"
| "hist_allowed (Push_transaction t now) h c \<longleftrightarrow> hi_transaction_depth h = 0 \<and> tr_id t < c \<and> tr_id t \<notin> ids (hist_entries h)"
| "hist_allowed (Push_empty g now) h c \<longleftrightarrow> hi_transaction_depth h = 0 \<and> lamport_value c \<noteq> - 1"
| "hist_allowed (Push_undo i) h c \<longleftrightarrow> 0 < hi_transaction_depth h"
| "hist_allowed _ h c \<longleftrightarrow> hi_transaction_depth h = 0"

definition hist_inv :: "History \<Rightarrow> Lamport \<Rightarrow> bool" where
  "hist_inv h c \<longleftrightarrow> tm_invar (hi_operations h) \<and> (0 < hi_transaction_depth h \<longrightarrow> hi_undo_stack h \<noteq> []) \<and>
     distinct_ids h \<and> (\<forall>e \<in> set (hist_entries h). transaction_id e < c)"

lemma hist_inv_new: "hist_inv (History_new base) c"
  by (simp add: hist_inv_def History_new_def distinct_ids_def hist_entries_def tm_new_ok)

lemma tick_less: "lamport_value c \<noteq> - 1 \<Longrightarrow> c < snd (tick c)"
  using unat_Suc_less [of "lamport_value c"] by (simp add: tick_def less_Lamport_iff word_less_nat_alt)

text \<open>Changes of the stacks that keep the invariant.\<close>

lemma hist_inv_entries:
  assumes "hist_inv h c" "c \<le> c'" "hi_operations h' = hi_operations h" "0 < hi_transaction_depth h' \<Longrightarrow> hi_undo_stack h' \<noteq> []"
    and "mset (map transaction_id (hist_entries h')) \<subseteq># mset (map transaction_id (hist_entries h))"
  shows "hist_inv h' c'"
proof -
  have sub: "set (map transaction_id (hist_entries h')) \<subseteq> set (map transaction_id (hist_entries h))"
    using set_mset_mono [OF assms(5)] by (simp only: set_mset_mset)
  obtain rest where "mset (map transaction_id (hist_entries h)) = mset (map transaction_id (hist_entries h') @ rest)"
    using assms(5) by (metis mset_subset_eq_exists_conv ex_mset mset_append)
  then have "distinct_ids h'" using assms(1) mset_eq_imp_distinct_iff by (fastforce simp: distinct_ids_def hist_inv_def)
  moreover have "transaction_id e < c'" if "e \<in> set (hist_entries h')" for e
  proof -
    have "transaction_id e \<in> ids (hist_entries h)" using sub that by auto
    then have "transaction_id e < c" using assms(1) unfolding hist_inv_def in_ids by auto
    then show ?thesis using assms(2) by (rule less_le_trans)
  qed
  ultimately show ?thesis using assms by (simp add: hist_inv_def)
qed

text \<open>A new entry on the undo stack.\<close>

lemma hist_inv_new_entry:
  assumes "hist_inv h c" "tr_id t \<notin> ids (hist_entries h)" "tr_id t < c'" "c \<le> c'"
    and "hi_operations h' = hi_operations h" "hi_redo_stack h' = hi_redo_stack h" "hi_undo_stack h' = hi_undo_stack h @ [new_entry t now]"
  shows "hist_inv h' c'"
  using assms less_le_trans [OF _ assms(4)] by (auto simp: hist_inv_def hist_entries_def distinct_ids_def)

lemma fresh_clock: "hist_inv h c \<Longrightarrow> c \<notin> ids (hist_entries h)"
  by (auto simp: hist_inv_def)

lemma last_entry: "xs \<noteq> [] \<Longrightarrow> \<exists>ys e. xs = ys @ [e]"
  by (metis append_butlast_last_id)

lemma forget_ok:
  assumes "hist_inv h c" "hi_transaction_depth h = 0"
  shows "\<exists>h' r. forget h t = Some (h', r) \<and> hist_inv h' c \<and> hi_transaction_depth h' = 0 \<and> hi_operations h' = hi_operations h \<and>
    (case r of None \<Rightarrow> h' = h \<and> t \<notin> ids (hist_entries h)
     | Some tr \<Rightarrow> \<exists>e. mset (hist_entries h) = add_mset e (mset (hist_entries h')) \<and> transaction_id e = t \<and> he_transaction e = tr)"
proof (cases t "hi_undo_stack h" rule: rposition_cases)
  case (present xs e ys)
  let ?h = "h\<lparr>hi_undo_stack := xs @ ys\<rparr>"
  have "hist_inv ?h c" by (rule hist_inv_entries [OF assms(1)]) (simp_all add: present hist_entries_def assms(2))
  then show ?thesis using present assms(2) by (auto simp: forget_def hist_entries_def)
next
  case absent
  show ?thesis
  proof (cases t "hi_redo_stack h" rule: rposition_cases)
    case (present xs e ys)
    let ?h = "h\<lparr>hi_redo_stack := xs @ ys\<rparr>"
    have "hist_inv ?h c" by (rule hist_inv_entries [OF assms(1)]) (simp_all add: present hist_entries_def assms(2))
    then show ?thesis using present absent(1) assms(2) by (auto simp: forget_def hist_entries_def)
  next
    case r: absent
    then show ?thesis using absent assms by (simp add: forget_def hist_entries_def image_Un)
  qed
qed

lemma transaction_mut_ok:
  assumes "hist_inv h c" "hi_transaction_depth h = 0" "\<And>x. tr_id (f x) = tr_id x"
  shows "hist_inv (transaction_mut h t f) c \<and> hi_transaction_depth (transaction_mut h t f) = 0"
proof (cases t "hi_undo_stack h" rule: rposition_cases)
  case (present xs e ys)
  then show ?thesis using assms
    by (auto intro!: hist_inv_entries [OF assms(1)] simp: transaction_mut_def hist_entries_def transaction_id_def)
next
  case absent
  then show ?thesis
    using assms by (cases t "hi_redo_stack h" rule: rposition_cases)
      (auto intro!: hist_inv_entries [OF assms(1)] simp: transaction_mut_def hist_entries_def transaction_id_def)
qed

lemma stack_moves_ok:
  assumes "hist_inv h c" "hi_transaction_depth h = 0"
  shows "\<exists>h' r. pop_undo h = Some (h', r) \<and> hist_inv h' c"
    and "\<exists>h' r. pop_redo h = Some (h', r) \<and> hist_inv h' c"
    and "\<exists>h' r. remove_from_undo h t = Some (h', r) \<and> hist_inv h' c"
    and "\<exists>h' r. remove_from_undo_until h t = Some (h', r) \<and> hist_inv h' c"
    and "\<exists>h' r. remove_from_redo h t = Some (h', r) \<and> hist_inv h' c"
proof -
  note keep = hist_inv_entries [OF assms(1) order_refl]
  show "\<exists>h' r. pop_undo h = Some (h', r) \<and> hist_inv h' c"
    using assms by (cases "hi_undo_stack h" rule: rev_cases) (auto intro!: keep simp: pop_undo_def hist_entries_def)
  show "\<exists>h' r. pop_redo h = Some (h', r) \<and> hist_inv h' c"
    using assms by (cases "hi_redo_stack h" rule: rev_cases) (auto intro!: keep simp: pop_redo_def hist_entries_def)
  show "\<exists>h' r. remove_from_undo h t = Some (h', r) \<and> hist_inv h' c"
    using assms by (cases t "hi_undo_stack h" rule: rposition_cases) (auto intro!: keep simp: remove_from_undo_def hist_entries_def)
  show "\<exists>h' r. remove_from_undo_until h t = Some (h', r) \<and> hist_inv h' c"
    using assms by (cases t "hi_undo_stack h" rule: rposition_cases) (auto intro!: keep simp: remove_from_undo_until_def hist_entries_def)
  show "\<exists>h' r. remove_from_redo h t = Some (h', r) \<and> hist_inv h' c"
    using assms by (cases t "hi_redo_stack h" rule: rposition_cases) (auto intro!: keep simp: remove_from_redo_def hist_entries_def)
qed

lemma undo_writes_ok:
  assumes "hist_inv h c"
  shows "0 < hi_transaction_depth h \<Longrightarrow> \<exists>h' r. end_transaction h now = Some (h', r) \<and> hist_inv h' c"
    and "0 < hi_transaction_depth h \<Longrightarrow> \<exists>h'. push_undo h i = Some h' \<and> hist_inv h' c"
    and "hist_inv (fst (finalize_last_transaction h)) c"
    and "\<exists>h' r. hist_group h = Some (h', r) \<and> hist_inv h' c"
    and "\<exists>h'. group_until h t = Some h' \<and> hist_inv h' c"
proof -
  note keep = hist_inv_entries [OF assms order_refl]
  have stack: "hi_undo_stack h \<noteq> []" if "0 < hi_transaction_depth h" using assms that by (simp add: hist_inv_def)
  show "\<exists>h' r. end_transaction h now = Some (h', r) \<and> hist_inv h' c" if "0 < hi_transaction_depth h"
    using that last_entry [OF stack [OF that]] by (auto intro!: keep simp: end_transaction_def Let_def hist_entries_def)
  show "\<exists>h'. push_undo h i = Some h' \<and> hist_inv h' c" if "0 < hi_transaction_depth h"
    using that assms last_entry [OF stack [OF that]]
    by (auto intro!: keep simp: push_undo_def hist_entries_def split: option.split Operation.split)
  show "hist_inv (fst (finalize_last_transaction h)) c"
    using assms by (cases "hi_undo_stack h" rule: rev_cases) (auto intro!: keep simp: finalize_last_transaction_def Let_def hist_entries_def)
  show "\<exists>h' r. hist_group h = Some (h', r) \<and> hist_inv h' c"
  proof (cases "hi_undo_stack h = []")
    case True
    then have "hist_group h = Some (h, None)" by (simp add: hist_group_def group_trailing_def)
    then show ?thesis using assms by simp
  next
    case False
    then show ?thesis using hist_group_split [OF False] by (auto intro!: keep simp: hist_entries_def)
  qed
  show "\<exists>h'. group_until h t = Some h' \<and> hist_inv h' c"
    using group_until_cases [of h t] assms by (auto intro!: keep simp: hist_entries_def)
qed

lemma hist_step_ok:
  assumes "hist_inv h c" "hist_allowed ev h c"
  shows "\<exists>h' c'. hist_apply ev h c = Some (h', c') \<and> hist_inv h' c' \<and> c \<le> c'"
proof (cases ev)
  case (Push op)
  obtain m' where "tm_insert (hi_operations h) (operation_timestamp op) op = Some m'" "tm_invar m'"
    using tm_insert_ok [of "hi_operations h" "operation_timestamp op" op] assms Push by (auto simp: hist_inv_def)
  then show ?thesis using assms(1) by (simp add: Push hist_push_def hist_inv_def distinct_ids_def hist_entries_def)
next
  case (Start g now)
  show ?thesis
  proof (cases "hi_transaction_depth h = 0")
    case True
    then have "c < snd (tick c)" using assms(2) tick_less Start by simp
    then show ?thesis
      using hist_inv_new_entry [OF assms(1), of "\<lparr>tr_id = c, tr_edit_ids = [], tr_start = g\<rparr>" "snd (tick c)"] fresh_clock [OF assms(1)] True
      by (simp add: Start start_transaction_def Let_def tick_def)
  next
    case False
    have "hist_inv (h\<lparr>hi_transaction_depth := hi_transaction_depth h + 1\<rparr>) c"
      using assms(1) False by (auto simp: hist_inv_def distinct_ids_def hist_entries_def)
    then show ?thesis using False by (simp add: Start start_transaction_def Let_def)
  qed
next
  case (Push_transaction t now)
  then show ?thesis
    using assms hist_inv_new_entry [OF assms(1), of t c] by (auto simp: push_transaction_def)
next
  case (Push_empty g now)
  then have "c < snd (tick c)" using assms(2) tick_less by simp
  then show ?thesis
    using hist_inv_new_entry [OF assms(1), of "\<lparr>tr_id = c, tr_edit_ids = [], tr_start = g\<rparr>" "snd (tick c)"] fresh_clock [OF assms(1)] assms(2)
    by (auto simp: Push_empty push_empty_transaction_def Let_def tick_def)
next
  case (Merge t t')
  obtain h1 r where f: "forget h t = Some (h1, r)" "hist_inv h1 c" "hi_transaction_depth h1 = 0"
    using forget_ok [OF assms(1), of t] assms(2) Merge by auto
  then show ?thesis using transaction_mut_ok [OF f(2,3)] by (auto simp: Merge merge_transactions_def split: option.split)
next
  case (Forget t)
  then show ?thesis using forget_ok [OF assms(1), of t] assms(2) by auto
qed (use assms undo_writes_ok [OF assms(1)] stack_moves_ok [OF assms(1)] in \<open>auto\<close>)

lemma same_stack: "hi_undo_stack h = u \<Longrightarrow> h\<lparr>hi_undo_stack := u\<rparr> = h" "hi_redo_stack h = r \<Longrightarrow> h\<lparr>hi_redo_stack := r\<rparr> = h"
  by (cases h; simp)+

section \<open>Merging\<close>

lemma transaction_mut_entries:
  assumes "t \<in> ids (hist_entries h)"
  shows "\<exists>xs e ys. hist_entries h = xs @ e # ys \<and> transaction_id e = t \<and>
    hist_entries (transaction_mut h t f) = xs @ e\<lparr>he_transaction := f (he_transaction e)\<rparr> # ys"
proof (cases t "hi_undo_stack h" rule: rposition_cases)
  case (present xs e ys)
  then show ?thesis
    by (intro exI [of _ xs] exI [of _ e] exI [of _ "ys @ hi_redo_stack h"]) (simp add: transaction_mut_def hist_entries_def)
next
  case undo: absent
  show ?thesis
  proof (cases t "hi_redo_stack h" rule: rposition_cases)
    case (present xs e ys)
    then show ?thesis using undo
      by (intro exI [of _ "hi_undo_stack h @ xs"] exI [of _ e] exI [of _ ys]) (simp add: transaction_mut_def hist_entries_def)
  next
    case absent
    then show ?thesis using undo assms by (simp add: hist_entries_def image_Un)
  qed
qed

text \<open>A history as a map from transactions to their contents.\<close>

lemma hist_transaction_mset:
  assumes "distinct_ids h"
  shows "hist_transaction h t = Some tr \<longleftrightarrow> (\<exists>e \<in># mset (hist_entries h). transaction_id e = t \<and> he_transaction e = tr)"
  using hist_transaction_entry [OF assms] by simp

lemma merge_transactions_ok:
  assumes inv: "hist_inv h c" "hi_transaction_depth h = 0"
    and S: "hist_transaction h s = Some S" and D: "hist_transaction h d = Some D" and "s \<noteq> d"
  shows "\<exists>h'. merge_transactions h s d = Some h' \<and> hist_inv h' c \<and> hist_transaction h' s = None \<and> hist_transaction h' d = Some (merge_in D S) \<and>
    (\<forall>t. t \<noteq> s \<longrightarrow> t \<noteq> d \<longrightarrow> hist_transaction h' t = hist_transaction h t) \<and> hist_edits h' = hist_edits h"
proof -
  have dist: "distinct_ids h" using inv by (simp add: hist_inv_def)
  obtain h1 r where f: "forget h s = Some (h1, r)" "hist_inv h1 c" "hi_transaction_depth h1 = 0"
    and r: "case r of None \<Rightarrow> h1 = h \<and> s \<notin> ids (hist_entries h)
      | Some tr \<Rightarrow> \<exists>e. mset (hist_entries h) = add_mset e (mset (hist_entries h1)) \<and> transaction_id e = s \<and> he_transaction e = tr"
    using forget_ok [OF inv, of s] by auto
  have "s \<in> ids (hist_entries h)" using S hist_transaction_entry [OF dist] by auto
  then obtain se where se: "mset (hist_entries h) = add_mset se (mset (hist_entries h1))" "transaction_id se = s" "r = Some (he_transaction se)"
    using r by (auto split: option.splits)
  have "se \<in> set (hist_entries h)" using se(1) by (metis set_mset_mset union_single_eq_member)
  then have S': "he_transaction se = S" using hist_transaction_entry [OF dist, of s "he_transaction se"] S se(2) by auto
  let ?f = "\<lambda>x. x\<lparr>tr_edit_ids := tr_edit_ids x @ tr_edit_ids S\<rparr>"
  let ?h = "transaction_mut h1 d ?f"
  have m: "merge_transactions h s d = Some ?h" by (simp add: merge_transactions_def f(1) se(3) S')
  have inv': "hist_inv ?h c" using transaction_mut_ok [OF f(2,3), of ?f d] by simp
  then have dist': "distinct_ids ?h" "distinct_ids h1" using f(2) by (simp_all add: hist_inv_def)
  obtain e where e: "e \<in> set (hist_entries h)" "transaction_id e = d" "he_transaction e = D"
    using D hist_transaction_entry [OF dist] by auto
  then have "e \<in> set (hist_entries h1)" using se(1,2) assms(5) by (metis insert_iff set_mset_add_mset_insert set_mset_mset)
  then obtain xs de ys where u: "hist_entries h1 = xs @ de # ys" "transaction_id de = d"
      "hist_entries ?h = xs @ de\<lparr>he_transaction := ?f (he_transaction de)\<rparr> # ys"
    using transaction_mut_entries [of d h1 ?f] e(2) by auto
  have ms: "mset (hist_entries h) = mset (xs @ ys) + {#se, de#}" using se(1) u(1) by simp
  have "de \<in> set (hist_entries h)" using ms by (metis mset_eq_setD set_mset_mset union_iff insert_iff set_mset_add_mset_insert)
  then have de: "he_transaction de = D" using hist_transaction_entry [OF dist, of d "he_transaction de"] D u(2) by auto
  let ?de = "de\<lparr>he_transaction := ?f (he_transaction de)\<rparr>"
  have ids: "transaction_id ?de = d" "he_transaction ?de = merge_in D S" using u(2) de by (simp_all add: transaction_id_def merge_in_def)
  have look: "hist_transaction h t = Some tr \<longleftrightarrow> (\<exists>e \<in> set (xs @ ys). transaction_id e = t \<and> he_transaction e = tr) \<or> t = s \<and> tr = S \<or> t = d \<and> tr = D" for t tr
    using hist_transaction_mset [OF dist, of t tr] se(2) u(2) S' de unfolding ms by auto
  have look': "hist_transaction ?h t = Some tr \<longleftrightarrow> (\<exists>e \<in> set (xs @ ys). transaction_id e = t \<and> he_transaction e = tr) \<or> t = d \<and> tr = merge_in D S" for t tr
    using hist_transaction_entry [OF dist'(1), of t tr] ids unfolding u(3) by auto
  have "distinct (map transaction_id (hist_entries h1 @ [se]))"
  proof -
    have "mset (map transaction_id (hist_entries h1 @ [se])) = mset (map transaction_id (hist_entries h))" using se(1) by simp
    then show ?thesis using dist mset_eq_imp_distinct_iff unfolding distinct_ids_def by blast
  qed
  then have "s \<notin> ids (xs @ ys)" using se(2) u(1) by (simp add: image_Un)
  then have none: "\<not> (\<exists>e \<in> set (xs @ ys). transaction_id e = s)" unfolding in_ids .
  have "hist_transaction ?h s \<noteq> Some tr" for tr unfolding look' using none assms(5) by blast
  then have "hist_transaction ?h s = None" unfolding not_Some_eq [symmetric] by blast
  moreover have "hist_transaction ?h d = Some (merge_in D S)" unfolding look' by blast
  moreover have "hist_transaction ?h t = hist_transaction h t" if "t \<noteq> s" "t \<noteq> d" for t
  proof -
    have same: "hist_transaction ?h t = Some tr \<longleftrightarrow> hist_transaction h t = Some tr" for tr unfolding look look' using that by blast
    show ?thesis by (rule option_eqI) (rule same)
  qed
  moreover have "hist_edits ?h = hist_edits h"
  proof -
    have edits: "hist_edits g = (\<Sum>e \<in># mset (hist_entries g). mset (edit_ids e))" for g
      by (simp add: hist_edits_def mset_concat comp_def sum_mset_sum_list [symmetric])
    have "mset (hist_entries ?h) = mset (xs @ ys) + {#?de#}" unfolding u(3) by simp
    moreover have "mset (edit_ids ?de) = mset (edit_ids se) + mset (edit_ids de)" using S' by simp
    ultimately show ?thesis unfolding edits ms by (simp del: mset_append)
  qed
  ultimately show ?thesis using m inv' by blast
qed

section \<open>Properties\<close>

text \<open>(C39) The history never fails: in every state reached from a new one by allowed operations (no open
  transaction when the stacks are moved, one open when it is ended or written to) the operation
  finds what it unwraps, and the ids of all transactions on the two stacks stay different and
  behind the clock.\<close>

theorem history_step_safe:
  assumes "hist_inv h c" "hist_allowed ev h c"
  shows "hist_inv (History_new base) clock \<and>
    (\<exists>h' c'. hist_apply ev h c = Some (h', c') \<and> hist_inv h' c' \<and> c \<le> c')"
  using hist_step_ok [OF assms] hist_inv_new by blast

theorem history_step_safe_witness:
  "\<exists>h' c'. hist_apply (Start Global_new 5) (History_new Rope_new) (Lamport 1 0) = Some (h', c') \<and> hist_inv h' c' \<and> Lamport 1 0 \<le> c'"
proof -
  have "hist_inv (History_new Rope_new) (Lamport 1 0)" by (rule hist_inv_new)
  moreover have "hist_allowed (Start Global_new 5) (History_new Rope_new) (Lamport 1 0)" by simp
  ultimately show ?thesis using history_step_safe by blast
qed

text \<open>Redoing undoes undoing: popping an entry off the undo stack and then off the redo stack restores
  the history; undoing to a transaction moves it and all later ones, the latest first, to the redo
  stack, and redoing to the latest of them brings exactly those back in the original order.\<close>

lemma history_undo_redo:
  assumes "hist_inv h c" "hi_transaction_depth h = 0" "hi_undo_stack h = xs @ e # ys"
  shows "(\<exists>h'. pop_undo h = Some (h', Some (last (e # ys))) \<and> pop_redo h' = Some (h, Some (last (e # ys)))) \<and>
    (\<exists>h'. remove_from_undo_until h (transaction_id e) = Some (h', rev (e # ys)) \<and>
      hi_undo_stack h' = xs \<and> hi_redo_stack h' = hi_redo_stack h @ rev (e # ys) \<and>
      remove_from_redo h' (transaction_id (last (e # ys))) = Some (h, e # ys))"
proof -
  have dist: "distinct (map transaction_id (xs @ e # ys))" "transaction_id e \<notin> ids ys"
    using assms by (auto simp: hist_inv_def distinct_ids_def hist_entries_def)
  obtain zs l where l: "e # ys = zs @ [l]" using last_entry [of "e # ys"] by auto
  then have "distinct (map transaction_id (zs @ [l]))" using dist(1) by auto
  then have "transaction_id l \<notin> ids (rev zs)" by simp
  then have redo: "rposition (transaction_id l) (hi_redo_stack h @ l # rev zs) = Some (length (hi_redo_stack h))"
    by (rule rposition_found [OF refl])
  have rev: "rev (e # ys) = l # rev zs" and undo: "hi_undo_stack h = (xs @ zs) @ [l]" using l assms(3) by simp_all
  have "\<exists>h'. pop_undo h = Some (h', Some l) \<and> pop_redo h' = Some (h, Some l)"
    using assms(2) by (simp add: pop_undo_def pop_redo_def undo butlast_append same_stack)
  moreover have "remove_from_undo_until h (transaction_id e) = Some (h\<lparr>hi_redo_stack := hi_redo_stack h @ l # rev zs, hi_undo_stack := xs\<rparr>, l # rev zs)"
    using rposition_found [OF refl dist(2), of xs] assms(2,3) by (simp add: remove_from_undo_until_def rev [simplified])
  moreover have "remove_from_redo (h\<lparr>hi_redo_stack := hi_redo_stack h @ l # rev zs, hi_undo_stack := xs\<rparr>) (transaction_id l) = Some (h, zs @ [l])"
    using redo assms(2) undo by (simp add: remove_from_redo_def same_stack)
  ultimately show ?thesis unfolding l last_snoc by (simp add: rev_append)
qed

text \<open>Grouping merges exactly the longest run of entries at the end of the undo stack whose gaps are
  shorter than the interval and not suppressed, keeping the id and the start of the first one, the
  end of the last one and all edits in order; grouping until a transaction merges what follows it.\<close>

lemma history_grouping:
  assumes "hi_undo_stack h \<noteq> []"
  shows "(\<exists>xs e ys g h'. hi_undo_stack h = xs @ e # ys \<and> hist_group h = Some (h', Some (transaction_id e)) \<and>
      hi_undo_stack h' = xs @ [g] \<and> hi_redo_stack h' = hi_redo_stack h \<and> hist_edits h' = hist_edits h \<and>
      transaction_id g = transaction_id e \<and> edit_ids g = edit_ids e @ concat (map edit_ids ys) \<and>
      he_first_edit_at g = he_first_edit_at e \<and> he_last_edit_at g = he_last_edit_at (last (e # ys)) \<and>
      successively (grouped (hi_group_interval h)) (e # ys) \<and> (xs \<noteq> [] \<longrightarrow> \<not> grouped (hi_group_interval h) (last xs) e)) \<and>
    (\<exists>h'. group_until h t = Some h' \<and> hist_edits h' = hist_edits h \<and> (h' = h \<or>
      (\<exists>xs e ys. hi_undo_stack h = xs @ e # ys \<and> transaction_id e = t \<and> hi_undo_stack h' = xs @ [merge_entries e ys])))"
proof (rule conjI)
  obtain xs e ys where s: "hi_undo_stack h = xs @ e # ys" "successively (grouped (hi_group_interval h)) (e # ys)"
      "xs \<noteq> [] \<longrightarrow> \<not> grouped (hi_group_interval h) (last xs) e"
      "hist_group h = Some (h\<lparr>hi_undo_stack := xs @ [merge_entries e ys]\<rparr>, Some (transaction_id e))"
    using hist_group_split [OF assms] by blast
  have same: "hist_edits (h\<lparr>hi_undo_stack := xs @ [merge_entries e ys]\<rparr>) = hist_edits h" if "hi_undo_stack h = xs @ e # ys" for xs e ys
    by (simp add: hist_edits_def hist_entries_def that edits_merge_entries)
  have "he_first_edit_at (merge_entries e ys) = he_first_edit_at e" "he_last_edit_at (merge_entries e ys) = he_last_edit_at (last (e # ys))"
    by (simp_all add: merge_entries_def Let_def)
  then show "\<exists>xs e ys g h'. hi_undo_stack h = xs @ e # ys \<and> hist_group h = Some (h', Some (transaction_id e)) \<and>
      hi_undo_stack h' = xs @ [g] \<and> hi_redo_stack h' = hi_redo_stack h \<and> hist_edits h' = hist_edits h \<and>
      transaction_id g = transaction_id e \<and> edit_ids g = edit_ids e @ concat (map edit_ids ys) \<and>
      he_first_edit_at g = he_first_edit_at e \<and> he_last_edit_at g = he_last_edit_at (last (e # ys)) \<and>
      successively (grouped (hi_group_interval h)) (e # ys) \<and> (xs \<noteq> [] \<longrightarrow> \<not> grouped (hi_group_interval h) (last xs) e)"
    using s same [OF s(1)]
    by (intro exI [of _ xs] exI [of _ e] exI [of _ ys] exI [of _ "merge_entries e ys"] exI [of _ "h\<lparr>hi_undo_stack := xs @ [merge_entries e ys]\<rparr>"])
      (simp add: edits_merge_entries)
  show "\<exists>h'. group_until h t = Some h' \<and> hist_edits h' = hist_edits h \<and> (h' = h \<or>
      (\<exists>xs e ys. hi_undo_stack h = xs @ e # ys \<and> transaction_id e = t \<and> hi_undo_stack h' = xs @ [merge_entries e ys]))"
    using group_until_cases [of h t] same by fastforce
qed

text \<open>Merging a transaction into another one removes it from the history, appends its edits to those of
  the destination, leaves all other transactions alone and loses no edit.\<close>

lemma history_merge:
  assumes "hist_inv h c" "hi_transaction_depth h = 0"
    and "hist_transaction h s = Some S" "hist_transaction h d = Some D" "s \<noteq> d"
  shows "\<exists>h'. merge_transactions h s d = Some h' \<and> hist_transaction h' s = None \<and> hist_transaction h' d = Some (merge_in D S) \<and>
    (\<forall>t. t \<noteq> s \<longrightarrow> t \<noteq> d \<longrightarrow> hist_transaction h' t = hist_transaction h t) \<and> hist_edits h' = hist_edits h"
  using merge_transactions_ok [OF assms] by blast

end
