(* ===== verification/Text_Undo.thy ===== *)
theory Text_Undo
  imports Text_History
begin

text \<open>
  The undo map of a buffer (\<open>crates/text/src/undo_map.rs\<close>): a keyed tree from pairs of an edit and an
  undo operation to the count which that operation gives to the edit.  An edit is undone when the
  largest count is odd.
\<close>

section \<open>The source\<close>

datatype UndoMapKey = UndoMapKey (uk_edit_id: Lamport) (uk_undo_id: Lamport)

text \<open>The derived lexicographic order.\<close>

instantiation UndoMapKey :: linorder
begin

definition less_UndoMapKey :: "UndoMapKey \<Rightarrow> UndoMapKey \<Rightarrow> bool" where
  "less_UndoMapKey a b \<longleftrightarrow> uk_edit_id a < uk_edit_id b \<or> uk_edit_id a = uk_edit_id b \<and> uk_undo_id a < uk_undo_id b"

definition less_eq_UndoMapKey :: "UndoMapKey \<Rightarrow> UndoMapKey \<Rightarrow> bool" where
  "less_eq_UndoMapKey a b \<longleftrightarrow> uk_edit_id a < uk_edit_id b \<or> uk_edit_id a = uk_edit_id b \<and> uk_undo_id a \<le> uk_undo_id b"

instance
  by standard (auto simp: less_UndoMapKey_def less_eq_UndoMapKey_def UndoMapKey.expand)

end

record UndoMapEntry =
  ue_key :: UndoMapKey
  ue_undo_count :: "32 word"

definition UndoMapKey_zero :: UndoMapKey where
  "UndoMapKey_zero = UndoMapKey Lamport_MIN Lamport_MIN"

definition undo_ops :: "(UndoMapEntry, UndoMapKey) summary_ops" where
  "undo_ops = \<lparr>item_summary = ue_key, summary_zero = UndoMapKey_zero, add_summary = max\<rparr>"

definition undo_dim :: "(UndoMapKey, UndoMapKey) dimension_ops" where
  "undo_dim = \<lparr>dim_zero = UndoMapKey_zero, dim_add = max\<rparr>"

type_synonym UndoMap = "(UndoMapEntry, UndoMapKey) Tree"

definition UndoMap_default :: UndoMap where
  "UndoMap_default = new_tree undo_ops"

definition undo_insert :: "UndoMap \<Rightarrow> UndoOperation \<Rightarrow> UndoMap option" where
  "undo_insert m undo =
     (let edits = map (\<lambda>(edit_id, count). Insert \<lparr>ue_key = UndoMapKey edit_id (uo_timestamp undo), ue_undo_count = count\<rparr>) (uo_counts undo)
      in map_option fst (tree_edit undo_ops undo_dim ue_key m edits))"

text \<open>The loop over the entries from the first one of the edit; \<open>observed\<close> is the test of \<open>was_undone\<close>.
  One step more than the entries is enough.\<close>

fun undo_count_loop ::
  "nat \<Rightarrow> (Lamport \<Rightarrow> bool) \<Rightarrow> Lamport \<Rightarrow> (UndoMapEntry, UndoMapKey, UndoMapKey) Cursor \<Rightarrow> 32 word \<Rightarrow> 32 word option" where
  "undo_count_loop 0 observed edit_id cursor undo_count = None"
| "undo_count_loop (Suc n) observed edit_id cursor undo_count = do {
     (cursor', item) \<leftarrow> cursor_iterator_next undo_dim (\<lambda>_. True) cursor;
     (case item of
        None \<Rightarrow> Some undo_count
      | Some entry \<Rightarrow>
          if uk_edit_id (ue_key entry) \<noteq> edit_id then Some undo_count
          else undo_count_loop n observed edit_id cursor'
            (if observed (uk_undo_id (ue_key entry)) then max undo_count (ue_undo_count entry) else undo_count)) }"

definition undo_count_from :: "UndoMap \<Rightarrow> (Lamport \<Rightarrow> bool) \<Rightarrow> Lamport \<Rightarrow> 32 word option" where
  "undo_count_from m observed edit_id = do {
     (cursor, _) \<leftarrow> cursor_seek undo_dim (cursor_new undo_dim m) (cmp (UndoMapKey edit_id Lamport_MIN)) Bias.Left;
     undo_count_loop (Suc (length (flatten m))) observed edit_id cursor 0 }"

definition undo_count :: "UndoMap \<Rightarrow> Lamport \<Rightarrow> 32 word option" where
  "undo_count m edit_id = undo_count_from m (\<lambda>_. True) edit_id"

definition is_undone :: "UndoMap \<Rightarrow> Lamport \<Rightarrow> bool option" where
  "is_undone m edit_id = map_option (\<lambda>n. n mod 2 = 1) (undo_count m edit_id)"

definition was_undone :: "UndoMap \<Rightarrow> Lamport \<Rightarrow> Global \<Rightarrow> bool option" where
  "was_undone m edit_id version = map_option (\<lambda>n. n mod 2 = 1) (undo_count_from m (Global_observed version) edit_id)"

section \<open>The tree and its map\<close>

lemma UndoMapKey_zero_least: "UndoMapKey_zero \<le> k"
  using Lamport_MIN_least [of "uk_edit_id k"] Lamport_MIN_least [of "uk_undo_id k"]
  by (auto simp: UndoMapKey_zero_def less_eq_UndoMapKey_def le_less)

interpretation undo_tree: keyed_tree undo_ops undo_dim ue_key
  by unfold_locales
    (simp_all add: undo_ops_def undo_dim_def max.assoc max_absorb2 UndoMapKey_zero_least)

definition undo_invar :: "UndoMap \<Rightarrow> bool" where
  "undo_invar m \<longleftrightarrow> wf_tree undo_ops m \<and> keys_sorted ue_key (flatten m)"

definition undo_usable :: "UndoMap \<Rightarrow> bool" where
  "undo_usable m \<longleftrightarrow> height m < 16"

text \<open>The counts that the map holds for an edit, by undo operation.\<close>

definition undo_counts :: "UndoMap \<Rightarrow> Lamport \<Rightarrow> Lamport \<Rightarrow> 32 word option" where
  "undo_counts m edit_id undo_id = map_option ue_undo_count (key_map ue_key (flatten m) (UndoMapKey edit_id undo_id))"

definition largest_count :: "(Lamport \<Rightarrow> bool) \<Rightarrow> (Lamport \<Rightarrow> 32 word option) \<Rightarrow> 32 word" where
  "largest_count observed counts = Max (insert 0 {n. \<exists>u. observed u \<and> counts u = Some n})"

lemma undo_default_ok: "undo_invar UndoMap_default" "undo_usable UndoMap_default" "undo_counts UndoMap_default e u = None"
  using undo_tree.wf_new_tree by (auto simp: undo_invar_def undo_usable_def UndoMap_default_def new_tree_def undo_counts_def)

lemma Max_insert_max: "finite S \<Longrightarrow> Max (insert (max a b) S) = Max (insert a (insert b S))" for a b :: "'b::linorder"
  by (cases "S = {}") (simp_all add: max.assoc)

lemma fold_max: "fold (\<lambda>x n. if P x then max n (f x) else n) xs n = Max (insert n (f ` {x \<in> set xs. P x}))"
  for f :: "'a \<Rightarrow> 'b::linorder"
proof (induction xs arbitrary: n)
  case (Cons x xs)
  have "{y \<in> set (x # xs). P y} = (if P x then insert x {y \<in> set xs. P y} else {y \<in> set xs. P y})" by auto
  then show ?case by (simp only: fold_simps Cons.IH if_split) (simp add: Max_insert_max)
qed simp

lemma undo_count_loop_ok:
  assumes "wf_tree undo_ops (c_tree c)" "height (c_tree c) < 16" "cursor_at undo_ops undo_dim c before after" "length after < n"
  shows "undo_count_loop n observed e c k = Some (fold (\<lambda>x n. if observed (uk_undo_id (ue_key x)) then max n (ue_undo_count x) else n)
    (takeWhile (\<lambda>x. uk_edit_id (ue_key x) = e) after) k)"
  using assms
proof (induction after arbitrary: c before n k)
  case Nil
  then show ?case using undo_tree.iterator_step_ok [OF Nil(1-3)] by (cases n) auto
next
  case (Cons x after)
  obtain c' where c': "cursor_iterator_next undo_dim (\<lambda>_. True) c = Some (c', Some x)" "c_tree c' = c_tree c"
      "cursor_at undo_ops undo_dim c' (before @ [x]) after"
    using undo_tree.iterator_step_ok [OF Cons.prems(1-3)] by auto
  obtain n' where n: "n = Suc n'" "length after < n'" using Cons.prems(4) by (cases n) auto
  have "wf_tree undo_ops (c_tree c')" "height (c_tree c') < 16" using Cons.prems c'(2) by simp_all
  note IH = Cons.IH [OF this c'(3) n(2)]
  show ?case by (simp add: n(1) c'(1) IH)
qed

text \<open>The entries of one edit follow each other.\<close>

lemma entries_of_edit:
  "keys_sorted ue_key xs \<Longrightarrow> takeWhile (\<lambda>x. uk_edit_id (ue_key x) = e) (from_key ue_key (UndoMapKey e Lamport_MIN) xs) =
    filter (\<lambda>x. uk_edit_id (ue_key x) = e) xs"
proof (induction xs)
  case (Cons x xs)
  have sorted: "keys_sorted ue_key xs" and later: "\<And>y. y \<in> set xs \<Longrightarrow> ue_key x < ue_key y"
    using Cons.prems by (auto simp: keys_sorted_def)
  have low: "ue_key x < UndoMapKey e Lamport_MIN \<longleftrightarrow> uk_edit_id (ue_key x) < e" for x
    using Lamport_MIN_least [of "uk_undo_id (ue_key x)"] by (auto simp: less_UndoMapKey_def)
  consider "uk_edit_id (ue_key x) < e" | "uk_edit_id (ue_key x) = e" | "e < uk_edit_id (ue_key x)" by (rule linorder_cases)
  then show ?case
  proof cases
    case 1
    then show ?thesis using Cons.IH [OF sorted] unfolding low by simp
  next
    case 2
    have "\<not> uk_edit_id (ue_key y) < e" if "y \<in> set xs" for y using later [OF that] 2 by (auto simp: less_UndoMapKey_def)
    then have "from_key ue_key (UndoMapKey e Lamport_MIN) xs = xs" unfolding low by (cases xs) simp_all
    then show ?thesis using Cons.IH [OF sorted] 2 unfolding low by simp
  next
    case 3
    have "uk_edit_id (ue_key y) \<noteq> e" if "y \<in> set xs" for y using later [OF that] 3 by (auto simp: less_UndoMapKey_def)
    then show ?thesis using 3 unfolding low by (auto simp: filter_empty_conv)
  qed
qed simp

lemma undo_count_from_ok:
  assumes "undo_invar m" "undo_usable m"
  shows "undo_count_from m observed e = Some (largest_count observed (undo_counts m e))"
proof -
  have m: "wf_tree undo_ops m" "height m < 16" "keys_sorted ue_key (flatten m)"
    using assms by (simp_all add: undo_invar_def undo_usable_def)
  have zero: "dim_zero undo_dim \<le> UndoMapKey e Lamport_MIN" by (simp add: undo_dim_def UndoMapKey_zero_least)
  let ?c = "cursor_new undo_dim m" and ?k = "UndoMapKey e Lamport_MIN"
  have tree: "c_tree ?c = m" by (simp add: cursor_new_def)
  obtain c hit where c: "cursor_seek undo_dim ?c (cmp ?k) Bias.Left = Some (c, hit)" "c_tree c = m"
      "cursor_at undo_ops undo_dim c (below ue_key ?k (flatten m)) (from_key ue_key ?k (flatten m))"
    using undo_tree.seek_key_ok [of ?c, OF _ _ _ zero] m unfolding tree by blast
  have len: "length (from_key ue_key ?k (flatten m)) < Suc (length (flatten m))" by (simp add: length_dropWhile_le less_Suc_eq_le)
  let ?es = "filter (\<lambda>x. uk_edit_id (ue_key x) = e) (flatten m)"
  have "undo_count_from m observed e = Some (Max (insert 0 (ue_undo_count ` {x \<in> set ?es. observed (uk_undo_id (ue_key x))})))"
    using undo_count_loop_ok [OF _ _ c(3) len] c(1,2) m(1,2)
    by (simp add: undo_count_from_def entries_of_edit [OF m(3)] fold_max)
  moreover have "ue_undo_count ` {x \<in> set ?es. observed (uk_undo_id (ue_key x))} = {n. \<exists>u. observed u \<and> undo_counts m e u = Some n}"
  proof -
    have mem: "x \<in> set (flatten m) \<and> ue_key x = k \<longleftrightarrow> key_map ue_key (flatten m) k = Some x" for x k
      using key_map_self [OF m(3)] by (auto simp: key_map_def dest!: map_of_SomeD)
    show ?thesis
    proof (intro set_eqI iffI)
      fix n
      assume "n \<in> ue_undo_count ` {x \<in> set ?es. observed (uk_undo_id (ue_key x))}"
      then obtain x where x: "n = ue_undo_count x" "x \<in> set (flatten m)" "uk_edit_id (ue_key x) = e" "observed (uk_undo_id (ue_key x))" by auto
      then have "ue_key x = UndoMapKey e (uk_undo_id (ue_key x))" by (cases "ue_key x") simp
      then show "n \<in> {n. \<exists>u. observed u \<and> undo_counts m e u = Some n}" using x mem by (auto simp: undo_counts_def)
    next
      fix n
      assume "n \<in> {n. \<exists>u. observed u \<and> undo_counts m e u = Some n}"
      then obtain u x where "observed u" "key_map ue_key (flatten m) (UndoMapKey e u) = Some x" "n = ue_undo_count x"
        by (auto simp: undo_counts_def)
      moreover from this have "x \<in> set (flatten m)" "ue_key x = UndoMapKey e u" using mem by blast+
      ultimately show "n \<in> ue_undo_count ` {x \<in> set ?es. observed (uk_undo_id (ue_key x))}" by simp
    qed
  qed
  ultimately show ?thesis by (simp add: largest_count_def)
qed

section \<open>Inserting an undo operation\<close>

lemma apply_inserts:
  assumes "distinct (map fst cs)"
  shows "foldl (\<lambda>m e. apply_edit ue_key e m) m (map (\<lambda>(e, n). Insert \<lparr>ue_key = UndoMapKey e u, ue_undo_count = n\<rparr>) cs) (UndoMapKey e t) =
    (if t = u then case map_of cs e of Some n \<Rightarrow> Some \<lparr>ue_key = UndoMapKey e u, ue_undo_count = n\<rparr> | None \<Rightarrow> m (UndoMapKey e t)
     else m (UndoMapKey e t))"
  using assms
proof (induction cs arbitrary: m)
  case (Cons c cs)
  then have "fst c \<notin> dom (map_of cs)" by (simp add: dom_map_of_conv_image_fst)
  then show ?case using Cons by (cases c) (auto split: option.split)
qed simp

lemma undo_insert_ok:
  assumes "undo_invar m" "undo_usable m" "distinct (map fst (uo_counts undo))"
  shows "\<exists>m'. undo_insert m undo = Some m' \<and> undo_invar m' \<and>
    undo_counts m' e u = (if u = uo_timestamp undo then case map_of (uo_counts undo) e of Some n \<Rightarrow> Some n | None \<Rightarrow> undo_counts m e u
      else undo_counts m e u)"
proof -
  let ?edits = "map (\<lambda>(e, n). Insert \<lparr>ue_key = UndoMapKey e (uo_timestamp undo), ue_undo_count = n\<rparr>) (uo_counts undo)"
  have m: "wf_tree undo_ops m" "height m < 16" "keys_sorted ue_key (flatten m)"
    using assms by (simp_all add: undo_invar_def undo_usable_def)
  have zero: "\<forall>e \<in> set ?edits. dim_zero undo_dim \<le> edit_key ue_key e" by (simp add: undo_dim_def UndoMapKey_zero_least)
  have keys: "map (edit_key ue_key) ?edits = map (\<lambda>e. UndoMapKey e (uo_timestamp undo)) (map fst (uo_counts undo))" by auto
  then have dist: "distinct (map (edit_key ue_key) ?edits)" using assms(3) by (simp add: distinct_map inj_on_def)
  obtain t r where t: "tree_edit undo_ops undo_dim ue_key m ?edits = Some (t, r)" "wf_tree undo_ops t"
      "flatten t = edit_items ue_key (sort_key (edit_key ue_key) ?edits) (flatten m)"
    using undo_tree.tree_edit_ok [OF m zero refl] by blast
  have map: "keys_sorted ue_key (flatten t)"
      "key_map ue_key (flatten t) = foldl (\<lambda>m e. apply_edit ue_key e m) (key_map ue_key (flatten m)) ?edits"
    using edit_items_map [OF m(3) sort_edits_strict [OF dist]] apply_edits_sort [OF dist] t(3) by metis+
  have "undo_insert m undo = Some t" using t(1) by (simp add: undo_insert_def)
  moreover have "undo_invar t" using t(2) map(1) by (simp add: undo_invar_def)
  moreover have "undo_counts t e u = (if u = uo_timestamp undo then case map_of (uo_counts undo) e of Some n \<Rightarrow> Some n | None \<Rightarrow> undo_counts m e u
      else undo_counts m e u)"
    unfolding undo_counts_def map(2) apply_inserts [OF assms(3)] by (simp split: option.split)
  ultimately show ?thesis by blast
qed

lemma undo_counts_unique:
  assumes "undo_invar m" "undo_invar m'" "undo_counts m = undo_counts m'"
  shows "flatten m = flatten m'"
proof (rule keys_sorted_unique)
  show sorted: "keys_sorted ue_key (flatten m)" "keys_sorted ue_key (flatten m')" using assms by (simp_all add: undo_invar_def)
  have entry: "key_map ue_key (flatten n) k = map_option (\<lambda>c. \<lparr>ue_key = k, ue_undo_count = c\<rparr>) (undo_counts n (uk_edit_id k) (uk_undo_id k))" for n k
    by (auto simp: undo_counts_def key_map_def option.map_comp comp_def dest!: map_of_SomeD split: option.split
        intro!: option.expand) (auto simp: map_option_case split: option.split dest!: map_of_SomeD)
  show "key_map ue_key (flatten m) = key_map ue_key (flatten m')" by (rule ext) (simp only: entry assms(3))
qed

section \<open>Properties\<close>

text \<open>(C40) The undo map refines the map from an edit and an undo operation to a count: inserting an
  operation adds its counts, \<open>undo_count\<close> is the largest count of the edit and \<open>was_undone\<close> decides
  by the largest one that the version has observed, so an edit is undone when that is odd.\<close>

theorem undo_map_refines:
  assumes "undo_invar m" "undo_usable m" "distinct (map fst (uo_counts undo))"
  shows "undo_count m e = Some (largest_count (\<lambda>_. True) (undo_counts m e)) \<and>
    is_undone m e = Some (largest_count (\<lambda>_. True) (undo_counts m e) mod 2 = 1) \<and>
    was_undone m e version = Some (largest_count (Global_observed version) (undo_counts m e) mod 2 = 1) \<and>
    (\<exists>m'. undo_insert m undo = Some m' \<and> undo_invar m' \<and>
      undo_counts m' e u = (if u = uo_timestamp undo then case map_of (uo_counts undo) e of Some n \<Rightarrow> Some n | None \<Rightarrow> undo_counts m e u
        else undo_counts m e u))"
  using undo_count_from_ok [OF assms(1,2)] undo_insert_ok [OF assms, of e u]
  by (simp add: undo_count_def is_undone_def was_undone_def)

definition sample_undo :: UndoOperation where
  "sample_undo = \<lparr>uo_timestamp = Lamport 5 1, uo_version = Global_new, uo_counts = [(Lamport 2 0, 1), (Lamport 3 0, 2)]\<rparr>"

theorem undo_map_refines_witness:
  "undo_count UndoMap_default (Lamport 2 0) = Some 0 \<and>
    (\<exists>m'. undo_insert UndoMap_default sample_undo = Some m' \<and> undo_counts m' (Lamport 2 0) (Lamport 5 1) = Some 1)"
proof -
  have "distinct (map fst (uo_counts sample_undo))" by (simp add: sample_undo_def)
  from undo_map_refines [OF undo_default_ok(1,2) this, of "Lamport 2 0" Global_new "Lamport 5 1"]
  show ?thesis by (auto simp: sample_undo_def largest_count_def undo_default_ok)
qed

text \<open>Undo operations of different replicas commute: inserting them in either order leaves the same
  entries in the map.\<close>

lemma undo_map_commutes:
  assumes "undo_invar m" "undo_usable m" "uo_timestamp a \<noteq> uo_timestamp b"
    and "distinct (map fst (uo_counts a))" "distinct (map fst (uo_counts b))"
    and "undo_insert m a = Some ma" "undo_insert m b = Some mb" "undo_usable ma" "undo_usable mb"
  shows "\<exists>mab mba. undo_insert ma b = Some mab \<and> undo_insert mb a = Some mba \<and> flatten mab = flatten mba \<and>
    undo_counts mab = undo_counts mba \<and> (undo_usable mab \<longrightarrow> undo_usable mba \<longrightarrow> undo_count mab e = undo_count mba e)"
proof -
  have inv: "undo_invar ma" "undo_invar mb" using undo_insert_ok [OF assms(1,2)] assms(4-7) by fastforce+
  obtain mab mba where r: "undo_insert ma b = Some mab" "undo_invar mab" "undo_insert mb a = Some mba" "undo_invar mba"
    using undo_insert_ok [OF inv(1) assms(8,5)] undo_insert_ok [OF inv(2) assms(9,4)] by blast
  have "undo_counts mab e u = undo_counts mba e u" for e u
    using undo_insert_ok [OF inv(1) assms(8,5), of e u] undo_insert_ok [OF inv(2) assms(9,4), of e u]
      undo_insert_ok [OF assms(1,2,4), of e u] undo_insert_ok [OF assms(1,2,5), of e u] assms(3,6,7) r(1,3)
    by (auto split: option.splits if_splits)
  then have "undo_counts mab = undo_counts mba" by blast
  moreover from undo_counts_unique [OF r(2,4) this] have "flatten mab = flatten mba" .
  moreover have "undo_count n e = Some (largest_count (\<lambda>_. True) (undo_counts n e))" if "undo_invar n" "undo_usable n" for n
    using undo_count_from_ok [OF that] by (simp add: undo_count_def)
  ultimately show ?thesis using r by metis
qed

end
