(* ===== verification/Text_Fragment.thy ===== *)
theory Text_Fragment
  imports Rope_Cursor Text_Undo Text_Locator
begin

text \<open>
  The fragments of a buffer (\<open>Fragment\<close>, \<open>FragmentSummary\<close>, \<open>InsertionFragment\<close>, \<open>InsertionSlice\<close>,
  \<open>FragmentBuilder\<close> and \<open>RopeBuilder\<close> of \<open>crates/text/src/text.rs\<close>): the runs of inserted text in
  document order, visible or deleted, whose summaries give their dimensions, the index from the
  insertions to the fragments, and the builders with which an edit makes the new fragments and the
  new texts from the old ones.
\<close>

section \<open>The source\<close>

subsection \<open>Fragments\<close>

record Fragment =
  frag_id :: Locator
  frag_timestamp :: Lamport
  frag_insertion_offset :: "32 word"
  frag_len :: "32 word"
  frag_visible :: bool
  frag_deletions :: "Lamport list"
  frag_max_undos :: Global

text \<open>\<open>deletions.iter().all(..)\<close> stops at the first one that fails.\<close>

fun all_deletions :: "(Lamport \<Rightarrow> bool option) \<Rightarrow> Lamport list \<Rightarrow> bool option" where
  "all_deletions P [] = Some True"
| "all_deletions P (d # ds) = do { b \<leftarrow> P d; (if b then all_deletions P ds else Some False) }"

definition frag_is_visible :: "Fragment \<Rightarrow> UndoMap \<Rightarrow> bool option" where
  "frag_is_visible f undos = do {
     undone \<leftarrow> is_undone undos (frag_timestamp f);
     (if undone then Some False else all_deletions (is_undone undos) (frag_deletions f)) }"

definition frag_was_visible :: "Fragment \<Rightarrow> Global \<Rightarrow> UndoMap \<Rightarrow> bool option" where
  "frag_was_visible f version undos = do {
     undone \<leftarrow> (if Global_observed version (frag_timestamp f) then was_undone undos (frag_timestamp f) version else Some True);
     (if undone then Some False
      else all_deletions (\<lambda>d. if \<not> Global_observed version d then Some True else was_undone undos d version) (frag_deletions f)) }"

record FragmentTextSummary =
  ft_visible :: nat
  ft_deleted :: nat

record FragmentSummary =
  fs_text :: FragmentTextSummary
  fs_max_id :: Locator
  fs_max_version :: Global
  fs_min_insertion_version :: Global
  fs_max_insertion_version :: Global

definition fragment_summary :: "Fragment \<Rightarrow> FragmentSummary" where
  "fragment_summary f =
     (let max_version = Global_join (foldl Global_observe (Global_observe Global_new (frag_timestamp f)) (frag_deletions f)) (frag_max_undos f);
          min_insertion_version = Global_observe Global_new (frag_timestamp f);
          len = unat (frag_len f)
      in \<lparr>fs_text = (if frag_visible f then \<lparr>ft_visible = len, ft_deleted = 0\<rparr> else \<lparr>ft_visible = 0, ft_deleted = len\<rparr>),
          fs_max_id = frag_id f, fs_max_version = max_version,
          fs_min_insertion_version = min_insertion_version, fs_max_insertion_version = min_insertion_version\<rparr>)"

definition FragmentSummary_default :: FragmentSummary where
  "FragmentSummary_default = \<lparr>fs_text = \<lparr>ft_visible = 0, ft_deleted = 0\<rparr>, fs_max_id = Locator_min,
     fs_max_version = Global_new, fs_min_insertion_version = Global_new, fs_max_insertion_version = Global_new\<rparr>"

text \<open>\<open>max_id.assign\<close> leaves the other locator (\<open>Locator_assign\<close>).\<close>

definition FragmentSummary_add :: "FragmentSummary \<Rightarrow> FragmentSummary \<Rightarrow> FragmentSummary" where
  "FragmentSummary_add s other =
     \<lparr>fs_text = \<lparr>ft_visible = ft_visible (fs_text s) + ft_visible (fs_text other), ft_deleted = ft_deleted (fs_text s) + ft_deleted (fs_text other)\<rparr>,
      fs_max_id = fs_max_id other,
      fs_max_version = Global_join (fs_max_version s) (fs_max_version other),
      fs_min_insertion_version = Global_meet (fs_min_insertion_version s) (fs_min_insertion_version other),
      fs_max_insertion_version = Global_join (fs_max_insertion_version s) (fs_max_insertion_version other)\<rparr>"

subsection \<open>The index of insertions\<close>

datatype InsertionFragmentKey = InsertionFragmentKey (ik_timestamp: Lamport) (ik_split_offset: "32 word")

text \<open>The derived lexicographic order.\<close>

instantiation InsertionFragmentKey :: linorder
begin

definition less_InsertionFragmentKey :: "InsertionFragmentKey \<Rightarrow> InsertionFragmentKey \<Rightarrow> bool" where
  "less_InsertionFragmentKey a b \<longleftrightarrow>
     ik_timestamp a < ik_timestamp b \<or> ik_timestamp a = ik_timestamp b \<and> ik_split_offset a < ik_split_offset b"

definition less_eq_InsertionFragmentKey :: "InsertionFragmentKey \<Rightarrow> InsertionFragmentKey \<Rightarrow> bool" where
  "less_eq_InsertionFragmentKey a b \<longleftrightarrow>
     ik_timestamp a < ik_timestamp b \<or> ik_timestamp a = ik_timestamp b \<and> ik_split_offset a \<le> ik_split_offset b"

instance
  by standard (auto simp: less_InsertionFragmentKey_def less_eq_InsertionFragmentKey_def InsertionFragmentKey.expand)

end

record InsertionFragment =
  if_timestamp :: Lamport
  if_split_offset :: "32 word"
  if_fragment_id :: Locator

definition InsertionFragment_new :: "Fragment \<Rightarrow> InsertionFragment" where
  "InsertionFragment_new f = \<lparr>if_timestamp = frag_timestamp f, if_split_offset = frag_insertion_offset f, if_fragment_id = frag_id f\<rparr>"

definition insert_new :: "Fragment \<Rightarrow> (InsertionFragment, InsertionFragmentKey) Edit" where
  "insert_new f = Insert (InsertionFragment_new f)"

definition insertion_key :: "InsertionFragment \<Rightarrow> InsertionFragmentKey" where
  "insertion_key i = InsertionFragmentKey (if_timestamp i) (if_split_offset i)"

definition insertion_ops :: "(InsertionFragment, InsertionFragmentKey) summary_ops" where
  "insertion_ops = \<lparr>item_summary = insertion_key, summary_zero = InsertionFragmentKey Lamport_MIN 0, add_summary = (\<lambda>_ s. s)\<rparr>"

definition insertion_dim :: "(InsertionFragmentKey, InsertionFragmentKey) dimension_ops" where
  "insertion_dim = \<lparr>dim_zero = InsertionFragmentKey Lamport_MIN 0, dim_add = (\<lambda>_ s. s)\<rparr>"

subsection \<open>Slices of insertions\<close>

datatype InsertionSlice =
  InsertionSlice (is_edit_id: Lamport) (is_insertion_id: Lamport) (is_start: "32 word") (is_end: "32 word")

definition InsertionSlice_cmp :: "InsertionSlice \<Rightarrow> InsertionSlice \<Rightarrow> Ordering" where
  "InsertionSlice_cmp a b =
     (case cmp (is_edit_id a) (is_edit_id b) of
        Equal \<Rightarrow> (case cmp (is_insertion_id a) (is_insertion_id b) of
            Equal \<Rightarrow> (case cmp (is_start a) (is_start b) of Equal \<Rightarrow> cmp (is_end a) (is_end b) | ord \<Rightarrow> ord)
          | ord \<Rightarrow> ord)
      | ord \<Rightarrow> ord)"

instantiation InsertionSlice :: linorder
begin

definition less_InsertionSlice :: "InsertionSlice \<Rightarrow> InsertionSlice \<Rightarrow> bool" where
  "less_InsertionSlice a b \<longleftrightarrow> InsertionSlice_cmp a b = Less"

definition less_eq_InsertionSlice :: "InsertionSlice \<Rightarrow> InsertionSlice \<Rightarrow> bool" where
  "less_eq_InsertionSlice a b \<longleftrightarrow> InsertionSlice_cmp a b \<noteq> Greater"

instance
  by standard
    (auto simp: less_InsertionSlice_def less_eq_InsertionSlice_def InsertionSlice_cmp_def cmp_def
      InsertionSlice.expand split: if_splits)

end

definition InsertionSlice_from_fragment :: "Lamport \<Rightarrow> Fragment \<Rightarrow> InsertionSlice" where
  "InsertionSlice_from_fragment edit_id f =
     InsertionSlice edit_id (frag_timestamp f) (frag_insertion_offset f) (frag_insertion_offset f + frag_len f)"

section \<open>The algebra of fragment summaries\<close>

lemma meet_entry_assoc: "meet_entry (meet_entry a b) c = meet_entry a (meet_entry b c)"
  by (auto simp: meet_entry_def min_def word_gt_0 split: if_splits)

lemma Global_canonical_assoc:
  assumes "normal g" "normal h" "normal k" "fits g" "fits h" "fits k"
  shows "Global_join (Global_join g h) k = Global_join g (Global_join h k)"
    and "Global_meet (Global_meet g h) k = Global_meet g (Global_meet h k)"
  by (rule Global_ext,
      auto simp: Global_get_join Global_get_meet meet_entry_assoc max.assoc assms
        intro!: normal_Global_join normal_Global_meet fits_Global_updates fits_Global_meet)+

lemma Global_new_left:
  assumes "normal g" "fits g"
  shows "Global_join Global_new g = g" "Global_meet Global_new g = g"
  by (rule Global_ext,
      auto simp: Global_get_join Global_get_meet meet_entry_def assms Global_get_eq [of Global_new] Global_new_def [THEN arg_cong, of vals]
        intro!: normal_Global_join normal_Global_meet fits_Global_updates fits_Global_meet normal_Global_new)+

definition canonical :: "FragmentSummary \<Rightarrow> bool" where
  "canonical s \<longleftrightarrow> list_all (\<lambda>g. normal g \<and> fits g) [fs_max_version s, fs_min_insertion_version s, fs_max_insertion_version s]"

lemma canonical_default: "canonical FragmentSummary_default"
  by (simp add: canonical_def FragmentSummary_default_def normal_Global_new)

lemma canonical_add: "canonical s \<Longrightarrow> canonical other \<Longrightarrow> canonical (FragmentSummary_add s other)"
  by (simp add: canonical_def FragmentSummary_add_def normal_Global_join normal_Global_meet fits_Global_updates fits_Global_meet)

text \<open>The summaries that occur: those whose version vectors are canonical.\<close>

typedef FragmentSum = "{s. canonical s}"
  morphisms fragment_sum Abs_FragmentSum
  using canonical_default by blast

setup_lifting type_definition_FragmentSum

lift_definition FragmentSum_default :: FragmentSum is FragmentSummary_default
  by (rule canonical_default)

lift_definition FragmentSum_add :: "FragmentSum \<Rightarrow> FragmentSum \<Rightarrow> FragmentSum" is FragmentSummary_add
  by (rule canonical_add)

lemma FragmentSum_laws:
  "FragmentSum_add (FragmentSum_add a b) c = FragmentSum_add a (FragmentSum_add b c)"
  "FragmentSum_add FragmentSum_default a = a"
  by (transfer, simp add: canonical_def FragmentSummary_add_def FragmentSummary_default_def Global_canonical_assoc Global_new_left)+

text \<open>The version vectors of a fragment are canonical: its timestamps are observed one by one.\<close>

definition fragment_canonical :: "Fragment \<Rightarrow> bool" where
  "fragment_canonical f \<longleftrightarrow> normal (frag_max_undos f) \<and> fits (frag_max_undos f)"

lemma canonical_fragment: "fragment_canonical f \<Longrightarrow> canonical (fragment_summary f)"
  using foldl_Global_observe [of "Global_observe Global_new (frag_timestamp f)" "frag_deletions f"]
  by (simp add: canonical_def fragment_summary_def fragment_canonical_def Let_def normal_Global_new normal_Global_observe
    normal_Global_join fits_Global_updates)

text \<open>The summary of a fragment, which is canonical for the fragments that occur.\<close>

lift_definition fragment_sum_of :: "Fragment \<Rightarrow> FragmentSum" is
  "\<lambda>f. if canonical (fragment_summary f) then fragment_summary f else FragmentSummary_default"
  by (simp add: canonical_default)

section \<open>The tree of fragments\<close>

definition fragment_ops :: "(Fragment, FragmentSum) summary_ops" where
  "fragment_ops = \<lparr>item_summary = fragment_sum_of, summary_zero = FragmentSum_default,
     add_summary = FragmentSum_add\<rparr>"

type_synonym FragmentTree = "(Fragment, FragmentSum) Tree"

abbreviation sum_text :: "FragmentSum \<Rightarrow> FragmentTextSummary" where
  "sum_text s \<equiv> fs_text (fragment_sum s)"

definition FragmentText_dim :: "(FragmentSum, FragmentTextSummary) dimension_ops" where
  "FragmentText_dim = \<lparr>dim_zero = \<lparr>ft_visible = 0, ft_deleted = 0\<rparr>,
     dim_add = (\<lambda>d s. \<lparr>ft_visible = ft_visible d + ft_visible (sum_text s), ft_deleted = ft_deleted d + ft_deleted (sum_text s)\<rparr>)\<rparr>"

definition visible_dim :: "(FragmentSum, nat) dimension_ops" where
  "visible_dim = \<lparr>dim_zero = 0, dim_add = (\<lambda>d s. d + ft_visible (sum_text s))\<rparr>"

definition FullOffset_dim :: "(FragmentSum, nat) dimension_ops" where
  "FullOffset_dim = \<lparr>dim_zero = 0, dim_add = (\<lambda>d s. d + (ft_visible (sum_text s) + ft_deleted (sum_text s)))\<rparr>"

definition Locator_dim :: "(FragmentSum, Locator option) dimension_ops" where
  "Locator_dim = \<lparr>dim_zero = None, dim_add = (\<lambda>_ s. Some (fs_max_id (fragment_sum s)))\<rparr>"

text \<open>A visible offset as a target for the positions of a cursor over both dimensions.\<close>

definition visible_target :: "nat \<Rightarrow> FragmentTextSummary target" where
  "visible_target k = (\<lambda>p. cmp k (ft_visible p))"

interpretation fragments: summary_algebra fragment_ops
  by unfold_locales (simp_all add: fragment_ops_def FragmentSum_laws)

lemma sum_text_add:
  "sum_text (FragmentSum_add a b) = \<lparr>ft_visible = ft_visible (sum_text a) + ft_visible (sum_text b), ft_deleted = ft_deleted (sum_text a) + ft_deleted (sum_text b)\<rparr>"
  "fs_max_id (fragment_sum (FragmentSum_add a b)) = fs_max_id (fragment_sum b)"
  by (simp_all add: FragmentSum_add.rep_eq FragmentSummary_add_def)

interpretation fragment_text: dimension_algebra fragment_ops FragmentText_dim
  by unfold_locales (simp add: fragment_ops_def FragmentText_dim_def sum_text_add)

interpretation fragment_visible: dimension_algebra fragment_ops visible_dim
  by unfold_locales (simp add: fragment_ops_def visible_dim_def sum_text_add)

interpretation fragment_offset: dimension_algebra fragment_ops FullOffset_dim
  by unfold_locales (simp add: fragment_ops_def FullOffset_dim_def sum_text_add)

interpretation fragment_locator: dimension_algebra fragment_ops Locator_dim
  by unfold_locales (simp add: fragment_ops_def Locator_dim_def sum_text_add)

lemma InsertionFragmentKey_least: "InsertionFragmentKey Lamport_MIN 0 \<le> k"
  using Lamport_MIN_least [of "ik_timestamp k"] by (auto simp: less_eq_InsertionFragmentKey_def le_less word_gt_0)

interpretation insertion_tree: keyed_tree insertion_ops insertion_dim insertion_key
  by unfold_locales (simp_all add: insertion_ops_def insertion_dim_def InsertionFragmentKey_least)

section \<open>The builders\<close>

text \<open>Collecting the items of a tree calls the iterator once more than there are items.\<close>

definition collect_fragments :: "FragmentTree \<Rightarrow> Fragment list option" where
  "collect_fragments t = iter_take (Suc (length (flatten t))) (iter_new t)"

record FragmentBuilder =
  fb_fragments :: "Fragment list"
  fb_summary :: FragmentSum

definition FragmentBuilder_new :: "FragmentTree \<Rightarrow> FragmentBuilder option" where
  "FragmentBuilder_new init = do {
     fs \<leftarrow> collect_fragments init;
     Some \<lparr>fb_fragments = fs, fb_summary = summary init\<rparr> }"

definition fb_append :: "FragmentBuilder \<Rightarrow> FragmentTree \<Rightarrow> FragmentBuilder option" where
  "fb_append b items =
     (if is_empty items then Some b
      else do {
        fs \<leftarrow> collect_fragments items;
        Some (b\<lparr>fb_summary := FragmentSum_add (fb_summary b) (summary items), fb_fragments := fb_fragments b @ fs\<rparr>) })"

definition fb_push :: "FragmentBuilder \<Rightarrow> Fragment \<Rightarrow> FragmentBuilder option" where
  "fb_push b f = do { t \<leftarrow> from_item fragment_ops f; fb_append b t }"

definition fb_to_sum_tree :: "FragmentBuilder \<Rightarrow> FragmentTree option" where
  "fb_to_sum_tree b =
     (if 1024 < length (fb_fragments b) then from_par_iter fragment_ops (fb_fragments b)
      else from_iter fragment_ops (fb_fragments b))"

abbreviation fb_max_id :: "FragmentBuilder \<Rightarrow> Locator" where
  "fb_max_id b \<equiv> fs_max_id (fragment_sum (fb_summary b))"

abbreviation fb_visible :: "FragmentBuilder \<Rightarrow> nat" where
  "fb_visible b \<equiv> ft_visible (sum_text (fb_summary b))"

record RopeBuilder =
  rb_old_visible :: RopeCursor
  rb_old_deleted :: RopeCursor
  rb_new_visible :: Rope
  rb_new_deleted :: Rope

definition RopeBuilder_new :: "RopeCursor \<Rightarrow> RopeCursor \<Rightarrow> RopeBuilder" where
  "RopeBuilder_new old_visible_cursor old_deleted_cursor =
     \<lparr>rb_old_visible = old_visible_cursor, rb_old_deleted = old_deleted_cursor, rb_new_visible = Rope_new, rb_new_deleted = Rope_new\<rparr>"

definition rb_take :: "RopeBuilder \<Rightarrow> nat \<Rightarrow> bool \<Rightarrow> (RopeBuilder \<times> Rope) option" where
  "rb_take b len was_visible =
     (if was_visible then do {
        (c, text) \<leftarrow> rope_cursor_slice (rb_old_visible b) (rc_offset (rb_old_visible b) + len);
        Some (b\<lparr>rb_old_visible := c\<rparr>, text) }
      else do {
        (c, text) \<leftarrow> rope_cursor_slice (rb_old_deleted b) (rc_offset (rb_old_deleted b) + len);
        Some (b\<lparr>rb_old_deleted := c\<rparr>, text) })"

definition rb_push :: "RopeBuilder \<Rightarrow> nat \<Rightarrow> bool \<Rightarrow> bool \<Rightarrow> RopeBuilder option" where
  "rb_push b len was_visible is_visible = do {
     (b, text) \<leftarrow> rb_take b len was_visible;
     (if is_visible then do { r \<leftarrow> rope_append (rb_new_visible b) text; Some (b\<lparr>rb_new_visible := r\<rparr>) }
      else do { r \<leftarrow> rope_append (rb_new_deleted b) text; Some (b\<lparr>rb_new_deleted := r\<rparr>) }) }"

definition rb_append :: "RopeBuilder \<Rightarrow> FragmentTextSummary \<Rightarrow> RopeBuilder option" where
  "rb_append b len = do {
     b \<leftarrow> rb_push b (ft_visible len) True True;
     rb_push b (ft_deleted len) False False }"

definition rb_push_fragment :: "RopeBuilder \<Rightarrow> Fragment \<Rightarrow> bool \<Rightarrow> RopeBuilder option" where
  "rb_push_fragment b f was_visible = rb_push b (unat (frag_len f)) was_visible (frag_visible f)"

definition rb_push_str :: "RopeBuilder \<Rightarrow> ustr \<Rightarrow> RopeBuilder option" where
  "rb_push_str b t = do { r \<leftarrow> rope_push (rb_new_visible b) t; Some (b\<lparr>rb_new_visible := r\<rparr>) }"

definition rb_finish :: "RopeBuilder \<Rightarrow> (Rope \<times> Rope) option" where
  "rb_finish b = do {
     suffix \<leftarrow> rope_cursor_suffix (rb_old_visible b);
     new_visible \<leftarrow> rope_append (rb_new_visible b) suffix;
     suffix \<leftarrow> rope_cursor_suffix (rb_old_deleted b);
     new_deleted \<leftarrow> rope_append (rb_new_deleted b) suffix;
     Some (new_visible, new_deleted) }"

section \<open>Pieces: fragments with their text\<close>

type_synonym Piece = "Fragment \<times> ustr"

definition piece_ok :: "Piece \<Rightarrow> bool" where
  "piece_ok p \<longleftrightarrow> fragment_canonical (fst p) \<and> unat (frag_len (fst p)) = text_len (snd p) \<and> snd p \<noteq> []"

definition vis :: "Piece list \<Rightarrow> ustr" where
  "vis ps = concat (map snd (filter (\<lambda>p. frag_visible (fst p)) ps))"

definition del :: "Piece list \<Rightarrow> ustr" where
  "del ps = concat (map snd (filter (\<lambda>p. \<not> frag_visible (fst p)) ps))"

lemma vis_del_simps [simp]:
  "vis [] = []" "vis (p # ps) = (if frag_visible (fst p) then snd p else []) @ vis ps" "vis (ps @ qs) = vis ps @ vis qs"
  "del [] = []" "del (p # ps) = (if frag_visible (fst p) then [] else snd p) @ del ps" "del (ps @ qs) = del ps @ del qs"
  by (simp_all add: vis_def del_def)

lemma fragment_sum_item:
  assumes "piece_ok p"
  shows "sum_text (item_summary fragment_ops (fst p)) = \<lparr>ft_visible = text_len (vis [p]), ft_deleted = text_len (del [p])\<rparr>"
    "fs_max_id (fragment_sum (item_summary fragment_ops (fst p))) = frag_id (fst p)"
proof -
  have "fragment_sum (item_summary fragment_ops (fst p)) = fragment_summary (fst p)"
    using assms canonical_fragment by (simp add: fragment_ops_def fragment_sum_of.rep_eq piece_ok_def)
  then show "sum_text (item_summary fragment_ops (fst p)) = \<lparr>ft_visible = text_len (vis [p]), ft_deleted = text_len (del [p])\<rparr>"
    "fs_max_id (fragment_sum (item_summary fragment_ops (fst p))) = frag_id (fst p)"
    using assms by (simp_all add: fragment_summary_def Let_def piece_ok_def)
qed

definition last_id :: "Locator \<Rightarrow> Piece list \<Rightarrow> Locator" where
  "last_id l ps = (if ps = [] then l else frag_id (fst (last ps)))"

text \<open>What the summary of a list of pieces says.\<close>

definition sum_ok :: "FragmentSum \<Rightarrow> Piece list \<Rightarrow> bool" where
  "sum_ok s ps \<longleftrightarrow> sum_text s = \<lparr>ft_visible = text_len (vis ps), ft_deleted = text_len (del ps)\<rparr> \<and>
     fs_max_id (fragment_sum s) = last_id Locator_min ps"

lemma sum_ok_add: "sum_ok s ps \<Longrightarrow> sum_ok s' qs \<Longrightarrow> qs \<noteq> [] \<Longrightarrow> sum_ok (FragmentSum_add s s') (ps @ qs)"
  by (simp add: sum_ok_def sum_text_add last_id_def)

lemma sum_ok_items: "\<forall>p \<in> set ps. piece_ok p \<Longrightarrow> sum_ok (items_summary fragment_ops (map fst ps)) ps"
proof (induction ps rule: rev_induct)
  case Nil
  then show ?case
    by (simp add: sum_ok_def items_summary_def sum_summaries_def fragment_ops_def FragmentSum_default.rep_eq FragmentSummary_default_def last_id_def)
next
  case (snoc p ps)
  have "sum_ok (item_summary fragment_ops (fst p)) [p]" using snoc.prems fragment_sum_item [of p] by (simp add: sum_ok_def last_id_def)
  then have "sum_ok (FragmentSum_add (items_summary fragment_ops (map fst ps)) (item_summary fragment_ops (fst p))) (ps @ [p])"
    using snoc by (intro sum_ok_add) auto
  then show ?case by (simp add: items_summary_def sum_summaries_def fragment_ops_def)
qed

subsection \<open>The fragment builder\<close>

definition built :: "FragmentBuilder \<Rightarrow> Piece list \<Rightarrow> bool" where
  "built b ps \<longleftrightarrow> fb_fragments b = map fst ps \<and> sum_ok (fb_summary b) ps \<and> (\<forall>p \<in> set ps. piece_ok p)"

lemma built_sum: "built b ps \<Longrightarrow> fb_visible b = text_len (vis ps) \<and> fb_max_id b = last_id Locator_min ps"
  by (simp add: built_def sum_ok_def)

text \<open>The fragments of a tree with their texts.\<close>

definition tree_pieces :: "FragmentTree \<Rightarrow> Piece list \<Rightarrow> bool" where
  "tree_pieces t ps \<longleftrightarrow> wf_tree fragment_ops t \<and> flatten t = map fst ps \<and> (\<forall>p \<in> set ps. piece_ok p)"

lemma tree_pieces_sum: "tree_pieces t ps \<Longrightarrow> sum_ok (summary t) ps"
  using fragments.wf_summary sum_ok_items by (simp add: tree_pieces_def)

lemma collect_fragments_ok: "tree_pieces t ps \<Longrightarrow> height t < 16 \<Longrightarrow> collect_fragments t = Some (map fst ps)"
  unfolding collect_fragments_def tree_pieces_def by (subst fragments.iter_take_new) simp_all

lemma FragmentBuilder_new_ok:
  "tree_pieces t ps \<Longrightarrow> height t < 16 \<Longrightarrow> \<exists>b. FragmentBuilder_new t = Some b \<and> built b ps"
  using collect_fragments_ok tree_pieces_sum by (auto simp: FragmentBuilder_new_def built_def tree_pieces_def)

lemma fb_append_ok:
  assumes "built b ps" "tree_pieces t qs" "height t < 16"
  shows "\<exists>b'. fb_append b t = Some b' \<and> built b' (ps @ qs)"
proof (cases "is_empty t")
  case True
  then have "qs = []" using assms(2) by (cases t) (auto simp: tree_pieces_def)
  then show ?thesis using True assms(1) by (simp add: fb_append_def)
next
  case False
  then have "qs \<noteq> []" using assms(2) fragments.is_empty_flatten by (auto simp: tree_pieces_def)
  then show ?thesis using False assms collect_fragments_ok [OF assms(2,3)] tree_pieces_sum [OF assms(2)] sum_ok_add
    by (auto simp: fb_append_def built_def tree_pieces_def)
qed

lemma fb_push_ok:
  assumes "built b ps" "piece_ok (f, t)"
  shows "\<exists>b'. fb_push b f = Some b' \<and> built b' (ps @ [(f, t)])"
proof -
  let ?s = "item_summary fragment_ops f"
  have "tree_pieces (Leaf ?s [f] [?s]) [(f, t)]"
    using assms(2) by (simp add: tree_pieces_def TREE_BASE_def fragments.sum_single)
  from fb_append_ok [OF assms(1) this] show ?thesis
    by (simp add: fb_push_def from_item_def push_def append_tree_def new_tree_def Let_def)
qed

lemma fb_to_sum_tree_ok:
  assumes "built b ps"
  shows "\<exists>t. fb_to_sum_tree b = Some t \<and> tree_pieces t ps"
  using assms fragments.from_iter_ok [of "fb_fragments b"] by (auto simp: fb_to_sum_tree_def built_def tree_pieces_def)

subsection \<open>The rope builder\<close>

text \<open>What is left of the old texts, and the new texts so far.\<close>

definition ropes_at :: "RopeBuilder \<Rightarrow> ustr \<Rightarrow> ustr \<Rightarrow> ustr \<Rightarrow> ustr \<Rightarrow> bool" where
  "ropes_at b ov od nv nd \<longleftrightarrow>
     (\<exists>a. rc_at (rb_old_visible b) a ov) \<and> height (rope_chunks (rc_rope (rb_old_visible b))) \<le> 6 \<and>
     (\<exists>a. rc_at (rb_old_deleted b) a od) \<and> height (rope_chunks (rc_rope (rb_old_deleted b))) \<le> 6 \<and>
     rope_ok (rb_new_visible b) \<and> rope_text (rb_new_visible b) = nv \<and> rope_ok (rb_new_deleted b) \<and> rope_text (rb_new_deleted b) = nd"

lemma slice_at:
  assumes "rc_at rc a (t @ b)" "height (rope_chunks (rc_rope rc)) \<le> 6"
  obtains rc' s where "rope_cursor_slice rc (rc_offset rc + text_len t) = Some (rc', s)" "rope_ok s" "rope_text s = t"
    "rc_at rc' (a @ t) b" "rc_rope rc' = rc_rope rc" "height (rope_chunks s) < 16"
proof -
  have "rc_offset rc + text_len t = text_len (a @ t)" using assms(1) by (simp add: rc_at_def)
  then show thesis using rope_cursor_slice_ok [OF assms] that by metis
qed

lemma rb_take_ok:
  assumes "ropes_at b (if was then t @ ov else ov) (if was then od else t @ od) nv nd"
  obtains b' s where "rb_take b (text_len t) was = Some (b', s)" "ropes_at b' ov od nv nd" "rope_ok s" "rope_text s = t" "height (rope_chunks s) < 16"
proof (cases was)
  case True
  then obtain a where a: "rc_at (rb_old_visible b) a (t @ ov)" "height (rope_chunks (rc_rope (rb_old_visible b))) \<le> 6"
    using assms by (auto simp: ropes_at_def)
  show thesis
  proof (rule slice_at [OF a])
    fix rc' s
    assume s: "rope_cursor_slice (rb_old_visible b) (rc_offset (rb_old_visible b) + text_len t) = Some (rc', s)" "rope_ok s" "rope_text s = t"
      "rc_at rc' (a @ t) ov" "rc_rope rc' = rc_rope (rb_old_visible b)" "height (rope_chunks s) < 16"
    have "ropes_at (b\<lparr>rb_old_visible := rc'\<rparr>) ov od nv nd" using assms s True by (auto simp: ropes_at_def)
    then show thesis using that s True by (simp add: rb_take_def)
  qed
next
  case False
  then obtain a where a: "rc_at (rb_old_deleted b) a (t @ od)" "height (rope_chunks (rc_rope (rb_old_deleted b))) \<le> 6"
    using assms by (auto simp: ropes_at_def)
  show thesis
  proof (rule slice_at [OF a])
    fix rc' s
    assume s: "rope_cursor_slice (rb_old_deleted b) (rc_offset (rb_old_deleted b) + text_len t) = Some (rc', s)" "rope_ok s" "rope_text s = t"
      "rc_at rc' (a @ t) od" "rc_rope rc' = rc_rope (rb_old_deleted b)" "height (rope_chunks s) < 16"
    have "ropes_at (b\<lparr>rb_old_deleted := rc'\<rparr>) ov od nv nd" using assms s False by (auto simp: ropes_at_def)
    then show thesis using that s False by (simp add: rb_take_def)
  qed
qed

lemma rb_push_ok:
  assumes "ropes_at b (if was then t @ ov else ov) (if was then od else t @ od) nv nd"
  shows "\<exists>b'. rb_push b (text_len t) was is = Some b' \<and> ropes_at b' ov od (if is then nv @ t else nv) (if is then nd else nd @ t)"
proof (rule rb_take_ok [OF assms])
  fix b' s
  assume b': "rb_take b (text_len t) was = Some (b', s)" "ropes_at b' ov od nv nd" "rope_ok s" "rope_text s = t" "height (rope_chunks s) < 16"
  have "rope_ok (rb_new_visible b')" "rope_ok (rb_new_deleted b')" using b'(2) by (simp_all add: ropes_at_def)
  from rope_append_ok [OF this(1) b'(3,5)] rope_append_ok [OF this(2) b'(3,5)] show ?thesis
    using b' by (auto simp: rb_push_def ropes_at_def)
qed

lemma rb_append_ok:
  assumes "ropes_at b (v @ ov) (d @ od) nv nd" "s = \<lparr>ft_visible = text_len v, ft_deleted = text_len d\<rparr>"
  shows "\<exists>b'. rb_append b s = Some b' \<and> ropes_at b' ov od (nv @ v) (nd @ d)"
proof -
  obtain b1 where b1: "rb_push b (text_len v) True True = Some b1" "ropes_at b1 ov (d @ od) (nv @ v) nd"
    using rb_push_ok [of b True v ov "d @ od" nv nd True] assms(1) by auto
  then show ?thesis using rb_push_ok [of b1 False d ov od "nv @ v" nd False] assms(2) by (auto simp: rb_append_def)
qed

lemma rb_push_fragment_ok:
  assumes "ropes_at b (if was then t @ ov else ov) (if was then od else t @ od) nv nd" "piece_ok (f, t)"
  shows "\<exists>b'. rb_push_fragment b f was = Some b' \<and> ropes_at b' ov od (nv @ vis [(f, t)]) (nd @ del [(f, t)])"
  using rb_push_ok [OF assms(1), of "frag_visible f"] assms(2) by (auto simp: rb_push_fragment_def piece_ok_def split: if_splits)

lemma rb_push_str_ok:
  assumes "ropes_at b ov od nv nd"
  shows "\<exists>b'. rb_push_str b t = Some b' \<and> ropes_at b' ov od (nv @ t) nd"
proof -
  have "rope_ok (rb_new_visible b)" using assms by (simp add: ropes_at_def)
  from rope_push_ok [OF this, of t] show ?thesis using assms by (auto simp: rb_push_str_def ropes_at_def)
qed

lemma rb_finish_ok:
  assumes "ropes_at b ov od nv nd"
  shows "\<exists>v d. rb_finish b = Some (v, d) \<and> rope_ok v \<and> rope_text v = nv @ ov \<and> rope_ok d \<and> rope_text d = nd @ od"
proof -
  have h: "height (rope_chunks (rc_rope (rb_old_visible b))) \<le> 6" "height (rope_chunks (rc_rope (rb_old_deleted b))) \<le> 6"
    and r: "rope_ok (rb_new_visible b)" "rope_ok (rb_new_deleted b)" using assms by (simp_all add: ropes_at_def)
  obtain sv where sv: "rope_cursor_suffix (rb_old_visible b) = Some sv" "rope_ok sv" "rope_text sv = ov" "height (rope_chunks sv) < 16"
    using rope_cursor_suffix_ok [OF h(1)] assms by (auto simp: ropes_at_def)
  obtain sd where sd: "rope_cursor_suffix (rb_old_deleted b) = Some sd" "rope_ok sd" "rope_text sd = od" "height (rope_chunks sd) < 16"
    using rope_cursor_suffix_ok [OF h(2)] assms by (auto simp: ropes_at_def)
  from rope_append_ok [OF r(1) sv(2,4)] rope_append_ok [OF r(2) sd(2,4)] show ?thesis
    using sv sd assms by (auto simp: rb_finish_def ropes_at_def)
qed

lemma RopeBuilder_new_ok:
  assumes "rope_ok v" "height (rope_chunks v) \<le> 6" "rope_ok d" "height (rope_chunks d) \<le> 6"
  shows "\<exists>cv cd. rope_cursor v 0 = Some cv \<and> rope_cursor d 0 = Some cd \<and> ropes_at (RopeBuilder_new cv cd) (rope_text v) (rope_text d) [] []"
proof -
  obtain cv where "rope_cursor v 0 = Some cv" "rc_at cv [] (rope_text v)" "rc_rope cv = v"
    using shallow_cursor [OF assms(1,2), of "[]" "rope_text v"] by auto
  moreover obtain cd where "rope_cursor d 0 = Some cd" "rc_at cd [] (rope_text d)" "rc_rope cd = d"
    using shallow_cursor [OF assms(3,4), of "[]" "rope_text d"] by auto
  ultimately show ?thesis using assms(2,4) Rope_new_ok by (auto simp: RopeBuilder_new_def ropes_at_def)
qed

end
