(* ===== verification/Text_Edit.thy ===== *)
theory Text_Edit
  imports Text_Fragment Text_Patch
begin

text \<open>
  Applying local edits to the fragments of a buffer (\<open>apply_local_edit\<close> and
  \<open>push_fragments_for_insertion\<close> of \<open>crates/text/src/text.rs\<close>): a cursor runs over the old
  fragments and a builder collects the new ones, splitting those at the ends of an edited range,
  inserting the new text and marking the old text deleted, while both texts, the patch for the
  subscribers and the updates of the two indexes are built along.  \<open>None\<close> is a panic.
\<close>

section \<open>The source\<close>

definition MAX_INSERTION_LEN :: nat where
  "MAX_INSERTION_LEN = 2 ^ 32 - 1"

text \<open>The local variables of the loop over the edits.\<close>

record EditState =
  es_old :: "(Fragment, FragmentSum, FragmentTextSummary) Cursor"
  es_new :: FragmentBuilder
  es_ropes :: RopeBuilder
  es_start :: nat
  es_insertion_offset :: "32 word"
  es_insertions :: "(InsertionFragment, InsertionFragmentKey) Edit list"
  es_slices :: "InsertionSlice list"
  es_patch :: Patch
  es_ranges :: "(nat \<times> nat) list"
  es_texts :: "ustr list"

definition start_visible :: "EditState \<Rightarrow> nat" where
  "start_visible st = ft_visible (c_position (es_old st))"

definition start_deleted :: "EditState \<Rightarrow> nat" where
  "start_deleted st = ft_deleted (c_position (es_old st))"

definition end_visible :: "EditState \<Rightarrow> nat option" where
  "end_visible st = map_option ft_visible (cursor_end FragmentText_dim (es_old st))"

definition old_next :: "EditState \<Rightarrow> EditState option" where
  "old_next st = do { c \<leftarrow> cursor_next FragmentText_dim (es_old st); Some (st\<lparr>es_old := c\<rparr>) }"

text \<open>\<open>old_fragments.item().unwrap().clone()\<close>\<close>

definition old_item :: "EditState \<Rightarrow> Fragment option" where
  "old_item st = do { item \<leftarrow> cursor_item (es_old st); item }"

text \<open>The part of the current fragment from \<open>fragment_start\<close> to an offset.\<close>

definition fragment_part :: "EditState \<Rightarrow> Fragment \<Rightarrow> nat \<Rightarrow> Fragment option" where
  "fragment_part st f part_end = do {
     len \<leftarrow> usize_sub part_end (es_start st);
     offset \<leftarrow> usize_sub (es_start st) (start_visible st);
     Some (f\<lparr>frag_len := word_of_nat len, frag_insertion_offset := frag_insertion_offset f + word_of_nat offset\<rparr>) }"

text \<open>A fragment that is new or has changed goes to the index, the texts and the fragments.\<close>

definition push_part :: "EditState \<Rightarrow> Fragment \<Rightarrow> bool \<Rightarrow> EditState option" where
  "push_part st f was_visible = do {
     ropes \<leftarrow> rb_push_fragment (es_ropes st) f was_visible;
     new \<leftarrow> fb_push (es_new st) f;
     Some (st\<lparr>es_insertions := es_insertions st @ [insert_new f], es_ropes := ropes, es_new := new\<rparr>) }"

text \<open>If the current fragment has been partially consumed, consume the rest of it and advance.\<close>

definition finish_fragment :: "EditState \<Rightarrow> EditState option" where
  "finish_fragment st =
     (if start_visible st < es_start st then do {
        fragment_end \<leftarrow> end_visible st;
        st \<leftarrow> (if es_start st < fragment_end then do {
            f \<leftarrow> old_item st;
            suffix \<leftarrow> fragment_part st f fragment_end;
            push_part st suffix (frag_visible suffix) }
          else Some st);
        old_next st }
      else Some st)"

definition skip_to_range :: "EditState \<Rightarrow> nat \<Rightarrow> EditState option" where
  "skip_to_range st range_start = do {
     fragment_end \<leftarrow> end_visible st;
     (if fragment_end < range_start then do {
        st \<leftarrow> finish_fragment st;
        (c, slice) \<leftarrow> cursor_slice fragment_ops FragmentText_dim (es_old st) (visible_target range_start) Bias.Right;
        ropes \<leftarrow> rb_append (es_ropes st) (sum_text (summary slice));
        new \<leftarrow> fb_append (es_new st) slice;
        Some (st\<lparr>es_old := c, es_ropes := ropes, es_new := new, es_start := ft_visible (c_position c)\<rparr>) }
      else Some st) }"

definition keep_prefix :: "EditState \<Rightarrow> nat \<Rightarrow> EditState option" where
  "keep_prefix st range_start =
     (if es_start st < range_start then do {
        f \<leftarrow> old_item st;
        prefix \<leftarrow> fragment_part st f range_start;
        st \<leftarrow> push_part st (prefix\<lparr>frag_id := between (fb_max_id (es_new st)) (frag_id prefix)\<rparr>) (frag_visible prefix);
        Some (st\<lparr>es_start := range_start\<rparr>) }
      else Some st)"

subsection \<open>Inserting text\<close>

text \<open>The end of the next fragment of an insertion.\<close>

definition insertion_end :: "ustr \<Rightarrow> nat \<Rightarrow> nat" where
  "insertion_end new_text text_offset =
     (let target_end = min (text_len new_text) (text_offset + MAX_INSERTION_LEN)
      in if target_end = text_len new_text then target_end else floor_boundary new_text target_end)"

definition push_insertion :: "EditState \<Rightarrow> Lamport \<Rightarrow> Locator \<Rightarrow> nat \<Rightarrow> EditState option" where
  "push_insertion st timestamp next_fragment_id len =
     (let fragment = \<lparr>frag_id = between (fb_max_id (es_new st)) next_fragment_id, frag_timestamp = timestamp,
            frag_insertion_offset = es_insertion_offset st, frag_len = word_of_nat len, frag_visible = True,
            frag_deletions = [], frag_max_undos = Global_new\<rparr>
      in do {
        new \<leftarrow> fb_push (es_new st) fragment;
        Some (st\<lparr>es_slices := es_slices st @ [InsertionSlice_from_fragment timestamp fragment],
          es_insertions := es_insertions st @ [insert_new fragment], es_new := new,
          es_insertion_offset := es_insertion_offset st + word_of_nat len\<rparr>) })"

function insertion_loop :: "EditState \<Rightarrow> ustr \<Rightarrow> Lamport \<Rightarrow> Locator \<Rightarrow> nat \<Rightarrow> EditState option" where
  "insertion_loop st new_text timestamp next_fragment_id text_offset =
     (if text_offset < text_len new_text then
        let chunk_end = insertion_end new_text text_offset in
        if chunk_end = text_offset then Some st
        else (case usize_sub chunk_end text_offset of
            None \<Rightarrow> None
          | Some len \<Rightarrow>
              (case push_insertion st timestamp next_fragment_id len of
                 None \<Rightarrow> None
               | Some st' \<Rightarrow> insertion_loop st' new_text timestamp next_fragment_id chunk_end))
      else Some st)"
  by pat_completeness auto
termination
  by (relation "measure (\<lambda>(st, new_text, timestamp, next_fragment_id, text_offset). text_len new_text - text_offset)")
    (auto simp: usize_sub_def split: if_splits)

declare insertion_loop.simps [simp del]

definition push_fragments_for_insertion :: "EditState \<Rightarrow> ustr \<Rightarrow> Lamport \<Rightarrow> Locator \<Rightarrow> EditState option" where
  "push_fragments_for_insertion st new_text timestamp next_fragment_id = do {
     st \<leftarrow> insertion_loop st new_text timestamp next_fragment_id 0;
     ropes \<leftarrow> rb_push_str (es_ropes st) new_text;
     Some (st\<lparr>es_ropes := ropes\<rparr>) }"

definition insert_text :: "EditState \<Rightarrow> ustr \<Rightarrow> Lamport \<Rightarrow> EditState option" where
  "insert_text st new_text timestamp =
     (if new_text \<noteq> [] then do {
        let new_start = fb_visible (es_new st);
        item \<leftarrow> cursor_item (es_old st);
        let next_fragment_id = (case item of None \<Rightarrow> Locator_max | Some old_fragment \<Rightarrow> frag_id old_fragment);
        st \<leftarrow> push_fragments_for_insertion st new_text timestamp next_fragment_id;
        Some (st\<lparr>es_patch := patch_push (es_patch st)
          (text_edit (es_start st) (es_start st) new_start (new_start + text_len new_text))\<rparr>) }
      else Some st)"

subsection \<open>Deleting a range\<close>

definition deleted_part :: "EditState \<Rightarrow> Fragment \<Rightarrow> Lamport \<Rightarrow> nat \<Rightarrow> Fragment option" where
  "deleted_part st fragment timestamp intersection_end =
     (if frag_visible fragment then do {
        part \<leftarrow> fragment_part st fragment intersection_end;
        Some (part\<lparr>frag_id := between (fb_max_id (es_new st)) (frag_id part),
          frag_deletions := frag_deletions part @ [timestamp], frag_visible := False\<rparr>) }
      else Some fragment)"

definition push_deleted :: "EditState \<Rightarrow> Fragment \<Rightarrow> Fragment \<Rightarrow> Lamport \<Rightarrow> nat \<Rightarrow> EditState option" where
  "push_deleted st fragment intersection timestamp intersection_end =
     (if 0 < frag_len intersection then do {
        let new_start = fb_visible (es_new st);
        let st = (if frag_visible fragment \<and> \<not> frag_visible intersection then
            st\<lparr>es_patch := patch_push (es_patch st) (text_edit (es_start st) intersection_end new_start new_start),
              es_slices := es_slices st @ [InsertionSlice_from_fragment timestamp intersection]\<rparr>
          else st);
        st \<leftarrow> push_part st intersection (frag_visible fragment);
        Some (st\<lparr>es_start := intersection_end\<rparr>) }
      else Some st)"

text \<open>Every round but the last moves the cursor: one round more than there are fragments is enough.\<close>

fun delete_loop :: "nat \<Rightarrow> EditState \<Rightarrow> Lamport \<Rightarrow> nat \<Rightarrow> EditState option" where
  "delete_loop 0 st timestamp range_end = None"
| "delete_loop (Suc n) st timestamp range_end =
     (if es_start st < range_end then do {
        fragment \<leftarrow> old_item st;
        fragment_end \<leftarrow> end_visible st;
        let intersection_end = min range_end fragment_end;
        intersection \<leftarrow> deleted_part st fragment timestamp intersection_end;
        st \<leftarrow> push_deleted st fragment intersection timestamp intersection_end;
        st \<leftarrow> (if fragment_end \<le> range_end then old_next st else Some st);
        delete_loop n st timestamp range_end }
      else Some st)"

definition delete_range :: "EditState \<Rightarrow> Lamport \<Rightarrow> nat \<Rightarrow> EditState option" where
  "delete_range st timestamp range_end = delete_loop (length (flatten (c_tree (es_old st))) + 2) st timestamp range_end"

subsection \<open>The loop over the edits\<close>

definition edit_step :: "Lamport \<Rightarrow> EditState \<Rightarrow> Range \<Rightarrow> ustr \<Rightarrow> EditState option" where
  "edit_step timestamp st edit_range new_text = do {
     st \<leftarrow> skip_to_range st (r_start edit_range);
     let full_range_start = r_start edit_range + start_deleted st;
     st \<leftarrow> keep_prefix st (r_start edit_range);
     st \<leftarrow> insert_text st new_text timestamp;
     st \<leftarrow> delete_range st timestamp (r_end edit_range);
     let full_range_end = r_end edit_range + start_deleted st;
     Some (st\<lparr>es_ranges := es_ranges st @ [(full_range_start, full_range_end)], es_texts := es_texts st @ [new_text]\<rparr>) }"

fun edit_steps :: "Lamport \<Rightarrow> EditState \<Rightarrow> (Range \<times> ustr) list \<Rightarrow> EditState option" where
  "edit_steps timestamp st [] = Some st"
| "edit_steps timestamp st ((edit_range, new_text) # edits) = do {
     st \<leftarrow> edit_step timestamp st edit_range new_text;
     edit_steps timestamp st edits }"

definition start_edits :: "Rope \<Rightarrow> Rope \<Rightarrow> FragmentTree \<Rightarrow> nat \<Rightarrow> EditState option" where
  "start_edits visible_text deleted_text tree range_start = do {
     visible_cursor \<leftarrow> rope_cursor visible_text 0;
     deleted_cursor \<leftarrow> rope_cursor deleted_text 0;
     (c, slice) \<leftarrow> cursor_slice fragment_ops FragmentText_dim (cursor_new FragmentText_dim tree) (visible_target range_start) Bias.Right;
     new \<leftarrow> FragmentBuilder_new slice;
     ropes \<leftarrow> rb_append (RopeBuilder_new visible_cursor deleted_cursor) (sum_text (fb_summary new));
     Some \<lparr>es_old = c, es_new = new, es_ropes = ropes, es_start = ft_visible (c_position c), es_insertion_offset = 0,
       es_insertions = [], es_slices = [], es_patch = Patch_empty, es_ranges = [], es_texts = []\<rparr> }"

text \<open>After the last edit: the rest of the current fragment, and the fragments after it.\<close>

definition finish_edits :: "EditState \<Rightarrow> (EditState \<times> FragmentTree \<times> Rope \<times> Rope) option" where
  "finish_edits st = do {
     st \<leftarrow> finish_fragment st;
     (_, suffix) \<leftarrow> cursor_suffix fragment_ops FragmentText_dim (es_old st);
     ropes \<leftarrow> rb_append (es_ropes st) (sum_text (summary suffix));
     new \<leftarrow> fb_append (es_new st) suffix;
     (visible_text, deleted_text) \<leftarrow> rb_finish ropes;
     tree \<leftarrow> fb_to_sum_tree new;
     Some (st, tree, visible_text, deleted_text) }"

end
