(* ===== verification/Text_Buffer.thy ===== *)
theory Text_Buffer
  imports Text_Edit "HOL-Library.Product_Lexorder" "HOL-Library.AList"
begin

text \<open>
  Buffers (\<open>Buffer\<close> and \<open>BufferSnapshot\<close> of \<open>crates/text/src/text.rs\<close>): their construction, local
  edits, undo and redo, and the transactions around them.  The regular expression that replaces
  line separators is code of another package: the function it stands for is an argument.  Instants
  are arguments too.  The queue of deferred remote operations and the channels that wait for them
  are left out.  \<open>None\<close> is a panic.
\<close>

section \<open>The source\<close>

datatype LineEnding = Unix | Windows

text \<open>The default on Unix systems.\<close>

definition LineEnding_default :: LineEnding where
  "LineEnding_default = Unix"

definition LineEnding_as_str :: "LineEnding \<Rightarrow> ustr" where
  "LineEnding_as_str l = (case l of Unix \<Rightarrow> [10] | Windows \<Rightarrow> [13, 10])"

text \<open>The first newline in the first 1000 bytes, and the byte before it.\<close>

definition LineEnding_detect :: "ustr \<Rightarrow> LineEnding option" where
  "LineEnding_detect t = do {
     let max_ix = prev_boundary t (min (text_len t) 1000);
     (head, _) \<leftarrow> str_split_at t max_ix;
     let start = takeWhile (\<lambda>c. c \<noteq> newline) head;
     Some (if start = head then LineEnding_default
       else if start \<noteq> [] \<and> last start = 13 then Windows else Unix) }"

record BufferSnapshot =
  bs_visible_text :: Rope
  bs_deleted_text :: Rope
  bs_fragments :: FragmentTree
  bs_insertions :: "(InsertionFragment, InsertionFragmentKey) Tree"
  bs_insertion_slices :: "InsertionSlice TreeSet"
  bs_undo_map :: UndoMap
  bs_version :: Global
  bs_remote_id :: "64 word"
  bs_replica_id :: ReplicaId
  bs_line_ending :: LineEnding

record Buffer =
  b_snapshot :: BufferSnapshot
  b_history :: History
  b_lamport_clock :: Lamport
  b_subscriptions :: Topic

subsection \<open>New buffers\<close>

text \<open>The loop that cuts the base text into fragments.  Each round takes at least one byte: one more
  round than there are bytes is enough.\<close>

record BaseState =
  ba_text_offset :: nat
  ba_insertion_offset :: "32 word"
  ba_prev_locator :: Locator
  ba_fragments :: FragmentTree
  ba_insertions :: "(InsertionFragment, InsertionFragmentKey) Tree"

definition base_chunk_end :: "Rope \<Rightarrow> nat \<Rightarrow> nat option" where
  "base_chunk_end visible_text text_offset =
     (let target_end = min (rope_len visible_text) (text_offset + MAX_INSERTION_LEN)
      in if target_end = rope_len visible_text then Some target_end else rope_floor_char_boundary visible_text target_end)"

definition base_step :: "Rope \<Rightarrow> Lamport \<Rightarrow> BaseState \<Rightarrow> BaseState option" where
  "base_step visible_text timestamp st = do {
     chunk_end \<leftarrow> base_chunk_end visible_text (ba_text_offset st);
     len \<leftarrow> usize_sub chunk_end (ba_text_offset st);
     let fragment_id = between (ba_prev_locator st) Locator_max;
     let fragment = \<lparr>frag_id = fragment_id, frag_timestamp = timestamp, frag_insertion_offset = ba_insertion_offset st,
       frag_len = word_of_nat len, frag_visible = True, frag_deletions = [], frag_max_undos = Global_new\<rparr>;
     insertions \<leftarrow> push insertion_ops (ba_insertions st) (InsertionFragment_new fragment);
     fragments \<leftarrow> push fragment_ops (ba_fragments st) fragment;
     Some \<lparr>ba_text_offset = chunk_end, ba_insertion_offset = ba_insertion_offset st + word_of_nat len,
       ba_prev_locator = fragment_id, ba_fragments = fragments, ba_insertions = insertions\<rparr> }"

fun base_loop :: "nat \<Rightarrow> Rope \<Rightarrow> Lamport \<Rightarrow> BaseState \<Rightarrow> BaseState option" where
  "base_loop 0 visible_text timestamp st = None"
| "base_loop (Suc n) visible_text timestamp st =
     (if ba_text_offset st < rope_len visible_text then do {
        st \<leftarrow> base_step visible_text timestamp st;
        base_loop n visible_text timestamp st }
      else Some st)"

definition Buffer_new_normalized :: "ReplicaId \<Rightarrow> 64 word \<Rightarrow> LineEnding \<Rightarrow> Rope \<Rightarrow> Buffer option" where
  "Buffer_new_normalized replica remote_id line_ending normalized = do {
     let history = History_new normalized;
     let visible_text = hi_base_text history;
     let timestamp = Lamport_new LOCAL;
     let clock = Lamport_new replica;
     let st = \<lparr>ba_text_offset = 0, ba_insertion_offset = 0, ba_prev_locator = Locator_min,
       ba_fragments = new_tree fragment_ops, ba_insertions = new_tree insertion_ops\<rparr>;
     (st, clock, version) \<leftarrow>
       (if \<not> rope_is_empty visible_text then do {
          st \<leftarrow> base_loop (Suc (rope_len visible_text)) visible_text timestamp st;
          Some (st, Lamport_observe clock timestamp, Global_observe Global_new timestamp) }
        else Some (st, clock, Global_new));
     Some \<lparr>b_snapshot = \<lparr>bs_visible_text = visible_text, bs_deleted_text = Rope_new, bs_fragments = ba_fragments st,
         bs_insertions = ba_insertions st, bs_insertion_slices = tm_new, bs_undo_map = UndoMap_default, bs_version = version,
         bs_remote_id = remote_id, bs_replica_id = replica, bs_line_ending = line_ending\<rparr>,
       b_history = history, b_lamport_clock = clock, b_subscriptions = \<lparr>topic_patches = Map.empty, topic_subs = []\<rparr>\<rparr> }"

definition Buffer_new :: "(ustr \<Rightarrow> ustr) \<Rightarrow> ReplicaId \<Rightarrow> 64 word \<Rightarrow> ustr \<Rightarrow> Buffer option" where
  "Buffer_new replace_line_separators replica remote_id base_text = do {
     line_ending \<leftarrow> LineEnding_detect base_text;
     rope \<leftarrow> rope_from (replace_line_separators base_text);
     Buffer_new_normalized replica remote_id line_ending rope }"

definition buffer_branch :: "Buffer \<Rightarrow> Buffer" where
  "buffer_branch b = \<lparr>b_snapshot = b_snapshot b, b_history = History_new (hi_base_text (b_history b)),
     b_lamport_clock = Lamport_new LOCAL_BRANCH, b_subscriptions = \<lparr>topic_patches = Map.empty, topic_subs = []\<rparr>\<rparr>"

subsection \<open>Offsets of edits\<close>

definition usize_to_offset :: "BufferSnapshot \<Rightarrow> nat \<Rightarrow> nat option" where
  "usize_to_offset s k = do {
     b \<leftarrow> rope_assert_char_boundary False (bs_visible_text s) k;
     (if \<not> b then rope_floor_char_boundary (bs_visible_text s) k else Some k) }"

definition Point_to_offset :: "BufferSnapshot \<Rightarrow> Point \<Rightarrow> nat option" where
  "Point_to_offset s p = rope_point_to_offset (bs_visible_text s) p"

definition to_offsets :: "(BufferSnapshot \<Rightarrow> 'o \<Rightarrow> nat option) \<Rightarrow> (ustr \<Rightarrow> ustr) \<Rightarrow> BufferSnapshot \<Rightarrow> (('o \<times> 'o) \<times> ustr) list \<Rightarrow> (Range \<times> ustr) list option" where
  "to_offsets to_offset replace_line_separators s edits = those (map (\<lambda>((i, j), new_text). do {
     start_offset \<leftarrow> to_offset s i;
     end_offset \<leftarrow> to_offset s j;
     Some (\<lparr>r_start = start_offset, r_end = end_offset\<rparr>, replace_line_separators new_text) }) edits)"

subsection \<open>Local edits\<close>

text \<open>\<open>edits.peek().unwrap()\<close> panics without an edit.\<close>

definition apply_local_edit ::
  "(BufferSnapshot \<Rightarrow> 'o \<Rightarrow> nat option) \<Rightarrow> (ustr \<Rightarrow> ustr) \<Rightarrow> Buffer \<Rightarrow> (('o \<times> 'o) \<times> ustr) list \<Rightarrow> Lamport \<Rightarrow> (Buffer \<times> EditOperation) option" where
  "apply_local_edit to_offset replace_line_separators b edits timestamp = do {
     let s = b_snapshot b;
     edits \<leftarrow> to_offsets to_offset replace_line_separators s edits;
     first \<leftarrow> list_first edits;
     st \<leftarrow> start_edits (bs_visible_text s) (bs_deleted_text s) (bs_fragments s) (r_start (fst first));
     st \<leftarrow> edit_steps timestamp st edits;
     (st, fragments, visible_text, deleted_text) \<leftarrow> finish_edits st;
     (insertions, _) \<leftarrow> tree_edit insertion_ops insertion_dim insertion_key (bs_insertions s) (es_insertions st);
     subscriptions \<leftarrow> publish (b_subscriptions b) (es_patch st);
     slices \<leftarrow> ts_extend (bs_insertion_slices s) (es_slices st);
     Some (b\<lparr>b_snapshot := s\<lparr>bs_fragments := fragments, bs_insertions := insertions, bs_visible_text := visible_text,
         bs_deleted_text := deleted_text, bs_insertion_slices := slices\<rparr>, b_subscriptions := subscriptions\<rparr>,
       \<lparr>eo_timestamp = timestamp, eo_version = bs_version s, eo_ranges = es_ranges st, eo_new_text = es_texts st\<rparr>) }"

subsection \<open>Transactions\<close>

definition b_start_transaction_at :: "Buffer \<Rightarrow> nat \<Rightarrow> Buffer \<times> TransactionId option" where
  "b_start_transaction_at b now =
     (let (h, clock, tid) = start_transaction (b_history b) (bs_version (b_snapshot b)) now (b_lamport_clock b)
      in (b\<lparr>b_history := h, b_lamport_clock := clock\<rparr>, tid))"

definition b_end_transaction_at :: "Buffer \<Rightarrow> nat \<Rightarrow> (Buffer \<times> (TransactionId \<times> Global) option) option" where
  "b_end_transaction_at b now = do {
     (h, entry) \<leftarrow> end_transaction (b_history b) now;
     (case entry of
        None \<Rightarrow> Some (b\<lparr>b_history := h\<rparr>, None)
      | Some entry \<Rightarrow> do {
          (h, tid) \<leftarrow> hist_group h;
          tid \<leftarrow> tid;
          Some (b\<lparr>b_history := h\<rparr>, Some (tid, tr_start (he_transaction entry))) }) }"

definition observe_version :: "Lamport \<Rightarrow> Buffer \<Rightarrow> Buffer" where
  "observe_version timestamp b = b\<lparr>b_snapshot := (b_snapshot b)\<lparr>bs_version := Global_observe (bs_version (b_snapshot b)) timestamp\<rparr>\<rparr>"

definition b_tick :: "Buffer \<Rightarrow> Lamport \<times> Buffer" where
  "b_tick b = (let (timestamp, clock) = tick (b_lamport_clock b) in (timestamp, b\<lparr>b_lamport_clock := clock\<rparr>))"

definition buffer_edit ::
  "(BufferSnapshot \<Rightarrow> 'o \<Rightarrow> nat option) \<Rightarrow> (ustr \<Rightarrow> ustr) \<Rightarrow> nat \<Rightarrow> nat \<Rightarrow> Buffer \<Rightarrow> (('o \<times> 'o) \<times> ustr) list \<Rightarrow> (Buffer \<times> Operation) option" where
  "buffer_edit to_offset replace_line_separators started ended b edits = do {
     let (b, _) = b_start_transaction_at b started;
     let (timestamp, b) = b_tick b;
     (b, edit_op) \<leftarrow> apply_local_edit to_offset replace_line_separators b edits timestamp;
     h \<leftarrow> hist_push (b_history b) (Op_Edit edit_op);
     h \<leftarrow> push_undo h (eo_timestamp edit_op);
     let b = observe_version (eo_timestamp edit_op) (b\<lparr>b_history := h\<rparr>);
     (b, _) \<leftarrow> b_end_transaction_at b ended;
     Some (b, Op_Edit edit_op) }"

subsection \<open>The fragments of an edit\<close>

text \<open>\<open>std::cmp::Reverse\<close>\<close>

datatype 'a Reverse = Reverse (reversed: 'a)

instantiation Reverse :: (linorder) linorder
begin

definition less_Reverse :: "'a Reverse \<Rightarrow> 'a Reverse \<Rightarrow> bool" where
  "less_Reverse a b \<longleftrightarrow> reversed b < reversed a"

definition less_eq_Reverse :: "'a Reverse \<Rightarrow> 'a Reverse \<Rightarrow> bool" where
  "less_eq_Reverse a b \<longleftrightarrow> reversed b \<le> reversed a"

instance
  by standard (auto simp: less_Reverse_def less_eq_Reverse_def Reverse.expand)

end

definition slice_key :: "InsertionSlice \<Rightarrow> Lamport \<times> 32 word \<times> 32 word Reverse" where
  "slice_key s = (is_insertion_id s, is_start s, Reverse (is_end s))"

definition slices_of_edit :: "InsertionSlice TreeSet \<Rightarrow> Lamport \<Rightarrow> InsertionSlice list option" where
  "slices_of_edit slices edit_id = do {
     c \<leftarrow> tm_iter_from slices (InsertionSlice edit_id Lamport_MIN 0 0);
     entries \<leftarrow> cursor_take map_dim (\<lambda>_. True) (Suc (length (flatten slices))) c;
     Some (takeWhile (\<lambda>s. is_edit_id s = edit_id) (map me_key entries)) }"

type_synonym InsertionCursor = "(InsertionFragment, InsertionFragmentKey, InsertionFragmentKey) Cursor"

text \<open>The items of the index from the cursor on that belong to a slice.  One round more than there are
  items is enough.\<close>

fun slice_items :: "nat \<Rightarrow> InsertionSlice \<Rightarrow> InsertionCursor \<Rightarrow> Locator list \<Rightarrow> (InsertionCursor \<times> Locator list) option" where
  "slice_items 0 s c fragment_ids = None"
| "slice_items (Suc n) s c fragment_ids = do {
     item \<leftarrow> cursor_item c;
     (case item of
        None \<Rightarrow> Some (c, fragment_ids)
      | Some item \<Rightarrow>
          if if_timestamp item \<noteq> is_insertion_id s \<or> is_end s \<le> if_split_offset item then Some (c, fragment_ids)
          else do {
            c' \<leftarrow> cursor_next insertion_dim c;
            slice_items n s c' (fragment_ids @ [if_fragment_id item]) }) }"

fun slices_loop :: "InsertionSlice list \<Rightarrow> InsertionCursor \<Rightarrow> Locator list \<Rightarrow> Locator list option" where
  "slices_loop [] c fragment_ids = Some fragment_ids"
| "slices_loop (s # slices) c fragment_ids = do {
     c \<leftarrow> (if is_insertion_id s \<noteq> ik_timestamp (c_position c) \<or> ik_split_offset (c_position c) < is_start s
        then map_option fst (cursor_seek_forward insertion_dim c (cmp (InsertionFragmentKey (is_insertion_id s) (is_start s))) Bias.Left)
        else Some c);
     (c, fragment_ids) \<leftarrow> slice_items (Suc (length (flatten (c_tree c)))) s c fragment_ids;
     slices_loop slices c fragment_ids }"

definition fragment_ids_for_edits :: "BufferSnapshot \<Rightarrow> Lamport list \<Rightarrow> Locator list option" where
  "fragment_ids_for_edits s es = do {
     slices \<leftarrow> those (map (slices_of_edit (bs_insertion_slices s)) es);
     fragment_ids \<leftarrow> slices_loop (sort_key slice_key (concat slices)) (cursor_new insertion_dim (bs_insertions s)) [];
     Some (sort fragment_ids) }"

subsection \<open>Undo operations\<close>

record UndoState =
  us_old :: "(Fragment, FragmentSum, Locator option \<times> nat) Cursor"
  us_new :: FragmentTree
  us_ropes :: RopeBuilder
  us_edits :: Patch

definition undo_dims :: "(FragmentSum, Locator option \<times> nat) dimension_ops" where
  "undo_dims = Dimensions Locator_dim visible_dim"

text \<open>The fragment under the cursor, with its new visibility.\<close>

definition undo_fragment :: "UndoMap \<Rightarrow> Lamport \<Rightarrow> UndoState \<Rightarrow> Fragment \<Rightarrow> UndoState option" where
  "undo_fragment undos timestamp st fragment = do {
     is_visible \<leftarrow> frag_is_visible fragment undos;
     let fragment_was_visible = frag_visible fragment;
     let fragment = fragment\<lparr>frag_visible := is_visible, frag_max_undos := Global_observe (frag_max_undos fragment) timestamp\<rparr>;
     let old_start = snd (c_position (us_old st));
     let new_start = ft_visible (sum_text (summary (us_new st)));
     let len = unat (frag_len fragment);
     let edits = (if fragment_was_visible \<and> \<not> frag_visible fragment
         then patch_push (us_edits st) (text_edit old_start (old_start + len) new_start new_start)
       else if \<not> fragment_was_visible \<and> frag_visible fragment
         then patch_push (us_edits st) (text_edit old_start old_start new_start (new_start + len))
       else us_edits st);
     ropes \<leftarrow> rb_push_fragment (us_ropes st) fragment fragment_was_visible;
     new \<leftarrow> push fragment_ops (us_new st) fragment;
     c \<leftarrow> cursor_next undo_dims (us_old st);
     Some \<lparr>us_old = c, us_new = new, us_ropes = ropes, us_edits = edits\<rparr> }"

definition undo_step :: "UndoMap \<Rightarrow> Lamport \<Rightarrow> UndoState \<Rightarrow> Locator \<Rightarrow> UndoState option" where
  "undo_step undos timestamp st fragment_id = do {
     (c, preceding) \<leftarrow> cursor_slice fragment_ops undo_dims (us_old st) (fst_target (cmp (Some fragment_id))) Bias.Left;
     ropes \<leftarrow> rb_append (us_ropes st) (sum_text (summary preceding));
     new \<leftarrow> append_tree fragment_ops (us_new st) preceding;
     let st = st\<lparr>us_old := c, us_ropes := ropes, us_new := new\<rparr>;
     item \<leftarrow> cursor_item c;
     (case item of None \<Rightarrow> Some st | Some fragment \<Rightarrow> undo_fragment undos timestamp st fragment) }"

fun undo_steps :: "UndoMap \<Rightarrow> Lamport \<Rightarrow> UndoState \<Rightarrow> Locator list \<Rightarrow> UndoState option" where
  "undo_steps undos timestamp st [] = Some st"
| "undo_steps undos timestamp st (fragment_id # fragment_ids) = do {
     st \<leftarrow> undo_step undos timestamp st fragment_id;
     undo_steps undos timestamp st fragment_ids }"

definition apply_undo :: "Buffer \<Rightarrow> UndoOperation \<Rightarrow> Buffer option" where
  "apply_undo b undo = do {
     let s = b_snapshot b;
     undo_map \<leftarrow> undo_insert (bs_undo_map s) undo;
     visible_cursor \<leftarrow> rope_cursor (bs_visible_text s) 0;
     deleted_cursor \<leftarrow> rope_cursor (bs_deleted_text s) 0;
     fragment_ids \<leftarrow> fragment_ids_for_edits s (map fst (uo_counts undo));
     st \<leftarrow> undo_steps undo_map (uo_timestamp undo)
       \<lparr>us_old = cursor_new undo_dims (bs_fragments s), us_new = new_tree fragment_ops,
        us_ropes = RopeBuilder_new visible_cursor deleted_cursor, us_edits = Patch_empty\<rparr> fragment_ids;
     (_, suffix) \<leftarrow> cursor_suffix fragment_ops undo_dims (us_old st);
     ropes \<leftarrow> rb_append (us_ropes st) (sum_text (summary suffix));
     fragments \<leftarrow> append_tree fragment_ops (us_new st) suffix;
     (visible_text, deleted_text) \<leftarrow> rb_finish ropes;
     subscriptions \<leftarrow> publish (b_subscriptions b) (us_edits st);
     Some (b\<lparr>b_snapshot := s\<lparr>bs_undo_map := undo_map, bs_fragments := fragments, bs_visible_text := visible_text,
         bs_deleted_text := deleted_text\<rparr>, b_subscriptions := subscriptions\<rparr>) }"

definition undo_operations :: "Buffer \<Rightarrow> (Lamport \<times> 32 word) list \<Rightarrow> (Buffer \<times> Operation) option" where
  "undo_operations b edit_counts = do {
     let (timestamp, b) = b_tick b;
     let undo = \<lparr>uo_timestamp = timestamp, uo_version = bs_version (b_snapshot b), uo_counts = edit_counts\<rparr>;
     b \<leftarrow> apply_undo (observe_version timestamp b) undo;
     Some (b, Op_Undo undo) }"

definition saturating_Suc :: "32 word \<Rightarrow> 32 word" where
  "saturating_Suc n = (if n = - 1 then n else n + 1)"

text \<open>The counts are a hash map; inserting a key again replaces its value.\<close>

fun count_edits :: "UndoMap \<Rightarrow> (Lamport \<times> 32 word) list \<Rightarrow> Lamport list \<Rightarrow> (Lamport \<times> 32 word) list option" where
  "count_edits undos edit_counts [] = Some edit_counts"
| "count_edits undos edit_counts (edit_id # es) = do {
     n \<leftarrow> undo_count undos edit_id;
     count_edits undos (AList.update edit_id (saturating_Suc n) edit_counts) es }"

definition undo_or_redo :: "Buffer \<Rightarrow> Transaction \<Rightarrow> (Buffer \<times> Operation) option" where
  "undo_or_redo b transaction = do {
     edit_counts \<leftarrow> count_edits (bs_undo_map (b_snapshot b)) [] (tr_edit_ids transaction);
     (b, operation) \<leftarrow> undo_operations b edit_counts;
     h \<leftarrow> hist_push (b_history b) operation;
     Some (b\<lparr>b_history := h\<rparr>, operation) }"

definition undo_or_redo_entry :: "Buffer \<Rightarrow> HistoryEntry option \<Rightarrow> (Buffer \<times> (TransactionId \<times> Operation) option) option" where
  "undo_or_redo_entry b entry =
     (case entry of
        None \<Rightarrow> Some (b, None)
      | Some entry \<Rightarrow> do {
          (b, op) \<leftarrow> undo_or_redo b (he_transaction entry);
          Some (b, Some (transaction_id entry, op)) })"

definition buffer_undo :: "Buffer \<Rightarrow> (Buffer \<times> (TransactionId \<times> Operation) option) option" where
  "buffer_undo b = do {
     (h, entry) \<leftarrow> pop_undo (b_history b);
     undo_or_redo_entry (b\<lparr>b_history := h\<rparr>) entry }"

definition buffer_redo :: "Buffer \<Rightarrow> (Buffer \<times> (TransactionId \<times> Operation) option) option" where
  "buffer_redo b = do {
     (h, entry) \<leftarrow> pop_redo (b_history b);
     undo_or_redo_entry (b\<lparr>b_history := h\<rparr>) entry }"

definition undo_transaction :: "Buffer \<Rightarrow> TransactionId \<Rightarrow> (Buffer \<times> Operation option) option" where
  "undo_transaction b tid = do {
     (h, entry) \<leftarrow> remove_from_undo (b_history b) tid;
     (b, r) \<leftarrow> undo_or_redo_entry (b\<lparr>b_history := h\<rparr>) entry;
     Some (b, map_option snd r) }"

fun undo_or_redo_all :: "Buffer \<Rightarrow> HistoryEntry list \<Rightarrow> (Buffer \<times> Operation list) option" where
  "undo_or_redo_all b [] = Some (b, [])"
| "undo_or_redo_all b (entry # entries) = do {
     (b, op) \<leftarrow> undo_or_redo b (he_transaction entry);
     (b, ops) \<leftarrow> undo_or_redo_all b entries;
     Some (b, op # ops) }"

definition undo_to_transaction :: "Buffer \<Rightarrow> TransactionId \<Rightarrow> (Buffer \<times> Operation list) option" where
  "undo_to_transaction b tid = do {
     (h, entries) \<leftarrow> remove_from_undo_until (b_history b) tid;
     undo_or_redo_all (b\<lparr>b_history := h\<rparr>) entries }"

definition redo_to_transaction :: "Buffer \<Rightarrow> TransactionId \<Rightarrow> (Buffer \<times> Operation list) option" where
  "redo_to_transaction b tid = do {
     (h, entries) \<leftarrow> remove_from_redo (b_history b) tid;
     undo_or_redo_all (b\<lparr>b_history := h\<rparr>) entries }"

subsection \<open>Subscriptions\<close>

text \<open>The number stands for the new allocation.\<close>

definition b_subscribe :: "nat \<Rightarrow> Buffer \<Rightarrow> Buffer" where
  "b_subscribe subscription b = b\<lparr>b_subscriptions := subscribe subscription (b_subscriptions b)\<rparr>"

end
