(* ===== verification/Text_Anchor.thy ===== *)
theory Text_Anchor
  imports Text_Buffer
begin

text \<open>
  Anchors (\<open>crates/text/src/anchor.rs\<close> and their part of \<open>BufferSnapshot\<close> in \<open>text.rs\<close>): positions that
  are given by an insertion and an offset into it, and therefore move with the text.  As in a release
  build, checks that only log are left out.  \<open>None\<close> is a panic.  A range is a pair.
\<close>

section \<open>The source\<close>

text \<open>The derived order of \<open>Bias\<close>.\<close>

instantiation Bias :: linorder
begin

definition less_Bias :: "Bias \<Rightarrow> Bias \<Rightarrow> bool" where
  "less_Bias a b \<longleftrightarrow> a = Bias.Left \<and> b = Bias.Right"

definition less_eq_Bias :: "Bias \<Rightarrow> Bias \<Rightarrow> bool" where
  "less_eq_Bias a b \<longleftrightarrow> a = Bias.Left \<or> b = Bias.Right"

instance
proof
  fix a b c :: Bias
  show "a \<le> a" by (cases a) (simp_all add: less_eq_Bias_def)
  show "a < b \<longleftrightarrow> a \<le> b \<and> \<not> b \<le> a" by (cases a; cases b) (simp_all add: less_Bias_def less_eq_Bias_def)
  show "a \<le> b \<Longrightarrow> b \<le> c \<Longrightarrow> a \<le> c" by (auto simp: less_eq_Bias_def)
  show "a \<le> b \<Longrightarrow> b \<le> a \<Longrightarrow> a = b" by (auto simp: less_eq_Bias_def)
  show "a \<le> b \<or> b \<le> a" by (cases a) (simp_all add: less_eq_Bias_def)
qed

end

record Anchor =
  an_timestamp_replica_id :: ReplicaId
  an_timestamp_value :: Seq
  an_offset :: "32 word"
  an_bias :: Bias
  an_buffer_id :: "64 word"

definition Anchor_new :: "Lamport \<Rightarrow> 32 word \<Rightarrow> Bias \<Rightarrow> 64 word \<Rightarrow> Anchor" where
  "Anchor_new timestamp offset bias buffer_id =
     \<lparr>an_timestamp_replica_id = replica_id timestamp, an_timestamp_value = lamport_value timestamp, an_offset = offset,
      an_bias = bias, an_buffer_id = buffer_id\<rparr>"

definition min_for_buffer :: "64 word \<Rightarrow> Anchor" where
  "min_for_buffer buffer_id =
     \<lparr>an_timestamp_replica_id = replica_id Lamport_MIN, an_timestamp_value = lamport_value Lamport_MIN, an_offset = 0,
      an_bias = Bias.Left, an_buffer_id = buffer_id\<rparr>"

definition max_for_buffer :: "64 word \<Rightarrow> Anchor" where
  "max_for_buffer buffer_id =
     \<lparr>an_timestamp_replica_id = replica_id Lamport_MAX, an_timestamp_value = lamport_value Lamport_MAX, an_offset = - 1,
      an_bias = Bias.Right, an_buffer_id = buffer_id\<rparr>"

definition min_min_range_for_buffer :: "64 word \<Rightarrow> Anchor \<times> Anchor" where
  "min_min_range_for_buffer buffer_id = (let m = min_for_buffer buffer_id in (m, m))"

definition max_max_range_for_buffer :: "64 word \<Rightarrow> Anchor \<times> Anchor" where
  "max_max_range_for_buffer buffer_id = (let m = max_for_buffer buffer_id in (m, m))"

definition min_max_range_for_buffer :: "64 word \<Rightarrow> Anchor \<times> Anchor" where
  "min_max_range_for_buffer buffer_id = (min_for_buffer buffer_id, max_for_buffer buffer_id)"

definition an_timestamp :: "Anchor \<Rightarrow> Lamport" where
  "an_timestamp a = Lamport (an_timestamp_value a) (an_timestamp_replica_id a)"

definition is_min :: "Anchor \<Rightarrow> bool" where
  "is_min a \<longleftrightarrow> an_timestamp a = Lamport_MIN \<and> an_offset a = 0 \<and> an_bias a = Bias.Left"

definition is_max :: "Anchor \<Rightarrow> bool" where
  "is_max a \<longleftrightarrow> an_timestamp a = Lamport_MAX \<and> an_offset a = - 1 \<and> an_bias a = Bias.Right"

text \<open>\<open>to_le_bytes\<close> of a word of \<open>n\<close> bytes.\<close>

definition le_bytes :: "nat \<Rightarrow> 'a::len word \<Rightarrow> 8 word list" where
  "le_bytes n w = map (\<lambda>i. ucast (drop_bit (8 * i) w)) [0..<n]"

definition opaque_id :: "Anchor \<Rightarrow> 8 word list" where
  "opaque_id a = le_bytes 8 (an_buffer_id a) @ le_bytes 4 (an_offset a) @ le_bytes 4 (an_timestamp_value a) @
     le_bytes 2 (an_timestamp_replica_id a) @ [(case an_bias a of Bias.Left \<Rightarrow> 0 | Bias.Right \<Rightarrow> 1), 0]"

subsection \<open>Finding the fragment of an anchor\<close>

definition try_find_fragment :: "BufferSnapshot \<Rightarrow> Anchor \<Rightarrow> InsertionFragment option option" where
  "try_find_fragment s a = (let anchor_key = InsertionFragmentKey (an_timestamp a) (an_offset a) in do {
     found \<leftarrow> tree_find_with_prev insertion_dim (bs_insertions s) (cmp anchor_key) (an_bias a);
     (case found of
        (_, _, Some (prev, insertion)) \<Rightarrow>
          (let comparison = cmp (insertion_key insertion) anchor_key in
           Some (if comparison = Greater \<or> an_bias a = Bias.Left \<and> comparison = Equal \<and> 0 < an_offset a then prev
                 else Some insertion))
      | _ \<Rightarrow> tree_last (bs_insertions s)) })"

definition try_fragment_id_for_anchor :: "BufferSnapshot \<Rightarrow> Anchor \<Rightarrow> Locator option option" where
  "try_fragment_id_for_anchor s a =
     (if is_min a then Some (Some Locator_min) else if is_max a then Some (Some Locator_max)
      else do { item \<leftarrow> try_find_fragment s a; Some (map_option if_fragment_id item) })"

definition fragment_id_for_anchor :: "BufferSnapshot \<Rightarrow> Anchor \<Rightarrow> Locator option" where
  "fragment_id_for_anchor s a = do { id \<leftarrow> try_fragment_id_for_anchor s a; id }"

definition offset_for_anchor :: "BufferSnapshot \<Rightarrow> Anchor \<Rightarrow> nat option" where
  "offset_for_anchor s a =
     (if is_min a then Some 0 else if is_max a then Some (rope_len (bs_visible_text s))
      else do {
        item \<leftarrow> try_find_fragment s a;
        insertion \<leftarrow> item;
        _ \<leftarrow> (if if_timestamp insertion = an_timestamp a then Some () else None);
        let (start, _, item) = tree_find undo_dims (bs_fragments s) (fst_target (cmp (Some (if_fragment_id insertion)))) Bias.Left;
        fragment \<leftarrow> item;
        Some (snd start + (if frag_visible fragment then unat (an_offset a - if_split_offset insertion) else 0)) })"

subsection \<open>Anchors at positions\<close>

definition anchor_at_offset :: "BufferSnapshot \<Rightarrow> nat \<Rightarrow> Bias \<Rightarrow> Anchor option" where
  "anchor_at_offset s offset bias =
     (if bias = Bias.Left \<and> offset = 0 then Some (min_for_buffer (bs_remote_id s))
      else if bias = Bias.Right \<and> rope_len (bs_visible_text s) \<le> offset then Some (max_for_buffer (bs_remote_id s))
      else do {
        at_boundary \<leftarrow> rope_assert_char_boundary False (bs_visible_text s) offset;
        offset \<leftarrow> (if \<not> at_boundary then (case bias of
            Bias.Left \<Rightarrow> rope_floor_char_boundary (bs_visible_text s) offset
          | Bias.Right \<Rightarrow> rope_ceil_char_boundary (bs_visible_text s) offset) else Some offset);
        let (start, _, item) = tree_find visible_dim (bs_fragments s) (cmp offset) bias;
        (case item of
           None \<Rightarrow> Some (max_for_buffer (bs_remote_id s))
         | Some fragment \<Rightarrow> do {
             overshoot \<leftarrow> usize_sub offset start;
             Some (Anchor_new (frag_timestamp fragment) (frag_insertion_offset fragment + word_of_nat overshoot) bias (bs_remote_id s)) }) })"

definition anchor_at :: "(BufferSnapshot \<Rightarrow> 'o \<Rightarrow> nat option) \<Rightarrow> BufferSnapshot \<Rightarrow> 'o \<Rightarrow> Bias \<Rightarrow> Anchor option" where
  "anchor_at to_offset s position bias = do { offset \<leftarrow> to_offset s position; anchor_at_offset s offset bias }"

definition anchor_before :: "(BufferSnapshot \<Rightarrow> 'o \<Rightarrow> nat option) \<Rightarrow> BufferSnapshot \<Rightarrow> 'o \<Rightarrow> Anchor option" where
  "anchor_before to_offset s position = anchor_at to_offset s position Bias.Left"

definition anchor_after :: "(BufferSnapshot \<Rightarrow> 'o \<Rightarrow> nat option) \<Rightarrow> BufferSnapshot \<Rightarrow> 'o \<Rightarrow> Anchor option" where
  "anchor_after to_offset s position = anchor_at to_offset s position Bias.Right"

definition anchor_range_inside :: "(BufferSnapshot \<Rightarrow> 'o \<Rightarrow> nat option) \<Rightarrow> BufferSnapshot \<Rightarrow> 'o \<times> 'o \<Rightarrow> (Anchor \<times> Anchor) option" where
  "anchor_range_inside to_offset s position = do {
     a \<leftarrow> anchor_after to_offset s (fst position);
     b \<leftarrow> anchor_before to_offset s (snd position);
     Some (a, b) }"

definition anchor_range_outside :: "(BufferSnapshot \<Rightarrow> 'o \<Rightarrow> nat option) \<Rightarrow> BufferSnapshot \<Rightarrow> 'o \<times> 'o \<Rightarrow> (Anchor \<times> Anchor) option" where
  "anchor_range_outside to_offset s position = do {
     a \<leftarrow> anchor_before to_offset s (fst position);
     b \<leftarrow> anchor_after to_offset s (snd position);
     Some (a, b) }"

definition can_resolve :: "BufferSnapshot \<Rightarrow> Anchor \<Rightarrow> bool" where
  "can_resolve s a \<longleftrightarrow> is_min a \<or> is_max a \<or> bs_remote_id s = an_buffer_id a \<and> Global_observed (bs_version s) (an_timestamp a)"

definition is_valid :: "Anchor \<Rightarrow> BufferSnapshot \<Rightarrow> bool option" where
  "is_valid a s =
     (if is_min a \<or> is_max a then Some True
      else if an_buffer_id a \<noteq> bs_remote_id s then Some False
      else do {
        found \<leftarrow> try_fragment_id_for_anchor s a;
        Some (case found of
            None \<Rightarrow> False
          | Some fragment_id \<Rightarrow>
              (case snd (snd (tree_find undo_dims (bs_fragments s) (fst_target (cmp (Some fragment_id))) Bias.Left)) of
                 None \<Rightarrow> False
               | Some fragment \<Rightarrow> frag_visible fragment)) })"

subsection \<open>The order of anchors\<close>

text \<open>\<open>then_with\<close>\<close>

definition then_with :: "Ordering \<Rightarrow> Ordering \<Rightarrow> Ordering" where
  "then_with a b = (case a of Equal \<Rightarrow> b | _ \<Rightarrow> a)"

definition Anchor_cmp :: "Anchor \<Rightarrow> Anchor \<Rightarrow> BufferSnapshot \<Rightarrow> Ordering option" where
  "Anchor_cmp a b s = do {
     fragment_id_comparison \<leftarrow> (if an_timestamp a = an_timestamp b then Some Equal
       else do {
         i \<leftarrow> fragment_id_for_anchor s a;
         j \<leftarrow> fragment_id_for_anchor s b;
         Some (cmp i j) });
     Some (then_with (then_with fragment_id_comparison (cmp (an_offset a) (an_offset b))) (cmp (an_bias a) (an_bias b))) }"

definition Anchor_min :: "Anchor \<Rightarrow> Anchor \<Rightarrow> BufferSnapshot \<Rightarrow> Anchor option" where
  "Anchor_min a b s = do { c \<leftarrow> Anchor_cmp a b s; Some (if c \<noteq> Greater then a else b) }"

definition Anchor_max :: "Anchor \<Rightarrow> Anchor \<Rightarrow> BufferSnapshot \<Rightarrow> Anchor option" where
  "Anchor_max a b s = do { c \<leftarrow> Anchor_cmp a b s; Some (if c \<noteq> Less then a else b) }"

definition AnchorRange_cmp :: "Anchor \<times> Anchor \<Rightarrow> Anchor \<times> Anchor \<Rightarrow> BufferSnapshot \<Rightarrow> Ordering option" where
  "AnchorRange_cmp r other s = do {
     c \<leftarrow> Anchor_cmp (fst r) (fst other) s;
     (if c = Equal then Anchor_cmp (snd other) (snd r) s else Some c) }"

definition AnchorRange_overlaps :: "Anchor \<times> Anchor \<Rightarrow> Anchor \<times> Anchor \<Rightarrow> BufferSnapshot \<Rightarrow> bool option" where
  "AnchorRange_overlaps r other s = do {
     c \<leftarrow> Anchor_cmp (fst r) (snd other) s;
     (if c = Less then do { d \<leftarrow> Anchor_cmp (fst other) (snd r) s; Some (d = Less) } else Some False) }"

definition AnchorRange_contains :: "Anchor \<times> Anchor \<Rightarrow> Anchor \<Rightarrow> BufferSnapshot \<Rightarrow> bool option" where
  "AnchorRange_contains r other s = do {
     c \<leftarrow> Anchor_cmp (fst r) other s;
     (if c \<noteq> Greater then do { d \<leftarrow> Anchor_cmp (snd r) other s; Some (d \<noteq> Less) } else Some False) }"

subsection \<open>Values at anchors\<close>

definition text_summary_for_range ::
  "'d TextDimension \<Rightarrow> (BufferSnapshot \<Rightarrow> 'o \<Rightarrow> nat option) \<Rightarrow> BufferSnapshot \<Rightarrow> 'o \<times> 'o \<Rightarrow> 'd option" where
  "text_summary_for_range D to_offset s r = do {
     start \<leftarrow> to_offset s (fst r);
     c \<leftarrow> rope_cursor (bs_visible_text s) start;
     stop \<leftarrow> to_offset s (snd r);
     (_, d) \<leftarrow> rope_cursor_summary D c stop;
     Some d }"

definition summary_for_anchor :: "'d TextDimension \<Rightarrow> BufferSnapshot \<Rightarrow> Anchor \<Rightarrow> 'd option" where
  "summary_for_anchor D s a = do {
     offset \<leftarrow> offset_for_anchor s a;
     text_summary_for_range D usize_to_offset s (0, offset) }"

definition Anchor_to_offset :: "BufferSnapshot \<Rightarrow> Anchor \<Rightarrow> nat option" where
  "Anchor_to_offset s a = summary_for_anchor usize_text s a"

definition Anchor_to_point :: "BufferSnapshot \<Rightarrow> Anchor \<Rightarrow> Point option" where
  "Anchor_to_point s a = summary_for_anchor Point_text s a"

definition Anchor_to_point_utf16 :: "BufferSnapshot \<Rightarrow> Anchor \<Rightarrow> PointUtf16 option" where
  "Anchor_to_point_utf16 s a = summary_for_anchor PointUtf16_text s a"

definition Anchor_to_offset_utf16 :: "BufferSnapshot \<Rightarrow> Anchor \<Rightarrow> OffsetUtf16 option" where
  "Anchor_to_offset_utf16 s a = summary_for_anchor OffsetUtf16_text s a"

definition bias_left :: "Anchor \<Rightarrow> BufferSnapshot \<Rightarrow> Anchor option" where
  "bias_left a s = (case an_bias a of Bias.Left \<Rightarrow> Some a | Bias.Right \<Rightarrow> anchor_before Anchor_to_offset s a)"

definition bias_right :: "Anchor \<Rightarrow> BufferSnapshot \<Rightarrow> Anchor option" where
  "bias_right a s = (case an_bias a of Bias.Left \<Rightarrow> anchor_after Anchor_to_offset s a | Bias.Right \<Rightarrow> Some a)"

definition with_bias :: "Anchor \<Rightarrow> Bias \<Rightarrow> BufferSnapshot \<Rightarrow> Anchor option" where
  "with_bias a bias s = (case bias of Bias.Left \<Rightarrow> bias_left a s | Bias.Right \<Rightarrow> bias_right a s)"

definition range_to_offset :: "(BufferSnapshot \<Rightarrow> 'o \<Rightarrow> nat option) \<Rightarrow> 'o \<times> 'o \<Rightarrow> BufferSnapshot \<Rightarrow> (nat \<times> nat) option" where
  "range_to_offset to_offset r s = do { i \<leftarrow> to_offset s (fst r); j \<leftarrow> to_offset s (snd r); Some (i, j) }"

definition range_to_point :: "(BufferSnapshot \<Rightarrow> 'o \<Rightarrow> nat option) \<Rightarrow> 'o \<times> 'o \<Rightarrow> BufferSnapshot \<Rightarrow> (Point \<times> Point) option" where
  "range_to_point to_offset r s = do {
     i \<leftarrow> to_offset s (fst r);
     p \<leftarrow> rope_offset_to_point (bs_visible_text s) i;
     j \<leftarrow> to_offset s (snd r);
     q \<leftarrow> rope_offset_to_point (bs_visible_text s) j;
     Some (p, q) }"

definition range_to_point_utf16 :: "(BufferSnapshot \<Rightarrow> 'o \<Rightarrow> nat option) \<Rightarrow> 'o \<times> 'o \<Rightarrow> BufferSnapshot \<Rightarrow> (PointUtf16 \<times> PointUtf16) option" where
  "range_to_point_utf16 to_offset r s = do {
     i \<leftarrow> to_offset s (fst r);
     p \<leftarrow> rope_offset_to_point_utf16 (bs_visible_text s) i;
     j \<leftarrow> to_offset s (snd r);
     q \<leftarrow> rope_offset_to_point_utf16 (bs_visible_text s) j;
     Some (p, q) }"

end
