(* ===== verification/Text_Edit_Parts.thy ===== *)
theory Text_Edit_Parts
  imports Text_Edit
begin

text \<open>
  What the fragments of a buffer promise: their identifiers increase strictly, they are disjoint
  spans of their insertions, the index knows where each of them starts, every edit that affects one is
  recorded in the slices, and it is visible when its insertion is not undone and its deletions are.
  The lemmas say how splitting a fragment, inserting one and deleting one keep this.
\<close>

section \<open>Bytes\<close>

text \<open>Positions of patches are byte offsets: a text as the list of its bytes, each one given by its
  character and its place in it.\<close>

definition bytes :: "ustr \<Rightarrow> (code_point \<times> nat) list" where
  "bytes t = concat (map (\<lambda>c. map (Pair c) [0..<len_utf8 c]) t)"

lemma bytes_simps [simp]: "bytes [] = []" "bytes (a @ b) = bytes a @ bytes b" "length (bytes t) = text_len t"
  by (simp_all add: bytes_def) (induction t, simp_all add: text_len_Cons)

lemma same_run_text: "same_run (text_len x) (text_len a) (text_len c) (bytes (a @ x @ b)) (bytes (c @ x @ d))"
  by (simp add: same_run_def nth_append)

section \<open>Identifiers\<close>

definition ids_ok :: "Locator list \<Rightarrow> bool" where
  "ids_ok ls \<longleftrightarrow> sorted_wrt (<) (Locator_min # ls @ [Locator_max]) \<and> (\<forall>l \<in> set ls. last l \<noteq> 0)"

lemma ids_ok_drop: "ids_ok (xs @ ys @ zs) \<Longrightarrow> ids_ok (xs @ zs)"
  by (auto simp: ids_ok_def sorted_wrt_append)

lemma sorted_ends:
  fixes zs :: "'b::order list"
  shows "sorted_wrt (<) zs \<Longrightarrow> a \<in> set zs \<Longrightarrow> a \<le> last zs" and "sorted_wrt (<) zs \<Longrightarrow> a \<in> set zs \<Longrightarrow> hd zs \<le> a"
proof -
  assume zs: "sorted_wrt (<) zs" "a \<in> set zs"
  then obtain xs ys where "zs = xs @ a # ys" by (meson split_list)
  then show "a \<le> last zs" "hd zs \<le> a" using zs(1) by (cases ys rule: rev_cases; cases xs; auto simp: sorted_wrt_append)+
qed

lemma ids_ok_between:
  assumes "ids_ok (xs @ ys)"
  shows "ids_ok (xs @ between (last (Locator_min # xs)) (hd (ys @ [Locator_max])) # ys)"
proof -
  define zs ws where "zs = Locator_min # xs" and "ws = ys @ [Locator_max]"
  let ?m = "between (last zs) (hd ws)"
  have ne: "zs \<noteq> []" "ws \<noteq> []" by (simp_all add: zs_def ws_def)
  have sorted: "sorted_wrt (<) (zs @ ws)" and digits: "\<forall>l \<in> set (xs @ ys). last l \<noteq> 0"
    using assms by (simp_all add: ids_ok_def zs_def ws_def)
  then have parts: "sorted_wrt (<) zs" "sorted_wrt (<) ws" "\<forall>a \<in> set zs. \<forall>b \<in> set ws. a < b" by (simp_all add: sorted_wrt_append)
  have less: "last zs < hd ws" using parts(3) ne by simp
  have "last (hd ws) \<noteq> 0" using digits by (cases ys) (auto simp: Locator_max_def ws_def)
  with less have b: "last zs < ?m" "?m < hd ws" "last ?m \<noteq> 0"
    using between_greater [of "last zs" "hd ws"] between_less [of "last zs" "hd ws"] between_shape [of "last zs" "hd ws"] by simp_all
  have "a < ?m" if "a \<in> set zs" for a
    using sorted_ends(1) [OF parts(1) that] b(1) by (rule le_less_trans)
  moreover have "?m < c" if "c \<in> set ws" for c
    using b(2) sorted_ends(2) [OF parts(2) that] by (rule less_le_trans)
  ultimately have "sorted_wrt (<) (zs @ ?m # ws)"
    using parts by (auto simp: sorted_wrt_append)
  then show ?thesis using digits b(3) by (auto simp: ids_ok_def zs_def ws_def)
qed

section \<open>Spans of insertions\<close>

definition f_off :: "Fragment \<Rightarrow> nat" where
  "f_off f = unat (frag_insertion_offset f)"

definition f_end :: "Fragment \<Rightarrow> nat" where
  "f_end f = f_off f + unat (frag_len f)"

definition apart :: "Fragment \<Rightarrow> Fragment \<Rightarrow> bool" where
  "apart f g \<longleftrightarrow> frag_timestamp f = frag_timestamp g \<longrightarrow> f_end f \<le> f_off g"

definition spans_ok :: "Fragment list \<Rightarrow> bool" where
  "spans_ok fs \<longleftrightarrow> (\<forall>f \<in> set fs. f_end f < 2 ^ 32) \<and> sorted_wrt apart fs"

text \<open>\<open>g\<close> is a part of the insertion that \<open>f\<close> is a part of.\<close>

definition within :: "Fragment \<Rightarrow> Fragment \<Rightarrow> bool" where
  "within g f \<longleftrightarrow> frag_timestamp g = frag_timestamp f \<and> f_off f \<le> f_off g \<and> f_end g \<le> f_end f"

lemma apart_within: "apart f h \<Longrightarrow> within g f \<Longrightarrow> apart g h" "apart h f \<Longrightarrow> within g f \<Longrightarrow> apart h g"
  by (auto simp: apart_def within_def)

lemma spans_ok_simps:
  "spans_ok (fs @ gs) \<longleftrightarrow> spans_ok fs \<and> spans_ok gs \<and> (\<forall>f \<in> set fs. \<forall>g \<in> set gs. apart f g)"
  "spans_ok (f # fs) \<longleftrightarrow> f_end f < 2 ^ 32 \<and> (\<forall>g \<in> set fs. apart f g) \<and> spans_ok fs" "spans_ok []"
  by (auto simp: spans_ok_def sorted_wrt_append)

text \<open>Replacing one fragment by disjoint parts of it.\<close>

lemma spans_ok_split:
  assumes "spans_ok (fs @ f # gs)" "\<forall>h \<in> set hs. within h f" "sorted_wrt apart hs"
  shows "spans_ok (fs @ hs @ gs)"
proof -
  have "f_end h < 2 ^ 32 \<and> (\<forall>g \<in> set gs. apart h g) \<and> (\<forall>g \<in> set fs. apart g h)" if "h \<in> set hs" for h
  proof -
    have w: "within h f" using assms(2) that by blast
    then have "f_end h \<le> f_end f" by (simp add: within_def)
    then show ?thesis using assms(1) apart_within(1) [OF _ w] apart_within(2) [OF _ w] by (auto simp: spans_ok_simps)
  qed
  then show ?thesis using assms(1,3) by (auto simp: spans_ok_simps) (simp add: spans_ok_def)
qed

definition key_of :: "Fragment \<Rightarrow> InsertionFragmentKey" where
  "key_of f = InsertionFragmentKey (frag_timestamp f) (frag_insertion_offset f)"

lemma key_of_new: "insertion_key (InsertionFragment_new f) = key_of f" "edit_key insertion_key (insert_new f) = key_of f"
  by (simp_all add: insertion_key_def InsertionFragment_new_def key_of_def insert_new_def)

lemma key_of_apart: "apart f g \<Longrightarrow> 0 < frag_len f \<Longrightarrow> key_of f \<noteq> key_of g"
  by (auto simp: apart_def key_of_def f_end_def f_off_def word_less_nat_alt)

text \<open>The index that knows every fragment.\<close>

definition index_of :: "Fragment list \<Rightarrow> InsertionFragmentKey \<Rightarrow> InsertionFragment option" where
  "index_of fs = key_map insertion_key (map InsertionFragment_new fs)"

lemma index_of_simps [simp]:
  "index_of [] = Map.empty" "index_of (f # fs) = (index_of fs)(key_of f \<mapsto> InsertionFragment_new f)"
  "index_of (fs @ gs) = index_of gs ++ index_of fs"
  by (simp_all add: index_of_def key_of_new)

lemma dom_index_of: "dom (index_of fs) = key_of ` set fs"
  by (induction fs) (auto simp: set_eq_iff domIff split: if_splits)

section \<open>Slices and visibility\<close>

text \<open>The edits that decide whether a fragment is shown: its insertion, unless it is the base text,
  and its deletions.  Each of them has a slice that covers the fragment.\<close>

definition base_timestamp :: Lamport where
  "base_timestamp = Lamport_new LOCAL"

definition affecting :: "Fragment \<Rightarrow> Lamport set" where
  "affecting f = set (frag_deletions f) \<union> ({frag_timestamp f} - {base_timestamp})"

definition covered :: "InsertionSlice set \<Rightarrow> Lamport \<Rightarrow> Fragment \<Rightarrow> bool" where
  "covered S e f \<longleftrightarrow> (\<exists>s \<in> S. is_edit_id s = e \<and> is_insertion_id s = frag_timestamp f \<and>
     unat (is_start s) \<le> f_off f \<and> f_end f \<le> unat (is_end s))"

definition shown :: "(Lamport \<Rightarrow> bool) \<Rightarrow> Fragment \<Rightarrow> bool" where
  "shown undone f \<longleftrightarrow> \<not> undone (frag_timestamp f) \<and> (\<forall>d \<in> set (frag_deletions f). undone d)"

definition frag_good :: "(Lamport \<Rightarrow> bool) \<Rightarrow> InsertionSlice set \<Rightarrow> Fragment \<Rightarrow> bool" where
  "frag_good undone S f \<longleftrightarrow> frag_visible f = shown undone f \<and> (\<forall>e \<in> affecting f. covered S e f)"

lemma covered_within: "covered S e f \<Longrightarrow> within g f \<Longrightarrow> S \<subseteq> S' \<Longrightarrow> covered S' e g"
  unfolding covered_def within_def using le_trans by (metis subsetD)

lemma frag_good_mono: "frag_good undone S f \<Longrightarrow> S \<subseteq> S' \<Longrightarrow> frag_good undone S' f"
  using covered_within [of S _ f f] by (auto simp: frag_good_def within_def)

lemma covered_self:
  assumes "f_end f < 2 ^ 32" shows "covered {InsertionSlice_from_fragment e f} e f"
proof -
  have "unat (frag_insertion_offset f + frag_len f) = f_end f"
    using assms by (simp add: f_end_def f_off_def unat_word_ariths)
  then show ?thesis by (simp add: covered_def InsertionSlice_from_fragment_def f_off_def)
qed

text \<open>The text that is shown when other edits are undone.\<close>

definition shown_text :: "(Lamport \<Rightarrow> bool) \<Rightarrow> Piece list \<Rightarrow> ustr" where
  "shown_text undone ps = concat (map snd (filter (\<lambda>p. shown undone (fst p)) ps))"

lemma shown_text_simps [simp]:
  "shown_text undone [] = []" "shown_text undone (p # ps) = (if shown undone (fst p) then snd p else []) @ shown_text undone ps"
  "shown_text undone (ps @ qs) = shown_text undone ps @ shown_text undone qs"
  by (simp_all add: shown_text_def)

lemma shown_text_vis: "(\<And>p. p \<in> set ps \<Longrightarrow> frag_visible (fst p) = shown undone (fst p)) \<Longrightarrow> shown_text undone ps = vis ps"
  by (induction ps) auto

section \<open>Parts of a fragment\<close>

text \<open>The part of a fragment with the text \<open>x\<close>, after the text \<open>u\<close>.\<close>

definition part :: "Fragment \<Rightarrow> ustr \<Rightarrow> ustr \<Rightarrow> Fragment" where
  "part f u x = f\<lparr>frag_len := word_of_nat (text_len x), frag_insertion_offset := frag_insertion_offset f + word_of_nat (text_len u)\<rparr>"

text \<open>What is left of the pieces when the text \<open>u\<close> of the first one is consumed, and which of them
  the index still knows.\<close>

fun left_of :: "Piece list \<Rightarrow> ustr \<Rightarrow> Piece list" where
  "left_of [] u = []"
| "left_of ((f, t) # ps) u =
     (if u = [] then (f, t) # ps else if u = t then ps else (part f u (drop (length u) t), drop (length u) t) # ps)"

definition rest_of :: "Piece list \<Rightarrow> ustr \<Rightarrow> Piece list" where
  "rest_of ps u = (if u = [] then ps else tl ps)"

lemma left_of_Nil [simp]: "left_of ps [] = ps"
  by (cases ps) auto

lemma left_of_consumed: "t \<noteq> [] \<Longrightarrow> left_of ((f, t) # ps) t = ps"
  by simp

lemma part_sel [simp]:
  "frag_id (part f u x) = frag_id f" "frag_timestamp (part f u x) = frag_timestamp f" "frag_visible (part f u x) = frag_visible f"
  "frag_deletions (part f u x) = frag_deletions f" "frag_max_undos (part f u x) = frag_max_undos f"
  "frag_len (part f u x) = word_of_nat (text_len x)" "frag_insertion_offset (part f u x) = frag_insertion_offset f + word_of_nat (text_len u)"
  by (simp_all add: part_def)

lemma vis_left: "ps = (f, u @ w) # qs \<Longrightarrow> vis ps = (if frag_visible f then u else []) @ vis (left_of ps u)"
  "ps = (f, u @ w) # qs \<Longrightarrow> del ps = (if frag_visible f then [] else u) @ del (left_of ps u)"
  by auto

lemma part_off:
  assumes "piece_ok (f, u @ x @ y)" "f_end f < 2 ^ 32"
  shows "f_off (part f u x) = f_off f + text_len u" "f_end (part f u x) = f_off f + text_len u + text_len x"
proof -
  have len: "unat (frag_len f) = text_len u + text_len x + text_len y" using assms(1) by (simp add: piece_ok_def)
  have "f_off f + text_len u + text_len x < 2 ^ 32" using assms(2) len by (simp add: f_end_def)
  then show "f_off (part f u x) = f_off f + text_len u" "f_end (part f u x) = f_off f + text_len u + text_len x"
    by (simp_all add: f_off_def f_end_def unat_word_ariths unat_of_nat)
qed

lemma part_within:
  assumes "piece_ok (f, u @ x @ y)" "f_end f < 2 ^ 32" shows "within (part f u x) f"
proof -
  have "unat (frag_len f) = text_len u + text_len x + text_len y" using assms(1) by (simp add: piece_ok_def)
  then show ?thesis using part_off [OF assms] by (simp add: within_def f_end_def)
qed

lemma piece_ok_part:
  assumes "piece_ok (f, u @ x @ y)" "x \<noteq> []" shows "piece_ok (part f u x, x)"
proof -
  have "unat (frag_len f) = text_len u + text_len x + text_len y" using assms(1) by (simp add: piece_ok_def)
  then have "text_len x < 2 ^ 32" using unat_less_length [of "frag_len f"] by simp
  then show ?thesis using assms by (simp add: piece_ok_def fragment_canonical_def unat_of_nat)
qed

section \<open>Bytes with their origin\<close>

text \<open>Every byte of a buffer keeps its identity: the insertion that it comes from and its offset
  there.  The bytes of a piece, of all pieces and of the visible ones, with their identities.\<close>

type_synonym Origin = "Lamport \<times> nat"

type_synonym Byte = "(code_point \<times> nat) \<times> Origin"

definition origins :: "Fragment \<Rightarrow> Origin list" where
  "origins f = map (Pair (frag_timestamp f)) [f_off f..<f_end f]"

definition piece_bytes :: "Piece \<Rightarrow> Byte list" where
  "piece_bytes p = zip (bytes (snd p)) (origins (fst p))"

definition all_bytes :: "Piece list \<Rightarrow> Byte list" where
  "all_bytes ps = concat (map piece_bytes ps)"

definition vis_bytes :: "Piece list \<Rightarrow> Byte list" where
  "vis_bytes ps = concat (map piece_bytes (filter (\<lambda>p. frag_visible (fst p)) ps))"

lemma piece_bytes_simps [simp]:
  "all_bytes [] = []" "all_bytes (p # ps) = piece_bytes p @ all_bytes ps" "all_bytes (ps @ qs) = all_bytes ps @ all_bytes qs"
  "vis_bytes [] = []" "vis_bytes (p # ps) = (if frag_visible (fst p) then piece_bytes p else []) @ vis_bytes ps"
  "vis_bytes (ps @ qs) = vis_bytes ps @ vis_bytes qs"
  by (simp_all add: all_bytes_def vis_bytes_def)

lemma length_piece_bytes: "piece_ok p \<Longrightarrow> length (piece_bytes p) = text_len (snd p)"
  by (simp add: piece_bytes_def origins_def piece_ok_def f_end_def)

lemma length_vis_bytes: "\<forall>p \<in> set ps. piece_ok p \<Longrightarrow> length (vis_bytes ps) = text_len (vis ps)"
  by (induction ps) (auto simp: length_piece_bytes)

lemma piece_bytes_timestamp: "m \<in> set (piece_bytes p) \<Longrightarrow> fst (snd m) = frag_timestamp (fst p)"
  unfolding piece_bytes_def origins_def by (cases m) (auto dest!: set_zip_rightD)

text \<open>The bytes of a part of a piece, which may have got another identifier and other marks.\<close>

lemma piece_bytes_part:
  assumes "piece_ok (f, u @ x @ y)" "f_end f < 2 ^ 32"
    and "frag_timestamp g = frag_timestamp f" "frag_insertion_offset g = frag_insertion_offset f + word_of_nat (text_len u)"
      "frag_len g = word_of_nat (text_len x)"
  shows "piece_bytes (g, x) = take (text_len x) (drop (text_len u) (piece_bytes (f, u @ x @ y)))"
proof -
  note off = part_off [OF assms(1,2)]
  have "f_off g = f_off f + text_len u" "f_end g = f_off f + text_len u + text_len x"
    using off assms(4,5) by (simp_all add: f_off_def f_end_def)
  moreover have "f_end f = f_off f + text_len u + text_len x + text_len y" using assms(1) by (simp add: f_end_def piece_ok_def)
  ultimately show ?thesis using assms(3) by (simp add: piece_bytes_def origins_def drop_zip take_zip drop_map take_map drop_upt take_upt)
qed

lemma take_piece_bytes:
  assumes "piece_ok (f, u @ x @ y)" "piece_bytes (g, x) = take (text_len x) (drop (text_len u) (piece_bytes (f, u @ x @ y)))"
  shows "take (text_len (u @ x)) (piece_bytes (f, u @ x @ y) @ bs) = take (text_len u) (piece_bytes (f, u @ x @ y) @ bs) @ piece_bytes (g, x)"
  using length_piece_bytes [OF assms(1)] assms(2) by (simp add: take_add)

end
