(* ===== verification/Text_Edit_Steps.thy ===== *)
theory Text_Edit_Steps
  imports Text_Edit_Parts
begin

text \<open>
  What the steps of \<open>apply_local_edit\<close> do to the fragments, the texts, the patch and the indexes: the
  state of the loop is described by the pieces that the cursor has passed, the pieces from the
  current one on, how much of the current one is consumed, and the new pieces.
\<close>

section \<open>The invariant of the loop\<close>

text \<open>What stays the same during the loop: the old tree, the timestamp of the edit, the edits that are
  undone, the old slices and index, the old and the new text.\<close>

record EditContext =
  ec_tree :: FragmentTree
  ec_timestamp :: Lamport
  ec_undone :: "Lamport \<Rightarrow> bool"
  ec_slices :: "InsertionSlice set"
  ec_index :: "InsertionFragmentKey \<Rightarrow> InsertionFragment option"
  ec_bytes :: "Byte list"
  ec_old :: ustr
  ec_new :: ustr

definition old_piece :: "EditContext \<Rightarrow> Piece \<Rightarrow> bool" where
  "old_piece ctx p \<longleftrightarrow> piece_ok p \<and> frag_good (ec_undone ctx) (ec_slices ctx) (fst p) \<and> f_end (fst p) < 2 ^ 32 \<and>
     frag_timestamp (fst p) \<noteq> ec_timestamp ctx \<and> ec_timestamp ctx \<notin> set (frag_deletions (fst p))"

text \<open>The new pieces and the updates of the indexes.\<close>

definition out_ok :: "EditContext \<Rightarrow> EditState \<Rightarrow> Piece list \<Rightarrow> Piece list \<Rightarrow> ustr \<Rightarrow> bool" where
  "out_ok ctx st N A u \<longleftrightarrow>
     built (es_new st) N \<and> (\<forall>p \<in> set A. old_piece ctx p) \<and> spans_ok (map fst (N @ left_of A u)) \<and>
     foldl (\<lambda>m e. apply_edit insertion_key e m) (ec_index ctx) (es_insertions st) = index_of (map fst (N @ rest_of A u)) \<and>
     distinct (map (edit_key insertion_key) (es_insertions st)) \<and>
     set (map (edit_key insertion_key) (es_insertions st)) \<subseteq> key_of ` set (map fst N) \<and>
     distinct (es_slices st) \<and> set (es_slices st) \<subseteq> InsertionSlice_from_fragment (ec_timestamp ctx) ` set (map fst N) \<and>
     (\<forall>p \<in> set N. frag_good (ec_undone ctx) (ec_slices ctx \<union> set (es_slices st)) (fst p)) \<and>
     (\<forall>p \<in> set N. frag_timestamp (fst p) = ec_timestamp ctx \<longrightarrow> f_end (fst p) \<le> unat (es_insertion_offset st))"

text \<open>The new texts.\<close>

definition texts_ok :: "RopeBuilder \<Rightarrow> Piece list \<Rightarrow> Piece list \<Rightarrow> ustr \<Rightarrow> bool" where
  "texts_ok b N A u \<longleftrightarrow> ropes_at b (vis (left_of A u)) (del (left_of A u)) (vis N) (del N)"

text \<open>The cursor and \<open>fragment_start\<close>.\<close>

definition cursor_ok :: "EditContext \<Rightarrow> (Fragment, FragmentSum, FragmentTextSummary) Cursor \<Rightarrow> nat \<Rightarrow> Piece list \<Rightarrow> Piece list \<Rightarrow> ustr \<Rightarrow> bool" where
  "cursor_ok ctx c i B A u \<longleftrightarrow>
     c_tree c = ec_tree ctx \<and> tree_pieces (ec_tree ctx) (B @ A) \<and> height (ec_tree ctx) \<le> 7 \<and> ec_bytes ctx = vis_bytes (B @ A) \<and>
     cursor_at fragment_ops FragmentText_dim c (map fst B) (map fst A) \<and>
     (u \<noteq> [] \<longrightarrow> (\<exists>f w A'. A = (f, u @ w) # A' \<and> frag_visible f)) \<and> i = text_len (vis B @ u)"

definition patch_ok :: "EditContext \<Rightarrow> Patch \<Rightarrow> nat \<Rightarrow> Piece list \<Rightarrow> bool" where
  "patch_ok ctx p i N \<longleftrightarrow> separated p \<and> patch_to 0 0 p (ec_bytes ctx) (vis_bytes N) i (length (vis_bytes N))"

definition frag_ids :: "Piece list \<Rightarrow> Locator list" where
  "frag_ids ps = map (\<lambda>p. frag_id (fst p)) ps"

text \<open>The bytes of the pieces so far are kept in their order, with new ones between them, and undoing
  the edit takes the new pieces back: whatever else is undone, they show what the old pieces did.\<close>

definition recovers :: "Lamport \<Rightarrow> Piece list \<Rightarrow> Piece list \<Rightarrow> Piece list \<Rightarrow> ustr \<Rightarrow> bool" where
  "recovers timestamp N B A u \<longleftrightarrow>
     filter (\<lambda>m. fst (snd m) \<noteq> timestamp) (all_bytes N) = all_bytes B @ take (text_len u) (all_bytes A) \<and>
     (\<forall>v. v timestamp \<longrightarrow> shown_text v N = shown_text v B @ (if u \<noteq> [] \<and> shown v (fst (hd A)) then u else []))"

lemma filter_piece_bytes:
  "frag_timestamp (fst p) \<noteq> e \<Longrightarrow> filter (\<lambda>m. fst (snd m) \<noteq> e) (piece_bytes p) = piece_bytes p"
  "frag_timestamp (fst p) = e \<Longrightarrow> filter (\<lambda>m. fst (snd m) \<noteq> e) (piece_bytes p) = []"
  by (auto simp: filter_id_conv filter_empty_conv dest: piece_bytes_timestamp)

lemma filter_all_bytes:
  "\<forall>p \<in> set ps. frag_timestamp (fst p) \<noteq> e \<Longrightarrow> filter (\<lambda>m. fst (snd m) \<noteq> e) (all_bytes ps) = all_bytes ps"
  by (induction ps) (simp_all add: filter_piece_bytes(1))

lemma recovers_part:
  assumes "recovers e N B A u" "A = (f, u @ x @ y) # A'" "x \<noteq> []" "\<And>v. v e \<Longrightarrow> shown v g = shown v f"
    and "piece_ok (f, u @ x @ y)" "f_end f < 2 ^ 32" "frag_timestamp f \<noteq> e"
    and g: "frag_timestamp g = frag_timestamp f" "frag_insertion_offset g = frag_insertion_offset f + word_of_nat (text_len u)"
      "frag_len g = word_of_nat (text_len x)"
  shows "recovers e (N @ [(g, x)]) B A (u @ x)"
  using assms(1-4,7) filter_piece_bytes(1) [of "(g, x)" e] g(1) take_piece_bytes [OF assms(5) piece_bytes_part [OF assms(5,6) g], of "all_bytes A'"]
  by (auto simp: recovers_def)

lemma recovers_next: "recovers e N B ((f, t) # A) t \<Longrightarrow> piece_ok (f, t) \<Longrightarrow> recovers e N (B @ [(f, t)]) A []"
  using length_piece_bytes [of "(f, t)"] by (auto simp: recovers_def piece_ok_def)

lemma recovers_new: "recovers e N B A u \<Longrightarrow> (\<And>v. v e \<Longrightarrow> \<not> shown v g) \<Longrightarrow> frag_timestamp g = e \<Longrightarrow> recovers e (N @ [(g, x)]) B A u"
  using filter_piece_bytes(2) [of "(g, x)" e] by (auto simp: recovers_def)

lemma recovers_whole: "recovers e N B (S @ R) [] \<Longrightarrow> \<forall>p \<in> set S. frag_timestamp (fst p) \<noteq> e \<Longrightarrow> recovers e (N @ S) (B @ S) R []"
  using filter_all_bytes [of S e] by (auto simp: recovers_def)

lemma recovers_start: "\<forall>p \<in> set S. frag_timestamp (fst p) \<noteq> e \<Longrightarrow> recovers e S S R []"
  using filter_all_bytes [of S e] by (auto simp: recovers_def)

definition edit_inv :: "EditContext \<Rightarrow> EditState \<Rightarrow> Piece list \<Rightarrow> Piece list \<Rightarrow> ustr \<Rightarrow> Piece list \<Rightarrow> ustr \<Rightarrow> bool" where
  "edit_inv ctx st B A u N r \<longleftrightarrow>
     cursor_ok ctx (es_old st) (es_start st) B A u \<and> out_ok ctx st N A u \<and> texts_ok (es_ropes st) N A u \<and>
     patch_ok ctx (es_patch st) (es_start st) N \<and> ids_ok (frag_ids (N @ A)) \<and>
     ec_old ctx = vis B @ u @ vis (left_of A u) \<and> ec_new ctx = vis N @ r \<and> recovers (ec_timestamp ctx) N B A u"

section \<open>The current piece\<close>

lemma left_of_head:
  assumes "A = (f, u @ w) # A'" "w \<noteq> []" "piece_ok (f, u @ w)" "f_end f < 2 ^ 32"
  obtains h where "left_of A u = (h, w) # A'" "f_off h = f_off f + text_len u" "f_end h = f_off f + text_len u + text_len w"
    "frag_timestamp h = frag_timestamp f" "frag_visible h = frag_visible f" "piece_ok (h, w)" "u = [] \<Longrightarrow> h = f"
proof (cases "u = []")
  case True
  then show thesis using assms that [of f] by (simp add: piece_ok_def f_end_def)
next
  case False
  have "piece_ok (f, u @ w @ [])" using assms(3) by simp
  from part_off [OF this assms(4)] piece_ok_part [OF this assms(2)] show thesis
    using False assms(1,2) that [of "part f u w"] by simp
qed

lemma left_of_end: "A = (f, u) # A' \<Longrightarrow> u \<noteq> [] \<Longrightarrow> left_of A u = A'"
  by simp

text \<open>Consuming \<open>x\<close> of the current piece.\<close>

lemma left_of_consume:
  assumes A: "A = (f, u @ x @ y) # A'" "x \<noteq> []" "piece_ok (f, u @ x @ y)" "f_end f < 2 ^ 32"
    and g: "within g (part f u x)" and spans: "spans_ok (ns @ map fst (left_of A u))"
  shows "spans_ok (ns @ g # map fst (left_of A (u @ x)))"
    and "vis (left_of A u) = (if frag_visible f then x else []) @ vis (left_of A (u @ x))"
    and "del (left_of A u) = (if frag_visible f then [] else x) @ del (left_of A (u @ x))"
proof -
  obtain h where h: "left_of A u = (h, x @ y) # A'" "f_off h = f_off f + text_len u" "f_end h = f_off f + text_len u + text_len (x @ y)"
    "frag_timestamp h = frag_timestamp f" "frag_visible h = frag_visible f"
    using left_of_head [of A f u "x @ y" A'] A by auto
  note off = part_off [OF A(3,4)]
  have gh: "within g h" using g off h(2-4) by (auto simp: within_def)
  show "spans_ok (ns @ g # map fst (left_of A (u @ x)))"
  proof (cases "y = []")
    case True
    then have "left_of A (u @ x) = A'" using A(1,2) by simp
    then show ?thesis using spans_ok_split [of ns h "map fst A'" "[g]"] spans gh h(1) by simp
  next
    case False
    have ok: "piece_ok (f, (u @ x) @ y @ [])" using A(3) by simp
    note off' = part_off [OF ok A(4)]
    have "left_of A (u @ x) = (part f (u @ x) y, y) # A'" using A(1,2) False by simp
    moreover have "within (part f (u @ x) y) h" using off' h(2-4) by (simp add: within_def)
    moreover have "apart g (part f (u @ x) y)" using g off off' by (auto simp: apart_def within_def)
    ultimately show ?thesis using spans_ok_split [of ns h "map fst A'" "[g, part f (u @ x) y]"] spans gh h(1) by simp
  qed
  show "vis (left_of A u) = (if frag_visible f then x else []) @ vis (left_of A (u @ x))"
    "del (left_of A u) = (if frag_visible f then [] else x) @ del (left_of A (u @ x))"
    using h(1,5) A(1,2) by (cases "y = []"; auto)+
qed

text \<open>The index after a part of the current piece is inserted.\<close>

lemma index_consume:
  assumes "A = (f, t) # A'" "x \<noteq> []" "key_of g \<notin> key_of ` set ns" "u = [] \<Longrightarrow> key_of g = key_of f"
  shows "(index_of (ns @ map fst (rest_of A u)))(key_of g \<mapsto> InsertionFragment_new g) =
    index_of (ns @ g # map fst (rest_of A (u @ x)))"
proof
  fix k
  have "key_of g \<notin> dom (index_of ns)" using assms(3) by (simp add: dom_index_of)
  then have n: "index_of ns (key_of g) = None" by (simp add: domIff)
  show "((index_of (ns @ map fst (rest_of A u)))(key_of g \<mapsto> InsertionFragment_new g)) k = index_of (ns @ g # map fst (rest_of A (u @ x))) k"
    using assms(1,2,4) n by (cases "u = []") (auto simp: rest_of_def map_add_def split: option.splits)
qed

text \<open>Pushing a part of the current piece: the old fragment \<open>f\<close> is replaced by \<open>g\<close> for the text \<open>x\<close>.
  The slice of a deleted part has been recorded before.\<close>

lemma push_part_ok:
  assumes out: "out_ok ctx st N A u" and texts: "texts_ok (es_ropes st) N A u"
    and A: "A = (f, u @ x @ y) # A'" "x \<noteq> []"
    and g: "frag_timestamp g = frag_timestamp f" "frag_insertion_offset g = frag_insertion_offset f + word_of_nat (text_len u)"
      "frag_len g = word_of_nat (text_len x)" "frag_max_undos g = frag_max_undos f"
    and good: "frag_good (ec_undone ctx) (ec_slices ctx \<union> set (es_slices st @ ss)) g"
    and ss: "ss = [] \<or> ss = [InsertionSlice_from_fragment (ec_timestamp ctx) g]"
  obtains r b where "push_part (st\<lparr>es_patch := p, es_slices := es_slices st @ ss\<rparr>) g (frag_visible f) =
      Some (st\<lparr>es_patch := p, es_slices := es_slices st @ ss, es_insertions := es_insertions st @ [insert_new g], es_ropes := r, es_new := b\<rparr>)"
    "out_ok ctx (st\<lparr>es_patch := p, es_slices := es_slices st @ ss, es_insertions := es_insertions st @ [insert_new g], es_ropes := r, es_new := b\<rparr>)
      (N @ [(g, x)]) A (u @ x)"
    "texts_ok r (N @ [(g, x)]) A (u @ x)"
proof -
  have old: "\<forall>p \<in> set A. old_piece ctx p" and spans: "spans_ok (map fst N @ map fst (left_of A u))" using out by (simp_all add: out_ok_def)
  then have f: "piece_ok (f, u @ x @ y)" "f_end f < 2 ^ 32" "frag_timestamp f \<noteq> ec_timestamp ctx" using A(1) by (simp_all add: old_piece_def)
  note off = part_off [OF f(1,2)]
  have gp: "within g (part f u x)" using g by (simp add: within_def f_off_def f_end_def)
  have len: "frag_len g = frag_len (part f u x)" using g by simp
  have piece: "piece_ok (g, x)" using piece_ok_part [OF f(1) A(2)] g by (simp add: piece_ok_def fragment_canonical_def)
  note consume = left_of_consume [OF A f(1,2) gp spans]
  have pos: "0 < frag_len g" using piece by (auto simp: piece_ok_def word_gt_0) 
  have fresh: "key_of g \<noteq> key_of h" if "h \<in> set (map fst N)" for h
  proof -
    have "apart h g" using consume(1) that by (auto simp: spans_ok_simps)
    moreover have "0 < frag_len h" using out that by (auto simp: out_ok_def built_def piece_ok_def word_gt_0)
    ultimately show ?thesis using key_of_apart [of h g] pos by metis
  qed
  then have freshN: "key_of g \<notin> key_of ` set (map fst N)" by auto
  have "u = [] \<Longrightarrow> key_of g = key_of f" using g by (simp add: key_of_def)
  note index = index_consume [OF A freshN this]
  have "ropes_at (es_ropes st) (if frag_visible f then x @ vis (left_of A (u @ x)) else vis (left_of A (u @ x)))
      (if frag_visible f then del (left_of A (u @ x)) else x @ del (left_of A (u @ x))) (vis N) (del N)"
    using texts consume(2,3) by (simp add: texts_ok_def split: if_splits)
  from rb_push_fragment_ok [OF this piece]
  obtain r where r: "rb_push_fragment (es_ropes st) g (frag_visible f) = Some r"
    "ropes_at r (vis (left_of A (u @ x))) (del (left_of A (u @ x))) (vis N @ vis [(g, x)]) (del N @ del [(g, x)])"
    by metis
  have "built (es_new st) N" using out by (simp add: out_ok_def)
  from fb_push_ok [OF this piece] obtain b where b: "fb_push (es_new st) g = Some b" "built b (N @ [(g, x)])" by blast
  let ?st = "st\<lparr>es_patch := p, es_slices := es_slices st @ ss, es_insertions := es_insertions st @ [insert_new g], es_ropes := r, es_new := b\<rparr>"
  have "InsertionSlice_from_fragment (ec_timestamp ctx) g \<notin> set (es_slices st)"
  proof
    assume "InsertionSlice_from_fragment (ec_timestamp ctx) g \<in> set (es_slices st)"
    then obtain h where "h \<in> set (map fst N)" "InsertionSlice_from_fragment (ec_timestamp ctx) g = InsertionSlice_from_fragment (ec_timestamp ctx) h"
      using out unfolding out_ok_def by blast
    then show False using fresh [of h] by (simp add: InsertionSlice_from_fragment_def key_of_def)
  qed
  then have slices: "distinct (es_slices st @ ss)"
    "set (es_slices st @ ss) \<subseteq> InsertionSlice_from_fragment (ec_timestamp ctx) ` set (map fst (N @ [(g, x)]))"
    using out ss by (auto simp: out_ok_def)
  have "out_ok ctx ?st (N @ [(g, x)]) A (u @ x)"
    unfolding out_ok_def
  proof (intro conjI)
    show "foldl (\<lambda>m e. apply_edit insertion_key e m) (ec_index ctx) (es_insertions ?st) = index_of (map fst ((N @ [(g, x)]) @ rest_of A (u @ x)))"
      using index out by (simp add: out_ok_def insert_new_def key_of_new(1))
    show "distinct (map (edit_key insertion_key) (es_insertions ?st))"
      "set (map (edit_key insertion_key) (es_insertions ?st)) \<subseteq> key_of ` set (map fst (N @ [(g, x)]))"
      using out freshN by (auto simp: out_ok_def key_of_new(2))
    show "\<forall>p \<in> set (N @ [(g, x)]). frag_good (ec_undone ctx) (ec_slices ctx \<union> set (es_slices ?st)) (fst p)"
      using out good by (auto simp: out_ok_def intro: frag_good_mono)
  qed (use b(2) old consume(1) slices f(3) g(1) out in \<open>simp_all add: out_ok_def\<close>)
  moreover have "texts_ok r (N @ [(g, x)]) A (u @ x)" using r(2) by (simp add: texts_ok_def)
  ultimately show thesis using r(1) b(1) by (intro that [where r = r and b = b]) (simp_all add: push_part_def)
qed

text \<open>Going on to the next piece.\<close>

lemma out_next: "out_ok ctx st N ((f, t) # A) t \<Longrightarrow> t \<noteq> [] \<Longrightarrow> out_ok ctx st N A []"
  by (simp add: out_ok_def rest_of_def)

lemma texts_next: "texts_ok b N ((f, t) # A) t \<Longrightarrow> t \<noteq> [] \<Longrightarrow> texts_ok b N A []"
  by (simp add: texts_ok_def)

section \<open>The cursor over the fragments\<close>

lemma advance_text:
  "\<forall>p \<in> set ps. piece_ok p \<Longrightarrow>
     fragment_text.adv q (map fst ps) = \<lparr>ft_visible = ft_visible q + text_len (vis ps), ft_deleted = ft_deleted q + text_len (del ps)\<rparr>"
proof (induction ps arbitrary: q)
  case (Cons p ps)
  then show ?case using fragment_sum_item(1) [of p] by (simp add: FragmentText_dim_def add.assoc)
qed simp

lemma cursor_ok_start: "cursor_ok ctx c i B A u \<Longrightarrow> i = text_len (vis B @ u)"
  by (simp add: cursor_ok_def)

lemma cursor_ok_reads:
  assumes "cursor_ok ctx c i B A u"
  shows "ft_visible (c_position c) = text_len (vis B)" "ft_deleted (c_position c) = text_len (del B)"
    "cursor_item c = Some (map_option fst (list_first A))"
    "map_option ft_visible (cursor_end FragmentText_dim c) = Some (text_len (vis (B @ take 1 A)))"
proof -
  have wf: "wf_tree fragment_ops (c_tree c)" and at: "cursor_at fragment_ops FragmentText_dim c (map fst B) (map fst A)"
    and ok: "\<forall>p \<in> set (B @ A). piece_ok p"
    using assms by (auto simp: cursor_ok_def tree_pieces_def)
  have pos: "c_position c = \<lparr>ft_visible = text_len (vis B), ft_deleted = text_len (del B)\<rparr>"
    using cursor_ready_position [OF cursor_ready_at [OF at]] ok advance_text [of B "dim_zero FragmentText_dim"] by (simp add: FragmentText_dim_def)
  then show "ft_visible (c_position c) = text_len (vis B)" "ft_deleted (c_position c) = text_len (del B)" by simp_all
  show "cursor_item c = Some (map_option fst (list_first A))"
    using fragment_text.cursor_item_ok(1) [OF wf at] by (cases A) (simp_all add: list_first_def)
  show "map_option ft_visible (cursor_end FragmentText_dim c) = Some (text_len (vis (B @ take 1 A)))"
  proof (cases A)
    case (Cons p A')
    then show ?thesis using fragment_text.cursor_item_ok(3) [OF wf at] pos ok fragment_sum_item(1) [of p] by (simp add: FragmentText_dim_def)
  qed (use fragment_text.cursor_item_ok(3) [OF wf at] pos in simp)
qed

lemma cursor_ok_next:
  assumes "cursor_ok ctx c i B (p # A) u"
  obtains c' where "cursor_next FragmentText_dim c = Some c'" "cursor_ok ctx c' (text_len (vis (B @ [p]))) (B @ [p]) A []"
proof -
  have wf: "wf_tree fragment_ops (c_tree c)" "height (c_tree c) < 16" and at: "cursor_at fragment_ops FragmentText_dim c (map fst B) (fst p # map fst A)"
    using assms by (auto simp: cursor_ok_def tree_pieces_def)
  from fragment_text.search_forward_ok [OF wf filter_mono_True at]
  obtain c' where "cursor_next FragmentText_dim c = Some c'" "c_tree c' = c_tree c"
    "cursor_at fragment_ops FragmentText_dim c' (map fst B @ [fst p]) (map fst A)"
    by (auto simp: cursor_next_def rejected_True takeWhile_False)
  then show thesis using that assms by (simp add: cursor_ok_def)
qed

lemma old_part:
  assumes "cursor_ok ctx (es_old st) (es_start st) B ((f, t) # A) u"
  shows "old_item st = Some f" "start_visible st = text_len (vis B)" "es_start st = text_len (vis B) + text_len u"
    "fragment_part st f (es_start st + text_len x) = Some (part f u x)"
  using assms cursor_ok_reads [OF assms]
  by (simp_all add: old_item_def start_visible_def fragment_part_def usize_sub_def part_def list_first_def cursor_ok_def)

subsection \<open>Scanning to a visible offset\<close>

lemma visible_scan:
  assumes "\<forall>p \<in> set A. piece_ok p" "vis A = x @ y"
  obtains S R u where "fragment_text.scan (passes (visible_target (ft_visible q + text_len x)) Bias.Right) q (map fst A) =
      (map fst S, \<lparr>ft_visible = ft_visible q + text_len (vis S), ft_deleted = ft_deleted q + text_len (del S)\<rparr>, map fst R)"
    "A = S @ R" "x = vis S @ u" "R = [] \<Longrightarrow> u = []" "R \<noteq> [] \<Longrightarrow> \<exists>f w A'. R = (f, u @ w) # A' \<and> frag_visible f \<and> w \<noteq> []"
  using assms
proof (induction A arbitrary: q x thesis)
  case Nil
  then show ?case by (cases q) (auto intro: Nil(1) [of "[]" "[]" "[]"])
next
  case (Cons p A)
  obtain f t where p: "p = (f, t)" by (cases p)
  have ok: "piece_ok (f, t)" "\<forall>p \<in> set A. piece_ok p" using Cons.prems p by simp_all
  let ?q = "\<lparr>ft_visible = ft_visible q + text_len (vis [p]), ft_deleted = ft_deleted q + text_len (del [p])\<rparr>"
  have q': "dim_add FragmentText_dim q (item_summary fragment_ops f) = ?q" using fragment_sum_item(1) [OF ok(1)] p by (simp add: FragmentText_dim_def)
  show ?case
  proof (cases "text_len (vis [p]) \<le> text_len x")
    case True
    have "vis [p] @ vis A = x @ y" using Cons.prems(3) by simp
    from text_cut [OF this True] obtain x' where x': "x = vis [p] @ x'" "vis A = x' @ y" by blast
    obtain S R u where S: "fragment_text.scan (passes (visible_target (ft_visible ?q + text_len x')) Bias.Right) ?q (map fst A) =
        (map fst S, \<lparr>ft_visible = ft_visible ?q + text_len (vis S), ft_deleted = ft_deleted ?q + text_len (del S)\<rparr>, map fst R)"
      "A = S @ R" "x' = vis S @ u" "R = [] \<Longrightarrow> u = []" "R \<noteq> [] \<Longrightarrow> \<exists>f w A'. R = (f, u @ w) # A' \<and> frag_visible f \<and> w \<noteq> []"
      using Cons.IH [OF _ ok(2) x'(2)] by metis
    have k: "ft_visible ?q + text_len x' = ft_visible q + text_len x" using x'(1) by simp
    have "passes (visible_target (ft_visible q + text_len x)) Bias.Right ?q"
      using True by (cases "frag_visible (fst p)") (auto simp: passes_def visible_target_def le_less)
    then show ?thesis using S(1) [unfolded k] S(2-5) x'(1) p q'
      by (intro Cons.prems(1) [of "p # S" R u]) (simp_all add: Let_def add.assoc)
  next
    case False
    then have f: "frag_visible f" "\<not> text_len t \<le> text_len x" using p by (auto split: if_splits)
    have "x @ y = t @ vis A" "text_len x \<le> text_len t" using Cons.prems(3) p f by simp_all
    from text_cut [OF this] obtain w where w: "t = x @ w" by blast
    have "\<not> passes (visible_target (ft_visible q + text_len x)) Bias.Right ?q" using False by (simp add: passes_def visible_target_def)
    moreover have "w \<noteq> []" using f(2) w by auto
    ultimately show ?thesis using w f(1) p q'
      by (intro Cons.prems(1) [of "[]" "p # A" x]) (simp_all add: Let_def)
  qed
qed

lemma visible_monot:
  "\<forall>p \<in> set A. piece_ok p \<Longrightarrow> fragment_text.monot (passes (visible_target k) Bias.Right) q (map fst A)"
proof -
  have pass: "passes (visible_target k) Bias.Right = (\<lambda>p. ft_visible p \<le> k)" by (auto simp: passes_def visible_target_def fun_eq_iff)
  have ge: "q' \<in> set (positions FragmentText_dim (item_summary fragment_ops) q fs) \<Longrightarrow> ft_visible q \<le> ft_visible q'" for q q' fs
  proof (induction fs arbitrary: q)
    case (Cons f fs)
    let ?q = "dim_add FragmentText_dim q (item_summary fragment_ops f)"
    have "ft_visible q \<le> ft_visible ?q" by (simp add: FragmentText_dim_def)
    then show ?case using Cons.IH [of ?q] Cons.prems by (auto simp: Let_def)
  qed simp
  have "sorted_wrt (\<lambda>p q. ft_visible p \<le> ft_visible q) (positions FragmentText_dim (item_summary fragment_ops) q fs)" for fs
    by (induction fs arbitrary: q) (auto simp: Let_def dest: ge)
  then have "sorted_wrt (\<lambda>p q. ft_visible p \<le> ft_visible q) (positions FragmentText_dim (item_summary fragment_ops) q (map fst A))" .
  then show ?thesis unfolding seek_mono_def pass by (rule sorted_wrt_mono_rel [rotated]) auto
qed

lemma slice_pieces:
  assumes "c_tree c = ec_tree ctx" "tree_pieces (ec_tree ctx) (B @ A)" "height (ec_tree ctx) \<le> 7"
    "cursor_ready fragment_ops FragmentText_dim c (map fst B) (map fst A)" "ec_bytes ctx = vis_bytes (B @ A)" "vis A = x @ y"
  obtains S R u c' t where "cursor_slice fragment_ops FragmentText_dim c (visible_target (text_len (vis B @ x))) Bias.Right = Some (c', t)"
    "A = S @ R" "x = vis S @ u" "tree_pieces t S" "height t < 16" "cursor_ok ctx c' (text_len (vis (B @ S))) (B @ S) R []"
    "R = [] \<Longrightarrow> u = []" "R \<noteq> [] \<Longrightarrow> \<exists>f w A'. R = (f, u @ w) # A' \<and> frag_visible f \<and> w \<noteq> []"
proof -
  have ok: "\<forall>p \<in> set A. piece_ok p" "\<forall>p \<in> set B. piece_ok p" and wf: "wf_tree fragment_ops (c_tree c)" "height (c_tree c) < 16"
    using assms by (auto simp: tree_pieces_def)
  have pos: "ft_visible (c_position c) = text_len (vis B)"
    using cursor_ready_position [OF assms(4)] advance_text [OF ok(2), of "dim_zero FragmentText_dim"] by (simp add: FragmentText_dim_def)
  let ?t = "visible_target (text_len (vis B @ x))"
  have start: "?t (c_position c) \<noteq> Less" using pos by (simp add: visible_target_def cmp_def)
  show thesis
  proof (rule visible_scan [OF ok(1) assms(6), of "c_position c"])
    fix S R u
    assume s: "fragment_text.scan (passes (visible_target (ft_visible (c_position c) + text_len x)) Bias.Right) (c_position c) (map fst A) =
        (map fst S, \<lparr>ft_visible = ft_visible (c_position c) + text_len (vis S), ft_deleted = ft_deleted (c_position c) + text_len (del S)\<rparr>, map fst R)"
      "A = S @ R" "x = vis S @ u" "R = [] \<Longrightarrow> u = []" "R \<noteq> [] \<Longrightarrow> \<exists>f w A'. R = (f, u @ w) # A' \<and> frag_visible f \<and> w \<noteq> []"
    have target: "ft_visible (c_position c) + text_len x = text_len (vis B @ x)" using pos by simp
    from fragment_text.cursor_slice_ok [OF wf assms(4) start visible_monot [OF ok(1)] s(1) [unfolded target]]
    obtain c' t where c': "cursor_slice fragment_ops FragmentText_dim c ?t Bias.Right = Some (c', t)" "wf_tree fragment_ops t" "flatten t = map fst S"
      "cursor_at fragment_ops FragmentText_dim c' (map fst B @ map fst S) (map fst R)" "c_tree c' = c_tree c" by blast
    have "height t < 16" using fragment_text.cursor_slice_height [OF wf(1) assms(4) c'(1)] assms(1,3) by (simp split: if_splits)
    moreover have "tree_pieces t S" using c'(2,3) ok(1) s(2) by (simp add: tree_pieces_def)
    moreover have "cursor_ok ctx c' (text_len (vis (B @ S))) (B @ S) R []" using c'(4,5) assms(1-3,5) s(2) by (simp add: cursor_ok_def)
    ultimately show thesis using that c'(1) s(2-5) by blast
  qed
qed

section \<open>The steps\<close>

lemma frag_good_part:
  "frag_good undone S f \<Longrightarrow> within g f \<Longrightarrow> frag_deletions g = frag_deletions f \<Longrightarrow> frag_visible g = frag_visible f \<Longrightarrow> S \<subseteq> S' \<Longrightarrow>
     frag_good undone S' g"
  using covered_within [of S _ f g S'] by (auto simp: frag_good_def shown_def affecting_def within_def)

lemma patch_to_more: "patch_to a b p A B i j \<Longrightarrow> patch_to a b p A (B @ C) i j"
  by (induction p arbitrary: a b) (auto simp: same_run_def nth_append)

lemma patch_keep:
  assumes "patch_ok ctx p i N" "take n (drop i (ec_bytes ctx)) = vis_bytes X" "length (vis_bytes X) = n"
  shows "patch_ok ctx p (i + n) (N @ X)"
proof -
  have p: "patch_to 0 0 p (ec_bytes ctx) (vis_bytes (N @ X)) i (length (vis_bytes N))" "i \<le> length (ec_bytes ctx)"
    using assms(1) patch_to_more [of 0 0 p "ec_bytes ctx" "vis_bytes N" i "length (vis_bytes N)" "vis_bytes X"]
      patch_to_bounds [of 0 0 p "ec_bytes ctx" "vis_bytes N" i "length (vis_bytes N)"] by (simp_all add: patch_ok_def)
  have len: "min (length (ec_bytes ctx) - i) n = n" using arg_cong [OF assms(2), of length] assms(3) by simp
  have "ec_bytes ctx ! (i + k) = vis_bytes X ! k" if "k < n" for k
    using that p(2) arg_cong [OF assms(2), of "\<lambda>l. l ! k"] by simp
  then have "same_run n i (length (vis_bytes N)) (ec_bytes ctx) (vis_bytes (N @ X))"
    using p(2) len assms(3) by (auto simp: same_run_def)
  from patch_to_run [OF p(1) this] show ?thesis using assms(1,3) by (simp add: patch_ok_def)
qed

text \<open>The bytes that the cursor stands at.\<close>

lemma cursor_bytes:
  assumes "cursor_ok ctx c i B ((f, u @ x @ y) # A') u" "frag_visible f" "f_end f < 2 ^ 32"
    and g: "frag_timestamp g = frag_timestamp f" "frag_insertion_offset g = frag_insertion_offset f + word_of_nat (text_len u)"
      "frag_len g = word_of_nat (text_len x)"
  shows "take (text_len x) (drop i (ec_bytes ctx)) = piece_bytes (g, x)"
proof -
  have ok: "\<forall>p \<in> set B. piece_ok p" "piece_ok (f, u @ x @ y)" and i: "i = text_len (vis B) + text_len u"
    and b: "ec_bytes ctx = vis_bytes B @ piece_bytes (f, u @ x @ y) @ vis_bytes A'"
    using assms(1,2) by (simp_all add: cursor_ok_def tree_pieces_def)
  show ?thesis using length_vis_bytes [OF ok(1)] length_piece_bytes [OF ok(2)] piece_bytes_part [OF ok(2) assms(3) g] unfolding i b by simp
qed

lemma cursor_bytes_whole:
  assumes "cursor_ok ctx c i B (S @ R) []"
  shows "take (text_len (vis S)) (drop i (ec_bytes ctx)) = vis_bytes S"
proof -
  have "\<forall>p \<in> set B. piece_ok p" "\<forall>p \<in> set S. piece_ok p" using assms by (simp_all add: cursor_ok_def tree_pieces_def)
  from this [THEN length_vis_bytes] show ?thesis using assms by (simp add: cursor_ok_def)
qed

text \<open>Keeping the part \<open>x\<close> of the current piece, which is visible.\<close>

lemma keep_part_ok:
  assumes inv: "edit_inv ctx st B A u N (x @ r)" and A: "A = (f, u @ x @ y) # A'" "x \<noteq> []" "frag_visible f"
    and g: "g = (part f u x)\<lparr>frag_id := i\<rparr>"
  obtains ro b where "push_part st g True = Some (st\<lparr>es_insertions := es_insertions st @ [insert_new g], es_ropes := ro, es_new := b\<rparr>)"
    "out_ok ctx (st\<lparr>es_insertions := es_insertions st @ [insert_new g], es_ropes := ro, es_new := b\<rparr>) (N @ [(g, x)]) A (u @ x)"
    "texts_ok ro (N @ [(g, x)]) A (u @ x)" "patch_ok ctx (es_patch st) (es_start st + text_len x) (N @ [(g, x)])"
    "ec_old ctx = vis B @ (u @ x) @ vis (left_of A (u @ x))" "ec_new ctx = vis (N @ [(g, x)]) @ r"
    "recovers (ec_timestamp ctx) (N @ [(g, x)]) B A (u @ x)"
proof -
  have out: "out_ok ctx st N A u" "texts_ok (es_ropes st) N A u" and start: "es_start st = text_len (vis B @ u)"
    using inv by (simp_all add: edit_inv_def cursor_ok_def)
  then have f: "old_piece ctx (f, u @ x @ y)" using A(1) by (simp add: out_ok_def)
  then have p: "piece_ok (f, u @ x @ y)" "f_end f < 2 ^ 32" and stamp: "frag_timestamp f \<noteq> ec_timestamp ctx" by (simp_all add: old_piece_def)
  have gsel: "frag_timestamp g = frag_timestamp f" "frag_insertion_offset g = frag_insertion_offset f + word_of_nat (text_len u)"
    "frag_len g = word_of_nat (text_len x)" using g by simp_all
  have "cursor_ok ctx (es_old st) (es_start st) B ((f, u @ x @ y) # A') u" using inv A(1) by (simp add: edit_inv_def)
  note bytes = cursor_bytes [OF this A(3) p(2) gsel]
  have len: "length (piece_bytes (g, x)) = text_len x"
    using length_piece_bytes [OF piece_ok_part [OF p(1) A(2)]] gsel by (simp add: piece_bytes_def origins_def f_off_def f_end_def)
  have gw: "within g f" using part_within [OF p] g by (simp add: within_def f_off_def f_end_def)
  have good: "frag_good (ec_undone ctx) (ec_slices ctx \<union> set (es_slices st @ [])) g"
    by (rule frag_good_part [of _ "ec_slices ctx" f]) (use f g gw in \<open>auto simp: old_piece_def\<close>)
  have same: "st\<lparr>es_patch := es_patch st, es_slices := es_slices st @ []\<rparr> = st" by simp
  have spans: "spans_ok (map fst N @ map fst (left_of A u))" using out(1) by (simp add: out_ok_def)
  have "within (part f u x) (part f u x)" by (simp add: within_def)
  note left = left_of_consume(2) [OF A(1,2) p this spans]
  have vis: "frag_visible g" "frag_deletions g = frag_deletions f" "frag_timestamp g = frag_timestamp f" using g A(3) by simp_all
  have shown: "shown v g = shown v f" for v using vis by (simp add: shown_def)
  show thesis
  proof (rule push_part_ok [OF out A(1,2), of g "[]" "es_patch st"])
    fix ro b
    assume "push_part (st\<lparr>es_patch := es_patch st, es_slices := es_slices st @ []\<rparr>) g (frag_visible f) =
        Some (st\<lparr>es_patch := es_patch st, es_slices := es_slices st @ [], es_insertions := es_insertions st @ [insert_new g], es_ropes := ro, es_new := b\<rparr>)"
      "out_ok ctx (st\<lparr>es_patch := es_patch st, es_slices := es_slices st @ [], es_insertions := es_insertions st @ [insert_new g], es_ropes := ro, es_new := b\<rparr>)
        (N @ [(g, x)]) A (u @ x)" "texts_ok ro (N @ [(g, x)]) A (u @ x)"
    note this [unfolded same]
    moreover have old: "ec_old ctx = vis B @ (u @ x) @ vis (left_of A (u @ x))" using inv left A(3) by (simp add: edit_inv_def)
    moreover have new: "ec_new ctx = vis N @ x @ r" using inv by (simp add: edit_inv_def)
    moreover have "patch_ok ctx (es_patch st) (es_start st + text_len x) (N @ [(g, x)])"
      by (rule patch_keep) (use inv bytes len in \<open>simp_all add: edit_inv_def vis(1)\<close>)
    moreover have "recovers (ec_timestamp ctx) (N @ [(g, x)]) B A (u @ x)"
      using recovers_part [OF _ A(1,2) shown p stamp gsel] inv by (simp add: edit_inv_def)
    ultimately show thesis using that [where ro = ro and b = b] vis(1) A(3) by simp
  qed (use g good in simp_all)
qed

lemma out_ok_frame [simp]:
  "out_ok ctx (st\<lparr>es_old := c\<rparr>) N A u = out_ok ctx st N A u" "out_ok ctx (st\<lparr>es_start := i\<rparr>) N A u = out_ok ctx st N A u"
  "out_ok ctx (st\<lparr>es_ropes := b\<rparr>) N A u = out_ok ctx st N A u" "out_ok ctx (st\<lparr>es_patch := p\<rparr>) N A u = out_ok ctx st N A u"
  "out_ok ctx (st\<lparr>es_ranges := rs\<rparr>) N A u = out_ok ctx st N A u" "out_ok ctx (st\<lparr>es_texts := ts\<rparr>) N A u = out_ok ctx st N A u"
  by (simp_all add: out_ok_def)

lemma frag_ids_simps [simp]: "frag_ids [] = []" "frag_ids (p # ps) = frag_id (fst p) # frag_ids ps" "frag_ids (ps @ qs) = frag_ids ps @ frag_ids qs"
  by (simp_all add: frag_ids_def)

lemma end_visible_head:
  assumes "cursor_ok ctx (es_old st) (es_start st) B ((f, u @ w) # A) u" "frag_visible f \<or> w = []"
  shows "end_visible st = Some (es_start st + text_len w)"
  using cursor_ok_reads(4) [OF assms(1)] assms by (cases "u = []") (auto simp: end_visible_def cursor_ok_def)

lemma finish_fragment_ok:
  assumes inv: "edit_inv ctx st B A u N (w @ r)" and A: "u \<noteq> [] \<Longrightarrow> \<exists>f A'. A = (f, u @ w) # A'" "u = [] \<Longrightarrow> w = []"
  obtains st' B' A' N' where "finish_fragment st = Some st'" "edit_inv ctx (st'\<lparr>es_start := es_start st + text_len w\<rparr>) B' A' [] N' r"
    "vis (left_of A u) = w @ vis A'" "B' @ A' = B @ A" "es_insertion_offset st' = es_insertion_offset st"
proof (cases "u = []")
  case True
  have cur: "cursor_ok ctx (es_old st) (es_start st) B A []" using inv True by (simp add: edit_inv_def)
  have "start_visible st = es_start st" using cursor_ok_reads(1) [OF cur] cur unfolding start_visible_def cursor_ok_def by simp
  then show thesis using that [of st B A N] inv True A(2) by (simp add: finish_fragment_def)
next
  case False
  then obtain f A' where A': "A = (f, u @ w) # A'" using A(1) by blast
  have cur: "cursor_ok ctx (es_old st) (es_start st) B ((f, u @ w) # A') u" using inv A' by (simp add: edit_inv_def)
  then have f: "frag_visible f" using False by (auto simp: cursor_ok_def)
  note part = old_part [OF cur]
  have partial: "start_visible st < es_start st" using part(2,3) False by (simp add: text_len_pos)
  have last: "end_visible st = Some (es_start st + text_len w)" by (rule end_visible_head [OF cur]) (simp add: f)
  obtain c where c: "cursor_next FragmentText_dim (es_old st) = Some c" "cursor_ok ctx c (text_len (vis (B @ [(f, u @ w)]))) (B @ [(f, u @ w)]) A' []"
    by (rule cursor_ok_next [OF cur])
  have start: "text_len (vis (B @ [(f, u @ w)])) = es_start st + text_len w" using part(3) f by simp
  have uw: "u @ w \<noteq> []" using False by simp
  have ok: "piece_ok (f, u @ w)" using cur by (simp add: cursor_ok_def tree_pieces_def)
  show thesis
  proof (cases "w = []")
    case True
    have "ids_ok (frag_ids N @ [frag_id f] @ frag_ids A')" using inv A' by (simp add: edit_inv_def)
    from ids_ok_drop [OF this] have "ids_ok (frag_ids (N @ A'))" by simp
    moreover have "out_ok ctx st N A' []" "texts_ok (es_ropes st) N A' []"
      using inv A' True out_next [of ctx st N f u A'] texts_next [of "es_ropes st" N f u A'] uw by (simp_all add: edit_inv_def)
    moreover have "recovers (ec_timestamp ctx) N (B @ [(f, u @ w)]) A' []" by (rule recovers_next) (use inv A' True False ok in \<open>simp_all add: edit_inv_def\<close>)
    ultimately have "edit_inv ctx (st\<lparr>es_old := c, es_start := es_start st + text_len w\<rparr>) (B @ [(f, u @ w)]) A' [] N r"
      using inv c(2) [unfolded start] A' True f False by (simp add: edit_inv_def)
    moreover have "finish_fragment st = Some (st\<lparr>es_old := c\<rparr>)" using partial last c(1) True by (simp add: finish_fragment_def old_next_def)
    ultimately show thesis using that [of "st\<lparr>es_old := c\<rparr>" "B @ [(f, u @ w)]" A' N] A' True False by simp
  next
    case w: False
    have A2: "A = (f, u @ w @ []) # A'" using A' by simp
    have g: "part f u w = (part f u w)\<lparr>frag_id := frag_id f\<rparr>" by simp
    show thesis
    proof (rule keep_part_ok [OF inv A2 w f g])
      fix ro b
      let ?st = "st\<lparr>es_insertions := es_insertions st @ [insert_new (part f u w)], es_ropes := ro, es_new := b\<rparr>"
      assume k: "push_part st (part f u w) True = Some ?st" "out_ok ctx ?st (N @ [(part f u w, w)]) A (u @ w)"
        "texts_ok ro (N @ [(part f u w, w)]) A (u @ w)" "patch_ok ctx (es_patch st) (es_start st + text_len w) (N @ [(part f u w, w)])"
        "ec_old ctx = vis B @ (u @ w) @ vis (left_of A (u @ w))" "ec_new ctx = vis (N @ [(part f u w, w)]) @ r"
        "recovers (ec_timestamp ctx) (N @ [(part f u w, w)]) B A (u @ w)"
      have left: "left_of A (u @ w) = A'" using A' uw by simp
      have "out_ok ctx ?st (N @ [(part f u w, w)]) A' []" using out_next [OF k(2) [unfolded A'] uw] .
      moreover have "texts_ok ro (N @ [(part f u w, w)]) A' []" using texts_next [OF k(3) [unfolded A'] uw] .
      moreover have "ids_ok (frag_ids ((N @ [(part f u w, w)]) @ A'))" using inv A' by (simp add: edit_inv_def)
      moreover have "recovers (ec_timestamp ctx) (N @ [(part f u w, w)]) (B @ [(f, u @ w)]) A' []" by (rule recovers_next [OF k(7) [unfolded A'] ok])
      ultimately have "edit_inv ctx (?st\<lparr>es_old := c, es_start := es_start st + text_len w\<rparr>) (B @ [(f, u @ w)]) A' [] (N @ [(part f u w, w)]) r"
        using k(4-6) c(2) [unfolded start] left f by (simp add: edit_inv_def)
      moreover have "finish_fragment st = Some (?st\<lparr>es_old := c\<rparr>)"
        using partial last c(1) k(1) w part(1,4) f by (simp add: finish_fragment_def old_next_def text_len_pos)
      moreover have "vis (left_of A u) = w @ vis A'" using A' False w f by simp
      ultimately show thesis using that [of "?st\<lparr>es_old := c\<rparr>" "B @ [(f, u @ w)]" A' "N @ [(part f u w, w)]"] A' by simp
    qed
  qed
qed

text \<open>Taking over whole pieces.\<close>

lemma out_skip:
  assumes "out_ok ctx st N (S @ R) []" "built b (N @ S)"
  shows "out_ok ctx (st\<lparr>es_new := b\<rparr>) (N @ S) R []"
proof -
  have good: "frag_good (ec_undone ctx) (ec_slices ctx \<union> set (es_slices st)) (fst p)" if "p \<in> set S" for p
    using assms(1) that frag_good_mono [of "ec_undone ctx" "ec_slices ctx" "fst p"] by (auto simp: out_ok_def old_piece_def)
  show ?thesis
    unfolding out_ok_def
  proof (intro conjI)
    have "set (map (edit_key insertion_key) (es_insertions st)) \<subseteq> key_of ` set (map fst N)"
      "set (es_slices st) \<subseteq> InsertionSlice_from_fragment (ec_timestamp ctx) ` set (map fst N)" using assms(1) by (simp_all only: out_ok_def)
    then show "set (map (edit_key insertion_key) (es_insertions (st\<lparr>es_new := b\<rparr>))) \<subseteq> key_of ` set (map fst (N @ S))"
      "set (es_slices (st\<lparr>es_new := b\<rparr>)) \<subseteq> InsertionSlice_from_fragment (ec_timestamp ctx) ` set (map fst (N @ S))"
      by (simp_all add: image_Un le_supI1)
    show "\<forall>p \<in> set (N @ S). frag_good (ec_undone ctx) (ec_slices ctx \<union> set (es_slices (st\<lparr>es_new := b\<rparr>))) (fst p)"
      "\<forall>p \<in> set (N @ S). frag_timestamp (fst p) = ec_timestamp ctx \<longrightarrow> f_end (fst p) \<le> unat (es_insertion_offset (st\<lparr>es_new := b\<rparr>))"
      using assms(1) good by (auto simp: out_ok_def old_piece_def)
  qed (use assms in \<open>simp_all add: out_ok_def rest_of_def\<close>)
qed

lemma append_slice_ok:
  assumes inv: "edit_inv ctx (st\<lparr>es_start := i\<rparr>) B (S @ R) [] N (vis S @ r)" and t: "tree_pieces t S" "height t < 16"
    and c: "cursor_ok ctx c (text_len (vis (B @ S))) (B @ S) R []"
  obtains ropes new where "rb_append (es_ropes st) (sum_text (summary t)) = Some ropes" "fb_append (es_new st) t = Some new"
    "edit_inv ctx (st\<lparr>es_old := c, es_ropes := ropes, es_new := new, es_start := ft_visible (c_position c)\<rparr>) (B @ S) R [] (N @ S) r"
proof -
  have out: "out_ok ctx st N (S @ R) []" and texts: "ropes_at (es_ropes st) (vis S @ vis R) (del S @ del R) (vis N) (del N)"
    and ids: "ids_ok (frag_ids (N @ S @ R))" and old: "ec_old ctx = vis B @ vis S @ vis R" and new: "ec_new ctx = vis N @ vis S @ r"
    and i: "i = text_len (vis B)" and shown: "recovers (ec_timestamp ctx) N B (S @ R) []"
    using inv by (simp_all add: edit_inv_def texts_ok_def cursor_ok_def)
  have patch: "patch_ok ctx (es_patch st) (text_len (vis B)) N" using inv unfolding i by (simp add: edit_inv_def)
  have cur: "cursor_ok ctx (es_old st) i B (S @ R) []" and ok: "\<forall>p \<in> set S. piece_ok p"
    using inv t(1) by (simp_all add: edit_inv_def tree_pieces_def)
  have "sum_text (summary t) = \<lparr>ft_visible = text_len (vis S), ft_deleted = text_len (del S)\<rparr>"
    using tree_pieces_sum [OF t(1)] by (simp add: sum_ok_def)
  from rb_append_ok [OF texts this] obtain ropes where ropes: "rb_append (es_ropes st) (sum_text (summary t)) = Some ropes"
    "ropes_at ropes (vis R) (del R) (vis N @ vis S) (del N @ del S)" by blast
  have "built (es_new st) N" using out by (simp add: out_ok_def)
  from fb_append_ok [OF this t] obtain b where b: "fb_append (es_new st) t = Some b" "built b (N @ S)" by blast
  have "patch_ok ctx (es_patch st) (text_len (vis B @ vis S)) (N @ S)" 
    using patch_keep [OF patch, of "text_len (vis S)" S] cursor_bytes_whole [OF cur [unfolded i]] length_vis_bytes ok by simp
  moreover have "recovers (ec_timestamp ctx) (N @ S) (B @ S) R []"
    by (rule recovers_whole [OF shown]) (use out in \<open>simp add: out_ok_def old_piece_def\<close>)
  moreover have "ft_visible (c_position c) = text_len (vis (B @ S))" by (rule cursor_ok_reads(1) [OF c])
  ultimately have "edit_inv ctx (st\<lparr>es_old := c, es_ropes := ropes, es_new := b, es_start := ft_visible (c_position c)\<rparr>) (B @ S) R [] (N @ S) r"
    using c ropes(2) b(2) ids old new out_skip [OF out b(2)] by (simp add: edit_inv_def texts_ok_def) (simp add: out_ok_def)
  then show thesis using that ropes(1) b(1) by blast
qed

lemma skip_to_range_ok:
  assumes inv: "edit_inv ctx st B A u N (p @ r)" and q: "vis (left_of A u) = p @ q"
  obtains st' B' A' u' N' p' where "skip_to_range st (es_start st + text_len p) = Some st'" "edit_inv ctx st' B' A' u' N' (p' @ r)"
    "vis (left_of A' u') = p' @ q" "es_start st' + text_len p' = es_start st + text_len p" "B' @ A' = B @ A"
    "p' \<noteq> [] \<Longrightarrow> \<exists>f y A''. A' = (f, u' @ p' @ y) # A'' \<and> frag_visible f" "es_insertion_offset st' = es_insertion_offset st"
proof -
  have cur: "cursor_ok ctx (es_old st) (es_start st) B A u" using inv by (simp add: edit_inv_def)
  note start = cursor_ok_start [OF cur] and reads = cursor_ok_reads(4) [OF cur]
  have last: "end_visible st = Some (text_len (vis (B @ take 1 A)))" using reads by (simp add: end_visible_def)
  show thesis
  proof (cases "text_len (vis (B @ take 1 A)) < es_start st + text_len p")
    case True
    obtain w p1 where w: "p = w @ p1" "u \<noteq> [] \<Longrightarrow> \<exists>f A'. A = (f, u @ w) # A'" "u = [] \<Longrightarrow> w = []"
    proof (cases "u = []")
      case False
      then obtain f w A' where A': "A = (f, u @ w) # A'" "frag_visible f" using cur by (auto simp: cursor_ok_def)
      have "text_len w \<le> text_len p" using True A' start by simp
      moreover have "w @ vis A' = p @ q" using q A' False by (cases "w = []") simp_all
      ultimately obtain p1 where "p = w @ p1" using text_cut by blast
      then show ?thesis using that A'(1) False by blast
    qed (use that in simp)
    have inv': "edit_inv ctx st B A u N (w @ p1 @ r)" using inv w(1) by simp
    show thesis
    proof (rule finish_fragment_ok [OF inv' w(2,3)])
      fix st1 B1 A1 N1
      assume f: "finish_fragment st = Some st1" "edit_inv ctx (st1\<lparr>es_start := es_start st + text_len w\<rparr>) B1 A1 [] N1 (p1 @ r)"
        "vis (left_of A u) = w @ vis A1" "B1 @ A1 = B @ A" "es_insertion_offset st1 = es_insertion_offset st"
      have vis: "vis A1 = p1 @ q" using f(3) q w(1) by simp
      have cur1: "cursor_ok ctx (es_old st1) (es_start st + text_len w) B1 A1 []" using f(2) by (simp add: edit_inv_def)
      then have c1: "c_tree (es_old st1) = ec_tree ctx" "tree_pieces (ec_tree ctx) (B1 @ A1)" "height (ec_tree ctx) \<le> 7"
        "cursor_ready fragment_ops FragmentText_dim (es_old st1) (map fst B1) (map fst A1)" "ec_bytes ctx = vis_bytes (B1 @ A1)"
        by (simp_all add: cursor_ok_def cursor_ready_at)
      have k: "text_len (vis B1 @ p1) = es_start st + text_len p" using cursor_ok_start [OF cur1] w(1) by simp
      show thesis
      proof (rule slice_pieces [OF c1 vis])
        fix S R u2 c' t
        assume s: "cursor_slice fragment_ops FragmentText_dim (es_old st1) (visible_target (text_len (vis B1 @ p1))) Bias.Right = Some (c', t)"
          "A1 = S @ R" "p1 = vis S @ u2" "tree_pieces t S" "height t < 16" "cursor_ok ctx c' (text_len (vis (B1 @ S))) (B1 @ S) R []"
          "R = [] \<Longrightarrow> u2 = []" "R \<noteq> [] \<Longrightarrow> \<exists>f w A'. R = (f, u2 @ w) # A' \<and> frag_visible f \<and> w \<noteq> []"
        have inv1: "edit_inv ctx (st1\<lparr>es_start := es_start st + text_len w\<rparr>) B1 (S @ R) [] N1 (vis S @ u2 @ r)" using f(2) s(2,3) by simp
        show thesis
        proof (rule append_slice_ok [OF inv1 s(4-6)])
          fix ropes new
          let ?st = "st1\<lparr>es_old := c', es_ropes := ropes, es_new := new, es_start := ft_visible (c_position c')\<rparr>"
          assume a: "rb_append (es_ropes st1) (sum_text (summary t)) = Some ropes" "fb_append (es_new st1) t = Some new"
            "edit_inv ctx ?st (B1 @ S) R [] (N1 @ S) (u2 @ r)"
          have "skip_to_range st (es_start st + text_len p) = Some ?st"
            using True last f(1) s(1) a(1,2) unfolding k by (simp add: skip_to_range_def)
          moreover have "vis (left_of R []) = u2 @ q" using vis s(2,3) by simp
          moreover have "es_start ?st + text_len u2 = es_start st + text_len p" using cursor_ok_reads(1) [OF s(6)] k s(3) by simp
          moreover have "u2 \<noteq> [] \<Longrightarrow> \<exists>f y A''. R = (f, [] @ u2 @ y) # A'' \<and> frag_visible f" using s(7,8) by auto
          ultimately show thesis using that [of ?st "B1 @ S" R "[]" "N1 @ S" u2] a(3) f(4,5) s(2) by simp
        qed
      qed
    qed
  next
    case False
    have shape: "\<exists>f y A''. A = (f, u @ p @ y) # A'' \<and> frag_visible f" if p: "p \<noteq> []"
    proof (cases A)
      case Nil
      then show ?thesis using q p by simp
    next
      case (Cons a A'')
      obtain f t where a: "a = (f, t)" by (cases a)
      have f: "frag_visible f" using False start p Cons a by (auto split: if_splits)
      have "\<exists>w. t = u @ w" using cur Cons a by (cases "u = []") (auto simp: cursor_ok_def)
      then obtain w where w: "t = u @ w" by blast
      have "text_len p \<le> text_len w" using False start Cons a w f by simp
      moreover have "p @ q = w @ vis A''" using q Cons a w f by (cases "w = []"; cases "u = []") simp_all
      ultimately obtain y where "w = p @ y" using text_cut by metis
      then show ?thesis using Cons a w f by simp
    qed
    show thesis using that [of st B A u N p] False last inv q shape by (simp add: skip_to_range_def)
  qed
qed

lemma last_id_ids: "last_id Locator_min ps = last (Locator_min # frag_ids ps)"
  by (simp add: last_id_def frag_ids_def last_map)

lemma ids_ok_new:
  assumes "ids_ok (frag_ids (N @ A))" "next_id = (case list_first A of None \<Rightarrow> Locator_max | Some p \<Rightarrow> frag_id (fst p))"
    "frag_id g = between (last_id Locator_min N) next_id"
  shows "ids_ok (frag_ids ((N @ [(g, x)]) @ A))"
  using ids_ok_between [of "frag_ids N" "frag_ids A"] assms by (cases A) (simp_all add: last_id_ids list_first_def)

lemma new_max_id: "edit_inv ctx st B A u N r \<Longrightarrow> fb_max_id (es_new st) = last_id Locator_min N \<and> fb_visible (es_new st) = text_len (vis N)"
  using built_sum by (auto simp: edit_inv_def out_ok_def)

lemma keep_prefix_ok:
  assumes inv: "edit_inv ctx st B A u N (p @ r)" and A: "p \<noteq> [] \<Longrightarrow> \<exists>f y A'. A = (f, u @ p @ y) # A' \<and> frag_visible f"
  obtains st' N' where "keep_prefix st (es_start st + text_len p) = Some st'" "edit_inv ctx st' B A (u @ p) N' r"
    "vis (left_of A u) = p @ vis (left_of A (u @ p))" "es_start st' = es_start st + text_len p" "es_insertion_offset st' = es_insertion_offset st"
proof (cases "p = []")
  case True
  then show thesis using that [of st N] inv by (simp add: keep_prefix_def)
next
  case False
  then obtain f y A' where f: "A = (f, u @ p @ y) # A'" "frag_visible f" using A by blast
  have cur: "cursor_ok ctx (es_old st) (es_start st) B ((f, u @ p @ y) # A') u" using inv f by (simp add: edit_inv_def)
  note part = old_part [OF cur]
  let ?g = "(part f u p)\<lparr>frag_id := between (last_id Locator_min N) (frag_id f)\<rparr>"
  have left: "vis (left_of A u) = p @ vis (left_of A (u @ p))"
    using f False by (cases "y = []"; cases "u = []") auto
  show thesis
  proof (rule keep_part_ok [OF inv f(1) False f(2) refl, of "between (last_id Locator_min N) (frag_id f)"])
    fix ro b
    let ?st = "st\<lparr>es_insertions := es_insertions st @ [insert_new ?g], es_ropes := ro, es_new := b\<rparr>"
    assume k: "push_part st ?g True = Some ?st" "out_ok ctx ?st (N @ [(?g, p)]) A (u @ p)" "texts_ok ro (N @ [(?g, p)]) A (u @ p)"
      "patch_ok ctx (es_patch st) (es_start st + text_len p) (N @ [(?g, p)])"
      "ec_old ctx = vis B @ (u @ p) @ vis (left_of A (u @ p))" "ec_new ctx = vis (N @ [(?g, p)]) @ r"
      "recovers (ec_timestamp ctx) (N @ [(?g, p)]) B A (u @ p)"
    have "ids_ok (frag_ids ((N @ [(?g, p)]) @ A))"
      using inv f(1) by (intro ids_ok_new [OF _ refl]) (simp_all add: edit_inv_def list_first_def)
    moreover have "cursor_ok ctx (es_old st) (es_start st + text_len p) B A (u @ p)"
      using cur f by (auto simp: cursor_ok_def)
    ultimately have "edit_inv ctx (?st\<lparr>es_start := es_start st + text_len p\<rparr>) B A (u @ p) (N @ [(?g, p)]) r"
      using k(2-7) by (simp add: edit_inv_def)
    moreover have "keep_prefix st (es_start st + text_len p) = Some (?st\<lparr>es_start := es_start st + text_len p\<rparr>)"
      using False part(1,4) k(1) new_max_id [OF inv] f(2) by (simp add: keep_prefix_def)
    ultimately show thesis using that [of "?st\<lparr>es_start := es_start st + text_len p\<rparr>" "N @ [(?g, p)]"] left by simp
  qed
qed

subsection \<open>Inserting\<close>

lemma left_of_pieces:
  assumes "p \<in> set (left_of A u)" shows "\<exists>q \<in> set A. frag_timestamp (fst p) = frag_timestamp (fst q)"
  using assms by (cases A) (auto split: if_splits)

lemma out_insert:
  assumes out: "out_ok ctx st N A u" and g: "frag_timestamp g = ec_timestamp ctx" "frag_insertion_offset g = es_insertion_offset st"
      "frag_len g = word_of_nat (text_len n)" "frag_visible g" "frag_deletions g = []" "frag_max_undos g = Global_new"
    and n: "n \<noteq> []" "unat (es_insertion_offset st) + text_len n < 2 ^ 32" and fresh: "\<not> ec_undone ctx (ec_timestamp ctx)"
  obtains b where "fb_push (es_new st) g = Some b"
    "out_ok ctx (st\<lparr>es_slices := es_slices st @ [InsertionSlice_from_fragment (ec_timestamp ctx) g], es_insertions := es_insertions st @ [insert_new g],
      es_new := b, es_insertion_offset := es_insertion_offset st + word_of_nat (text_len n)\<rparr>) (N @ [(g, n)]) A u"
proof -
  have len: "unat (word_of_nat (text_len n) :: 32 word) = text_len n" using n(2) by (simp add: unat_of_nat)
  then have piece: "piece_ok (g, n)" using g n(1) by (simp add: piece_ok_def fragment_canonical_def normal_Global_new)
  have ends: "f_off g = unat (es_insertion_offset st)" "f_end g = unat (es_insertion_offset st) + text_len n"
    using g len by (simp_all add: f_off_def f_end_def)
  have offset: "unat (es_insertion_offset st + word_of_nat (text_len n)) = unat (es_insertion_offset st) + text_len n"
    using n(2) len by (simp add: unat_word_ariths)
  have "built (es_new st) N" using out by (simp add: out_ok_def)
  from fb_push_ok [OF this piece] obtain b where b: "fb_push (es_new st) g = Some b" "built b (N @ [(g, n)])" by blast
  have apartN: "apart (fst p) g" if "p \<in> set N" for p
    using out that ends g(1) by (auto simp: apart_def out_ok_def)
  have apartL: "apart g (fst p)" if p: "p \<in> set (left_of A u)" for p
  proof -
    obtain q where "q \<in> set A" "frag_timestamp (fst p) = frag_timestamp (fst q)" using left_of_pieces [OF p] by blast
    moreover have "\<forall>q \<in> set A. old_piece ctx q" using out by (simp add: out_ok_def)
    ultimately show ?thesis using g(1) by (auto simp: old_piece_def apart_def)
  qed
  have pos: "0 < frag_len g" using piece by (auto simp: piece_ok_def word_gt_0)
  have fresh_key: "key_of g \<noteq> key_of (fst p)" if "p \<in> set N" for p
  proof -
    have "0 < frag_len (fst p)" using out that by (auto simp: out_ok_def built_def piece_ok_def word_gt_0)
    then show ?thesis using key_of_apart [OF apartN [OF that]] pos by metis
  qed
  then have freshN: "key_of g \<notin> key_of ` set (map fst N)" by auto
  then have upd: "(index_of (map fst N @ rs))(key_of g \<mapsto> InsertionFragment_new g) = index_of (map fst N @ g # rs)" for rs
    using dom_index_of [of "map fst N"] by (auto simp: fun_eq_iff map_add_def split: option.splits)
  have slice: "InsertionSlice_from_fragment (ec_timestamp ctx) g \<notin> set (es_slices st)"
  proof
    assume "InsertionSlice_from_fragment (ec_timestamp ctx) g \<in> set (es_slices st)"
    then obtain p where "p \<in> set N" "InsertionSlice_from_fragment (ec_timestamp ctx) g = InsertionSlice_from_fragment (ec_timestamp ctx) (fst p)"
      using out unfolding out_ok_def by auto
    then show False using fresh_key [of p] by (simp add: InsertionSlice_from_fragment_def key_of_def)
  qed
  let ?s = "InsertionSlice_from_fragment (ec_timestamp ctx) g"
  let ?st = "st\<lparr>es_slices := es_slices st @ [?s], es_insertions := es_insertions st @ [insert_new g], es_new := b,
    es_insertion_offset := es_insertion_offset st + word_of_nat (text_len n)\<rparr>"
  have good: "frag_good (ec_undone ctx) (ec_slices ctx \<union> set (es_slices st @ [?s])) g"
  proof -
    have "covered {?s} (ec_timestamp ctx) g" by (rule covered_self) (use n(2) ends in simp)
    then have "covered (ec_slices ctx \<union> set (es_slices st @ [?s])) (ec_timestamp ctx) g" by (rule covered_within) (auto simp: within_def)
    then show ?thesis using g fresh by (auto simp: frag_good_def shown_def affecting_def)
  qed
  have "out_ok ctx ?st (N @ [(g, n)]) A u"
    unfolding out_ok_def
  proof (intro conjI)
    show "foldl (\<lambda>m e. apply_edit insertion_key e m) (ec_index ctx) (es_insertions ?st) = index_of (map fst ((N @ [(g, n)]) @ rest_of A u))"
      using upd [of "map fst (rest_of A u)"] out by (simp add: out_ok_def insert_new_def key_of_new(1))
    show "distinct (map (edit_key insertion_key) (es_insertions ?st))"
      "set (map (edit_key insertion_key) (es_insertions ?st)) \<subseteq> key_of ` set (map fst (N @ [(g, n)]))"
      using out freshN by (auto simp: out_ok_def key_of_new(2))
    show "distinct (es_slices ?st)" "set (es_slices ?st) \<subseteq> InsertionSlice_from_fragment (ec_timestamp ctx) ` set (map fst (N @ [(g, n)]))"
      using out slice by (auto simp: out_ok_def)
    show "\<forall>p \<in> set (N @ [(g, n)]). frag_good (ec_undone ctx) (ec_slices ctx \<union> set (es_slices ?st)) (fst p)"
      using out good by (auto simp: out_ok_def intro: frag_good_mono)
    show "spans_ok (map fst ((N @ [(g, n)]) @ left_of A u))"
      using out apartN apartL ends(2) n(2) by (auto simp: out_ok_def spans_ok_simps)
    show "\<forall>p \<in> set (N @ [(g, n)]). frag_timestamp (fst p) = ec_timestamp ctx \<longrightarrow> f_end (fst p) \<le> unat (es_insertion_offset ?st)"
      using out offset ends(2) by (fastforce simp: out_ok_def)
  qed (use b(2) out in \<open>simp_all add: out_ok_def\<close>)
  then show thesis using that b(1) by blast
qed

lemma insertion_loop_once:
  assumes "n \<noteq> []" "text_len n < 2 ^ 32" "push_insertion st timestamp next_id (text_len n) = Some st'"
  shows "insertion_loop st n timestamp next_id 0 = Some st'"
proof -
  have last: "insertion_end n 0 = text_len n" using assms(2) by (simp add: insertion_end_def MAX_INSERTION_LEN_def min_def)
  have "insertion_loop st' n timestamp next_id (text_len n) = Some st'" by (subst insertion_loop.simps) simp
  then show ?thesis using assms(1,3) by (subst insertion_loop.simps) (simp add: last usize_sub_def Let_def)
qed

lemma patch_insert:
  assumes "patch_ok ctx p i N" "\<forall>p \<in> set N. piece_ok p" "piece_ok (g, n)" "frag_visible g"
  shows "patch_ok ctx (patch_push p (text_edit i i (text_len (vis N)) (text_len (vis N) + text_len n))) i (N @ [(g, n)])"
proof -
  have p: "patch_to 0 0 p (ec_bytes ctx) (vis_bytes (N @ [(g, n)])) i (length (vis_bytes N))" "separated p"
    using assms(1,4) patch_to_more [of 0 0 p "ec_bytes ctx" "vis_bytes N" i "length (vis_bytes N)" "piece_bytes (g, n)"] by (simp_all add: patch_ok_def)
  have "i \<le> length (ec_bytes ctx)" using patch_to_bounds [OF p(1)] by simp
  then show ?thesis using patch_push_ok [OF p, of i "length (vis_bytes N) + text_len n"] length_vis_bytes [OF assms(2)]
      length_piece_bytes [OF assms(3)] assms(4) by (simp add: patch_ok_def)
qed

lemma insert_text_ok:
  assumes inv: "edit_inv ctx st B A u N (n @ r)" and n: "unat (es_insertion_offset st) + text_len n < 2 ^ 32"
    and fresh: "\<not> ec_undone ctx (ec_timestamp ctx)"
  obtains st' N' where "insert_text st n (ec_timestamp ctx) = Some st'" "edit_inv ctx st' B A u N' r" "es_start st' = es_start st"
    "unat (es_insertion_offset st') = unat (es_insertion_offset st) + text_len n"
proof (cases "n = []")
  case True
  then show thesis using that [of st N] inv by (simp add: insert_text_def)
next
  case False
  have out: "out_ok ctx st N A u" and cur: "cursor_ok ctx (es_old st) (es_start st) B A u" using inv by (simp_all add: edit_inv_def)
  define next_id where "next_id = (case list_first A of None \<Rightarrow> Locator_max | Some p \<Rightarrow> frag_id (fst p))"
  define g where "g = \<lparr>frag_id = between (last_id Locator_min N) next_id, frag_timestamp = ec_timestamp ctx,
    frag_insertion_offset = es_insertion_offset st, frag_len = word_of_nat (text_len n), frag_visible = True,
    frag_deletions = [], frag_max_undos = Global_new\<rparr>"
  have g: "frag_timestamp g = ec_timestamp ctx" "frag_insertion_offset g = es_insertion_offset st" "frag_len g = word_of_nat (text_len n)"
    "frag_visible g" "frag_deletions g = []" "frag_max_undos g = Global_new" by (simp_all add: g_def)
  show thesis
  proof (rule out_insert [OF out g False n fresh])
    fix b
    let ?st = "st\<lparr>es_slices := es_slices st @ [InsertionSlice_from_fragment (ec_timestamp ctx) g], es_insertions := es_insertions st @ [insert_new g],
      es_new := b, es_insertion_offset := es_insertion_offset st + word_of_nat (text_len n)\<rparr>"
    assume b: "fb_push (es_new st) g = Some b" "out_ok ctx ?st (N @ [(g, n)]) A u"
    have "push_insertion st (ec_timestamp ctx) next_id (text_len n) = Some ?st"
      using b(1) new_max_id [OF inv] by (simp add: push_insertion_def Let_def g_def)
    from insertion_loop_once [OF False _ this] n have loop: "insertion_loop st n (ec_timestamp ctx) next_id 0 = Some ?st" by simp
    have "ropes_at (es_ropes ?st) (vis (left_of A u)) (del (left_of A u)) (vis N) (del N)" using inv by (simp add: edit_inv_def texts_ok_def)
    from rb_push_str_ok [OF this, of n] obtain ro where ro: "rb_push_str (es_ropes st) n = Some ro"
      "ropes_at ro (vis (left_of A u)) (del (left_of A u)) (vis N @ n) (del N)" by auto
    let ?p = "patch_push (es_patch st) (text_edit (es_start st) (es_start st) (text_len (vis N)) (text_len (vis N) + text_len n))"
    have vis: "vis (N @ [(g, n)]) = vis N @ n" "del (N @ [(g, n)]) = del N" using g(4) by simp_all
    have "ids_ok (frag_ids ((N @ [(g, n)]) @ A))"
      using inv by (intro ids_ok_new [OF _ next_id_def]) (simp_all add: edit_inv_def g_def)
    moreover have "patch_ok ctx ?p (es_start st) (N @ [(g, n)])"
      by (rule patch_insert) (use inv out b(2) g(4) in \<open>simp_all add: edit_inv_def out_ok_def built_def\<close>)
    moreover have "recovers (ec_timestamp ctx) (N @ [(g, n)]) B A u" by (rule recovers_new) (use inv in \<open>simp_all add: edit_inv_def shown_def g\<close>)
    ultimately have "edit_inv ctx (?st\<lparr>es_ropes := ro, es_patch := ?p\<rparr>) B A u (N @ [(g, n)]) r"
      using inv b(2) ro(2) vis by (simp add: edit_inv_def texts_ok_def)
    moreover have "insert_text st n (ec_timestamp ctx) = Some (?st\<lparr>es_ropes := ro, es_patch := ?p\<rparr>)"
    proof -
      have item: "cursor_item (es_old st) = Some (map_option fst (list_first A))" by (rule cursor_ok_reads(3) [OF cur])
      have next_id: "(case list_first A of None \<Rightarrow> Locator_max | Some x \<Rightarrow> (frag_id \<circ> fst) x) = next_id"
        by (cases "list_first A") (simp_all add: next_id_def)
      show ?thesis using False loop ro(1) new_max_id [OF inv]
        by (simp add: insert_text_def item Let_def next_id push_fragments_for_insertion_def)
    qed
    moreover have "unat (es_insertion_offset st + word_of_nat (text_len n)) = unat (es_insertion_offset st) + text_len n"
      using n by (simp add: unat_word_ariths unat_of_nat)
    ultimately show thesis using that [of "?st\<lparr>es_ropes := ro, es_patch := ?p\<rparr>" "N @ [(g, n)]"] by simp
  qed
qed

subsection \<open>Deleting\<close>

lemma patch_delete:
  assumes "patch_ok ctx p i N" "i + k \<le> length (ec_bytes ctx)" "vis_bytes N' = vis_bytes N" "\<forall>p \<in> set N. piece_ok p"
  shows "patch_ok ctx (patch_push p (text_edit i (i + k) (text_len (vis N)) (text_len (vis N)))) (i + k) N'"
proof -
  have p: "patch_to 0 0 p (ec_bytes ctx) (vis_bytes N) i (length (vis_bytes N))" "separated p" using assms(1) by (simp_all add: patch_ok_def)
  then show ?thesis using patch_push_ok [OF p, of "i + k" "length (vis_bytes N)"] assms(2,3) length_vis_bytes [OF assms(4)] by (simp add: patch_ok_def)
qed

text \<open>Deleting the part \<open>x\<close> of the current piece, which is visible.\<close>

lemma delete_part_ok:
  assumes inv: "edit_inv ctx st B A u N r" and A: "A = (f, u @ x @ y) # A'" "x \<noteq> []" "frag_visible f" and fresh: "\<not> ec_undone ctx (ec_timestamp ctx)"
  obtains g st' where "deleted_part st f (ec_timestamp ctx) (es_start st + text_len x) = Some g"
    "push_deleted st f g (ec_timestamp ctx) (es_start st + text_len x) = Some st'" "es_old st' = es_old st" "es_start st' = es_start st + text_len x"
    "es_insertion_offset st' = es_insertion_offset st"
    "out_ok ctx st' (N @ [(g, x)]) A (u @ x)" "texts_ok (es_ropes st') (N @ [(g, x)]) A (u @ x)"
    "patch_ok ctx (es_patch st') (es_start st') (N @ [(g, x)])" "ids_ok (frag_ids ((N @ [(g, x)]) @ A))"
    "ec_old ctx = vis B @ (u @ x) @ vis (left_of A (u @ x))" "ec_new ctx = vis (N @ [(g, x)]) @ r"
    "recovers (ec_timestamp ctx) (N @ [(g, x)]) B A (u @ x)"
proof -
  let ?ts = "ec_timestamp ctx"
  have out: "out_ok ctx st N A u" "texts_ok (es_ropes st) N A u" and start: "es_start st = text_len (vis B @ u)"
    and cur: "cursor_ok ctx (es_old st) (es_start st) B ((f, u @ x @ y) # A') u"
    using inv A(1) by (simp_all add: edit_inv_def cursor_ok_def)
  then have f: "old_piece ctx (f, u @ x @ y)" using A(1) by (simp add: out_ok_def)
  then have p: "piece_ok (f, u @ x @ y)" "f_end f < 2 ^ 32" by (simp_all add: old_piece_def)
  define g where "g = (part f u x)\<lparr>frag_id := between (last_id Locator_min N) (frag_id f), frag_deletions := frag_deletions f @ [?ts],
    frag_visible := False\<rparr>"
  have gsel: "frag_timestamp g = frag_timestamp f" "frag_insertion_offset g = frag_insertion_offset f + word_of_nat (text_len u)"
    "frag_len g = word_of_nat (text_len x)" "frag_max_undos g = frag_max_undos f" "\<not> frag_visible g" "frag_deletions g = frag_deletions f @ [?ts]"
    by (simp_all add: g_def)
  have gw: "within g f" using part_within [OF p] gsel by (simp add: within_def f_off_def f_end_def)
  have gpos: "0 < frag_len g" using piece_ok_part [OF p(1) A(2)] A(2) gsel(3) by (auto simp: piece_ok_def word_gt_0)
  let ?s = "InsertionSlice_from_fragment ?ts g"
  have seen: "frag_good (ec_undone ctx) (ec_slices ctx) f" "frag_timestamp f \<noteq> ?ts" "?ts \<notin> set (frag_deletions f)" using f by (simp_all add: old_piece_def)
  then have shown: "shown (ec_undone ctx) f" using A(3) by (simp add: frag_good_def)
  have good: "frag_good (ec_undone ctx) (ec_slices ctx \<union> set (es_slices st @ [?s])) g"
  proof -
    have "covered {?s} ?ts g" by (rule covered_self) (use gw p(2) in \<open>simp add: within_def\<close>)
    then have "covered (ec_slices ctx \<union> set (es_slices st @ [?s])) ?ts g" by (rule covered_within) (auto simp: within_def)
    moreover have "covered (ec_slices ctx \<union> set (es_slices st @ [?s])) e g" if "e \<in> affecting f" for e
      using seen(1) that by (intro covered_within [OF _ gw, of "ec_slices ctx"]) (auto simp: frag_good_def)
    ultimately show ?thesis using gsel fresh by (auto simp: frag_good_def shown_def affecting_def)
  qed
  have undo: "shown v g = shown v f" if "v ?ts" for v using that gsel by (auto simp: shown_def)
  have spans: "spans_ok (map fst N @ map fst (left_of A u))" using out(1) by (simp add: out_ok_def)
  have "within (part f u x) (part f u x)" by (simp add: within_def)
  note left = left_of_consume(2) [OF A(1,2) p this spans]
  then have old: "ec_old ctx = vis B @ (u @ x) @ vis (left_of A (u @ x))" using inv A(3) by (simp add: edit_inv_def)
  let ?p = "patch_push (es_patch st) (text_edit (es_start st) (es_start st + text_len x) (text_len (vis N)) (text_len (vis N)))"
  have vis: "vis (N @ [(g, x)]) = vis N" "vis_bytes (N @ [(g, x)]) = vis_bytes N" using gsel by simp_all
  have "\<forall>p \<in> set (B @ A). piece_ok p" and bytes: "ec_bytes ctx = vis_bytes (B @ A)" using cur A(1) by (simp_all add: cursor_ok_def tree_pieces_def)
  from length_vis_bytes [OF this(1)] have "es_start st + text_len x \<le> length (ec_bytes ctx)" using A start unfolding bytes by simp
  moreover have "\<forall>p \<in> set N. piece_ok p" using out(1) by (simp add: out_ok_def built_def)
  ultimately have patch: "patch_ok ctx ?p (es_start st + text_len x) (N @ [(g, x)])" using patch_delete [OF _ _ vis(2)] inv by (simp add: edit_inv_def)
  note part = old_part [OF cur]
  have d: "deleted_part st f ?ts (es_start st + text_len x) = Some g"
    using part(4) new_max_id [OF inv] A(3) by (simp add: deleted_part_def g_def)
  show thesis
  proof (rule push_part_ok [OF out A(1,2) gsel(1-4) good, of ?p])
    fix ro b
    let ?st = "st\<lparr>es_patch := ?p, es_slices := es_slices st @ [?s], es_insertions := es_insertions st @ [insert_new g], es_ropes := ro, es_new := b\<rparr>"
    assume k: "push_part (st\<lparr>es_patch := ?p, es_slices := es_slices st @ [?s]\<rparr>) g (frag_visible f) = Some ?st"
      "out_ok ctx ?st (N @ [(g, x)]) A (u @ x)" "texts_ok ro (N @ [(g, x)]) A (u @ x)"
    have "push_deleted st f g ?ts (es_start st + text_len x) = Some (?st\<lparr>es_start := es_start st + text_len x\<rparr>)"
      using k(1) gpos A(3) gsel(5) new_max_id [OF inv] by (simp add: push_deleted_def Let_def)
    moreover have "ids_ok (frag_ids ((N @ [(g, x)]) @ A))"
      using inv A(1) by (intro ids_ok_new [OF _ refl]) (simp_all add: edit_inv_def list_first_def g_def)
    moreover have "ec_new ctx = vis (N @ [(g, x)]) @ r" using inv vis(1) by (simp add: edit_inv_def)
    moreover have "recovers (ec_timestamp ctx) (N @ [(g, x)]) B A (u @ x)" using recovers_part [OF _ A(1,2) undo p seen(2) gsel(1-3)] inv by (simp add: edit_inv_def)
    ultimately show thesis using that [of g "?st\<lparr>es_start := es_start st + text_len x\<rparr>"] d k(2,3) patch old by simp
  qed simp
qed

text \<open>Going on from a piece that is consumed.\<close>

lemma old_next_ok:
  assumes cur: "cursor_ok ctx (es_old st) i B ((f, t) # A) u"
    and start: "es_start st = text_len (vis (B @ [(f, t)]))"
    and st: "out_ok ctx st N ((f, t) # A) t" "texts_ok (es_ropes st) N ((f, t) # A) t" "patch_ok ctx (es_patch st) (es_start st) N"
      "ids_ok (frag_ids (N @ A))" "ec_old ctx = vis (B @ [(f, t)]) @ vis A" "ec_new ctx = vis N @ r"
      "recovers (ec_timestamp ctx) N B ((f, t) # A) t"
  obtains c where "old_next st = Some (st\<lparr>es_old := c\<rparr>)" "edit_inv ctx (st\<lparr>es_old := c\<rparr>) (B @ [(f, t)]) A [] N r"
proof (rule cursor_ok_next [OF cur])
  fix c
  assume c: "cursor_next FragmentText_dim (es_old st) = Some c" "cursor_ok ctx c (text_len (vis (B @ [(f, t)]))) (B @ [(f, t)]) A []"
  have ok: "piece_ok (f, t)" using cur by (simp add: cursor_ok_def tree_pieces_def)
  then have t: "t \<noteq> []" by (simp add: piece_ok_def)
  have "edit_inv ctx (st\<lparr>es_old := c\<rparr>) (B @ [(f, t)]) A [] N r"
    using c(2) [folded start] out_next [OF st(1) t] texts_next [OF st(2) t] recovers_next [OF st(7) ok] st(3-6) by (simp add: edit_inv_def)
  then show thesis using that c(1) by (simp add: old_next_def)
qed

lemma word_of_nat_unat: "word_of_nat (unat w) = w" for w :: "'a::len word"
  by simp

lemma frag_len_piece: "piece_ok (f, t) \<Longrightarrow> frag_len f = word_of_nat (text_len t)"
  "piece_ok (f, t) \<Longrightarrow> 0 < frag_len f"
  using word_of_nat_unat [of "frag_len f"] by (auto simp: piece_ok_def word_gt_0)

lemma delete_loop_ok:
  assumes fresh: "\<not> ec_undone ctx (ec_timestamp ctx)"
  shows "edit_inv ctx st B A u N r \<Longrightarrow> vis (left_of A u) = d @ y \<Longrightarrow> length A < k \<Longrightarrow>
    \<exists>st' B' A' u' N'. delete_loop k st (ec_timestamp ctx) (es_start st + text_len d) = Some st' \<and> edit_inv ctx st' B' A' u' N' r \<and>
      vis (left_of A' u') = y \<and> es_start st' = es_start st + text_len d \<and> es_insertion_offset st' = es_insertion_offset st \<and> B' @ A' = B @ A"
proof (induction k arbitrary: st B A u N d)
  case (Suc k)
  let ?ts = "ec_timestamp ctx" and ?stop = "es_start st + text_len d"
  note inv = Suc.prems(1)
  show ?case
  proof (cases "d = []")
    case True
    then show ?thesis using inv Suc.prems(2) by auto
  next
    case False
    then obtain f t A' where A: "A = (f, t) # A'" using Suc.prems(2) by (cases A) auto
    have cur: "cursor_ok ctx (es_old st) (es_start st) B ((f, t) # A') u" using inv A by (simp add: edit_inv_def)
    have old: "old_piece ctx (f, t)" using inv A by (simp add: edit_inv_def out_ok_def)
    then have t: "t \<noteq> []" "piece_ok (f, t)" "frag_good (ec_undone ctx) (ec_slices ctx) f" by (simp_all add: old_piece_def piece_ok_def)
    obtain w where w: "t = u @ w" using cur by (cases "u = []") (auto simp: cursor_ok_def)
    note part = old_part [OF cur]
    have "frag_visible f \<or> u = []" using cur by (auto simp: cursor_ok_def)
    then consider (deleted) "\<not> frag_visible f" "u = []" | (consumed) "frag_visible f" "w = []" "u \<noteq> []"
      | (whole) d' where "frag_visible f" "w \<noteq> []" "d = w @ d'" | (start) w' where "frag_visible f" "w = d @ w'" "w' \<noteq> []"
    proof -
      assume vis: "frag_visible f \<or> u = []"
      have "w @ vis A' = d @ y" if "frag_visible f" "w \<noteq> []" using Suc.prems(2) A w that by (cases "u = []") simp_all
      then show thesis using vis that t(1) w text_cut [of w "vis A'" d y] text_cut [of d y w "vis A'"]
        by (metis append_Nil2 nat_le_linear append_self_conv2)
    qed
    then show ?thesis
    proof cases
      case deleted
      have last: "end_visible st = Some (es_start st)"
        using cursor_ok_reads(4) [OF cur] part(3) deleted by (simp add: end_visible_def)
      have out: "out_ok ctx st N A u" "texts_ok (es_ropes st) N A u" using inv by (simp_all add: edit_inv_def)
      have A1: "A = (f, u @ t @ []) # A'" using A deleted by simp
      have good: "frag_good (ec_undone ctx) (ec_slices ctx \<union> set (es_slices st @ [])) f" using t(3) by (rule frag_good_mono) auto
      have len: "frag_len f = word_of_nat (text_len t)" "frag_insertion_offset f = frag_insertion_offset f + word_of_nat (text_len u)" "0 < frag_len f"
        using frag_len_piece [OF t(2)] deleted by simp_all
      show ?thesis
      proof (rule push_part_ok [OF out A1 t(1) refl len(2,1) refl good, of "es_patch st"])
        fix ro b
        let ?st = "st\<lparr>es_patch := es_patch st, es_slices := es_slices st @ [], es_insertions := es_insertions st @ [insert_new f], es_ropes := ro, es_new := b\<rparr>"
        assume p: "push_part (st\<lparr>es_patch := es_patch st, es_slices := es_slices st @ []\<rparr>) f (frag_visible f) = Some ?st"
          "out_ok ctx ?st (N @ [(f, t)]) A (u @ t)" "texts_ok ro (N @ [(f, t)]) A (u @ t)"
        have vis: "vis_bytes (N @ [(f, t)]) = vis_bytes N" "vis (B @ [(f, t)]) = vis B" using deleted by simp_all
        have "recovers (ec_timestamp ctx) (N @ [(f, t)]) B ((f, t) # A') t"
          using recovers_part [of ?ts N B A u f t "[]" A' f] inv A1 A t len deleted old by (simp add: edit_inv_def old_piece_def)
        moreover have "es_start ?st = text_len (vis (B @ [(f, t)]))" using part(3) deleted by simp
        moreover have "patch_ok ctx (es_patch st) (es_start st) N" using inv by (simp add: edit_inv_def)
        then have "patch_ok ctx (es_patch ?st) (es_start ?st) (N @ [(f, t)])" using vis(1) by (simp add: patch_ok_def)
        moreover have "cursor_ok ctx (es_old ?st) (es_start st) B ((f, t) # A') u" using cur by simp
        ultimately obtain c where c: "old_next ?st = Some (?st\<lparr>es_old := c\<rparr>)" "edit_inv ctx (?st\<lparr>es_old := c\<rparr>) (B @ [(f, t)]) A' [] (N @ [(f, t)]) r"
          using old_next_ok [of ctx ?st "es_start st" B f t A' u "N @ [(f, t)]" r] p(2,3) inv A deleted t(1) by (auto simp: edit_inv_def)
        have d: "vis (left_of A' []) = d @ y" using Suc.prems(2) A deleted by simp
        have "length A' < k" using Suc.prems(3) A by simp
        from Suc.IH [OF c(2) d this] obtain st' B' A'' u' N' where IH: "delete_loop k (?st\<lparr>es_old := c\<rparr>) ?ts (es_start st + text_len d) = Some st'"
          "edit_inv ctx st' B' A'' u' N' r" "vis (left_of A'' u') = y" "es_start st' = es_start st + text_len d" "es_insertion_offset st' = es_insertion_offset st" "B' @ A'' = B @ A" unfolding A by auto
        have "push_deleted st f f ?ts (es_start st) = Some ?st" using p(1) len(3) deleted by (simp add: push_deleted_def)
        then have "delete_loop (Suc k) st ?ts ?stop = Some st'"
          using False part(1) last deleted c(1) IH(1) by (simp add: deleted_part_def)
        then show ?thesis using IH by blast
      qed simp
    next
      case consumed
      have last: "end_visible st = Some (es_start st)" using end_visible_head [of ctx st B f u w A'] cur w consumed by simp
      have "out_ok ctx st N ((f, t) # A') t" "texts_ok (es_ropes st) N ((f, t) # A') t" "es_start st = text_len (vis (B @ [(f, t)]))"
        "ec_old ctx = vis (B @ [(f, t)]) @ vis A'" "recovers (ec_timestamp ctx) N B ((f, t) # A') t"
        using inv A w consumed part(3) by (simp_all add: edit_inv_def)
      moreover have "ids_ok (frag_ids N @ [frag_id f] @ frag_ids A')" using inv A by (simp add: edit_inv_def)
      then have "ids_ok (frag_ids (N @ A'))" using ids_ok_drop by fastforce
      ultimately obtain c where c: "old_next st = Some (st\<lparr>es_old := c\<rparr>)" "edit_inv ctx (st\<lparr>es_old := c\<rparr>) (B @ [(f, t)]) A' [] N r"
        using old_next_ok [OF cur, of N r] inv by (auto simp: edit_inv_def)
      have d: "vis (left_of A' []) = d @ y" using Suc.prems(2) A w consumed by simp
      have "length A' < k" using Suc.prems(3) A by simp
      from Suc.IH [OF c(2) d this] obtain st' B' A'' u' N' where IH: "delete_loop k (st\<lparr>es_old := c\<rparr>) ?ts (es_start st + text_len d) = Some st'"
        "edit_inv ctx st' B' A'' u' N' r" "vis (left_of A'' u') = y" "es_start st' = es_start st + text_len d" "es_insertion_offset st' = es_insertion_offset st" "B' @ A'' = B @ A" unfolding A by auto
      obtain g where g: "deleted_part st f ?ts (es_start st) = Some g" "frag_len g = 0"
        using part(4) [of "[]"] consumed by (simp add: deleted_part_def)
      then have "delete_loop (Suc k) st ?ts ?stop = Some st'"
        using False part(1) last c(1) IH(1) by (simp add: push_deleted_def)
      then show ?thesis using IH by blast
    next
      case whole
      have A1: "A = (f, u @ w @ []) # A'" using A w by simp
      have last: "end_visible st = Some (es_start st + text_len w)" using end_visible_head [of ctx st B f u w A'] cur w whole by simp
      show ?thesis
      proof (rule delete_part_ok [OF inv A1 whole(2,1) fresh])
        fix g st1
        assume g: "deleted_part st f ?ts (es_start st + text_len w) = Some g"
          "push_deleted st f g ?ts (es_start st + text_len w) = Some st1" "es_old st1 = es_old st" "es_start st1 = es_start st + text_len w"
          "es_insertion_offset st1 = es_insertion_offset st"
          "out_ok ctx st1 (N @ [(g, w)]) A (u @ w)" "texts_ok (es_ropes st1) (N @ [(g, w)]) A (u @ w)"
          "patch_ok ctx (es_patch st1) (es_start st1) (N @ [(g, w)])" "ids_ok (frag_ids ((N @ [(g, w)]) @ A))"
          "ec_old ctx = vis B @ (u @ w) @ vis (left_of A (u @ w))" "ec_new ctx = vis (N @ [(g, w)]) @ r"
          "recovers (ec_timestamp ctx) (N @ [(g, w)]) B A (u @ w)"
        have left: "left_of A t = A'" using A t(1) by simp
        have "ids_ok (frag_ids (N @ [(g, w)]) @ [frag_id f] @ frag_ids A')" using g(9) A by simp
        then have "ids_ok (frag_ids ((N @ [(g, w)]) @ A'))" using ids_ok_drop by fastforce
        moreover have "cursor_ok ctx (es_old st1) (es_start st) B ((f, t) # A') u" using cur g(3) by simp
        ultimately obtain c where c: "old_next st1 = Some (st1\<lparr>es_old := c\<rparr>)" "edit_inv ctx (st1\<lparr>es_old := c\<rparr>) (B @ [(f, t)]) A' [] (N @ [(g, w)]) r"
          using old_next_ok [of ctx st1 "es_start st" B f t A' u "N @ [(g, w)]" r] t(1) g(4,6-8,10-12) w A whole(1) part(3) left by auto
        have d: "vis (left_of A' []) = d' @ y" using Suc.prems(2) A w whole by (cases "u = []") simp_all
        have "length A' < k" using Suc.prems(3) A by simp
        from Suc.IH [OF c(2) d this] obtain st' B' A'' u' N' where IH: "delete_loop k (st1\<lparr>es_old := c\<rparr>) ?ts (es_start st1 + text_len d') = Some st'"
          "edit_inv ctx st' B' A'' u' N' r" "vis (left_of A'' u') = y" "es_start st' = es_start st1 + text_len d'" "es_insertion_offset st' = es_insertion_offset st1" "B' @ A'' = B @ A" unfolding A by auto
        have fin: "es_start st1 + text_len d' = ?stop" using g(4) whole(3) by simp
        have "delete_loop (Suc k) st ?ts ?stop = Some st'"
          using False part(1) last g(1,2) c(1) IH(1) [unfolded fin] whole(3) by simp
        then show ?thesis using IH(2-4) IH(5,6) g(5) fin by metis
      qed
    next
      case start
      have A1: "A = (f, u @ d @ w') # A'" using A w start by simp
      have last: "end_visible st = Some (es_start st + text_len w)" using end_visible_head [of ctx st B f u w A'] cur w start by simp
      show ?thesis
      proof (rule delete_part_ok [OF inv A1 False start(1) fresh])
        fix g st1
        assume g: "deleted_part st f ?ts (es_start st + text_len d) = Some g"
          "push_deleted st f g ?ts (es_start st + text_len d) = Some st1" "es_old st1 = es_old st" "es_start st1 = es_start st + text_len d"
          "es_insertion_offset st1 = es_insertion_offset st"
          "out_ok ctx st1 (N @ [(g, d)]) A (u @ d)" "texts_ok (es_ropes st1) (N @ [(g, d)]) A (u @ d)"
          "patch_ok ctx (es_patch st1) (es_start st1) (N @ [(g, d)])" "ids_ok (frag_ids ((N @ [(g, d)]) @ A))"
          "ec_old ctx = vis B @ (u @ d) @ vis (left_of A (u @ d))" "ec_new ctx = vis (N @ [(g, d)]) @ r"
          "recovers (ec_timestamp ctx) (N @ [(g, d)]) B A (u @ d)"
        have "cursor_ok ctx (es_old st1) (es_start st1) B A (u @ d)" using cur g(3,4) A1 A start by (auto simp: cursor_ok_def)
        then have "edit_inv ctx st1 B A (u @ d) (N @ [(g, d)]) r" using g(6-12) by (simp add: edit_inv_def)
        moreover have "vis (left_of A (u @ d)) = y" using Suc.prems(2) A1 False start by (cases "u = []") simp_all
        moreover have "\<exists>k'. k = Suc k'" using Suc.prems(3) A by (cases k) simp_all
        then have "delete_loop (Suc k) st ?ts ?stop = Some st1" using False part(1) last g(1,2,4) start by auto
        ultimately show ?thesis using g(4,5) by metis
      qed
    qed
  qed
qed simp

end
