(* ===== verification/Text_Edit_Correct.thy ===== *)
theory Text_Edit_Correct
  imports Text_Edit_Steps
begin

text \<open>
  What a whole batch of edits does: a script of the kept, deleted and inserted texts describes every
  list of edits whose ranges are sorted, do not overlap and lie on character boundaries, and the
  fragments and texts that the loop leaves are those of the edited text.
\<close>

section \<open>Scripts\<close>

text \<open>Each edit of a script keeps a text, deletes the next one and inserts one in its place.\<close>

type_synonym Script = "(ustr \<times> ustr \<times> ustr) list"

fun script_old :: "Script \<Rightarrow> ustr \<Rightarrow> ustr" where
  "script_old [] q = q"
| "script_old ((p, d, n) # es) q = p @ d @ script_old es q"

fun script_new :: "Script \<Rightarrow> ustr \<Rightarrow> ustr" where
  "script_new [] q = q"
| "script_new ((p, d, n) # es) q = p @ n @ script_new es q"

fun script_edits :: "nat \<Rightarrow> Script \<Rightarrow> (Range \<times> ustr) list" where
  "script_edits i [] = []"
| "script_edits i ((p, d, n) # es) =
     (\<lparr>r_start = i + text_len p, r_end = i + text_len p + text_len d\<rparr>, n) # script_edits (i + text_len p + text_len d) es"

fun inserted_len :: "Script \<Rightarrow> nat" where
  "inserted_len [] = 0"
| "inserted_len ((p, d, n) # es) = text_len n + inserted_len es"

section \<open>The loop\<close>

lemma edit_step_ok:
  assumes inv: "edit_inv ctx st B A u N (p @ n @ r)" and vis: "vis (left_of A u) = p @ d @ y"
    and fresh: "\<not> ec_undone ctx (ec_timestamp ctx)" and n: "unat (es_insertion_offset st) + text_len n < 2 ^ 32"
  obtains st' B' A' u' N' where
    "edit_step (ec_timestamp ctx) st \<lparr>r_start = es_start st + text_len p, r_end = es_start st + text_len p + text_len d\<rparr> n = Some st'"
    "edit_inv ctx st' B' A' u' N' r" "vis (left_of A' u') = y" "es_start st' = es_start st + text_len p + text_len d"
    "unat (es_insertion_offset st') = unat (es_insertion_offset st) + text_len n" "B' @ A' = B @ A"
proof (rule skip_to_range_ok [OF inv vis])
  fix st1 B1 A1 u1 N1 p1
  assume s1: "skip_to_range st (es_start st + text_len p) = Some st1" "edit_inv ctx st1 B1 A1 u1 N1 (p1 @ n @ r)"
    "vis (left_of A1 u1) = p1 @ d @ y" "es_start st1 + text_len p1 = es_start st + text_len p" "B1 @ A1 = B @ A"
    "p1 \<noteq> [] \<Longrightarrow> \<exists>f y A''. A1 = (f, u1 @ p1 @ y) # A'' \<and> frag_visible f" "es_insertion_offset st1 = es_insertion_offset st"
  show thesis
  proof (rule keep_prefix_ok [OF s1(2,6)])
    fix st2 N2
    assume s2: "keep_prefix st1 (es_start st1 + text_len p1) = Some st2" "edit_inv ctx st2 B1 A1 (u1 @ p1) N2 (n @ r)"
      "vis (left_of A1 u1) = p1 @ vis (left_of A1 (u1 @ p1))" "es_start st2 = es_start st1 + text_len p1"
      "es_insertion_offset st2 = es_insertion_offset st1"
    have n2: "unat (es_insertion_offset st2) + text_len n < 2 ^ 32" using n s1(7) s2(5) by simp
    show thesis
    proof (rule insert_text_ok [OF s2(2) n2 fresh])
      fix st3 N3
      assume s3: "insert_text st2 n (ec_timestamp ctx) = Some st3" "edit_inv ctx st3 B1 A1 (u1 @ p1) N3 r" "es_start st3 = es_start st2"
        "unat (es_insertion_offset st3) = unat (es_insertion_offset st2) + text_len n"
      have d: "vis (left_of A1 (u1 @ p1)) = d @ y" using s1(3) s2(3) by simp
      have "flatten (c_tree (es_old st3)) = map fst (B1 @ A1)" using s3(2) by (simp add: edit_inv_def cursor_ok_def tree_pieces_def)
      then have "length A1 < length (flatten (c_tree (es_old st3))) + 2" by simp
      from delete_loop_ok [OF fresh s3(2) d this]
      obtain st4 B4 A4 u4 N4 where s4: "delete_range st3 (ec_timestamp ctx) (es_start st3 + text_len d) = Some st4" "edit_inv ctx st4 B4 A4 u4 N4 r"
        "vis (left_of A4 u4) = y" "es_start st4 = es_start st3 + text_len d" "es_insertion_offset st4 = es_insertion_offset st3" "B4 @ A4 = B1 @ A1"
        unfolding delete_range_def by blast
      have starts: "es_start st + text_len p = es_start st1 + text_len p1" "es_start st3 = es_start st1 + text_len p1" using s1(4) s2(4) s3(3) by simp_all
      let ?st = "st4\<lparr>es_ranges := es_ranges st4 @ [(es_start st + text_len p + start_deleted st1, es_start st + text_len p + text_len d + start_deleted st4)],
        es_texts := es_texts st4 @ [n]\<rparr>"
      have "edit_step (ec_timestamp ctx) st \<lparr>r_start = es_start st + text_len p, r_end = es_start st + text_len p + text_len d\<rparr> n = Some ?st"
        using s1(1) s2(1) s3(1) s4(1) unfolding starts by (simp add: edit_step_def Let_def)
      moreover have "edit_inv ctx ?st B4 A4 u4 N4 r" using s4(2) by (simp add: edit_inv_def)
      ultimately show thesis using that [of ?st B4 A4 u4 N4] s4(3-6) s3(3,4) s2(4,5) s1(4,5,7) by simp
    qed
  qed
qed

lemma edit_steps_ok:
  assumes "\<not> ec_undone ctx (ec_timestamp ctx)"
  shows "edit_inv ctx st B A u N (script_new es q) \<Longrightarrow> vis (left_of A u) = script_old es q \<Longrightarrow>
    unat (es_insertion_offset st) + inserted_len es < 2 ^ 32 \<Longrightarrow>
    \<exists>st' B' A' u' N'. edit_steps (ec_timestamp ctx) st (script_edits (es_start st) es) = Some st' \<and> edit_inv ctx st' B' A' u' N' q \<and>
      vis (left_of A' u') = q \<and> B' @ A' = B @ A"
proof (induction es arbitrary: st B A u N)
  case (Cons e es)
  obtain p d n where e: "e = (p, d, n)" by (cases e)
  have inv: "edit_inv ctx st B A u N (p @ n @ script_new es q)" and vis: "vis (left_of A u) = p @ d @ script_old es q"
    and n: "unat (es_insertion_offset st) + text_len n < 2 ^ 32" using Cons.prems e by simp_all
  show ?case
  proof (rule edit_step_ok [OF inv vis assms n])
    fix st1 B1 A1 u1 N1
    assume s: "edit_step (ec_timestamp ctx) st \<lparr>r_start = es_start st + text_len p, r_end = es_start st + text_len p + text_len d\<rparr> n = Some st1"
      "edit_inv ctx st1 B1 A1 u1 N1 (script_new es q)" "vis (left_of A1 u1) = script_old es q" "es_start st1 = es_start st + text_len p + text_len d"
      "unat (es_insertion_offset st1) = unat (es_insertion_offset st) + text_len n" "B1 @ A1 = B @ A"
    have "unat (es_insertion_offset st1) + inserted_len es < 2 ^ 32" using Cons.prems(3) s(5) e by simp
    from Cons.IH [OF s(2,3) this] show ?thesis using s(1,6) e unfolding s(4) by simp
  qed
qed (auto intro: exI [of _ st])

section \<open>Start and end\<close>

lemma finish_edits_ok:
  assumes inv: "edit_inv ctx st B A u N q" and vis: "vis (left_of A u) = q"
  obtains st' new tree v d N' where "finish_edits st = Some (st', tree, v, d)" "tree_pieces tree N'" "rope_ok v" "rope_text v = vis N'"
    "rope_ok d" "rope_text d = del N'" "out_ok ctx (st'\<lparr>es_new := new\<rparr>) N' [] []" "patch_ok ctx (es_patch st') (length (ec_bytes ctx)) N'"
    "ids_ok (frag_ids N')" "vis N' = ec_new ctx" "recovers (ec_timestamp ctx) N' (B @ A) [] []"
proof -
  have cur: "cursor_ok ctx (es_old st) (es_start st) B A u" using inv by (simp add: edit_inv_def)
  obtain w y where w: "u \<noteq> [] \<Longrightarrow> \<exists>f A'. A = (f, u @ w) # A'" "u = [] \<Longrightarrow> w = []" "q = w @ y"
  proof (cases "u = []")
    case False
    then obtain f w A' where A': "A = (f, u @ w) # A'" "frag_visible f" using cur by (auto simp: cursor_ok_def)
    then have "q = w @ vis A'" using vis False by (cases "w = []") simp_all
    then show ?thesis using that A'(1) False by blast
  qed (use that in simp)
  have inv': "edit_inv ctx st B A u N (w @ y)" using inv w(3) by simp
  show thesis
  proof (rule finish_fragment_ok [OF inv' w(1,2)])
    fix st1 B1 A1 N1
    assume f: "finish_fragment st = Some st1" "edit_inv ctx (st1\<lparr>es_start := es_start st + text_len w\<rparr>) B1 A1 [] N1 y" "vis (left_of A u) = w @ vis A1" "B1 @ A1 = B @ A"
    have y: "y = vis A1" using f(3) vis w(3) by simp
    have cur1: "cursor_ok ctx (es_old st1) (es_start st + text_len w) B1 A1 []" using f(2) by (simp add: edit_inv_def)
    then have c1: "wf_tree fragment_ops (c_tree (es_old st1))" "height (c_tree (es_old st1)) < 16"
      "cursor_ready fragment_ops FragmentText_dim (es_old st1) (map fst B1) (map fst A1)" by (simp_all add: cursor_ok_def cursor_ready_at tree_pieces_def)
    from fragment_text.cursor_suffix_ok [OF c1] obtain c t where t: "cursor_suffix fragment_ops FragmentText_dim (es_old st1) = Some (c, t)"
      "wf_tree fragment_ops t" "flatten t = map fst A1" "cursor_at fragment_ops FragmentText_dim c (map fst B1 @ map fst A1) []" "c_tree c = c_tree (es_old st1)" by blast
    have h: "height t < 16" using fragment_text.cursor_suffix_height [OF c1(1,3) t(1)] c1(2) by simp
    have pieces: "tree_pieces t A1" using t(2,3) cur1 by (simp add: cursor_ok_def tree_pieces_def)
    have cur2: "cursor_ok ctx c (text_len (vis (B1 @ A1))) (B1 @ A1) [] []" using t(4,5) cur1 by (simp add: cursor_ok_def)
    have inv1: "edit_inv ctx (st1\<lparr>es_start := es_start st + text_len w\<rparr>) B1 (A1 @ []) [] N1 (vis A1 @ [])" using f(2) y by simp
    show thesis
    proof (rule append_slice_ok [OF inv1 pieces h cur2])
      fix ropes new
      let ?st = "st1\<lparr>es_old := c, es_ropes := ropes, es_new := new, es_start := ft_visible (c_position c)\<rparr>"
      assume a: "rb_append (es_ropes st1) (sum_text (summary t)) = Some ropes" "fb_append (es_new st1) t = Some new"
        "edit_inv ctx ?st (B1 @ A1) [] [] (N1 @ A1) []"
      have "out_ok ctx (?st\<lparr>es_old := es_old st1, es_ropes := es_ropes st1, es_start := es_start st1\<rparr>) (N1 @ A1) [] []"
        using a(3) unfolding out_ok_frame by (simp add: edit_inv_def)
      then have out: "out_ok ctx (st1\<lparr>es_new := new\<rparr>) (N1 @ A1) [] []" by simp
      have "ropes_at ropes [] [] (vis (N1 @ A1)) (del (N1 @ A1))" using a(3) by (simp add: edit_inv_def texts_ok_def)
      from rb_finish_ok [OF this] obtain v d where v: "rb_finish ropes = Some (v, d)" "rope_ok v" "rope_text v = vis (N1 @ A1)" "rope_ok d" "rope_text d = del (N1 @ A1)" by auto
      have "built new (N1 @ A1)" using a(3) by (simp add: edit_inv_def out_ok_def)
      from fb_to_sum_tree_ok [OF this] obtain tree where tree: "fb_to_sum_tree new = Some tree" "tree_pieces tree (N1 @ A1)" by blast
      have "finish_edits st = Some (st1, tree, v, d)" using f(1) t(1) a(1,2) v(1) tree(1) by (simp add: finish_edits_def)
      moreover have "patch_ok ctx (es_patch st1) (length (ec_bytes ctx)) (N1 @ A1)"
        using a(3) length_vis_bytes [of "B1 @ A1"] by (auto simp: edit_inv_def cursor_ok_def tree_pieces_def)
      moreover have "vis (N1 @ A1) = ec_new ctx" "recovers (ec_timestamp ctx) (N1 @ A1) (B @ A) [] []" "ids_ok (frag_ids (N1 @ A1))"
        using a(3) f(4) by (simp_all add: edit_inv_def)
      ultimately show thesis using that out tree(2) v(2-5) by blast
    qed
  qed
qed

text \<open>The start: the pieces before the first edit are taken over.\<close>

lemma start_edits_ok:
  assumes tree: "tree_pieces T ps" "height T \<le> 7" and ropes: "rope_ok v" "height (rope_chunks v) \<le> 6" "rope_ok d" "height (rope_chunks d) \<le> 6"
    "rope_text v = vis ps" "rope_text d = del ps"
    and ctx: "ec_tree ctx = T" "ec_old ctx = vis ps" "ec_new ctx = p @ r" "ec_index ctx = index_of (map fst ps)" "\<forall>p \<in> set ps. old_piece ctx p"
      "ec_bytes ctx = vis_bytes ps"
    and ps: "spans_ok (map fst ps)" "ids_ok (frag_ids ps)" "vis ps = p @ q"
  obtains st B A p' N where "start_edits v d T (text_len p) = Some st" "edit_inv ctx st B A [] N (p' @ r)" "vis (left_of A []) = p' @ q"
    "es_start st + text_len p' = text_len p" "es_insertion_offset st = 0" "p = vis B @ p'" "B @ A = ps"
proof -
  let ?c = "cursor_new FragmentText_dim T"
  have c: "c_tree ?c = ec_tree ctx" "tree_pieces (ec_tree ctx) ([] @ ps)" "height (ec_tree ctx) \<le> 7"
    "cursor_ready fragment_ops FragmentText_dim ?c (map fst []) (map fst ps)" "ec_bytes ctx = vis_bytes ([] @ ps)"
    using tree ctx(1,6) cursor_ready_fresh [OF cursor_fresh_new(1), of fragment_ops FragmentText_dim T]
    by (simp_all add: cursor_fresh_new tree_pieces_def)
  obtain cv cd where cv: "rope_cursor v 0 = Some cv" "rope_cursor d 0 = Some cd" "ropes_at (RopeBuilder_new cv cd) (vis ps) (del ps) [] []"
    using RopeBuilder_new_ok [OF ropes(1-4)] ropes(5,6) by auto
  show thesis
  proof (rule slice_pieces [OF c ps(3)])
    fix S R u c' t
    assume s: "cursor_slice fragment_ops FragmentText_dim ?c (visible_target (text_len (vis [] @ p))) Bias.Right = Some (c', t)"
      "ps = S @ R" "p = vis S @ u" "tree_pieces t S" "height t < 16" "cursor_ok ctx c' (text_len (vis ([] @ S))) ([] @ S) R []"
    obtain new where new: "FragmentBuilder_new t = Some new" "built new S" using FragmentBuilder_new_ok [OF s(4,5)] by blast
    have "sum_text (fb_summary new) = \<lparr>ft_visible = text_len (vis S), ft_deleted = text_len (del S)\<rparr>" using new(2) by (simp add: built_def sum_ok_def)
    moreover have "ropes_at (RopeBuilder_new cv cd) (vis S @ vis R) (del S @ del R) [] []" using cv(3) s(2) by simp
    ultimately obtain ro where ro: "rb_append (RopeBuilder_new cv cd) (sum_text (fb_summary new)) = Some ro" "ropes_at ro (vis R) (del R) (vis S) (del S)"
      using rb_append_ok by fastforce
    let ?st = "\<lparr>es_old = c', es_new = new, es_ropes = ro, es_start = ft_visible (c_position c'), es_insertion_offset = 0,
       es_insertions = [], es_slices = [], es_patch = Patch_empty, es_ranges = [], es_texts = []\<rparr>"
    have pos: "ft_visible (c_position c') = text_len (vis S)" using cursor_ok_reads(1) [OF s(6)] by simp
    have good: "frag_good (ec_undone ctx) (ec_slices ctx) (fst p)" "frag_timestamp (fst p) \<noteq> ec_timestamp ctx" if "p \<in> set S" for p
      using ctx(5) s(2) that by (auto simp: old_piece_def)
    have out: "out_ok ctx ?st S R []" using new(2) ctx(4,5) ps(1) s(2) good by (auto simp: out_ok_def rest_of_def)
    have "same_run (length (vis_bytes S)) 0 0 (ec_bytes ctx) (vis_bytes S)"
      using ctx(6) s(2) by (simp add: same_run_def nth_append)
    moreover have "length (vis_bytes S) = text_len (vis S)" using tree(1) s(2) length_vis_bytes by (simp add: tree_pieces_def)
    ultimately have "patch_ok ctx Patch_empty (text_len (vis S)) S" by (simp add: patch_ok_def Patch_empty_def separated_def)
    moreover have "recovers (ec_timestamp ctx) S S R []" by (rule recovers_start) (use good in blast)
    ultimately have "edit_inv ctx ?st S R [] S (u @ r)"
      using out s(6) pos ro(2) ps(2,3) ctx(2,3) s(2,3) by (simp add: edit_inv_def texts_ok_def)
    moreover have "start_edits v d T (text_len p) = Some ?st"
      using cv(1,2) s(1) new(1) ro(1) by (simp add: start_edits_def)
    moreover have "vis R = u @ q" using ps(3) s(2,3) by simp
    ultimately show thesis using that [of ?st S R S u] pos s(2,3) by simp
  qed
qed

text \<open>All edits of a script, which is not empty.\<close>

lemma apply_edits_ok:
  assumes tree: "tree_pieces T ps" "height T \<le> 7" and ropes: "rope_ok v" "height (rope_chunks v) \<le> 6" "rope_ok d" "height (rope_chunks d) \<le> 6"
    "rope_text v = vis ps" "rope_text d = del ps"
    and ctx: "ec_tree ctx = T" "ec_old ctx = vis ps" "ec_new ctx = script_new es q" "ec_index ctx = index_of (map fst ps)" "\<forall>p \<in> set ps. old_piece ctx p"
      "ec_bytes ctx = vis_bytes ps"
    and ps: "spans_ok (map fst ps)" "ids_ok (frag_ids ps)"
    and script: "vis ps = script_old es q" "es \<noteq> []" "inserted_len es < 2 ^ 32" and fresh: "\<not> ec_undone ctx (ec_timestamp ctx)"
  obtains st0 st1 st new tree v' d' N where "start_edits v d T (r_start (fst (hd (script_edits 0 es)))) = Some st0"
    "edit_steps (ec_timestamp ctx) st0 (script_edits 0 es) = Some st1" "finish_edits st1 = Some (st, tree, v', d')"
    "tree_pieces tree N" "rope_ok v'" "rope_text v' = vis N" "rope_ok d'" "rope_text d' = del N"
    "out_ok ctx (st\<lparr>es_new := new\<rparr>) N [] []" "separated (es_patch st)" "is_patch (es_patch st) (vis_bytes ps) (vis_bytes N)"
    "ids_ok (frag_ids N)" "vis N = script_new es q" "recovers (ec_timestamp ctx) N ps [] []"
proof -
  obtain p dd n es' where es: "es = (p, dd, n) # es'" using script(2) by (metis list.exhaust prod_cases3)
  have vis: "vis ps = p @ dd @ script_old es' q" and new: "ec_new ctx = p @ n @ script_new es' q" using script(1) ctx(3) es by simp_all
  show thesis
  proof (rule start_edits_ok [OF tree ropes ctx(1,2) new ctx(4-6) ps vis])
    fix st0 B A p' N
    assume s0: "start_edits v d T (text_len p) = Some st0" "edit_inv ctx st0 B A [] N (p' @ n @ script_new es' q)"
      "vis (left_of A []) = p' @ dd @ script_old es' q" "es_start st0 + text_len p' = text_len p" "es_insertion_offset st0 = 0" "B @ A = ps"
    let ?es = "(p', dd, n) # es'"
    have same: "script_edits (es_start st0) ?es = script_edits 0 es" using es s0(4) by simp
    have n: "unat (es_insertion_offset st0) + inserted_len ?es < 2 ^ 32" using script(3) es s0(5) by simp
    have "edit_inv ctx st0 B A [] N (script_new ?es q)" "vis (left_of A []) = script_old ?es q" using s0(2,3) by simp_all
    from edit_steps_ok [OF fresh this n, unfolded same] obtain st1 B1 A1 u1 N1 where
      s1: "edit_steps (ec_timestamp ctx) st0 (script_edits 0 es) = Some st1" "edit_inv ctx st1 B1 A1 u1 N1 q" "vis (left_of A1 u1) = q" "B1 @ A1 = ps" unfolding s0(6) by blast
    show thesis
    proof (rule finish_edits_ok [OF s1(2,3)])
      fix st new tree v' d' N'
      assume f: "finish_edits st1 = Some (st, tree, v', d')" "tree_pieces tree N'" "rope_ok v'" "rope_text v' = vis N'"
        "rope_ok d'" "rope_text d' = del N'" "out_ok ctx (st\<lparr>es_new := new\<rparr>) N' [] []" "patch_ok ctx (es_patch st) (length (ec_bytes ctx)) N'"
        "ids_ok (frag_ids N')" "vis N' = ec_new ctx" "recovers (ec_timestamp ctx) N' (B1 @ A1) [] []"
      have "is_patch (es_patch st) (vis_bytes ps) (vis_bytes N')" "separated (es_patch st)"
        using f(8) ctx(6) by (simp_all add: patch_ok_def is_patch_def)
      then show thesis using that [of st0 st1 st tree v' d' N' new] s0(1) s1(1) f [unfolded s1(4)] ctx(2,3) es by simp
    qed
  qed
qed

end
