(* ===== verification/Text_Buffer_Edit.thy ===== *)
theory Text_Buffer_Edit
  imports Text_Buffer Text_Edit_Correct
begin

text \<open>
  The invariant of a buffer and its local edits: the fragments partition the visible and the deleted
  text, the index knows every fragment, every edit that affects a fragment is recorded, and a
  fragment is visible when its edits say so.  A local edit with sorted ranges keeps this, refines
  replacing the ranges in a string, informs the subscribers, and undoing it takes exactly it back.
\<close>

section \<open>The invariant\<close>

text \<open>An edit is undone when the largest count that the undo map holds for it is odd.\<close>

definition edit_undone :: "UndoMap \<Rightarrow> Lamport \<Rightarrow> bool" where
  "edit_undone m e \<longleftrightarrow> largest_count (\<lambda>_. True) (undo_counts m e) mod 2 = 1"

definition slice_set :: "InsertionSlice TreeSet \<Rightarrow> InsertionSlice set" where
  "slice_set s = dom (tm_map s)"

text \<open>The texts, the fragments and the index.\<close>

definition fragments_ok :: "BufferSnapshot \<Rightarrow> Piece list \<Rightarrow> bool" where
  "fragments_ok s ps \<longleftrightarrow>
     tree_pieces (bs_fragments s) ps \<and>
     rope_ok (bs_visible_text s) \<and> rope_text (bs_visible_text s) = vis ps \<and>
     rope_ok (bs_deleted_text s) \<and> rope_text (bs_deleted_text s) = del ps \<and>
     ids_ok (frag_ids ps) \<and> spans_ok (map fst ps) \<and>
     wf_tree insertion_ops (bs_insertions s) \<and> keys_sorted insertion_key (flatten (bs_insertions s)) \<and>
     key_map insertion_key (flatten (bs_insertions s)) = index_of (map fst ps)"

text \<open>The slices and the visibility.  Edits are later than the base text.\<close>

definition visibility_ok :: "BufferSnapshot \<Rightarrow> Piece list \<Rightarrow> bool" where
  "visibility_ok s ps \<longleftrightarrow>
     tm_invar (bs_insertion_slices s) \<and> undo_invar (bs_undo_map s) \<and>
     (\<forall>p \<in> set ps. frag_good (edit_undone (bs_undo_map s)) (slice_set (bs_insertion_slices s)) (fst p)) \<and>
     (\<forall>i \<in> slice_set (bs_insertion_slices s). base_timestamp < is_edit_id i \<and> base_timestamp \<le> is_insertion_id i)"

definition snapshot_ok :: "BufferSnapshot \<Rightarrow> Piece list \<Rightarrow> bool" where
  "snapshot_ok s ps \<longleftrightarrow> fragments_ok s ps \<and> visibility_ok s ps"

text \<open>Trees that cursors with 16 stack entries can walk over.\<close>

definition shallow :: "BufferSnapshot \<Rightarrow> bool" where
  "shallow s \<longleftrightarrow> height (bs_fragments s) \<le> 7 \<and> height (rope_chunks (bs_visible_text s)) \<le> 6 \<and>
     height (rope_chunks (bs_deleted_text s)) \<le> 6 \<and> height (bs_insertions s) < 16 \<and>
     tm_usable (bs_insertion_slices s) \<and> undo_usable (bs_undo_map s)"

text \<open>A timestamp later than the base text and every edit and undo operation so far.\<close>

definition later_than :: "BufferSnapshot \<Rightarrow> Lamport \<Rightarrow> bool" where
  "later_than s t \<longleftrightarrow> base_timestamp < t \<and> (\<forall>i \<in> slice_set (bs_insertion_slices s). is_edit_id i < t) \<and>
     (\<forall>e u. undo_counts (bs_undo_map s) e u \<noteq> None \<longrightarrow> e < t \<and> u < t)"

lemma undone_is: "undo_invar m \<Longrightarrow> undo_usable m \<Longrightarrow> is_undone m e = Some (edit_undone m e)"
  using undo_count_from_ok [of m "\<lambda>_. True"] by (simp add: is_undone_def undo_count_def edit_undone_def)

lemma not_undone: "(\<And>u. undo_counts m e u = None) \<Longrightarrow> \<not> edit_undone m e"
  by (simp add: edit_undone_def largest_count_def)

lemma later_not_undone: "later_than s t \<Longrightarrow> \<not> edit_undone (bs_undo_map s) t"
  by (rule not_undone, unfold later_than_def) (metis less_irrefl)

text \<open>The fragments of a buffer are affected by recorded edits only.\<close>

lemma covered_edit: "covered S e f \<Longrightarrow> \<exists>i \<in> S. is_edit_id i = e \<and> is_insertion_id i = frag_timestamp f"
  by (auto simp: covered_def)

lemma visibility_piece:
  assumes "visibility_ok s ps" "p \<in> set ps"
  shows "e \<in> affecting (fst p) \<Longrightarrow> covered (slice_set (bs_insertion_slices s)) e (fst p)"
    and "frag_visible (fst p) = shown (edit_undone (bs_undo_map s)) (fst p)"
    and "base_timestamp \<le> frag_timestamp (fst p)"
proof -
  have good: "frag_good (edit_undone (bs_undo_map s)) (slice_set (bs_insertion_slices s)) (fst p)" using assms by (simp add: visibility_ok_def)
  then show cov: "covered (slice_set (bs_insertion_slices s)) e (fst p)" if "e \<in> affecting (fst p)" for e
    using that by (simp add: frag_good_def)
  show "frag_visible (fst p) = shown (edit_undone (bs_undo_map s)) (fst p)" using good by (simp add: frag_good_def)
  show "base_timestamp \<le> frag_timestamp (fst p)"
  proof (cases "frag_timestamp (fst p) = base_timestamp")
    case False
    then have "frag_timestamp (fst p) \<in> affecting (fst p)" by (simp add: affecting_def)
    from covered_edit [OF cov [OF this]] show ?thesis using assms(1) by (auto simp: visibility_ok_def)
  qed simp
qed

lemma later_piece:
  assumes "visibility_ok s ps" "later_than s t" "p \<in> set ps"
  shows "frag_timestamp (fst p) \<noteq> t" "t \<notin> set (frag_deletions (fst p))"
proof -
  have "t \<notin> affecting (fst p)" using covered_edit [OF visibility_piece(1) [OF assms(1,3)], of t] assms(2) by (auto simp: later_than_def)
  then show "frag_timestamp (fst p) \<noteq> t" "t \<notin> set (frag_deletions (fst p))"
    using assms(2) by (auto simp: affecting_def later_than_def)
qed

lemma shown_text_now: "visibility_ok s ps \<Longrightarrow> shown_text (edit_undone (bs_undo_map s)) ps = vis ps"
  by (rule shown_text_vis) (rule visibility_piece(2))

section \<open>Local edits\<close>

text \<open>What the loop over the edits starts from.\<close>

definition edit_context :: "BufferSnapshot \<Rightarrow> Piece list \<Rightarrow> Lamport \<Rightarrow> ustr \<Rightarrow> EditContext" where
  "edit_context s ps timestamp new_text =
     \<lparr>ec_tree = bs_fragments s, ec_timestamp = timestamp, ec_undone = edit_undone (bs_undo_map s),
      ec_slices = slice_set (bs_insertion_slices s), ec_index = index_of (map fst ps), ec_bytes = vis_bytes ps, ec_old = vis ps, ec_new = new_text\<rparr>"

lemma old_piece_context:
  assumes "snapshot_ok s ps" "later_than s t" "p \<in> set ps"
  shows "old_piece (edit_context s ps t r) p"
proof -
  have v: "visibility_ok s ps" and "tree_pieces (bs_fragments s) ps" "spans_ok (map fst ps)"
    using assms(1) by (simp_all add: snapshot_ok_def fragments_ok_def)
  then show ?thesis using later_piece [OF v assms(2,3)] assms(3)
    by (auto simp: old_piece_def edit_context_def tree_pieces_def spans_ok_def visibility_ok_def)
qed

text \<open>The two indexes after the loop.\<close>

lemma edit_index_ok:
  assumes "wf_tree insertion_ops t" "height t < 16" "keys_sorted insertion_key (flatten t)" "distinct (map (edit_key insertion_key) es)"
  shows "\<exists>t' r. tree_edit insertion_ops insertion_dim insertion_key t es = Some (t', r) \<and> wf_tree insertion_ops t' \<and>
    keys_sorted insertion_key (flatten t') \<and>
    key_map insertion_key (flatten t') = foldl (\<lambda>m e. apply_edit insertion_key e m) (key_map insertion_key (flatten t)) es"
proof -
  have "\<forall>e \<in> set es. dim_zero insertion_dim \<le> edit_key insertion_key e" by (simp add: insertion_dim_def InsertionFragmentKey_least)
  from insertion_tree.tree_edit_ok [OF assms(1-3) this refl] edit_items_map [OF assms(3) sort_edits_strict [OF assms(4)]]
    apply_edits_sort [OF assms(4)]
  show ?thesis by metis
qed

lemma extend_slices_ok:
  assumes "tm_invar S" "tm_usable S" "distinct ks"
  shows "\<exists>S'. ts_extend S ks = Some S' \<and> tm_invar S' \<and> slice_set S' = slice_set S \<union> set ks"
proof -
  have "distinct (map fst (map (\<lambda>k. (k, ())) ks))" using assms(3) by (simp add: comp_def)
  from tm_extend_ok [OF assms(1,2) this] obtain S' where
    S': "tm_extend S (map (\<lambda>k. (k, ())) ks) = Some S'" "tm_invar S'" "tm_map S' = tm_map S ++ map_of (map (\<lambda>k. (k, ())) ks)" by blast
  then show ?thesis by (simp add: ts_extend_def slice_set_def dom_map_of_conv_image_fst image_image Un_commute)
qed

text \<open>The timestamps of the new pieces are recorded too.\<close>

lemma new_slices_later:
  assumes "\<forall>i \<in> S. base_timestamp < is_edit_id i \<and> base_timestamp \<le> is_insertion_id i" "base_timestamp < t"
    and "set ks \<subseteq> InsertionSlice_from_fragment t ` set (map fst N)" "\<forall>p \<in> set N. frag_good undone (S \<union> set ks) (fst p)"
    and "i \<in> S \<union> set ks"
  shows "base_timestamp < is_edit_id i \<and> base_timestamp \<le> is_insertion_id i"
proof (cases "i \<in> S")
  case False
  then obtain f x where f: "(f, x) \<in> set N" "i = InsertionSlice_from_fragment t f" using assms(3,5) by fastforce
  have id: "is_edit_id j = t" if "j \<in> set ks" for j using that assms(3) by (auto simp: InsertionSlice_from_fragment_def)
  have "base_timestamp \<le> frag_timestamp f"
  proof (cases "frag_timestamp f = base_timestamp")
    case False
    then have "covered (S \<union> set ks) (frag_timestamp f) f" using assms(4) f(1) by (force simp: frag_good_def affecting_def)
    then obtain j where "j \<in> S \<union> set ks" "is_edit_id j = frag_timestamp f" using covered_edit by blast
    then show ?thesis using assms(1,2) id by (metis Un_iff less_imp_le)
  qed simp
  then show ?thesis using f(2) assms(2) by (simp add: InsertionSlice_from_fragment_def)
qed (use assms(1) in blast)

lemma apply_local_edit_ok:
  assumes s: "snapshot_ok (b_snapshot b) ps" "shallow (b_snapshot b)" "later_than (b_snapshot b) timestamp"
    and topic: "topic_inv seen (vis_bytes ps) (b_subscriptions b)"
    and script: "to_offsets to_offset replace_line_separators (b_snapshot b) edits = Some (script_edits 0 es)"
      "vis ps = script_old es q" "es \<noteq> []" "inserted_len es < 2 ^ 32"
  obtains b' op N slices where "apply_local_edit to_offset replace_line_separators b edits timestamp = Some (b', op)"
    "snapshot_ok (b_snapshot b') N" "vis N = script_new es q"
    "\<And>v. v timestamp \<Longrightarrow> shown_text v N = shown_text v ps"
    "filter (\<lambda>m. fst (snd m) \<noteq> timestamp) (all_bytes N) = all_bytes ps"
    "topic_inv seen (vis_bytes N) (b_subscriptions b')" "eo_timestamp op = timestamp" "eo_version op = bs_version (b_snapshot b)"
    "bs_undo_map (b_snapshot b') = bs_undo_map (b_snapshot b)" "bs_version (b_snapshot b') = bs_version (b_snapshot b)"
    "b_history b' = b_history b" "b_lamport_clock b' = b_lamport_clock b"
    "slice_set (bs_insertion_slices (b_snapshot b')) = slice_set (bs_insertion_slices (b_snapshot b)) \<union> slices"
    "\<forall>i \<in> slices. is_edit_id i = timestamp"
proof -
  let ?s = "b_snapshot b"
  let ?ctx = "edit_context ?s ps timestamp (script_new es q)"
  have ctx: "ec_tree ?ctx = bs_fragments ?s" "ec_old ?ctx = vis ps" "ec_new ?ctx = script_new es q" "ec_index ?ctx = index_of (map fst ps)"
    "ec_timestamp ?ctx = timestamp" "ec_slices ?ctx = slice_set (bs_insertion_slices ?s)" "ec_undone ?ctx = edit_undone (bs_undo_map ?s)"
    and bytes: "ec_bytes ?ctx = vis_bytes ps" by (simp_all add: edit_context_def)
  have frs: "tree_pieces (bs_fragments ?s) ps" "rope_ok (bs_visible_text ?s)" "rope_ok (bs_deleted_text ?s)"
    "rope_text (bs_visible_text ?s) = vis ps" "rope_text (bs_deleted_text ?s) = del ps" "ids_ok (frag_ids ps)" "spans_ok (map fst ps)"
    "wf_tree insertion_ops (bs_insertions ?s)" "keys_sorted insertion_key (flatten (bs_insertions ?s))"
    "key_map insertion_key (flatten (bs_insertions ?s)) = index_of (map fst ps)"
    and v: "tm_invar (bs_insertion_slices ?s)" "undo_invar (bs_undo_map ?s)"
      "\<forall>i \<in> slice_set (bs_insertion_slices ?s). base_timestamp < is_edit_id i \<and> base_timestamp \<le> is_insertion_id i"
    using s(1) by (simp_all add: snapshot_ok_def fragments_ok_def visibility_ok_def)
  have h: "height (bs_fragments ?s) \<le> 7" "height (rope_chunks (bs_visible_text ?s)) \<le> 6" "height (rope_chunks (bs_deleted_text ?s)) \<le> 6"
    "height (bs_insertions ?s) < 16" "tm_usable (bs_insertion_slices ?s)" using s(2) by (simp_all add: shallow_def)
  have old: "\<forall>p \<in> set ps. old_piece ?ctx p" using old_piece_context [OF s(1,3)] by blast
  have fresh: "\<not> ec_undone ?ctx (ec_timestamp ?ctx)" using later_not_undone [OF s(3)] by (simp add: ctx)
  show thesis
  proof (rule apply_edits_ok [OF frs(1) h(1) frs(2) h(2) frs(3) h(3) frs(4,5) ctx(1-4) old bytes frs(7,6) script(2-4) fresh])
    fix st0 st1 st new tree v' d' N
    assume r: "start_edits (bs_visible_text ?s) (bs_deleted_text ?s) (bs_fragments ?s) (r_start (fst (hd (script_edits 0 es)))) = Some st0"
      "edit_steps (ec_timestamp ?ctx) st0 (script_edits 0 es) = Some st1" "finish_edits st1 = Some (st, tree, v', d')"
      and N: "tree_pieces tree N" "rope_ok v'" "rope_text v' = vis N" "rope_ok d'" "rope_text d' = del N"
      and out: "out_ok ?ctx (st\<lparr>es_new := new\<rparr>) N [] []" and patch: "is_patch (es_patch st) (vis_bytes ps) (vis_bytes N)"
      and locs: "ids_ok (frag_ids N)" and edited: "vis N = script_new es q" and undo: "recovers (ec_timestamp ?ctx) N ps [] []"
    have up: "distinct (map (edit_key insertion_key) (es_insertions st))" "distinct (es_slices st)" "spans_ok (map fst N)"
      "foldl (\<lambda>m e. apply_edit insertion_key e m) (index_of (map fst ps)) (es_insertions st) = index_of (map fst N)"
      "set (es_slices st) \<subseteq> InsertionSlice_from_fragment timestamp ` set (map fst N)"
      "\<forall>p \<in> set N. frag_good (edit_undone (bs_undo_map ?s)) (slice_set (bs_insertion_slices ?s) \<union> set (es_slices st)) (fst p)"
      using out by (simp_all add: out_ok_def ctx rest_of_def)
    obtain ins rem where ins: "tree_edit insertion_ops insertion_dim insertion_key (bs_insertions ?s) (es_insertions st) = Some (ins, rem)"
      "wf_tree insertion_ops ins" "keys_sorted insertion_key (flatten ins)" "key_map insertion_key (flatten ins) = index_of (map fst N)"
      using edit_index_ok [OF frs(8) h(4) frs(9) up(1)] frs(10) up(4) by metis
    obtain sl where sl: "ts_extend (bs_insertion_slices ?s) (es_slices st) = Some sl" "tm_invar sl"
      "slice_set sl = slice_set (bs_insertion_slices ?s) \<union> set (es_slices st)"
      using extend_slices_ok [OF v(1) h(5) up(2)] by blast
    obtain subs where subs: "publish (b_subscriptions b) (es_patch st) = Some subs" "topic_inv seen (vis_bytes N) subs"
      using topic_inv_publish [OF topic patch] by blast
    let ?s' = "?s\<lparr>bs_fragments := tree, bs_insertions := ins, bs_visible_text := v', bs_deleted_text := d', bs_insertion_slices := sl\<rparr>"
    let ?b = "b\<lparr>b_snapshot := ?s', b_subscriptions := subs\<rparr>"
    let ?op = "\<lparr>eo_timestamp = timestamp, eo_version = bs_version ?s, eo_ranges = es_ranges st, eo_new_text = es_texts st\<rparr>"
    obtain e es' where "script_edits 0 es = e # es'" using script(3) by (cases es) auto
    then have "apply_local_edit to_offset replace_line_separators b edits timestamp = Some (?b, ?op)"
      using script(1) r ins(1) subs(1) sl(1) by (simp add: apply_local_edit_def ctx Let_def list_first_def)
    moreover have "base_timestamp < timestamp" using s(3) by (simp add: later_than_def)
    from new_slices_later [OF v(3) this up(5,6)] have "visibility_ok ?s' N"
      using up(6) sl v(2) by (simp add: visibility_ok_def)
    then have "snapshot_ok ?s' N" using N locs up(3) ins by (simp add: snapshot_ok_def fragments_ok_def)
    moreover have "\<forall>i \<in> set (es_slices st). is_edit_id i = timestamp" using up(5) by (auto simp: InsertionSlice_from_fragment_def)
    ultimately show thesis using that [of ?b ?op N "set (es_slices st)"] edited undo subs(2) sl(3) by (simp add: ctx recovers_def)
  qed
qed

section \<open>Replacing ranges of a string\<close>

text \<open>The text from a position on, with the ranges of the edits replaced; none when the ranges are not
  in order or end inside of a character.\<close>

fun splice :: "ustr \<Rightarrow> nat \<Rightarrow> (Range \<times> ustr) list \<Rightarrow> ustr option" where
  "splice t i [] = map_option snd (str_split_at t i)"
| "splice t i ((r, new_text) # edits) = do {
     kept \<leftarrow> str_slice t i (r_start r);
     _ \<leftarrow> str_slice t (r_start r) (r_end r);
     rest \<leftarrow> splice t (r_end r) edits;
     Some (kept @ new_text @ rest) }"

text \<open>The bytes that are inserted.\<close>

definition new_bytes :: "(Range \<times> ustr) list \<Rightarrow> nat" where
  "new_bytes edits = sum_list (map (\<lambda>e. text_len (snd e)) edits)"

lemma text_split_unique:
  assumes "a @ b = c @ d" "text_len a = text_len c" shows "a = c \<and> b = d"
  using str_split_at_append [of a b] str_split_at_append [of c d] unfolding assms by simp

lemma splice_Cons:
  assumes "splice t i ((r, n) # edits) = Some t'"
  shows "\<exists>kept cut rest. str_slice t i (r_start r) = Some kept \<and> str_slice t (r_start r) (r_end r) = Some cut \<and>
    splice t (r_end r) edits = Some rest \<and> t' = kept @ n @ rest"
proof (cases "str_slice t i (r_start r)")
  case (Some kept)
  show ?thesis
  proof (cases "str_slice t (r_start r) (r_end r)")
    case (Some cut)
    with \<open>str_slice t i (r_start r) = Some kept\<close> show ?thesis using assms by (cases "splice t (r_end r) edits") simp_all
  qed (use Some assms in simp)
qed (use assms in simp)

lemma splice_script:
  assumes "splice (a @ b) (text_len a) edits = Some t"
  shows "\<exists>es q. edits = script_edits (text_len a) es \<and> b = script_old es q \<and> t = script_new es q \<and> inserted_len es = new_bytes edits"
  using assms
proof (induction edits arbitrary: a b t)
  case Nil
  then have "[] = script_edits (text_len a) [] \<and> b = script_old [] b \<and> t = script_new [] b \<and> inserted_len [] = new_bytes []"
    by (simp add: new_bytes_def)
  then show ?case by blast
next
  case (Cons e edits)
  obtain r n where e: "e = (r, n)" by (cases e)
  obtain kept cut rest where c: "str_slice (a @ b) (text_len a) (r_start r) = Some kept"
    "str_slice (a @ b) (r_start r) (r_end r) = Some cut" "splice (a @ b) (r_end r) edits = Some rest" "t = kept @ n @ rest"
    using Cons.prems splice_Cons unfolding e by blast
  obtain a1 b1 where k: "a @ b = a1 @ kept @ b1" "text_len a1 = text_len a" "text_len a + text_len kept = r_start r"
    using c(1) unfolding str_slice_eq by blast
  from text_split_unique [OF k(1) k(2) [symmetric]] have a1: "a1 = a" "b = kept @ b1" by blast+
  obtain a2 b2 where d: "a @ b = a2 @ cut @ b2" "text_len a2 = r_start r" "r_start r + text_len cut = r_end r"
    using c(2) unfolding str_slice_eq by blast
  have "(a @ kept) @ b1 = a2 @ (cut @ b2)" using d(1) unfolding a1(2) append_assoc .
  moreover have "text_len (a @ kept) = text_len a2" using d(2) k(3) by simp
  ultimately have b1: "b1 = cut @ b2" using text_split_unique by blast
  have pos: "r_end r = text_len (a @ kept @ cut)" using d(3) k(3) by simp
  have "a @ b = (a @ kept @ cut) @ b2" unfolding a1(2) b1 append_assoc ..
  then have "splice ((a @ kept @ cut) @ b2) (text_len (a @ kept @ cut)) edits = Some rest" using c(3) pos by metis
  from Cons.IH [OF this] obtain es q where ih: "edits = script_edits (text_len (a @ kept @ cut)) es" "b2 = script_old es q"
    "rest = script_new es q" "inserted_len es = new_bytes edits" by blast
  have "r = \<lparr>r_start = text_len a + text_len kept, r_end = text_len a + text_len kept + text_len cut\<rparr>"
    using k(3) d(3) by (cases r) simp
  then have "e # edits = script_edits (text_len a) ((kept, cut, n) # es)" using ih(1) e by (simp add: add.assoc)
  moreover have "b = script_old ((kept, cut, n) # es) q" "t = script_new ((kept, cut, n) # es) q"
    "inserted_len ((kept, cut, n) # es) = new_bytes (e # edits)" using ih a1(2) b1 c(4) e by (simp_all add: new_bytes_def)
  ultimately show ?case by blast
qed

lemma splice_whole:
  assumes "splice t 0 edits = Some t'"
  obtains es q where "edits = script_edits 0 es" "t = script_old es q" "t' = script_new es q" "inserted_len es = new_bytes edits"
  using splice_script [of "[]" t edits t'] assms by auto

end
