(* ===== verification/Text_Buffer_Ids.thy ===== *)
theory Text_Buffer_Ids
  imports Text_Buffer_Edit
begin

text \<open>
  \<open>fragment_ids_for_edits\<close>: the identifiers of the fragments that a set of edits has inserted or
  deleted.  The slices of the edits are sorted, and one pass of a cursor over the index collects
  every fragment that starts inside of a slice, each of them once.
\<close>

section \<open>The slices of an edit\<close>

lemma takeWhile_class:
  fixes f :: "'a::linorder \<Rightarrow> 'c::linorder"
  assumes "sorted_wrt (<) xs" "\<And>x. k \<le> x \<longleftrightarrow> e \<le> f x" "\<And>x y. x < y \<Longrightarrow> f x \<le> f y"
  shows "takeWhile (\<lambda>x. f x = e) (filter (\<lambda>x. k \<le> x) xs) = filter (\<lambda>x. f x = e) xs"
  using assms(1)
proof (induction xs)
  case (Cons x xs)
  consider "f x < e" | "f x = e" | "e < f x" by (rule linorder_cases)
  then show ?case
  proof cases
    case 3
    have "f y \<noteq> e" if "y \<in> set xs" for y using assms(3) [of x y] Cons.prems that 3 by force
    then show ?thesis using 3 assms(2) [of x] by (auto simp: filter_empty_conv)
  qed (use Cons assms(2) [of x] in auto)
qed simp

lemma slice_order:
  "InsertionSlice e Lamport_MIN 0 0 \<le> i \<longleftrightarrow> e \<le> is_edit_id i" "i < j \<Longrightarrow> is_edit_id i \<le> is_edit_id j"
  using Lamport_MIN_least [of "is_insertion_id i"]
  by (auto simp: less_eq_InsertionSlice_def less_InsertionSlice_def InsertionSlice_cmp_def cmp_def word_gt_0 split: if_splits)

lemma slices_of_edit_ok:
  assumes "tm_invar S" "tm_usable S"
  shows "\<exists>sl. slices_of_edit S e = Some sl \<and> set sl = {i \<in> slice_set S. is_edit_id i = e}"
proof -
  let ?k = "InsertionSlice e Lamport_MIN 0 0" and ?ks = "map me_key (flatten S)"
  obtain c where c: "tm_iter_from S ?k = Some c"
    "cursor_take map_dim (\<lambda>_. True) (Suc (length (flatten S))) c = Some (filter (\<lambda>e. ?k \<le> me_key e) (flatten S))"
    using tm_iter_from_ok [OF assms, of "Suc (length (flatten S))" ?k] by auto
  have "sorted_wrt (<) ?ks" using assms(1) by (simp add: tm_invar_def keys_sorted_def entry_key_def sorted_wrt_map)
  from takeWhile_class [where f = is_edit_id, OF this slice_order]
  have "slices_of_edit S e = Some (filter (\<lambda>i. is_edit_id i = e) ?ks)"
    unfolding slices_of_edit_def c Option.bind.bind_lunit by (simp add: filter_map comp_def)
  moreover have "set ?ks = slice_set S"
    by (auto simp: slice_set_def dom_def tm_map_Some [OF assms(1)] image_iff) 
  ultimately show ?thesis by auto
qed

section \<open>One slice\<close>

definition start_key :: "InsertionSlice \<Rightarrow> InsertionFragmentKey" where
  "start_key i = InsertionFragmentKey (is_insertion_id i) (is_start i)"

definition in_slice :: "InsertionSlice \<Rightarrow> InsertionFragment \<Rightarrow> bool" where
  "in_slice i x \<longleftrightarrow> start_key i \<le> insertion_key x \<and> if_timestamp x = is_insertion_id i \<and> if_split_offset x < is_end i"

lemma slice_items_ok:
  assumes "wf_tree insertion_ops (c_tree c)" "height (c_tree c) < 16" "cursor_at insertion_ops insertion_dim c before after" "length after < n"
    "P = (\<lambda>x. if_timestamp x = is_insertion_id i \<and> if_split_offset x < is_end i)"
  shows "\<exists>c'. slice_items n i c locs = Some (c', locs @ map if_fragment_id (takeWhile P after)) \<and> c_tree c' = c_tree c \<and>
    cursor_at insertion_ops insertion_dim c' (before @ takeWhile P after) (dropWhile P after)"
  using assms
proof (induction after arbitrary: c before n locs)
  case Nil
  then show ?case using insertion_tree.cursor_item_ok(1) [OF Nil(1,3)] by (cases n) (simp_all add: list_first_def)
next
  case (Cons x after)
  obtain m where n: "n = Suc m" "length after < m" using Cons.prems(4) by (cases n) auto
  have item: "cursor_item c = Some (Some x)" using insertion_tree.cursor_item_ok(1) [OF Cons.prems(1,3)] by (simp add: list_first_def)
  show ?case
  proof (cases "P x")
    case True
    obtain c' where c': "cursor_next insertion_dim c = Some c'" "c_tree c' = c_tree c" "cursor_at insertion_ops insertion_dim c' (before @ [x]) after"
      using insertion_tree.search_forward_ok [OF Cons.prems(1,2) filter_mono_True Cons.prems(3)]
      by (auto simp: cursor_next_def rejected_True takeWhile_False)
    have "wf_tree insertion_ops (c_tree c')" "height (c_tree c') < 16" using Cons.prems c'(2) by simp_all
    from Cons.IH [OF this c'(3) n(2) Cons.prems(5)] obtain c2 where
      c2: "slice_items m i c' (locs @ [if_fragment_id x]) = Some (c2, (locs @ [if_fragment_id x]) @ map if_fragment_id (takeWhile P after))"
      "c_tree c2 = c_tree c'" "cursor_at insertion_ops insertion_dim c2 ((before @ [x]) @ takeWhile P after) (dropWhile P after)" by blast
    have "slice_items n i c locs = slice_items m i c' (locs @ [if_fragment_id x])" using item c'(1) True Cons.prems(5) by (simp add: n(1) linorder_not_le [symmetric])
    then show ?thesis using c2 c'(2) True by simp
  qed (use item Cons.prems(3,5) in \<open>auto simp: n(1) not_le\<close>)
qed

lemma key_less_eq: "InsertionFragmentKey t u \<le> k \<longleftrightarrow> t < ik_timestamp k \<or> t = ik_timestamp k \<and> u \<le> ik_split_offset k"
  by (simp add: less_eq_InsertionFragmentKey_def)

lemma insertion_key_sel [simp]: "ik_timestamp (insertion_key x) = if_timestamp x" "ik_split_offset (insertion_key x) = if_split_offset x"
  by (simp_all add: insertion_key_def)

text \<open>Where the cursor stands when the items of a slice are read.\<close>

lemma slice_start_ok:
  assumes c: "wf_tree insertion_ops (c_tree c)" "height (c_tree c) < 16" "keys_sorted insertion_key (flatten (c_tree c))"
      "cursor_ready insertion_ops insertion_dim c before after"
    and before: "\<forall>x \<in> set before. if_timestamp x \<le> ik_timestamp k \<and> (k \<le> insertion_key x \<longrightarrow> x \<in> set xs)"
    and i: "k \<le> start_key i" "is_insertion_id i \<noteq> Lamport_MIN"
  obtains c' zs after' where
    "(if is_insertion_id i \<noteq> ik_timestamp (c_position c) \<or> ik_split_offset (c_position c) < is_start i
      then map_option fst (cursor_seek_forward insertion_dim c (cmp (start_key i)) Bias.Left) else Some c) = Some c'"
    "c_tree c' = c_tree c" "cursor_at insertion_ops insertion_dim c' (before @ zs) after'"
    "\<forall>x \<in> set (before @ zs). if_timestamp x \<le> is_insertion_id i \<and> (start_key i \<le> insertion_key x \<longrightarrow> x \<in> set xs)"
    "\<forall>x \<in> set after'. start_key i \<le> insertion_key x"
proof -
  have flat: "flatten (c_tree c) = before @ after" using c(4) by (auto simp: cursor_ready_def cursor_at_def)
  have sorted: "keys_sorted insertion_key before" "keys_sorted insertion_key after" "\<forall>x \<in> set before. \<forall>y \<in> set after. insertion_key x < insertion_key y"
    using c(3) unfolding flat by simp_all
  have pos: "c_position c = (if before = [] then InsertionFragmentKey Lamport_MIN 0 else insertion_key (last before))"
    using insertion_tree.adv_key [OF insertion_tree.sorted_from_zero [OF sorted(1)]] cursor_ready_position [OF c(4)]
    by (simp add: insertion_dim_def)
  have ts: "ik_timestamp k \<le> is_insertion_id i" using i(1) by (auto simp: start_key_def less_eq_InsertionFragmentKey_def)
  have old: "\<forall>x \<in> set before. if_timestamp x \<le> is_insertion_id i \<and> (start_key i \<le> insertion_key x \<longrightarrow> x \<in> set xs)"
    using before order_trans [OF _ ts] order_trans [OF i(1)] by simp
  show thesis
  proof (cases "is_insertion_id i \<noteq> ik_timestamp (c_position c) \<or> ik_split_offset (c_position c) < is_start i")
    case True
    have "c_position c \<le> start_key i"
    proof (cases "before = []")
      case False
      then have "if_timestamp (last before) \<le> is_insertion_id i" using old last_in_set by blast
      then show ?thesis using True pos False by (auto simp: start_key_def less_eq_InsertionFragmentKey_def)
    qed (simp add: pos InsertionFragmentKey_least)
    then have target: "cmp (start_key i) (c_position c) \<noteq> Less" by simp
    note after = insertion_tree.ready_sorted [OF c(3,4)]
    from insertion_tree.cursor_seek_forward_ok [OF c(1,2,4) target insertion_tree.monot_key [OF after] insertion_tree.scan_key [OF after]]
    obtain c' hit where c': "cursor_seek_forward insertion_dim c (cmp (start_key i)) Bias.Left = Some (c', hit)" "c_tree c' = c_tree c"
      "cursor_at insertion_ops insertion_dim c' (before @ below insertion_key (start_key i) after) (from_key insertion_key (start_key i) after)" by blast
    have "if_timestamp x \<le> is_insertion_id i \<and> \<not> start_key i \<le> insertion_key x" if "x \<in> set (below insertion_key (start_key i) after)" for x
      using below_less [OF that] by (auto simp: start_key_def less_InsertionFragmentKey_def key_less_eq)
    then have "\<forall>x \<in> set (before @ below insertion_key (start_key i) after). if_timestamp x \<le> is_insertion_id i \<and> (start_key i \<le> insertion_key x \<longrightarrow> x \<in> set xs)"
      using old by auto
    moreover have "\<forall>x \<in> set (from_key insertion_key (start_key i) after). start_key i \<le> insertion_key x" using from_key_ge [OF sorted(2)] by blast
    ultimately show thesis using that [of c'] True c' by simp
  next
    case False
    then have "before \<noteq> []" using pos i(2) by auto
    then have "cursor_at insertion_ops insertion_dim c before after" using c(4) by (simp add: cursor_ready_def)
    moreover have "start_key i \<le> insertion_key (last before)" using False pos \<open>before \<noteq> []\<close> by (simp add: start_key_def key_less_eq linorder_not_less)
    then have "\<forall>y \<in> set after. start_key i \<le> insertion_key y"
      using sorted(3) last_in_set [OF \<open>before \<noteq> []\<close>] by (meson less_imp_le order_trans)
    ultimately show thesis using that [of c "[]" after] False old by simp
  qed
qed

lemma slice_between:
  assumes "start_key i \<le> k" "k \<le> insertion_key x" "in_slice i x"
  shows "ik_timestamp k = is_insertion_id i" "ik_split_offset k < is_end i"
proof -
  have x: "if_timestamp x = is_insertion_id i" "if_split_offset x < is_end i" using assms(3) by (simp_all add: in_slice_def)
  have "is_insertion_id i \<le> ik_timestamp k"
    using assms(1) unfolding start_key_def key_less_eq by (elim disjE conjE) (rule less_imp_le, assumption, rule eq_refl)
  moreover have up: "ik_timestamp k < is_insertion_id i \<or> ik_timestamp k = is_insertion_id i \<and> ik_split_offset k \<le> if_split_offset x"
    using assms(2) x(1) by (simp add: less_eq_InsertionFragmentKey_def)
  ultimately show ts: "ik_timestamp k = is_insertion_id i" by (elim disjE conjE) (simp_all add: leD)
  then have "ik_split_offset k \<le> if_split_offset x" using up by simp
  then show "ik_split_offset k < is_end i" using x(2) by (rule le_less_trans)
qed

lemma in_dropWhile: "x \<in> set xs \<Longrightarrow> x \<notin> set (takeWhile P xs) \<Longrightarrow> x \<in> set (dropWhile P xs)"
  by (induction xs) (auto split: if_splits)

lemma slice_step_ok:
  assumes c: "wf_tree insertion_ops (c_tree c)" "height (c_tree c) < 16" "keys_sorted insertion_key (flatten (c_tree c))"
      "cursor_ready insertion_ops insertion_dim c before after"
    and before: "\<forall>x \<in> set before. if_timestamp x \<le> ik_timestamp k \<and> (k \<le> insertion_key x \<longrightarrow> x \<in> set xs)"
    and i: "k \<le> start_key i" "is_insertion_id i \<noteq> Lamport_MIN" and xs: "distinct xs" "set xs \<subseteq> set before"
  obtains c2 before2 after2 ys where
    "slices_loop (i # is) c (map if_fragment_id xs) = slices_loop is c2 (map if_fragment_id ys)"
    "c_tree c2 = c_tree c" "cursor_at insertion_ops insertion_dim c2 before2 after2" "distinct ys" "set ys \<subseteq> set before2" "set xs \<subseteq> set ys"
    "\<forall>x \<in> set before2. if_timestamp x \<le> is_insertion_id i \<and> (start_key i \<le> insertion_key x \<longrightarrow> x \<in> set ys)"
    "\<forall>x \<in> set (flatten (c_tree c)). in_slice i x \<longrightarrow> x \<in> set ys"
proof (rule slice_start_ok [OF c before i])
  fix c1 zs after1
  assume s: "(if is_insertion_id i \<noteq> ik_timestamp (c_position c) \<or> ik_split_offset (c_position c) < is_start i
      then map_option fst (cursor_seek_forward insertion_dim c (cmp (start_key i)) Bias.Left) else Some c) = Some c1"
    "c_tree c1 = c_tree c" "cursor_at insertion_ops insertion_dim c1 (before @ zs) after1"
    "\<forall>x \<in> set (before @ zs). if_timestamp x \<le> is_insertion_id i \<and> (start_key i \<le> insertion_key x \<longrightarrow> x \<in> set xs)"
    "\<forall>x \<in> set after1. start_key i \<le> insertion_key x"
  define P where "P = (\<lambda>x :: InsertionFragment. if_timestamp x = is_insertion_id i \<and> if_split_offset x < is_end i)"
  have flat: "flatten (c_tree c) = (before @ zs) @ after1" using s(2,3) by (simp add: cursor_at_def)
  have sorted: "keys_sorted insertion_key after1" "\<forall>x \<in> set (before @ zs). \<forall>y \<in> set after1. insertion_key x < insertion_key y"
    using c(3) unfolding flat keys_sorted_simps by blast+
  have w: "wf_tree insertion_ops (c_tree c1)" "height (c_tree c1) < 16" "length after1 < Suc (length (flatten (c_tree c1)))"
    using c(1,2) s(2) flat by simp_all
  obtain c2 where c2: "slice_items (Suc (length (flatten (c_tree c1)))) i c1 (map if_fragment_id xs) = Some (c2, map if_fragment_id xs @ map if_fragment_id (takeWhile P after1))"
    "c_tree c2 = c_tree c1" "cursor_at insertion_ops insertion_dim c2 ((before @ zs) @ takeWhile P after1) (dropWhile P after1)"
    using slice_items_ok [OF w(1,2) s(3) w(3) P_def] by blast
  let ?ys = "xs @ takeWhile P after1" and ?before = "(before @ zs) @ takeWhile P after1"
  have run: "slices_loop (i # is) c (map if_fragment_id xs) = slices_loop is c2 (map if_fragment_id ?ys)"
    unfolding slices_loop.simps start_key_def [symmetric] s(1) Option.bind.bind_lunit c2(1) prod.case map_append ..
  have "distinct after1" using sorted(1) by (auto simp: keys_sorted_def strict_sorted_iff distinct_map)
  moreover have "x \<notin> set (takeWhile P after1)" if "x \<in> set xs" for x
    using sorted(2) that xs(2) set_takeWhileD [of x P after1] by force
  ultimately have dist: "distinct ?ys" using xs(1) distinct_takeWhile by auto
  have sets: "set ?ys \<subseteq> set ?before" "set xs \<subseteq> set ?ys" using xs(2) by auto
  have read: "if_timestamp x \<le> is_insertion_id i \<and> (start_key i \<le> insertion_key x \<longrightarrow> x \<in> set ?ys)" if "x \<in> set ?before" for x
  proof (cases "x \<in> set (before @ zs)")
    case False
    then have "x \<in> set (takeWhile P after1)" using that by simp
    then show ?thesis using set_takeWhileD [of x P after1] by (simp add: P_def)
  qed (use s(4) in simp)
  have "x \<in> set ?ys" if x: "x \<in> set (flatten (c_tree c))" "in_slice i x" for x
  proof (rule ccontr)
    assume out: "x \<notin> set ?ys"
    have "x \<notin> set (before @ zs)" using s(4) x(2) out unfolding in_slice_def by auto
    then have "x \<in> set after1" using x(1) unfolding flat by simp
    moreover have "x \<notin> set (takeWhile P after1)" using out by simp
    ultimately have "x \<in> set (dropWhile P after1)" by (rule in_dropWhile)
    then obtain y ws where y: "dropWhile P after1 = y # ws" by (cases "dropWhile P after1") auto
    have "keys_sorted insertion_key (y # ws)" using keys_sorted_dropWhile [OF sorted(1), of P] y by simp
    moreover have "x \<in> set (y # ws)" using \<open>x \<in> set (dropWhile P after1)\<close> unfolding y .
    ultimately have le: "insertion_key y \<le> insertion_key x" by auto
    have ge: "start_key i \<le> insertion_key y" using s(5) set_dropWhileD [of y P after1] unfolding y by simp
    have "P y" using slice_between [OF ge le x(2)] by (simp add: P_def)
    moreover have "\<not> P y" using hd_dropWhile [of P after1] unfolding y by simp
    ultimately show False by blast
  qed
  then have all: "\<forall>x \<in> set (flatten (c_tree c)). in_slice i x \<longrightarrow> x \<in> set ys" if "ys = ?ys" for ys using that by simp
  show thesis
  proof (rule that [OF run c2(2) [unfolded s(2)] c2(3) dist sets])
    show "\<forall>x \<in> set ?before. if_timestamp x \<le> is_insertion_id i \<and> (start_key i \<le> insertion_key x \<longrightarrow> x \<in> set ?ys)"
      by (intro ballI) (rule read)
    show "\<forall>x \<in> set (flatten (c_tree c)). in_slice i x \<longrightarrow> x \<in> set ?ys" by (rule all) (rule refl)
  qed
qed

section \<open>All slices\<close>

lemma slices_loop_ok:
  assumes c: "wf_tree insertion_ops (c_tree c)" "height (c_tree c) < 16" "keys_sorted insertion_key (flatten (c_tree c))"
      "cursor_ready insertion_ops insertion_dim c before after"
    and before: "\<forall>x \<in> set before. if_timestamp x \<le> ik_timestamp k \<and> (k \<le> insertion_key x \<longrightarrow> x \<in> set xs)"
    and sorted: "sorted (map slice_key is)" "\<forall>i \<in> set is. k \<le> start_key i \<and> is_insertion_id i \<noteq> Lamport_MIN"
    and xs: "distinct xs" "set xs \<subseteq> set before"
  shows "\<exists>ys. slices_loop is c (map if_fragment_id xs) = Some (map if_fragment_id ys) \<and> distinct ys \<and> set xs \<subseteq> set ys \<and>
    set ys \<subseteq> set (flatten (c_tree c)) \<and> (\<forall>i \<in> set is. \<forall>x \<in> set (flatten (c_tree c)). in_slice i x \<longrightarrow> x \<in> set ys)"
  using assms
proof (induction "is" arbitrary: c before after k xs)
  case Nil
  have "flatten (c_tree c) = before @ after" using Nil(4) by (auto simp: cursor_ready_def cursor_at_def)
  then show ?case using Nil by (intro exI [of _ xs]) auto
next
  case (Cons i "is")
  have i: "k \<le> start_key i" "is_insertion_id i \<noteq> Lamport_MIN" using Cons.prems(7) by simp_all
  show ?case
  proof (rule slice_step_ok [OF Cons.prems(1-5) i Cons.prems(8,9), of "is"])
    fix c2 before2 after2 ys
    assume s: "slices_loop (i # is) c (map if_fragment_id xs) = slices_loop is c2 (map if_fragment_id ys)"
      "c_tree c2 = c_tree c" "cursor_at insertion_ops insertion_dim c2 before2 after2" "distinct ys" "set ys \<subseteq> set before2" "set xs \<subseteq> set ys"
      "\<forall>x \<in> set before2. if_timestamp x \<le> is_insertion_id i \<and> (start_key i \<le> insertion_key x \<longrightarrow> x \<in> set ys)"
      "\<forall>x \<in> set (flatten (c_tree c)). in_slice i x \<longrightarrow> x \<in> set ys"
    have "start_key i \<le> start_key j" if "j \<in> set is" for j
      using Cons.prems(6) that by (auto simp: slice_key_def start_key_def less_eq_InsertionFragmentKey_def less_eq_prod_def)
    then have later: "\<forall>j \<in> set is. start_key i \<le> start_key j \<and> is_insertion_id j \<noteq> Lamport_MIN" using Cons.prems(7) by simp
    have "\<forall>x \<in> set before2. if_timestamp x \<le> ik_timestamp (start_key i) \<and> (start_key i \<le> insertion_key x \<longrightarrow> x \<in> set ys)"
      using s(7) by (simp add: start_key_def)
    from Cons.IH [OF _ _ _ cursor_ready_at [OF s(3)] this _ later s(4,5)] Cons.prems(1-3,6) s(2)
    obtain zs where "slices_loop is c2 (map if_fragment_id ys) = Some (map if_fragment_id zs)" "distinct zs" "set ys \<subseteq> set zs"
      "set zs \<subseteq> set (flatten (c_tree c))" "\<forall>i \<in> set is. \<forall>x \<in> set (flatten (c_tree c)). in_slice i x \<longrightarrow> x \<in> set zs" by auto
    then show ?case using s(1,6,8) by (intro exI [of _ zs]) auto
  qed
qed

section \<open>The fragments of edits\<close>

lemma index_of_SomeD: "index_of fs k = Some x \<Longrightarrow> \<exists>f \<in> set fs. x = InsertionFragment_new f"
  by (auto simp: index_of_def key_map_def dest!: map_of_SomeD)

lemma index_of_self:
  assumes "sorted_wrt apart fs" "\<forall>f \<in> set fs. 0 < frag_len f" "f \<in> set fs"
  shows "index_of fs (key_of f) = Some (InsertionFragment_new f)"
  using assms
proof (induction fs)
  case (Cons g fs)
  then show ?case using key_of_apart [of g f] by auto
qed simp

lemma piece_positive: "piece_ok p \<Longrightarrow> 0 < frag_len (fst p)"
  by (auto simp: piece_ok_def word_gt_0)

lemma insertion_items:
  assumes "fragments_ok s ps"
  shows "set (flatten (bs_insertions s)) = (\<lambda>p. InsertionFragment_new (fst p)) ` set ps"
proof -
  let ?xs = "flatten (bs_insertions s)"
  have sorted: "keys_sorted insertion_key ?xs" and map: "key_map insertion_key ?xs = index_of (map fst ps)"
    and ok: "\<forall>f \<in> set (map fst ps). 0 < frag_len f" "sorted_wrt apart (map fst ps)"
    using assms piece_positive by (auto simp: fragments_ok_def tree_pieces_def spans_ok_def)
  have "x \<in> (\<lambda>p. InsertionFragment_new (fst p)) ` set ps" if "x \<in> set ?xs" for x
    using index_of_SomeD [of "map fst ps"] key_map_self [OF sorted that] unfolding map by force
  moreover have "InsertionFragment_new (fst p) \<in> set ?xs" if "p \<in> set ps" for p
  proof -
    have "key_map insertion_key ?xs (key_of (fst p)) = Some (InsertionFragment_new (fst p))"
      using index_of_self [OF ok(2,1), of "fst p"] that unfolding map by simp
    then show ?thesis by (auto simp: key_map_def dest!: map_of_SomeD)
  qed
  ultimately show ?thesis by blast
qed

lemma slices_of_edits_ok:
  assumes "tm_invar S" "tm_usable S"
  shows "\<exists>sls. those (map (slices_of_edit S) es) = Some sls \<and> set (concat sls) = {i \<in> slice_set S. is_edit_id i \<in> set es}"
proof (induction es)
  case (Cons e es)
  then obtain sls where "those (map (slices_of_edit S) es) = Some sls" "set (concat sls) = {i \<in> slice_set S. is_edit_id i \<in> set es}" by blast
  moreover obtain sl where "slices_of_edit S e = Some sl" "set sl = {i \<in> slice_set S. is_edit_id i = e}" using slices_of_edit_ok [OF assms] by blast
  ultimately show ?case by auto
qed simp

lemma covered_in_slice:
  assumes "covered S e f" "0 < frag_len f"
  shows "\<exists>i \<in> S. is_edit_id i = e \<and> in_slice i (InsertionFragment_new f)"
proof -
  obtain i where i: "i \<in> S" "is_edit_id i = e" "is_insertion_id i = frag_timestamp f" "unat (is_start i) \<le> f_off f" "f_end f \<le> unat (is_end i)"
    using assms(1) by (auto simp: covered_def)
  have "f_off f < f_end f" using assms(2) by (simp add: f_end_def unat_gt_0 word_gt_0)
  then have "in_slice i (InsertionFragment_new f)" using i(3-5)
    by (simp add: in_slice_def start_key_def key_less_eq InsertionFragment_new_def f_off_def word_le_nat_alt word_less_nat_alt)
  then show ?thesis using i(1,2) by blast
qed

lemma base_not_min: "\<not> base_timestamp \<le> Lamport_MIN"
  by (simp add: not_le less_Lamport_iff base_timestamp_def Lamport_new_def Lamport_MIN_def)

lemma fragment_ids_ok:
  assumes s: "fragments_ok s ps" "visibility_ok s ps" "height (bs_insertions s) < 16" "tm_usable (bs_insertion_slices s)"
  obtains locs where "fragment_ids_for_edits s es = Some locs" "sorted_wrt (<) locs" "set locs \<subseteq> set (frag_ids ps)"
    "\<And>p e. p \<in> set ps \<Longrightarrow> e \<in> set es \<Longrightarrow> e \<in> affecting (fst p) \<Longrightarrow> frag_id (fst p) \<in> set locs"
proof -
  let ?S = "slice_set (bs_insertion_slices s)" and ?t = "bs_insertions s"
  have t: "wf_tree insertion_ops ?t" "keys_sorted insertion_key (flatten ?t)" and pieces: "\<forall>p \<in> set ps. piece_ok p"
    and ids: "ids_ok (frag_ids ps)" using s(1) by (simp_all add: fragments_ok_def tree_pieces_def)
  have S: "tm_invar (bs_insertion_slices s)" "\<forall>i \<in> ?S. is_insertion_id i \<noteq> Lamport_MIN"
    using s(2) base_not_min by (fastforce simp: visibility_ok_def)+
  obtain sls where sls: "those (map (slices_of_edit (bs_insertion_slices s)) es) = Some sls" "set (concat sls) = {i \<in> ?S. is_edit_id i \<in> set es}"
    using slices_of_edits_ok [OF S(1) s(4)] by blast
  let ?is = "sort_key slice_key (concat sls)" and ?c = "cursor_new insertion_dim ?t"
  have ready: "cursor_ready insertion_ops insertion_dim ?c [] (flatten ?t)"
    using cursor_ready_fresh [OF cursor_fresh_new(1) [of insertion_dim ?t]] by (simp add: cursor_fresh_new)
  have first: "\<forall>i \<in> set ?is. InsertionFragmentKey Lamport_MIN 0 \<le> start_key i \<and> is_insertion_id i \<noteq> Lamport_MIN"
    using S(2) sls(2) by (simp add: InsertionFragmentKey_least)
  obtain ys where ys: "slices_loop ?is ?c [] = Some (map if_fragment_id ys)" "distinct ys" "set ys \<subseteq> set (flatten ?t)"
    "\<forall>i \<in> set ?is. \<forall>x \<in> set (flatten ?t). in_slice i x \<longrightarrow> x \<in> set ys"
    using slices_loop_ok [OF _ _ _ ready _ sorted_sort_key first, where xs = "[]"] t s(3) by (auto simp: cursor_fresh_new)
  let ?locs = "sort (map if_fragment_id ys)"
  have run: "fragment_ids_for_edits s es = Some ?locs" using sls(1) ys(1) by (simp add: fragment_ids_for_edits_def)
  have "distinct (frag_ids ps)" using ids by (auto simp: ids_ok_def sorted_wrt_append strict_sorted_iff)
  then have "inj_on if_fragment_id (set (flatten ?t))"
    unfolding insertion_items [OF s(1)] by (auto simp: inj_on_def frag_ids_def distinct_map InsertionFragment_new_def)
  then have "distinct (map if_fragment_id ys)" using ys(2,3) by (simp add: distinct_map inj_on_subset)
  then have strict: "sorted_wrt (<) ?locs" by (simp add: strict_sorted_iff)
  have "if_fragment_id ` set (flatten ?t) = set (frag_ids ps)"
    unfolding insertion_items [OF s(1)] by (simp add: frag_ids_def image_image InsertionFragment_new_def)
  then have sub: "set ?locs \<subseteq> set (frag_ids ps)" using ys(3) by auto
  have "frag_id (fst p) \<in> set ?locs" if p: "p \<in> set ps" "e \<in> set es" "e \<in> affecting (fst p)" for p e
  proof -
    obtain i where i: "i \<in> ?S" "is_edit_id i = e" "in_slice i (InsertionFragment_new (fst p))"
      using covered_in_slice [OF visibility_piece(1) [OF s(2) p(1,3)]] piece_positive pieces p(1) by blast
    then have "i \<in> set ?is" using sls(2) p(2) by simp
    then have "InsertionFragment_new (fst p) \<in> set ys" using ys(4) i(3) p(1) insertion_items [OF s(1)] by blast
    then show ?thesis by (force simp: InsertionFragment_new_def)
  qed
  then show thesis using that run strict sub by blast
qed

end
