(* ===== verification/Text_Buffer_Undo.thy ===== *)
theory Text_Buffer_Undo
  imports Text_Buffer_Ids
begin

text \<open>
  \<open>apply_undo\<close>: one pass over the fragments gives those that an undo operation concerns the
  visibility that the new counts demand and keeps the others, so that the visible text becomes what
  is shown when exactly the edits with odd counts are undone.
\<close>

section \<open>Searching fragments by their identifiers\<close>

interpretation undo_cursor: dimension_algebra fragment_ops undo_dims
  unfolding undo_dims_def by (rule Dimensions_algebra) unfold_locales

lemma add_undo_dims:
  "piece_ok p \<Longrightarrow> dim_add undo_dims q (item_summary fragment_ops (fst p)) = (Some (frag_id (fst p)), snd q + text_len (vis [p]))"
  using fragment_sum_item [of p] by (simp add: undo_dims_def Dimensions_def Locator_dim_def visible_dim_def case_prod_beta)

lemma advance_undo:
  "\<forall>p \<in> set ps. piece_ok p \<Longrightarrow>
     undo_cursor.adv q (map fst ps) = (if ps = [] then fst q else Some (frag_id (fst (last ps))), snd q + text_len (vis ps))"
proof (induction ps arbitrary: q)
  case (Cons p ps)
  then have p: "piece_ok p" "\<forall>p \<in> set ps. piece_ok p" by simp_all
  show ?case unfolding list.map advance.simps add_undo_dims [OF p(1)] Cons.IH [OF p(2)] by simp
qed simp

lemma undo_positions:
  "\<forall>p \<in> set ps. piece_ok p \<Longrightarrow>
     map fst (positions undo_dims (item_summary fragment_ops) q (map fst ps)) = map (\<lambda>p. Some (frag_id (fst p))) ps"
  by (induction ps arbitrary: q) (simp_all add: Let_def add_undo_dims)

abbreviation id_target :: "Locator \<Rightarrow> (Locator option \<times> nat) target" where
  "id_target l \<equiv> fst_target (cmp (Some l))"

lemma id_passes: "passes (id_target l) Bias.Left = (\<lambda>q. fst q < Some l)"
  by (auto simp: passes_def fst_target_def fun_eq_iff cmp_def)

lemma id_monot:
  assumes "\<forall>p \<in> set ps. piece_ok p" "sorted_wrt (<) (frag_ids ps)"
  shows "undo_cursor.monot (passes (id_target l) Bias.Left) q (map fst ps)"
proof -
  have "sorted_wrt (\<lambda>x y. x < y) (map fst (positions undo_dims (item_summary fragment_ops) q (map fst ps)))"
    unfolding undo_positions [OF assms(1)] using assms(2) by (simp add: frag_ids_def sorted_wrt_map)
  then have "sorted_wrt (\<lambda>x y. fst x < fst y) (positions undo_dims (item_summary fragment_ops) q (map fst ps))" by (simp add: sorted_wrt_map)
  then show ?thesis unfolding seek_mono_def id_passes by (rule sorted_wrt_mono_rel [rotated]) (auto elim: less_trans)
qed

lemma id_scan:
  assumes "\<forall>p \<in> set (S @ p # R). piece_ok p" "\<forall>q \<in> set S. frag_id (fst q) < frag_id (fst p)"
  shows "undo_cursor.scan (passes (id_target (frag_id (fst p))) Bias.Left) q (map fst (S @ p # R)) =
    (map fst S, undo_cursor.adv q (map fst S), map fst (p # R))"
  using assms
proof (induction S arbitrary: q)
  case Nil
  then show ?case using add_undo_dims [of p q] by (simp add: id_passes Let_def)
next
  case (Cons s S)
  then have s: "piece_ok s" "frag_id (fst s) < frag_id (fst p)" by simp_all
  show ?case using Cons s(2) add_undo_dims [OF s(1), of q] by (simp add: id_passes Let_def)
qed

section \<open>One fragment\<close>

lemma all_deletions_ok: "(\<And>d. P d = Some (Q d)) \<Longrightarrow> all_deletions P ds = Some (\<forall>d \<in> set ds. Q d)"
  by (induction ds) auto

lemma frag_is_visible_ok:
  assumes "undo_invar m" "undo_usable m" shows "frag_is_visible f m = Some (shown (edit_undone m) f)"
  using all_deletions_ok [of "is_undone m", OF undone_is [OF assms]]
  by (auto simp: frag_is_visible_def undone_is [OF assms] shown_def)

definition undo_piece :: "(Lamport \<Rightarrow> bool) \<Rightarrow> Lamport \<Rightarrow> Piece \<Rightarrow> Piece" where
  "undo_piece undone timestamp p =
     ((fst p)\<lparr>frag_visible := shown undone (fst p), frag_max_undos := Global_observe (frag_max_undos (fst p)) timestamp\<rparr>, snd p)"

lemma undo_piece_ok: "piece_ok p \<Longrightarrow> piece_ok (undo_piece undone t p)"
  by (simp add: piece_ok_def undo_piece_def fragment_canonical_def normal_Global_observe fits_Global_updates)

lemma undo_piece_sel [simp]:
  "frag_id (fst (undo_piece undone t p)) = frag_id (fst p)" "frag_timestamp (fst (undo_piece undone t p)) = frag_timestamp (fst p)"
  "frag_insertion_offset (fst (undo_piece undone t p)) = frag_insertion_offset (fst p)" "frag_len (fst (undo_piece undone t p)) = frag_len (fst p)"
  "frag_deletions (fst (undo_piece undone t p)) = frag_deletions (fst p)" "frag_visible (fst (undo_piece undone t p)) = shown undone (fst p)"
  "snd (undo_piece undone t p) = snd p"
  by (simp_all add: undo_piece_def)

lemma undo_piece_bytes [simp]: "piece_bytes (undo_piece undone t p) = piece_bytes p"
  by (simp add: piece_bytes_def origins_def f_off_def f_end_def)

section \<open>The loop\<close>

text \<open>What stays the same: the old tree, the old pieces, and what becomes of each of them.\<close>

definition undo_inv :: "FragmentTree \<Rightarrow> Piece list \<Rightarrow> (Piece \<Rightarrow> Piece) \<Rightarrow> UndoState \<Rightarrow> Piece list \<Rightarrow> Piece list \<Rightarrow> bool" where
  "undo_inv T ps g st B A \<longleftrightarrow>
     ps = B @ A \<and> c_tree (us_old st) = T \<and> cursor_ready fragment_ops undo_dims (us_old st) (map fst B) (map fst A) \<and>
     tree_pieces (us_new st) (map g B) \<and> ropes_at (us_ropes st) (vis A) (del A) (vis (map g B)) (del (map g B)) \<and>
     separated (us_edits st) \<and>
     patch_to 0 0 (us_edits st) (vis_bytes ps) (vis_bytes (map g ps)) (text_len (vis B)) (text_len (vis (map g B)))"

lemma tree_pieces_append:
  assumes "tree_pieces t ps" "tree_pieces u qs"
  shows "\<exists>t'. append_tree fragment_ops t u = Some t' \<and> tree_pieces t' (ps @ qs)"
  using fragments.append_tree_ok [of t u] assms by (fastforce simp: tree_pieces_def)

lemma tree_pieces_push:
  assumes "tree_pieces t ps" "piece_ok p"
  shows "\<exists>t'. push fragment_ops t (fst p) = Some t' \<and> tree_pieces t' (ps @ [p])"
  using fragments.push_ok [of t "fst p"] assms by (fastforce simp: tree_pieces_def)

text \<open>Passing over fragments that stay what they are.\<close>

lemma same_run_mid: "same_run (length x) (length a) (length c) (a @ x @ b) (c @ x @ d)"
  by (simp add: same_run_def nth_append)

lemma tree_pieces_ok: "tree_pieces t ps \<Longrightarrow> \<forall>p \<in> set ps. piece_ok p"
  by (simp add: tree_pieces_def)

lemma undo_skip_ok:
  assumes inv: "undo_inv T ps g st B (S @ R)" and ps: "\<forall>p \<in> set ps. piece_ok p" and S: "\<forall>p \<in> set S. g p = p" "tree_pieces t S"
    and c: "c_tree c = T" "cursor_ready fragment_ops undo_dims c (map fst (B @ S)) (map fst R)"
  obtains ropes new where "rb_append (us_ropes st) (sum_text (summary t)) = Some ropes" "append_tree fragment_ops (us_new st) t = Some new"
    "undo_inv T ps g (st\<lparr>us_old := c, us_ropes := ropes, us_new := new\<rparr>) (B @ S) R"
proof -
  have g: "map g S = S" using S(1) by (simp add: map_idI)
  have i: "ps = B @ S @ R" "tree_pieces (us_new st) (map g B)" "separated (us_edits st)"
    "ropes_at (us_ropes st) (vis S @ vis R) (del S @ del R) (vis (map g B)) (del (map g B))"
    using inv by (simp_all add: undo_inv_def)
  have patch: "patch_to 0 0 (us_edits st) (vis_bytes ps) (vis_bytes (map g ps)) (text_len (vis B)) (text_len (vis (map g B)))"
    using inv unfolding undo_inv_def by blast
  have "sum_text (summary t) = \<lparr>ft_visible = text_len (vis S), ft_deleted = text_len (del S)\<rparr>"
    using tree_pieces_sum [OF S(2)] by (simp add: sum_ok_def)
  from rb_append_ok [OF i(4) this] obtain ropes where r: "rb_append (us_ropes st) (sum_text (summary t)) = Some ropes"
    "ropes_at ropes (vis R) (del R) (vis (map g B) @ vis S) (del (map g B) @ del S)" by blast
  obtain new where n: "append_tree fragment_ops (us_new st) t = Some new" "tree_pieces new (map g B @ S)"
    using tree_pieces_append [OF i(2) S(2)] by blast
  have "same_run (text_len (vis S)) (text_len (vis B)) (text_len (vis (map g B))) (vis_bytes ps) (vis_bytes (map g ps))"
    using same_run_mid [of "vis_bytes S" "vis_bytes B" "vis_bytes (map g B)" "vis_bytes R" "vis_bytes (map g R)"] i(1) g
      length_vis_bytes [of B] length_vis_bytes [of S] length_vis_bytes [OF tree_pieces_ok [OF i(2)]] S(2) ps by (simp add: tree_pieces_def)
  from patch_to_run [OF patch this] have "undo_inv T ps g (st\<lparr>us_old := c, us_ropes := ropes, us_new := new\<rparr>) (B @ S) R"
    using r(2) n(2) i c g by (simp add: undo_inv_def)
  then show thesis using that r(1) n(1) by blast
qed

text \<open>The fragment under the cursor.\<close>

lemma undo_fragment_ok:
  assumes inv: "undo_inv T ps g st B (p # R)" and at: "cursor_at fragment_ops undo_dims (us_old st) (map fst B) (map fst (p # R))"
    and g: "g p = undo_piece (edit_undone m) t p" and m: "undo_invar m" "undo_usable m"
    and T: "wf_tree fragment_ops T" "height T < 16" and ps: "\<forall>p \<in> set ps. piece_ok p"
  obtains st' where "undo_fragment m t st (fst p) = Some st'" "undo_inv T ps g st' (B @ [p]) R"
proof -
  obtain f x where p: "p = (f, x)" by (cases p)
  let ?f = "f\<lparr>frag_visible := shown (edit_undone m) f, frag_max_undos := Global_observe (frag_max_undos f) t\<rparr>"
  have gp: "g p = (?f, x)" using g p by (simp add: undo_piece_def)
  have i: "ps = B @ p # R" "tree_pieces (us_new st) (map g B)" "separated (us_edits st)" "c_tree (us_old st) = T"
    "ropes_at (us_ropes st) (vis (p # R)) (del (p # R)) (vis (map g B)) (del (map g B))"
    using inv by (simp_all add: undo_inv_def)
  have patch: "patch_to 0 0 (us_edits st) (vis_bytes ps) (vis_bytes (map g ps)) (text_len (vis B)) (text_len (vis (map g B)))"
    using inv unfolding undo_inv_def by blast
  have ok: "piece_ok p" "piece_ok (g p)" "\<forall>p \<in> set B. piece_ok p" using ps i(1) undo_piece_ok g by auto
  have len: "unat (frag_len f) = text_len x" using ok(1) p by (simp add: piece_ok_def)
  have start: "snd (c_position (us_old st)) = text_len (vis B)"
    using cursor_ready_position [OF cursor_ready_at [OF at]] advance_undo [OF ok(3), of "dim_zero undo_dims"]
    by (simp add: undo_dims_def Dimensions_def visible_dim_def)
  have new_start: "ft_visible (sum_text (summary (us_new st))) = text_len (vis (map g B))"
    using tree_pieces_sum [OF i(2)] by (simp add: sum_ok_def)
  have "ropes_at (us_ropes st) (if frag_visible f then x @ vis R else vis R) (if frag_visible f then del R else x @ del R) (vis (map g B)) (del (map g B))"
    using i(5) p by (cases "frag_visible f") simp_all
  from rb_push_fragment_ok [OF this ok(2) [unfolded gp]] obtain ropes where r: "rb_push_fragment (us_ropes st) ?f (frag_visible f) = Some ropes"
    "ropes_at ropes (vis R) (del R) (vis (map g B) @ vis [(?f, x)]) (del (map g B) @ del [(?f, x)])" by blast
  obtain new where n: "push fragment_ops (us_new st) ?f = Some new" "tree_pieces new (map g B @ [g p])"
    using tree_pieces_push [OF i(2) ok(2)] gp by auto
  obtain c where c: "cursor_next undo_dims (us_old st) = Some c" "c_tree c = T" "cursor_at fragment_ops undo_dims c (map fst B @ [fst p]) (map fst R)"
    using undo_cursor.search_forward_ok [of "us_old st", OF _ _ filter_mono_True, of "map fst B" "fst p" "map fst R"] T i(4) at
    by (auto simp: cursor_next_def rejected_True takeWhile_False)
  define es where "es = (if frag_visible f \<and> \<not> frag_visible ?f then patch_push (us_edits st) (text_edit (text_len (vis B)) (text_len (vis B) + text_len x) (text_len (vis (map g B))) (text_len (vis (map g B))))
    else if \<not> frag_visible f \<and> frag_visible ?f then patch_push (us_edits st) (text_edit (text_len (vis B)) (text_len (vis B)) (text_len (vis (map g B))) (text_len (vis (map g B)) + text_len x))
    else us_edits st)"
  have texts: "vis_bytes ps = vis_bytes B @ vis_bytes [p] @ vis_bytes R"
    "vis_bytes (map g ps) = vis_bytes (map g B) @ vis_bytes [g p] @ vis_bytes (map g R)" using i(1) by simp_all
  have lens: "length (vis_bytes B) = text_len (vis B)" "length (vis_bytes [p]) = text_len (vis [p])" "length (vis_bytes [g p]) = text_len (vis [g p])"
    "length (vis_bytes (map g B)) = text_len (vis (map g B))"
    using length_vis_bytes [of B] length_vis_bytes [of "[p]"] length_vis_bytes [of "[g p]"] length_vis_bytes [OF tree_pieces_ok [OF i(2)]] ok by simp_all
  have push: "patch_to 0 0 (patch_push (us_edits st) (text_edit (text_len (vis B)) (text_len (vis B) + text_len (vis [p])) (text_len (vis (map g B))) (text_len (vis (map g B)) + text_len (vis [g p]))))
      (vis_bytes ps) (vis_bytes (map g ps)) (text_len (vis (B @ [p]))) (text_len (vis (map g (B @ [p])))) \<and>
    separated (patch_push (us_edits st) (text_edit (text_len (vis B)) (text_len (vis B) + text_len (vis [p])) (text_len (vis (map g B))) (text_len (vis (map g B)) + text_len (vis [g p]))))"
    using patch_push_ok [OF patch i(3), of "text_len (vis B) + text_len (vis [p])" "text_len (vis (map g B)) + text_len (vis [g p])"] texts lens by simp
  have "patch_to 0 0 es (vis_bytes ps) (vis_bytes (map g ps)) (text_len (vis (B @ [p]))) (text_len (vis (map g (B @ [p])))) \<and> separated es"
  proof (cases "frag_visible f = frag_visible ?f")
    case True
    then have "vis [g p] = vis [p]" "vis_bytes [g p] = vis_bytes [p]" using gp p g by simp_all
    then have "same_run (text_len (vis [p])) (text_len (vis B)) (text_len (vis (map g B))) (vis_bytes ps) (vis_bytes (map g ps))"
      using same_run_mid [of "vis_bytes [p]" "vis_bytes B" "vis_bytes (map g B)" "vis_bytes R" "vis_bytes (map g R)"] texts lens by simp
    from patch_to_run [OF patch this] show ?thesis using True i(3) \<open>vis [g p] = vis [p]\<close> by (simp add: es_def)
  next
    case False
    then show ?thesis using push gp p by (cases "frag_visible f") (simp_all add: es_def)
  qed
  moreover have "undo_fragment m t st (fst p) = Some \<lparr>us_old = c, us_new = new, us_ropes = ropes, us_edits = es\<rparr>"
    using r(1) n(1) c(1) by (simp add: undo_fragment_def frag_is_visible_ok [OF m] p start new_start len es_def Let_def)
  ultimately show thesis
    using that [of "\<lparr>us_old = c, us_new = new, us_ropes = ropes, us_edits = es\<rparr>"] i(1) c(2) cursor_ready_at [OF c(3)] n(2) r(2) gp
    by (simp add: undo_inv_def)
qed

lemma undo_step_ok:
  assumes inv: "undo_inv T ps g st B (S @ p # R)" and S: "\<forall>q \<in> set S. g q = q" and g: "g p = undo_piece (edit_undone m) t p"
    and m: "undo_invar m" "undo_usable m" and T: "wf_tree fragment_ops T" "height T < 16"
    and ps: "\<forall>p \<in> set ps. piece_ok p" "sorted_wrt (<) (frag_ids ps)"
  obtains st' where "undo_step m t st (frag_id (fst p)) = Some st'" "undo_inv T ps g st' (B @ S @ [p]) R"
proof -
  have i: "ps = B @ S @ p # R" "c_tree (us_old st) = T" "cursor_ready fragment_ops undo_dims (us_old st) (map fst B) (map fst (S @ p # R))"
    using inv by (simp_all add: undo_inv_def)
  have ok: "\<forall>p \<in> set B. piece_ok p" "\<forall>p \<in> set (S @ p # R). piece_ok p" using ps(1) i(1) by simp_all
  have sorted: "sorted_wrt (<) (frag_ids (S @ p # R))" "\<forall>q \<in> set S. frag_id (fst q) < frag_id (fst p)"
    "\<forall>q \<in> set B. frag_id (fst q) < frag_id (fst p)" using ps(2) unfolding i(1) by (auto simp: sorted_wrt_append frag_ids_def)
  have "fst (c_position (us_old st)) = (if B = [] then None else Some (frag_id (fst (last B))))"
    using cursor_ready_position [OF i(3)] advance_undo [OF ok(1), of "dim_zero undo_dims"] by (simp add: undo_dims_def Dimensions_def Locator_dim_def)
  moreover have "\<not> frag_id (fst p) < frag_id (fst (last B))" if "B \<noteq> []"
    using sorted(3) last_in_set [OF that] by (meson less_asym)
  ultimately have target: "id_target (frag_id (fst p)) (c_position (us_old st)) \<noteq> Less" by (simp add: fst_target_def cmp_def)
  obtain c u where c: "cursor_slice fragment_ops undo_dims (us_old st) (id_target (frag_id (fst p))) Bias.Left = Some (c, u)" "wf_tree fragment_ops u"
    "flatten u = map fst S" "cursor_at fragment_ops undo_dims c (map fst B @ map fst S) (map fst (p # R))" "c_tree c = T"
    using undo_cursor.cursor_slice_ok [OF _ _ i(3) target id_monot [OF ok(2) sorted(1)] id_scan [OF ok(2) sorted(2)]] T i(2) by auto
  have u: "tree_pieces u S" using c(2,3) ok(2) by (simp add: tree_pieces_def)
  have at: "cursor_at fragment_ops undo_dims c (map fst (B @ S)) (map fst (p # R))" using c(4) by simp
  show thesis
  proof (rule undo_skip_ok [OF inv ps(1) S u c(5) cursor_ready_at [OF at]])
    fix ropes new
    let ?st = "st\<lparr>us_old := c, us_ropes := ropes, us_new := new\<rparr>"
    assume r: "rb_append (us_ropes st) (sum_text (summary u)) = Some ropes" "append_tree fragment_ops (us_new st) u = Some new"
      "undo_inv T ps g ?st (B @ S) (p # R)"
    have "cursor_at fragment_ops undo_dims (us_old ?st) (map fst (B @ S)) (map fst (p # R))" using at by simp
    then show thesis
    proof (rule undo_fragment_ok [OF r(3) _ g m T ps(1)])
      fix st' assume f: "undo_fragment m t ?st (fst p) = Some st'" "undo_inv T ps g st' ((B @ S) @ [p]) R"
      have "cursor_item c = Some (Some (fst p))" using undo_cursor.cursor_item_ok(1) [OF _ at] T(1) c(5) by (simp add: list_first_def)
      then have "undo_step m t st (frag_id (fst p)) = Some st'" using c(1) r(1,2) f(1) by (simp add: undo_step_def Let_def)
      then show thesis using that f(2) by simp
    qed
  qed
qed

text \<open>All fragments: those whose identifiers are given change, and the others do not.\<close>

definition undo_pieces :: "(Lamport \<Rightarrow> bool) \<Rightarrow> Lamport \<Rightarrow> Locator set \<Rightarrow> Piece \<Rightarrow> Piece" where
  "undo_pieces undone timestamp L p = (if frag_id (fst p) \<in> L then undo_piece undone timestamp p else p)"

lemma undo_steps_ok:
  assumes "undo_inv T ps g st B A" "sorted_wrt (<) locs" "set locs \<subseteq> set (frag_ids A)"
    and "\<forall>p \<in> set A. g p = undo_pieces (edit_undone m) t (set locs) p"
    and m: "undo_invar m" "undo_usable m" and T: "wf_tree fragment_ops T" "height T < 16"
    and ps: "\<forall>p \<in> set ps. piece_ok p" "sorted_wrt (<) (frag_ids ps)"
  shows "\<exists>st' B' A'. undo_steps m t st locs = Some st' \<and> undo_inv T ps g st' B' A' \<and> (\<forall>p \<in> set A'. g p = p)"
  using assms(1-4)
proof (induction locs arbitrary: st B A)
  case Nil
  then show ?case by (intro exI [of _ st] exI [of _ B] exI [of _ A]) (simp add: undo_pieces_def)
next
  case (Cons l locs)
  have "l \<in> set (frag_ids A)" using Cons.prems(3) by simp
  then obtain p where "p \<in> set A" "l = frag_id (fst p)" by (auto simp: frag_ids_def)
  then obtain S R where A: "A = S @ p # R" and l: "l = frag_id (fst p)" by (meson split_list)
  have "ps = B @ A" using Cons.prems(1) by (simp add: undo_inv_def)
  then have sorted: "\<forall>q \<in> set S. frag_id (fst q) < l" "\<forall>q \<in> set R. l < frag_id (fst q)"
    using ps(2) unfolding A l by (auto simp: sorted_wrt_append frag_ids_def)
  have later: "\<forall>k \<in> set locs. l < k" "sorted_wrt (<) locs" using Cons.prems(2) by simp_all
  have S: "\<forall>q \<in> set S. g q = q"
  proof
    fix q assume q: "q \<in> set S"
    then have "frag_id (fst q) \<notin> set (l # locs)" using sorted(1) later(1) by (auto dest: less_trans)
    then show "g q = q" using Cons.prems(4) q by (simp add: A undo_pieces_def)
  qed
  have g: "g p = undo_piece (edit_undone m) t p" using Cons.prems(4) l by (simp add: A undo_pieces_def)
  show ?case
  proof (rule undo_step_ok [OF Cons.prems(1) [unfolded A] S g m T ps])
    fix st' assume s: "undo_step m t st (frag_id (fst p)) = Some st'" "undo_inv T ps g st' (B @ S @ [p]) R"
    have "set locs \<subseteq> set (frag_ids R)"
    proof
      fix k assume k: "k \<in> set locs"
      then have "l < k" "k \<in> set (frag_ids A)" using later(1) Cons.prems(3) by auto
      then show "k \<in> set (frag_ids R)" using sorted(1) l by (auto simp: A frag_ids_def)
    qed
    moreover have "\<forall>q \<in> set R. g q = undo_pieces (edit_undone m) t (set locs) q"
      using Cons.prems(4) sorted(2) by (auto simp: A undo_pieces_def)
    ultimately obtain st2 B' A' where "undo_steps m t st' locs = Some st2" "undo_inv T ps g st2 B' A'" "\<forall>p \<in> set A'. g p = p"
      using Cons.IH [OF s(2) later(2)] by blast
    then show ?case using s(1) l by auto
  qed
qed

section \<open>The invariant after an undo\<close>

lemma undo_pieces_sel [simp]:
  "frag_id (fst (undo_pieces undone t L p)) = frag_id (fst p)" "frag_timestamp (fst (undo_pieces undone t L p)) = frag_timestamp (fst p)"
  "frag_insertion_offset (fst (undo_pieces undone t L p)) = frag_insertion_offset (fst p)" "frag_len (fst (undo_pieces undone t L p)) = frag_len (fst p)"
  "frag_deletions (fst (undo_pieces undone t L p)) = frag_deletions (fst p)" "snd (undo_pieces undone t L p) = snd p"
  by (simp_all add: undo_pieces_def)

lemma undo_pieces_bytes [simp]: "piece_bytes (undo_pieces undone t L p) = piece_bytes p"
  by (simp add: undo_pieces_def)

lemma undo_pieces_all [simp]: "all_bytes (map (undo_pieces undone t L) ps) = all_bytes ps"
  by (simp add: all_bytes_def comp_def)

lemma undo_pieces_same:
  "frag_ids (map (undo_pieces undone t L) ps) = frag_ids ps"
  "spans_ok (map fst (map (undo_pieces undone t L) ps)) = spans_ok (map fst ps)"
  "index_of (map fst (map (undo_pieces undone t L) ps)) = index_of (map fst ps)"
proof -
  show "frag_ids (map (undo_pieces undone t L) ps) = frag_ids ps" by (simp add: frag_ids_def)
  show "spans_ok (map fst (map (undo_pieces undone t L) ps)) = spans_ok (map fst ps)"
    by (simp add: spans_ok_def sorted_wrt_map apart_def f_off_def f_end_def)
  have "InsertionFragment_new (fst (undo_pieces undone t L p)) = InsertionFragment_new (fst p)" for p by (simp add: InsertionFragment_new_def)
  then show "index_of (map fst (map (undo_pieces undone t L) ps)) = index_of (map fst ps)"
    by (simp add: index_of_def key_map_def comp_def)
qed

lemma shown_cong: "\<forall>e \<in> affecting f. u e = v e \<Longrightarrow> u base_timestamp = v base_timestamp \<Longrightarrow> shown u f = shown v f"
  by (cases "frag_timestamp f = base_timestamp") (auto simp: shown_def affecting_def)

text \<open>With the fragments of all edits whose state changes among those treated, every fragment is visible
  when the new counts say so.\<close>

lemma undo_pieces_visible:
  assumes "frag_visible (fst p) = shown u (fst p)" "frag_id (fst p) \<notin> L \<Longrightarrow> \<forall>e \<in> affecting (fst p). u e = v e" "u base_timestamp = v base_timestamp"
  shows "frag_visible (fst (undo_pieces v t L p)) = shown v (fst p)"
  using assms shown_cong [of "fst p" u v] by (auto simp: undo_pieces_def)

lemma vis_shown: "\<forall>p \<in> set ps. frag_visible (fst (g p)) = shown v (fst p) \<and> snd (g p) = snd p \<Longrightarrow> vis (map g ps) = shown_text v ps"
  by (induction ps) auto

text \<open>What an undo operation does to the state of an edit.\<close>

lemma undone_after:
  assumes "undo_invar m" "undo_usable m" "distinct (map fst (uo_counts undo))" "undo_insert m undo = Some m'"
  shows "undo_invar m'" and "map_of (uo_counts undo) e = None \<Longrightarrow> edit_undone m' e = edit_undone m e"
    and "undo_counts m' e u = (if u = uo_timestamp undo then case map_of (uo_counts undo) e of Some n \<Rightarrow> Some n | None \<Rightarrow> undo_counts m e u
      else undo_counts m e u)"
proof -
  have same: "undo_invar m' \<and> undo_counts m' e u = (if u = uo_timestamp undo then case map_of (uo_counts undo) e of Some n \<Rightarrow> Some n | None \<Rightarrow> undo_counts m e u
      else undo_counts m e u)" for e u using undo_insert_ok [OF assms(1-3), of e u] assms(4) by auto
  then show "undo_invar m'" "undo_counts m' e u = (if u = uo_timestamp undo then case map_of (uo_counts undo) e of Some n \<Rightarrow> Some n | None \<Rightarrow> undo_counts m e u
      else undo_counts m e u)" by blast+
  assume "map_of (uo_counts undo) e = None"
  then have "undo_counts m' e = undo_counts m e" using same [of e] by (auto simp: fun_eq_iff)
  then show "edit_undone m' e = edit_undone m e" by (simp add: edit_undone_def)
qed

lemma undo_visibility_ok:
  assumes s: "visibility_ok s ps" "undo_usable (bs_undo_map s)" and undo: "undo_insert (bs_undo_map s) undo = Some m'"
      "distinct (map fst (uo_counts undo))" "base_timestamp \<notin> fst ` set (uo_counts undo)"
    and L: "\<And>p e. p \<in> set ps \<Longrightarrow> e \<in> fst ` set (uo_counts undo) \<Longrightarrow> e \<in> affecting (fst p) \<Longrightarrow> frag_id (fst p) \<in> L"
    and s': "bs_insertion_slices s' = bs_insertion_slices s" "bs_undo_map s' = m'"
  shows "visibility_ok s' (map (undo_pieces (edit_undone m') t L) ps)"
    and "vis (map (undo_pieces (edit_undone m') t L) ps) = shown_text (edit_undone m') ps"
proof -
  let ?g = "undo_pieces (edit_undone m') t L"
  have inv: "undo_invar (bs_undo_map s)" using s(1) by (simp add: visibility_ok_def)
  note after = undone_after [OF inv s(2) undo(2,1)]
  have keep: "edit_undone (bs_undo_map s) e = edit_undone m' e" if "e \<notin> fst ` set (uo_counts undo)" for e
    using after(2) [of e] that by (simp add: map_of_eq_None_iff)
  have vis: "frag_visible (fst (?g p)) = shown (edit_undone m') (fst p)" if p: "p \<in> set ps" for p
  proof (rule undo_pieces_visible [OF visibility_piece(2) [OF s(1) p]])
    show "edit_undone (bs_undo_map s) base_timestamp = edit_undone m' base_timestamp" using keep undo(3) by blast
    assume "frag_id (fst p) \<notin> L"
    then show "\<forall>e \<in> affecting (fst p). edit_undone (bs_undo_map s) e = edit_undone m' e" using L [OF p] keep by blast
  qed
  have "frag_good (edit_undone m') (slice_set (bs_insertion_slices s)) (fst (?g p))" if "p \<in> set ps" for p
    using vis [OF that] visibility_piece(1) [OF s(1) that]
    by (simp add: frag_good_def shown_def affecting_def covered_def f_off_def f_end_def)
  then show "visibility_ok s' (map ?g ps)" using s(1) s' after(1) by (simp add: visibility_ok_def)
  show "vis (map ?g ps) = shown_text (edit_undone m') ps" by (rule vis_shown) (simp add: vis)
qed

lemma apply_undo_ok:
  assumes s: "snapshot_ok (b_snapshot b) ps" "shallow (b_snapshot b)"
    and topic: "topic_inv seen (vis_bytes ps) (b_subscriptions b)"
    and undo: "undo_insert (bs_undo_map (b_snapshot b)) undo = Some m'" "undo_usable m'"
      "distinct (map fst (uo_counts undo))" "base_timestamp \<notin> fst ` set (uo_counts undo)"
  obtains b' L where "apply_undo b undo = Some b'"
    "snapshot_ok (b_snapshot b') (map (undo_pieces (edit_undone m') (uo_timestamp undo) L) ps)"
    "vis (map (undo_pieces (edit_undone m') (uo_timestamp undo) L) ps) = shown_text (edit_undone m') ps"
    "topic_inv seen (vis_bytes (map (undo_pieces (edit_undone m') (uo_timestamp undo) L) ps)) (b_subscriptions b')" "bs_undo_map (b_snapshot b') = m'"
    "bs_insertion_slices (b_snapshot b') = bs_insertion_slices (b_snapshot b)" "bs_version (b_snapshot b') = bs_version (b_snapshot b)"
    "b_history b' = b_history b" "b_lamport_clock b' = b_lamport_clock b"
proof -
  let ?s = "b_snapshot b" and ?t = "uo_timestamp undo"
  have frs: "fragments_ok ?s ps" "visibility_ok ?s ps" using s(1) by (simp_all add: snapshot_ok_def)
  have f: "tree_pieces (bs_fragments ?s) ps" "rope_ok (bs_visible_text ?s)" "rope_ok (bs_deleted_text ?s)" "ids_ok (frag_ids ps)"
    "rope_text (bs_visible_text ?s) = vis ps" "rope_text (bs_deleted_text ?s) = del ps" using frs(1) by (simp_all add: fragments_ok_def)
  have h: "height (bs_fragments ?s) < 16" "height (rope_chunks (bs_visible_text ?s)) \<le> 6" "height (rope_chunks (bs_deleted_text ?s)) \<le> 6"
    "height (bs_insertions ?s) < 16" "tm_usable (bs_insertion_slices ?s)" "undo_usable (bs_undo_map ?s)" using s(2) by (simp_all add: shallow_def)
  have T: "wf_tree fragment_ops (bs_fragments ?s)" and pieces: "\<forall>p \<in> set ps. piece_ok p" and flat: "flatten (bs_fragments ?s) = map fst ps"
    using f(1) by (simp_all add: tree_pieces_def)
  have sorted: "sorted_wrt (<) (frag_ids ps)" using f(4) by (simp add: ids_ok_def sorted_wrt_append)
  have "undo_invar (bs_undo_map ?s)" using frs(2) by (simp add: visibility_ok_def)
  note m = undone_after(1) [OF this h(6) undo(3,1)]
  show thesis
  proof (rule fragment_ids_ok [OF frs h(4,5), of "map fst (uo_counts undo)"])
    fix locs
    assume locs: "fragment_ids_for_edits ?s (map fst (uo_counts undo)) = Some locs" "sorted_wrt (<) locs" "set locs \<subseteq> set (frag_ids ps)"
      "\<And>p e. p \<in> set ps \<Longrightarrow> e \<in> set (map fst (uo_counts undo)) \<Longrightarrow> e \<in> affecting (fst p) \<Longrightarrow> frag_id (fst p) \<in> set locs"
    let ?g = "undo_pieces (edit_undone m') ?t (set locs)"
    have edits: "p \<in> set ps \<Longrightarrow> e \<in> fst ` set (uo_counts undo) \<Longrightarrow> e \<in> affecting (fst p) \<Longrightarrow> frag_id (fst p) \<in> set locs" for p e
      using locs(4) by simp
    obtain cv cd where c: "rope_cursor (bs_visible_text ?s) 0 = Some cv" "rope_cursor (bs_deleted_text ?s) 0 = Some cd"
      "ropes_at (RopeBuilder_new cv cd) (vis ps) (del ps) [] []"
      using RopeBuilder_new_ok [OF f(2) h(2) f(3) h(3)] f(5,6) by auto
    let ?st = "\<lparr>us_old = cursor_new undo_dims (bs_fragments ?s), us_new = new_tree fragment_ops, us_ropes = RopeBuilder_new cv cd, us_edits = Patch_empty\<rparr>"
    have "cursor_ready fragment_ops undo_dims (cursor_new undo_dims (bs_fragments ?s)) [] (map fst ps)"
      using cursor_ready_fresh [OF cursor_fresh_new(1) [of undo_dims "bs_fragments ?s"]] flat by (simp add: cursor_fresh_new)
    moreover have "tree_pieces (new_tree fragment_ops) []" using fragments.wf_new_tree by (simp add: tree_pieces_def new_tree_def)
    ultimately have "undo_inv (bs_fragments ?s) ps ?g ?st [] ps"
      using c(3) by (simp add: undo_inv_def cursor_fresh_new Patch_empty_def separated_def)
    from undo_steps_ok [OF this locs(2,3) _ m undo(2) T h(1) pieces sorted]
    obtain st B A where u: "undo_steps m' ?t ?st locs = Some st" "undo_inv (bs_fragments ?s) ps ?g st B A" "\<forall>p \<in> set A. ?g p = p" by blast
    have i: "ps = B @ A" "c_tree (us_old st) = bs_fragments ?s" "cursor_ready fragment_ops undo_dims (us_old st) (map fst B) (map fst A)"
      using u(2) by (simp_all add: undo_inv_def)
    obtain c' suffix where sx: "cursor_suffix fragment_ops undo_dims (us_old st) = Some (c', suffix)" "wf_tree fragment_ops suffix"
      "flatten suffix = map fst A" "cursor_at fragment_ops undo_dims c' (map fst (B @ A)) (map fst ([] :: Piece list))" "c_tree c' = bs_fragments ?s"
      using undo_cursor.cursor_suffix_ok [OF _ _ i(3)] T h(1) i(2) by auto
    have tail: "tree_pieces suffix A" using sx(2,3) pieces i(1) by (simp add: tree_pieces_def)
    have inv: "undo_inv (bs_fragments ?s) ps ?g st B (A @ [])" using u(2) by simp
    show thesis
    proof (rule undo_skip_ok [OF inv pieces u(3) tail sx(5) cursor_ready_at [OF sx(4)]])
      fix ropes new
      assume r: "rb_append (us_ropes st) (sum_text (summary suffix)) = Some ropes" "append_tree fragment_ops (us_new st) suffix = Some new"
        and inv: "undo_inv (bs_fragments ?s) ps ?g (st\<lparr>us_old := c', us_ropes := ropes, us_new := new\<rparr>) (B @ A) []"
      have N: "tree_pieces new (map ?g ps)" "ropes_at ropes [] [] (vis (map ?g ps)) (del (map ?g ps))"
        using inv by (simp_all add: undo_inv_def i(1))
      have "patch_to 0 0 (us_edits st) (vis_bytes ps) (vis_bytes (map ?g ps)) (text_len (vis ps)) (text_len (vis (map ?g ps)))"
        using inv unfolding undo_inv_def i(1) by simp
      then have patch: "is_patch (us_edits st) (vis_bytes ps) (vis_bytes (map ?g ps))"
        using length_vis_bytes [OF pieces] length_vis_bytes [OF tree_pieces_ok [OF N(1)]] by (simp add: is_patch_def)
      obtain v d where vd: "rb_finish ropes = Some (v, d)" "rope_ok v" "rope_text v = vis (map ?g ps)" "rope_ok d" "rope_text d = del (map ?g ps)"
        using rb_finish_ok [OF N(2)] by auto
      obtain subs where subs: "publish (b_subscriptions b) (us_edits st) = Some subs" "topic_inv seen (vis_bytes (map ?g ps)) subs"
        using topic_inv_publish [OF topic patch] by blast
      let ?s' = "?s\<lparr>bs_undo_map := m', bs_fragments := new, bs_visible_text := v, bs_deleted_text := d\<rparr>"
      have run: "apply_undo b undo = Some (b\<lparr>b_snapshot := ?s', b_subscriptions := subs\<rparr>)"
        using undo(1) c(1,2) locs(1) u(1) sx(1) r vd(1) subs(1) by (simp add: apply_undo_def Let_def)
      have "bs_insertion_slices ?s' = bs_insertion_slices ?s" "bs_undo_map ?s' = m'" by simp_all
      note visible = undo_visibility_ok [where t = ?t, OF frs(2) h(6) undo(1,3,4) edits this]
      have "fragments_ok ?s' (map ?g ps)" using N(1) vd frs(1) by (simp add: fragments_ok_def undo_pieces_same del: map_map)
      then show thesis using that [OF run, of "set locs"] visible subs(2) by (simp add: snapshot_ok_def)
    qed
  qed
qed

end
