(* ===== verification/Text_Buffer_New.thy ===== *)
theory Text_Buffer_New
  imports Text_Buffer_Undo
begin

text \<open>
  The invariant of a buffer with its history, clock and subscriptions, and new buffers, which
  establish it.
\<close>

section \<open>The invariant of a buffer\<close>

text \<open>The edits that undoing and redoing may concern.\<close>

definition edits_of :: "HistoryEntry list \<Rightarrow> Lamport list" where
  "edits_of entries = concat (map edit_ids entries)"

lemma edits_of_simps [simp]:
  "edits_of [] = []" "edits_of (e # es) = edit_ids e @ edits_of es" "edits_of (xs @ ys) = edits_of xs @ edits_of ys"
  by (simp_all add: edits_of_def)

text \<open>The clock is ahead of every edit and undo operation, and of the counts of the latter, which
  therefore do not saturate.\<close>

definition before_clock :: "BufferSnapshot \<Rightarrow> Lamport \<Rightarrow> bool" where
  "before_clock s c \<longleftrightarrow> (\<forall>i \<in> slice_set (bs_insertion_slices s). is_edit_id i < c) \<and>
     (\<forall>e u n. undo_counts (bs_undo_map s) e u = Some n \<longrightarrow> e < c \<and> u < c \<and> n \<le> lamport_value c)"

text \<open>The transactions that can be undone are not undone, those that can be redone are, and no edit
  belongs to two of them.\<close>

definition entries_ok :: "UndoMap \<Rightarrow> History \<Rightarrow> bool" where
  "entries_ok m h \<longleftrightarrow> distinct (edits_of (hist_entries h)) \<and>
     (\<forall>e \<in> set (edits_of (hi_undo_stack h)). \<not> edit_undone m e) \<and> (\<forall>e \<in> set (edits_of (hi_redo_stack h)). edit_undone m e)"

definition buffer_ok :: "(nat \<Rightarrow> Byte list) \<Rightarrow> Buffer \<Rightarrow> Piece list \<Rightarrow> bool" where
  "buffer_ok seen b ps \<longleftrightarrow>
     snapshot_ok (b_snapshot b) ps \<and> before_clock (b_snapshot b) (b_lamport_clock b) \<and>
     topic_inv seen (vis_bytes ps) (b_subscriptions b) \<and> hist_inv (b_history b) (b_lamport_clock b) \<and>
     entries_ok (bs_undo_map (b_snapshot b)) (b_history b) \<and>
     base_timestamp \<le> b_lamport_clock b \<and>
     (0 < hi_transaction_depth (b_history b) \<longrightarrow> base_timestamp < b_lamport_clock b) \<and>
     (\<forall>e \<in> set (edits_of (hist_entries (b_history b))). base_timestamp < e \<and> e < b_lamport_clock b)"

text \<open>Trees that are low enough for the cursors, and room for three more ticks of the clock.\<close>

definition usable :: "Buffer \<Rightarrow> bool" where
  "usable b \<longleftrightarrow> shallow (b_snapshot b) \<and> tm_usable (hi_operations (b_history b)) \<and> unat (lamport_value (b_lamport_clock b)) + 3 < 2 ^ 32"

lemma lamport_value_mono: "c \<le> c' \<Longrightarrow> lamport_value c \<le> lamport_value c'"
  by (auto simp: le_less less_Lamport_iff)

lemma before_clock_mono: "before_clock s c \<Longrightarrow> c \<le> c' \<Longrightarrow> before_clock s c'"
  unfolding before_clock_def by (meson less_le_trans order_trans lamport_value_mono)

lemma later_than_clock: "before_clock s c \<Longrightarrow> c \<le> t \<Longrightarrow> base_timestamp < t \<Longrightarrow> later_than s t"
  unfolding later_than_def before_clock_def by (meson less_le_trans not_None_eq)

section \<open>New buffers\<close>

text \<open>The only fragment of the base text when it is shorter than the longest insertion.\<close>

definition base_fragment :: "ustr \<Rightarrow> Fragment" where
  "base_fragment t = \<lparr>frag_id = between Locator_min Locator_max, frag_timestamp = base_timestamp, frag_insertion_offset = 0,
     frag_len = word_of_nat (text_len t), frag_visible = True, frag_deletions = [], frag_max_undos = Global_new\<rparr>"

definition base_pieces :: "ustr \<Rightarrow> Piece list" where
  "base_pieces t = (if t = [] then [] else [(base_fragment t, t)])"

lemma base_pieces_ok:
  assumes "text_len t < 2 ^ 32"
  shows "\<forall>p \<in> set (base_pieces t). piece_ok p" "vis (base_pieces t) = t" "del (base_pieces t) = []" "ids_ok (frag_ids (base_pieces t))"
    "spans_ok (map fst (base_pieces t))" "(\<And>e. \<not> undone e) \<Longrightarrow> \<forall>p \<in> set (base_pieces t). frag_good undone S (fst p)"
proof -
  have "ids_ok [between Locator_min Locator_max]"
    using ids_ok_between [of "[]" "[]"] word_gt_0 [of "- 1 :: 64 word"] by (simp add: ids_ok_def Locator_min_def Locator_max_def)
  then show "ids_ok (frag_ids (base_pieces t))"
    using ids_ok_drop [of "[]" "[between Locator_min Locator_max]" "[]"] by (simp add: base_pieces_def base_fragment_def)
  show "vis (base_pieces t) = t" "del (base_pieces t) = []" "\<forall>p \<in> set (base_pieces t). piece_ok p" "spans_ok (map fst (base_pieces t))"
    using assms by (simp_all add: base_pieces_def base_fragment_def piece_ok_def fragment_canonical_def normal_Global_new unat_of_nat
        spans_ok_def f_end_def f_off_def take_bit_nat_eq_self)
  show "\<forall>p \<in> set (base_pieces t). frag_good undone S (fst p)" if "\<And>e. \<not> undone e"
    using that by (simp add: base_pieces_def base_fragment_def frag_good_def shown_def affecting_def)
qed

lemma push_empty: "push fragment_ops (new_tree fragment_ops) f = Some (Leaf (item_summary fragment_ops f) [f] [item_summary fragment_ops f])"
  "push insertion_ops (new_tree insertion_ops) i = Some (Leaf (item_summary insertion_ops i) [i] [item_summary insertion_ops i])"
  by (simp_all add: push_def append_tree_def new_tree_def Let_def)

lemma base_loop_ok:
  assumes "rope_ok r" "rope_text r = t" "t \<noteq> []" "text_len t < 2 ^ 32"
  shows "base_loop (Suc (rope_len r)) r base_timestamp \<lparr>ba_text_offset = 0, ba_insertion_offset = 0, ba_prev_locator = Locator_min,
       ba_fragments = new_tree fragment_ops, ba_insertions = new_tree insertion_ops\<rparr> =
    Some \<lparr>ba_text_offset = text_len t, ba_insertion_offset = word_of_nat (text_len t), ba_prev_locator = between Locator_min Locator_max,
       ba_fragments = Leaf (item_summary fragment_ops (base_fragment t)) [base_fragment t] [item_summary fragment_ops (base_fragment t)],
       ba_insertions = Leaf (item_summary insertion_ops (InsertionFragment_new (base_fragment t))) [InsertionFragment_new (base_fragment t)]
         [item_summary insertion_ops (InsertionFragment_new (base_fragment t))]\<rparr>"
proof -
  have len: "rope_len r = text_len t" using rope_len_eq [OF assms(1)] assms(2) by simp
  have "0 < text_len t" using assms(3) by simp
  then obtain n where n: "text_len t = Suc n" by (cases "text_len t") auto
  have "min (text_len t) MAX_INSERTION_LEN = text_len t" using assms(4) by (simp add: MAX_INSERTION_LEN_def)
  then show ?thesis using len n
    by (simp add: base_step_def base_chunk_end_def usize_sub_def push_empty Let_def base_fragment_def)
qed

definition new_snapshot :: "ReplicaId \<Rightarrow> 64 word \<Rightarrow> LineEnding \<Rightarrow> Rope \<Rightarrow> BufferSnapshot" where
  "new_snapshot replica remote line_ending r =
     (let fs = map fst (base_pieces (rope_text r)) in
      \<lparr>bs_visible_text = r, bs_deleted_text = Rope_new,
       bs_fragments = Leaf (items_summary fragment_ops fs) fs (map (item_summary fragment_ops) fs),
       bs_insertions = Leaf (items_summary insertion_ops (map InsertionFragment_new fs)) (map InsertionFragment_new fs)
         (map (item_summary insertion_ops \<circ> InsertionFragment_new) fs),
       bs_insertion_slices = tm_new, bs_undo_map = UndoMap_default,
       bs_version = (if fs = [] then Global_new else Global_observe Global_new base_timestamp),
       bs_remote_id = remote, bs_replica_id = replica, bs_line_ending = line_ending\<rparr>)"

lemma Buffer_new_normalized_is:
  assumes "rope_ok r" "text_len (rope_text r) < 2 ^ 32"
  shows "Buffer_new_normalized replica remote line_ending r = Some
    \<lparr>b_snapshot = new_snapshot replica remote line_ending r, b_history = History_new r,
     b_lamport_clock = (if rope_text r = [] then Lamport_new replica else Lamport_observe (Lamport_new replica) base_timestamp),
     b_subscriptions = \<lparr>topic_patches = Map.empty, topic_subs = []\<rparr>\<rparr>"
proof (cases "rope_text r = []")
  case True
  then have "rope_is_empty r" using rope_len_eq [OF assms(1)] by (simp add: rope_is_empty_def)
  then show ?thesis using True
    by (simp add: Buffer_new_normalized_def new_snapshot_def base_pieces_def History_new_def new_tree_def items_summary_def sum_summaries_def Let_def)
next
  case False
  then have "\<not> rope_is_empty r" using rope_len_eq [OF assms(1)] by (simp add: rope_is_empty_def)
  then show ?thesis using False base_loop_ok [OF assms(1) refl False assms(2)]
    by (simp add: Buffer_new_normalized_def new_snapshot_def base_pieces_def History_new_def Let_def base_timestamp_def [symmetric]
        fragments.sum_single insertion_tree.sum_single items_summary_def)
qed

lemma new_snapshot_ok:
  assumes "rope_ok r" "text_len (rope_text r) < 2 ^ 32"
  shows "snapshot_ok (new_snapshot replica remote line_ending r) (base_pieces (rope_text r))"
proof -
  let ?ps = "base_pieces (rope_text r)" and ?s = "new_snapshot replica remote line_ending r"
  note base = base_pieces_ok(1-5) [OF assms(2)]
  have good: "\<forall>p \<in> set ?ps. frag_good (edit_undone UndoMap_default) {} (fst p)"
    by (rule base_pieces_ok(6) [OF assms(2)]) (rule not_undone, rule undo_default_ok)
  have small: "length ?ps \<le> 1" by (simp add: base_pieces_def)
  have "tree_pieces (bs_fragments ?s) ?ps" using small base(1)
    by (simp add: tree_pieces_def new_snapshot_def Let_def TREE_BASE_def items_summary_def)
  moreover have "wf_tree insertion_ops (bs_insertions ?s)" "keys_sorted insertion_key (flatten (bs_insertions ?s))"
    "key_map insertion_key (flatten (bs_insertions ?s)) = index_of (map fst ?ps)"
    using small by (simp_all add: new_snapshot_def Let_def TREE_BASE_def items_summary_def keys_sorted_def index_of_def base_pieces_def)
  moreover have "rope_text (bs_visible_text ?s) = vis ?ps" "rope_ok (bs_visible_text ?s)" "rope_ok (bs_deleted_text ?s)" "rope_text (bs_deleted_text ?s) = del ?ps"
    using assms(1) base(2,3) Rope_new_ok by (simp_all add: new_snapshot_def Let_def)
  ultimately have "fragments_ok ?s ?ps" using base(4,5) by (simp add: fragments_ok_def)
  moreover have "visibility_ok ?s ?ps" using good undo_default_ok(1)
    by (simp add: visibility_ok_def new_snapshot_def Let_def slice_set_def tm_new_ok)
  ultimately show ?thesis by (simp add: snapshot_ok_def)
qed

lemma Buffer_new_normalized_ok:
  assumes "rope_ok r" "text_len (rope_text r) < 2 ^ 32" "height (rope_chunks r) \<le> 6"
  obtains b where "Buffer_new_normalized replica remote line_ending r = Some b" "buffer_ok seen b (base_pieces (rope_text r))" "usable b"
    "vis (base_pieces (rope_text r)) = rope_text r" "b_history b = History_new r" "b_snapshot b = new_snapshot replica remote line_ending r"
    "b_lamport_clock b = (if rope_text r = [] then Lamport_new replica else Lamport_observe (Lamport_new replica) base_timestamp)"
proof -
  let ?s = "new_snapshot replica remote line_ending r"
  let ?c = "if rope_text r = [] then Lamport_new replica else Lamport_observe (Lamport_new replica) base_timestamp"
  let ?b = "\<lparr>b_snapshot = ?s, b_history = History_new r, b_lamport_clock = ?c, b_subscriptions = \<lparr>topic_patches = Map.empty, topic_subs = []\<rparr>\<rparr>"
  have "before_clock ?s ?c" by (simp add: before_clock_def new_snapshot_def Let_def slice_set_def tm_new_ok undo_default_ok)
  moreover have "base_timestamp \<le> ?c"
    by (auto simp: base_timestamp_def Lamport_new_def Lamport_observe_def LOCAL_def less_Lamport_iff linorder_not_less [symmetric])
  moreover have "edits_of (hist_entries (History_new r)) = []" by (simp add: hist_entries_def History_new_def)
  moreover have "entries_ok (bs_undo_map ?s) (History_new r)" by (simp add: entries_ok_def hist_entries_def History_new_def)
  ultimately have "buffer_ok seen ?b (base_pieces (rope_text r))"
    using new_snapshot_ok [OF assms(1,2)] hist_inv_new by (simp add: buffer_ok_def topic_inv_def History_new_def)
  moreover have "shallow ?s" using assms(3) by (simp add: shallow_def new_snapshot_def Let_def tm_new_ok undo_default_ok Rope_new_def new_tree_def)
  then have "usable ?b" by (auto simp: usable_def History_new_def tm_new_ok Lamport_new_def Lamport_observe_def base_timestamp_def)
  ultimately show thesis using that [of ?b] Buffer_new_normalized_is [OF assms(1,2)] base_pieces_ok(2) [OF assms(2)] by simp
qed

end
