(* ===== verification/Text_Buffer_Timeline.thy ===== *)
theory Text_Buffer_Timeline
  imports Text_Buffer_New
begin

text \<open>
  What a buffer promises about undoing: a line of texts, the earlier ones to go back to, the current
  one, and the later ones to go forward to.  A local edit adds a text to the line, a transaction that
  is grouped drops the texts in between, undoing and redoing move along the line.
\<close>

section \<open>Transactions\<close>

lemma start_transaction_ok:
  assumes "hist_inv h c" "unat (lamport_value c) + 3 < 2 ^ 32"
  obtains h' c' tid where "start_transaction h g now c = (h', c', tid)" "hist_inv h' c'" "c \<le> c'" "hi_transaction_depth h = 0 \<Longrightarrow> c < c'"
    "unat (lamport_value c') \<le> unat (lamport_value c) + 1" "hi_transaction_depth h' = hi_transaction_depth h + 1"
    "hi_operations h' = hi_operations h" "hi_redo_stack h' = hi_redo_stack h" "hi_group_interval h' = hi_group_interval h"
    "hi_undo_stack h' = hi_undo_stack h @ (if hi_transaction_depth h = 0 then [new_entry \<lparr>tr_id = c, tr_edit_ids = [], tr_start = g\<rparr> now] else [])"
proof -
  obtain h' c' tid where s: "start_transaction h g now c = (h', c', tid)" by (metis prod_cases3)
  have room: "lamport_value c \<noteq> - 1" using assms(2) by (auto simp: unsigned_minus_1_eq_mask mask_eq_exp_minus_1)
  from hist_step_ok [OF assms(1), of "Start g now"] room s have "hist_inv h' c'" "c \<le> c'" by auto
  moreover have "unat (lamport_value c + 1) = unat (lamport_value c) + 1" using assms(2) by (simp add: unat_word_ariths)
  moreover have "c < snd (tick c)" by (rule tick_less [OF room])
  ultimately show thesis using that [OF s] s by (auto simp: start_transaction_def Let_def tick_def split: if_splits)
qed

text \<open>Recording an edit in the last transaction.\<close>

lemma record_edit_ok:
  assumes h: "hist_inv h c" "0 < hi_transaction_depth h" "tm_usable (hi_operations h)" and op: "eo_timestamp op = t"
  obtains h1 h2 S L where "hist_push h (Op_Edit op) = Some h1" "push_undo h1 t = Some h2" "hist_inv h2 c"
    "hi_undo_stack h = S @ [L]" "hi_undo_stack h2 = S @ [add_edit_id t L]" "hi_transaction_depth h2 = hi_transaction_depth h"
    "hi_redo_stack h2 = hi_redo_stack h" "hi_group_interval h2 = hi_group_interval h"
proof -
  have inv: "tm_invar (hi_operations h)" "hi_undo_stack h \<noteq> []" using h by (simp_all add: hist_inv_def)
  obtain S L where S: "hi_undo_stack h = S @ [L]" using last_entry [OF inv(2)] by blast
  obtain m where m: "tm_insert (hi_operations h) t (Op_Edit op) = Some m" "tm_invar m" "tm_map m = (tm_map (hi_operations h))(t \<mapsto> Op_Edit op)"
    using tm_insert_ok [OF inv(1) h(3)] by blast
  let ?h1 = "h\<lparr>hi_operations := m\<rparr>"
  let ?h2 = "?h1\<lparr>hi_undo_stack := S @ [add_edit_id t L]\<rparr>"
  have push: "hist_push h (Op_Edit op) = Some ?h1" using m(1) op by (simp add: hist_push_def operation_timestamp_def)
  then have "hist_inv ?h1 c" using hist_step_ok [OF h(1), of "Push (Op_Edit op)"] h(3) by simp
  moreover have "push_undo ?h1 t = Some ?h2" using h(2) S m(2,3) by (simp add: push_undo_def tm_get_ok)
  ultimately have "hist_inv ?h2 c" using undo_writes_ok(2) [of ?h1 c t] h(2) by auto
  then show thesis using that push \<open>push_undo ?h1 t = Some ?h2\<close> S by simp
qed

text \<open>Ending a transaction that holds an edit.\<close>

definition ends_group :: "nat \<Rightarrow> HistoryEntry list \<Rightarrow> nat \<Rightarrow> bool" where
  "ends_group interval entries now \<longleftrightarrow> entries = [] \<or> he_suppress_grouping (last entries) \<or> interval \<le> now - he_last_edit_at (last entries)"

lemma end_transaction_ok:
  assumes h: "hist_inv (b_history b) c" "hi_transaction_depth (b_history b) = 1" "hi_undo_stack (b_history b) = S @ [L]" "edit_ids L \<noteq> []"
  obtains h' r xs e ys where "b_end_transaction_at b now = Some (b\<lparr>b_history := h'\<rparr>, Some r)" "hist_inv h' c" "hi_transaction_depth h' = 0"
    "hi_redo_stack h' = []" "hi_undo_stack h' = xs @ [merge_entries e ys]" "S @ [L\<lparr>he_last_edit_at := now\<rparr>] = xs @ e # ys"
    "hi_operations h' = hi_operations (b_history b)" "ends_group (hi_group_interval (b_history b)) S (he_first_edit_at L) \<Longrightarrow> ys = []"
proof -
  let ?h = "b_history b" and ?L = "L\<lparr>he_last_edit_at := now\<rparr>"
  define h1 where "h1 = ?h\<lparr>hi_transaction_depth := 0, hi_redo_stack := [], hi_undo_stack := S @ [?L]\<rparr>"
  have e1: "end_transaction ?h now = Some (h1, Some ?L)" using h(2-4) by (simp add: end_transaction_def Let_def h1_def)
  then have inv1: "hist_inv h1 c" using undo_writes_ok(1) [OF h(1), of now] h(2) by auto
  have h1: "hi_undo_stack h1 = S @ [?L]" "hi_group_interval h1 = hi_group_interval ?h" "hi_transaction_depth h1 = 0"
    "hi_redo_stack h1 = []" "hi_operations h1 = hi_operations ?h" by (simp_all add: h1_def)
  obtain xs e ys where g: "S @ [?L] = xs @ e # ys" "successively (grouped (hi_group_interval ?h)) (e # ys)"
    "hist_group h1 = Some (h1\<lparr>hi_undo_stack := xs @ [merge_entries e ys]\<rparr>, Some (transaction_id e))"
    using hist_group_split [of h1] unfolding h1 by blast
  have "hist_inv (h1\<lparr>hi_undo_stack := xs @ [merge_entries e ys]\<rparr>) c" using undo_writes_ok(4) [OF inv1] g(3) by auto
  moreover have "b_end_transaction_at b now = Some (b\<lparr>b_history := h1\<lparr>hi_undo_stack := xs @ [merge_entries e ys]\<rparr>\<rparr>,
      Some (transaction_id e, tr_start (he_transaction ?L)))" using e1 g(3) by (simp add: b_end_transaction_at_def)
  moreover have "ys = []" if "ends_group (hi_group_interval ?h) S (he_first_edit_at L)"
  proof (rule ccontr)
    assume "ys \<noteq> []"
    then obtain zs l where ys: "ys = zs @ [l]" using last_entry by blast
    then have l: "l = ?L" "S = xs @ e # zs" using g(1) by simp_all
    have "grouped (hi_group_interval ?h) (last (e # zs)) ?L"
      using g(2) unfolding ys l(1) append_Cons [symmetric] successively_append_iff by simp
    then show False using that l(2) by (simp add: ends_group_def grouped_def)
  qed
  ultimately show thesis using that g(1) h1 by simp
qed

lemma end_nested_ok:
  assumes "hist_inv (b_history b) c" "1 < hi_transaction_depth (b_history b)"
  shows "b_end_transaction_at b now = Some (b\<lparr>b_history := (b_history b)\<lparr>hi_transaction_depth := hi_transaction_depth (b_history b) - 1\<rparr>\<rparr>, None)"
    "hist_inv ((b_history b)\<lparr>hi_transaction_depth := hi_transaction_depth (b_history b) - 1\<rparr>) c"
proof -
  let ?h = "(b_history b)\<lparr>hi_transaction_depth := hi_transaction_depth (b_history b) - 1\<rparr>"
  have e: "end_transaction (b_history b) now = Some (?h, None)" using assms(2) by (simp add: end_transaction_def Let_def)
  then show "b_end_transaction_at b now = Some (b\<lparr>b_history := ?h\<rparr>, None)" by (simp add: b_end_transaction_at_def)
  show "hist_inv ?h c" using e undo_writes_ok(1) [OF assms(1), of now] assms(2) by auto
qed

section \<open>The texts before and after\<close>

text \<open>The texts that undoing the transactions from the last one on shows, and that redoing does.\<close>

fun past_texts :: "(Lamport \<Rightarrow> bool) \<Rightarrow> Piece list \<Rightarrow> HistoryEntry list \<Rightarrow> ustr list" where
  "past_texts undone ps [] = []"
| "past_texts undone ps (e # es) = shown_text (\<lambda>i. undone i \<or> i \<in> set (edits_of (e # es))) ps # past_texts undone ps es"

fun future_texts :: "(Lamport \<Rightarrow> bool) \<Rightarrow> Piece list \<Rightarrow> HistoryEntry list \<Rightarrow> ustr list" where
  "future_texts undone ps [] = []"
| "future_texts undone ps (e # es) = shown_text (\<lambda>i. undone i \<and> i \<notin> set (edits_of (e # es))) ps # future_texts undone ps es"

record Timeline =
  tl_past :: "ustr list"
  tl_current :: ustr
  tl_future :: "ustr list"

definition timeline :: "Buffer \<Rightarrow> Piece list \<Rightarrow> Timeline" where
  "timeline b ps = (let undone = edit_undone (bs_undo_map (b_snapshot b)) in
     \<lparr>tl_past = past_texts undone ps (hi_undo_stack (b_history b)), tl_current = vis ps,
      tl_future = future_texts undone ps (hi_redo_stack (b_history b))\<rparr>)"

lemma timeline_simps [simp]:
  "tl_past (timeline b ps) = past_texts (edit_undone (bs_undo_map (b_snapshot b))) ps (hi_undo_stack (b_history b))"
  "tl_current (timeline b ps) = vis ps"
  "tl_future (timeline b ps) = future_texts (edit_undone (bs_undo_map (b_snapshot b))) ps (hi_redo_stack (b_history b))"
  by (simp_all add: timeline_def Let_def)

lemma past_texts_length [simp]: "length (past_texts undone ps es) = length es"
  by (induction es) simp_all

text \<open>Only the edits of the entries matter, and how the pieces show them.\<close>

lemma past_texts_cong:
  "map edit_ids es = map edit_ids es' \<Longrightarrow> (\<And>v. shown_text v ps = shown_text v ps') \<Longrightarrow> past_texts undone ps es = past_texts undone ps' es'"
proof (induction es arbitrary: es')
  case (Cons e es)
  obtain e' rest where es': "es' = e' # rest" using Cons.prems(1) by (cases es') simp_all
  then have "edits_of es = edits_of rest" "edit_ids e = edit_ids e'" "map edit_ids es = map edit_ids rest"
    using Cons.prems(1) by (simp_all add: edits_of_def)
  then show ?case using Cons.IH [of rest] Cons.prems(2) es' by simp
qed simp

lemma past_texts_merge: "past_texts undone ps (xs @ [merge_entries e ys]) = take (Suc (length xs)) (past_texts undone ps (xs @ e # ys))"
  by (induction xs) (simp_all add: edits_merge_entries edits_of_def)

text \<open>A new edit in the last entry.\<close>

lemma past_texts_edit:
  assumes "\<And>v. v t \<Longrightarrow> shown_text v N = shown_text v ps" "\<And>v. shown_text (v(t := True)) ps = shown_text v ps"
  shows "past_texts undone N (S @ [add_edit_id t L]) = past_texts undone ps (S @ [L])"
proof -
  have "shown_text (\<lambda>i. undone i \<or> i \<in> set (edits_of es) \<or> i \<in> set (edit_ids (add_edit_id t L))) N =
      shown_text (\<lambda>i. undone i \<or> i \<in> set (edits_of es) \<or> i \<in> set (edit_ids L)) ps" for es
  proof -
    let ?v = "\<lambda>i. undone i \<or> i \<in> set (edits_of es) \<or> i \<in> set (edit_ids L)"
    have "(\<lambda>i. undone i \<or> i \<in> set (edits_of es) \<or> i \<in> set (edit_ids (add_edit_id t L))) = ?v(t := True)"
      by (auto simp: add_edit_id_def fun_eq_iff)
    then show ?thesis using assms(1) [of "?v(t := True)"] assms(2) [of ?v] by simp
  qed
  note same = this
  show ?thesis
  proof (induction S)
    case Nil
    then show ?case using same [of "[]"] by simp
  next
    case (Cons e S)
    then show ?case using same [of "e # S"] by (simp add: disj_assoc)
  qed
qed

lemma past_texts_undone:
  assumes "\<And>i. undone' i \<longleftrightarrow> undone i \<or> i \<in> set (edit_ids e)"
  shows "past_texts undone ps (es @ [e]) = past_texts undone' ps es @ [shown_text undone' ps]"
proof (induction es)
  case Nil
  have "(\<lambda>i. undone i \<or> i \<in> set (edit_ids e)) = undone'" using assms by (simp add: fun_eq_iff)
  then show ?case by simp
next
  case (Cons x es)
  have "(\<lambda>i. undone i \<or> i \<in> set (edits_of ((x # es) @ [e]))) = (\<lambda>i. undone' i \<or> i \<in> set (edits_of (x # es)))"
    using assms by (auto simp: fun_eq_iff)
  then show ?case using Cons.IH by simp
qed

lemma future_texts_redone:
  assumes "\<And>i. undone' i \<longleftrightarrow> undone i \<and> i \<notin> set (edit_ids e)"
  shows "future_texts undone ps (es @ [e]) = future_texts undone' ps es @ [shown_text undone' ps]"
proof (induction es)
  case Nil
  have "(\<lambda>i. undone i \<and> i \<notin> set (edit_ids e)) = undone'" using assms by (simp add: fun_eq_iff)
  then show ?case by simp
next
  case (Cons x es)
  have "(\<lambda>i. undone i \<and> i \<notin> set (edits_of ((x # es) @ [e]))) = (\<lambda>i. undone' i \<and> i \<notin> set (edits_of (x # es)))"
    using assms by (auto simp: fun_eq_iff)
  then show ?case using Cons.IH by simp
qed

section \<open>Moving along the line\<close>

text \<open>The specification of undo and redo.\<close>

definition tl_undo :: "Timeline \<Rightarrow> Timeline" where
  "tl_undo t = (if tl_past t = [] then t
     else \<lparr>tl_past = butlast (tl_past t), tl_current = last (tl_past t), tl_future = tl_future t @ [tl_current t]\<rparr>)"

definition tl_redo :: "Timeline \<Rightarrow> Timeline" where
  "tl_redo t = (if tl_future t = [] then t
     else \<lparr>tl_past = tl_past t @ [tl_current t], tl_current = last (tl_future t), tl_future = butlast (tl_future t)\<rparr>)"

definition line :: "(Lamport \<Rightarrow> bool) \<Rightarrow> Piece list \<Rightarrow> HistoryEntry list \<Rightarrow> HistoryEntry list \<Rightarrow> Timeline" where
  "line undone ps undos redos = \<lparr>tl_past = past_texts undone ps undos, tl_current = shown_text undone ps, tl_future = future_texts undone ps redos\<rparr>"

lemma timeline_line:
  "visibility_ok (b_snapshot b) ps \<Longrightarrow>
    timeline b ps = line (edit_undone (bs_undo_map (b_snapshot b))) ps (hi_undo_stack (b_history b)) (hi_redo_stack (b_history b))"
  using shown_text_now [of "b_snapshot b" ps] by (simp add: timeline_def line_def Let_def)

lemma future_texts_cong: "(\<And>v. shown_text v ps = shown_text v ps') \<Longrightarrow> future_texts undone ps es = future_texts undone ps' es"
  by (induction es) simp_all

lemma line_cong: "(\<And>v. shown_text v ps = shown_text v ps') \<Longrightarrow> line undone ps undos redos = line undone ps' undos redos"
  using past_texts_cong [OF refl, of ps ps' undone undos] future_texts_cong [of ps ps' undone redos] by (simp add: line_def)

lemma undo_line:
  assumes "\<forall>i \<in> set (edit_ids e). \<not> undone i"
  shows "tl_undo (line undone ps (S @ [e]) R) = line (\<lambda>i. undone i \<or> i \<in> set (edit_ids e)) ps S (R @ [e])"
proof -
  let ?v = "\<lambda>i. undone i \<or> i \<in> set (edit_ids e)"
  have "past_texts undone ps (S @ [e]) = past_texts ?v ps S @ [shown_text ?v ps]" by (rule past_texts_undone) simp
  moreover have "future_texts ?v ps (R @ [e]) = future_texts undone ps R @ [shown_text undone ps]"
    by (rule future_texts_redone) (use assms in auto)
  ultimately show ?thesis by (simp add: line_def tl_undo_def)
qed

lemma redo_line:
  assumes "\<forall>i \<in> set (edit_ids e). undone i"
  shows "tl_redo (line undone ps S (R @ [e])) = line (\<lambda>i. undone i \<and> i \<notin> set (edit_ids e)) ps (S @ [e]) R"
proof -
  let ?v = "\<lambda>i. undone i \<and> i \<notin> set (edit_ids e)"
  have "future_texts undone ps (R @ [e]) = future_texts ?v ps R @ [shown_text ?v ps]" by (rule future_texts_redone) simp
  moreover have "past_texts ?v ps (S @ [e]) = past_texts undone ps S @ [shown_text undone ps]"
    by (rule past_texts_undone) (use assms in auto)
  ultimately show ?thesis by (simp add: line_def tl_redo_def)
qed

text \<open>Several transactions at once.\<close>

lemma undo_line_all:
  assumes "distinct (edits_of es)" "\<forall>i \<in> set (edits_of es). \<not> undone i"
  shows "(tl_undo ^^ length es) (line undone ps (S @ es) R) = line (\<lambda>i. undone i \<or> i \<in> set (edits_of es)) ps S (R @ rev es)"
  using assms
proof (induction es arbitrary: undone R rule: rev_induct)
  case (snoc e es)
  let ?v = "\<lambda>i. undone i \<or> i \<in> set (edit_ids e)"
  have one: "tl_undo (line undone ps (S @ es @ [e]) R) = line ?v ps (S @ es) (R @ [e])"
    using undo_line [of e undone ps "S @ es" R] snoc.prems(2) by simp
  have step: "(tl_undo ^^ length (es @ [e])) t = (tl_undo ^^ length es) (tl_undo t)" for t by (simp add: funpow_swap1)
  have "(\<lambda>i. ?v i \<or> i \<in> set (edits_of es)) = (\<lambda>i. undone i \<or> i \<in> set (edits_of (es @ [e])))" by (auto simp: fun_eq_iff)
  then show ?case using snoc.IH [of ?v "R @ [e]"] snoc.prems unfolding step one by auto
qed (simp add: line_def)

lemma redo_line_all:
  assumes "distinct (edits_of es)" "\<forall>i \<in> set (edits_of es). undone i"
  shows "(tl_redo ^^ length es) (line undone ps S (R @ es)) = line (\<lambda>i. undone i \<and> i \<notin> set (edits_of es)) ps (S @ rev es) R"
  using assms
proof (induction es arbitrary: undone S rule: rev_induct)
  case (snoc e es)
  let ?v = "\<lambda>i. undone i \<and> i \<notin> set (edit_ids e)"
  have one: "tl_redo (line undone ps S (R @ es @ [e])) = line ?v ps (S @ [e]) (R @ es)"
    using redo_line [of e undone ps S "R @ es"] snoc.prems(2) by simp
  have step: "(tl_redo ^^ length (es @ [e])) t = (tl_redo ^^ length es) (tl_redo t)" for t by (simp add: funpow_swap1)
  have "(\<lambda>i. ?v i \<and> i \<notin> set (edits_of es)) = (\<lambda>i. undone i \<and> i \<notin> set (edits_of (es @ [e])))" by (auto simp: fun_eq_iff)
  then show ?case using snoc.IH [of ?v "S @ [e]"] snoc.prems unfolding step one by auto
qed (simp add: line_def)

end
