(* ===== verification/Text_Buffer_Ops.thy ===== *)
theory Text_Buffer_Ops
  imports Text_Buffer_Timeline
begin

text \<open>
  The operations of a buffer: transactions, local edits, undo and redo keep the invariant of the
  buffer and move along its timeline.
\<close>

section \<open>Transactions\<close>

lemma snapshot_version [simp]:
  "snapshot_ok (s\<lparr>bs_version := v\<rparr>) ps = snapshot_ok s ps" "before_clock (s\<lparr>bs_version := v\<rparr>) c = before_clock s c"
  by (simp_all add: snapshot_ok_def fragments_ok_def visibility_ok_def before_clock_def)

lemma hist_inv_mono: "hist_inv h c \<Longrightarrow> c \<le> c' \<Longrightarrow> hist_inv h c'"
  unfolding hist_inv_def by (meson less_le_trans)

text \<open>Starting a transaction.\<close>

lemma start_ok:
  assumes b: "buffer_ok seen b ps" "usable b"
  obtains b' tid where "b_start_transaction_at b now = (b', tid)" "buffer_ok seen b' ps" "b_snapshot b' = b_snapshot b"
    "hi_transaction_depth (b_history b') = hi_transaction_depth (b_history b) + 1" "hi_operations (b_history b') = hi_operations (b_history b)"
    "hi_redo_stack (b_history b') = hi_redo_stack (b_history b)" "hi_group_interval (b_history b') = hi_group_interval (b_history b)"
    "unat (lamport_value (b_lamport_clock b')) + 2 < 2 ^ 32"
    "hi_transaction_depth (b_history b) = 0 \<Longrightarrow> \<exists>L. hi_undo_stack (b_history b') = hi_undo_stack (b_history b) @ [L] \<and> edit_ids L = [] \<and> he_first_edit_at L = now"
    "0 < hi_transaction_depth (b_history b) \<Longrightarrow> hi_undo_stack (b_history b') = hi_undo_stack (b_history b)"
proof -
  let ?h = "b_history b" and ?c = "b_lamport_clock b"
  have inv: "hist_inv ?h ?c" and room: "unat (lamport_value ?c) + 3 < 2 ^ 32" using b by (simp_all add: buffer_ok_def usable_def)
  show thesis
  proof (rule start_transaction_ok [OF inv room, of "bs_version (b_snapshot b)" now])
    fix h' c' tid
    assume s: "start_transaction ?h (bs_version (b_snapshot b)) now ?c = (h', c', tid)" "hist_inv h' c'" "?c \<le> c'"
      "hi_transaction_depth ?h = 0 \<Longrightarrow> ?c < c'" "unat (lamport_value c') \<le> unat (lamport_value ?c) + 1"
      "hi_transaction_depth h' = hi_transaction_depth ?h + 1"
      "hi_operations h' = hi_operations ?h" "hi_redo_stack h' = hi_redo_stack ?h" "hi_group_interval h' = hi_group_interval ?h"
      "hi_undo_stack h' = hi_undo_stack ?h @ (if hi_transaction_depth ?h = 0 then [new_entry \<lparr>tr_id = ?c, tr_edit_ids = [], tr_start = bs_version (b_snapshot b)\<rparr> now] else [])"
    let ?b = "b\<lparr>b_history := h', b_lamport_clock := c'\<rparr>"
    have edits: "edits_of (hi_undo_stack h') = edits_of (hi_undo_stack ?h)" "edits_of (hist_entries h') = edits_of (hist_entries ?h)"
      using s(8,10) by (simp_all add: new_entry_def hist_entries_def)
    have base: "base_timestamp < c'"
    proof (cases "hi_transaction_depth ?h = 0")
      case True
      have "base_timestamp \<le> ?c" using b(1) by (simp add: buffer_ok_def)
      then show ?thesis using s(4) [OF True] by (rule le_less_trans)
    next
      case False
      then show ?thesis using b(1) less_le_trans [OF _ s(3)] by (simp add: buffer_ok_def)
    qed
    have "before_clock (b_snapshot b) c'" using b(1) before_clock_mono [OF _ s(3)] by (simp add: buffer_ok_def)
    moreover have "\<forall>e \<in> set (edits_of (hist_entries ?h)). base_timestamp < e \<and> e < c'" using b(1) less_le_trans [OF _ s(3)] by (simp add: buffer_ok_def)
    moreover have "entries_ok (bs_undo_map (b_snapshot b)) h'" using b(1) edits s(8) by (simp add: buffer_ok_def entries_ok_def)
    ultimately have "buffer_ok seen ?b ps" using b(1) s(2) edits base by (simp add: buffer_ok_def)
    moreover have "b_start_transaction_at b now = (?b, tid)" using s(1) by (simp add: b_start_transaction_at_def)
    ultimately show thesis using that [of ?b tid] s(5-10) room by (simp add: new_entry_def)
  qed
qed

text \<open>Ending one.\<close>

lemma end_ok:
  assumes b: "buffer_ok seen b ps" "0 < hi_transaction_depth (b_history b)" and L: "hi_undo_stack (b_history b) = S @ [L]" "edit_ids L \<noteq> []"
  obtains b' r where "b_end_transaction_at b now = Some (b', r)" "buffer_ok seen b' ps" "b_snapshot b' = b_snapshot b"
    "hi_transaction_depth (b_history b') = hi_transaction_depth (b_history b) - 1"
    "hi_transaction_depth (b_history b) = 1 \<Longrightarrow> \<exists>k. 0 < k \<and>
       timeline b' ps = \<lparr>tl_past = take k (tl_past (timeline b ps)), tl_current = vis ps, tl_future = []\<rparr> \<and>
       (ends_group (hi_group_interval (b_history b)) S (he_first_edit_at L) \<longrightarrow> k = Suc (length S) \<and>
         (\<exists>L'. hi_undo_stack (b_history b') = S @ [L'] \<and> edit_ids L' = edit_ids L))"
    "1 < hi_transaction_depth (b_history b) \<Longrightarrow> timeline b' ps = timeline b ps"
proof (cases "hi_transaction_depth (b_history b) = 1")
  case True
  have inv: "hist_inv (b_history b) (b_lamport_clock b)" using b(1) by (simp add: buffer_ok_def)
  show thesis
  proof (rule end_transaction_ok [OF inv True L])
    fix h' r xs e ys
    assume e: "b_end_transaction_at b now = Some (b\<lparr>b_history := h'\<rparr>, Some r)" "hist_inv h' (b_lamport_clock b)" "hi_transaction_depth h' = 0"
      "hi_redo_stack h' = []" "hi_undo_stack h' = xs @ [merge_entries e ys]" "S @ [L\<lparr>he_last_edit_at := now\<rparr>] = xs @ e # ys"
      "hi_operations h' = hi_operations (b_history b)" "ends_group (hi_group_interval (b_history b)) S (he_first_edit_at L) \<Longrightarrow> ys = []"
    let ?b = "b\<lparr>b_history := h'\<rparr>" and ?u = "edit_undone (bs_undo_map (b_snapshot b))"
    have ids: "map edit_ids (S @ [L]) = map edit_ids (xs @ e # ys)" unfolding e(6) [symmetric] by simp
    then have edits: "edits_of (hi_undo_stack h') = edits_of (hi_undo_stack (b_history b))"
      unfolding L(1) e(5) edits_of_def edits_merge_entries by simp (simp add: edits_merge_entries)
    have "buffer_ok seen ?b ps" using b(1) e(2-4) edits by (auto simp: buffer_ok_def entries_ok_def hist_entries_def)
    moreover have "timeline ?b ps = \<lparr>tl_past = take (Suc (length xs)) (tl_past (timeline b ps)), tl_current = vis ps, tl_future = []\<rparr>"
      using past_texts_merge [of ?u ps xs e ys] past_texts_cong [OF ids refl, of ?u ps] e(4,5) L(1) by (simp add: timeline_def Let_def)
    moreover have "length xs = length S \<and> (\<exists>L'. hi_undo_stack h' = S @ [L'] \<and> edit_ids L' = edit_ids L)"
      if "ends_group (hi_group_interval (b_history b)) S (he_first_edit_at L)"
    proof -
      have "xs = S" "e = L\<lparr>he_last_edit_at := now\<rparr>" using e(6) e(8) [OF that] by simp_all
      then show ?thesis using e(5) e(8) [OF that] by (simp add: edits_merge_entries)
    qed
    ultimately show thesis using that [OF e(1)] e(3) True by auto
  qed
next
  case False
  let ?h = "(b_history b)\<lparr>hi_transaction_depth := hi_transaction_depth (b_history b) - 1\<rparr>"
  have inv: "hist_inv (b_history b) (b_lamport_clock b)" and nested: "1 < hi_transaction_depth (b_history b)"
    using b False by (simp_all add: buffer_ok_def)
  note e = end_nested_ok [OF inv nested]
  have "buffer_ok seen (b\<lparr>b_history := ?h\<rparr>) ps" using b e(2) by (simp add: buffer_ok_def entries_ok_def hist_entries_def)
  moreover have "timeline (b\<lparr>b_history := ?h\<rparr>) ps = timeline b ps" by (simp add: timeline_def)
  ultimately show thesis using that [OF e(1)] False by simp
qed

section \<open>Local edits\<close>

text \<open>What \<open>edit\<close> does within its transaction.\<close>

definition edit_body :: "(BufferSnapshot \<Rightarrow> 'o \<Rightarrow> nat option) \<Rightarrow> (ustr \<Rightarrow> ustr) \<Rightarrow> Buffer \<Rightarrow> (('o \<times> 'o) \<times> ustr) list \<Rightarrow> (Buffer \<times> EditOperation) option" where
  "edit_body to_offset replace_line_separators b edits = do {
     let (timestamp, b) = b_tick b;
     (b, edit_op) \<leftarrow> apply_local_edit to_offset replace_line_separators b edits timestamp;
     h \<leftarrow> hist_push (b_history b) (Op_Edit edit_op);
     h \<leftarrow> push_undo h (eo_timestamp edit_op);
     Some (observe_version (eo_timestamp edit_op) (b\<lparr>b_history := h\<rparr>), edit_op) }"

lemma buffer_edit_body:
  "buffer_edit to_offset replace_line_separators started ended b edits = do {
     let (b, _) = b_start_transaction_at b started;
     (b, edit_op) \<leftarrow> edit_body to_offset replace_line_separators b edits;
     (b, _) \<leftarrow> b_end_transaction_at b ended;
     Some (b, Op_Edit edit_op) }"
  by (simp add: buffer_edit_def edit_body_def Let_def split_def)

text \<open>An edit that no fragment knows does not matter.\<close>

lemma shown_text_fresh:
  assumes "visibility_ok s ps" "later_than s t" shows "shown_text (v(t := True)) ps = shown_text v ps"
proof -
  have "shown (v(t := True)) (fst p) = shown v (fst p)" if "p \<in> set ps" for p
    using later_piece [OF assms that] by (auto simp: shown_def)
  then have "filter (\<lambda>p. shown (v(t := True)) (fst p)) ps = filter (\<lambda>p. shown v (fst p)) ps" by (rule filter_cong [OF refl])
  then show ?thesis by (simp add: shown_text_def)
qed

lemma tick_room:
  assumes "unat (lamport_value c) + 2 < 2 ^ 32" shows "c < snd (tick c)" "fst (tick c) = c" "unat (lamport_value (snd (tick c))) = unat (lamport_value c) + 1"
proof -
  have "lamport_value c \<noteq> - 1" using assms by (auto simp: unsigned_minus_1_eq_mask mask_eq_exp_minus_1)
  then show "c < snd (tick c)" by (rule tick_less)
qed (use assms in \<open>simp_all add: tick_def unat_word_ariths\<close>)

lemma edit_body_ok:
  assumes b: "buffer_ok seen b ps" "0 < hi_transaction_depth (b_history b)" "unat (lamport_value (b_lamport_clock b)) + 2 < 2 ^ 32"
      "shallow (b_snapshot b)" "tm_usable (hi_operations (b_history b))"
    and edits: "to_offsets to_offset replace_line_separators (b_snapshot b) edits = Some es" "es \<noteq> []" "splice (vis ps) 0 es = Some t" "new_bytes es < 2 ^ 32"
  obtains b' op N S L where "edit_body to_offset replace_line_separators b edits = Some (b', op)" "buffer_ok seen b' N" "vis N = t"
    "hi_undo_stack (b_history b) = S @ [L]" "hi_undo_stack (b_history b') = S @ [add_edit_id (b_lamport_clock b) L]"
    "hi_transaction_depth (b_history b') = hi_transaction_depth (b_history b)" "hi_group_interval (b_history b') = hi_group_interval (b_history b)"
    "tl_past (timeline b' N) = tl_past (timeline b ps)" "eo_timestamp op = b_lamport_clock b" "eo_version op = bs_version (b_snapshot b)"
    "bs_version (b_snapshot b') = Global_observe (bs_version (b_snapshot b)) (b_lamport_clock b)"
    "filter (\<lambda>m. fst (snd m) \<noteq> b_lamport_clock b) (all_bytes N) = all_bytes ps"
proof -
  let ?c = "b_lamport_clock b" and ?c' = "snd (tick (b_lamport_clock b))"
  note tick = tick_room [OF b(3)]
  let ?b = "b\<lparr>b_lamport_clock := ?c'\<rparr>" and ?m = "bs_undo_map (b_snapshot b)"
  have s: "snapshot_ok (b_snapshot ?b) ps" "shallow (b_snapshot ?b)" "topic_inv seen (vis_bytes ps) (b_subscriptions ?b)" using b by (simp_all add: buffer_ok_def)
  have ok: "before_clock (b_snapshot b) ?c" "hist_inv (b_history b) ?c" "entries_ok ?m (b_history b)" "base_timestamp < ?c"
    "\<forall>e \<in> set (edits_of (hist_entries (b_history b))). base_timestamp < e \<and> e < ?c"
    using b(1,2) by (simp_all add: buffer_ok_def)
  have later: "later_than (b_snapshot ?b) ?c" using later_than_clock [OF ok(1) order_refl ok(4)] by simp
  obtain sc q where sc: "es = script_edits 0 sc" "vis ps = script_old sc q" "t = script_new sc q" "inserted_len sc = new_bytes es"
    by (rule splice_whole [OF edits(3)])
  have sc': "to_offsets to_offset replace_line_separators (b_snapshot ?b) edits = Some (script_edits 0 sc)" "sc \<noteq> []" "inserted_len sc < 2 ^ 32"
    using edits sc by auto
  show thesis
  proof (rule apply_local_edit_ok [OF s(1,2) later s(3) sc'(1) sc(2) sc'(2,3)])
    fix b1 op N slices
    assume e: "apply_local_edit to_offset replace_line_separators ?b edits ?c = Some (b1, op)" "snapshot_ok (b_snapshot b1) N" "vis N = script_new sc q"
      and recover: "\<And>v. v ?c \<Longrightarrow> shown_text v N = shown_text v ps"
      and kept: "filter (\<lambda>m. fst (snd m) \<noteq> ?c) (all_bytes N) = all_bytes ps"
      and f: "topic_inv seen (vis_bytes N) (b_subscriptions b1)" "eo_timestamp op = ?c" "eo_version op = bs_version (b_snapshot ?b)"
        "bs_undo_map (b_snapshot b1) = bs_undo_map (b_snapshot ?b)" "bs_version (b_snapshot b1) = bs_version (b_snapshot ?b)"
        "b_history b1 = b_history ?b" "b_lamport_clock b1 = b_lamport_clock ?b"
      and sl: "slice_set (bs_insertion_slices (b_snapshot b1)) = slice_set (bs_insertion_slices (b_snapshot ?b)) \<union> slices" "\<forall>i \<in> slices. is_edit_id i = ?c"
    have h: "hist_inv (b_history b1) ?c'" "0 < hi_transaction_depth (b_history b1)" "tm_usable (hi_operations (b_history b1))"
      using hist_inv_mono [OF ok(2) less_imp_le [OF tick(1)]] b(2,5) f(6) by simp_all
    show thesis
    proof (rule record_edit_ok [OF h f(2)])
      fix h1 h2 S L
      assume r: "hist_push (b_history b1) (Op_Edit op) = Some h1" "push_undo h1 ?c = Some h2" "hist_inv h2 ?c'"
        "hi_undo_stack (b_history b1) = S @ [L]" "hi_undo_stack h2 = S @ [add_edit_id ?c L]" "hi_transaction_depth h2 = hi_transaction_depth (b_history b1)"
        "hi_redo_stack h2 = hi_redo_stack (b_history b1)" "hi_group_interval h2 = hi_group_interval (b_history b1)"
      let ?b' = "observe_version ?c (b1\<lparr>b_history := h2\<rparr>)"
      have run: "edit_body to_offset replace_line_separators b edits = Some (?b', op)"
        using e(1) r(1,2) f(2) tick(2) by (simp add: edit_body_def b_tick_def case_prod_beta)
      have new: "edits_of (hi_undo_stack h2) = edits_of (hi_undo_stack (b_history b)) @ [?c]" using r(4,5) f(6) by (simp add: add_edit_id_def)
      have fresh: "?c \<notin> set (edits_of (hist_entries (b_history b)))" "\<not> edit_undone ?m ?c" using ok(5) later_not_undone [OF later] by auto
      have "entries_ok ?m h2" using ok(3) new fresh r(7) f(6) by (auto simp: entries_ok_def hist_entries_def)
      moreover have "before_clock (b_snapshot b1) ?c'"
        using before_clock_mono [OF ok(1) less_imp_le [OF tick(1)]] sl tick(1) f(4) by (auto simp: before_clock_def)
      moreover have "set (edits_of (hist_entries h2)) = insert ?c (set (edits_of (hist_entries (b_history b))))"
        using new r(7) f(6) by (auto simp: hist_entries_def)
      then have "\<forall>e \<in> set (edits_of (hist_entries h2)). base_timestamp < e \<and> e < ?c'"
        using ok(4,5) tick(1) less_trans [OF _ tick(1)] by simp
      ultimately have "buffer_ok seen ?b' N"
        using e(2) f r(3) ok(4) less_trans [OF ok(4) tick(1)] by (simp add: buffer_ok_def observe_version_def less_imp_le)
      moreover have "shown_text (v(?c := True)) ps = shown_text v ps" for v
        by (rule shown_text_fresh [OF _ later]) (use s(1) in \<open>simp add: snapshot_ok_def\<close>)
      from past_texts_edit [OF recover this] have "tl_past (timeline ?b' N) = tl_past (timeline b ps)"
        using r(4,5) f(4,6) by (simp add: timeline_def Let_def observe_version_def)
      ultimately show thesis using that [OF run] e(3) sc(3) r f kept by (simp add: observe_version_def)
    qed
  qed
qed

text \<open>The whole of \<open>edit\<close>.\<close>

lemma buffer_edit_ok:
  assumes b: "buffer_ok seen b ps" "usable b"
    and edits: "to_offsets to_offset replace_line_separators (b_snapshot b) edits = Some es" "es \<noteq> []" "splice (vis ps) 0 es = Some t" "new_bytes es < 2 ^ 32"
  obtains b' op N where "buffer_edit to_offset replace_line_separators started ended b edits = Some (b', Op_Edit op)" "buffer_ok seen b' N" "vis N = t"
    "filter (\<lambda>m. fst (snd m) \<noteq> eo_timestamp op) (all_bytes N) = all_bytes ps"
    "hi_transaction_depth (b_history b') = hi_transaction_depth (b_history b)"
    "hi_transaction_depth (b_history b) = 0 \<Longrightarrow> \<exists>k. 0 < k \<and>
       timeline b' N = \<lparr>tl_past = take k (tl_past (timeline b ps) @ [vis ps]), tl_current = t, tl_future = []\<rparr> \<and>
       (ends_group (hi_group_interval (b_history b)) (hi_undo_stack (b_history b)) started \<longrightarrow> k = Suc (length (hi_undo_stack (b_history b))) \<and>
         (\<exists>L'. hi_undo_stack (b_history b') = hi_undo_stack (b_history b) @ [L'] \<and> edit_ids L' = [eo_timestamp op]))"
    "0 < hi_transaction_depth (b_history b) \<Longrightarrow> tl_past (timeline b' N) = tl_past (timeline b ps)"
proof (rule start_ok [OF b, of started])
  fix b1 tid
  assume s: "b_start_transaction_at b started = (b1, tid)" "buffer_ok seen b1 ps" "b_snapshot b1 = b_snapshot b"
    "hi_transaction_depth (b_history b1) = hi_transaction_depth (b_history b) + 1" "hi_operations (b_history b1) = hi_operations (b_history b)"
    "hi_redo_stack (b_history b1) = hi_redo_stack (b_history b)" "hi_group_interval (b_history b1) = hi_group_interval (b_history b)"
    "unat (lamport_value (b_lamport_clock b1)) + 2 < 2 ^ 32"
    "hi_transaction_depth (b_history b) = 0 \<Longrightarrow> \<exists>L. hi_undo_stack (b_history b1) = hi_undo_stack (b_history b) @ [L] \<and> edit_ids L = [] \<and> he_first_edit_at L = started"
    "0 < hi_transaction_depth (b_history b) \<Longrightarrow> hi_undo_stack (b_history b1) = hi_undo_stack (b_history b)"
  have b1: "0 < hi_transaction_depth (b_history b1)" "shallow (b_snapshot b1)" "tm_usable (hi_operations (b_history b1))"
    "to_offsets to_offset replace_line_separators (b_snapshot b1) edits = Some es" using b s edits by (simp_all add: usable_def)
  show thesis
  proof (rule edit_body_ok [OF s(2) b1(1) s(8) b1(2-4) edits(2-4)])
    fix b2 op N S L
    assume e: "edit_body to_offset replace_line_separators b1 edits = Some (b2, op)" "buffer_ok seen b2 N" "vis N = t"
      "hi_undo_stack (b_history b1) = S @ [L]" "hi_undo_stack (b_history b2) = S @ [add_edit_id (b_lamport_clock b1) L]"
      "hi_transaction_depth (b_history b2) = hi_transaction_depth (b_history b1)" "hi_group_interval (b_history b2) = hi_group_interval (b_history b1)"
      "tl_past (timeline b2 N) = tl_past (timeline b1 ps)" "eo_timestamp op = b_lamport_clock b1" "eo_version op = bs_version (b_snapshot b1)"
      "bs_version (b_snapshot b2) = Global_observe (bs_version (b_snapshot b1)) (b_lamport_clock b1)"
      "filter (\<lambda>m. fst (snd m) \<noteq> b_lamport_clock b1) (all_bytes N) = all_bytes ps"
    have depth: "0 < hi_transaction_depth (b_history b2)" and ids: "edit_ids (add_edit_id (b_lamport_clock b1) L) \<noteq> []"
      using e(6) s(4) by (simp_all add: add_edit_id_def)
    show thesis
    proof (rule end_ok [OF e(2) depth e(5) ids, of ended])
      fix b3 r
      assume f: "b_end_transaction_at b2 ended = Some (b3, r)" "buffer_ok seen b3 N" "b_snapshot b3 = b_snapshot b2"
        "hi_transaction_depth (b_history b3) = hi_transaction_depth (b_history b2) - 1"
        "hi_transaction_depth (b_history b2) = 1 \<Longrightarrow> \<exists>k. 0 < k \<and>
           timeline b3 N = \<lparr>tl_past = take k (tl_past (timeline b2 N)), tl_current = vis N, tl_future = []\<rparr> \<and>
           (ends_group (hi_group_interval (b_history b2)) S (he_first_edit_at (add_edit_id (b_lamport_clock b1) L)) \<longrightarrow> k = Suc (length S) \<and>
             (\<exists>L'. hi_undo_stack (b_history b3) = S @ [L'] \<and> edit_ids L' = edit_ids (add_edit_id (b_lamport_clock b1) L)))"
        "1 < hi_transaction_depth (b_history b2) \<Longrightarrow> timeline b3 N = timeline b2 N"
      have run: "buffer_edit to_offset replace_line_separators started ended b edits = Some (b3, Op_Edit op)"
        using s(1) e(1) f(1) by (simp add: buffer_edit_body)
      show thesis
      proof (rule that [OF run f(2) e(3)])
        show "filter (\<lambda>m. fst (snd m) \<noteq> eo_timestamp op) (all_bytes N) = all_bytes ps" using e(9,12) by simp
      next
        show "hi_transaction_depth (b_history b3) = hi_transaction_depth (b_history b)" using f(4) e(6) s(4) by simp
        assume top: "hi_transaction_depth (b_history b) = 0"
        let ?u = "edit_undone (bs_undo_map (b_snapshot b))"
        have S: "S = hi_undo_stack (b_history b)" "edit_ids L = []" "he_first_edit_at L = started" using top s(9) e(4) by auto
        have "tl_past (timeline b1 ps) = tl_past (timeline b ps) @ [vis ps]"
          using past_texts_undone [of ?u ?u L ps "hi_undo_stack (b_history b)"] shown_text_now [of "b_snapshot b" ps] b(1) S(1,2) e(4) s(3)
          by (simp add: buffer_ok_def snapshot_ok_def)
        then show "\<exists>k. 0 < k \<and>
           timeline b3 N = \<lparr>tl_past = take k (tl_past (timeline b ps) @ [vis ps]), tl_current = t, tl_future = []\<rparr> \<and>
           (ends_group (hi_group_interval (b_history b)) (hi_undo_stack (b_history b)) started \<longrightarrow> k = Suc (length (hi_undo_stack (b_history b))) \<and>
             (\<exists>L'. hi_undo_stack (b_history b3) = hi_undo_stack (b_history b) @ [L'] \<and> edit_ids L' = [eo_timestamp op]))"
          using f(5) e(3,6-9) s(4,7) S top by (simp add: add_edit_id_def)
      next
        assume "0 < hi_transaction_depth (b_history b)"
        then show "tl_past (timeline b3 N) = tl_past (timeline b ps)" using f(6) e(6,8) s(3,4,10) by simp
      qed
    qed
  qed
qed

section \<open>Undo and redo\<close>

subsection \<open>The counts of an undo operation\<close>

definition undo_total :: "UndoMap \<Rightarrow> Lamport \<Rightarrow> 32 word" where
  "undo_total m e = largest_count (\<lambda>_. True) (undo_counts m e)"

lemma edit_undone_total: "edit_undone m e \<longleftrightarrow> odd (undo_total m e)"
  by (simp add: edit_undone_def undo_total_def odd_iff_mod_2_eq_one)

lemma undo_count_total: "undo_invar m \<Longrightarrow> undo_usable m \<Longrightarrow> undo_count m e = Some (undo_total m e)"
  using undo_count_from_ok [of m "\<lambda>_. True" e] by (simp add: undo_count_def undo_total_def)

text \<open>The operation that \<open>undo_or_redo\<close> makes.\<close>

definition undo_of :: "Buffer \<Rightarrow> Lamport list \<Rightarrow> UndoOperation" where
  "undo_of b es = \<lparr>uo_timestamp = b_lamport_clock b, uo_version = bs_version (b_snapshot b),
     uo_counts = map (\<lambda>e. (e, undo_total (bs_undo_map (b_snapshot b)) e + 1)) es\<rparr>"

lemma update_new: "k \<notin> fst ` set xs \<Longrightarrow> AList.update k v xs = xs @ [(k, v)]"
  by (induction xs) auto

lemma count_edits_ok:
  assumes "undo_invar m" "undo_usable m"
  shows "distinct (map fst acc @ es) \<Longrightarrow> count_edits m acc es = Some (acc @ map (\<lambda>e. (e, saturating_Suc (undo_total m e))) es)"
proof (induction es arbitrary: acc)
  case (Cons e es)
  then show ?case by (auto simp: undo_count_total [OF assms] update_new)
qed simp

lemma undo_total_bound:
  assumes "before_clock s c" shows "undo_total (bs_undo_map s) e \<le> lamport_value c"
proof -
  have "n \<le> lamport_value c" if "n \<in> insert 0 {n. \<exists>u. undo_counts (bs_undo_map s) e u = Some n}" for n
    using assms that by (auto simp: before_clock_def)
  moreover have "finite (insert 0 {n. \<exists>u. undo_counts (bs_undo_map s) e u = Some n})" by (rule finite)
  ultimately show ?thesis unfolding undo_total_def largest_count_def by simp
qed

lemma largest_new:
  assumes "f t = None" "largest_count (\<lambda>_. True) f < k"
  shows "largest_count (\<lambda>_. True) (f(t \<mapsto> k)) = k"
proof -
  have "{n. \<exists>u. (f(t \<mapsto> k)) u = Some n} = insert k {n. \<exists>u. f u = Some n}"
  proof (intro set_eqI iffI)
    fix n assume "n \<in> insert k {n. \<exists>u. f u = Some n}"
    then consider "n = k" | u where "f u = Some n" by auto
    then show "n \<in> {n. \<exists>u. (f(t \<mapsto> k)) u = Some n}"
    proof cases
      case 2
      then have "u \<noteq> t" using assms(1) by auto
      with 2 have "(f(t \<mapsto> k)) u = Some n" by simp
      then show ?thesis by blast
    qed (auto intro: exI [of _ t])
  qed (auto split: if_splits)
  moreover have "finite {n. \<exists>u. f u = Some n}" by (rule finite)
  ultimately show ?thesis using assms(2)
    by (simp add: largest_count_def insert_commute [of 0] Max_insert del: fun_upd_apply)
qed

text \<open>It switches the state of its edits and of no other edit, and the counts stay behind the clock.\<close>

lemma undo_of_ok:
  assumes s: "snapshot_ok (b_snapshot b) ps" "undo_usable (bs_undo_map (b_snapshot b))" "before_clock (b_snapshot b) (b_lamport_clock b)"
    and room: "unat (lamport_value (b_lamport_clock b)) + 2 < 2 ^ 32" and es: "distinct es"
  obtains m' where "undo_insert (bs_undo_map (b_snapshot b)) (undo_of b es) = Some m'"
    "\<And>i. edit_undone m' i \<longleftrightarrow> (if i \<in> set es then \<not> edit_undone (bs_undo_map (b_snapshot b)) i else edit_undone (bs_undo_map (b_snapshot b)) i)"
    "\<And>e u n. undo_counts m' e u = Some n \<Longrightarrow> undo_counts (bs_undo_map (b_snapshot b)) e u = Some n \<or>
       e \<in> set es \<and> u = b_lamport_clock b \<and> n \<le> lamport_value (snd (tick (b_lamport_clock b)))"
proof -
  let ?m = "bs_undo_map (b_snapshot b)" and ?t = "b_lamport_clock b"
  have inv: "undo_invar ?m" using s(1) by (simp add: snapshot_ok_def visibility_ok_def)
  have dist: "distinct (map fst (uo_counts (undo_of b es)))" using es by (simp add: undo_of_def comp_def)
  have look: "map_of (uo_counts (undo_of b es)) e = (if e \<in> set es then Some (undo_total ?m e + 1) else None)" for e
    by (simp add: undo_of_def map_of_map_restrict [of _ es, unfolded restrict_map_def] comp_def)
  obtain m' where m': "undo_insert ?m (undo_of b es) = Some m'" using undo_insert_ok [OF inv s(2) dist] by blast
  note after = undone_after [OF inv s(2) dist m']
  have step: "undo_total ?m e < undo_total ?m e + 1 \<and> undo_total ?m e + 1 \<le> lamport_value ?t + 1" for e
  proof -
    have "unat (undo_total ?m e) \<le> unat (lamport_value ?t)" using undo_total_bound [OF s(3), of e] by (simp add: word_le_nat_alt)
    then show ?thesis using room by (simp add: word_less_nat_alt word_le_nat_alt unat_word_ariths)
  qed
  have none: "undo_counts ?m e ?t = None" for e
    using s(3) unfolding before_clock_def by (metis less_irrefl not_None_eq)
  have same: "undo_counts m' e u = (if u = ?t \<and> e \<in> set es then Some (undo_total ?m e + 1) else undo_counts ?m e u)" for e u
    using after(3) [of e u] look [of e] by (simp add: undo_of_def)
  have "undo_total m' e = undo_total ?m e + 1" if "e \<in> set es" for e
  proof -
    have "undo_counts m' e = (undo_counts ?m e)(?t \<mapsto> undo_total ?m e + 1)" using that by (simp add: fun_eq_iff same)
    then show ?thesis using largest_new [of "undo_counts ?m e" ?t, OF none] step [of e] by (simp add: undo_total_def)
  qed
  then have toggle: "edit_undone m' i \<longleftrightarrow> (if i \<in> set es then \<not> edit_undone ?m i else edit_undone ?m i)" for i
    using after(2) [of i] look [of i] by (simp add: edit_undone_total)
  have "undo_counts ?m e u = Some n \<or> e \<in> set es \<and> u = ?t \<and> n \<le> lamport_value (snd (tick ?t))" if "undo_counts m' e u = Some n" for e u n
    using that same [of e u] step [of e] by (auto simp: tick_def split: if_splits)
  then show thesis using that [OF m' toggle] by blast
qed

text \<open>The undo map still has room for the operation.\<close>

definition undo_fits :: "Buffer \<Rightarrow> Lamport list \<Rightarrow> bool" where
  "undo_fits b es \<longleftrightarrow> (\<forall>m'. undo_insert (bs_undo_map (b_snapshot b)) (undo_of b es) = Some m' \<longrightarrow> undo_usable m')"

subsection \<open>Applying it\<close>

lemma shown_text_undo_pieces: "shown_text v (map (undo_pieces undone t L) ps) = shown_text v ps"
proof -
  have "shown v (fst (undo_pieces undone t L p)) = shown v (fst p)" for p by (simp add: shown_def)
  then show ?thesis by (induction ps) simp_all
qed

lemma observe_sel [simp]:
  "b_snapshot (observe_version t b) = (b_snapshot b)\<lparr>bs_version := Global_observe (bs_version (b_snapshot b)) t\<rparr>"
  "b_history (observe_version t b) = b_history b" "b_lamport_clock (observe_version t b) = b_lamport_clock b"
  "b_subscriptions (observe_version t b) = b_subscriptions b"
  by (simp_all add: observe_version_def)

lemma shallow_version [simp]: "shallow (s\<lparr>bs_version := v\<rparr>) = shallow s"
  by (simp add: shallow_def)

lemma undo_or_redo_ok:
  assumes b: "snapshot_ok (b_snapshot b) ps" "usable b" "before_clock (b_snapshot b) (b_lamport_clock b)"
      "topic_inv seen (vis_bytes ps) (b_subscriptions b)" "hist_inv (b_history b) (b_lamport_clock b)"
    and es: "distinct (tr_edit_ids t)" "\<forall>e \<in> set (tr_edit_ids t). base_timestamp < e \<and> e < b_lamport_clock b" "undo_fits b (tr_edit_ids t)"
  obtains b' ps' where "undo_or_redo b t = Some (b', Op_Undo (undo_of b (tr_edit_ids t)))"
    "snapshot_ok (b_snapshot b') ps'" "before_clock (b_snapshot b') (b_lamport_clock b')" "topic_inv seen (vis_bytes ps') (b_subscriptions b')"
    "hist_inv (b_history b') (b_lamport_clock b')" "b_lamport_clock b < b_lamport_clock b'"
    "hi_undo_stack (b_history b') = hi_undo_stack (b_history b)" "hi_redo_stack (b_history b') = hi_redo_stack (b_history b)"
    "hi_transaction_depth (b_history b') = hi_transaction_depth (b_history b)"
    "\<And>i. edit_undone (bs_undo_map (b_snapshot b')) i \<longleftrightarrow>
       (if i \<in> set (tr_edit_ids t) then \<not> edit_undone (bs_undo_map (b_snapshot b)) i else edit_undone (bs_undo_map (b_snapshot b)) i)"
    "\<And>v. shown_text v ps' = shown_text v ps" "vis ps' = shown_text (edit_undone (bs_undo_map (b_snapshot b'))) ps" "all_bytes ps' = all_bytes ps"
proof -
  let ?es = "tr_edit_ids t" and ?c = "b_lamport_clock b" and ?c' = "snd (tick (b_lamport_clock b))"
  let ?undo = "undo_of b ?es"
  have room: "unat (lamport_value ?c) + 2 < 2 ^ 32" using b(2) by (simp add: usable_def)
  note tick = tick_room [OF room]
  have inv: "undo_invar (bs_undo_map (b_snapshot b))" "undo_usable (bs_undo_map (b_snapshot b))"
    using b(1,2) by (simp_all add: snapshot_ok_def visibility_ok_def usable_def shallow_def)
  obtain m' where m: "undo_insert (bs_undo_map (b_snapshot b)) ?undo = Some m'"
    and toggle: "\<And>i. edit_undone m' i \<longleftrightarrow> (if i \<in> set ?es then \<not> edit_undone (bs_undo_map (b_snapshot b)) i else edit_undone (bs_undo_map (b_snapshot b)) i)"
    and counts: "\<And>e u n. undo_counts m' e u = Some n \<Longrightarrow> undo_counts (bs_undo_map (b_snapshot b)) e u = Some n \<or>
       e \<in> set ?es \<and> u = ?c \<and> n \<le> lamport_value ?c'"
    using undo_of_ok [OF b(1) inv(2) b(3) room es(1)] by blast
  have fits: "undo_usable m'" using es(3) m by (simp add: undo_fits_def)
  let ?b = "observe_version ?c (b\<lparr>b_lamport_clock := ?c'\<rparr>)"
  have sat: "saturating_Suc (undo_total (bs_undo_map (b_snapshot b)) e) = undo_total (bs_undo_map (b_snapshot b)) e + 1" for e
    using undo_total_bound [OF b(3), of e] room
    by (auto simp: saturating_Suc_def word_le_nat_alt unsigned_minus_1_eq_mask mask_eq_exp_minus_1)
  have cnt: "count_edits (bs_undo_map (b_snapshot b)) [] ?es = Some (uo_counts ?undo)"
    using count_edits_ok [OF inv, of "[]" ?es] es(1) by (simp add: sat undo_of_def)
  have s: "snapshot_ok (b_snapshot ?b) ps" "shallow (b_snapshot ?b)" "topic_inv seen (vis_bytes ps) (b_subscriptions ?b)"
    "undo_insert (bs_undo_map (b_snapshot ?b)) ?undo = Some m'" using b m by (simp_all add: usable_def)
  have keys: "distinct (map fst (uo_counts ?undo))" "base_timestamp \<notin> fst ` set (uo_counts ?undo)"
    using es(1,2) by (auto simp: undo_of_def comp_def)
  show thesis
  proof (rule apply_undo_ok [OF s fits keys])
    fix b1 L
    let ?ps = "map (undo_pieces (edit_undone m') (uo_timestamp ?undo) L) ps"
    assume u: "apply_undo ?b ?undo = Some b1" "snapshot_ok (b_snapshot b1) ?ps" "vis ?ps = shown_text (edit_undone m') ps"
      "topic_inv seen (vis_bytes ?ps) (b_subscriptions b1)" "bs_undo_map (b_snapshot b1) = m'"
      "bs_insertion_slices (b_snapshot b1) = bs_insertion_slices (b_snapshot ?b)" "bs_version (b_snapshot b1) = bs_version (b_snapshot ?b)"
      "b_history b1 = b_history ?b" "b_lamport_clock b1 = b_lamport_clock ?b"
    have h: "hist_inv (b_history b1) ?c'" "hist_allowed (Push (Op_Undo ?undo)) (b_history b1) ?c'"
      using hist_inv_mono [OF b(5) less_imp_le [OF tick(1)]] b(2) u(8) by (simp_all add: usable_def)
    obtain h2 where h2: "hist_push (b_history b1) (Op_Undo ?undo) = Some h2" "hist_inv h2 ?c'"
      using hist_step_ok [OF h] by auto
    have stacks: "hi_undo_stack h2 = hi_undo_stack (b_history b)" "hi_redo_stack h2 = hi_redo_stack (b_history b)"
      "hi_transaction_depth h2 = hi_transaction_depth (b_history b)"
      using h2(1) u(8) by (auto simp: hist_push_def split: Option.bind_splits)
    let ?b' = "b1\<lparr>b_history := h2\<rparr>"
    have "undo_operations b (uo_counts ?undo) = Some (b1, Op_Undo ?undo)"
      using u(1) tick(2) by (simp add: undo_operations_def b_tick_def case_prod_beta Let_def undo_of_def)
    then have run: "undo_or_redo b t = Some (?b', Op_Undo ?undo)" using cnt h2(1) by (simp add: undo_or_redo_def)
    have clock: "b_lamport_clock b1 = ?c'" using u(9) by simp
    have old: "before_clock (b_snapshot b) ?c'" using before_clock_mono [OF b(3) less_imp_le [OF tick(1)]] .
    have new: "e < ?c' \<and> w < ?c' \<and> n \<le> lamport_value ?c'" if "undo_counts m' e w = Some n" for e w n
      using counts [OF that] old es(2) tick(1) less_trans [OF _ tick(1)] by (auto simp: before_clock_def)
    have "before_clock (b_snapshot b1) ?c'" using old new u(5,6) by (simp add: before_clock_def)
    then show thesis
      using that [OF run, of ?ps] u(2-5) h2(2) stacks tick(1) clock toggle by (simp add: shown_text_undo_pieces)
  qed
qed

end
