(* ===== verification/Text_Buffer_Moves.thy ===== *)
theory Text_Buffer_Moves
  imports Text_Buffer_Ops
begin

text \<open>
  Undo and redo as a whole: the history moves transactions between its stacks, and the operations that
  the buffer makes for them switch the state of exactly their edits.
\<close>

section \<open>Moved transactions\<close>

text \<open>The invariant while the state of the edits does not match the stacks yet.\<close>

definition pending_ok :: "(nat \<Rightarrow> Byte list) \<Rightarrow> Buffer \<Rightarrow> Piece list \<Rightarrow> bool" where
  "pending_ok seen b ps \<longleftrightarrow>
     snapshot_ok (b_snapshot b) ps \<and> before_clock (b_snapshot b) (b_lamport_clock b) \<and>
     topic_inv seen (vis_bytes ps) (b_subscriptions b) \<and> hist_inv (b_history b) (b_lamport_clock b) \<and>
     base_timestamp \<le> b_lamport_clock b \<and>
     (0 < hi_transaction_depth (b_history b) \<longrightarrow> base_timestamp < b_lamport_clock b) \<and>
     (\<forall>e \<in> set (edits_of (hist_entries (b_history b))). base_timestamp < e \<and> e < b_lamport_clock b)"

lemma buffer_ok_pending: "buffer_ok seen b ps \<longleftrightarrow> pending_ok seen b ps \<and> entries_ok (bs_undo_map (b_snapshot b)) (b_history b)"
  by (auto simp: buffer_ok_def pending_ok_def)

text \<open>Every tree stays low enough on the way.\<close>

fun all_fit :: "Buffer \<Rightarrow> HistoryEntry list \<Rightarrow> bool" where
  "all_fit b [] \<longleftrightarrow> True"
| "all_fit b (e # es) \<longleftrightarrow> usable b \<and> undo_fits b (edit_ids e) \<and>
     (case undo_or_redo b (he_transaction e) of None \<Rightarrow> True | Some (b', _) \<Rightarrow> all_fit b' es)"

definition toggles :: "Lamport list \<Rightarrow> (Lamport \<Rightarrow> bool) \<Rightarrow> (Lamport \<Rightarrow> bool) \<Rightarrow> bool" where
  "toggles es u v \<longleftrightarrow> (\<forall>i. v i \<longleftrightarrow> (if i \<in> set es then \<not> u i else u i))"

lemma toggles_append: "toggles xs u v \<Longrightarrow> toggles ys v w \<Longrightarrow> distinct (xs @ ys) \<Longrightarrow> toggles (xs @ ys) u w"
  by (auto simp: toggles_def)

definition same_stacks :: "History \<Rightarrow> History \<Rightarrow> bool" where
  "same_stacks h h' \<longleftrightarrow> hi_undo_stack h' = hi_undo_stack h \<and> hi_redo_stack h' = hi_redo_stack h \<and>
     hi_transaction_depth h' = hi_transaction_depth h"

lemma toggle_ok:
  assumes b: "pending_ok seen b ps" "usable b" "undo_fits b (edit_ids e)"
    and e: "distinct (edit_ids e)" "set (edit_ids e) \<subseteq> set (edits_of (hist_entries (b_history b)))"
  obtains b' ps' where "undo_or_redo b (he_transaction e) = Some (b', Op_Undo (undo_of b (edit_ids e)))" "pending_ok seen b' ps'"
    "same_stacks (b_history b) (b_history b')" "\<And>v. shown_text v ps' = shown_text v ps" "all_bytes ps' = all_bytes ps"
    "toggles (edit_ids e) (edit_undone (bs_undo_map (b_snapshot b))) (edit_undone (bs_undo_map (b_snapshot b')))"
proof -
  have s: "snapshot_ok (b_snapshot b) ps" "before_clock (b_snapshot b) (b_lamport_clock b)"
    "topic_inv seen (vis_bytes ps) (b_subscriptions b)" "hist_inv (b_history b) (b_lamport_clock b)" using b(1) by (simp_all add: pending_ok_def)
  have edits: "\<forall>i \<in> set (edits_of (hist_entries (b_history b))). base_timestamp < i \<and> i < b_lamport_clock b" using b(1) by (simp add: pending_ok_def)
  then have es: "\<forall>i \<in> set (edit_ids e). base_timestamp < i \<and> i < b_lamport_clock b" using e(2) by blast
  show thesis
  proof (rule undo_or_redo_ok [OF s(1) b(2) s(2-4) e(1) es b(3)])
    fix b' ps'
    assume u: "undo_or_redo b (he_transaction e) = Some (b', Op_Undo (undo_of b (edit_ids e)))"
      "snapshot_ok (b_snapshot b') ps'" "before_clock (b_snapshot b') (b_lamport_clock b')" "topic_inv seen (vis_bytes ps') (b_subscriptions b')"
      "hist_inv (b_history b') (b_lamport_clock b')" "b_lamport_clock b < b_lamport_clock b'"
      "hi_undo_stack (b_history b') = hi_undo_stack (b_history b)" "hi_redo_stack (b_history b') = hi_redo_stack (b_history b)"
      "hi_transaction_depth (b_history b') = hi_transaction_depth (b_history b)"
      and toggle: "\<And>i. edit_undone (bs_undo_map (b_snapshot b')) i \<longleftrightarrow>
       (if i \<in> set (edit_ids e) then \<not> edit_undone (bs_undo_map (b_snapshot b)) i else edit_undone (bs_undo_map (b_snapshot b)) i)"
      and shown: "\<And>v. shown_text v ps' = shown_text v ps" and kept: "all_bytes ps' = all_bytes ps"
    have "base_timestamp < b_lamport_clock b'" using b(1) u(6) by (auto simp: pending_ok_def intro: le_less_trans)
    moreover have "hist_entries (b_history b') = hist_entries (b_history b)" using u(7,8) by (simp add: hist_entries_def)
    ultimately have "pending_ok seen b' ps'" using u(2-5) edits less_trans [OF _ u(6)] by (simp add: pending_ok_def less_imp_le)
    moreover have "same_stacks (b_history b) (b_history b')" using u(7-9) by (simp add: same_stacks_def)
    moreover have "toggles (edit_ids e) (edit_undone (bs_undo_map (b_snapshot b))) (edit_undone (bs_undo_map (b_snapshot b')))"
      unfolding toggles_def using toggle by blast
    ultimately show thesis using that u(1) shown kept by blast
  qed
qed

lemma undo_or_redo_all_ok:
  assumes "pending_ok seen b ps" "all_fit b es" "distinct (edits_of es)" "set (edits_of es) \<subseteq> set (edits_of (hist_entries (b_history b)))"
  shows "\<exists>b' ps' ops. undo_or_redo_all b es = Some (b', ops) \<and> length ops = length es \<and> pending_ok seen b' ps' \<and>
    same_stacks (b_history b) (b_history b') \<and> (\<forall>v. shown_text v ps' = shown_text v ps) \<and> all_bytes ps' = all_bytes ps \<and>
    toggles (edits_of es) (edit_undone (bs_undo_map (b_snapshot b))) (edit_undone (bs_undo_map (b_snapshot b')))"
  using assms
proof (induction es arbitrary: b ps)
  case Nil
  then show ?case by (auto simp: same_stacks_def toggles_def)
next
  case (Cons e es)
  have e: "usable b" "undo_fits b (edit_ids e)" "distinct (edit_ids e)" "set (edit_ids e) \<subseteq> set (edits_of (hist_entries (b_history b)))"
    using Cons.prems by simp_all
  show ?case
  proof (rule toggle_ok [OF Cons.prems(1) e])
    fix b1 ps1
    assume t: "undo_or_redo b (he_transaction e) = Some (b1, Op_Undo (undo_of b (edit_ids e)))" "pending_ok seen b1 ps1"
      "same_stacks (b_history b) (b_history b1)" and shown: "\<And>v. shown_text v ps1 = shown_text v ps" "all_bytes ps1 = all_bytes ps"
      and toggle: "toggles (edit_ids e) (edit_undone (bs_undo_map (b_snapshot b))) (edit_undone (bs_undo_map (b_snapshot b1)))"
    have es: "all_fit b1 es" "distinct (edits_of es)" "set (edits_of es) \<subseteq> set (edits_of (hist_entries (b_history b1)))"
      using Cons.prems t(1,3) by (simp_all add: same_stacks_def hist_entries_def)
    obtain b2 ps2 ops where ih: "undo_or_redo_all b1 es = Some (b2, ops)" "length ops = length es" "pending_ok seen b2 ps2"
      "same_stacks (b_history b1) (b_history b2)" "\<forall>v. shown_text v ps2 = shown_text v ps1"
      "toggles (edits_of es) (edit_undone (bs_undo_map (b_snapshot b1))) (edit_undone (bs_undo_map (b_snapshot b2)))" "all_bytes ps2 = all_bytes ps1"
      using Cons.IH [OF t(2) es] by blast
    have "toggles (edits_of (e # es)) (edit_undone (bs_undo_map (b_snapshot b))) (edit_undone (bs_undo_map (b_snapshot b2)))"
      using toggles_append [OF toggle ih(6)] Cons.prems(3) by simp
    moreover have "same_stacks (b_history b) (b_history b2)" using t(3) ih(4) by (simp add: same_stacks_def)
    ultimately show ?thesis using t(1) ih shown by (intro exI [of _ b2] exI [of _ ps2] exI [of _ "_ # ops"]) simp
  qed
qed

text \<open>The stacks and the state of the edits match again.\<close>

lemma entries_ok_undone:
  assumes "entries_ok m h" "mset (edits_of (hi_undo_stack h)) = mset (edits_of (hi_undo_stack h')) + mset es"
    "mset (edits_of (hi_redo_stack h')) = mset (edits_of (hi_redo_stack h)) + mset es" "toggles es (edit_undone m) (edit_undone m')"
  shows "entries_ok m' h'"
proof -
  have sets: "set (edits_of (hi_undo_stack h)) = set (edits_of (hi_undo_stack h')) \<union> set es"
    "set (edits_of (hi_redo_stack h')) = set (edits_of (hi_redo_stack h)) \<union> set es"
    using arg_cong [OF assms(2), of set_mset] arg_cong [OF assms(3), of set_mset] by simp_all
  have "mset (edits_of (hist_entries h')) = mset (edits_of (hist_entries h))" using assms(2,3) by (simp add: hist_entries_def)
  then have "distinct (edits_of (hist_entries h'))" using assms(1) mset_eq_imp_distinct_iff by (auto simp: entries_ok_def)
  then show ?thesis using assms(1,4) sets by (auto simp: entries_ok_def toggles_def hist_entries_def)
qed

lemma entries_ok_redone:
  assumes "entries_ok m h" "mset (edits_of (hi_redo_stack h)) = mset (edits_of (hi_redo_stack h')) + mset es"
    "mset (edits_of (hi_undo_stack h')) = mset (edits_of (hi_undo_stack h)) + mset es" "toggles es (edit_undone m) (edit_undone m')"
  shows "entries_ok m' h'"
proof -
  have sets: "set (edits_of (hi_redo_stack h)) = set (edits_of (hi_redo_stack h')) \<union> set es"
    "set (edits_of (hi_undo_stack h')) = set (edits_of (hi_undo_stack h)) \<union> set es"
    using arg_cong [OF assms(2), of set_mset] arg_cong [OF assms(3), of set_mset] by simp_all
  have "mset (edits_of (hist_entries h')) = mset (edits_of (hist_entries h))" using assms(2,3) by (simp add: hist_entries_def)
  then have "distinct (edits_of (hist_entries h'))" using assms(1) mset_eq_imp_distinct_iff by (auto simp: entries_ok_def)
  then show ?thesis using assms(1,4) sets by (auto simp: entries_ok_def toggles_def hist_entries_def)
qed

lemma pending_moved:
  assumes "buffer_ok seen b ps" "hist_inv h' (b_lamport_clock b)" "hi_transaction_depth h' = 0"
    "mset (edits_of (hist_entries h')) = mset (edits_of (hist_entries (b_history b)))"
  shows "pending_ok seen (b\<lparr>b_history := h'\<rparr>) ps"
  using assms mset_eq_setD [OF assms(4)] by (simp add: buffer_ok_def pending_ok_def)

lemma distinct_edits:
  assumes "entries_ok m h" "mset (edits_of (hist_entries h)) = mset xs + mset es" shows "distinct es" "set es \<subseteq> set (edits_of (hist_entries h))"
proof -
  have "mset (edits_of (hist_entries h)) = mset (xs @ es)" using assms(2) by simp
  then have "distinct (xs @ es)" using assms(1) mset_eq_imp_distinct_iff unfolding entries_ok_def by blast
  then show "distinct es" by simp
  show "set es \<subseteq> set (edits_of (hist_entries h))" using arg_cong [OF assms(2), of set_mset] by simp
qed

section \<open>The operations\<close>

text \<open>All of them: the history has moved the transactions \<open>es\<close>, and the buffer switches their edits.\<close>

lemma moved_ok:
  assumes b: "buffer_ok seen b ps" and h: "hist_inv h' (b_lamport_clock b)" "hi_transaction_depth h' = 0"
    and fit: "all_fit (b\<lparr>b_history := h'\<rparr>) es"
    and moved: "mset (edits_of (hi_undo_stack (b_history b))) = mset (edits_of (hi_undo_stack h')) + mset (edits_of es) \<and>
        mset (edits_of (hi_redo_stack h')) = mset (edits_of (hi_redo_stack (b_history b))) + mset (edits_of es) \<or>
      mset (edits_of (hi_redo_stack (b_history b))) = mset (edits_of (hi_redo_stack h')) + mset (edits_of es) \<and>
        mset (edits_of (hi_undo_stack h')) = mset (edits_of (hi_undo_stack (b_history b))) + mset (edits_of es)"
  obtains b' ps' ops where "undo_or_redo_all (b\<lparr>b_history := h'\<rparr>) es = Some (b', ops)" "length ops = length es" "buffer_ok seen b' ps'"
    "same_stacks h' (b_history b')" "\<And>v. shown_text v ps' = shown_text v ps" "all_bytes ps' = all_bytes ps"
    "toggles (edits_of es) (edit_undone (bs_undo_map (b_snapshot b))) (edit_undone (bs_undo_map (b_snapshot b')))"
proof -
  let ?h = "b_history b" and ?b = "b\<lparr>b_history := h'\<rparr>"
  have entries: "entries_ok (bs_undo_map (b_snapshot b)) ?h" using b by (simp add: buffer_ok_def)
  have all: "mset (edits_of (hist_entries h')) = mset (edits_of (hist_entries ?h))" using moved by (auto simp: hist_entries_def)
  have "\<exists>xs. mset (edits_of (hist_entries ?h)) = mset xs + mset (edits_of es)"
    using moved
  proof
    assume "mset (edits_of (hi_undo_stack ?h)) = mset (edits_of (hi_undo_stack h')) + mset (edits_of es) \<and>
      mset (edits_of (hi_redo_stack h')) = mset (edits_of (hi_redo_stack ?h)) + mset (edits_of es)"
    then show ?thesis by (intro exI [of _ "edits_of (hi_undo_stack h') @ edits_of (hi_redo_stack ?h)"]) (simp add: hist_entries_def)
  next
    assume "mset (edits_of (hi_redo_stack ?h)) = mset (edits_of (hi_redo_stack h')) + mset (edits_of es) \<and>
      mset (edits_of (hi_undo_stack h')) = mset (edits_of (hi_undo_stack ?h)) + mset (edits_of es)"
    then show ?thesis by (intro exI [of _ "edits_of (hi_redo_stack h') @ edits_of (hi_undo_stack ?h)"]) (simp add: hist_entries_def)
  qed
  then obtain xs where "mset (edits_of (hist_entries ?h)) = mset xs + mset (edits_of es)" by blast
  note es = distinct_edits [OF entries this]
  have "set (edits_of es) \<subseteq> set (edits_of (hist_entries (b_history ?b)))" using es(2) mset_eq_setD [OF all] by simp
  from undo_or_redo_all_ok [OF pending_moved [OF b h all] fit es(1) this]
  obtain b' ps' ops where u: "undo_or_redo_all ?b es = Some (b', ops)" "length ops = length es" "pending_ok seen b' ps'"
    "same_stacks h' (b_history b')" "\<forall>v. shown_text v ps' = shown_text v ps"
    "toggles (edits_of es) (edit_undone (bs_undo_map (b_snapshot b))) (edit_undone (bs_undo_map (b_snapshot b')))" "all_bytes ps' = all_bytes ps"
    by auto
  have stacks: "hi_undo_stack (b_history b') = hi_undo_stack h'" "hi_redo_stack (b_history b') = hi_redo_stack h'"
    using u(4) by (simp_all add: same_stacks_def)
  have "entries_ok (bs_undo_map (b_snapshot b')) (b_history b')"
    using moved entries_ok_undone [OF entries _ _ u(6), of "b_history b'"] entries_ok_redone [OF entries _ _ u(6), of "b_history b'"]
    unfolding stacks by blast
  then have "buffer_ok seen b' ps'" using u(3) by (simp add: buffer_ok_pending)
  then show thesis using that u by blast
qed

lemma undo_entry_all: "undo_or_redo_all b [e] = Some (b', ops) \<Longrightarrow>
  \<exists>op. ops = [op] \<and> undo_or_redo_entry b (Some e) = Some (b', Some (transaction_id e, op))"
  by (auto simp: undo_or_redo_entry_def split: Option.bind_splits)

text \<open>The line of texts when the stacks have moved.\<close>

lemma buffer_line:
  "buffer_ok seen b ps \<Longrightarrow>
    timeline b ps = line (edit_undone (bs_undo_map (b_snapshot b))) ps (hi_undo_stack (b_history b)) (hi_redo_stack (b_history b))"
  using timeline_line by (simp add: buffer_ok_def snapshot_ok_def)

lemma moved_line:
  assumes b: "buffer_ok seen b ps" and b': "buffer_ok seen b' ps'" "same_stacks h' (b_history b')"
    and shown: "\<And>v. shown_text v ps' = shown_text v ps"
    and toggle: "toggles (edits_of es) (edit_undone (bs_undo_map (b_snapshot b))) (edit_undone (bs_undo_map (b_snapshot b')))"
  shows "hi_undo_stack (b_history b) = S @ es \<Longrightarrow> hi_undo_stack h' = S \<Longrightarrow> hi_redo_stack h' = hi_redo_stack (b_history b) @ rev es \<Longrightarrow>
      timeline b' ps' = (tl_undo ^^ length es) (timeline b ps)"
    and "hi_redo_stack (b_history b) = S @ es \<Longrightarrow> hi_redo_stack h' = S \<Longrightarrow> hi_undo_stack h' = hi_undo_stack (b_history b) @ rev es \<Longrightarrow>
      timeline b' ps' = (tl_redo ^^ length es) (timeline b ps)"
proof -
  let ?u = "edit_undone (bs_undo_map (b_snapshot b))" and ?v = "edit_undone (bs_undo_map (b_snapshot b'))"
  have entries: "entries_ok (bs_undo_map (b_snapshot b)) (b_history b)" using b by (simp add: buffer_ok_def)
  have line': "timeline b' ps' = line ?v ps (hi_undo_stack h') (hi_redo_stack h')"
    using buffer_line [OF b'(1)] line_cong [of ps' ps, OF shown] b'(2) by (simp add: same_stacks_def)
  show "timeline b' ps' = (tl_undo ^^ length es) (timeline b ps)"
    if "hi_undo_stack (b_history b) = S @ es" "hi_undo_stack h' = S" "hi_redo_stack h' = hi_redo_stack (b_history b) @ rev es"
  proof -
    have es: "distinct (edits_of es)" "\<forall>i \<in> set (edits_of es). \<not> ?u i" using entries that(1) by (simp_all add: entries_ok_def hist_entries_def)
    have "?v = (\<lambda>i. ?u i \<or> i \<in> set (edits_of es))" using toggle es(2) by (auto simp: toggles_def fun_eq_iff)
    then show ?thesis using undo_line_all [OF es] that unfolding line' buffer_line [OF b] by simp
  qed
  show "timeline b' ps' = (tl_redo ^^ length es) (timeline b ps)"
    if "hi_redo_stack (b_history b) = S @ es" "hi_redo_stack h' = S" "hi_undo_stack h' = hi_undo_stack (b_history b) @ rev es"
  proof -
    have es: "distinct (edits_of es)" "\<forall>i \<in> set (edits_of es). ?u i" using entries that(1) by (simp_all add: entries_ok_def hist_entries_def)
    have "?v = (\<lambda>i. ?u i \<and> i \<notin> set (edits_of es))" using toggle es(2) by (auto simp: toggles_def fun_eq_iff)
    then show ?thesis using redo_line_all [OF es] that unfolding line' buffer_line [OF b] by simp
  qed
qed

lemma mset_edits_rev [simp]: "mset (edits_of (rev es)) = mset (edits_of es)"
  by (induction es) simp_all

lemma toggles_rev: "toggles (edits_of (rev es)) u v = toggles (edits_of es) u v"
  using mset_eq_setD [OF mset_edits_rev, of es] by (simp add: toggles_def)

lemma usable_history [simp]: "hi_operations h' = hi_operations (b_history b) \<Longrightarrow> usable (b\<lparr>b_history := h'\<rparr>) = usable b"
  by (simp add: usable_def)

lemma undo_fits_history [simp]: "undo_fits (b\<lparr>b_history := h'\<rparr>) es = undo_fits b es"
  by (simp add: undo_fits_def undo_of_def)

lemma fit_one: "usable b \<Longrightarrow> undo_fits b (edit_ids e) \<Longrightarrow> hi_operations h' = hi_operations (b_history b) \<Longrightarrow> all_fit (b\<lparr>b_history := h'\<rparr>) [e]"
  by (simp split: option.split)

lemma buffer_undo_ok:
  assumes b: "buffer_ok seen b ps" "hi_transaction_depth (b_history b) = 0" "hi_undo_stack (b_history b) = S @ [e]"
    and fit: "usable b" "undo_fits b (edit_ids e)"
  obtains b' op ps' where "buffer_undo b = Some (b', Some (transaction_id e, op))" "buffer_ok seen b' ps'"
    "timeline b' ps' = tl_undo (timeline b ps)" "\<And>v. shown_text v ps' = shown_text v ps" "all_bytes ps' = all_bytes ps"
    "hi_undo_stack (b_history b') = S" "hi_redo_stack (b_history b') = hi_redo_stack (b_history b) @ [e]" "hi_transaction_depth (b_history b') = 0"
proof -
  let ?h = "b_history b"
  let ?h' = "?h\<lparr>hi_undo_stack := S, hi_redo_stack := hi_redo_stack ?h @ [e]\<rparr>"
  have pop: "pop_undo ?h = Some (?h', Some e)" using b(2,3) by (simp add: pop_undo_def)
  have "hist_inv ?h (b_lamport_clock b)" using b(1) by (simp add: buffer_ok_def)
  then have inv: "hist_inv ?h' (b_lamport_clock b)" using stack_moves_ok(1) [OF _ b(2)] pop by auto
  show thesis
  proof (rule moved_ok [OF b(1) inv _ fit_one [OF fit]])
    fix b' ps' ops
    assume u: "undo_or_redo_all (b\<lparr>b_history := ?h'\<rparr>) [e] = Some (b', ops)" "buffer_ok seen b' ps'" "same_stacks ?h' (b_history b')"
      and shown: "\<And>v. shown_text v ps' = shown_text v ps" and kept: "all_bytes ps' = all_bytes ps"
      and toggle: "toggles (edits_of [e]) (edit_undone (bs_undo_map (b_snapshot b))) (edit_undone (bs_undo_map (b_snapshot b')))"
    obtain op where "undo_or_redo_entry (b\<lparr>b_history := ?h'\<rparr>) (Some e) = Some (b', Some (transaction_id e, op))" using undo_entry_all [OF u(1)] by blast
    then have "buffer_undo b = Some (b', Some (transaction_id e, op))" using pop by (simp add: buffer_undo_def)
    moreover have "timeline b' ps' = tl_undo (timeline b ps)" using moved_line(1) [OF b(1) u(2,3) shown toggle, of S] b(3) by simp
    ultimately show thesis using that u(2,3) shown kept b(2) by (simp add: same_stacks_def)
  qed (use b in simp_all)
qed

lemma buffer_redo_ok:
  assumes b: "buffer_ok seen b ps" "hi_transaction_depth (b_history b) = 0" "hi_redo_stack (b_history b) = S @ [e]"
    and fit: "usable b" "undo_fits b (edit_ids e)"
  obtains b' op ps' where "buffer_redo b = Some (b', Some (transaction_id e, op))" "buffer_ok seen b' ps'"
    "timeline b' ps' = tl_redo (timeline b ps)" "\<And>v. shown_text v ps' = shown_text v ps" "all_bytes ps' = all_bytes ps"
    "hi_redo_stack (b_history b') = S" "hi_undo_stack (b_history b') = hi_undo_stack (b_history b) @ [e]" "hi_transaction_depth (b_history b') = 0"
proof -
  let ?h = "b_history b"
  let ?h' = "?h\<lparr>hi_redo_stack := S, hi_undo_stack := hi_undo_stack ?h @ [e]\<rparr>"
  have pop: "pop_redo ?h = Some (?h', Some e)" using b(2,3) by (simp add: pop_redo_def)
  have "hist_inv ?h (b_lamport_clock b)" using b(1) by (simp add: buffer_ok_def)
  then have inv: "hist_inv ?h' (b_lamport_clock b)" using stack_moves_ok(2) [OF _ b(2)] pop by auto
  show thesis
  proof (rule moved_ok [OF b(1) inv _ fit_one [OF fit]])
    fix b' ps' ops
    assume u: "undo_or_redo_all (b\<lparr>b_history := ?h'\<rparr>) [e] = Some (b', ops)" "buffer_ok seen b' ps'" "same_stacks ?h' (b_history b')"
      and shown: "\<And>v. shown_text v ps' = shown_text v ps" and kept: "all_bytes ps' = all_bytes ps"
      and toggle: "toggles (edits_of [e]) (edit_undone (bs_undo_map (b_snapshot b))) (edit_undone (bs_undo_map (b_snapshot b')))"
    obtain op where "undo_or_redo_entry (b\<lparr>b_history := ?h'\<rparr>) (Some e) = Some (b', Some (transaction_id e, op))" using undo_entry_all [OF u(1)] by blast
    then have "buffer_redo b = Some (b', Some (transaction_id e, op))" using pop by (simp add: buffer_redo_def)
    moreover have "timeline b' ps' = tl_redo (timeline b ps)" using moved_line(2) [OF b(1) u(2,3) shown toggle, of S] b(3) by simp
    ultimately show thesis using that u(2,3) shown kept b(2) by (simp add: same_stacks_def)
  qed (use b in simp_all)
qed

text \<open>One transaction out of order.\<close>

lemma undo_transaction_ok:
  assumes b: "buffer_ok seen b ps" "hi_transaction_depth (b_history b) = 0" "hi_undo_stack (b_history b) = S @ e # R"
    and fit: "usable b" "undo_fits b (edit_ids e)"
  obtains b' op ps' where "undo_transaction b (transaction_id e) = Some (b', Some op)" "buffer_ok seen b' ps'"
    "vis ps' = shown_text (\<lambda>i. edit_undone (bs_undo_map (b_snapshot b)) i \<or> i \<in> set (edit_ids e)) ps" "\<And>v. shown_text v ps' = shown_text v ps" "all_bytes ps' = all_bytes ps"
    "hi_undo_stack (b_history b') = S @ R" "hi_redo_stack (b_history b') = hi_redo_stack (b_history b) @ [e]" "hi_transaction_depth (b_history b') = 0"
proof -
  let ?h = "b_history b" and ?u = "edit_undone (bs_undo_map (b_snapshot b))"
  let ?h' = "?h\<lparr>hi_undo_stack := S @ R, hi_redo_stack := hi_redo_stack ?h @ [e]\<rparr>"
  have inv0: "hist_inv ?h (b_lamport_clock b)" and entries: "entries_ok (bs_undo_map (b_snapshot b)) ?h" using b(1) by (simp_all add: buffer_ok_def)
  then have "transaction_id e \<notin> transaction_id ` set R" using b(3) by (auto simp: hist_inv_def distinct_ids_def hist_entries_def)
  from rposition_found [OF refl this, of S] have pop: "remove_from_undo ?h (transaction_id e) = Some (?h', Some e)"
    using b(2,3) by (simp add: remove_from_undo_def)
  have inv: "hist_inv ?h' (b_lamport_clock b)" using stack_moves_ok(3) [OF inv0 b(2), of "transaction_id e"] pop by auto
  show thesis
  proof (rule moved_ok [OF b(1) inv _ fit_one [OF fit]])
    fix b' ps' ops
    assume u: "undo_or_redo_all (b\<lparr>b_history := ?h'\<rparr>) [e] = Some (b', ops)" "buffer_ok seen b' ps'" "same_stacks ?h' (b_history b')"
      and shown: "\<And>v. shown_text v ps' = shown_text v ps" and kept: "all_bytes ps' = all_bytes ps"
      and toggle: "toggles (edits_of [e]) ?u (edit_undone (bs_undo_map (b_snapshot b')))"
    obtain op where "undo_or_redo_entry (b\<lparr>b_history := ?h'\<rparr>) (Some e) = Some (b', Some (transaction_id e, op))" using undo_entry_all [OF u(1)] by blast
    then have "undo_transaction b (transaction_id e) = Some (b', Some op)" using pop by (simp add: undo_transaction_def)
    moreover have "edit_undone (bs_undo_map (b_snapshot b')) = (\<lambda>i. ?u i \<or> i \<in> set (edit_ids e))"
      using toggle entries b(3) by (auto simp: toggles_def fun_eq_iff entries_ok_def)
    then have "vis ps' = shown_text (\<lambda>i. ?u i \<or> i \<in> set (edit_ids e)) ps"
      using shown_text_now [of "b_snapshot b'" ps'] shown u(2) by (simp add: buffer_ok_def snapshot_ok_def)
    ultimately show thesis using that u(2,3) shown kept b(2) by (simp add: same_stacks_def)
  qed (use b in simp_all)
qed

text \<open>All transactions from one on.\<close>

lemma undo_to_transaction_ok:
  assumes b: "buffer_ok seen b ps" "hi_transaction_depth (b_history b) = 0" "hi_undo_stack (b_history b) = S @ e # R"
    and fit: "all_fit (b\<lparr>b_history := (b_history b)\<lparr>hi_undo_stack := S, hi_redo_stack := hi_redo_stack (b_history b) @ rev (e # R)\<rparr>\<rparr>) (rev (e # R))"
  obtains b' ops ps' where "undo_to_transaction b (transaction_id e) = Some (b', ops)" "length ops = Suc (length R)" "buffer_ok seen b' ps'"
    "all_bytes ps' = all_bytes ps" "timeline b' ps' = (tl_undo ^^ Suc (length R)) (timeline b ps)" "hi_undo_stack (b_history b') = S"
    "hi_redo_stack (b_history b') = hi_redo_stack (b_history b) @ rev (e # R)" "hi_transaction_depth (b_history b') = 0"
proof -
  let ?h = "b_history b"
  let ?h' = "?h\<lparr>hi_undo_stack := S, hi_redo_stack := hi_redo_stack ?h @ rev (e # R)\<rparr>"
  have inv0: "hist_inv ?h (b_lamport_clock b)" using b(1) by (simp add: buffer_ok_def)
  then have "transaction_id e \<notin> transaction_id ` set R" using b(3) by (auto simp: hist_inv_def distinct_ids_def hist_entries_def)
  from rposition_found [OF refl this, of S] have pop: "remove_from_undo_until ?h (transaction_id e) = Some (?h', rev (e # R))"
    using b(2,3) by (simp add: remove_from_undo_until_def)
  have inv: "hist_inv ?h' (b_lamport_clock b)" using stack_moves_ok(4) [OF inv0 b(2), of "transaction_id e"] pop by auto
  show thesis
  proof (rule moved_ok [OF b(1) inv _ fit])
    fix b' ps' ops
    assume u: "undo_or_redo_all (b\<lparr>b_history := ?h'\<rparr>) (rev (e # R)) = Some (b', ops)" "length ops = length (rev (e # R))" "buffer_ok seen b' ps'"
      "same_stacks ?h' (b_history b')"
      and shown: "\<And>v. shown_text v ps' = shown_text v ps" and kept: "all_bytes ps' = all_bytes ps"
      and toggle: "toggles (edits_of (rev (e # R))) (edit_undone (bs_undo_map (b_snapshot b))) (edit_undone (bs_undo_map (b_snapshot b')))"
    have "undo_to_transaction b (transaction_id e) = Some (b', ops)" using pop u(1) by (simp add: undo_to_transaction_def)
    moreover have "timeline b' ps' = (tl_undo ^^ Suc (length R)) (timeline b ps)"
      using moved_line(1) [OF b(1) u(3,4) shown toggle [unfolded toggles_rev], of S] b(3) by simp
    ultimately show thesis using that u(2-4) kept b(2) by (simp add: same_stacks_def)
  qed (use b in \<open>simp_all del: rev.simps\<close>)
qed

lemma redo_to_transaction_ok:
  assumes b: "buffer_ok seen b ps" "hi_transaction_depth (b_history b) = 0" "hi_redo_stack (b_history b) = S @ e # R"
    and fit: "all_fit (b\<lparr>b_history := (b_history b)\<lparr>hi_undo_stack := hi_undo_stack (b_history b) @ rev (e # R), hi_redo_stack := S\<rparr>\<rparr>) (rev (e # R))"
  obtains b' ops ps' where "redo_to_transaction b (transaction_id e) = Some (b', ops)" "length ops = Suc (length R)" "buffer_ok seen b' ps'"
    "all_bytes ps' = all_bytes ps" "timeline b' ps' = (tl_redo ^^ Suc (length R)) (timeline b ps)" "hi_redo_stack (b_history b') = S"
    "hi_undo_stack (b_history b') = hi_undo_stack (b_history b) @ rev (e # R)" "hi_transaction_depth (b_history b') = 0"
proof -
  let ?h = "b_history b"
  let ?h' = "?h\<lparr>hi_undo_stack := hi_undo_stack ?h @ rev (e # R), hi_redo_stack := S\<rparr>"
  have inv0: "hist_inv ?h (b_lamport_clock b)" using b(1) by (simp add: buffer_ok_def)
  then have "transaction_id e \<notin> transaction_id ` set R" using b(3) by (auto simp: hist_inv_def distinct_ids_def hist_entries_def)
  from rposition_found [OF refl this, of S] have pop: "remove_from_redo ?h (transaction_id e) = Some (?h', rev (e # R))"
    using b(2,3) by (simp add: remove_from_redo_def)
  have inv: "hist_inv ?h' (b_lamport_clock b)" using stack_moves_ok(5) [OF inv0 b(2), of "transaction_id e"] pop by auto
  show thesis
  proof (rule moved_ok [OF b(1) inv _ fit])
    fix b' ps' ops
    assume u: "undo_or_redo_all (b\<lparr>b_history := ?h'\<rparr>) (rev (e # R)) = Some (b', ops)" "length ops = length (rev (e # R))" "buffer_ok seen b' ps'"
      "same_stacks ?h' (b_history b')"
      and shown: "\<And>v. shown_text v ps' = shown_text v ps" and kept: "all_bytes ps' = all_bytes ps"
      and toggle: "toggles (edits_of (rev (e # R))) (edit_undone (bs_undo_map (b_snapshot b))) (edit_undone (bs_undo_map (b_snapshot b')))"
    have "redo_to_transaction b (transaction_id e) = Some (b', ops)" using pop u(1) by (simp add: redo_to_transaction_def)
    moreover have "timeline b' ps' = (tl_redo ^^ Suc (length R)) (timeline b ps)"
      using moved_line(2) [OF b(1) u(3,4) shown toggle [unfolded toggles_rev], of S] b(3) by simp
    ultimately show thesis using that u(2-4) kept b(2) by (simp add: same_stacks_def)
  qed (use b in \<open>simp_all del: rev.simps\<close>)
qed

end
