(* ===== verification/Text_Buffer_Sample.thy ===== *)
theory Text_Buffer_Sample
  imports Text_Buffer_Moves
begin

text \<open>
  A small buffer whose whole text has been deleted by one edit, in one transaction, either as it is or
  with that edit undone: the examples of undo and redo.
\<close>

definition sample_edit :: Lamport where
  "sample_edit = Lamport 3 1"

definition sample_fragment :: "ustr \<Rightarrow> bool \<Rightarrow> Fragment" where
  "sample_fragment t visible = (base_fragment t)\<lparr>frag_visible := visible, frag_deletions := [sample_edit]\<rparr>"

definition sample_slice :: "ustr \<Rightarrow> (InsertionSlice, unit) MapEntry" where
  "sample_slice t = \<lparr>me_key = InsertionSlice_from_fragment sample_edit (base_fragment t), me_value = ()\<rparr>"

definition sample_snapshot :: "Rope \<Rightarrow> UndoMap \<Rightarrow> bool \<Rightarrow> BufferSnapshot" where
  "sample_snapshot r m visible =
     (let f = sample_fragment (rope_text r) visible; i = sample_slice (rope_text r) in
      (new_snapshot 1 0 Unix r)\<lparr>bs_visible_text := if visible then r else Rope_new, bs_deleted_text := if visible then Rope_new else r,
        bs_fragments := Leaf (items_summary fragment_ops [f]) [f] [item_summary fragment_ops f],
        bs_insertion_slices := Leaf (items_summary map_ops [i]) [i] [item_summary map_ops i], bs_undo_map := m\<rparr>)"

definition sample_entry_of :: "HistoryEntry" where
  "sample_entry_of = new_entry \<lparr>tr_id = Lamport 2 1, tr_edit_ids = [sample_edit], tr_start = Global_new\<rparr> 0"

definition sample_buffer :: "Rope \<Rightarrow> UndoMap \<Rightarrow> bool \<Rightarrow> Buffer" where
  "sample_buffer r m visible = \<lparr>b_snapshot = sample_snapshot r m visible,
     b_history = (if visible then (History_new r)\<lparr>hi_redo_stack := [sample_entry_of]\<rparr> else (History_new r)\<lparr>hi_undo_stack := [sample_entry_of]\<rparr>),
     b_lamport_clock = Lamport 9 1, b_subscriptions = \<lparr>topic_patches = Map.empty, topic_subs = []\<rparr>\<rparr>"

abbreviation sample_pieces :: "ustr \<Rightarrow> bool \<Rightarrow> Piece list" where
  "sample_pieces t visible \<equiv> [(sample_fragment t visible, t)]"

lemma sample_fragment_sel [simp]:
  "frag_id (sample_fragment t v) = between Locator_min Locator_max" "frag_timestamp (sample_fragment t v) = base_timestamp"
  "frag_insertion_offset (sample_fragment t v) = 0" "frag_len (sample_fragment t v) = word_of_nat (text_len t)"
  "frag_visible (sample_fragment t v) = v" "frag_deletions (sample_fragment t v) = [sample_edit]" "frag_max_undos (sample_fragment t v) = Global_new"
  by (simp_all add: sample_fragment_def base_fragment_def)

lemma sample_fragments:
  assumes "rope_ok r" "rope_text r = t" "t \<noteq> []" "text_len t < 2 ^ 32"
  shows "fragments_ok (sample_snapshot r m visible) (sample_pieces t visible)"
proof -
  have b: "base_pieces t = [(base_fragment t, t)]" using assms(3) by (simp add: base_pieces_def)
  note base = base_pieces_ok(1-5) [OF assms(4), unfolded b]
  have piece: "piece_ok (sample_fragment t visible, t)" using base(1) by (simp add: piece_ok_def fragment_canonical_def base_fragment_def)
  have "snapshot_ok (new_snapshot 1 0 Unix r) (base_pieces (rope_text r))" by (rule new_snapshot_ok) (use assms in simp_all)
  then have new: "fragments_ok (new_snapshot 1 0 Unix r) [(base_fragment t, t)]" using b assms(2) by (simp add: snapshot_ok_def)
  have new_index: "InsertionFragment_new (sample_fragment t visible) = InsertionFragment_new (base_fragment t)"
    by (simp add: InsertionFragment_new_def base_fragment_def)
  have ids: "ids_ok (frag_ids (sample_pieces t visible))" using base(4) by (simp add: frag_ids_def base_fragment_def)
  have "tree_pieces (bs_fragments (sample_snapshot r m visible)) (sample_pieces t visible)"
    using piece assms(2) by (simp add: tree_pieces_def sample_snapshot_def Let_def TREE_BASE_def items_summary_def)
  moreover have "key_of (sample_fragment t visible) = key_of (base_fragment t)" by (simp add: key_of_def base_fragment_def)
  then have "index_of (map fst (sample_pieces t visible)) = index_of [base_fragment t]" using new_index by simp
  moreover have "spans_ok (map fst (sample_pieces t visible))" using assms(4)
    by (simp add: spans_ok_def f_end_def f_off_def unat_of_nat)
  ultimately show ?thesis using new ids assms(1,2) Rope_new_ok
    by (simp add: fragments_ok_def sample_snapshot_def Let_def)
qed

lemma sample_slices:
  "tm_invar (bs_insertion_slices (sample_snapshot r m visible))" "tm_usable (bs_insertion_slices (sample_snapshot r m visible))"
  "slice_set (bs_insertion_slices (sample_snapshot r m visible)) = {InsertionSlice_from_fragment sample_edit (base_fragment (rope_text r))}"
  by (auto simp: sample_snapshot_def Let_def tm_invar_def tm_usable_def TREE_BASE_def items_summary_def keys_sorted_def slice_set_def tm_map_def
      sample_slice_def key_map_def entry_key_def split: if_splits)

lemma sample_visibility:
  assumes "text_len (rope_text r) < 2 ^ 32" "undo_invar m" "visible = edit_undone m sample_edit" "\<not> edit_undone m base_timestamp"
  shows "visibility_ok (sample_snapshot r m visible) (sample_pieces (rope_text r) visible)"
proof -
  let ?s = "sample_snapshot r m visible" and ?f = "sample_fragment (rope_text r) visible" and ?b = "base_fragment (rope_text r)"
  have "covered {InsertionSlice_from_fragment sample_edit ?b} sample_edit ?b"
    by (rule covered_self) (use assms(1) in \<open>simp add: f_end_def f_off_def unat_of_nat base_fragment_def\<close>)
  then have "covered {InsertionSlice_from_fragment sample_edit ?b} sample_edit ?f"
    by (simp add: covered_def f_off_def f_end_def base_fragment_def)
  then have "frag_good (edit_undone m) {InsertionSlice_from_fragment sample_edit ?b} ?f"
    using assms(3,4) by (simp add: frag_good_def shown_def affecting_def)
  moreover have "base_timestamp < sample_edit" by (simp add: base_timestamp_def sample_edit_def Lamport_new_def less_Lamport_iff)
  moreover have "bs_undo_map ?s = m" by (simp add: sample_snapshot_def Let_def)
  ultimately show ?thesis using assms(2) sample_slices
    by (simp add: visibility_ok_def InsertionSlice_from_fragment_def base_fragment_def)
qed

lemma sample_ok:
  assumes r: "rope_ok r" "rope_text r = t" "t \<noteq> []" "text_len t < 2 ^ 32" "height (rope_chunks r) \<le> 6"
    and m: "undo_invar m" "undo_usable m" "visible = edit_undone m sample_edit" "\<not> edit_undone m base_timestamp"
      "\<And>e u n. undo_counts m e u = Some n \<Longrightarrow> e < Lamport 9 1 \<and> u < Lamport 9 1 \<and> n \<le> 9"
  shows "buffer_ok seen (sample_buffer r m visible) (sample_pieces t visible)" "usable (sample_buffer r m visible)"
proof -
  let ?s = "sample_snapshot r m visible"
  have s: "bs_undo_map ?s = m" "bs_visible_text ?s = (if visible then r else Rope_new)" "bs_deleted_text ?s = (if visible then Rope_new else r)"
    "bs_insertions ?s = bs_insertions (new_snapshot 1 0 Unix r)" "height (bs_fragments ?s) = 0"
    by (simp_all add: sample_snapshot_def Let_def)
  have "snapshot_ok ?s (sample_pieces t visible)"
    using sample_fragments [OF r(1-4)] sample_visibility [of r m visible] r(2,4) m by (simp add: snapshot_ok_def)
  moreover have "before_clock ?s (Lamport 9 1)"
    using m(5) by (simp add: before_clock_def s sample_slices InsertionSlice_from_fragment_def sample_edit_def less_Lamport_iff)
  moreover have "hist_inv (b_history (sample_buffer r m visible)) (Lamport 9 1)"
    by (simp add: sample_buffer_def hist_inv_def History_new_def tm_new_ok distinct_ids_def hist_entries_def sample_entry_of_def less_Lamport_iff)
  moreover have "entries_ok m (b_history (sample_buffer r m visible))"
    using m(3) by (simp add: sample_buffer_def entries_ok_def History_new_def hist_entries_def sample_entry_of_def new_entry_def)
  ultimately show "buffer_ok seen (sample_buffer r m visible) (sample_pieces t visible)"
    by (simp add: buffer_ok_def sample_buffer_def s topic_inv_def History_new_def hist_entries_def sample_entry_of_def new_entry_def
        base_timestamp_def Lamport_new_def sample_edit_def less_Lamport_iff less_imp_le)
  have "shallow ?s" using r(5) m(2) sample_slices
    by (simp add: shallow_def s Rope_new_def new_tree_def new_snapshot_def Let_def)
  then show "usable (sample_buffer r m visible)" by (simp add: usable_def sample_buffer_def History_new_def tm_new_ok)
qed

text \<open>The undo map in which the edit is undone.\<close>

definition sample_undone :: UndoMap where
  "sample_undone = (let e = \<lparr>ue_key = UndoMapKey sample_edit (Lamport 4 1), ue_undo_count = 1\<rparr>
     in Leaf (items_summary undo_ops [e]) [e] [item_summary undo_ops e])"

lemma sample_undone_ok:
  "undo_invar sample_undone" "undo_usable sample_undone"
  "undo_counts sample_undone e u = (if e = sample_edit \<and> u = Lamport 4 1 then Some 1 else None)"
  by (simp_all add: sample_undone_def Let_def undo_invar_def undo_usable_def TREE_BASE_def items_summary_def keys_sorted_def undo_counts_def key_map_def)

lemma sample_undone_edits: "edit_undone sample_undone e \<longleftrightarrow> e = sample_edit" "undo_total sample_undone sample_edit = 1"
  "\<not> edit_undone UndoMap_default e" "undo_total UndoMap_default e = 0"
proof -
  have "{n. \<exists>u. undo_counts sample_undone e u = Some n} = (if e = sample_edit then {1} else {})" for e
    by (auto simp: sample_undone_ok)
  then have "largest_count (\<lambda>_. True) (undo_counts sample_undone e) = (if e = sample_edit then 1 else 0)" for e by (simp add: largest_count_def)
  then show "edit_undone sample_undone e \<longleftrightarrow> e = sample_edit" "undo_total sample_undone sample_edit = 1"
    by (simp_all add: edit_undone_def undo_total_def)
  show "\<not> edit_undone UndoMap_default e" "undo_total UndoMap_default e = 0"
    by (simp_all add: edit_undone_def undo_total_def largest_count_def undo_default_ok)
qed

lemma sample_heights:
  "map_option height (undo_insert UndoMap_default \<lparr>uo_timestamp = Lamport 9 1, uo_version = Global_new, uo_counts = [(Lamport 3 1, 1)]\<rparr>) = Some 0"
  "map_option height (undo_insert (Leaf (UndoMapKey (Lamport 3 1) (Lamport 4 1)) [\<lparr>ue_key = UndoMapKey (Lamport 3 1) (Lamport 4 1), ue_undo_count = 1\<rparr>]
     [UndoMapKey (Lamport 3 1) (Lamport 4 1)]) \<lparr>uo_timestamp = Lamport 9 1, uo_version = Global_new, uo_counts = [(Lamport 3 1, 2)]\<rparr>) = Some 0"
  by code_simp+

lemma sample_sel [simp]:
  "hi_undo_stack (b_history (sample_buffer r m visible)) = (if visible then [] else [sample_entry_of])"
  "hi_redo_stack (b_history (sample_buffer r m visible)) = (if visible then [sample_entry_of] else [])"
  "hi_transaction_depth (b_history (sample_buffer r m visible)) = 0" "bs_undo_map (b_snapshot (sample_buffer r m visible)) = m"
  "edit_ids sample_entry_of = [sample_edit]" "transaction_id sample_entry_of = Lamport 2 1"
  by (simp_all add: sample_buffer_def History_new_def sample_snapshot_def Let_def sample_entry_of_def new_entry_def transaction_id_def)

lemma fits_height:
  assumes "undo_of b es = \<lparr>uo_timestamp = t, uo_version = v, uo_counts = cs\<rparr>" "bs_undo_map (b_snapshot b) = m"
    "map_option height (undo_insert m \<lparr>uo_timestamp = t, uo_version = Global_new, uo_counts = cs\<rparr>) = Some 0"
  shows "undo_fits b es"
proof -
  have "undo_insert m (undo_of b es) = undo_insert m \<lparr>uo_timestamp = t, uo_version = Global_new, uo_counts = cs\<rparr>"
    unfolding assms(1) by (simp add: undo_insert_def)
  then show ?thesis using assms(2,3) by (auto simp: undo_fits_def undo_usable_def)
qed

lemma sample_fits:
  "undo_fits (sample_buffer r UndoMap_default False) [sample_edit]" "undo_fits (sample_buffer r sample_undone True) [sample_edit]"
proof -
  have clock: "b_lamport_clock (sample_buffer r m visible) = Lamport 9 1" for m visible by (simp add: sample_buffer_def)
  have "undo_of (sample_buffer r UndoMap_default False) [sample_edit] =
      \<lparr>uo_timestamp = Lamport 9 1, uo_version = bs_version (b_snapshot (sample_buffer r UndoMap_default False)), uo_counts = [(Lamport 3 1, 1)]\<rparr>"
    by (simp add: undo_of_def sample_undone_edits clock) (simp add: sample_edit_def)
  then show "undo_fits (sample_buffer r UndoMap_default False) [sample_edit]" by (rule fits_height [OF _ sample_sel(4) sample_heights(1)])
  have "undo_of (sample_buffer r sample_undone True) [sample_edit] =
      \<lparr>uo_timestamp = Lamport 9 1, uo_version = bs_version (b_snapshot (sample_buffer r sample_undone True)), uo_counts = [(Lamport 3 1, 2)]\<rparr>"
    by (simp add: undo_of_def sample_undone_edits clock) (simp add: sample_edit_def)
  moreover have "bs_undo_map (b_snapshot (sample_buffer r sample_undone True)) = Leaf (UndoMapKey (Lamport 3 1) (Lamport 4 1))
      [\<lparr>ue_key = UndoMapKey (Lamport 3 1) (Lamport 4 1), ue_undo_count = 1\<rparr>] [UndoMapKey (Lamport 3 1) (Lamport 4 1)]"
    unfolding sample_sel(4) by code_simp
  ultimately show "undo_fits (sample_buffer r sample_undone True) [sample_edit]" by (rule fits_height [OF _ _ sample_heights(2)])
qed

text \<open>The buffer with its text deleted, and with the deletion undone.\<close>

lemma sample_buffers:
  assumes "rope_ok r" "rope_text r = t" "t \<noteq> []" "text_len t < 2 ^ 32" "height (rope_chunks r) \<le> 6"
  shows "buffer_ok seen (sample_buffer r UndoMap_default False) (sample_pieces t False)" "usable (sample_buffer r UndoMap_default False)"
    "buffer_ok seen (sample_buffer r sample_undone True) (sample_pieces t True)" "usable (sample_buffer r sample_undone True)"
proof -
  have base: "base_timestamp \<noteq> sample_edit" by (simp add: base_timestamp_def sample_edit_def Lamport_new_def)
  show "buffer_ok seen (sample_buffer r UndoMap_default False) (sample_pieces t False)" "usable (sample_buffer r UndoMap_default False)"
    by (rule sample_ok [OF assms], simp_all add: undo_default_ok sample_undone_edits)+
  show "buffer_ok seen (sample_buffer r sample_undone True) (sample_pieces t True)" "usable (sample_buffer r sample_undone True)"
    by (rule sample_ok [OF assms], use base in \<open>auto simp: sample_undone_ok sample_undone_edits sample_edit_def less_Lamport_iff split: if_splits\<close>)+
qed

lemma small_rope:
  obtains r where "rope_ok r" "rope_text r = [104, 105]" "[104, 105] \<noteq> ([] :: ustr)" "text_len [104, 105] < 2 ^ 32" "height (rope_chunks r) \<le> 6"
proof -
  have len: "text_len [104, 105] \<le> 128" "text_len [104, 105] < 2 ^ 32" by (simp_all add: text_len_def len_utf8_def)
  then obtain d where "Chunk_new [104, 105] = Some d" using small_chunk [of "[104, 105]"] by blast
  then have "chunk_ok d" "chunk_text d = [104, 105]" by (simp_all add: Chunk_new_iff)
  then show thesis using that [of "rope_single d"] rope_single_ok [of d] len(2) by simp
qed

end
