(* ===== verification/Text_Buffer_Correct.thy ===== *)
theory Text_Buffer_Correct
  imports Text_Buffer_Sample
begin

text \<open>
  What a buffer promises: a new buffer shows its text and satisfies the invariant; an edit replaces its
  ranges and adds a text to the timeline; undo and redo, one transaction or many, move along it.
\<close>

section \<open>Line endings\<close>

lemma detect_head:
  assumes "text_len a \<le> 1000"
  obtains c d where "a @ b = (a @ c) @ d"
    "LineEnding_detect (a @ b) = Some (let head = a @ c; before = takeWhile (\<lambda>c. c \<noteq> newline) head in
       if before = head then LineEnding_default else if before \<noteq> [] \<and> last before = 13 then Windows else Unix)"
proof -
  let ?t = "a @ b" and ?i = "min (text_len (a @ b)) 1000"
  have floor: "prev_boundary ?t ?i = floor_boundary ?t ?i" by (rule prev_boundary_eq) simp
  have "is_boundary ?t (text_len a)" by (auto simp: is_boundary_split)
  then have le: "text_len a \<le> floor_boundary ?t ?i" by (rule floor_boundary_spec(3)) (use assms in simp)
  obtain head rest where h: "?t = head @ rest" "text_len head = floor_boundary ?t ?i" "str_split_at ?t (floor_boundary ?t ?i) = Some (head, rest)"
    using boundary_splits [OF floor_boundary_spec(1)] by blast
  have "text_len a \<le> text_len head" unfolding h(2) by (rule le)
  from text_cut [OF h(1) this] obtain c where c: "head = a @ c" by blast
  have "LineEnding_detect ?t = Some (let before = takeWhile (\<lambda>c. c \<noteq> newline) head in
      if before = head then LineEnding_default else if before \<noteq> [] \<and> last before = 13 then Windows else Unix)"
    unfolding LineEnding_detect_def Let_def floor h(3) by simp
  then show thesis using that [of c rest] h(1) unfolding c Let_def by blast
qed

lemma takeWhile_line: "newline \<notin> set start \<Longrightarrow> takeWhile (\<lambda>c. c \<noteq> newline) (start @ newline # rest) = start"
  by (subst takeWhile_append2) auto

lemma line_ending_found:
  assumes "newline \<notin> set start" "text_len start \<le> 998" "l = Unix \<Longrightarrow> start = [] \<or> last start \<noteq> 13"
  shows "LineEnding_detect (start @ LineEnding_as_str l @ rest) = Some l"
proof -
  have "text_len (start @ LineEnding_as_str l) \<le> 1000" using assms(2) by (cases l) (simp_all add: LineEnding_as_str_def text_len_def len_utf8_def)
  then show ?thesis
  proof (rule detect_head [of _ rest])
    fix c d
    assume "LineEnding_detect ((start @ LineEnding_as_str l) @ rest) = Some (let head = (start @ LineEnding_as_str l) @ c;
        before = takeWhile (\<lambda>c. c \<noteq> newline) head in
      if before = head then LineEnding_default else if before \<noteq> [] \<and> last before = 13 then Windows else Unix)"
    then show ?thesis
      using assms(1,3) takeWhile_line [of start c] takeWhile_line [of "start @ [13]" c]
      by (cases l) (auto simp: LineEnding_as_str_def Let_def)
  qed
qed

lemma line_ending_none: "newline \<notin> set t \<Longrightarrow> LineEnding_detect t = Some LineEnding_default"
proof (rule detect_head [of "[]" t])
  fix c d
  assume t: "newline \<notin> set t" "[] @ t = ([] @ c) @ d" and d: "LineEnding_detect ([] @ t) = Some (let head = [] @ c; before = takeWhile (\<lambda>c. c \<noteq> newline) head in
    if before = head then LineEnding_default else if before \<noteq> [] \<and> last before = 13 then Windows else Unix)"
  then have "takeWhile (\<lambda>c. c \<noteq> newline) c = c" by (auto simp: takeWhile_eq_all_conv)
  then show ?thesis using d by simp
qed simp

lemma detect_total: "\<exists>l. LineEnding_detect t = Some l"
  using detect_head [of "[]" t] by auto

section \<open>New buffers\<close>

lemma split_pieces_small: "t \<noteq> [] \<Longrightarrow> text_len t \<le> MAX_BASE \<Longrightarrow> split_pieces t = Some [t]"
proof -
  assume t: "t \<noteq> []" "text_len t \<le> MAX_BASE"
  have "is_boundary t (text_len t)" by (auto simp: is_boundary_split str_split_at_eq)
  then have "prev_boundary t (text_len t) = text_len t" by (rule boundary_same(1))
  then have "split_piece t = Some (t, [])" using t(2) by (simp add: split_piece_def str_split_at_eq min_absorb2)
  then show ?thesis using t(1) by (subst split_pieces.simps) (simp, subst split_pieces.simps, simp)
qed

lemma rope_from_small:
  assumes "t \<noteq> []" "text_len t \<le> MAX_BASE" "Chunk_new t = Some d"
  shows "rope_from t = Some (rope_single d)"
proof -
  have small: "text_len t \<le> 128" using assms(2) by (simp add: MAX_BASE_def)
  have "chunks (2 * TREE_BASE) [d] = [[d]]" by (simp add: TREE_BASE_def chunks.simps)
  then have "from_iter chunk_ops [d] = Some (rope_chunks (rope_single d))"
    by (simp add: from_iter_def rope_single_def leaf_of_items_def from_nodes.simps array_vec_def TREE_BASE_def sum_from_first_def chunk_ops_def)
  then show ?thesis using assms(1,3) small
    by (simp add: rope_from_def rope_push_def Rope_new_def new_tree_def split_pieces_small [OF assms(1,2)] tree_extend_def append_tree_def MAX_BASE_def NUM_CHUNKS_def
      update_last_with_def update_last_def tree_last_def list_last_def rope_single_def Let_def)
qed

section \<open>Properties\<close>

lemma buffer_text: "buffer_ok seen b ps \<Longrightarrow> rope_text (bs_visible_text (b_snapshot b)) = vis ps"
  by (simp add: buffer_ok_def snapshot_ok_def fragments_ok_def)

text \<open>(C14) A new buffer shows its text with the line endings replaced and satisfies the invariant of buffers:
  one fragment for the base text, an index that finds it, nothing to undo or redo, a clock that is past
  the timestamp of the base text.\<close>

theorem buffer_new_correct:
  assumes "rope_from (replace_line_separators t) = Some r" "height (rope_chunks r) \<le> 6" "text_len (replace_line_separators t) < 2 ^ 32"
  shows "\<exists>b ps. Buffer_new replace_line_separators replica remote t = Some b \<and> buffer_ok seen b ps \<and> usable b \<and>
    timeline b ps = \<lparr>tl_past = [], tl_current = replace_line_separators t, tl_future = []\<rparr> \<and>
    rope_text (bs_visible_text (b_snapshot b)) = replace_line_separators t"
proof -
  obtain l where l: "LineEnding_detect t = Some l" using detect_total by blast
  have r: "rope_ok r" "rope_text r = replace_line_separators t" using rope_from_ok [of "replace_line_separators t"] assms(1) by simp_all
  have len: "text_len (rope_text r) < 2 ^ 32" using assms(3) r(2) by simp
  show ?thesis
  proof (rule Buffer_new_normalized_ok [OF r(1) len assms(2), of replica remote l seen])
    fix b
    assume b: "Buffer_new_normalized replica remote l r = Some b" "buffer_ok seen b (base_pieces (rope_text r))" "usable b"
      "vis (base_pieces (rope_text r)) = rope_text r" "b_history b = History_new r"
    have "timeline b (base_pieces (rope_text r)) = \<lparr>tl_past = [], tl_current = rope_text r, tl_future = []\<rparr>"
      using b(4,5) by (simp add: timeline_def History_new_def)
    moreover have "Buffer_new replace_line_separators replica remote t = Some b" using l assms(1) b(1) by (simp add: Buffer_new_def)
    ultimately show ?thesis using b(2-4) buffer_text [OF b(2)] r(2) by (intro exI [of _ b] exI [of _ "base_pieces (rope_text r)"]) simp
  qed
qed

theorem buffer_new_correct_witness:
  "\<exists>b. Buffer_new (filter (\<lambda>c. c \<noteq> 13)) 1 0 [104, 105, 13, 10] = Some b \<and> rope_text (bs_visible_text (b_snapshot b)) = [104, 105, 10]"
proof -
  obtain d where d: "Chunk_new [104, 105, 10] = Some d" using small_chunk [of "[104, 105, 10]"] by (auto simp: text_len_def len_utf8_def)
  then have ok: "chunk_ok d" "chunk_text d = [104, 105, 10]" by (simp_all add: Chunk_new_iff)
  have "rope_from (filter (\<lambda>c. c \<noteq> 13) [104, 105, 13, 10]) = Some (rope_single d)"
    using rope_from_small [OF _ _ d] by (simp add: text_len_def len_utf8_def MAX_BASE_def)
  moreover have "height (rope_chunks (rope_single d)) \<le> 6" by (simp add: rope_single_def)
  moreover have "text_len (filter (\<lambda>c. c \<noteq> 13) [104, 105, 13, 10]) < 2 ^ 32" by (simp add: text_len_def len_utf8_def)
  ultimately show ?thesis using buffer_new_correct [of "filter (\<lambda>c. c \<noteq> 13)" "[104, 105, 13, 10]" "rope_single d" 1 0 "\<lambda>_. []"] by auto
qed

text \<open>The line ending of a text is found from its first line when that ends within the first 1000 bytes
  (a line feed alone counts as Unix when the line does not end with a carriage return), and is the
  default one when there is no line feed; detecting never panics.\<close>

lemma line_ending_roundtrip:
  assumes "newline \<notin> set start" "text_len start \<le> 998" "l = Unix \<Longrightarrow> start = [] \<or> last start \<noteq> 13"
  shows "LineEnding_detect (start @ LineEnding_as_str l @ rest) = Some l \<and> LineEnding_detect start = Some LineEnding_default \<and>
    (\<exists>l'. LineEnding_detect t = Some l')"
  using line_ending_found [OF assms] line_ending_none [OF assms(1)] detect_total by blast

text \<open>(C1) An edit of a buffer refines replacing ranges of a string: for sorted, disjoint ranges that end on
  character boundaries, \<open>edit\<close> succeeds, keeps the invariant of the buffer (its fragments, texts, indexes,
  history, clock and subscriptions), shows the text with the ranges replaced, and, outside of an open
  transaction, puts the old text on the line of texts that undo goes back to.  Grouping drops texts from
  the end of that line only, and none when the last transaction is too old or finalized; within a
  transaction the line stays as it is.\<close>

theorem buffer_edit_refines:
  assumes "buffer_ok seen b ps" "usable b" "to_offsets to_offset replace_line_separators (b_snapshot b) edits = Some es" "es \<noteq> []"
    "splice (rope_text (bs_visible_text (b_snapshot b))) 0 es = Some t" "new_bytes es < 2 ^ 32"
  shows "\<exists>b' op ps' k. buffer_edit to_offset replace_line_separators started ended b edits = Some (b', Op_Edit op) \<and> buffer_ok seen b' ps' \<and>
    rope_text (bs_visible_text (b_snapshot b')) = t \<and> 0 < k \<and>
    (if hi_transaction_depth (b_history b) = 0
     then timeline b' ps' = \<lparr>tl_past = take k (tl_past (timeline b ps) @ [tl_current (timeline b ps)]), tl_current = t, tl_future = []\<rparr> \<and>
       (ends_group (hi_group_interval (b_history b)) (hi_undo_stack (b_history b)) started \<longrightarrow>
         k = Suc (length (tl_past (timeline b ps))) \<and> edit_ids (last (hi_undo_stack (b_history b'))) = [eo_timestamp op])
     else tl_past (timeline b' ps') = tl_past (timeline b ps))"
proof -
  have splice: "splice (vis ps) 0 es = Some t" using assms(5) buffer_text [OF assms(1)] by simp
  show ?thesis
  proof (rule buffer_edit_ok [OF assms(1-4) splice assms(6), of started ended])
    fix b' op N
    assume e: "buffer_edit to_offset replace_line_separators started ended b edits = Some (b', Op_Edit op)" "buffer_ok seen b' N" "vis N = t"
      and top: "hi_transaction_depth (b_history b) = 0 \<Longrightarrow> \<exists>k. 0 < k \<and>
         timeline b' N = \<lparr>tl_past = take k (tl_past (timeline b ps) @ [vis ps]), tl_current = t, tl_future = []\<rparr> \<and>
         (ends_group (hi_group_interval (b_history b)) (hi_undo_stack (b_history b)) started \<longrightarrow> k = Suc (length (hi_undo_stack (b_history b))) \<and>
           (\<exists>L'. hi_undo_stack (b_history b') = hi_undo_stack (b_history b) @ [L'] \<and> edit_ids L' = [eo_timestamp op]))"
      and nested: "0 < hi_transaction_depth (b_history b) \<Longrightarrow> tl_past (timeline b' N) = tl_past (timeline b ps)"
    have visible: "rope_text (bs_visible_text (b_snapshot b')) = t" using buffer_text [OF e(2)] e(3) by simp
    show ?thesis
    proof (cases "hi_transaction_depth (b_history b) = 0")
      case True
      from top [OF this] obtain k where k: "0 < k"
        "timeline b' N = \<lparr>tl_past = take k (tl_past (timeline b ps) @ [vis ps]), tl_current = t, tl_future = []\<rparr>"
        "ends_group (hi_group_interval (b_history b)) (hi_undo_stack (b_history b)) started \<longrightarrow> k = Suc (length (hi_undo_stack (b_history b))) \<and>
           (\<exists>L'. hi_undo_stack (b_history b') = hi_undo_stack (b_history b) @ [L'] \<and> edit_ids L' = [eo_timestamp op])" by blast
      moreover from k(3) have "ends_group (hi_group_interval (b_history b)) (hi_undo_stack (b_history b)) started \<longrightarrow>
         edit_ids (last (hi_undo_stack (b_history b'))) = [eo_timestamp op]" by auto
      ultimately show ?thesis using e(1,2) visible True
        by (intro exI [of _ b'] exI [of _ op] exI [of _ N] exI [of _ k]) simp
    next
      case False
      then show ?thesis using e(1,2) visible nested by (intro exI [of _ b'] exI [of _ op] exI [of _ N] exI [of _ 1]) simp
    qed
  qed
qed

lemma usize_to_offset_ok:
  assumes "buffer_ok seen b ps" "is_boundary (vis ps) k" "text_len (vis ps) < 2 ^ 32"
  shows "usize_to_offset (b_snapshot b) k = Some k"
proof -
  have "rope_ok (bs_visible_text (b_snapshot b))" using assms(1) by (simp add: buffer_ok_def snapshot_ok_def fragments_ok_def)
  then show ?thesis using assms(2,3) buffer_text [OF assms(1)] by (simp add: usize_to_offset_def rope_assert_eq)
qed

text \<open>A buffer of one chunk, for the examples.\<close>

lemma small_buffer:
  assumes "t \<noteq> []" "text_len t \<le> 128" "replace_line_separators t' = t"
  obtains b where "Buffer_new replace_line_separators 1 0 t' = Some b" "buffer_ok seen b (base_pieces t)" "usable b"
    "vis (base_pieces t) = t" "hi_transaction_depth (b_history b) = 0"
proof -
  obtain d where d: "Chunk_new t = Some d" using small_chunk [OF assms(2)] by blast
  then have ok: "chunk_ok d" "chunk_text d = t" by (simp_all add: Chunk_new_iff)
  have r: "rope_from t = Some (rope_single d)" using rope_from_small [OF assms(1) _ d] assms(2) by (simp add: MAX_BASE_def)
  obtain l where l: "LineEnding_detect t' = Some l" using detect_total by blast
  have "rope_ok (rope_single d)" "text_len (rope_text (rope_single d)) < 2 ^ 32" "height (rope_chunks (rope_single d)) \<le> 6"
    using rope_single_ok [OF ok(1)] ok(2) assms(1,2) by simp_all
  then show thesis
  proof (rule Buffer_new_normalized_ok [of _ 1 0 l seen])
    fix b
    assume "Buffer_new_normalized 1 0 l (rope_single d) = Some b" "buffer_ok seen b (base_pieces (rope_text (rope_single d)))" "usable b"
      "vis (base_pieces (rope_text (rope_single d))) = rope_text (rope_single d)" "b_history b = History_new (rope_single d)"
    then show thesis using that rope_single_ok [OF ok(1)] ok(2) assms(1,3) l r by (simp add: Buffer_new_def History_new_def)
  qed
qed

theorem buffer_edit_refines_witness:
  "\<exists>b b' op. Buffer_new (filter (\<lambda>c. c \<noteq> 13)) 1 0 [104, 105] = Some b \<and>
    buffer_edit usize_to_offset (filter (\<lambda>c. c \<noteq> 13)) 0 0 b [((1, 2), [233]), ((2, 2), [33, 13])] = Some (b', op) \<and>
    rope_text (bs_visible_text (b_snapshot b')) = [104, 233, 33]"
proof -
  let ?replace = "filter (\<lambda>c. c \<noteq> 13)" and ?t = "[104, 105] :: ustr"
  have len: "len_utf8 104 = 1" "len_utf8 105 = 1" "len_utf8 233 = 2" "len_utf8 33 = 1" by (simp_all add: len_utf8_def)
  have "?t \<noteq> []" "text_len ?t \<le> 128" "?replace ?t = ?t" by (simp_all add: text_len_def len)
  then obtain b where b: "Buffer_new ?replace 1 0 ?t = Some b" "buffer_ok (\<lambda>_. []) b (base_pieces ?t)" "usable b" "vis (base_pieces ?t) = ?t"
    by (rule small_buffer)
  have "usize_to_offset (b_snapshot b) 1 = Some 1" "usize_to_offset (b_snapshot b) 2 = Some 2"
    by (rule usize_to_offset_ok [OF b(2)], simp_all add: b(4) text_len_def len)+
  then have "to_offsets usize_to_offset ?replace (b_snapshot b) [((1, 2), [233]), ((2, 2), [33, 13])] =
    Some [(\<lparr>r_start = 1, r_end = 2\<rparr>, [233]), (\<lparr>r_start = 2, r_end = 2\<rparr>, [33])]" by (simp add: to_offsets_def)
  moreover have "splice (rope_text (bs_visible_text (b_snapshot b))) 0 [(\<lparr>r_start = 1, r_end = 2\<rparr>, [233]), (\<lparr>r_start = 2, r_end = 2\<rparr>, [33])] = Some [104, 233, 33]"
    using buffer_text [OF b(2)] b(4) by (simp add: str_slice_def text_len_def len)
  moreover have "new_bytes [(\<lparr>r_start = 1, r_end = 2\<rparr>, [233]), (\<lparr>r_start = 2, r_end = 2\<rparr>, [33])] < 2 ^ 32"
    by (simp add: new_bytes_def text_len_def len)
  ultimately show ?thesis using buffer_edit_refines [OF b(2,3)] b(1) by blast
qed

text \<open>(C3) Undo moves one text back: outside of a transaction \<open>undo\<close> never fails, keeps the invariant of the
  buffer, reports the transaction it has undone, shows the text from before that transaction, and leaves
  the text it has replaced to \<open>redo\<close>; without anything to undo it does nothing.\<close>

theorem buffer_undo_refines:
  assumes "buffer_ok seen b ps" "usable b" "hi_transaction_depth (b_history b) = 0"
    "hi_undo_stack (b_history b) \<noteq> [] \<Longrightarrow> undo_fits b (edit_ids (last (hi_undo_stack (b_history b))))"
  shows "\<exists>b' r ps'. buffer_undo b = Some (b', r) \<and> buffer_ok seen b' ps' \<and> timeline b' ps' = tl_undo (timeline b ps) \<and>
    rope_text (bs_visible_text (b_snapshot b')) = tl_current (tl_undo (timeline b ps)) \<and>
    map_option fst r = map_option transaction_id (list_last (hi_undo_stack (b_history b)))"
proof (cases "hi_undo_stack (b_history b)" rule: rev_cases)
  case Nil
  then have "b\<lparr>b_history := b_history b\<rparr> = b" "pop_undo (b_history b) = Some (b_history b, None)" using assms(3) by (simp_all add: pop_undo_def)
  then have "buffer_undo b = Some (b, None)" by (simp add: buffer_undo_def undo_or_redo_entry_def)
  moreover have "tl_undo (timeline b ps) = timeline b ps" using Nil by (simp add: tl_undo_def)
  ultimately show ?thesis using assms(1) buffer_text [OF assms(1)] Nil
    by (intro exI [of _ b] exI [of _ None] exI [of _ ps]) (simp add: list_last_def)
next
  case (snoc S e)
  then have fits: "undo_fits b (edit_ids e)" using assms(4) by simp
  show ?thesis
  proof (rule buffer_undo_ok [OF assms(1,3) snoc assms(2) fits])
    fix b' op ps'
    assume u: "buffer_undo b = Some (b', Some (transaction_id e, op))" "buffer_ok seen b' ps'" "timeline b' ps' = tl_undo (timeline b ps)"
    then show ?thesis using buffer_text [OF u(2)] timeline_simps(2) [of b' ps'] snoc
      by (intro exI [of _ b'] exI [of _ "Some (transaction_id e, op)"] exI [of _ ps']) (simp add: list_last_def)
  qed
qed

theorem buffer_undo_refines_witness:
  "\<exists>r b' res. buffer_undo (sample_buffer r UndoMap_default False) = Some (b', res) \<and> map_option fst res = Some (Lamport 2 1) \<and>
    rope_text (bs_visible_text (b_snapshot b')) = [104, 105]"
proof -
  obtain r where r: "rope_ok r" "rope_text r = [104, 105]" "[104, 105] \<noteq> ([] :: ustr)" "text_len [104, 105] < 2 ^ 32" "height (rope_chunks r) \<le> 6"
    by (rule small_rope)
  note b = sample_buffers(1) [OF r, of "\<lambda>_. []"] sample_buffers(2) [OF r]
  let ?b = "sample_buffer r UndoMap_default False"
  have "undo_fits ?b (edit_ids (last (hi_undo_stack (b_history ?b))))" using sample_fits(1) by simp
  from buffer_undo_refines [OF b sample_sel(3) this] obtain b' res where u: "buffer_undo ?b = Some (b', res)"
    "rope_text (bs_visible_text (b_snapshot b')) = tl_current (tl_undo (timeline ?b (sample_pieces [104, 105] False)))"
    "map_option fst res = map_option transaction_id (list_last (hi_undo_stack (b_history ?b)))" by blast
  have "shown (\<lambda>i. i = sample_edit) (sample_fragment [104, 105] False)" by (simp add: shown_def base_timestamp_def sample_edit_def Lamport_new_def)
  then have "tl_current (tl_undo (timeline ?b (sample_pieces [104, 105] False))) = [104, 105]"
    by (simp add: tl_undo_def sample_undone_edits)
  then show ?thesis using u by (intro exI [of _ r] exI [of _ b'] exI [of _ res]) (simp add: list_last_def)
qed

text \<open>(C7) Redo moves one text forward: outside of a transaction \<open>redo\<close> never fails, keeps the invariant,
  reports the transaction, shows the text that undoing it replaced, and leaves the one before to
  \<open>undo\<close>; without anything to redo it does nothing.\<close>

theorem buffer_redo_refines:
  assumes "buffer_ok seen b ps" "usable b" "hi_transaction_depth (b_history b) = 0"
    "hi_redo_stack (b_history b) \<noteq> [] \<Longrightarrow> undo_fits b (edit_ids (last (hi_redo_stack (b_history b))))"
  shows "\<exists>b' r ps'. buffer_redo b = Some (b', r) \<and> buffer_ok seen b' ps' \<and> timeline b' ps' = tl_redo (timeline b ps) \<and>
    rope_text (bs_visible_text (b_snapshot b')) = tl_current (tl_redo (timeline b ps)) \<and>
    map_option fst r = map_option transaction_id (list_last (hi_redo_stack (b_history b)))"
proof (cases "hi_redo_stack (b_history b)" rule: rev_cases)
  case Nil
  then have "b\<lparr>b_history := b_history b\<rparr> = b" "pop_redo (b_history b) = Some (b_history b, None)" using assms(3) by (simp_all add: pop_redo_def)
  then have "buffer_redo b = Some (b, None)" by (simp add: buffer_redo_def undo_or_redo_entry_def)
  moreover have "tl_redo (timeline b ps) = timeline b ps" using Nil by (simp add: tl_redo_def)
  ultimately show ?thesis using assms(1) buffer_text [OF assms(1)] Nil
    by (intro exI [of _ b] exI [of _ None] exI [of _ ps]) (simp add: list_last_def)
next
  case (snoc S e)
  then have fits: "undo_fits b (edit_ids e)" using assms(4) by simp
  show ?thesis
  proof (rule buffer_redo_ok [OF assms(1,3) snoc assms(2) fits])
    fix b' op ps'
    assume u: "buffer_redo b = Some (b', Some (transaction_id e, op))" "buffer_ok seen b' ps'" "timeline b' ps' = tl_redo (timeline b ps)"
    then show ?thesis using buffer_text [OF u(2)] timeline_simps(2) [of b' ps'] snoc
      by (intro exI [of _ b'] exI [of _ "Some (transaction_id e, op)"] exI [of _ ps']) (simp add: list_last_def)
  qed
qed

theorem buffer_redo_refines_witness:
  "\<exists>r b' res. buffer_redo (sample_buffer r sample_undone True) = Some (b', res) \<and> map_option fst res = Some (Lamport 2 1) \<and>
    rope_text (bs_visible_text (b_snapshot b')) = []"
proof -
  obtain r where r: "rope_ok r" "rope_text r = [104, 105]" "[104, 105] \<noteq> ([] :: ustr)" "text_len [104, 105] < 2 ^ 32" "height (rope_chunks r) \<le> 6"
    by (rule small_rope)
  note b = sample_buffers(3) [OF r, of "\<lambda>_. []"] sample_buffers(4) [OF r]
  let ?b = "sample_buffer r sample_undone True"
  have "undo_fits ?b (edit_ids (last (hi_redo_stack (b_history ?b))))" using sample_fits(2) by simp
  from buffer_redo_refines [OF b sample_sel(3) this] obtain b' res where u: "buffer_redo ?b = Some (b', res)"
    "rope_text (bs_visible_text (b_snapshot b')) = tl_current (tl_redo (timeline ?b (sample_pieces [104, 105] True)))"
    "map_option fst res = map_option transaction_id (list_last (hi_redo_stack (b_history ?b)))" by blast
  have "\<not> shown (\<lambda>i. False) (sample_fragment [104, 105] True)" by (simp add: shown_def)
  then have "tl_current (tl_redo (timeline ?b (sample_pieces [104, 105] True))) = []"
    by (simp add: tl_redo_def sample_undone_edits)
  then show ?thesis using u by (intro exI [of _ r] exI [of _ b'] exI [of _ res]) (simp add: list_last_def)
qed

text \<open>(C13) Undoing to a transaction moves back over all transactions from it on, one text each, and redoing to
  one moves forward over all up to it: both reach every text of the line, keep the invariant, and make
  one operation for each transaction.\<close>

theorem buffer_moves_to_transaction:
  assumes "buffer_ok seen b ps" "hi_transaction_depth (b_history b) = 0"
    and "hi_undo_stack (b_history b) = S @ e # R"
      "all_fit (b\<lparr>b_history := (b_history b)\<lparr>hi_undo_stack := S, hi_redo_stack := hi_redo_stack (b_history b) @ rev (e # R)\<rparr>\<rparr>) (rev (e # R))"
    and "buffer_ok seen c qs" "hi_transaction_depth (b_history c) = 0"
    and "hi_redo_stack (b_history c) = T @ f # Q"
      "all_fit (c\<lparr>b_history := (b_history c)\<lparr>hi_undo_stack := hi_undo_stack (b_history c) @ rev (f # Q), hi_redo_stack := T\<rparr>\<rparr>) (rev (f # Q))"
  shows "(\<exists>b' ops ps'. undo_to_transaction b (transaction_id e) = Some (b', ops) \<and> length ops = Suc (length R) \<and> buffer_ok seen b' ps' \<and>
      timeline b' ps' = (tl_undo ^^ Suc (length R)) (timeline b ps)) \<and>
    (\<exists>c' ops qs'. redo_to_transaction c (transaction_id f) = Some (c', ops) \<and> length ops = Suc (length Q) \<and> buffer_ok seen c' qs' \<and>
      timeline c' qs' = (tl_redo ^^ Suc (length Q)) (timeline c qs))"
proof
  show "\<exists>b' ops ps'. undo_to_transaction b (transaction_id e) = Some (b', ops) \<and> length ops = Suc (length R) \<and> buffer_ok seen b' ps' \<and>
      timeline b' ps' = (tl_undo ^^ Suc (length R)) (timeline b ps)"
    by (rule undo_to_transaction_ok [OF assms(1-4)]) blast
  show "\<exists>c' ops qs'. redo_to_transaction c (transaction_id f) = Some (c', ops) \<and> length ops = Suc (length Q) \<and> buffer_ok seen c' qs' \<and>
      timeline c' qs' = (tl_redo ^^ Suc (length Q)) (timeline c qs)"
    by (rule redo_to_transaction_ok [OF assms(5-8)]) blast
qed

theorem buffer_moves_to_transaction_witness:
  "\<exists>r b' c' ops qs'. undo_to_transaction (sample_buffer r UndoMap_default False) (Lamport 2 1) = Some (b', ops) \<and> length ops = 1 \<and>
    redo_to_transaction (sample_buffer r sample_undone True) (Lamport 2 1) = Some (c', qs') \<and> length qs' = 1"
proof -
  obtain r where r: "rope_ok r" "rope_text r = [104, 105]" "[104, 105] \<noteq> ([] :: ustr)" "text_len [104, 105] < 2 ^ 32" "height (rope_chunks r) \<le> 6"
    by (rule small_rope)
  note b = sample_buffers(1) [OF r, of "\<lambda>_. []"] sample_buffers(2) [OF r] sample_buffers(3) [OF r, of "\<lambda>_. []"] sample_buffers(4) [OF r]
  let ?b = "sample_buffer r UndoMap_default False" and ?c = "sample_buffer r sample_undone True" and ?e = sample_entry_of
  have stacks: "hi_undo_stack (b_history ?b) = [] @ ?e # []" "hi_redo_stack (b_history ?c) = [] @ ?e # []" by simp_all
  have fits: "undo_fits ?b (edit_ids ?e)" "undo_fits ?c (edit_ids ?e)" using sample_fits by simp_all
  have all: "all_fit (?b\<lparr>b_history := (b_history ?b)\<lparr>hi_undo_stack := [], hi_redo_stack := hi_redo_stack (b_history ?b) @ rev (?e # [])\<rparr>\<rparr>) (rev (?e # []))"
    "all_fit (?c\<lparr>b_history := (b_history ?c)\<lparr>hi_undo_stack := hi_undo_stack (b_history ?c) @ rev (?e # []), hi_redo_stack := []\<rparr>\<rparr>) (rev (?e # []))"
    using fit_one [OF b(2) fits(1)] fit_one [OF b(4) fits(2)] by (simp_all del: all_fit.simps)
  from buffer_moves_to_transaction [OF b(1) sample_sel(3) stacks(1) all(1) b(3) sample_sel(3) stacks(2) all(2)]
  show ?thesis by (intro exI [of _ r]) auto
qed

text \<open>(C12) Undoing one transaction out of order takes back exactly its edits: \<open>undo_transaction\<close> succeeds, keeps
  the invariant, and shows the text in which the edits of that transaction count as undone and all other
  edits as before.\<close>

theorem undo_transaction_shows:
  assumes "buffer_ok seen b ps" "hi_transaction_depth (b_history b) = 0" "hi_undo_stack (b_history b) = S @ e # R"
    "usable b" "undo_fits b (edit_ids e)"
  shows "\<exists>b' op ps'. undo_transaction b (transaction_id e) = Some (b', Some op) \<and> buffer_ok seen b' ps' \<and>
    rope_text (bs_visible_text (b_snapshot b')) =
      shown_text (\<lambda>i. edit_undone (bs_undo_map (b_snapshot b)) i \<or> i \<in> set (edit_ids e)) ps \<and>
    hi_undo_stack (b_history b') = S @ R \<and> hi_redo_stack (b_history b') = hi_redo_stack (b_history b) @ [e]"
proof (rule undo_transaction_ok [OF assms])
  fix b' op ps'
  assume u: "undo_transaction b (transaction_id e) = Some (b', Some op)" "buffer_ok seen b' ps'"
    "vis ps' = shown_text (\<lambda>i. edit_undone (bs_undo_map (b_snapshot b)) i \<or> i \<in> set (edit_ids e)) ps"
    "hi_undo_stack (b_history b') = S @ R" "hi_redo_stack (b_history b') = hi_redo_stack (b_history b) @ [e]"
  then show ?thesis using buffer_text [OF u(2)] by (intro exI [of _ b'] exI [of _ op] exI [of _ ps']) simp
qed

theorem undo_transaction_shows_witness:
  "\<exists>r b' op. undo_transaction (sample_buffer r UndoMap_default False) (Lamport 2 1) = Some (b', Some op) \<and>
    rope_text (bs_visible_text (b_snapshot b')) = [104, 105]"
proof -
  obtain r where r: "rope_ok r" "rope_text r = [104, 105]" "[104, 105] \<noteq> ([] :: ustr)" "text_len [104, 105] < 2 ^ 32" "height (rope_chunks r) \<le> 6"
    by (rule small_rope)
  note b = sample_buffers(1) [OF r, of "\<lambda>_. []"] sample_buffers(2) [OF r]
  let ?b = "sample_buffer r UndoMap_default False" and ?e = sample_entry_of
  have stack: "hi_undo_stack (b_history ?b) = [] @ ?e # []" and fits: "undo_fits ?b (edit_ids ?e)" using sample_fits(1) by simp_all
  have "shown (\<lambda>i. i = sample_edit) (sample_fragment [104, 105] False)" by (simp add: shown_def base_timestamp_def sample_edit_def Lamport_new_def)
  then have "shown_text (\<lambda>i. edit_undone (bs_undo_map (b_snapshot ?b)) i \<or> i \<in> set (edit_ids ?e)) (sample_pieces [104, 105] False) = [104, 105]"
    by (simp add: sample_undone_edits)
  then show ?thesis using undo_transaction_shows [OF b(1) sample_sel(3) stack b(2) fits] by auto
qed

text \<open>(C11) The fragments of edits: the identifiers that \<open>fragment_ids_for_edits\<close> returns are sorted and without
  repetition, belong to fragments of the buffer, and include every fragment that one of the edits has
  inserted or deleted, however often it has been split since.\<close>

theorem undo_fragments_complete:
  assumes "snapshot_ok s ps" "shallow s"
  shows "\<exists>locs. fragment_ids_for_edits s es = Some locs \<and> sorted_wrt (<) locs \<and> set locs \<subseteq> set (frag_ids ps) \<and>
    {frag_id (fst p) | p. p \<in> set ps \<and> affecting (fst p) \<inter> set es \<noteq> {}} \<subseteq> set locs"
proof -
  have s: "fragments_ok s ps" "visibility_ok s ps" "height (bs_insertions s) < 16" "tm_usable (bs_insertion_slices s)"
    using assms by (simp_all add: snapshot_ok_def shallow_def)
  show ?thesis by (rule fragment_ids_ok [OF s, of es]) (auto intro!: exI)
qed

theorem undo_fragments_complete_witness:
  "\<exists>r. fragment_ids_for_edits (b_snapshot (sample_buffer r UndoMap_default False)) [sample_edit] = Some [between Locator_min Locator_max]"
proof -
  obtain r where r: "rope_ok r" "rope_text r = [104, 105]" "[104, 105] \<noteq> ([] :: ustr)" "text_len [104, 105] < 2 ^ 32" "height (rope_chunks r) \<le> 6"
    by (rule small_rope)
  let ?s = "b_snapshot (sample_buffer r UndoMap_default False)" and ?ps = "sample_pieces [104, 105] False"
  have "snapshot_ok ?s ?ps" "shallow ?s" using sample_buffers(1) [OF r, of "\<lambda>_. []"] sample_buffers(2) [OF r] by (simp_all add: buffer_ok_def usable_def)
  from undo_fragments_complete [OF this, of "[sample_edit]"] obtain locs where l: "fragment_ids_for_edits ?s [sample_edit] = Some locs" "sorted_wrt (<) locs"
    "set locs \<subseteq> set (frag_ids ?ps)" "{frag_id (fst p) | p. p \<in> set ?ps \<and> affecting (fst p) \<inter> set [sample_edit] \<noteq> {}} \<subseteq> set locs" by blast
  have "set locs = {between Locator_min Locator_max}" using l(3,4) by (auto simp: frag_ids_def affecting_def)
  then have "locs = [between Locator_min Locator_max]" using l(2) by (cases locs; cases "tl locs") auto
  then show ?thesis using l(1) by blast
qed

end
