(* ===== verification/Text_Anchor_Find.thy ===== *)
theory Text_Anchor_Find
  imports Text_Anchor Text_Buffer_Correct
begin

text \<open>
  Anchors in a buffer that satisfies its invariant: the fragment of an anchor is found, an anchor stands
  before or after a byte of the text, deleted text included, and its offset counts the visible bytes
  up to there.
\<close>

section \<open>The fragment of an anchor\<close>

text \<open>The fragment has the byte that the anchor is attached to.\<close>

definition holds_anchor :: "Fragment \<Rightarrow> Anchor \<Rightarrow> bool" where
  "holds_anchor f a \<longleftrightarrow> frag_timestamp f = an_timestamp a \<and>
     (case an_bias a of Bias.Left \<Rightarrow> f_off f < unat (an_offset a) \<and> unat (an_offset a) \<le> f_end f
      | Bias.Right \<Rightarrow> f_off f \<le> unat (an_offset a) \<and> unat (an_offset a) < f_end f)"

lemma not_last_offset: "unat (w :: 32 word) < n \<Longrightarrow> n < 2 ^ 32 \<Longrightarrow> w \<noteq> - 1"
  by (auto simp: unsigned_minus_1_eq_mask mask_eq_exp_minus_1)

lemma holds_anchor_inside: "holds_anchor f a \<Longrightarrow> f_end f < 2 ^ 32 \<Longrightarrow> \<not> is_min a \<and> \<not> is_max a"
  using not_last_offset [of "an_offset a" "f_end f"] by (auto simp: holds_anchor_def is_min_def is_max_def)

lemma passes_anchor:
  "passes (cmp (InsertionFragmentKey t u)) bias (key_of g) \<longleftrightarrow> frag_timestamp g < t \<or>
     frag_timestamp g = t \<and> (case bias of Bias.Left \<Rightarrow> f_off g < unat u | Bias.Right \<Rightarrow> f_off g \<le> unat u)"
  by (cases bias) (auto simp: insertion_tree.passes_key key_of_def f_off_def less_InsertionFragmentKey_def less_eq_InsertionFragmentKey_def
      word_less_nat_alt word_le_nat_alt)

lemma key_of_less: "key_of f < key_of g \<longleftrightarrow> frag_timestamp f < frag_timestamp g \<or> frag_timestamp f = frag_timestamp g \<and> f_off f < f_off g"
  by (simp add: key_of_def f_off_def less_InsertionFragmentKey_def word_less_nat_alt)

lemma insertions_around:
  assumes "fragments_ok s (B @ (f, t) # A)" "holds_anchor f a"
  obtains L R where "flatten (bs_insertions s) = L @ InsertionFragment_new f # R"
    "\<forall>x \<in> set (L @ [InsertionFragment_new f]). passes (cmp (InsertionFragmentKey (an_timestamp a) (an_offset a))) (an_bias a) (insertion_key x)"
    "\<forall>x \<in> set R. \<not> passes (cmp (InsertionFragmentKey (an_timestamp a) (an_offset a))) (an_bias a) (insertion_key x)"
proof -
  let ?ps = "B @ (f, t) # A" and ?k = "InsertionFragmentKey (an_timestamp a) (an_offset a)"
  let ?xs = "flatten (bs_insertions s)"
  have items: "set ?xs = (\<lambda>p. InsertionFragment_new (fst p)) ` set ?ps" by (rule insertion_items [OF assms(1)])
  have spans: "spans_ok (map fst ?ps)" and sorted: "keys_sorted insertion_key ?xs" and ok: "\<forall>p \<in> set ?ps. piece_ok p"
    using assms(1) by (simp_all add: fragments_ok_def tree_pieces_def)
  have "InsertionFragment_new f \<in> set ?xs" unfolding items by (rule image_eqI [of _ _ "(f, t)"]) simp_all
  then obtain L R where xs: "?xs = L @ InsertionFragment_new f # R" by (meson split_list)
  have key: "passes (cmp ?k) (an_bias a) (key_of f)"
    using assms(2) unfolding passes_anchor holds_anchor_def by (auto split: Bias.splits)
  have le: "insertion_key x \<le> key_of f" if "x \<in> set (L @ [InsertionFragment_new f])" for x
    using that sorted unfolding xs keys_sorted_simps by (auto simp: key_of_new intro: order.strict_implies_order)
  have down: "passes (cmp ?k) (an_bias a) j" if "j \<le> key_of f" for j
    using key that by (cases "an_bias a") (auto simp: insertion_tree.passes_key)
  have "\<not> passes (cmp ?k) (an_bias a) (insertion_key x)" if x: "x \<in> set R" for x
  proof
    assume pass: "passes (cmp ?k) (an_bias a) (insertion_key x)"
    have gt: "key_of f < insertion_key x" using sorted x unfolding xs keys_sorted_simps by (simp add: key_of_new)
    have "x \<in> set ?xs" using x unfolding xs by simp
    then obtain p where "p \<in> set ?ps" "x = InsertionFragment_new (fst p)" unfolding items by blast
    then obtain g u where g: "(g, u) \<in> set ?ps" "x = InsertionFragment_new g" by (metis prod.collapse)
    then have kx: "insertion_key x = key_of g" by (simp add: key_of_new)
    have ts: "frag_timestamp f = an_timestamp a" using assms(2) by (simp add: holds_anchor_def)
    have same: "frag_timestamp g = frag_timestamp f" using gt pass unfolding kx key_of_less passes_anchor ts by (metis less_asym)
    have near: "f_off f < f_off g" "f_off g < f_end f"
      using gt pass assms(2) unfolding kx key_of_less passes_anchor holds_anchor_def same ts by (simp_all split: Bias.splits)
    have "(g, u) \<in> set B \<or> (g, u) \<in> set A" using g(1) near(1) by auto
    then have "apart g f \<or> apart f g"
    proof
      assume "(g, u) \<in> set B"
      then show ?thesis using spans unfolding map_append list.map spans_ok_simps by fastforce
    next
      assume "(g, u) \<in> set A"
      then have "g \<in> set (map fst A)" by force
      then show ?thesis using spans unfolding map_append list.map spans_ok_simps fst_conv by blast
    qed
    moreover have "0 < frag_len g" using piece_positive bspec [OF ok g(1)] by force
    then have "f_off g < f_end g" by (simp add: f_end_def word_less_nat_alt)
    ultimately show False using near same by (auto simp: apart_def)
  qed
  then have "\<forall>x \<in> set R. \<not> passes (cmp ?k) (an_bias a) (insertion_key x)" by (rule ballI)
  moreover have "\<forall>x \<in> set (L @ [InsertionFragment_new f]). passes (cmp ?k) (an_bias a) (insertion_key x)"
    by (rule ballI) (rule down [OF le])
  ultimately show thesis using that [OF xs] by blast
qed

lemma tree_find_with_prev_key:
  assumes "wf_tree insertion_ops t" "keys_sorted insertion_key (flatten t)" "flatten t = S @ x # R"
    and "\<forall>y \<in> set (S @ [x]). passes (cmp k) bias (insertion_key y)" "\<forall>y \<in> set R. \<not> passes (cmp k) bias (insertion_key y)"
  obtains p e where "tree_find_with_prev insertion_dim t (cmp k) bias = Some (p, e, map_option (Pair (Some x)) (list_first R))"
proof -
  have sorted: "insertion_tree.sorted_from (dim_zero insertion_dim) (flatten t)" using insertion_tree.sorted_from_zero [OF assms(2)] .
  then have pos: "insertion_tree.sorted_from (dim_zero insertion_dim) (S @ [x])" unfolding assms(3) by simp
  have scan: "insertion_tree.scan (passes (cmp k) bias) (dim_zero insertion_dim) (flatten t) =
    (S @ [x], insertion_tree.adv (dim_zero insertion_dim) (S @ [x]), R)"
  proof -
    have stop: "insertion_tree.scan (passes (cmp k) bias) q R = ([], q, R)" if "insertion_tree.sorted_from q R" for q
      using assms(5) that by (cases R) (simp_all add: Let_def insertion_tree.key_position)
    have "insertion_tree.sorted_from (insertion_tree.adv (dim_zero insertion_dim) (S @ [x])) R"
      by (rule insertion_tree.sorted_from_after) (use assms(2,3) in simp)
    from stop [OF this] show ?thesis
      using seek_linear_skip [of insertion_dim "item_summary insertion_ops" "dim_zero insertion_dim" "S @ [x]" "passes (cmp k) bias" R]
        insertion_tree.positions_keys [OF pos] assms(3,4) by simp
  qed
  have ne: "flatten t \<noteq> []" using assms(3) by simp
  show thesis
    by (rule that) (simp add: insertion_tree.tree_find_ok(2) [OF assms(1) ne insertion_tree.monot_key [OF sorted] scan] list_last_def)
qed

lemma try_find_fragment_ok:
  assumes "fragments_ok s (B @ (f, t) # A)" "holds_anchor f a"
  shows "try_find_fragment s a = Some (Some (InsertionFragment_new f))"
proof (rule insertions_around [OF assms])
  fix L R
  let ?k = "InsertionFragmentKey (an_timestamp a) (an_offset a)"
  assume xs: "flatten (bs_insertions s) = L @ InsertionFragment_new f # R"
    and pass: "\<forall>x \<in> set (L @ [InsertionFragment_new f]). passes (cmp ?k) (an_bias a) (insertion_key x)"
    and stop: "\<forall>x \<in> set R. \<not> passes (cmp ?k) (an_bias a) (insertion_key x)"
  have wf: "wf_tree insertion_ops (bs_insertions s)" "keys_sorted insertion_key (flatten (bs_insertions s))"
    using assms(1) by (simp_all add: fragments_ok_def)
  show ?thesis
  proof (rule tree_find_with_prev_key [OF wf xs pass stop])
    fix p e
    assume find: "tree_find_with_prev insertion_dim (bs_insertions s) (cmp ?k) (an_bias a) =
      Some (p, e, map_option (Pair (Some (InsertionFragment_new f))) (list_first R))"
    show ?thesis
    proof (cases R)
      case Nil
      then show ?thesis using find insertion_tree.first_last_ok(2) [OF wf(1)] xs by (simp add: try_find_fragment_def list_first_def list_last_def)
    next
      case (Cons y ys)
      then have "?k \<le> insertion_key y \<and> (an_bias a = Bias.Right \<longrightarrow> ?k < insertion_key y)"
        using stop by (cases "an_bias a") (auto simp: insertion_tree.passes_key)
      moreover have "an_bias a = Bias.Left \<Longrightarrow> 0 < an_offset a" using assms(2) by (auto simp: holds_anchor_def word_less_nat_alt)
      ultimately show ?thesis using find Cons by (cases "an_bias a") (auto simp: try_find_fragment_def list_first_def cmp_def Let_def)
    qed
  qed
qed

section \<open>Offsets\<close>

lemma find_fragment_ok:
  assumes "fragments_ok s (B @ (f, t) # A)"
  shows "\<exists>e. tree_find undo_dims (bs_fragments s) (fst_target (cmp (Some (frag_id f)))) Bias.Left =
    (undo_cursor.adv (dim_zero undo_dims) (map fst B), e, Some f)"
    and "snd (undo_cursor.adv (dim_zero undo_dims) (map fst B)) = text_len (vis B)"
proof -
  let ?ps = "B @ (f, t) # A"
  have T: "wf_tree fragment_ops (bs_fragments s)" "flatten (bs_fragments s) = map fst ?ps" and ok: "\<forall>p \<in> set ?ps. piece_ok p"
    and ids: "ids_ok (frag_ids ?ps)" using assms by (simp_all add: fragments_ok_def tree_pieces_def)
  have sorted: "sorted_wrt (<) (frag_ids ?ps)" using ids by (simp add: ids_ok_def sorted_wrt_append)
  then have "\<forall>q \<in> set B. frag_id (fst q) < frag_id (fst (f, t))" by (auto simp: sorted_wrt_append frag_ids_def)
  from id_scan [OF ok this] have scan: "undo_cursor.scan (passes (id_target (frag_id f)) Bias.Left) (dim_zero undo_dims) (flatten (bs_fragments s)) =
    (map fst B, undo_cursor.adv (dim_zero undo_dims) (map fst B), f # map fst A)" unfolding T(2) by simp
  have ne: "flatten (bs_fragments s) \<noteq> []" using T(2) by simp
  have "undo_cursor.monot (passes (id_target (frag_id f)) Bias.Left) (dim_zero undo_dims) (flatten (bs_fragments s))"
    unfolding T(2) by (rule id_monot [OF ok sorted])
  from undo_cursor.tree_find_ok(1) [OF T(1) ne this scan]
  show "\<exists>e. tree_find undo_dims (bs_fragments s) (fst_target (cmp (Some (frag_id f)))) Bias.Left =
    (undo_cursor.adv (dim_zero undo_dims) (map fst B), e, Some f)" by (simp add: list_first_def)
  have "\<forall>p \<in> set B. piece_ok p" using ok by simp
  from advance_undo [OF this] show "snd (undo_cursor.adv (dim_zero undo_dims) (map fst B)) = text_len (vis B)"
    by (simp add: undo_dims_def Dimensions_def visible_dim_def)
qed

lemma offset_for_anchor_ok:
  assumes "fragments_ok s (B @ (f, t) # A)" "holds_anchor f a"
  shows "offset_for_anchor s a = Some (text_len (vis B) + (if frag_visible f then unat (an_offset a) - f_off f else 0))"
    and "is_valid a s = Some (an_buffer_id a = bs_remote_id s \<and> frag_visible f)"
    and "fragment_id_for_anchor s a = Some (frag_id f)"
proof -
  have "f_end f < 2 ^ 32" using assms(1) by (simp add: fragments_ok_def spans_ok_def)
  from holds_anchor_inside [OF assms(2) this] have inside: "\<not> is_min a" "\<not> is_max a" by blast+
  note found = try_find_fragment_ok [OF assms]
  obtain e where find: "tree_find undo_dims (bs_fragments s) (fst_target (cmp (Some (frag_id f)))) Bias.Left =
    (undo_cursor.adv (dim_zero undo_dims) (map fst B), e, Some f)" using find_fragment_ok(1) [OF assms(1)] by blast
  have "f_off f \<le> unat (an_offset a)" "if_timestamp (InsertionFragment_new f) = an_timestamp a"
    using assms(2) by (auto simp: holds_anchor_def InsertionFragment_new_def split: Bias.splits)
  moreover from this have "unat (an_offset a - frag_insertion_offset f) = unat (an_offset a) - f_off f"
    by (simp add: f_off_def unat_sub word_le_nat_alt)
  ultimately show "offset_for_anchor s a = Some (text_len (vis B) + (if frag_visible f then unat (an_offset a) - f_off f else 0))"
    using inside found find find_fragment_ok(2) [OF assms(1)] by (simp add: offset_for_anchor_def InsertionFragment_new_def Let_def)
  have "try_fragment_id_for_anchor s a = Some (Some (frag_id f))"
    using inside found by (simp add: try_fragment_id_for_anchor_def InsertionFragment_new_def)
  then show "is_valid a s = Some (an_buffer_id a = bs_remote_id s \<and> frag_visible f)" "fragment_id_for_anchor s a = Some (frag_id f)"
    using inside find by (simp_all add: is_valid_def fragment_id_for_anchor_def)
qed

section \<open>Anchors at visible offsets\<close>

text \<open>Whether a seek to an offset passes a position.\<close>

definition beyond :: "Bias \<Rightarrow> nat \<Rightarrow> nat \<Rightarrow> bool" where
  "beyond bias off q \<longleftrightarrow> (case bias of Bias.Left \<Rightarrow> q < off | Bias.Right \<Rightarrow> q \<le> off)"

lemma passes_offset: "passes (cmp off) bias = beyond bias off"
  by (cases bias) (auto simp: passes_def beyond_def fun_eq_iff)

lemma beyond_down: "beyond bias off q \<Longrightarrow> q' \<le> q \<Longrightarrow> beyond bias off q'"
  by (cases bias) (auto simp: beyond_def)

lemma visible_add: "piece_ok p \<Longrightarrow> dim_add visible_dim q (item_summary fragment_ops (fst p)) = q + text_len (vis [p])"
  using fragment_sum_item(1) [of p] by (simp add: visible_dim_def)

lemma visible_find_scan:
  assumes "\<forall>p \<in> set ps. piece_ok p" "beyond bias off q" "\<not> beyond bias off (q + text_len (vis ps))"
  obtains B f t A where "ps = B @ (f, t) # A" "frag_visible f" "beyond bias off (q + text_len (vis B))" "\<not> beyond bias off (q + text_len (vis B) + text_len t)"
    "fragment_visible.scan (beyond bias off) q (map fst ps) = (map fst B, q + text_len (vis B), f # map fst A)"
  using assms
proof (induction ps arbitrary: q thesis)
  case (Cons p ps)
  obtain f t where p: "p = (f, t)" by (cases p)
  have ok: "piece_ok p" "\<forall>p \<in> set ps. piece_ok p" using Cons.prems(2) by simp_all
  let ?q = "q + text_len (vis [p])"
  have add: "dim_add visible_dim q (item_summary fragment_ops f) = ?q" using visible_add [OF ok(1)] p by simp
  show ?case
  proof (cases "beyond bias off ?q")
    case True
    have "\<not> beyond bias off (?q + text_len (vis ps))" using Cons.prems(4) by (simp add: add.assoc)
    then obtain B g u A where i: "ps = B @ (g, u) # A" "frag_visible g" "beyond bias off (?q + text_len (vis B))"
      "\<not> beyond bias off (?q + text_len (vis B) + text_len u)"
      "fragment_visible.scan (beyond bias off) ?q (map fst ps) = (map fst B, ?q + text_len (vis B), g # map fst A)"
      using Cons.IH [OF _ ok(2) True] by metis
    show ?thesis by (rule Cons.prems(1) [of "p # B" g u A]) (use i True add p in \<open>simp_all add: Let_def add.assoc\<close>)
  next
    case False
    then have f: "frag_visible f" using Cons.prems(3) p by (auto split: if_splits)
    show ?thesis by (rule Cons.prems(1) [of "[]" f t ps]) (use False f p Cons.prems(3) add in \<open>simp_all add: Let_def\<close>)
  qed
qed simp

lemma visible_positions_mono:
  "fragment_visible.monot (beyond bias off) q fs"
proof -
  have ge: "q' \<in> set (positions visible_dim (item_summary fragment_ops) q fs) \<Longrightarrow> q \<le> q'" for q q' fs
  proof (induction fs arbitrary: q)
    case (Cons f fs)
    let ?q = "dim_add visible_dim q (item_summary fragment_ops f)"
    have "q \<le> ?q" by (simp add: visible_dim_def)
    then show ?case using Cons.IH [of ?q] Cons.prems by (auto simp: Let_def)
  qed simp
  have "sorted_wrt (\<le>) (positions visible_dim (item_summary fragment_ops) q fs)"
    by (induction fs arbitrary: q) (auto simp: Let_def dest: ge)
  then show ?thesis unfolding seek_mono_def by (rule sorted_wrt_mono_rel [rotated]) (auto intro: beyond_down)
qed

lemma anchor_at_offset_ok:
  assumes s: "fragments_ok s ps" and off: "is_boundary (vis ps) off" "text_len (vis ps) < 2 ^ 32"
    and inner: "bias = Bias.Left \<Longrightarrow> 0 < off" "bias = Bias.Right \<Longrightarrow> off < text_len (vis ps)"
  obtains a B f t A where "anchor_at_offset s off bias = Some a" "an_bias a = bias" "an_buffer_id a = bs_remote_id s"
    "ps = B @ (f, t) # A" "frag_visible f" "holds_anchor f a" "off = text_len (vis B) + (unat (an_offset a) - f_off f)"
    "f_off f \<le> unat (an_offset a)"
proof -
  have r: "rope_ok (bs_visible_text s)" "rope_text (bs_visible_text s) = vis ps" and T: "wf_tree fragment_ops (bs_fragments s)" "flatten (bs_fragments s) = map fst ps"
    and ok: "\<forall>p \<in> set ps. piece_ok p" and spans: "spans_ok (map fst ps)"
    using s by (simp_all add: fragments_ok_def tree_pieces_def)
  have len: "rope_len (bs_visible_text s) = text_len (vis ps)" using rope_len_eq [OF r(1)] r(2) by simp
  have "off \<le> text_len (vis ps)" using off(1) by (rule is_boundary_bounds(1))
  then have range: "beyond bias off 0" "\<not> beyond bias off (0 + text_len (vis ps))" using inner by (cases bias; simp add: beyond_def)+
  show thesis
  proof (rule visible_find_scan [OF ok range])
    fix B f t A
    assume v: "ps = B @ (f, t) # A" "frag_visible f" "beyond bias off (0 + text_len (vis B))" "\<not> beyond bias off (0 + text_len (vis B) + text_len t)"
      "fragment_visible.scan (beyond bias off) 0 (map fst ps) = (map fst B, 0 + text_len (vis B), f # map fst A)"
    let ?k = "off - text_len (vis B)"
    have k: "text_len (vis B) \<le> off" "?k \<le> text_len t" "bias = Bias.Left \<Longrightarrow> 0 < ?k" "bias = Bias.Right \<Longrightarrow> ?k < text_len t"
      using v(3,4) by (cases bias; auto simp: beyond_def)+
    have ne: "flatten (bs_fragments s) \<noteq> []" using T(2) v(1) by simp
    have "tree_find visible_dim (bs_fragments s) (cmp off) bias = (text_len (vis B), text_len (vis B) + text_len (vis [(f, t)]), Some f)"
      using fragment_visible.tree_find_ok(1) [of "bs_fragments s" "cmp off" bias "map fst B" "text_len (vis B)" "f # map fst A"]
        T ne v(5) visible_positions_mono visible_add [of "(f, t)"] ok v(1)
      by (simp add: passes_offset visible_dim_def [THEN arg_cong, of dim_zero] list_first_def)
    moreover have "rope_assert_char_boundary False (bs_visible_text s) off = Some True" using rope_assert_eq [OF r(1)] r(2) off by simp
    moreover have "\<not> (bias = Bias.Left \<and> off = 0)" "\<not> (bias = Bias.Right \<and> rope_len (bs_visible_text s) \<le> off)" using inner len by auto
    ultimately have run: "anchor_at_offset s off bias =
        Some (Anchor_new (frag_timestamp f) (frag_insertion_offset f + word_of_nat ?k) bias (bs_remote_id s))"
      using k(1) by (auto simp: anchor_at_offset_def usize_sub_def)
    have "f_end f < 2 ^ 32" "f_end f = f_off f + text_len t" using spans v(1) ok by (simp_all add: spans_ok_simps f_end_def piece_ok_def)
    then have "unat (frag_insertion_offset f + word_of_nat ?k) = f_off f + ?k" "f_off f + ?k \<le> f_end f" "?k < text_len t \<Longrightarrow> f_off f + ?k < f_end f"
      using k(2) by (simp_all add: f_off_def unat_word_ariths unat_of_nat)
    then show thesis using that [OF run _ _ v(1,2)] k
      by (cases bias) (simp_all add: holds_anchor_def Anchor_new_def an_timestamp_def)
  qed
qed

end
