(* ===== verification/Text_Anchor_Place.thy ===== *)
theory Text_Anchor_Place
  imports Text_Anchor_Find
begin

text \<open>
  The place of an anchor among all bytes of a buffer, deleted ones included, and the offset that it
  has: the number of visible bytes up to there.
\<close>

section \<open>Places\<close>

text \<open>An anchor stands right after the byte it is attached to, or right before it.\<close>

definition anchored :: "Piece list \<Rightarrow> Anchor \<Rightarrow> nat \<Rightarrow> bool" where
  "anchored ps a n \<longleftrightarrow> is_min a \<and> n = 0 \<or> is_max a \<and> n = length (all_bytes ps) \<or>
     \<not> is_min a \<and> \<not> is_max a \<and>
     (case an_bias a of
        Bias.Left \<Rightarrow> 0 < n \<and> n \<le> length (all_bytes ps) \<and> 0 < unat (an_offset a) \<and>
          snd (all_bytes ps ! (n - 1)) = (an_timestamp a, unat (an_offset a) - 1)
      | Bias.Right \<Rightarrow> n < length (all_bytes ps) \<and> snd (all_bytes ps ! n) = (an_timestamp a, unat (an_offset a)))"

lemma piece_bytes_nth: "piece_ok (f, t) \<Longrightarrow> i < text_len t \<Longrightarrow> snd (piece_bytes (f, t) ! i) = (frag_timestamp f, f_off f + i)"
  by (simp add: piece_bytes_def origins_def piece_ok_def f_end_def)

lemma length_all_bytes: "\<forall>p \<in> set ps. piece_ok p \<Longrightarrow> length (all_bytes ps) = sum_list (map (\<lambda>p. text_len (snd p)) ps)"
  by (induction ps) (simp_all add: length_piece_bytes)

lemma byte_split:
  assumes "\<forall>p \<in> set ps. piece_ok p" "k < length (all_bytes ps)"
  obtains B f t A i where "ps = B @ (f, t) # A" "i < text_len t" "k = length (all_bytes B) + i"
    "snd (all_bytes ps ! k) = (frag_timestamp f, f_off f + i)"
  using assms
proof (induction ps arbitrary: k thesis)
  case (Cons p ps)
  obtain f t where p: "p = (f, t)" by (cases p)
  have ok: "piece_ok (f, t)" "\<forall>p \<in> set ps. piece_ok p" using Cons.prems(2) p by simp_all
  note len = length_piece_bytes [OF ok(1)]
  show ?case
  proof (cases "k < text_len t")
    case True
    then show ?thesis using Cons.prems(1) [of "[]" f t ps k] p len piece_bytes_nth [OF ok(1) True] by (simp add: nth_append)
  next
    case False
    then have "k - text_len t < length (all_bytes ps)" using Cons.prems(3) p len by simp
    then obtain B g u A i where i: "ps = B @ (g, u) # A" "i < text_len u" "k - text_len t = length (all_bytes B) + i"
      "snd (all_bytes ps ! (k - text_len t)) = (frag_timestamp g, f_off g + i)"
      using Cons.IH [OF _ ok(2)] by metis
    show ?thesis
      by (rule Cons.prems(1) [of "p # B" g u A i]) (use i False p len in \<open>simp_all add: nth_append\<close>)
  qed
qed simp

lemma split_byte:
  assumes "\<forall>p \<in> set (B @ (f, t) # A). piece_ok p" "i < text_len t"
  shows "snd (all_bytes (B @ (f, t) # A) ! (length (all_bytes B) + i)) = (frag_timestamp f, f_off f + i)"
    "length (all_bytes B) + i < length (all_bytes (B @ (f, t) # A))"
proof -
  have ok: "piece_ok (f, t)" using assms(1) by simp
  show "snd (all_bytes (B @ (f, t) # A) ! (length (all_bytes B) + i)) = (frag_timestamp f, f_off f + i)"
    "length (all_bytes B) + i < length (all_bytes (B @ (f, t) # A))"
    using piece_bytes_nth [OF ok assms(2)] assms(2) length_piece_bytes [OF ok] by (simp_all add: nth_append)
qed

lemma anchored_split:
  assumes ok: "\<forall>p \<in> set ps. piece_ok p" and a: "anchored ps a n" "\<not> is_min a" "\<not> is_max a"
  obtains B f t A where "ps = B @ (f, t) # A" "holds_anchor f a" "n = length (all_bytes B) + (unat (an_offset a) - f_off f)"
proof (cases "an_bias a")
  case Left
  then have l: "0 < n" "n - 1 < length (all_bytes ps)" "0 < unat (an_offset a)" "snd (all_bytes ps ! (n - 1)) = (an_timestamp a, unat (an_offset a) - 1)"
    using a by (auto simp: anchored_def)
  show thesis
  proof (rule byte_split [OF ok l(2)])
    fix B f t A i
    assume i: "ps = B @ (f, t) # A" "i < text_len t" "n - 1 = length (all_bytes B) + i" "snd (all_bytes ps ! (n - 1)) = (frag_timestamp f, f_off f + i)"
    have "f_end f = f_off f + text_len t" using ok i(1) by (simp add: f_end_def piece_ok_def)
    moreover have k: "an_timestamp a = frag_timestamp f" "unat (an_offset a) - 1 = f_off f + i" using i(4) l(4) by simp_all
    ultimately have "holds_anchor f a" using i(2) l(3) Left by (auto simp: holds_anchor_def)
    moreover have "n = length (all_bytes B) + (unat (an_offset a) - f_off f)" using k(2) l(1,3) i(3) by simp
    ultimately show thesis by (rule that [OF i(1)])
  qed
next
  case Right
  then have r: "n < length (all_bytes ps)" "snd (all_bytes ps ! n) = (an_timestamp a, unat (an_offset a))" using a by (auto simp: anchored_def)
  show thesis
  proof (rule byte_split [OF ok r(1)])
    fix B f t A i
    assume i: "ps = B @ (f, t) # A" "i < text_len t" "n = length (all_bytes B) + i" "snd (all_bytes ps ! n) = (frag_timestamp f, f_off f + i)"
    have "f_end f = f_off f + text_len t" using ok i(1) by (simp add: f_end_def piece_ok_def)
    then show thesis using that [OF i(1)] i(2-4) r Right by (auto simp: holds_anchor_def)
  qed
qed

lemma split_anchored:
  assumes ok: "\<forall>p \<in> set ps. piece_ok p" and ps: "ps = B @ (f, t) # A" "f_end f < 2 ^ 32" "holds_anchor f a"
  shows "anchored ps a (length (all_bytes B) + (unat (an_offset a) - f_off f))"
proof -
  have inside: "\<not> is_min a" "\<not> is_max a" using holds_anchor_inside [OF ps(3,2)] by blast+
  have len: "f_end f = f_off f + text_len t" using ok ps(1) by (simp add: f_end_def piece_ok_def)
  let ?k = "unat (an_offset a)"
  show ?thesis
  proof (cases "an_bias a")
    case Left
    then have "f_off f < ?k" "?k - 1 - f_off f < text_len t" "frag_timestamp f = an_timestamp a" using ps(3) len by (auto simp: holds_anchor_def)
    moreover from this have "length (all_bytes B) + (?k - f_off f) - 1 = length (all_bytes B) + (?k - 1 - f_off f)" by simp
    ultimately show ?thesis using split_byte [OF ok [unfolded ps(1)], of "?k - 1 - f_off f"] inside Left unfolding ps(1)
      by (simp add: anchored_def)
  next
    case Right
    then have "f_off f \<le> ?k" "?k - f_off f < text_len t" "frag_timestamp f = an_timestamp a" using ps(3) len by (auto simp: holds_anchor_def)
    then show ?thesis using split_byte [OF ok [unfolded ps(1)], of "?k - f_off f"] inside Right unfolding ps(1)
      by (simp add: anchored_def)
  qed
qed

text \<open>How many of the first \<open>n\<close> bytes are visible.\<close>

definition visible_flags :: "Piece list \<Rightarrow> bool list" where
  "visible_flags ps = concat (map (\<lambda>p. replicate (text_len (snd p)) (frag_visible (fst p))) ps)"

definition visible_before :: "Piece list \<Rightarrow> nat \<Rightarrow> nat" where
  "visible_before ps n = length (filter id (take n (visible_flags ps)))"

lemma visible_flags_simps [simp]:
  "visible_flags [] = []" "visible_flags (p # ps) = replicate (text_len (snd p)) (frag_visible (fst p)) @ visible_flags ps"
  "visible_flags (ps @ qs) = visible_flags ps @ visible_flags qs"
  by (simp_all add: visible_flags_def)

lemma length_filter_flags: "length (filter id (visible_flags ps)) = text_len (vis ps)"
  by (induction ps) auto

lemma length_visible_flags: "\<forall>p \<in> set ps. piece_ok p \<Longrightarrow> length (visible_flags ps) = length (all_bytes ps)"
  by (induction ps) (simp_all add: length_piece_bytes)

lemma visible_before_split:
  assumes "\<forall>p \<in> set (B @ (f, t) # A). piece_ok p" "i \<le> text_len t"
  shows "visible_before (B @ (f, t) # A) (length (all_bytes B) + i) = text_len (vis B) + (if frag_visible f then i else 0)"
proof -
  have "\<forall>p \<in> set B. piece_ok p" using assms(1) by simp
  from length_visible_flags [OF this] show ?thesis
    using assms(2) by (simp add: visible_before_def length_filter_flags)
qed

lemma visible_before_all: "\<forall>p \<in> set ps. piece_ok p \<Longrightarrow> visible_before ps (length (all_bytes ps)) = text_len (vis ps)"
  using length_visible_flags [of ps] by (simp add: visible_before_def length_filter_flags)

lemma visible_before_mono: "n \<le> m \<Longrightarrow> visible_before ps n \<le> visible_before ps m"
proof -
  assume "n \<le> m"
  then have "take m (visible_flags ps) = take n (visible_flags ps) @ take (m - n) (drop n (visible_flags ps))"
    using take_add [of n "m - n" "visible_flags ps"] by simp
  then show ?thesis by (simp add: visible_before_def)
qed

lemma anchored_offset:
  assumes "fragments_ok s ps" "anchored ps a n"
  shows "offset_for_anchor s a = Some (visible_before ps n)"
proof -
  have ok: "\<forall>p \<in> set ps. piece_ok p" and r: "rope_ok (bs_visible_text s)" "rope_text (bs_visible_text s) = vis ps"
    using assms(1) by (simp_all add: fragments_ok_def tree_pieces_def)
  show ?thesis
  proof (cases "is_min a \<or> is_max a")
    case True
    moreover have "\<not> (is_min a \<and> is_max a)" by (auto simp: is_min_def is_max_def)
    ultimately show ?thesis using assms(2) visible_before_all [OF ok] rope_len_eq [OF r(1)] r(2)
      by (auto simp: offset_for_anchor_def anchored_def visible_before_def)
  next
    case False
    then have inside: "\<not> is_min a" "\<not> is_max a" by blast+
    show ?thesis
    proof (rule anchored_split [OF ok assms(2) inside])
      fix B f t A
      assume i: "ps = B @ (f, t) # A" "holds_anchor f a" "n = length (all_bytes B) + (unat (an_offset a) - f_off f)"
      have "f_end f = f_off f + text_len t" using ok i(1) by (simp add: f_end_def piece_ok_def)
      then have "unat (an_offset a) - f_off f \<le> text_len t" using i(2) by (auto simp: holds_anchor_def split: Bias.splits)
      then show ?thesis using offset_for_anchor_ok(1) [OF assms(1) [unfolded i(1)] i(2)] visible_before_split [OF ok [unfolded i(1)]] i(1,3)
        by simp
    qed
  qed
qed

end
