(* ===== verification/Text_Anchor_Order.thy ===== *)
theory Text_Anchor_Order
  imports Text_Anchor_Place
begin

text \<open>
  The order of anchors is the order of their places, where of two anchors at the same place the one
  that is attached to the byte before comes first; and it stays the same when bytes are added.
\<close>

section \<open>The order of anchors is the order of their places\<close>

lemma two_splits:
  assumes "xs = B @ x # A" "xs = B' @ y # A'"
  obtains "B' = B" "y = x" "A' = A"
  | M where "xs = B @ x # M @ y # A'" "B' = B @ x # M"
  | M where "xs = B' @ y # M @ x # A" "B = B' @ y # M"
proof -
  have "B @ x # A = B' @ y # A'" using assms by simp
  then show thesis
    by (auto simp: append_eq_append_conv2 Cons_eq_append_conv append_eq_Cons_conv assms(1) intro: that)
qed

lemma then_with_simps [simp]: "then_with Equal b = b" "then_with Less b = Less" "then_with Greater b = Greater"
  by (simp_all add: then_with_def)

lemma then_with_assoc: "then_with (then_with a b) c = then_with a (then_with b c)"
  by (cases a) simp_all

lemma cmp_ordered: "a < b \<Longrightarrow> cmp a b = Less" "a < b \<Longrightarrow> cmp b a = Greater" "cmp a a = Equal"
  by simp_all

lemma cmp_pair: "cmp (x, a) (y, b) = then_with (cmp x y) (cmp a b)"
  by (simp add: cmp_def)

lemma cmp_word: "cmp (v :: 'a::len word) w = cmp (unat v) (unat w)"
  by (simp add: cmp_def word_less_nat_alt word_unat_eq_iff)

lemma same_fragment_order:
  assumes "holds_anchor f a" "holds_anchor f c"
  shows "Anchor_cmp a c s = Some (cmp (k + (unat (an_offset a) - f_off f), an_bias a) (k + (unat (an_offset c) - f_off f), an_bias c))"
proof -
  have "an_timestamp a = an_timestamp c" "f_off f \<le> unat (an_offset a)" "f_off f \<le> unat (an_offset c)"
    using assms by (auto simp: holds_anchor_def split: Bias.splits)
  then have "cmp (an_offset a) (an_offset c) = cmp (k + (unat (an_offset a) - f_off f)) (k + (unat (an_offset c) - f_off f))"
    unfolding cmp_word by (simp add: cmp_def) linarith
  then show ?thesis using \<open>an_timestamp a = an_timestamp c\<close> by (simp add: Anchor_cmp_def cmp_pair)
qed

lemma fragment_before_order:
  assumes s: "fragments_ok s (B @ (f, t) # M @ (g, u) # A)" and a: "holds_anchor f a" and c: "holds_anchor g c"
  defines "n \<equiv> length (all_bytes B) + (unat (an_offset a) - f_off f)"
    and "m \<equiv> length (all_bytes (B @ (f, t) # M)) + (unat (an_offset c) - f_off g)"
  shows "Anchor_cmp a c s = Some Less" "Anchor_cmp c a s = Some Greater"
    "cmp (n, an_bias a) (m, an_bias c) = Less" "cmp (m, an_bias c) (n, an_bias a) = Greater"
proof -
  have spans: "apart f g" and ids: "frag_id f < frag_id g" and ok: "piece_ok (f, t)"
    using s unfolding fragments_ok_def tree_pieces_def map_append list.map spans_ok_simps ids_ok_def
    by (auto simp: sorted_wrt_append frag_ids_def)
  have len: "f_end f = f_off f + text_len t" using ok by (simp add: f_end_def piece_ok_def)
  have off: "f_off f \<le> unat (an_offset a)" "unat (an_offset a) \<le> f_end f" "f_off g \<le> unat (an_offset c)"
    "an_bias a = Bias.Right \<Longrightarrow> unat (an_offset a) < f_end f" "an_bias c = Bias.Left \<Longrightarrow> f_off g < unat (an_offset c)"
    "frag_timestamp f = an_timestamp a" "frag_timestamp g = an_timestamp c"
    using a c by (auto simp: holds_anchor_def split: Bias.splits)
  have "length (all_bytes (B @ (f, t) # M)) = length (all_bytes B) + text_len t + length (all_bytes M)"
    using length_piece_bytes [OF ok] by simp
  then have le: "n \<le> m" "n = m \<Longrightarrow> an_bias a = Bias.Left \<and> an_bias c = Bias.Right"
    using off(1-5) len unfolding n_def m_def by (cases "an_bias a"; cases "an_bias c"; simp)+
  have biases: "cmp Bias.Left Bias.Right = Less" "cmp Bias.Right Bias.Left = Greater" by (simp_all add: cmp_def less_Bias_def)
  show "cmp (n, an_bias a) (m, an_bias c) = Less" "cmp (m, an_bias c) (n, an_bias a) = Greater"
    using le biases by (cases "n = m"; simp add: cmp_pair; simp add: cmp_def)+
  have "Anchor_cmp a c s = Some Less \<and> Anchor_cmp c a s = Some Greater"
  proof (cases "an_timestamp a = an_timestamp c")
    case True
    then have "f_end f \<le> f_off g" using spans off(6,7) by (simp add: apart_def)
    then have "unat (an_offset a) \<le> unat (an_offset c)" "unat (an_offset a) = unat (an_offset c) \<Longrightarrow> an_bias a = Bias.Left \<and> an_bias c = Bias.Right"
      using off(1-5) by (cases "an_bias a"; cases "an_bias c"; simp)+
    then show ?thesis using True biases
      by (cases "unat (an_offset a) = unat (an_offset c)") (simp_all add: Anchor_cmp_def cmp_word; simp add: cmp_def)+
  next
    case False
    have "fragment_id_for_anchor s a = Some (frag_id f)" using offset_for_anchor_ok(3) [OF s a] .
    moreover have "fragment_id_for_anchor s c = Some (frag_id g)" using offset_for_anchor_ok(3) [of s "B @ (f, t) # M" g u A c] s c by simp
    ultimately show ?thesis using False cmp_ordered(1,2) [OF ids] by (simp add: Anchor_cmp_def del: cmp_simps)
  qed
  then show "Anchor_cmp a c s = Some Less" "Anchor_cmp c a s = Some Greater" by blast+
qed

text \<open>The ends of the text.\<close>

lemma Anchor_cmp_ids:
  assumes "fragment_id_for_anchor s a = Some i" "fragment_id_for_anchor s c = Some j"
  shows "Anchor_cmp a c s = Some (then_with (if an_timestamp a = an_timestamp c then Equal else cmp i j)
    (cmp (an_offset a, an_bias a) (an_offset c, an_bias c)))"
  using assms by (simp add: Anchor_cmp_def cmp_pair then_with_assoc)

lemma end_ids: "is_min a \<Longrightarrow> fragment_id_for_anchor s a = Some Locator_min" "is_max a \<Longrightarrow> fragment_id_for_anchor s a = Some Locator_max"
  by (auto simp: fragment_id_for_anchor_def try_fragment_id_for_anchor_def is_min_def is_max_def)

lemma inner_id:
  assumes "fragments_ok s ps" "anchored ps c m" "\<not> is_min c" "\<not> is_max c"
  shows "\<exists>l. fragment_id_for_anchor s c = Some l \<and> Locator_min < l \<and> l < Locator_max"
proof -
  have "\<forall>p \<in> set ps. piece_ok p" using assms(1) by (simp add: fragments_ok_def tree_pieces_def)
  from anchored_split [OF this assms(2-4)] obtain B f t A where i: "ps = B @ (f, t) # A" "holds_anchor f c" by metis
  have "Locator_min < frag_id f" "frag_id f < Locator_max"
    using assms(1) i(1) by (auto simp: fragments_ok_def ids_ok_def frag_ids_def sorted_wrt_append)
  then show ?thesis using offset_for_anchor_ok(3) [OF assms(1) [unfolded i(1)] i(2)] by blast
qed

lemma ends_apart: "Lamport_MIN \<noteq> Lamport_MAX"
  by (simp add: Lamport_MIN_def Lamport_MAX_def)

text \<open>The minimal anchors come before all others, the maximal ones after them.\<close>

lemma not_both: "is_min a \<Longrightarrow> \<not> is_max a"
  using ends_apart by (auto simp: is_min_def is_max_def)

lemma anchored_cases:
  assumes "anchored ps a n"
  obtains "is_min a" "\<not> is_max a" "n = 0" "an_bias a = Bias.Left"
  | "is_max a" "\<not> is_min a" "n = length (all_bytes ps)" "an_bias a = Bias.Right"
  | "\<not> is_min a" "\<not> is_max a" "an_bias a = Bias.Left" "0 < n" "n \<le> length (all_bytes ps)"
  | "\<not> is_min a" "\<not> is_max a" "an_bias a = Bias.Right" "n < length (all_bytes ps)"
proof -
  have biases: "is_min a \<Longrightarrow> an_bias a = Bias.Left" "is_max a \<Longrightarrow> an_bias a = Bias.Right" by (simp_all add: is_min_def is_max_def)
  show thesis using assms biases not_both [of a] unfolding anchored_def by (cases "an_bias a"; simp) (metis that)+
qed

lemma place_ends:
  "anchored ps a n \<Longrightarrow> is_min a \<Longrightarrow> n = 0 \<and> an_bias a = Bias.Left"
  "anchored ps a n \<Longrightarrow> is_max a \<Longrightarrow> n = length (all_bytes ps) \<and> an_bias a = Bias.Right"
  by (erule anchored_cases; simp)+

lemma place_min: "anchored ps c m \<Longrightarrow> (0, Bias.Left) < (m, an_bias c) \<longleftrightarrow> \<not> is_min c"
  by (erule anchored_cases) (simp_all add: less_Bias_def)

lemma place_max: "anchored ps c m \<Longrightarrow> (m, an_bias c) < (length (all_bytes ps), Bias.Right) \<longleftrightarrow> \<not> is_max c"
  by (erule anchored_cases) (auto simp: less_Bias_def)

lemma place_beyond: "\<not> (m, b) < (0 :: nat, Bias.Left)" "anchored ps c m \<Longrightarrow> \<not> (length (all_bytes ps), Bias.Right) < (m, an_bias c)"
  by (simp add: less_Bias_def) (erule anchored_cases; simp add: less_Bias_def)

lemma end_order: "Locator_min < Locator_max"
  by (simp add: Locator_min_def Locator_max_def word_neq_0_conv [symmetric])

lemma min_first:
  assumes s: "fragments_ok s ps" and a: "anchored ps a n" "is_min a" and c: "anchored ps c m" "\<not> is_min c"
  shows "Anchor_cmp a c s = Some Less" "Anchor_cmp c a s = Some Greater" "(n, an_bias a) < (m, an_bias c)"
proof -
  have ne: "(an_offset a, an_bias a) < (an_offset c, an_bias c)" if "an_timestamp a = an_timestamp c"
    using a(2) c(2) that by (cases "an_bias c") (auto simp: is_min_def less_Bias_def word_neq_0_conv)
  have "\<exists>l. fragment_id_for_anchor s c = Some l \<and> Locator_min < l"
    using inner_id [OF s c] end_ids(2) [of c s] end_order by (cases "is_max c") auto
  then obtain l where l: "fragment_id_for_anchor s c = Some l" "Locator_min < l" by blast
  show "Anchor_cmp a c s = Some Less" "Anchor_cmp c a s = Some Greater"
    using Anchor_cmp_ids [OF end_ids(1) [OF a(2)] l(1)] Anchor_cmp_ids [OF l(1) end_ids(1) [OF a(2)]] ne l(2) by (auto simp: cmp_def)
  show "(n, an_bias a) < (m, an_bias c)" using place_ends(1) [OF a] place_min [OF c(1)] c(2) by simp
qed

lemma max_last:
  assumes s: "fragments_ok s ps" and a: "anchored ps a n" "is_max a" and c: "anchored ps c m" "\<not> is_max c"
  shows "Anchor_cmp c a s = Some Less" "Anchor_cmp a c s = Some Greater" "(m, an_bias c) < (n, an_bias a)"
proof -
  have ne: "(an_offset c, an_bias c) < (an_offset a, an_bias a)" if "an_timestamp a = an_timestamp c"
    using a(2) c(2) that by (cases "an_bias c") (auto simp: is_max_def less_Bias_def word_order.not_eq_extremum)
  have "\<exists>l. fragment_id_for_anchor s c = Some l \<and> l < Locator_max"
    using inner_id [OF s c(1) _ c(2)] end_ids(1) [of c s] end_order by (cases "is_min c") auto
  then obtain l where l: "fragment_id_for_anchor s c = Some l" "l < Locator_max" by blast
  show "Anchor_cmp c a s = Some Less" "Anchor_cmp a c s = Some Greater"
    using Anchor_cmp_ids [OF l(1) end_ids(2) [OF a(2)]] Anchor_cmp_ids [OF end_ids(2) [OF a(2)] l(1)] ne l(2) by (auto simp: cmp_def)
  show "(m, an_bias c) < (n, an_bias a)" using place_ends(2) [OF a] place_max [OF c(1)] c(2) by simp
qed

lemma anchored_order:
  assumes s: "fragments_ok s ps" and a: "anchored ps a n" and c: "anchored ps c m"
  shows "Anchor_cmp a c s = Some (cmp (n, an_bias a) (m, an_bias c))"
proof -
  have ok: "\<forall>p \<in> set ps. piece_ok p" using s by (simp add: fragments_ok_def tree_pieces_def)
  consider "is_min a" "is_min c" | "is_max a" "is_max c" | "is_min a" "\<not> is_min c" | "is_min c" "\<not> is_min a" | "is_max a" "\<not> is_max c"
    | "is_max c" "\<not> is_max a" | "\<not> is_min a" "\<not> is_max a" "\<not> is_min c" "\<not> is_max c" by blast
  then show ?thesis
  proof cases
    case 1
    then have "n = m" "an_bias a = an_bias c" using place_ends(1) [OF a] place_ends(1) [OF c] by simp_all
    then show ?thesis using Anchor_cmp_ids [OF end_ids(1) end_ids(1)] 1 by (simp add: is_min_def cmp_def)
  next
    case 2
    then have "n = m" "an_bias a = an_bias c" using place_ends(2) [OF a] place_ends(2) [OF c] by simp_all
    then show ?thesis using Anchor_cmp_ids [OF end_ids(2) end_ids(2)] 2 by (simp add: is_max_def cmp_def)
  next
    case 3 then show ?thesis using min_first [OF s a _ c] by (simp add: cmp_def)
  next
    case 4 then show ?thesis using min_first [OF s c _ a] by (auto simp: cmp_def)
  next
    case 5 then show ?thesis using max_last [OF s a _ c] by (auto simp: cmp_def)
  next
    case 6 then show ?thesis using max_last [OF s c _ a] by (simp add: cmp_def)
  next
    case 7
    obtain B f t A where i: "ps = B @ (f, t) # A" "holds_anchor f a" "n = length (all_bytes B) + (unat (an_offset a) - f_off f)"
      using anchored_split [OF ok a 7(1,2)] by metis
    obtain B' g u A' where j: "ps = B' @ (g, u) # A'" "holds_anchor g c" "m = length (all_bytes B') + (unat (an_offset c) - f_off g)"
      using anchored_split [OF ok c 7(3,4)] by metis
    from i(1) j(1) show ?thesis
    proof (cases rule: two_splits)
      case 1
      then show ?thesis using same_fragment_order [OF i(2), of c s "length (all_bytes B)"] i(3) j(2,3) by simp
    next
      case (2 M)
      then show ?thesis using fragment_before_order(1,3) [of s B f t M g u A' a c] s i(2,3) j(2,3) by (simp del: cmp_simps)
    next
      case (3 M)
      then show ?thesis using fragment_before_order(2,4) [of s B' g u M f t A c a] s i(2,3) j(2,3) by (simp del: cmp_simps)
    qed
  qed
qed

section \<open>Anchors when bytes are added\<close>

lemma filter_places:
  obtains pos where "length pos = length (filter P xs)" "\<And>i j. i < length pos \<Longrightarrow> j < length pos \<Longrightarrow> pos ! i < pos ! j \<longleftrightarrow> i < j"
    "\<And>i. i < length pos \<Longrightarrow> pos ! i < length xs \<and> filter P xs ! i = xs ! (pos ! i)"
proof -
  let ?pos = "filter (\<lambda>i. P (xs ! i)) [0..<length xs]"
  have "filter P (map ((!) xs) [0..<length xs]) = map ((!) xs) ?pos" by (simp add: filter_map comp_def)
  then have eq: "filter P xs = map ((!) xs) ?pos" by (simp add: map_nth)
  have sorted: "sorted_wrt (<) ?pos" by (intro sorted_wrt_filter) simp
  show thesis
  proof (rule that [of ?pos])
    fix i j assume "i < length ?pos" "j < length ?pos"
    then show "?pos ! i < ?pos ! j \<longleftrightarrow> i < j"
      using sorted_wrt_nth_less [OF sorted, of i j] sorted_wrt_nth_less [OF sorted, of j i] by (metis less_asym linorder_neqE_nat less_irrefl)
  next
    fix i assume "i < length ?pos"
    then show "?pos ! i < length xs \<and> filter P xs ! i = xs ! (?pos ! i)" using nth_mem [of i ?pos] eq by (auto simp del: nth_mem)
  qed (use eq in simp)
qed

lemma cmp_cong: "(x < y \<longleftrightarrow> x' < y') \<Longrightarrow> (y < x \<longleftrightarrow> y' < x') \<Longrightarrow> cmp x y = cmp x' y'"
  by (auto simp: cmp_def)

text \<open>The anchors keep their places in the same order.\<close>

definition keeps_anchors :: "Piece list \<Rightarrow> Piece list \<Rightarrow> bool" where
  "keeps_anchors ps qs \<longleftrightarrow> (\<exists>h. (\<forall>a n. anchored ps a n \<longrightarrow> anchored qs a (h a n)) \<and>
     (\<forall>a n c m. anchored ps a n \<and> anchored ps c m \<longrightarrow> cmp (h a n, an_bias a) (h c m, an_bias c) = cmp (n, an_bias a) (m, an_bias c)))"

lemma keeps_anchors_trans:
  assumes "keeps_anchors ps qs" "keeps_anchors qs rs" shows "keeps_anchors ps rs"
proof -
  obtain h k where "(\<forall>a n. anchored ps a n \<longrightarrow> anchored qs a (h a n)) \<and>
     (\<forall>a n c m. anchored ps a n \<and> anchored ps c m \<longrightarrow> cmp (h a n, an_bias a) (h c m, an_bias c) = cmp (n, an_bias a) (m, an_bias c))"
    "(\<forall>a n. anchored qs a n \<longrightarrow> anchored rs a (k a n)) \<and>
     (\<forall>a n c m. anchored qs a n \<and> anchored qs c m \<longrightarrow> cmp (k a n, an_bias a) (k c m, an_bias c) = cmp (n, an_bias a) (m, an_bias c))"
    using assms unfolding keeps_anchors_def by blast
  then show ?thesis unfolding keeps_anchors_def by (intro exI [of _ "\<lambda>a n. k a (h a n)"]) auto
qed

lemma keeps_anchors_same: "all_bytes qs = all_bytes ps \<Longrightarrow> keeps_anchors ps qs"
  unfolding keeps_anchors_def by (intro exI [of _ "\<lambda>a n. n"]) (simp add: anchored_def cong: Bias.case_cong)

lemma keeps_anchors_more:
  assumes "filter P (all_bytes qs) = all_bytes ps"
  shows "keeps_anchors ps qs"
proof (rule filter_places [of P "all_bytes qs"])
  fix pos
  assume pos: "length pos = length (filter P (all_bytes qs))" "\<And>i j. i < length pos \<Longrightarrow> j < length pos \<Longrightarrow> pos ! i < pos ! j \<longleftrightarrow> i < j"
    "\<And>i. i < length pos \<Longrightarrow> pos ! i < length (all_bytes qs) \<and> filter P (all_bytes qs) ! i = all_bytes qs ! (pos ! i)"
  define h where "h = (\<lambda>a n. if is_min a then 0 else if is_max a then length (all_bytes qs)
    else case an_bias a of Bias.Left \<Rightarrow> Suc (pos ! (n - 1)) | Bias.Right \<Rightarrow> pos ! n)"
  have place: "anchored qs a (h a n)" if a: "anchored ps a n" for a n
    using a
  proof (cases rule: anchored_cases)
    case 3
    then have "pos ! (n - 1) < length (all_bytes qs)" "all_bytes qs ! (pos ! (n - 1)) = all_bytes ps ! (n - 1)"
      using pos(1) pos(3) [of "n - 1"] unfolding assms by simp_all
    then show ?thesis using a 3 by (simp add: anchored_def h_def)
  next
    case 4
    then have "pos ! n < length (all_bytes qs)" "all_bytes qs ! (pos ! n) = all_bytes ps ! n"
      using pos(1) pos(3) [of n] unfolding assms by simp_all
    then show ?thesis using a 4 by (simp add: anchored_def h_def)
  qed (simp_all add: anchored_def h_def)
  have order: "(h a n, an_bias a) < (h c m, an_bias c) \<longleftrightarrow> (n, an_bias a) < (m, an_bias c)" if a: "anchored ps a n" and c: "anchored ps c m" for a n c m
  proof -
    note a' = place [OF a] and c' = place [OF c] and len = pos(1) [unfolded assms]
    consider "is_min a" | "is_max a" | "is_min c" | "is_max c" | "\<not> is_min a" "\<not> is_max a" "\<not> is_min c" "\<not> is_max c" by blast
    then show ?thesis
    proof cases
      case 1 then show ?thesis using place_ends(1) [OF a] place_ends(1) [OF a'] place_min [OF c] place_min [OF c'] by simp
    next
      case 2 then show ?thesis using place_ends(2) [OF a] place_ends(2) [OF a'] place_beyond(2) [OF c] place_beyond(2) [OF c'] by metis
    next
      case 3 then show ?thesis using place_ends(1) [OF c] place_ends(1) [OF c'] place_beyond(1) by metis
    next
      case 4 then show ?thesis using place_ends(2) [OF c] place_ends(2) [OF c'] place_max [OF a] place_max [OF a'] by simp
    next
      case 5
      then have bounds: "an_bias a = Bias.Left \<Longrightarrow> 0 < n \<and> n - 1 < length pos" "an_bias a = Bias.Right \<Longrightarrow> n < length pos"
        "an_bias c = Bias.Left \<Longrightarrow> 0 < m \<and> m - 1 < length pos" "an_bias c = Bias.Right \<Longrightarrow> m < length pos"
        using a c unfolding len anchored_def by auto
      show ?thesis
      proof (cases "an_bias a"; cases "an_bias c")
        assume b: "an_bias a = Bias.Left" "an_bias c = Bias.Left"
        then show ?thesis using 5 bounds(1,3) pos(2) [of "n - 1" "m - 1"] by (auto simp: h_def less_Bias_def)
      next
        assume b: "an_bias a = Bias.Left" "an_bias c = Bias.Right"
        then show ?thesis using 5 bounds(1,4) pos(2) [of "n - 1" m] by (auto simp: h_def less_Bias_def)
      next
        assume b: "an_bias a = Bias.Right" "an_bias c = Bias.Left"
        then show ?thesis using 5 bounds(2,3) pos(2) [of "m - 1" n] by (auto simp: h_def less_Bias_def)
      next
        assume b: "an_bias a = Bias.Right" "an_bias c = Bias.Right"
        then show ?thesis using 5 bounds(2,4) pos(2) [of n m] by (auto simp: h_def less_Bias_def)
      qed
    qed
  qed
  show ?thesis unfolding keeps_anchors_def using place order by (intro exI [of _ h]) (auto intro!: cmp_cong)
qed

lemma kept_order:
  assumes "keeps_anchors ps qs" "fragments_ok s ps" "fragments_ok s' qs" "anchored ps a n" "anchored ps c m"
  shows "Anchor_cmp a c s' = Anchor_cmp a c s"
proof -
  obtain h where "anchored qs a (h a n)" "anchored qs c (h c m)" "cmp (h a n, an_bias a) (h c m, an_bias c) = cmp (n, an_bias a) (m, an_bias c)"
    using assms(1,4,5) unfolding keeps_anchors_def by blast
  then show ?thesis using anchored_order [OF assms(2,4,5)] anchored_order [OF assms(3)] by simp
qed

end
