(* ===== verification/Text_Anchor_Follow.thy ===== *)
theory Text_Anchor_Follow
  imports Text_Anchor_Order
begin

text \<open>
  Anchors and patches: the byte that an anchor is attached to keeps its identity, so that a patch of the
  visible bytes tells where the anchor has gone.
\<close>

section \<open>Visible bytes\<close>

lemma vis_byte_split:
  assumes "\<forall>p \<in> set ps. piece_ok p" "k < length (vis_bytes ps)"
  obtains B f t A i where "ps = B @ (f, t) # A" "frag_visible f" "i < text_len t" "k = text_len (vis B) + i"
    "snd (vis_bytes ps ! k) = (frag_timestamp f, f_off f + i)"
  using assms
proof (induction ps arbitrary: k thesis)
  case (Cons p ps)
  obtain f t where p: "p = (f, t)" by (cases p)
  have ok: "piece_ok (f, t)" "\<forall>p \<in> set ps. piece_ok p" using Cons.prems(2) p by simp_all
  note len = length_piece_bytes [OF ok(1)]
  show ?case
  proof (cases "frag_visible f \<and> k < text_len t")
    case True
    then show ?thesis using Cons.prems(1) [of "[]" f t ps k] p len piece_bytes_nth [OF ok(1), of k] by (simp add: nth_append)
  next
    case False
    let ?k = "k - text_len (vis [p])"
    have k: "?k < length (vis_bytes ps)" "k = text_len (vis [p]) + ?k" "vis_bytes (p # ps) ! k = vis_bytes ps ! ?k"
      using Cons.prems(3) p len False by (auto simp: nth_append split: if_splits)
    then obtain B g u A i where i: "ps = B @ (g, u) # A" "frag_visible g" "i < text_len u" "?k = text_len (vis B) + i"
      "snd (vis_bytes ps ! ?k) = (frag_timestamp g, f_off g + i)"
      using Cons.IH [OF _ ok(2)] by metis
    show ?thesis by (rule Cons.prems(1) [of "p # B" g u A i]) (use i k in \<open>simp_all del: piece_bytes_simps\<close>)
  qed
qed simp

text \<open>The byte that an anchor is attached to, when it is at an offset.\<close>

definition anchor_byte :: "nat \<Rightarrow> Bias \<Rightarrow> nat" where
  "anchor_byte k bias = (case bias of Bias.Left \<Rightarrow> k - 1 | Bias.Right \<Rightarrow> k)"

definition byte_side :: "nat \<Rightarrow> Bias \<Rightarrow> nat" where
  "byte_side j bias = (case bias of Bias.Left \<Rightarrow> Suc j | Bias.Right \<Rightarrow> j)"

lemma anchor_keeps_byte:
  assumes s: "fragments_ok s (B @ (f, t) # A)" "frag_visible f" "holds_anchor f a" "k = text_len (vis B) + (unat (an_offset a) - f_off f)"
    and s': "fragments_ok s' qs" "j < length (vis_bytes qs)" "vis_bytes qs ! j = vis_bytes (B @ (f, t) # A) ! anchor_byte k (an_bias a)"
  shows "offset_for_anchor s' a = Some (byte_side j (an_bias a))"
proof -
  let ?i = "case an_bias a of Bias.Left \<Rightarrow> unat (an_offset a) - 1 - f_off f | Bias.Right \<Rightarrow> unat (an_offset a) - f_off f"
  have ok: "piece_ok (f, t)" "\<forall>p \<in> set B. piece_ok p" "\<forall>p \<in> set qs. piece_ok p"
    using s(1) s'(1) by (simp_all add: fragments_ok_def tree_pieces_def)
  have "f_end f = f_off f + text_len t" using ok(1) by (simp add: f_end_def piece_ok_def)
  then have i: "?i < text_len t" "anchor_byte k (an_bias a) = text_len (vis B) + ?i"
    using s(3,4) by (auto simp: holds_anchor_def anchor_byte_def split: Bias.splits)
  then have "snd (vis_bytes (B @ (f, t) # A) ! anchor_byte k (an_bias a)) = (frag_timestamp f, f_off f + ?i)"
    using s(2) length_vis_bytes [OF ok(2)] length_piece_bytes [OF ok(1)] piece_bytes_nth [OF ok(1) i(1)] by (simp add: nth_append)
  then have at: "snd (vis_bytes qs ! j) = (frag_timestamp f, f_off f + ?i)" using s'(3) by simp
  show ?thesis
  proof (rule vis_byte_split [OF ok(3) s'(2)])
    fix C g u D l
    assume v: "qs = C @ (g, u) # D" "frag_visible g" "l < text_len u" "j = text_len (vis C) + l" "snd (vis_bytes qs ! j) = (frag_timestamp g, f_off g + l)"
    have "piece_ok (g, u)" using ok(3) v(1) by simp
    then have "f_end g = f_off g + text_len u" by (simp add: f_end_def piece_ok_def)
    moreover have "frag_timestamp g = frag_timestamp f" "f_off g + l = f_off f + ?i" using v(5) at by simp_all
    ultimately have "holds_anchor g a \<and> byte_side j (an_bias a) = text_len (vis C) + (unat (an_offset a) - f_off g)"
      using s(3) v(3,4) by (auto simp: holds_anchor_def byte_side_def split: Bias.splits)
    then show ?thesis using offset_for_anchor_ok(1) [of s' C g u D a] s'(1) v(1,2) by simp
  qed
qed

section \<open>The edges of edits\<close>

text \<open>The bytes right before and right after an edit of a patch are the same in both texts.\<close>

lemma patch_edges:
  assumes p: "is_patch p A B" "separated p" "e \<in> set p"
  shows "r_start (ed_new e) = 0 \<or> 0 < r_start (ed_old e) \<and> r_start (ed_old e) \<le> length A \<and> r_start (ed_new e) \<le> length B \<and>
      0 < r_start (ed_new e) \<and> A ! (r_start (ed_old e) - 1) = B ! (r_start (ed_new e) - 1)"
    and "r_end (ed_new e) = length B \<or> r_end (ed_old e) < length A \<and> r_end (ed_new e) < length B \<and> A ! r_end (ed_old e) = B ! r_end (ed_new e)"
proof -
  obtain q r where pe: "p = q @ e # r" using p(3) by (meson split_list)
  have to: "patch_to 0 0 q A B (r_start (ed_old e)) (r_start (ed_new e))"
    and from_end: "patch_to (r_end (ed_old e)) (r_end (ed_new e)) r A B (length A) (length B)"
    using p(1) by (auto simp: is_patch_def pe patch_to_append)
  have after: "r = [] \<or> edit_before e (hd r)" using p(2) by (auto simp: separated_def pe successively_append_iff successively_Cons)
  have run: "r_start (ed_new e) = 0 \<or> 0 < n \<and> i + n = r_start (ed_old e) \<and> j + n = r_start (ed_new e) \<and> same_run n i j A B \<Longrightarrow>
    r_start (ed_new e) = 0 \<or> 0 < r_start (ed_old e) \<and> r_start (ed_old e) \<le> length A \<and> r_start (ed_new e) \<le> length B \<and>
      0 < r_start (ed_new e) \<and> A ! (r_start (ed_old e) - 1) = B ! (r_start (ed_new e) - 1)" for n i j
    unfolding same_run_def by (metis Nat.add_diff_assoc One_nat_def Suc_leI add_gr_0 diff_less zero_less_one)
  show "r_start (ed_new e) = 0 \<or> 0 < r_start (ed_old e) \<and> r_start (ed_old e) \<le> length A \<and> r_start (ed_new e) \<le> length B \<and>
      0 < r_start (ed_new e) \<and> A ! (r_start (ed_old e) - 1) = B ! (r_start (ed_new e) - 1)"
  proof (cases q rule: rev_cases)
    case Nil
    then show ?thesis using to by (intro run [of "r_start (ed_old e)" 0 0]) auto
  next
    case (snoc q' f)
    have "edit_before f e" using p(2) by (auto simp: separated_def pe snoc successively_append_iff)
    then show ?thesis using to unfolding snoc patch_to_append
      by (intro run [of "r_start (ed_old e) - r_end (ed_old f)" "r_end (ed_old f)" "r_end (ed_new f)"]) (auto simp: edit_before_def)
  qed
  show "r_end (ed_new e) = length B \<or> r_end (ed_old e) < length A \<and> r_end (ed_new e) < length B \<and> A ! r_end (ed_old e) = B ! r_end (ed_new e)"
  proof (cases "r_end (ed_old e) < length A")
    case True
    have "r = [] \<or> r_end (ed_old e) < r_start (ed_old (hd r))" using after by (auto simp: edit_before_def)
    from run_after [OF from_end _ _ this] True show ?thesis by simp
  next
    case False
    have "r = []"
    proof (rule ccontr)
      assume "r \<noteq> []"
      then obtain g s where "r = g # s" by (cases r) auto
      then show False using from_end after False by (auto simp: edit_before_def dest: patch_to_bounds)
    qed
    then show ?thesis using from_end False by simp
  qed
qed

section \<open>Anchors between the edges\<close>

lemma byte_side_simps [simp]: "byte_side j Bias.Left = Suc j" "byte_side j Bias.Right = j" "anchor_byte (byte_side j bias) bias = j"
  by (simp_all add: byte_side_def anchor_byte_def split: Bias.splits)

lemma visible_before_le: "visible_before ps n \<le> text_len (vis ps)"
  using visible_before_mono [of n "n + length (visible_flags ps)" ps] by (simp add: visible_before_def length_filter_flags)

text \<open>An anchor at either side of a visible byte, and its place after a change.\<close>

lemma byte_anchor:
  assumes s: "fragments_ok s ps" "k < length (vis_bytes ps)" and s': "fragments_ok s' qs" "k' < length (vis_bytes qs)" "vis_bytes qs ! k' = vis_bytes ps ! k"
  obtains c m where "an_bias c = bias" "anchored ps c m" "bias = Bias.Left \<Longrightarrow> 0 < m \<and> visible_before ps (m - 1) = k"
    "bias = Bias.Right \<Longrightarrow> visible_before ps (Suc m) = Suc k" "offset_for_anchor s' c = Some (byte_side k' bias)"
proof -
  have ok: "\<forall>p \<in> set ps. piece_ok p" using s(1) by (simp add: fragments_ok_def tree_pieces_def)
  show thesis
  proof (rule vis_byte_split [OF ok s(2)])
    fix B f t A i
    assume v: "ps = B @ (f, t) # A" "frag_visible f" "i < text_len t" "k = text_len (vis B) + i" "snd (vis_bytes ps ! k) = (frag_timestamp f, f_off f + i)"
    have fr: "fragments_ok s (B @ (f, t) # A)" using s(1) v(1) by simp
    let ?c = "Anchor_new (frag_timestamp f) (word_of_nat (f_off f + byte_side i bias)) bias 0"
    have "piece_ok (f, t)" using ok v(1) by simp
    then have len: "f_end f = f_off f + text_len t" "f_end f < 2 ^ 32" using fr by (simp_all add: f_end_def piece_ok_def fragments_ok_def spans_ok_def)
    have "byte_side i bias \<le> text_len t" using v(3) by (cases bias) simp_all
    then have off: "unat (an_offset ?c) = f_off f + byte_side i bias" "an_bias ?c = bias" "an_timestamp ?c = frag_timestamp f"
      using len by (simp_all add: Anchor_new_def an_timestamp_def unat_of_nat del: of_nat_add)
    then have holds: "holds_anchor f ?c" using v(3) len(1) by (cases bias) (simp_all add: holds_anchor_def)
    note place = split_anchored [OF ok v(1) len(2) holds, unfolded off(1)]
    let ?m = "length (all_bytes B) + (f_off f + byte_side i bias - f_off f)"
    have before: "j \<le> text_len t \<Longrightarrow> visible_before ps (length (all_bytes B) + j) = text_len (vis B) + j" for j
      using visible_before_split [OF ok [unfolded v(1)], of j] v(1,2) by simp
    have byte: "byte_side k bias = text_len (vis B) + (unat (an_offset ?c) - f_off f)" using off(1) v(4) by (cases bias) simp_all
    have "offset_for_anchor s' ?c = Some (byte_side k' bias)"
      using anchor_keeps_byte [OF fr v(2) holds byte s'(1,2)] s'(3) v(1) off(2) by simp
    moreover have "bias = Bias.Left \<Longrightarrow> 0 < ?m \<and> visible_before ps (?m - 1) = k" "bias = Bias.Right \<Longrightarrow> visible_before ps (Suc ?m) = Suc k"
      using before [of i] before [of "Suc i"] v(3,4) by simp_all
    ultimately show thesis by (intro that [OF off(2) place])
  qed
qed

lemma anchor_bounds:
  assumes s: "fragments_ok s ps" "fragments_ok s' qs" "keeps_anchors ps qs"
    and p: "is_patch p (vis_bytes ps) (vis_bytes qs)" "separated p" "e \<in> set p"
    and a: "anchored ps a n" "visible_before ps n = byte_side j (an_bias a)" "r_start (ed_old e) \<le> j" "j < r_end (ed_old e)"
  shows "\<exists>k. offset_for_anchor s' a = Some k \<and> r_start (ed_new e) \<le> k \<and> k \<le> r_end (ed_new e)"
proof -
  obtain h where h: "\<And>c m. anchored ps c m \<Longrightarrow> anchored qs c (h c m)"
    and order: "\<And>c m. anchored ps c m \<Longrightarrow> cmp (h a n, an_bias a) (h c m, an_bias c) = cmp (n, an_bias a) (m, an_bias c)"
    using s(3) a(1) unfolding keeps_anchors_def by blast
  note offset = anchored_offset [OF s(2) h]
  have side: "j \<le> byte_side j (an_bias a)" "byte_side j (an_bias a) \<le> Suc j" by (cases "an_bias a"; simp)+
  have "r_start (ed_new e) \<le> visible_before qs (h a n)"
    using patch_edges(1) [OF p]
  proof
    let ?k = "r_start (ed_old e) - 1" and ?k' = "r_start (ed_new e) - 1"
    assume e: "0 < r_start (ed_old e) \<and> r_start (ed_old e) \<le> length (vis_bytes ps) \<and> r_start (ed_new e) \<le> length (vis_bytes qs) \<and>
      0 < r_start (ed_new e) \<and> vis_bytes ps ! ?k = vis_bytes qs ! ?k'"
    then have k: "?k < length (vis_bytes ps)" "?k' < length (vis_bytes qs)" "vis_bytes qs ! ?k' = vis_bytes ps ! ?k" by auto
    obtain c m where c: "an_bias c = Bias.Left" "anchored ps c m" "0 < m" "visible_before ps (m - 1) = ?k" "offset_for_anchor s' c = Some (byte_side ?k' Bias.Left)"
      by (rule byte_anchor [OF s(1) k(1) s(2) k(2,3), of Bias.Left]) simp
    have "m \<le> n"
    proof (rule ccontr)
      assume "\<not> m \<le> n"
      then have "visible_before ps n \<le> ?k" using visible_before_mono [of n "m - 1" ps] c(4) by simp
      moreover have "0 < r_start (ed_old e)" using e by blast
      ultimately show False using a(2,3) side(1) by linarith
    qed
    then have "\<not> (n, an_bias a) < (m, an_bias c)" using c(1) by (auto simp: less_Bias_def)
    then have "cmp (h a n, an_bias a) (h c m, an_bias c) \<noteq> Less" using order [OF c(2)] by simp
    then have "h c m \<le> h a n" by (auto simp: not_less)
    from visible_before_mono [OF this, of qs] show ?thesis using offset [OF c(2)] c(5) e by simp
  qed simp
  moreover have "visible_before qs (h a n) \<le> r_end (ed_new e)"
    using patch_edges(2) [OF p]
  proof
    assume "r_end (ed_new e) = length (vis_bytes qs)"
    moreover have "\<forall>p \<in> set qs. piece_ok p" using s(2) by (simp add: fragments_ok_def tree_pieces_def)
    ultimately show ?thesis using visible_before_le [of qs "h a n"] length_vis_bytes by metis
  next
    let ?k = "r_end (ed_old e)" and ?k' = "r_end (ed_new e)"
    assume e: "?k < length (vis_bytes ps) \<and> ?k' < length (vis_bytes qs) \<and> vis_bytes ps ! ?k = vis_bytes qs ! ?k'"
    then have k: "?k < length (vis_bytes ps)" "?k' < length (vis_bytes qs)" "vis_bytes qs ! ?k' = vis_bytes ps ! ?k" by auto
    obtain c m where c: "an_bias c = Bias.Right" "anchored ps c m" "visible_before ps (Suc m) = Suc ?k" "offset_for_anchor s' c = Some (byte_side ?k' Bias.Right)"
      by (rule byte_anchor [OF s(1) k(1) s(2) k(2,3), of Bias.Right]) simp
    have "n \<le> m"
    proof (rule ccontr)
      assume "\<not> n \<le> m"
      then have "Suc ?k \<le> visible_before ps n" using visible_before_mono [of "Suc m" n ps] c(3) by simp
      then show False using a(2,4) side(2) by simp
    qed
    then have "\<not> (m, an_bias c) < (n, an_bias a)" using c(1) by (auto simp: less_Bias_def)
    then have "cmp (h a n, an_bias a) (h c m, an_bias c) \<noteq> Greater" using order [OF c(2)] by simp
    then have "h a n \<le> h c m" by (auto simp: not_less)
    from visible_before_mono [OF this, of qs] show ?thesis using offset [OF c(2)] c(4) by simp
  qed
  ultimately show ?thesis using offset [OF a(1)] by blast
qed

end
