(* ===== verification/Text_Anchor_Correct.thy ===== *)
theory Text_Anchor_Correct
  imports Text_Anchor_Follow
begin

text \<open>
  What anchors promise: an anchor at an offset resolves to it in every dimension, anchors are ordered as
  the text is, edits and undo operations never change their order, and an anchor follows its byte to
  where the edits that a subscription reports put it.
\<close>

section \<open>Anchors at offsets\<close>

lemma snapshot_parts:
  assumes "snapshot_ok s ps"
  shows "fragments_ok s ps" "rope_ok (bs_visible_text s)" "rope_text (bs_visible_text s) = vis ps" "\<forall>p \<in> set ps. piece_ok p"
  using assms by (simp_all add: snapshot_ok_def fragments_ok_def tree_pieces_def)

lemma usize_offset:
  assumes "snapshot_ok s ps" "is_boundary (vis ps) k" "text_len (vis ps) < 2 ^ 32" shows "usize_to_offset s k = Some k"
  using assms snapshot_parts(2,3) [OF assms(1)] by (simp add: usize_to_offset_def rope_assert_eq)

lemma anchor_at_ok:
  assumes s: "snapshot_ok s ps" and off: "is_boundary (vis ps) k" "text_len (vis ps) < 2 ^ 32"
  obtains a n where "anchor_at_offset s k bias = Some a" "an_bias a = bias" "anchored ps a n" "is_valid a s = Some True" "offset_for_anchor s a = Some k"
proof -
  note parts = snapshot_parts [OF s]
  have len: "rope_len (bs_visible_text s) = text_len (vis ps)" using rope_len_eq [OF parts(2)] parts(3) by simp
  have k: "k \<le> text_len (vis ps)" using off(1) by (rule is_boundary_bounds(1))
  consider "bias = Bias.Left" "k = 0" | "bias = Bias.Right" "k = text_len (vis ps)"
    | "bias = Bias.Left \<Longrightarrow> 0 < k" "bias = Bias.Right \<Longrightarrow> k < text_len (vis ps)" using k by (cases bias) force+
  then show thesis
  proof cases
    case 1
    have "is_min (min_for_buffer (bs_remote_id s))" by (simp add: is_min_def min_for_buffer_def an_timestamp_def Lamport_MIN_def)
    then show thesis using that [of "min_for_buffer (bs_remote_id s)" 0] 1
      by (simp add: anchor_at_offset_def anchored_def is_valid_def offset_for_anchor_def) (simp add: min_for_buffer_def)
  next
    case 2
    have m: "is_max (max_for_buffer (bs_remote_id s))" by (simp add: is_max_def max_for_buffer_def an_timestamp_def Lamport_MAX_def)
    then have "\<not> is_min (max_for_buffer (bs_remote_id s))" using not_both by blast
    then show thesis using that [of "max_for_buffer (bs_remote_id s)" "length (all_bytes ps)"] 2 m len
      by (simp add: anchor_at_offset_def anchored_def is_valid_def offset_for_anchor_def) (simp add: max_for_buffer_def)
  next
    case 3
    show thesis
    proof (rule anchor_at_offset_ok [OF parts(1) off 3])
      fix a B f t A
      assume a: "anchor_at_offset s k bias = Some a" "an_bias a = bias" "an_buffer_id a = bs_remote_id s" "ps = B @ (f, t) # A" "frag_visible f"
        "holds_anchor f a" "k = text_len (vis B) + (unat (an_offset a) - f_off f)"
      have fr: "fragments_ok s (B @ (f, t) # A)" using parts(1) a(4) by simp
      have "f_end f < 2 ^ 32" using fr by (simp add: fragments_ok_def spans_ok_def)
      note place = split_anchored [OF parts(4) a(4) this a(6)]
      show thesis using offset_for_anchor_ok(1,2) [OF fr a(6)] a(3,5,7) by (intro that [OF a(1,2) place]) simp_all
    qed
  qed
qed

lemma summary_for_anchor_ok:
  assumes "text_dimension D val" "rope_ok (bs_visible_text s)" "height (rope_chunks (bs_visible_text s)) < 16"
    and "rope_text (bs_visible_text s) = x @ y" "text_len (x @ y) < 2 ^ 32" "offset_for_anchor s a = Some (text_len x)"
  shows "summary_for_anchor D s a = Some (val x)"
proof -
  have bounds: "is_boundary (x @ y) 0" "is_boundary (x @ y) (text_len x)" by (auto simp: is_boundary_split)
  then have off: "usize_to_offset s 0 = Some 0" "usize_to_offset s (text_len x) = Some (text_len x)"
    using assms(2,4,5) by (simp_all add: usize_to_offset_def rope_assert_eq)
  have "rope_text (bs_visible_text s) = [] @ x @ y" using assms(4) by simp
  from rope_cursor_ok [OF assms(2,3) this] obtain rc where rc: "rope_cursor (bs_visible_text s) 0 = Some rc" "rc_at rc [] (x @ y)" by auto
  from text_dimension.rope_cursor_summary_ok [OF assms(1) rc(2)]
  obtain rc' where "rope_cursor_summary D rc (text_len x) = Some (rc', val x)" by auto
  then show ?thesis using off rc(1) assms(6) by (simp add: summary_for_anchor_def text_summary_for_range_def)
qed

text \<open>(C10) An anchor at an offset resolves to it: creating one on a character boundary succeeds, the anchor is
  valid, it has the bias that was asked for, and it resolves to the offset, and to its line and column,
  in bytes and in UTF-16 units.  Changing its bias keeps the offset.\<close>

theorem anchor_offset_roundtrip:
  assumes "snapshot_ok s ps" "shallow s" "rope_text (bs_visible_text s) = x @ y" "text_len (x @ y) < 2 ^ 32"
  shows "\<exists>a n. anchor_at usize_to_offset s (text_len x) bias = Some a \<and> an_bias a = bias \<and> anchored ps a n \<and> is_valid a s = Some True \<and>
    offset_for_anchor s a = Some (text_len x) \<and> Anchor_to_offset s a = Some (text_len x) \<and> Anchor_to_point s a = Some (point_of x) \<and>
    Anchor_to_point_utf16 s a = Some (point_utf16_of x) \<and> Anchor_to_offset_utf16 s a = Some (text_len_utf16 x) \<and>
    (\<exists>a'. with_bias a bias' s = Some a' \<and> an_bias a' = bias' \<and> offset_for_anchor s a' = Some (text_len x))"
proof -
  have xy: "vis ps = x @ y" using snapshot_parts(3) [OF assms(1)] assms(3) by simp
  have b: "is_boundary (vis ps) (text_len x)" "text_len (vis ps) < 2 ^ 32" unfolding xy using assms(4) by (auto simp: is_boundary_split)
  have h: "height (rope_chunks (bs_visible_text s)) < 16" using assms(2) by (simp add: shallow_def)
  obtain a n where a: "anchor_at_offset s (text_len x) bias = Some a" "an_bias a = bias" "anchored ps a n" "is_valid a s = Some True"
    "offset_for_anchor s a = Some (text_len x)" by (rule anchor_at_ok [OF assms(1) b])
  note summaries = summary_for_anchor_ok [OF _ snapshot_parts(2) [OF assms(1)] h assms(3,4) a(5)]
  have offset: "Anchor_to_offset s a = Some (text_len x)"
    unfolding Anchor_to_offset_def by (rule summaries [OF usize_summary.text_dimension_axioms])
  obtain c m where c: "anchor_at_offset s (text_len x) bias' = Some c" "an_bias c = bias'" "offset_for_anchor s c = Some (text_len x)"
    by (rule anchor_at_ok [OF assms(1) b])
  have "with_bias a bias' s = (if bias' = bias then Some a else Some c)"
    using c(1) offset a(2) by (cases bias; cases bias')
      (simp_all add: with_bias_def bias_left_def bias_right_def anchor_before_def anchor_after_def anchor_at_def)
  then have "\<exists>a'. with_bias a bias' s = Some a' \<and> an_bias a' = bias' \<and> offset_for_anchor s a' = Some (text_len x)"
    using a(2,5) c(2,3) by simp
  then show ?thesis
    using a usize_offset [OF assms(1) b] offset summaries [OF point_summary.text_dimension_axioms] summaries [OF point_utf16_summary.text_dimension_axioms]
      summaries [OF utf16_summary.text_dimension_axioms]
    by (intro exI [of _ a] exI [of _ n]) (simp add: anchor_at_def Anchor_to_point_def Anchor_to_point_utf16_def Anchor_to_offset_utf16_def)
qed

text \<open>A buffer that shows two characters, for the examples.\<close>

lemma hi_buffer:
  obtains b ps where "Buffer_new id 1 0 [104, 105] = Some b" "buffer_ok (\<lambda>_. []) b ps" "usable b" "vis ps = [104, 105]"
    "topic_subs (b_subscriptions b) = []" "snapshot_ok (b_snapshot b) ps" "shallow (b_snapshot b)"
proof -
  have "[104, 105] \<noteq> ([] :: ustr)" "text_len [104, 105] \<le> 128" "id [104, 105] = ([104, 105] :: ustr)" by (simp_all add: text_len_def len_utf8_def)
  then obtain b where b: "Buffer_new id 1 0 [104, 105] = Some b" "buffer_ok (\<lambda>_. []) b (base_pieces [104, 105])" "usable b"
    "vis (base_pieces [104, 105]) = [104, 105]" by (rule small_buffer)
  have "topic_subs (b_subscriptions b) = []"
    using b(1) by (auto simp: Buffer_new_def Buffer_new_normalized_def bind_eq_Some_conv Let_def split: if_splits)
  then show thesis using that [OF b(1-4)] b(2,3) by (simp add: buffer_ok_def usable_def)
qed

lemma hi_lengths: "text_len [104] = 1" "text_len [104, 105] = 2" "text_len [33] = 1"
  by (simp_all add: text_len_def len_utf8_def)

theorem anchor_offset_roundtrip_witness:
  "\<exists>b a. Buffer_new id 1 0 [104, 105] = Some b \<and> anchor_at usize_to_offset (b_snapshot b) 1 Bias.Left = Some a \<and>
    is_valid a (b_snapshot b) = Some True \<and> Anchor_to_offset (b_snapshot b) a = Some 1"
proof (rule hi_buffer)
  fix b ps
  assume b: "Buffer_new id 1 0 [104, 105] = Some b" "buffer_ok (\<lambda>_. []) b ps" "vis ps = [104, 105]" "snapshot_ok (b_snapshot b) ps" "shallow (b_snapshot b)"
  have "rope_text (bs_visible_text (b_snapshot b)) = [104] @ [105]" using buffer_text [OF b(2)] b(3) by simp
  moreover have "text_len ([104] @ [105]) < 2 ^ 32" by (simp add: hi_lengths)
  ultimately show ?thesis using anchor_offset_roundtrip [OF b(4,5), of "[104]" "[105]" Bias.Left Bias.Right] b(1) by (auto simp: hi_lengths)
qed

section \<open>The order of anchors\<close>

text \<open>(C9) Anchors are ordered as the text is: \<open>Anchor::cmp\<close> compares the places of the two anchors among all
  bytes of the buffer, deleted ones included, and of two anchors at the same place the one with the left
  bias is the first; the offset of an anchor is the number of visible bytes before its place, so that
  anchors in order have offsets in order.\<close>

theorem anchor_order:
  assumes "snapshot_ok s ps" "anchored ps a n" "anchored ps c m"
  shows "Anchor_cmp a c s = Some (cmp (n, an_bias a) (m, an_bias c)) \<and>
    offset_for_anchor s a = Some (visible_before ps n) \<and> offset_for_anchor s c = Some (visible_before ps m) \<and>
    (Anchor_cmp a c s \<noteq> Some Greater \<longrightarrow> visible_before ps n \<le> visible_before ps m)"
proof -
  note s = snapshot_parts(1) [OF assms(1)]
  have order: "Anchor_cmp a c s = Some (cmp (n, an_bias a) (m, an_bias c))" by (rule anchored_order [OF s assms(2,3)])
  moreover have "n \<le> m" if "cmp (n, an_bias a) (m, an_bias c) \<noteq> Greater" using that by (auto simp: not_less)
  ultimately show ?thesis using anchored_offset [OF s assms(2)] anchored_offset [OF s assms(3)] visible_before_mono by auto
qed

lemma hi_anchor:
  assumes "snapshot_ok s ps" "vis ps = [104, 105]"
  obtains a n where "anchor_at usize_to_offset s 1 bias = Some a" "an_bias a = bias" "anchored ps a n" "offset_for_anchor s a = Some 1"
proof -
  have "is_boundary (x @ y) (text_len x)" for x y by (auto simp: is_boundary_split)
  from this [of "[104]" "[105]"] have "is_boundary (vis ps) (text_len [104])" using assms(2) by simp
  moreover have "text_len (vis ps) < 2 ^ 32" unfolding assms(2) by (simp add: hi_lengths)
  ultimately have k: "is_boundary (vis ps) 1" "text_len (vis ps) < 2 ^ 32" by (simp_all add: hi_lengths)
  show thesis using that usize_offset [OF assms(1) k] by (rule_tac anchor_at_ok [OF assms(1) k, of bias]) (simp add: anchor_at_def)
qed

theorem anchor_order_witness:
  "\<exists>b a c. Buffer_new id 1 0 [104, 105] = Some b \<and> anchor_at usize_to_offset (b_snapshot b) 1 Bias.Left = Some a \<and>
    anchor_at usize_to_offset (b_snapshot b) 1 Bias.Right = Some c \<and> Anchor_cmp a a (b_snapshot b) = Some Equal \<and>
    (Anchor_cmp a c (b_snapshot b) = Some Less \<or> Anchor_cmp a c (b_snapshot b) = Some Greater)"
proof (rule hi_buffer)
  fix b ps
  assume b: "Buffer_new id 1 0 [104, 105] = Some b" "vis ps = [104, 105]" "snapshot_ok (b_snapshot b) ps"
  obtain a n where a: "anchor_at usize_to_offset (b_snapshot b) 1 Bias.Left = Some a" "an_bias a = Bias.Left" "anchored ps a n"
    by (rule hi_anchor [OF b(3,2)])
  obtain c m where c: "anchor_at usize_to_offset (b_snapshot b) 1 Bias.Right = Some c" "an_bias c = Bias.Right" "anchored ps c m"
    by (rule hi_anchor [OF b(3,2)])
  have "Anchor_cmp a a (b_snapshot b) = Some Equal" using anchor_order [OF b(3) a(3) a(3)] by (simp add: cmp_ordered)
  moreover have "Anchor_cmp a c (b_snapshot b) = Some Less \<or> Anchor_cmp a c (b_snapshot b) = Some Greater"
    using anchor_order [OF b(3) a(3) c(3)] a(2) c(2) by (cases "(n, Bias.Left) < (m, Bias.Right)") (auto simp: cmp_def)
  ultimately show ?thesis using b(1) a(1) c(1) by blast
qed

section \<open>Anchors and operations\<close>

text \<open>One edit, one undo operation or redo operation of a buffer that can take it.\<close>

inductive buffer_step :: "Buffer \<Rightarrow> Buffer \<Rightarrow> bool" where
  editing: "usable b \<Longrightarrow> to_offsets usize_to_offset replace_line_separators (b_snapshot b) edits = Some es \<Longrightarrow> es \<noteq> [] \<Longrightarrow>
    splice (rope_text (bs_visible_text (b_snapshot b))) 0 es = Some t \<Longrightarrow> new_bytes es < 2 ^ 32 \<Longrightarrow>
    buffer_edit usize_to_offset replace_line_separators started ended b edits = Some (b', op) \<Longrightarrow> buffer_step b b'"
| undoing: "usable b \<Longrightarrow> hi_transaction_depth (b_history b) = 0 \<Longrightarrow> hi_undo_stack (b_history b) = S @ [e] \<Longrightarrow> undo_fits b (edit_ids e) \<Longrightarrow>
    buffer_undo b = Some (b', r) \<Longrightarrow> buffer_step b b'"
| redoing: "usable b \<Longrightarrow> hi_transaction_depth (b_history b) = 0 \<Longrightarrow> hi_redo_stack (b_history b) = S @ [e] \<Longrightarrow> undo_fits b (edit_ids e) \<Longrightarrow>
    buffer_redo b = Some (b', r) \<Longrightarrow> buffer_step b b'"
| undoing_one: "usable b \<Longrightarrow> hi_transaction_depth (b_history b) = 0 \<Longrightarrow> hi_undo_stack (b_history b) = S @ e # R \<Longrightarrow> undo_fits b (edit_ids e) \<Longrightarrow>
    undo_transaction b (transaction_id e) = Some (b', op') \<Longrightarrow> buffer_step b b'"
| undoing_to: "hi_transaction_depth (b_history b) = 0 \<Longrightarrow> hi_undo_stack (b_history b) = S @ e # R \<Longrightarrow>
    all_fit (b\<lparr>b_history := (b_history b)\<lparr>hi_undo_stack := S, hi_redo_stack := hi_redo_stack (b_history b) @ rev (e # R)\<rparr>\<rparr>) (rev (e # R)) \<Longrightarrow>
    undo_to_transaction b (transaction_id e) = Some (b', ops) \<Longrightarrow> buffer_step b b'"
| redoing_to: "hi_transaction_depth (b_history b) = 0 \<Longrightarrow> hi_redo_stack (b_history b) = S @ e # R \<Longrightarrow>
    all_fit (b\<lparr>b_history := (b_history b)\<lparr>hi_undo_stack := hi_undo_stack (b_history b) @ rev (e # R), hi_redo_stack := S\<rparr>\<rparr>) (rev (e # R)) \<Longrightarrow>
    redo_to_transaction b (transaction_id e) = Some (b', ops) \<Longrightarrow> buffer_step b b'"

lemma buffer_step_ok:
  assumes "buffer_step b b'" "buffer_ok seen b ps"
  shows "\<exists>ps'. buffer_ok seen b' ps' \<and> keeps_anchors ps ps'"
  using assms
proof cases
  case (editing r edits es t started ended op)
  have "splice (vis ps) 0 es = Some t" using editing(4) buffer_text [OF assms(2)] by simp
  from buffer_edit_ok [OF assms(2) editing(1-3) this editing(5), of started ended]
  show ?thesis using editing(6) keeps_anchors_more by (metis option.inject prod.inject)
next
  case (undoing S e r)
  from buffer_undo_ok [OF assms(2) undoing(2,3,1,4)] show ?thesis using undoing(5) keeps_anchors_same by (metis option.inject prod.inject)
next
  case (redoing S e r)
  from buffer_redo_ok [OF assms(2) redoing(2,3,1,4)] show ?thesis using redoing(5) keeps_anchors_same by (metis option.inject prod.inject)
next
  case (undoing_one S e R op')
  from undo_transaction_ok [OF assms(2) undoing_one(2,3,1,4)]
  show ?thesis using undoing_one(5) keeps_anchors_same by (metis option.inject prod.inject)
next
  case (undoing_to S e R ops)
  from undo_to_transaction_ok [OF assms(2) undoing_to(1,2,3)]
  show ?thesis using undoing_to(4) keeps_anchors_same by (metis option.inject prod.inject)
next
  case (redoing_to S e R ops)
  from redo_to_transaction_ok [OF assms(2) redoing_to(1,2,3)]
  show ?thesis using redoing_to(4) keeps_anchors_same by (metis option.inject prod.inject)
qed

lemma buffer_steps_ok:
  assumes "buffer_step\<^sup>*\<^sup>* b b'" "buffer_ok seen b ps"
  shows "\<exists>ps'. buffer_ok seen b' ps' \<and> keeps_anchors ps ps'"
  using assms
proof (induction rule: rtranclp_induct)
  case base
  then show ?case using keeps_anchors_same [of ps ps] by blast
next
  case (step c d)
  then show ?case using buffer_step_ok keeps_anchors_trans by blast
qed

lemma buffer_snapshot: "buffer_ok seen b ps \<Longrightarrow> snapshot_ok (b_snapshot b) ps"
  by (simp add: buffer_ok_def)

text \<open>(C8) Edits, undo and redo never make an anchor unresolvable and never change the order of two: after any
  number of them every anchor still has a place in the buffer, deleted text included (so its byte may
  be invisible and \<open>is_valid\<close> false), it resolves to an offset, and \<open>Anchor::cmp\<close> gives the same answer as
  before, so that sorted anchors stay sorted.\<close>

theorem anchor_order_stable:
  assumes "buffer_ok seen b ps" "buffer_step\<^sup>*\<^sup>* b b'" "anchored ps a n" "anchored ps c m"
  shows "Anchor_cmp a c (b_snapshot b') = Anchor_cmp a c (b_snapshot b) \<and>
    (\<exists>ps' n'. buffer_ok seen b' ps' \<and> anchored ps' a n' \<and> offset_for_anchor (b_snapshot b') a = Some (visible_before ps' n'))"
proof -
  obtain ps' where ps': "buffer_ok seen b' ps'" "keeps_anchors ps ps'" using buffer_steps_ok [OF assms(2,1)] by blast
  note old = snapshot_parts(1) [OF buffer_snapshot [OF assms(1)]] and new = snapshot_parts(1) [OF buffer_snapshot [OF ps'(1)]]
  obtain n' where "anchored ps' a n'" using ps'(2) assms(3) unfolding keeps_anchors_def by blast
  then show ?thesis using kept_order [OF ps'(2) old new assms(3,4)] anchored_offset [OF new] ps'(1) by blast
qed

text \<open>An edit of the example.\<close>

lemma hi_step:
  assumes "buffer_ok seen b ps" "usable b" "vis ps = [104, 105]"
  obtains b' op where "buffer_edit usize_to_offset id 0 0 b [((0, 0), [33])] = Some (b', op)" "buffer_step b b'"
proof -
  have zero: "usize_to_offset (b_snapshot b) 0 = Some 0"
    using usize_offset [OF buffer_snapshot [OF assms(1)], of 0] assms(3) is_boundary_split [of "vis ps" 0] by (auto simp: hi_lengths)
  let ?es = "[(\<lparr>r_start = 0, r_end = 0\<rparr>, [33])]"
  have es: "to_offsets usize_to_offset id (b_snapshot b) [((0, 0), [33])] = Some ?es" "?es \<noteq> []" using zero by (simp_all add: to_offsets_def)
  have splice: "splice (vis ps) 0 ?es = Some [33, 104, 105]" using assms(3) by (simp add: str_slice_def hi_lengths)
  then have splice': "splice (rope_text (bs_visible_text (b_snapshot b))) 0 ?es = Some [33, 104, 105]" using buffer_text [OF assms(1)] by simp
  have bytes: "new_bytes ?es < 2 ^ 32" by (simp add: new_bytes_def hi_lengths)
  show thesis
  proof (rule buffer_edit_ok [OF assms(1,2) es splice bytes, of 0 0])
    fix b' op N
    assume "buffer_edit usize_to_offset id 0 0 b [((0, 0), [33])] = Some (b', Op_Edit op)"
    then show thesis using that buffer_step.editing [OF assms(2) es splice' bytes] by blast
  qed
qed

theorem anchor_order_stable_witness:
  "\<exists>b a c b' op. Buffer_new id 1 0 [104, 105] = Some b \<and> anchor_at usize_to_offset (b_snapshot b) 1 Bias.Left = Some a \<and>
    anchor_at usize_to_offset (b_snapshot b) 1 Bias.Right = Some c \<and> buffer_edit usize_to_offset id 0 0 b [((0, 0), [33])] = Some (b', op) \<and>
    Anchor_cmp a c (b_snapshot b') = Anchor_cmp a c (b_snapshot b) \<and> offset_for_anchor (b_snapshot b') a \<noteq> None"
proof (rule hi_buffer)
  fix b ps
  assume b: "Buffer_new id 1 0 [104, 105] = Some b" "buffer_ok (\<lambda>_. []) b ps" "usable b" "vis ps = [104, 105]" "snapshot_ok (b_snapshot b) ps"
  obtain a n where a: "anchor_at usize_to_offset (b_snapshot b) 1 Bias.Left = Some a" "anchored ps a n" by (rule hi_anchor [OF b(5,4)])
  obtain c m where c: "anchor_at usize_to_offset (b_snapshot b) 1 Bias.Right = Some c" "anchored ps c m" by (rule hi_anchor [OF b(5,4)])
  obtain b' op where e: "buffer_edit usize_to_offset id 0 0 b [((0, 0), [33])] = Some (b', op)" "buffer_step b b'" by (rule hi_step [OF b(2-4)])
  from anchor_order_stable [OF b(2) r_into_rtranclp [of buffer_step, OF e(2)] a(2) c(2)] show ?thesis using b(1) a(1) c(1) e(1) by fastforce
qed

section \<open>Anchors and subscriptions\<close>

text \<open>Operations keep the subscriptions.\<close>

definition subscribed :: "nat \<Rightarrow> Buffer \<Rightarrow> bool" where
  "subscribed i b \<longleftrightarrow> topic_patches (b_subscriptions b) i \<noteq> None"

lemma publish_keeps: "publish t edits = Some t' \<Longrightarrow> topic_patches t i \<noteq> None \<Longrightarrow> topic_patches t' i \<noteq> None"
proof -
  have "publish_loop edits patches subs = Some (patches', subs') \<Longrightarrow> patches i \<noteq> None \<Longrightarrow> patches' i \<noteq> None" for patches patches' subs subs'
    by (induction subs arbitrary: patches subs') (force simp: bind_eq_Some_conv split: option.splits if_splits)+
  then show "publish t edits = Some t' \<Longrightarrow> topic_patches t i \<noteq> None \<Longrightarrow> topic_patches t' i \<noteq> None"
    by (auto simp: publish_def bind_eq_Some_conv)
qed

lemma subscribed_edit: "buffer_edit f r started ended b edits = Some (b', op) \<Longrightarrow> subscribed i b \<Longrightarrow> subscribed i b'"
  by (auto simp: buffer_edit_def apply_local_edit_def b_start_transaction_at_def b_tick_def b_end_transaction_at_def observe_version_def
      subscribed_def bind_eq_Some_conv Let_def split: prod.splits option.splits dest!: publish_keeps [of _ _ _ i])

lemma subscribed_undo_or_redo: "undo_or_redo b transaction = Some (b', op) \<Longrightarrow> subscribed i b \<Longrightarrow> subscribed i b'"
  by (auto simp: undo_or_redo_def undo_operations_def apply_undo_def b_tick_def observe_version_def subscribed_def bind_eq_Some_conv Let_def
      split: prod.splits dest!: publish_keeps [of _ _ _ i])

lemma subscribed_entry: "undo_or_redo_entry b entry = Some (b', r) \<Longrightarrow> subscribed i b \<Longrightarrow> subscribed i b'"
  by (auto simp: undo_or_redo_entry_def bind_eq_Some_conv split: option.splits dest: subscribed_undo_or_redo)

lemma subscribed_all: "undo_or_redo_all b entries = Some (b', ops) \<Longrightarrow> subscribed i b \<Longrightarrow> subscribed i b'"
  by (induction entries arbitrary: b ops) (auto simp: bind_eq_Some_conv dest: subscribed_undo_or_redo)

lemma subscribed_history: "subscribed i (b\<lparr>b_history := h\<rparr>) = subscribed i b"
  by (simp add: subscribed_def)

lemma subscribed_moved:
  "undo_or_redo_entry (b\<lparr>b_history := h\<rparr>) entry = Some (b', r) \<Longrightarrow> subscribed i b \<Longrightarrow> subscribed i b'"
  "undo_or_redo_all (b\<lparr>b_history := h\<rparr>) entries = Some (b', ops) \<Longrightarrow> subscribed i b \<Longrightarrow> subscribed i b'"
  using subscribed_entry subscribed_all by (metis subscribed_history)+

lemma subscribed_step: "buffer_step b b' \<Longrightarrow> subscribed i b \<Longrightarrow> subscribed i b'"
  by (induction rule: buffer_step.induct)
    (auto simp: buffer_undo_def buffer_redo_def undo_transaction_def undo_to_transaction_def redo_to_transaction_def bind_eq_Some_conv
      dest: subscribed_edit subscribed_moved)

lemma subscribed_steps: "buffer_step\<^sup>*\<^sup>* b b' \<Longrightarrow> subscribed i b \<Longrightarrow> subscribed i b'"
  by (induction rule: rtranclp_induct) (auto dest: subscribed_step)

lemma subscribe_ok:
  "buffer_ok seen b ps \<Longrightarrow> i \<notin> set (topic_subs (b_subscriptions b)) \<Longrightarrow> buffer_ok (seen(i := vis_bytes ps)) (b_subscribe i b) ps"
  using topic_inv_subscribe [of seen "vis_bytes ps" "b_subscriptions b" i] by (simp add: buffer_ok_def b_subscribe_def)

text \<open>(C4) An anchor follows its byte: for a subscription that is made when the text is \<open>x @ y\<close>, and any number
  of edits, undo and redo operations after that, consuming the subscription yields a patch to the new
  text.  The anchor that was created after \<open>x\<close> is attached to the byte before or after it, depending on
  its bias.  When that byte is outside of what the patch replaces, the anchor resolves to the place
  where the patch has moved it; when it is in a replaced range, the anchor is in the new range.\<close>

theorem anchors_follow_edits:
  assumes "buffer_ok seen b ps" "i \<notin> set (topic_subs (b_subscriptions b))"
    and "rope_text (bs_visible_text (b_snapshot b)) = x @ y" "text_len (x @ y) < 2 ^ 32"
    and "bias = Bias.Left \<Longrightarrow> x \<noteq> []" "bias = Bias.Right \<Longrightarrow> y \<noteq> []"
    and "anchor_at usize_to_offset (b_snapshot b) (text_len x) bias = Some a" "buffer_step\<^sup>*\<^sup>* (b_subscribe i b) b'"
  shows "\<exists>p topic ps' k. consume i (b_subscriptions b') = Some (p, topic) \<and> buffer_ok (seen(i := vis_bytes ps)) b' ps' \<and>
    is_patch p (vis_bytes ps) (vis_bytes ps') \<and> offset_for_anchor (b_snapshot b') a = Some k \<and>
    (let j = anchor_byte (text_len x) bias in
      ((\<forall>e \<in> set p. j < r_start (ed_old e) \<or> r_end (ed_old e) \<le> j) \<longrightarrow> k = byte_side (old_to_new p j) bias) \<and>
      (\<forall>e \<in> set p. r_start (ed_old e) \<le> j \<and> j < r_end (ed_old e) \<longrightarrow> r_start (ed_new e) \<le> k \<and> k \<le> r_end (ed_new e)))"
proof -
  let ?s = "b_snapshot b" and ?s' = "b_snapshot b'" and ?j = "anchor_byte (text_len x) bias"
  note s = buffer_snapshot [OF assms(1)]
  have xy: "vis ps = x @ y" using snapshot_parts(3) [OF s] assms(3) by simp
  have bound: "is_boundary (vis ps) (text_len x)" "text_len (vis ps) < 2 ^ 32" unfolding xy using assms(4) by (auto simp: is_boundary_split)
  have inner: "bias = Bias.Left \<Longrightarrow> 0 < text_len x" "bias = Bias.Right \<Longrightarrow> text_len x < text_len (vis ps)"
    using assms(5,6) xy by (simp_all add: text_len_pos)
  have at: "anchor_at_offset ?s (text_len x) bias = Some a" using assms(7) usize_offset [OF s bound] by (simp add: anchor_at_def)
  obtain ps' where ps': "buffer_ok (seen(i := vis_bytes ps)) b' ps'" "keeps_anchors ps ps'"
    using buffer_steps_ok [OF assms(8) subscribe_ok [OF assms(1,2)]] by blast
  note fr = snapshot_parts(1) [OF s] and fr' = snapshot_parts(1) [OF buffer_snapshot [OF ps'(1)]]
  have "subscribed i (b_subscribe i b)" by (simp add: subscribed_def b_subscribe_def subscribe_def)
  then obtain p where live: "topic_patches (b_subscriptions b') i = Some p" using subscribed_steps [OF assms(8)] by (auto simp: subscribed_def)
  have "topic_inv (seen(i := vis_bytes ps)) (vis_bytes ps') (b_subscriptions b')" using ps'(1) by (simp add: buffer_ok_def)
  from topic_inv_consume [OF this live] obtain topic where p: "consume i (b_subscriptions b') = Some (p, topic)"
    "is_patch p (vis_bytes ps) (vis_bytes ps')" "separated p" by auto
  show ?thesis
  proof (rule anchor_at_offset_ok [OF fr bound inner])
    fix a' B f t A
    assume a': "anchor_at_offset ?s (text_len x) bias = Some a'" "an_bias a' = bias" "ps = B @ (f, t) # A" "frag_visible f" "holds_anchor f a'"
      "text_len x = text_len (vis B) + (unat (an_offset a') - f_off f)"
    then have a: "an_bias a = bias" "holds_anchor f a" "text_len x = text_len (vis B) + (unat (an_offset a) - f_off f)" using at by simp_all
    have f: "f_end f < 2 ^ 32" using fr a'(3) by (simp add: fragments_ok_def spans_ok_def)
    note place = split_anchored [OF snapshot_parts(4) [OF s] a'(3) f a(2)]
    let ?n = "length (all_bytes B) + (unat (an_offset a) - f_off f)"
    have offset: "visible_before ps ?n = text_len x"
      using anchored_offset [OF fr place] offset_for_anchor_ok(1) [OF fr [unfolded a'(3)] a(2)] a(3) a'(4) by simp
    have j: "text_len x = byte_side ?j bias" using inner(1) by (cases bias) (simp_all add: anchor_byte_def)
    have len: "length (vis_bytes ps) = text_len (vis ps)" by (rule length_vis_bytes [OF snapshot_parts(4) [OF s]])
    have "?j < text_len (vis ps)"
    proof (cases bias)
      case Left
      then have "text_len x - 1 < text_len x" using inner(1) by simp
      then show ?thesis using is_boundary_bounds(1) [OF bound(1)] Left by (simp add: anchor_byte_def)
    qed (use inner(2) in \<open>simp add: anchor_byte_def\<close>)
    then have "?j < length (vis_bytes ps)" using len by simp
    then have moved: "offset_for_anchor ?s' a = Some (byte_side (old_to_new p ?j) bias)"
      if "\<forall>e \<in> set p. ?j < r_start (ed_old e) \<or> r_end (ed_old e) \<le> ?j"
      using old_to_new_ok [OF p(2,3), of ?j] that anchor_keeps_byte [OF fr [unfolded a'(3)] a'(4) a(2,3) fr', of "old_to_new p ?j"] a(1) a'(3)
      by (metis less_imp_le not_less)
    have between: "\<exists>k. offset_for_anchor ?s' a = Some k \<and> r_start (ed_new e) \<le> k \<and> k \<le> r_end (ed_new e)"
      if "e \<in> set p" "r_start (ed_old e) \<le> ?j" "?j < r_end (ed_old e)" for e
      using anchor_bounds [OF fr fr' ps'(2) p(2,3) that(1) place] offset j a(1) that(2,3) by simp
    obtain n' where "anchored ps' a n'" using ps'(2) place unfolding keeps_anchors_def by blast
    from anchored_offset [OF fr' this] show ?thesis using p(1,2) ps'(1) moved between unfolding Let_def
      by (intro exI [of _ p] exI [of _ topic] exI [of _ ps'] exI [of _ "visible_before ps' n'"]) fastforce
  qed
qed

theorem anchors_follow_edits_witness:
  "\<exists>b a b' op p topic k. Buffer_new id 1 0 [104, 105] = Some b \<and> anchor_at usize_to_offset (b_snapshot b) 1 Bias.Left = Some a \<and>
    buffer_edit usize_to_offset id 0 0 (b_subscribe 7 b) [((0, 0), [33])] = Some (b', op) \<and> consume 7 (b_subscriptions b') = Some (p, topic) \<and>
    offset_for_anchor (b_snapshot b') a = Some k"
proof (rule hi_buffer)
  fix b ps
  assume b: "Buffer_new id 1 0 [104, 105] = Some b" "buffer_ok (\<lambda>_. []) b ps" "usable b" "vis ps = [104, 105]"
    "topic_subs (b_subscriptions b) = []" "snapshot_ok (b_snapshot b) ps"
  obtain a n where a: "anchor_at usize_to_offset (b_snapshot b) 1 Bias.Left = Some a" by (rule hi_anchor [OF b(6,4)])
  have fresh: "7 \<notin> set (topic_subs (b_subscriptions b))" using b(5) by simp
  have "usable (b_subscribe 7 b)" using b(3) by (simp add: usable_def b_subscribe_def)
  then obtain b' op where e: "buffer_edit usize_to_offset id 0 0 (b_subscribe 7 b) [((0, 0), [33])] = Some (b', op)" "buffer_step (b_subscribe 7 b) b'"
    by (rule hi_step [OF subscribe_ok [OF b(2) fresh] _ b(4)])
  have shown: "rope_text (bs_visible_text (b_snapshot b)) = [104] @ [105]" "text_len ([104] @ [105]) < 2 ^ 32"
    using buffer_text [OF b(2)] b(4) by (simp_all add: hi_lengths)
  have at: "anchor_at usize_to_offset (b_snapshot b) (text_len [104]) Bias.Left = Some a" using a by (simp add: hi_lengths)
  from anchors_follow_edits [OF b(2) fresh shown _ _ at r_into_rtranclp [of buffer_step, OF e(2)]] show ?thesis using b(1) a e(1) by auto
qed

end
