(* ===== verification/Spec2Isabelle.thy ===== *)
theory Spec2Isabelle
  imports Clock TreeMaps Rope_Text_Words Rope_Cursor Text_Patch Text_Locator Text_Undo Text_Anchor_Correct
begin

text \<open>
  Verification of the text engine of Zerminal (a terminal and editor in Rust, \<open>src/crates\<close>).

  The program keeps the text of a buffer in a \<open>Rope\<close>, a balanced tree of 128-byte chunks.  Ropes, the
  maps and sets of the program and the fragments of a buffer are all instances of one generic
  B+ tree, \<open>SumTree\<close>, whose nodes cache the summary of their items, and which is searched by adding
  summaries up along any \<open>Dimension\<close>.  Replicas order their operations with the clocks of the
  \<open>clock\<close> crate, name positions between fragments by \<open>Locator\<close>s, and describe a change of the text by
  a \<open>Patch\<close>, which a \<open>Topic\<close> passes on to subscriptions.  A \<open>Buffer\<close> puts these together: its fragments
  cut the insertions into pieces that are visible or deleted, two ropes hold the visible and the
  deleted text, an index finds the fragments of an insertion, the undo map counts how often an edit
  has been undone, and the history groups the edits into transactions.  These parts are modelled
  here; the editor, the windows, the terminal and the language servers are built on them.

  \<^bold>\<open>Theories and sources\<close>

  \<^item> \<open>Prelude\<close>: collections of rewrite rules, machine arithmetic and list lemmas that are shared.
  \<^item> \<open>Clock\<close> (\<open>clock/src/clock.rs\<close>): Lamport timestamps and version vectors (\<open>Global\<close>), as a record with
    a list of 32-bit sequence numbers.  Shown: join is the pointwise maximum and a semilattice on
    canonical vectors, the comparisons decide the pointwise order, updates keep vectors canonical,
    ticking and observing move a clock past what it has seen.
  \<^item> \<open>SumTree\<close>, \<open>SumTree_Build\<close>, \<open>SumTree_Find\<close> (\<open>sum_tree/src/sum_tree.rs\<close>): the nodes with their cached
    summaries, appending, pushing, bulk construction in sequence and in parallel, updating the ends,
    searching.  The trait \<open>Summary\<close> is the record \<open>summary_ops\<close> with the laws of the locale
    \<open>summary_algebra\<close>, a \<open>Dimension\<close> is \<open>dimension_ops\<close> with those of \<open>dimension_algebra\<close>.  Shown: every
    operation keeps the balance and the caches (\<open>wf_tree\<close>), never meets a panic, acts on the sequence
    of items as the name says, and a search is a linear scan.
  \<^item> \<open>Cursor\<close>, \<open>Cursor_Seek\<close>, \<open>Cursor_Step\<close>, \<open>Cursor_Back\<close>, \<open>Cursor_Height\<close> (\<open>sum_tree/src/cursor.rs\<close>): the
    cursor with its stack of 16 entries, seeking, slicing, summing, stepping both ways, filtered
    cursors and iterators.  The three aggregates of a seek share the locale \<open>aggregate_contract\<close>.
    Shown: a cursor stands between the items before and after it, each operation moves it as a scan
    would, and a slice is at most twice as high as the tree it is cut from.
  \<^item> \<open>SumTree_Keyed\<close>, \<open>TreeMaps\<close> (\<open>sum_tree.rs\<close>, \<open>tree_map.rs\<close>): trees sorted by a key (locale \<open>keyed_tree\<close>),
    batches of edits, \<open>TreeMap\<close> and \<open>TreeSet\<close>.  Shown: they refine finite maps and sets; \<open>extend\<close> overrides a
    map exactly if no key is repeated, and what it does then holds for every order that the unstable sort
    of the edits may give (\<open>edit_sorted\<close> takes the edits in any sorted order).
  \<^item> \<open>Rope_Text\<close> (\<open>rope/src/point.rs\<close>, \<open>TextSummary\<close> of \<open>rope.rs\<close>): text as code points with their UTF-8
    bytes, points, the scan that summarises a text and the addition of summaries.  \<open>Rope_Text_Words\<close>: the
    same operations on the \<open>u32\<close> and \<open>usize\<close> words of the source.  Shown: below four gigabytes the
    words are the numbers, so that the other theories count with numbers.
  \<^item> \<open>Rope_Bits\<close>, \<open>Rope_Chunk\<close>, \<open>Rope_Chunk_Ops\<close>, \<open>Rope_Select\<close>, \<open>Rope_Chunk_Points\<close> (\<open>rope/src/chunk.rs\<close>):
    chunks with their four 128-bit maps, edits, slices, summaries by counting bits, the branchless
    selection of the n-th bit, conversions and clipping of positions inside a chunk.  Shown: the bit
    operations agree with the scan of the text, and \<open>slice\<close> is described for every range, with the shifts
    both as in builds with overflow checks and as in release builds (\<open>shr_checked\<close>, \<open>shr_wrapping\<close>).
  \<^item> \<open>Rope_Tree\<close>, \<open>Rope_Positions\<close> (\<open>rope/src/rope.rs\<close>): building and joining ropes, their summaries, the
    eleven conversions between byte offsets, UTF-16 offsets, points and UTF-16 points, and clipping;
    the four dimensions interpret the locale \<open>text_dim\<close>.  Shown: ropes refine strings, conversions are
    mutually inverse on the positions of the text, clipping ends in the nearest admissible position on
    the side of the bias (graphemes are those of the part of the row in its chunk, as the code looks
    at one chunk only).
  \<^item> \<open>Rope_Cursor\<close> (\<open>rope/src/rope.rs\<close>): the rope cursor with slicing, summing and skipping, replacing a
    range.  Shown: they are slicing, summarising and replacing on strings.
  \<^item> \<open>Text_Patch\<close> (\<open>text/src/patch.rs\<close>, \<open>subscription.rs\<close>): patches as lists of edits, composition, the
    images of positions, topics.  Shown: composition of patches composes the changes of the text, and
    a subscription that consumes gets one patch from the text it has last seen to the current one.
  \<^item> \<open>Text_Locator\<close> (\<open>text/src/locator.rs\<close>): 64-bit digits in lexicographic order.  Shown: \<open>between\<close> is above
    the lower locator, and below the upper one unless that is the lower one followed by zeros, which no
    locators made by \<open>between\<close> are; sequential appends do not make locators grow.
  \<^item> \<open>Text_History\<close>, \<open>Text_Undo\<close> (\<open>History\<close> of \<open>text/src/text.rs\<close>, \<open>undo_map.rs\<close>): transactions, their
    grouping in time, the undo and the redo stack; the counts of undos by edit and undo operation.
    Shown: the map answers with the largest count of an edit, in whatever order the counts come.
  \<^item> \<open>Text_Fragment\<close> (\<open>text.rs\<close>): fragments with their summaries and dimensions, the index of insertions,
    the builders of fragment trees and of the two ropes.
  \<^item> \<open>Text_Edit\<close>, \<open>Text_Edit_Parts\<close>, \<open>Text_Edit_Steps\<close>, \<open>Text_Edit_Correct\<close> (\<open>Buffer::apply_local_edit\<close>): one
    definition per part of the loop over the edits, then what each part does to the pieces of text
    that the fragments and the ropes stand for.  The predicate \<open>recovers\<close> says that undoing the edit
    gives the old text back under every set of other edits that are undone.
  \<^item> \<open>Text_Buffer\<close> (\<open>Buffer\<close>, \<open>BufferSnapshot\<close>, \<open>LineEnding\<close> of \<open>text.rs\<close>): the buffer with construction,
    branching, transactions, editing, undoing and redoing.
  \<^item> \<open>Text_Buffer_Edit\<close>, \<open>Text_Buffer_Ids\<close>, \<open>Text_Buffer_Undo\<close>, \<open>Text_Buffer_New\<close>: the invariant \<open>buffer_ok\<close> of
    buffers, and that edits, undo operations and construction establish or keep it;
    \<open>fragment_ids_for_edits\<close> finds every fragment that edits have touched.
  \<^item> \<open>Text_Buffer_Timeline\<close>, \<open>Text_Buffer_Ops\<close>, \<open>Text_Buffer_Moves\<close>, \<open>Text_Buffer_Correct\<close>: the abstract
    specification is a line of texts, those before the present one, the present one and those to
    be redone (\<open>Timeline\<close>); editing, undoing and redoing refine its operations.
    \<open>Text_Buffer_Sample\<close> holds concrete buffers for the witnesses.
  \<^item> \<open>Text_Anchor\<close> (\<open>anchor.rs\<close> and the methods of \<open>BufferSnapshot\<close> that create and resolve anchors):
    \<open>Anchor\<close>, its order and validity, ranges of anchors, and the conversions to offsets and points.
    \<open>Text_Anchor_Find\<close> (the fragment of an anchor is found), \<open>Text_Anchor_Place\<close> and
    \<open>Text_Anchor_Order\<close> (an anchor has a place among all bytes of the buffer, deleted ones included, and
    anchors are ordered by it), \<open>Text_Anchor_Follow\<close> (patches and anchors) and \<open>Text_Anchor_Correct\<close>:
    anchors resolve to the offset they were created at, edits, undo and redo keep their order, and an
    anchor goes where the patch of a subscription moves its byte.

  \<^bold>\<open>Conventions and bounds\<close>

  A panic, an overflow of a fixed-capacity array and an underflow of an index are the value \<open>None\<close>.
  Assertions that only log in the source (\<open>log::error!\<close>, \<open>debug_panic!\<close> in release builds) do nothing.
  Arithmetic on words wraps as in a release build.  Lengths in bytes and indices (\<open>usize\<close>) are natural
  numbers.  The rows, columns and line lengths of points and summaries are natural numbers, too; on
  texts below four gigabytes they are the values of the 32-bit words (\<open>Rope_Text_Words\<close>), and above that
  the theorems that do not ask for such a length speak of the numbers only.  Points are packed
  into 64-bit words where the source packs them.  Node heights are natural numbers, \<open>u8\<close> in the source: a
  height of 255 takes more items than memory holds.  Unstable sorts (\<open>sort_unstable_by_key\<close> in
  \<open>SumTree::edit\<close>, \<open>sort_unstable\<close> in \<open>fragment_ids_for_edits\<close>) are stable ones; equal elements have the
  same effect in the second, and in the first \<open>edit_sorted\<close> covers every order.  The subtypes of summaries
  (\<open>ChunkSummary\<close>, \<open>FragmentSum\<close>) replace a value outside of their invariant by the empty summary, which
  never happens for the chunks and fragments of a well-formed rope or buffer.  So do the 32-bit offsets of fragments into insertions: the text
  of one edit is below four gigabytes (\<open>MAX_INSERTION_LEN\<close>).  A cursor keeps 16 stack entries, so
  seeking asks for trees of height below 16.  The source enforces no lower bound on the children of
  a node and slices may be twice as high as their tree, so cutting a rope asks for a height of at
  most 6, and editing a buffer for fragment trees of height at most 7; with the usual six children
  per node this is more than \<open>6 ^ 7\<close> items.  \<open>shallow\<close>, \<open>usable\<close>, \<open>undo_fits\<close> and \<open>all_fit\<close> state these
  heights and that the 32-bit Lamport clock has room for the ticks of the operation.
  An empty list of edits is a panic of \<open>apply_local_edit\<close>, so \<open>None\<close>.  Loops over a cursor carry fuel (one more than the number of
  items is enough, as the theorems show); every other loop is a terminating function.  Grapheme
  boundaries come from the \<open>unicode_segmentation\<close> crate and are a parameter, of which only two rules of the
  Unicode standard are used: the start and the end of a line are boundaries, and so is the middle of
  two ASCII characters other than a line break (\<open>segments_lines\<close>).  Closures that the source passes (filters,
  update functions) are pure functions.  Parallel construction is the concatenation of its parts
  in order.  Instants are natural numbers, the counts of an undo operation (a hash map) a list of
  pairs.  The regular expression that replaces line separators belongs to the \<open>regex\<close> crate and is the
  parameter \<open>replace_line_separators\<close>.

  \<^bold>\<open>Not modelled\<close>

  Debug formatting, the wall clock, logging; the iterators over the chunks, bytes and lines of a
  rope.  Of the buffer: remote operations (\<open>apply_remote_edit\<close>, the queue of deferred operations and
  waiting for versions), since their dimension \<open>VersionedFullOffset\<close> is not a homomorphism on
  summaries, so that a search is not a scan, and since the summary of the operation queue asserts
  that it is added in order; the iterator over the edits since a version, the batch
  iterator \<open>summaries_for_anchors\<close>, and selections.  The crates
  above the text engine are user interface, file systems, processes and network.
\<close>

end
